(* ===== verification/Prelude.thy ===== *)
theory Prelude
  imports Main "HOL-Library.Word" "HOL-Library.Monad_Syntax" "HOL-Library.Multiset"
begin

text \<open>
  Shared ground of the development: the machine types of the x86-64 build (\<open>size_t\<close>,
  pointers, \<open>unsigned int\<close>), the bit-level facts on 64-bit words that the allocator's
  head words, alignments and bit maps need, the distance predicate that keeps
  heap updates at different nodes apart, and the rule collections of the components.
\<close>

section \<open>Machine types\<close>

unbundle bit_operations_syntax

type_synonym u64 = "64 word"
type_synonym u32 = "32 word"

text \<open>
  A heap maps the address of an 8-byte slot to its contents. A C function that may call
  \<open>abort()\<close> or loop for ever returns an \<open>option\<close>: \<open>None\<close> is the call that does not return.
\<close>

type_synonym heap = "u64 \<Rightarrow> u64"

named_theorems heap_simps \<open>reads over writes of the heap and of the allocator state\<close>
named_theorems size_simps \<open>arithmetic of chunk sizes, alignments and head words\<close>

section \<open>Bits of the small constants\<close>

lemma bit_int_7 [simp]: "bit (7::int) n \<longleftrightarrow> n < 3"
proof -
  have "(7::int) = mask 3" by (simp add: mask_eq_exp_minus_1)
  then show ?thesis by (simp only: bit_mask_iff) auto
qed

lemma bit_int_3 [simp]: "bit (3::int) n \<longleftrightarrow> n < 2"
proof -
  have "(3::int) = mask 2" by (simp add: mask_eq_exp_minus_1)
  then show ?thesis by (simp only: bit_mask_iff) auto
qed

lemma bit_int_2 [simp]: "bit (2::int) n \<longleftrightarrow> n = 1"
proof -
  have "(2::int) = push_bit 1 1" by simp
  then show ?thesis by (simp only: bit_push_bit_iff) (auto simp: bit_1_iff)
qed

lemma bit_int_m8 [simp]: "bit (- 8 :: int) n \<longleftrightarrow> 3 \<le> n"
proof -
  have "(- 8 :: int) = NOT 7" by simp
  then show ?thesis by (simp only: bit_not_iff bit_int_7) auto
qed

lemma bit_int_m2 [simp]: "bit (- 2 :: int) n \<longleftrightarrow> 1 \<le> n"
proof -
  have "(- 2 :: int) = NOT 1" by simp
  then show ?thesis by (simp only: bit_not_iff bit_1_iff) auto
qed

section \<open>Multiples of eight\<close>

lemma and_7_take_bit: "(x::u64) AND 7 = take_bit 3 x"
  by (rule bit_word_eqI) (auto simp: bit_simps)

lemma unat_and_7: "unat ((x::u64) AND 7) = unat x mod 8"
  by (simp add: and_7_take_bit unsigned_take_bit_eq take_bit_eq_mod unat_mod)

lemma and_7_eq_0_iff: "(x::u64) AND 7 = 0 \<longleftrightarrow> 8 dvd unat x"
proof -
  have "x AND 7 = 0 \<longleftrightarrow> unat (x AND 7) = 0" by (simp add: unat_eq_0)
  then show ?thesis by (simp add: unat_and_7 dvd_eq_mod_eq_0)
qed

lemma and_m8_minus: "x AND - 8 = x - (x AND (7::u64))"
proof -
  have "x AND - 8 = push_bit 3 (drop_bit 3 x)"
    by (rule bit_word_eqI) (auto simp: bit_simps)
  moreover have "x = push_bit 3 (drop_bit 3 x) + take_bit 3 x"
    by (simp add: bits_ident)
  ultimately show ?thesis
    by (metis add_diff_cancel_right' and_7_take_bit)
qed

lemma unat_and_m8: "unat ((x::u64) AND - 8) = 8 * (unat x div 8)"
  unfolding and_m8_minus
  by (subst unat_sub) (simp_all add: unat_and_7 word_le_nat_alt minus_mod_eq_mult_div)

lemma and_m8_and_7 [simp]: "((x::u64) AND - 8) AND 7 = 0"
  by (simp add: and_7_eq_0_iff unat_and_m8)

lemma aligned_bits: "(s::u64) AND 7 = 0 \<longleftrightarrow> \<not> bit s 0 \<and> \<not> bit s 1 \<and> \<not> bit s 2"
proof -
  have "(s AND 7 = 0) = (\<forall>n<3. \<not> bit s n)"
    by (auto simp: and_7_take_bit bit_eq_iff bit_take_bit_iff)
  also have "\<dots> = (\<not> bit s 0 \<and> \<not> bit s 1 \<and> \<not> bit s 2)"
    by (auto simp: numeral_3_eq_3 numeral_2_eq_2 less_Suc_eq)
  finally show ?thesis .
qed

lemma and_7_eq_0_iff_uint: "(x::u64) AND 7 = 0 \<longleftrightarrow> 8 dvd uint x"
  by (simp add: and_7_eq_0_iff flip: uint_nat int_dvd_int_iff)

lemma uint_add_64: "uint ((a::u64) + b) = (uint a + uint b) mod 2 ^ 64"
  by (simp add: uint_word_ariths)

lemma uint_diff_64: "uint ((a::u64) - b) = (uint a - uint b) mod 2 ^ 64"
  by (simp add: uint_word_ariths)

lemma dvd_mod_2_64: "8 dvd (x::int) mod 2 ^ 64 \<longleftrightarrow> 8 dvd x"
  by (rule dvd_mod_iff) simp

lemma aligned_add [size_simps]:
  "(a::u64) AND 7 = 0 \<Longrightarrow> (b::u64) AND 7 = 0 \<Longrightarrow> (a + b) AND 7 = 0"
  by (simp only: and_7_eq_0_iff_uint uint_add_64 dvd_mod_2_64 dvd_add)

lemma aligned_diff [size_simps]:
  "(a::u64) AND 7 = 0 \<Longrightarrow> (b::u64) AND 7 = 0 \<Longrightarrow> (a - b) AND 7 = 0"
  by (simp only: and_7_eq_0_iff_uint uint_diff_64 dvd_mod_2_64 dvd_diff)

section \<open>Head words\<close>

text \<open>
  The head word of a chunk: its size (a multiple of eight), the in-use bit of the
  previous chunk and its own in-use bit. The code builds and reads such words with
  masks; the lemmas translate each mask into a change of one component.
\<close>

definition head_word :: "u64 \<Rightarrow> bool \<Rightarrow> bool \<Rightarrow> u64" where
  "head_word s p c = s OR (if p then 1 else 0) OR (if c then 2 else 0)"

lemma head_word_size [size_simps]:
  "s AND 7 = 0 \<Longrightarrow> head_word s p c AND - 8 = s"
proof (rule bit_word_eqI)
  fix n assume "s AND 7 = 0" "n < LENGTH(64)"
  then show "bit (head_word s p c AND - 8) n = bit s n"
    by (cases "n = 0"; cases "n = 1"; cases "n = 2")
      (auto simp: head_word_def bit_simps aligned_bits)
qed

lemma head_word_pinuse [size_simps]:
  assumes "s AND 7 = 0"
  shows "head_word s p c AND 1 = of_bool p"
proof (rule bit_word_eqI)
  fix n
  show "bit (head_word s p c AND 1) n = bit (of_bool p :: u64) n"
    using assms by (cases "n = 0") (auto simp: head_word_def bit_simps aligned_bits)
qed

lemma head_word_cinuse [size_simps]:
  "s AND 7 = 0 \<Longrightarrow> head_word s p c AND 2 = (if c then 2 else 0)"
  by (rule bit_word_eqI) (auto simp: head_word_def bit_simps aligned_bits)

lemma head_word_inuse_bits [size_simps]:
  assumes "s AND 7 = 0"
  shows "head_word s p c AND 3 = (if p then 1 else 0) OR (if c then 2 else 0)"
proof (rule bit_word_eqI)
  fix n
  show "bit (head_word s p c AND 3) n = bit ((if p then 1 else 0 :: u64) OR (if c then 2 else 0)) n"
    using assms by (cases "n = 0"; cases "n = 1") (auto simp: head_word_def bit_simps aligned_bits)
qed

lemma head_word_clear_pinuse [size_simps]:
  assumes "s AND 7 = 0"
  shows "head_word s p c AND - 2 = head_word s False c"
proof (rule bit_word_eqI)
  fix n assume "n < LENGTH(64)"
  then show "bit (head_word s p c AND - 2) n = bit (head_word s False c) n"
    using assms by (cases "n = 0") (auto simp: head_word_def bit_simps aligned_bits)
qed

lemma head_word_set_pinuse [size_simps]:
  "head_word s p c OR 1 = head_word s True c"
  by (rule bit_word_eqI) (auto simp: head_word_def bit_simps)

lemma head_word_intro [size_simps]:
  "s OR 1 = head_word s True False"
  "s OR 2 = head_word s False True"
  "s OR 1 OR 2 = head_word s True True"
  "of_bool p OR s OR 2 = head_word s p True"
  by (rule bit_word_eqI, auto simp: head_word_def bit_simps)+

lemma head_word_plain: "head_word s False False = s"
  by (simp add: head_word_def)

section \<open>Arithmetic of 64- and 32-bit words\<close>

lemma unat_drop_bit: "unat (drop_bit n s) = unat (s::'a::len word) div 2^n"
proof -
  have "unat (drop_bit n s) = drop_bit n (unat s)" by (simp add: unsigned_drop_bit_eq take_bit_nat_eq_self)
  then show ?thesis by (simp add: drop_bit_eq_div)
qed

lemma unat_add64: "unat a + unat b < 2 ^ 64 \<Longrightarrow> unat ((a::u64) + b) = unat a + unat b"
  by (subst unat_plus_if') auto

lemma unat_2_pow: "n < 64 \<Longrightarrow> unat ((2::u64) ^ n) = 2 ^ n"
proof -
  assume "n < 64"
  then have "(2::nat) ^ n < 2 ^ 64" by (rule power_strict_increasing) simp
  moreover have "(2::u64) ^ n = of_nat (2 ^ n)" by simp
  ultimately show ?thesis by (simp only: unat_of_nat) simp
qed

lemma unat_and_1: "unat ((x::u64) AND 1) = unat x mod 2"
  by (simp add: and_one_eq unat_mod)

lemma unat_ucast_32: "unat (ucast (x::u64) :: u32) = unat x mod 2 ^ 32"
  by (simp add: unsigned_ucast_eq take_bit_eq_mod)

lemma unat_shl: "unat y * 2 ^ n < 2 ^ 32 \<Longrightarrow> unat (push_bit n (y::u32)) = unat y * 2 ^ n"
proof -
  assume h: "unat y * 2 ^ n < 2 ^ 32"
  have "unat (push_bit n y) = take_bit LENGTH(32) (push_bit n (unat y))"
    by (rule unsigned_push_bit_eq)
  also have "push_bit n (unat y) = unat y * 2 ^ n" by (rule push_bit_eq_mult)
  also have "take_bit LENGTH(32) (unat y * 2 ^ n) = unat y * 2 ^ n"
    using h by (intro take_bit_nat_eq_self) simp
  finally show ?thesis .
qed

section \<open>First elements, highest bits\<close>

lemma nth_first_sat:
  assumes "\<exists>x\<in>set xs. P x"
  shows "length (takeWhile (\<lambda>x. \<not> P x) xs) < length xs"
    and "P (xs ! length (takeWhile (\<lambda>x. \<not> P x) xs))"
    and "j < length (takeWhile (\<lambda>x. \<not> P x) xs) \<Longrightarrow> \<not> P (xs ! j)"
proof -
  show l: "length (takeWhile (\<lambda>x. \<not> P x) xs) < length xs"
    using assms by (induction xs) auto
  show "P (xs ! length (takeWhile (\<lambda>x. \<not> P x) xs))"
    using nth_length_takeWhile [OF l] by simp
  show "j < length (takeWhile (\<lambda>x. \<not> P x) xs) \<Longrightarrow> \<not> P (xs ! j)"
    by (metis nth_mem set_takeWhileD takeWhile_nth)
qed

lemma word32_nonzero_bit: "(X::u32) \<noteq> 0 \<Longrightarrow> \<exists>i<32. bit X i"
proof (rule ccontr)
  assume "X \<noteq> 0" and "\<not> (\<exists>i<32. bit X i)"
  then have "X = 0" by (intro bit_word_eqI) auto
  with \<open>X \<noteq> 0\<close> show False ..
qed

lemma top_bit_bounds:
  fixes x :: nat
  assumes "bit x K" "\<And>j. K < j \<Longrightarrow> \<not> bit x j"
  shows "2 ^ K \<le> x" "x < 2 ^ Suc K"
proof -
  show "2 ^ K \<le> x" using assms(1) by (metis bit_iff_odd div_less even_zero not_le)
  have "take_bit (Suc K) x = x"
    by (rule bit_eqI) (use assms(2) in \<open>force simp: bit_take_bit_iff Suc_le_eq not_less\<close>)
  then show "x < 2 ^ Suc K" by (metis take_bit_nat_less_exp)
qed

lemma upt_32:
  "[0..<32] = [0,1,2,3,4,5,6,7,8,9,10,11,12,13,14,15,16,17,18,19,20,21,22,23,24,25,26,27,28,29,30,31::nat]"
  by code_simp

lemma nat_lt_32: "(\<forall>i<32. P i) \<longleftrightarrow> list_all P [0,1,2,3,4,5,6,7,8,9,10,11,12,13,14,15,16,17,18,19,20,21,22,23,24,25,26,27,28,29,30,31::nat]"
proof -
  have "(\<forall>i<32. P i) \<longleftrightarrow> list_all P [0..<32]" by (auto simp: list_all_iff)
  then show ?thesis by (simp only: upt_32)
qed

section \<open>Addresses far enough apart\<close>

text \<open>
  \<open>far p q\<close>: the two addresses are at least 16 bytes apart in both directions, modulo
  \<open>2 ^ 64\<close>, so a slot at a small offset from one of them is never a slot at a small offset
  from the other. This is what makes updates of list links at one node invisible
  at another one.
\<close>

definition far :: "u64 \<Rightarrow> u64 \<Rightarrow> bool" where
  "far p q \<longleftrightarrow> 16 \<le> p - q \<and> 16 \<le> q - p"

lemma far_sym: "far p q \<Longrightarrow> far q p"
  by (simp add: far_def)

lemma far_neq: "far p q \<Longrightarrow> p \<noteq> q"
  by (auto simp: far_def)

lemma far_irrefl [simp]: "\<not> far p p"
  by (simp add: far_def)

lemma far_offset: 
  assumes "far p q" and "a - b < 16 \<or> b - a < 16"
  shows "p + a \<noteq> q + b"
proof
  assume "p + a = q + b"
  then have "p - q = b - a" and "q - p = a - b" by (simp_all add: algebra_simps)
  with assms show False by (auto simp: far_def)
qed

section \<open>Counting in a list that is updated\<close>

definition how_many :: "('a \<Rightarrow> bool) \<Rightarrow> 'a list \<Rightarrow> nat" where
  "how_many P xs = length (filter P xs)"

lemma how_many_update:
  "t < length xs \<Longrightarrow> how_many P (xs[t := c]) + (if P (xs ! t) then 1 else 0) = how_many P xs + (if P c then 1 else 0)"
proof -
  assume t: "t < length xs"
  have "how_many P xs = how_many P (take t xs @ xs ! t # drop (Suc t) xs)" using t by (simp only: id_take_nth_drop [symmetric])
  moreover have "xs[t := c] = take t xs @ c # drop (Suc t) xs" using t by (rule upd_conv_take_nth_drop)
  ultimately show ?thesis by (simp add: how_many_def)
qed

lemma how_many_pos: "t < length xs \<Longrightarrow> P (xs ! t) \<Longrightarrow> 0 < how_many P xs"
  by (auto simp: how_many_def filter_empty_conv)

lemma how_many_le: "how_many P xs \<le> length xs"
  by (simp add: how_many_def)

lemma how_many_mono: "(\<And>c. P c \<Longrightarrow> Q c) \<Longrightarrow> how_many P xs \<le> how_many Q xs"
  unfolding how_many_def by (induction xs) auto

section \<open>Lists of lists\<close>

lemma mset_concat_update:
  "i < length xss \<Longrightarrow> mset (concat (xss[i := ys])) + mset (xss ! i) = mset (concat xss) + mset ys"
proof (induction xss arbitrary: i)
  case (Cons xs xss)
  then show ?case by (cases i) (simp_all add: add.commute add.left_commute)
qed simp

end
