(* ===== verification/Pt_Sizes.thy ===== *)
theory Pt_Sizes
  imports Prelude
begin

text \<open>
  Sizes, alignments, bin indices and bin maps of \<open>ptmalloc3-malloc.c\<close>, with the
  configuration of \<open>ptmalloc3-malloc-numa.h\<close> on x86-64: \<open>MALLOC_ALIGNMENT = 8\<close>,
  \<open>FOOTERS = 0\<close>, \<open>sizeof(size_t) = 8\<close>. The macros are the definitions below, under their
  names. A bin index (\<open>bindex_t\<close>) is a natural number, since every index the code
  computes is below 32; a bin map (\<open>binmap_t\<close>) is a 32-bit word.
\<close>

section \<open>Alignment and padding\<close>

definition SIZE_T_SIZE :: u64 where "SIZE_T_SIZE = 8"
definition TWO_SIZE_T_SIZES :: u64 where "TWO_SIZE_T_SIZES = push_bit 1 SIZE_T_SIZE"
definition FOUR_SIZE_T_SIZES :: u64 where "FOUR_SIZE_T_SIZES = push_bit 2 SIZE_T_SIZE"
definition SIX_SIZE_T_SIZES :: u64 where "SIX_SIZE_T_SIZES = FOUR_SIZE_T_SIZES + TWO_SIZE_T_SIZES"
definition MAX_SIZE_T :: u64 where "MAX_SIZE_T = NOT 0"
definition HALF_MAX_SIZE_T :: u64 where "HALF_MAX_SIZE_T = MAX_SIZE_T div 2"
definition MALLOC_ALIGNMENT :: u64 where "MALLOC_ALIGNMENT = 8"
definition CHUNK_ALIGN_MASK :: u64 where "CHUNK_ALIGN_MASK = MALLOC_ALIGNMENT - 1"
definition MCHUNK_SIZE :: u64 where "MCHUNK_SIZE = 32"
definition CHUNK_OVERHEAD :: u64 where "CHUNK_OVERHEAD = SIZE_T_SIZE"
definition MMAP_CHUNK_OVERHEAD :: u64 where "MMAP_CHUNK_OVERHEAD = TWO_SIZE_T_SIZES"
definition MMAP_FOOT_PAD :: u64 where "MMAP_FOOT_PAD = FOUR_SIZE_T_SIZES"

definition MIN_CHUNK_SIZE :: u64 where
  "MIN_CHUNK_SIZE = (MCHUNK_SIZE + CHUNK_ALIGN_MASK) AND NOT CHUNK_ALIGN_MASK"

definition MAX_REQUEST :: u64 where "MAX_REQUEST = push_bit 2 (- MIN_CHUNK_SIZE)"
definition MIN_REQUEST :: u64 where "MIN_REQUEST = MIN_CHUNK_SIZE - CHUNK_OVERHEAD - 1"

lemma size_consts [simp]:
  "SIZE_T_SIZE = 8" "TWO_SIZE_T_SIZES = 16" "FOUR_SIZE_T_SIZES = 32" "SIX_SIZE_T_SIZES = 48"
  "MAX_SIZE_T = - 1" "HALF_MAX_SIZE_T = 9223372036854775807"
  "MALLOC_ALIGNMENT = 8" "CHUNK_ALIGN_MASK = 7" "MCHUNK_SIZE = 32" "CHUNK_OVERHEAD = 8"
  "MMAP_CHUNK_OVERHEAD = 16" "MMAP_FOOT_PAD = 32" "MIN_CHUNK_SIZE = 32"
  "MAX_REQUEST = 18446744073709551488" "MIN_REQUEST = 23"
  by (simp_all add: SIZE_T_SIZE_def TWO_SIZE_T_SIZES_def FOUR_SIZE_T_SIZES_def
      SIX_SIZE_T_SIZES_def MAX_SIZE_T_def HALF_MAX_SIZE_T_def MALLOC_ALIGNMENT_def
      CHUNK_ALIGN_MASK_def MCHUNK_SIZE_def CHUNK_OVERHEAD_def MMAP_CHUNK_OVERHEAD_def
      MMAP_FOOT_PAD_def MIN_CHUNK_SIZE_def MAX_REQUEST_def MIN_REQUEST_def)

definition is_aligned :: "u64 \<Rightarrow> bool" where
  "is_aligned A \<longleftrightarrow> A AND CHUNK_ALIGN_MASK = 0"

definition align_offset :: "u64 \<Rightarrow> u64" where
  "align_offset A =
     (if A AND CHUNK_ALIGN_MASK = 0 then 0
      else (MALLOC_ALIGNMENT - (A AND CHUNK_ALIGN_MASK)) AND CHUNK_ALIGN_MASK)"

definition chunk2mem :: "u64 \<Rightarrow> u64" where "chunk2mem p = p + TWO_SIZE_T_SIZES"
definition mem2chunk :: "u64 \<Rightarrow> u64" where "mem2chunk mem = mem - TWO_SIZE_T_SIZES"
definition align_as_chunk :: "u64 \<Rightarrow> u64" where
  "align_as_chunk A = A + align_offset (chunk2mem A)"

definition pad_request :: "u64 \<Rightarrow> u64" where
  "pad_request req = (req + CHUNK_OVERHEAD + CHUNK_ALIGN_MASK) AND NOT CHUNK_ALIGN_MASK"

definition request2size :: "u64 \<Rightarrow> u64" where
  "request2size req = (if req < MIN_REQUEST then MIN_CHUNK_SIZE else pad_request req)"

section \<open>Bins: sizes and indices\<close>

definition NSMALLBINS :: nat where "NSMALLBINS = 32"
definition NTREEBINS :: nat where "NTREEBINS = 32"
definition SMALLBIN_SHIFT :: nat where "SMALLBIN_SHIFT = 3"
definition TREEBIN_SHIFT :: nat where "TREEBIN_SHIFT = 8"
definition SIZE_T_BITSIZE :: nat where "SIZE_T_BITSIZE = 64"
definition MIN_LARGE_SIZE :: u64 where "MIN_LARGE_SIZE = push_bit TREEBIN_SHIFT 1"
definition MAX_SMALL_SIZE :: u64 where "MAX_SMALL_SIZE = MIN_LARGE_SIZE - 1"
definition MAX_SMALL_REQUEST :: u64 where
  "MAX_SMALL_REQUEST = MAX_SMALL_SIZE - CHUNK_ALIGN_MASK - CHUNK_OVERHEAD"

lemma bin_consts [simp]:
  "NSMALLBINS = 32" "NTREEBINS = 32" "SMALLBIN_SHIFT = 3" "TREEBIN_SHIFT = 8"
  "SIZE_T_BITSIZE = 64" "MIN_LARGE_SIZE = 256" "MAX_SMALL_SIZE = 255" "MAX_SMALL_REQUEST = 240"
  by (simp_all add: NSMALLBINS_def NTREEBINS_def SMALLBIN_SHIFT_def TREEBIN_SHIFT_def
      SIZE_T_BITSIZE_def MIN_LARGE_SIZE_def MAX_SMALL_SIZE_def MAX_SMALL_REQUEST_def)

definition is_small :: "u64 \<Rightarrow> bool" where
  "is_small s \<longleftrightarrow> unat (drop_bit SMALLBIN_SHIFT s) < NSMALLBINS"

definition small_index :: "u64 \<Rightarrow> nat" where
  "small_index s = unat (drop_bit SMALLBIN_SHIFT s)"

definition small_index2size :: "nat \<Rightarrow> u64" where
  "small_index2size i = push_bit SMALLBIN_SHIFT (of_nat i)"

text \<open>
  The instruction \<open>bsrl\<close> (index of the most significant set bit) and \<open>bsfl\<close> (index of
  the least significant one) of the gcc/x86 variants of the two macros below; for a zero
  operand, which the code excludes, the instructions leave their result undefined.
\<close>

definition bsrl :: "u32 \<Rightarrow> nat" where
  "bsrl X = 31 - length (takeWhile (\<lambda>i. \<not> bit X i) (rev [0..<32]))"

definition bsfl :: "u32 \<Rightarrow> nat" where
  "bsfl X = length (takeWhile (\<lambda>i. \<not> bit X i) [0..<32])"

text \<open>
  \<open>compute_tree_index\<close> as gcc compiles it on x86: \<open>X\<close> is an \<open>unsigned int\<close>, so
  \<open>S >> TREEBIN_SHIFT\<close> is cut to 32 bits.
\<close>

definition compute_tree_index :: "u64 \<Rightarrow> nat" where
  "compute_tree_index S =
     (let X = (ucast (drop_bit TREEBIN_SHIFT S) :: u32)
      in if X = 0 then 0
         else if X > 0xFFFF then NTREEBINS - 1
         else let K = bsrl X
              in 2 * K + unat (drop_bit (K + (TREEBIN_SHIFT - 1)) S AND 1))"

text \<open>The portable variant of the same macro: there \<open>X\<close> is a \<open>size_t\<close>.\<close>

definition compute_tree_index_portable :: "u64 \<Rightarrow> nat" where
  "compute_tree_index_portable S =
     (let X = drop_bit TREEBIN_SHIFT S
      in if X = 0 then 0
         else if X > 0xFFFF then NTREEBINS - 1
         else
           let Y = (ucast X :: u32);
               N = drop_bit 16 (Y - 0x100) AND 8;
               Y = push_bit (unat N) Y;
               K = drop_bit 16 (Y - 0x1000) AND 4;
               Y = push_bit (unat K) Y;
               N = N + K;
               K = drop_bit 16 (Y - 0x4000) AND 2;
               N = N + K;
               Y = push_bit (unat K) Y;
               K = 14 - N + drop_bit 15 Y
           in 2 * unat K + unat (drop_bit (unat K + (TREEBIN_SHIFT - 1)) S AND 1))"

definition bit_for_tree_index :: "nat \<Rightarrow> nat" where
  "bit_for_tree_index i =
     (if i = NTREEBINS - 1 then SIZE_T_BITSIZE - 1 else i div 2 + TREEBIN_SHIFT - 2)"

definition leftshift_for_tree_index :: "nat \<Rightarrow> nat" where
  "leftshift_for_tree_index i =
     (if i = NTREEBINS - 1 then 0
      else (SIZE_T_BITSIZE - 1) - (i div 2 + TREEBIN_SHIFT - 2))"

definition minsize_for_tree_index :: "nat \<Rightarrow> u64" where
  "minsize_for_tree_index i =
     push_bit (i div 2 + TREEBIN_SHIFT) 1
     OR push_bit (i div 2 + TREEBIN_SHIFT - 1) (of_nat (i AND 1))"

section \<open>Bin maps\<close>

definition idx2bit :: "nat \<Rightarrow> u32" where "idx2bit i = push_bit i 1"
definition least_bit :: "u32 \<Rightarrow> u32" where "least_bit x = x AND - x"
definition left_bits :: "u32 \<Rightarrow> u32" where
  "left_bits x = push_bit 1 x OR - push_bit 1 x"
definition same_or_left_bits :: "u32 \<Rightarrow> u32" where "same_or_left_bits x = x OR - x"

definition compute_bit2idx :: "u32 \<Rightarrow> nat" where "compute_bit2idx X = bsfl X"

definition compute_bit2idx_portable :: "u32 \<Rightarrow> nat" where
  "compute_bit2idx_portable X =
     (let Y = X - 1;
          K = drop_bit (16 - 4) Y AND 16; N = K;     Y = drop_bit (unat K) Y;
          K = drop_bit (8 - 3) Y AND 8;   N = N + K; Y = drop_bit (unat K) Y;
          K = drop_bit (4 - 2) Y AND 4;   N = N + K; Y = drop_bit (unat K) Y;
          K = drop_bit (2 - 1) Y AND 2;   N = N + K; Y = drop_bit (unat K) Y;
          K = drop_bit (1 - 0) Y AND 1;   N = N + K; Y = drop_bit (unat K) Y
      in unat (N + Y))"

section \<open>Requests are padded to the smallest fitting chunk size\<close>

lemma is_small_iff: "is_small s \<longleftrightarrow> s < 256"
  by (simp add: is_small_def unat_drop_bit word_less_nat_alt div_less_iff_less_mult)
lemma small_index_eq: "small_index s = unat s div 8"
  by (simp add: small_index_def unat_drop_bit)

lemma unat_pad_request:
  assumes "unat req < 2 ^ 64 - 15"
  shows "unat (pad_request req) = 8 * ((unat req + 15) div 8)"
proof -
  have "unat (req + 15) = unat req + 15"
    using assms by (subst unat_plus_if') auto
  moreover have "pad_request req = (req + 15) AND - 8"
    by (simp add: pad_request_def add.assoc)
  ultimately show ?thesis by (simp only: unat_and_m8)
qed

lemma unat_request2size:
  assumes "req < MAX_REQUEST"
  shows "unat (request2size req) = max 32 (8 * ((unat req + 15) div 8))"
proof -
  have "unat req < 2 ^ 64 - 15" using assms by (simp add: word_less_nat_alt)
  note pr = unat_pad_request [OF this]
  show ?thesis
  proof (cases "req < MIN_REQUEST")
    case True
    then show ?thesis by (auto simp: request2size_def word_less_nat_alt max_def)
  next
    case False
    then show ?thesis by (auto simp: request2size_def pr word_less_nat_alt max_def)
  qed
qed

lemma request2size_facts:
  assumes "req < MAX_REQUEST"
  shows "is_aligned (request2size req)"
    and "MIN_CHUNK_SIZE \<le> request2size req"
    and "unat req + 8 \<le> unat (request2size req)"
    and "\<And>s. is_aligned s \<Longrightarrow> MIN_CHUNK_SIZE \<le> s \<Longrightarrow> unat req + 8 \<le> unat s \<Longrightarrow> request2size req \<le> s"
proof -
  note u = unat_request2size [OF assms]
  show "is_aligned (request2size req)"
    by (simp add: is_aligned_def and_7_eq_0_iff u max_def)
  show "MIN_CHUNK_SIZE \<le> request2size req" by (simp add: word_le_nat_alt u)
  show "unat req + 8 \<le> unat (request2size req)" unfolding u by linarith
  show "request2size req \<le> s" if "is_aligned s" "MIN_CHUNK_SIZE \<le> s" "unat req + 8 \<le> unat s" for s
  proof -
    from that(1) obtain k where k: "unat s = 8 * k" by (auto simp: is_aligned_def and_7_eq_0_iff)
    have "(unat req + 15) div 8 \<le> k" using that(3) k by (simp add: less_Suc_eq_le [symmetric] div_less_iff_less_mult)
    then have "8 * ((unat req + 15) div 8) \<le> unat s" using k by simp
    then show ?thesis using that(2) by (simp add: word_le_nat_alt u)
  qed
qed

definition fits_request :: "u64 \<Rightarrow> u64 \<Rightarrow> bool" where
  "fits_request req s \<longleftrightarrow> is_aligned s \<and> MIN_CHUNK_SIZE \<le> s \<and> unat req + 8 \<le> unat s"

text \<open>
  C28: \<open>request2size\<close> pads a request below \<open>MAX_REQUEST\<close> to an aligned chunk size of at least
  \<open>MIN_CHUNK_SIZE\<close> that holds the request and its overhead without wrapping around, and to the
  least such size.
\<close>

theorem request2size_fits:
  assumes "req < MAX_REQUEST"
  shows "fits_request req (request2size req) \<and> request2size req = (LEAST s. fits_request req s)"
proof -
  note f = request2size_facts [OF assms]
  have fits: "fits_request req (request2size req)" using f(1-3) by (simp add: fits_request_def)
  moreover have "(LEAST s. fits_request req s) = request2size req"
    using fits f(4) by (intro Least_equality) (auto simp: fits_request_def)
  ultimately show ?thesis by simp
qed

theorem request2size_fits_wit:
  "fits_request 100 (request2size 100) \<and> request2size 100 = (LEAST s. fits_request 100 s)"
  by (rule request2size_fits) simp

section \<open>Bit scans\<close>

lemma bsfl_correct:
  assumes "X \<noteq> 0"
  shows "bsfl X < 32" "bit X (bsfl X)" "\<And>j. j < bsfl X \<Longrightarrow> \<not> bit X j"
proof -
  have ex: "\<exists>i\<in>set [0..<32]. bit X i" using word32_nonzero_bit [OF assms] by auto
  note f = nth_first_sat [OF ex]
  show l: "bsfl X < 32" using f(1) by (simp add: bsfl_def)
  show "bit X (bsfl X)" using f(2) l by (simp add: bsfl_def)
  show "\<not> bit X j" if "j < bsfl X" for j
    using f(3) [of j] that l by (simp add: bsfl_def)
qed

lemma bsrl_correct:
  assumes "X \<noteq> 0"
  shows "bsrl X < 32" "bit X (bsrl X)" "\<And>j. bsrl X < j \<Longrightarrow> \<not> bit X j"
proof -
  let ?xs = "rev [0..<32]"
  let ?k = "length (takeWhile (\<lambda>i. \<not> bit X i) ?xs)"
  have ex: "\<exists>i\<in>set ?xs. bit X i" using word32_nonzero_bit [OF assms] by auto
  note f = nth_first_sat [OF ex]
  have k: "?k < 32" using f(1) by simp
  have nth: "?xs ! j = 31 - j" if "j < 32" for j using that by (subst rev_nth) auto
  show "bsrl X < 32" by (simp add: bsrl_def)
  show "bit X (bsrl X)" using f(2) k by (simp add: bsrl_def nth)
  show "\<not> bit X j" if j: "bsrl X < j" for j
  proof (cases "j < 32")
    case True
    then have "31 - j < ?k" using j k by (auto simp: bsrl_def)
    then show ?thesis using f(3) [of "31 - j"] nth [of "31 - j"] True k by simp
  next
    case False then show ?thesis using bit_imp_le_length [of X j] by auto
  qed
qed

lemma bsrl_bounds:
  assumes "X \<noteq> 0"
  shows "2 ^ bsrl X \<le> unat X" "unat X < 2 ^ Suc (bsrl X)"
  using top_bit_bounds [of "unat X" "bsrl X"] bsrl_correct [OF assms]
  by (simp_all add: bit_unsigned_iff)

lemma bsrl_unique:
  assumes "2 ^ K \<le> unat X" "unat X < 2 ^ Suc K"
  shows "bsrl X = K"
proof -
  have "X \<noteq> 0" using assms(1) by auto
  note b = bsrl_bounds [OF this]
  have "(2::nat) ^ K < 2 ^ Suc (bsrl X)" "(2::nat) ^ bsrl X < 2 ^ Suc K" using assms b by linarith+
  then have "K < Suc (bsrl X)" "bsrl X < Suc K"
    by (auto intro: power_less_imp_less_exp [of "2::nat"])
  then show ?thesis by simp
qed

section \<open>Tree bins\<close>

lemma minsize_even: "K + 8 < 64 \<Longrightarrow> unat (minsize_for_tree_index (2 * K)) = 2 ^ (K + 8)"
  by (simp add: minsize_for_tree_index_def unat_2_pow)

lemma minsize_odd: "K + 8 < 64 \<Longrightarrow> unat (minsize_for_tree_index (Suc (2 * K))) = 3 * 2 ^ (K + 7)"
proof -
  assume K: "K + 8 < 64"
  have "(2::nat) ^ (K + 8) + 2 ^ (K + 7) < 2 * 2 ^ (K + 8)" by simp
  also have "\<dots> \<le> 2 ^ 64" using K power_increasing [of "K + 9" 64 "2::nat"] by (simp add: power_add)
  finally have sm: "(2::nat) ^ (K + 8) + 2 ^ (7 + K) < 18446744073709551616" by (simp add: add.commute)
  have "minsize_for_tree_index (Suc (2 * K)) = push_bit (K + 8) 1 OR push_bit (7 + K) 1"
    by (simp add: minsize_for_tree_index_def)
  also have "\<dots> = push_bit (K + 8) 1 + push_bit (7 + K) 1"
    by (rule disjunctive_add [symmetric]) (auto simp: bit_simps)
  also have "unat \<dots> = 2 ^ (K + 8) + 2 ^ (7 + K)"
    using K by (subst unat_add64) (use sm in \<open>simp_all add: unat_2_pow\<close>)
  finally show ?thesis by (simp add: power_add)
qed

lemma compute_tree_index_bounds:
  assumes "MIN_LARGE_SIZE \<le> S" and "S < 2 ^ 40"
  shows "compute_tree_index S < NTREEBINS
    \<and> minsize_for_tree_index (compute_tree_index S) \<le> S
    \<and> (compute_tree_index S = NTREEBINS - 1 \<or> S < minsize_for_tree_index (Suc (compute_tree_index S)))"
proof -
  let ?X = "ucast (drop_bit 8 S) :: u32"
  have S: "256 \<le> unat S" "unat S < 2 ^ 40"
    using assms by (simp_all add: word_le_nat_alt word_less_nat_alt)
  have X: "unat ?X = unat S div 256"
    using S(2) by (simp add: unat_ucast_32 unat_drop_bit)
  have X0: "?X \<noteq> 0" using X S(1) by (metis div_greater_zero_iff not_less unat_0 zero_less_numeral less_numeral_extra(3))
  have big: "(?X > 0xFFFF) = (unat S div 256 > 0xFFFF)" by (simp add: word_less_nat_alt X)
  define K where "K = bsrl ?X"
  define q where "q = unat S div 2 ^ (K + 7)"
  define b where "b = q mod 2"
  have idx: "compute_tree_index S = (if unat S div 256 > 0xFFFF then 31 else 2 * K + b)"
    using X0 big by (simp add: compute_tree_index_def Let_def K_def b_def q_def unat_and_1 unat_drop_bit)
  have KX: "2 ^ K \<le> unat S div 256" "unat S div 256 < 2 ^ Suc K"
    using bsrl_bounds [OF X0] by (simp_all add: X K_def)
  show ?thesis
  proof (cases "unat S div 256 > 0xFFFF")
    case True
    have "minsize_for_tree_index 31 = 0xC00000" by (simp add: minsize_for_tree_index_def)
    then show ?thesis using True by (simp add: idx word_le_nat_alt)
  next
    case False
    with KX(1) have "(2::nat) ^ K < 2 ^ 16" by simp
    then have K: "K < 16" by (rule power_less_imp_less_exp [rotated]) simp
    have lo: "2 ^ (K + 8) \<le> unat S" and hi: "unat S < 2 ^ (K + 9)"
      using KX by (simp_all add: power_add div_less_iff_less_mult less_eq_div_iff_mult_less_eq)
    have "b = 0 \<or> b = 1" by (auto simp: b_def)
    then show ?thesis
    proof
      assume b0: "b = 0"
      have "q < 4"
        using hi by (simp add: q_def div_less_iff_less_mult power_add)
      then have "q < 3" using b0 unfolding b_def by presburger
      then have "unat S < 3 * 2 ^ (K + 7)" by (simp add: q_def div_less_iff_less_mult)
      then show ?thesis using False K lo b0
        by (simp add: idx word_le_nat_alt word_less_nat_alt minsize_even minsize_odd)
    next
      assume b1: "b = 1"
      have "2 \<le> q"
        using lo by (simp add: q_def less_eq_div_iff_mult_less_eq power_add)
      then have "3 \<le> q" using b1 unfolding b_def by presburger
      then have "3 * 2 ^ (K + 7) \<le> unat S" by (simp add: q_def less_eq_div_iff_mult_less_eq)
      moreover have "unat (minsize_for_tree_index (2 * Suc K)) = 2 ^ (K + 9)"
        using K by (subst minsize_even) (simp_all add: power_add)
      ultimately show ?thesis using False K hi b1
        by (simp add: idx word_le_nat_alt word_less_nat_alt minsize_odd)
    qed
  qed
qed

lemma sign_smear:
  fixes y c :: u32
  assumes "unat y < 2 ^ 16" "unat c \<le> 2 ^ 16"
  shows "drop_bit 16 (y - c) = (if y < c then 0xFFFF else 0)"
proof -
  have "unat (drop_bit 16 (y - c)) = unat (if y < c then 0xFFFF else 0 :: u32)"
  proof (cases "y < c")
    case True
    then have "unat y < unat c" by (simp add: word_less_nat_alt)
    with True have "unat (y - c) = unat y + 2 ^ 32 - unat c" by (simp add: unat_sub_if')
    moreover have "(unat y + 2 ^ 32 - unat c) div 2 ^ 16 = 0xFFFF"
      using \<open>unat y < unat c\<close> assms by (intro div_nat_eqI) simp_all
    ultimately show ?thesis using True by (simp add: unat_drop_bit)
  next
    case False
    then have "unat (y - c) = unat y - unat c" by (auto simp: unat_sub_if' word_less_nat_alt)
    then show ?thesis using False assms by (simp add: unat_drop_bit)
  qed
  then show ?thesis by (simp only: word_unat_eq_iff)
qed

lemma smear_round:
  fixes y :: u32 and c :: u32 and n k :: nat
  assumes y: "2 ^ k \<le> unat y" "unat y < 2 ^ 16" and c: "unat c = 2 ^ (k + n)" "k + 2 * n = 16" 
    and m: "unat m = n" "0xFFFF AND m = m"
  shows "unat (drop_bit 16 (y - c) AND m) = (if y < c then n else 0)"
    and "unat (push_bit (unat (drop_bit 16 (y - c) AND m)) y) = unat y * 2 ^ (if y < c then n else 0)"
    and "2 ^ (k + n) \<le> unat y * 2 ^ (if y < c then n else 0)"
    and "unat y * 2 ^ (if y < c then n else 0) < 2 ^ 16"
proof -
  have c16: "unat c \<le> 2 ^ 16" using c by (metis add_leD1 le_add1 one_le_numeral power_increasing add.assoc mult_2)
  show 1: "unat (drop_bit 16 (y - c) AND m) = (if y < c then n else 0)"
    using sign_smear [OF y(2) c16] m by simp
  show 4: "unat y * 2 ^ (if y < c then n else 0) < 2 ^ 16"
  proof (cases "y < c")
    case True
    then have "unat y * 2 ^ n < 2 ^ (k + n) * 2 ^ n" using c by (simp add: word_less_nat_alt)
    also have "\<dots> = 2 ^ 16" by (simp flip: power_add c(2) add: mult_2 add.assoc)
    finally show ?thesis using True by simp
  next
    case False then show ?thesis using y by simp
  qed
  show "unat (push_bit (unat (drop_bit 16 (y - c) AND m)) y) = unat y * 2 ^ (if y < c then n else 0)"
    unfolding 1 using 4 by (subst unat_shl) auto
  show "2 ^ (k + n) \<le> unat y * 2 ^ (if y < c then n else 0)"
    using y(1) c(1) by (auto simp: power_add word_less_nat_alt not_less)
qed

text \<open>
  C27: The gcc/x86 and the portable variant of \<open>compute_tree_index\<close> agree on all sizes below
  \<open>2 ^ 40\<close>.
\<close>

theorem compute_tree_index_portable_eq:
  assumes "S < 2 ^ 40"
  shows "compute_tree_index_portable S = compute_tree_index S"
proof -
  let ?X = "drop_bit 8 S" and ?Y = "ucast (drop_bit 8 S) :: u32"
  have X: "unat ?X = unat S div 256" "unat S < 2 ^ 40" using assms by (simp_all add: unat_drop_bit word_less_nat_alt)
  have Y: "unat ?Y = unat ?X" using X by (simp add: unat_ucast_32)
  show ?thesis
  proof (cases "?X = 0 \<or> ?X > 0xFFFF")
    case True
    then have "?Y = 0 \<or> ?Y > 0xFFFF" using Y by (auto simp: word_less_nat_alt)
    with True Y show ?thesis
      by (auto simp: compute_tree_index_portable_def compute_tree_index_def Let_def word_less_nat_alt)
  next
    case False
    then have y: "2 ^ 0 \<le> unat ?Y" "unat ?Y < 2 ^ 16"
      using Y by (auto simp: word_less_nat_alt not_less Suc_le_eq unat_gt_0)
    define N1 where "N1 = drop_bit 16 (?Y - 0x100) AND 8"
    define Y1 where "Y1 = push_bit (unat N1) ?Y"
    define K2 where "K2 = drop_bit 16 (Y1 - 0x1000) AND 4"
    define Y2 where "Y2 = push_bit (unat K2) Y1"
    define K3 where "K3 = drop_bit 16 (Y2 - 0x4000) AND 2"
    define Y3 where "Y3 = push_bit (unat K3) Y2"
    note r1 = smear_round [OF y, of "0x100" 8 8, folded N1_def Y1_def, simplified]
    define a where "a = (if ?Y < 0x100 then 8 else 0 :: nat)"
    define b where "b = (if Y1 < 0x1000 then 4 else 0 :: nat)"
    define c where "c = (if Y2 < 0x4000 then 2 else 0 :: nat)"
    note r1' = r1 [folded a_def]
    have y1: "2 ^ 8 \<le> unat Y1" "unat Y1 < 2 ^ 16" using r1' by simp_all
    note r2 = smear_round [OF y1, of "0x1000" 4 4, folded K2_def Y2_def b_def, simplified]
    have y2: "2 ^ 12 \<le> unat Y2" "unat Y2 < 2 ^ 16" using r2 by simp_all
    note r3 = smear_round [OF y2, of "0x4000" 2 2, folded K3_def Y3_def c_def, simplified]
    have y3: "2 ^ 14 \<le> unat Y3" "unat Y3 < 2 ^ 16" using r3 by simp_all
    have Y3: "unat Y3 = unat ?Y * 2 ^ (a + b + c)" using r1' r2 r3 by (simp add: power_add)
    have "unat N1 = a" "unat K2 = b" "unat K3 = c" using r1' r2 r3 by simp_all
    moreover have abc: "a \<le> 8" "b \<le> 4" "c \<le> 2" by (simp_all add: a_def b_def c_def)
    ultimately have N: "unat (N1 + K2 + K3) = a + b + c"
      by (simp add: unat_word_ariths)
    define d where "d = unat (drop_bit 15 Y3)"
    have d: "d = unat Y3 div 2 ^ 15" by (simp add: d_def unat_drop_bit)
    have d01: "d \<le> 1" using y3 by (simp add: d div_le_dividend less_Suc_eq_le [symmetric] div_less_iff_less_mult)
    have "unat (14 - (N1 + K2 + K3)) = 14 - (a + b + c)"
      using N abc by (subst unat_sub) (simp_all add: word_le_nat_alt)
    then have K: "unat (14 - (N1 + K2 + K3) + drop_bit 15 Y3) = 14 - (a + b + c) + d"
      using d01 by (simp add: unat_word_ariths flip: d_def)
    have "14 - (a + b + c) + d = bsrl ?Y"
    proof (rule bsrl_unique [symmetric])
      have e: "14 - (a + b + c) + d + (a + b + c) = 14 + d" using abc by simp
      have "2 ^ (14 + d) \<le> unat Y3 \<and> unat Y3 < 2 ^ Suc (14 + d)"
      proof (cases "d = 0")
        case True
        then have "unat Y3 < 2 ^ 15" using d by (metis div_eq_0_iff power_not_zero zero_neq_numeral)
        then show ?thesis using True y3 by simp
      next
        case False
        then have "d = 1" using d01 by simp
        then have "2 ^ 15 \<le> unat Y3" using d by (metis div_less not_less zero_neq_one)
        then show ?thesis using \<open>d = 1\<close> y3 by simp
      qed
      then show "2 ^ (14 - (a + b + c) + d) \<le> unat ?Y"
        and "unat ?Y < 2 ^ Suc (14 - (a + b + c) + d)"
        unfolding Y3 e [symmetric] power_add [of 2 _ "a + b + c"] power_Suc
        by (simp_all add: mult.assoc [symmetric])
    qed
    then have K: "unat (14 - (N1 + K2 + K3) + drop_bit 15 Y3) = bsrl ?Y" using K by simp
    have "compute_tree_index_portable S =
      2 * unat (14 - (N1 + K2 + K3) + drop_bit 15 Y3)
      + unat (drop_bit (unat (14 - (N1 + K2 + K3) + drop_bit 15 Y3) + 7) S AND 1)"
      using False unfolding compute_tree_index_portable_def Let_def
      by (simp add: N1_def K2_def K3_def Y1_def Y2_def Y3_def)
    also have "\<dots> = compute_tree_index S"
      using False Y y unfolding K by (auto simp: compute_tree_index_def Let_def word_less_nat_alt)
    finally show ?thesis .
  qed
qed

theorem compute_tree_index_portable_eq_wit:
  "compute_tree_index_portable 1000 = compute_tree_index 1000"
  by (rule compute_tree_index_portable_eq) simp

text \<open>
  The bound of the previous property is sharp: at \<open>2 ^ 40\<close> the gcc variant, whose \<open>X\<close> is an
  \<open>unsigned int\<close>, cuts the shifted size to zero and answers bin 0, the portable one the last
  bin.
\<close>

theorem compute_tree_index_truncation:
  "compute_tree_index (2 ^ 40) = 0 \<and> compute_tree_index_portable (2 ^ 40) = NTREEBINS - 1"
  by (simp add: compute_tree_index_def compute_tree_index_portable_def Let_def)

text \<open>
  C26: \<open>compute_tree_index\<close> sorts every large chunk below \<open>2 ^ 40\<close> into the bin whose size range
  \<open>minsize_for_tree_index\<close> gives: the index is below \<open>NTREEBINS\<close>, the bin's least size is at most
  the chunk's, and the next bin's is above it unless the bin is the last one.
\<close>

theorem compute_tree_index_bin:
  assumes "MIN_LARGE_SIZE \<le> S" and "S < 2 ^ 40"
  shows "compute_tree_index S < NTREEBINS
    \<and> minsize_for_tree_index (compute_tree_index S) \<le> S
    \<and> (compute_tree_index S = NTREEBINS - 1 \<or> S < minsize_for_tree_index (Suc (compute_tree_index S)))"
  by (rule compute_tree_index_bounds [OF assms])

theorem compute_tree_index_bin_wit:
  "compute_tree_index 1000 < NTREEBINS
    \<and> minsize_for_tree_index (compute_tree_index 1000) \<le> 1000
    \<and> (compute_tree_index 1000 = NTREEBINS - 1 \<or> 1000 < minsize_for_tree_index (Suc (compute_tree_index 1000)))"
  by (rule compute_tree_index_bin) simp_all

section \<open>Bin map operations\<close>

lemma bit_idx2bit: "bit (idx2bit i) n \<longleftrightarrow> n = i \<and> i < 32"
  by (auto simp: idx2bit_def bit_simps)

lemma least_bit_eq: 
  assumes "x \<noteq> 0" 
  shows "least_bit x = idx2bit (bsfl x)"
proof -
  let ?k = "bsfl x"
  note b = bsfl_correct [OF assms]
  define y where "y = drop_bit ?k x"
  have x: "x = push_bit ?k y"
  proof (rule bit_word_eqI)
    fix n assume "n < LENGTH(32)"
    then show "bit x n = bit (push_bit ?k y) n"
      using b(3) [of n] by (cases "n < ?k") (auto simp: y_def bit_simps)
  qed
  have "odd y" using b(2) by (simp add: y_def bit_iff_odd_drop_bit)
  then obtain z where z: "y = 2 * z + 1" by (auto elim: oddE)
  have "y AND - y = 1"
  proof -
    have "- y = NOT (2 * z)" using z by (simp add: not_eq_complement)
    moreover have "y = 2 * z OR 1" using z by (simp add: or_one_eq)
    ultimately have "y AND - y = (2 * z OR 1) AND NOT (2 * z)" by simp
    also have "\<dots> = 1" by (rule bit_word_eqI) (auto simp: bit_simps)
    finally show ?thesis .
  qed
  then show ?thesis unfolding least_bit_def idx2bit_def
    by (subst (1 2) x) (simp flip: push_bit_and push_bit_minus)
qed

lemma bit_left_bits: "i < 32 \<Longrightarrow> bit (left_bits (idx2bit i)) j \<longleftrightarrow> i < j \<and> j < 32"
proof -
  have "left_bits (idx2bit i) = 2 ^ Suc i OR - (2 ^ Suc i)"
    by (simp add: left_bits_def idx2bit_def mult.commute)
  also have "- (2 ^ Suc i :: u32) = NOT (mask (Suc i))"
    by (rule minus_exp_eq_not_mask)
  finally show ?thesis by (auto simp: bit_simps)
qed

lemma bsfl_idx2bit: "i < 32 \<Longrightarrow> bsfl (idx2bit i) = i"
proof -
  assume "i < 32"
  then have "idx2bit i \<noteq> 0" using bit_idx2bit [of i i] by auto
  from bsfl_correct(2) [OF this] show ?thesis by (simp add: bit_idx2bit)
qed

lemma compute_bit2idx_portable_idx2bit: "i < 32 \<Longrightarrow> compute_bit2idx_portable (idx2bit i) = i"
proof -
  have "\<forall>i<32. compute_bit2idx_portable (idx2bit i) = i"
    unfolding nat_lt_32 by (simp add: compute_bit2idx_portable_def idx2bit_def Let_def)
  then show "i < 32 \<Longrightarrow> compute_bit2idx_portable (idx2bit i) = i" by blast
qed

text \<open>
  For a non-empty bin map, \<open>least_bit\<close> and \<open>compute_bit2idx\<close> find the first marked bin, and
  the portable variant of \<open>compute_bit2idx\<close> finds the same one.
\<close>

theorem first_marked_bin:
  assumes "x \<noteq> 0"
  shows "compute_bit2idx (least_bit x) < 32 \<and> compute_bit2idx (least_bit x) = (LEAST j. bit x j)
    \<and> compute_bit2idx_portable (least_bit x) = compute_bit2idx (least_bit x)"
proof -
  note b = bsfl_correct [OF assms]
  have "(LEAST j. bit x j) = bsfl x"
    using b(2,3) by (intro Least_equality) (auto simp: not_less [symmetric])
  then show ?thesis using b(1)
    by (simp add: compute_bit2idx_def least_bit_eq [OF assms] bsfl_idx2bit compute_bit2idx_portable_idx2bit)
qed

theorem first_marked_bin_wit:
  "compute_bit2idx (least_bit 12) < 32 \<and> compute_bit2idx (least_bit 12) = (LEAST j. bit (12::u32) j)
    \<and> compute_bit2idx_portable (least_bit 12) = compute_bit2idx (least_bit 12)"
  by (rule first_marked_bin) simp

end
