(* ===== verification/Pt_State.thy ===== *)
theory Pt_State
  imports Pt_Sizes
begin

text \<open>
  The memory of one malloc space (\<open>struct malloc_state\<close>, \<open>struct malloc_chunk\<close>,
  \<open>struct malloc_tree_chunk\<close>, \<open>struct malloc_segment\<close> of \<open>ptmalloc3-malloc.c\<close>) and the
  macros that read and write chunk heads and feet.

  Every 8-byte slot of memory that the allocator reaches through a pointer is a slot of
  \<open>hp\<close>: the fields of chunks, the bin arrays \<open>smallbins\<close> and \<open>treebins\<close>, and the
  segment records, \<open>m->seg\<close> included, at their offsets in the x86-64 layout. The scalar
  fields of \<open>struct malloc_state\<close>, whose address the code never takes, are fields of
  the record; \<open>maddr\<close> is the address of the struct itself.
\<close>

section \<open>The state of a malloc space\<close>

record mstate =
  maddr :: u64
  smallmap :: u32
  treemap :: u32
  dvsize :: u64
  topsize :: u64
  least_addr :: u64
  dv :: u64
  m_top :: u64
  trim_check :: u64
  release_checks :: u64
  magic :: u64
  footprint :: u64
  max_footprint :: u64
  mflags :: u32
  extp :: u64
  exts :: u64
  hp :: heap

text \<open>\<open>struct malloc_params\<close>: the one global record \<open>mparams\<close>.\<close>

record malloc_params =
  mp_magic :: u64
  mp_page_size :: u64
  mp_granularity :: u64
  mp_mmap_threshold :: u64
  mp_trim_threshold :: u64
  mp_default_mflags :: u32

definition upd :: "u64 \<Rightarrow> u64 \<Rightarrow> mstate \<Rightarrow> mstate" where
  "upd a v m = m\<lparr>hp := (hp m)(a := v)\<rparr>"

lemma upd_sel [simp, heap_simps]:
  "hp (upd a v m) = (hp m)(a := v)"
  "maddr (upd a v m) = maddr m" "smallmap (upd a v m) = smallmap m"
  "treemap (upd a v m) = treemap m" "dvsize (upd a v m) = dvsize m"
  "topsize (upd a v m) = topsize m" "least_addr (upd a v m) = least_addr m"
  "dv (upd a v m) = dv m" "m_top (upd a v m) = m_top m"
  "trim_check (upd a v m) = trim_check m" "release_checks (upd a v m) = release_checks m"
  "magic (upd a v m) = magic m" "footprint (upd a v m) = footprint m"
  "max_footprint (upd a v m) = max_footprint m" "mflags (upd a v m) = mflags m"
  "extp (upd a v m) = extp m" "exts (upd a v m) = exts m"
  by (simp_all add: upd_def)

section \<open>Fields of chunks\<close>

text \<open>
  \<open>struct malloc_chunk\<close>: \<open>prev_foot\<close>, \<open>head\<close>, \<open>fd\<close> and \<open>bk\<close> at offsets 0, 8, 16 and 24;
  \<open>struct malloc_tree_chunk\<close> adds \<open>child[0]\<close>, \<open>child[1]\<close>, \<open>parent\<close> and the 32-bit
  \<open>index\<close> at 32, 40, 48 and 56.
\<close>

abbreviation prev_foot_of :: "mstate \<Rightarrow> u64 \<Rightarrow> u64" where "prev_foot_of m p \<equiv> hp m p"
abbreviation head_of :: "mstate \<Rightarrow> u64 \<Rightarrow> u64" where "head_of m p \<equiv> hp m (p + 8)"
abbreviation fd_of :: "mstate \<Rightarrow> u64 \<Rightarrow> u64" where "fd_of m p \<equiv> hp m (p + 16)"
abbreviation bk_of :: "mstate \<Rightarrow> u64 \<Rightarrow> u64" where "bk_of m p \<equiv> hp m (p + 24)"
abbreviation child0_of :: "mstate \<Rightarrow> u64 \<Rightarrow> u64" where "child0_of m p \<equiv> hp m (p + 32)"
abbreviation child1_of :: "mstate \<Rightarrow> u64 \<Rightarrow> u64" where "child1_of m p \<equiv> hp m (p + 40)"
abbreviation parent_of :: "mstate \<Rightarrow> u64 \<Rightarrow> u64" where "parent_of m p \<equiv> hp m (p + 48)"

abbreviation set_prev_foot :: "u64 \<Rightarrow> u64 \<Rightarrow> mstate \<Rightarrow> mstate" where
  "set_prev_foot p v \<equiv> upd p v"
abbreviation set_head :: "u64 \<Rightarrow> u64 \<Rightarrow> mstate \<Rightarrow> mstate" where "set_head p v \<equiv> upd (p + 8) v"
abbreviation set_fd :: "u64 \<Rightarrow> u64 \<Rightarrow> mstate \<Rightarrow> mstate" where "set_fd p v \<equiv> upd (p + 16) v"
abbreviation set_bk :: "u64 \<Rightarrow> u64 \<Rightarrow> mstate \<Rightarrow> mstate" where "set_bk p v \<equiv> upd (p + 24) v"
abbreviation set_child0 :: "u64 \<Rightarrow> u64 \<Rightarrow> mstate \<Rightarrow> mstate" where
  "set_child0 p v \<equiv> upd (p + 32) v"
abbreviation set_child1 :: "u64 \<Rightarrow> u64 \<Rightarrow> mstate \<Rightarrow> mstate" where
  "set_child1 p v \<equiv> upd (p + 40) v"
abbreviation set_parent :: "u64 \<Rightarrow> u64 \<Rightarrow> mstate \<Rightarrow> mstate" where
  "set_parent p v \<equiv> upd (p + 48) v"

text \<open>A 32-bit field is the low half of its slot; the high half is padding.\<close>

definition low32 :: "u64 \<Rightarrow> u32" where "low32 x = ucast x"

definition put_low32 :: "u64 \<Rightarrow> u32 \<Rightarrow> u64" where
  "put_low32 old v = push_bit 32 (drop_bit 32 old) OR ucast v"

definition index_of :: "mstate \<Rightarrow> u64 \<Rightarrow> nat" where
  "index_of m p = unat (low32 (hp m (p + 56)))"

definition set_index :: "u64 \<Rightarrow> nat \<Rightarrow> mstate \<Rightarrow> mstate" where
  "set_index p i m = upd (p + 56) (put_low32 (hp m (p + 56)) (of_nat i)) m"

section \<open>Operations on head and foot fields\<close>

definition PINUSE_BIT :: u64 where "PINUSE_BIT = 1"
definition CINUSE_BIT :: u64 where "CINUSE_BIT = 2"
definition FLAG4_BIT :: u64 where "FLAG4_BIT = 4"
definition INUSE_BITS :: u64 where "INUSE_BITS = PINUSE_BIT OR CINUSE_BIT"
definition FLAG_BITS :: u64 where "FLAG_BITS = PINUSE_BIT OR CINUSE_BIT OR FLAG4_BIT"
definition FENCEPOST_HEAD :: u64 where "FENCEPOST_HEAD = INUSE_BITS OR SIZE_T_SIZE"
definition IS_MMAPPED_BIT :: u64 where "IS_MMAPPED_BIT = 1"

lemma flag_consts [simp]:
  "PINUSE_BIT = 1" "CINUSE_BIT = 2" "FLAG4_BIT = 4" "INUSE_BITS = 3" "FLAG_BITS = 7"
  "FENCEPOST_HEAD = 11" "IS_MMAPPED_BIT = 1"
  by (simp_all add: PINUSE_BIT_def CINUSE_BIT_def FLAG4_BIT_def INUSE_BITS_def FLAG_BITS_def
      FENCEPOST_HEAD_def IS_MMAPPED_BIT_def)

definition cinuse :: "mstate \<Rightarrow> u64 \<Rightarrow> bool" where
  "cinuse m p \<longleftrightarrow> head_of m p AND CINUSE_BIT \<noteq> 0"
definition pinuse :: "mstate \<Rightarrow> u64 \<Rightarrow> bool" where
  "pinuse m p \<longleftrightarrow> head_of m p AND PINUSE_BIT \<noteq> 0"
definition chunksize :: "mstate \<Rightarrow> u64 \<Rightarrow> u64" where
  "chunksize m p = head_of m p AND NOT FLAG_BITS"

definition clear_pinuse :: "u64 \<Rightarrow> mstate \<Rightarrow> mstate" where
  "clear_pinuse p m = set_head p (head_of m p AND NOT PINUSE_BIT) m"
definition clear_cinuse :: "u64 \<Rightarrow> mstate \<Rightarrow> mstate" where
  "clear_cinuse p m = set_head p (head_of m p AND NOT CINUSE_BIT) m"

definition chunk_plus_offset :: "u64 \<Rightarrow> u64 \<Rightarrow> u64" where "chunk_plus_offset p s = p + s"
definition chunk_minus_offset :: "u64 \<Rightarrow> u64 \<Rightarrow> u64" where "chunk_minus_offset p s = p - s"
definition next_chunk :: "mstate \<Rightarrow> u64 \<Rightarrow> u64" where
  "next_chunk m p = p + (head_of m p AND NOT FLAG_BITS)"
definition prev_chunk :: "mstate \<Rightarrow> u64 \<Rightarrow> u64" where
  "prev_chunk m p = p - prev_foot_of m p"
definition next_pinuse :: "mstate \<Rightarrow> u64 \<Rightarrow> bool" where
  "next_pinuse m p \<longleftrightarrow> head_of m (next_chunk m p) AND PINUSE_BIT \<noteq> 0"

definition get_foot :: "mstate \<Rightarrow> u64 \<Rightarrow> u64 \<Rightarrow> u64" where "get_foot m p s = prev_foot_of m (p + s)"
definition set_foot :: "u64 \<Rightarrow> u64 \<Rightarrow> mstate \<Rightarrow> mstate" where "set_foot p s m = set_prev_foot (p + s) s m"

definition set_size_and_pinuse_of_free_chunk :: "u64 \<Rightarrow> u64 \<Rightarrow> mstate \<Rightarrow> mstate" where
  "set_size_and_pinuse_of_free_chunk p s m = set_foot p s (set_head p (s OR PINUSE_BIT) m)"

definition set_free_with_pinuse :: "u64 \<Rightarrow> u64 \<Rightarrow> u64 \<Rightarrow> mstate \<Rightarrow> mstate" where
  "set_free_with_pinuse p s n m = set_size_and_pinuse_of_free_chunk p s (clear_pinuse n m)"

definition is_mmapped :: "mstate \<Rightarrow> u64 \<Rightarrow> bool" where
  "is_mmapped m p \<longleftrightarrow>
     head_of m p AND PINUSE_BIT = 0 \<and> prev_foot_of m p AND IS_MMAPPED_BIT \<noteq> 0"

definition overhead_for :: "mstate \<Rightarrow> u64 \<Rightarrow> u64" where
  "overhead_for m p = (if is_mmapped m p then MMAP_CHUNK_OVERHEAD else CHUNK_OVERHEAD)"

definition calloc_must_clear :: "mstate \<Rightarrow> u64 \<Rightarrow> bool" where
  "calloc_must_clear m p \<longleftrightarrow> \<not> is_mmapped m p"

text \<open>The macros that mark a chunk in use, in their \<open>!FOOTERS\<close> form.\<close>

definition set_inuse :: "u64 \<Rightarrow> u64 \<Rightarrow> mstate \<Rightarrow> mstate" where
  "set_inuse p s m =
     (let m = set_head p ((head_of m p AND PINUSE_BIT) OR s OR CINUSE_BIT) m
      in set_head (p + s) (head_of m (p + s) OR PINUSE_BIT) m)"

definition set_inuse_and_pinuse :: "u64 \<Rightarrow> u64 \<Rightarrow> mstate \<Rightarrow> mstate" where
  "set_inuse_and_pinuse p s m =
     (let m = set_head p (s OR PINUSE_BIT OR CINUSE_BIT) m
      in set_head (p + s) (head_of m (p + s) OR PINUSE_BIT) m)"

definition set_size_and_pinuse_of_inuse_chunk :: "u64 \<Rightarrow> u64 \<Rightarrow> mstate \<Rightarrow> mstate" where
  "set_size_and_pinuse_of_inuse_chunk p s m = set_head p (s OR PINUSE_BIT OR CINUSE_BIT) m"

section \<open>Bins inside the state\<close>

text \<open>
  \<open>smallbins\<close> starts at offset 72 of \<open>struct malloc_state\<close> and holds the \<open>fd\<close>/\<open>bk\<close> pairs
  of the bin headers only: the header of bin \<open>i\<close> is the address two slots before its
  pair, seen as a chunk. \<open>treebins\<close> starts at offset 600.
\<close>

definition smallbin_at :: "mstate \<Rightarrow> nat \<Rightarrow> u64" where
  "smallbin_at m i = maddr m + 72 + 8 * of_nat (2 * i)"

definition treebin_at :: "mstate \<Rightarrow> nat \<Rightarrow> u64" where
  "treebin_at m i = maddr m + 600 + 8 * of_nat i"

definition mark_smallmap :: "nat \<Rightarrow> mstate \<Rightarrow> mstate" where
  "mark_smallmap i m = m\<lparr>smallmap := smallmap m OR idx2bit i\<rparr>"
definition clear_smallmap :: "nat \<Rightarrow> mstate \<Rightarrow> mstate" where
  "clear_smallmap i m = m\<lparr>smallmap := smallmap m AND NOT (idx2bit i)\<rparr>"
definition smallmap_is_marked :: "mstate \<Rightarrow> nat \<Rightarrow> bool" where
  "smallmap_is_marked m i \<longleftrightarrow> smallmap m AND idx2bit i \<noteq> 0"

definition mark_treemap :: "nat \<Rightarrow> mstate \<Rightarrow> mstate" where
  "mark_treemap i m = m\<lparr>treemap := treemap m OR idx2bit i\<rparr>"
definition clear_treemap :: "nat \<Rightarrow> mstate \<Rightarrow> mstate" where
  "clear_treemap i m = m\<lparr>treemap := treemap m AND NOT (idx2bit i)\<rparr>"
definition treemap_is_marked :: "mstate \<Rightarrow> nat \<Rightarrow> bool" where
  "treemap_is_marked m i \<longleftrightarrow> treemap m AND idx2bit i \<noteq> 0"

section \<open>Runtime checks\<close>

text \<open>\<open>INSECURE\<close> is 0: the checks are compiled in, and a failed check aborts.\<close>

definition ok_address :: "mstate \<Rightarrow> u64 \<Rightarrow> bool" where
  "ok_address m a \<longleftrightarrow> least_addr m \<le> a"
definition ok_next :: "u64 \<Rightarrow> u64 \<Rightarrow> bool" where "ok_next p n \<longleftrightarrow> p < n"
definition ok_cinuse :: "mstate \<Rightarrow> u64 \<Rightarrow> bool" where "ok_cinuse m p = cinuse m p"
definition ok_pinuse :: "mstate \<Rightarrow> u64 \<Rightarrow> bool" where "ok_pinuse m p = pinuse m p"

section \<open>Reading back what was written\<close>

lemma map_mark_sel [simp, heap_simps]:
  "hp (mark_smallmap i m) = hp m" "hp (clear_smallmap i m) = hp m"
  "maddr (mark_smallmap i m) = maddr m" "maddr (clear_smallmap i m) = maddr m"
  "least_addr (mark_smallmap i m) = least_addr m" "least_addr (clear_smallmap i m) = least_addr m"
  "treemap (mark_smallmap i m) = treemap m" "treemap (clear_smallmap i m) = treemap m"
  "dv (mark_smallmap i m) = dv m" "dv (clear_smallmap i m) = dv m"
  "dvsize (mark_smallmap i m) = dvsize m" "dvsize (clear_smallmap i m) = dvsize m"
  "hp (mark_treemap i m) = hp m" "hp (clear_treemap i m) = hp m"
  "maddr (mark_treemap i m) = maddr m" "maddr (clear_treemap i m) = maddr m"
  "least_addr (mark_treemap i m) = least_addr m" "least_addr (clear_treemap i m) = least_addr m"
  "smallmap (mark_treemap i m) = smallmap m" "smallmap (clear_treemap i m) = smallmap m"
  by (simp_all add: mark_smallmap_def clear_smallmap_def mark_treemap_def clear_treemap_def)

lemma and_idx2bit: "x AND idx2bit i \<noteq> 0 \<longleftrightarrow> i < 32 \<and> bit x i"
proof
  assume "x AND idx2bit i \<noteq> 0"
  then obtain n where "bit (x AND idx2bit i) n" using word32_nonzero_bit by blast
  then show "i < 32 \<and> bit x i" by (auto simp: bit_and_iff bit_idx2bit)
next
  assume "i < 32 \<and> bit x i"
  then have "bit (x AND idx2bit i) i" by (simp add: bit_and_iff bit_idx2bit)
  then show "x AND idx2bit i \<noteq> 0" by auto
qed

lemma smallmap_is_marked_iff: "smallmap_is_marked m i \<longleftrightarrow> i < 32 \<and> bit (smallmap m) i"
  by (simp add: smallmap_is_marked_def and_idx2bit)

lemma treemap_is_marked_iff: "treemap_is_marked m i \<longleftrightarrow> i < 32 \<and> bit (treemap m) i"
  by (simp add: treemap_is_marked_def and_idx2bit)

lemma marked_after [heap_simps]:
  "i < 32 \<Longrightarrow> smallmap_is_marked (mark_smallmap i m) j \<longleftrightarrow> j = i \<or> smallmap_is_marked m j"
  "smallmap_is_marked (clear_smallmap i m) j \<longleftrightarrow> j \<noteq> i \<and> smallmap_is_marked m j"
  "i < 32 \<Longrightarrow> treemap_is_marked (mark_treemap i m) j \<longleftrightarrow> j = i \<or> treemap_is_marked m j"
  "treemap_is_marked (clear_treemap i m) j \<longleftrightarrow> j \<noteq> i \<and> treemap_is_marked m j"
  by (auto simp: smallmap_is_marked_iff treemap_is_marked_iff mark_smallmap_def clear_smallmap_def
      mark_treemap_def clear_treemap_def bit_simps bit_idx2bit)

lemma marked_upd [simp, heap_simps]:
  "smallmap_is_marked (upd a v m) i = smallmap_is_marked m i"
  "treemap_is_marked (upd a v m) i = treemap_is_marked m i"
  by (simp_all add: smallmap_is_marked_def treemap_is_marked_def)

lemma low32_put [simp]: "low32 (put_low32 old v) = v"
  by (rule bit_word_eqI) (auto simp: low32_def put_low32_def bit_simps)

lemma index_of_set_index [heap_simps]: "i < 2 ^ 32 \<Longrightarrow> index_of (set_index p i m) p = i"
  by (simp add: index_of_def set_index_def unat_of_nat)

section \<open>Frames\<close>

text \<open>\<open>agree_off A m m'\<close>: memory is unchanged outside the slots \<open>A\<close>.\<close>

definition agree_off :: "u64 set \<Rightarrow> mstate \<Rightarrow> mstate \<Rightarrow> bool" where
  "agree_off A m m' \<longleftrightarrow> (\<forall>a. a \<notin> A \<longrightarrow> hp m' a = hp m a)"

lemma agree_off_intros:
  "hp m' = hp m \<Longrightarrow> agree_off A m m'"
  "a \<in> A \<Longrightarrow> agree_off A m m' \<Longrightarrow> agree_off A m (upd a v m')"
  by (auto simp: agree_off_def)

lemma agree_off_refl [simp]: "agree_off A m m"
  by (simp add: agree_off_def)

lemma agree_off_trans: "agree_off A m m' \<Longrightarrow> agree_off A m' m'' \<Longrightarrow> agree_off A m m''"
  by (simp add: agree_off_def)

lemma agree_off_mono: "agree_off A m m' \<Longrightarrow> A \<subseteq> B \<Longrightarrow> agree_off B m m'"
  by (auto simp: agree_off_def)

section \<open>A concrete space\<close>

text \<open>
  An initialised space at address \<open>0x10000\<close> with empty bins, for the witnesses.
\<close>

definition demo_space :: mstate where
  "demo_space = \<lparr>maddr = 0x10000, smallmap = 0, treemap = 0, dvsize = 0, topsize = 0, least_addr = 0x10000,
     dv = 0, m_top = 0, trim_check = 0, release_checks = 255, magic = 0, footprint = 0,
     max_footprint = 0, mflags = 0, extp = 0, exts = 0, hp = (\<lambda>_. 0)\<rparr>"

lemma demo_space_sel [simp]:
  "maddr demo_space = 0x10000" "smallmap demo_space = 0" "treemap demo_space = 0"
  "least_addr demo_space = 0x10000" "hp demo_space = (\<lambda>_. 0)"
  by (simp_all add: demo_space_def)

end
