(* ===== verification/Pt_Store.thy ===== *)
theory Pt_Store
  imports Pt_State
begin

text \<open>
  The contract between a store of blocks of memory and its clients: the bins of
  \<open>ptmalloc3-malloc.c\<close>, and the list of mapped blocks of \<open>msource.cpp\<close>. A store is a set
  of chunks, given by address and size: inserting a chunk that fits in (\<open>room\<close>) adds it,
  unlinking a member removes it, neither aborts, both change only what the relation \<open>step\<close>
  allows for the chunks involved, and what was unlinked can be inserted again. The client
  lemmas are proved once, in the locale; the small bins, the tree bins, the two families
  together and the list of mapped blocks are its instances.
\<close>

type_synonym chunks = "(u64 \<times> u64) set"
type_synonym 'm chunk_op = "u64 \<Rightarrow> u64 \<Rightarrow> 'm \<Rightarrow> 'm option"

text \<open>Run one operation over a list of chunks; an abort on the way is an abort.\<close>

fun run_all :: "'m chunk_op \<Rightarrow> (u64 \<times> u64) list \<Rightarrow> 'm \<Rightarrow> 'm option" where
  "run_all f [] m = Some m"
| "run_all f ((p, s) # ps) m = do { m \<leftarrow> f p s m; run_all f ps m }"

locale chunk_store =
  fixes holds :: "'m \<Rightarrow> chunks \<Rightarrow> bool"
    and room :: "'m \<Rightarrow> chunks \<Rightarrow> u64 \<Rightarrow> u64 \<Rightarrow> bool"
    and ins :: "'m chunk_op"
    and unl :: "'m chunk_op"
    and step :: "chunks \<Rightarrow> 'm \<Rightarrow> 'm \<Rightarrow> bool"
  assumes ins_holds: "holds m C \<Longrightarrow> room m C p s \<Longrightarrow>
      \<exists>m'. ins p s m = Some m' \<and> holds m' (insert (p, s) C) \<and> step (insert (p, s) C) m m'"
    and room_fresh: "holds m C \<Longrightarrow> room m C p s \<Longrightarrow> (p, s) \<notin> C"
    and unl_holds: "holds m C \<Longrightarrow> (p, s) \<in> C \<Longrightarrow>
      \<exists>m'. unl p s m = Some m' \<and> holds m' (C - {(p, s)}) \<and> room m' (C - {(p, s)}) p s \<and> step C m m'"
begin

lemma insert_unlink:
  assumes "holds m C" "room m C p s"
  shows "\<exists>m' m''. ins p s m = Some m' \<and> holds m' (insert (p, s) C)
    \<and> unl p s m' = Some m'' \<and> holds m'' C"
proof -
  obtain m' where m': "ins p s m = Some m'" "holds m' (insert (p, s) C)"
    using ins_holds [OF assms] by blast
  obtain m'' where "unl p s m' = Some m''" "holds m'' (insert (p, s) C - {(p, s)})"
    using unl_holds [OF m'(2), of p s] by blast
  moreover have "insert (p, s) C - {(p, s)} = C" using room_fresh [OF assms] by simp
  ultimately show ?thesis using m' by metis
qed

lemma unlink_insert:
  assumes "holds m C" "(p, s) \<in> C"
  shows "\<exists>m' m''. unl p s m = Some m' \<and> ins p s m' = Some m'' \<and> holds m'' C"
proof -
  obtain m' where m': "unl p s m = Some m'" "holds m' (C - {(p, s)})" "room m' (C - {(p, s)}) p s"
    using unl_holds [OF assms] by blast
  then show ?thesis using ins_holds [OF m'(2,3)] assms(2) by (metis insert_Diff)
qed

lemma unlink_list:
  assumes "holds m C" "distinct ps" "set ps \<subseteq> C"
  shows "\<exists>m'. run_all unl ps m = Some m' \<and> holds m' (C - set ps)"
  using assms
proof (induction ps arbitrary: m C)
  case Nil
  then show ?case by simp
next
  case (Cons a ps)
  obtain p s where a: "a = (p, s)" by (cases a)
  obtain m' where m': "unl p s m = Some m'" "holds m' (C - {(p, s)})"
    using unl_holds [OF Cons.prems(1), of p s] Cons.prems(3) a by auto
  have "\<exists>m''. run_all unl ps m' = Some m'' \<and> holds m'' (C - {(p, s)} - set ps)"
    using Cons.prems a by (intro Cons.IH [OF m'(2)]) auto
  moreover have "C - {(p, s)} - set ps = C - set (a # ps)" using a by auto
  ultimately show ?case using m'(1) a by simp
qed

lemma drain:
  assumes "holds m C" "distinct ps" "set ps = C"
  shows "\<exists>m'. run_all unl ps m = Some m' \<and> holds m' {}"
  using unlink_list [OF assms(1,2)] assms(3) by simp

end

end
