(* ===== verification/Pt_Rings.thy ===== *)
theory Pt_Rings
  imports Pt_State
begin

text \<open>
  Circular doubly-linked lists through the \<open>fd\<close> and \<open>bk\<close> fields of chunks, as the small bins
  and the equal-size rings of the tree bins use them, and what linking and unlinking one
  chunk does to the list of its nodes.
\<close>

text \<open>
  \<open>dls h a xs b\<close>: following \<open>fd\<close> from \<open>a\<close> visits \<open>xs\<close> and then \<open>b\<close>, and every \<open>bk\<close> on the
  way points back. A ring is such a segment from the header to itself.
\<close>

fun dls :: "heap \<Rightarrow> u64 \<Rightarrow> u64 list \<Rightarrow> u64 \<Rightarrow> bool" where
  "dls h a [] b \<longleftrightarrow> h (a + 16) = b \<and> h (b + 24) = a"
| "dls h a (x # xs) b \<longleftrightarrow> h (a + 16) = x \<and> h (x + 24) = a \<and> dls h x xs b"

definition ring :: "heap \<Rightarrow> u64 \<Rightarrow> u64 list \<Rightarrow> bool" where
  "ring h b xs \<longleftrightarrow> dls h b xs b"

lemma dls_append: "dls h a (xs @ x # ys) b \<longleftrightarrow> dls h a xs x \<and> dls h x ys b"
  by (induction xs arbitrary: a) auto

lemma dls_cong:
  assumes "\<And>n. n = a \<or> n \<in> set xs \<Longrightarrow> h' (n + 16) = h (n + 16)"
    and "\<And>n. n = b \<or> n \<in> set xs \<Longrightarrow> h' (n + 24) = h (n + 24)"
  shows "dls h' a xs b = dls h a xs b"
  using assms by (induction xs arbitrary: a) auto

lemma dls_last: "dls h a xs b \<Longrightarrow> h (b + 24) = last (a # xs)"
  by (induction xs arbitrary: a) auto

lemma dls_fd: "dls h a xs b \<Longrightarrow> h (a + 16) = hd (xs @ [b])"
  by (cases xs) auto

lemma far_slots:
  assumes "far p q"
  shows "p + 16 \<noteq> q + 16" "p + 16 \<noteq> q + 24" "p + 24 \<noteq> q + 16" "p + 24 \<noteq> q + 24"
    "q + 16 \<noteq> p + 16" "q + 16 \<noteq> p + 24" "q + 24 \<noteq> p + 16" "q + 24 \<noteq> p + 24"
  using far_offset [OF assms, of 16 16] far_offset [OF assms, of 16 24]
    far_offset [OF assms, of 24 16] far_offset [OF assms, of 24 24]
  by auto

lemma ring_push:
  assumes sep: "sorted_wrt far (b # xs)" and new: "\<And>n. n \<in> set (b # xs) \<Longrightarrow> far p n"
    and F: "F = hd (xs @ [b])" and r: "xs = [] \<or> ring h b xs"
  shows "ring (h(b + 16 := p, F + 24 := p, p + 16 := F, p + 24 := b)) b (p # xs)"
proof (cases xs)
  case Nil
  then show ?thesis using F new far_slots [of p b] by (simp add: ring_def)
next
  case (Cons x ys)
  let ?h = "h(b + 16 := p, x + 24 := p, p + 16 := x, p + 24 := b)"
  have fx: "far p x" "far p b" "far b x" using new sep Cons by auto
  have "dls ?h x ys b = dls h x ys b"
  proof (rule dls_cong)
    fix n assume n: "n = x \<or> n \<in> set ys"
    then have "far p n" "far b n" using new sep Cons by auto
    moreover have "n = x \<or> far x n" using n sep Cons by auto
    ultimately show "?h (n + 16) = h (n + 16)" by (auto dest: far_slots)
  next
    fix n assume n: "n = b \<or> n \<in> set ys"
    then have "far p n" "n = b \<or> far b n" "far x n" using new sep Cons fx by (auto dest: far_sym)
    then show "?h (n + 24) = h (n + 24)" by (auto dest: far_slots)
  qed
  then show ?thesis using Cons F r fx by (auto simp: ring_def dest: far_slots)
qed

lemma dls_unlink:
  assumes "dls h a (ps @ p # qs) b" and "f = hd (qs @ [b])" "k = last (a # ps)"
    and "sorted_wrt far (ps @ p # qs)"
    and "\<And>n. n \<in> set (ps @ p # qs) \<Longrightarrow> far a n" and "\<And>n. n \<in> set (ps @ p # qs) \<Longrightarrow> far b n"
    and "a = b \<or> far a b"
  shows "dls (h(f + 24 := k, k + 16 := f)) a (ps @ qs) b"
  using assms
proof (induction ps arbitrary: a)
  case Nil
  let ?h = "h(f + 24 := k, k + 16 := f)"
  show ?case
  proof (cases qs)
    case Nil
    then have fk: "f = b" "k = a" using Nil.prems(2,3) by simp_all
    show ?thesis
    proof (cases "a = b")
      case True
      then show ?thesis using fk \<open>qs = []\<close> by simp
    next
      case False
      then have "far a b" using Nil.prems(7) by simp
      from far_slots [OF this] show ?thesis using fk \<open>qs = []\<close> by simp
    qed
  next
    case (Cons q qs')
    then have fk: "f = q" "k = a" using Nil.prems(2,3) by simp_all
    have aq: "far a q" and bq: "far b q" using Nil.prems(5,6) Cons by simp_all
    have "dls ?h q qs' b = dls h q qs' b"
    proof (rule dls_cong)
      fix n assume "n = q \<or> n \<in> set qs'"
      then have "far a n" "n = q \<or> far q n" using Nil.prems(4,5) Cons by auto
      then show "?h (n + 16) = h (n + 16)" unfolding fk by (auto dest: far_slots)
    next
      fix n assume "n = b \<or> n \<in> set qs'"
      then have "far q n" "n = a \<or> far a n"
        using Nil.prems(4,5,7) Cons far_sym [OF bq] by auto
      then show "?h (n + 24) = h (n + 24)" unfolding fk by (auto dest: far_slots)
    qed
    moreover have "dls h q qs' b" using Nil.prems(1) Cons by simp
    moreover have "?h (a + 16) = q" "?h (q + 24) = a" using far_slots [OF aq] fk by simp_all
    ultimately show ?thesis using Cons by (simp del: fun_upd_apply)
  qed
next
  case (Cons x ps)
  let ?h = "h(f + 24 := k, k + 16 := f)"
  have k: "k \<in> set (x # ps)" and f: "f = b \<or> f \<in> set qs"
    using Cons.prems(2,3) by (auto simp: hd_append)
  have far: "far x n" if "n \<in> set (ps @ p # qs)" for n using Cons.prems(4) that by auto
  have "dls ?h x (ps @ qs) b"
    using Cons.prems by (intro Cons.IH) (auto dest: far_sym)
  moreover have "?h (a + 16) = x"
  proof -
    have "far a k" using k Cons.prems(5) by auto
    moreover have "a = f \<or> far a f" using f Cons.prems(5,7) by auto
    then have "a + 16 \<noteq> f + 24" by (auto dest: far_slots)
    moreover have "h (a + 16) = x" using Cons.prems(1) by simp
    ultimately show ?thesis by (auto dest: far_neq)
  qed
  moreover have "?h (x + 24) = a"
  proof -
    have "far x f" using f far Cons.prems(6) by (auto dest: far_sym)
    moreover have "x = k \<or> far x k" using k far by auto
    ultimately show ?thesis using Cons.prems(1) by (auto dest: far_slots)
  qed
  ultimately show ?case by (simp del: fun_upd_apply)
qed

lemma dls_unlinked_links:
  assumes "dls h a (ps @ p # qs) b"
  shows "h (p + 16) = hd (qs @ [b])" "h (p + 24) = last (a # ps)"
  using assms by (auto simp: dls_append dest: dls_fd dls_last)

lemma ring_unlink:
  assumes "ring h b (ps @ p # qs)" "sorted_wrt far (b # ps @ p # qs)"
  shows "ring (h(hd (qs @ [b]) + 24 := last (b # ps), last (b # ps) + 16 := hd (qs @ [b]))) b (ps @ qs)"
  using assms unfolding ring_def by (intro dls_unlink) auto

lemma ring_unlink_single:
  assumes "ring h b (ps @ p # qs)" "sorted_wrt far (b # ps @ p # qs)"
  shows "h (p + 16) = h (p + 24) \<longleftrightarrow> ps = [] \<and> qs = []"
proof -
  have l: "h (p + 16) = hd (qs @ [b])" "h (p + 24) = last (b # ps)"
    using assms(1) dls_unlinked_links by (auto simp: ring_def)
  have q: "qs \<noteq> [] \<Longrightarrow> far b (hd qs)" and pq: "\<And>k. k \<in> set ps \<Longrightarrow> qs \<noteq> [] \<Longrightarrow> far k (hd qs)"
    and k: "ps \<noteq> [] \<Longrightarrow> far b (last ps)"
    using assms(2) by (auto simp: sorted_wrt_append)
  show ?thesis
  proof (cases "qs = []")
    case True
    then show ?thesis using l k by (cases "ps = []") auto
  next
    case False
    then have "hd qs \<noteq> last (b # ps)" using q pq [of "last ps"] by (cases "ps = []") auto
    then show ?thesis using l False by simp
  qed
qed

lemma ring_cong:
  assumes "\<And>n. n \<in> set (b # xs) \<Longrightarrow> h' (n + 16) = h (n + 16) \<and> h' (n + 24) = h (n + 24)"
  shows "ring h' b xs = ring h b xs"
  using assms unfolding ring_def by (intro dls_cong) auto


lemma pairwise_sorted_wrt: "distinct xs \<Longrightarrow> pairwise R (set xs) \<Longrightarrow> sorted_wrt R xs"
  by (induction xs) (auto simp: pairwise_def)

text \<open>
  Unlinking the base of a ring: the node before it, its last one, becomes the base.
\<close>

lemma ring_rebase:
  assumes r: "ring h a (ps @ [z])" and sep: "sorted_wrt far (a # ps @ [z])"
    and f: "f = hd (ps @ [z])"
  shows "ring (h(f + 24 := z, z + 16 := f)) z ps"
proof (cases ps)
  case Nil
  then show ?thesis using f by (simp add: ring_def)
next
  case (Cons x xs)
  let ?h = "h(f + 24 := z, z + 16 := f)"
  have fx: "f = x" using f Cons by simp
  have xz: "far x z" using sep Cons by simp
  have d: "dls h x xs z" using r Cons by (simp add: ring_def dls_append)
  have "dls ?h x xs z = dls h x xs z"
  proof (rule dls_cong)
    fix n assume "n = x \<or> n \<in> set xs"
    then have "far n z" "n = x \<or> far x n" using sep Cons by (auto simp: sorted_wrt_append)
    then show "?h (n + 16) = h (n + 16)" unfolding fx by (auto dest: far_slots far_neq)
  next
    fix n assume "n = z \<or> n \<in> set xs"
    then have "n = z \<or> far n z" "far x n" using sep Cons by (auto simp: sorted_wrt_append)
    then show "?h (n + 24) = h (n + 24)" unfolding fx by (auto dest: far_slots far_neq)
  qed
  then show ?thesis using d xz Cons fx by (auto simp: ring_def dest: far_slots)
qed

end
