(* ===== verification/Pt_Smallbins.thy ===== *)
theory Pt_Smallbins
  imports Pt_Store Pt_Rings
begin

text \<open>
  The small bins of \<open>ptmalloc3-malloc.c\<close>: circular doubly-linked lists of free chunks of
  one size, threaded through the chunks' \<open>fd\<close>/\<open>bk\<close> fields and a header inside
  \<open>struct malloc_state\<close>, with one bit of \<open>smallmap\<close> per bin. The macros that link and
  unlink chunks, and their refinement of operations on lists of chunk addresses.
\<close>

section \<open>The macros\<close>

definition insert_small_chunk :: "u64 \<Rightarrow> u64 \<Rightarrow> mstate \<Rightarrow> mstate option" where
  "insert_small_chunk P S m =
     (let I = small_index S; B = smallbin_at m I
      in do {
        (F, m) \<leftarrow>
          (if \<not> smallmap_is_marked m I then Some (B, mark_smallmap I m)
           else if ok_address m (fd_of m B) then Some (fd_of m B, m)
           else None);
        let m = set_fd B P m;
        let m = set_bk F P m;
        let m = set_fd P F m;
        let m = set_bk P B m;
        Some m
      })"

definition unlink_small_chunk :: "u64 \<Rightarrow> u64 \<Rightarrow> mstate \<Rightarrow> mstate option" where
  "unlink_small_chunk P S m =
     (let F = fd_of m P; B = bk_of m P; I = small_index S
      in if F = B then Some (clear_smallmap I m)
         else if (F = smallbin_at m I \<or> ok_address m F) \<and> (B = smallbin_at m I \<or> ok_address m B)
         then Some (set_fd B F (set_bk F B m))
         else None)"

definition unlink_first_small_chunk :: "u64 \<Rightarrow> u64 \<Rightarrow> nat \<Rightarrow> mstate \<Rightarrow> mstate option" where
  "unlink_first_small_chunk B P I m =
     (let F = fd_of m P
      in if B = F then Some (clear_smallmap I m)
         else if ok_address m F then Some (set_bk F B (set_fd B F m))
         else None)"

definition replace_dv :: "u64 \<Rightarrow> u64 \<Rightarrow> mstate \<Rightarrow> mstate option" where
  "replace_dv P S m =
     do {
       m \<leftarrow> (if dvsize m \<noteq> 0 then insert_small_chunk (dv m) (dvsize m) m else Some m);
       Some (m\<lparr>dvsize := S, dv := P\<rparr>)
     }"

section \<open>What the small bins hold\<close>

text \<open>
  \<open>smallbins_rep m L\<close>: the small bins of \<open>m\<close> hold the chunks \<open>L 0\<close>, ..., \<open>L 31\<close>, in this order.
  A bin whose bit is clear is empty, whatever its header says (unlinking the last chunk
  leaves the header pointing at it); a bin whose bit is set is a non-empty ring.
\<close>

definition all_nodes :: "mstate \<Rightarrow> (nat \<Rightarrow> u64 list) \<Rightarrow> u64 set" where
  "all_nodes m L = (\<Union>i\<in>{..<32}. set (L i)) \<union> smallbin_at m ` {..<32}"

definition smallbin_ok :: "mstate \<Rightarrow> nat \<Rightarrow> u64 list \<Rightarrow> bool" where
  "smallbin_ok m i xs \<longleftrightarrow>
     (if smallmap_is_marked m i then xs \<noteq> [] \<and> ring (hp m) (smallbin_at m i) xs else xs = [])
     \<and> sorted_wrt far (smallbin_at m i # xs) \<and> (\<forall>x\<in>set xs. ok_address m x)"

definition smallbins_rep :: "mstate \<Rightarrow> (nat \<Rightarrow> u64 list) \<Rightarrow> bool" where
  "smallbins_rep m L \<longleftrightarrow>
     (\<forall>i<32. smallbin_ok m i (L i))
     \<and> (\<forall>i<32. \<forall>j<32. i \<noteq> j \<longrightarrow> (\<forall>x\<in>set (L i). \<forall>y\<in>insert (smallbin_at m j) (set (L j)). far x y))"

definition link_slots :: "u64 set \<Rightarrow> u64 set" where
  "link_slots N = (\<lambda>n. n + 16) ` N \<union> (\<lambda>n. n + 24) ` N"

lemma far_smallbin_at:
  assumes "i < 32" "j < 32" "i \<noteq> j"
  shows "far (smallbin_at m i) (smallbin_at m j)"
proof -
  have *: "far (smallbin_at m k) (smallbin_at m l)" if "l < k" "k < 32" for k l
  proof -
    have d: "smallbin_at m k - smallbin_at m l = of_nat (16 * (k - l))"
      using that by (simp add: smallbin_at_def of_nat_diff algebra_simps)
    have u: "unat (of_nat (16 * (k - l)) :: u64) = 16 * (k - l)" by (subst unat_of_nat) (use that in simp)
    have "unat (0 - (of_nat (16 * (k - l)) :: u64)) = 2 ^ 64 - 16 * (k - l)"
      using that by (simp only: unat_sub_if' u) simp
    moreover have "smallbin_at m l - smallbin_at m k = 0 - of_nat (16 * (k - l))"
      using d by (metis minus_diff_eq diff_0)
    ultimately show ?thesis using that u d by (auto simp: far_def word_le_nat_alt)
  qed
  show ?thesis using assms * [of j i] far_sym [OF * [of i j]] by (cases "i < j") auto
qed

lemma link_slots_far:
  "(\<And>k. k \<in> N \<Longrightarrow> far n k) \<Longrightarrow> n + 16 \<notin> link_slots N \<and> n + 24 \<notin> link_slots N"
  by (auto simp: link_slots_def dest: far_slots)

text \<open>A bin whose nodes the changed slots do not touch keeps its contents.\<close>

lemma smallbins_rep_update:
  assumes rep: "smallbins_rep m L" and i: "i < 32"
    and same: "maddr m' = maddr m" "least_addr m' = least_addr m"
    and marks: "\<And>j. j \<noteq> i \<Longrightarrow> smallmap_is_marked m' j = smallmap_is_marked m j"
    and off: "agree_off (link_slots N) m m'"
    and N: "\<And>j x k. j < 32 \<Longrightarrow> j \<noteq> i \<Longrightarrow> x \<in> insert (smallbin_at m j) (set (L j)) \<Longrightarrow> k \<in> N \<Longrightarrow> far x k"
    and bin: "smallbin_ok m' i xs"
    and xs: "\<And>j x k. j < 32 \<Longrightarrow> j \<noteq> i \<Longrightarrow> x \<in> insert (smallbin_at m j) (set (L j)) \<Longrightarrow> k \<in> set xs \<Longrightarrow> far x k"
  shows "smallbins_rep m' (L(i := xs))"
proof -
  have sb: "smallbin_at m' j = smallbin_at m j" for j by (simp add: smallbin_at_def same)
  have "smallbin_ok m' j (L j)" if j: "j < 32" "j \<noteq> i" for j
  proof -
    have "ring (hp m') (smallbin_at m j) (L j) = ring (hp m) (smallbin_at m j) (L j)"
    proof (rule ring_cong)
      fix n assume "n \<in> set (smallbin_at m j # L j)"
      then have "n + 16 \<notin> link_slots N \<and> n + 24 \<notin> link_slots N"
        using N [OF j] by (intro link_slots_far) auto
      then show "hp m' (n + 16) = hp m (n + 16) \<and> hp m' (n + 24) = hp m (n + 24)"
        using off by (simp add: agree_off_def)
    qed
    then show ?thesis using rep j marks same by (simp add: smallbins_rep_def smallbin_ok_def sb ok_address_def)
  qed
  then show ?thesis
    using rep bin i xs far_sym by (auto simp: smallbins_rep_def sb)
qed

section \<open>The macros on the lists the bins hold\<close>

definition small_frame :: "u64 set \<Rightarrow> mstate \<Rightarrow> mstate \<Rightarrow> bool" where
  "small_frame N m m' \<longleftrightarrow>
     (\<exists>sm h. m' = m\<lparr>smallmap := sm, hp := h\<rparr>) \<and> agree_off (link_slots N) m m'"

lemma small_frame_sel:
  assumes "small_frame N m m'"
  shows "maddr m' = maddr m" "treemap m' = treemap m" "dvsize m' = dvsize m"
    "topsize m' = topsize m" "least_addr m' = least_addr m" "dv m' = dv m" "m_top m' = m_top m"
    "trim_check m' = trim_check m" "release_checks m' = release_checks m" "magic m' = magic m"
    "footprint m' = footprint m" "max_footprint m' = max_footprint m" "mflags m' = mflags m"
  using assms by (auto simp: small_frame_def)

lemma small_frame_off: "small_frame N m m' \<Longrightarrow> a \<notin> link_slots N \<Longrightarrow> hp m' a = hp m a"
  by (auto simp: small_frame_def agree_off_def)

lemma smallbin_at_cong: "maddr m' = maddr m \<Longrightarrow> smallbin_at m' i = smallbin_at m i"
  by (simp add: smallbin_at_def)

lemma is_small_index: "is_small S \<Longrightarrow> small_index S < 32"
  by (simp add: is_small_def small_index_def)

lemma link_slotsI: "n \<in> N \<Longrightarrow> n + 16 \<in> link_slots N" "n \<in> N \<Longrightarrow> n + 24 \<in> link_slots N"
  by (auto simp: link_slots_def)

lemma upd_out: "hp (upd a v m) = (hp m)(a := v)"
  by simp

lemma smallbins_rep_far:
  assumes "smallbins_rep m L" "i < 32" "j < 32" "i \<noteq> j"
    and "x \<in> insert (smallbin_at m i) (set (L i))" "y \<in> insert (smallbin_at m j) (set (L j))"
  shows "far x y"
proof -
  have "far a b" if "a \<in> set (L k)" "b \<in> insert (smallbin_at m l) (set (L l))" "k < 32" "l < 32" "k \<noteq> l"
    for a b k l using assms(1) that unfolding smallbins_rep_def by blast
  note * = this
  consider "x \<in> set (L i)" | "x = smallbin_at m i" "y \<in> set (L j)" | "x = smallbin_at m i" "y = smallbin_at m j"
    using assms(5,6) by blast
  then show ?thesis
  proof cases
    case 1 then show ?thesis using * [of x i y j] assms by blast
  next
    case 2 then show ?thesis using * [of y j x i] far_sym assms by blast
  next
    case 3 then show ?thesis using far_smallbin_at assms by simp
  qed
qed

text \<open>
  A step that keeps the header addresses and every other bin's mark, changes memory only
  in links of the bin's own nodes and of \<open>P\<close>, and leaves bin \<open>i\<close> holding \<open>xs\<close>.
\<close>

lemma smallbins_rep_step:
  assumes rep: "smallbins_rep m L" and i: "i < 32"
    and fr: "small_frame (insert P (insert (smallbin_at m i) (set (L i)))) m m'"
    and P: "\<And>j n. j < 32 \<Longrightarrow> j \<noteq> i \<Longrightarrow> n \<in> insert (smallbin_at m j) (set (L j)) \<Longrightarrow> far P n"
    and marks: "\<And>j. j \<noteq> i \<Longrightarrow> smallmap_is_marked m' j = smallmap_is_marked m j"
    and bin: "smallbin_ok m' i xs" and xs: "set xs \<subseteq> insert P (set (L i))"
  shows "smallbins_rep m' (L(i := xs))"
proof (rule smallbins_rep_update [OF rep i _ _ marks _ _ bin])
  let ?N = "insert P (insert (smallbin_at m i) (set (L i)))"
  show "maddr m' = maddr m" "least_addr m' = least_addr m"
    using fr by (simp_all add: small_frame_sel)
  show "agree_off (link_slots ?N) m m'" using fr by (simp add: small_frame_def)
  show far: "far x k" if "j < 32" "j \<noteq> i" "x \<in> insert (smallbin_at m j) (set (L j))" "k \<in> ?N" for j x k
    using that smallbins_rep_far [OF rep that(1) i that(2) that(3)] far_sym [OF P [OF that(1-3)]] by auto
  show "far x k" if "j < 32" "j \<noteq> i" "x \<in> insert (smallbin_at m j) (set (L j))" "k \<in> set xs" for j x k
    using far [OF that(1-3)] that(4) xs by blast
qed

lemma insert_small_chunk_rep:
  assumes rep: "smallbins_rep m L" and S: "is_small S" and P: "ok_address m P"
    and new: "\<forall>i<32. \<forall>n\<in>insert (smallbin_at m i) (set (L i)). far P n"
  shows "\<exists>m'. insert_small_chunk P S m = Some m'
    \<and> smallbins_rep m' (L(small_index S := P # L (small_index S)))
    \<and> small_frame (insert P (insert (smallbin_at m (small_index S)) (set (L (small_index S))))) m m'"
proof -
  let ?i = "small_index S"
  let ?b = "smallbin_at m ?i" and ?xs = "L ?i"
  have i: "?i < 32" using S by (rule is_small_index)
  have ok: "smallbin_ok m ?i ?xs" using rep i by (simp add: smallbins_rep_def)
  then have sep: "sorted_wrt far (?b # ?xs)" by (simp add: smallbin_ok_def)
  define F where "F = hd (?xs @ [?b])"
  define m1 where "m1 = (if smallmap_is_marked m ?i then m else mark_smallmap ?i m)"
  define m' where "m' = set_bk P ?b (set_fd P F (set_bk F P (set_fd ?b P m1)))"
  have F_ok: "ok_address m F" "fd_of m ?b = F" if "smallmap_is_marked m ?i"
  proof -
    have "?xs \<noteq> []" "ring (hp m) ?b ?xs" using ok that by (simp_all add: smallbin_ok_def)
    then show "fd_of m ?b = F" by (simp add: ring_def F_def dls_fd)
    show "ok_address m F" using ok \<open>?xs \<noteq> []\<close> by (simp add: smallbin_ok_def F_def)
  qed
  have F_b: "F = ?b" if "\<not> smallmap_is_marked m ?i"
    using ok that by (simp add: smallbin_ok_def F_def)
  have run: "insert_small_chunk P S m = Some m'"
    using F_ok F_b by (simp add: insert_small_chunk_def Let_def m'_def m1_def)
  have m1: "maddr m1 = maddr m" "least_addr m1 = least_addr m" "hp m1 = hp m"
    and marked: "\<And>j. smallmap_is_marked m1 j \<longleftrightarrow> j = ?i \<or> smallmap_is_marked m j"
    and m1_eq: "m1 = m\<lparr>smallmap := smallmap m1\<rparr>"
    using i by (simp_all add: m1_def marked_after) (auto simp: mark_smallmap_def)
  have F_in: "F \<in> insert ?b (set ?xs)" by (cases ?xs) (simp_all add: F_def)
  have fr: "small_frame (insert P (insert ?b (set ?xs))) m m'"
    unfolding small_frame_def
  proof
    show "\<exists>sm h. m' = m\<lparr>smallmap := sm, hp := h\<rparr>"
      unfolding m'_def by (subst m1_eq) (auto simp: upd_def)
    show "agree_off (link_slots (insert P (insert ?b (set ?xs)))) m m'"
      unfolding m'_def using F_in m1 by (intro agree_off_intros link_slotsI) auto
  qed
  have "smallbin_ok m' ?i (P # ?xs)"
  proof -
    have "ring (hp m') ?b (P # ?xs)"
      unfolding m'_def upd_sel m1 
      using ok new i by (intro ring_push [OF sep]) (auto simp: F_def smallbin_ok_def split: if_splits)
    moreover have "sorted_wrt far (?b # P # ?xs)"
      using sep new i far_sym by auto
    moreover have "smallmap_is_marked m' ?i" by (simp add: m'_def marked)
    moreover have "smallbin_at m' ?i = ?b" by (simp add: m'_def smallbin_at_def m1)
    moreover have "\<forall>x\<in>set (P # ?xs). ok_address m' x"
      using ok P by (simp add: m'_def m1 ok_address_def smallbin_ok_def)
    ultimately show ?thesis by (simp add: smallbin_ok_def)
  qed
  moreover have "smallmap_is_marked m' j = smallmap_is_marked m j" if "j \<noteq> ?i" for j
    using that by (simp add: m'_def marked)
  ultimately have "smallbins_rep m' (L(?i := P # ?xs))"
    using new by (intro smallbins_rep_step [OF rep i fr]) auto
  then show ?thesis using run fr by blast
qed

lemma smallbin_ok_cases:
  assumes "smallbin_ok m i xs" "p \<in> set xs"
  shows "smallmap_is_marked m i" "ring (hp m) (smallbin_at m i) xs" "sorted_wrt far (smallbin_at m i # xs)"
    "distinct xs"
proof -
  show "smallmap_is_marked m i" "ring (hp m) (smallbin_at m i) xs" "sorted_wrt far (smallbin_at m i # xs)"
    using assms by (auto simp: smallbin_ok_def split: if_splits)
  then show "distinct xs"
    by (metis distinct.simps(2) far_irrefl sorted_wrt_mono_rel sorted_wrt_iff_nth_less distinct_conv_nth linorder_neqE_nat sorted_wrt.simps(2))
qed

lemma smallbin_ok_unlink:
  assumes ok: "smallbin_ok m i (ps @ p # qs)" and i: "i < 32"
    and f: "f = hd (qs @ [smallbin_at m i])" and k: "k = last (smallbin_at m i # ps)"
    and m1: "maddr m1 = maddr m" "least_addr m1 = least_addr m"
      "if f = k then m1 = clear_smallmap i m
       else hp m1 = (hp m)(f + 24 := k, k + 16 := f) \<and> smallmap_is_marked m1 i"
  shows "smallbin_ok m1 i (ps @ qs)"
proof -
  let ?b = "smallbin_at m i"
  note r = smallbin_ok_cases [OF ok, of p, simplified]
  have fk: "f = k \<longleftrightarrow> ps = [] \<and> qs = []"
    using ring_unlink_single [OF r(2)] r(3) dls_unlinked_links [of "hp m" ?b ps p qs ?b] r(2) f k
    by (simp add: ring_def)
  have b: "smallbin_at m1 i = ?b" using m1 by (simp add: smallbin_at_def)
  show ?thesis
  proof (cases "f = k")
    case True
    then show ?thesis using fk m1 b by (simp add: smallbin_ok_def marked_after)
  next
    case False
    then have "ring (hp m1) ?b (ps @ qs)"
      using ring_unlink [OF r(2)] r(3) m1 f k by simp
    moreover have "sorted_wrt far (?b # ps @ qs)" using r(3) by (auto simp: sorted_wrt_append)
    moreover have "ps @ qs \<noteq> []" using fk False by simp
    ultimately show ?thesis using ok m1 False b by (auto simp: smallbin_ok_def ok_address_def)
  qed
qed

lemma remove1_split: "distinct (ps @ p # qs) \<Longrightarrow> remove1 p (ps @ p # qs) = ps @ qs"
  by (simp add: remove1_append)

lemma small_frame_clear: "small_frame N m (clear_smallmap i m)"
  unfolding small_frame_def
  by (auto simp: clear_smallmap_def agree_off_def intro!: exI [of _ "hp m"])

lemma small_frame_link2:
  "a \<in> link_slots N \<Longrightarrow> b \<in> link_slots N \<Longrightarrow> small_frame N m (upd a v (upd b w m))"
  unfolding small_frame_def
  by (intro conjI agree_off_intros exI [of _ "smallmap m"] exI [of _ "(hp m)(b := w, a := v)"])
    (auto simp: upd_def)

lemma unlink_small_chunk_rep:
  assumes rep: "smallbins_rep m L" and S: "is_small S" and P: "P \<in> set (L (small_index S))"
  shows "\<exists>m'. unlink_small_chunk P S m = Some m'
    \<and> smallbins_rep m' (L(small_index S := remove1 P (L (small_index S))))
    \<and> small_frame (insert (smallbin_at m (small_index S)) (set (L (small_index S)))) m m'"
proof -
  let ?i = "small_index S"
  let ?b = "smallbin_at m ?i"
  have i: "?i < 32" using S by (rule is_small_index)
  have ok: "smallbin_ok m ?i (L ?i)" using rep i by (simp add: smallbins_rep_def)
  obtain ps qs where L: "L ?i = ps @ P # qs" using P by (auto dest: split_list)
  note r = smallbin_ok_cases [OF ok P, unfolded L]
  define F where "F = fd_of m P"
  define B where "B = bk_of m P"
  have F: "F = hd (qs @ [?b])" and B: "B = last (?b # ps)"
    using dls_unlinked_links [of "hp m" ?b ps P qs ?b] r(2) by (simp_all add: F_def B_def ring_def)
  have FB_ok: "(F = ?b \<or> ok_address m F) \<and> (B = ?b \<or> ok_address m B)"
    using ok unfolding F B L by (cases qs; cases ps rule: rev_cases) (auto simp: smallbin_ok_def)
  define m' where "m' = (if F = B then clear_smallmap ?i m else set_fd B F (set_bk F B m))"
  have run: "unlink_small_chunk P S m = Some m'"
    using FB_ok by (simp add: unlink_small_chunk_def Let_def m'_def F_def B_def)
  have FB_in: "F \<in> insert ?b (set (L ?i))" "B \<in> insert ?b (set (L ?i))"
    unfolding F B L by (cases qs; cases ps rule: rev_cases; simp)+
  then have fr: "small_frame (insert ?b (set (L ?i))) m m'"
    unfolding m'_def by (auto intro: small_frame_clear small_frame_link2 link_slotsI)
  have "smallbin_ok m' ?i (ps @ qs)"
    by (rule smallbin_ok_unlink [OF ok [unfolded L] i F B])
      (use r(1) in \<open>simp_all add: m'_def\<close>)
  then have "smallbins_rep m' (L(?i := ps @ qs))"
  proof (intro smallbins_rep_step [OF rep i, of P])
    show "far P n" if "j < 32" "j \<noteq> ?i" "n \<in> insert (smallbin_at m j) (set (L j))" for j n
      using smallbins_rep_far [OF rep i that(1) _ _ that(3)] that(2) P by blast
  qed (use fr P in \<open>auto simp: L insert_absorb insert_commute m'_def marked_after\<close>)
  then show ?thesis using run fr L r(4) by (metis remove1_split)
qed

lemma unlink_first_small_chunk_rep:
  assumes rep: "smallbins_rep m L" and i: "i < 32" and L: "L i = P # qs"
  shows "\<exists>m'. unlink_first_small_chunk (smallbin_at m i) P i m = Some m'
    \<and> smallbins_rep m' (L(i := qs))
    \<and> small_frame (insert (smallbin_at m i) (set (L i))) m m'"
proof -
  let ?b = "smallbin_at m i"
  have ok: "smallbin_ok m i ([] @ P # qs)" using rep i L by (simp add: smallbins_rep_def flip: L)
  note r = smallbin_ok_cases [OF ok, of P, simplified]
  define F where "F = fd_of m P"
  have F: "F = hd (qs @ [?b])"
    using r(2) by (auto simp: F_def ring_def dest: dls_fd)
  have F_ok: "?b = F \<or> ok_address m F" using ok unfolding F by (cases qs) (auto simp: smallbin_ok_def)
  define m' where "m' = (if F = ?b then clear_smallmap i m else set_bk F ?b (set_fd ?b F m))"
  have run: "unlink_first_small_chunk ?b P i m = Some m'"
    using F_ok by (auto simp: unlink_first_small_chunk_def Let_def m'_def F_def)
  have F_in: "F \<in> insert ?b (set (L i))" unfolding F L by (cases qs) simp_all
  then have fr: "small_frame (insert ?b (set (L i))) m m'"
    unfolding m'_def by (auto intro: small_frame_clear small_frame_link2 link_slotsI)
  have "F = ?b \<or> far ?b F" using r(3) unfolding F by (cases qs) simp_all
  then have "F = ?b \<or> (hp m)(?b + 16 := F, F + 24 := ?b) = (hp m)(F + 24 := ?b, ?b + 16 := F)"
    by (auto simp: fun_upd_twist dest: far_slots)
  then have "smallbin_ok m' i ([] @ qs)"
    by (intro smallbin_ok_unlink [OF ok i F, of ?b]) (use r(1) in \<open>auto simp: m'_def\<close>)
  then have "smallbins_rep m' (L(i := qs))"
  proof (intro smallbins_rep_step [OF rep i, of P])
    show "far P n" if "j < 32" "j \<noteq> i" "n \<in> insert (smallbin_at m j) (set (L j))" for j n
      using smallbins_rep_far [OF rep i that(1) _ _ that(3)] that(2) L by simp
  qed (use fr L in \<open>auto simp: insert_absorb insert_commute m'_def marked_after\<close>)
  then show ?thesis using run fr by blast
qed

section \<open>The small bins as a set of chunks\<close>

definition small_chunks :: "(nat \<Rightarrow> u64 list) \<Rightarrow> chunks" where
  "small_chunks L = {(x, small_index2size i) |i x. i < 32 \<and> x \<in> set (L i)}"

definition small_holds :: "mstate \<Rightarrow> chunks \<Rightarrow> bool" where
  "small_holds m C \<longleftrightarrow> (\<exists>L. smallbins_rep m L \<and> C = small_chunks L)"

definition small_room :: "mstate \<Rightarrow> chunks \<Rightarrow> u64 \<Rightarrow> u64 \<Rightarrow> bool" where
  "small_room m C P S \<longleftrightarrow> is_small S \<and> is_aligned S \<and> ok_address m P
     \<and> (\<forall>i<32. far P (smallbin_at m i)) \<and> (\<forall>(n, s)\<in>C. far P n)"

lemma small_index2size_index: "is_small S \<Longrightarrow> is_aligned S \<Longrightarrow> small_index2size (small_index S) = S"
proof -
  assume "is_small S" "is_aligned S"
  then have "unat S < 256" "8 dvd unat S"
    by (simp_all add: is_small_iff is_aligned_def and_7_eq_0_iff word_less_nat_alt)
  then have "unat (small_index2size (small_index S)) = unat S"
    by (auto simp: small_index2size_def small_index_eq push_bit_eq_mult unat_word_ariths unat_of_nat)
  then show ?thesis by (simp only: word_unat_eq_iff)
qed

lemma small_index_index2size: "i < 32 \<Longrightarrow> small_index (small_index2size i) = i"
proof -
  assume "i < 32"
  then have "unat (small_index2size i) = 8 * i"
    by (auto simp: small_index2size_def push_bit_eq_mult unat_word_ariths unat_of_nat)
  then show ?thesis by (simp add: small_index_eq)
qed

lemma is_small_index2size: "i < 32 \<Longrightarrow> is_small (small_index2size i) \<and> is_aligned (small_index2size i)"
proof -
  assume "i < 32"
  then have "unat (small_index2size i) = 8 * i"
    by (auto simp: small_index2size_def push_bit_eq_mult unat_word_ariths unat_of_nat)
  with \<open>i < 32\<close> show ?thesis
    by (simp add: is_small_iff is_aligned_def and_7_eq_0_iff word_less_nat_alt)
qed

lemma small_chunks_upd:
  assumes "i < 32"
  shows "small_chunks (L(i := P # L i)) = insert (P, small_index2size i) (small_chunks L)"
  using assms by (auto simp: small_chunks_def split: if_splits)

lemma small_chunks_remove:
  assumes "i < 32" "distinct (L i)"
  shows "small_chunks (L(i := remove1 P (L i))) = small_chunks L - {(P, small_index2size i)}"
proof -
  have inj: "small_index2size i = small_index2size j \<Longrightarrow> j < 32 \<Longrightarrow> j = i" for j
    using assms(1) by (metis small_index_index2size)
  show ?thesis
    using assms by (auto simp: small_chunks_def set_remove1_eq split: if_splits dest: inj)
qed

definition small_step :: "chunks \<Rightarrow> mstate \<Rightarrow> mstate \<Rightarrow> bool" where
  "small_step C m m' = small_frame (fst ` C \<union> smallbin_at m ` {..<32}) m m'"

lemma small_frame_mono: "small_frame M m m' \<Longrightarrow> M \<subseteq> N \<Longrightarrow> small_frame N m m'"
  unfolding small_frame_def link_slots_def by (blast intro: agree_off_mono)

lemma small_chunks_fst: "i < 32 \<Longrightarrow> set (L i) \<subseteq> fst ` small_chunks L"
  by (force simp: small_chunks_def)

interpretation small: chunk_store small_holds small_room insert_small_chunk unlink_small_chunk small_step
proof
  fix m C p s
  assume h: "small_holds m C" and r: "small_room m C p s"
  obtain L where L: "smallbins_rep m L" "C = small_chunks L" using h by (auto simp: small_holds_def)
  have s: "is_small s" "is_aligned s" using r by (simp_all add: small_room_def)
  have new: "\<forall>i<32. \<forall>n\<in>insert (smallbin_at m i) (set (L i)). far p n"
    using r L(2) by (auto simp: small_room_def small_chunks_def)
  let ?i = "small_index s"
  have i: "?i < 32" using s(1) by (rule is_small_index)
  obtain m' where m': "insert_small_chunk p s m = Some m'" "smallbins_rep m' (L(?i := p # L ?i))"
    and fr: "small_frame (insert p (insert (smallbin_at m ?i) (set (L ?i)))) m m'"
    using insert_small_chunk_rep [OF L(1) s(1) _ new] r by (auto simp: small_room_def)
  have "small_chunks (L(?i := p # L ?i)) = insert (p, s) C"
    using i L(2) s by (simp add: small_chunks_upd small_index2size_index)
  moreover have "small_step (insert (p, s) C) m m'"
    unfolding small_step_def
    by (rule small_frame_mono [OF fr]) (use i small_chunks_fst [of ?i L] L(2) in auto)
  ultimately show "\<exists>m'. insert_small_chunk p s m = Some m' \<and> small_holds m' (insert (p, s) C)
      \<and> small_step (insert (p, s) C) m m'"
    using m' by (metis small_holds_def)
  show "(p, s) \<notin> C" using r by (auto simp: small_room_def)
next
  fix m C p s
  assume h: "small_holds m C" and p: "(p, s) \<in> C"
  obtain L where L: "smallbins_rep m L" "C = small_chunks L" using h by (auto simp: small_holds_def)
  let ?i = "small_index s"
  have s: "?i < 32" "p \<in> set (L ?i)" "s = small_index2size ?i" "is_small s" "is_aligned s"
    using p L(2) by (auto simp: small_chunks_def small_index_index2size is_small_index2size)
  let ?L = "L(?i := remove1 p (L ?i))"
  obtain m' where m': "unlink_small_chunk p s m = Some m'" "smallbins_rep m' ?L"
    and fr: "small_frame (insert (smallbin_at m ?i) (set (L ?i))) m m'"
    using unlink_small_chunk_rep [OF L(1) s(4,2)] by blast
  have ok: "smallbin_ok m ?i (L ?i)" using L(1) s(1) by (simp add: smallbins_rep_def)
  note b = smallbin_ok_cases [OF ok s(2)]
  have C: "small_chunks ?L = C - {(p, s)}"
    using small_chunks_remove [of ?i L p] s(1,3) b(4) L(2) by simp
  have "far p n" if n: "n \<in> insert (smallbin_at m j) (set (L j))" "j < 32" "n \<noteq> p" for n j
  proof (cases "j = ?i")
    case True
    obtain ps qs where "L ?i = ps @ p # qs" using s(2) by (auto dest: split_list)
    then show ?thesis using b(3) n True far_sym by (auto simp: sorted_wrt_append)
  next
    case False
    then show ?thesis using smallbins_rep_far [OF L(1) s(1) n(2), of p n] n(1) s(2) by simp
  qed
  note far = this
  have nb: "smallbin_at m j \<noteq> p" if "j < 32" for j
    using smallbins_rep_far [OF L(1) s(1) that, of p p] b(3) s(2) that by (cases "j = ?i") auto
  have member: "far p n" if C: "(n, t) \<in> C" and ne: "(n, t) \<noteq> (p, s)" for n t
  proof -
    obtain j where j: "j < 32" "n \<in> set (L j)" "t = small_index2size j"
      using C L(2) by (auto simp: small_chunks_def)
    have "n \<noteq> p"
    proof
      assume "n = p"
      then have "j \<noteq> ?i" using j(3) s(3) ne by auto
      then show False using smallbins_rep_far [OF L(1) j(1) s(1), of n p] j(2) s(2) \<open>n = p\<close> by simp
    qed
    then show ?thesis using far [of n j] j by simp
  qed
  have "small_room m' (C - {(p, s)}) p s"
    unfolding small_room_def
  proof (intro conjI)
    show "ok_address m' p" using ok s(2) fr by (simp add: smallbin_ok_def ok_address_def small_frame_sel)
    show "\<forall>i<32. far p (smallbin_at m' i)"
      using far nb smallbin_at_cong [OF small_frame_sel(1) [OF fr]] by auto
    show "\<forall>(n, t)\<in>C - {(p, s)}. far p n"
      using member by auto
  qed (use s in auto)
  moreover have "small_step C m m'"
    unfolding small_step_def
    by (rule small_frame_mono [OF fr]) (use s(1) small_chunks_fst [of ?i L] L(2) in auto)
  ultimately show "\<exists>m'. unlink_small_chunk p s m = Some m' \<and> small_holds m' (C - {(p, s)})
      \<and> small_room m' (C - {(p, s)}) p s \<and> small_step C m m'"
    using m' C by (metis small_holds_def)
qed

section \<open>Properties\<close>

text \<open>
  The small bins are last-in first-out. Inserting a chunk with \<open>insert_small_chunk\<close> puts it in
  front of the list its bin holds; \<open>unlink_first_small_chunk\<close> then takes this chunk out again
  and leaves all bins as they were, and neither call aborts.
\<close>

theorem small_bins_lifo:
  assumes "smallbins_rep m L" "is_small S" "ok_address m P"
    and "\<forall>i<32. \<forall>n\<in>insert (smallbin_at m i) (set (L i)). far P n"
  shows "\<exists>m1 m2. insert_small_chunk P S m = Some m1
    \<and> smallbins_rep m1 (L(small_index S := P # L (small_index S)))
    \<and> unlink_first_small_chunk (smallbin_at m1 (small_index S)) P (small_index S) m1 = Some m2
    \<and> smallbins_rep m2 L"
proof -
  have i: "small_index S < 32" using assms(2) by (rule is_small_index)
  obtain m1 where m1: "insert_small_chunk P S m = Some m1"
    "smallbins_rep m1 (L(small_index S := P # L (small_index S)))"
    using insert_small_chunk_rep [OF assms] by blast
  obtain m2 where "unlink_first_small_chunk (smallbin_at m1 (small_index S)) P (small_index S) m1 = Some m2"
    "smallbins_rep m2 (L(small_index S := P # L (small_index S), small_index S := L (small_index S)))"
    using unlink_first_small_chunk_rep [OF m1(2) i, of P "L (small_index S)"] by auto
  then show ?thesis using m1 by (auto simp: fun_upd_idem)
qed

lemma demo_smallbins: "smallbins_rep demo_space (\<lambda>_. [])"
  by (simp add: smallbins_rep_def smallbin_ok_def smallmap_is_marked_def)

lemma far_demo_bins: "\<forall>i<32. far 0x20000 (smallbin_at demo_space i)"
  unfolding nat_lt_32 by (simp add: smallbin_at_def far_def)

theorem small_bins_lifo_wit:
  "\<exists>m1 m2. insert_small_chunk 0x20000 32 demo_space = Some m1
    \<and> smallbins_rep m1 ((\<lambda>_. [])(small_index 32 := [0x20000]))
    \<and> unlink_first_small_chunk (smallbin_at m1 (small_index 32)) 0x20000 (small_index 32) m1 = Some m2
    \<and> smallbins_rep m2 (\<lambda>_. [])"
  using small_bins_lifo [OF demo_smallbins, where S = 32 and P = "0x20000"] far_demo_bins
  by (simp add: is_small_iff ok_address_def)

text \<open>
  \<open>unlink_small_chunk\<close> takes any chunk out of the middle of its bin: on the list the bin
  holds it is the deletion of that chunk, the other bins keep theirs, and memory changes only in
  the links of the bin's own chunks and header.
\<close>

theorem unlink_small_chunk_removes:
  assumes "smallbins_rep m L" "is_small S" "P \<in> set (L (small_index S))"
  shows "\<exists>m'. unlink_small_chunk P S m = Some m'
    \<and> smallbins_rep m' (L(small_index S := remove1 P (L (small_index S))))
    \<and> small_frame (insert (smallbin_at m (small_index S)) (set (L (small_index S)))) m m'"
  by (rule unlink_small_chunk_rep [OF assms])

definition demo_small :: mstate where
  "demo_small = the (insert_small_chunk 0x20000 32 demo_space)"

lemma demo_small_rep: "smallbins_rep demo_small ((\<lambda>_. [])(small_index 32 := [0x20000]))"
  using insert_small_chunk_rep [OF demo_smallbins, where S = 32 and P = "0x20000"] far_demo_bins
  by (auto simp: demo_small_def is_small_iff ok_address_def)

theorem unlink_small_chunk_removes_wit:
  "\<exists>m'. unlink_small_chunk 0x20000 32 demo_small = Some m'
    \<and> smallbins_rep m' ((\<lambda>_. [])(small_index 32 := [0x20000], small_index 32 := remove1 0x20000 [0x20000]))
    \<and> small_frame (insert (smallbin_at demo_small (small_index 32)) (set [0x20000])) demo_small m'"
  using unlink_small_chunk_removes [OF demo_small_rep, where S = 32 and P = "0x20000"] by (simp add: is_small_iff)

end
