(* ===== verification/Pt_Tries.thy ===== *)
theory Pt_Tries
  imports Pt_Store
begin

text \<open>
  Tries of free chunks keyed by the bits of their sizes, as the tree bins of
  \<open>ptmalloc3-malloc.c\<close> hold them: insertion, deletion (a rightmost leaf replaces the deleted
  node, as in \<open>unlink_large_chunk\<close>), and what they do to the set of chunks held.
\<close>

section \<open>Tries\<close>

text \<open>
  \<open>TNode a s cs l r\<close>: the chunk \<open>a\<close> of size \<open>s\<close> is the tree node, \<open>cs\<close> are the other chunks of
  size \<open>s\<close> on its ring, in \<open>fd\<close> order.
\<close>

datatype trie = TLeaf | TNode u64 u64 "u64 list" trie trie

fun nodes :: "trie \<Rightarrow> u64 list" where
  "nodes TLeaf = []"
| "nodes (TNode a s cs l r) = a # cs @ nodes l @ nodes r"

fun trie_chunks :: "trie \<Rightarrow> chunks" where
  "trie_chunks TLeaf = {}"
| "trie_chunks (TNode a s cs l r) = (\<lambda>n. (n, s)) ` set (a # cs) \<union> trie_chunks l \<union> trie_chunks r"

text \<open>
  \<open>trie_ok n t\<close>: the bit \<open>n - 1\<close> of a size tells left from right below the root, the bit
  \<open>n - 2\<close> one level down, and so on; \<open>prefix_ok n q t\<close>: all sizes are \<open>q\<close> above bit \<open>n\<close>.
\<close>

fun trie_ok :: "nat \<Rightarrow> trie \<Rightarrow> bool" where
  "trie_ok n TLeaf = True"
| "trie_ok 0 (TNode a s cs l r) = (l = TLeaf \<and> r = TLeaf)"
| "trie_ok (Suc n) (TNode a s cs l r) =
     ((\<forall>(c, x)\<in>trie_chunks l. \<not> bit x n) \<and> (\<forall>(c, x)\<in>trie_chunks r. bit x n)
      \<and> trie_ok n l \<and> trie_ok n r)"

definition prefix_ok :: "nat \<Rightarrow> u64 \<Rightarrow> trie \<Rightarrow> bool" where
  "prefix_ok n q t \<longleftrightarrow> (\<forall>(c, x)\<in>trie_chunks t. drop_bit n x = q)"

fun trie_insert :: "nat \<Rightarrow> u64 \<Rightarrow> u64 \<Rightarrow> trie \<Rightarrow> trie" where
  "trie_insert n x s TLeaf = TNode x s [] TLeaf TLeaf"
| "trie_insert n x s (TNode a t cs l r) =
     (if t = s then TNode a t (x # cs) l r
      else if bit s (n - 1) then TNode a t cs l (trie_insert (n - 1) x s r)
      else TNode a t cs (trie_insert (n - 1) x s l) r)"

text \<open>Take the rightmost leaf out of a non-empty trie.\<close>

fun pull_leaf :: "trie \<Rightarrow> (u64 \<times> u64 \<times> u64 list) \<times> trie" where
  "pull_leaf TLeaf = ((0, 0, []), TLeaf)"
| "pull_leaf (TNode a s cs l r) =
     (if r \<noteq> TLeaf then let (x, r') = pull_leaf r in (x, TNode a s cs l r')
      else if l \<noteq> TLeaf then let (x, l') = pull_leaf l in (x, TNode a s cs l' r)
      else ((a, s, cs), TLeaf))"

text \<open>Delete the root chunk of a trie.\<close>

fun trie_del_root :: "trie \<Rightarrow> trie" where
  "trie_del_root TLeaf = TLeaf"
| "trie_del_root (TNode a s cs l r) =
     (if cs \<noteq> [] then TNode (last cs) s (butlast cs) l r
      else if r \<noteq> TLeaf then let ((b, t, ds), r') = pull_leaf r in TNode b t ds l r'
      else if l \<noteq> TLeaf then let ((b, t, ds), l') = pull_leaf l in TNode b t ds l' r
      else TLeaf)"

fun trie_delete :: "u64 \<Rightarrow> trie \<Rightarrow> trie" where
  "trie_delete x TLeaf = TLeaf"
| "trie_delete x (TNode a s cs l r) =
     (if x = a then trie_del_root (TNode a s cs l r)
      else if x \<in> set cs then TNode a s (remove1 x cs) l r
      else if x \<in> set (nodes l) then TNode a s cs (trie_delete x l) r
      else TNode a s cs l (trie_delete x r))"

section \<open>Tries hold the chunks they should\<close>

lemma nodes_chunks: "set (nodes t) = fst ` trie_chunks t"
  by (induction t) (auto simp: image_image image_Un)

lemma trie_chunks_insert: "trie_chunks (trie_insert n x s t) = insert (x, s) (trie_chunks t)"
  by (induction n x s t rule: trie_insert.induct) auto

lemma trie_insert_nodes: "set (nodes (trie_insert n x s t)) = insert x (set (nodes t))"
  by (simp add: nodes_chunks trie_chunks_insert)

lemma trie_ok_0: "trie_ok 0 t \<Longrightarrow> t = TLeaf \<or> (\<exists>a s cs. t = TNode a s cs TLeaf TLeaf)"
  by (cases t) auto

lemma drop_bit_split: "drop_bit k (x::u64) = 2 * drop_bit (Suc k) x + of_bool (bit x k)"
proof -
  have "drop_bit (Suc k) x = drop_bit k x div 2" by (simp add: drop_bit_Suc drop_bit_half)
  moreover have "of_bool (bit x k) = drop_bit k x mod 2"
    by (simp add: bit_iff_odd_drop_bit odd_iff_mod_2_eq_one)
  ultimately show ?thesis by (simp only: mult_div_mod_eq)
qed

lemma prefix_ok_children:
  assumes "prefix_ok (Suc n) q (TNode a s cs l r)" "trie_ok (Suc n) (TNode a s cs l r)"
  shows "prefix_ok n (2 * q) l" "prefix_ok n (2 * q + 1) r"
proof -
  have l: "drop_bit n x = 2 * q" if "(c, x) \<in> trie_chunks l" for c x
    using that assms drop_bit_split [of n x] by (force simp: prefix_ok_def)
  have r: "drop_bit n x = 2 * q + 1" if "(c, x) \<in> trie_chunks r" for c x
    using that assms drop_bit_split [of n x] by (force simp: prefix_ok_def)
  show "prefix_ok n (2 * q) l" "prefix_ok n (2 * q + 1) r" using l r by (auto simp: prefix_ok_def)
qed

lemma prefix_ok_child_key:
  assumes "drop_bit (Suc n) (s::u64) = q"
  shows "drop_bit n s = (if bit s n then 2 * q + 1 else 2 * q)"
  using assms drop_bit_split [of n s] by simp

lemma prefix_ok_insert:
  "prefix_ok n q t \<Longrightarrow> drop_bit n s = q \<Longrightarrow> prefix_ok n q (trie_insert k x s t)"
  by (auto simp: prefix_ok_def trie_chunks_insert)

lemma trie_ok_insert:
  "trie_ok n t \<Longrightarrow> prefix_ok n q t \<Longrightarrow> drop_bit n s = q \<Longrightarrow> trie_ok n (trie_insert n x s t)"
proof (induction n x s t arbitrary: q rule: trie_insert.induct)
  case (1 n x s)
  then show ?case by (cases n) simp_all
next
  case (2 n x s a t cs l r)
  show ?case
  proof (cases "t = s")
    case True
    then show ?thesis using "2.prems"(1) by (cases n) simp_all
  next
    case False
    have "n \<noteq> 0" using False "2.prems"(2) "2.prems"(3) by (cases "n = 0") (auto simp: prefix_ok_def)
    from not0_implies_Suc [OF this] obtain k where n: "n = Suc k" ..
    note ch = prefix_ok_children [OF "2.prems"(2,1) [unfolded n]]
    note key = prefix_ok_child_key [OF "2.prems"(3) [unfolded n]]
    show ?thesis
    proof (cases "bit s k")
      case True
      then have "trie_ok k (trie_insert k x s r)"
        using "2.IH"(1) [of "2 * q + 1"] False ch(2) key "2.prems"(1) n by simp
      then show ?thesis using "2.prems"(1) False True n by (auto simp: trie_chunks_insert)
    next
      case b: False
      then have "trie_ok k (trie_insert k x s l)"
        using "2.IH"(2) [of "2 * q"] False ch(1) key "2.prems"(1) n by simp
      then show ?thesis using "2.prems"(1) False b n by (auto simp: trie_chunks_insert)
    qed
  qed
qed

lemma pull_leaf_chunks:
  assumes "t \<noteq> TLeaf" "pull_leaf t = ((b, s, ds), t')" "distinct (nodes t)"
  shows "trie_chunks t = (\<lambda>n. (n, s)) ` set (b # ds) \<union> trie_chunks t'
    \<and> set (b # ds) \<inter> set (nodes t') = {} \<and> distinct (b # ds @ nodes t') \<and> set (nodes t') \<subseteq> set (nodes t)"
  using assms
proof (induction t arbitrary: b s ds t')
  case TLeaf
  then show ?case by simp
next
  case (TNode a u cs l r)
  consider "r \<noteq> TLeaf" | "r = TLeaf" "l \<noteq> TLeaf" | "r = TLeaf" "l = TLeaf" by blast
  then show ?case
  proof cases
    case 1
    then obtain r' where p: "pull_leaf r = ((b, s, ds), r')" "t' = TNode a u cs l r'"
      using TNode.prems(2) by (auto split: prod.splits)
    from TNode.IH(2) [OF 1 p(1)] TNode.prems(3)
    have h: "trie_chunks r = (\<lambda>n. (n, s)) ` set (b # ds) \<union> trie_chunks r'"
      "distinct (b # ds @ nodes r')" "set (nodes r') \<subseteq> set (nodes r)" by simp_all
    have "set (b # ds) \<subseteq> set (nodes r)" using h(1) by (auto simp: nodes_chunks image_Un image_image)
    then show ?thesis using h p(2) TNode.prems(3) by auto
  next
    case 2
    then obtain l' where p: "pull_leaf l = ((b, s, ds), l')" "t' = TNode a u cs l' r"
      using TNode.prems(2) by (auto split: prod.splits)
    from TNode.IH(1) [OF 2(2) p(1)] TNode.prems(3)
    have h: "trie_chunks l = (\<lambda>n. (n, s)) ` set (b # ds) \<union> trie_chunks l'"
      "distinct (b # ds @ nodes l')" "set (nodes l') \<subseteq> set (nodes l)" by simp_all
    have "set (b # ds) \<subseteq> set (nodes l)" using h(1) by (auto simp: nodes_chunks image_Un image_image)
    then show ?thesis using h p(2) 2(1) TNode.prems(3) by auto
  next
    case 3
    then show ?thesis using TNode.prems by auto
  qed
qed

lemma trie_ok_mono_chunks:
  "trie_chunks l' \<subseteq> trie_chunks l \<Longrightarrow> \<forall>(c, x)\<in>trie_chunks l. P x \<Longrightarrow> \<forall>(c, x)\<in>trie_chunks l'. P x"
  by auto

lemma pull_leaf_ok:
  assumes "trie_ok n t" "t \<noteq> TLeaf" "pull_leaf t = (x, t')"
  shows "trie_ok n t' \<and> trie_chunks t' \<subseteq> trie_chunks t"
  using assms
proof (induction t arbitrary: n t')
  case TLeaf
  then show ?case by simp
next
  case (TNode a u cs l r)
  consider "r \<noteq> TLeaf" | "r = TLeaf" "l \<noteq> TLeaf" | "r = TLeaf" "l = TLeaf" by blast
  then show ?case
  proof cases
    case 1
    then obtain r' where p: "pull_leaf r = (x, r')" "t' = TNode a u cs l r'"
      using TNode.prems(3) by (auto split: prod.splits)
    obtain k where k: "n = Suc k" using 1 TNode.prems(1) by (cases n) auto
    then have "trie_ok k r'" "trie_chunks r' \<subseteq> trie_chunks r"
      using TNode.IH(2) [OF _ 1 p(1)] TNode.prems(1) by auto
    then show ?thesis using TNode.prems(1) p(2) k by auto
  next
    case 2
    then obtain l' where p: "pull_leaf l = (x, l')" "t' = TNode a u cs l' r"
      using TNode.prems(3) by (auto split: prod.splits)
    obtain k where k: "n = Suc k" using 2 TNode.prems(1) by (cases n) auto
    then have "trie_ok k l'" "trie_chunks l' \<subseteq> trie_chunks l"
      using TNode.IH(1) [OF _ 2(2) p(1)] TNode.prems(1) by auto
    then show ?thesis using TNode.prems(1) p(2) k by auto
  next
    case 3
    then show ?thesis using TNode.prems by (cases n) auto
  qed
qed

lemma butlast_last_set: "cs \<noteq> [] \<Longrightarrow> insert (last cs) (set (butlast cs)) = set cs"
  by (metis append_butlast_last_id list.simps(15) rotate1.simps(2) set_rotate1)

lemma trie_chunks_del_root:
  assumes "distinct (nodes (TNode a s cs l r))"
  shows "trie_chunks (trie_del_root (TNode a s cs l r)) = trie_chunks (TNode a s cs l r) - {(a, s)}"
proof -
  have out: "(a, s) \<notin> trie_chunks l" "(a, s) \<notin> trie_chunks r"
    using assms by (auto simp: nodes_chunks image_iff)
  consider "cs \<noteq> []" | "cs = []" "r \<noteq> TLeaf" | "cs = []" "r = TLeaf" "l \<noteq> TLeaf" | "cs = []" "r = TLeaf" "l = TLeaf"
    by blast
  then show ?thesis
  proof cases
    case 1
    then have "trie_chunks (trie_del_root (TNode a s cs l r))
        = (\<lambda>n. (n, s)) ` set cs \<union> trie_chunks l \<union> trie_chunks r"
      by (simp add: butlast_last_set flip: image_insert)
    then show ?thesis using out assms by auto
  next
    case 2
    obtain b t ds r' where p: "pull_leaf r = ((b, t, ds), r')" by (cases "pull_leaf r") auto
    from pull_leaf_chunks [OF 2(2) p] assms show ?thesis using 2 p out by auto
  next
    case 3
    obtain b t ds l' where p: "pull_leaf l = ((b, t, ds), l')" by (cases "pull_leaf l") auto
    from pull_leaf_chunks [OF 3(3) p] assms show ?thesis using 3 p out by auto
  next
    case 4
    then show ?thesis by simp
  qed
qed

lemma trie_ok_del_root: "trie_ok n t \<Longrightarrow> trie_ok n (trie_del_root t)"
proof (cases t)
  case TLeaf
  then show ?thesis by simp
next
  case (TNode a s cs l r)
  assume ok: "trie_ok n t"
  consider "cs \<noteq> []" | "cs = []" "r \<noteq> TLeaf" | "cs = []" "r = TLeaf" "l \<noteq> TLeaf" | "cs = []" "r = TLeaf" "l = TLeaf"
    by blast
  then show ?thesis
  proof cases
    case 1
    then show ?thesis using ok TNode by (cases n) simp_all
  next
    case 2
    obtain b t ds r' where p: "pull_leaf r = ((b, t, ds), r')" by (cases "pull_leaf r") auto
    obtain k where "n = Suc k" using 2 ok TNode by (cases n) auto
    then show ?thesis using pull_leaf_ok [of k r] 2 ok TNode p by auto
  next
    case 3
    obtain b t ds l' where p: "pull_leaf l = ((b, t, ds), l')" by (cases "pull_leaf l") auto
    obtain k where "n = Suc k" using 3 ok TNode by (cases n) auto
    then show ?thesis using pull_leaf_ok [of k l] 3 ok TNode p by auto
  next
    case 4
    then show ?thesis using TNode by (cases n) simp_all
  qed
qed

lemma trie_chunks_delete:
  assumes "distinct (nodes t)" "(x, s) \<in> trie_chunks t"
  shows "trie_chunks (trie_delete x t) = trie_chunks t - {(x, s)}"
  using assms
proof (induction t)
  case TLeaf
  then show ?case by simp
next
  case (TNode a u cs l r)
  have l: "(x, s) \<in> trie_chunks l \<Longrightarrow> x \<in> set (nodes l)" 
    and r: "(x, s) \<in> trie_chunks r \<Longrightarrow> x \<in> set (nodes r)" by (force simp: nodes_chunks)+
  have out: "x \<notin> set (nodes l) \<Longrightarrow> (x, v) \<notin> trie_chunks l" "x \<notin> set (nodes r) \<Longrightarrow> (x, v) \<notin> trie_chunks r" for v
    by (force simp: nodes_chunks)+
  consider "x = a" | "x \<noteq> a" "x \<in> set cs" | "x \<noteq> a" "x \<notin> set cs" "x \<in> set (nodes l)"
    | "x \<noteq> a" "x \<notin> set cs" "x \<notin> set (nodes l)" by blast
  then show ?case
  proof cases
    case 1
    then have "s = u" using TNode.prems l r by auto
    then show ?thesis using 1 trie_chunks_del_root [OF TNode.prems(1)] by simp
  next
    case 2
    then have "s = u" "x \<notin> set (nodes l)" "x \<notin> set (nodes r)" "distinct cs" using TNode.prems l r by auto
    then show ?thesis using 2 out by auto
  next
    case 3
    then have "(x, s) \<in> trie_chunks l" using TNode.prems r by auto
    then show ?thesis using 3 TNode out by auto
  next
    case 4
    then have "(x, s) \<in> trie_chunks r" using TNode.prems l by auto
    then show ?thesis using 4 TNode out by auto
  qed
qed

lemma trie_chunks_delete_subset: "distinct (nodes t) \<Longrightarrow> x \<in> set (nodes t) \<Longrightarrow> trie_chunks (trie_delete x t) \<subseteq> trie_chunks t"
  using trie_chunks_delete by (fastforce simp: nodes_chunks)

lemma trie_ok_delete:
  "trie_ok n t \<Longrightarrow> distinct (nodes t) \<Longrightarrow> x \<in> set (nodes t) \<Longrightarrow> trie_ok n (trie_delete x t)"
proof (induction t arbitrary: n)
  case TLeaf
  then show ?case by simp
next
  case (TNode a u cs l r)
  consider "x = a" | "x \<noteq> a" "x \<in> set cs" | "x \<noteq> a" "x \<notin> set cs" "x \<in> set (nodes l)"
    | "x \<noteq> a" "x \<notin> set cs" "x \<notin> set (nodes l)" "x \<in> set (nodes r)" using TNode.prems(3) by auto
  then show ?case
  proof cases
    case 1
    then show ?thesis using trie_ok_del_root [OF TNode.prems(1)] by simp
  next
    case 2
    then show ?thesis using TNode.prems(1) by (cases n) simp_all
  next
    case 3
    then obtain k where k: "n = Suc k" using TNode.prems(1) by (cases n) auto
    then have "trie_ok k (trie_delete x l)" "trie_chunks (trie_delete x l) \<subseteq> trie_chunks l"
      using TNode.IH(1) [of k] TNode.prems 3 trie_chunks_delete_subset by auto
    then show ?thesis using 3 k TNode.prems(1) by auto
  next
    case 4
    then obtain k where k: "n = Suc k" using TNode.prems(1) by (cases n) auto
    then have "trie_ok k (trie_delete x r)" "trie_chunks (trie_delete x r) \<subseteq> trie_chunks r"
      using TNode.IH(2) [of k] TNode.prems 4 trie_chunks_delete_subset by auto
    then show ?thesis using 4 k TNode.prems(1) by auto
  qed
qed

lemma trie_del_root_distinct:
  assumes "distinct (nodes (TNode a s cs l r))"
  shows "distinct (nodes (trie_del_root (TNode a s cs l r)))"
proof -
  consider "cs \<noteq> []" | "cs = []" "r \<noteq> TLeaf" | "cs = []" "r = TLeaf" "l \<noteq> TLeaf" | "cs = []" "r = TLeaf" "l = TLeaf"
    by blast
  then show ?thesis
  proof cases
    case 1
    then obtain ps z where "cs = ps @ [z]" by (metis rev_exhaust)
    then show ?thesis using assms by auto
  next
    case 2
    obtain b t ds r' where p: "pull_leaf r = ((b, t, ds), r')" by (cases "pull_leaf r") auto
    have "set (b # ds) \<subseteq> set (nodes r)"
      using pull_leaf_chunks [OF 2(2) p] assms by (auto simp: nodes_chunks image_Un image_image)
    then show ?thesis using pull_leaf_chunks [OF 2(2) p] 2 p assms by auto
  next
    case 3
    obtain b t ds l' where p: "pull_leaf l = ((b, t, ds), l')" by (cases "pull_leaf l") auto
    then show ?thesis using pull_leaf_chunks [OF 3(3) p] 3 p assms by auto
  next
    case 4
    then show ?thesis by simp
  qed
qed

lemma trie_delete_nodes:
  "distinct (nodes t) \<Longrightarrow> x \<in> set (nodes t) \<Longrightarrow> set (nodes (trie_delete x t)) \<subseteq> set (nodes t)"
  using trie_chunks_delete_subset by (simp add: nodes_chunks image_mono)

lemma trie_delete_distinct:
  "distinct (nodes t) \<Longrightarrow> x \<in> set (nodes t) \<Longrightarrow> distinct (nodes (trie_delete x t))"
proof (induction t)
  case TLeaf
  then show ?case by simp
next
  case (TNode a u cs l r)
  have l: "x \<in> set (nodes l) \<Longrightarrow> set (nodes (trie_delete x l)) \<subseteq> set (nodes l)"
    and r: "x \<in> set (nodes r) \<Longrightarrow> set (nodes (trie_delete x r)) \<subseteq> set (nodes r)"
    using trie_delete_nodes TNode.prems by auto
  consider "x = a" | "x \<noteq> a" "x \<in> set cs" | "x \<noteq> a" "x \<notin> set cs" "x \<in> set (nodes l)"
    | "x \<noteq> a" "x \<notin> set cs" "x \<notin> set (nodes l)" "x \<in> set (nodes r)" using TNode.prems(2) by auto
  then show ?case
  proof cases
    case 1
    then show ?thesis using trie_del_root_distinct [OF TNode.prems(1)] by simp
  next
    case 2
    then show ?thesis using TNode.prems(1) by (auto dest: in_set_remove1 [THEN iffD1, rotated] notin_set_remove1)
  next
    case 3
    then show ?thesis using TNode l by auto
  next
    case 4
    then show ?thesis using TNode r by auto
  qed
qed

end
