(* ===== verification/Pt_Tree_Ops.thy ===== *)
theory Pt_Tree_Ops
  imports Pt_Tries Pt_Rings
begin

text \<open>
  The macros \<open>insert_large_chunk\<close> and \<open>unlink_large_chunk\<close> of \<open>ptmalloc3-malloc.c\<close> on the chunk
  memory, what it means that memory holds a trie (\<open>trep\<close>), and the loop of insertion
  refining \<open>trie_insert\<close>.
\<close>

section \<open>The macros\<close>

definition child_slot :: "u64 \<Rightarrow> u64 \<Rightarrow> u64" where
  "child_slot t b = t + 32 + 8 * b"

definition leftmost_child :: "mstate \<Rightarrow> u64 \<Rightarrow> u64" where
  "leftmost_child m t = (if child0_of m t \<noteq> 0 then child0_of m t else child1_of m t)"

text \<open>The search loop of \<open>insert_large_chunk\<close>, from the tree node \<open>T\<close> with the key bits \<open>K\<close>.\<close>

partial_function (option) insert_large_loop ::
  "u64 \<Rightarrow> u64 \<Rightarrow> u64 \<Rightarrow> u64 \<Rightarrow> mstate \<Rightarrow> mstate option" where
  "insert_large_loop X S T K m =
     (if chunksize m T \<noteq> S then
        let C = child_slot T (drop_bit (SIZE_T_BITSIZE - 1) K AND 1);
            K = push_bit 1 K
        in if hp m C \<noteq> 0 then insert_large_loop X S (hp m C) K m
           else if ok_address m C then
             let m = upd C X m;
                 m = set_parent X T m;
                 m = set_bk X X m;
                 m = set_fd X X m
             in Some m
           else None
      else
        let F = fd_of m T
        in if ok_address m T \<and> ok_address m F then
             let m = set_bk F X m;
                 m = set_fd T X m;
                 m = set_fd X F m;
                 m = set_bk X T m;
                 m = set_parent X 0 m
             in Some m
           else None)"

definition insert_large_chunk :: "u64 \<Rightarrow> u64 \<Rightarrow> mstate \<Rightarrow> mstate option" where
  "insert_large_chunk X S m =
     (let I = compute_tree_index S;
          H = treebin_at m I;
          m = set_index X I m;
          m = set_child1 X 0 m;
          m = set_child0 X 0 m
      in if \<not> treemap_is_marked m I then
           let m = mark_treemap I m;
               m = upd H X m;
               m = set_parent X H m;
               m = set_bk X X m;
               m = set_fd X X m
           in Some m
         else insert_large_loop X S (hp m H) (push_bit (leftshift_for_tree_index I) S) m)"

text \<open>
  The loop that walks to the rightmost leaf below \<open>R\<close>; \<open>RP\<close> is the slot that holds \<open>R\<close>.
\<close>

partial_function (option) rightmost_leaf :: "mstate \<Rightarrow> u64 \<Rightarrow> u64 \<Rightarrow> (u64 \<times> u64) option" where
  "rightmost_leaf m RP R =
     (if child1_of m R \<noteq> 0 then rightmost_leaf m (R + 40) (child1_of m R)
      else if child0_of m R \<noteq> 0 then rightmost_leaf m (R + 32) (child0_of m R)
      else Some (R, RP))"

text \<open>Steps 1 and 2 of \<open>unlink_large_chunk\<close>: the chunk that replaces \<open>X\<close>, 0 for none.\<close>

definition unlink_replacement :: "u64 \<Rightarrow> mstate \<Rightarrow> (u64 \<times> mstate) option" where
  "unlink_replacement X m =
     (if bk_of m X \<noteq> X then
        let F = fd_of m X; R = bk_of m X
        in if ok_address m F then Some (R, set_fd R F (set_bk F R m)) else None
      else if child1_of m X \<noteq> 0 \<or> child0_of m X \<noteq> 0 then
        do {
          (R, RP) \<leftarrow> (if child1_of m X \<noteq> 0 then rightmost_leaf m (X + 40) (child1_of m X)
                       else rightmost_leaf m (X + 32) (child0_of m X));
          if ok_address m RP then Some (R, upd RP 0 m) else None
        }
      else Some (0, m))"

text \<open>Step 3: hang the replacement \<open>R\<close> where \<open>X\<close> was, below \<open>XP\<close>, with the children of \<open>X\<close>.\<close>

definition relink_parent :: "u64 \<Rightarrow> u64 \<Rightarrow> u64 \<Rightarrow> mstate \<Rightarrow> mstate option" where
  "relink_parent X XP R m =
     (let H = treebin_at m (index_of m X)
      in if X = hp m H then
           let m' = upd H R m
           in Some (if R = 0 then clear_treemap (index_of m' X) m' else m')
         else if ok_address m XP then
           Some (if child0_of m XP = X then set_child0 XP R m else set_child1 XP R m)
         else None)"

definition relink_children :: "u64 \<Rightarrow> u64 \<Rightarrow> u64 \<Rightarrow> mstate \<Rightarrow> mstate option" where
  "relink_children X XP R m =
     (if R \<noteq> 0 then
        if ok_address m R then
          do {
            let m = set_parent R XP m;
            m \<leftarrow> (let C0 = child0_of m X
                  in if C0 \<noteq> 0 then
                       if ok_address m C0 then Some (set_parent C0 R (set_child0 R C0 m)) else None
                     else Some m);
            (let C1 = child1_of m X
             in if C1 \<noteq> 0 then
                  if ok_address m C1 then Some (set_parent C1 R (set_child1 R C1 m)) else None
                else Some m)
          }
        else None
      else Some m)"

definition unlink_large_chunk :: "u64 \<Rightarrow> mstate \<Rightarrow> mstate option" where
  "unlink_large_chunk X m =
     do {
       let XP = parent_of m X;
       (R, m) \<leftarrow> unlink_replacement X m;
       if XP \<noteq> 0 then do { m \<leftarrow> relink_parent X XP R m; relink_children X XP R m }
       else Some m
     }"

section \<open>Tries in memory\<close>

text \<open>
  \<open>trep h I par p t\<close>: the pointer \<open>p\<close> is the root of the trie \<open>t\<close> of tree bin \<open>I\<close>, below
  \<open>par\<close>. Chunks that are on a ring but are not its tree node have no children and no parent.
\<close>

fun trep :: "heap \<Rightarrow> nat \<Rightarrow> u64 \<Rightarrow> u64 \<Rightarrow> trie \<Rightarrow> bool" where
  "trep h I par p TLeaf \<longleftrightarrow> p = 0"
| "trep h I par p (TNode a s cs l r) \<longleftrightarrow>
     p = a \<and> a \<noteq> 0 \<and> ring h a cs \<and> h (a + 48) = par
     \<and> (\<forall>c\<in>set cs. h (c + 32) = 0 \<and> h (c + 40) = 0 \<and> h (c + 48) = 0)
     \<and> (\<forall>n\<in>set (a # cs). h (n + 8) AND NOT FLAG_BITS = s \<and> unat (low32 (h (n + 56))) = I)
     \<and> trep h I a (h (a + 32)) l \<and> trep h I a (h (a + 40)) r"

definition nfar :: "u64 \<Rightarrow> u64 \<Rightarrow> bool" where
  "nfar p q \<longleftrightarrow> 64 \<le> p - q \<and> 64 \<le> q - p"

lemma nfar_sym: "nfar p q \<Longrightarrow> nfar q p"
  by (simp add: nfar_def)

lemma nfar_irrefl [simp]: "\<not> nfar p p"
  by (simp add: nfar_def)

lemma nfar_far: "nfar p q \<Longrightarrow> far p q"
  by (simp add: far_def nfar_def word_le_nat_alt)

lemma nfar_slot:
  assumes "nfar p q" "a < 64" "b < 64"
  shows "p + a \<noteq> q + b"
proof
  assume "p + a = q + b"
  then have *: "p - q = b - a" "q - p = a - b" by (simp_all add: algebra_simps)
  have "b - a < 64 \<or> a - b < 64"
    using assms(2,3) by (cases "a \<le> b") (auto simp: word_le_nat_alt word_less_nat_alt unat_sub_if')
  with * assms(1) show False by (auto simp: nfar_def)
qed

definition link_offs :: "u64 set" where "link_offs = {16, 24, 32, 40, 48}"
definition node_offs :: "u64 set" where "node_offs = {8, 16, 24, 32, 40, 48, 56}"

text \<open>The slots that linking and unlinking the chunks \<open>N\<close> may write.\<close>

definition tlinks :: "u64 set \<Rightarrow> u64 set" where
  "tlinks N = (\<Union>n\<in>N. (+) n ` link_offs)"

lemma tlinksI: "n \<in> N \<Longrightarrow> k \<in> link_offs \<Longrightarrow> n + k \<in> tlinks N"
  by (auto simp: tlinks_def)

lemma tlinks_mono: "M \<subseteq> N \<Longrightarrow> tlinks M \<subseteq> tlinks N"
  by (auto simp: tlinks_def)

lemma node_offs_less: "k \<in> node_offs \<Longrightarrow> k < 64" "k \<in> link_offs \<Longrightarrow> k < 64" "k \<in> link_offs \<Longrightarrow> k \<in> node_offs"
  by (auto simp: node_offs_def link_offs_def)

lemma tlinks_far:
  assumes "\<And>j. j \<in> N \<Longrightarrow> nfar n j" "k < 64"
  shows "n + k \<notin> tlinks N"
proof
  assume "n + k \<in> tlinks N"
  then obtain j i where j: "j \<in> N" "i \<in> link_offs" "n + k = j + i" by (auto simp: tlinks_def)
  then show False using nfar_slot [of n j k i] assms node_offs_less by blast
qed

lemma tlinks_self:
  assumes "n \<in> N" "pairwise nfar N" "k < 64" "k \<notin> link_offs"
  shows "n + k \<notin> tlinks N"
proof
  assume "n + k \<in> tlinks N"
  then obtain j i where j: "j \<in> N" "i \<in> link_offs" "n + k = j + i" by (auto simp: tlinks_def)
  then have "n \<noteq> j" using assms(4) by auto
  then have "nfar n j" using assms(1,2) j by (auto simp: pairwise_def)
  then show False using nfar_slot [of n j k i] j assms(3) node_offs_less by blast
qed

lemma trep_cong:
  assumes "\<And>n k. n \<in> set (nodes t) \<Longrightarrow> k \<in> node_offs \<Longrightarrow> h' (n + k) = h (n + k)"
  shows "trep h' I par p t = trep h I par p t"
  using assms
proof (induction t arbitrary: par p)
  case TLeaf
  then show ?case by simp
next
  case (TNode a s cs l r)
  have same: "h' (n + 8) = h (n + 8)" "h' (n + 16) = h (n + 16)" "h' (n + 24) = h (n + 24)"
    "h' (n + 32) = h (n + 32)" "h' (n + 40) = h (n + 40)" "h' (n + 48) = h (n + 48)" "h' (n + 56) = h (n + 56)"
    if "n \<in> set (a # cs)" for n
    using that by (auto intro!: TNode.prems simp: node_offs_def)
  have "ring h' a cs = ring h a cs"
    using same by (intro ring_cong) blast
  moreover have "trep h' I a q l = trep h I a q l" "trep h' I a q r = trep h I a q r" for q
    using TNode.prems by (auto intro!: TNode.IH)
  ultimately show ?case using same by simp
qed

text \<open>Nodes that a step does not touch keep their trie.\<close>

lemma trep_frame:
  assumes "agree_off (tlinks N \<union> A) m m'" "\<And>n j. n \<in> set (nodes t) \<Longrightarrow> j \<in> N \<Longrightarrow> nfar n j"
    and "\<And>n k. n \<in> set (nodes t) \<Longrightarrow> k \<in> node_offs \<Longrightarrow> n + k \<notin> A"
  shows "trep (hp m') I par p t = trep (hp m) I par p t"
proof (rule trep_cong)
  fix n k assume n: "n \<in> set (nodes t)" "k \<in> node_offs"
  then have "n + k \<notin> tlinks N" using assms(2) by (intro tlinks_far) (auto dest: node_offs_less)
  then show "hp m' (n + k) = hp m (n + k)" using assms(1,3) n by (simp add: agree_off_def)
qed

lemma trep_ptr: "trep h I par p t \<Longrightarrow> p = 0 \<longleftrightarrow> t = TLeaf"
  by (cases t) auto

lemma trep_root_in: "trep h I par p t \<Longrightarrow> t \<noteq> TLeaf \<Longrightarrow> p \<in> set (nodes t)"
  by (cases t) auto

definition node_ok :: "mstate \<Rightarrow> u64 \<Rightarrow> bool" where
  "node_ok m n \<longleftrightarrow> ok_address m n \<and> n \<noteq> 0 \<and> unat n + 64 \<le> 2 ^ 64"

lemma node_ok_slot: "node_ok m n \<Longrightarrow> k < 64 \<Longrightarrow> ok_address m (n + k)"
  unfolding node_ok_def ok_address_def
  by (auto simp: word_le_nat_alt word_less_nat_alt unat_plus_if')

lemma node_ok_cong: "least_addr m' = least_addr m \<Longrightarrow> node_ok m' n = node_ok m n"
  by (simp add: node_ok_def ok_address_def)

text \<open>Replacing one child of a node.\<close>

lemma trep_child:
  assumes t: "trep (hp m) I par p (TNode a s cs l r)"
    and fr: "agree_off (tlinks N \<union> {if b then a + 40 else a + 32}) m m'"
    and sep: "distinct (nodes (TNode a s cs l r))" "pairwise nfar (set (nodes (TNode a s cs l r)))"
    and N: "\<And>n j. n \<in> set (a # cs) \<union> set (nodes (if b then l else r)) \<Longrightarrow> j \<in> N \<Longrightarrow> nfar n j"
    and new: "trep (hp m') I a (hp m' (if b then a + 40 else a + 32)) t'"
  shows "trep (hp m') I par p (if b then TNode a s cs l t' else TNode a s cs t' r)"
proof -
  let ?A = "{if b then a + 40 else a + 32}"
  have slot: "n + k \<notin> ?A" if "n \<in> set (nodes (TNode a s cs l r))" "n \<noteq> a" "k < 64" for n k
  proof -
    have "nfar n a" using that sep(2) unfolding pairwise_def by (metis list.set_intros(1) nodes.simps(2))
    then show ?thesis using nfar_slot [of n a k] that(3) by simp
  qed
  have off: "hp m' (n + k) = hp m (n + k)"
    if "n \<in> set (a # cs)" "k < 64" "n + k \<notin> ?A" for n k
  proof -
    have "n + k \<notin> tlinks N" using that N by (intro tlinks_far) auto
    then show ?thesis using fr that(3) by (simp add: agree_off_def)
  qed
  have cs: "hp m' (c + k) = hp m (c + k)" if "c \<in> set cs" "k < 64" for c k
    using that sep(1) by (intro off slot) auto
  have a: "hp m' (a + k) = hp m (a + k)" if "k < 64" "k \<noteq> (if b then 40 else 32)" for k
    using that by (intro off) auto
  have "ring (hp m') a cs = ring (hp m) a cs" using a cs by (intro ring_cong) auto
  moreover have "trep (hp m') I a q (if b then l else r) = trep (hp m) I a q (if b then l else r)" for q
  proof (rule trep_frame [OF fr])
    show "nfar n j" if "n \<in> set (nodes (if b then l else r))" "j \<in> N" for n j using N that by blast
    show "n + k \<notin> ?A" if "n \<in> set (nodes (if b then l else r))" "k \<in> node_offs" for n k
      using that sep(1) node_offs_less(1) by (intro slot) (auto split: if_splits)
  qed
  ultimately show ?thesis using t new a cs by (cases b) simp_all
qed

section \<open>Insertion in memory\<close>

lemma key_bit:
  assumes "0 < n" "n \<le> 64"
  shows "drop_bit 63 (push_bit (64 - n) (S::u64)) AND 1 = of_bool (bit S (n - 1))"
proof -
  have "drop_bit 63 (push_bit (64 - n) S) AND 1 = of_bool (bit (push_bit (64 - n) S) 63)"
    by (simp add: and_one_eq bit_iff_odd_drop_bit odd_iff_mod_2_eq_one)
  also have "bit (push_bit (64 - n) S) 63 = bit S (n - 1)"
    using assms by (auto simp: bit_push_bit_iff)
  finally show ?thesis .
qed

lemma key_shift: "0 < n \<Longrightarrow> n \<le> 64 \<Longrightarrow> push_bit 1 (push_bit (64 - n) (S::u64)) = push_bit (64 - (n - 1)) S"
proof -
  assume "0 < n" "n \<le> 64"
  then have "1 + (64 - n) = 64 - (n - 1)" by simp
  then show ?thesis by (simp only: push_bit_push_bit)
qed

lemma child_slot_bit: "child_slot t (of_bool b) = (if b then t + 40 else t + 32)"
  by (simp add: child_slot_def)

text \<open>The new chunk, not yet linked.\<close>

definition loose_node :: "mstate \<Rightarrow> nat \<Rightarrow> u64 \<Rightarrow> u64 \<Rightarrow> bool" where
  "loose_node m I X S \<longleftrightarrow> node_ok m X \<and> chunksize m X = S \<and> index_of m X = I
     \<and> child0_of m X = 0 \<and> child1_of m X = 0"

lemma ring_push_chain:
  assumes "ring h a cs" "distinct (X # a # cs)" "pairwise nfar (set (X # a # cs))"
    and F: "F = h (a + 16)"
  shows "ring (h(F + 24 := X, a + 16 := X, X + 16 := F, X + 24 := a)) a (X # cs)"
    "F \<in> set (a # cs)"
proof -
  have hd: "F = hd (cs @ [a])" using assms(1) F by (simp add: ring_def dls_fd)
  then show Fin: "F \<in> set (a # cs)" by (cases cs) simp_all
  have pw: "pairwise far (set (X # a # cs))"
    using assms(3) nfar_far by (auto simp: pairwise_def)
  have "sorted_wrt far (a # cs)"
    using assms(2) by (intro pairwise_sorted_wrt) (auto intro: pairwise_subset [OF pw])
  moreover have "\<And>n. n \<in> set (a # cs) \<Longrightarrow> far X n"
    using pw assms(2) by (auto simp: pairwise_def)
  ultimately have "ring (h(a + 16 := X, F + 24 := X, X + 16 := F, X + 24 := a)) a (X # cs)"
    using assms(1) by (intro ring_push hd) auto
  moreover have "F + 24 \<noteq> a + 16"
  proof (cases "F = a")
    case False
    then have "far F a" using pw Fin by (auto simp: pairwise_def)
    then show ?thesis by (auto dest: far_slots)
  qed simp
  ultimately show "ring (h(F + 24 := X, a + 16 := X, X + 16 := F, X + 24 := a)) a (X # cs)"
    by (simp add: fun_upd_twist)
qed

lemma trep_push_chain:
  assumes t: "trep (hp m) I par p (TNode a s cs l r)" and X: "loose_node m I X s"
    and sep: "distinct (X # nodes (TNode a s cs l r))" "pairwise nfar (set (X # nodes (TNode a s cs l r)))"
    and F: "F = fd_of m a"
    and m': "m' = set_parent X 0 (set_bk X a (set_fd X F (set_fd a X (set_bk F X m))))"
  shows "trep (hp m') I par p (TNode a s (X # cs) l r)"
    and "F \<in> set (a # cs)" and "agree_off (tlinks (set (X # a # cs))) m m'"
proof -
  let ?N = "set (X # a # cs)"
  have rg: "ring (hp m) a cs" using t by simp
  have pw: "pairwise nfar ?N" by (rule pairwise_subset [OF sep(2)]) auto
  note push = ring_push_chain [OF rg _ pw F]
  show Fin: "F \<in> set (a # cs)" using push(2) sep(1) by simp
  show fr: "agree_off (tlinks ?N) m m'"
    using Fin unfolding m' by (intro agree_off_intros tlinksI) (auto simp: link_offs_def)
  have ring: "ring (hp m') a (X # cs)"
  proof -
    have "ring ((hp m)(F + 24 := X, a + 16 := X, X + 16 := F, X + 24 := a)) a (X # cs)"
      using push(1) sep(1) by simp
    moreover have "hp m' (n + k) = ((hp m)(F + 24 := X, a + 16 := X, X + 16 := F, X + 24 := a)) (n + k)"
      if "n \<in> set (a # X # cs)" "k = 16 \<or> k = 24" for n k
    proof -
      have "n = X \<or> nfar n X" using that(1) pw sep(1) by (auto simp: pairwise_def)
      then have "n + k \<noteq> X + 48" using that(2) nfar_slot [of n X k 48] by auto
      then show ?thesis by (simp add: m')
    qed
    ultimately show ?thesis by (subst ring_cong) auto
  qed
  have frk: "hp m' (n + k) = hp m (n + k)" if "n \<in> ?N" "k = 8 \<or> k = 56" for n k
  proof -
    have "n + k \<notin> tlinks ?N" using that pw by (intro tlinks_self) (auto simp: link_offs_def)
    then show ?thesis using fr by (simp add: agree_off_def)
  qed
  have ch: "hp m' (n + k) = hp m (n + k)" if "n \<in> ?N" "k = 32 \<or> k = 40 \<or> k = 48 \<and> n \<noteq> X" for n k
  proof -
    have far: "j = n \<or> nfar n j" if "j \<in> ?N" for j using that \<open>n \<in> ?N\<close> pw by (auto simp: pairwise_def)
    have "n + k \<noteq> j + i" if "j \<in> ?N" "i = 16 \<or> i = 24" for j i
      using far [OF that(1)] nfar_slot [of n j k i] that(2) \<open>k = 32 \<or> _\<close> by auto
    moreover have "n + k \<noteq> X + 48"
      using far [of X] nfar_slot [of n X k 48] \<open>k = 32 \<or> _\<close> by auto
    ultimately show ?thesis using Fin by (auto simp: m')
  qed
  have sub: "trep (hp m') I q p' t' = trep (hp m) I q p' t'"
    if "set (nodes t') \<subseteq> set (nodes l) \<union> set (nodes r)" for t' q p'
  proof (rule trep_frame [of ?N "{}"])
    show "agree_off (tlinks ?N \<union> {}) m m'" using fr by simp
    show "nfar n j" if "n \<in> set (nodes t')" "j \<in> ?N" for n j
    proof (rule pairwiseD [OF sep(2)])
      have n: "n \<in> set (nodes l) \<union> set (nodes r)" using that \<open>set (nodes t') \<subseteq> _\<close> by blast
      then show "n \<in> set (X # nodes (TNode a s cs l r))" by auto
      show "j \<in> set (X # nodes (TNode a s cs l r))" using that by auto
      show "n \<noteq> j" using n that(2) sep(1) by auto
    qed
  qed simp
  have aX: "a \<noteq> X" "X \<notin> set cs" using sep(1) by auto
  have kids: "hp m' (c + 32) = 0 \<and> hp m' (c + 40) = 0 \<and> hp m' (c + 48) = 0" if "c \<in> set (X # cs)" for c
  proof (cases "c = X")
    case True
    moreover have "hp m' (X + 48) = 0" by (simp add: m')
    ultimately show ?thesis using X ch [of X 32] ch [of X 40] by (simp add: loose_node_def)
  next
    case False
    then show ?thesis using t that ch [of c 32] ch [of c 40] ch [of c 48] by simp
  qed
  have heads: "hp m' (n + 8) AND NOT FLAG_BITS = s \<and> unat (low32 (hp m' (n + 56))) = I"
    if "n \<in> set (a # X # cs)" for n
  proof -
    have "hp m' (n + 8) = hp m (n + 8)" "hp m' (n + 56) = hp m (n + 56)" using that by (auto intro!: frk)
    then show ?thesis using t X that by (auto simp: loose_node_def chunksize_def index_of_def)
  qed
  have "hp m' (a + 32) = hp m (a + 32)" "hp m' (a + 40) = hp m (a + 40)" "hp m' (a + 48) = hp m (a + 48)"
    using aX by (auto intro!: ch)
  then show "trep (hp m') I par p (TNode a s (X # cs) l r)"
    using t ring kids heads sub [of l] sub [of r] by simp
qed

lemma trep_single:
  assumes X: "loose_node m I X S" and C: "\<And>k. k \<in> node_offs \<Longrightarrow> X + k \<noteq> C"
    and m': "m' = set_fd X X (set_bk X X (set_parent X par (upd C X m)))"
  shows "trep (hp m') I par X (TNode X S [] TLeaf TLeaf)"
    and "agree_off (tlinks {X} \<union> {C}) m m'" and "hp m' C = X"
proof -
  have C': "X + 8 \<noteq> C" "X + 16 \<noteq> C" "X + 24 \<noteq> C" "X + 32 \<noteq> C" "X + 40 \<noteq> C" "X + 48 \<noteq> C" "X + 56 \<noteq> C"
    using C by (simp_all add: node_offs_def)
  have "hp m' (X + 8) = hp m (X + 8)" "hp m' (X + 16) = X" "hp m' (X + 24) = X" "hp m' (X + 32) = hp m (X + 32)"
    "hp m' (X + 40) = hp m (X + 40)" "hp m' (X + 48) = par" "hp m' (X + 56) = hp m (X + 56)"
    using C' by (simp_all add: m')
  then show "trep (hp m') I par X (TNode X S [] TLeaf TLeaf)"
    using X by (simp add: loose_node_def node_ok_def chunksize_def index_of_def ring_def)
  show "agree_off (tlinks {X} \<union> {C}) m m'"
    unfolding m' by (intro agree_off_intros) (auto intro!: tlinksI simp: link_offs_def)
  show "hp m' C = X" using C' [symmetric] by (simp add: m')
qed

lemma insert_large_loop_rep:
  assumes "trep (hp m) I par p t" and "t \<noteq> TLeaf" and "trie_ok n t" "prefix_ok n q t" "n \<le> 64"
    and "drop_bit n S = q" and "K = push_bit (64 - n) S"
    and "distinct (X # nodes t)" "pairwise nfar (set (X # nodes t))"
    and "loose_node m I X S" and "\<And>k. k \<in> set (nodes t) \<Longrightarrow> node_ok m k"
  shows "\<exists>m'. insert_large_loop X S p K m = Some m' \<and> trep (hp m') I par p (trie_insert n X S t)
    \<and> agree_off (tlinks (set (X # nodes t))) m m' \<and> m' = m\<lparr>hp := hp m'\<rparr>"
  using assms
proof (induction t arbitrary: par p n q K)
  case TLeaf
  then show ?case by simp
next
  case (TNode a s cs l r)
  let ?t = "TNode a s cs l r"
  have p: "p = a" and s: "chunksize m a = s" using TNode.prems(1) by (simp_all add: chunksize_def)
  have ok_a: "node_ok m a" using TNode.prems(11) by simp
  show ?case
  proof (cases "s = S")
    case True
    define m' where "m' = set_parent X 0 (set_bk X a (set_fd X (fd_of m a) (set_fd a X (set_bk (fd_of m a) X m))))"
    have "loose_node m I X s" using TNode.prems(10) True by simp
    note push = trep_push_chain [OF TNode.prems(1) this TNode.prems(8,9) refl m'_def]
    have "ok_address m (fd_of m a)" using push(2) TNode.prems(11) by (auto simp: node_ok_def)
    then have "insert_large_loop X S p K m = Some m'"
      using ok_a s True by (subst insert_large_loop.simps) (simp add: p m'_def node_ok_def Let_def)
    moreover have "agree_off (tlinks (set (X # nodes ?t))) m m'"
      by (rule agree_off_mono [OF push(3) tlinks_mono]) auto
    moreover have "m' = m\<lparr>hp := hp m'\<rparr>" by (simp add: m'_def upd_def)
    ultimately show ?thesis using push(1) True by auto
  next
    case False
    have "n \<noteq> 0" using TNode.prems(4,6) False by (cases "n = 0") (auto simp: prefix_ok_def)
    then obtain k where n: "n = Suc k" by (cases n) auto
    define b where "b = bit S k"
    define sub where "sub = (if b then r else l)"
    define C where "C = (if b then a + 40 else a + 32)"
    have C: "child_slot a (drop_bit 63 K AND 1) = C"
      using TNode.prems(5,7) n key_bit [of n S] by (simp add: b_def C_def child_slot_bit)
    have K: "push_bit 1 K = push_bit (64 - k) S"
      using TNode.prems(5,7) n key_shift [of n S] by simp
    note ch = prefix_ok_children [OF TNode.prems(4,3) [unfolded n]]
    note key = prefix_ok_child_key [OF TNode.prems(6) [unfolded n]]
    have sub_rep: "trep (hp m) I a (hp m C) sub" using TNode.prems(1) by (simp add: sub_def C_def)
    have sub_nodes: "set (nodes sub) \<subseteq> set (nodes ?t)" "a \<notin> set (nodes sub)" "distinct (nodes sub)"
      using TNode.prems(8) by (auto simp: sub_def)
    have pw_sub: "pairwise nfar (set (X # nodes sub))"
      using sub_nodes by (intro pairwise_subset [OF TNode.prems(9)]) auto
    have ok_C: "ok_address m C" using node_ok_slot [OF ok_a] by (simp add: C_def)
    have apart: "nfar x y" if "x \<in> set (X # nodes ?t)" "y \<in> set (X # nodes ?t)" "x \<noteq> y" for x y
      using pairwiseD [OF TNode.prems(9)] that by blast
    have sep: "distinct (nodes ?t)" "pairwise nfar (set (nodes ?t))"
      using TNode.prems(8) pairwise_subset [OF TNode.prems(9)] by auto
    have "\<exists>m'. insert_large_loop X S p K m = Some m' \<and> trep (hp m') I a (hp m' C) (trie_insert k X S sub)
      \<and> agree_off (tlinks (set (X # nodes sub)) \<union> {C}) m m' \<and> m' = m\<lparr>hp := hp m'\<rparr>"
    proof (cases "sub = TLeaf")
      case True
      then have C0: "hp m C = 0" using sub_rep by simp
      define m' where "m' = set_fd X X (set_bk X X (set_parent X a (upd C X m)))"
      have "X + j \<noteq> C" if "j \<in> node_offs" for j
        using apart [of X a] TNode.prems(8) that node_offs_less nfar_slot [of X a j 40] nfar_slot [of X a j 32]
        by (auto simp: C_def)
      note single = trep_single [OF TNode.prems(10) this m'_def]
      have "insert_large_loop X S p K m = Some m'"
        using s False ok_C by (subst insert_large_loop.simps) (simp add: p C C0 m'_def Let_def)
      moreover have "m' = m\<lparr>hp := hp m'\<rparr>" by (simp add: m'_def upd_def)
      ultimately show ?thesis using single True by auto
    next
      case sub: False
      then have C1: "hp m C \<noteq> 0" using sub_rep trep_ptr by blast
      have step: "insert_large_loop X S p K m = insert_large_loop X S (hp m C) (push_bit 1 K) m"
        using s False C1 by (subst insert_large_loop.simps) (simp only: p C Let_def SIZE_T_BITSIZE_def, simp add: C)
      have "\<exists>m'. insert_large_loop X S (hp m C) (push_bit 1 K) m = Some m'
        \<and> trep (hp m') I a (hp m C) (trie_insert k X S sub)
        \<and> agree_off (tlinks (set (X # nodes sub))) m m' \<and> m' = m\<lparr>hp := hp m'\<rparr>"
      proof (cases b)
        case True
        show ?thesis unfolding sub_def if_P [OF True]
          by (rule TNode.IH(2) [OF _ _ _ ch(2)])
            (use True sub_rep sub key K TNode.prems(1,3,5,8,10,11) n b_def pw_sub
              in \<open>auto simp: sub_def\<close>)
      next
        case False
        show ?thesis unfolding sub_def if_not_P [OF False]
          by (rule TNode.IH(1) [OF _ _ _ ch(1)])
            (use False sub_rep sub key K TNode.prems(1,3,5,8,10,11) n b_def pw_sub
              in \<open>auto simp: sub_def\<close>)
      qed
      then obtain m' where m': "insert_large_loop X S (hp m C) (push_bit 1 K) m = Some m'"
        "trep (hp m') I a (hp m C) (trie_insert k X S sub)"
        "agree_off (tlinks (set (X # nodes sub))) m m'" "m' = m\<lparr>hp := hp m'\<rparr>" by blast
      have "C \<notin> tlinks (set (X # nodes sub))"
      proof -
        have far: "nfar a j" if "j \<in> set (X # nodes sub)" for j
          using that sub_nodes TNode.prems(8) by (intro apart) auto
        show ?thesis
          using tlinks_far [of "set (X # nodes sub)" a 32, OF far]
            tlinks_far [of "set (X # nodes sub)" a 40, OF far]
          by (simp add: C_def)
      qed
      then have "hp m' C = hp m C" using m'(3) by (simp add: agree_off_def)
      then show ?thesis using m' step agree_off_mono [OF m'(3)] by auto
    qed
    then obtain m' where m': "insert_large_loop X S p K m = Some m'"
      "trep (hp m') I a (hp m' C) (trie_insert k X S sub)"
      "agree_off (tlinks (set (X # nodes sub)) \<union> {C}) m m'" "m' = m\<lparr>hp := hp m'\<rparr>" by blast
    have "trep (hp m') I par p (if b then TNode a s cs l (trie_insert k X S sub) else TNode a s cs (trie_insert k X S sub) r)"
    proof (rule trep_child [OF TNode.prems(1) m'(3) [unfolded C_def] sep])
      show "nfar x y" if "x \<in> set (a # cs) \<union> set (nodes (if b then l else r))" "y \<in> set (X # nodes sub)" for x y
        using that TNode.prems(8) by (intro apart) (auto simp: sub_def split: if_splits)
      show "trep (hp m') I a (hp m' (if b then a + 40 else a + 32)) (trie_insert k X S sub)"
        using m'(2) by (simp add: C_def)
    qed
    then have "trep (hp m') I par p (trie_insert n X S ?t)"
      using False n by (simp add: b_def sub_def split: if_splits)
    moreover have "agree_off (tlinks (set (X # nodes ?t))) m m'"
    proof (rule agree_off_mono [OF m'(3)])
      have "C \<in> tlinks (set (X # nodes ?t))"
        using tlinksI [of a _ 40] tlinksI [of a _ 32] by (simp add: C_def link_offs_def)
      then show "tlinks (set (X # nodes sub)) \<union> {C} \<subseteq> tlinks (set (X # nodes ?t))"
        using sub_nodes tlinks_mono [of "set (X # nodes sub)" "set (X # nodes ?t)"] by auto
    qed
    ultimately show ?thesis using m' by blast
  qed
qed

end
