(* ===== verification/Pt_Tree_Unlink.thy ===== *)
theory Pt_Tree_Unlink
  imports Pt_Tree_Ops
begin

text \<open>
  The steps of \<open>unlink_large_chunk\<close> refine \<open>trie_delete\<close>: the replacement is found and taken
  out, then hung where the deleted chunk was.
\<close>

section \<open>Deletion in memory\<close>

text \<open>The same trie below another parent.\<close>

lemma trep_reparent:
  assumes t: "trep h I par p t" and d: "distinct (nodes t)"
    and same: "\<And>n k. n \<in> set (nodes t) \<Longrightarrow> k \<in> node_offs \<Longrightarrow> (n, k) \<noteq> (p, 48) \<Longrightarrow> h' (n + k) = h (n + k)"
    and par: "t \<noteq> TLeaf \<Longrightarrow> h' (p + 48) = par'"
  shows "trep h' I par' p t"
proof (cases t)
  case TLeaf
  then show ?thesis using t by simp
next
  case (TNode a s cs l r)
  have p: "p = a" using t TNode by simp
  have eq: "h' (n + 8) = h (n + 8)" "h' (n + 16) = h (n + 16)" "h' (n + 24) = h (n + 24)"
    "h' (n + 32) = h (n + 32)" "h' (n + 40) = h (n + 40)" "h' (n + 56) = h (n + 56)"
    if "n \<in> set (a # cs)" for n
    using that TNode by (auto intro!: same simp: node_offs_def)
  have eq48: "h' (c + 48) = h (c + 48)" if "c \<in> set cs" for c
    using that TNode d p by (intro same) (auto simp: node_offs_def)
  have "trep h' I a q t' = trep h I a q t'" if "t' = l \<or> t' = r" for q t'
    using that TNode d p by (intro trep_cong same) auto
  moreover have "ring h' a cs = ring h a cs" using eq by (intro ring_cong) auto
  ultimately show ?thesis using t par TNode p eq eq48 by auto
qed

lemma relink_children_rep:
  assumes R: "trep (hp m) I q0 R (TNode R s ds TLeaf TLeaf)"
    and l: "trep (hp m) I X (hp m (X + 32)) l" and r: "trep (hp m) I X (hp m (X + 40)) r"
    and d: "distinct (X # R # ds @ nodes l @ nodes r)"
    and pw: "pairwise nfar (set (X # R # ds @ nodes l @ nodes r))"
    and ok: "\<And>n. n \<in> set (R # nodes l @ nodes r) \<Longrightarrow> node_ok m n"
  shows "\<exists>m'. relink_children X XP R m = Some m' \<and> trep (hp m') I XP R (TNode R s ds l r)
    \<and> agree_off (tlinks (set (R # nodes l @ nodes r))) m m' \<and> m' = m\<lparr>hp := hp m'\<rparr>"
proof -
  let ?N = "set (X # R # ds @ nodes l @ nodes r)"
  define C0 where "C0 = hp m (X + 32)"
  define C1 where "C1 = hp m (X + 40)"
  define m1 where "m1 = set_parent R XP m"
  define m2 where "m2 = (if C0 \<noteq> 0 then set_parent C0 R (set_child0 R C0 m1) else m1)"
  define m' where "m' = (if C1 \<noteq> 0 then set_parent C1 R (set_child1 R C1 m2) else m2)"
  have C0: "C0 \<noteq> 0 \<Longrightarrow> C0 \<in> set (nodes l)" "C0 = 0 \<longleftrightarrow> l = TLeaf"
    using l trep_ptr trep_root_in unfolding C0_def by blast+
  have C1: "C1 \<noteq> 0 \<Longrightarrow> C1 \<in> set (nodes r)" "C1 = 0 \<longleftrightarrow> r = TLeaf"
    using r trep_ptr trep_root_in unfolding C1_def by blast+
  have apart: "n + k = j + i \<longleftrightarrow> n = j \<and> k = i" if "n \<in> ?N" "j \<in> ?N" "k < 64" "i < 64" for n k j i
  proof (cases "n = j")
    case False
    then have "nfar n j" using pairwiseD [OF pw] that by blast
    then show ?thesis using nfar_slot that False by blast
  qed simp
  have R0: "R \<noteq> 0" using R by simp
  have in_N: "X \<in> ?N" "R \<in> ?N" "C0 \<noteq> 0 \<Longrightarrow> C0 \<in> ?N" "C1 \<noteq> 0 \<Longrightarrow> C1 \<in> ?N" using C0 C1 by auto
  have ne: "X \<noteq> R" "C0 \<noteq> 0 \<Longrightarrow> C0 \<noteq> R \<and> C0 \<noteq> X" "C1 \<noteq> 0 \<Longrightarrow> C1 \<noteq> R \<and> C1 \<noteq> X" "C0 \<noteq> 0 \<Longrightarrow> C0 \<noteq> C1"
    using d C0(1) C1(1) by auto
  have final: "hp m' (n + k) =
     (if n = R \<and> k = 48 then XP else if n = R \<and> k = 32 \<and> C0 \<noteq> 0 then C0
      else if n = R \<and> k = 40 \<and> C1 \<noteq> 0 then C1
      else if k = 48 \<and> C0 \<noteq> 0 \<and> n = C0 \<or> k = 48 \<and> C1 \<noteq> 0 \<and> n = C1 then R else hp m (n + k))"
    if "n \<in> ?N" "k < 64" for n k
  proof -
    have e: "n + k = R + 48 \<longleftrightarrow> n = R \<and> k = 48" "n + k = R + 32 \<longleftrightarrow> n = R \<and> k = 32"
      "n + k = R + 40 \<longleftrightarrow> n = R \<and> k = 40"
      using apart [OF that(1) in_N(2) that(2)] by simp_all
    have e0: "C0 \<noteq> 0 \<Longrightarrow> n + k = C0 + 48 \<longleftrightarrow> n = C0 \<and> k = 48"
      and e1: "C1 \<noteq> 0 \<Longrightarrow> n + k = C1 + 48 \<longleftrightarrow> n = C1 \<and> k = 48"
      using apart [OF that(1) in_N(3) that(2), of 48] apart [OF that(1) in_N(4) that(2), of 48] by simp_all
    have m1: "hp m1 (n + k) = (if n = R \<and> k = 48 then XP else hp m (n + k))"
      by (simp only: m1_def upd_sel fun_upd_apply e)
    have m2: "hp m2 (n + k) = (if C0 \<noteq> 0 \<and> n = C0 \<and> k = 48 then R
        else if C0 \<noteq> 0 \<and> n = R \<and> k = 32 then C0 else hp m1 (n + k))"
      by (cases "C0 = 0") (simp_all only: m2_def upd_sel fun_upd_apply e e0 if_True if_False not_True_eq_False
          not_False_eq_True simp_thms)
    have m': "hp m' (n + k) = (if C1 \<noteq> 0 \<and> n = C1 \<and> k = 48 then R
        else if C1 \<noteq> 0 \<and> n = R \<and> k = 40 then C1 else hp m2 (n + k))"
      by (cases "C1 = 0") (simp_all only: m'_def upd_sel fun_upd_apply e e1 if_True if_False not_True_eq_False
          not_False_eq_True simp_thms)
    have "C0 = 0 \<or> R \<noteq> C0" "C1 = 0 \<or> R \<noteq> C1" using ne by blast+
    then show ?thesis unfolding m' m2 m1
      by (cases "n = R"; cases "k = 48"; cases "k = 32"; cases "k = 40") auto
  qed
  have X_same: "hp m1 (X + 32) = C0" "hp m2 (X + 40) = C1"
  proof -
    have X_R: "X + 32 \<noteq> R + 48" "X + 40 \<noteq> R + 48" "X + 40 \<noteq> R + 32"
      using apart [OF in_N(1,2)] ne(1) by simp_all
    have X_C0: "C0 \<noteq> 0 \<Longrightarrow> X + 40 \<noteq> C0 + 48"
      using apart [OF in_N(1,3), of 40 48] ne(2) by simp
    show "hp m1 (X + 32) = C0" using X_R by (simp only: m1_def upd_sel fun_upd_apply if_False C0_def)
    show "hp m2 (X + 40) = C1" using X_R X_C0
      by (cases "C0 = 0") (simp_all only: m1_def m2_def upd_sel fun_upd_apply if_False if_True C1_def simp_thms)
  qed
  have okR: "ok_address m R" using ok [of R] by (simp add: node_ok_def)
  have la: "least_addr m1 = least_addr m" "least_addr m2 = least_addr m" by (simp_all add: m1_def m2_def)
  have ok0: "C0 \<noteq> 0 \<Longrightarrow> ok_address m1 C0" and ok1: "C1 \<noteq> 0 \<Longrightarrow> ok_address m2 C1"
    using ok [of C0] ok [of C1] C0(1) C1(1) la by (simp_all add: node_ok_def ok_address_def)
  have s1: "(if child0_of m1 X \<noteq> 0 then if ok_address m1 (child0_of m1 X)
      then Some (set_parent (child0_of m1 X) R (set_child0 R (child0_of m1 X) m1)) else None else Some m1) = Some m2"
    unfolding X_same m2_def using ok0 by (cases "C0 = 0") simp_all
  have s2: "(if child1_of m2 X \<noteq> 0 then if ok_address m2 (child1_of m2 X)
      then Some (set_parent (child1_of m2 X) R (set_child1 R (child1_of m2 X) m2)) else None else Some m2) = Some m'"
    unfolding X_same m'_def using ok1 by (cases "C1 = 0") simp_all
  have run: "relink_children X XP R m = Some m'"
    unfolding relink_children_def Let_def m1_def [symmetric] s1 using R0 okR
    by (simp only: s2 if_True Option.bind.simps simp_thms)
  have "agree_off (tlinks (set (R # nodes l @ nodes r))) m m'"
    using C0(1) C1(1) unfolding m'_def m2_def m1_def
    by (auto intro!: agree_off_intros(2) tlinksI simp: link_offs_def)
  moreover have "m' = m\<lparr>hp := hp m'\<rparr>" by (simp add: m'_def m2_def m1_def upd_def)
  moreover have "trep (hp m') I XP R (TNode R s ds l r)"
  proof -
    have l': "trep (hp m') I R C0 l"
    proof (rule trep_reparent [OF l [folded C0_def]])
      show "hp m' (n + k) = hp m (n + k)" if "n \<in> set (nodes l)" "k \<in> node_offs" "(n, k) \<noteq> (C0, 48)" for n k
        using that d C1(1) node_offs_less(1) by (subst final) auto
      show "hp m' (C0 + 48) = R" if "l \<noteq> TLeaf" using that C0 in_N ne by (subst final) auto
    qed (use d in simp)
    have r': "trep (hp m') I R C1 r"
    proof (rule trep_reparent [OF r [folded C1_def]])
      show "hp m' (n + k) = hp m (n + k)" if "n \<in> set (nodes r)" "k \<in> node_offs" "(n, k) \<noteq> (C1, 48)" for n k
        using that d C0(1) node_offs_less(1) by (subst final) auto
      show "hp m' (C1 + 48) = R" if "r \<noteq> TLeaf" using that C1 in_N ne by (subst final) auto
    qed (use d in simp)
    have ds: "hp m' (c + k) = hp m (c + k)" if "c \<in> set ds" "k < 64" for c k
      using that d C0(1) C1(1) by (subst final) auto
    have Rk: "hp m' (R + 32) = C0" "hp m' (R + 40) = C1" "hp m' (R + 48) = XP" "hp m' (R + 8) = hp m (R + 8)"
      "hp m' (R + 16) = hp m (R + 16)" "hp m' (R + 24) = hp m (R + 24)" "hp m' (R + 56) = hp m (R + 56)"
      using R in_N by (subst final; simp)+
    have "ring (hp m') R ds" using R Rk ds by (subst ring_cong [of R ds _ "hp m"]) auto
    then show ?thesis using R0 R l' r' Rk ds by simp
  qed
  ultimately show ?thesis using run by blast
qed

lemma rightmost_leaf_rep:
  assumes "trep (hp m) I par R t" "t \<noteq> TLeaf" "hp m RP = R"
    and "distinct (nodes t)" "pairwise nfar (set (nodes t))"
    and "\<And>n k. n \<in> set (nodes t) \<Longrightarrow> k < 64 \<Longrightarrow> n + k \<noteq> RP"
  shows "\<exists>b s ds t' RP' q. rightmost_leaf m RP R = Some (b, RP') \<and> pull_leaf t = ((b, s, ds), t')
    \<and> (RP' = RP \<or> RP' \<in> tlinks (set (nodes t)))
    \<and> trep (hp (upd RP' 0 m)) I par (hp (upd RP' 0 m) RP) t'
    \<and> trep (hp (upd RP' 0 m)) I q b (TNode b s ds TLeaf TLeaf)"
  using assms
proof (induction t arbitrary: par R RP)
  case TLeaf
  then show ?case by simp
next
  case (TNode a s cs l r)
  let ?t = "TNode a s cs l r"
  have R: "R = a" using TNode.prems(1) by simp
  show ?case
  proof (cases "l = TLeaf \<and> r = TLeaf")
    case True
    then have run: "rightmost_leaf m RP R = Some (a, RP)"
      using TNode.prems(1) by (subst rightmost_leaf.simps) simp
    have "trep (hp (upd RP 0 m)) I par' p ?t = trep (hp m) I par' p ?t" for par' p
    proof (rule trep_frame [of "{}" "{RP}"])
      show "agree_off (tlinks {} \<union> {RP}) m (upd RP 0 m)" by (intro agree_off_intros) auto
      show "n + k \<notin> {RP}" if "n \<in> set (nodes ?t)" "k \<in> node_offs" for n k
        using TNode.prems(6) that node_offs_less(1) by blast
    qed simp
    then have "trep (hp (upd RP 0 m)) I par a ?t" using TNode.prems(1) R by (simp only:)
    then have leaf: "trep (hp (upd RP 0 m)) I par a (TNode a s cs TLeaf TLeaf)" using True by (simp only:)
    have "trep (hp (upd RP 0 m)) I par (hp (upd RP 0 m) RP) TLeaf" by simp
    then show ?thesis using run True leaf
      by (intro exI [of _ a] exI [of _ s] exI [of _ cs] exI [of _ TLeaf] exI [of _ RP] exI [of _ par])
        (simp del: upd_sel trep.simps)
  next
    case False
    define b where "b = (r \<noteq> TLeaf)"
    define sub where "sub = (if b then r else l)"
    define C where "C = (if b then a + 40 else a + 32)"
    have sub_rep: "trep (hp m) I a (hp m C) sub" using TNode.prems(1) by (simp add: sub_def C_def)
    have sub_nl: "sub \<noteq> TLeaf" using False by (auto simp: sub_def b_def)
    have ptr: "hp m (a + 40) = 0 \<longleftrightarrow> r = TLeaf" "hp m (a + 32) = 0 \<longleftrightarrow> l = TLeaf"
      by (rule trep_ptr [of "hp m" I a], use TNode.prems(1) in simp)+
    have step: "rightmost_leaf m RP R = rightmost_leaf m C (hp m C)"
      using ptr False by (subst rightmost_leaf.simps) (simp add: R C_def b_def)
    have sub_nodes: "set (nodes sub) \<subseteq> set (nodes ?t)" "a \<notin> set (nodes sub)" "distinct (nodes sub)"
      using TNode.prems(4) by (auto simp: sub_def)
    have pw_sub: "pairwise nfar (set (nodes sub))" by (rule pairwise_subset [OF TNode.prems(5) sub_nodes(1)])
    have apart: "nfar x y" if "x \<in> set (nodes ?t)" "y \<in> set (nodes ?t)" "x \<noteq> y" for x y
      using pairwiseD [OF TNode.prems(5)] that by blast
    have C_in: "C \<in> tlinks {a}" using tlinksI [of a "{a}" 40] tlinksI [of a "{a}" 32] by (simp add: C_def link_offs_def)
    have C_out: "n + k \<noteq> C" if "n \<in> set (nodes sub)" "k < 64" for n k
    proof -
      have "nfar n a" using that sub_nodes by (intro apart) auto
      then show ?thesis using nfar_slot that(2) by (simp add: C_def)
    qed
    have "\<exists>c u ds t' RP' q. rightmost_leaf m C (hp m C) = Some (c, RP') \<and> pull_leaf sub = ((c, u, ds), t')
      \<and> (RP' = C \<or> RP' \<in> tlinks (set (nodes sub)))
      \<and> trep (hp (upd RP' 0 m)) I a (hp (upd RP' 0 m) C) t'
      \<and> trep (hp (upd RP' 0 m)) I q c (TNode c u ds TLeaf TLeaf)"
    proof (cases b)
      case True
      then have e: "sub = r" by (simp add: sub_def)
      show ?thesis unfolding e
        by (rule TNode.IH(2) [OF sub_rep [unfolded e] sub_nl [unfolded e] refl sub_nodes(3) [unfolded e]
              pw_sub [unfolded e] C_out [unfolded e]])
    next
      case False
      then have e: "sub = l" by (simp add: sub_def)
      show ?thesis unfolding e
        by (rule TNode.IH(1) [OF sub_rep [unfolded e] sub_nl [unfolded e] refl sub_nodes(3) [unfolded e]
              pw_sub [unfolded e] C_out [unfolded e]])
    qed
    then obtain c u ds t' RP' q where run: "rightmost_leaf m C (hp m C) = Some (c, RP')"
      and pull: "pull_leaf sub = ((c, u, ds), t')" and RP': "RP' = C \<or> RP' \<in> tlinks (set (nodes sub))"
      and t': "trep (hp (upd RP' 0 m)) I a (hp (upd RP' 0 m) C) t'"
      and leaf: "trep (hp (upd RP' 0 m)) I q c (TNode c u ds TLeaf TLeaf)" by blast
    have RP'_in: "RP' \<in> tlinks (set (nodes ?t))"
      using RP' C_in tlinks_mono [of "set (nodes sub)" "set (nodes ?t)"] tlinks_mono [of "{a}" "set (nodes ?t)"]
        sub_nodes(1) by auto
    have RP_ne: "RP' \<noteq> RP"
    proof
      assume "RP' = RP"
      then obtain n k where "n \<in> set (nodes ?t)" "k \<in> link_offs" "RP = n + k" using RP'_in unfolding tlinks_def by blast
      then show False using TNode.prems(6) node_offs_less(2) by blast
    qed
    have "trep (hp (upd RP' 0 m)) I par a (if b then TNode a s cs l t' else TNode a s cs t' r)"
    proof (rule trep_child [where N = "set (nodes sub)"])
      show "trep (hp m) I par a ?t" using TNode.prems(1) R by simp
      show "agree_off (tlinks (set (nodes sub)) \<union> {if b then a + 40 else a + 32}) m (upd RP' 0 m)"
        using RP' by (intro agree_off_intros(2)) (auto simp: C_def)
      show "nfar x y" if "x \<in> set (a # cs) \<union> set (nodes (if b then l else r))" "y \<in> set (nodes sub)" for x y
        using that TNode.prems(4) by (intro apart) (auto simp: sub_def split: if_splits)
      show "trep (hp (upd RP' 0 m)) I a (hp (upd RP' 0 m) (if b then a + 40 else a + 32)) t'"
        using t' by (simp only: C_def)
    qed (use TNode.prems(4,5) in auto)
    moreover have "hp (upd RP' 0 m) RP = a" using RP_ne TNode.prems(3) R by simp
    moreover have "pull_leaf ?t = ((c, u, ds), if b then TNode a s cs l t' else TNode a s cs t' r)"
      using pull False by (auto simp: sub_def b_def)
    ultimately show ?thesis using run step leaf RP'_in
      by (intro exI [of _ c] exI [of _ u] exI [of _ ds]
          exI [of _ "if b then TNode a s cs l t' else TNode a s cs t' r"] exI [of _ RP'] exI [of _ q])
        (simp del: upd_sel trep.simps)
  qed
qed

lemma out_tlinks:
  "(\<And>n k. n \<in> N \<Longrightarrow> k < 64 \<Longrightarrow> n + k \<noteq> q) \<Longrightarrow> q \<notin> tlinks N"
  unfolding tlinks_def using node_offs_less(2) by blast

lemma trep_upd_out:
  assumes "\<And>n k. n \<in> set (nodes t) \<Longrightarrow> k < 64 \<Longrightarrow> n + k \<noteq> q"
  shows "trep (hp (upd q v m)) I par p t = trep (hp m) I par p t"
proof (rule trep_frame [of "{}" "{q}"])
  show "agree_off (tlinks {} \<union> {q}) m (upd q v m)" by (intro agree_off_intros(2)) auto
  show "n + k \<notin> {q}" if "n \<in> set (nodes t)" "k \<in> node_offs" for n k
    using assms that node_offs_less(1) by blast
qed simp

lemma relink_at:
  assumes R: "trep (hp m) I q0 R (TNode R s ds TLeaf TLeaf)"
    and l: "trep (hp m) I X (hp m (X + 32)) l" and r: "trep (hp m) I X (hp m (X + 40)) r"
    and d: "distinct (X # R # ds @ nodes l @ nodes r)"
    and pw: "pairwise nfar (set (X # R # ds @ nodes l @ nodes r))"
    and ok: "\<And>n. n \<in> set (R # nodes l @ nodes r) \<Longrightarrow> node_ok m n"
    and q: "\<And>n k. n \<in> set (X # R # ds @ nodes l @ nodes r) \<Longrightarrow> k < 64 \<Longrightarrow> n + k \<noteq> q"
  shows "\<exists>m'. relink_children X XP R (upd q R m) = Some m' \<and> trep (hp m') I XP R (TNode R s ds l r)
    \<and> hp m' q = R \<and> agree_off (tlinks (set (R # nodes l @ nodes r)) \<union> {q}) m m' \<and> m' = m\<lparr>hp := hp m'\<rparr>"
proof -
  let ?m = "upd q R m"
  have "hp ?m (X + 32) = hp m (X + 32)" "hp ?m (X + 40) = hp m (X + 40)"
    using q [of X 32] q [of X 40] by simp_all
  moreover have same: "trep (hp ?m) I par p t = trep (hp m) I par p t"
    if "set (nodes t) \<subseteq> set (X # R # ds @ nodes l @ nodes r)" for par p t
    by (rule trep_upd_out, rule q) (use that in blast)+
  have "trep (hp ?m) I q0 R (TNode R s ds TLeaf TLeaf)"
    using R same [of "TNode R s ds TLeaf TLeaf" q0 R] by (simp only: nodes.simps) (simp add: subset_iff del: upd_sel trep.simps)
  moreover have "trep (hp ?m) I X p l = trep (hp m) I X p l" "trep (hp ?m) I X p r = trep (hp m) I X p r" for p
    by (rule same; auto)+
  moreover have "node_ok ?m n = node_ok m n" for n by (rule node_ok_cong) simp
  ultimately obtain m' where m': "relink_children X XP R ?m = Some m'" "trep (hp m') I XP R (TNode R s ds l r)"
      "agree_off (tlinks (set (R # nodes l @ nodes r))) ?m m'" "m' = ?m\<lparr>hp := hp m'\<rparr>"
    using relink_children_rep [of ?m I q0 R s ds X l r XP] l r d pw ok by metis
  have "q \<notin> tlinks (set (R # nodes l @ nodes r))" by (rule out_tlinks, rule q) auto
  then have "hp m' q = R" using m'(3) by (simp add: agree_off_def)
  moreover have "agree_off (tlinks (set (R # nodes l @ nodes r)) \<union> {q}) m m'"
    using m'(3) by (auto simp: agree_off_def)
  moreover have "m' = m\<lparr>hp := hp m'\<rparr>" by (subst m'(4)) (simp add: upd_def)
  ultimately show ?thesis using m' by blast
qed

text \<open>
  What unlinking the tree node \<open>X\<close> achieves at the slot \<open>q\<close> that points to it: the replacement
  \<open>R\<close> and the memory \<open>m1\<close> after steps 1 and 2, and the trie \<open>t'\<close> once \<open>R\<close> hangs at \<open>q\<close>.
\<close>

definition unlinks_at :: "u64 \<Rightarrow> u64 \<Rightarrow> u64 \<Rightarrow> nat \<Rightarrow> mstate \<Rightarrow> u64 set \<Rightarrow> u64 \<Rightarrow> mstate \<Rightarrow> mstate \<Rightarrow> trie \<Rightarrow> bool" where
  "unlinks_at X XP q I m N R m1 m2 t' \<longleftrightarrow>
     unlink_replacement X m = Some (R, m1) \<and> m1 = m\<lparr>hp := hp m1\<rparr> \<and> agree_off (tlinks N) m m1
     \<and> relink_children X XP R (upd q R m1) = Some m2 \<and> m2 = m\<lparr>hp := hp m2\<rparr>
     \<and> agree_off (tlinks N \<union> {q}) m m2 \<and> trep (hp m2) I XP R t' \<and> hp m2 q = R"

lemma unlinks_atI:
  assumes "unlink_replacement X m = Some (R, m1)" "m1 = m\<lparr>hp := hp m1\<rparr>" "agree_off (tlinks N) m m1"
    and R: "trep (hp m1) I q0 R (TNode R s ds TLeaf TLeaf)"
    and l: "trep (hp m1) I X (hp m1 (X + 32)) l" and r: "trep (hp m1) I X (hp m1 (X + 40)) r"
    and N: "distinct (X # R # ds @ nodes l @ nodes r)" "set (X # R # ds @ nodes l @ nodes r) \<subseteq> N"
    and pw: "pairwise nfar N" and ok: "\<And>n. n \<in> N \<Longrightarrow> node_ok m n"
    and q: "\<And>n k. n \<in> N \<Longrightarrow> k < 64 \<Longrightarrow> n + k \<noteq> q"
  shows "\<exists>m2. unlinks_at X XP q I m N R m1 m2 (TNode R s ds l r)"
proof -
  have "least_addr m1 = least_addr m" by (subst assms(2)) simp
  then have ok1: "node_ok m1 n" if "n \<in> set (R # nodes l @ nodes r)" for n
  proof -
    have "n \<in> N" using N(2) that by auto
    from ok [OF this] show ?thesis by (simp only: node_ok_cong [OF \<open>least_addr m1 = least_addr m\<close>])
  qed
  have qs: "n + k \<noteq> q" if "n \<in> set (X # R # ds @ nodes l @ nodes r)" "k < 64" for n k
    by (rule q) (use that N(2) in blast)+
  obtain m2 where m2: "relink_children X XP R (upd q R m1) = Some m2" "trep (hp m2) I XP R (TNode R s ds l r)"
    "hp m2 q = R" "agree_off (tlinks (set (R # nodes l @ nodes r)) \<union> {q}) m1 m2" "m2 = m1\<lparr>hp := hp m2\<rparr>"
    using relink_at [OF R l r N(1) pairwise_subset [OF pw N(2)] ok1 qs] by blast
  have "agree_off (tlinks N \<union> {q}) m m2"
    using assms(3) m2(4) tlinks_mono [of "set (R # nodes l @ nodes r)" N] N(2)
    by (auto simp: agree_off_def)
  moreover have "m2 = m\<lparr>hp := hp m2\<rparr>" by (subst m2(5), subst assms(2)) simp
  ultimately show ?thesis using assms(1-3) m2 unfolding unlinks_at_def by blast
qed

text \<open>The node on a ring with others: the last one of the ring takes over.\<close>

lemma unlink_replacement_ring:
  assumes t: "trep (hp m) I par a (TNode a s cs l r)" and cs: "cs = ps @ [z]"
    and d: "distinct (nodes (TNode a s cs l r))" and pw: "pairwise nfar (set (nodes (TNode a s cs l r)))"
    and ok: "\<And>n. n \<in> set (nodes (TNode a s cs l r)) \<Longrightarrow> node_ok m n"
  shows "\<exists>m1. unlink_replacement a m = Some (z, m1) \<and> m1 = m\<lparr>hp := hp m1\<rparr>
    \<and> agree_off (tlinks (set (nodes (TNode a s cs l r)))) m m1
    \<and> trep (hp m1) I 0 z (TNode z s ps TLeaf TLeaf)
    \<and> trep (hp m1) I a (hp m1 (a + 32)) l \<and> trep (hp m1) I a (hp m1 (a + 40)) r"
proof -
  let ?N = "set (nodes (TNode a s cs l r))"
  have rg: "ring (hp m) a (ps @ [z])" using t cs by simp
  have pwf: "pairwise far ?N" using pw nfar_far by (auto simp: pairwise_def)
  have sep: "sorted_wrt far (a # ps @ [z])"
    using d cs by (intro pairwise_sorted_wrt) (auto intro: pairwise_subset [OF pwf])
  define F where "F = fd_of m a"
  have F: "F = hd (ps @ [z])" using rg by (cases ps) (auto simp: F_def ring_def)
  have bk: "bk_of m a = z" using rg dls_last by (fastforce simp: ring_def)
  have za: "z \<noteq> a" using d cs by auto
  define m1 where "m1 = set_fd z F (set_bk F z m)"
  have F_in: "F \<in> ?N" unfolding F cs by (cases ps) simp_all
  have z_in: "z \<in> ?N" using cs by simp
  have run: "unlink_replacement a m = Some (z, m1)"
    using za bk ok [OF F_in] by (simp add: unlink_replacement_def Let_def m1_def F_def node_ok_def)
  have fr: "agree_off (tlinks ?N) m m1"
    unfolding m1_def using F_in z_in by (auto intro!: agree_off_intros(2) tlinksI simp: link_offs_def)
  have apart: "n + k = j + i \<longleftrightarrow> n = j \<and> k = i" if "n \<in> ?N" "j \<in> ?N" "k < 64" "i < 64" for n k j i
  proof (cases "n = j")
    case False
    then have "nfar n j" using pairwiseD [OF pw] that by blast
    then show ?thesis using nfar_slot that False by blast
  qed simp
  have same: "hp m1 (n + k) = hp m (n + k)" if "n \<in> ?N" "k < 64" "(n, k) \<noteq> (z, 16)" "(n, k) \<noteq> (F, 24)" for n k
  proof -
    have "n + k \<noteq> z + 16" "n + k \<noteq> F + 24"
      using that apart [OF that(1) z_in that(2), of 16] apart [OF that(1) F_in that(2), of 24] by simp_all
    then show ?thesis by (simp only: m1_def upd_sel fun_upd_apply if_False)
  qed
  have ring': "ring (hp m1) z ps"
    using ring_rebase [OF rg sep F] by (simp add: m1_def)
  have trees: "trep (hp m1) I a p t' = trep (hp m) I a p t'" if "t' = l \<or> t' = r" for p t'
  proof (rule trep_cong)
    fix n k assume n: "n \<in> set (nodes t')" "k \<in> node_offs"
    have "n \<notin> set (a # cs)" using n that d by auto
    moreover have "F \<in> set (a # cs)" "z \<in> set (a # cs)" using F cs by (cases ps; simp)+
    ultimately show "hp m1 (n + k) = hp m (n + k)"
      using n that node_offs_less(1) by (intro same) auto
  qed
  have kids: "hp m1 (a + 32) = hp m (a + 32)" "hp m1 (a + 40) = hp m (a + 40)"
    by (intro same; simp)+
  have bare: "hp m1 (c + k) = hp m (c + k)" if "c \<in> set cs" "k \<in> {8, 32, 40, 48, 56}" for c k
    using that by (intro same) auto
  have zc: "z \<in> set cs" "set ps \<subseteq> set cs" using cs by auto
  have "trep (hp m1) I 0 z (TNode z s ps TLeaf TLeaf)"
    using t zc ring' bare ok [OF z_in] by (auto simp: subset_iff node_ok_def)
  then show ?thesis using run fr t trees kids by (auto simp: m1_def upd_def)
qed

text \<open>The node alone on its ring: the rightmost leaf of one of its subtrees takes over.\<close>

lemma unlink_replacement_leaf:
  assumes t: "trep (hp m) I par a (TNode a s [] l r)" and b: "b = (r \<noteq> TLeaf)"
    and sub: "sub = (if b then r else l)" "sub \<noteq> TLeaf" "pull_leaf sub = ((R, u, ds), sub')"
    and d: "distinct (nodes (TNode a s [] l r))" and pw: "pairwise nfar (set (nodes (TNode a s [] l r)))"
    and ok: "\<And>n. n \<in> set (nodes (TNode a s [] l r)) \<Longrightarrow> node_ok m n"
  shows "\<exists>m1 q. unlink_replacement a m = Some (R, m1) \<and> m1 = m\<lparr>hp := hp m1\<rparr>
    \<and> agree_off (tlinks (set (nodes (TNode a s [] l r)))) m m1
    \<and> trep (hp m1) I q R (TNode R u ds TLeaf TLeaf)
    \<and> trep (hp m1) I a (hp m1 (a + 32)) (if b then l else sub')
    \<and> trep (hp m1) I a (hp m1 (a + 40)) (if b then sub' else r)"
proof -
  let ?t = "TNode a s [] l r"
  define C where "C = (if b then a + 40 else a + 32)"
  have l: "trep (hp m) I a (hp m (a + 32)) l" and r: "trep (hp m) I a (hp m (a + 40)) r"
    and bk: "bk_of m a = a" using t by (simp_all add: ring_def)
  have sub_rep: "trep (hp m) I a (hp m C) sub" using l r sub(1) by (simp add: C_def)
  have sub_nodes: "set (nodes sub) \<subseteq> set (nodes ?t)" "a \<notin> set (nodes sub)" "distinct (nodes sub)"
    using d sub(1) by auto
  have apart: "nfar x y" if "x \<in> set (nodes ?t)" "y \<in> set (nodes ?t)" "x \<noteq> y" for x y
    using pairwiseD [OF pw] that by blast
  have C_out: "n + k \<noteq> C" if n: "n \<in> set (nodes ?t)" "n \<noteq> a" "k < 64" for n k
  proof -
    have "nfar n a" using n by (intro apart) auto
    then show ?thesis using nfar_slot n(3) by (simp add: C_def)
  qed
  have C_out': "n + k \<noteq> C" if "n \<in> set (nodes sub)" "k < 64" for n k
    using C_out that sub_nodes by blast
  obtain RP q where run: "rightmost_leaf m C (hp m C) = Some (R, RP)"
    and RP: "RP = C \<or> RP \<in> tlinks (set (nodes sub))"
    and sub': "trep (hp (upd RP 0 m)) I a (hp (upd RP 0 m) C) sub'"
    and leaf: "trep (hp (upd RP 0 m)) I q R (TNode R u ds TLeaf TLeaf)"
    using rightmost_leaf_rep [OF sub_rep sub(2) refl sub_nodes(3) pairwise_subset [OF pw sub_nodes(1)] C_out']
      sub(3) by auto
  define m1 where "m1 = upd RP 0 m"
  have C_in: "C \<in> tlinks {a}" using tlinksI [of a "{a}" 40] tlinksI [of a "{a}" 32] by (simp add: C_def link_offs_def)
  have RP_in: "RP \<in> tlinks (set (nodes ?t))"
    using RP C_in tlinks_mono [of "set (nodes sub)" "set (nodes ?t)"] tlinks_mono [of "{a}" "set (nodes ?t)"]
      sub_nodes(1) by auto
  then obtain n k where nk: "n \<in> set (nodes ?t)" "k \<in> link_offs" "RP = n + k" unfolding tlinks_def by blast
  have okRP: "ok_address m RP" unfolding nk(3) by (rule node_ok_slot [OF ok [OF nk(1)] node_offs_less(2) [OF nk(2)]])
  have ptr: "child1_of m a = 0 \<longleftrightarrow> r = TLeaf" "child0_of m a = 0 \<longleftrightarrow> l = TLeaf"
    using trep_ptr [OF r] trep_ptr [OF l] by simp_all
  have run': "unlink_replacement a m = Some (R, m1)"
    using run okRP sub(1,2) ptr bk b by (cases b) (simp_all add: unlink_replacement_def C_def m1_def)
  have fr: "agree_off (tlinks (set (nodes sub)) \<union> {C}) m m1"
    unfolding m1_def using RP by (intro agree_off_intros(2)) auto
  have other: "trep (hp m1) I a p (if b then l else r) = trep (hp m) I a p (if b then l else r)" for p
  proof (rule trep_frame [OF fr])
    show "nfar n j" if "n \<in> set (nodes (if b then l else r))" "j \<in> set (nodes sub)" for n j
      using that d sub(1) by (intro apart) (auto split: if_splits)
    show "n + k \<notin> {C}" if n: "n \<in> set (nodes (if b then l else r))" "k \<in> node_offs" for n k
      using n d node_offs_less(1) [OF n(2)] C_out [of n k] by (auto split: if_splits)
  qed
  have "(if b then a + 32 else a + 40) \<notin> tlinks (set (nodes sub)) \<union> {C}"
  proof -
    have nf: "nfar a j" if "j \<in> set (nodes sub)" for j using that sub_nodes by (intro apart) auto
    show ?thesis
      using tlinks_far [of "set (nodes sub)" a 32, OF nf] tlinks_far [of "set (nodes sub)" a 40, OF nf]
      by (simp add: C_def)
  qed
  then have same: "hp m1 (if b then a + 32 else a + 40) = hp m (if b then a + 32 else a + 40)"
    using fr unfolding agree_off_def by blast
  have "agree_off (tlinks (set (nodes ?t))) m m1"
    unfolding m1_def using RP_in by (intro agree_off_intros(2)) auto
  moreover have "m1 = m\<lparr>hp := hp m1\<rparr>" by (simp add: m1_def upd_def)
  moreover have "trep (hp m1) I a (hp m1 (a + 32)) (if b then l else sub')
      \<and> trep (hp m1) I a (hp m1 (a + 40)) (if b then sub' else r)"
    using sub' [folded m1_def] other same l r by (cases b) (simp_all add: C_def)
  ultimately show ?thesis using run' leaf [folded m1_def] by blast
qed

lemma unlink_root:
  assumes t: "trep (hp m) I par a (TNode a s cs l r)" 
    and d: "distinct (nodes (TNode a s cs l r))" and pw: "pairwise nfar (set (nodes (TNode a s cs l r)))"
    and ok: "\<And>n. n \<in> set (nodes (TNode a s cs l r)) \<Longrightarrow> node_ok m n"
    and q: "\<And>n k. n \<in> set (nodes (TNode a s cs l r)) \<Longrightarrow> k < 64 \<Longrightarrow> n + k \<noteq> q"
  shows "\<exists>R m1 m2. unlinks_at a par q I m (set (nodes (TNode a s cs l r))) R m1 m2 (trie_del_root (TNode a s cs l r))"
proof -
  let ?t = "TNode a s cs l r"
  consider "cs \<noteq> []" | "cs = []" "l \<noteq> TLeaf \<or> r \<noteq> TLeaf" | "cs = []" "r = TLeaf" "l = TLeaf"
    by blast
  then show ?thesis
  proof cases
    case 1
    then obtain ps z where cs: "cs = ps @ [z]" by (metis rev_exhaust)
    obtain m1 where m1: "unlink_replacement a m = Some (z, m1)" "m1 = m\<lparr>hp := hp m1\<rparr>"
      "agree_off (tlinks (set (nodes ?t))) m m1" "trep (hp m1) I 0 z (TNode z s ps TLeaf TLeaf)"
      "trep (hp m1) I a (hp m1 (a + 32)) l" "trep (hp m1) I a (hp m1 (a + 40)) r"
      using unlink_replacement_ring [OF t cs d pw ok] by blast
    have "\<exists>m2. unlinks_at a par q I m (set (nodes ?t)) z m1 m2 (TNode z s ps l r)"
      using d cs by (intro unlinks_atI [OF m1 _ _ pw ok q]) auto
    then show ?thesis using 1 cs by auto
  next
    case 2
    define b where "b = (r \<noteq> TLeaf)"
    define sub where "sub = (if b then r else l)"
    have nl: "sub \<noteq> TLeaf" using 2 by (auto simp: sub_def b_def)
    obtain R u ds sub' where pull: "pull_leaf sub = ((R, u, ds), sub')" by (cases "pull_leaf sub") auto
    have d_sub: "distinct (nodes sub)" using d by (auto simp: sub_def)
    note pl = pull_leaf_chunks [OF nl pull d_sub]
    then have sub_in: "set (R # ds) \<subseteq> set (nodes sub)" by (auto simp: nodes_chunks image_Un image_image)
    obtain m1 q0 where m1: "unlink_replacement a m = Some (R, m1)" "m1 = m\<lparr>hp := hp m1\<rparr>"
      "agree_off (tlinks (set (nodes ?t))) m m1" "trep (hp m1) I q0 R (TNode R u ds TLeaf TLeaf)"
      "trep (hp m1) I a (hp m1 (a + 32)) (if b then l else sub')"
      "trep (hp m1) I a (hp m1 (a + 40)) (if b then sub' else r)"
      using unlink_replacement_leaf [OF t [unfolded 2(1)] b_def sub_def nl pull d [unfolded 2(1)]
          pw [unfolded 2(1)] ok [unfolded 2(1)]] 2(1) by auto
    have "\<exists>m2. unlinks_at a par q I m (set (nodes ?t)) R m1 m2
        (TNode R u ds (if b then l else sub') (if b then sub' else r))"
    proof (intro unlinks_atI [OF m1 _ _ pw ok q])
      have "set (R # ds @ nodes sub') \<subseteq> set (nodes sub)" using pl sub_in by auto
      moreover have "distinct (R # ds @ nodes sub')" using pl by simp
      ultimately show "distinct (a # R # ds @ nodes (if b then l else sub') @ nodes (if b then sub' else r))"
        and "set (a # R # ds @ nodes (if b then l else sub') @ nodes (if b then sub' else r)) \<subseteq> set (nodes ?t)"
        using d by (auto simp: sub_def split: if_splits)
    qed
    moreover have del: "trie_del_root ?t = TNode R u ds (if b then l else sub') (if b then sub' else r)"
      using 2 pull by (auto simp: sub_def b_def)
    ultimately show ?thesis unfolding del by blast
  next
    case 3
    have m: "unlink_replacement a m = Some (0, m)" using t 3 by (simp add: unlink_replacement_def ring_def)
    have "unlinks_at a par q I m (set (nodes ?t)) 0 m (upd q 0 m) TLeaf"
      using m unfolding unlinks_at_def
      by (intro conjI agree_off_intros(2)) (simp_all add: relink_children_def upd_def agree_off_def)
    then show ?thesis using 3 by auto
  qed
qed

fun bases :: "trie \<Rightarrow> u64 list" where
  "bases TLeaf = []"
| "bases (TNode a s cs l r) = a # bases l @ bases r"

lemma bases_nodes: "set (bases t) \<subseteq> set (nodes t)"
  by (induction t) auto

text \<open>The slot of \<open>XP\<close> that \<open>relink_parent\<close> writes when \<open>X\<close> is not a root.\<close>

definition parent_slot :: "mstate \<Rightarrow> u64 \<Rightarrow> u64 \<Rightarrow> u64" where
  "parent_slot m X XP = (if child0_of m XP = X then XP + 32 else XP + 40)"

lemma unlink_base:
  assumes "trep (hp m) I par p t" "hp m q = p" "X \<in> set (bases t)"
    and "distinct (nodes t)" "pairwise nfar (set (nodes t))"
    and "\<And>n. n \<in> set (nodes t) \<Longrightarrow> node_ok m n"
    and "\<And>n k. n \<in> set (nodes t) \<Longrightarrow> k < 64 \<Longrightarrow> n + k \<noteq> q"
  shows "\<exists>R m1 m2. unlink_replacement X m = Some (R, m1) \<and> m1 = m\<lparr>hp := hp m1\<rparr>
    \<and> agree_off (tlinks (set (nodes t))) m m1
    \<and> relink_children X (parent_of m X) R
        (upd (if X = p then q else parent_slot m1 X (parent_of m X)) R m1) = Some m2
    \<and> m2 = m\<lparr>hp := hp m2\<rparr> \<and> agree_off (tlinks (set (nodes t)) \<union> {q}) m m2
    \<and> trep (hp m2) I par (hp m2 q) (trie_delete X t)
    \<and> (if X = p then parent_of m X = par \<and> hp m2 q = R
       else parent_of m X \<in> set (nodes t) \<and> hp m2 q = p)"
  using assms
proof (induction t arbitrary: par p q)
  case TLeaf
  then show ?case by simp
next
  case (TNode a s cs l r)
  let ?t = "TNode a s cs l r"
  have p: "p = a" using TNode.prems(1) by simp
  show ?case
  proof (cases "X = a")
    case True
    obtain R m1 m2 where u: "unlinks_at a par q I m (set (nodes ?t)) R m1 m2 (trie_del_root ?t)"
      using unlink_root [OF TNode.prems(1,4,5,6,7) [unfolded p]] TNode.prems(1) p by auto
    have "parent_of m a = par" using TNode.prems(1) by simp
    then show ?thesis using u True p unfolding unlinks_at_def
      by (intro exI [of _ R] exI [of _ m1] exI [of _ m2]) (simp del: trep.simps trie_del_root.simps)
  next
    case False
    define b where "b = (X \<notin> set (bases l))"
    define sub where "sub = (if b then r else l)"
    define C where "C = (if b then a + 40 else a + 32)"
    have l: "trep (hp m) I a (hp m (a + 32)) l" and r: "trep (hp m) I a (hp m (a + 40)) r"
      using TNode.prems(1) by simp_all
    have X_in: "X \<in> set (bases sub)" using TNode.prems(3) False by (auto simp: sub_def b_def)
    then have X_sub: "X \<in> set (nodes sub)" using bases_nodes by blast
    have X_notin: "X \<notin> set cs" "b \<Longrightarrow> X \<notin> set (nodes l)"
      using X_sub TNode.prems(4) by (auto simp: sub_def split: if_splits)
    have sub_rep: "trep (hp m) I a (hp m C) sub" using l r by (simp add: sub_def C_def)
    have sub_nodes: "set (nodes sub) \<subseteq> set (nodes ?t)" "a \<notin> set (nodes sub)" "distinct (nodes sub)"
      using TNode.prems(4) by (auto simp: sub_def)
    have pw_sub: "pairwise nfar (set (nodes sub))" by (rule pairwise_subset [OF TNode.prems(5) sub_nodes(1)])
    have apart: "nfar x y" if "x \<in> set (nodes ?t)" "y \<in> set (nodes ?t)" "x \<noteq> y" for x y
      using pairwiseD [OF TNode.prems(5)] that by blast
    have C_out: "n + k \<noteq> C" if n: "n \<in> set (nodes sub)" "k < 64" for n k
    proof -
      have "nfar n a" using n sub_nodes by (intro apart) auto
      then show ?thesis using nfar_slot n(2) by (simp add: C_def)
    qed
    have ok_sub: "node_ok m n" if "n \<in> set (nodes sub)" for n using TNode.prems(6) that sub_nodes(1) by blast
    let ?slot = "\<lambda>m1. if X = hp m C then C else parent_slot m1 X (parent_of m X)"
    have "\<exists>R m1 m2. unlink_replacement X m = Some (R, m1) \<and> m1 = m\<lparr>hp := hp m1\<rparr>
      \<and> agree_off (tlinks (set (nodes sub))) m m1
      \<and> relink_children X (parent_of m X) R (upd (?slot m1) R m1) = Some m2
      \<and> m2 = m\<lparr>hp := hp m2\<rparr> \<and> agree_off (tlinks (set (nodes sub)) \<union> {C}) m m2
      \<and> trep (hp m2) I a (hp m2 C) (trie_delete X sub)
      \<and> (if X = hp m C then parent_of m X = a \<and> hp m2 C = R
         else parent_of m X \<in> set (nodes sub) \<and> hp m2 C = hp m C)"
    proof (cases b)
      case True
      then have e: "sub = r" by (simp add: sub_def)
      show ?thesis unfolding e
        by (rule TNode.IH(2) [OF sub_rep [unfolded e] refl X_in [unfolded e] sub_nodes(3) [unfolded e]
              pw_sub [unfolded e] ok_sub [unfolded e] C_out [unfolded e]])
    next
      case False
      then have e: "sub = l" by (simp add: sub_def)
      show ?thesis unfolding e
        by (rule TNode.IH(1) [OF sub_rep [unfolded e] refl X_in [unfolded e] sub_nodes(3) [unfolded e]
              pw_sub [unfolded e] ok_sub [unfolded e] C_out [unfolded e]])
    qed
    then obtain R m1 m2 where run: "unlink_replacement X m = Some (R, m1)" "m1 = m\<lparr>hp := hp m1\<rparr>"
      and fr1: "agree_off (tlinks (set (nodes sub))) m m1"
      and kids: "relink_children X (parent_of m X) R (upd (?slot m1) R m1) = Some m2" "m2 = m\<lparr>hp := hp m2\<rparr>"
      and fr2: "agree_off (tlinks (set (nodes sub)) \<union> {C}) m m2"
      and t2: "trep (hp m2) I a (hp m2 C) (trie_delete X sub)"
      and par: "if X = hp m C then parent_of m X = a \<and> hp m2 C = R
         else parent_of m X \<in> set (nodes sub) \<and> hp m2 C = hp m C" by blast
    have slot: "?slot m1 = parent_slot m1 X (parent_of m X)"
    proof (cases "X = hp m C")
      case True
      have nf: "nfar a j" if "j \<in> set (nodes sub)" for j using that sub_nodes by (intro apart) auto
      have a32: "child0_of m1 a = child0_of m a"
        using fr1 tlinks_far [of "set (nodes sub)" a 32, OF nf] by (simp add: agree_off_def)
      have "child0_of m a = X \<longleftrightarrow> \<not> b"
      proof (cases b)
        case b: True
        have "child0_of m a \<noteq> X"
        proof
          assume "child0_of m a = X"
          moreover have "X \<noteq> 0" using ok_sub [OF X_sub] by (simp add: node_ok_def)
          ultimately have "X \<in> set (nodes l)" using l trep_ptr [OF l] trep_root_in [OF l] by auto
          then show False using X_notin b by blast
        qed
        then show ?thesis using b by simp
      next
        case False
        then show ?thesis using True by (simp add: C_def)
      qed
      then show ?thesis using True par a32 by (simp add: parent_slot_def C_def)
    qed simp
    have d': "trie_delete X ?t = (if b then TNode a s cs l (trie_delete X sub) else TNode a s cs (trie_delete X sub) r)"
      using False X_notin X_sub by (cases b) (simp_all add: sub_def)
    have "trep (hp m2) I par a (trie_delete X ?t)"
      unfolding d'
    proof (rule trep_child [where N = "set (nodes sub)"])
      show "trep (hp m) I par a ?t" using TNode.prems(1) p by simp
      show "agree_off (tlinks (set (nodes sub)) \<union> {if b then a + 40 else a + 32}) m m2"
        using fr2 by (simp add: C_def)
      show "nfar x y" if "x \<in> set (a # cs) \<union> set (nodes (if b then l else r))" "y \<in> set (nodes sub)" for x y
        using that TNode.prems(4) by (intro apart) (auto simp: sub_def split: if_splits)
      show "trep (hp m2) I a (hp m2 (if b then a + 40 else a + 32)) (trie_delete X sub)"
        using t2 by (simp only: C_def)
    qed (use TNode.prems(4,5) in auto)
    moreover have q_out: "hp m2 q = p"
    proof -
      have "q \<notin> tlinks (set (nodes sub))"
        using TNode.prems(7) sub_nodes(1) by (intro out_tlinks) blast
      moreover have "q \<noteq> C" using TNode.prems(7) [of a 40] TNode.prems(7) [of a 32] by (auto simp: C_def)
      ultimately show ?thesis using fr2 TNode.prems(2) by (simp add: agree_off_def)
    qed
    moreover have "parent_of m X \<in> set (nodes ?t)" using par sub_nodes(1) by (auto split: if_splits)
    moreover have "C \<in> tlinks (set (nodes ?t))"
      using tlinksI [of a "set (nodes ?t)" 40] tlinksI [of a "set (nodes ?t)" 32] by (simp add: C_def link_offs_def)
    then have "tlinks (set (nodes sub)) \<union> {C} \<subseteq> tlinks (set (nodes ?t))"
      using tlinks_mono [OF sub_nodes(1)] by auto
    then have "agree_off (tlinks (set (nodes ?t))) m m1" "agree_off (tlinks (set (nodes ?t)) \<union> {q}) m m2"
      by (intro agree_off_mono [OF fr1] agree_off_mono [OF fr2]; blast)+
    moreover have "relink_children X (parent_of m X) R
        (upd (if X = p then q else parent_slot m1 X (parent_of m X)) R m1) = Some m2"
      using kids(1) False p unfolding slot by (simp only: if_False)
    ultimately show ?thesis using run kids(2) False p
      by (intro exI [of _ R] exI [of _ m1] exI [of _ m2] conjI) (simp_all only: if_False)
  qed
qed

text \<open>A chunk that hangs on the ring of a tree node: it has no parent and leaves its ring.\<close>

lemma trep_remove_chain:
  assumes t: "trep (hp m) I par p (TNode a s (ps @ X # qs) l r)"
    and d: "distinct (nodes (TNode a s (ps @ X # qs) l r))"
    and pw: "pairwise nfar (set (nodes (TNode a s (ps @ X # qs) l r)))"
    and ok: "\<And>n. n \<in> set (nodes (TNode a s (ps @ X # qs) l r)) \<Longrightarrow> node_ok m n"
  shows "\<exists>R m1. unlink_replacement X m = Some (R, m1) \<and> m1 = m\<lparr>hp := hp m1\<rparr>
    \<and> agree_off (tlinks (set (a # ps @ X # qs))) m m1 \<and> trep (hp m1) I par p (TNode a s (ps @ qs) l r)
    \<and> parent_of m X = 0"
proof -
  let ?N = "set (a # ps @ X # qs)" and ?M = "set (nodes (TNode a s (ps @ X # qs) l r))"
  have rg: "ring (hp m) a (ps @ X # qs)" using t by simp
  have pwf: "pairwise far ?N"
  proof -
    have "pairwise nfar ?N" by (rule pairwise_subset [OF pw]) auto
    then show ?thesis unfolding pairwise_def using nfar_far by blast
  qed
  have sep: "sorted_wrt far (a # ps @ X # qs)"
    using d by (intro pairwise_sorted_wrt pwf) auto
  define F where "F = fd_of m X"
  define R where "R = bk_of m X"
  have F: "F = hd (qs @ [a])" and R: "R = last (a # ps)"
    using dls_unlinked_links [OF rg [unfolded ring_def]] by (simp_all only: F_def R_def)
  have in_N: "F \<in> ?N" "R \<in> ?N" unfolding F R by (cases qs; cases ps rule: rev_cases; simp)+
  have RX: "R \<noteq> X" unfolding R using d by (cases ps rule: rev_cases) auto
  define m1 where "m1 = set_fd R F (set_bk F R m)"
  have run: "unlink_replacement X m = Some (R, m1)"
    using RX ok [of F] in_N(1) by (auto simp: unlink_replacement_def Let_def m1_def F_def R_def node_ok_def)
  have fr: "agree_off (tlinks ?N) m m1"
    unfolding m1_def using in_N by (intro agree_off_intros(2) tlinksI) (auto simp: link_offs_def)
  have apart: "n + k = j + i \<longleftrightarrow> n = j \<and> k = i" if "n \<in> ?M" "j \<in> ?M" "k < 64" "i < 64" for n k j i
  proof (cases "n = j")
    case False
    then have "nfar n j" using pairwiseD [OF pw] that by blast
    then show ?thesis using nfar_slot that False by blast
  qed simp
  have NM: "?N \<subseteq> ?M" by auto
  have same: "hp m1 (n + k) = hp m (n + k)" if "n \<in> ?M" "k < 64" "(n, k) \<noteq> (R, 16)" "(n, k) \<noteq> (F, 24)" for n k
  proof -
    have "n + k \<noteq> R + 16" "n + k \<noteq> F + 24"
      using that apart [OF that(1) _ that(2), of R 16] apart [OF that(1) _ that(2), of F 24] in_N NM
      by (simp_all del: set_append) blast+
    then show ?thesis by (simp only: m1_def upd_sel fun_upd_apply if_False)
  qed
  have ring': "ring (hp m1) a (ps @ qs)"
    using ring_unlink [OF rg sep] by (simp add: m1_def F R)
  have trees: "trep (hp m1) I a q t' = trep (hp m) I a q t'" if "t' = l \<or> t' = r" for q t'
  proof (rule trep_cong)
    fix n k assume n: "n \<in> set (nodes t')" "k \<in> node_offs"
    have "n \<notin> ?N" using n that d by auto
    moreover have "n \<in> ?M" using n that by auto
    ultimately show "hp m1 (n + k) = hp m (n + k)"
      using in_N node_offs_less(1) [OF n(2)] by (intro same) auto
  qed
  have bare: "hp m1 (c + k) = hp m (c + k)" if "c \<in> ?N" "k \<in> {8, 32, 40, 48, 56}" for c k
    using that by (intro same) auto
  have "trep (hp m1) I par p (TNode a s (ps @ qs) l r)"
    using t ring' bare trees by (auto simp: subset_iff)
  moreover have "parent_of m X = 0" using t by simp
  moreover have "m1 = m\<lparr>hp := hp m1\<rparr>" by (simp add: m1_def upd_def)
  ultimately show ?thesis using run fr by blast
qed

lemma unlink_chained:
  assumes "trep (hp m) I par p t" "X \<in> set (nodes t)" "X \<notin> set (bases t)"
    and "distinct (nodes t)" "pairwise nfar (set (nodes t))"
    and "\<And>n. n \<in> set (nodes t) \<Longrightarrow> node_ok m n"
  shows "\<exists>R m1. unlink_replacement X m = Some (R, m1) \<and> m1 = m\<lparr>hp := hp m1\<rparr>
    \<and> agree_off (tlinks (set (nodes t))) m m1 \<and> trep (hp m1) I par p (trie_delete X t)
    \<and> parent_of m X = 0"
  using assms
proof (induction t arbitrary: par p)
  case TLeaf
  then show ?case by simp
next
  case (TNode a s cs l r)
  let ?t = "TNode a s cs l r"
  have p: "p = a" and Xa: "X \<noteq> a" using TNode.prems(1,3) by simp_all
  show ?case
  proof (cases "X \<in> set cs")
    case True
    then obtain ps qs where cs: "cs = ps @ X # qs" by (auto dest: split_list)
    have "distinct cs" using TNode.prems(4) by simp
    then have del: "trie_delete X ?t = TNode a s (ps @ qs) l r"
      using True Xa by (simp add: cs remove1_append)
    have "tlinks (set (a # ps @ X # qs)) \<subseteq> tlinks (set (nodes ?t))" by (rule tlinks_mono) (auto simp: cs)
    then show ?thesis
      using trep_remove_chain [OF TNode.prems(1,4,5,6) [unfolded cs]] agree_off_mono
      unfolding del by (metis cs)
  next
    case False
    define b where "b = (X \<notin> set (nodes l))"
    define sub where "sub = (if b then r else l)"
    define C where "C = (if b then a + 40 else a + 32)"
    have sub_rep: "trep (hp m) I a (hp m C) sub" using TNode.prems(1) by (simp add: sub_def C_def)
    have X_sub: "X \<in> set (nodes sub)" "X \<notin> set (bases sub)"
      using TNode.prems(2,3) False Xa by (auto simp: sub_def b_def)
    have sub_nodes: "set (nodes sub) \<subseteq> set (nodes ?t)" "a \<notin> set (nodes sub)" "distinct (nodes sub)"
      using TNode.prems(4) by (auto simp: sub_def)
    have pw_sub: "pairwise nfar (set (nodes sub))" by (rule pairwise_subset [OF TNode.prems(5) sub_nodes(1)])
    have apart: "nfar x y" if "x \<in> set (nodes ?t)" "y \<in> set (nodes ?t)" "x \<noteq> y" for x y
      using pairwiseD [OF TNode.prems(5)] that by blast
    have ok_sub: "node_ok m n" if "n \<in> set (nodes sub)" for n using TNode.prems(6) that sub_nodes(1) by blast
    have "\<exists>R m1. unlink_replacement X m = Some (R, m1) \<and> m1 = m\<lparr>hp := hp m1\<rparr>
      \<and> agree_off (tlinks (set (nodes sub))) m m1 \<and> trep (hp m1) I a (hp m C) (trie_delete X sub)
      \<and> parent_of m X = 0"
    proof (cases b)
      case True
      then have e: "sub = r" by (simp add: sub_def)
      show ?thesis unfolding e
        by (rule TNode.IH(2) [OF sub_rep [unfolded e] X_sub [unfolded e] sub_nodes(3) [unfolded e]
              pw_sub [unfolded e] ok_sub [unfolded e]])
    next
      case False
      then have e: "sub = l" by (simp add: sub_def)
      show ?thesis unfolding e
        by (rule TNode.IH(1) [OF sub_rep [unfolded e] X_sub [unfolded e] sub_nodes(3) [unfolded e]
              pw_sub [unfolded e] ok_sub [unfolded e]])
    qed
    then obtain R m1 where run: "unlink_replacement X m = Some (R, m1)" "m1 = m\<lparr>hp := hp m1\<rparr>" "parent_of m X = 0"
      and fr: "agree_off (tlinks (set (nodes sub))) m m1" and t1: "trep (hp m1) I a (hp m C) (trie_delete X sub)"
      by blast
    have nf: "nfar a j" if "j \<in> set (nodes sub)" for j using that sub_nodes by (intro apart) auto
    have C_same: "hp m1 C = hp m C"
      using fr tlinks_far [of "set (nodes sub)" a 32, OF nf] tlinks_far [of "set (nodes sub)" a 40, OF nf]
      by (simp add: agree_off_def C_def)
    have "trep (hp m1) I par p (if b then TNode a s cs l (trie_delete X sub) else TNode a s cs (trie_delete X sub) r)"
    proof (rule trep_child [OF TNode.prems(1) _ TNode.prems(4,5)])
      show "agree_off (tlinks (set (nodes sub)) \<union> {if b then a + 40 else a + 32}) m m1"
        using fr by (auto simp: agree_off_def)
      show "nfar x y" if "x \<in> set (a # cs) \<union> set (nodes (if b then l else r))" "y \<in> set (nodes sub)" for x y
        using that TNode.prems(4) by (intro apart) (auto simp: sub_def split: if_splits)
      show "trep (hp m1) I a (hp m1 (if b then a + 40 else a + 32)) (trie_delete X sub)"
        using t1 C_same by (simp only: C_def)
    qed
    moreover have "trie_delete X ?t = (if b then TNode a s cs l (trie_delete X sub) else TNode a s cs (trie_delete X sub) r)"
      using False Xa by (cases b) (simp_all add: sub_def b_def)
    ultimately have "trep (hp m1) I par p (trie_delete X ?t)" by (simp only:)
    then show ?thesis
      using run agree_off_mono [OF fr tlinks_mono [OF sub_nodes(1)]] by blast
  qed
qed

end
