(* ===== verification/Pt_Treebins.thy ===== *)
theory Pt_Treebins
  imports Pt_Tree_Unlink
begin

text \<open>
  The 32 tree bins of a malloc space together: the representation invariant, insertion and
  unlinking at the level of \<open>struct malloc_state\<close>, and the tree bins as an instance of the
  chunk store.
\<close>

section \<open>The tree bins of a malloc space\<close>

text \<open>The number of low bits in which the sizes of one bin differ.\<close>

definition bin_bits :: "nat \<Rightarrow> nat" where
  "bin_bits i = (if i = 31 then 64 else i div 2 + 7)"

definition large_size :: "u64 \<Rightarrow> bool" where
  "large_size s \<longleftrightarrow> is_aligned s \<and> MIN_LARGE_SIZE \<le> s \<and> s < 2 ^ 40"

text \<open>The 64 bytes from \<open>n\<close> do not hold the pointer at \<open>H\<close>.\<close>

definition misses :: "u64 \<Rightarrow> u64 \<Rightarrow> bool" where
  "misses n H \<longleftrightarrow> 64 \<le> H - n"

definition tree_node_room :: "mstate \<Rightarrow> u64 \<Rightarrow> bool" where
  "tree_node_room m n \<longleftrightarrow> node_ok m n \<and> (\<forall>i<32. misses n (treebin_at m i))"

definition tree_nodes :: "(nat \<Rightarrow> trie) \<Rightarrow> u64 set" where
  "tree_nodes T = (\<Union>i\<in>{..<32}. set (nodes (T i)))"

definition treebin_ok :: "mstate \<Rightarrow> nat \<Rightarrow> trie \<Rightarrow> bool" where
  "treebin_ok m i t \<longleftrightarrow>
     (treemap_is_marked m i \<longleftrightarrow> t \<noteq> TLeaf)
     \<and> trep (hp m) i (treebin_at m i) (hp m (treebin_at m i)) t
     \<and> trie_ok (bin_bits i) t \<and> distinct (nodes t)
     \<and> (\<forall>(c, s)\<in>trie_chunks t. large_size s \<and> compute_tree_index s = i)"

definition treebins_rep :: "mstate \<Rightarrow> (nat \<Rightarrow> trie) \<Rightarrow> bool" where
  "treebins_rep m T \<longleftrightarrow>
     unat (maddr m) + 928 \<le> 2 ^ 64
     \<and> (\<forall>i<32. treebin_ok m i (T i))
     \<and> (\<forall>i<32. \<forall>j<32. i \<noteq> j \<longrightarrow> set (nodes (T i)) \<inter> set (nodes (T j)) = {})
     \<and> pairwise nfar (tree_nodes T) \<and> (\<forall>n\<in>tree_nodes T. tree_node_room m n)"

lemma treebin_at_inj: "i < 32 \<Longrightarrow> j < 32 \<Longrightarrow> treebin_at m i = treebin_at m j \<longleftrightarrow> i = j"
proof -
  assume "i < 32" "j < 32"
  have "unat (8 * of_nat i :: u64) = 8 * i" if "i < 32" for i
    using that by (simp add: unat_word_ariths unat_of_nat)
  then have "(8 * of_nat i :: u64) = 8 * of_nat j \<Longrightarrow> i = j"
    using \<open>i < 32\<close> \<open>j < 32\<close> by (metis mult_cancel1 zero_neq_numeral)
  then show ?thesis by (auto simp: treebin_at_def)
qed

lemma treebin_at_nonzero: "unat (maddr m) + 928 \<le> 2 ^ 64 \<Longrightarrow> i < 32 \<Longrightarrow> treebin_at m i \<noteq> 0"
proof -
  assume h: "unat (maddr m) + 928 \<le> 2 ^ 64" "i < 32"
  have "unat (600 + 8 * of_nat i :: u64) = 600 + 8 * i"
    using h(2) by (simp add: unat_word_ariths unat_of_nat)
  then have "unat (maddr m + (600 + 8 * of_nat i)) = unat (maddr m) + (600 + 8 * i)"
    using h by (subst unat_add64) simp_all
  then show ?thesis by (auto simp: treebin_at_def add.assoc)
qed

lemma misses_slot: "misses n H \<Longrightarrow> k < 64 \<Longrightarrow> n + k \<noteq> H"
  by (auto simp: misses_def word_le_nat_alt word_less_nat_alt)

lemma compute_tree_index_prefix:
  assumes "large_size S"
  shows "compute_tree_index S < 32"
    and "drop_bit (bin_bits (compute_tree_index S)) S
      = (if compute_tree_index S = 31 then 0 else 2 + of_nat (compute_tree_index S mod 2))"
proof -
  have S: "MIN_LARGE_SIZE \<le> S" "S < 2 ^ 40" using assms by (auto simp: large_size_def)
  let ?i = "compute_tree_index S"
  note b = compute_tree_index_bounds [OF S]
  show i: "?i < 32" using b by simp
  show "drop_bit (bin_bits ?i) S = (if ?i = 31 then 0 else 2 + of_nat (?i mod 2))"
  proof (cases "?i = 31")
    case True
    moreover have "drop_bit 64 S = 0"
      by (rule bit_word_eqI) (auto simp: bit_drop_bit_eq dest: bit_imp_le_length)
    ultimately show ?thesis by (simp add: bin_bits_def)
  next
    case False
    define K where "K = ?i div 2"
    have K: "K + 8 < 63" using i False by (simp add: K_def)
    have lo: "unat (minsize_for_tree_index ?i) \<le> unat S" and hi: "unat S < unat (minsize_for_tree_index (Suc ?i))"
      using b False by (simp_all add: word_le_nat_alt word_less_nat_alt)
    have "unat (drop_bit (K + 7) S) = 2 + ?i mod 2"
    proof (cases "even ?i")
      case True
      then have e: "?i = 2 * K" by (simp add: K_def)
      have "2 * 2 ^ (K + 7) \<le> unat S" "unat S < 3 * 2 ^ (K + 7)"
        using lo hi K minsize_even [of K] minsize_odd [of K] unfolding e by (simp_all add: power_add)
      then have "unat S div 2 ^ (K + 7) = 2" by (intro div_nat_eqI) simp_all
      then show ?thesis using True by (simp add: unat_drop_bit)
    next
      case odd: False
      then have e: "?i = Suc (2 * K)" by (simp add: K_def)
      have "unat (minsize_for_tree_index (2 * Suc K)) = 2 ^ (Suc K + 8)" by (rule minsize_even) (use K in simp)
      then have "3 * 2 ^ (K + 7) \<le> unat S" "unat S < 4 * 2 ^ (K + 7)"
        using lo hi K minsize_odd [of K] unfolding e by (simp_all add: power_add)
      then have "unat S div 2 ^ (K + 7) = 3" by (intro div_nat_eqI) simp_all
      then show ?thesis using odd by (simp add: unat_drop_bit odd_iff_mod_2_eq_one)
    qed
    moreover have "unat (2 + of_nat (?i mod 2) :: u64) = 2 + ?i mod 2"
      by (cases "even ?i") (auto simp: odd_iff_mod_2_eq_one even_iff_mod_2_eq_zero)
    ultimately show ?thesis using False by (simp add: bin_bits_def K_def word_unat_eq_iff)
  qed
qed

lemma bin_shift: "i < 32 \<Longrightarrow> leftshift_for_tree_index i = 64 - bin_bits i \<and> 0 < bin_bits i \<and> bin_bits i \<le> 64"
  by (auto simp: leftshift_for_tree_index_def bin_bits_def)

lemma treebin_prefix:
  assumes "treebin_ok m i t" "large_size S" "compute_tree_index S = i"
  shows "prefix_ok (bin_bits i) (drop_bit (bin_bits i) S) t"
  using assms compute_tree_index_prefix(2) unfolding treebin_ok_def prefix_ok_def by fastforce

lemma tree_nodesI: "i < 32 \<Longrightarrow> n \<in> set (nodes (T i)) \<Longrightarrow> n \<in> tree_nodes T"
  by (auto simp: tree_nodes_def)

lemma tree_nodes_upd:
  "i < 32 \<Longrightarrow> tree_nodes (T(i := t)) \<subseteq> set (nodes t) \<union> tree_nodes T"
  by (auto simp: tree_nodes_def split: if_splits)

text \<open>
  A step at bin \<open>i\<close>: it keeps the geometry and the other marks, writes only links of
  the bin's nodes and of \<open>X\<close>, the index field of \<open>X\<close> and the bin's root pointer, and leaves
  the trie \<open>t\<close> with no node but those and \<open>X\<close>.
\<close>

definition tree_slots :: "mstate \<Rightarrow> nat \<Rightarrow> u64 \<Rightarrow> trie \<Rightarrow> u64 set" where
  "tree_slots m i X t = tlinks (set (X # nodes t)) \<union> {X + 56, treebin_at m i}"

lemma tree_slots_cases:
  assumes "a \<in> tree_slots m i X t"
  shows "(\<exists>n\<in>set (X # nodes t). \<exists>k<64. a = n + k) \<or> a = treebin_at m i"
proof -
  consider "a \<in> tlinks (set (X # nodes t))" | "a = X + 56" | "a = treebin_at m i"
    using assms unfolding tree_slots_def by blast
  then show ?thesis
  proof cases
    case 1
    then obtain n k where "n \<in> set (X # nodes t)" "k \<in> link_offs" "a = n + k" unfolding tlinks_def by blast
    then show ?thesis using node_offs_less(2) by blast
  next
    case 2
    then show ?thesis by (intro disjI1 bexI [of _ X] exI [of _ 56]) simp_all
  qed simp
qed

definition tree_frame :: "u64 set \<Rightarrow> mstate \<Rightarrow> mstate \<Rightarrow> bool" where
  "tree_frame A m m' \<longleftrightarrow> (\<exists>tm h. m' = m\<lparr>treemap := tm, hp := h\<rparr>) \<and> agree_off A m m'"

lemma tree_frame_sel:
  assumes "tree_frame A m m'"
  shows "maddr m' = maddr m" "smallmap m' = smallmap m" "dvsize m' = dvsize m"
    "topsize m' = topsize m" "least_addr m' = least_addr m" "dv m' = dv m" "m_top m' = m_top m"
    "trim_check m' = trim_check m" "release_checks m' = release_checks m" "magic m' = magic m"
    "footprint m' = footprint m" "max_footprint m' = max_footprint m" "mflags m' = mflags m"
  using assms by (auto simp: tree_frame_def)

lemma treebins_rep_step:
  assumes rep: "treebins_rep m T" and i: "i < 32"
    and fr: "tree_frame (tree_slots m i X (T i)) m m'"
    and X: "\<And>n. n \<in> tree_nodes T \<Longrightarrow> n \<noteq> X \<Longrightarrow> nfar X n" "tree_node_room m X"
      "\<And>j. j < 32 \<Longrightarrow> j \<noteq> i \<Longrightarrow> X \<notin> set (nodes (T j))"
    and marks: "\<And>j. j \<noteq> i \<Longrightarrow> treemap_is_marked m' j = treemap_is_marked m j"
    and bin: "treebin_ok m' i t" and t: "set (nodes t) \<subseteq> insert X (set (nodes (T i)))"
  shows "treebins_rep m' (T(i := t))"
proof -
  note sel = tree_frame_sel [OF fr]
  have H: "treebin_at m' j = treebin_at m j" for j by (simp add: treebin_at_def sel)
  have off: "hp m' a = hp m a" if "a \<notin> tree_slots m i X (T i)" for a
    using fr that by (simp add: tree_frame_def agree_off_def)
  have pw: "pairwise nfar (insert X (tree_nodes T))"
    using rep X(1) nfar_sym by (auto simp: treebins_rep_def pairwise_insert)
  have room: "tree_node_room m n" if "n \<in> insert X (tree_nodes T)" for n
    using rep X(2) that by (auto simp: treebins_rep_def)
  have other: "treebin_ok m' j (T j)" if j: "j < 32" "j \<noteq> i" for j
  proof -
    have ok: "treebin_ok m j (T j)" using rep j by (simp add: treebins_rep_def)
    have head: "n + k \<noteq> treebin_at m j" if "n \<in> insert X (tree_nodes T)" "k < 64" for n k
      using room [OF that(1)] j(1) misses_slot [OF _ that(2)] by (simp add: tree_node_room_def)
    have "treebin_at m j \<notin> tree_slots m i X (T i)"
    proof
      assume "treebin_at m j \<in> tree_slots m i X (T i)"
      from tree_slots_cases [OF this] show False
      proof (elim disjE bexE exE conjE)
        fix n k assume "n \<in> set (X # nodes (T i))" "k < 64" "treebin_at m j = n + k"
        moreover from this(1) have "n \<in> insert X (tree_nodes T)" using i tree_nodesI by auto
        ultimately show False using head [of n k] by simp
      next
        assume "treebin_at m j = treebin_at m i"
        then show False using i j treebin_at_inj [of j i m] by simp
      qed
    qed
    then have root: "hp m' (treebin_at m j) = hp m (treebin_at m j)" by (rule off)
    have "trep (hp m') j par p (T j) = trep (hp m) j par p (T j)" for par p
    proof (rule trep_frame)
      show "agree_off (tlinks (set (X # nodes (T i))) \<union> {X + 56, treebin_at m i}) m m'"
        using fr by (simp add: tree_frame_def tree_slots_def)
      fix n assume n: "n \<in> set (nodes (T j))"
      have "set (nodes (T i)) \<inter> set (nodes (T j)) = {}" using rep i j by (simp add: treebins_rep_def)
      then have n': "n \<in> tree_nodes T" "n \<notin> set (X # nodes (T i))"
        using n j X(3) [OF j] tree_nodesI [OF j(1)] by auto
      show nf: "nfar n y" if "y \<in> set (X # nodes (T i))" for y
      proof (rule pairwiseD [OF pw])
        show "n \<in> insert X (tree_nodes T)" using n' by simp
        show "y \<in> insert X (tree_nodes T)" using that i by (auto intro: tree_nodesI)
        show "n \<noteq> y" using that n' by blast
      qed
      show "n + k \<notin> {X + 56, treebin_at m i}" if "k \<in> node_offs" for k
        using nf [of X] nfar_slot [of n X k 56] node_offs_less(1) [OF that] room [of n] n' i
          misses_slot [of n "treebin_at m i" k]
        by (simp add: tree_node_room_def)
    qed
    then show ?thesis using ok marks j root by (simp add: treebin_ok_def H)
  qed
  have nodes: "tree_nodes (T(i := t)) \<subseteq> insert X (tree_nodes T)"
    using tree_nodes_upd [OF i, of T t] t i by (auto intro: tree_nodesI)
  show ?thesis
    unfolding treebins_rep_def
  proof (intro conjI allI impI ballI)
    show "unat (maddr m') + 928 \<le> 2 ^ 64" using rep sel by (simp add: treebins_rep_def)
    show "treebin_ok m' j ((T(i := t)) j)" if "j < 32" for j using other bin that by simp
    show "set (nodes ((T(i := t)) j)) \<inter> set (nodes ((T(i := t)) k)) = {}"
      if "j < 32" "k < 32" "j \<noteq> k" for j k
    proof -
      have old: "set (nodes (T j)) \<inter> set (nodes (T k)) = {}" if "j < 32" "k < 32" "j \<noteq> k" for j k
        using rep that by (simp add: treebins_rep_def)
      have new: "set (nodes t) \<inter> set (nodes (T l)) = {}" if "l < 32" "l \<noteq> i" for l
        using t X(3) [OF that] old [OF i that(1)] that(2) by blast
      show ?thesis using old [OF that] new [of j] new [of k] that by (cases "j = i"; cases "k = i") auto
    qed
    show "pairwise nfar (tree_nodes (T(i := t)))" by (rule pairwise_subset [OF pw nodes])
    show "tree_node_room m' n" if "n \<in> tree_nodes (T(i := t))" for n
      using room [of n] nodes that node_ok_cong [OF sel(5)] by (auto simp: tree_node_room_def H)
  qed
qed

lemma large_bin: "large_size S \<Longrightarrow> compute_tree_index S < 32"
  using compute_tree_index_prefix(1) .

lemma trie_insert_distinct:
  "distinct (nodes t) \<Longrightarrow> x \<notin> set (nodes t) \<Longrightarrow> distinct (nodes (trie_insert n x s t))"
  by (induction n x s t rule: trie_insert.induct) (auto simp: trie_insert_nodes)

lemma trie_insert_not_leaf [simp]: "trie_insert n x s t \<noteq> TLeaf"
  by (cases t) auto

lemma tree_frame_intro:
  "m' = m\<lparr>treemap := treemap m', hp := hp m'\<rparr> \<Longrightarrow> agree_off A m m' \<Longrightarrow> tree_frame A m m'"
  by (auto simp: tree_frame_def intro: exI [of _ "treemap m'"] exI [of _ "hp m'"])

lemma insert_large_chunk_rep:
  assumes rep: "treebins_rep m T" and S: "large_size S" "chunksize m X = S"
    and X: "tree_node_room m X" "\<And>n. n \<in> tree_nodes T \<Longrightarrow> nfar X n"
    and I: "I = compute_tree_index S"
  shows "\<exists>m'. insert_large_chunk X S m = Some m'
    \<and> treebins_rep m' (T(I := trie_insert (bin_bits I) X S (T I)))
    \<and> tree_frame (tree_slots m I X (T I)) m m'"
proof -
  have i: "I < 32" using S(1) I large_bin by simp
  have ok: "treebin_ok m I (T I)" using rep i by (simp add: treebins_rep_def)
  let ?H = "treebin_at m I" and ?t = "T I" and ?A = "tree_slots m I X (T I)"
  let ?t' = "trie_insert (bin_bits I) X S ?t"
  have fresh: "X \<notin> tree_nodes T" using X(2) by force
  have sub: "set (nodes ?t) \<subseteq> tree_nodes T" using i by (auto intro: tree_nodesI)
  have pw: "pairwise nfar (set (X # nodes ?t))"
  proof (rule pairwise_subset)
    show "pairwise nfar (insert X (tree_nodes T))"
      using rep X(2) nfar_sym by (auto simp: treebins_rep_def pairwise_insert)
  qed (use sub in auto)
  have XH: "X + k \<noteq> ?H" if "k < 64" for k
    using X(1) i misses_slot [OF _ that] by (simp add: tree_node_room_def)
  define m1 where "m1 = set_child0 X 0 (set_child1 X 0 (set_index X I m))"
  have fr1: "agree_off (tlinks (set (X # nodes ?t)) \<union> {X + 56, ?H}) m m1"
    unfolding m1_def set_index_def
    by (intro agree_off_intros) (auto intro!: tlinksI simp: link_offs_def)
  have m1: "m1 = m\<lparr>hp := hp m1\<rparr>" by (simp add: m1_def set_index_def upd_def)
  have sel1: "treemap m1 = treemap m" "maddr m1 = maddr m" "least_addr m1 = least_addr m"
    by (simp_all add: m1_def set_index_def)
  have "hp m1 (X + 8) = hp m (X + 8)" by (simp add: m1_def set_index_def)
  moreover have "index_of m1 X = I"
    using i by (simp add: m1_def index_of_def set_index_def unat_of_nat)
  ultimately have loose: "loose_node m1 I X S"
    using S(2) X(1) node_ok_cong [of m1 m X] sel1
    by (simp add: loose_node_def tree_node_room_def chunksize_def) (simp add: m1_def)
  have H1: "hp m1 ?H = hp m ?H"
    using XH [of 56] XH [of 40] XH [of 32] by (simp add: m1_def set_index_def)
  have rep1: "trep (hp m1) I ?H (hp m1 ?H) ?t"
  proof -
    have "trep (hp m1) I ?H (hp m ?H) ?t = trep (hp m) I ?H (hp m ?H) ?t"
    proof (rule trep_frame [of "{}" "{X + 32, X + 40, X + 56}"])
      show "agree_off (tlinks {} \<union> {X + 32, X + 40, X + 56}) m m1"
        unfolding m1_def set_index_def by (intro agree_off_intros) auto
      show "n + k \<notin> {X + 32, X + 40, X + 56}" if "n \<in> set (nodes ?t)" "k \<in> node_offs" for n k
      proof -
        have nf: "nfar n X" using nfar_sym [OF X(2)] that sub by blast
        then show ?thesis
          using nfar_slot [OF nf node_offs_less(1) [OF that(2)], of 32]
            nfar_slot [OF nf node_offs_less(1) [OF that(2)], of 40]
            nfar_slot [OF nf node_offs_less(1) [OF that(2)], of 56] by simp
      qed
    qed simp
    then show ?thesis using ok H1 by (simp add: treebin_ok_def)
  qed
  note bits = bin_shift [OF i]
  note prefix = treebin_prefix [OF ok S(1) I [symmetric]]
  have Xt: "X \<notin> set (nodes ?t)" using fresh sub by blast
  have "\<exists>m'. insert_large_chunk X S m = Some m' \<and> trep (hp m') I ?H (hp m' ?H) ?t'
    \<and> tree_frame ?A m m' \<and> treemap_is_marked m' I \<and> (\<forall>j. j \<noteq> I \<longrightarrow> treemap_is_marked m' j = treemap_is_marked m j)"
  proof (cases "treemap_is_marked m I")
    case False
    then have t: "?t = TLeaf" using ok by (simp add: treebin_ok_def)
    define m2 where "m2 = mark_treemap I m1"
    define m' where "m' = set_fd X X (set_bk X X (set_parent X ?H (upd ?H X m2)))"
    have l2: "loose_node m2 I X S"
      using loose node_ok_cong [of m2 m1 X] by (simp add: loose_node_def m2_def chunksize_def index_of_def)
    note single = trep_single [OF l2 XH [OF node_offs_less(1)] m'_def]
    have run: "insert_large_chunk X S m = Some m'"
      using False sel1 by (simp add: insert_large_chunk_def Let_def m'_def m2_def m1_def I treemap_is_marked_def
          set_index_def treebin_at_def)
    have "m' = m\<lparr>treemap := treemap m', hp := hp m'\<rparr>"
      unfolding m'_def m2_def mark_treemap_def by (subst m1) (simp add: upd_def)
    moreover have "agree_off ?A m m2"
      using fr1 by (simp add: m2_def tree_slots_def agree_off_def)
    then have "agree_off ?A m m'"
    proof (rule agree_off_trans)
      show "agree_off ?A m2 m'"
        by (rule agree_off_mono [OF single(2)])
          (use tlinks_mono [of "{X}" "set (X # nodes ?t)"] in \<open>auto simp: tree_slots_def\<close>)
    qed
    moreover have "treemap_is_marked m' j \<longleftrightarrow> j = I \<or> treemap_is_marked m j" for j
      using i sel1(1) by (simp add: m'_def m2_def marked_after) (simp add: treemap_is_marked_def)
    ultimately show ?thesis using run single t tree_frame_intro by auto
  next
    case True
    then have t: "?t \<noteq> TLeaf" using ok by (simp add: treebin_ok_def)
    have n_ok: "node_ok m1 k" if "k \<in> set (nodes ?t)" for k
      using rep that sub node_ok_cong [OF sel1(3)] by (auto simp: treebins_rep_def tree_node_room_def)
    have "\<exists>m'. insert_large_loop X S (hp m1 ?H) (push_bit (64 - bin_bits I) S) m1 = Some m'
      \<and> trep (hp m') I ?H (hp m1 ?H) ?t' \<and> agree_off (tlinks (set (X # nodes ?t))) m1 m' \<and> m' = m1\<lparr>hp := hp m'\<rparr>"
      using ok bits Xt loose n_ok
      by (intro insert_large_loop_rep [OF rep1 t _ prefix _ refl refl _ pw]) (auto simp: treebin_ok_def)
    then obtain m' where run: "insert_large_loop X S (hp m1 ?H) (push_bit (64 - bin_bits I) S) m1 = Some m'"
      and t': "trep (hp m') I ?H (hp m1 ?H) ?t'"
      and fr: "agree_off (tlinks (set (X # nodes ?t))) m1 m'" and m': "m' = m1\<lparr>hp := hp m'\<rparr>" by blast
    have "?H \<notin> tlinks (set (X # nodes ?t))"
    proof
      assume "?H \<in> tlinks (set (X # nodes ?t))"
      then obtain n k where n: "n \<in> set (X # nodes ?t)" "k \<in> link_offs" "?H = n + k" unfolding tlinks_def by blast
      have "tree_node_room m n" using n(1) X(1) sub rep by (auto simp: treebins_rep_def)
      then have "misses n ?H" using i by (simp add: tree_node_room_def)
      from misses_slot [OF this node_offs_less(2) [OF n(2)]] show False using n(3) by simp
    qed
    then have H': "hp m' ?H = hp m1 ?H" using fr by (simp add: agree_off_def)
    have "insert_large_chunk X S m = Some m'"
      using True run bits sel1 by (simp add: insert_large_chunk_def Let_def m1_def I treemap_is_marked_def
          set_index_def treebin_at_def)
    moreover have "agree_off ?A m m'"
      using fr1 fr unfolding tree_slots_def by (auto simp: agree_off_def)
    moreover have "treemap m' = treemap m" using arg_cong [OF m', of treemap] sel1(1) by simp
    moreover have "\<exists>tm h. m' = m\<lparr>treemap := tm, hp := h\<rparr>"
      by (rule exI [of _ "treemap m"], rule exI [of _ "hp m'"], subst m', subst m1) simp
    ultimately show ?thesis using t' H' True by (auto simp: tree_frame_def treemap_is_marked_def)
  qed
  then obtain m' where m': "insert_large_chunk X S m = Some m'" "trep (hp m') I ?H (hp m' ?H) ?t'"
    "tree_frame ?A m m'" "treemap_is_marked m' I"
    "\<And>j. j \<noteq> I \<Longrightarrow> treemap_is_marked m' j = treemap_is_marked m j" by blast
  have "treebin_at m' I = ?H" using tree_frame_sel(1) [OF m'(3)] by (simp add: treebin_at_def)
  then have bin: "treebin_ok m' I ?t'"
    using m' ok S I prefix Xt trie_ok_insert [OF _ prefix refl]
    by (auto simp: treebin_ok_def trie_chunks_insert trie_insert_distinct)
  have "treebins_rep m' (T(I := ?t'))"
    using X fresh by (intro treebins_rep_step [OF rep i m'(3) _ _ _ m'(5) bin])
      (auto simp: trie_insert_nodes intro: tree_nodesI)
  then show ?thesis using m' by blast
qed

lemma trep_index: "trep (hp m) I par p t \<Longrightarrow> n \<in> set (nodes t) \<Longrightarrow> index_of m n = I"
  by (induction t arbitrary: par p) (auto simp: index_of_def)

lemma unlink_large_chunk_rep:
  assumes rep: "treebins_rep m T" and i: "i < 32" and X: "X \<in> set (nodes (T i))"
  shows "\<exists>m'. unlink_large_chunk X m = Some m' \<and> treebins_rep m' (T(i := trie_delete X (T i)))
    \<and> tree_frame (tree_slots m i X (T i)) m m'"
proof -
  let ?H = "treebin_at m i" and ?t = "T i" and ?A = "tree_slots m i X (T i)"
  have ok: "treebin_ok m i ?t" using rep i by (simp add: treebins_rep_def)
  have t: "trep (hp m) i ?H (hp m ?H) ?t" and d: "distinct (nodes ?t)" using ok by (simp_all add: treebin_ok_def)
  have sub: "set (nodes ?t) \<subseteq> tree_nodes T" using i by (auto intro: tree_nodesI)
  have room: "tree_node_room m n" if "n \<in> set (nodes ?t)" for n
    using rep that sub by (auto simp: treebins_rep_def)
  then have n_ok: "node_ok m n" if "n \<in> set (nodes ?t)" for n using that by (simp add: tree_node_room_def)
  have out: "n + k \<noteq> ?H" if "n \<in> set (nodes ?t)" "k < 64" for n k
    using room [OF that(1)] i misses_slot [OF _ that(2)] by (simp add: tree_node_room_def)
  have pw: "pairwise nfar (set (nodes ?t))"
    using rep sub by (auto simp: treebins_rep_def intro: pairwise_subset)
  have H_out: "?H \<notin> tlinks (set (nodes ?t))" by (rule out_tlinks, rule out)
  have H0: "?H \<noteq> 0" using rep i treebin_at_nonzero by (simp add: treebins_rep_def)
  have slots: "tlinks (set (nodes ?t)) \<union> {?H} \<subseteq> ?A"
    using tlinks_mono [of "set (nodes ?t)" "set (X # nodes ?t)"] by (auto simp: tree_slots_def)
  have "\<exists>m'. unlink_large_chunk X m = Some m' \<and> trep (hp m') i ?H (hp m' ?H) (trie_delete X ?t)
    \<and> tree_frame ?A m m' \<and> treemap_is_marked m' i = (trie_delete X ?t \<noteq> TLeaf)
    \<and> (\<forall>j. j \<noteq> i \<longrightarrow> treemap_is_marked m' j = treemap_is_marked m j)"
  proof (cases "X \<in> set (bases ?t)")
    case False
    obtain R m1 where run: "unlink_replacement X m = Some (R, m1)" "m1 = m\<lparr>hp := hp m1\<rparr>"
      and fr: "agree_off (tlinks (set (nodes ?t))) m m1" and t1: "trep (hp m1) i ?H (hp m ?H) (trie_delete X ?t)"
      and par: "parent_of m X = 0"
      using unlink_chained [OF t X False d pw n_ok] by blast
    have H1: "hp m1 ?H = hp m ?H" using fr H_out by (simp add: agree_off_def)
    have "unlink_large_chunk X m = Some m1" using run par by (simp add: unlink_large_chunk_def)
    moreover have "tree_frame ?A m m1"
    proof (rule tree_frame_intro)
      show "m1 = m\<lparr>treemap := treemap m1, hp := hp m1\<rparr>" by (subst (1 2) run(2)) simp
      show "agree_off ?A m m1" using agree_off_mono [OF fr] slots by blast
    qed
    moreover have "treemap m1 = treemap m" by (subst run(2)) simp
    moreover have "trie_delete X ?t \<noteq> TLeaf"
    proof -
      have "hp m ?H \<noteq> 0" using trep_ptr [OF t] X by auto
      then show ?thesis using trep_ptr [OF t1] by simp
    qed
    ultimately show ?thesis using t1 H1 ok X by (auto simp: treemap_is_marked_def treebin_ok_def)
  next
    case True
    obtain R m1 m2 where run: "unlink_replacement X m = Some (R, m1)" "m1 = m\<lparr>hp := hp m1\<rparr>"
      and fr1: "agree_off (tlinks (set (nodes ?t))) m m1"
      and kids: "relink_children X (parent_of m X) R
        (upd (if X = hp m ?H then ?H else parent_slot m1 X (parent_of m X)) R m1) = Some m2"
      and m2: "m2 = m\<lparr>hp := hp m2\<rparr>" and fr2: "agree_off (tlinks (set (nodes ?t)) \<union> {?H}) m m2"
      and t2: "trep (hp m2) i ?H (hp m2 ?H) (trie_delete X ?t)"
      and par: "if X = hp m ?H then parent_of m X = ?H \<and> hp m2 ?H = R
        else parent_of m X \<in> set (nodes ?t) \<and> hp m2 ?H = hp m ?H"
      using unlink_base [OF t refl True d pw n_ok out] by blast
    let ?XP = "parent_of m X"
    have la: "least_addr m1 = least_addr m" "maddr m1 = maddr m" by (subst run(2), simp)+
    have idx: "index_of m1 X = i"
    proof -
      have "X + 56 \<notin> tlinks (set (nodes ?t))" by (rule tlinks_self [OF X pw]) (simp_all add: link_offs_def)
      then have "index_of m1 X = index_of m X" using fr1 by (simp add: index_of_def agree_off_def)
      then show ?thesis using trep_index [OF t X] by simp
    qed
    have H1: "treebin_at m1 i = ?H" "hp m1 ?H = hp m ?H"
      using fr1 H_out la by (simp_all add: agree_off_def treebin_at_def)
    have XP0: "?XP \<noteq> 0" using par H0 n_ok by (auto simp: node_ok_def split: if_splits)
    have okXP: "X \<noteq> hp m ?H \<Longrightarrow> ok_address m1 ?XP"
      using par n_ok la by (simp add: node_ok_def ok_address_def)
    have tm: "treemap m2 = treemap m" by (subst m2) simp
    show ?thesis
    proof (cases "X = hp m ?H \<and> R = 0")
      case True
      then have m2': "m2 = upd ?H 0 m1" using kids by (simp add: relink_children_def)
      have XR: "hp m ?H = X" "R = 0" "?XP = ?H" using True par by simp_all
      have parent: "relink_parent X ?XP R m1 = Some (clear_treemap i m2)"
        using XR idx H1 m2' X out [of X 56]
        by (simp add: relink_parent_def Let_def index_of_def)
      have "unlink_large_chunk X m = Some (clear_treemap i m2)"
        using run XP0 parent XR(2) by (simp add: unlink_large_chunk_def relink_children_def)
      moreover have "trie_delete X ?t = TLeaf" using t2 par True trep_ptr [OF t2] by simp
      moreover have "tree_frame ?A m (clear_treemap i m2)"
      proof (rule tree_frame_intro)
        show "clear_treemap i m2 = m\<lparr>treemap := treemap (clear_treemap i m2), hp := hp (clear_treemap i m2)\<rparr>"
          by (subst (1 2) m2) (simp add: clear_treemap_def)
        show "agree_off ?A m (clear_treemap i m2)"
          using agree_off_mono [OF fr2 slots] by (simp add: agree_off_def)
      qed
      moreover have "treemap_is_marked (clear_treemap i m2) j \<longleftrightarrow> j \<noteq> i \<and> treemap_is_marked m j" for j
        using tm by (simp add: marked_after) (simp add: treemap_is_marked_def)
      ultimately show ?thesis using t2 by auto
    next
      case False
      let ?slot = "if X = hp m ?H then ?H else parent_slot m1 X ?XP"
      have parent: "relink_parent X ?XP R m1 = Some (upd ?slot R m1)"
        using False idx H1 okXP by (auto simp: relink_parent_def Let_def parent_slot_def)
      have "unlink_large_chunk X m = Some m2"
        using run XP0 parent kids by (simp add: unlink_large_chunk_def)
      moreover have "trie_delete X ?t \<noteq> TLeaf"
      proof -
        have "hp m ?H \<noteq> 0" using trep_ptr [OF t] X by auto
        then have "hp m2 ?H \<noteq> 0" using par False by (auto split: if_splits)
        then show ?thesis using trep_ptr [OF t2] by simp
      qed
      moreover have "tree_frame ?A m m2"
      proof (rule tree_frame_intro)
        show "m2 = m\<lparr>treemap := treemap m2, hp := hp m2\<rparr>" by (subst (1 2) m2) simp
        show "agree_off ?A m m2" by (rule agree_off_mono [OF fr2 slots])
      qed
      ultimately show ?thesis using t2 tm ok X by (auto simp: treemap_is_marked_def treebin_ok_def)
    qed
  qed
  then obtain m' where m': "unlink_large_chunk X m = Some m'" "trep (hp m') i ?H (hp m' ?H) (trie_delete X ?t)"
    "tree_frame ?A m m'" "treemap_is_marked m' i = (trie_delete X ?t \<noteq> TLeaf)"
    "\<And>j. j \<noteq> i \<Longrightarrow> treemap_is_marked m' j = treemap_is_marked m j" by blast
  have "treebin_at m' i = ?H" using tree_frame_sel(1) [OF m'(3)] by (simp add: treebin_at_def)
  have del: "trie_chunks (trie_delete X ?t) \<subseteq> trie_chunks ?t" by (rule trie_chunks_delete_subset [OF d X])
  have bin: "treebin_ok m' i (trie_delete X ?t)"
    using m' ok del d X trie_ok_delete trie_delete_distinct \<open>treebin_at m' i = ?H\<close>
    by (auto simp: treebin_ok_def)
  have "treebins_rep m' (T(i := trie_delete X ?t))"
  proof (rule treebins_rep_step [OF rep i m'(3) _ _ _ m'(5) bin])
    show "nfar X n" if "n \<in> tree_nodes T" "n \<noteq> X" for n
      using rep X sub that by (auto simp: treebins_rep_def intro: pairwiseD)
    show "tree_node_room m X" by (rule room [OF X])
    show "X \<notin> set (nodes (T j))" if "j < 32" "j \<noteq> i" for j
      using rep X i that unfolding treebins_rep_def by blast
    show "set (nodes (trie_delete X ?t)) \<subseteq> insert X (set (nodes ?t))"
      using trie_delete_nodes [OF d X] by blast
  qed
  then show ?thesis using m' by blast
qed

section \<open>The tree bins as a set of chunks\<close>

definition tree_chunks :: "(nat \<Rightarrow> trie) \<Rightarrow> chunks" where
  "tree_chunks T = (\<Union>i\<in>{..<32}. trie_chunks (T i))"

definition tree_holds :: "mstate \<Rightarrow> chunks \<Rightarrow> bool" where
  "tree_holds m C \<longleftrightarrow> (\<exists>T. treebins_rep m T \<and> C = tree_chunks T)"

definition tree_room :: "mstate \<Rightarrow> chunks \<Rightarrow> u64 \<Rightarrow> u64 \<Rightarrow> bool" where
  "tree_room m C P S \<longleftrightarrow> large_size S \<and> chunksize m P = S \<and> tree_node_room m P
     \<and> (\<forall>(n, s)\<in>C. nfar P n)"

text \<open>The slots of a node from its head on, and those of its links and index.\<close>

definition tree_area :: "u64 \<Rightarrow> u64 set" where
  "tree_area n = {n + k |k. 8 \<le> k \<and> k < 64}"

definition tree_links :: "u64 \<Rightarrow> u64 set" where
  "tree_links n = {n + k |k. 16 \<le> k \<and> k < 64}"

lemma tree_links_area: "tree_links n \<subseteq> tree_area n"
proof -
  have "8 \<le> k" if "16 \<le> k" for k :: u64 using that by (simp add: word_le_nat_alt)
  then show ?thesis unfolding tree_links_def tree_area_def by blast
qed

definition tree_step :: "chunks \<Rightarrow> mstate \<Rightarrow> mstate \<Rightarrow> bool" where
  "tree_step C m m' \<longleftrightarrow>
     tree_frame ((\<Union>n\<in>fst ` C. tree_links n) \<union> treebin_at m ` {..<32}) m m'
     \<and> (\<forall>(n, s)\<in>C. chunksize m' n = chunksize m n)"

lemma tree_nodes_chunks: "tree_nodes T = fst ` tree_chunks T"
  by (simp add: tree_nodes_def tree_chunks_def nodes_chunks image_UN)

lemma tree_chunks_node: "(n, u) \<in> tree_chunks T \<Longrightarrow> n \<in> tree_nodes T"
  by (force simp: tree_nodes_chunks)

lemma tree_frame_mono: "tree_frame A m m' \<Longrightarrow> A \<subseteq> B \<Longrightarrow> tree_frame B m m'"
  unfolding tree_frame_def using agree_off_mono by blast

lemma tree_slots_area:
  assumes "i < 32"
  shows "tree_slots m i X t \<subseteq> (\<Union>n\<in>set (X # nodes t). tree_links n) \<union> treebin_at m ` {..<32}"
proof -
  have "tlinks N \<subseteq> (\<Union>n\<in>N. tree_links n)" for N
    unfolding tlinks_def tree_links_def link_offs_def by force
  moreover have "X + 56 \<in> tree_links X" by (force simp: tree_links_def)
  ultimately show ?thesis using assms unfolding tree_slots_def by fastforce
qed

lemma trep_size: "trep (hp m) I par p t \<Longrightarrow> (n, s) \<in> trie_chunks t \<Longrightarrow> chunksize m n = s"
  by (induction t arbitrary: par p) (auto simp: chunksize_def)

text \<open>The head words are not among the slots that a step at bin \<open>i\<close> writes.\<close>

lemma tree_slots_heads:
  assumes rep: "treebins_rep m T" and i: "i < 32" and X: "tree_node_room m X" "\<And>n. n \<in> tree_nodes T \<Longrightarrow> n \<noteq> X \<Longrightarrow> nfar X n"
    and fr: "tree_frame (tree_slots m i X (T i)) m m'" and n: "n \<in> insert X (tree_nodes T)"
  shows "chunksize m' n = chunksize m n"
proof -
  let ?N = "insert X (tree_nodes T)"
  have pw: "pairwise nfar ?N" using rep X(2) nfar_sym by (auto simp: treebins_rep_def pairwise_insert)
  have sub: "set (X # nodes (T i)) \<subseteq> ?N" using i by (auto intro: tree_nodesI)
  have "n + 8 \<notin> tlinks ?N" by (rule tlinks_self [OF n pw]) (simp_all add: link_offs_def)
  then have "n + 8 \<notin> tlinks (set (X # nodes (T i)))" using tlinks_mono [OF sub] by blast
  moreover have "n + 8 \<noteq> X + 56"
  proof (cases "n = X")
    case False
    then have "nfar X n" using X(2) n by blast
    then show ?thesis using nfar_slot [OF nfar_sym, of X n 8 56] by simp
  qed simp
  moreover have "n + 8 \<noteq> treebin_at m i"
    using rep X(1) n i misses_slot [of n "treebin_at m i" 8]
    by (auto simp: treebins_rep_def tree_node_room_def)
  ultimately have "n + 8 \<notin> tree_slots m i X (T i)" by (simp add: tree_slots_def)
  then show ?thesis using fr by (simp add: tree_frame_def agree_off_def chunksize_def)
qed

lemma tree_chunks_upd:
  "i < 32 \<Longrightarrow> tree_chunks (T(i := t)) = trie_chunks t \<union> (\<Union>j\<in>{..<32} - {i}. trie_chunks (T j))"
  unfolding tree_chunks_def by (auto split: if_splits)

interpretation large: chunk_store tree_holds tree_room insert_large_chunk "\<lambda>p s. unlink_large_chunk p" tree_step
proof
  fix m C p s
  assume h: "tree_holds m C" and r: "tree_room m C p s"
  obtain T where T: "treebins_rep m T" "C = tree_chunks T" using h by (auto simp: tree_holds_def)
  let ?i = "compute_tree_index s"
  let ?t = "trie_insert (bin_bits ?i) p s (T ?i)"
  have s: "large_size s" "chunksize m p = s" "tree_node_room m p" using r by (simp_all add: tree_room_def)
  have i: "?i < 32" using s(1) by (rule large_bin)
  have far: "nfar p n" if "n \<in> tree_nodes T" for n
    using r that T(2) by (force simp: tree_room_def tree_nodes_chunks)
  obtain m' where m': "insert_large_chunk p s m = Some m'" "treebins_rep m' (T(?i := ?t))"
    and fr: "tree_frame (tree_slots m ?i p (T ?i)) m m'"
    using insert_large_chunk_rep [OF T(1) s far refl] by blast
  have "tree_chunks (T(?i := ?t)) = insert (p, s) C"
    using tree_chunks_upd [OF i, of T ?t] tree_chunks_upd [OF i, of T "T ?i"] T(2)
    by (simp only: trie_chunks_insert fun_upd_triv) blast
  moreover have "tree_step (insert (p, s) C) m m'"
    unfolding tree_step_def
  proof
    have "set (p # nodes (T ?i)) \<subseteq> insert p (tree_nodes T)" using i tree_nodesI [of ?i _ T] by auto
    then have "set (p # nodes (T ?i)) \<subseteq> fst ` insert (p, s) C" by (simp add: T(2) tree_nodes_chunks)
    then show "tree_frame ((\<Union>n\<in>fst ` insert (p, s) C. tree_links n) \<union> treebin_at m ` {..<32}) m m'"
    proof (intro tree_frame_mono [OF fr] order_trans [OF tree_slots_area [OF i]] Un_mono UN_mono)
    qed simp_all
    have "chunksize m' n = chunksize m n" if "n \<in> insert p (tree_nodes T)" for n
      by (rule tree_slots_heads [OF T(1) i s(3) far fr that])
    then show "\<forall>(n, u)\<in>insert (p, s) C. chunksize m' n = chunksize m n"
      using tree_chunks_node T(2) by blast
  qed
  ultimately show "\<exists>m'. insert_large_chunk p s m = Some m' \<and> tree_holds m' (insert (p, s) C)
      \<and> tree_step (insert (p, s) C) m m'"
    using m' by (metis tree_holds_def)
  show "(p, s) \<notin> C" using r by (auto simp: tree_room_def)
next
  fix m C p s
  assume h: "tree_holds m C" and p: "(p, s) \<in> C"
  obtain T where T: "treebins_rep m T" "C = tree_chunks T" using h by (auto simp: tree_holds_def)
  obtain i where i: "i < 32" "(p, s) \<in> trie_chunks (T i)" using p T(2) by (auto simp: tree_chunks_def)
  have p_in: "p \<in> set (nodes (T i))" using i(2) by (force simp: nodes_chunks)
  then have p_node: "p \<in> tree_nodes T" using i(1) by (auto intro: tree_nodesI)
  have ok: "treebin_ok m i (T i)" and pw: "pairwise nfar (tree_nodes T)" and room: "tree_node_room m p"
    using T(1) i(1) p_node by (auto simp: treebins_rep_def)
  have far: "nfar p n" if "n \<in> tree_nodes T" "n \<noteq> p" for n using pairwiseD [OF pw p_node that(1)] that(2) by simp
  let ?T = "T(i := trie_delete p (T i))"
  obtain m' where m': "unlink_large_chunk p m = Some m'" "treebins_rep m' ?T"
    and fr: "tree_frame (tree_slots m i p (T i)) m m'"
    using unlink_large_chunk_rep [OF T(1) i(1) p_in] by blast
  have other: "(p, u) \<notin> trie_chunks (T j)" if "j < 32" "j \<noteq> i" for j u
  proof
    assume "(p, u) \<in> trie_chunks (T j)"
    then have "p \<in> set (nodes (T j))" by (force simp: nodes_chunks)
    then show False using T(1) that i(1) p_in unfolding treebins_rep_def by blast
  qed
  have C: "tree_chunks ?T = C - {(p, s)}"
  proof -
    have "trie_chunks (trie_delete p (T i)) = trie_chunks (T i) - {(p, s)}"
      using trie_chunks_delete [of "T i" p s] ok i(2) by (simp add: treebin_ok_def)
    then show ?thesis
      using tree_chunks_upd [OF i(1), of T "trie_delete p (T i)"] tree_chunks_upd [OF i(1), of T "T i"] T(2) other
      by (simp only: fun_upd_triv) blast
  qed
  have step: "tree_step C m m'"
    unfolding tree_step_def
  proof
    have "set (p # nodes (T i)) \<subseteq> tree_nodes T" using i(1) p_in tree_nodesI [of i _ T] by auto
    then have "set (p # nodes (T i)) \<subseteq> fst ` C" by (simp only: T(2) tree_nodes_chunks)
    then show "tree_frame ((\<Union>n\<in>fst ` C. tree_links n) \<union> treebin_at m ` {..<32}) m m'"
    proof (intro tree_frame_mono [OF fr] order_trans [OF tree_slots_area [OF i(1)]] Un_mono UN_mono)
    qed simp_all
    have "chunksize m' n = chunksize m n" if "n \<in> insert p (tree_nodes T)" for n
      by (rule tree_slots_heads [OF T(1) i(1) room far fr that])
    then show "\<forall>(n, u)\<in>C. chunksize m' n = chunksize m n"
      using tree_chunks_node T(2) by blast
  qed
  have uniq: "(p, u) \<in> C \<Longrightarrow> u = s" for u
  proof -
    assume "(p, u) \<in> C"
    then obtain j where j: "j < 32" "(p, u) \<in> trie_chunks (T j)" using T(2) by (auto simp: tree_chunks_def)
    then have "j = i" using other by blast
    have t: "trep (hp m) i (treebin_at m i) (hp m (treebin_at m i)) (T i)" using ok by (simp add: treebin_ok_def)
    then show "u = s" using trep_size [OF t] j(2) i(2) \<open>j = i\<close> by metis
  qed
  have "tree_room m' (C - {(p, s)}) p s"
    unfolding tree_room_def
  proof (intro conjI)
    show "large_size s" using ok i(2) by (auto simp: treebin_ok_def)
    have "trep (hp m) i (treebin_at m i) (hp m (treebin_at m i)) (T i)" using ok by (simp add: treebin_ok_def)
    from trep_size [OF this i(2)] have "chunksize m p = s" .
    then show "chunksize m' p = s" using step p unfolding tree_step_def by blast
    show "tree_node_room m' p"
      using room tree_frame_sel(1) [OF fr] node_ok_cong [OF tree_frame_sel(5) [OF fr]]
      by (simp add: tree_node_room_def treebin_at_def)
    have "nfar p n" if "(n, u) \<in> C" "(n, u) \<noteq> (p, s)" for n u
      using that far uniq tree_chunks_node T(2) by blast
    then show "\<forall>(n, u)\<in>C - {(p, s)}. nfar p n" by auto
  qed
  then show "\<exists>m'. unlink_large_chunk p m = Some m' \<and> tree_holds m' (C - {(p, s)})
      \<and> tree_room m' (C - {(p, s)}) p s \<and> tree_step C m m'"
    using m' C step by (metis tree_holds_def)
qed

section \<open>Properties\<close>

text \<open>
  C8: \<open>insert_large_chunk\<close> refines insertion into the abstract trie. On a state whose tree bins
  hold the tries \<open>T\<close>, inserting a chunk \<open>X\<close> of size \<open>S\<close> returns (the search loop terminates and no
  check fails), the bin that \<open>compute_tree_index\<close> names holds the trie with \<open>X\<close> inserted, all other
  bins are unchanged, and memory changes only in the links of that bin's chunks, its root
  pointer and the tree fields of \<open>X\<close>.
\<close>

theorem insert_large_chunk_refines:
  assumes "treebins_rep m T" "large_size S" "chunksize m X = S" "tree_node_room m X"
    and "\<forall>n\<in>tree_nodes T. nfar X n"
  shows "\<exists>m'. insert_large_chunk X S m = Some m'
    \<and> treebins_rep m' (T(compute_tree_index S :=
        trie_insert (bin_bits (compute_tree_index S)) X S (T (compute_tree_index S))))
    \<and> tree_frame (tree_slots m (compute_tree_index S) X (T (compute_tree_index S))) m m'"
  using insert_large_chunk_rep [OF assms(1-4) _ refl] assms(5) by blast

definition demo_large :: mstate where
  "demo_large = set_head 0x20000 1024 demo_space"

lemma demo_large_rep: "treebins_rep demo_large (\<lambda>_. TLeaf)"
proof -
  have "\<forall>i<32. treebin_at demo_large i \<noteq> 0x20008"
    unfolding nat_lt_32 by (simp add: treebin_at_def demo_large_def)
  then show ?thesis
    by (simp add: treebins_rep_def treebin_ok_def treemap_is_marked_def tree_nodes_def demo_large_def)
qed

lemma demo_large_room: "tree_node_room demo_large 0x20000"
  unfolding tree_node_room_def nat_lt_32
  by (simp add: node_ok_def ok_address_def misses_def treebin_at_def demo_large_def)

lemma demo_large_size: "large_size 1024" "chunksize demo_large 0x20000 = 1024"
  by (simp_all add: large_size_def is_aligned_def chunksize_def demo_large_def)

theorem insert_large_chunk_refines_wit:
  "\<exists>m'. insert_large_chunk 0x20000 1024 demo_large = Some m'
    \<and> treebins_rep m' ((\<lambda>_. TLeaf)(compute_tree_index 1024 :=
        trie_insert (bin_bits (compute_tree_index 1024)) 0x20000 1024 TLeaf))
    \<and> tree_frame (tree_slots demo_large (compute_tree_index 1024) 0x20000 TLeaf) demo_large m'"
  by (rule insert_large_chunk_refines [OF demo_large_rep demo_large_size demo_large_room])
    (simp add: tree_nodes_def)

text \<open>
  C7: \<open>unlink_large_chunk\<close> refines deletion from the abstract trie. Whether the chunk is a tree
  node with or without others of its size, a leaf, an inner node or the root, or hangs on a
  ring, the call returns, the bin holds the trie with the chunk deleted, still ordered by the
  bits of the sizes, and the other bins are unchanged; emptying the bin clears its mark.
\<close>

theorem unlink_large_chunk_refines:
  assumes "treebins_rep m T" "i < 32" "X \<in> set (nodes (T i))"
  shows "\<exists>m'. unlink_large_chunk X m = Some m' \<and> treebins_rep m' (T(i := trie_delete X (T i)))
    \<and> tree_frame (tree_slots m i X (T i)) m m'
    \<and> (treemap_is_marked m' i \<longleftrightarrow> trie_delete X (T i) \<noteq> TLeaf)"
proof -
  obtain m' where m': "unlink_large_chunk X m = Some m'" "treebins_rep m' (T(i := trie_delete X (T i)))"
    "tree_frame (tree_slots m i X (T i)) m m'"
    using unlink_large_chunk_rep [OF assms] by blast
  moreover have "treebin_ok m' i ((T(i := trie_delete X (T i))) i)"
    using m'(2) assms(2) unfolding treebins_rep_def by blast
  ultimately show ?thesis by (auto simp: treebin_ok_def)
qed

definition demo_tree :: mstate where
  "demo_tree = the (insert_large_chunk 0x20000 1024 demo_large)"

lemma demo_tree_rep: "treebins_rep demo_tree ((\<lambda>_. TLeaf)(compute_tree_index 1024 := TNode 0x20000 1024 [] TLeaf TLeaf))"
  using insert_large_chunk_rep [OF demo_large_rep demo_large_size demo_large_room _ refl]
  by (auto simp: demo_tree_def tree_nodes_def)

theorem unlink_large_chunk_refines_wit:
  "\<exists>m'. unlink_large_chunk 0x20000 demo_tree = Some m'
    \<and> treebins_rep m' ((\<lambda>_. TLeaf)(compute_tree_index 1024 := TNode 0x20000 1024 [] TLeaf TLeaf,
        compute_tree_index 1024 := trie_delete 0x20000 (TNode 0x20000 1024 [] TLeaf TLeaf)))
    \<and> tree_frame (tree_slots demo_tree (compute_tree_index 1024) 0x20000 (TNode 0x20000 1024 [] TLeaf TLeaf)) demo_tree m'
    \<and> (treemap_is_marked m' (compute_tree_index 1024) \<longleftrightarrow> trie_delete 0x20000 (TNode 0x20000 1024 [] TLeaf TLeaf) \<noteq> TLeaf)"
  using unlink_large_chunk_refines [OF demo_tree_rep large_bin [OF demo_large_size(1)], of "0x20000"]
  by (simp only: fun_upd_same nodes.simps) simp

end
