(* ===== verification/Pt_Bins.thy ===== *)
theory Pt_Bins
  imports Pt_Smallbins Pt_Treebins
begin

text \<open>
  The two families of bins of one malloc space together (\<open>insert_chunk\<close>, \<open>unlink_chunk\<close> and
  \<open>init_bins\<close> of \<open>ptmalloc3-malloc.c\<close>): the free chunks below 256 bytes are in the small bins,
  the others in the tree bins, and operations on one family leave the other alone.
\<close>

section \<open>The macros\<close>

definition insert_chunk :: "u64 \<Rightarrow> u64 \<Rightarrow> mstate \<Rightarrow> mstate option" where
  "insert_chunk P S m = (if is_small S then insert_small_chunk P S m else insert_large_chunk P S m)"

definition unlink_chunk :: "u64 \<Rightarrow> u64 \<Rightarrow> mstate \<Rightarrow> mstate option" where
  "unlink_chunk P S m = (if is_small S then unlink_small_chunk P S m else unlink_large_chunk P m)"

definition init_bin :: "nat \<Rightarrow> mstate \<Rightarrow> mstate" where
  "init_bin i m = (let bin = smallbin_at m i in set_fd bin bin (set_bk bin bin m))"

definition init_bins :: "mstate \<Rightarrow> mstate" where
  "init_bins m = fold init_bin [0..<NSMALLBINS] m"

section \<open>Small bins and tree bins side by side\<close>

text \<open>The slots the two families keep their links in.\<close>

definition small_region :: "mstate \<Rightarrow> chunks \<Rightarrow> u64 set" where
  "small_region m C = link_slots (fst ` C \<union> smallbin_at m ` {..<32})"

definition tree_region :: "mstate \<Rightarrow> chunks \<Rightarrow> u64 set" where
  "tree_region m C = (\<Union>n\<in>fst ` C. tree_area n) \<union> treebin_at m ` {..<32}"

definition tree_writes :: "mstate \<Rightarrow> chunks \<Rightarrow> u64 set" where
  "tree_writes m C = (\<Union>n\<in>fst ` C. tree_links n) \<union> treebin_at m ` {..<32}"

lemma tree_writes_region: "tree_writes m C \<subseteq> tree_region m C"
  unfolding tree_writes_def tree_region_def using tree_links_area by blast

definition small_part :: "chunks \<Rightarrow> chunks" where "small_part C = {(p, s) \<in> C. is_small s}"
definition large_part :: "chunks \<Rightarrow> chunks" where "large_part C = {(p, s) \<in> C. \<not> is_small s}"

definition bins_hold :: "mstate \<Rightarrow> chunks \<Rightarrow> bool" where
  "bins_hold m C \<longleftrightarrow> small_holds m (small_part C) \<and> tree_holds m (large_part C)
     \<and> small_region m (small_part C) \<inter> tree_region m (large_part C) = {}"

definition bins_room :: "mstate \<Rightarrow> chunks \<Rightarrow> u64 \<Rightarrow> u64 \<Rightarrow> bool" where
  "bins_room m C P S \<longleftrightarrow>
     (if is_small S
      then small_room m (small_part C) P S
        \<and> link_slots {P} \<inter> tree_region m (large_part C) = {}
      else tree_room m (large_part C) P S
        \<and> tree_area P \<inter> small_region m (small_part C) = {})"

definition bins_step :: "chunks \<Rightarrow> mstate \<Rightarrow> mstate \<Rightarrow> bool" where
  "bins_step C m m' \<longleftrightarrow> (\<exists>sm tm h. m' = m\<lparr>smallmap := sm, treemap := tm, hp := h\<rparr>)
     \<and> agree_off (small_region m (small_part C) \<union> tree_writes m (large_part C)) m m'"

lemma small_region_slot:
  assumes "n \<in> fst ` C \<union> smallbin_at m ` {..<32}"
  shows "n + 16 \<in> small_region m C" "n + 24 \<in> small_region m C"
  using assms unfolding small_region_def by (auto intro: link_slotsI)

lemma small_holds_frame:
  assumes h: "small_holds m C" and sel: "maddr m' = maddr m" "least_addr m' = least_addr m" "smallmap m' = smallmap m"
    and fr: "agree_off A m m'" "A \<inter> small_region m C = {}"
  shows "small_holds m' C"
proof -
  obtain L where L: "smallbins_rep m L" "C = small_chunks L" using h by (auto simp: small_holds_def)
  have at: "smallbin_at m' i = smallbin_at m i" for i by (rule smallbin_at_cong [OF sel(1)])
  have marked: "smallmap_is_marked m' i = smallmap_is_marked m i" for i
    by (simp add: smallmap_is_marked_def sel)
  have "smallbin_ok m' i (L i)" if i: "i < 32" for i
  proof -
    have ok: "smallbin_ok m i (L i)" using L(1) i by (simp add: smallbins_rep_def)
    have "ring (hp m') (smallbin_at m i) (L i) = ring (hp m) (smallbin_at m i) (L i)"
    proof (rule ring_cong)
      fix n assume "n \<in> set (smallbin_at m i # L i)"
      then have "n \<in> fst ` C \<union> smallbin_at m ` {..<32}"
        using i small_chunks_fst [OF i, of L] L(2) by auto
      from small_region_slot [OF this] show "hp m' (n + 16) = hp m (n + 16) \<and> hp m' (n + 24) = hp m (n + 24)"
        using fr unfolding agree_off_def by blast
    qed
    then show ?thesis using ok by (simp add: smallbin_ok_def at marked ok_address_def sel)
  qed
  then have "smallbins_rep m' L" using L(1) by (simp add: smallbins_rep_def at)
  then show ?thesis using L(2) by (auto simp: small_holds_def)
qed

lemma tree_holds_frame:
  assumes h: "tree_holds m C" and sel: "maddr m' = maddr m" "least_addr m' = least_addr m" "treemap m' = treemap m"
    and fr: "agree_off A m m'" "A \<inter> tree_region m C = {}"
  shows "tree_holds m' C"
proof -
  obtain T where T: "treebins_rep m T" "C = tree_chunks T" using h by (auto simp: tree_holds_def)
  have at: "treebin_at m' i = treebin_at m i" for i by (simp add: treebin_at_def sel)
  have marked: "treemap_is_marked m' i = treemap_is_marked m i" for i
    by (simp add: treemap_is_marked_def sel)
  have room: "tree_node_room m' n = tree_node_room m n" for n
    using node_ok_cong [OF sel(2)] by (simp add: tree_node_room_def at)
  have "treebin_ok m' i (T i)" if i: "i < 32" for i
  proof -
    have ok: "treebin_ok m i (T i)" using T(1) i by (simp add: treebins_rep_def)
    have root: "hp m' (treebin_at m i) = hp m (treebin_at m i)"
      using fr i unfolding agree_off_def tree_region_def by blast
    have "trep (hp m') i q p (T i) = trep (hp m) i q p (T i)" for q p
    proof (rule trep_cong)
      fix n k assume n: "n \<in> set (nodes (T i))" "k \<in> node_offs"
      then have "n \<in> fst ` C" using i tree_nodesI [OF i, of n T] T(2) by (simp add: tree_nodes_chunks)
      moreover have "n + k \<in> tree_area n" using n(2) by (auto simp: tree_area_def node_offs_def)
      ultimately have "n + k \<in> tree_region m C" unfolding tree_region_def by blast
      then show "hp m' (n + k) = hp m (n + k)" using fr unfolding agree_off_def by blast
    qed
    then show ?thesis using ok root by (simp add: treebin_ok_def at marked)
  qed
  then have "treebins_rep m' T" using T(1) by (simp add: treebins_rep_def room sel)
  then show ?thesis using T(2) by (auto simp: tree_holds_def)
qed

lemma part_simps:
  "is_small s \<Longrightarrow> small_part (insert (p, s) C) = insert (p, s) (small_part C)"
  "is_small s \<Longrightarrow> large_part (insert (p, s) C) = large_part C"
  "\<not> is_small s \<Longrightarrow> small_part (insert (p, s) C) = small_part C"
  "\<not> is_small s \<Longrightarrow> large_part (insert (p, s) C) = insert (p, s) (large_part C)"
  "is_small s \<Longrightarrow> small_part (C - {(p, s)}) = small_part C - {(p, s)}"
  "is_small s \<Longrightarrow> large_part (C - {(p, s)}) = large_part C"
  "\<not> is_small s \<Longrightarrow> small_part (C - {(p, s)}) = small_part C"
  "\<not> is_small s \<Longrightarrow> large_part (C - {(p, s)}) = large_part C - {(p, s)}"
  by (auto simp: small_part_def large_part_def)

lemma region_mono: "C \<subseteq> D \<Longrightarrow> small_region m C \<subseteq> small_region m D" "C \<subseteq> D \<Longrightarrow> tree_region m C \<subseteq> tree_region m D"
  unfolding small_region_def tree_region_def link_slots_def by blast+

lemma region_cong:
  assumes "maddr m' = maddr m"
  shows "small_region m' C = small_region m C" "tree_region m' C = tree_region m C"
  using assms by (simp_all add: small_region_def tree_region_def smallbin_at_def treebin_at_def)

lemma region_insert:
  "small_region m (insert (p, s) C) = link_slots {p} \<union> small_region m C"
  "tree_region m (insert (p, s) C) = tree_area p \<union> tree_region m C"
  by (auto simp: small_region_def tree_region_def link_slots_def)

lemma small_step_region:
  assumes "small_step C m m'"
  shows "agree_off (small_region m C) m m'" "maddr m' = maddr m" "least_addr m' = least_addr m"
    "treemap m' = treemap m" "\<exists>sm tm h. m' = m\<lparr>smallmap := sm, treemap := tm, hp := h\<rparr>"
proof -
  show "agree_off (small_region m C) m m'"
    using assms by (simp add: small_step_def small_frame_def small_region_def)
  note sel = small_frame_sel [OF assms [unfolded small_step_def]]
  show "maddr m' = maddr m" "least_addr m' = least_addr m" "treemap m' = treemap m" by (fact sel)+
  obtain sm h where "m' = m\<lparr>smallmap := sm, hp := h\<rparr>" using assms by (auto simp: small_step_def small_frame_def)
  then have "m' = m\<lparr>smallmap := sm, treemap := treemap m, hp := h\<rparr>" by simp
  then show "\<exists>sm tm h. m' = m\<lparr>smallmap := sm, treemap := tm, hp := h\<rparr>" by blast
qed

lemma tree_step_region:
  assumes "tree_step C m m'"
  shows "agree_off (tree_writes m C) m m'" "agree_off (tree_region m C) m m'" "maddr m' = maddr m" "least_addr m' = least_addr m"
    "smallmap m' = smallmap m" "\<exists>sm tm h. m' = m\<lparr>smallmap := sm, treemap := tm, hp := h\<rparr>"
proof -
  have fr: "tree_frame (tree_writes m C) m m'" using assms by (simp add: tree_step_def tree_writes_def)
  then show off: "agree_off (tree_writes m C) m m'" by (simp add: tree_frame_def)
  show "agree_off (tree_region m C) m m'" by (rule agree_off_mono [OF off tree_writes_region])
  show "maddr m' = maddr m" "least_addr m' = least_addr m" "smallmap m' = smallmap m"
    using tree_frame_sel [OF fr] by simp_all
  obtain tm h where "m' = m\<lparr>treemap := tm, hp := h\<rparr>" using fr by (auto simp: tree_frame_def)
  then have "m' = m\<lparr>smallmap := smallmap m, treemap := tm, hp := h\<rparr>" by simp
  then show "\<exists>sm tm h. m' = m\<lparr>smallmap := sm, treemap := tm, hp := h\<rparr>" by blast
qed

lemma bins_insert_small:
  assumes h: "bins_hold m C" and r: "bins_room m C p s" and s: "is_small s"
  shows "\<exists>m'. insert_chunk p s m = Some m' \<and> bins_hold m' (insert (p, s) C) \<and> bins_step (insert (p, s) C) m m'"
proof -
  have sh: "small_holds m (small_part C)" and th: "tree_holds m (large_part C)"
    and dis: "small_region m (small_part C) \<inter> tree_region m (large_part C) = {}"
    using h by (simp_all add: bins_hold_def)
  have sr: "small_room m (small_part C) p s" and p: "link_slots {p} \<inter> tree_region m (large_part C) = {}"
    using r s by (simp_all add: bins_room_def)
  obtain m' where m': "insert_small_chunk p s m = Some m'" "small_holds m' (insert (p, s) (small_part C))"
    and st: "small_step (insert (p, s) (small_part C)) m m'"
    using small.ins_holds [OF sh sr] by blast
  note fr = small_step_region [OF st]
  have d': "small_region m (insert (p, s) (small_part C)) \<inter> tree_region m (large_part C) = {}"
    using dis p by (auto simp: region_insert)
  have "tree_holds m' (large_part C)" by (rule tree_holds_frame [OF th fr(2-4) fr(1) d'])
  then have "bins_hold m' (insert (p, s) C)"
    using m'(2) d' s by (simp add: bins_hold_def part_simps region_cong [OF fr(2)])
  moreover have "bins_step (insert (p, s) C) m m'"
    using fr(5) agree_off_mono [OF fr(1)] s by (simp add: bins_step_def part_simps)
  ultimately show ?thesis using m'(1) s by (simp add: insert_chunk_def)
qed

lemma bins_insert_large:
  assumes h: "bins_hold m C" and r: "bins_room m C p s" and s: "\<not> is_small s"
  shows "\<exists>m'. insert_chunk p s m = Some m' \<and> bins_hold m' (insert (p, s) C) \<and> bins_step (insert (p, s) C) m m'"
proof -
  have sh: "small_holds m (small_part C)" and th: "tree_holds m (large_part C)"
    and dis: "small_region m (small_part C) \<inter> tree_region m (large_part C) = {}"
    using h by (simp_all add: bins_hold_def)
  have sr: "tree_room m (large_part C) p s" and p: "tree_area p \<inter> small_region m (small_part C) = {}"
    using r s by (simp_all add: bins_room_def)
  obtain m' where m': "insert_large_chunk p s m = Some m'" "tree_holds m' (insert (p, s) (large_part C))"
    and st: "tree_step (insert (p, s) (large_part C)) m m'"
    using large.ins_holds [OF th sr] by blast
  note fr = tree_step_region [OF st]
  have d': "tree_region m (insert (p, s) (large_part C)) \<inter> small_region m (small_part C) = {}"
    using dis p by (auto simp: region_insert)
  have "small_holds m' (small_part C)" by (rule small_holds_frame [OF sh fr(3-5) fr(2) d'])
  then have "bins_hold m' (insert (p, s) C)"
    using m'(2) d' s by (simp add: bins_hold_def part_simps region_cong [OF fr(3)] Int_commute)
  moreover have "bins_step (insert (p, s) C) m m'"
    using fr(6) agree_off_mono [OF fr(1)] s by (simp add: bins_step_def part_simps)
  ultimately show ?thesis using m'(1) s by (simp add: insert_chunk_def)
qed

lemma bins_unlink_small:
  assumes h: "bins_hold m C" and p: "(p, s) \<in> C" and s: "is_small s"
  shows "\<exists>m'. unlink_chunk p s m = Some m' \<and> bins_hold m' (C - {(p, s)}) \<and> bins_room m' (C - {(p, s)}) p s
    \<and> bins_step C m m'"
proof -
  have sh: "small_holds m (small_part C)" and th: "tree_holds m (large_part C)"
    and dis: "small_region m (small_part C) \<inter> tree_region m (large_part C) = {}"
    using h by (simp_all add: bins_hold_def)
  have p': "(p, s) \<in> small_part C" using p s by (simp add: small_part_def)
  obtain m' where m': "unlink_small_chunk p s m = Some m'" "small_holds m' (small_part C - {(p, s)})"
    "small_room m' (small_part C - {(p, s)}) p s" and st: "small_step (small_part C) m m'"
    using small.unl_holds [OF sh p'] by blast
  note fr = small_step_region [OF st]
  have th': "tree_holds m' (large_part C)" by (rule tree_holds_frame [OF th fr(2-4) fr(1) dis])
  have sub: "small_region m (small_part C - {(p, s)}) \<subseteq> small_region m (small_part C)" by (rule region_mono) blast
  have "link_slots {p} \<subseteq> small_region m (small_part C)"
    using region_insert(1) [of m p s "small_part C"] p' by (metis Un_upper1 insert_absorb)
  then have "bins_room m' (C - {(p, s)}) p s"
    using m'(3) dis s by (auto simp: bins_room_def part_simps region_cong [OF fr(2)])
  moreover have "bins_hold m' (C - {(p, s)})"
    using m'(2) th' dis sub s by (auto simp: bins_hold_def part_simps region_cong [OF fr(2)])
  moreover have "bins_step C m m'"
    using fr(5) agree_off_mono [OF fr(1)] s by (simp add: bins_step_def)
  ultimately show ?thesis using m'(1) s by (simp add: unlink_chunk_def)
qed

lemma bins_unlink_large:
  assumes h: "bins_hold m C" and p: "(p, s) \<in> C" and s: "\<not> is_small s"
  shows "\<exists>m'. unlink_chunk p s m = Some m' \<and> bins_hold m' (C - {(p, s)}) \<and> bins_room m' (C - {(p, s)}) p s
    \<and> bins_step C m m'"
proof -
  have sh: "small_holds m (small_part C)" and th: "tree_holds m (large_part C)"
    and dis: "small_region m (small_part C) \<inter> tree_region m (large_part C) = {}"
    using h by (simp_all add: bins_hold_def)
  have p': "(p, s) \<in> large_part C" using p s by (simp add: large_part_def)
  obtain m' where m': "unlink_large_chunk p m = Some m'" "tree_holds m' (large_part C - {(p, s)})"
    "tree_room m' (large_part C - {(p, s)}) p s" and st: "tree_step (large_part C) m m'"
    using large.unl_holds [OF th p'] by blast
  note fr = tree_step_region [OF st]
  have dis': "tree_region m (large_part C) \<inter> small_region m (small_part C) = {}" using dis by blast
  have sh': "small_holds m' (small_part C)" by (rule small_holds_frame [OF sh fr(3-5) fr(2) dis'])
  have sub: "tree_region m (large_part C - {(p, s)}) \<subseteq> tree_region m (large_part C)" by (rule region_mono) blast
  have "tree_area p \<subseteq> tree_region m (large_part C)"
    using region_insert(2) [of m p s "large_part C"] p' by (metis Un_upper1 insert_absorb)
  then have "bins_room m' (C - {(p, s)}) p s"
    using m'(3) dis s by (auto simp: bins_room_def part_simps region_cong [OF fr(3)])
  moreover have "bins_hold m' (C - {(p, s)})"
    using m'(2) sh' dis sub s by (auto simp: bins_hold_def part_simps region_cong [OF fr(3)])
  moreover have "bins_step C m m'"
    using fr(6) agree_off_mono [OF fr(1)] s by (simp add: bins_step_def)
  ultimately show ?thesis using m'(1) s by (simp add: unlink_chunk_def)
qed

lemma bins_room_fresh: "bins_hold m C \<Longrightarrow> bins_room m C p s \<Longrightarrow> (p, s) \<notin> C"
proof (cases "is_small s")
  assume h: "bins_hold m C" "bins_room m C p s"
  case True
  have "(p, s) \<notin> small_part C"
    by (rule small.room_fresh [of m]) (use h True in \<open>simp_all add: bins_hold_def bins_room_def\<close>)
  then show ?thesis using True by (simp add: small_part_def)
next
  assume h: "bins_hold m C" "bins_room m C p s"
  case False
  have "(p, s) \<notin> large_part C"
    by (rule large.room_fresh [of m]) (use h False in \<open>simp_all add: bins_hold_def bins_room_def\<close>)
  then show ?thesis using False by (simp add: large_part_def)
qed

interpretation bins: chunk_store bins_hold bins_room insert_chunk unlink_chunk bins_step
proof
  show "\<exists>m'. insert_chunk p s m = Some m' \<and> bins_hold m' (insert (p, s) C) \<and> bins_step (insert (p, s) C) m m'"
    if "bins_hold m C" "bins_room m C p s" for m C p s
    using bins_insert_small [OF that] bins_insert_large [OF that] by blast
  show "\<exists>m'. unlink_chunk p s m = Some m' \<and> bins_hold m' (C - {(p, s)}) \<and> bins_room m' (C - {(p, s)}) p s
      \<and> bins_step C m m'"
    if "bins_hold m C" "(p, s) \<in> C" for m C p s
    using bins_unlink_small [OF that] bins_unlink_large [OF that] by blast
qed (rule bins_room_fresh)

section \<open>Empty bins\<close>

lemma init_bin_sel: "maddr (init_bin i m) = maddr m" "smallmap (init_bin i m) = smallmap m"
  "treemap (init_bin i m) = treemap m" "least_addr (init_bin i m) = least_addr m"
  by (simp_all add: init_bin_def Let_def)

lemma empty_bins_hold:
  assumes "smallmap m = 0" "treemap m = 0" "\<And>i. i < 32 \<Longrightarrow> hp m (treebin_at m i) = 0"
    and "unat (maddr m) + 928 \<le> 2 ^ 64"
    and "small_region m {} \<inter> tree_region m {} = {}"
  shows "bins_hold m {}"
proof -
  have "smallbins_rep m (\<lambda>_. [])"
    using assms(1) by (simp add: smallbins_rep_def smallbin_ok_def smallmap_is_marked_def)
  then have "small_holds m {}" by (force simp: small_holds_def small_chunks_def)
  moreover have "treebins_rep m (\<lambda>_. TLeaf)"
    using assms(2-4) by (simp add: treebins_rep_def treebin_ok_def treemap_is_marked_def tree_nodes_def)
  then have "tree_holds m {}" by (force simp: tree_holds_def tree_chunks_def)
  ultimately show ?thesis using assms(5) by (simp add: bins_hold_def small_part_def large_part_def)
qed

text \<open>The bin headers and the tree roots are different slots of \<open>struct malloc_state\<close>.\<close>

lemma bin_arrays_apart: "small_region m {} \<inter> tree_region m {} = {}"
proof -
  have "smallbin_at m i + k \<noteq> treebin_at m j" if "i < 32" "j < 32" "k = 16 \<or> k = 24" for i j k
  proof -
    have u: "unat (72 + 8 * of_nat (2 * i) + 16 :: u64) = 88 + 16 * i"
      "unat (72 + 8 * of_nat (2 * i) + 24 :: u64) = 96 + 16 * i"
      "unat (600 + 8 * of_nat j :: u64) = 600 + 8 * j"
      using that(1,2) by (simp_all add: unat_word_ariths unat_of_nat)
    have "88 + 16 * i \<noteq> 600 + 8 * j" "96 + 16 * i \<noteq> 600 + 8 * j" using that(1) by linarith+
    then have "(72 + 8 * of_nat (2 * i) + 16 :: u64) \<noteq> 600 + 8 * of_nat j"
      "(72 + 8 * of_nat (2 * i) + 24 :: u64) \<noteq> 600 + 8 * of_nat j"
      using u by metis+
    then show ?thesis using that(3) by (auto simp: smallbin_at_def treebin_at_def add.assoc)
  qed
  then show ?thesis by (fastforce simp: small_region_def tree_region_def link_slots_def)
qed

section \<open>Properties\<close>

text \<open>
  C9: Inserting a free chunk into the bins and unlinking it again gives back the bins. Whatever
  the chunk's size, both calls return, after the first the bins hold exactly the old chunks and
  the new one, and after the second exactly the old ones.
\<close>

theorem insert_unlink_chunk:
  assumes "bins_hold m C" "bins_room m C p s"
  shows "\<exists>m' m''. insert_chunk p s m = Some m' \<and> bins_hold m' (insert (p, s) C)
    \<and> unlink_chunk p s m' = Some m'' \<and> bins_hold m'' C"
  by (rule bins.insert_unlink [OF assms])

lemma demo_bins: "bins_hold demo_space {}"
  by (rule empty_bins_hold) (simp_all add: bin_arrays_apart)

lemma demo_bins_room: "bins_room demo_space {} 0x20000 32"
proof -
  have "\<forall>i<32. treebin_at demo_space i \<noteq> 0x20010 \<and> treebin_at demo_space i \<noteq> 0x20018"
    unfolding nat_lt_32 by (simp add: treebin_at_def)
  then have "link_slots {0x20000} \<inter> tree_region demo_space {} = {}"
    by (auto simp: link_slots_def tree_region_def)
  then show ?thesis
    using far_demo_bins
    by (simp add: bins_room_def small_room_def is_small_iff is_aligned_def ok_address_def
        small_part_def large_part_def)
qed

theorem insert_unlink_chunk_wit:
  "\<exists>m' m''. insert_chunk 0x20000 32 demo_space = Some m' \<and> bins_hold m' (insert (0x20000, 32) {})
    \<and> unlink_chunk 0x20000 32 m' = Some m'' \<and> bins_hold m'' {}"
  by (rule insert_unlink_chunk [OF demo_bins demo_bins_room])

text \<open>
  C10: The bins can be emptied in any order: unlinking every chunk they hold, one after the
  other, never fails a check and leaves them empty.
\<close>

theorem drain_bins:
  assumes "bins_hold m C" "distinct ps" "set ps = C"
  shows "\<exists>m'. run_all unlink_chunk ps m = Some m' \<and> bins_hold m' {}"
  by (rule bins.drain [OF assms])

definition demo_binned :: mstate where
  "demo_binned = the (insert_chunk 0x20000 32 demo_space)"

lemma demo_binned_holds: "bins_hold demo_binned {(0x20000, 32)}"
  using bins.ins_holds [OF demo_bins demo_bins_room] by (auto simp: demo_binned_def)

theorem drain_bins_wit:
  "\<exists>m'. run_all unlink_chunk [(0x20000, 32)] demo_binned = Some m' \<and> bins_hold m' {}"
  by (rule drain_bins [OF demo_binned_holds]) simp_all

text \<open>
  Unlinking a member and inserting it again restores the set of free chunks, so a split or a
  failed consolidation that puts a chunk back loses nothing.
\<close>

theorem unlink_insert_chunk:
  assumes "bins_hold m C" "(p, s) \<in> C"
  shows "\<exists>m' m''. unlink_chunk p s m = Some m' \<and> insert_chunk p s m' = Some m'' \<and> bins_hold m'' C"
  by (rule bins.unlink_insert [OF assms])

theorem unlink_insert_chunk_wit:
  "\<exists>m' m''. unlink_chunk 0x20000 32 demo_binned = Some m' \<and> insert_chunk 0x20000 32 m' = Some m''
    \<and> bins_hold m'' {(0x20000, 32)}"
  by (rule unlink_insert_chunk [OF demo_binned_holds]) simp

end
