(* ===== verification/Pt_System.thy ===== *)
theory Pt_System
  imports Pt_Bins
begin

text \<open>
  The part of \<open>ptmalloc3-malloc.c\<close> that talks to the operating system: the global parameters
  (\<open>init_mparams\<close>, \<open>change_mparam\<close>), the list of segments of a malloc space, and the routines
  that map, extend, trim and unmap segments (\<open>mmap_alloc\<close>, \<open>mmap_resize\<close>, \<open>init_top\<close>,
  \<open>prepend_alloc\<close>, \<open>add_segment\<close>, \<open>sys_alloc\<close>, \<open>release_unused_segments\<close>, \<open>sys_trim\<close>).

  The system calls are parameters: a record \<open>osys\<close> of functions that take and return the state
  \<open>'w\<close> of the system. What the model adds to their result is their documented effect on
  memory: a fresh mapping reads as zero, and \<open>mremap\<close> moves the contents. Whatever loops over
  a list of segments is a \<open>partial_function\<close>: \<open>None\<close> is an abort, a null dereference or a loop
  that does not end.
\<close>

section \<open>The operating system\<close>

definition CMFAIL :: u64 where "CMFAIL = MAX_SIZE_T"

record 'w osys =
  os_mmap :: "u64 \<Rightarrow> 'w \<Rightarrow> u64 \<times> 'w"
  os_munmap :: "u64 \<Rightarrow> u64 \<Rightarrow> 'w \<Rightarrow> bool \<times> 'w"
  os_mremap :: "u64 \<Rightarrow> u64 \<Rightarrow> u64 \<Rightarrow> bool \<Rightarrow> 'w \<Rightarrow> u64 \<times> 'w"

definition clear_region :: "u64 \<Rightarrow> u64 \<Rightarrow> heap \<Rightarrow> heap" where
  "clear_region a s h = (\<lambda>x. if x - a < s then 0 else h x)"

definition move_region :: "u64 \<Rightarrow> u64 \<Rightarrow> u64 \<Rightarrow> u64 \<Rightarrow> heap \<Rightarrow> heap" where
  "move_region a os b ns h =
     (\<lambda>x. if x - b < ns then (if x - b < os then h (x - b + a) else 0) else h x)"

definition CALL_MMAP :: "'w osys \<Rightarrow> u64 \<Rightarrow> heap \<Rightarrow> 'w \<Rightarrow> u64 \<times> heap \<times> 'w" where
  "CALL_MMAP os s h w =
     (case os_mmap os s w of (a, w') \<Rightarrow> (a, if a = CMFAIL then h else clear_region a s h, w'))"

definition CALL_MUNMAP :: "'w osys \<Rightarrow> u64 \<Rightarrow> u64 \<Rightarrow> 'w \<Rightarrow> bool \<times> 'w" where
  "CALL_MUNMAP os a s w = os_munmap os a s w"

definition CALL_MREMAP ::
  "'w osys \<Rightarrow> u64 \<Rightarrow> u64 \<Rightarrow> u64 \<Rightarrow> bool \<Rightarrow> heap \<Rightarrow> 'w \<Rightarrow> u64 \<times> heap \<times> 'w" where
  "CALL_MREMAP os a osz nsz mv h w =
     (case os_mremap os a osz nsz mv w of
        (b, w') \<Rightarrow> (b, if b = CMFAIL then h else move_region a osz b nsz h, w'))"

section \<open>Parameters\<close>

definition USE_MMAP_BIT :: u32 where "USE_MMAP_BIT = 1"
definition USE_LOCK_BIT :: u32 where "USE_LOCK_BIT = 0"
definition USE_NONCONTIGUOUS_BIT :: u32 where "USE_NONCONTIGUOUS_BIT = 4"
definition EXTERN_BIT :: u32 where "EXTERN_BIT = 8"
definition DEFAULT_GRANULARITY :: u64 where "DEFAULT_GRANULARITY = 64 * 1024"
definition MAX_RELEASE_CHECK_RATE :: u64 where "MAX_RELEASE_CHECK_RATE = 255"
definition M_TRIM_THRESHOLD :: int where "M_TRIM_THRESHOLD = - 1"
definition M_GRANULARITY :: int where "M_GRANULARITY = - 2"
definition M_MMAP_THRESHOLD :: int where "M_MMAP_THRESHOLD = - 3"

text \<open>
  What the build and the machine fix: \<open>PGASUS_MMAP_THRESHOLD\<close> of the generated
  \<open>PGASUS-config.h\<close> and the page size \<open>sysconf\<close> reports.
\<close>

record build_env =
  pgasus_mmap_threshold :: u64
  getpagesize :: u64

definition pow2_or_zero :: "u64 \<Rightarrow> bool" where "pow2_or_zero x \<longleftrightarrow> x AND (x - 1) = 0"

definition init_mparams :: "build_env \<Rightarrow> malloc_params \<Rightarrow> malloc_params option" where
  "init_mparams env mp =
     (if mp_page_size mp = 0 then
        let mp = mp\<lparr>mp_mmap_threshold := pgasus_mmap_threshold env,
                    mp_trim_threshold := pgasus_mmap_threshold env,
                    mp_default_mflags := USE_LOCK_BIT OR USE_MMAP_BIT OR USE_NONCONTIGUOUS_BIT\<rparr>;
            s = 0x58585858;
            mp = (if mp_magic mp = 0 then mp\<lparr>mp_magic := s\<rparr> else mp);
            mp = mp\<lparr>mp_page_size := getpagesize env,
                    mp_granularity := (if DEFAULT_GRANULARITY \<noteq> 0 then DEFAULT_GRANULARITY
                                       else getpagesize env)\<rparr>
        in if MAX_SIZE_T < MIN_CHUNK_SIZE \<or> MALLOC_ALIGNMENT < 8
              \<or> \<not> pow2_or_zero MALLOC_ALIGNMENT \<or> \<not> pow2_or_zero MCHUNK_SIZE
              \<or> \<not> pow2_or_zero (mp_granularity mp) \<or> \<not> pow2_or_zero (mp_page_size mp)
           then None else Some mp
      else Some mp)"

definition change_mparam ::
  "build_env \<Rightarrow> int \<Rightarrow> 32 word \<Rightarrow> malloc_params \<Rightarrow> (bool \<times> malloc_params) option" where
  "change_mparam env param_number val mp0 = do {
     let val = (scast val :: u64);
     mp \<leftarrow> init_mparams env mp0;
     if param_number = M_TRIM_THRESHOLD then Some (True, mp\<lparr>mp_trim_threshold := val\<rparr>)
     else if param_number = M_GRANULARITY then
       (if mp_page_size mp \<le> val \<and> val AND (val - 1) = 0
        then Some (True, mp\<lparr>mp_granularity := val\<rparr>) else Some (False, mp))
     else if param_number = M_MMAP_THRESHOLD then Some (True, mp\<lparr>mp_mmap_threshold := val\<rparr>)
     else Some (False, mp) }"

definition page_align :: "malloc_params \<Rightarrow> u64 \<Rightarrow> u64" where
  "page_align mp S = (S + (mp_page_size mp - 1)) AND NOT (mp_page_size mp - 1)"
definition granularity_align :: "malloc_params \<Rightarrow> u64 \<Rightarrow> u64" where
  "granularity_align mp S = (S + (mp_granularity mp - 1)) AND NOT (mp_granularity mp - 1)"
definition mmap_align :: "malloc_params \<Rightarrow> u64 \<Rightarrow> u64" where "mmap_align mp S = page_align mp S"
definition is_page_aligned :: "malloc_params \<Rightarrow> u64 \<Rightarrow> bool" where
  "is_page_aligned mp S \<longleftrightarrow> S AND (mp_page_size mp - 1) = 0"
definition is_granularity_aligned :: "malloc_params \<Rightarrow> u64 \<Rightarrow> bool" where
  "is_granularity_aligned mp S \<longleftrightarrow> S AND (mp_granularity mp - 1) = 0"

section \<open>Flags of a space\<close>

definition is_initialized :: "mstate \<Rightarrow> bool" where "is_initialized m \<longleftrightarrow> m_top m \<noteq> 0"
definition use_lock :: "mstate \<Rightarrow> bool" where "use_lock m \<longleftrightarrow> mflags m AND USE_LOCK_BIT \<noteq> 0"
definition use_mmap :: "mstate \<Rightarrow> bool" where "use_mmap m \<longleftrightarrow> mflags m AND USE_MMAP_BIT \<noteq> 0"
definition enable_mmap :: "mstate \<Rightarrow> mstate" where
  "enable_mmap m = m\<lparr>mflags := mflags m OR USE_MMAP_BIT\<rparr>"
definition disable_mmap :: "mstate \<Rightarrow> mstate" where
  "disable_mmap m = m\<lparr>mflags := mflags m AND NOT USE_MMAP_BIT\<rparr>"
definition use_noncontiguous :: "mstate \<Rightarrow> bool" where
  "use_noncontiguous m \<longleftrightarrow> mflags m AND USE_NONCONTIGUOUS_BIT \<noteq> 0"
definition disable_contiguous :: "mstate \<Rightarrow> mstate" where
  "disable_contiguous m = m\<lparr>mflags := mflags m OR USE_NONCONTIGUOUS_BIT\<rparr>"
definition set_lock :: "bool \<Rightarrow> mstate \<Rightarrow> mstate" where
  "set_lock L m = m\<lparr>mflags := (if L then mflags m OR USE_LOCK_BIT
                               else mflags m AND NOT USE_LOCK_BIT)\<rparr>"

definition should_trim :: "mstate \<Rightarrow> u64 \<Rightarrow> bool" where "should_trim m s \<longleftrightarrow> trim_check m < s"

section \<open>Segments\<close>

text \<open>
  \<open>struct malloc_segment\<close>: \<open>base\<close>, \<open>size\<close>, \<open>next\<close> and the 32-bit \<open>sflags\<close> at offsets 0, 8, 16
  and 24. \<open>m->seg\<close> is at offset 880 of \<open>struct malloc_state\<close>, whose size is 928.
\<close>

definition SIZEOF_MALLOC_SEGMENT :: u64 where "SIZEOF_MALLOC_SEGMENT = 32"
definition SIZEOF_MALLOC_STATE :: u64 where "SIZEOF_MALLOC_STATE = 928"

abbreviation main_seg :: "mstate \<Rightarrow> u64" where "main_seg m \<equiv> maddr m + 880"
abbreviation seg_base :: "mstate \<Rightarrow> u64 \<Rightarrow> u64" where "seg_base m sp \<equiv> hp m sp"
abbreviation seg_size :: "mstate \<Rightarrow> u64 \<Rightarrow> u64" where "seg_size m sp \<equiv> hp m (sp + 8)"
abbreviation seg_next :: "mstate \<Rightarrow> u64 \<Rightarrow> u64" where "seg_next m sp \<equiv> hp m (sp + 16)"
abbreviation seg_sflags :: "mstate \<Rightarrow> u64 \<Rightarrow> u32" where "seg_sflags m sp \<equiv> low32 (hp m (sp + 24))"
abbreviation set_seg_base :: "u64 \<Rightarrow> u64 \<Rightarrow> mstate \<Rightarrow> mstate" where "set_seg_base sp v \<equiv> upd sp v"
abbreviation set_seg_size :: "u64 \<Rightarrow> u64 \<Rightarrow> mstate \<Rightarrow> mstate" where "set_seg_size sp v \<equiv> upd (sp + 8) v"
abbreviation set_seg_next :: "u64 \<Rightarrow> u64 \<Rightarrow> mstate \<Rightarrow> mstate" where "set_seg_next sp v \<equiv> upd (sp + 16) v"
definition set_seg_sflags :: "u64 \<Rightarrow> u32 \<Rightarrow> mstate \<Rightarrow> mstate" where
  "set_seg_sflags sp v m = upd (sp + 24) (put_low32 (hp m (sp + 24)) v) m"

definition SEG_MMAPPED :: u32 where "SEG_MMAPPED = 1"

definition is_mmapped_segment :: "mstate \<Rightarrow> u64 \<Rightarrow> bool" where
  "is_mmapped_segment m sp \<longleftrightarrow> seg_sflags m sp AND SEG_MMAPPED \<noteq> 0"
definition is_extern_segment :: "mstate \<Rightarrow> u64 \<Rightarrow> bool" where
  "is_extern_segment m sp \<longleftrightarrow> seg_sflags m sp AND EXTERN_BIT \<noteq> 0"
definition segment_holds :: "mstate \<Rightarrow> u64 \<Rightarrow> u64 \<Rightarrow> bool" where
  "segment_holds m sp a \<longleftrightarrow> seg_base m sp \<le> a \<and> a < seg_base m sp + seg_size m sp"

definition TOP_FOOT_SIZE :: u64 where
  "TOP_FOOT_SIZE = align_offset (chunk2mem 0) + pad_request SIZEOF_MALLOC_SEGMENT + MIN_CHUNK_SIZE"

text \<open>The loops of \<open>segment_holding\<close> and \<open>has_segment_link\<close>; 0 is the null result.\<close>

partial_function (option) segment_holding_loop :: "mstate \<Rightarrow> u64 \<Rightarrow> u64 \<Rightarrow> u64 option" where
  "segment_holding_loop m addr sp =
     (if segment_holds m sp addr then Some sp
      else if seg_next m sp = 0 then Some 0
      else segment_holding_loop m addr (seg_next m sp))"

definition segment_holding :: "mstate \<Rightarrow> u64 \<Rightarrow> u64 option" where
  "segment_holding m addr = segment_holding_loop m addr (main_seg m)"

partial_function (option) segment_link_loop :: "mstate \<Rightarrow> u64 \<Rightarrow> u64 \<Rightarrow> bool option" where
  "segment_link_loop m ss sp =
     (if segment_holds m ss sp then Some True
      else if seg_next m sp = 0 then Some False
      else segment_link_loop m ss (seg_next m sp))"

definition has_segment_link :: "mstate \<Rightarrow> u64 \<Rightarrow> bool option" where
  "has_segment_link m ss = segment_link_loop m ss (main_seg m)"

partial_function (option) find_segment :: "(u64 \<Rightarrow> bool) \<Rightarrow> mstate \<Rightarrow> u64 \<Rightarrow> u64 option" where
  "find_segment P m sp =
     (if sp = 0 \<or> P sp then Some sp else find_segment P m (seg_next m sp))"

section \<open>Direct mappings\<close>

definition bump_footprint :: "u64 \<Rightarrow> mstate \<Rightarrow> mstate" where
  "bump_footprint s m =
     (let m = m\<lparr>footprint := footprint m + s\<rparr>
      in if max_footprint m < footprint m then m\<lparr>max_footprint := footprint m\<rparr> else m)"

definition lower_least_addr :: "u64 \<Rightarrow> mstate \<Rightarrow> mstate" where
  "lower_least_addr a m = (if a < least_addr m then m\<lparr>least_addr := a\<rparr> else m)"

definition mmap_alloc ::
  "'w osys \<Rightarrow> malloc_params \<Rightarrow> u64 \<Rightarrow> mstate \<Rightarrow> 'w \<Rightarrow> u64 \<times> mstate \<times> 'w" where
  "mmap_alloc os mp nb m w =
     (let mmsize = mmap_align mp (nb + SIX_SIZE_T_SIZES + CHUNK_ALIGN_MASK)
      in if nb < mmsize then
           (case CALL_MMAP os mmsize (hp m) w of (mm, h, w) \<Rightarrow>
              let m = m\<lparr>hp := h\<rparr>
              in if mm \<noteq> CMFAIL then
                   let offset = align_offset (chunk2mem mm);
                       psize = mmsize - offset - MMAP_FOOT_PAD;
                       p = mm + offset;
                       m = set_prev_foot p (offset OR IS_MMAPPED_BIT) m;
                       m = set_head p (psize OR CINUSE_BIT) m;
                       m = set_head (p + psize) FENCEPOST_HEAD m;
                       m = set_head (p + (psize + SIZE_T_SIZE)) 0 m;
                       m = lower_least_addr mm m;
                       m = bump_footprint mmsize m
                   in (chunk2mem p, m, w)
                 else (0, m, w))
         else (0, m, w))"

definition mmap_resize ::
  "'w osys \<Rightarrow> malloc_params \<Rightarrow> u64 \<Rightarrow> u64 \<Rightarrow> mstate \<Rightarrow> 'w \<Rightarrow> u64 \<times> mstate \<times> 'w" where
  "mmap_resize os mp oldp nb m w =
     (let oldsize = chunksize m oldp
      in if is_small nb then (0, m, w)
         else if nb + SIZE_T_SIZE \<le> oldsize \<and> oldsize - nb \<le> push_bit 1 (mp_granularity mp)
         then (oldp, m, w)
         else
           let offset = prev_foot_of m oldp AND NOT IS_MMAPPED_BIT;
               oldmmsize = oldsize + offset + MMAP_FOOT_PAD;
               newmmsize = mmap_align mp (nb + SIX_SIZE_T_SIZES + CHUNK_ALIGN_MASK)
           in (case CALL_MREMAP os (oldp - offset) oldmmsize newmmsize True (hp m) w of (cp, h, w) \<Rightarrow>
                 let m = m\<lparr>hp := h\<rparr>
                 in if cp \<noteq> CMFAIL then
                      let newp = cp + offset;
                          psize = newmmsize - offset - MMAP_FOOT_PAD;
                          m = set_head newp (psize OR CINUSE_BIT) m;
                          m = set_head (newp + psize) FENCEPOST_HEAD m;
                          m = set_head (newp + (psize + SIZE_T_SIZE)) 0 m;
                          m = lower_least_addr cp m;
                          m = bump_footprint (newmmsize - oldmmsize) m
                      in (newp, m, w)
                    else (0, m, w)))"

section \<open>The top chunk and the segments\<close>

definition init_top :: "malloc_params \<Rightarrow> u64 \<Rightarrow> u64 \<Rightarrow> mstate \<Rightarrow> mstate" where
  "init_top mp p psize m =
     (let offset = align_offset (chunk2mem p);
          p = p + offset;
          psize = psize - offset;
          m = m\<lparr>m_top := p, topsize := psize\<rparr>;
          m = set_head p (psize OR PINUSE_BIT) m;
          m = set_head (p + psize) TOP_FOOT_SIZE m
      in m\<lparr>trim_check := mp_trim_threshold mp\<rparr>)"

definition prepend_alloc :: "u64 \<Rightarrow> u64 \<Rightarrow> u64 \<Rightarrow> mstate \<Rightarrow> (u64 \<times> mstate) option" where
  "prepend_alloc newbase oldbase nb m = do {
     let p = align_as_chunk newbase;
     let oldfirst = align_as_chunk oldbase;
     let psize = oldfirst - p;
     let q = p + nb;
     let qsize = psize - nb;
     let m = set_size_and_pinuse_of_inuse_chunk p nb m;
     m \<leftarrow> (if oldfirst = m_top m then
             let tsize = topsize m + qsize;
                 m = m\<lparr>topsize := tsize, m_top := q\<rparr>
             in Some (set_head q (tsize OR PINUSE_BIT) m)
           else if oldfirst = dv m then
             let dsize = dvsize m + qsize;
                 m = m\<lparr>dvsize := dsize, dv := q\<rparr>
             in Some (set_size_and_pinuse_of_free_chunk q dsize m)
           else do {
             (oldfirst, qsize, m) \<leftarrow>
               (if \<not> cinuse m oldfirst then
                  let nsize = chunksize m oldfirst in do {
                    m \<leftarrow> unlink_chunk oldfirst nsize m;
                    Some (oldfirst + nsize, qsize + nsize, m) }
                else Some (oldfirst, qsize, m));
             insert_chunk q qsize (set_free_with_pinuse q qsize oldfirst m) });
     Some (chunk2mem p, m) }"

text \<open>The loop of \<open>add_segment\<close> that writes the trailing fenceposts.\<close>

partial_function (option) fencepost_loop :: "u64 \<Rightarrow> u64 \<Rightarrow> mstate \<Rightarrow> mstate option" where
  "fencepost_loop old_end p m =
     (let nextp = p + SIZE_T_SIZE;
          m = set_head p FENCEPOST_HEAD m
      in if nextp + 8 < old_end then fencepost_loop old_end nextp m else Some m)"

definition add_segment ::
  "malloc_params \<Rightarrow> u64 \<Rightarrow> u64 \<Rightarrow> u32 \<Rightarrow> mstate \<Rightarrow> mstate option" where
  "add_segment mp tbase tsize mmapped m = do {
     let old_top = m_top m;
     oldsp \<leftarrow> segment_holding m old_top;
     if oldsp = 0 then None else do {
       let old_end = seg_base m oldsp + seg_size m oldsp;
       let ssize = pad_request SIZEOF_MALLOC_SEGMENT;
       let rawsp = old_end - (ssize + FOUR_SIZE_T_SIZES + CHUNK_ALIGN_MASK);
       let offset = align_offset (chunk2mem rawsp);
       let asp = rawsp + offset;
       let csp = (if asp < old_top + MIN_CHUNK_SIZE then old_top else asp);
       let sp = csp;
       let ss = chunk2mem sp;
       let tnext = sp + ssize;
       let m = init_top mp tbase (tsize - TOP_FOOT_SIZE) m;
       let m = set_size_and_pinuse_of_inuse_chunk sp ssize m;
       let sg = main_seg m;
       let m = set_seg_sflags ss (seg_sflags m sg)
                 (set_seg_next ss (seg_next m sg)
                    (set_seg_size ss (seg_size m sg) (set_seg_base ss (seg_base m sg) m)));
       let m = set_seg_next sg ss
                 (set_seg_sflags sg mmapped (set_seg_size sg tsize (set_seg_base sg tbase m)));
       m \<leftarrow> fencepost_loop old_end tnext m;
       if csp \<noteq> old_top then do {
         let q = old_top;
         let psize = csp - old_top;
         let tn = q + psize;
         insert_chunk q psize (set_free_with_pinuse q psize tn m) }
       else Some m } }"

text \<open>
  \<open>sys_alloc\<close> in the build's configuration: \<open>HAVE_MORECORE\<close> and \<open>MORECORE_CONTIGUOUS\<close> are 0,
  so of the three ways to get memory only the second, a call of \<open>MMAP\<close>, is compiled.
\<close>

definition sys_alloc_mmap ::
  "'w osys \<Rightarrow> malloc_params \<Rightarrow> u64 \<Rightarrow> heap \<Rightarrow> 'w \<Rightarrow> u64 \<times> u64 \<times> u32 \<times> heap \<times> 'w" where
  "sys_alloc_mmap os mp nb h w =
     (let req = nb + TOP_FOOT_SIZE + 1;
          rsize = granularity_align mp req
      in if nb < rsize then
           (case CALL_MMAP os rsize h w of (a, h, w) \<Rightarrow>
              if a \<noteq> CMFAIL then (a, rsize, SEG_MMAPPED, h, w) else (CMFAIL, 0, 0, h, w))
         else (CMFAIL, 0, 0, h, w))"

definition install_first_segment ::
  "malloc_params \<Rightarrow> u64 \<Rightarrow> u64 \<Rightarrow> u32 \<Rightarrow> mstate \<Rightarrow> mstate" where
  "install_first_segment mp tbase tsize mmap_flag m =
     (let sg = main_seg m;
          m = set_seg_base sg tbase (m\<lparr>least_addr := tbase\<rparr>);
          m = set_seg_size sg tsize m;
          m = set_seg_sflags sg mmap_flag m;
          m = m\<lparr>magic := mp_magic mp, release_checks := MAX_RELEASE_CHECK_RATE\<rparr>;
          m = init_bins m;
          mn = next_chunk m (mem2chunk (maddr m))
      in init_top mp mn ((tbase + tsize) - mn - TOP_FOOT_SIZE) m)"

text \<open>
  \<open>sys_alloc_merge\<close>: the new region extends the top segment, goes below another segment
  (the request is then served from it: \<open>Inl\<close> is the early return), or becomes a segment.
\<close>

definition sys_alloc_merge ::
  "malloc_params \<Rightarrow> u64 \<Rightarrow> u64 \<Rightarrow> u32 \<Rightarrow> u64 \<Rightarrow> mstate \<Rightarrow> ((u64 \<times> mstate) + mstate) option" where
  "sys_alloc_merge mp tbase tsize mmap_flag nb m = do {
     sp \<leftarrow> find_segment (\<lambda>sp. tbase = seg_base m sp + seg_size m sp) m (main_seg m);
     if sp \<noteq> 0 \<and> \<not> is_extern_segment m sp \<and> seg_sflags m sp AND SEG_MMAPPED = mmap_flag
        \<and> segment_holds m sp (m_top m)
     then
       let m = set_seg_size sp (seg_size m sp + tsize) m
       in Some (Inr (init_top mp (m_top m) (topsize m + tsize) m))
     else do {
       let m = lower_least_addr tbase m;
       sp \<leftarrow> find_segment (\<lambda>sp. seg_base m sp = tbase + tsize) m (main_seg m);
       if sp \<noteq> 0 \<and> \<not> is_extern_segment m sp \<and> seg_sflags m sp AND SEG_MMAPPED = mmap_flag
       then do {
         let oldbase = seg_base m sp;
         let m = set_seg_base sp tbase m;
         let m = set_seg_size sp (seg_size m sp + tsize) m;
         r \<leftarrow> prepend_alloc tbase oldbase nb m;
         Some (Inl r) }
       else do {
         m \<leftarrow> add_segment mp tbase tsize mmap_flag m;
         Some (Inr m) } } }"

definition split_top :: "u64 \<Rightarrow> mstate \<Rightarrow> u64 \<times> mstate" where
  "split_top nb m =
     (let rsize = topsize m - nb;
          p = m_top m;
          r = p + nb;
          m = m\<lparr>topsize := rsize, m_top := r\<rparr>;
          m = set_head r (rsize OR PINUSE_BIT) m;
          m = set_size_and_pinuse_of_inuse_chunk p nb m
      in (chunk2mem p, m))"

definition sys_alloc ::
  "build_env \<Rightarrow> 'w osys \<Rightarrow> u64 \<Rightarrow> malloc_params \<Rightarrow> mstate \<Rightarrow> 'w
     \<Rightarrow> (u64 \<times> malloc_params \<times> mstate \<times> 'w) option" where
  "sys_alloc env os nb mp0 m w = do {
     mp \<leftarrow> init_mparams env mp0;
     let (mem, m, w) = (if use_mmap m \<and> mp_mmap_threshold mp \<le> nb
                        then mmap_alloc os mp nb m w else (0, m, w));
     if mem \<noteq> 0 then Some (mem, mp, m, w)
     else
       (case sys_alloc_mmap os mp nb (hp m) w of (tbase, tsize, mmap_flag, h, w) \<Rightarrow>
          let m = m\<lparr>hp := h\<rparr>
          in if tbase \<noteq> CMFAIL then do {
               let m = bump_footprint tsize m;
               r \<leftarrow> (if \<not> is_initialized m
                     then Some (Inr (install_first_segment mp tbase tsize mmap_flag m))
                     else sys_alloc_merge mp tbase tsize mmap_flag nb m);
               (case r of
                  Inl (mem, m) \<Rightarrow> Some (mem, mp, m, w)
                | Inr m \<Rightarrow>
                    if nb < topsize m
                    then (case split_top nb m of (mem, m) \<Rightarrow> Some (mem, mp, m, w))
                    else Some (0, mp, m, w)) }
             else Some (0, mp, m, w)) }"

section \<open>Giving memory back\<close>

text \<open>One turn of the loop of \<open>release_unused_segments\<close>, at \<open>sp\<close> with predecessor \<open>pred\<close>.\<close>

definition release_segment ::
  "'w osys \<Rightarrow> u64 \<Rightarrow> u64 \<Rightarrow> u64 \<Rightarrow> mstate \<Rightarrow> 'w \<Rightarrow> (u64 \<times> u64 \<times> mstate \<times> 'w) option" where
  "release_segment os pred sp released m w =
     (let base = seg_base m sp; size = seg_size m sp; nxt = seg_next m sp
      in if is_mmapped_segment m sp \<and> \<not> is_extern_segment m sp then
           let p = align_as_chunk base; psize = chunksize m p
           in if \<not> cinuse m p \<and> base + size - TOP_FOOT_SIZE \<le> p + psize then do {
                m \<leftarrow> (if p = dv m then Some (m\<lparr>dv := 0, dvsize := 0\<rparr>)
                      else unlink_large_chunk p m);
                (case CALL_MUNMAP os base size w of (ok, w) \<Rightarrow>
                   if ok then
                     let m = m\<lparr>footprint := footprint m - size\<rparr>
                     in Some (released + size, pred, set_seg_next pred nxt m, w)
                   else do {
                     m \<leftarrow> insert_large_chunk p psize m;
                     Some (released, sp, m, w) }) }
              else Some (released, sp, m, w)
         else Some (released, sp, m, w))"

partial_function (option) release_loop ::
  "'w osys \<Rightarrow> u64 \<Rightarrow> u64 \<Rightarrow> u64 \<Rightarrow> nat \<Rightarrow> mstate \<Rightarrow> 'w \<Rightarrow> (u64 \<times> nat \<times> mstate \<times> 'w) option" where
  "release_loop os pred sp released nsegs m w =
     (if sp = 0 then Some (released, nsegs, m, w)
      else
        let nxt = seg_next m sp
        in Option.bind (release_segment os pred sp released m w) (\<lambda>(released, sp', m, w).
             release_loop os sp' nxt released (Suc nsegs) m w))"

definition release_unused_segments ::
  "'w osys \<Rightarrow> mstate \<Rightarrow> 'w \<Rightarrow> (u64 \<times> mstate \<times> 'w) option" where
  "release_unused_segments os m w = do {
     let pred = main_seg m;
     (released, nsegs, m, w) \<leftarrow> release_loop os pred (seg_next m pred) 0 0 m w;
     Some (released,
           m\<lparr>release_checks := (if 255 < nsegs then of_nat nsegs else MAX_RELEASE_CHECK_RATE)\<rparr>, w) }"

text \<open>
  The first half of \<open>sys_trim\<close>, on the top segment: how much was released, and the state.
  \<open>HAVE_MORECORE\<close> is 0, so only a mapped segment can shrink.
\<close>

definition trim_top ::
  "'w osys \<Rightarrow> malloc_params \<Rightarrow> u64 \<Rightarrow> mstate \<Rightarrow> 'w \<Rightarrow> (u64 \<times> mstate \<times> 'w) option" where
  "trim_top os mp pad m w =
     (let unit = mp_granularity mp;
          extra = ((topsize m - pad + (unit - 1)) div unit - 1) * unit
      in do {
        sp \<leftarrow> segment_holding m (m_top m);
        if sp = 0 then None else do {
          (released, m, w) \<leftarrow>
            (if \<not> is_extern_segment m sp \<and> is_mmapped_segment m sp \<and> extra \<le> seg_size m sp then do {
               link \<leftarrow> has_segment_link m sp;
               if link then Some (0, m, w)
               else
                 let newsize = seg_size m sp - extra
                 in (case CALL_MREMAP os (seg_base m sp) (seg_size m sp) newsize False (hp m) w of
                       (a, h, w) \<Rightarrow>
                         if a \<noteq> CMFAIL then Some (extra, m, w)
                         else (case CALL_MUNMAP os (seg_base m sp + newsize) extra w of
                                 (ok, w) \<Rightarrow> Some (if ok then extra else 0, m, w))) }
             else Some (0, m, w));
          if released \<noteq> 0 then
            let m = set_seg_size sp (seg_size m sp - released) m;
                m = m\<lparr>footprint := footprint m - released\<rparr>
            in Some (released, init_top mp (m_top m) (topsize m - released) m, w)
          else Some (released, m, w) } })"

definition sys_trim ::
  "'w osys \<Rightarrow> malloc_params \<Rightarrow> u64 \<Rightarrow> mstate \<Rightarrow> 'w \<Rightarrow> (bool \<times> mstate \<times> 'w) option" where
  "sys_trim os mp pad m w =
     (if pad < MAX_REQUEST \<and> is_initialized m then do {
        let pad = pad + TOP_FOOT_SIZE;
        (released, m, w) \<leftarrow>
          (if pad < topsize m then trim_top os mp pad m w else Some (0, m, w));
        (rel, m, w) \<leftarrow> release_unused_segments os m w;
        let released = released + rel;
        let m = (if released = 0 \<and> trim_check m < topsize m
                 then m\<lparr>trim_check := MAX_SIZE_T\<rparr> else m);
        Some (released \<noteq> 0, m, w) }
      else Some (False, m, w))"

end
