(* ===== verification/Pt_Malloc.thy ===== *)
theory Pt_Malloc
  imports Pt_System
begin

text \<open>
  Allocation and release in a malloc space: \<open>tmalloc_large\<close>, \<open>tmalloc_small\<close>, \<open>mspace_malloc\<close>
  and \<open>mspace_free\<close> of \<open>ptmalloc3-malloc.c\<close>. A request is served, in this order, by a small
  bin of its size, the designated victim \<open>dv\<close>, the next small bin, a tree bin, and the top
  chunk; a released chunk is merged with the free chunks on both sides.

  \<open>None\<close> is \<open>abort()\<close>: the action of \<open>CORRUPTION_ERROR_ACTION\<close> and \<open>USAGE_ERROR_ACTION\<close> when
  \<open>PROCEED_ON_ERROR\<close> is 0 (or a loop over a corrupted tree that does not end).
\<close>

section \<open>Tree searches\<close>

text \<open>
  The first loop of \<open>tmalloc_large\<close>, in the tree of the request's own bin: the pointer \<open>t\<close> to
  go on from, the best chunk \<open>v\<close> so far and its remainder \<open>rsize\<close>.
\<close>

partial_function (option) tmalloc_large_descend ::
  "mstate \<Rightarrow> u64 \<Rightarrow> u64 \<Rightarrow> u64 \<Rightarrow> u64 \<Rightarrow> u64 \<Rightarrow> u64 \<Rightarrow> (u64 \<times> u64 \<times> u64) option" where
  "tmalloc_large_descend m nb sizebits rst t v rsize =
     (let trem = chunksize m t - nb
      in if trem < rsize \<and> trem = 0 then Some (t, t, trem)
         else
           let (v, rsize) = (if trem < rsize then (t, trem) else (v, rsize));
               rt = child1_of m t;
               t = hp m (child_slot t (drop_bit (SIZE_T_BITSIZE - 1) sizebits AND 1));
               rst = (if rt \<noteq> 0 \<and> rt \<noteq> t then rt else rst)
           in if t = 0 then Some (rst, v, rsize)
              else tmalloc_large_descend m nb (push_bit 1 sizebits) rst t v rsize)"

text \<open>The loop both routines end with: down the leftmost children, keeping the best fit.\<close>

partial_function (option) leftmost_loop ::
  "mstate \<Rightarrow> u64 \<Rightarrow> u64 \<Rightarrow> u64 \<Rightarrow> u64 \<Rightarrow> (u64 \<times> u64) option" where
  "leftmost_loop m nb t v rsize =
     (if t = 0 then Some (v, rsize)
      else
        let trem = chunksize m t - nb;
            (v, rsize) = (if trem < rsize then (t, trem) else (v, rsize))
        in leftmost_loop m nb (leftmost_child m t) v rsize)"

definition tmalloc_large_search :: "u64 \<Rightarrow> mstate \<Rightarrow> (u64 \<times> u64) option" where
  "tmalloc_large_search nb m = do {
     let idx = compute_tree_index nb;
     let t = hp m (treebin_at m idx);
     (t, v, rsize) \<leftarrow>
       (if t \<noteq> 0
        then tmalloc_large_descend m nb (push_bit (leftshift_for_tree_index idx) nb) 0 t 0 (- nb)
        else Some (t, 0, - nb));
     let t = (if t = 0 \<and> v = 0 then
                let leftbits = left_bits (idx2bit idx) AND treemap m
                in if leftbits \<noteq> 0
                   then hp m (treebin_at m (compute_bit2idx (least_bit leftbits))) else t
              else t);
     leftmost_loop m nb t v rsize }"

definition tmalloc_large :: "u64 \<Rightarrow> mstate \<Rightarrow> (u64 \<times> mstate) option" where
  "tmalloc_large nb m = do {
     (v, rsize) \<leftarrow> tmalloc_large_search nb m;
     if v \<noteq> 0 \<and> rsize < dvsize m - nb then
       if ok_address m v then
         let r = v + nb
         in if ok_next v r then do {
              m \<leftarrow> unlink_large_chunk v m;
              m \<leftarrow> (if rsize < MIN_CHUNK_SIZE then Some (set_inuse_and_pinuse v (rsize + nb) m)
                    else insert_chunk r rsize
                           (set_size_and_pinuse_of_free_chunk r rsize
                              (set_size_and_pinuse_of_inuse_chunk v nb m)));
              Some (chunk2mem v, m) }
            else None
       else None
     else Some (0, m) }"

definition tmalloc_small_search :: "u64 \<Rightarrow> mstate \<Rightarrow> (u64 \<times> u64) option" where
  "tmalloc_small_search nb m =
     (let i = compute_bit2idx (least_bit (treemap m));
          t = hp m (treebin_at m i)
      in leftmost_loop m nb (leftmost_child m t) t (chunksize m t - nb))"

definition tmalloc_small :: "u64 \<Rightarrow> mstate \<Rightarrow> (u64 \<times> mstate) option" where
  "tmalloc_small nb m = do {
     (v, rsize) \<leftarrow> tmalloc_small_search nb m;
     if ok_address m v then
       let r = v + nb
       in if ok_next v r then do {
            m \<leftarrow> unlink_large_chunk v m;
            m \<leftarrow> (if rsize < MIN_CHUNK_SIZE then Some (set_inuse_and_pinuse v (rsize + nb) m)
                  else replace_dv r rsize
                         (set_size_and_pinuse_of_free_chunk r rsize
                            (set_size_and_pinuse_of_inuse_chunk v nb m)));
            Some (chunk2mem v, m) }
          else None
     else None }"

section \<open>Allocation\<close>

text \<open>A remainderless fit in small bin \<open>idx\<close> or the next one.\<close>

definition malloc_exact_small :: "nat \<Rightarrow> u32 \<Rightarrow> mstate \<Rightarrow> (u64 \<times> mstate) option" where
  "malloc_exact_small idx smallbits m = do {
     let idx = idx + unat (NOT smallbits AND 1);
     let b = smallbin_at m idx;
     let p = fd_of m b;
     m \<leftarrow> unlink_first_small_chunk b p idx m;
     Some (chunk2mem p, set_inuse_and_pinuse p (small_index2size idx) m) }"

text \<open>The next non-empty small bin; what is left of its chunk becomes the designated victim.\<close>

definition malloc_next_small :: "nat \<Rightarrow> u32 \<Rightarrow> u64 \<Rightarrow> mstate \<Rightarrow> (u64 \<times> mstate) option" where
  "malloc_next_small idx smallbits nb m = do {
     let leftbits = push_bit idx smallbits AND left_bits (idx2bit idx);
     let i = compute_bit2idx (least_bit leftbits);
     let b = smallbin_at m i;
     let p = fd_of m b;
     m \<leftarrow> unlink_first_small_chunk b p i m;
     let rsize = small_index2size i - nb;
     m \<leftarrow> (if SIZE_T_SIZE \<noteq> 4 \<and> rsize < MIN_CHUNK_SIZE
           then Some (set_inuse_and_pinuse p (small_index2size i) m)
           else
             let r = p + nb
             in replace_dv r rsize
                  (set_size_and_pinuse_of_free_chunk r rsize
                     (set_size_and_pinuse_of_inuse_chunk p nb m)));
     Some (chunk2mem p, m) }"

definition malloc_from_dv :: "u64 \<Rightarrow> mstate \<Rightarrow> u64 \<times> mstate" where
  "malloc_from_dv nb m =
     (let rsize = dvsize m - nb; p = dv m
      in if MIN_CHUNK_SIZE \<le> rsize then
           let r = p + nb;
               m = m\<lparr>dv := r, dvsize := rsize\<rparr>;
               m = set_size_and_pinuse_of_free_chunk r rsize m;
               m = set_size_and_pinuse_of_inuse_chunk p nb m
           in (chunk2mem p, m)
         else
           let dvs = dvsize m;
               m = m\<lparr>dvsize := 0, dv := 0\<rparr>
           in (chunk2mem p, set_inuse_and_pinuse p dvs m))"

text \<open>The end of \<open>mspace_malloc\<close>, where the bins have not served the request.\<close>

definition malloc_from_dv_or_top :: "u64 \<Rightarrow> mstate \<Rightarrow> u64 \<times> mstate" where
  "malloc_from_dv_or_top nb m =
     (if nb \<le> dvsize m then malloc_from_dv nb m
      else if nb < topsize m then split_top nb m
      else (0, m))"

definition mspace_malloc :: "u64 \<Rightarrow> mstate \<Rightarrow> (u64 \<times> mstate) option" where
  "mspace_malloc bytes m =
     (if bytes \<le> MAX_SMALL_REQUEST then
        let nb = (if bytes < MIN_REQUEST then MIN_CHUNK_SIZE else pad_request bytes);
            idx = small_index nb;
            smallbits = drop_bit idx (smallmap m)
        in if smallbits AND 3 \<noteq> 0 then malloc_exact_small idx smallbits m
           else if dvsize m < nb then
             if smallbits \<noteq> 0 then malloc_next_small idx smallbits nb m
             else if treemap m \<noteq> 0 then do {
               (mem, m) \<leftarrow> tmalloc_small nb m;
               if mem \<noteq> 0 then Some (mem, m) else Some (malloc_from_dv_or_top nb m) }
             else Some (malloc_from_dv_or_top nb m)
           else Some (malloc_from_dv_or_top nb m)
      else if MAX_REQUEST \<le> bytes then Some (malloc_from_dv_or_top MAX_SIZE_T m)
      else
        let nb = pad_request bytes
        in if treemap m \<noteq> 0 then do {
             (mem, m) \<leftarrow> tmalloc_large nb m;
             if mem \<noteq> 0 then Some (mem, m) else Some (malloc_from_dv_or_top nb m) }
           else Some (malloc_from_dv_or_top nb m))"

section \<open>Release\<close>

text \<open>The end of \<open>mspace_free\<close>: the merged chunk goes into its bin.\<close>

definition free_to_bin ::
  "'w osys \<Rightarrow> u64 \<Rightarrow> u64 \<Rightarrow> mstate \<Rightarrow> 'w \<Rightarrow> (mstate \<times> 'w) option" where
  "free_to_bin os p psize m w =
     (if is_small psize then do {
        m \<leftarrow> insert_small_chunk p psize m;
        Some (m, w) }
      else do {
        m \<leftarrow> insert_large_chunk p psize m;
        let m = m\<lparr>release_checks := release_checks m - 1\<rparr>;
        if release_checks m = 0 then do {
          (released, m, w) \<leftarrow> release_unused_segments os m w;
          Some (m, w) }
        else Some (m, w) })"

text \<open>From \<open>RTCHECK(ok_next(p, next) && ok_pinuse(next))\<close> on: merging with the next chunk.\<close>

definition free_forward ::
  "'w osys \<Rightarrow> malloc_params \<Rightarrow> u64 \<Rightarrow> u64 \<Rightarrow> u64 \<Rightarrow> mstate \<Rightarrow> 'w \<Rightarrow> (mstate \<times> 'w) option" where
  "free_forward os mp p psize nxt m w =
     (if ok_next p nxt \<and> ok_pinuse m nxt then
        if \<not> cinuse m nxt then
          if nxt = m_top m then
            let tsize = topsize m + psize;
                m = m\<lparr>topsize := tsize, m_top := p\<rparr>;
                m = set_head p (tsize OR PINUSE_BIT) m;
                m = (if p = dv m then m\<lparr>dv := 0, dvsize := 0\<rparr> else m)
            in if should_trim m tsize then do {
                 (released, m, w) \<leftarrow> sys_trim os mp 0 m w;
                 Some (m, w) }
               else Some (m, w)
          else if nxt = dv m then
            let dsize = dvsize m + psize;
                m = m\<lparr>dvsize := dsize, dv := p\<rparr>
            in Some (set_size_and_pinuse_of_free_chunk p dsize m, w)
          else do {
            let nsize = chunksize m nxt;
            let psize = psize + nsize;
            m \<leftarrow> unlink_chunk nxt nsize m;
            let m = set_size_and_pinuse_of_free_chunk p psize m;
            if p = dv m then Some (m\<lparr>dvsize := psize\<rparr>, w)
            else free_to_bin os p psize m w }
        else free_to_bin os p psize (set_free_with_pinuse p psize nxt m) w
      else None)"

text \<open>A chunk whose \<open>prev_foot\<close> has the mmapped bit is unmapped.\<close>

definition free_mmapped ::
  "'w osys \<Rightarrow> u64 \<Rightarrow> u64 \<Rightarrow> u64 \<Rightarrow> mstate \<Rightarrow> 'w \<Rightarrow> mstate \<times> 'w" where
  "free_mmapped os p prevsize psize m w =
     (let prevsize = prevsize AND NOT IS_MMAPPED_BIT;
          psize = psize + (prevsize + MMAP_FOOT_PAD)
      in (case CALL_MUNMAP os (p - prevsize) psize w of
            (ok, w) \<Rightarrow> (if ok then m\<lparr>footprint := footprint m - psize\<rparr> else m, w)))"

definition mspace_free ::
  "'w osys \<Rightarrow> malloc_params \<Rightarrow> u64 \<Rightarrow> mstate \<Rightarrow> 'w \<Rightarrow> (mstate \<times> 'w) option" where
  "mspace_free os mp mem m w =
     (if mem \<noteq> 0 then
        let p = mem2chunk mem
        in if ok_address m p \<and> ok_cinuse m p then
             let psize = chunksize m p;
                 nxt = p + psize
             in if \<not> pinuse m p then
                  let prevsize = prev_foot_of m p
                  in if prevsize AND IS_MMAPPED_BIT \<noteq> 0 then
                       Some (free_mmapped os p prevsize psize m w)
                     else
                       let prev = p - prevsize;
                           psize = psize + prevsize;
                           p = prev
                       in if ok_address m prev then
                            if p \<noteq> dv m then do {
                              m \<leftarrow> unlink_chunk p prevsize m;
                              free_forward os mp p psize nxt m w }
                            else if head_of m nxt AND INUSE_BITS = INUSE_BITS then
                              let m = m\<lparr>dvsize := psize\<rparr>
                              in Some (set_free_with_pinuse p psize nxt m, w)
                            else free_forward os mp p psize nxt m w
                          else None
                else free_forward os mp p psize nxt m w
           else None
      else Some (m, w))"

end
