(* ===== verification/Pt_Api.thy ===== *)
theory Pt_Api
  imports Pt_Malloc
begin

text \<open>
  The rest of the \<open>mspace\<close> interface of \<open>ptmalloc3-malloc.c\<close>: creating and destroying
  spaces, \<open>calloc\<close>, \<open>realloc\<close>, \<open>memalign\<close>, the independent allocations of \<open>ialloc\<close>, and the
  queries (\<open>mspace_usable_size\<close>, \<open>mspace_mallinfo\<close>, \<open>mspace_malloc_stats\<close>, footprints).
  \<open>internal_malloc\<close> and \<open>internal_free\<close> are \<open>mspace_malloc\<close> and \<open>mspace_free\<close>, because
  \<open>ONLY_MSPACES\<close> is 1; \<open>ok_magic\<close> is constantly true, because \<open>FOOTERS\<close> is 0.
\<close>

section \<open>Spaces\<close>

definition init_user_mstate :: "malloc_params \<Rightarrow> u64 \<Rightarrow> u64 \<Rightarrow> heap \<Rightarrow> mstate" where
  "init_user_mstate mp tbase tsize h =
     (let msize = pad_request SIZEOF_MALLOC_STATE;
          msp = align_as_chunk tbase;
          ma = chunk2mem msp;
          m = \<lparr>maddr = ma, smallmap = 0, treemap = 0, dvsize = 0, topsize = 0, least_addr = 0,
               dv = 0, m_top = 0, trim_check = 0, release_checks = 0, magic = 0, footprint = 0,
               max_footprint = 0, mflags = 0, extp = 0, exts = 0, hp = clear_region ma msize h\<rparr>;
          m = set_head msp (msize OR PINUSE_BIT OR CINUSE_BIT) m;
          m = set_seg_base (main_seg m) tbase (m\<lparr>least_addr := tbase\<rparr>);
          m = set_seg_size (main_seg m) tsize (m\<lparr>footprint := tsize, max_footprint := tsize\<rparr>);
          m = m\<lparr>magic := mp_magic mp, release_checks := MAX_RELEASE_CHECK_RATE,
                mflags := mp_default_mflags mp, extp := 0, exts := 0\<rparr>;
          m = disable_contiguous m;
          m = init_bins m;
          mn = next_chunk m (mem2chunk (maddr m))
      in init_top mp mn ((tbase + tsize) - mn - TOP_FOOT_SIZE) m)"

text \<open>\<open>None\<close> of the inner option is the null \<open>mspace\<close>; the heap is what is mapped so far.\<close>

definition create_mspace ::
  "build_env \<Rightarrow> 'w osys \<Rightarrow> u64 \<Rightarrow> bool \<Rightarrow> malloc_params \<Rightarrow> heap \<Rightarrow> 'w
     \<Rightarrow> (mstate option \<times> malloc_params \<times> heap \<times> 'w) option" where
  "create_mspace env os capacity locked mp0 h w = do {
     let msize = pad_request SIZEOF_MALLOC_STATE;
     mp \<leftarrow> init_mparams env mp0;
     if capacity < - (msize + TOP_FOOT_SIZE + mp_page_size mp) then
       let rs = (if capacity = 0 then mp_granularity mp else capacity + TOP_FOOT_SIZE + msize);
           tsize = granularity_align mp rs
       in (case CALL_MMAP os tsize h w of (tbase, h, w) \<Rightarrow>
             if tbase \<noteq> CMFAIL then
               let m = init_user_mstate mp tbase tsize h;
                   m = set_seg_sflags (main_seg m) SEG_MMAPPED m;
                   m = set_lock locked m
               in Some (Some m, mp, hp m, w)
             else Some (None, mp, h, w))
     else Some (None, mp, h, w) }"

definition create_mspace_with_base ::
  "build_env \<Rightarrow> u64 \<Rightarrow> u64 \<Rightarrow> bool \<Rightarrow> malloc_params \<Rightarrow> heap
     \<Rightarrow> (mstate option \<times> malloc_params) option" where
  "create_mspace_with_base env base capacity locked mp0 h = do {
     let msize = pad_request SIZEOF_MALLOC_STATE;
     mp \<leftarrow> init_mparams env mp0;
     if msize + TOP_FOOT_SIZE < capacity \<and> capacity < - (msize + TOP_FOOT_SIZE + mp_page_size mp)
     then
       let m = init_user_mstate mp base capacity h;
           m = set_seg_sflags (main_seg m) EXTERN_BIT m;
           m = set_lock locked m
       in Some (Some m, mp)
     else Some (None, mp) }"

partial_function (option) destroy_loop ::
  "'w osys \<Rightarrow> mstate \<Rightarrow> u64 \<Rightarrow> u64 \<Rightarrow> 'w \<Rightarrow> (u64 \<times> 'w) option" where
  "destroy_loop os m sp freed w =
     (if sp = 0 then Some (freed, w)
      else
        let base = seg_base m sp; size = seg_size m sp; flag = seg_sflags m sp; sp = seg_next m sp
        in if flag AND SEG_MMAPPED \<noteq> 0 \<and> flag AND EXTERN_BIT = 0 then
             (case CALL_MUNMAP os base size w of
                (ok, w) \<Rightarrow> destroy_loop os m sp (if ok then freed + size else freed) w)
           else destroy_loop os m sp freed w)"

definition destroy_mspace :: "'w osys \<Rightarrow> mstate \<Rightarrow> 'w \<Rightarrow> (u64 \<times> 'w) option" where
  "destroy_mspace os m w = destroy_loop os m (main_seg m) 0 w"

section \<open>Clearing and copying user memory\<close>

text \<open>
  \<open>memset(mem, 0, n)\<close> and \<open>memcpy(dst, src, n)\<close> on 8-byte slots from an 8-aligned address; of
  the last slot only the first \<open>n mod 8\<close> bytes change (the low ones: the machine is little-endian).
\<close>

definition merge_slot :: "nat \<Rightarrow> u64 \<Rightarrow> u64 \<Rightarrow> u64" where
  "merge_slot k new old = (if 8 \<le> k then new
     else push_bit (8 * k) (drop_bit (8 * k) old) OR take_bit (8 * k) new)"

definition memset_zero :: "u64 \<Rightarrow> u64 \<Rightarrow> mstate \<Rightarrow> mstate" where
  "memset_zero mem n m =
     m\<lparr>hp := (\<lambda>x. if x - mem < n \<and> (x - mem) AND 7 = 0
                  then merge_slot (unat (n - (x - mem))) 0 (hp m x) else hp m x)\<rparr>"

definition memcpy :: "u64 \<Rightarrow> u64 \<Rightarrow> u64 \<Rightarrow> mstate \<Rightarrow> mstate" where
  "memcpy dst src n m =
     m\<lparr>hp := (\<lambda>x. if x - dst < n \<and> (x - dst) AND 7 = 0
                  then merge_slot (unat (n - (x - dst))) (hp m (x - dst + src)) (hp m x)
                  else hp m x)\<rparr>"

section \<open>\<open>calloc\<close>\<close>

definition calloc_request :: "u64 \<Rightarrow> u64 \<Rightarrow> u64" where
  "calloc_request n_elements elem_size =
     (if n_elements \<noteq> 0 then
        let req = n_elements * elem_size
        in if (n_elements OR elem_size) AND NOT 0xffff \<noteq> 0 \<and> req div n_elements \<noteq> elem_size
           then MAX_SIZE_T else req
      else 0)"

definition mspace_calloc :: "u64 \<Rightarrow> u64 \<Rightarrow> mstate \<Rightarrow> (u64 \<times> mstate) option" where
  "mspace_calloc n_elements elem_size m = do {
     let req = calloc_request n_elements elem_size;
     (mem, m) \<leftarrow> mspace_malloc req m;
     Some (mem, if mem \<noteq> 0 \<and> calloc_must_clear m (mem2chunk mem) then memset_zero mem req m else m) }"

section \<open>\<open>realloc\<close>\<close>

text \<open>The attempt to resize in place: the chunk (0 for failure) and the remainder to free.\<close>

definition realloc_in_place ::
  "'w osys \<Rightarrow> malloc_params \<Rightarrow> u64 \<Rightarrow> u64 \<Rightarrow> mstate \<Rightarrow> 'w \<Rightarrow> u64 \<times> u64 \<times> mstate \<times> 'w" where
  "realloc_in_place os mp oldp nb m w =
     (let oldsize = chunksize m oldp; nxt = oldp + oldsize
      in if is_mmapped m oldp then
           (case mmap_resize os mp oldp nb m w of (newp, m, w) \<Rightarrow> (newp, 0, m, w))
         else if nb \<le> oldsize then
           let rsize = oldsize - nb
           in if MIN_CHUNK_SIZE \<le> rsize then
                let remainder = oldp + nb
                in (oldp, chunk2mem remainder, set_inuse remainder rsize (set_inuse oldp nb m), w)
              else (oldp, 0, m, w)
         else if nxt = m_top m \<and> nb < oldsize + topsize m then
           let newsize = oldsize + topsize m;
               newtopsize = newsize - nb;
               newtop = oldp + nb;
               m = set_inuse oldp nb m;
               m = set_head newtop (newtopsize OR PINUSE_BIT) m
           in (oldp, 0, m\<lparr>m_top := newtop, topsize := newtopsize\<rparr>, w)
         else (0, 0, m, w))"

definition internal_realloc ::
  "'w osys \<Rightarrow> malloc_params \<Rightarrow> u64 \<Rightarrow> u64 \<Rightarrow> mstate \<Rightarrow> 'w \<Rightarrow> (u64 \<times> mstate \<times> 'w) option" where
  "internal_realloc os mp oldmem bytes m w =
     (if MAX_REQUEST \<le> bytes then Some (0, m, w)
      else
        let oldp = mem2chunk oldmem; oldsize = chunksize m oldp; nxt = oldp + oldsize
        in if ok_address m oldp \<and> ok_cinuse m oldp \<and> ok_next oldp nxt \<and> ok_pinuse m nxt then
             (case realloc_in_place os mp oldp (request2size bytes) m w of (newp, extra, m, w) \<Rightarrow>
                if newp \<noteq> 0 then
                  if extra \<noteq> 0 then do {
                    (m, w) \<leftarrow> mspace_free os mp extra m w;
                    Some (chunk2mem newp, m, w) }
                  else Some (chunk2mem newp, m, w)
                else do {
                  (newmem, m) \<leftarrow> mspace_malloc bytes m;
                  if newmem \<noteq> 0 then do {
                    let oc = oldsize - overhead_for m oldp;
                    let m = memcpy newmem oldmem (if oc < bytes then oc else bytes) m;
                    (m, w) \<leftarrow> mspace_free os mp oldmem m w;
                    Some (newmem, m, w) }
                  else Some (newmem, m, w) })
           else None)"

definition mspace_realloc ::
  "'w osys \<Rightarrow> malloc_params \<Rightarrow> u64 \<Rightarrow> u64 \<Rightarrow> mstate \<Rightarrow> 'w \<Rightarrow> (u64 \<times> mstate \<times> 'w) option" where
  "mspace_realloc os mp oldmem bytes m w =
     (if oldmem = 0 then do { (mem, m) \<leftarrow> mspace_malloc bytes m; Some (mem, m, w) }
      else internal_realloc os mp oldmem bytes m w)"

section \<open>\<open>memalign\<close>\<close>

text \<open>
  The loop that rounds an alignment up to a power of two. It doubles a 64-bit word: above
  \<open>2 ^ 63\<close> it passes through 0 and does not end.
\<close>

partial_function (option) pow2_loop :: "u64 \<Rightarrow> u64 \<Rightarrow> u64 option" where
  "pow2_loop alignment a = (if a < alignment then pow2_loop alignment (push_bit 1 a) else Some a)"

definition round_alignment :: "u64 \<Rightarrow> u64 option" where
  "round_alignment alignment =
     (let alignment = (if alignment < MIN_CHUNK_SIZE then MIN_CHUNK_SIZE else alignment)
      in if alignment AND (alignment - 1) \<noteq> 0 then pow2_loop alignment (push_bit 1 MALLOC_ALIGNMENT)
         else Some alignment)"

text \<open>The aligned spot inside the chunk \<open>p\<close>, whose memory is \<open>mem\<close>.\<close>

definition aligned_spot :: "u64 \<Rightarrow> u64 \<Rightarrow> u64" where
  "aligned_spot alignment mem =
     (let p = mem2chunk mem;
          br = mem2chunk ((mem + alignment - 1) AND - alignment)
      in if MIN_CHUNK_SIZE \<le> br - p then br else br + alignment)"

text \<open>Cutting off the leading space: the aligned chunk and the memory to give back (0: none).\<close>

definition memalign_lead :: "u64 \<Rightarrow> u64 \<Rightarrow> mstate \<Rightarrow> u64 \<times> u64 \<times> mstate" where
  "memalign_lead alignment mem m =
     (let p = mem2chunk mem
      in if mem mod alignment \<noteq> 0 then
           let newp = aligned_spot alignment mem;
               leadsize = newp - p;
               newsize = chunksize m p - leadsize
           in if is_mmapped m p then
                let m = set_prev_foot newp (prev_foot_of m p + leadsize) m
                in (newp, 0, set_head newp (newsize OR CINUSE_BIT) m)
              else (newp, chunk2mem p, set_inuse p leadsize (set_inuse newp newsize m))
         else (p, 0, m))"

definition memalign_trail :: "u64 \<Rightarrow> u64 \<Rightarrow> mstate \<Rightarrow> u64 \<times> mstate" where
  "memalign_trail nb p m =
     (if \<not> is_mmapped m p then
        let size = chunksize m p
        in if nb + MIN_CHUNK_SIZE < size then
             let remainder_size = size - nb; remainder = p + nb
             in (chunk2mem remainder, set_inuse remainder remainder_size (set_inuse p nb m))
           else (0, m)
      else (0, m))"

definition internal_memalign ::
  "'w osys \<Rightarrow> malloc_params \<Rightarrow> u64 \<Rightarrow> u64 \<Rightarrow> mstate \<Rightarrow> 'w \<Rightarrow> (u64 \<times> mstate \<times> 'w) option" where
  "internal_memalign os mp alignment bytes m w =
     (if alignment \<le> MALLOC_ALIGNMENT then do { (mem, m) \<leftarrow> mspace_malloc bytes m; Some (mem, m, w) }
      else do {
        alignment \<leftarrow> round_alignment alignment;
        if MAX_REQUEST - alignment \<le> bytes then Some (0, m, w)
        else do {
          let nb = request2size bytes;
          let req = nb + alignment + MIN_CHUNK_SIZE - CHUNK_OVERHEAD;
          (mem, m) \<leftarrow> mspace_malloc req m;
          if mem \<noteq> 0 then
            (case memalign_lead alignment mem m of (p, leader, m) \<Rightarrow>
             case memalign_trail nb p m of (trailer, m) \<Rightarrow> do {
               (m, w) \<leftarrow> (if leader \<noteq> 0 then mspace_free os mp leader m w else Some (m, w));
               (m, w) \<leftarrow> (if trailer \<noteq> 0 then mspace_free os mp trailer m w else Some (m, w));
               Some (chunk2mem p, m, w) })
          else Some (0, m, w) } })"

definition mspace_memalign ::
  "'w osys \<Rightarrow> malloc_params \<Rightarrow> u64 \<Rightarrow> u64 \<Rightarrow> mstate \<Rightarrow> 'w \<Rightarrow> (u64 \<times> mstate \<times> 'w) option" where
  "mspace_memalign os mp alignment bytes m w = internal_memalign os mp alignment bytes m w"

section \<open>Independent allocations\<close>

text \<open>
  \<open>sizes\<close> is the caller's array; \<open>chunks\<close> its array for the results, 0 for none. With
  \<open>all_same\<close> (bit 0 of \<open>opts\<close>) every element has the size \<open>sizes 0\<close>.
\<close>

definition ialloc_contents :: "nat \<Rightarrow> (nat \<Rightarrow> u64) \<Rightarrow> bool \<Rightarrow> u64 \<times> u64" where
  "ialloc_contents n_elements sizes all_same =
     (if all_same then
        let element_size = request2size (sizes 0) in (element_size, of_nat n_elements * element_size)
      else (0, fold (\<lambda>i s. s + request2size (sizes i)) [0..<n_elements] 0))"

text \<open>The splitting loop, with \<open>k + 1\<close> elements to go, the next one number \<open>i\<close> at \<open>p\<close>.\<close>

fun ialloc_split ::
  "nat \<Rightarrow> (nat \<Rightarrow> u64) \<Rightarrow> u64 \<Rightarrow> u64 \<Rightarrow> nat \<Rightarrow> u64 \<Rightarrow> u64 \<Rightarrow> mstate \<Rightarrow> mstate" where
  "ialloc_split 0 sizes element_size marray i p remainder_size m =
     set_size_and_pinuse_of_inuse_chunk p remainder_size (upd (marray + 8 * of_nat i) (chunk2mem p) m)"
| "ialloc_split (Suc k) sizes element_size marray i p remainder_size m =
     (let m = upd (marray + 8 * of_nat i) (chunk2mem p) m;
          size = (if element_size \<noteq> 0 then element_size else request2size (sizes i))
      in ialloc_split k sizes element_size marray (Suc i) (p + size) (remainder_size - size)
           (set_size_and_pinuse_of_inuse_chunk p size m))"

definition ialloc ::
  "u64 \<Rightarrow> (nat \<Rightarrow> u64) \<Rightarrow> bool \<Rightarrow> bool \<Rightarrow> u64 \<Rightarrow> mstate \<Rightarrow> (u64 \<times> mstate) option" where
  "ialloc n_elements sizes all_same clear chunks m =
     (if n_elements = 0 then (if chunks \<noteq> 0 then Some (chunks, m) else mspace_malloc 0 m)
      else
        let array_size = (if chunks \<noteq> 0 then 0 else request2size (n_elements * 8));
            (element_size, contents_size) = ialloc_contents (unat n_elements) sizes all_same;
            size = contents_size + array_size;
            was_enabled = use_mmap m
        in do {
          (mem, m) \<leftarrow> mspace_malloc (size - CHUNK_OVERHEAD) (disable_mmap m);
          let m = (if was_enabled then enable_mmap m else m);
          if mem = 0 then Some (0, m)
          else
            let p = mem2chunk mem;
                remainder_size = chunksize m p;
                m = (if clear then memset_zero mem (remainder_size - SIZE_T_SIZE - array_size) m else m);
                (marray, remainder_size, m) =
                  (if chunks = 0 then
                     let array_chunk = p + contents_size
                     in (chunk2mem array_chunk, contents_size,
                         set_size_and_pinuse_of_inuse_chunk array_chunk (remainder_size - contents_size) m)
                   else (chunks, remainder_size, m))
            in Some (marray, ialloc_split (unat n_elements - 1) sizes element_size marray 0 p
                               remainder_size m) })"

definition mspace_independent_calloc :: "u64 \<Rightarrow> u64 \<Rightarrow> u64 \<Rightarrow> mstate \<Rightarrow> (u64 \<times> mstate) option" where
  "mspace_independent_calloc n_elements elem_size chunks m =
     ialloc n_elements (\<lambda>_. elem_size) True True chunks m"

definition mspace_independent_comalloc ::
  "u64 \<Rightarrow> (nat \<Rightarrow> u64) \<Rightarrow> u64 \<Rightarrow> mstate \<Rightarrow> (u64 \<times> mstate) option" where
  "mspace_independent_comalloc n_elements sizes chunks m = ialloc n_elements sizes False False chunks m"

section \<open>Queries\<close>

definition mspace_trim ::
  "'w osys \<Rightarrow> malloc_params \<Rightarrow> u64 \<Rightarrow> mstate \<Rightarrow> 'w \<Rightarrow> (bool \<times> mstate \<times> 'w) option" where
  "mspace_trim os mp pad m w = sys_trim os mp pad m w"

definition mspace_footprint :: "mstate \<Rightarrow> u64" where "mspace_footprint m = footprint m"
definition mspace_max_footprint :: "mstate \<Rightarrow> u64" where "mspace_max_footprint m = max_footprint m"

definition mspace_usable_size :: "u64 \<Rightarrow> mstate \<Rightarrow> u64" where
  "mspace_usable_size mem m =
     (if mem \<noteq> 0 then
        let p = mem2chunk mem
        in if cinuse m p then chunksize m p - overhead_for m p else 0
      else 0)"

definition mspace_mallopt ::
  "build_env \<Rightarrow> int \<Rightarrow> 32 word \<Rightarrow> malloc_params \<Rightarrow> (bool \<times> malloc_params) option" where
  "mspace_mallopt env param_number val mp = change_mparam env param_number val mp"

definition mspace_get_top_chunk_extent :: "mstate \<Rightarrow> u64 \<times> u64" where
  "mspace_get_top_chunk_extent m = (m_top m, topsize m)"

record mallinfo =
  arena :: u64
  ordblks :: u64
  smblks :: u64
  hblks :: u64
  hblkhd :: u64
  usmblks :: u64
  fsmblks :: u64
  uordblks :: u64
  fordblks :: u64
  keepcost :: u64

text \<open>The walk over the chunks of a segment, and over the segments, of the two statistics.\<close>

partial_function (option) mallinfo_chunks ::
  "mstate \<Rightarrow> u64 \<Rightarrow> u64 \<Rightarrow> u64 \<times> u64 \<times> u64 \<Rightarrow> (u64 \<times> u64 \<times> u64) option" where
  "mallinfo_chunks m s q acc =
     (if segment_holds m s q \<and> q \<noteq> m_top m \<and> head_of m q \<noteq> FENCEPOST_HEAD then
        (case acc of (nfree, mfree, ar) \<Rightarrow>
           let sz = chunksize m q; ar = ar + sz
           in mallinfo_chunks m s (next_chunk m q)
                (if \<not> cinuse m q then (nfree + 1, mfree + sz, ar) else (nfree, mfree, ar)))
      else Some acc)"

partial_function (option) mallinfo_segments ::
  "mstate \<Rightarrow> u64 \<Rightarrow> u64 \<times> u64 \<times> u64 \<Rightarrow> (u64 \<times> u64 \<times> u64) option" where
  "mallinfo_segments m s acc =
     (if s \<noteq> 0 then
        Option.bind (mallinfo_chunks m s (align_as_chunk (seg_base m s)) acc)
          (\<lambda>acc. mallinfo_segments m (seg_next m s) acc)
      else Some acc)"

definition internal_mallinfo :: "mstate \<Rightarrow> mallinfo option" where
  "internal_mallinfo m =
     (let nm = \<lparr>arena = 0, ordblks = 0, smblks = 0, hblks = 0, hblkhd = 0, usmblks = 0,
                fsmblks = 0, uordblks = 0, fordblks = 0, keepcost = 0\<rparr>
      in if is_initialized m then do {
           let mfree = topsize m + TOP_FOOT_SIZE;
           (nfree, mfree, ar) \<leftarrow> mallinfo_segments m (main_seg m) (1, mfree, mfree);
           Some (nm\<lparr>arena := ar, ordblks := nfree, hblkhd := footprint m - ar,
                    usmblks := max_footprint m, uordblks := footprint m - mfree,
                    fordblks := mfree, keepcost := topsize m\<rparr>) }
         else Some nm)"

definition mspace_mallinfo :: "mstate \<Rightarrow> mallinfo option" where
  "mspace_mallinfo m = internal_mallinfo m"

partial_function (option) stats_chunks :: "mstate \<Rightarrow> u64 \<Rightarrow> u64 \<Rightarrow> u64 \<Rightarrow> u64 option" where
  "stats_chunks m s q used =
     (if segment_holds m s q \<and> q \<noteq> m_top m \<and> head_of m q \<noteq> FENCEPOST_HEAD then
        stats_chunks m s (next_chunk m q) (if \<not> cinuse m q then used - chunksize m q else used)
      else Some used)"

partial_function (option) stats_segments :: "mstate \<Rightarrow> u64 \<Rightarrow> u64 \<Rightarrow> u64 option" where
  "stats_segments m s used =
     (if s \<noteq> 0 then
        Option.bind (stats_chunks m s (align_as_chunk (seg_base m s)) used)
          (\<lambda>used. stats_segments m (seg_next m s) used)
      else Some used)"

text \<open>The three numbers \<open>internal_malloc_stats\<close> prints: \<open>maxfp\<close>, \<open>fp\<close> and \<open>used\<close>.\<close>

definition internal_malloc_stats :: "mstate \<Rightarrow> (u64 \<times> u64 \<times> u64) option" where
  "internal_malloc_stats m =
     (if is_initialized m then do {
        used \<leftarrow> stats_segments m (main_seg m) (footprint m - (topsize m + TOP_FOOT_SIZE));
        Some (max_footprint m, footprint m, used) }
      else Some (0, 0, 0))"

definition mspace_malloc_stats :: "mstate \<Rightarrow> (u64 \<times> u64 \<times> u64) option" where
  "mspace_malloc_stats m = internal_malloc_stats m"

end
