(* ===== verification/Numa_Mmap.thy ===== *)
theory Numa_Mmap
  imports Pt_Api
begin

text \<open>
  \<open>src/src/msource/mmaphelper.cpp\<close>: anonymous mappings bound to a NUMA node, and the queries and
  moves of pages. The system calls \<open>mbind\<close>, \<open>move_pages\<close> and \<open>madvise\<close> are parameters, beside
  \<open>mmap\<close>, \<open>munmap\<close> and \<open>mremap\<close>. None of them changes what memory holds.
\<close>

record 'w nsys = "'w osys" +
  os_mbind :: "u64 \<Rightarrow> u64 \<Rightarrow> u64 list \<Rightarrow> 'w \<Rightarrow> int \<times> 'w"
  os_move_pages :: "u64 list \<Rightarrow> int list option \<Rightarrow> 'w \<Rightarrow> (int \<times> int list) \<times> 'w"
  os_madvise :: "u64 \<Rightarrow> u64 \<Rightarrow> 'w \<Rightarrow> 'w"

abbreviation base_sys :: "'w nsys \<Rightarrow> 'w osys" where "base_sys os \<equiv> osys.truncate os"

section \<open>Mapping and binding\<close>

text \<open>
  The node mask of \<open>bindMemory\<close>: 1024 bits in 16 words, one bit set. A node beyond the mask
  fails an assertion.
\<close>

definition NODE_MASK_MAX :: nat where "NODE_MASK_MAX = 1024"
definition ITEM_SIZE :: nat where "ITEM_SIZE = 64"

definition node_mask :: "nat \<Rightarrow> u64 list" where
  "node_mask node =
     (let nodemask = replicate (NODE_MASK_MAX div ITEM_SIZE) 0
      in nodemask[node div ITEM_SIZE :=
                    nodemask ! (node div ITEM_SIZE) OR push_bit (node mod ITEM_SIZE) 1])"

definition bindMemory :: "'w nsys \<Rightarrow> u64 \<Rightarrow> u64 \<Rightarrow> int \<Rightarrow> 'w \<Rightarrow> (int \<times> 'w) option" where
  "bindMemory os p sz node w =
     (if node < int NODE_MASK_MAX then Some (os_mbind os p sz (node_mask (nat node)) w) else None)"

definition callMmap :: "'w nsys \<Rightarrow> u64 \<Rightarrow> int \<Rightarrow> heap \<Rightarrow> 'w \<Rightarrow> (u64 \<times> heap \<times> 'w) option" where
  "callMmap os sz node h w =
     (case CALL_MMAP (base_sys os) sz h w of (a, h, w) \<Rightarrow>
        if a = CMFAIL then Some (0, h, w)
        else if 0 \<le> node then do { (ret, w) \<leftarrow> bindMemory os a sz node w; Some (a, h, w) }
        else Some (a, h, w))"

section \<open>Pages\<close>

definition PAGE_MASK :: u64 where "PAGE_MASK = NOT 0xFFF"

definition align_page :: "u64 \<Rightarrow> u64" where "align_page ptr = ptr AND PAGE_MASK"

text \<open>The page loops: up to \<open>en\<close> exclusively, and inclusively.\<close>

partial_function (option) pages_below :: "u64 \<Rightarrow> u64 \<Rightarrow> u64 list option" where
  "pages_below p en =
     (if p < en then Option.bind (pages_below (p + 4096) en) (\<lambda>ps. Some (p # ps)) else Some [])"

partial_function (option) pages_upto :: "u64 \<Rightarrow> u64 \<Rightarrow> u64 list option" where
  "pages_upto p en =
     (if p \<le> en then Option.bind (pages_upto (p + 4096) en) (\<lambda>ps. Some (p # ps)) else Some [])"

definition getNumaNodeForMemory :: "'w nsys \<Rightarrow> u64 \<Rightarrow> 'w \<Rightarrow> int \<times> 'w" where
  "getNumaNodeForMemory os ptr w =
     (case os_move_pages os [align_page ptr] None w of
        ((result, status), w) \<Rightarrow> (if result \<noteq> 0 then - 1 else status ! 0, w))"

definition getNumaNodeForMemory_n :: "'w nsys \<Rightarrow> u64 list \<Rightarrow> 'w \<Rightarrow> (int \<times> int list) \<times> 'w" where
  "getNumaNodeForMemory_n os ptrs w = os_move_pages os (map align_page ptrs) None w"

text \<open>
  The page vector of \<open>moveMemory\<close>: it is constructed with \<open>sz / 4096 + 1\<close> null pointers, and the
  pages are appended to them.
\<close>

definition move_page_vector :: "u64 \<Rightarrow> u64 \<Rightarrow> u64 list option" where
  "move_page_vector p sz = do {
     let pages = replicate (unat (sz div 4096) + 1) 0;
     more \<leftarrow> pages_below (align_page p) (p + sz);
     Some (pages @ more) }"

definition moveMemory :: "'w nsys \<Rightarrow> u64 \<Rightarrow> u64 \<Rightarrow> int \<Rightarrow> 'w \<Rightarrow> (int \<times> 'w) option" where
  "moveMemory os p sz node w = do {
     pages \<leftarrow> move_page_vector p sz;
     (case os_move_pages os pages (Some (replicate (length pages) node)) w of
        ((ret, status), w) \<Rightarrow> Some (ret, w)) }"

text \<open>The offsets \<open>touchMemory\<close> reads and writes back.\<close>

partial_function (option) touch_offsets :: "u64 \<Rightarrow> u64 \<Rightarrow> u64 list option" where
  "touch_offsets ofs sz =
     (if ofs < sz then Option.bind (touch_offsets (ofs + 4096) sz) (\<lambda>os. Some (ofs # os)) else Some [])"

definition touchMemory :: "u64 \<Rightarrow> u64 \<Rightarrow> heap \<Rightarrow> heap option" where
  "touchMemory p sz h = do {
     ofs \<leftarrow> touch_offsets 0 sz;
     Some (fold (\<lambda>k h. h(p + k := h (p + k))) ofs h) }"

definition getNumaNodesForRange :: "'w nsys \<Rightarrow> u64 \<Rightarrow> u64 \<Rightarrow> 'w \<Rightarrow> (int list \<times> 'w) option" where
  "getNumaNodesForRange os ptr sz w = do {
     pages \<leftarrow> pages_upto (align_page ptr) (align_page (ptr + sz));
     (case getNumaNodeForMemory_n os pages w of
        ((r, status), w) \<Rightarrow> Some (if r \<noteq> 0 then replicate (length pages) (- 1) else status, w)) }"

section \<open>\<open>MmapAllocator\<close>\<close>

text \<open>The allocator for \<open>T\<close> objects of \<open>szT\<close> bytes; \<open>deallocate\<close> passes the count as the length.\<close>

definition mmap_allocate :: "'w nsys \<Rightarrow> u64 \<Rightarrow> int \<Rightarrow> u64 \<Rightarrow> heap \<Rightarrow> 'w \<Rightarrow> (u64 \<times> heap \<times> 'w) option" where
  "mmap_allocate os szT node n h w = callMmap os (szT * n) node h w"

definition mmap_deallocate :: "'w nsys \<Rightarrow> u64 \<Rightarrow> u64 \<Rightarrow> 'w \<Rightarrow> bool \<times> 'w" where
  "mmap_deallocate os p n w = CALL_MUNMAP (base_sys os) p n w"

section \<open>Properties\<close>

lemma nth_node_mask: "node < 1024 \<Longrightarrow> i < 16 \<Longrightarrow>
    node_mask node ! i = (if i = node div 64 then push_bit (node mod 64) 1 else 0)"
  by (simp add: node_mask_def NODE_MASK_MAX_def ITEM_SIZE_def Let_def nth_list_update)

lemma div_mod_64: "(k::nat) = 64 * (k div 64) + k mod 64"
  by simp

definition mask_has :: "u64 list \<Rightarrow> nat \<Rightarrow> bool" where
  "mask_has ns k \<longleftrightarrow> bit (ns ! (k div 64)) (k mod 64)"

lemma mask_has_node_mask:
  assumes "node < 1024" "k < 1024"
  shows "mask_has (node_mask node) k \<longleftrightarrow> k = node"
proof -
  have "k div 64 < 16" using assms(2) by (simp add: less_mult_imp_div_less)
  then have "mask_has (node_mask node) k \<longleftrightarrow> k div 64 = node div 64 \<and> k mod 64 = node mod 64"
  proof -
    have "k mod 64 < 64" "node mod 64 < 64" by simp_all
    then have "bit (push_bit (node mod 64) (1::u64)) (k mod 64) \<longleftrightarrow> k mod 64 = node mod 64"
      by (auto simp: bit_push_bit_iff bit_1_iff simp del: push_bit_of_1)
    then show ?thesis using \<open>k div 64 < 16\<close> assms(1) by (simp add: mask_has_def nth_node_mask del: push_bit_of_1)
  qed
  also have "\<dots> \<longleftrightarrow> k = node" using div_mod_64 [of k] div_mod_64 [of node] by metis
  finally show ?thesis .
qed

text \<open>
  \<open>bindMemory\<close> asks the kernel for exactly the given node: for every node the mask can
  hold, the bit of that node is set in the mask passed to \<open>mbind\<close> and no other one.
\<close>

theorem bindMemory_exact_node:
  assumes "0 \<le> node" "node < 1024"
  shows "\<exists>ns. bindMemory os p sz node w = Some (os_mbind os p sz ns w) \<and> length ns = 16
    \<and> {k. k < 1024 \<and> mask_has ns k} = {nat node}"
proof -
  have "length (node_mask (nat node)) = 16"
    by (simp add: node_mask_def NODE_MASK_MAX_def ITEM_SIZE_def Let_def)
  moreover have "{k. k < 1024 \<and> mask_has (node_mask (nat node)) k} = {nat node}"
    using mask_has_node_mask [of "nat node"] assms by auto
  moreover have "bindMemory os p sz node w = Some (os_mbind os p sz (node_mask (nat node)) w)"
    using assms by (simp add: bindMemory_def NODE_MASK_MAX_def)
  ultimately show ?thesis by blast
qed

definition quiet_sys :: "nat nsys" where
  "quiet_sys = \<lparr>os_mmap = \<lambda>s w. (CMFAIL, Suc w), os_munmap = \<lambda>a s w. (True, Suc w),
     os_mremap = \<lambda>a osz nsz mv w. (CMFAIL, Suc w), os_mbind = \<lambda>p s ns w. (0, Suc w),
     os_move_pages = \<lambda>ps d w. ((0, map (\<lambda>_. 0) ps), Suc w), os_madvise = \<lambda>a s w. Suc w\<rparr>"

theorem bindMemory_exact_node_wit:
  "\<exists>ns. bindMemory quiet_sys 0x10000 4096 70 0 = Some (os_mbind quiet_sys 0x10000 4096 ns 0)
    \<and> length ns = 16 \<and> {k. k < 1024 \<and> mask_has ns k} = {nat 70}"
  by (rule bindMemory_exact_node) simp_all

text \<open>Closed forms of the page loops, where the end is not at the end of the address space.\<close>

lemma pages_below_closed:
  assumes "unat p + 4096 * n < 2 ^ 64" "unat en \<le> unat p + 4096 * n" "n = 0 \<or> unat p + 4096 * (n - 1) < unat en"
  shows "pages_below p en = Some (map (\<lambda>i. p + 4096 * of_nat i) [0..<n])"
  using assms
proof (induction n arbitrary: p)
  case 0
  then have "\<not> p < en" by (simp add: word_less_nat_alt)
  then show ?case by (subst pages_below.simps) simp
next
  case (Suc n)
  have u: "unat (p + 4096) = unat p + 4096" using Suc.prems(1) by (subst unat_plus_if') auto
  have "p < en" using Suc.prems(3) by (simp add: word_less_nat_alt)
  moreover have "pages_below (p + 4096) en = Some (map (\<lambda>i. p + 4096 + 4096 * of_nat i) [0..<n])"
    by (rule Suc.IH) (use Suc.prems u in \<open>auto simp: gr0_conv_Suc\<close>)
  moreover have "[0..<Suc n] = 0 # map Suc [0..<n]" by (simp only: upt_conv_Cons map_Suc_upt zero_less_Suc)
  ultimately show ?case
    by (subst pages_below.simps) (simp add: algebra_simps o_def)
qed

definition page_count :: "u64 \<Rightarrow> u64 \<Rightarrow> nat" where
  "page_count p sz = (unat p mod 4096 + unat sz + 4095) div 4096"

lemma unat_align_page: "unat (align_page p) = 4096 * (unat p div 4096)"
proof -
  have "align_page p = push_bit 12 (drop_bit 12 p)"
    unfolding align_page_def PAGE_MASK_def
  proof (rule bit_word_eqI)
    fix n assume n: "n < LENGTH(64)"
    have m: "(0xFFF::u64) = mask 12" by (simp add: mask_eq_exp_minus_1)
    show "bit (p AND NOT 0xFFF) n = bit (push_bit 12 (drop_bit 12 p)) n"
      using n unfolding m by (auto simp: bit_simps)
  qed
  also have "push_bit 12 (drop_bit 12 p) = 4096 * (p div 4096)"
    by (simp add: push_bit_eq_mult drop_bit_eq_div)
  also have "unat \<dots> = 4096 * (unat p div 4096)"
  proof -
    have "4096 * (unat p div 4096) \<le> unat p" by simp
    also have "\<dots> < 2 ^ 64" using unsigned_less [of p] by simp
    finally show ?thesis by (simp add: unat_word_ariths unat_div)
  qed
  finally show ?thesis .
qed

lemma pages_below_range:
  assumes h: "unat p + unat sz + 4096 < 2 ^ 64" "sz \<noteq> 0"
  shows "pages_below (align_page p) (p + sz)
    = Some (map (\<lambda>i. align_page p + 4096 * of_nat i) [0..<page_count p sz])"
proof -
  have e: "unat (p + sz) = unat p + unat sz" using h(1) by (intro unat_add64) simp
  have p: "unat p = 4096 * (unat p div 4096) + unat p mod 4096" by simp
  have s: "0 < unat sz" using h(2) by (simp add: unat_gt_0)
  have c: "unat p mod 4096 + unat sz \<le> 4096 * page_count p sz"
    "4096 * (page_count p sz - 1) < unat p mod 4096 + unat sz" "page_count p sz \<noteq> 0"
    "4096 * page_count p sz \<le> unat p mod 4096 + unat sz + 4095"
    using s unfolding page_count_def by linarith+
  show ?thesis
    by (rule pages_below_closed) (use c p h(1) in \<open>simp_all only: e unat_align_page\<close>, linarith+)
qed

text \<open>
  \<open>moveMemory\<close> does not pass the pages of the region alone to \<open>move_pages\<close>: the vector starts
  with \<open>sz / 4096 + 1\<close> null pointers, because its constructor is given a size and not a capacity,
  and only then come the pages that overlap the region, each once.
\<close>

theorem moveMemory_null_pages:
  assumes "unat p + unat sz + 4096 < 2 ^ 64" "sz \<noteq> 0"
  shows "move_page_vector p sz = Some (replicate (unat (sz div 4096) + 1) 0
    @ map (\<lambda>i. align_page p + 4096 * of_nat i) [0..<page_count p sz])"
  by (simp add: move_page_vector_def pages_below_range [OF assms] Let_def)

theorem moveMemory_null_pages_wit:
  "move_page_vector 0x10800 4096 = Some (replicate (unat ((4096::u64) div 4096) + 1) 0
    @ map (\<lambda>i. align_page 0x10800 + 4096 * of_nat i) [0..<page_count 0x10800 4096])"
  by (rule moveMemory_null_pages) simp_all

end
