(* ===== verification/Msource.thy ===== *)
theory Msource
  imports Numa_Mmap
begin

text \<open>
  \<open>src/src/msource/msource.cpp\<close>: memory sources. A source owns arenas, each with a malloc space
  (\<open>mspace\<close>) in memory of its node, and a list of blocks that were mapped directly; a footer
  in front of every block tells which source and arena it came from. \<open>MemSource\<close> objects are
  counted references to a source, which is destroyed when the last reference and the last
  block are gone.

  All memory is one heap. The members of \<open>Arena\<close> and \<open>MemSourceImpl\<close> are records, under the
  address of the object; block footers and the list of mapped blocks are in the heap. The
  spin locks of this file guard whole operations and are left out: the model is of one
  thread at a time. A failed \<open>assert\<close> and a dereferenced null pointer are \<open>None\<close>.
\<close>

section \<open>Alignment and footers\<close>

definition MEM_PAGE_SIZE :: u64 where "MEM_PAGE_SIZE = 4096"

definition ALIGN_MASK :: "u64 \<Rightarrow> u64" where "ALIGN_MASK s = s - 1"
definition ALIGN_UP :: "u64 \<Rightarrow> u64 \<Rightarrow> u64" where
  "ALIGN_UP p s = (p + ALIGN_MASK s) AND NOT (ALIGN_MASK s)"
definition ALIGN_DOWN :: "u64 \<Rightarrow> u64 \<Rightarrow> u64" where "ALIGN_DOWN p s = p AND NOT (ALIGN_MASK s)"
definition IS_ALIGNED :: "u64 \<Rightarrow> u64 \<Rightarrow> bool" where "IS_ALIGNED p s \<longleftrightarrow> p AND ALIGN_MASK s = 0"

text \<open>
  \<open>ChunkFooter\<close>: \<open>source\<close> at 0 and the union \<open>arena\<close>/\<open>link\<close> at 8. \<open>MmapChunkFooter\<close>: \<open>size\<close>, \<open>prev\<close>,
  \<open>next\<close> and the footer at 0, 8, 16 and 24.
\<close>

definition SIZEOF_CHUNK_FOOTER :: u64 where "SIZEOF_CHUNK_FOOTER = 16"
definition footer_offset :: u64 where "footer_offset = ALIGN_UP SIZEOF_CHUNK_FOOTER 16"
definition mmap_footer_offset :: u64 where "mmap_footer_offset = 24 + SIZEOF_CHUNK_FOOTER"

abbreviation (input) ft_source :: "heap \<Rightarrow> u64 \<Rightarrow> u64" where "ft_source h f \<equiv> h f"
abbreviation (input) ft_arena :: "heap \<Rightarrow> u64 \<Rightarrow> u64" where "ft_arena h f \<equiv> h (f + 8)"
abbreviation (input) ft_link :: "heap \<Rightarrow> u64 \<Rightarrow> u64" where "ft_link h f \<equiv> h (f + 8)"
abbreviation (input) mch_size :: "heap \<Rightarrow> u64 \<Rightarrow> u64" where "mch_size h c \<equiv> h c"
abbreviation (input) mch_prev :: "heap \<Rightarrow> u64 \<Rightarrow> u64" where "mch_prev h c \<equiv> h (c + 8)"
abbreviation (input) mch_next :: "heap \<Rightarrow> u64 \<Rightarrow> u64" where "mch_next h c \<equiv> h (c + 16)"

definition footer_of :: "u64 \<Rightarrow> u64" where "footer_of p = p - footer_offset"
definition footer_data :: "u64 \<Rightarrow> u64" where "footer_data f = f + footer_offset"
definition mmap_footer_of :: "u64 \<Rightarrow> u64" where "mmap_footer_of p = p - mmap_footer_offset"
definition mmap_footer_data :: "u64 \<Rightarrow> u64" where "mmap_footer_data c = c + mmap_footer_offset"

section \<open>The counter of blocks and references\<close>

text \<open>One 64-bit word: the number of blocks in the low 40 bits, the references above.\<close>

definition BlockBits :: nat where "BlockBits = 40"
definition BlockMask :: u64 where "BlockMask = push_bit BlockBits 1 - 1"

definition bc_blocks :: "u64 \<Rightarrow> u64" where "bc_blocks v = v AND BlockMask"
definition bc_refs :: "u64 \<Rightarrow> u64" where "bc_refs v = drop_bit BlockBits v"
definition isLastDeref :: "u64 \<Rightarrow> u64 \<Rightarrow> bool \<times> u64" where "isLastDeref delta v = (v = delta, v - delta)"
definition bc_ref :: "u64 \<Rightarrow> u64" where "bc_ref v = v + push_bit BlockBits 1"
definition bc_deref :: "u64 \<Rightarrow> bool \<times> u64" where "bc_deref v = isLastDeref (push_bit BlockBits 1) v"
definition bc_addBlock :: "u64 \<Rightarrow> u64" where "bc_addBlock v = v + 1"
definition bc_removeBlock :: "u64 \<Rightarrow> bool \<times> u64" where "bc_removeBlock v = isLastDeref 1 v"

section \<open>Arenas and sources\<close>

definition SIZEOF_ARENA :: u64 where "SIZEOF_ARENA = 80"
definition SIZEOF_MSOURCE :: u64 where "SIZEOF_MSOURCE = 216"
definition NAME_LENGTH :: nat where "NAME_LENGTH = 128"

text \<open>
  \<open>ar_msp\<close> is the malloc space; the heap inside it is not used, the common heap is put there for
  each call. \<open>ms_arenas\<close> is the list from \<open>active_arena\<close> along \<open>next\<close>.
\<close>

record arena_rec =
  ar_addr :: u64
  ar_msource :: u64
  ar_size :: u64
  ar_alloc_end :: u64
  ar_native :: bool
  ar_base :: u64
  ar_msp :: mstate

record msource_rec =
  ms_description :: string
  ms_node :: int
  ms_node_home :: int
  ms_mmap_threshold :: u64
  ms_mem_size :: u64
  ms_arenas :: "arena_rec list"
  ms_native_arena :: u64
  ms_mmapped_head :: u64
  ms_blocks :: u64

record 'w numa_state =
  ns_mem :: heap
  ns_sources :: "u64 \<Rightarrow> msource_rec option"
  ns_all :: "u64 list"
  ns_params :: malloc_params
  ns_world :: 'w

definition map_pages :: "'w nsys \<Rightarrow> u64 \<Rightarrow> int \<Rightarrow> 'w numa_state \<Rightarrow> (u64 \<times> 'w numa_state) option" where
  "map_pages os sz node st = do {
     (a, h, w) \<leftarrow> callMmap os sz node (ns_mem st) (ns_world st);
     Some (a, st\<lparr>ns_mem := h, ns_world := w\<rparr>) }"

definition unmap_pages :: "'w nsys \<Rightarrow> u64 \<Rightarrow> u64 \<Rightarrow> 'w numa_state \<Rightarrow> 'w numa_state" where
  "unmap_pages os a s st = (case os_munmap os a s (ns_world st) of (ok, w) \<Rightarrow> st\<lparr>ns_world := w\<rparr>)"

text \<open>
  The constructor of \<open>Arena\<close>. A failed mapping, or a space too small for an \<open>mspace\<close>, leaves a
  null pointer that the arena's first use dereferences.
\<close>

definition arena_new ::
  "build_env \<Rightarrow> 'w nsys \<Rightarrow> u64 \<Rightarrow> u64 \<Rightarrow> u64 \<Rightarrow> int \<Rightarrow> 'w numa_state \<Rightarrow> (arena_rec \<times> 'w numa_state) option" where
  "arena_new env os this ms sz dst_node st = do {
     (base, size, native, st) \<leftarrow>
       (if dst_node < 0 then
          let base = ALIGN_UP (this + SIZEOF_ARENA) 64
          in Some (base, (this + sz) - base, True, st)
        else do { (base, st) \<leftarrow> map_pages os sz dst_node st; Some (base, sz, False, st) });
     if base = 0 then None
     else do {
       (msp, mp) \<leftarrow> create_mspace_with_base env base size False (ns_params st) (ns_mem st);
       msp \<leftarrow> msp;
       Some (\<lparr>ar_addr = this, ar_msource = ms, ar_size = size, ar_alloc_end = MEM_PAGE_SIZE,
              ar_native = native, ar_base = base, ar_msp = msp\<rparr>,
             st\<lparr>ns_params := mp, ns_mem := hp msp\<rparr>) } }"

definition arena_delete :: "'w nsys \<Rightarrow> arena_rec \<Rightarrow> 'w numa_state \<Rightarrow> 'w numa_state option" where
  "arena_delete os ar st = do {
     (freed, w) \<leftarrow> destroy_mspace (base_sys os) ((ar_msp ar)\<lparr>hp := ns_mem st\<rparr>) (ns_world st);
     let st = st\<lparr>ns_world := w\<rparr>;
     Some (if \<not> ar_native ar then unmap_pages os (ar_base ar) (ar_size ar) st else st) }"

definition arena_alloc :: "u64 \<Rightarrow> arena_rec \<Rightarrow> heap \<Rightarrow> (u64 \<times> arena_rec \<times> heap) option" where
  "arena_alloc sz ar h = do {
     let alloc_size = sz + footer_offset;
     (chunk, m) \<leftarrow> mspace_malloc alloc_size ((ar_msp ar)\<lparr>hp := h\<rparr>);
     if chunk \<noteq> 0 then
       let rel_chunk_start = chunk - ar_addr ar;
           current_end = rel_chunk_start + sz;
           ar = ar\<lparr>ar_alloc_end := (if ar_alloc_end ar < current_end then current_end else ar_alloc_end ar),
                   ar_msp := m\<rparr>
       in Some (chunk, ar, (hp m)(chunk := ar_msource ar, chunk + 8 := ar_addr ar))
     else Some (0, ar\<lparr>ar_msp := m\<rparr>, hp m) }"

definition arena_free ::
  "'w nsys \<Rightarrow> u64 \<Rightarrow> arena_rec \<Rightarrow> 'w numa_state \<Rightarrow> (arena_rec \<times> 'w numa_state) option" where
  "arena_free os ch ar st = do {
     (m, w) \<leftarrow> mspace_free (base_sys os) (ns_params st) ch ((ar_msp ar)\<lparr>hp := ns_mem st\<rparr>) (ns_world st);
     Some (ar\<lparr>ar_msp := m\<rparr>, st\<lparr>ns_mem := hp m, ns_world := w\<rparr>) }"

definition arena_prefault :: "u64 \<Rightarrow> arena_rec \<Rightarrow> heap \<Rightarrow> (u64 \<times> heap) option" where
  "arena_prefault bytes ar h = do {
     let mx = min bytes (ar_size ar);
     h \<leftarrow> touchMemory (ar_base ar) mx h;
     Some (mx, h) }"

section \<open>Sources\<close>

definition the_source :: "u64 \<Rightarrow> 'w numa_state \<Rightarrow> msource_rec option" where
  "the_source a st = ns_sources st a"

definition put_source :: "u64 \<Rightarrow> msource_rec \<Rightarrow> 'w numa_state \<Rightarrow> 'w numa_state" where
  "put_source a ms st = st\<lparr>ns_sources := (ns_sources st)(a \<mapsto> ms)\<rparr>"

definition on_blocks :: "u64 \<Rightarrow> (u64 \<Rightarrow> u64) \<Rightarrow> 'w numa_state \<Rightarrow> 'w numa_state option" where
  "on_blocks a f st = do {
     ms \<leftarrow> the_source a st;
     Some (put_source a (ms\<lparr>ms_blocks := f (ms_blocks ms)\<rparr>) st) }"

definition add_msource :: "u64 \<Rightarrow> 'w numa_state \<Rightarrow> 'w numa_state" where
  "add_msource ms st = st\<lparr>ns_all := ns_all st @ [ms]\<rparr>"

definition remove_msource :: "u64 \<Rightarrow> 'w numa_state \<Rightarrow> 'w numa_state" where
  "remove_msource ms st = st\<lparr>ns_all := map (\<lambda>x. if x = ms then 0 else x) (ns_all st)\<rparr>"

definition msource_new ::
  "build_env \<Rightarrow> 'w nsys \<Rightarrow> u64 \<Rightarrow> int \<Rightarrow> u64 \<Rightarrow> string \<Rightarrow> int \<Rightarrow> 'w numa_state \<Rightarrow> 'w numa_state option" where
  "msource_new env os this n sz str home st = do {
     let arena_start = ALIGN_UP (this + SIZEOF_MSOURCE) 64;
     let arena_size = (this + sz) - arena_start;
     let dst_node = (if 0 \<le> home then n else - 1);
     (ar, st) \<leftarrow> arena_new env os arena_start this arena_size dst_node st;
     Some (put_source this
       \<lparr>ms_description = take NAME_LENGTH str, ms_node = n, ms_node_home = home,
        ms_mmap_threshold = pgasus_mmap_threshold env, ms_mem_size = sz, ms_arenas = [ar],
        ms_native_arena = arena_start, ms_mmapped_head = 0, ms_blocks = 0\<rparr> st) }"

definition msource_create ::
  "build_env \<Rightarrow> 'w nsys \<Rightarrow> int \<Rightarrow> u64 \<Rightarrow> string \<Rightarrow> int \<Rightarrow> 'w numa_state \<Rightarrow> (u64 \<times> 'w numa_state) option" where
  "msource_create env os phys_node sz str phys_home_node st = do {
     (a, st) \<leftarrow> map_pages os sz phys_node st;
     if a = 0 then None
     else do {
       st \<leftarrow> msource_new env os a phys_node sz str phys_home_node st;
       Some (a, add_msource a st) } }"

text \<open>The two loops of the destructor.\<close>

fun delete_arenas :: "'w nsys \<Rightarrow> u64 \<Rightarrow> arena_rec list \<Rightarrow> 'w numa_state \<Rightarrow> 'w numa_state option" where
  "delete_arenas os native [] st = Some st"
| "delete_arenas os native (ar # ars) st = do {
     let sz = ar_size ar;
     st \<leftarrow> arena_delete os ar st;
     let st = (if ar_addr ar \<noteq> native then unmap_pages os (ar_addr ar) sz st else st);
     delete_arenas os native ars st }"

partial_function (option) unmap_blocks :: "'w nsys \<Rightarrow> u64 \<Rightarrow> 'w numa_state \<Rightarrow> 'w numa_state option" where
  "unmap_blocks os c st =
     (if c \<noteq> 0 then
        let nxt = mch_next (ns_mem st) c
        in unmap_blocks os nxt (unmap_pages os c (mch_size (ns_mem st) c) st)
      else Some st)"

definition msource_delete :: "'w nsys \<Rightarrow> u64 \<Rightarrow> 'w numa_state \<Rightarrow> 'w numa_state option" where
  "msource_delete os a st = do {
     ms \<leftarrow> the_source a st;
     if bc_refs (ms_blocks ms) = 0 \<and> bc_blocks (ms_blocks ms) = 0 then do {
       st \<leftarrow> delete_arenas os (ms_native_arena ms) (ms_arenas ms) st;
       st \<leftarrow> unmap_blocks os (ms_mmapped_head ms) st;
       Some (st\<lparr>ns_sources := (ns_sources st)(a := None)\<rparr>) }
     else None }"

definition msource_destroy :: "'w nsys \<Rightarrow> u64 \<Rightarrow> 'w numa_state \<Rightarrow> 'w numa_state option" where
  "msource_destroy os a st = do {
     let st = remove_msource a st;
     ms \<leftarrow> the_source a st;
     st \<leftarrow> msource_delete os a st;
     Some (unmap_pages os a (ms_mem_size ms) st) }"

definition msource_ref :: "u64 \<Rightarrow> 'w numa_state \<Rightarrow> 'w numa_state option" where
  "msource_ref a st = on_blocks a bc_ref st"

definition msource_unref :: "'w nsys \<Rightarrow> u64 \<Rightarrow> 'w numa_state \<Rightarrow> 'w numa_state option" where
  "msource_unref os a st = do {
     ms \<leftarrow> the_source a st;
     let (last, v) = bc_deref (ms_blocks ms);
     let st = put_source a (ms\<lparr>ms_blocks := v\<rparr>) st;
     if last then msource_destroy os a st else Some st }"

definition create_new_arena ::
  "build_env \<Rightarrow> 'w nsys \<Rightarrow> u64 \<Rightarrow> u64 \<Rightarrow> 'w numa_state \<Rightarrow> (bool \<times> 'w numa_state) option" where
  "create_new_arena env os a arena_size st = do {
     ms \<leftarrow> the_source a st;
     if ms_arenas ms = [] then None
     else do {
       let wher = (if 0 \<le> ms_node_home ms then ms_node_home ms else ms_node ms);
       (mem, st) \<leftarrow> map_pages os arena_size wher st;
       if mem = 0 then Some (False, st)
       else do {
         let dst_node = (if 0 \<le> ms_node_home ms then ms_node ms else - 1);
         (ar, st) \<leftarrow> arena_new env os mem a arena_size dst_node st;
         Some (True, put_source a (ms\<lparr>ms_arenas := ar # ms_arenas ms\<rparr>) st) } } }"

section \<open>Blocks\<close>

text \<open>\<open>active_arena->alloc\<close>: the first arena of the list serves the request.\<close>

definition active_alloc :: "u64 \<Rightarrow> u64 \<Rightarrow> 'w numa_state \<Rightarrow> (u64 \<times> 'w numa_state) option" where
  "active_alloc a bytes st = do {
     ms \<leftarrow> the_source a st;
     (case ms_arenas ms of
        [] \<Rightarrow> None
      | ar # ars \<Rightarrow> do {
          (chunk, ar, h) \<leftarrow> arena_alloc bytes ar (ns_mem st);
          Some (chunk, put_source a (ms\<lparr>ms_arenas := ar # ars\<rparr>) (st\<lparr>ns_mem := h\<rparr>)) }) }"

text \<open>Putting a mapped block, whose footer is written, at the head of the list of its source.\<close>

definition link_mmapped :: "u64 \<Rightarrow> u64 \<Rightarrow> heap \<Rightarrow> heap" where
  "link_mmapped head c h =
     (let h = h(c + 8 := 0);
          h = h(c + 16 := head)
      in if head \<noteq> 0 then h(head + 8 := c) else h)"

definition mmap_block :: "'w nsys \<Rightarrow> u64 \<Rightarrow> u64 \<Rightarrow> 'w numa_state \<Rightarrow> (u64 \<times> 'w numa_state) option" where
  "mmap_block os a bytes st = do {
     ms \<leftarrow> the_source a st;
     let sz = bytes + mmap_footer_offset;
     (c, st) \<leftarrow> map_pages os sz (ms_node ms) st;
     if c = 0 then Some (0, st)
     else
       let h = (ns_mem st)(c + 24 := a, c + 24 + 8 := 0, c := sz);
           h = link_mmapped (ms_mmapped_head ms) c h
       in Some (mmap_footer_data c,
                put_source a (ms\<lparr>ms_mmapped_head := c\<rparr>) (st\<lparr>ns_mem := h\<rparr>)) }"

definition arena_block ::
  "build_env \<Rightarrow> 'w nsys \<Rightarrow> u64 \<Rightarrow> u64 \<Rightarrow> 'w numa_state \<Rightarrow> (u64 \<times> 'w numa_state) option" where
  "arena_block env os a bytes st = do {
     (chunk, st) \<leftarrow> active_alloc a bytes st;
     (chunk, st) \<leftarrow>
       (if chunk = 0 then do {
          (ok, st) \<leftarrow> create_new_arena env os a (push_bit 20 64) st;
          if ok then active_alloc a bytes st else Some (0, st) }
        else Some (chunk, st));
     Some (if chunk = 0 then 0 else footer_data chunk, st) }"

definition msource_alloc ::
  "build_env \<Rightarrow> 'w nsys \<Rightarrow> u64 \<Rightarrow> u64 \<Rightarrow> 'w numa_state \<Rightarrow> (u64 \<times> 'w numa_state) option" where
  "msource_alloc env os a bytes st = do {
     ms \<leftarrow> the_source a st;
     (result, st) \<leftarrow> (if ms_mmap_threshold ms \<le> bytes then mmap_block os a bytes st
                       else arena_block env os a bytes st);
     if result = 0 then Some (0, st)
     else do {
       st \<leftarrow> on_blocks a bc_addBlock st;
       Some (result, st) } }"

definition msource_alloc_align ::
  "build_env \<Rightarrow> 'w nsys \<Rightarrow> u64 \<Rightarrow> u64 \<Rightarrow> u64 \<Rightarrow> 'w numa_state \<Rightarrow> (u64 \<times> 'w numa_state) option" where
  "msource_alloc_align env os a align sz st = do {
     let alloc_size = sz + align + footer_offset;
     (p, st) \<leftarrow> msource_alloc env os a alloc_size st;
     if IS_ALIGNED p align then Some (p, st)
     else
       let pint_new = ALIGN_UP (p + footer_offset) align;
           chunk = footer_of p;
           fake_chunk = footer_of pint_new
       in Some (footer_data fake_chunk,
                st\<lparr>ns_mem := (ns_mem st)(fake_chunk := 0, fake_chunk + 8 := chunk)\<rparr>) }"

partial_function (option) footer_loop :: "heap \<Rightarrow> u64 \<Rightarrow> u64 option" where
  "footer_loop h ch = (if ft_source h ch = 0 then footer_loop h (ft_link h ch) else Some ch)"

definition get_footer_for_mem :: "heap \<Rightarrow> u64 \<Rightarrow> u64 option" where
  "get_footer_for_mem h p = footer_loop h (footer_of p)"

text \<open>Taking a mapped block out of the list: the new head and heap.\<close>

definition unlink_mmapped :: "u64 \<Rightarrow> u64 \<Rightarrow> heap \<Rightarrow> u64 \<times> heap" where
  "unlink_mmapped head c h =
     (let (head, h) = (if mch_prev h c = 0 then (mch_next h c, h)
                       else (head, h(mch_prev h c + 16 := mch_next h c)))
      in (head, if mch_next h c \<noteq> 0 then h(mch_next h c + 8 := mch_prev h c) else h))"

fun free_in_arenas ::
  "'w nsys \<Rightarrow> u64 \<Rightarrow> u64 \<Rightarrow> arena_rec list \<Rightarrow> 'w numa_state \<Rightarrow> (arena_rec list \<times> 'w numa_state) option" where
  "free_in_arenas os aa ch [] st = None"
| "free_in_arenas os aa ch (ar # ars) st =
     (if ar_addr ar = aa then do { (ar, st) \<leftarrow> arena_free os ch ar st; Some (ar # ars, st) }
      else do { (ars, st) \<leftarrow> free_in_arenas os aa ch ars st; Some (ar # ars, st) })"

definition free_impl ::
  "'w nsys \<Rightarrow> u64 \<Rightarrow> u64 \<Rightarrow> u64 \<Rightarrow> 'w numa_state \<Rightarrow> (bool \<times> 'w numa_state) option" where
  "free_impl os a p ch st = do {
     ms \<leftarrow> the_source a st;
     (ms, st) \<leftarrow>
       (if ft_arena (ns_mem st) ch \<noteq> 0 then do {
          (ars, st) \<leftarrow> free_in_arenas os (ft_arena (ns_mem st) ch) ch (ms_arenas ms) st;
          Some (ms\<lparr>ms_arenas := ars\<rparr>, st) }
        else
          let mch = mmap_footer_of p;
              (head, h) = unlink_mmapped (ms_mmapped_head ms) mch (ns_mem st);
              st = st\<lparr>ns_mem := h\<rparr>
          in Some (ms\<lparr>ms_mmapped_head := head\<rparr>, unmap_pages os mch (mch_size h mch) st));
     let (last, v) = bc_removeBlock (ms_blocks ms);
     Some (last, put_source a (ms\<lparr>ms_blocks := v\<rparr>) st) }"

definition msource_free :: "'w nsys \<Rightarrow> u64 \<Rightarrow> 'w numa_state \<Rightarrow> 'w numa_state option" where
  "msource_free os p st =
     (if p \<noteq> 0 then do {
        ch \<leftarrow> get_footer_for_mem (ns_mem st) p;
        let src = ft_source (ns_mem st) ch;
        (last, st) \<leftarrow> free_impl os src p ch st;
        if last then msource_destroy os src st else Some st }
      else Some st)"

text \<open>\<open>dlmalloc_usable_size\<close>, which \<open>ptmalloc3-malloc.c\<close> keeps under \<open>ONLY_MSPACES\<close>.\<close>

definition dlmalloc_usable_size :: "u64 \<Rightarrow> mstate \<Rightarrow> u64" where
  "dlmalloc_usable_size mem m =
     (if mem \<noteq> 0 then
        let p = mem2chunk mem
        in if cinuse m p then chunksize m p - overhead_for m p else 0
      else 0)"

text \<open>It reads the heap only; which space it is given does not matter.\<close>

definition heap_space :: "heap \<Rightarrow> mstate" where
  "heap_space h =
     \<lparr>maddr = 0, smallmap = 0, treemap = 0, dvsize = 0, topsize = 0, least_addr = 0, dv = 0,
      m_top = 0, trim_check = 0, release_checks = 0, magic = 0, footprint = 0, max_footprint = 0,
      mflags = 0, extp = 0, exts = 0, hp = h\<rparr>"

definition get_block_size :: "heap \<Rightarrow> u64 \<Rightarrow> u64 option" where
  "get_block_size h p = do {
     ch \<leftarrow> get_footer_for_mem h p;
     Some (if ft_arena h ch \<noteq> 0 then dlmalloc_usable_size ch (heap_space h) - footer_offset
           else mch_size h (mmap_footer_of p)) }"

definition physicalNodeOf :: "u64 \<Rightarrow> 'w numa_state \<Rightarrow> int option" where
  "physicalNodeOf p st =
     (if p = 0 then Some (- 1)
      else do {
        ch \<leftarrow> get_footer_for_mem (ns_mem st) p;
        ms \<leftarrow> the_source (ft_source (ns_mem st) ch) st;
        Some (ms_node ms) })"

end
