(* ===== verification/Msource_Api.thy ===== *)
theory Msource_Api
  imports Msource
begin

text \<open>
  The rest of \<open>src/src/msource/msource.cpp\<close>: moving a source to another node, its statistics, and
  the class \<open>MemSource\<close> of counted references, with the global source and the sources of the
  nodes. A \<open>MemSource\<close> object is the address it holds, 0 for none.
\<close>

section \<open>Migration and statistics\<close>

text \<open>The page vector grows by the pages from \<open>start\<close> to \<open>end\<close>, the one at \<open>end\<close> included.\<close>

definition add_pages_to_vector :: "u64 list \<Rightarrow> u64 \<Rightarrow> u64 \<Rightarrow> u64 list option" where
  "add_pages_to_vector v start en = do {
     ps \<leftarrow> pages_upto (ALIGN_DOWN start MEM_PAGE_SIZE) (ALIGN_DOWN en MEM_PAGE_SIZE);
     Some (v @ ps) }"

fun migrate_arenas :: "'w nsys \<Rightarrow> arena_rec list \<Rightarrow> u64 list \<Rightarrow> 'w \<Rightarrow> (u64 list \<times> 'w) option" where
  "migrate_arenas os [] pages w = Some (pages, w)"
| "migrate_arenas os (ar # ars) pages w = do {
     let (top_chunk, top_chunk_size) = mspace_get_top_chunk_extent (ar_msp ar);
     pages \<leftarrow> add_pages_to_vector pages (maddr (ar_msp ar)) top_chunk;
     let dn_start = ALIGN_UP (top_chunk + 64) MEM_PAGE_SIZE;
     let dn_end = ALIGN_DOWN (top_chunk + top_chunk_size - 64) MEM_PAGE_SIZE;
     migrate_arenas os ars pages (os_madvise os dn_start (dn_end - dn_start) w) }"

partial_function (option) migrate_blocks :: "heap \<Rightarrow> u64 \<Rightarrow> u64 list \<Rightarrow> u64 list option" where
  "migrate_blocks h c pages =
     (if c \<noteq> 0 then
        Option.bind (add_pages_to_vector pages c (c + mch_size h c))
          (\<lambda>pages. migrate_blocks h (mch_next h c) pages)
      else Some pages)"

text \<open>A failed \<open>move_pages\<close> is only reported; the node of the source changes all the same.\<close>

definition msource_migrate ::
  "'w nsys \<Rightarrow> u64 \<Rightarrow> int \<Rightarrow> 'w numa_state \<Rightarrow> (nat \<times> 'w numa_state) option" where
  "msource_migrate os a dst st = do {
     ms \<leftarrow> the_source a st;
     (pages, w) \<leftarrow> migrate_arenas os (ms_arenas ms) [] (ns_world st);
     pages \<leftarrow> migrate_blocks (ns_mem st) (ms_mmapped_head ms) pages;
     (case os_move_pages os pages (Some (replicate (length pages) dst)) w of
        ((ret, status), w) \<Rightarrow>
          Some (length pages, put_source a (ms\<lparr>ms_node := dst\<rparr>) (st\<lparr>ns_world := w\<rparr>))) }"

record msource_info =
  hugeobj_count :: u64
  hugeobj_used :: u64
  hugeobj_size :: u64
  arena_count :: u64
  arena_used :: u64
  arena_size :: u64

fun stats_arenas :: "heap \<Rightarrow> arena_rec list \<Rightarrow> msource_info \<Rightarrow> msource_info option" where
  "stats_arenas h [] result = Some result"
| "stats_arenas h (ar # ars) result = do {
     let base = ALIGN_DOWN (ar_addr ar) MEM_PAGE_SIZE;
     let en = ar_addr ar + ar_alloc_end ar;
     minfo \<leftarrow> mspace_mallinfo ((ar_msp ar)\<lparr>hp := h\<rparr>);
     stats_arenas h ars
       (result\<lparr>arena_used := arena_used result + ALIGN_UP (en - base) MEM_PAGE_SIZE,
               arena_size := arena_size result + uordblks minfo,
               arena_count := arena_count result + 1\<rparr>) }"

partial_function (option) stats_blocks :: "heap \<Rightarrow> u64 \<Rightarrow> msource_info \<Rightarrow> msource_info option" where
  "stats_blocks h c result =
     (if c \<noteq> 0 then
        stats_blocks h (mch_next h c)
          (result\<lparr>hugeobj_used := hugeobj_used result + ALIGN_UP (mch_size h c) MEM_PAGE_SIZE,
                  hugeobj_size := hugeobj_size result + mch_size h c,
                  hugeobj_count := hugeobj_count result + 1\<rparr>)
      else Some result)"

definition msource_stats :: "u64 \<Rightarrow> 'w numa_state \<Rightarrow> msource_info option" where
  "msource_stats a st = do {
     ms \<leftarrow> the_source a st;
     result \<leftarrow> stats_arenas (ns_mem st) (ms_arenas ms)
       \<lparr>hugeobj_count = 0, hugeobj_used = 0, hugeobj_size = 0, arena_count = 0, arena_used = 0,
        arena_size = 0\<rparr>;
     stats_blocks (ns_mem st) (ms_mmapped_head ms) result }"

definition msource_prefault :: "u64 \<Rightarrow> u64 \<Rightarrow> 'w numa_state \<Rightarrow> (u64 \<times> 'w numa_state) option" where
  "msource_prefault a bytes st = do {
     ms \<leftarrow> the_source a st;
     ar \<leftarrow> List.find (\<lambda>ar. ar_addr ar = ms_native_arena ms) (ms_arenas ms);
     (n, h) \<leftarrow> arena_prefault bytes ar (ns_mem st);
     Some (n, st\<lparr>ns_mem := h\<rparr>) }"

section \<open>References\<close>

text \<open>
  Constructor from a source, copy, destructor, and the two assignments: the new value of the
  object (and of the moved-from one) with the state.
\<close>

definition handle_new :: "u64 \<Rightarrow> 'w numa_state \<Rightarrow> (u64 \<times> 'w numa_state) option" where
  "handle_new ms st =
     (if ms = 0 then None else do { st \<leftarrow> msource_ref ms st; Some (ms, st) })"

definition handle_copy :: "u64 \<Rightarrow> 'w numa_state \<Rightarrow> (u64 \<times> 'w numa_state) option" where
  "handle_copy other st =
     (if other \<noteq> 0 then do { st \<leftarrow> msource_ref other st; Some (other, st) } else Some (other, st))"

definition handle_delete :: "'w nsys \<Rightarrow> u64 \<Rightarrow> 'w numa_state \<Rightarrow> 'w numa_state option" where
  "handle_delete os this st = (if this \<noteq> 0 then msource_unref os this st else Some st)"

definition handle_assign :: "'w nsys \<Rightarrow> u64 \<Rightarrow> u64 \<Rightarrow> 'w numa_state \<Rightarrow> (u64 \<times> 'w numa_state) option" where
  "handle_assign os this other st =
     (if other \<noteq> this then do {
        let old = this;
        st \<leftarrow> (if other \<noteq> 0 then msource_ref other st else Some st);
        st \<leftarrow> (if old \<noteq> 0 then msource_unref os old st else Some st);
        Some (other, st) }
      else Some (this, st))"

text \<open>Move assignment between different objects: \<open>this\<close> becomes \<open>other\<close>, which becomes 0.\<close>

definition handle_move_assign ::
  "'w nsys \<Rightarrow> u64 \<Rightarrow> u64 \<Rightarrow> 'w numa_state \<Rightarrow> (u64 \<times> u64 \<times> 'w numa_state) option" where
  "handle_move_assign os this other st = do {
     st \<leftarrow> (if this \<noteq> 0 then msource_unref os this st else Some st);
     Some (other, 0, st) }"

definition handle_create ::
  "build_env \<Rightarrow> 'w nsys \<Rightarrow> int \<Rightarrow> u64 \<Rightarrow> string \<Rightarrow> int \<Rightarrow> 'w numa_state \<Rightarrow> (u64 \<times> 'w numa_state) option" where
  "handle_create env os phys_node sz str phys_home_node st = do {
     (impl, st) \<leftarrow> msource_create env os phys_node sz str phys_home_node st;
     handle_new impl st }"

section \<open>The global source and the sources of the nodes\<close>

text \<open>
  The function-local statics: \<open>global_msource\<close>, and \<open>global_msource_impls\<close> (empty while it is the
  null pointer) with \<open>global_msource_ptrs\<close>. The storage of the vector itself is not modelled.
\<close>

fun decimal :: "nat \<Rightarrow> string" where
  "decimal n = (if n < 10 then [] else decimal (n div 10)) @ [char_of (48 + n mod 10)]"

definition node_global_name :: "nat \<Rightarrow> string" where
  "node_global_name phys_node = ''node_global('' @ decimal phys_node @ '')''"

record statics =
  st_global :: u64
  st_impls :: "u64 list"
  st_ptrs :: "u64 list"

definition ms_global ::
  "build_env \<Rightarrow> 'w nsys \<Rightarrow> statics \<times> 'w numa_state \<Rightarrow> (u64 \<times> statics \<times> 'w numa_state) option" where
  "ms_global env os = (\<lambda>(sx, st).
     if st_global sx \<noteq> 0 then Some (st_global sx, sx, st)
     else do {
       (impl, st) \<leftarrow> msource_create env os (- 1) (push_bit 24 1) ''global'' (- 1) st;
       (tmp, st) \<leftarrow> handle_new impl st;
       (g, tmp, st) \<leftarrow> handle_move_assign os (st_global sx) tmp st;
       st \<leftarrow> handle_delete os tmp st;
       Some (g, sx\<lparr>st_global := g\<rparr>, st) })"

definition init_node_impls ::
  "build_env \<Rightarrow> 'w nsys \<Rightarrow> nat \<Rightarrow> statics \<times> 'w numa_state \<Rightarrow> (statics \<times> 'w numa_state) option" where
  "init_node_impls env os max_id = (\<lambda>(sx, st). do {
     (g, sx, st) \<leftarrow> ms_global env os (sx, st);
     (p, st) \<leftarrow> msource_alloc_align env os g 64 (8 * of_nat (max_id + 1)) st;
     Some (sx\<lparr>st_impls := replicate (max_id + 1) 0, st_ptrs := replicate (max_id + 1) 0\<rparr>, st) })"

definition ms_for_node ::
  "build_env \<Rightarrow> 'w nsys \<Rightarrow> nat \<Rightarrow> nat \<Rightarrow> statics \<times> 'w numa_state \<Rightarrow> (u64 \<times> statics \<times> 'w numa_state) option" where
  "ms_for_node env os max_id phys_node = (\<lambda>(sx, st). do {
     (sx, st) \<leftarrow> (if st_impls sx = [] then init_node_impls env os max_id (sx, st) else Some (sx, st));
     if \<not> phys_node < length (st_impls sx) then None
     else if st_impls sx ! phys_node = 0 then do {
       (impl, st) \<leftarrow> msource_create env os (int phys_node) (push_bit 24 1) (node_global_name phys_node) (- 1) st;
       (tmp, st) \<leftarrow> handle_new impl st;
       (h, tmp, st) \<leftarrow> handle_move_assign os (st_ptrs sx ! phys_node) tmp st;
       st \<leftarrow> handle_delete os tmp st;
       Some (h, sx\<lparr>st_impls := (st_impls sx)[phys_node := impl],
                   st_ptrs := (st_ptrs sx)[phys_node := h]\<rparr>, st) }
     else Some (st_ptrs sx ! phys_node, sx, st) })"

end
