(* ===== verification/Msource_Props.thy ===== *)
theory Msource_Props
  imports Msource_Api
begin

text \<open>
  What the parts of a memory source do: the counter of references and blocks refines a pair
  of numbers, the list of mapped blocks is a store of blocks, and the lemmas on alignment and footers
  that the round trip of an aligned block (\<open>Msource_Align\<close>) rests on.
\<close>

section \<open>The counter\<close>

definition bc_pack :: "nat \<Rightarrow> nat \<Rightarrow> u64" where
  "bc_pack refs blocks = of_nat (refs * 2 ^ 40 + blocks)"

lemma bc_pack_bound: "refs < 2 ^ 24 \<Longrightarrow> blocks < 2 ^ 40 \<Longrightarrow> refs * 2 ^ 40 + blocks < (2::nat) ^ 64"
proof -
  assume h: "refs < 2 ^ 24" "blocks < 2 ^ 40"
  then have "refs * 2 ^ 40 + blocks < (refs + 1) * 2 ^ 40" by (simp add: algebra_simps)
  also have "\<dots> \<le> 2 ^ 24 * 2 ^ 40" using h(1) by (intro mult_right_mono) simp_all
  finally show ?thesis by simp
qed

lemma unat_bc_pack: "refs < 2 ^ 24 \<Longrightarrow> blocks < 2 ^ 40 \<Longrightarrow> unat (bc_pack refs blocks) = refs * 2 ^ 40 + blocks"
proof -
  assume "refs < 2 ^ 24" "blocks < 2 ^ 40"
  from bc_pack_bound [OF this]
  have "(refs * 2 ^ 40 + blocks) mod 2 ^ LENGTH(64) = refs * 2 ^ 40 + blocks" by simp
  then show ?thesis unfolding bc_pack_def unat_of_nat .
qed

lemma BlockMask_eq: "BlockMask = mask 40"
  by (simp only: BlockMask_def BlockBits_def mask_eq_exp_minus_1 push_bit_of_1)

lemma unat_and_mask: "unat ((v::u64) AND mask n) = unat v mod 2 ^ n"
proof -
  have "unat (v AND mask n) = unat (take_bit n v)" by (simp only: take_bit_eq_mask)
  also have "\<dots> = take_bit n (unat v)" by (simp add: unsigned_take_bit_eq)
  finally show ?thesis by (simp only: take_bit_eq_mod)
qed

lemma bc_read:
  assumes "refs < 2 ^ 24" "blocks < 2 ^ 40"
  shows "bc_blocks (bc_pack refs blocks) = of_nat blocks" "bc_refs (bc_pack refs blocks) = of_nat refs"
proof -
  note u = unat_bc_pack [OF assms]
  have "unat (bc_blocks (bc_pack refs blocks)) = (refs * 2 ^ 40 + blocks) mod 2 ^ 40"
    unfolding bc_blocks_def BlockMask_eq unat_and_mask u ..
  also have "\<dots> = blocks" using assms(2) by simp
  finally have "unat (bc_blocks (bc_pack refs blocks)) = blocks" .
  then have "of_nat (unat (bc_blocks (bc_pack refs blocks))) = (of_nat blocks :: u64)" by (rule arg_cong)
  then show "bc_blocks (bc_pack refs blocks) = of_nat blocks" by simp
  have "unat (bc_refs (bc_pack refs blocks)) = refs"
    unfolding bc_refs_def BlockBits_def unat_drop_bit u using assms(2) by simp
  then have "of_nat (unat (bc_refs (bc_pack refs blocks))) = (of_nat refs :: u64)" by (rule arg_cong)
  then show "bc_refs (bc_pack refs blocks) = of_nat refs" by simp
qed

lemma bc_pack_inj:
  assumes "refs < 2 ^ 24" "blocks < 2 ^ 40" "r < 2 ^ 24" "b < 2 ^ 40" "bc_pack refs blocks = bc_pack r b"
  shows "refs = r \<and> blocks = b"
proof -
  have "refs * 2 ^ 40 + blocks = r * 2 ^ 40 + b" using assms unat_bc_pack by metis
  then have "(refs * 2 ^ 40 + blocks) div 2 ^ 40 = (r * 2 ^ 40 + b) div 2 ^ 40"
    "(refs * 2 ^ 40 + blocks) mod 2 ^ 40 = (r * 2 ^ 40 + b) mod 2 ^ 40" by simp_all
  then show ?thesis using assms(2,4) by simp
qed

text \<open>The events on a source: a reference or a block comes or goes.\<close>

datatype bc_event = Ref | Deref | AddBlock | RemoveBlock

fun bc_event_run :: "bc_event \<Rightarrow> u64 \<Rightarrow> bool \<times> u64" where
  "bc_event_run Ref v = (False, bc_ref v)"
| "bc_event_run Deref v = bc_deref v"
| "bc_event_run AddBlock v = (False, bc_addBlock v)"
| "bc_event_run RemoveBlock v = bc_removeBlock v"

fun bc_spec :: "bc_event \<Rightarrow> nat \<times> nat \<Rightarrow> (nat \<times> nat) option" where
  "bc_spec Ref (r, b) = (if Suc r < 2 ^ 24 then Some (Suc r, b) else None)"
| "bc_spec Deref (r, b) = (if 0 < r then Some (r - 1, b) else None)"
| "bc_spec AddBlock (r, b) = (if Suc b < 2 ^ 40 then Some (r, Suc b) else None)"
| "bc_spec RemoveBlock (r, b) = (if 0 < b then Some (r, b - 1) else None)"

lemma bc_step:
  assumes "r < 2 ^ 24" "b < 2 ^ 40" "bc_spec e (r, b) = Some (r', b')"
  shows "bc_event_run e (bc_pack r b) = ((e = Deref \<or> e = RemoveBlock) \<and> r' = 0 \<and> b' = 0, bc_pack r' b')
    \<and> r' < 2 ^ 24 \<and> b' < 2 ^ 40"
proof -
  have one: "bc_pack 1 0 = push_bit BlockBits 1" "bc_pack 0 1 = 1"
    by (simp_all add: bc_pack_def BlockBits_def push_bit_eq_mult)
  have eqs: "bc_pack r b = bc_pack 1 0 \<longleftrightarrow> r = 1 \<and> b = 0" "bc_pack r b = bc_pack 0 1 \<longleftrightarrow> r = 0 \<and> b = 1"
    using bc_pack_inj [OF assms(1,2), of 1 0] bc_pack_inj [OF assms(1,2), of 0 1] by auto
  show ?thesis
  proof (cases e)
    case Ref
    then have "r' = Suc r" "b' = b" "r' < 2 ^ 24" using assms(3) by (auto split: if_splits)
    moreover have "bc_pack (Suc r) b = bc_pack r b + push_bit BlockBits 1"
      unfolding one(1) [symmetric] by (simp add: bc_pack_def algebra_simps)
    ultimately show ?thesis using Ref assms(2) by (simp add: bc_ref_def)
  next
    case Deref
    then have r: "r = Suc r'" "b' = b" using assms(3) by (auto split: if_splits)
    have "bc_pack (Suc r') b = bc_pack r' b + push_bit BlockBits 1"
      unfolding one(1) [symmetric] by (simp add: bc_pack_def algebra_simps)
    then show ?thesis using Deref assms(1,2) r eqs(1) one(1) by (auto simp: bc_deref_def isLastDeref_def)
  next
    case AddBlock
    then have "r' = r" "b' = Suc b" "b' < 2 ^ 40" using assms(3) by (auto split: if_splits)
    moreover have "bc_pack r (Suc b) = bc_pack r b + 1" by (simp add: bc_pack_def algebra_simps)
    ultimately show ?thesis using AddBlock assms(1) by (simp add: bc_addBlock_def)
  next
    case RemoveBlock
    then have b: "b = Suc b'" "r' = r" using assms(3) by (auto split: if_splits)
    have "bc_pack r (Suc b') = bc_pack r b' + 1" by (simp add: bc_pack_def algebra_simps)
    then show ?thesis using RemoveBlock assms(1,2) b eqs(2) one(2)
      by (auto simp: bc_removeBlock_def isLastDeref_def)
  qed
qed

fun bc_runs :: "bc_event list \<Rightarrow> u64 \<Rightarrow> bool list \<times> u64" where
  "bc_runs [] v = ([], v)"
| "bc_runs (e # es) v =
     (let (last, v) = bc_event_run e v; (ls, v) = bc_runs es v in (last # ls, v))"

fun bc_specs :: "bc_event list \<Rightarrow> nat \<times> nat \<Rightarrow> (bool list \<times> nat \<times> nat) option" where
  "bc_specs [] c = Some ([], c)"
| "bc_specs (e # es) c = do {
     c \<leftarrow> bc_spec e c;
     (ls, c') \<leftarrow> bc_specs es c;
     Some (((e = Deref \<or> e = RemoveBlock) \<and> c = (0, 0)) # ls, c') }"

lemma bc_runs_refine:
  "r < 2 ^ 24 \<Longrightarrow> b < 2 ^ 40 \<Longrightarrow> bc_specs es (r, b) = Some (ls, r', b')
    \<Longrightarrow> bc_runs es (bc_pack r b) = (ls, bc_pack r' b')"
proof (induction es arbitrary: r b ls)
  case Nil
  then show ?case by simp
next
  case (Cons e es)
  obtain r1 b1 ls1 where s: "bc_spec e (r, b) = Some (r1, b1)" "bc_specs es (r1, b1) = Some (ls1, r', b')"
    and ls: "ls = ((e = Deref \<or> e = RemoveBlock) \<and> r1 = 0 \<and> b1 = 0) # ls1"
    using Cons.prems(3) by (auto simp: bind_eq_Some_conv)
  note step = bc_step [OF Cons.prems(1,2) s(1)]
  have "bc_runs es (bc_pack r1 b1) = (ls1, bc_pack r' b')" using Cons.IH [OF _ _ s(2)] step by blast
  then show ?case using step ls by simp
qed

text \<open>
  C29: The one-word counter of a memory source counts references and blocks separately. Along
  any sequence of events that never takes away what is not there and stays below \<open>2 ^ 24\<close>
  references and \<open>2 ^ 40\<close> blocks, the word stays the packed pair of the two numbers, and
  \<open>deref\<close> or \<open>removeBlock\<close> reports the last use exactly when both have reached zero.
\<close>

theorem block_count_refines:
  assumes "bc_specs es (0, 0) = Some (ls, r, b)"
  shows "bc_runs es 0 = (ls, bc_pack r b)"
  using bc_runs_refine [of 0 0 es ls r b] assms by (simp add: bc_pack_def)

theorem block_count_refines_wit:
  "bc_runs [Ref, AddBlock, Deref, RemoveBlock] 0 = ([False, False, False, True], bc_pack 0 0)"
  by (rule block_count_refines) simp

section \<open>The list of mapped blocks\<close>

text \<open>
  \<open>mseg h q p cs r\<close>: from \<open>p\<close>, whose predecessor is \<open>q\<close>, the list visits \<open>cs\<close> and goes on to \<open>r\<close>.
\<close>

fun mseg :: "heap \<Rightarrow> u64 \<Rightarrow> u64 \<Rightarrow> u64 list \<Rightarrow> u64 \<Rightarrow> bool" where
  "mseg h q p [] r \<longleftrightarrow> p = r"
| "mseg h q p (c # cs) r \<longleftrightarrow> p = c \<and> c \<noteq> 0 \<and> mch_prev h c = q \<and> mseg h c (mch_next h c) cs r"

abbreviation mlist :: "heap \<Rightarrow> u64 \<Rightarrow> u64 list \<Rightarrow> bool" where "mlist h p cs \<equiv> mseg h 0 p cs 0"

lemma mseg_append: "mseg h q p (xs @ ys) r \<longleftrightarrow> (\<exists>s. mseg h q p xs s \<and> mseg h (last (q # xs)) s ys r)"
  by (induction xs arbitrary: q p) auto

lemma mseg_nonzero: "mseg h q p cs r \<Longrightarrow> c \<in> set cs \<Longrightarrow> c \<noteq> 0"
  by (induction cs arbitrary: q p) auto

text \<open>Two blocks are apart if neither's three header words overlap the other's.\<close>

definition mfar :: "u64 \<Rightarrow> u64 \<Rightarrow> bool" where
  "mfar a b \<longleftrightarrow> 24 \<le> a - b \<and> 24 \<le> b - a"

lemma mfar_slot:
  assumes "mfar a b" "i < 24" "j < 24"
  shows "a + i \<noteq> b + j"
proof
  assume "a + i = b + j"
  then have *: "a - b = j - i" "b - a = i - j" by (simp_all add: algebra_simps)
  have "j - i < 24 \<or> i - j < 24"
    using assms(2,3) by (cases "i \<le> j") (auto simp: word_le_nat_alt word_less_nat_alt unat_sub_if')
  with * assms(1) show False by (auto simp: mfar_def)
qed

lemma mfar_sym: "mfar a b \<Longrightarrow> mfar b a"
  by (simp add: mfar_def)

lemma mfar_slots:
  assumes "mfar a b"
  shows "a \<noteq> b" "a + 8 \<noteq> b" "a + 16 \<noteq> b" "a \<noteq> b + 8" "a \<noteq> b + 16"
    "a + 8 \<noteq> b + 8" "a + 8 \<noteq> b + 16" "a + 16 \<noteq> b + 8" "a + 16 \<noteq> b + 16"
  using mfar_slot [OF assms, of 0 0] mfar_slot [OF assms, of 8 0] mfar_slot [OF assms, of 16 0]
    mfar_slot [OF assms, of 0 8] mfar_slot [OF assms, of 0 16] mfar_slot [OF assms, of 8 8]
    mfar_slot [OF assms, of 8 16] mfar_slot [OF assms, of 16 8] mfar_slot [OF assms, of 16 16]
  by simp_all

lemma mseg_cong:
  assumes "\<And>c. c \<in> set cs \<Longrightarrow> h' (c + 8) = h (c + 8) \<and> h' (c + 16) = h (c + 16)"
  shows "mseg h' q p cs r = mseg h q p cs r"
  using assms by (induction cs arbitrary: q p) auto

lemma mlist_link:
  assumes "mlist h head cs" "c \<noteq> 0" "\<And>x. x \<in> set cs \<Longrightarrow> mfar c x" "sorted_wrt mfar cs"
  shows "mlist (link_mmapped head c h) c (c # cs)"
proof (cases cs)
  case Nil
  then show ?thesis using assms by (simp add: link_mmapped_def)
next
  case (Cons x xs)
  let ?h = "h(c + 8 := 0, c + 16 := x, x + 8 := c)"
  have x: "head = x" "x \<noteq> 0" "mfar c x" using assms Cons by auto
  then have eq: "link_mmapped head c h = ?h" by (simp add: link_mmapped_def)
  have "mseg ?h x (h (x + 16)) xs 0 = mseg h x (h (x + 16)) xs 0"
  proof (rule mseg_cong)
    fix y assume "y \<in> set xs"
    then have "mfar c y" "mfar x y" using assms(3,4) Cons by auto
    note far = mfar_slots [OF this(1)] mfar_slots [OF this(2)]
    show "?h (y + 8) = h (y + 8) \<and> ?h (y + 16) = h (y + 16)"
      using far by (simp add: not_sym)
  qed
  moreover have "c + 8 \<noteq> x + 16" "c + 16 \<noteq> x + 16" "x + 8 \<noteq> c + 8" "x + 8 \<noteq> c + 16"
    using mfar_slots [OF x(3)] by (simp_all add: not_sym)
  ultimately show ?thesis using assms(1,2) x Cons unfolding eq by simp
qed

text \<open>Making the last element of a segment point elsewhere.\<close>

lemma mseg_retarget:
  assumes "mseg h q p xs s" "xs \<noteq> []" "sorted_wrt mfar xs"
  shows "mseg (h(last xs + 16 := n)) q p xs n"
proof -
  obtain ys l where xs: "xs = ys @ [l]" using assms(2) by (metis rev_exhaust)
  obtain t where t: "mseg h q p ys t" "t = l" "l \<noteq> 0" "mch_prev h l = last (q # ys)"
    using assms(1) unfolding xs mseg_append by auto
  have "mseg (h(l + 16 := n)) q p ys t = mseg h q p ys t"
  proof (rule mseg_cong)
    fix y assume "y \<in> set ys"
    then have "mfar y l" using assms(3) xs by (auto simp: sorted_wrt_append)
    from mfar_slots [OF this] show "(h(l + 16 := n)) (y + 8) = h (y + 8) \<and> (h(l + 16 := n)) (y + 16) = h (y + 16)"
      by simp
  qed
  then show ?thesis using t unfolding xs mseg_append by auto
qed

lemma mseg_reback:
  assumes "mseg h q p xs s" "xs \<noteq> []" "sorted_wrt mfar xs"
  shows "mseg (h(hd xs + 8 := k)) k p xs s"
proof -
  obtain x ys where xs: "xs = x # ys" using assms(2) by (cases xs) auto
  have "mseg (h(x + 8 := k)) x (h (x + 16)) ys s = mseg h x (h (x + 16)) ys s"
  proof (rule mseg_cong)
    fix y assume "y \<in> set ys"
    then have "mfar x y" using assms(3) xs by auto
    from mfar_slots [OF this] show "(h(x + 8 := k)) (y + 8) = h (y + 8) \<and> (h(x + 8 := k)) (y + 16) = h (y + 16)"
      by (simp add: not_sym)
  qed
  then show ?thesis using assms(1) by (simp add: xs)
qed

lemma mlist_unlink:
  assumes "mlist h head (xs @ c # ys)" "sorted_wrt mfar (xs @ c # ys)"
    and "unlink_mmapped head c h = (head', h')"
  shows "mlist h' head' (xs @ ys)"
proof -
  let ?n = "mch_next h c" and ?k = "last (0 # xs)"
  have seg: "mseg h 0 head xs c" "mch_prev h c = ?k" "c \<noteq> 0" "mseg h c ?n ys 0"
    using assms(1) by (auto simp: mseg_append)
  have k: "?k = 0 \<longleftrightarrow> xs = []" using mseg_nonzero [OF seg(1)] by (cases xs rule: rev_cases) auto
  have n: "?n = 0 \<longleftrightarrow> ys = []" "ys \<noteq> [] \<Longrightarrow> ?n = hd ys" using seg(4) by (cases ys; auto)+
  have far: "\<And>x y. x \<in> set xs \<Longrightarrow> y \<in> insert c (set ys) \<Longrightarrow> mfar x y" "\<And>y. y \<in> set ys \<Longrightarrow> mfar c y"
    "sorted_wrt mfar xs" "sorted_wrt mfar ys"
    using assms(2) by (auto simp: sorted_wrt_append)
  define h1 where "h1 = (if xs = [] then h else h(last xs + 16 := ?n))"
  have h1_next: "mch_next h1 c = ?n" "mch_prev h1 c = ?k"
  proof -
    have "xs \<noteq> [] \<Longrightarrow> last xs + 16 \<noteq> c + 16 \<and> last xs + 16 \<noteq> c + 8"
      using far(1) [of "last xs" c] mfar_slots(8,9) by simp
    then show "mch_next h1 c = ?n" "mch_prev h1 c = ?k" using seg(2) by (auto simp: h1_def)
  qed
  have eq: "unlink_mmapped head c h = (if xs = [] then ?n else head, if ys = [] then h1 else h1(hd ys + 8 := ?k))"
    using seg(2) k n h1_next by (auto simp: unlink_mmapped_def h1_def)
  have s1: "mseg h1 0 (if xs = [] then ?n else head) xs ?n"
    using mseg_retarget [OF seg(1) _ far(3)] by (simp add: h1_def)
  have "mseg h1 c ?n ys 0 = mseg h c ?n ys 0"
  proof (rule mseg_cong)
    fix y assume "y \<in> set ys"
    then have "xs \<noteq> [] \<Longrightarrow> mfar (last xs) y" using far(1) by simp
    note far' = mfar_slots(8,9) [OF this]
    show "h1 (y + 8) = h (y + 8) \<and> h1 (y + 16) = h (y + 16)"
      using far' by (cases "xs = []") (simp_all add: h1_def not_sym)
  qed
  then have s2: "mseg h1 c ?n ys 0" using seg(4) by simp
  have h': "h' = (if ys = [] then h1 else h1(hd ys + 8 := ?k))" "head' = (if xs = [] then ?n else head)"
    using eq assms(3) by simp_all
  have s3: "mseg h' ?k ?n ys 0" using s2 mseg_reback [OF s2 _ far(4)] h' by (cases "ys = []") auto
  have "mseg h' 0 head' xs ?n = mseg h1 0 head' xs ?n"
  proof (rule mseg_cong)
    fix x assume "x \<in> set xs"
    then have "ys \<noteq> [] \<Longrightarrow> mfar x (hd ys)" using far(1) by simp
    note far' = mfar_slots(6,8) [OF this]
    show "h' (x + 8) = h1 (x + 8) \<and> h' (x + 16) = h1 (x + 16)"
      using far' by (cases "ys = []") (simp_all add: h'(1) not_sym)
  qed
  then show ?thesis using s1 s3 h'(2) by (auto simp: mseg_append)
qed

text \<open>The list as a store of blocks: the state is \<open>mmapped_chunk_head\<close> and the heap.\<close>

definition mblocks_hold :: "u64 \<times> heap \<Rightarrow> chunks \<Rightarrow> bool" where
  "mblocks_hold st C \<longleftrightarrow> (\<exists>cs. mlist (snd st) (fst st) cs \<and> sorted_wrt mfar cs
     \<and> C = (\<lambda>c. (c, snd st c)) ` set cs)"

definition mblocks_room :: "u64 \<times> heap \<Rightarrow> chunks \<Rightarrow> u64 \<Rightarrow> u64 \<Rightarrow> bool" where
  "mblocks_room st C c s \<longleftrightarrow> c \<noteq> 0 \<and> snd st c = s \<and> (\<forall>x\<in>fst ` C. mfar c x)"

definition mblock_link :: "u64 \<Rightarrow> u64 \<Rightarrow> u64 \<times> heap \<Rightarrow> (u64 \<times> heap) option" where
  "mblock_link c s st = Some (c, link_mmapped (fst st) c (snd st))"

definition mblock_unlink :: "u64 \<Rightarrow> u64 \<Rightarrow> u64 \<times> heap \<Rightarrow> (u64 \<times> heap) option" where
  "mblock_unlink c s st = Some (unlink_mmapped (fst st) c (snd st))"

definition mblocks_step :: "chunks \<Rightarrow> u64 \<times> heap \<Rightarrow> u64 \<times> heap \<Rightarrow> bool" where
  "mblocks_step C st st' \<longleftrightarrow>
     (\<forall>a. a \<notin> (\<lambda>c. c + 8) ` fst ` C \<union> (\<lambda>c. c + 16) ` fst ` C \<longrightarrow> snd st' a = snd st a)"

lemma mfar_sizes:
  assumes "\<And>x y. x \<in> N \<Longrightarrow> y \<in> N \<Longrightarrow> x = y \<or> mfar x y" "x \<in> N"
  shows "x \<notin> (\<lambda>c. c + 8) ` N \<union> (\<lambda>c. c + 16) ` N"
proof -
  have "x \<noteq> y + 8 \<and> x \<noteq> y + 16" if "y \<in> N" for y
    using assms(1) [OF assms(2) that] mfar_slots(4,5) [of x y] by auto
  then show ?thesis by auto
qed

lemma sorted_mfar_pairs: "sorted_wrt mfar cs \<Longrightarrow> x \<in> set cs \<Longrightarrow> y \<in> set cs \<Longrightarrow> x = y \<or> mfar x y"
  by (induction cs) (auto intro: mfar_sym)

lemma mlist_head: "mlist h head cs \<Longrightarrow> head \<noteq> 0 \<Longrightarrow> head \<in> set cs"
  by (cases cs) auto

lemma mblocks_ins:
  assumes h: "mblocks_hold st C" and r: "mblocks_room st C c s"
  shows "\<exists>st'. mblock_link c s st = Some st' \<and> mblocks_hold st' (insert (c, s) C) \<and> mblocks_step (insert (c, s) C) st st'"
proof -
  obtain cs where cs: "mlist (snd st) (fst st) cs" "sorted_wrt mfar cs" "C = (\<lambda>c. (c, snd st c)) ` set cs"
    using h by (auto simp: mblocks_hold_def)
  have far: "mfar c x" if "x \<in> set cs" for x using r cs(3) that by (force simp: mblocks_room_def)
  have c: "c \<noteq> 0" "snd st c = s" using r by (simp_all add: mblocks_room_def)
  let ?h = "link_mmapped (fst st) c (snd st)" and ?N = "insert c (set cs)"
  have fst_C: "fst ` insert (c, s) C = ?N" by (auto simp: cs(3) image_image)
  have keep: "?h a = snd st a" if "a \<notin> (\<lambda>c. c + 8) ` ?N \<union> (\<lambda>c. c + 16) ` ?N" for a
    using that mlist_head [OF cs(1)] by (auto simp: link_mmapped_def Let_def)
  have size: "?h x = snd st x" if "x \<in> ?N" for x
    by (intro keep mfar_sizes that) (use far sorted_mfar_pairs [OF cs(2)] mfar_sym in blast)
  have "mlist ?h c (c # cs)" by (rule mlist_link [OF cs(1) c(1) far cs(2)])
  moreover have "sorted_wrt mfar (c # cs)" using far cs(2) by simp
  moreover have "insert (c, s) C = (\<lambda>c. (c, ?h c)) ` set (c # cs)"
    using size c(2) cs(3) by (auto simp: image_iff)
  ultimately have "mblocks_hold (c, ?h) (insert (c, s) C)"
    unfolding mblocks_hold_def fst_conv snd_conv by blast
  moreover have "mblocks_step (insert (c, s) C) st (c, ?h)"
    unfolding mblocks_step_def fst_C using keep by simp
  ultimately show ?thesis by (simp add: mblock_link_def)
qed

text \<open>
  One unlink: exactly the unlinked block leaves the list, and only links of blocks of the list
  are written.
\<close>

lemma unlink_one:
  assumes "mlist h head cs" "sorted_wrt mfar cs" "c \<in> set cs" "unlink_mmapped head c h = (head', h')"
  shows "mlist h' head' (filter (\<lambda>x. x \<noteq> c) cs)" "sorted_wrt mfar (filter (\<lambda>x. x \<noteq> c) cs)"
    "\<And>a. a \<notin> (\<lambda>c. c + 8) ` set cs \<union> (\<lambda>c. c + 16) ` set cs \<Longrightarrow> h' a = h a"
proof -
  obtain xs ys where sp: "cs = xs @ c # ys" using assms(3) by (auto dest: split_list)
  have far: "mfar c x" if "x \<in> set (xs @ ys)" for x
    using assms(2) that sp by (auto simp: sorted_wrt_append intro: mfar_sym)
  then have "c \<notin> set (xs @ ys)" using far [of c] by (auto simp: mfar_def)
  then have "filter (\<lambda>x. x \<noteq> c) (xs @ ys) = xs @ ys" by (intro filter_True) auto
  then have rest: "filter (\<lambda>x. x \<noteq> c) cs = xs @ ys" by (simp add: sp)
  show "mlist h' head' (filter (\<lambda>x. x \<noteq> c) cs)"
    using mlist_unlink [OF assms(1,2) [unfolded sp] assms(4)] rest by simp
  show "sorted_wrt mfar (filter (\<lambda>x. x \<noteq> c) cs)" by (rule sorted_wrt_filter [OF assms(2)])
  have links: "mch_prev h c \<noteq> 0 \<Longrightarrow> mch_prev h c \<in> set cs" "mch_next h c \<noteq> 0 \<Longrightarrow> mch_next h c \<in> set cs"
    using assms(1) unfolding sp mseg_append by (cases xs rule: rev_cases; cases ys; auto)+
  show "h' a = h a" if "a \<notin> (\<lambda>c. c + 8) ` set cs \<union> (\<lambda>c. c + 16) ` set cs" for a
    using assms(4) that links by (auto simp: unlink_mmapped_def Let_def split: if_splits)
qed

lemma mblocks_unl:
  assumes h: "mblocks_hold st C" and m: "(c, s) \<in> C"
  shows "\<exists>st'. mblock_unlink c s st = Some st' \<and> mblocks_hold st' (C - {(c, s)})
    \<and> mblocks_room st' (C - {(c, s)}) c s \<and> mblocks_step C st st'"
proof -
  obtain cs where cs: "mlist (snd st) (fst st) cs" "sorted_wrt mfar cs" "C = (\<lambda>c. (c, snd st c)) ` set cs"
    using h by (auto simp: mblocks_hold_def)
  have c: "c \<in> set cs" and s: "s = snd st c" using m cs(3) by auto
  obtain head' h' where un: "unlink_mmapped (fst st) c (snd st) = (head', h')" by fastforce
  note one = unlink_one [OF cs(1,2) c un]
  have size: "h' x = snd st x" if "x \<in> set cs" for x
    by (intro one(3) mfar_sizes that) (use sorted_mfar_pairs [OF cs(2)] in blast)
  have C': "C - {(c, s)} = (\<lambda>x. (x, h' x)) ` set (filter (\<lambda>x. x \<noteq> c) cs)"
    using size cs(3) s by (auto simp: image_iff)
  have "mblocks_hold (head', h') (C - {(c, s)})" using one(1,2) C' by (auto simp: mblocks_hold_def)
  moreover have "mblocks_room (head', h') (C - {(c, s)}) c s"
    using mseg_nonzero [OF cs(1), of c] sorted_mfar_pairs [OF cs(2) c] size [OF c] s c
    unfolding C' by (auto simp: mblocks_room_def)
  moreover have "fst ` C = set cs" by (simp add: cs(3) image_image)
  then have "mblocks_step C st (head', h')" using one(3) by (simp add: mblocks_step_def)
  ultimately show ?thesis using un by (simp add: mblock_unlink_def)
qed

interpretation mblocks: chunk_store mblocks_hold mblocks_room mblock_link mblock_unlink mblocks_step
proof
  show "(p, s) \<notin> C" if "mblocks_hold st C" "mblocks_room st C p s" for st C p s
    using that by (force simp: mblocks_room_def mfar_def)
qed (fact mblocks_ins mblocks_unl)+

text \<open>Unlinking the blocks of a list one after the other, the state being the head and the heap.\<close>

fun unlink_blocks :: "u64 list \<Rightarrow> u64 \<times> heap \<Rightarrow> u64 \<times> heap" where
  "unlink_blocks [] st = st"
| "unlink_blocks (p # ps) st = unlink_blocks ps (unlink_mmapped (fst st) p (snd st))"

lemma unlink_blocks_rest:
  assumes "mlist h head cs" "sorted_wrt mfar cs" "distinct ps" "set ps \<subseteq> set cs"
    "unlink_blocks ps (head, h) = (head', h')"
  shows "mlist h' head' (filter (\<lambda>x. x \<notin> set ps) cs)
    \<and> (\<forall>a. a \<notin> (\<lambda>c. c + 8) ` set cs \<union> (\<lambda>c. c + 16) ` set cs \<longrightarrow> h' a = h a)"
  using assms
proof (induction ps arbitrary: h head cs)
  case Nil
  then show ?case by simp
next
  case (Cons p ps)
  obtain hd1 h1 where un: "unlink_mmapped head p h = (hd1, h1)" by fastforce
  have "p \<in> set cs" using Cons.prems(4) by simp
  note one = unlink_one [OF Cons.prems(1,2) this un]
  let ?cs = "filter (\<lambda>x. x \<noteq> p) cs"
  have ps: "distinct ps" "set ps \<subseteq> set ?cs" using Cons.prems(3,4) by auto
  have "unlink_blocks ps (hd1, h1) = (head', h')" using Cons.prems(5) un by simp
  note IH = Cons.IH [OF one(1,2) ps this]
  have "filter (\<lambda>x. x \<notin> set ps) ?cs = filter (\<lambda>x. x \<notin> set (p # ps)) cs" by (simp add: conj_commute)
  moreover have "h' a = h a" if "a \<notin> (\<lambda>c. c + 8) ` set cs \<union> (\<lambda>c. c + 16) ` set cs" for a
  proof -
    have "a \<notin> (\<lambda>c. c + 8) ` set ?cs \<union> (\<lambda>c. c + 16) ` set ?cs" using that by auto
    then show ?thesis using IH one(3) [OF that] by simp
  qed
  ultimately show ?case using IH by simp
qed

lemma link_unlink:
  assumes "mlist h head cs" "c \<noteq> 0" "sorted_wrt mfar (c # cs)"
  shows "\<exists>h'. unlink_mmapped c c (link_mmapped head c h) = (head, h') \<and> mlist h' head cs
    \<and> (\<forall>a. a \<noteq> c + 8 \<and> a \<noteq> c + 16 \<longrightarrow> h' a = h a)"
proof -
  have "mlist (link_mmapped head c h) c (c # cs)" using assms by (intro mlist_link) simp_all
  then have new: "mlist h' head' cs" if "unlink_mmapped c c (link_mmapped head c h) = (head', h')" for head' h'
    using mlist_unlink [where xs = "[]" and ys = cs, OF _ _ that] assms(3) by simp
  show ?thesis
  proof (cases cs)
    case Nil
    have "head = 0" using assms(1) Nil by simp
    then have "unlink_mmapped c c (link_mmapped head c h) = (head, h(c + 8 := 0, c + 16 := 0))"
      by (simp add: link_mmapped_def unlink_mmapped_def)
    then show ?thesis using new by auto
  next
    case (Cons x xs)
    have x: "head = x" "x \<noteq> 0" "h (x + 8) = 0" "mfar c x" using assms Cons by auto
    define k where "k = h(c + 8 := 0, c + 16 := head, x + 8 := c)"
    have "c + 8 \<noteq> x + 8" "c + 16 \<noteq> x + 8" using mfar_slots(6,8) [OF x(4)] by simp_all
    then have k: "k (c + 8) = 0" "k (c + 16) = x" by (simp_all add: k_def x(1))
    have "link_mmapped head c h = k" by (simp only: link_mmapped_def Let_def k_def x(1,2) not_False_eq_True if_True)
    then have "unlink_mmapped c c (link_mmapped head c h) = (head, k(x + 8 := 0))"
      using k x(1,2) by (simp add: unlink_mmapped_def)
    then have "unlink_mmapped c c (link_mmapped head c h)
      = (head, h(c + 8 := 0, c + 16 := head, x + 8 := c, x + 8 := 0))" by (simp only: k_def)
    moreover have "(h(c + 8 := 0, c + 16 := head, x + 8 := c, x + 8 := 0)) a = h a"
      if "a \<noteq> c + 8 \<and> a \<noteq> c + 16" for a using that x(3) by simp
    ultimately show ?thesis using new by blast
  qed
qed

text \<open>
  C30: The list of directly mapped blocks of a source survives any allocation and release. Linking
  a block in front makes it the head of a well-formed doubly-linked list of it and the old blocks
  in their order; unlinking it again gives back the old head and the old list, with no word of
  memory changed but the block's own two links. Unlinking any of the blocks, in any order, leaves
  a well-formed list of exactly the other blocks in their order, and changes no word but links of
  blocks of the list: their sizes and data stay as they were.
\<close>

theorem mmapped_list_unlink:
  assumes "mlist h head cs" "c \<noteq> 0" "sorted_wrt mfar (c # cs)" "distinct ps" "set ps \<subseteq> set (c # cs)"
  shows "mlist (link_mmapped head c h) c (c # cs)
    \<and> (\<exists>h'. unlink_mmapped c c (link_mmapped head c h) = (head, h') \<and> mlist h' head cs
      \<and> (\<forall>a. a \<noteq> c + 8 \<and> a \<noteq> c + 16 \<longrightarrow> h' a = h a))
    \<and> (\<exists>head' h'. unlink_blocks ps (c, link_mmapped head c h) = (head', h')
      \<and> mlist h' head' (filter (\<lambda>x. x \<notin> set ps) (c # cs))
      \<and> (\<forall>a. a \<notin> (\<lambda>x. x + 8) ` set (c # cs) \<union> (\<lambda>x. x + 16) ` set (c # cs) \<longrightarrow> h' a = h a))"
proof (intro conjI)
  show linked: "mlist (link_mmapped head c h) c (c # cs)" using assms by (intro mlist_link) simp_all
  show "\<exists>h'. unlink_mmapped c c (link_mmapped head c h) = (head, h') \<and> mlist h' head cs
      \<and> (\<forall>a. a \<noteq> c + 8 \<and> a \<noteq> c + 16 \<longrightarrow> h' a = h a)"
    by (rule link_unlink [OF assms(1-3)])
  obtain head' h' where un: "unlink_blocks ps (c, link_mmapped head c h) = (head', h')" by fastforce
  have "link_mmapped head c h a = h a"
    if "a \<notin> (\<lambda>x. x + 8) ` set (c # cs) \<union> (\<lambda>x. x + 16) ` set (c # cs)" for a
    using that mlist_head [OF assms(1)] by (auto simp: link_mmapped_def Let_def)
  then show "\<exists>head' h'. unlink_blocks ps (c, link_mmapped head c h) = (head', h')
      \<and> mlist h' head' (filter (\<lambda>x. x \<notin> set ps) (c # cs))
      \<and> (\<forall>a. a \<notin> (\<lambda>x. x + 8) ` set (c # cs) \<union> (\<lambda>x. x + 16) ` set (c # cs) \<longrightarrow> h' a = h a)"
    using unlink_blocks_rest [OF linked assms(3-5) un] un by simp
qed

text \<open>Three blocks, the middle one released.\<close>

theorem mmapped_list_unlink_wit:
  "\<exists>head' h'. unlink_blocks [0x20000] (0x30000, link_mmapped 0x20000 0x30000
       (link_mmapped 0x10000 0x20000 (link_mmapped 0 0x10000 (\<lambda>_. 0)))) = (head', h')
     \<and> mlist h' head' [0x30000, 0x10000]"
proof -
  let ?h = "link_mmapped 0x10000 0x20000 (link_mmapped 0 0x10000 (\<lambda>_. 0))"
  have l: "mlist ?h 0x20000 [0x20000, 0x10000]" by (simp add: link_mmapped_def)
  have f: "sorted_wrt mfar [0x30000, 0x20000, 0x10000]" by (simp add: mfar_def word_le_nat_alt)
  show ?thesis using mmapped_list_unlink [OF l _ f, of "[0x20000]"] by auto
qed

section \<open>Aligned blocks\<close>

lemma align_mask_2: "ALIGN_MASK (2 ^ k) = mask k"
  by (simp add: ALIGN_MASK_def mask_eq_exp_minus_1)

lemma unat_2_pow_64: "k < 64 \<Longrightarrow> unat ((2::u64) ^ k) = 2 ^ k"
  by (rule unat_2_pow)

lemma is_aligned_2: "k < 64 \<Longrightarrow> IS_ALIGNED p (2 ^ k) \<longleftrightarrow> 2 ^ k dvd unat p"
  by (simp only: IS_ALIGNED_def align_mask_2 unat_eq_0 [symmetric] unat_and_mask dvd_eq_mod_eq_0)

lemma unat_and_not_mask: "unat ((v::u64) AND NOT (mask k)) = 2 ^ k * (unat v div 2 ^ k)"
proof -
  have "v AND NOT (mask k) = push_bit k (drop_bit k v)" by (rule bit_word_eqI) (auto simp: bit_simps)
  then have "unat (v AND NOT (mask k)) = take_bit LENGTH(64) (push_bit k (unat (drop_bit k v)))"
    by (simp only: unsigned_push_bit_eq)
  also have "push_bit k (unat (drop_bit k v)) = 2 ^ k * (unat v div 2 ^ k)"
    by (simp only: push_bit_eq_mult unat_drop_bit mult.commute)
  also have "take_bit LENGTH(64) (2 ^ k * (unat v div 2 ^ k)) = 2 ^ k * (unat v div 2 ^ k)"
  proof (rule take_bit_nat_eq_self)
    have "2 ^ k * (unat v div 2 ^ k) \<le> unat v" by simp
    then show "2 ^ k * (unat v div 2 ^ k) < 2 ^ LENGTH(64)" using unsigned_less [of v] by (rule le_less_trans)
  qed
  finally show ?thesis .
qed

lemma unat_ALIGN_UP:
  assumes "k < 64" "unat p + 2 ^ k \<le> 2 ^ 64"
  shows "unat (ALIGN_UP p (2 ^ k)) = 2 ^ k * ((unat p + 2 ^ k - 1) div 2 ^ k)"
proof -
  have m: "unat (mask k :: u64) = 2 ^ k - 1"
    using unat_2_pow [OF assms(1)] by (simp only: mask_eq_exp_minus_1) (subst unat_minus_one, use assms(1) in auto)
  have "unat (p + mask k) = unat p + (2 ^ k - 1)"
    using assms(2) m by (subst unat_add64) (auto simp: m)
  then show ?thesis unfolding ALIGN_UP_def align_mask_2 unat_and_not_mask by (simp add: Nat.add_diff_assoc)
qed

lemma ALIGN_UP_range:
  assumes "k < 64" "unat p + 2 ^ k \<le> 2 ^ 64"
  shows "unat p \<le> unat (ALIGN_UP p (2 ^ k))" "unat (ALIGN_UP p (2 ^ k)) < unat p + 2 ^ k"
    "2 ^ k dvd unat (ALIGN_UP p (2 ^ k))"
proof -
  let ?n = "unat p + 2 ^ k - 1"
  have e: "2 ^ k * (?n div 2 ^ k) + ?n mod 2 ^ k = ?n" by (rule mult_div_mod_eq)
  have m: "?n mod 2 ^ k < 2 ^ k" by simp
  have pos: "(0::nat) < 2 ^ k" by simp
  show "unat p \<le> unat (ALIGN_UP p (2 ^ k))" "unat (ALIGN_UP p (2 ^ k)) < unat p + 2 ^ k"
    unfolding unat_ALIGN_UP [OF assms] using e m pos by linarith+
  show "2 ^ k dvd unat (ALIGN_UP p (2 ^ k))" by (simp only: unat_ALIGN_UP [OF assms] dvd_triv_left)
qed

lemma footer_offset_16 [simp]: "footer_offset = 16" "mmap_footer_offset = 40"
  by (simp_all add: footer_offset_def mmap_footer_offset_def SIZEOF_CHUNK_FOOTER_def ALIGN_UP_def ALIGN_MASK_def)

lemma get_footer_direct: "ft_source h (footer_of p) \<noteq> 0 \<Longrightarrow> get_footer_for_mem h p = Some (footer_of p)"
  by (simp add: get_footer_for_mem_def footer_loop.simps)

lemma get_footer_link:
  "ft_source h (footer_of q) = 0 \<Longrightarrow> ft_link h (footer_of q) = f \<Longrightarrow> ft_source h f \<noteq> 0
    \<Longrightarrow> get_footer_for_mem h q = Some f"
  by (simp add: get_footer_for_mem_def footer_loop.simps)

text \<open>A source at \<open>0x5000\<close> that maps every block, and a system whose mappings start at \<open>0x100000\<close>.\<close>

definition demo_env :: build_env where
  "demo_env = \<lparr>pgasus_mmap_threshold = 33554432, getpagesize = 4096\<rparr>"

definition fixed_sys :: "nat nsys" where
  "fixed_sys = quiet_sys\<lparr>os_mmap := \<lambda>s w. (0x100000, Suc w)\<rparr>"

definition demo_source :: msource_rec where
  "demo_source = \<lparr>ms_description = ''demo'', ms_node = 0, ms_node_home = - 1, ms_mmap_threshold = 0,
     ms_mem_size = 0x4000, ms_arenas = [], ms_native_arena = 0, ms_mmapped_head = 0,
     ms_blocks = bc_pack 1 0\<rparr>"

definition demo_numa :: "nat numa_state" where
  "demo_numa = \<lparr>ns_mem = (\<lambda>_. 0), ns_sources = [0x5000 \<mapsto> demo_source], ns_all = [0x5000],
     ns_params = \<lparr>mp_magic = 0, mp_page_size = 0, mp_granularity = 0, mp_mmap_threshold = 0,
                  mp_trim_threshold = 0, mp_default_mflags = 0\<rparr>, ns_world = 0\<rparr>"

end
