(* ===== verification/Pt_Layout.thy ===== *)
theory Pt_Layout
  imports Pt_Malloc
begin

text \<open>
  How the memory of a malloc space is cut into chunks, and what has to hold of it between two
  calls: the chunks lie one behind the other, from the end of \<open>struct malloc_state\<close> to the top
  chunk; heads and feet say their sizes and which are in use; no two free chunks are
  neighbours; the free chunks are those in the bins and the designated victim.
\<close>

section \<open>Distances of addresses\<close>

lemma unat_lt64: "unat (x::u64) < 2 ^ 64"
  using unsigned_less [of x] by simp

lemma far_unat:
  assumes "unat p + 16 \<le> unat q" "16 \<le> unat p"
  shows "far p q" "far q p"
proof -
  have "p \<le> q" using assms by (simp add: word_le_nat_alt)
  then have d: "unat (q - p) = unat q - unat p" by (rule unat_sub)
  have "unat (p - q) = 2 ^ 64 - (unat q - unat p)"
    using assms unat_lt64 [of q] by (simp add: unat_sub_if')
  then show "far p q" using d assms unat_lt64 [of q] unfolding far_def word_le_nat_alt by simp linarith
  then show "far q p" by (rule far_sym)
qed

lemma nfar_unat:
  assumes "unat p + 64 \<le> unat q" "64 \<le> unat p"
  shows "nfar p q" "nfar q p"
proof -
  have "p \<le> q" using assms by (simp add: word_le_nat_alt)
  then have d: "unat (q - p) = unat q - unat p" by (rule unat_sub)
  have "unat (p - q) = 2 ^ 64 - (unat q - unat p)"
    using assms unat_lt64 [of q] by (simp add: unat_sub_if')
  then show "nfar p q" using d assms unat_lt64 [of q] unfolding nfar_def word_le_nat_alt by simp linarith
  then show "nfar q p" by (rule nfar_sym)
qed

lemma misses_unat:
  assumes "unat H < unat n" "64 \<le> unat H"
  shows "misses n H"
proof -
  have "unat (H - n) = 2 ^ 64 - (unat n - unat H)"
    using assms unat_lt64 [of n] by (simp add: unat_sub_if')
  then show ?thesis using assms unat_lt64 [of n] by (simp add: misses_def word_le_nat_alt)
qed

section \<open>Chunks one behind the other\<close>

datatype use = Used | Free | Top

type_synonym layout = "(u64 \<times> u64 \<times> use) list"

text \<open>
  \<open>laid h b a cs e\<close>: from \<open>a\<close> to \<open>e\<close> memory is cut into the chunks \<open>cs\<close>, each given by address, size
  and use; \<open>b\<close> says whether the chunk before them is in use.
\<close>

fun laid :: "heap \<Rightarrow> bool \<Rightarrow> nat \<Rightarrow> layout \<Rightarrow> nat \<Rightarrow> bool" where
  "laid h b a [] e \<longleftrightarrow> a = e"
| "laid h b a ((p, s, k) # cs) e \<longleftrightarrow>
     unat p = a \<and> s AND 7 = 0 \<and> 0 < unat s \<and> (k = Top \<or> 32 \<le> unat s)
     \<and> (k = Used \<or> b) \<and> h (p + 8) = head_word s b (k = Used)
     \<and> (k = Free \<longrightarrow> h (p + s) = s)
     \<and> laid h (k = Used) (a + unat s) cs e"

text \<open>Whether the last chunk of a part of the layout is in use.\<close>

definition after :: "bool \<Rightarrow> layout \<Rightarrow> bool" where
  "after b cs = (if cs = [] then b else snd (snd (last cs)) = Used)"

lemma after_simps [simp]:
  "after b [] = b" "after b (cs @ [(p, s, k)]) \<longleftrightarrow> k = Used"
  "after b ((p, s, k) # cs) = after (k = Used) cs"
  by (simp_all add: after_def)

lemma laid_append:
  "laid h b a (xs @ ys) e \<longleftrightarrow> (\<exists>d. laid h b a xs d \<and> laid h (after b xs) d ys e)"
  by (induction xs arbitrary: a b) auto

lemma laid_le: "laid h b a cs e \<Longrightarrow> a \<le> e"
  by (induction h b a cs e rule: laid.induct) auto

lemma laid_mem:
  "laid h b a cs e \<Longrightarrow> (p, s, k) \<in> set cs \<Longrightarrow>
     a \<le> unat p \<and> unat p + unat s \<le> e \<and> s AND 7 = 0 \<and> 0 < unat s \<and> (k = Top \<or> 32 \<le> unat s)"
  by (induction h b a cs e rule: laid.induct) (auto dest: laid_le)

lemma laid_apart:
  assumes "laid h b a cs e" "(p, s, k) \<in> set cs" "(q, t, l) \<in> set cs"
  shows "(p, s, k) = (q, t, l) \<or> unat p + unat s \<le> unat q \<or> unat q + unat t \<le> unat p"
  using assms by (induction h b a cs e rule: laid.induct) (auto dest: laid_mem)

lemma laid_inj:
  assumes "laid h b a cs e" "(p, s, k) \<in> set cs" "(p, t, l) \<in> set cs"
  shows "s = t \<and> k = l"
  using laid_apart [OF assms] laid_mem [OF assms(1,2)] laid_mem [OF assms(1,3)] by auto

lemma laid_distinct: "laid h b a cs e \<Longrightarrow> distinct (map fst cs)"
proof (induction h b a cs e rule: laid.induct)
  case (2 h b a p s k cs e)
  have "p \<noteq> q" if "(q, t, l) \<in> set cs" for q t l
    using "2.prems" laid_mem [OF _ that, of h "k = Used" "a + unat s" e] by auto
  then show ?case using 2 by force
qed simp

text \<open>The head and the foot of a chunk.\<close>

lemma laid_head:
  assumes "laid h b a (xs @ (p, s, k) # ys) e"
  shows "h (p + 8) = head_word s (after b xs) (k = Used)" "k = Free \<Longrightarrow> h (p + s) = s"
    "k \<noteq> Used \<Longrightarrow> after b xs" "laid h (after b xs) (unat p) ((p, s, k) # ys) e"
    "laid h b a xs (unat p)"
  using assms by (auto simp: laid_append)

lemma laid_cong:
  assumes "\<And>p s k. (p, s, k) \<in> set cs \<Longrightarrow> h' (p + 8) = h (p + 8) \<and> (k = Free \<longrightarrow> h' (p + s) = h (p + s))"
  shows "laid h' b a cs e = laid h b a cs e"
  using assms
proof (induction cs arbitrary: b a)
  case (Cons c cs)
  obtain p s k where c: "c = (p, s, k)" by (cases c)
  have "laid h' (k = Used) x cs e = laid h (k = Used) x cs e" for x by (rule Cons.IH) (use Cons.prems in auto)
  moreover have "h' (p + 8) = h (p + 8) \<and> (k = Free \<longrightarrow> h' (p + s) = h (p + s))"
    by (rule Cons.prems) (simp add: c)
  ultimately show ?case by (auto simp: c)
qed simp

text \<open>Slots outside \<open>[d + 8, d' + 8]\<close> keep the chunks before \<open>d\<close> and those behind the one at \<open>d'\<close>.\<close>

lemma laid_before:
  assumes "laid h b a xs d" "d < 2 ^ 64 - 8" "\<And>x. unat x < d + 8 \<Longrightarrow> h' x = h x"
  shows "laid h' b a xs d"
proof -
  have "h' (p + 8) = h (p + 8) \<and> (k = Free \<longrightarrow> h' (p + s) = h (p + s))" if "(p, s, k) \<in> set xs" for p s k
  proof -
    have "unat p + unat s \<le> d" "0 < unat s" using laid_mem [OF assms(1) that] by auto
    then have "unat (p + 8) < d + 8" "unat (p + s) < d + 8" using assms(2) by (simp_all add: unat_add64)
    then show ?thesis using assms(3) by simp
  qed
  then show ?thesis using laid_cong [of xs h' h b a d] assms(1) by simp
qed

lemma laid_behind:
  assumes "laid h b a cs e" "e < 2 ^ 64 - 8" "\<And>x. a + 8 \<le> unat x \<Longrightarrow> h' x = h x"
  shows "laid h' b a cs e"
proof -
  have "h' (p + 8) = h (p + 8) \<and> (k = Free \<longrightarrow> h' (p + s) = h (p + s))" if "(p, s, k) \<in> set cs" for p s k
  proof -
    have l: "a \<le> unat p" "unat p + unat s \<le> e" "0 < unat s" "k = Top \<or> 32 \<le> unat s"
      using laid_mem [OF assms(1) that] by auto
    then have "a + 8 \<le> unat (p + 8)" "k = Free \<Longrightarrow> a + 8 \<le> unat (p + s)"
      using assms(2) by (simp_all add: unat_add64)
    then show ?thesis using assms(3) by simp
  qed
  then show ?thesis using laid_cong [of cs h' h b a e] assms(1) by simp
qed

lemma laid_next:
  assumes "laid h b a ((n, t, l) # ys) e" "e < 2 ^ 64 - 8"
    and "\<And>x. a + 8 < unat x \<Longrightarrow> h' x = h x" "h' (n + 8) = head_word t c (l = Used)" "l = Used \<or> c"
  shows "laid h' c a ((n, t, l) # ys) e"
proof -
  have t: "0 < unat t" "a + unat t \<le> e" "unat n = a" "t AND 7 = 0" using assms(1) by (auto dest: laid_le)
  then have "8 \<le> unat t" by (auto simp: and_7_eq_0_iff intro: dvd_imp_le)
  have "laid h' (l = Used) (a + unat t) ys e"
    by (rule laid_behind [OF _ assms(2) assms(3)]) (use assms(1) \<open>8 \<le> unat t\<close> t in auto)
  moreover have "h' (n + t) = h (n + t)" if "l = Free"
    using that assms(1,2) t by (intro assms(3)) (auto simp: unat_add64)
  ultimately show ?thesis using assms by auto
qed

text \<open>
  Cutting anew: the chunks \<open>old\<close> between \<open>d\<close> and \<open>d'\<close> are replaced by \<open>new\<close>, and the next chunk's head
  says whether the last of them is in use.
\<close>

lemma laid_splice:
  assumes l: "laid h b a (xs @ old @ (n, t, l) # ys) e" "e < 2 ^ 64 - 8"
    and d: "laid h (after b xs) d old (unat n)"
    and out: "\<And>x. unat x < d + 8 \<or> unat n + 8 < unat x \<Longrightarrow> h' x = h x"
    and new: "laid h' (after b xs) d new (unat n)"
    and nxt: "h' (n + 8) = head_word t (after (after b xs) new) (l = Used)" "l = Used \<or> after (after b xs) new"
  shows "laid h' b a (xs @ new @ (n, t, l) # ys) e"
proof -
  obtain d1 where d1: "laid h b a xs d1" "laid h (after b xs) d1 (old @ (n, t, l) # ys) e"
    using l(1) by (auto simp: laid_append)
  have n: "laid h (after (after b xs) old) (unat n) ((n, t, l) # ys) e" using d1(2) by (auto simp: laid_append)
  have "d1 = d"
  proof -
    have sum: "laid h c x zs y \<Longrightarrow> x + sum_list (map (\<lambda>(p, s, k). unat s) zs) = y" for c x zs y
      by (induction h c x zs y rule: laid.induct) auto
    obtain y where "laid h (after b xs) d1 old y" "laid h (after (after b xs) old) y ((n, t, l) # ys) e"
      using d1(2) by (auto simp: laid_append)
    then have "laid h (after b xs) d1 old (unat n)" by auto
    from sum [OF this] sum [OF d] show ?thesis by simp
  qed
  have le: "d \<le> unat n" "unat n \<le> e" using laid_le [OF d] laid_le [OF n] by auto
  have "laid h' b a xs d"
    using laid_before [OF d1(1) [unfolded \<open>d1 = d\<close>], of h'] le l(2) out by auto
  moreover have "laid h' (after (after b xs) new) (unat n) ((n, t, l) # ys) e"
    by (rule laid_next [OF n l(2)]) (use out nxt in auto)
  ultimately show ?thesis using new by (auto simp: laid_append)
qed

section \<open>The skeleton of a space\<close>

text \<open>
  A space in one piece of memory that somebody else owns, as \<open>create_mspace_with_base\<close> makes it: behind
  \<open>struct malloc_state\<close>, whose last 8 bytes are the \<open>prev_foot\<close> of the first chunk, lie the chunks
  \<open>cs\<close>, the top chunk and \<open>TOP_FOOT_SIZE\<close> bytes; the only segment is external.
\<close>

definition space_start :: "mstate \<Rightarrow> nat" where "space_start m = unat (maddr m) + 920"
definition space_end :: "mstate \<Rightarrow> nat" where "space_end m = unat (m_top m) + unat (topsize m)"

definition extern_space :: "mstate \<Rightarrow> bool" where
  "extern_space m \<longleftrightarrow> unat (seg_base m (main_seg m)) \<le> unat (maddr m)
     \<and> space_end m + unat TOP_FOOT_SIZE \<le> unat (seg_base m (main_seg m)) + unat (seg_size m (main_seg m))
     \<and> unat (seg_base m (main_seg m)) + unat (seg_size m (main_seg m)) < 2 ^ 64
     \<and> seg_next m (main_seg m) = 0 \<and> is_extern_segment m (main_seg m)"

definition skeleton :: "mstate \<Rightarrow> layout \<Rightarrow> bool" where
  "skeleton m cs \<longleftrightarrow> 64 \<le> unat (maddr m) \<and> maddr m AND 7 = 0 \<and> least_addr m \<le> maddr m
     \<and> space_end m < space_start m + 2 ^ 40 \<and> extern_space m
     \<and> (\<forall>(p, s, k)\<in>set cs. k \<noteq> Top)
     \<and> laid (hp m) True (space_start m) (cs @ [(m_top m, topsize m, Top)]) (space_end m)"

definition frees :: "layout \<Rightarrow> chunks" where "frees cs = {(p, s). (p, s, Free) \<in> set cs}"
definition useds :: "layout \<Rightarrow> chunks" where "useds cs = {(p, s). (p, s, Used) \<in> set cs}"

lemma frees_simps [simp]:
  "frees [] = {}" "frees (xs @ ys) = frees xs \<union> frees ys"
  "frees ((p, s, k) # cs) = (if k = Free then insert (p, s) (frees cs) else frees cs)"
  by (auto simp: frees_def)

lemma useds_simps [simp]:
  "useds [] = {}" "useds (xs @ ys) = useds xs \<union> useds ys"
  "useds ((p, s, k) # cs) = (if k = Used then insert (p, s) (useds cs) else useds cs)"
  by (auto simp: useds_def)

text \<open>The slots the users of the used chunks may write.\<close>

definition payload :: "u64 \<Rightarrow> u64 \<Rightarrow> u64 set" where
  "payload p s = {x. unat p + 16 \<le> unat x \<and> unat x \<le> unat p + unat s}"

definition payloads :: "chunks \<Rightarrow> u64 set" where "payloads U = (\<Union>(p, s)\<in>U. payload p s)"

text \<open>
  What the allocator never touches: everything but the bins in its own record and the chunks.
\<close>

definition foreign :: "mstate \<Rightarrow> u64 set" where
  "foreign m = {x. unat x < unat (maddr m) + 72
     \<or> (unat (maddr m) + 880 \<le> unat x \<and> unat x < space_start m + 8) \<or> space_end m + 8 < unat x}"

definition kept :: "u64 set \<Rightarrow> mstate \<Rightarrow> mstate \<Rightarrow> bool" where
  "kept P m m' \<longleftrightarrow> (\<forall>x\<in>P \<union> foreign m. hp m' x = hp m x) \<and> maddr m' = maddr m \<and> space_end m' = space_end m"

lemma foreign_cong: "maddr m' = maddr m \<Longrightarrow> space_end m' = space_end m \<Longrightarrow> foreign m' = foreign m"
  by (simp add: foreign_def space_start_def)

lemma kept_refl [simp]:
  "hp m' = hp m \<Longrightarrow> maddr m' = maddr m \<Longrightarrow> m_top m' = m_top m \<Longrightarrow> topsize m' = topsize m \<Longrightarrow> kept P m m'"
  by (simp add: kept_def space_end_def)

lemma kept_trans: "kept P m m' \<Longrightarrow> kept P m' m'' \<Longrightarrow> kept P m m''"
  using foreign_cong [of m' m] by (simp add: kept_def)

lemma kept_mono: "kept P m m' \<Longrightarrow> Q \<subseteq> P \<Longrightarrow> kept Q m m'"
  by (auto simp: kept_def)

lemma TOP_FOOT_SIZE_eq: "TOP_FOOT_SIZE = 72"
  by (simp add: TOP_FOOT_SIZE_def align_offset_def chunk2mem_def pad_request_def SIZEOF_MALLOC_SEGMENT_def)

lemma skeleton_bounds:
  assumes "skeleton m cs"
  shows "64 \<le> unat (maddr m)" "space_end m + 72 < 2 ^ 64" "space_end m < space_start m + 2 ^ 40"
    "least_addr m \<le> maddr m" "laid (hp m) True (space_start m) (cs @ [(m_top m, topsize m, Top)]) (space_end m)"
    "space_start m \<le> space_end m"
  using assms laid_le by (auto simp: skeleton_def extern_space_def TOP_FOOT_SIZE_eq)

lemma skeleton_mem:
  assumes "skeleton m cs" "(p, s, k) \<in> set cs"
  shows "space_start m \<le> unat p" "unat p + unat s \<le> unat (m_top m)" "s AND 7 = 0" "32 \<le> unat s" "unat s < 2 ^ 40"
    "unat p + unat s < 2 ^ 64 - 72" "ok_address m p" "unat (p + s) = unat p + unat s"
proof -
  note b = skeleton_bounds [OF assms(1)]
  have m: "(p, s, k) \<in> set (cs @ [(m_top m, topsize m, Top)])" using assms(2) by simp
  have k: "k \<noteq> Top" using assms unfolding skeleton_def by auto
  note * = laid_mem [OF b(5) m]
  show "space_start m \<le> unat p" "s AND 7 = 0" "32 \<le> unat s" using * k by simp_all
  have "laid (hp m) True (space_start m) cs (unat (m_top m))" using b(5) by (simp add: laid_append)
  from laid_mem [OF this assms(2)] show top: "unat p + unat s \<le> unat (m_top m)" by simp
  then show "unat s < 2 ^ 40" using b(3) * by (simp add: space_end_def)
  have lt: "unat (m_top m) + 72 < 2 ^ 64" using b(2) by (simp add: space_end_def)
  then show "unat p + unat s < 2 ^ 64 - 72" using top by linarith
  have "unat p + unat s < 2 ^ 64" using top lt by linarith
  then show "unat (p + s) = unat p + unat s" by (simp add: unat_add64)
  have "unat (least_addr m) \<le> unat (maddr m)" using b(4) by (simp add: word_le_nat_alt)
  moreover have "unat (maddr m) \<le> unat p" using * by (simp add: space_start_def)
  ultimately show "ok_address m p" by (simp add: ok_address_def word_le_nat_alt)
qed

lemma skeleton_apart:
  assumes "skeleton m cs" "(p, s, k) \<in> set cs" "(q, t, l) \<in> set cs"
  shows "(p, s, k) = (q, t, l) \<or> unat p + unat s \<le> unat q \<or> unat q + unat t \<le> unat p"
  using laid_apart [OF skeleton_bounds(5) [OF assms(1)], of p s k q t l] assms(2,3) by auto

section \<open>Where the bins keep their links\<close>

definition bin_slots :: "mstate \<Rightarrow> chunks \<Rightarrow> nat \<Rightarrow> u64 set" where
  "bin_slots m C k = {x. unat (maddr m) + 72 \<le> unat x \<and> unat x < unat (maddr m) + 880
     \<or> (\<exists>(p, s)\<in>C. unat p + k \<le> unat x \<and> unat x < unat p + unat s)}"

lemma bin_slotsI:
  "unat (maddr m) + 72 \<le> unat x \<Longrightarrow> unat x < unat (maddr m) + 880 \<Longrightarrow> x \<in> bin_slots m C k"
  "(p, s) \<in> C \<Longrightarrow> unat p + k \<le> unat x \<Longrightarrow> unat x < unat p + unat s \<Longrightarrow> x \<in> bin_slots m C k"
  unfolding bin_slots_def by auto

lemma header_slots:
  assumes "unat (maddr m) + 920 < 2 ^ 64" "i < 32"
  shows "unat (smallbin_at m i + 16) = unat (maddr m) + 88 + 16 * i"
    "unat (smallbin_at m i + 24) = unat (maddr m) + 96 + 16 * i"
    "unat (smallbin_at m i) = unat (maddr m) + 72 + 16 * i"
    "unat (treebin_at m i) = unat (maddr m) + 600 + 8 * i"
proof -
  have a: "unat (maddr m + of_nat k) = unat (maddr m) + k" if "k < 900" for k
  proof -
    have "unat (of_nat k :: u64) = k" using that by (simp add: unat_of_nat)
    then show ?thesis using assms(1) that by (simp add: unat_add64)
  qed
  have e: "smallbin_at m i + 16 = maddr m + of_nat (88 + 16 * i)" "smallbin_at m i + 24 = maddr m + of_nat (96 + 16 * i)"
    "smallbin_at m i = maddr m + of_nat (72 + 16 * i)" "treebin_at m i = maddr m + of_nat (600 + 8 * i)"
    by (simp_all add: smallbin_at_def treebin_at_def)
  have "88 + 16 * i < 900" "96 + 16 * i < 900" "72 + 16 * i < 900" "600 + 8 * i < 900" using assms(2) by simp_all
  note u = this [THEN a]
  show "unat (smallbin_at m i + 16) = unat (maddr m) + 88 + 16 * i" unfolding e(1) using u(1) by linarith
  show "unat (smallbin_at m i + 24) = unat (maddr m) + 96 + 16 * i" unfolding e(2) using u(2) by linarith
  show "unat (smallbin_at m i) = unat (maddr m) + 72 + 16 * i" unfolding e(3) using u(3) by linarith
  show "unat (treebin_at m i) = unat (maddr m) + 600 + 8 * i" unfolding e(4) using u(4) by linarith
qed

definition whole_region :: "mstate \<Rightarrow> chunks \<Rightarrow> u64 set" where
  "whole_region m C = small_region m (small_part C) \<union> tree_region m (large_part C)"

definition whole_writes :: "mstate \<Rightarrow> chunks \<Rightarrow> u64 set" where
  "whole_writes m C = small_region m (small_part C) \<union> tree_writes m (large_part C)"

lemma small_region_slots:
  assumes "skeleton m cs" "C \<subseteq> frees cs"
  shows "small_region m (small_part C) \<subseteq> bin_slots m C 16"
proof
  fix x assume "x \<in> small_region m (small_part C)"
  then obtain n where n: "n \<in> fst ` small_part C \<or> (\<exists>i<32. n = smallbin_at m i)" "x = n + 16 \<or> x = n + 24"
    unfolding small_region_def link_slots_def by auto
  note b = skeleton_bounds [OF assms(1)]
  have m: "unat (maddr m) + 920 < 2 ^ 64" using b by (simp add: space_start_def)
  from n(1) show "x \<in> bin_slots m C 16"
  proof
    assume "n \<in> fst ` small_part C"
    then obtain s where s: "(n, s) \<in> C" by (auto simp: small_part_def)
    then have "(n, s, Free) \<in> set cs" using assms(2) by (auto simp: frees_def)
    note k = skeleton_mem [OF assms(1) this]
    have "unat (n + 16) = unat n + 16" "unat (n + 24) = unat n + 24" using k(4,6) by (simp_all add: unat_add64)
    then show ?thesis using bin_slotsI(2) [OF s, of 16 x m] k(4) n(2) by auto
  next
    assume "\<exists>i<32. n = smallbin_at m i"
    then show ?thesis using n(2) header_slots(1,2) [OF m] by (auto simp: bin_slots_def)
  qed
qed

lemma tree_slots_in:
  assumes "skeleton m cs" "C \<subseteq> frees cs" and k: "k = 8 \<or> k = (16 :: u64)"
    and "n \<in> fst ` large_part C" "k \<le> j" "j < 64"
  shows "n + j \<in> bin_slots m C (unat k)"
proof -
  obtain s where s: "(n, s) \<in> C" "\<not> is_small s" using assms(4) by (auto simp: large_part_def)
  then have "(n, s, Free) \<in> set cs" using assms(2) by (auto simp: frees_def)
  note f = skeleton_mem [OF assms(1) this]
  have "256 \<le> unat s" using s(2) by (simp add: is_small_iff word_less_nat_alt)
  moreover have "unat j < 64" "unat k \<le> unat j" using assms(5,6) by (simp_all add: word_less_nat_alt word_le_nat_alt)
  moreover from this have "unat (n + j) = unat n + unat j" using f(6) by (intro unat_add64) linarith
  ultimately show ?thesis using bin_slotsI(2) [OF s(1), of "unat k" "n + j" m] by linarith
qed

lemma whole_region_slots:
  assumes "skeleton m cs" "C \<subseteq> frees cs"
  shows "whole_region m C \<subseteq> bin_slots m C 8" "whole_writes m C \<subseteq> bin_slots m C 16"
proof -
  note b = skeleton_bounds [OF assms(1)]
  have m: "unat (maddr m) + 920 < 2 ^ 64" using b by (simp add: space_start_def)
  have root: "treebin_at m i \<in> bin_slots m C k" if "i < 32" for i k
    using header_slots(4) [OF m that] that by (simp add: bin_slots_def)
  have mono: "bin_slots m C 16 \<subseteq> bin_slots m C 8" by (force simp: bin_slots_def)
  have small: "small_region m (small_part C) \<subseteq> bin_slots m C 16" by (rule small_region_slots [OF assms])
  have "tree_region m (large_part C) \<subseteq> bin_slots m C 8"
    using tree_slots_in [OF assms, of 8] root unfolding tree_region_def tree_area_def by auto
  then show "whole_region m C \<subseteq> bin_slots m C 8" using small mono by (auto simp: whole_region_def)
  have "tree_writes m (large_part C) \<subseteq> bin_slots m C 16"
    using tree_slots_in [OF assms, of 16] root unfolding tree_writes_def tree_links_def by auto
  then show "whole_writes m C \<subseteq> bin_slots m C 16" using small by (auto simp: whole_writes_def)
qed

text \<open>Writes outside the slots of the bins leave the bins alone.\<close>

lemma bins_hold_frame:
  assumes sk: "skeleton m cs" and C: "C \<subseteq> frees cs" and h: "bins_hold m C"
    and same: "maddr m' = maddr m" "least_addr m' = least_addr m" "smallmap m' = smallmap m" "treemap m' = treemap m"
    and out: "\<And>x. x \<in> bin_slots m C 8 \<Longrightarrow> hp m' x = hp m x"
  shows "bins_hold m' C"
proof -
  let ?A = "- bin_slots m C 8"
  have sub: "whole_region m C \<subseteq> bin_slots m C 8" by (rule whole_region_slots(1) [OF sk C])
  have off: "agree_off ?A m m'" using out by (simp add: agree_off_def)
  have "small_holds m' (small_part C)"
    by (rule small_holds_frame [OF _ same(1-3) off]) (use h sub in \<open>auto simp: bins_hold_def whole_region_def\<close>)
  moreover have "tree_holds m' (large_part C)"
    by (rule tree_holds_frame [OF _ same(1,2,4) off]) (use h sub in \<open>auto simp: bins_hold_def whole_region_def\<close>)
  ultimately show ?thesis using h by (simp add: bins_hold_def region_cong [OF same(1)])
qed

text \<open>The slots of a chunk that is not in the bins are not slots of the bins.\<close>

lemma chunk_slots_free:
  assumes "skeleton m cs" "C \<subseteq> frees cs" "(q, t, l) \<in> set cs" "(q, t) \<notin> C"
    and "unat q + 8 \<le> unat x" "unat x < unat q + unat t + 8" "k = 8 \<or> k = 16"
  shows "x \<notin> bin_slots m C k"
proof
  assume "x \<in> bin_slots m C k"
  moreover have "space_start m \<le> unat q" using skeleton_mem [OF assms(1,3)] by simp
  ultimately obtain p s where p: "(p, s) \<in> C" "unat p + k \<le> unat x" "unat x < unat p + unat s"
    using assms(5) by (auto simp: bin_slots_def space_start_def)
  have "(p, s, Free) \<in> set cs" using p(1) assms(2) by (auto simp: frees_def)
  from skeleton_apart [OF assms(1,3) this] show False using p assms(4-7) by auto
qed

section \<open>Steps that only move chunks into and out of the bins\<close>

definition same_scalars :: "mstate \<Rightarrow> mstate \<Rightarrow> bool" where
  "same_scalars m m' \<longleftrightarrow> (\<exists>sm tm h. m' = m\<lparr>smallmap := sm, treemap := tm, hp := h\<rparr>)"

lemma same_scalars_sel:
  assumes "same_scalars m m'"
  shows "maddr m' = maddr m" "dvsize m' = dvsize m" "topsize m' = topsize m" "least_addr m' = least_addr m"
    "dv m' = dv m" "m_top m' = m_top m" "trim_check m' = trim_check m" "release_checks m' = release_checks m"
    "magic m' = magic m" "footprint m' = footprint m" "max_footprint m' = max_footprint m" "mflags m' = mflags m"
  using assms by (auto simp: same_scalars_def)

lemma main_seg_slots:
  assumes "skeleton m cs" "k \<in> {0, 8, 16, 24}"
  shows "unat (main_seg m + k) = unat (maddr m) + 880 + unat k" "unat k \<le> 24"
proof -
  show k: "unat k \<le> 24" using assms(2) by auto
  have "unat (maddr m) + 920 < 2 ^ 64" using skeleton_bounds [OF assms(1)] by (simp add: space_start_def)
  then have "unat (maddr m + (880 + k)) = unat (maddr m) + unat (880 + k)" "unat (880 + k) = 880 + unat k"
    using k by (simp_all add: unat_add64)
  then show "unat (main_seg m + k) = unat (maddr m) + 880 + unat k" by (simp add: add.assoc)
qed

lemma extern_space_cong:
  assumes "skeleton m cs" "maddr m' = maddr m" "space_end m' = space_end m"
    and "\<And>x. unat (maddr m) + 880 \<le> unat x \<Longrightarrow> unat x < unat (maddr m) + 912 \<Longrightarrow> hp m' x = hp m x"
  shows "extern_space m'"
proof -
  have "hp m' (main_seg m + k) = hp m (main_seg m + k)" if "k \<in> {0, 8, 16, 24}" for k
    using main_seg_slots [OF assms(1) that] assms(4) by simp
  from this [of 0] this [of 8] this [of 16] this [of 24] show ?thesis
    using assms(1-3) by (simp add: skeleton_def extern_space_def is_extern_segment_def)
qed

lemma bins_step_keeps:
  assumes sk: "skeleton m cs" and C: "C \<subseteq> frees cs" and st: "bins_step C m m'"
  shows "skeleton m' cs" "same_scalars m m'" "kept (payloads (useds cs)) m m'"
proof -
  show sc: "same_scalars m m'" using st by (simp add: bins_step_def same_scalars_def)
  note sel = same_scalars_sel [OF sc]
  have out: "hp m' x = hp m x" if "x \<notin> bin_slots m C 16" for x
    using st that whole_region_slots(2) [OF sk C]
    by (auto simp: bins_step_def agree_off_def whole_writes_def)
  have ends: "space_end m' = space_end m" "space_start m' = space_start m"
    by (simp_all add: space_end_def space_start_def sel)
  note b = skeleton_bounds [OF sk]
  have in_bins: "\<exists>p s. (p, s, Free) \<in> set cs \<and> unat p + 16 \<le> unat x \<and> unat x < unat p + unat s"
    if ne: "hp m' x \<noteq> hp m x" and ge: "space_start m \<le> unat x" for x
  proof -
    have "x \<in> bin_slots m C 16" using out ne by blast
    then obtain p s where "(p, s) \<in> C" "unat p + 16 \<le> unat x" "unat x < unat p + unat s"
      using ge by (auto simp: bin_slots_def space_start_def)
    then show ?thesis using C by (auto simp: frees_def)
  qed
  have "extern_space m'"
    using b(5) by (intro extern_space_cong [OF sk sel(1) ends(1)] out)
      (use skeleton_mem(1) [OF sk] C in \<open>fastforce simp: bin_slots_def space_start_def frees_def\<close>)
  moreover have "laid (hp m') True (space_start m) (cs @ [(m_top m, topsize m, Top)]) (space_end m)"
  proof -
    have "hp m' (q + 8) = hp m (q + 8) \<and> (l = Free \<longrightarrow> hp m' (q + t) = hp m (q + t))"
      if q: "(q, t, l) \<in> set (cs @ [(m_top m, topsize m, Top)])" for q t l
    proof -
      note g = laid_mem [OF b(5) q]
      have u: "unat (q + 8) = unat q + 8" "unat (q + t) = unat q + unat t"
        using g b(2) by (simp_all add: unat_add64)
      have False if x: "unat x = unat q + 8 \<or> unat x = unat q + unat t \<and> l = Free" "hp m' x \<noteq> hp m x" for x
      proof -
        have "space_start m \<le> unat x" using x(1) g by auto
        then obtain p s where p: "(p, s, Free) \<in> set cs" "unat p + 16 \<le> unat x" "unat x < unat p + unat s"
          using in_bins [OF x(2)] by blast
        have "(p, s, Free) = (q, t, l) \<or> unat p + unat s \<le> unat q \<or> unat q + unat t \<le> unat p"
          by (rule laid_apart [OF b(5) _ q]) (use p(1) in simp)
        then show False using p g x(1) by auto
      qed
      then show ?thesis using u by blast
    qed
    then show ?thesis using laid_cong [of _ "hp m'" "hp m"] b(5) by blast
  qed
  ultimately show "skeleton m' cs" using sk by (simp add: skeleton_def sel ends)
  show "kept (payloads (useds cs)) m m'"
    unfolding kept_def
  proof (intro conjI ballI)
    fix x assume "x \<in> payloads (useds cs) \<union> foreign m"
    then show "hp m' x = hp m x"
    proof
      assume "x \<in> payloads (useds cs)"
      then obtain q t where q: "(q, t, Used) \<in> set cs" "unat q + 16 \<le> unat x" "unat x \<le> unat q + unat t"
        by (auto simp: payloads_def payload_def useds_def)
      show ?thesis
      proof (rule ccontr)
        assume x: "hp m' x \<noteq> hp m x"
        then obtain p s where "(p, s, Free) \<in> set cs" "unat p + 16 \<le> unat x" "unat x < unat p + unat s"
          using in_bins [OF x] skeleton_mem(1) [OF sk q(1)] q by auto
        then show False using skeleton_apart [OF sk q(1)] q by fastforce
      qed
    next
      assume x: "x \<in> foreign m"
      have "unat p + 16 \<le> unat x \<Longrightarrow> unat x < unat p + unat s \<Longrightarrow> (p, s) \<notin> C" for p s
        using x C skeleton_mem(1,2) [OF sk, of p s Free] by (force simp: foreign_def frees_def space_end_def space_start_def)
      then have "x \<notin> bin_slots m C 16" using x b(6) by (auto simp: foreign_def bin_slots_def space_start_def)
      then show ?thesis by (rule out)
    qed
  qed (simp_all add: sel ends)
qed

lemma skeleton_head:
  assumes "skeleton m cs" "(p, s, k) \<in> set cs"
  shows "\<exists>b. hp m (p + 8) = head_word s b (k = Used) \<and> (k \<noteq> Used \<longrightarrow> b)"
proof -
  obtain xs ys where cs: "cs = xs @ (p, s, k) # ys" using assms(2) by (auto dest: split_list)
  note l = laid_head [of "hp m" True "space_start m" xs p s k "ys @ [(m_top m, topsize m, Top)]" "space_end m"]
  show ?thesis using l(1,3) skeleton_bounds(5) [OF assms(1)] cs by auto
qed

lemma skeleton_size:
  assumes "skeleton m cs" "(p, s, k) \<in> set cs"
  shows "chunksize m p = s"
  using skeleton_head [OF assms] skeleton_mem(3) [OF assms] by (auto simp: chunksize_def head_word_size)

text \<open>A free chunk that is not in the bins fits in.\<close>

lemma free_room:
  assumes sk: "skeleton m cs" and P: "(P, S, Free) \<in> set cs" and C: "C \<subseteq> frees cs" "(P, S) \<notin> C"
  shows "bins_room m C P S"
proof -
  note g = skeleton_mem [OF sk P] and b = skeleton_bounds [OF sk]
  have m: "unat (maddr m) + 920 < 2 ^ 64" using b by (simp add: space_start_def)
  have ge: "unat (maddr m) + 920 \<le> unat P" using g(1) by (simp add: space_start_def)
  have apart: "unat P + unat S \<le> unat n \<or> unat n + unat s \<le> unat P"
    and n: "32 \<le> unat s" "64 \<le> unat n" if "(n, s) \<in> C" for n s
  proof -
    have "(n, s, Free) \<in> set cs" "(n, s) \<noteq> (P, S)" using that C by (auto simp: frees_def)
    then show "unat P + unat S \<le> unat n \<or> unat n + unat s \<le> unat P" "32 \<le> unat s" "64 \<le> unat n"
      using skeleton_apart [OF sk P] skeleton_mem [OF sk] b(1) by (fastforce simp: space_start_def)+
  qed
  have out: "x \<notin> bin_slots m C 8" if "unat P + 8 \<le> unat x" "unat x < unat P + unat S" for x
    by (rule chunk_slots_free [OF sk C(1) P C(2)]) (use that in simp_all)
  have slot: "unat (P + k) = unat P + unat k" if "unat k \<le> unat S" for k
    using that g(6) by (intro unat_add64) linarith
  have whole: "whole_region m C \<subseteq> bin_slots m C 8" by (rule whole_region_slots(1) [OF sk C(1)])
  show ?thesis
  proof (cases "is_small S")
    case True
    have "far P (smallbin_at m i)" if "i < 32" for i
      using header_slots(3) [OF m that] that ge by (intro far_unat(2)) linarith+
    moreover have "far P n" if "(n, s) \<in> small_part C" for n s
    proof -
      have c: "(n, s) \<in> C" using that by (simp add: small_part_def)
      show ?thesis using apart [OF c] n [OF c] g(4) ge far_unat [of P n] far_unat [of n P] by fastforce
    qed
    moreover have "link_slots {P} \<inter> tree_region m (large_part C) = {}"
      using out [of "P + 16"] out [of "P + 24"] slot [of 16] slot [of 24] g(4) whole
      by (auto simp: link_slots_def whole_region_def)
    ultimately show ?thesis using True g(3,7) by (auto simp: bins_room_def small_room_def is_aligned_def)
  next
    case False
    then have S: "256 \<le> unat S" by (simp add: is_small_iff word_less_nat_alt)
    have "misses P (treebin_at m i)" if "i < 32" for i
      using header_slots(4) [OF m that] that ge by (intro misses_unat) linarith+
    moreover have "nfar P n" if "(n, s) \<in> large_part C" for n s
    proof -
      have c: "(n, s) \<in> C" "256 \<le> unat s" using that by (simp_all add: large_part_def is_small_iff word_less_nat_alt)
      show ?thesis using apart [OF c(1)] n [OF c(1)] c(2) S ge nfar_unat [of P n] nfar_unat [of n P] by fastforce
    qed
    moreover have "tree_area P \<inter> small_region m (small_part C) = {}"
    proof -
      have "P + k \<notin> bin_slots m C 8" if "8 \<le> k" "k < 64" for k
        using that S slot [of k] by (intro out) (simp_all add: word_le_nat_alt word_less_nat_alt)
      then show ?thesis using whole by (auto simp: tree_area_def whole_region_def)
    qed
    moreover have "node_ok m P" using g(6,7) ge S unfolding node_ok_def by auto
    moreover have "large_size S" using g(3,5) S
      by (simp add: large_size_def is_aligned_def word_le_nat_alt word_less_nat_alt)
    ultimately show ?thesis
      using False skeleton_size [OF sk P] by (auto simp: bins_room_def tree_room_def tree_node_room_def)
  qed
qed

lemma insert_free:
  assumes "skeleton m cs" "(P, S, Free) \<in> set cs" "C \<subseteq> frees cs" "(P, S) \<notin> C" "bins_hold m C"
  shows "\<exists>m'. insert_chunk P S m = Some m' \<and> skeleton m' cs \<and> bins_hold m' (insert (P, S) C)
    \<and> same_scalars m m' \<and> kept (payloads (useds cs)) m m'"
proof -
  obtain m' where m': "insert_chunk P S m = Some m'" "bins_hold m' (insert (P, S) C)" "bins_step (insert (P, S) C) m m'"
    using bins.ins_holds [OF assms(5) free_room [OF assms(1-4)]] by blast
  have "insert (P, S) C \<subseteq> frees cs" using assms(2,3) by (auto simp: frees_def)
  from bins_step_keeps [OF assms(1) this m'(3)] show ?thesis using m' by blast
qed

lemma unlink_free:
  assumes "skeleton m cs" "(P, S) \<in> C" "C \<subseteq> frees cs" "bins_hold m C"
  shows "\<exists>m'. unlink_chunk P S m = Some m' \<and> skeleton m' cs \<and> bins_hold m' (C - {(P, S)})
    \<and> same_scalars m m' \<and> kept (payloads (useds cs)) m m'"
proof -
  obtain m' where m': "unlink_chunk P S m = Some m'" "bins_hold m' (C - {(P, S)})" "bins_step C m m'"
    using bins.unl_holds [OF assms(4,2)] by blast
  from bins_step_keeps [OF assms(1,3) m'(3)] show ?thesis using m' by blast
qed

section \<open>Cutting a space anew\<close>

lemma laid_parts:
  assumes "laid h b a (xs @ old @ ys) e" "laid h (after b xs) d old d'"
  shows "old \<noteq> [] \<Longrightarrow> laid h b a xs d" "old \<noteq> [] \<Longrightarrow> laid h (after (after b xs) old) d' ys e"
proof -
  assume o: "old \<noteq> []"
  obtain d1 where d1: "laid h b a xs d1" "laid h (after b xs) d1 (old @ ys) e"
    using assms(1) by (auto simp: laid_append)
  obtain p s k zs where "old = (p, s, k) # zs" using o by (cases old) auto
  then have "d1 = d" using d1(2) assms(2) by auto
  then show "laid h b a xs d" using d1 by simp
  have det: "laid h c x zs y \<Longrightarrow> laid h c x zs y' \<Longrightarrow> y = y'" for c x zs y y'
    by (induction h c x zs y rule: laid.induct) auto
  show "laid h (after (after b xs) old) d' ys e"
    using d1(2) det [OF assms(2)] unfolding \<open>d1 = d\<close> by (auto simp: laid_append)
qed

text \<open>
  Slots that are not in \<open>[d + 8, d' + 8]\<close>, where \<open>d\<close> and \<open>d'\<close> are boundaries of chunks, do not matter
  to the chunks outside.
\<close>

lemma outside_kept:
  assumes U: "\<And>p s. (p, s) \<in> U \<Longrightarrow> (unat p + unat s \<le> d \<or> d' \<le> unat p) \<and> unat p + unat s < 2 ^ 64"
    and out: "\<And>x. unat x < d + 8 \<or> d' + 8 < unat x \<Longrightarrow> hp m' x = hp m x"
    and d: "space_start m \<le> d" "d' \<le> space_end m" and same: "maddr m' = maddr m" "space_end m' = space_end m"
  shows "kept (payloads U) m m'"
  unfolding kept_def
proof (intro conjI ballI same)
  fix x assume "x \<in> payloads U \<union> foreign m"
  then consider p s where "(p, s) \<in> U" "unat p + 16 \<le> unat x" "unat x \<le> unat p + unat s" | "x \<in> foreign m"
    by (auto simp: payloads_def payload_def)
  then show "hp m' x = hp m x"
  proof cases
    case 1
    then show ?thesis using U [of p s] by (intro out) auto
  next
    case 2
    then show ?thesis using d by (intro out) (auto simp: foreign_def space_start_def)
  qed
qed

lemma outside_bins:
  assumes sk: "skeleton m cs" and C: "C \<subseteq> frees cs" and h: "bins_hold m C"
    and same: "maddr m' = maddr m" "least_addr m' = least_addr m" "smallmap m' = smallmap m" "treemap m' = treemap m"
    and far: "\<And>p s. (p, s) \<in> C \<Longrightarrow> unat p + unat s \<le> d \<or> d' < unat p"
    and d: "space_start m \<le> d"
    and out: "\<And>x. unat x < d + 8 \<or> d' + 8 < unat x \<Longrightarrow> hp m' x = hp m x"
  shows "bins_hold m' C"
proof (rule bins_hold_frame [OF sk C h same])
  fix x assume "x \<in> bin_slots m C 8"
  then consider "unat x < unat (maddr m) + 880" | p s where "(p, s) \<in> C" "unat p + 8 \<le> unat x" "unat x < unat p + unat s"
    by (auto simp: bin_slots_def)
  then show "hp m' x = hp m x"
  proof cases
    case 1 then show ?thesis using d by (intro out) (simp add: space_start_def)
  next
    case 2 then show ?thesis using far [of p s] by (intro out) auto
  qed
qed

text \<open>Between used neighbours.\<close>

definition recut :: "mstate \<Rightarrow> mstate \<Rightarrow> layout \<Rightarrow> layout \<Rightarrow> layout \<Rightarrow> u64 \<Rightarrow> u64 \<Rightarrow> layout \<Rightarrow> nat \<Rightarrow> bool" where
  "recut m m' xs old new n t ys d \<longleftrightarrow>
     skeleton m (xs @ old @ (n, t, Used) # ys) \<and> old \<noteq> [] \<and> laid (hp m) (after True xs) d old (unat n)
     \<and> maddr m' = maddr m \<and> least_addr m' = least_addr m \<and> m_top m' = m_top m \<and> topsize m' = topsize m
     \<and> (\<forall>x. unat x < d + 8 \<or> unat n + 8 < unat x \<longrightarrow> hp m' x = hp m x)
     \<and> laid (hp m') (after True xs) d new (unat n) \<and> (\<forall>(p, s, k)\<in>set new. k \<noteq> Top)
     \<and> hp m' (n + 8) = head_word t (after (after True xs) new) True"

lemma recut_out:
  "recut m m' xs old new n t ys d \<Longrightarrow> unat x < d + 8 \<or> unat n + 8 < unat x \<Longrightarrow> hp m' x = hp m x"
  unfolding recut_def by blast

lemma recut_whole:
  assumes "recut m m' xs old new n t ys d"
  shows "laid (hp m) True (space_start m) (xs @ old @ (n, t, Used) # ys @ [(m_top m, topsize m, Top)]) (space_end m)"
    "laid (hp m) True (space_start m) xs d"
    "laid (hp m) (after (after True xs) old) (unat n) ((n, t, Used) # ys @ [(m_top m, topsize m, Top)]) (space_end m)"
    "space_start m \<le> d"
proof -
  have sk: "skeleton m (xs @ old @ (n, t, Used) # ys)" and o: "old \<noteq> []" "laid (hp m) (after True xs) d old (unat n)"
    using assms by (simp_all add: recut_def)
  show w: "laid (hp m) True (space_start m) (xs @ old @ (n, t, Used) # ys @ [(m_top m, topsize m, Top)]) (space_end m)"
    using skeleton_bounds(5) [OF sk] by simp
  show xs: "laid (hp m) True (space_start m) xs d" by (rule laid_parts(1) [OF w o(2,1)])
  show "laid (hp m) (after (after True xs) old) (unat n) ((n, t, Used) # ys @ [(m_top m, topsize m, Top)]) (space_end m)"
    by (rule laid_parts(2) [OF w o(2,1)])
  show "space_start m \<le> d" using xs by (rule laid_le)
qed

lemma recut_skeleton:
  assumes r: "recut m m' xs old new n t ys d"
  shows "skeleton m' (xs @ new @ (n, t, Used) # ys)"
proof -
  note w = recut_whole [OF r]
  have sk: "skeleton m (xs @ old @ (n, t, Used) # ys)" and o: "laid (hp m) (after True xs) d old (unat n)"
    and same: "maddr m' = maddr m" "least_addr m' = least_addr m" "m_top m' = m_top m" "topsize m' = topsize m"
    and new: "laid (hp m') (after True xs) d new (unat n)" "\<forall>(p, s, k)\<in>set new. k \<noteq> Top"
    and nxt: "hp m' (n + 8) = head_word t (after (after True xs) new) (Used = Used)"
    using r by (simp_all add: recut_def)
  note out = recut_out [OF r]
  have ends: "space_end m' = space_end m" "space_start m' = space_start m"
    by (simp_all add: space_end_def space_start_def same)
  have e: "space_end m < 2 ^ 64 - 8" using skeleton_bounds(2) [OF sk] by simp
  have "laid (hp m') True (space_start m) (xs @ new @ (n, t, Used) # ys @ [(m_top m, topsize m, Top)]) (space_end m)"
    by (rule laid_splice [OF w(1) e o out new(1) nxt]) simp_all
  moreover have "extern_space m'"
    by (rule extern_space_cong [OF sk same(1) ends(1)]) (use w(4) in \<open>auto intro!: out simp: space_start_def\<close>)
  moreover have "\<forall>(p, s, k)\<in>set (xs @ new @ (n, t, Used) # ys). k \<noteq> Top"
    using sk new(2) by (simp add: skeleton_def ball_Un)
  ultimately show ?thesis using sk by (simp add: skeleton_def ends same)
qed

lemma recut_others:
  assumes r: "recut m m' xs old new n t ys d" and m: "(p, s, k) \<in> set (xs @ (n, t, Used) # ys)"
  shows "(unat p + unat s \<le> d \<or> unat n \<le> unat p) \<and> unat p + unat s < 2 ^ 64"
proof -
  note w = recut_whole [OF r]
  have sk: "skeleton m (xs @ old @ (n, t, Used) # ys)" using r by (simp add: recut_def)
  have "unat p + unat s < 2 ^ 64 - 72" using m by (intro skeleton_mem(6) [OF sk]) auto
  moreover have "unat p + unat s \<le> d" if "(p, s, k) \<in> set xs" using laid_mem [OF w(2) that] by simp
  moreover have "unat n \<le> unat p" if "(p, s, k) \<in> set ((n, t, Used) # ys)"
    using laid_mem [OF w(3), of p s k] that by auto
  ultimately show ?thesis using m by auto
qed

lemma recut_kept:
  assumes r: "recut m m' xs old new n t ys d"
  shows "kept (payloads (useds (xs @ (n, t, Used) # ys))) m m'"
proof (rule outside_kept)
  fix p s assume "(p, s) \<in> useds (xs @ (n, t, Used) # ys)"
  then have "(p, s, Used) \<in> set (xs @ (n, t, Used) # ys)" by (auto simp: useds_def)
  then show "(unat p + unat s \<le> d \<or> unat n \<le> unat p) \<and> unat p + unat s < 2 ^ 64" by (rule recut_others [OF r])
qed (use recut_out [OF r] recut_whole(4) [OF r] laid_le [OF recut_whole(3) [OF r]] r in
  \<open>auto simp: recut_def space_end_def\<close>)

lemma recut_bins:
  assumes r: "recut m m' xs old new n t ys d"
    and h: "bins_hold m C" "C \<subseteq> frees (xs @ ys)" "smallmap m' = smallmap m" "treemap m' = treemap m"
  shows "bins_hold m' C"
proof -
  have sk: "skeleton m (xs @ old @ (n, t, Used) # ys)"
    and same: "maddr m' = maddr m" "least_addr m' = least_addr m"
    using r by (simp_all add: recut_def)
  show ?thesis
  proof (rule outside_bins [OF sk _ h(1) same h(3,4) _ recut_whole(4) [OF r] recut_out [OF r]])
    show "C \<subseteq> frees (xs @ old @ (n, t, Used) # ys)" using h(2) by (auto simp: frees_def)
    show "unat p + unat s \<le> d \<or> unat n < unat p" if "(p, s) \<in> C" for p s
    proof -
      have c: "(p, s, Free) \<in> set (xs @ ys)" using that h(2) by (auto simp: frees_def)
      then have "p \<noteq> n" using laid_inj [OF recut_whole(1) [OF r], of n t Used s Free] by auto
      then have "unat p \<noteq> unat n" by (simp add: word_unat_eq_iff)
      then show ?thesis using recut_others [OF r, of p s Free] c by auto
    qed
  qed
qed

text \<open>At the top: the last chunks \<open>old\<close> and the top chunk become \<open>new\<close> and another top chunk.\<close>

definition retop :: "mstate \<Rightarrow> mstate \<Rightarrow> layout \<Rightarrow> layout \<Rightarrow> layout \<Rightarrow> nat \<Rightarrow> bool" where
  "retop m m' xs old new d \<longleftrightarrow>
     skeleton m (xs @ old) \<and> laid (hp m) (after True xs) d (old @ [(m_top m, topsize m, Top)]) (space_end m)
     \<and> maddr m' = maddr m \<and> least_addr m' = least_addr m \<and> space_end m' = space_end m
     \<and> (\<forall>x. unat x < d + 8 \<or> space_end m + 8 < unat x \<longrightarrow> hp m' x = hp m x) \<and> (\<forall>(p, s, k)\<in>set new. k \<noteq> Top)
     \<and> laid (hp m') (after True xs) d (new @ [(m_top m', topsize m', Top)]) (space_end m)"

lemma retop_keeps:
  assumes r: "retop m m' xs old new d"
  shows "skeleton m' (xs @ new)" "kept (payloads (useds xs)) m m'"
    "bins_hold m C \<Longrightarrow> C \<subseteq> frees xs \<Longrightarrow> smallmap m' = smallmap m \<Longrightarrow> treemap m' = treemap m \<Longrightarrow> bins_hold m' C"
proof -
  have sk: "skeleton m (xs @ old)"
    and o: "laid (hp m) (after True xs) d (old @ [(m_top m, topsize m, Top)]) (space_end m)"
    and same: "maddr m' = maddr m" "least_addr m' = least_addr m" "space_end m' = space_end m"
    and new: "\<forall>(p, s, k)\<in>set new. k \<noteq> Top" "laid (hp m') (after True xs) d (new @ [(m_top m', topsize m', Top)]) (space_end m)"
    using r by (simp_all add: retop_def)
  have out: "hp m' x = hp m x" if "unat x < d + 8 \<or> space_end m + 8 < unat x" for x
    using r that unfolding retop_def by blast
  have "laid (hp m) True (space_start m) (xs @ (old @ [(m_top m, topsize m, Top)]) @ []) (space_end m)"
    using skeleton_bounds(5) [OF sk] by simp
  from laid_parts(1) [OF this o] have xs: "laid (hp m) True (space_start m) xs d" by simp
  have le: "space_start m \<le> d" "d \<le> space_end m" using laid_le [OF xs] laid_le [OF o] by auto
  have e: "space_end m < 2 ^ 64 - 72" using skeleton_bounds(2) [OF sk] by simp
  have "laid (hp m') True (space_start m) xs d" by (rule laid_before [OF xs]) (use le e out in auto)
  then have "laid (hp m') True (space_start m) ((xs @ new) @ [(m_top m', topsize m', Top)]) (space_end m)"
    using new(2) by (auto simp: laid_append)
  moreover have "extern_space m'"
    by (rule extern_space_cong [OF sk same(1,3)]) (use le in \<open>auto intro!: out simp: space_start_def\<close>)
  moreover have "\<forall>(p, s, k)\<in>set (xs @ new). k \<noteq> Top" using sk new(1) by (simp add: skeleton_def ball_Un)
  ultimately show "skeleton m' (xs @ new)" using sk by (simp add: skeleton_def same space_start_def)
  have far: "unat p + unat s \<le> d" if "(p, s, k) \<in> set xs" for p s k using laid_mem [OF xs that] by simp
  show "kept (payloads (useds xs)) m m'"
  proof (rule outside_kept [OF _ out le(1) order_refl same(1,3)])
    fix p s assume "(p, s) \<in> useds xs"
    then have "unat p + unat s \<le> d" by (auto simp: useds_def intro: far)
    then show "(unat p + unat s \<le> d \<or> space_end m \<le> unat p) \<and> unat p + unat s < 2 ^ 64" using le e by auto
  qed
  show "bins_hold m' C" if h: "bins_hold m C" "C \<subseteq> frees xs" "smallmap m' = smallmap m" "treemap m' = treemap m"
  proof (rule outside_bins [OF sk _ h(1) same(1,2) h(3,4) _ le(1) out])
    show "C \<subseteq> frees (xs @ old)" using h(2) by auto
    fix p s assume "(p, s) \<in> C"
    then show "unat p + unat s \<le> d \<or> space_end m < unat p" using h(2) by (auto simp: frees_def intro: far)
  qed
qed

end
