(* ===== verification/Pt_Search.thy ===== *)
theory Pt_Search
  imports Pt_Malloc
begin

text \<open>
  The searches of \<open>tmalloc_large\<close> and \<open>tmalloc_small\<close> in the tree bins: they end and find a best fit, a
  chunk that is large enough and not larger than any other that is.
\<close>

section \<open>Best fits\<close>

text \<open>
  \<open>best nb C v rsize\<close>: among the chunks \<open>C\<close>, \<open>v\<close> is a smallest one of at least \<open>nb\<close> bytes and leaves
  \<open>rsize\<close> over; \<open>v = 0\<close> if there is none.
\<close>

definition best :: "u64 \<Rightarrow> chunks \<Rightarrow> u64 \<Rightarrow> u64 \<Rightarrow> bool" where
  "best nb C v rsize \<longleftrightarrow>
     (v = 0 \<and> rsize = - nb \<and> (\<forall>(c, t)\<in>C. t < nb))
     \<or> (v \<noteq> 0 \<and> (\<exists>s. (v, s) \<in> C \<and> nb \<le> s \<and> rsize = s - nb \<and> (\<forall>(c, t)\<in>C. nb \<le> t \<longrightarrow> s \<le> t)))"

lemma best_empty [simp]: "best nb {} 0 (- nb)"
  by (simp add: best_def)

lemma best_fits: "best nb C v rsize \<Longrightarrow> v \<noteq> 0 \<Longrightarrow> \<exists>s. (v, s) \<in> C \<and> nb \<le> s \<and> rsize = s - nb"
  by (auto simp: best_def)

text \<open>The remainders compare as the sizes do; that of a chunk too small is larger than all others.\<close>

lemma trem_less:
  fixes nb s :: u64
  assumes "0 < nb"
  shows "s - nb < - nb \<longleftrightarrow> nb \<le> s" "nb \<le> t \<Longrightarrow> s - nb < t - nb \<longleftrightarrow> nb \<le> s \<and> s < t"
proof -
  have d: "unat (x - nb) = (if unat nb \<le> unat x then unat x - unat nb else unat x + 2 ^ 64 - unat nb)" for x
    by (simp add: unat_sub_if')
  have lt: "unat x < 2 ^ 64" for x :: u64 using unsigned_less [of x] by simp
  have pos: "0 < unat nb" using assms by (simp add: word_less_nat_alt)
  have "unat (- nb) = 2 ^ 64 - unat nb" using d [of 0] pos by simp
  then show "s - nb < - nb \<longleftrightarrow> nb \<le> s"
    using d [of s] pos lt [of s] lt [of nb] unfolding word_less_nat_alt word_le_nat_alt by auto
  show "s - nb < t - nb \<longleftrightarrow> nb \<le> s \<and> s < t" if "nb \<le> t"
    using that d [of s] d [of t] lt [of t] lt [of nb] unfolding word_less_nat_alt word_le_nat_alt by auto
qed

lemma bestI:
  "v \<noteq> 0 \<Longrightarrow> (v, s) \<in> C \<Longrightarrow> nb \<le> s \<Longrightarrow> (\<And>c t. (c, t) \<in> C \<Longrightarrow> nb \<le> t \<Longrightarrow> s \<le> t) \<Longrightarrow> best nb C v (s - nb)"
  by (auto simp: best_def)

lemma best_step:
  assumes b: "best nb C v rsize" and nb: "0 < nb" and a: "a \<noteq> 0"
    and same: "\<And>c t. (c, t) \<in> E \<Longrightarrow> t = s" and E: "(a, s) \<in> E"
  shows "best nb (C \<union> E) (if s - nb < rsize then a else v) (if s - nb < rsize then s - nb else rsize)"
proof (cases "v = 0")
  case True
  then have r: "rsize = - nb" "\<forall>(c, t)\<in>C. t < nb" using b by (auto simp: best_def)
  show ?thesis
  proof (cases "nb \<le> s")
    case le: True
    then have "s - nb < rsize" using trem_less(1) [OF nb] r(1) by simp
    moreover have "best nb (C \<union> E) a (s - nb)"
    proof (rule bestI [OF a _ le])
      show "s \<le> t" if "(c, t) \<in> C \<union> E" "nb \<le> t" for c t
        using that r(2) same [of c t] by (fastforce dest: leD)
    qed (use E in simp)
    ultimately show ?thesis by simp
  next
    case False
    then have "\<not> s - nb < rsize" using trem_less(1) [OF nb] r(1) by simp
    moreover have "t < nb" if "(c, t) \<in> C \<union> E" for c t
      using that r(2) False same [of c t] by (fastforce dest: leI)
    then have "best nb (C \<union> E) v rsize" using r(1) True by (auto simp: best_def)
    ultimately show ?thesis by simp
  qed
next
  case False
  then obtain u where u: "(v, u) \<in> C" "nb \<le> u" "rsize = u - nb" "\<forall>(c, t)\<in>C. nb \<le> t \<longrightarrow> u \<le> t"
    using b by (auto simp: best_def)
  note t = trem_less(2) [OF nb u(2), of s]
  show ?thesis
  proof (cases "nb \<le> s \<and> s < u")
    case lt: True
    have "best nb (C \<union> E) a (s - nb)"
    proof (rule bestI [OF a])
      show "s \<le> t" if "(c, t) \<in> C \<union> E" "nb \<le> t" for c t
        using that u(4) lt same [of c t] by fastforce
    qed (use E lt in simp_all)
    then show ?thesis using t lt u(3) by simp
  next
    case ge: False
    have "best nb (C \<union> E) v (u - nb)"
    proof (rule bestI [OF False _ u(2)])
      show "u \<le> t" if "(c, t) \<in> C \<union> E" "nb \<le> t" for c t
        using that u(4) ge same [of c t] by fastforce
    qed (use u in simp)
    then show ?thesis using t ge u(3) by simp
  qed
qed

text \<open>Chunks that are too small, or not smaller than one that has been looked at, need not be.\<close>

definition covers :: "u64 \<Rightarrow> chunks \<Rightarrow> chunks \<Rightarrow> bool" where
  "covers nb C E \<longleftrightarrow> (\<forall>(c, u)\<in>E. nb \<le> u \<longrightarrow> (\<exists>(c', u')\<in>C. nb \<le> u' \<and> u' \<le> u))"

lemma coversD: "covers nb C E \<Longrightarrow> (c, u) \<in> E \<Longrightarrow> nb \<le> u \<Longrightarrow> \<exists>c' u'. (c', u') \<in> C \<and> nb \<le> u' \<and> u' \<le> u"
  unfolding covers_def by blast

lemma covers_simps [simp]:
  "covers nb C {}" "covers nb C (E \<union> F) \<longleftrightarrow> covers nb C E \<and> covers nb C F"
  unfolding covers_def by blast+

lemma covers_insert [simp]: "x \<in> C \<Longrightarrow> covers nb C (insert x E) = covers nb C E"
  unfolding covers_def by (cases x) fastforce

lemma covers_sub: "E \<subseteq> C \<Longrightarrow> covers nb C E"
  by (fastforce simp: covers_def)

lemma covers_trans: "covers nb C E \<Longrightarrow> covers nb E F \<Longrightarrow> covers nb C F"
  unfolding covers_def by (fastforce intro: order_trans)

lemma covers_mono: "covers nb C E \<Longrightarrow> C \<subseteq> D \<Longrightarrow> covers nb D E"
  unfolding covers_def by fastforce

lemma covers_small: "(\<And>c u. (c, u) \<in> E \<Longrightarrow> u < nb) \<Longrightarrow> covers nb C E"
  unfolding covers_def by (fastforce dest: leD)

lemma covers_above:
  assumes "(c, u) \<in> C" "nb \<le> u" "\<And>c' u'. (c', u') \<in> E \<Longrightarrow> u \<le> u'"
  shows "covers nb C E"
  using assms unfolding covers_def by blast

lemma best_cover:
  assumes "best nb C v rsize" "C \<subseteq> E" "covers nb C E"
  shows "best nb E v rsize"
proof (cases "v = 0")
  case True
  then have r: "rsize = - nb" "\<forall>(c, t)\<in>C. t < nb" using assms(1) by (auto simp: best_def)
  have "t < nb" if ct: "(c, t) \<in> E" for c t
  proof (rule ccontr)
    assume "\<not> t < nb"
    then have "nb \<le> t" by simp
    then obtain c' t' where "(c', t') \<in> C" "nb \<le> t'" using coversD [OF assms(3) ct] by blast
    then show False using r(2) by fastforce
  qed
  then show ?thesis using True r(1) by (auto simp: best_def)
next
  case False
  then obtain u where u: "(v, u) \<in> C" "nb \<le> u" "rsize = u - nb" "\<forall>(c, t)\<in>C. nb \<le> t \<longrightarrow> u \<le> t"
    using assms(1) by (auto simp: best_def)
  have "best nb E v (u - nb)"
  proof (rule bestI [OF False _ u(2)])
    show "(v, u) \<in> E" using u(1) assms(2) by blast
    show "u \<le> t" if ct: "(c, t) \<in> E" "nb \<le> t" for c t
    proof -
      obtain c' t' where "(c', t') \<in> C" "nb \<le> t'" "t' \<le> t" using coversD [OF assms(3) ct] by blast
      then show ?thesis using u(4) by fastforce
    qed
  qed
  then show ?thesis using u(3) by simp
qed

section \<open>The order of sizes in a trie\<close>

lemma size_split: "unat (x::u64) div 2 ^ n = 2 * (unat x div 2 ^ Suc n) + of_bool (bit x n)"
proof -
  have "unat x div 2 ^ Suc n = unat x div 2 ^ n div 2" by (simp only: power_Suc2 div_mult2_eq)
  moreover have "bit x n = bit (unat x) n" by (simp add: bit_unsigned_iff)
  then have "bit x n = odd (unat x div 2 ^ n)" by (simp add: bit_iff_odd)
  ultimately show ?thesis by (auto simp: odd_iff_mod_2_eq_one)
qed

lemma bit_order:
  assumes "drop_bit (Suc n) x = drop_bit (Suc n) (y::u64)" "\<not> bit x n" "bit y n"
  shows "x < y"
proof -
  have "unat x div 2 ^ Suc n = unat y div 2 ^ Suc n" using assms(1) by (metis unat_drop_bit)
  then have "unat x div 2 ^ n < unat y div 2 ^ n" using size_split [of x n] size_split [of y n] assms(2,3) by simp
  then have "unat x < unat y" by (meson div_le_mono leD leI)
  then show ?thesis by (simp add: word_less_nat_alt)
qed

lemma trie_order:
  assumes "trie_ok (Suc n) (TNode a s cs l r)" "prefix_ok (Suc n) q (TNode a s cs l r)"
    and l: "(c, t) \<in> trie_chunks l" and r: "(c', t') \<in> trie_chunks r"
  shows "t < t'"
proof (rule bit_order [of n])
  have "drop_bit (Suc n) t = q" "drop_bit (Suc n) t' = q" using assms(2) l r unfolding prefix_ok_def by auto
  then show "drop_bit (Suc n) t = drop_bit (Suc n) t'" by simp
  show "\<not> bit t n" "bit t' n" using assms(1) l r by auto
qed

lemma trie_0: "trie_ok 0 (TNode a s cs l r) \<Longrightarrow> l = TLeaf \<and> r = TLeaf"
  by simp

section \<open>Down the leftmost children\<close>

definition subtrie :: "mstate \<Rightarrow> u64 \<Rightarrow> trie \<Rightarrow> bool" where
  "subtrie m p t \<longleftrightarrow> (\<exists>I par n q. trep (hp m) I par p t \<and> trie_ok n t \<and> prefix_ok n q t)"

lemma subtrie_ptr: "subtrie m p t \<Longrightarrow> p = 0 \<longleftrightarrow> t = TLeaf"
  by (auto simp: subtrie_def dest: trep_ptr)

lemma subtrie_0 [simp]: "subtrie m 0 t \<longleftrightarrow> t = TLeaf"
  by (auto simp: subtrie_def prefix_ok_def dest: trep_ptr)

lemma subtrie_node:
  assumes "subtrie m p (TNode a s cs l r)"
  shows "p = a" "a \<noteq> 0" "chunksize m a = s" "subtrie m (child0_of m a) l" "subtrie m (child1_of m a) r"
    "(c, t) \<in> trie_chunks l \<Longrightarrow> (c', t') \<in> trie_chunks r \<Longrightarrow> t < t'"
proof -
  obtain I par n q where t: "trep (hp m) I par p (TNode a s cs l r)" "trie_ok n (TNode a s cs l r)"
    "prefix_ok n q (TNode a s cs l r)" using assms by (auto simp: subtrie_def)
  show "p = a" "a \<noteq> 0" "chunksize m a = s" using t(1) by (simp_all add: chunksize_def)
  have ch: "trep (hp m) I a (child0_of m a) l" "trep (hp m) I a (child1_of m a) r" using t(1) by simp_all
  have "\<exists>k qa qb. trie_ok k l \<and> trie_ok k r \<and> prefix_ok k qa l \<and> prefix_ok k qb r"
  proof (cases n)
    case 0
    then show ?thesis using t(2) by (auto simp: prefix_ok_def)
  next
    case (Suc k)
    from prefix_ok_children [OF t(3,2) [unfolded Suc]] show ?thesis using t(2) Suc by auto
  qed
  then show "subtrie m (child0_of m a) l" "subtrie m (child1_of m a) r" using ch by (auto simp: subtrie_def)
  show "t < t'" if "(c, t) \<in> trie_chunks l" "(c', t') \<in> trie_chunks r"
    using trie_order [of _ a s cs l r] t that by (cases n) auto
qed

lemma leftmost_loop_idle:
  assumes "subtrie m p T" "\<And>c s. (c, s) \<in> trie_chunks T \<Longrightarrow> \<not> s - nb < rsize"
  shows "leftmost_loop m nb p v rsize = Some (v, rsize)"
  using assms
proof (induction T arbitrary: p)
  case TLeaf
  then show ?case by (subst leftmost_loop.simps) (simp add: subtrie_ptr)
next
  case (TNode a s cs l r)
  note t = subtrie_node [OF TNode.prems(1)]
  have "\<not> s - nb < rsize" using TNode.prems(2) [of a s] by simp
  then have "leftmost_loop m nb p v rsize = leftmost_loop m nb (leftmost_child m a) v rsize"
    using t(1-3) by (subst leftmost_loop.simps) (simp add: Let_def)
  also have "\<dots> = Some (v, rsize)"
  proof (cases "child0_of m a = 0")
    case True
    then have "leftmost_child m a = child1_of m a" by (simp add: leftmost_child_def)
    moreover have "leftmost_loop m nb (child1_of m a) v rsize = Some (v, rsize)"
      by (rule TNode.IH(2) [OF t(5)]) (use TNode.prems(2) in auto)
    ultimately show ?thesis by simp
  next
    case False
    then have "leftmost_child m a = child0_of m a" by (simp add: leftmost_child_def)
    moreover have "leftmost_loop m nb (child0_of m a) v rsize = Some (v, rsize)"
      by (rule TNode.IH(1) [OF t(4)]) (use TNode.prems(2) in auto)
    ultimately show ?thesis by simp
  qed
  finally show ?case .
qed

lemma leftmost_loop_best:
  assumes "subtrie m p T" "best nb C v rsize" "0 < nb" "\<And>c s. (c, s) \<in> trie_chunks T \<Longrightarrow> nb \<le> s"
  shows "\<exists>v' r'. leftmost_loop m nb p v rsize = Some (v', r') \<and> best nb (C \<union> trie_chunks T) v' r'"
  using assms
proof (induction T arbitrary: p C v rsize)
  case TLeaf
  then show ?case by (subst leftmost_loop.simps) (simp add: subtrie_ptr)
next
  case (TNode a s cs l r)
  note t = subtrie_node [OF TNode.prems(1)]
  let ?E = "(\<lambda>n. (n, s)) ` set (a # cs)"
  let ?v = "if s - nb < rsize then a else v" and ?r = "if s - nb < rsize then s - nb else rsize"
  have b: "best nb (C \<union> ?E) ?v ?r" by (rule best_step [OF TNode.prems(2,3) t(2)]) auto
  have step: "leftmost_loop m nb p v rsize = leftmost_loop m nb (leftmost_child m a) ?v ?r"
    using t(1-3) by (subst leftmost_loop.simps) (simp add: Let_def)
  show ?case
  proof (cases "child0_of m a = 0")
    case True
    then have l: "l = TLeaf" using subtrie_ptr [OF t(4)] by simp
    have "leftmost_child m a = child1_of m a" using True by (simp add: leftmost_child_def)
    moreover have "\<exists>v' r'. leftmost_loop m nb (child1_of m a) ?v ?r = Some (v', r')
      \<and> best nb ((C \<union> ?E) \<union> trie_chunks r) v' r'"
      by (rule TNode.IH(2) [OF t(5) b TNode.prems(3)]) (use TNode.prems(4) in auto)
    moreover have "(C \<union> ?E) \<union> trie_chunks r = C \<union> trie_chunks (TNode a s cs l r)" using l by auto
    ultimately show ?thesis using step by metis
  next
    case False
    then have l: "l \<noteq> TLeaf" using subtrie_ptr [OF t(4)] by simp
    have "leftmost_child m a = child0_of m a" using False by (simp add: leftmost_child_def)
    moreover have "\<exists>v' r'. leftmost_loop m nb (child0_of m a) ?v ?r = Some (v', r')
      \<and> best nb ((C \<union> ?E) \<union> trie_chunks l) v' r'"
      by (rule TNode.IH(1) [OF t(4) b TNode.prems(3)]) (use TNode.prems(4) in auto)
    moreover have "best nb (C \<union> trie_chunks (TNode a s cs l r)) v' r'"
      if "best nb ((C \<union> ?E) \<union> trie_chunks l) v' r'" for v' r'
    proof (rule best_cover [OF that])
      obtain c' t' where l': "(c', t') \<in> trie_chunks l" using l by (cases l) auto
      have "nb \<le> t'" by (rule TNode.prems(4) [of c']) (use l' in simp)
      then have "covers nb ((C \<union> ?E) \<union> trie_chunks l) (trie_chunks r)"
        using l' t(6) [OF l'] by (intro covers_above [of c' t']) (auto intro: less_imp_le)
      moreover have "C \<union> trie_chunks (TNode a s cs l r) = ((C \<union> ?E) \<union> trie_chunks l) \<union> trie_chunks r" by auto
      moreover have "covers nb ((C \<union> ?E) \<union> trie_chunks l) ((C \<union> ?E) \<union> trie_chunks l)" by (rule covers_sub) simp
      ultimately show "covers nb ((C \<union> ?E) \<union> trie_chunks l) (C \<union> trie_chunks (TNode a s cs l r))"
        by (simp only: covers_simps)
    qed auto
    ultimately show ?thesis using step by metis
  qed
qed

section \<open>Down the path of the request\<close>

text \<open>
  The loop of \<open>tmalloc_large\<close> in the tree of the request's own bin. What it has seen, \<open>D'\<close>, and the tree it
  leaves for the second loop, \<open>R'\<close>, cover the tree \<open>T\<close> and the one set aside before, \<open>R\<close>.
\<close>

definition descended :: "mstate \<Rightarrow> u64 \<Rightarrow> chunks \<Rightarrow> chunks \<Rightarrow> chunks \<Rightarrow> (u64 \<times> u64 \<times> u64) option \<Rightarrow> bool" where
  "descended m nb D T R res \<longleftrightarrow> (\<exists>t' v' r' R' D'. res = Some (t', v', r') \<and> subtrie m t' R'
     \<and> best nb D' v' r' \<and> D \<subseteq> D' \<and> D' \<subseteq> D \<union> T \<and> trie_chunks R' \<subseteq> T \<union> R
     \<and> (r' = 0 \<and> v' \<noteq> 0
        \<or> (\<forall>(c, u)\<in>trie_chunks R'. nb \<le> u) \<and> covers nb (D' \<union> trie_chunks R') (T \<union> R)))"

lemma descended_exact:
  assumes "subtrie m p T" "best nb (D \<union> E) p 0" "p \<noteq> 0" "E \<subseteq> S" "trie_chunks T \<subseteq> S"
  shows "descended m nb D S R (Some (p, p, 0))"
  using assms unfolding descended_def by blast

lemma descended_end:
  assumes "subtrie m p R'" "best nb (D \<union> E) v r" "E \<subseteq> S" "trie_chunks R' \<subseteq> S \<union> R"
    "\<And>c u. (c, u) \<in> trie_chunks R' \<Longrightarrow> nb \<le> u" "covers nb (D \<union> E \<union> trie_chunks R') (S \<union> R)"
  shows "descended m nb D S R (Some (p, v, r))"
  using assms unfolding descended_def by blast

lemma descended_step:
  assumes "descended m nb (D \<union> E) T' R' res" "E \<subseteq> S" "T' \<subseteq> S" "R' \<subseteq> S \<union> R"
    "covers nb (D \<union> E \<union> T' \<union> R') (S \<union> R)"
  shows "descended m nb D S R res"
proof -
  obtain t' v' r' R1 D' where r: "res = Some (t', v', r')" "subtrie m t' R1" "best nb D' v' r'" "D \<union> E \<subseteq> D'"
    "D' \<subseteq> D \<union> E \<union> T'" "trie_chunks R1 \<subseteq> T' \<union> R'" and
    c: "r' = 0 \<and> v' \<noteq> 0 \<or> (\<forall>(c, u)\<in>trie_chunks R1. nb \<le> u) \<and> covers nb (D' \<union> trie_chunks R1) (T' \<union> R')"
    using assms(1) unfolding descended_def by blast
  have "covers nb (D' \<union> trie_chunks R1) (S \<union> R)" if "covers nb (D' \<union> trie_chunks R1) (T' \<union> R')"
  proof (rule covers_trans [OF _ assms(5)])
    show "covers nb (D' \<union> trie_chunks R1) (D \<union> E \<union> T' \<union> R')"
      using that r(4) covers_sub [of "D \<union> E" "D' \<union> trie_chunks R1" nb] by auto
  qed
  then show ?thesis
    unfolding descended_def using r c assms(2-4)
    by (intro exI [of _ t'] exI [of _ v'] exI [of _ r'] exI [of _ R1] exI [of _ D']) blast
qed

lemma roots_differ:
  assumes "subtrie m p (TNode a s cs l r)" "r \<noteq> TLeaf"
  shows "child1_of m a \<noteq> 0 \<and> child1_of m a \<noteq> child0_of m a"
proof -
  note t = subtrie_node [OF assms(1)]
  have nz: "child1_of m a \<noteq> 0" using subtrie_ptr [OF t(5)] assms(2) by simp
  have False if eq: "child1_of m a = child0_of m a"
  proof -
    have "l \<noteq> TLeaf" using subtrie_ptr [OF t(4)] nz eq by simp
    then obtain a1 s1 cs1 l1 r1 where l: "l = TNode a1 s1 cs1 l1 r1" by (cases l) auto
    obtain a2 s2 cs2 l2 r2 where r: "r = TNode a2 s2 cs2 l2 r2" using assms(2) by (cases r) auto
    note tl = subtrie_node [OF t(4) [unfolded l]] and tr = subtrie_node [OF t(5) [unfolded r]]
    have "s1 < s2" by (rule t(6) [of a1 _ a2]) (simp_all add: l r)
    then show False using tl(1,3) tr(1,3) eq by simp
  qed
  then show ?thesis using nz by blast
qed

lemma descend_best:
  assumes "trep (hp m) I par t T" "T \<noteq> TLeaf" "trie_ok n T" "prefix_ok n q T" "n \<le> 64" "drop_bit n nb = q"
    "K = push_bit (64 - n) nb" "0 < nb" "best nb D v rsize" "rsize \<noteq> 0" "subtrie m rst R"
    "\<And>c u. (c, u) \<in> trie_chunks R \<Longrightarrow> nb \<le> u"
    "\<And>c u c' u'. (c, u) \<in> trie_chunks T \<Longrightarrow> (c', u') \<in> trie_chunks R \<Longrightarrow> u \<le> u'"
  shows "descended m nb D (trie_chunks T) (trie_chunks R) (tmalloc_large_descend m nb K rst t v rsize)"
  using assms
proof (induction T arbitrary: par t n q K D v rsize rst R)
  case TLeaf
  then show ?case by simp
next
  case (TNode a s cs l r)
  let ?T = "TNode a s cs l r"
  let ?E = "(\<lambda>n. (n, s)) ` set (a # cs)"
  define v1 where "v1 = (if s - nb < rsize then a else v)"
  define r1 where "r1 = (if s - nb < rsize then s - nb else rsize)"
  have T: "subtrie m t ?T" using TNode.prems(1,3,4) by (auto simp: subtrie_def)
  note t = subtrie_node [OF T]
  have b: "best nb (D \<union> ?E) v1 r1" unfolding v1_def r1_def by (rule best_step [OF TNode.prems(9,8) t(2)]) auto
  have E: "?E \<subseteq> trie_chunks ?T" by auto
  show ?case
  proof (cases "s = nb")
    case True
    then have lt: "s - nb < rsize" using TNode.prems(10) by (simp add: word_gt_0)
    then have "tmalloc_large_descend m nb K rst t v rsize = Some (a, a, 0)"
      using t(1,3) True by (subst tmalloc_large_descend.simps) (simp add: Let_def)
    moreover have "descended m nb D (trie_chunks ?T) (trie_chunks R) (Some (a, a, 0))"
      by (rule descended_exact [OF _ _ t(2) E order_refl]) (use T t(1) b lt True in \<open>simp_all add: v1_def r1_def\<close>)
    ultimately show ?thesis by simp
  next
    case False
    have "n \<noteq> 0" using TNode.prems(4,6) False by (cases "n = 0") (auto simp: prefix_ok_def)
    then obtain k where n: "n = Suc k" by (cases n) auto
    define bt where "bt = bit nb k"
    have C: "child_slot a (drop_bit 63 K AND 1) = (if bt then a + 40 else a + 32)"
      using TNode.prems(5,7) n key_bit [of n nb] by (simp add: bt_def child_slot_bit)
    have K: "push_bit 1 K = push_bit (64 - k) nb" using TNode.prems(5,7) n key_shift [of n nb] by simp
    note ch = prefix_ok_children [OF TNode.prems(4,3) [unfolded n]]
    note key = prefix_ok_child_key [OF TNode.prems(6) [unfolded n]]
    have q: "drop_bit (Suc k) u = drop_bit (Suc k) nb" if "(c, u) \<in> trie_chunks ?T" for c u
      using TNode.prems(4,6) that unfolding prefix_ok_def n by auto
    have bits: "\<not> bit u k" "u < w" if "(c, u) \<in> trie_chunks l" "bit w k" "drop_bit (Suc k) w = drop_bit (Suc k) nb" for c u w
    proof -
      show l: "\<not> bit u k" using TNode.prems(3) that(1) unfolding n by auto
      show "u < w" by (rule bit_order [OF _ l that(2)]) (use q [of c u] that in simp)
    qed
    have bits': "bit u k" "\<not> bit nb k \<Longrightarrow> nb < u" if "(c, u) \<in> trie_chunks r" for c u
    proof -
      show r: "bit u k" using TNode.prems(3) that unfolding n by auto
      show "nb < u" if "\<not> bit nb k" by (rule bit_order [OF _ that r]) (use q [of c u] \<open>(c, u) \<in> trie_chunks r\<close> in simp)
    qed
    have r0: "r1 \<noteq> 0" using False TNode.prems(10) by (simp add: r1_def)
    let ?rst = "if child1_of m a \<noteq> 0 \<and> child1_of m a \<noteq> hp m (if bt then a + 40 else a + 32) then child1_of m a else rst"
    let ?next = "hp m (if bt then a + 40 else a + 32)"
    have step: "tmalloc_large_descend m nb K rst t v rsize =
      (if ?next = 0 then Some (?rst, v1, r1) else tmalloc_large_descend m nb (push_bit 1 K) ?rst ?next v1 r1)"
      using t(1,3) False C by (subst tmalloc_large_descend.simps) (simp add: Let_def v1_def r1_def)
    show ?thesis
    proof (cases bt)
      case True
      have left: "covers nb X (trie_chunks l)" for X
        by (rule covers_small) (use bits(2) [of _ _ nb] True in \<open>auto simp: bt_def\<close>)
      have "?rst = rst" "?next = child1_of m a" using True by simp_all
      note step = step [unfolded this]
      have cov: "covers nb (D \<union> ?E \<union> trie_chunks r \<union> trie_chunks R) (trie_chunks ?T \<union> trie_chunks R)"
        by (simp add: left) (auto intro!: covers_sub)
      show ?thesis
      proof (cases "r = TLeaf")
        case leaf: True
        then have "tmalloc_large_descend m nb K rst t v rsize = Some (rst, v1, r1)"
          using step subtrie_ptr [OF t(5)] by simp
        moreover have "descended m nb D (trie_chunks ?T) (trie_chunks R) (Some (rst, v1, r1))"
          by (rule descended_end [OF TNode.prems(11) b E _ TNode.prems(12)]) (use cov leaf in auto)
        ultimately show ?thesis by simp
      next
        case sub: False
        have "descended m nb (D \<union> ?E) (trie_chunks r) (trie_chunks R)
          (tmalloc_large_descend m nb (push_bit 1 K) rst (child1_of m a) v1 r1)"
          by (rule TNode.IH(2) [OF _ sub _ ch(2) _ _ K TNode.prems(8) b r0 TNode.prems(11,12)])
            (use TNode.prems(1,3,5,13) key True n in \<open>auto simp: bt_def\<close>)
        then have "descended m nb D (trie_chunks ?T) (trie_chunks R)
          (tmalloc_large_descend m nb (push_bit 1 K) rst (child1_of m a) v1 r1)"
          by (rule descended_step [OF _ E _ _ cov]) auto
        then show ?thesis using step sub subtrie_ptr [OF t(5)] by simp
      qed
    next
      case bt0: False
      let ?R = "if r = TLeaf then R else r"
      have nx: "?next = child0_of m a" using bt0 by simp
      have R: "subtrie m (if r = TLeaf then rst else child1_of m a) ?R" using TNode.prems(11) t(5) by simp
      have R_ge: "nb \<le> u" if "(c, u) \<in> trie_chunks ?R" for c u
        using that TNode.prems(12) bits'(2) bt0 by (auto simp: bt_def split: if_splits intro: less_imp_le)
      have R_above: "u \<le> u'" if "(c, u) \<in> trie_chunks l" "(c', u') \<in> trie_chunks ?R" for c u c' u'
        using that TNode.prems(13) [of c u c' u'] t(6) [of c u c' u'] by (auto split: if_splits intro: less_imp_le)
      have cov: "covers nb (D \<union> ?E \<union> trie_chunks l \<union> trie_chunks ?R) (trie_chunks ?T \<union> trie_chunks R)"
      proof (cases "r = TLeaf")
        case False
        then obtain c u where c: "(c, u) \<in> trie_chunks r" by (cases r) auto
        have "nb \<le> u" using R_ge [of c u] c False by simp
        then have "covers nb (D \<union> ?E \<union> trie_chunks l \<union> trie_chunks ?R) (trie_chunks R)"
          using c False by (intro covers_above [of c u]) (auto intro: TNode.prems(13))
        then show ?thesis using False by simp (auto intro!: covers_sub)
      qed (simp, auto intro!: covers_sub)
      note step = step [unfolded nx]
      show ?thesis
      proof (cases "l = TLeaf")
        case leaf: True
        then have "tmalloc_large_descend m nb K rst t v rsize = Some (if r = TLeaf then rst else child1_of m a, v1, r1)"
          using step subtrie_ptr [OF t(4)] subtrie_ptr [OF t(5)] roots_differ [OF T] by auto
        moreover have "descended m nb D (trie_chunks ?T) (trie_chunks R)
          (Some (if r = TLeaf then rst else child1_of m a, v1, r1))"
          by (rule descended_end [OF R b E _ R_ge]) (use cov leaf in auto)
        ultimately show ?thesis by simp
      next
        case sub: False
        have "descended m nb (D \<union> ?E) (trie_chunks l) (trie_chunks ?R)
          (tmalloc_large_descend m nb (push_bit 1 K) (if r = TLeaf then rst else child1_of m a) (child0_of m a) v1 r1)"
          by (rule TNode.IH(1) [OF _ sub _ ch(1) _ _ K TNode.prems(8) b r0 R R_ge R_above])
            (use TNode.prems(1,3,5) key bt0 n in \<open>auto simp: bt_def\<close>)
        then have "descended m nb D (trie_chunks ?T) (trie_chunks R)
          (tmalloc_large_descend m nb (push_bit 1 K) (if r = TLeaf then rst else child1_of m a) (child0_of m a) v1 r1)"
          by (rule descended_step [OF _ E _ _ cov]) auto
        then show ?thesis using step sub subtrie_ptr [OF t(4)] subtrie_ptr [OF t(5)] roots_differ [OF T] by auto
      qed
    qed
  qed
qed

text \<open>A request larger than all chunks: whatever path it takes, nothing is found.\<close>

lemma descend_none:
  assumes "subtrie m t T" "T \<noteq> TLeaf" "subtrie m rst R" "0 < nb"
    "\<And>c u. (c, u) \<in> trie_chunks T \<Longrightarrow> u < nb"
  shows "\<exists>t' R'. tmalloc_large_descend m nb K rst t 0 (- nb) = Some (t', 0, - nb)
    \<and> subtrie m t' R' \<and> trie_chunks R' \<subseteq> trie_chunks T \<union> trie_chunks R"
  using assms
proof (induction T arbitrary: t K rst R)
  case TLeaf
  then show ?case by simp
next
  case (TNode a s cs l r)
  note t = subtrie_node [OF TNode.prems(1)]
  have "s < nb" by (rule TNode.prems(5) [of a]) simp
  then have small: "\<not> s - nb < - nb" using trem_less(1) [OF TNode.prems(4)] by (simp add: not_le)
  obtain b where b: "drop_bit 63 K AND 1 = (of_bool b :: u64)"
    by (metis and_one_eq mod_2_eq_odd)
  let ?next = "hp m (child_slot a (drop_bit 63 K AND 1))" and ?sub = "if b then r else l"
  let ?rst = "if child1_of m a \<noteq> 0 \<and> child1_of m a \<noteq> ?next then child1_of m a else rst"
  let ?R = "if child1_of m a \<noteq> 0 \<and> child1_of m a \<noteq> ?next then r else R"
  have sub: "subtrie m ?next ?sub" using t(4,5) by (simp add: b child_slot_bit)
  have R: "subtrie m ?rst ?R" using t(5) TNode.prems(3) by simp
  have step: "tmalloc_large_descend m nb K rst t 0 (- nb) =
      (if ?next = 0 then Some (?rst, 0, - nb) else tmalloc_large_descend m nb (push_bit 1 K) ?rst ?next 0 (- nb))"
    using t(1,3) small by (subst tmalloc_large_descend.simps) (simp add: Let_def)
  have R_sub: "trie_chunks ?R \<subseteq> trie_chunks (TNode a s cs l r) \<union> trie_chunks R" by auto
  show ?case
  proof (cases "?next = 0")
    case True
    then have "tmalloc_large_descend m nb K rst t 0 (- nb) = Some (?rst, 0, - nb)" using step by simp
    then show ?thesis using R R_sub by blast
  next
    case False
    then have "?sub \<noteq> TLeaf" using subtrie_ptr [OF sub] by simp
    have "\<exists>t' R'. tmalloc_large_descend m nb (push_bit 1 K) ?rst ?next 0 (- nb) = Some (t', 0, - nb)
      \<and> subtrie m t' R' \<and> trie_chunks R' \<subseteq> trie_chunks ?sub \<union> trie_chunks ?R"
    proof (cases b)
      case True
      have "subtrie m ?next r" "r \<noteq> TLeaf" using sub \<open>?sub \<noteq> TLeaf\<close> True by simp_all
      then have "\<exists>t' R'. tmalloc_large_descend m nb (push_bit 1 K) ?rst ?next 0 (- nb) = Some (t', 0, - nb)
        \<and> subtrie m t' R' \<and> trie_chunks R' \<subseteq> trie_chunks r \<union> trie_chunks ?R"
        by (intro TNode.IH(2) R TNode.prems(4)) (use TNode.prems(5) in auto)
      then show ?thesis using True by (simp only: if_True if_False)
    next
      case False
      have "subtrie m ?next l" "l \<noteq> TLeaf" using sub \<open>?sub \<noteq> TLeaf\<close> False by simp_all
      then have "\<exists>t' R'. tmalloc_large_descend m nb (push_bit 1 K) ?rst ?next 0 (- nb) = Some (t', 0, - nb)
        \<and> subtrie m t' R' \<and> trie_chunks R' \<subseteq> trie_chunks l \<union> trie_chunks ?R"
        by (intro TNode.IH(1) R TNode.prems(4)) (use TNode.prems(5) in auto)
      then show ?thesis using False by (simp only: if_True if_False)
    qed
    then obtain t' R' where "tmalloc_large_descend m nb K rst t 0 (- nb) = Some (t', 0, - nb)" "subtrie m t' R'"
      "trie_chunks R' \<subseteq> trie_chunks ?sub \<union> trie_chunks ?R" using step False by auto
    moreover have "trie_chunks ?sub \<union> trie_chunks ?R \<subseteq> trie_chunks (TNode a s cs l r) \<union> trie_chunks R"
      using R_sub by auto
    ultimately show ?thesis by blast
  qed
qed

section \<open>All tree bins\<close>

lemma tree_sizes:
  assumes "treebins_rep m T" "i < 32" "(c, s) \<in> trie_chunks (T i)"
  shows "large_size s" "compute_tree_index s = i" "c \<noteq> 0"
proof -
  have ok: "treebin_ok m i (T i)" using assms by (simp add: treebins_rep_def)
  then show "large_size s" "compute_tree_index s = i" using assms(3) by (auto simp: treebin_ok_def)
  have "c \<in> tree_nodes T" using assms(2,3) by (force simp: nodes_chunks intro: tree_nodesI)
  then show "c \<noteq> 0" using assms(1) by (auto simp: treebins_rep_def tree_node_room_def node_ok_def)
qed

lemma bin_subtrie:
  assumes "treebins_rep m T" "i < 32"
  shows "subtrie m (hp m (treebin_at m i)) (T i)"
proof -
  have ok: "treebin_ok m i (T i)" using assms by (simp add: treebins_rep_def)
  have "\<exists>q. prefix_ok (bin_bits i) q (T i)"
  proof (cases "T i")
    case TLeaf
    then show ?thesis by (simp add: prefix_ok_def)
  next
    case (TNode a s cs l r)
    then have "(a, s) \<in> trie_chunks (T i)" by simp
    from treebin_prefix [OF ok tree_sizes(1,2) [OF assms this]] show ?thesis by blast
  qed
  then show ?thesis using ok by (auto simp: subtrie_def treebin_ok_def)
qed

lemma minsize_mono: "i \<le> j \<Longrightarrow> j < 32 \<Longrightarrow> minsize_for_tree_index i \<le> minsize_for_tree_index j"
proof (induction j)
  case (Suc j)
  have step: "\<forall>j<32. j < 31 \<longrightarrow> minsize_for_tree_index j \<le> minsize_for_tree_index (Suc j)"
    unfolding nat_lt_32 by (simp add: minsize_for_tree_index_def)
  show ?case
  proof (cases "i = Suc j")
    case False
    then have "minsize_for_tree_index i \<le> minsize_for_tree_index j" using Suc by simp
    also have "\<dots> \<le> minsize_for_tree_index (Suc j)" using step Suc.prems(2) by simp
    finally show ?thesis .
  qed simp
qed simp

lemma index_order:
  assumes "large_size s" "large_size t" "compute_tree_index s < compute_tree_index t"
  shows "s < t"
proof -
  have "s < minsize_for_tree_index (Suc (compute_tree_index s))"
    using compute_tree_index_bounds [of s] compute_tree_index_bounds [of t] assms
    by (auto simp: large_size_def)
  also have "\<dots> \<le> minsize_for_tree_index (compute_tree_index t)"
    using compute_tree_index_bounds [of t] assms by (intro minsize_mono) (auto simp: large_size_def)
  also have "\<dots> \<le> t" using compute_tree_index_bounds [of t] assms by (auto simp: large_size_def)
  finally show ?thesis .
qed

text \<open>The next marked bin.\<close>

lemma marked_bin: "treebins_rep m T \<Longrightarrow> i < 32 \<Longrightarrow> bit (treemap m) i \<longleftrightarrow> T i \<noteq> TLeaf"
  by (auto simp: treebins_rep_def treebin_ok_def treemap_is_marked_iff)

lemma first_bit: "x \<noteq> 0 \<Longrightarrow> compute_bit2idx (least_bit x) = bsfl x"
  by (simp add: compute_bit2idx_def least_bit_eq bsfl_idx2bit bsfl_correct(1))

lemma next_bin:
  assumes "treebins_rep m T" "i < 32" and X: "X = left_bits (idx2bit i) AND treemap m"
  shows "X = 0 \<Longrightarrow> i < j \<Longrightarrow> j < 32 \<Longrightarrow> T j = TLeaf"
    "X \<noteq> 0 \<Longrightarrow> i < bsfl X \<and> bsfl X < 32 \<and> T (bsfl X) \<noteq> TLeaf"
    "X \<noteq> 0 \<Longrightarrow> i < j \<Longrightarrow> j < bsfl X \<Longrightarrow> T j = TLeaf"
proof -
  have b: "bit X j \<longleftrightarrow> i < j \<and> j < 32 \<and> T j \<noteq> TLeaf" for j
    using marked_bin [OF assms(1), of j] by (auto simp: X bit_and_iff bit_left_bits [OF assms(2)])
  show "T j = TLeaf" if "X = 0" "i < j" "j < 32"
  proof (rule ccontr)
    assume "T j \<noteq> TLeaf"
    then have "bit X j" using b that by simp
    then show False using that(1) by simp
  qed
  show "i < bsfl X \<and> bsfl X < 32 \<and> T (bsfl X) \<noteq> TLeaf" if "X \<noteq> 0" using bsfl_correct(2) [OF that] b by blast
  show "T j = TLeaf" if "X \<noteq> 0" "i < j" "j < bsfl X"
    using bsfl_correct(1,3) [OF that(1)] that b [of j] by auto
qed

lemma tree_index_less: "compute_tree_index S < 32"
proof -
  define X where "X = (ucast (drop_bit 8 S) :: u32)"
  have "compute_tree_index S < 32" if "X \<noteq> 0" "X \<le> 0xFFFF"
  proof -
    have "unat X < 2 ^ 16" using that(2) by (simp add: word_le_nat_alt)
    moreover have "2 ^ bsrl X \<le> unat X" using bsrl_bounds [OF that(1)] by simp
    ultimately have "(2::nat) ^ bsrl X < 2 ^ 16" by simp
    then have "bsrl X < 16" by (rule power_less_imp_less_exp [rotated]) simp
    moreover have "unat (drop_bit (bsrl X + 7) S AND 1) \<le> 1" by (simp add: unat_and_1)
    ultimately show ?thesis using that by (simp add: compute_tree_index_def Let_def flip: X_def)
  qed
  then show ?thesis by (cases "X = 0"; cases "X \<le> 0xFFFF") (simp_all add: compute_tree_index_def Let_def not_le flip: X_def)
qed

text \<open>A fit in one bin is a fit among all, where the bins before hold smaller chunks only.\<close>

lemma best_in_bin:
  assumes rep: "treebins_rep m T" and i: "i < 32" and b: "best nb (trie_chunks (T i)) v r" "v \<noteq> 0"
    and low: "\<And>j c s. j < i \<Longrightarrow> (c, s) \<in> trie_chunks (T j) \<Longrightarrow> s < nb"
  shows "best nb (tree_chunks T) v r"
proof (rule best_cover [OF b(1)])
  show "trie_chunks (T i) \<subseteq> tree_chunks T" using i by (auto simp: tree_chunks_def)
  obtain s where s: "(v, s) \<in> trie_chunks (T i)" "nb \<le> s" using best_fits [OF b] by blast
  have "covers nb (trie_chunks (T i)) (trie_chunks (T j))" if j: "j < 32" for j
  proof -
    consider "j < i" | "j = i" | "i < j" by linarith
    then show ?thesis
    proof cases
      case 1 then show ?thesis using low by (intro covers_small) blast
    next
      case 2 then show ?thesis by (simp add: covers_sub)
    next
      case 3
      have "s \<le> u" if "(c, u) \<in> trie_chunks (T j)" for c u
        using index_order [of s u] tree_sizes [OF rep i s(1)] tree_sizes [OF rep j that] 3 by simp
      then show ?thesis by (rule covers_above [OF s])
    qed
  qed
  then show "covers nb (trie_chunks (T i)) (tree_chunks T)" by (auto simp: covers_def tree_chunks_def)
qed

text \<open>The second half of the search: what is left of the request's own bin, or the next marked bin.\<close>

lemma search_next:
  assumes rep: "treebins_rep m T" and nb: "large_size nb"
    and small: "\<And>c s. (c, s) \<in> trie_chunks (T (compute_tree_index nb)) \<Longrightarrow> s < nb"
    and X: "X = left_bits (idx2bit (compute_tree_index nb)) AND treemap m"
  shows "\<exists>v r. leftmost_loop m nb (if X \<noteq> 0 then hp m (treebin_at m (compute_bit2idx (least_bit X))) else 0) 0 (- nb)
    = Some (v, r) \<and> best nb (tree_chunks T) v r"
proof -
  let ?i = "compute_tree_index nb"
  have pos: "0 < nb" using nb by (auto simp: large_size_def word_gt_0)
  have low: "s < nb" if "j \<le> ?i" "(c, s) \<in> trie_chunks (T j)" for j c s
  proof (cases "j = ?i")
    case False
    have "j < 32" using that(1) tree_index_less [of nb] by simp
    from tree_sizes [OF rep this that(2)] show ?thesis using index_order [of s nb] nb False that(1) by simp
  qed (use small that in simp)
  note n = next_bin [OF rep tree_index_less X]
  show ?thesis
  proof (cases "X = 0")
    case True
    have "s < nb" if cs: "(c, s) \<in> tree_chunks T" for c s
    proof -
      obtain j where j: "j < 32" "(c, s) \<in> trie_chunks (T j)" using cs by (auto simp: tree_chunks_def)
      then show ?thesis using n(1) [OF True, of j] low [of j c s] by (cases "j \<le> ?i") auto
    qed
    then have "best nb (tree_chunks T) 0 (- nb)" by (auto simp: best_def)
    moreover have "leftmost_loop m nb 0 0 (- nb) = Some (0, - nb)" by (subst leftmost_loop.simps) simp
    ultimately show ?thesis using True by simp
  next
    case False
    let ?j = "bsfl X"
    have j: "?i < ?j" "?j < 32" "T ?j \<noteq> TLeaf" using n(2) [OF False] by auto
    have big: "nb < s" if "(c, s) \<in> trie_chunks (T ?j)" for c s
      using tree_sizes [OF rep j(2) that] index_order [of nb s] nb j(1) by simp
    obtain v r where v: "leftmost_loop m nb (hp m (treebin_at m ?j)) 0 (- nb) = Some (v, r)"
      "best nb ({} \<union> trie_chunks (T ?j)) v r"
      using leftmost_loop_best [OF bin_subtrie [OF rep j(2)] best_empty pos] big by (metis less_imp_le)
    obtain c s where c: "(c, s) \<in> trie_chunks (T ?j)" using j(3) by (cases "T ?j") auto
    have "v \<noteq> 0" using v(2) big [OF c] c by (auto simp: best_def dest: less_asym)
    have before: "u < nb" if "k < ?j" "(d, u) \<in> trie_chunks (T k)" for k d u
      using n(3) [OF False, of k] low [of k d u] that by (cases "k \<le> ?i") auto
    have "best nb (tree_chunks T) v r"
      by (rule best_in_bin [OF rep j(2) _ \<open>v \<noteq> 0\<close> before]) (use v(2) in simp_all)
    then show ?thesis using v(1) False by (simp add: first_bit)
  qed
qed

lemma search_own:
  assumes rep: "treebins_rep m T" and nb: "large_size nb" and T: "T (compute_tree_index nb) \<noteq> TLeaf"
  shows "\<exists>t v r. tmalloc_large_descend m nb (push_bit (leftshift_for_tree_index (compute_tree_index nb)) nb) 0
      (hp m (treebin_at m (compute_tree_index nb))) 0 (- nb) = Some (t, v, r)
    \<and> (t = 0 \<and> v = 0 \<and> r = - nb \<and> (\<forall>(c, s)\<in>trie_chunks (T (compute_tree_index nb)). s < nb)
       \<or> (t \<noteq> 0 \<or> v \<noteq> 0) \<and> (\<exists>v' r'. leftmost_loop m nb t v r = Some (v', r') \<and> best nb (tree_chunks T) v' r'))"
proof -
  let ?i = "compute_tree_index nb"
  let ?p = "hp m (treebin_at m ?i)"
  let ?n = "bin_bits ?i"
  have i: "?i < 32" by (rule tree_index_less)
  have pos: "0 < nb" using nb by (auto simp: large_size_def word_gt_0)
  have ok: "treebin_ok m ?i (T ?i)" using rep i by (simp add: treebins_rep_def)
  have "descended m nb {} (trie_chunks (T ?i)) (trie_chunks TLeaf)
    (tmalloc_large_descend m nb (push_bit (leftshift_for_tree_index ?i) nb) 0 ?p 0 (- nb))"
  proof (rule descend_best)
    show "trep (hp m) ?i (treebin_at m ?i) ?p (T ?i)" "trie_ok ?n (T ?i)" using ok by (simp_all add: treebin_ok_def)
    show "prefix_ok ?n (drop_bit ?n nb) (T ?i)" by (rule treebin_prefix [OF ok nb refl])
    show "?n \<le> 64" "push_bit (leftshift_for_tree_index ?i) nb = push_bit (64 - ?n) nb"
      using bin_shift [OF i] by simp_all
  qed (use T pos in simp_all)
  then obtain t v r R D where d: "tmalloc_large_descend m nb (push_bit (leftshift_for_tree_index ?i) nb) 0 ?p 0 (- nb) = Some (t, v, r)"
    "subtrie m t R" "best nb D v r" "D \<subseteq> trie_chunks (T ?i)" "trie_chunks R \<subseteq> trie_chunks (T ?i)"
    and c: "r = 0 \<and> v \<noteq> 0 \<or> (\<forall>(c, u)\<in>trie_chunks R. nb \<le> u) \<and> covers nb (D \<union> trie_chunks R) (trie_chunks (T ?i))"
    unfolding descended_def by auto
  have low: "s < nb" if "j < ?i" "(c, s) \<in> trie_chunks (T j)" for j c s
  proof -
    have "j < 32" using that(1) i by simp
    from tree_sizes [OF rep this that(2)] show ?thesis using index_order [of s nb] nb that(1) by simp
  qed
  note fin = best_in_bin [OF rep i _ _ low]
  show ?thesis
  proof (cases "r = 0 \<and> v \<noteq> 0")
    case True
    then obtain s where s: "(v, s) \<in> D" "nb \<le> s" "s - nb = 0" using best_fits [OF d(3)] by auto
    then have "covers nb D (trie_chunks (T ?i))" by (auto simp: covers_def intro!: bexI [of _ "(v, nb)"])
    from best_cover [OF d(3,4) this] have "best nb (tree_chunks T) v r" using fin True by simp
    moreover have "leftmost_loop m nb t v r = Some (v, r)"
      by (rule leftmost_loop_idle [OF d(2)]) (use True in simp)
    ultimately show ?thesis using d(1) True by auto
  next
    case False
    then have R: "\<And>c u. (c, u) \<in> trie_chunks R \<Longrightarrow> nb \<le> u" and cov: "covers nb (D \<union> trie_chunks R) (trie_chunks (T ?i))"
      using c by auto
    obtain v' r' where l: "leftmost_loop m nb t v r = Some (v', r')" "best nb (D \<union> trie_chunks R) v' r'"
      using leftmost_loop_best [OF d(2,3) pos] R by blast
    have all: "best nb (trie_chunks (T ?i)) v' r'" by (rule best_cover [OF l(2) _ cov]) (use d(4,5) in auto)
    show ?thesis
    proof (cases "v' = 0")
      case True
      have "t = 0"
      proof (rule ccontr)
        assume "t \<noteq> 0"
        then obtain c u where "(c, u) \<in> trie_chunks R" using subtrie_ptr [OF d(2)] by (cases R) auto
        then show False using R [of c u] l(2) True by (auto simp: best_def dest: leD)
      qed
      moreover have "leftmost_loop m nb 0 v r = Some (v, r)" by (subst leftmost_loop.simps) simp
      ultimately have "v = 0" "r = - nb" using l True by (auto simp: best_def)
      then show ?thesis using d(1) \<open>t = 0\<close> all True by (auto simp: best_def)
    next
      case False
      have "t \<noteq> 0 \<or> v \<noteq> 0"
      proof (rule ccontr)
        assume "\<not> (t \<noteq> 0 \<or> v \<noteq> 0)"
        then have "leftmost_loop m nb t v r = Some (0, r)" by (subst leftmost_loop.simps) simp
        then show False using l(1) False by simp
      qed
      moreover have "best nb (tree_chunks T) v' r'" by (rule fin [OF all False])
      ultimately show ?thesis using d(1) l(1) by blast
    qed
  qed
qed

lemma tmalloc_large_search_best:
  assumes rep: "treebins_rep m T" and nb: "is_aligned nb" "MIN_LARGE_SIZE \<le> nb"
  shows "\<exists>v r. tmalloc_large_search nb m = Some (v, r) \<and> best nb (tree_chunks T) v r"
proof (cases "nb < 2 ^ 40")
  case True
  then have nb: "large_size nb" using nb by (simp add: large_size_def)
  let ?i = "compute_tree_index nb"
  note ptr = subtrie_ptr [OF bin_subtrie [OF rep tree_index_less [of nb]]]
  show ?thesis
  proof (cases "T ?i = TLeaf")
    case True
    then show ?thesis using search_next [OF rep nb _ refl] ptr
      by (simp add: tmalloc_large_search_def Let_def split: if_splits)
  next
    case False
    from search_own [OF rep nb this] obtain t v r where d:
      "tmalloc_large_descend m nb (push_bit (leftshift_for_tree_index ?i) nb) 0 (hp m (treebin_at m ?i)) 0 (- nb) = Some (t, v, r)"
      and c: "t = 0 \<and> v = 0 \<and> r = - nb \<and> (\<forall>(c, s)\<in>trie_chunks (T ?i). s < nb)
       \<or> (t \<noteq> 0 \<or> v \<noteq> 0) \<and> (\<exists>v' r'. leftmost_loop m nb t v r = Some (v', r') \<and> best nb (tree_chunks T) v' r')"
      by blast
    from c show ?thesis
    proof
      assume a: "t = 0 \<and> v = 0 \<and> r = - nb \<and> (\<forall>(c, s)\<in>trie_chunks (T ?i). s < nb)"
      then have "\<And>c s. (c, s) \<in> trie_chunks (T ?i) \<Longrightarrow> s < nb" by blast
      from search_next [OF rep nb this refl] show ?thesis using a ptr d False
        by (simp add: tmalloc_large_search_def Let_def split: if_splits)
    next
      assume "(t \<noteq> 0 \<or> v \<noteq> 0) \<and> (\<exists>v' r'. leftmost_loop m nb t v r = Some (v', r') \<and> best nb (tree_chunks T) v' r')"
      then show ?thesis using ptr d False by (auto simp: tmalloc_large_search_def Let_def)
    qed
  qed
next
  case False
  then have small: "s < nb" if "i < 32" "(c, s) \<in> trie_chunks (T i)" for i c s
    using tree_sizes(1) [OF rep that] by (auto simp: large_size_def)
  then have best: "best nb (tree_chunks T) 0 (- nb)" by (auto simp: best_def tree_chunks_def)
  have pos: "0 < nb" using nb by (auto simp: word_gt_0)
  let ?i = "compute_tree_index nb"
  note i = tree_index_less [of nb]
  have idle: "leftmost_loop m nb t 0 (- nb) = Some (0, - nb)" if "subtrie m t R" "\<And>c s. (c, s) \<in> trie_chunks R \<Longrightarrow> s < nb" for t R
    by (rule leftmost_loop_idle [OF that(1)]) (use that(2) trem_less(1) [OF pos] in \<open>auto simp: not_le\<close>)
  have nxt: "leftmost_loop m nb (hp m (treebin_at m (compute_bit2idx (least_bit X)))) 0 (- nb) = Some (0, - nb)"
    if "X = left_bits (idx2bit ?i) AND treemap m" "X \<noteq> 0" for X
    using next_bin(2) [OF rep i that] idle [OF bin_subtrie [OF rep], of "bsfl X"] small [of "bsfl X"] that(2)
    by (simp add: first_bit)
  have zero: "leftmost_loop m nb 0 0 (- nb) = Some (0, - nb)" by (rule idle [of 0 TLeaf]) simp_all
  show ?thesis
  proof (cases "T ?i = TLeaf")
    case True
    then show ?thesis using subtrie_ptr [OF bin_subtrie [OF rep i]] best nxt [OF refl] zero
      by (simp add: tmalloc_large_search_def Let_def)
  next
    case ne: False
    obtain t' R' where d: "tmalloc_large_descend m nb (push_bit (leftshift_for_tree_index ?i) nb) 0 (hp m (treebin_at m ?i)) 0 (- nb) = Some (t', 0, - nb)"
      "subtrie m t' R'" "trie_chunks R' \<subseteq> trie_chunks (T ?i)"
      using descend_none [OF bin_subtrie [OF rep i] ne, of 0 TLeaf nb "push_bit (leftshift_for_tree_index ?i) nb"]
        small [OF i] pos by auto
    have "leftmost_loop m nb t' 0 (- nb) = Some (0, - nb)" by (rule idle [OF d(2)]) (use d(3) small [OF i] in blast)
    then show ?thesis using d(1) ne subtrie_ptr [OF bin_subtrie [OF rep i]] best nxt [OF refl] zero
      by (simp add: tmalloc_large_search_def Let_def)
  qed
qed

lemma tmalloc_small_search_best:
  assumes rep: "treebins_rep m T" and nb: "0 < nb" "nb < MIN_LARGE_SIZE" and m: "treemap m \<noteq> 0"
  shows "\<exists>v r. tmalloc_small_search nb m = Some (v, r) \<and> best nb (tree_chunks T) v r \<and> v \<noteq> 0"
proof -
  let ?j = "bsfl (treemap m)"
  have j: "?j < 32" "T ?j \<noteq> TLeaf" using bsfl_correct [OF m] marked_bin [OF rep] by auto
  obtain a s cs l r where t: "T ?j = TNode a s cs l r" using j(2) by (cases "T ?j") auto
  note n = subtrie_node [OF bin_subtrie [OF rep j(1), unfolded t]]
  have big: "nb \<le> s" if "(c, s) \<in> trie_chunks (T ?j)" for c s
    using tree_sizes(1) [OF rep j(1) that] nb(2) by (auto simp: large_size_def intro: less_imp_le less_le_trans)
  obtain v w where v: "leftmost_loop m nb (hp m (treebin_at m ?j)) 0 (- nb) = Some (v, w)" "best nb ({} \<union> trie_chunks (T ?j)) v w"
    using leftmost_loop_best [OF bin_subtrie [OF rep j(1)] best_empty nb(1)] big by blast
  have s: "nb \<le> s" by (rule big [of a]) (simp add: t)
  then have "s - nb < - nb" using trem_less(1) [OF nb(1)] by simp
  then have "leftmost_loop m nb (hp m (treebin_at m ?j)) 0 (- nb) = leftmost_loop m nb (leftmost_child m a) a (s - nb)"
    using n(1-3) by (subst leftmost_loop.simps) (simp add: Let_def)
  then have run: "tmalloc_small_search nb m = Some (v, w)"
    using v(1) n(1,3) first_bit [OF m] by (simp add: tmalloc_small_search_def Let_def)
  have "v \<noteq> 0" using v(2) s t by (auto simp: best_def dest: leD)
  moreover have "T k = TLeaf" if "k < ?j" for k
    using bsfl_correct(3) [OF m that] marked_bin [OF rep, of k] that j(1) by simp
  then have "best nb (tree_chunks T) v w" using v(2) by (intro best_in_bin [OF rep j(1) _ \<open>v \<noteq> 0\<close>]) auto
  ultimately show ?thesis using run by blast
qed

end
