(* ===== verification/Pt_Carve.thy ===== *)
theory Pt_Carve
  imports Pt_Layout Pt_Search
begin

text \<open>
  The steps by which memory changes hands in a malloc space: a free chunk is used whole or in part, a
  piece is cut off the top chunk, chunks are taken out of the bins and put in, the designated victim
  is replaced. Each keeps the skeleton and the contents of all used chunks.
\<close>

section \<open>The state between two calls\<close>

definition dv_set :: "mstate \<Rightarrow> chunks" where
  "dv_set m = (if dvsize m = 0 then {} else {(dv m, dvsize m)})"

definition space_ok :: "mstate \<Rightarrow> layout \<Rightarrow> bool" where
  "space_ok m cs \<longleftrightarrow> skeleton m cs \<and> bins_hold m (frees cs - dv_set m) \<and> dv_set m \<subseteq> frees cs
     \<and> (dvsize m = 0 \<longrightarrow> dv m = 0)"

text \<open>
  \<open>recuts m cs m' cs' U F\<close>: memory is cut anew, into \<open>cs'\<close> with the used chunks \<open>U\<close> and the free chunks
  \<open>F\<close>; what users of \<open>P\<close> have written stays, and the bins hold what they held, if it is still free.
\<close>

definition recuts :: "mstate \<Rightarrow> layout \<Rightarrow> mstate \<Rightarrow> layout \<Rightarrow> chunks \<Rightarrow> chunks \<Rightarrow> chunks \<Rightarrow> bool" where
  "recuts m cs m' cs' U F P \<longleftrightarrow> skeleton m' cs' \<and> useds cs' = U \<and> frees cs' = F \<and> kept (payloads P) m m'
     \<and> (\<forall>C. bins_hold m C \<longrightarrow> C \<subseteq> frees cs \<inter> F \<longrightarrow> bins_hold m' C)"

definition same_geometry :: "mstate \<Rightarrow> mstate \<Rightarrow> bool" where
  "same_geometry m m' \<longleftrightarrow> maddr m' = maddr m \<and> least_addr m' = least_addr m \<and> smallmap m' = smallmap m
     \<and> treemap m' = treemap m"

lemma recuts_skeleton: "recuts m cs m' cs' U F P \<Longrightarrow> skeleton m' cs'"
  by (simp add: recuts_def)

lemma skeleton_fresh:
  assumes "skeleton m (xs @ (p, s, k) # ys)"
  shows "(p, t, l) \<notin> set xs" "(p, t, l) \<notin> set ys"
  using laid_distinct [OF skeleton_bounds(5) [OF assms]] by force+

lemma free_next:
  assumes "skeleton m (xs @ (p, s, Free) # ys)"
  shows "\<exists>t zs. ys = (p + s, t, Used) # zs" "after True xs"
    "hp m (p + 8) = head_word s True False" "hp m (p + s) = s"
proof -
  note l = laid_head [of "hp m" True "space_start m" xs p s Free "ys @ [(m_top m, topsize m, Top)]" "space_end m"]
  have l: "laid (hp m) True (space_start m) (xs @ (p, s, Free) # ys @ [(m_top m, topsize m, Top)]) (space_end m)"
    using skeleton_bounds(5) [OF assms] by simp
  note h = laid_head [OF l]
  show "after True xs" "hp m (p + 8) = head_word s True False" "hp m (p + s) = s" using h by auto
  have "unat (p + s) = unat p + unat s" by (rule skeleton_mem(8) [OF assms, where k = Free]) simp
  moreover have "laid (hp m) False (unat p + unat s) (ys @ [(m_top m, topsize m, Top)]) (space_end m)"
    using h(4) by simp
  ultimately show "\<exists>t zs. ys = (p + s, t, Used) # zs"
    by (cases ys) (auto simp: word_unat_eq_iff)
qed

text \<open>A recut between used neighbours.\<close>

lemma recut_recuts:
  assumes r: "recut m m' xs old new n t ys d" and "same_geometry m m'"
    and F: "frees old \<inter> frees (xs @ ys) = {}" "F = frees new \<union> frees (xs @ ys)" "frees new \<inter> frees (xs @ old @ ys) = {}"
    and U: "U = useds new \<union> useds (xs @ (n, t, Used) # ys)"
  shows "recuts m (xs @ old @ (n, t, Used) # ys) m' (xs @ new @ (n, t, Used) # ys) U F (useds (xs @ (n, t, Used) # ys))"
proof -
  have "bins_hold m' C" if "bins_hold m C" "C \<subseteq> frees (xs @ old @ (n, t, Used) # ys) \<inter> F" for C
    by (rule recut_bins [OF r that(1)]) (use that(2) F assms(2) in \<open>auto simp: same_geometry_def\<close>)
  then show ?thesis using recut_skeleton [OF r] recut_kept [OF r] F(2) U by (auto simp: recuts_def)
qed

section \<open>A free chunk is used\<close>

lemma head_marked: "s OR 3 = head_word s True True" "s OR 1 = head_word s True False"
  by (simp_all add: head_word_def)

lemma unat_neq: "unat x \<noteq> unat y \<Longrightarrow> x \<noteq> y"
  by auto

lemma use_whole:
  assumes sk: "skeleton m cs" and p: "(p, s, Free) \<in> set cs"
    and m': "same_geometry m m'" "m_top m' = m_top m" "topsize m' = topsize m" "hp m' = hp (set_inuse_and_pinuse p s m)"
  shows "\<exists>cs'. recuts m cs m' cs' (insert (p, s) (useds cs)) (frees cs - {(p, s)}) (useds cs)"
proof -
  obtain xs ys where cs: "cs = xs @ (p, s, Free) # ys" using p by (auto dest: split_list)
  note sk' = sk [unfolded cs]
  obtain t zs where ys: "ys = (p + s, t, Used) # zs" using free_next(1) [OF sk'] by blast
  note f = free_next [OF sk'] and g = skeleton_mem [OF sk p] and fresh = skeleton_fresh [OF sk']
  have n: "(p + s, t, Used) \<in> set cs" by (simp add: cs ys)
  have nh: "hp m (p + s + 8) = head_word t False True"
    using laid_head(1) [of "hp m" True "space_start m" "xs @ [(p, s, Free)]" "p + s" t Used "zs @ [(m_top m, topsize m, Top)]" "space_end m"]
      skeleton_bounds(5) [OF sk] by (simp add: cs ys)
  have u: "unat (p + 8) = unat p + 8" "unat (p + s + 8) = unat p + unat s + 8" "unat (p + s) = unat p + unat s"
    using g(4,6,8) by (simp_all add: unat_add64)
  then have ne: "p + s + 8 \<noteq> p + 8" using g(4) by auto
  have hp': "hp m' = (hp m)(p + 8 := head_word s True True, p + s + 8 := head_word t True True)"
    using m'(4) ne by (simp add: set_inuse_and_pinuse_def head_marked(1) nh head_word_set_pinuse)
  have "recut m m' xs [(p, s, Free)] [(p, s, Used)] (p + s) t zs (unat p)"
    unfolding recut_def
  proof (intro conjI allI impI)
    show "skeleton m (xs @ [(p, s, Free)] @ (p + s, t, Used) # zs)" using sk by (simp add: cs ys)
    show "laid (hp m) (after True xs) (unat p) [(p, s, Free)] (unat (p + s))" using f g u by simp
    show "hp m' x = hp m x" if "unat x < unat p + 8 \<or> unat (p + s) + 8 < unat x" for x
      using that u g(4) by (auto simp: hp')
    show "laid (hp m') (after True xs) (unat p) [(p, s, Used)] (unat (p + s))"
      using f g u ne by (simp add: hp')
    show "hp m' (p + s + 8) = head_word t (after (after True xs) [(p, s, Used)]) True" by (simp add: hp')
  qed (use m' in \<open>simp_all add: same_geometry_def\<close>)
  then have "recuts m (xs @ [(p, s, Free)] @ (p + s, t, Used) # zs) m' (xs @ [(p, s, Used)] @ (p + s, t, Used) # zs)
      (insert (p, s) (useds cs)) (frees cs - {(p, s)}) (useds (xs @ (p + s, t, Used) # zs))"
    by (rule recut_recuts [OF _ m'(1)]) (use fresh in \<open>auto simp: cs ys frees_def\<close>)
  then show ?thesis by (auto simp: cs ys)
qed

lemma use_part:
  assumes sk: "skeleton m cs" and p: "(p, s, Free) \<in> set cs"
    and nb: "nb AND 7 = 0" "32 \<le> unat nb" "unat nb + 32 \<le> unat s"
    and m': "same_geometry m m'" "m_top m' = m_top m" "topsize m' = topsize m"
      "hp m' = hp (set_size_and_pinuse_of_free_chunk (p + nb) (s - nb) (set_size_and_pinuse_of_inuse_chunk p nb m))"
  shows "\<exists>cs'. recuts m cs m' cs' (insert (p, nb) (useds cs)) (insert (p + nb, s - nb) (frees cs - {(p, s)})) (useds cs)
    \<and> (p + nb, s - nb) \<notin> frees cs"
proof -
  obtain xs ys where cs: "cs = xs @ (p, s, Free) # ys" using p by (auto dest: split_list)
  note sk' = sk [unfolded cs]
  obtain t zs where ys: "ys = (p + s, t, Used) # zs" using free_next(1) [OF sk'] by blast
  note f = free_next [OF sk'] and g = skeleton_mem [OF sk p] and fresh = skeleton_fresh [OF sk']
  have nh: "hp m (p + s + 8) = head_word t False True"
    using laid_head(1) [of "hp m" True "space_start m" "xs @ [(p, s, Free)]" "p + s" t Used "zs @ [(m_top m, topsize m, Top)]" "space_end m"]
      skeleton_bounds(5) [OF sk] by (simp add: cs ys)
  let ?r = "p + nb"
  have d: "unat (s - nb) = unat s - unat nb" using nb(3) by (simp add: unat_sub word_le_nat_alt)
  have u: "unat (p + 8) = unat p + 8" "unat (p + s + 8) = unat p + unat s + 8" "unat (p + s) = unat p + unat s"
    "unat ?r = unat p + unat nb" "unat (?r + 8) = unat p + unat nb + 8" "?r + (s - nb) = p + s"
    using g(4,6,8) nb by (simp_all add: unat_add64)
  have ne: "?r + 8 \<noteq> p + 8" "p + s \<noteq> p + 8" "p + s \<noteq> ?r + 8" "p + s + 8 \<noteq> p + 8" "p + s + 8 \<noteq> ?r + 8" "p + s + 8 \<noteq> p + s"
    by (rule unat_neq, use u g(4) nb in simp)+
  have hp': "hp m' = (hp m)(p + 8 := head_word nb True True, ?r + 8 := head_word (s - nb) True False, p + s := s - nb)"
    using m'(4) u(6) by (simp add: set_size_and_pinuse_of_free_chunk_def set_size_and_pinuse_of_inuse_chunk_def set_foot_def head_marked)
  have new: "(?r, s - nb) \<notin> frees cs"
  proof
    assume "(?r, s - nb) \<in> frees cs"
    then have "(?r, s - nb, Free) \<in> set cs" by (simp add: frees_def)
    from skeleton_apart [OF sk p this] show False using u(4) nb g(4) d by auto
  qed
  have "recut m m' xs [(p, s, Free)] [(p, nb, Used), (?r, s - nb, Free)] (p + s) t zs (unat p)"
    unfolding recut_def
  proof (intro conjI allI impI)
    show "skeleton m (xs @ [(p, s, Free)] @ (p + s, t, Used) # zs)" using sk by (simp add: cs ys)
    show "laid (hp m) (after True xs) (unat p) [(p, s, Free)] (unat (p + s))" using f g u by simp
    show "hp m' x = hp m x" if "unat x < unat p + 8 \<or> unat (p + s) + 8 < unat x" for x
      using that u g(4) nb by (auto simp: hp')
    show "laid (hp m') (after True xs) (unat p) [(p, nb, Used), (?r, s - nb, Free)] (unat (p + s))"
      using f g u ne nb d aligned_diff [OF g(3) nb(1)] by (simp add: hp')
    show "hp m' (p + s + 8) = head_word t (after (after True xs) [(p, nb, Used), (?r, s - nb, Free)]) True"
      using ne nh by (simp add: hp')
  qed (use m' in \<open>simp_all add: same_geometry_def\<close>)
  then have "recuts m (xs @ [(p, s, Free)] @ (p + s, t, Used) # zs) m'
      (xs @ [(p, nb, Used), (?r, s - nb, Free)] @ (p + s, t, Used) # zs)
      (insert (p, nb) (useds cs)) (insert (?r, s - nb) (frees cs - {(p, s)})) (useds (xs @ (p + s, t, Used) # zs))"
    by (rule recut_recuts [OF _ m'(1)]) (use fresh new in \<open>auto simp: cs ys frees_def\<close>)
  then show ?thesis using new by (auto simp: cs ys)
qed

text \<open>A piece of the top chunk.\<close>

lemma use_top:
  assumes sk: "skeleton m cs" and nb: "nb AND 7 = 0" "32 \<le> unat nb" "unat nb < unat (topsize m)"
    and m': "m' = snd (split_top nb m)"
  shows "\<exists>cs'. recuts m cs m' cs' (insert (m_top m, nb) (useds cs)) (frees cs) (useds cs) \<and> same_geometry m m'"
proof -
  let ?p = "m_top m" and ?s = "topsize m" and ?r = "m_top m + nb"
  have whole: "laid (hp m) True (space_start m) (cs @ [(?p, ?s, Top)]) (space_end m)" by (rule skeleton_bounds(5) [OF sk])
  note b = skeleton_bounds [OF sk]
  have top: "?s AND 7 = 0" "hp m (?p + 8) = head_word ?s True False" "after True cs"
    using whole by (auto simp: laid_append)
  have e: "unat ?p + unat ?s + 72 < 2 ^ 64" using b(2) by (simp add: space_end_def)
  have d: "unat (?s - nb) = unat ?s - unat nb" using nb(3) by (simp add: unat_sub word_le_nat_alt)
  have u: "unat ?r = unat ?p + unat nb" "unat (?p + 8) = unat ?p + 8" "unat (?r + 8) = unat ?p + unat nb + 8"
    using e nb by (simp_all add: unat_add64)
  then have ne: "?p + 8 \<noteq> ?r + 8" using nb by auto
  have hp': "hp m' = (hp m)(?r + 8 := head_word (?s - nb) True False, ?p + 8 := head_word nb True True)"
    using m' by (simp add: split_top_def Let_def set_size_and_pinuse_of_inuse_chunk_def head_marked)
  have sel: "m_top m' = ?r" "topsize m' = ?s - nb" "same_geometry m m'"
    using m' by (simp_all add: split_top_def Let_def set_size_and_pinuse_of_inuse_chunk_def same_geometry_def)
  have r: "retop m m' cs [] [(?p, nb, Used)] (unat ?p)"
    unfolding retop_def
  proof (intro conjI allI impI)
    show "laid (hp m) (after True cs) (unat ?p) ([] @ [(?p, ?s, Top)]) (space_end m)" using whole top by (auto simp: laid_append)
    show "space_end m' = space_end m" using u d nb e by (simp add: space_end_def sel)
    show "hp m' x = hp m x" if "unat x < unat ?p + 8 \<or> space_end m + 8 < unat x" for x
      using that u nb(3) by (auto simp: hp' space_end_def)
    show "laid (hp m') (after True cs) (unat ?p) ([(?p, nb, Used)] @ [(m_top m', topsize m', Top)]) (space_end m)"
      using top u ne nb d e aligned_diff [OF top(1) nb(1)] by (simp add: hp' sel space_end_def)
  qed (use sk sel in \<open>simp_all add: same_geometry_def\<close>)
  note k = retop_keeps [OF r]
  have "recuts m cs m' (cs @ [(?p, nb, Used)]) (insert (?p, nb) (useds cs)) (frees cs) (useds cs)"
    using k sel(3) by (auto simp: recuts_def same_geometry_def)
  then show ?thesis using sel(3) by blast
qed

section \<open>The designated victim and the bins\<close>

lemma skeleton_cong:
  assumes "skeleton m cs" "hp m' = hp m" "maddr m' = maddr m" "least_addr m' = least_addr m" "m_top m' = m_top m"
    "topsize m' = topsize m"
  shows "skeleton m' cs"
  using assms by (simp add: skeleton_def extern_space_def space_end_def space_start_def is_extern_segment_def)

lemma bins_hold_cong:
  assumes "skeleton m cs" "C \<subseteq> frees cs" "bins_hold m C" "hp m' = hp m" "same_geometry m m'"
  shows "bins_hold m' C"
  by (rule bins_hold_frame [OF assms(1-3)]) (use assms(4,5) in \<open>simp_all add: same_geometry_def\<close>)

lemma space_ok_cong:
  assumes "space_ok m cs" "hp m' = hp m" "same_geometry m m'" "m_top m' = m_top m" "topsize m' = topsize m"
    "dv m' = dv m" "dvsize m' = dvsize m"
  shows "space_ok m' cs"
proof -
  have "dv_set m' = dv_set m" using assms by (simp add: dv_set_def)
  moreover have "skeleton m' cs" by (rule skeleton_cong [of m]) (use assms in \<open>simp_all add: space_ok_def same_geometry_def\<close>)
  moreover have "bins_hold m' (frees cs - dv_set m)"
    by (rule bins_hold_cong [of m cs]) (use assms in \<open>auto simp: space_ok_def\<close>)
  ultimately show ?thesis using assms by (simp add: space_ok_def)
qed

lemma free_size:
  assumes "skeleton m cs" "(p, s) \<in> frees cs"
  shows "(p, s, Free) \<in> set cs" "s AND 7 = 0" "32 \<le> unat s" "unat s < 2 ^ 40" "s \<noteq> 0" "p \<noteq> 0" "ok_address m p"
    "unat p + unat s < 2 ^ 64 - 72"
proof -
  show f: "(p, s, Free) \<in> set cs" using assms(2) by (simp add: frees_def)
  note g = skeleton_mem [OF assms(1) f] and b = skeleton_bounds [OF assms(1)]
  show "s AND 7 = 0" "32 \<le> unat s" "unat s < 2 ^ 40" "ok_address m p" "unat p + unat s < 2 ^ 64 - 72" using g by simp_all
  show "s \<noteq> 0" "p \<noteq> 0" using g(1,4) b(1) by (auto simp: space_start_def)
qed

text \<open>The rest \<open>r\<close> of a split chunk becomes the designated victim; the old one goes to a small bin.\<close>

lemma replace_dv_ok:
  assumes sk: "skeleton m cs" and r: "(r, S) \<in> frees cs" and h: "bins_hold m (frees cs - {(r, S)} - dv_set m)"
    and dv: "dv_set m \<subseteq> frees cs - {(r, S)}" "dvsize m \<noteq> 0 \<Longrightarrow> is_small (dvsize m)"
  shows "\<exists>m'. replace_dv r S m = Some m' \<and> space_ok m' cs \<and> kept (payloads (useds cs)) m m' \<and> maddr m' = maddr m"
proof -
  have "\<exists>m1. (if dvsize m \<noteq> 0 then insert_small_chunk (dv m) (dvsize m) m else Some m) = Some m1
    \<and> skeleton m1 cs \<and> bins_hold m1 (frees cs - {(r, S)}) \<and> kept (payloads (useds cs)) m m1 \<and> maddr m1 = maddr m"
  proof (cases "dvsize m = 0")
    case True
    then show ?thesis using sk h by (simp add: dv_set_def)
  next
    case False
    then have d: "(dv m, dvsize m) \<in> frees cs - {(r, S)}" "dv_set m = {(dv m, dvsize m)}" using dv(1) by (auto simp: dv_set_def)
    obtain m1 where m1: "insert_chunk (dv m) (dvsize m) m = Some m1" "skeleton m1 cs"
      "bins_hold m1 (insert (dv m, dvsize m) (frees cs - {(r, S)} - dv_set m))" "same_scalars m m1"
      "kept (payloads (useds cs)) m m1"
      using insert_free [OF sk free_size(1) [OF sk] _ _ h] d by blast
    moreover have "insert (dv m, dvsize m) (frees cs - {(r, S)} - dv_set m) = frees cs - {(r, S)}" using d by auto
    ultimately show ?thesis using False dv(2) by (auto simp: insert_chunk_def same_scalars_sel)
  qed
  then obtain m1 where m1: "(if dvsize m \<noteq> 0 then insert_small_chunk (dv m) (dvsize m) m else Some m) = Some m1"
    "skeleton m1 cs" "bins_hold m1 (frees cs - {(r, S)})" "kept (payloads (useds cs)) m m1" "maddr m1 = maddr m" by blast
  let ?m = "m1\<lparr>dvsize := S, dv := r\<rparr>"
  have "S \<noteq> 0" using free_size(5) [OF sk r] .
  then have "dv_set ?m = {(r, S)}" by (simp add: dv_set_def)
  moreover have "skeleton ?m cs" by (rule skeleton_cong [OF m1(2)]) simp_all
  moreover have "bins_hold ?m (frees cs - {(r, S)})"
    by (rule bins_hold_cong [OF m1(2) _ m1(3)]) (auto simp: same_geometry_def)
  ultimately have "space_ok ?m cs" using r \<open>S \<noteq> 0\<close> by (simp add: space_ok_def)
  then show ?thesis using m1 by (auto simp: replace_dv_def kept_def space_end_def)
qed

text \<open>The first chunk of a marked small bin.\<close>

lemma unlink_first_eq:
  assumes rep: "smallbins_rep m L" and i: "i < 32" and mk: "smallmap_is_marked m i"
  shows "fd_of m (smallbin_at m i) \<in> set (L i)"
    "unlink_first_small_chunk (smallbin_at m i) (fd_of m (smallbin_at m i)) i m
      = unlink_small_chunk (fd_of m (smallbin_at m i)) (small_index2size i) m"
proof -
  let ?b = "smallbin_at m i"
  have ok: "smallbin_ok m i (L i)" using rep i by (simp add: smallbins_rep_def)
  then have r: "L i \<noteq> []" "ring (hp m) ?b (L i)" "sorted_wrt far (?b # L i)" using mk by (auto simp: smallbin_ok_def)
  then obtain P qs where L: "L i = P # qs" by (cases "L i") auto
  have P: "fd_of m ?b = P" "bk_of m P = ?b" using r(2) by (simp_all add: L ring_def dls_fd)
  then show "fd_of m ?b \<in> set (L i)" by (simp add: L)
  have F: "fd_of m P = hd (qs @ [?b])" using r(2) by (auto simp: L ring_def dls_fd)
  have "fd_of m P = ?b \<or> ok_address m (fd_of m P) \<and> far ?b (fd_of m P)"
    using ok r(3) unfolding F by (cases qs) (auto simp: smallbin_ok_def L)
  then show "unlink_first_small_chunk ?b (fd_of m ?b) i m = unlink_small_chunk (fd_of m ?b) (small_index2size i) m"
    using far_slots [of ?b "fd_of m P"]
    by (auto simp: unlink_first_small_chunk_def unlink_small_chunk_def P Let_def small_index_index2size [OF i] upd_def
        fun_upd_twist)
qed

lemma unlink_first_ok:
  assumes sk: "skeleton m cs" and C: "C \<subseteq> frees cs" and h: "bins_hold m C" and i: "i < 32" "smallmap_is_marked m i"
  shows "\<exists>m'. unlink_first_small_chunk (smallbin_at m i) (fd_of m (smallbin_at m i)) i m = Some m'
    \<and> (fd_of m (smallbin_at m i), small_index2size i) \<in> C \<and> skeleton m' cs
    \<and> bins_hold m' (C - {(fd_of m (smallbin_at m i), small_index2size i)}) \<and> same_scalars m m'
    \<and> kept (payloads (useds cs)) m m'"
proof -
  let ?p = "fd_of m (smallbin_at m i)" and ?s = "small_index2size i"
  obtain L where L: "smallbins_rep m L" "small_part C = small_chunks L"
    using h by (auto simp: bins_hold_def small_holds_def)
  note e = unlink_first_eq [OF L(1) i]
  have "(?p, ?s) \<in> small_part C" using e(1) i(1) unfolding L(2) small_chunks_def by blast
  then have p: "(?p, ?s) \<in> C" "is_small ?s" by (simp_all add: small_part_def)
  from unlink_free [OF sk p(1) C h] show ?thesis using e(2) p by (auto simp: unlink_chunk_def)
qed

end
