(* ===== verification/Pt_Alloc.thy ===== *)
theory Pt_Alloc
  imports Pt_Carve
begin

text \<open>
  \<open>mspace_malloc\<close> on a well-formed space: it never aborts, and it gives out a block that no one has,
  large enough and aligned, or nothing if no free chunk is large enough; the space stays well-formed
  and the contents of the blocks in use stay as they are.
\<close>

section \<open>Serving a request from a chunk\<close>

definition serves :: "mstate \<Rightarrow> layout \<Rightarrow> u64 \<Rightarrow> u64 \<Rightarrow> mstate \<Rightarrow> layout \<Rightarrow> bool" where
  "serves m cs nb mem m' cs' \<longleftrightarrow> (\<exists>p s. mem = chunk2mem p \<and> mem \<noteq> 0 \<and> nb \<le> s \<and> unat s < unat nb + 32
     \<and> space_ok m' cs' \<and> useds cs' = insert (p, s) (useds cs) \<and> (p, s) \<notin> useds cs
     \<and> kept (payloads (useds cs)) m m' \<and> maddr m' = maddr m)"

text \<open>
  The chunk \<open>p\<close> is free but neither in the bins nor the designated victim any more; the slots \<open>P\<close> are as
  they were in \<open>m\<close>.
\<close>

definition taken :: "u64 set \<Rightarrow> mstate \<Rightarrow> layout \<Rightarrow> u64 \<Rightarrow> u64 \<Rightarrow> mstate \<Rightarrow> bool" where
  "taken P m cs p s m1 \<longleftrightarrow> skeleton m1 cs \<and> (p, s) \<in> frees cs \<and> bins_hold m1 (frees cs - {(p, s)} - dv_set m1)
     \<and> dv_set m1 \<subseteq> frees cs - {(p, s)} \<and> (dvsize m1 = 0 \<longrightarrow> dv m1 = 0) \<and> kept P m m1 \<and> maddr m1 = maddr m"

lemma free_not_used:
  assumes "skeleton m cs" "(p, s) \<in> frees cs"
  shows "(p, t) \<notin> useds cs"
  using laid_inj [OF skeleton_bounds(5) [OF assms(1)], of p s Free t Used] assms(2)
  by (auto simp: frees_def useds_def)

lemma taken_whole:
  assumes t: "taken P m cs p s m1" and P: "P = payloads (useds cs)" and nb: "nb \<le> s" "unat s < unat nb + 32"
  shows "\<exists>cs'. serves m cs nb (chunk2mem p) (set_inuse_and_pinuse p s m1) cs'"
proof -
  let ?m = "set_inuse_and_pinuse p s m1"
  have sk: "skeleton m1 cs" and p: "(p, s) \<in> frees cs" and h: "bins_hold m1 (frees cs - {(p, s)} - dv_set m1)"
    and dv: "dv_set m1 \<subseteq> frees cs - {(p, s)}" "dvsize m1 = 0 \<longrightarrow> dv m1 = 0" and k: "kept P m m1" "maddr m1 = maddr m"
    using t by (simp_all add: taken_def)
  note f = free_size [OF sk p]
  have sel: "same_geometry m1 ?m" "m_top ?m = m_top m1" "topsize ?m = topsize m1" "dv ?m = dv m1" "dvsize ?m = dvsize m1"
    by (simp_all add: same_geometry_def set_inuse_and_pinuse_def Let_def)
  obtain cs' where r: "recuts m1 cs ?m cs' (insert (p, s) (useds cs)) (frees cs - {(p, s)}) (useds cs)"
    using use_whole [OF sk f(1) sel(1-3) refl] by blast
  have "dv_set ?m = dv_set m1" using sel by (simp add: dv_set_def)
  then have "space_ok ?m cs'" using r h dv sel by (auto simp: space_ok_def recuts_def)
  moreover have "kept (payloads (useds cs)) m ?m" using k(1) r P kept_trans by (auto simp: recuts_def)
  moreover have "chunk2mem p \<noteq> 0"
  proof -
    have "unat (p + 16) = unat p + 16" using f(3,8) by (simp add: unat_add64)
    then show ?thesis by (auto simp: chunk2mem_def dest: arg_cong [where f = unat])
  qed
  ultimately show ?thesis
    using r nb free_not_used [OF sk p] k(2) sel(1) unfolding serves_def recuts_def same_geometry_def by metis
qed

lemma taken_part:
  assumes t: "taken P m cs p s m1" and P: "P \<subseteq> payloads (useds cs)"
    and nb: "nb AND 7 = 0" "32 \<le> unat nb" "unat nb + 32 \<le> unat s"
    and m2: "m2 = set_size_and_pinuse_of_free_chunk (p + nb) (s - nb) (set_size_and_pinuse_of_inuse_chunk p nb m1)"
  shows "\<exists>cs'. taken P m cs' (p + nb) (s - nb) m2 \<and> useds cs' = insert (p, nb) (useds cs) \<and> (p, nb) \<notin> useds cs"
proof -
  have sk: "skeleton m1 cs" and p: "(p, s) \<in> frees cs" and h: "bins_hold m1 (frees cs - {(p, s)} - dv_set m1)"
    and dv: "dv_set m1 \<subseteq> frees cs - {(p, s)}" "dvsize m1 = 0 \<longrightarrow> dv m1 = 0" and k: "kept P m m1" "maddr m1 = maddr m"
    using t by (simp_all add: taken_def)
  have sel: "same_geometry m1 m2" "m_top m2 = m_top m1" "topsize m2 = topsize m1" "dv m2 = dv m1" "dvsize m2 = dvsize m1"
    by (simp_all add: m2 same_geometry_def set_size_and_pinuse_of_free_chunk_def set_foot_def set_size_and_pinuse_of_inuse_chunk_def)
  obtain cs' where r: "recuts m1 cs m2 cs' (insert (p, nb) (useds cs)) (insert (p + nb, s - nb) (frees cs - {(p, s)})) (useds cs)"
    and new: "(p + nb, s - nb) \<notin> frees cs"
    using use_part [OF sk free_size(1) [OF sk p] nb sel(1-3)] m2 by blast
  have d: "dv_set m2 = dv_set m1" using sel by (simp add: dv_set_def)
  have F: "frees cs' - {(p + nb, s - nb)} = frees cs - {(p, s)}" using r new by (auto simp: recuts_def)
  then have "bins_hold m2 (frees cs' - {(p + nb, s - nb)} - dv_set m2)"
    using r h d by (auto simp: recuts_def)
  moreover have "kept P m m2"
  proof (rule kept_trans [OF k(1)])
    have "kept (payloads (useds cs)) m1 m2" using r by (simp add: recuts_def)
    then show "kept P m1 m2" using P by (rule kept_mono)
  qed
  ultimately have "taken P m cs' (p + nb) (s - nb) m2"
    using r dv d sel F k(2) by (simp add: taken_def recuts_def same_geometry_def)
  then show ?thesis using r free_not_used [OF sk p] by (auto simp: recuts_def)
qed

lemma served:
  assumes "space_ok m' cs'" "useds cs' = insert (p, nb) (useds cs)" "(p, nb) \<notin> useds cs"
    "kept (payloads (useds cs)) m m'" "maddr m' = maddr m" "unat p + unat nb < 2 ^ 64" "32 \<le> unat nb"
  shows "serves m cs nb (chunk2mem p) m' cs'"
proof -
  have "unat (p + 16) = unat p + 16" using assms(6,7) by (simp add: unat_add64)
  then have "chunk2mem p \<noteq> 0" by (auto simp: chunk2mem_def dest: arg_cong [where f = unat])
  then show ?thesis unfolding serves_def using assms by (intro exI [of _ p] exI [of _ nb]) simp
qed

text \<open>The three ways to keep what is left over.\<close>

lemma part_to_bins:
  assumes t: "taken P m cs p s m1" and P: "P = payloads (useds cs)"
    and nb: "nb AND 7 = 0" "32 \<le> unat nb" "unat nb + 32 \<le> unat s"
  shows "\<exists>m' cs'. insert_chunk (p + nb) (s - nb)
      (set_size_and_pinuse_of_free_chunk (p + nb) (s - nb) (set_size_and_pinuse_of_inuse_chunk p nb m1)) = Some m'
    \<and> serves m cs nb (chunk2mem p) m' cs'"
proof -
  let ?m2 = "set_size_and_pinuse_of_free_chunk (p + nb) (s - nb) (set_size_and_pinuse_of_inuse_chunk p nb m1)"
  obtain cs' where c: "taken P m cs' (p + nb) (s - nb) ?m2" "useds cs' = insert (p, nb) (useds cs)" "(p, nb) \<notin> useds cs"
    using taken_part [OF t _ nb refl] P by blast
  let ?D = "frees cs' - {(p + nb, s - nb)} - dv_set ?m2"
  have sk: "skeleton ?m2 cs'" and r: "(p + nb, s - nb) \<in> frees cs'" and h: "bins_hold ?m2 ?D"
    and dv: "dv_set ?m2 \<subseteq> frees cs' - {(p + nb, s - nb)}" "dvsize ?m2 = 0 \<longrightarrow> dv ?m2 = 0"
    and k: "kept P m ?m2" "maddr ?m2 = maddr m" using c(1) by (simp_all add: taken_def)
  obtain m' where m': "insert_chunk (p + nb) (s - nb) ?m2 = Some m'" "skeleton m' cs'" "bins_hold m' (insert (p + nb, s - nb) ?D)"
    "same_scalars ?m2 m'" "kept (payloads (useds cs')) ?m2 m'"
    using insert_free [OF sk free_size(1) [OF sk r] _ _ h] by blast
  have "insert (p + nb, s - nb) ?D = frees cs' - dv_set ?m2" using r dv(1) by auto
  then have "space_ok m' cs'"
    using m' dv by (auto simp: space_ok_def dv_set_def same_scalars_sel)
  moreover have "kept (payloads (useds cs)) m m'"
    using k(1) P kept_mono [OF m'(5), of P] c(2) kept_trans by (fastforce simp: payloads_def)
  moreover have "unat p + unat nb < 2 ^ 64"
    using free_size(8) [of m1 cs p s] t nb(3) by (simp add: taken_def)
  ultimately have "serves m cs nb (chunk2mem p) m' cs'"
    using c(2,3) k(2) nb(2) m'(4) by (intro served) (simp_all add: same_scalars_sel)
  then show ?thesis using m'(1) by blast
qed

lemma part_to_dv:
  assumes t: "taken P m cs p s m1" and P: "P = payloads (useds cs)"
    and nb: "nb AND 7 = 0" "32 \<le> unat nb" "unat nb + 32 \<le> unat s" and dv: "dvsize m1 \<noteq> 0 \<Longrightarrow> is_small (dvsize m1)"
  shows "\<exists>m' cs'. replace_dv (p + nb) (s - nb)
      (set_size_and_pinuse_of_free_chunk (p + nb) (s - nb) (set_size_and_pinuse_of_inuse_chunk p nb m1)) = Some m'
    \<and> serves m cs nb (chunk2mem p) m' cs'"
proof -
  let ?m2 = "set_size_and_pinuse_of_free_chunk (p + nb) (s - nb) (set_size_and_pinuse_of_inuse_chunk p nb m1)"
  obtain cs' where c: "taken P m cs' (p + nb) (s - nb) ?m2" "useds cs' = insert (p, nb) (useds cs)" "(p, nb) \<notin> useds cs"
    using taken_part [OF t _ nb refl] P by blast
  have "dvsize ?m2 = dvsize m1"
    by (simp add: set_size_and_pinuse_of_free_chunk_def set_foot_def set_size_and_pinuse_of_inuse_chunk_def)
  then obtain m' where m': "replace_dv (p + nb) (s - nb) ?m2 = Some m'" "space_ok m' cs'"
    "kept (payloads (useds cs')) ?m2 m'" "maddr m' = maddr ?m2"
    using replace_dv_ok [of ?m2 cs' "p + nb" "s - nb"] c(1) dv by (auto simp: taken_def)
  have k: "kept P m ?m2" "maddr ?m2 = maddr m" using c(1) by (simp_all add: taken_def)
  have "kept (payloads (useds cs)) m m'"
    using k(1) P kept_mono [OF m'(3), of P] c(2) kept_trans by (fastforce simp: payloads_def)
  moreover have "unat p + unat nb < 2 ^ 64"
    using free_size(8) [of m1 cs p s] t nb(3) by (simp add: taken_def)
  ultimately have "serves m cs nb (chunk2mem p) m' cs'"
    using c(2,3) k(2) nb(2) m'(2,4) by (intro served) simp_all
  then show ?thesis using m'(1) by blast
qed

section \<open>What the bin maps say\<close>

lemma small_part_sizes:
  assumes "bins_hold m C" "(p, s) \<in> C" "is_small s"
  shows "\<exists>i<32. s = small_index2size i \<and> bit (smallmap m) i"
proof -
  obtain L where L: "smallbins_rep m L" "small_part C = small_chunks L"
    using assms(1) by (auto simp: bins_hold_def small_holds_def)
  have "(p, s) \<in> small_chunks L" using assms(2,3) L(2) by (auto simp: small_part_def)
  then obtain i where i: "i < 32" "p \<in> set (L i)" "s = small_index2size i" by (auto simp: small_chunks_def)
  then have "smallbin_ok m i (L i)" using L(1) by (simp add: smallbins_rep_def)
  then have "smallmap_is_marked m i" using i(2) by (auto simp: smallbin_ok_def split: if_splits)
  then show ?thesis using i by (auto simp: smallmap_is_marked_iff)
qed

lemma tree_part_rep:
  assumes "bins_hold m C"
  shows "\<exists>T. treebins_rep m T \<and> large_part C = tree_chunks T"
  using assms by (auto simp: bins_hold_def tree_holds_def)

lemma large_part_empty:
  assumes "bins_hold m C" "treemap m = 0"
  shows "large_part C = {}"
proof -
  obtain T where T: "treebins_rep m T" "large_part C = tree_chunks T" using tree_part_rep [OF assms(1)] by blast
  have "T i = TLeaf" if "i < 32" for i using marked_bin [OF T(1) that] assms(2) by simp
  then show ?thesis using T(2) by (auto simp: tree_chunks_def)
qed

lemma unat_small_size: "i < 32 \<Longrightarrow> unat (small_index2size i) = 8 * i"
  by (auto simp: small_index2size_def push_bit_eq_mult unat_word_ariths unat_of_nat)

text \<open>The size of the chunk for a request. No chunk is large enough for a request that is too large.\<close>

definition chunk_size :: "u64 \<Rightarrow> u64" where
  "chunk_size bytes = (if MAX_REQUEST \<le> bytes then MAX_SIZE_T else request2size bytes)"

lemma request_size:
  assumes "\<not> MAX_REQUEST \<le> bytes"
  shows "chunk_size bytes AND 7 = 0" "32 \<le> unat (chunk_size bytes)" "unat bytes + 8 \<le> unat (chunk_size bytes)"
    "bytes \<le> MAX_SMALL_REQUEST \<Longrightarrow> unat (chunk_size bytes) < 256"
    "\<not> bytes \<le> MAX_SMALL_REQUEST \<Longrightarrow> 256 \<le> unat (chunk_size bytes)"
proof -
  have lt: "bytes < MAX_REQUEST" using assms by (simp only: not_le)
  note f = request2size_facts [OF lt] and u = unat_request2size [OF lt]
  have c: "chunk_size bytes = request2size bytes" using assms by (simp add: chunk_size_def del: size_consts)
  show "chunk_size bytes AND 7 = 0" using f(1) by (simp add: c is_aligned_def)
  show "32 \<le> unat (chunk_size bytes)" "unat bytes + 8 \<le> unat (chunk_size bytes)" unfolding c u by auto
  show "unat (chunk_size bytes) < 256" if "bytes \<le> MAX_SMALL_REQUEST"
    using that unfolding c u by (simp add: word_le_nat_alt)
  show "256 \<le> unat (chunk_size bytes)" if "\<not> bytes \<le> MAX_SMALL_REQUEST"
    using that unfolding c u by (simp add: word_le_nat_alt)
qed

lemma small_size_index:
  assumes "nb AND 7 = 0" "unat nb < 256"
  shows "small_index nb < 32" "small_index2size (small_index nb) = nb" "8 * small_index nb = unat nb"
proof -
  show i: "small_index nb < 32" "8 * small_index nb = unat nb"
    using assms by (auto simp: small_index_eq and_7_eq_0_iff)
  then show "small_index2size (small_index nb) = nb" by (simp add: word_unat_eq_iff unat_small_size)
qed

lemma bit_shifted: "bit (drop_bit i (x :: u32)) k \<longleftrightarrow> bit x (i + k)"
  by (simp add: bit_drop_bit_eq)

lemma low_bits: "(x :: u32) AND 3 \<noteq> 0 \<longleftrightarrow> bit x 0 \<or> bit x 1"
proof -
  have "x AND 3 = take_bit 2 x" by (simp add: take_bit_eq_mask mask_eq_exp_minus_1)
  moreover have "take_bit 2 x \<noteq> 0 \<longleftrightarrow> (\<exists>n<2. bit x n)" by (auto simp: bit_eq_iff bit_take_bit_iff) force
  moreover have "(\<exists>n<2. bit x n) \<longleftrightarrow> bit x 0 \<or> bit x 1" by (auto simp: less_2_cases_iff)
  ultimately show ?thesis by simp
qed

lemma exact_bit: "i + unat (NOT (x :: u32) AND 1) = (if bit x 0 then i else Suc i)"
  by (simp add: and_one_eq mod_2_eq_odd bit_0)

section \<open>The paths of \<open>mspace_malloc\<close>\<close>

lemma taken_unlinked:
  assumes "space_ok m cs" "(p, s) \<in> frees cs - dv_set m" "skeleton m1 cs" "bins_hold m1 (frees cs - dv_set m - {(p, s)})"
    "same_scalars m m1" "kept (payloads (useds cs)) m m1"
  shows "taken (payloads (useds cs)) m cs p s m1"
proof -
  have "dv_set m1 = dv_set m" using assms(5) by (simp add: dv_set_def same_scalars_sel)
  moreover have "frees cs - {(p, s)} - dv_set m = frees cs - dv_set m - {(p, s)}" by blast
  ultimately show ?thesis using assms by (auto simp: taken_def space_ok_def same_scalars_sel)
qed

lemma smallbin_taken:
  assumes ok: "space_ok m cs" and i: "smallmap_is_marked m i"
  shows "\<exists>m1. unlink_first_small_chunk (smallbin_at m i) (fd_of m (smallbin_at m i)) i m = Some m1
    \<and> taken (payloads (useds cs)) m cs (fd_of m (smallbin_at m i)) (small_index2size i) m1 \<and> dvsize m1 = dvsize m"
proof -
  have sk: "skeleton m cs" and h: "bins_hold m (frees cs - dv_set m)" using ok by (simp_all add: space_ok_def)
  have "i < 32" using i by (simp add: smallmap_is_marked_iff)
  from unlink_first_ok [OF sk _ h this i] obtain m1 where m1:
    "unlink_first_small_chunk (smallbin_at m i) (fd_of m (smallbin_at m i)) i m = Some m1"
    "(fd_of m (smallbin_at m i), small_index2size i) \<in> frees cs - dv_set m" "skeleton m1 cs"
    "bins_hold m1 (frees cs - dv_set m - {(fd_of m (smallbin_at m i), small_index2size i)})" "same_scalars m m1"
    "kept (payloads (useds cs)) m m1" by blast
  from taken_unlinked [OF ok m1(2-6)] show ?thesis using m1(1,5) by (simp add: same_scalars_sel)
qed

lemma malloc_exact_small_ok:
  assumes ok: "space_ok m cs" and nb: "nb AND 7 = 0" "unat nb < 256"
    and bits: "drop_bit (small_index nb) (smallmap m) AND 3 \<noteq> 0"
  shows "\<exists>mem m' cs'. malloc_exact_small (small_index nb) (drop_bit (small_index nb) (smallmap m)) m = Some (mem, m')
    \<and> serves m cs nb mem m' cs'"
proof -
  let ?x = "drop_bit (small_index nb) (smallmap m)"
  define i where "i = small_index nb + unat (NOT ?x AND 1)"
  have "bit (smallmap m) i" using bits by (auto simp: i_def exact_bit low_bits bit_shifted)
  then have mk: "smallmap_is_marked m i" and i: "i < 32"
    using bit_imp_le_length [of "smallmap m" i] by (auto simp: smallmap_is_marked_iff)
  have "unat nb \<le> 8 * i" "8 * i < unat nb + 32"
    using small_size_index(3) [OF nb] by (auto simp: i_def exact_bit)
  then have s: "nb \<le> small_index2size i" "unat (small_index2size i) < unat nb + 32"
    using i by (simp_all add: word_le_nat_alt unat_small_size)
  obtain m1 where m1: "unlink_first_small_chunk (smallbin_at m i) (fd_of m (smallbin_at m i)) i m = Some m1"
    "taken (payloads (useds cs)) m cs (fd_of m (smallbin_at m i)) (small_index2size i) m1"
    using smallbin_taken [OF ok mk] by blast
  from taken_whole [OF m1(2) refl s] show ?thesis
    using m1(1) by (auto simp: malloc_exact_small_def Let_def i_def [symmetric])
qed

lemma next_small_bin:
  assumes i: "idx < 32" and x: "x = drop_bit idx (sm :: u32)" "x AND 3 = 0" "x \<noteq> 0"
  shows "bit sm (compute_bit2idx (least_bit (push_bit idx x AND left_bits (idx2bit idx))))"
    "idx + 2 \<le> compute_bit2idx (least_bit (push_bit idx x AND left_bits (idx2bit idx)))"
proof -
  let ?y = "push_bit idx x AND left_bits (idx2bit idx)"
  have y: "bit ?y j \<longleftrightarrow> bit sm j \<and> idx < j \<and> j < 32" for j
    using i by (auto simp: bit_and_iff bit_left_bits bit_push_bit_iff x(1) bit_shifted)
  obtain k where k: "bit x k" using x(3) word32_nonzero_bit by blast
  have low: "\<not> bit x 0" "\<not> bit x 1" using x(2) low_bits by auto
  then have "k \<noteq> 0" using k by metis
  moreover have "bit sm (idx + k)" using k x(1) by (simp add: bit_shifted)
  moreover from this have "idx + k < 32" using bit_imp_le_length [of sm "idx + k"] by simp
  ultimately have "bit ?y (idx + k)" using y by auto
  then have ne: "?y \<noteq> 0" by auto
  note b = bsfl_correct [OF ne]
  have "bit ?y (bsfl ?y)" using b by simp
  then have s: "bit sm (bsfl ?y)" "idx < bsfl ?y" using y by blast+
  have "bsfl ?y \<noteq> idx + 1" using s(1) low(2) x(1) bit_shifted [of idx sm 1] by auto
  then show "bit sm (compute_bit2idx (least_bit ?y))" "idx + 2 \<le> compute_bit2idx (least_bit ?y)"
    using s first_bit [OF ne] by simp_all
qed

lemma malloc_next_small_ok:
  assumes ok: "space_ok m cs" and nb: "nb AND 7 = 0" "32 \<le> unat nb" "unat nb < 256"
    and bits: "drop_bit (small_index nb) (smallmap m) AND 3 = 0" "drop_bit (small_index nb) (smallmap m) \<noteq> 0"
    and dv: "dvsize m < nb"
  shows "\<exists>mem m' cs'. malloc_next_small (small_index nb) (drop_bit (small_index nb) (smallmap m)) nb m = Some (mem, m')
    \<and> serves m cs nb mem m' cs'"
proof -
  let ?x = "drop_bit (small_index nb) (smallmap m)"
  define i where "i = compute_bit2idx (least_bit (push_bit (small_index nb) ?x AND left_bits (idx2bit (small_index nb))))"
  note x = small_size_index [OF nb(1,3)]
  note n = next_small_bin [OF x(1) refl bits, folded i_def]
  have mk: "smallmap_is_marked m i" and i: "i < 32"
    using bit_imp_le_length [OF n(1)] n(1) by (simp_all add: smallmap_is_marked_iff)
  define s where "s = small_index2size i"
  have us: "unat s = 8 * i" using i by (simp add: s_def unat_small_size)
  have le: "nb \<le> s" using n(2) x(3) us by (simp add: word_le_nat_alt)
  obtain m1 where m1: "unlink_first_small_chunk (smallbin_at m i) (fd_of m (smallbin_at m i)) i m = Some m1"
    "taken (payloads (useds cs)) m cs (fd_of m (smallbin_at m i)) s m1" "dvsize m1 = dvsize m"
    using smallbin_taken [OF ok mk] unfolding s_def by blast
  have d: "unat (s - nb) = unat s - unat nb" using le by (rule unat_sub)
  have sm: "is_small (dvsize m1)" using dv nb(3) m1(3) by (simp add: is_small_iff word_less_nat_alt)
  show ?thesis
  proof (cases "s - nb < 32")
    case True
    then have "unat s < unat nb + 32" using d by (simp add: word_less_nat_alt)
    from taken_whole [OF m1(2) refl le this] show ?thesis
      using m1(1) True by (auto simp: malloc_next_small_def Let_def i_def [symmetric] s_def [symmetric])
  next
    case False
    then have "unat nb + 32 \<le> unat s" using d by (simp add: word_less_nat_alt)
    from part_to_dv [OF m1(2) refl nb(1,2) this sm] show ?thesis
      using m1(1) False by (auto simp: malloc_next_small_def Let_def i_def [symmetric] s_def [symmetric])
  qed
qed

lemma tree_taken:
  assumes ok: "space_ok m cs" and T: "large_part (frees cs - dv_set m) = tree_chunks T"
    and b: "best nb (tree_chunks T) v r" "v \<noteq> 0" and nb: "0 < unat nb"
  shows "\<exists>s m1. unlink_large_chunk v m = Some m1 \<and> taken (payloads (useds cs)) m cs v s m1 \<and> dvsize m1 = dvsize m
    \<and> nb \<le> s \<and> r = s - nb \<and> ok_address m v \<and> ok_next v (v + nb)"
proof -
  have sk: "skeleton m cs" and h: "bins_hold m (frees cs - dv_set m)" using ok by (simp_all add: space_ok_def)
  obtain s where s: "(v, s) \<in> tree_chunks T" "nb \<le> s" "r = s - nb" using best_fits [OF b] by blast
  then have v: "(v, s) \<in> frees cs - dv_set m" "\<not> is_small s" unfolding T [symmetric] by (simp_all add: large_part_def)
  note f = free_size [OF sk DiffD1 [OF v(1)]]
  from unlink_free [OF sk v(1) _ h] obtain m1 where m1: "unlink_chunk v s m = Some m1" "skeleton m1 cs"
    "bins_hold m1 (frees cs - dv_set m - {(v, s)})" "same_scalars m m1" "kept (payloads (useds cs)) m m1" by blast
  have "unat (v + nb) = unat v + unat nb" using f(8) s(2) by (intro unat_add64) (simp add: word_le_nat_alt)
  then have "ok_next v (v + nb)" using nb by (simp add: ok_next_def word_less_nat_alt)
  then show ?thesis
    using taken_unlinked [OF ok v(1) m1(2-5)] m1(1,4) v(2) s(2,3) f(7) by (auto simp: unlink_chunk_def same_scalars_sel)
qed

lemma part_or_whole:
  fixes s nb :: u64
  assumes "nb \<le> s"
  shows "s - nb < 32 \<Longrightarrow> unat s < unat nb + 32" "\<not> s - nb < 32 \<Longrightarrow> unat nb + 32 \<le> unat s"
proof -
  have "unat (s - nb) = unat s - unat nb" using assms by (rule unat_sub)
  then show "s - nb < 32 \<Longrightarrow> unat s < unat nb + 32" "\<not> s - nb < 32 \<Longrightarrow> unat nb + 32 \<le> unat s"
    using assms by (simp_all add: word_less_nat_alt)
qed

lemma tmalloc_small_ok:
  assumes ok: "space_ok m cs" and nb: "nb AND 7 = 0" "32 \<le> unat nb" "unat nb < 256"
    and t: "treemap m \<noteq> 0" and dv: "dvsize m < nb"
  shows "\<exists>mem m' cs'. tmalloc_small nb m = Some (mem, m') \<and> serves m cs nb mem m' cs'"
proof -
  have h: "bins_hold m (frees cs - dv_set m)" using ok by (simp add: space_ok_def)
  obtain T where T: "treebins_rep m T" "large_part (frees cs - dv_set m) = tree_chunks T"
    using tree_part_rep [OF h] by blast
  have "0 < nb" "nb < MIN_LARGE_SIZE" using nb by (simp_all add: word_less_nat_alt)
  from tmalloc_small_search_best [OF T(1) this t] obtain v r where
    v: "tmalloc_small_search nb m = Some (v, r)" "best nb (tree_chunks T) v r" "v \<noteq> 0" by blast
  from tree_taken [OF ok T(2) v(2,3)] nb(2) obtain s m1 where
    m1: "unlink_large_chunk v m = Some m1" "taken (payloads (useds cs)) m cs v s m1" "dvsize m1 = dvsize m"
    and s: "nb \<le> s" "r = s - nb" "ok_address m v" "ok_next v (v + nb)" by fastforce
  have sm: "is_small (dvsize m1)" using dv nb(3) m1(3) by (simp add: is_small_iff word_less_nat_alt)
  show ?thesis
  proof (cases "s - nb < 32")
    case True
    from taken_whole [OF m1(2) refl s(1) part_or_whole(1) [OF s(1) True]] show ?thesis
      using v(1) s m1(1) True by (auto simp: tmalloc_small_def Let_def)
  next
    case False
    from part_to_dv [OF m1(2) refl nb(1,2) part_or_whole(2) [OF s(1) False] sm] show ?thesis
      using v(1) s m1(1) False by (auto simp: tmalloc_small_def Let_def)
  qed
qed

lemma tmalloc_large_ok:
  assumes ok: "space_ok m cs" and nb: "nb AND 7 = 0" "256 \<le> unat nb"
  shows "(tmalloc_large nb m = Some (0, m)
      \<and> (nb \<le> dvsize m \<or> (\<forall>(p, s)\<in>large_part (frees cs - dv_set m). s < nb)))
    \<or> (\<exists>mem m' cs'. tmalloc_large nb m = Some (mem, m') \<and> serves m cs nb mem m' cs')"
proof -
  have h: "bins_hold m (frees cs - dv_set m)" using ok by (simp add: space_ok_def)
  obtain T where T: "treebins_rep m T" "large_part (frees cs - dv_set m) = tree_chunks T"
    using tree_part_rep [OF h] by blast
  have "is_aligned nb" "MIN_LARGE_SIZE \<le> nb" "0 < nb"
    using nb by (auto simp: is_aligned_def word_le_nat_alt word_less_nat_alt)
  from tmalloc_large_search_best [OF T(1) this(1,2)] obtain v r where
    v: "tmalloc_large_search nb m = Some (v, r)" "best nb (tree_chunks T) v r" by blast
  show ?thesis
  proof (cases "v \<noteq> 0 \<and> r < dvsize m - nb")
    case False
    have "nb \<le> dvsize m \<or> (\<forall>(p, s)\<in>tree_chunks T. s < nb)"
    proof (cases "v = 0")
      case True then show ?thesis using v(2) by (simp add: best_def)
    next
      case nz: False
      then obtain s where s: "nb \<le> s" "r = s - nb" using best_fits [OF v(2)] by blast
      have "s - nb < - nb" using trem_less(1) [OF \<open>0 < nb\<close>] s(1) by simp
      moreover have "\<not> s - nb < dvsize m - nb" using False nz s by simp
      ultimately have "dvsize m - nb < - nb" by simp
      then show ?thesis using trem_less(1) [OF \<open>0 < nb\<close>] by simp
    qed
    then show ?thesis using False v(1) by (auto simp: tmalloc_large_def T(2))
  next
    case True
    from tree_taken [OF ok T(2) v(2)] True nb(2) obtain s m1 where
      m1: "unlink_large_chunk v m = Some m1" "taken (payloads (useds cs)) m cs v s m1" "dvsize m1 = dvsize m"
      and s: "nb \<le> s" "r = s - nb" "ok_address m v" "ok_next v (v + nb)" by fastforce
    show ?thesis
    proof (cases "s - nb < 32")
      case small: True
      from taken_whole [OF m1(2) refl s(1) part_or_whole(1) [OF s(1) small]] show ?thesis
        using v(1) s m1(1) True small by (auto simp: tmalloc_large_def Let_def)
    next
      case part: False
      from part_to_bins [OF m1(2) refl nb(1) _ part_or_whole(2) [OF s(1) part]] show ?thesis
        using v(1) s m1(1) True part nb(2) by (auto simp: tmalloc_large_def Let_def)
    qed
  qed
qed

lemma dv_taken:
  assumes ok: "space_ok m cs" and d: "dvsize m \<noteq> 0"
  shows "taken (payloads (useds cs)) m cs (dv m) (dvsize m) (m\<lparr>dvsize := 0, dv := 0\<rparr>)"
proof -
  let ?m = "m\<lparr>dvsize := 0, dv := 0\<rparr>"
  have sk: "skeleton m cs" and h: "bins_hold m (frees cs - dv_set m)" using ok by (simp_all add: space_ok_def)
  have "dv_set ?m = {}" "dv_set m = {(dv m, dvsize m)}" using d by (simp_all add: dv_set_def)
  moreover have "skeleton ?m cs" by (rule skeleton_cong [OF sk]) simp_all
  moreover have "bins_hold ?m (frees cs - dv_set m)"
    by (rule bins_hold_cong [OF sk _ h]) (auto simp: same_geometry_def)
  ultimately show ?thesis using ok by (auto simp: taken_def space_ok_def)
qed

lemma fun_upd_rot: "a \<noteq> b \<Longrightarrow> a \<noteq> c \<Longrightarrow> f(b := x, c := y, a := z) = f(a := z, b := x, c := y)"
  by (simp add: fun_eq_iff)

lemma malloc_from_dv_ok:
  assumes ok: "space_ok m cs" and nb: "nb AND 7 = 0" "32 \<le> unat nb" "nb \<le> dvsize m"
  shows "\<exists>mem m' cs'. malloc_from_dv nb m = (mem, m') \<and> serves m cs nb mem m' cs'"
proof -
  let ?p = "dv m" and ?s = "dvsize m" and ?m1 = "m\<lparr>dvsize := 0, dv := 0\<rparr>"
  have "?s \<noteq> 0" using nb by (auto simp: word_le_nat_alt)
  note t = dv_taken [OF ok this]
  show ?thesis
  proof (cases "?s - nb < 32")
    case True
    then show ?thesis
      using taken_whole [OF t refl nb(3) part_or_whole(1) [OF nb(3) True]]
      by (auto simp: malloc_from_dv_def Let_def not_le)
  next
    case False
    let ?r = "?p + nb" and ?rs = "?s - nb"
    let ?m2 = "set_size_and_pinuse_of_free_chunk ?r ?rs (set_size_and_pinuse_of_inuse_chunk ?p nb ?m1)"
    let ?m' = "set_size_and_pinuse_of_inuse_chunk ?p nb (set_size_and_pinuse_of_free_chunk ?r ?rs (m\<lparr>dv := ?r, dvsize := ?rs\<rparr>))"
    note part = part_or_whole(2) [OF nb(3) False]
    obtain cs' where c: "taken (payloads (useds cs)) m cs' ?r ?rs ?m2" "useds cs' = insert (?p, nb) (useds cs)"
      "(?p, nb) \<notin> useds cs"
      using taken_part [OF t order_refl nb(1,2) part refl] by blast
    have sk: "skeleton ?m1 cs" "(?p, ?s) \<in> frees cs" using t by (simp_all add: taken_def)
    note f = free_size [OF sk]
    have u: "unat (?p + nb) = unat ?p + unat nb" "unat (?p + 8) = unat ?p + 8" "unat (?p + nb + 8) = unat ?p + unat nb + 8"
      "?r + ?rs = ?p + ?s" "unat (?p + ?s) = unat ?p + unat ?s"
      using f(8) part nb(2) by (simp_all add: unat_add64)
    have ne: "?p + 8 \<noteq> ?p + nb + 8" "?p + 8 \<noteq> ?p + ?s" by (rule unat_neq, use u part nb(2) in simp)+
    have e: "?m' = ?m2\<lparr>dv := ?r, dvsize := ?rs\<rparr>"
      using fun_upd_rot [OF ne, of "hp m"]
      by (simp add: set_size_and_pinuse_of_free_chunk_def set_foot_def set_size_and_pinuse_of_inuse_chunk_def upd_def)
    have sk2: "skeleton ?m2 cs'" and r: "(?r, ?rs) \<in> frees cs'" and h2: "bins_hold ?m2 (frees cs' - {(?r, ?rs)} - dv_set ?m2)"
      and k: "kept (payloads (useds cs)) m ?m2" "maddr ?m2 = maddr m" using c(1) by (simp_all add: taken_def)
    have "dv_set ?m2 = {}"
      by (simp add: dv_set_def set_size_and_pinuse_of_free_chunk_def set_foot_def set_size_and_pinuse_of_inuse_chunk_def)
    moreover have "?rs \<noteq> 0" by (rule free_size(5) [OF sk2 r])
    then have d: "dv_set ?m' = {(?r, ?rs)}" unfolding e by (simp add: dv_set_def)
    moreover have "skeleton ?m' cs'" by (rule skeleton_cong [OF sk2]) (simp_all add: e)
    moreover have "bins_hold ?m' (frees cs' - {(?r, ?rs)})"
      by (rule bins_hold_cong [OF sk2]) (use h2 calculation(1) in \<open>simp_all add: e same_geometry_def\<close>)
    ultimately have "space_ok ?m' cs'" using r \<open>?rs \<noteq> 0\<close> by (simp add: space_ok_def e)
    then have "serves m cs nb (chunk2mem ?p) ?m' cs'"
      by (rule served [OF _ c(2,3)]) (use k f(8) part nb(2) in \<open>simp_all add: e kept_def space_end_def\<close>)
    then show ?thesis using False by (auto simp: malloc_from_dv_def Let_def not_less)
  qed
qed

lemma split_top_ok:
  assumes ok: "space_ok m cs" and nb: "nb AND 7 = 0" "32 \<le> unat nb" "nb < topsize m"
  shows "\<exists>mem m' cs'. split_top nb m = (mem, m') \<and> serves m cs nb mem m' cs'"
proof -
  let ?m' = "snd (split_top nb m)"
  have sk: "skeleton m cs" using ok by (simp add: space_ok_def)
  have lt: "unat nb < unat (topsize m)" using nb(3) by (simp add: word_less_nat_alt)
  obtain cs' where r: "recuts m cs ?m' cs' (insert (m_top m, nb) (useds cs)) (frees cs) (useds cs)" "same_geometry m ?m'"
    using use_top [OF sk nb(1,2) lt refl] by blast
  have d: "dv ?m' = dv m" "dvsize ?m' = dvsize m"
    by (simp_all add: split_top_def Let_def set_size_and_pinuse_of_inuse_chunk_def)
  then have "dv_set ?m' = dv_set m" by (simp add: dv_set_def)
  then have "space_ok ?m' cs'" using r ok d by (auto simp: space_ok_def recuts_def)
  moreover have "(m_top m, nb) \<notin> useds cs"
  proof
    assume "(m_top m, nb) \<in> useds cs"
    then have "(m_top m, nb, Used) \<in> set (cs @ [(m_top m, topsize m, Top)])" by (simp add: useds_def)
    from laid_inj [OF skeleton_bounds(5) [OF sk] this, of "topsize m" Top] show False by simp
  qed
  moreover have "unat (m_top m) + unat nb < 2 ^ 64"
    using lt skeleton_bounds(2) [OF sk] by (simp add: space_end_def)
  moreover have "maddr ?m' = maddr m" using r(2) by (simp only: same_geometry_def)
  moreover have "useds cs' = insert (m_top m, nb) (useds cs)" "kept (payloads (useds cs)) m ?m'"
    using r(1) by (simp_all only: recuts_def)
  ultimately have "serves m cs nb (chunk2mem (m_top m)) ?m' cs'" using nb(2) by (intro served)
  moreover have "split_top nb m = (chunk2mem (m_top m), ?m')" by (simp add: split_top_def Let_def)
  ultimately show ?thesis by blast
qed

lemma malloc_from_dv_or_top_ok:
  assumes ok: "space_ok m cs" and nb: "nb AND 7 = 0" "32 \<le> unat nb"
  shows "malloc_from_dv_or_top nb m = (0, m) \<and> dvsize m < nb \<and> topsize m \<le> nb
    \<or> (\<exists>mem m' cs'. malloc_from_dv_or_top nb m = (mem, m') \<and> serves m cs nb mem m' cs')"
  using malloc_from_dv_ok [OF ok nb] split_top_ok [OF ok nb]
  by (auto simp: malloc_from_dv_or_top_def not_le not_less)

section \<open>Every request\<close>

definition full :: "mstate \<Rightarrow> layout \<Rightarrow> u64 \<Rightarrow> bool" where
  "full m cs nb \<longleftrightarrow> topsize m \<le> nb \<and> (\<forall>(p, s)\<in>frees cs. s < nb)"

lemma fullI:
  assumes "topsize m \<le> nb" "dvsize m < nb"
    and "\<And>p s. (p, s) \<in> small_part (frees cs - dv_set m) \<Longrightarrow> s < nb"
    and "\<And>p s. (p, s) \<in> large_part (frees cs - dv_set m) \<Longrightarrow> s < nb"
  shows "full m cs nb"
  using assms by (fastforce simp: full_def dv_set_def small_part_def large_part_def split: if_splits)

lemma no_small_left:
  assumes h: "bins_hold m C" and x: "drop_bit (small_index nb) (smallmap m) = 0" and nb: "nb AND 7 = 0" "unat nb < 256"
    and p: "(p, s) \<in> small_part C"
  shows "s < nb"
proof -
  obtain i where i: "i < 32" "s = small_index2size i" "bit (smallmap m) i"
    using small_part_sizes [OF h, of p s] p by (auto simp: small_part_def)
  have "i < small_index nb"
  proof (rule ccontr)
    assume "\<not> i < small_index nb"
    then have "bit (drop_bit (small_index nb) (smallmap m)) (i - small_index nb)" using i(3) by (simp add: bit_shifted)
    then show False using x by simp
  qed
  then show ?thesis using i(1,2) small_size_index(3) [OF nb] by (simp add: word_less_nat_alt unat_small_size)
qed

lemma serves_mem: "serves m cs nb mem m' cs' \<Longrightarrow> mem \<noteq> 0"
  by (auto simp: serves_def)

text \<open>\<open>answers\<close>: the outcome of a request.\<close>

definition answers :: "mstate \<Rightarrow> layout \<Rightarrow> u64 \<Rightarrow> (u64 \<times> mstate) option \<Rightarrow> bool" where
  "answers m cs nb r \<longleftrightarrow> (\<exists>mem m'. r = Some (mem, m')
     \<and> (mem = 0 \<and> m' = m \<and> full m cs nb \<or> (\<exists>cs'. serves m cs nb mem m' cs')))"

lemma answers_served: "\<exists>mem m' cs'. r = Some (mem, m') \<and> serves m cs nb mem m' cs' \<Longrightarrow> answers m cs nb r"
  by (auto simp: answers_def)

lemma dv_or_top_answers:
  assumes ok: "space_ok m cs" and nb: "nb AND 7 = 0" "32 \<le> unat nb"
    and rest: "dvsize m < nb \<Longrightarrow> topsize m \<le> nb \<Longrightarrow> full m cs nb"
  shows "answers m cs nb (Some (malloc_from_dv_or_top nb m))"
  using malloc_from_dv_or_top_ok [OF ok nb] rest by (auto simp: answers_def)

lemma answers_small:
  assumes ok: "space_ok m cs" and small: "bytes \<le> MAX_SMALL_REQUEST"
  shows "answers m cs (chunk_size bytes) (mspace_malloc bytes m)"
proof -
  let ?nb = "chunk_size bytes"
  have lt: "\<not> MAX_REQUEST \<le> bytes" using small by (simp add: word_le_nat_alt)
  note nb = request_size(1,2) [OF lt] request_size(4) [OF lt small]
  have e: "(if bytes < MIN_REQUEST then MIN_CHUNK_SIZE else pad_request bytes) = ?nb"
    using lt by (simp add: chunk_size_def request2size_def)
  have h: "bins_hold m (frees cs - dv_set m)" using ok by (simp add: space_ok_def)
  let ?x = "drop_bit (small_index ?nb) (smallmap m)"
  have run: "mspace_malloc bytes m =
      (if ?x AND 3 \<noteq> 0 then malloc_exact_small (small_index ?nb) ?x m
       else if dvsize m < ?nb then
         if ?x \<noteq> 0 then malloc_next_small (small_index ?nb) ?x ?nb m
         else if treemap m \<noteq> 0 then Option.bind (tmalloc_small ?nb m)
           (\<lambda>(mem, m). if mem \<noteq> 0 then Some (mem, m) else Some (malloc_from_dv_or_top ?nb m))
         else Some (malloc_from_dv_or_top ?nb m)
       else Some (malloc_from_dv_or_top ?nb m))"
    using small by (simp only: mspace_malloc_def e Let_def if_True)
  consider "?x AND 3 \<noteq> 0" | "?x AND 3 = 0" "dvsize m < ?nb" "?x \<noteq> 0" | "?x AND 3 = 0" "\<not> dvsize m < ?nb"
    | "dvsize m < ?nb" "?x = 0" "treemap m \<noteq> 0" | "dvsize m < ?nb" "?x = 0" "treemap m = 0" by auto
  then show ?thesis
  proof cases
    case 1
    then show ?thesis using malloc_exact_small_ok [OF ok nb(1,3)] by (intro answers_served) (simp only: run if_True not_False_eq_True)
  next
    case 2
    then show ?thesis using malloc_next_small_ok [OF ok nb] by (intro answers_served) (simp add: run)
  next
    case 3
    then show ?thesis using dv_or_top_answers [OF ok nb(1,2)] by (simp add: run)
  next
    case 4
    then show ?thesis using tmalloc_small_ok [OF ok nb 4(3,1)] serves_mem by (intro answers_served) (fastforce simp: run)
  next
    case 5
    have "full m cs ?nb" if "topsize m \<le> ?nb"
      using no_small_left [OF h 5(2) nb(1,3)] large_part_empty [OF h 5(3)] by (intro fullI) (use that 5 in auto)
    then show ?thesis using dv_or_top_answers [OF ok nb(1,2)] 5 by (simp add: run)
  qed
qed

lemma answers_large:
  assumes ok: "space_ok m cs" and large: "\<not> bytes \<le> MAX_SMALL_REQUEST"
  shows "answers m cs (chunk_size bytes) (mspace_malloc bytes m)"
proof (cases "MAX_REQUEST \<le> bytes")
  case True
  then have e: "mspace_malloc bytes m = Some (malloc_from_dv_or_top MAX_SIZE_T m)" and nb: "chunk_size bytes = - 1"
    using large by (simp_all add: mspace_malloc_def chunk_size_def)
  have s: "s < - 1" if "(p, s) \<in> frees cs" for p s
    using free_size(4) [of m cs p s] that ok by (simp add: space_ok_def word_less_nat_alt unsigned_minus_1_eq_mask mask_eq_exp_minus_1)
  moreover have "(0 :: u64) < - 1" by (simp add: word_less_nat_alt unsigned_minus_1_eq_mask mask_eq_exp_minus_1)
  ultimately have "dvsize m < - 1" using ok by (auto simp: space_ok_def dv_set_def split: if_splits)
  moreover have "topsize m \<le> - 1" by (rule word_order.extremum)
  ultimately show ?thesis using s by (auto simp: answers_def full_def e nb malloc_from_dv_or_top_def not_le not_less)
next
  case False
  let ?nb = "chunk_size bytes"
  note nb = request_size(1,2) [OF False] request_size(5) [OF False large]
  have "\<not> bytes < MIN_REQUEST" using large by (simp add: word_le_nat_alt word_less_nat_alt)
  then have e: "pad_request bytes = ?nb" using False by (simp add: chunk_size_def request2size_def)
  have h: "bins_hold m (frees cs - dv_set m)" using ok by (simp add: space_ok_def)
  have run: "mspace_malloc bytes m =
      (if treemap m \<noteq> 0 then Option.bind (tmalloc_large ?nb m)
         (\<lambda>(mem, m'). if mem \<noteq> 0 then Some (mem, m') else Some (malloc_from_dv_or_top ?nb m'))
       else Some (malloc_from_dv_or_top ?nb m))"
    using large False by (simp only: mspace_malloc_def e Let_def if_False)
  have small: "s < ?nb" if "(p, s) \<in> small_part (frees cs - dv_set m)" for p s
    using that nb(3) by (simp add: small_part_def is_small_iff word_less_nat_alt)
  have rest: "answers m cs ?nb (Some (malloc_from_dv_or_top ?nb m))"
    if "?nb \<le> dvsize m \<or> (\<forall>(p, s)\<in>large_part (frees cs - dv_set m). s < ?nb)"
  proof (rule dv_or_top_answers [OF ok nb(1,2)])
    assume a: "dvsize m < ?nb" "topsize m \<le> ?nb"
    then have "\<forall>(p, s)\<in>large_part (frees cs - dv_set m). s < ?nb" using that by auto
    then show "full m cs ?nb" by (intro fullI) (use a small in auto)
  qed
  consider "treemap m = 0" | "treemap m \<noteq> 0" "tmalloc_large ?nb m = Some (0, m)"
      "?nb \<le> dvsize m \<or> (\<forall>(p, s)\<in>large_part (frees cs - dv_set m). s < ?nb)"
    | "treemap m \<noteq> 0" "\<exists>mem m' cs'. tmalloc_large ?nb m = Some (mem, m') \<and> serves m cs ?nb mem m' cs'"
    using tmalloc_large_ok [OF ok nb(1,3)] by blast
  then show ?thesis
  proof cases
    case 1
    then show ?thesis using rest large_part_empty [OF h 1] by (simp add: run)
  next
    case 2
    then show ?thesis using rest by (simp add: run)
  next
    case 3
    then show ?thesis using serves_mem by (intro answers_served) (fastforce simp: run)
  qed
qed

lemma mspace_malloc_answers: "space_ok m cs \<Longrightarrow> answers m cs (chunk_size bytes) (mspace_malloc bytes m)"
  using answers_small answers_large by blast

end
