(* ===== verification/Pt_Free.thy ===== *)
theory Pt_Free
  imports Pt_Alloc
begin

text \<open>
  \<open>mspace_free\<close> on a well-formed space: giving back a used chunk never aborts, merges it with the
  free chunks on both sides and leaves the space well-formed, with all other used chunks and their
  contents as they were. When nothing is in use, all memory is one top chunk again.
\<close>

section \<open>A chunk that is being released\<close>

definition total :: "layout \<Rightarrow> nat" where "total cs = (\<Sum>(p, s, k)\<leftarrow>cs. unat s)"

lemma total_simps [simp]: "total [] = 0" "total ((p, s, k) # cs) = unat s + total cs" "total (xs @ ys) = total xs + total ys"
  by (simp_all add: total_def)

lemma laid_total: "laid h b a cs e \<Longrightarrow> e = a + total cs \<and> 8 dvd total cs"
  by (induction h b a cs e rule: laid.induct) (auto simp: and_7_eq_0_iff)

text \<open>
  The chunks \<open>old\<close>, a released one and the free ones it is merged with so far, are \<open>S\<close> bytes from \<open>P\<close> on;
  none of them is in the bins, but \<open>P\<close> may be the designated victim. What \<open>m\<close> had in the other used
  chunks is still there.
\<close>

definition pending :: "mstate \<Rightarrow> layout \<Rightarrow> layout \<Rightarrow> layout \<Rightarrow> u64 \<Rightarrow> u64 \<Rightarrow> mstate \<Rightarrow> bool" where
  "pending m xs old ys P S m1 \<longleftrightarrow> skeleton m1 (xs @ old @ ys) \<and> after True xs \<and> (P, S, Free) \<notin> set old
     \<and> (\<exists>s k zs. old = (P, s, k) # zs) \<and> total old = unat S
     \<and> bins_hold m1 (frees (xs @ ys) - dv_set m1) \<and> dv_set m1 \<subseteq> insert (P, dvsize m1) (frees (xs @ ys))
     \<and> (dvsize m1 = 0 \<longrightarrow> dv m1 = 0) \<and> kept (payloads (useds (xs @ ys))) m m1 \<and> maddr m1 = maddr m"

definition freed :: "mstate \<Rightarrow> chunks \<Rightarrow> mstate \<Rightarrow> bool" where
  "freed m U m' \<longleftrightarrow> (\<exists>cs'. space_ok m' cs' \<and> useds cs' = U) \<and> kept (payloads U) m m' \<and> maddr m' = maddr m"

lemma pending_facts:
  assumes pe: "pending m xs old ys P S m1"
  shows "laid (hp m1) True (unat P) old (unat P + unat S)" "laid (hp m1) True (space_start m1) xs (unat P)"
    "laid (hp m1) (after True old) (unat P + unat S) (ys @ [(m_top m1, topsize m1, Top)]) (space_end m1)"
    "S AND 7 = 0" "32 \<le> unat S" "unat P + unat S < 2 ^ 64 - 72" "space_start m1 \<le> unat P"
    "unat (P + S) = unat P + unat S" "(P, t, l) \<notin> set xs" "(P, t, l) \<notin> set ys"
proof -
  have sk: "skeleton m1 (xs @ old @ ys)" and a: "after True xs" and T: "total old = unat S"
    using pe by (simp_all add: pending_def)
  obtain s k zs where old: "old = (P, s, k) # zs" using pe by (auto simp: pending_def)
  have w: "laid (hp m1) True (space_start m1) (xs @ old @ ys @ [(m_top m1, topsize m1, Top)]) (space_end m1)"
    using skeleton_bounds(5) [OF sk] by simp
  then obtain d1 d2 where d: "laid (hp m1) True (space_start m1) xs d1" "laid (hp m1) True d1 old d2"
    "laid (hp m1) (after True old) d2 (ys @ [(m_top m1, topsize m1, Top)]) (space_end m1)"
    using a by (auto simp: laid_append)
  have d1: "d1 = unat P" using d(2) by (simp add: old)
  have d2: "d2 = unat P + unat S" "8 dvd unat S" using laid_total [OF d(2)] T d1 by auto
  show "laid (hp m1) True (unat P) old (unat P + unat S)" "laid (hp m1) True (space_start m1) xs (unat P)"
    "laid (hp m1) (after True old) (unat P + unat S) (ys @ [(m_top m1, topsize m1, Top)]) (space_end m1)"
    using d d1 d2 by simp_all
  show "S AND 7 = 0" using d2(2) by (simp add: and_7_eq_0_iff)
  have m: "(P, s, k) \<in> set (xs @ old @ ys)" by (simp add: old)
  note g = skeleton_mem [OF sk m]
  show "32 \<le> unat S" "space_start m1 \<le> unat P" using g(1,4) T by (simp_all add: old)
  have "unat P + unat S \<le> space_end m1" using laid_le [OF d(3)] d2 by simp
  then show "unat P + unat S < 2 ^ 64 - 72" using skeleton_bounds(2) [OF sk] by simp
  then show "unat (P + S) = unat P + unat S" by (intro unat_add64) simp
  have "distinct (map fst (xs @ old @ ys @ [(m_top m1, topsize m1, Top)]))" by (rule laid_distinct [OF w])
  then have "P \<notin> fst ` set xs" "P \<notin> fst ` set ys" by (auto simp: old)
  then show "(P, t, l) \<notin> set xs" "(P, t, l) \<notin> set ys" by (metis fst_conv image_eqI)+
qed

text \<open>The merged chunk becomes one free chunk, in front of a used one.\<close>

definition merged :: "u64 \<Rightarrow> u64 \<Rightarrow> u64 \<Rightarrow> mstate \<Rightarrow> mstate \<Rightarrow> bool" where
  "merged P S t m1 m' \<longleftrightarrow> same_geometry m1 m' \<and> m_top m' = m_top m1 \<and> topsize m' = topsize m1
     \<and> hp m' (P + 8) = head_word S True False \<and> hp m' (P + S) = S \<and> hp m' (P + S + 8) = head_word t False True
     \<and> (\<forall>x. x \<noteq> P + 8 \<longrightarrow> x \<noteq> P + S \<longrightarrow> x \<noteq> P + S + 8 \<longrightarrow> hp m' x = hp m1 x)"

lemma pending_next: "pending m xs old ((n, t, k) # ys) P S m1 \<Longrightarrow> n = P + S"
  using pending_facts(3,8) [of m xs old "(n, t, k) # ys" P S m1] by (simp add: word_unat_eq_iff)

lemma pending_recuts:
  assumes pe: "pending m xs old ((n, t, Used) # ys) P S m1" and me: "merged P S t m1 m'"
  shows "recuts m1 (xs @ old @ (n, t, Used) # ys) m' (xs @ [(P, S, Free)] @ (n, t, Used) # ys)
    (useds (xs @ (n, t, Used) # ys)) (insert (P, S) (frees (xs @ ys))) (useds (xs @ (n, t, Used) # ys))"
proof -
  note f = pending_facts [OF pe] and n = pending_next [OF pe]
  have sk: "skeleton m1 (xs @ old @ (n, t, Used) # ys)" and a: "after True xs" and fresh: "(P, S, Free) \<notin> set old"
    and o: "\<exists>s k zs. old = (P, s, k) # zs" using pe by (simp_all add: pending_def)
  have g: "same_geometry m1 m'" and sc: "m_top m' = m_top m1" "topsize m' = topsize m1"
    and h: "hp m' (P + 8) = head_word S True False" "hp m' (P + S) = S" "hp m' (P + S + 8) = head_word t False True"
    and out: "\<And>x. x \<noteq> P + 8 \<Longrightarrow> x \<noteq> P + S \<Longrightarrow> x \<noteq> P + S + 8 \<Longrightarrow> hp m' x = hp m1 x"
    using me by (simp_all add: merged_def)
  have u: "unat (P + 8) = unat P + 8" "unat (P + S + 8) = unat P + unat S + 8"
    using f(5,6,8) by (simp_all add: unat_add64)
  have r: "recut m1 m' xs old [(P, S, Free)] n t ys (unat P)"
    unfolding recut_def
  proof (intro conjI allI impI)
    show "laid (hp m1) (after True xs) (unat P) old (unat n)" using f(1,8) a n by simp
    show "hp m' x = hp m1 x" if "unat x < unat P + 8 \<or> unat n + 8 < unat x" for x
      using that u f(5,8) n by (intro out) auto
    show "laid (hp m') (after True xs) (unat P) [(P, S, Free)] (unat n)" using f(4,5,8) a n h by simp
    show "hp m' (n + 8) = head_word t (after (after True xs) [(P, S, Free)]) True" using h n by simp
  qed (use sk o g sc in \<open>auto simp: same_geometry_def\<close>)
  have di: "distinct (map fst (xs @ old @ (n, t, Used) # ys @ [(m_top m1, topsize m1, Top)]))"
    using laid_distinct [OF skeleton_bounds(5) [OF sk]] by simp
  have "frees old \<inter> frees (xs @ ys) = {}" using di by (force simp: frees_def)
  moreover have "frees [(P, S, Free)] \<inter> frees (xs @ old @ ys) = {}"
    using f(9,10) [of S Free] fresh by (auto simp: frees_def)
  ultimately show ?thesis by (intro recut_recuts [OF r g]) simp_all
qed

text \<open>Where the merged chunk ends up: in the bins, as the designated victim, in the top chunk.\<close>

lemma pending_bin:
  assumes pe: "pending m xs old ((n, t, Used) # ys) P S m1" and me: "merged P S t m1 m'"
    and dv: "dv m' = dv m1" "dvsize m' = dvsize m1" "dv m1 \<noteq> P"
  shows "\<exists>m''. insert_chunk P S m' = Some m'' \<and> freed m (useds (xs @ (n, t, Used) # ys)) m''"
proof -
  let ?U = "useds (xs @ (n, t, Used) # ys)" and ?cs = "xs @ [(P, S, Free)] @ (n, t, Used) # ys" and ?F = "frees (xs @ ys)"
  note r = pending_recuts [OF pe me, unfolded recuts_def]
  have sk: "skeleton m' ?cs" using r by simp
  have d: "dv_set m' = dv_set m1" using dv by (simp add: dv_set_def)
  have sub: "dv_set m1 \<subseteq> ?F" "dvsize m1 = 0 \<longrightarrow> dv m1 = 0" and h1: "bins_hold m1 (?F - dv_set m1)"
    and k: "kept (payloads ?U) m m1" "maddr m1 = maddr m"
    using pe dv(3) by (auto simp: pending_def dv_set_def split: if_splits)
  have h: "bins_hold m' (?F - dv_set m1)" using r h1 by auto
  have new: "(P, S) \<notin> ?F" using pending_facts(9,10) [OF pe, of S Free] by (auto simp: frees_def)
  obtain m'' where m'': "insert_chunk P S m' = Some m''" "skeleton m'' ?cs" "bins_hold m'' (insert (P, S) (?F - dv_set m1))"
    "same_scalars m' m''" "kept (payloads (useds ?cs)) m' m''"
    using insert_free [OF sk _ _ _ h, of P S] new by auto
  have d'': "dv_set m'' = dv_set m1" "dvsize m'' = dvsize m1" "dv m'' = dv m1"
    using m''(4) d dv by (simp_all add: dv_set_def same_scalars_sel)
  have F: "frees ?cs = insert (P, S) ?F" by simp
  have "(P, S) \<notin> dv_set m1" using sub new by blast
  then have "frees ?cs - dv_set m'' = insert (P, S) (?F - dv_set m1)" unfolding F d'' by blast
  moreover have "dv_set m'' \<subseteq> frees ?cs" using sub(1) unfolding F d'' by blast
  ultimately have "space_ok m'' ?cs" using m''(2,3) sub(2) d''(2,3) unfolding space_ok_def by presburger
  moreover have "useds ?cs = ?U" by simp
  moreover have "kept (payloads ?U) m' m''" using m''(5) by simp
  then have "kept (payloads ?U) m m''" using k(1) r kept_trans by blast
  moreover have "maddr m'' = maddr m" using k(2) me m''(4) by (simp add: merged_def same_geometry_def same_scalars_sel)
  ultimately show ?thesis using m''(1) unfolding freed_def by blast
qed

lemma pending_dv:
  assumes pe: "pending m xs old ((n, t, Used) # ys) P S m1" and me: "merged P S t m1 m'"
    and dv: "dv m' = P" "dvsize m' = S" "dv_set m1 \<inter> frees (xs @ ys) = {}"
  shows "freed m (useds (xs @ (n, t, Used) # ys)) m'"
proof -
  let ?U = "useds (xs @ (n, t, Used) # ys)" and ?cs = "xs @ [(P, S, Free)] @ (n, t, Used) # ys" and ?F = "frees (xs @ ys)"
  note r = pending_recuts [OF pe me, unfolded recuts_def]
  have sk: "skeleton m' ?cs" using r by simp
  have S: "S \<noteq> 0" using pending_facts(5) [OF pe] by auto
  then have d: "dv_set m' = {(P, S)}" using dv by (simp add: dv_set_def)
  have new: "(P, S) \<notin> ?F" using pending_facts(9,10) [OF pe, of S Free] by (auto simp: frees_def)
  have "bins_hold m1 (?F - dv_set m1)" using pe by (simp add: pending_def)
  moreover have "?F - dv_set m1 = ?F" using dv(3) by blast
  ultimately have "bins_hold m' ?F" using r by auto
  moreover have "frees ?cs - dv_set m' = ?F" using new unfolding d by auto
  ultimately have "space_ok m' ?cs" using sk d S dv by (simp add: space_ok_def)
  moreover have "useds ?cs = ?U" by simp
  moreover have "kept (payloads ?U) m m1" using pe by (simp add: pending_def)
  then have "kept (payloads ?U) m m'" using r kept_trans by blast
  moreover have "maddr m' = maddr m" using pe me by (simp add: pending_def merged_def same_geometry_def)
  ultimately show ?thesis unfolding freed_def by blast
qed

lemma pending_top:
  assumes pe: "pending m xs old [] P S m1"
    and g: "same_geometry m1 m'" "m_top m' = P" "topsize m' = topsize m1 + S"
      "hp m' = (hp m1)(P + 8 := head_word (topsize m1 + S) True False)"
    and dv: "dv m' = (if P = dv m1 then 0 else dv m1)" "dvsize m' = (if P = dv m1 then 0 else dvsize m1)"
  shows "freed m (useds xs) m'"
proof -
  note f = pending_facts [OF pe]
  have sk: "skeleton m1 (xs @ old)" and a: "after True xs"
    and p: "bins_hold m1 (frees xs - dv_set m1)" "dv_set m1 \<subseteq> insert (P, dvsize m1) (frees xs)" "dvsize m1 = 0 \<longrightarrow> dv m1 = 0"
      "kept (payloads (useds xs)) m m1" "maddr m1 = maddr m"
    using pe by (simp_all add: pending_def)
  note b = skeleton_bounds [OF sk]
  have top: "unat (m_top m1) = unat P + unat S" "topsize m1 AND 7 = 0" "0 < unat (topsize m1)" using f(3) by simp_all
  have e: "unat (m_top m1) + unat (topsize m1) < 2 ^ 64 - 72" using b(2) by (simp add: space_end_def)
  have ts: "unat (topsize m1 + S) = unat (topsize m1) + unat S" using top e by (intro unat_add64) simp
  have ends: "space_end m' = space_end m1" using ts top by (simp add: space_end_def g)
  have r: "retop m1 m' xs old [] (unat P)"
    unfolding retop_def
  proof (intro conjI allI impI)
    show "laid (hp m1) (after True xs) (unat P) (old @ [(m_top m1, topsize m1, Top)]) (space_end m1)"
      using f(1,3) a unfolding laid_append by auto
    show "hp m' x = hp m1 x" if "unat x < unat P + 8 \<or> space_end m1 + 8 < unat x" for x
      using that f(6) top(1) by (auto simp: g unat_add64 space_end_def)
    show "laid (hp m') (after True xs) (unat P) ([] @ [(m_top m', topsize m', Top)]) (space_end m1)"
      using a top ts ends aligned_add [OF top(2) f(4)] by (simp add: g space_end_def)
  qed (use sk g ends in \<open>simp_all add: same_geometry_def\<close>)
  note k = retop_keeps [OF r]
  have out: "(P, s) \<notin> frees xs" for s using f(9) by (simp add: frees_def)
  have d: "frees xs - dv_set m' = frees xs - dv_set m1" "dv_set m' \<subseteq> frees xs" "dvsize m' = 0 \<longrightarrow> dv m' = 0"
    using p(2,3) dv out by (auto simp: dv_set_def split: if_splits)
  have "bins_hold m' (frees xs - dv_set m1)" using k(3) [OF p(1)] g(1) by (auto simp: same_geometry_def)
  then have "space_ok m' xs" using k(1) d by (simp add: space_ok_def)
  moreover have "kept (payloads (useds xs)) m m'" using p(4) k(2) by (rule kept_trans)
  moreover have "maddr m' = maddr m" using g(1) p(5) by (simp add: same_geometry_def)
  ultimately show ?thesis unfolding freed_def by blast
qed

section \<open>Housekeeping that finds nothing to do\<close>

text \<open>A space made of one segment that is not its own has no segment to release and no top to trim.\<close>

lemma freed_sel:
  assumes "freed m U m'"
  shows "seg_next m' (main_seg m') = 0" "is_extern_segment m' (main_seg m')" "main_seg m' \<noteq> 0"
    "segment_holds m' (main_seg m') (m_top m')" "m_top m' \<noteq> 0"
proof -
  obtain cs' where "space_ok m' cs'" using assms by (auto simp: freed_def)
  then have sk: "skeleton m' cs'" by (simp add: space_ok_def)
  then have x: "extern_space m'" by (simp add: skeleton_def)
  then show "seg_next m' (main_seg m') = 0" "is_extern_segment m' (main_seg m')" by (simp_all add: extern_space_def)
  note b = skeleton_bounds [OF sk]
  have "unat (main_seg m' + 0) = unat (maddr m') + 880 + unat (0 :: u64)" by (rule main_seg_slots [OF sk]) simp
  then show "main_seg m' \<noteq> 0" by (auto dest: arg_cong [where f = unat])
  have "laid (hp m') True (space_start m') cs' (unat (m_top m'))" using b(5) by (auto simp: laid_append)
  then have top: "unat (maddr m') + 920 \<le> unat (m_top m')" using laid_le by (force simp: space_start_def)
  then show "m_top m' \<noteq> 0" by auto
  let ?b = "seg_base m' (main_seg m')" and ?s = "seg_size m' (main_seg m')"
  have "unat ?b \<le> unat (maddr m')" "space_end m' + 72 \<le> unat ?b + unat ?s" "unat ?b + unat ?s < 2 ^ 64"
    using x by (simp_all add: extern_space_def TOP_FOOT_SIZE_eq)
  then show "segment_holds m' (main_seg m') (m_top m')"
    using top by (simp add: segment_holds_def word_le_nat_alt word_less_nat_alt unat_add64 space_end_def)
qed

lemma freed_cong:
  assumes "freed m U m'" "hp m'' = hp m'" "same_geometry m' m''" "m_top m'' = m_top m'" "topsize m'' = topsize m'"
    "dv m'' = dv m'" "dvsize m'' = dvsize m'"
  shows "freed m U m''"
proof -
  have "space_ok m'' cs'" if "space_ok m' cs'" for cs' by (rule space_ok_cong [OF that assms(2-)])
  then show ?thesis using assms(1-5) by (auto simp: freed_def kept_def same_geometry_def space_end_def)
qed

lemma release_nothing:
  "seg_next m (main_seg m) = 0 \<Longrightarrow>
     release_unused_segments os m w = Some (0, m\<lparr>release_checks := MAX_RELEASE_CHECK_RATE\<rparr>, w)"
  by (simp add: release_unused_segments_def release_loop.simps Let_def)

lemma free_to_bin_ok:
  assumes "insert_chunk P S m' = Some m''" "freed m U m''"
  shows "\<exists>m3. free_to_bin os P S m' w = Some (m3, w) \<and> freed m U m3"
proof -
  have fc: "freed m U (m''\<lparr>release_checks := c\<rparr>)" for c
    by (rule freed_cong [OF assms(2)]) (simp_all add: same_geometry_def)
  have "seg_next m'' (main_seg m'') = 0" using freed_sel [OF assms(2)] by simp
  then have rel: "release_unused_segments os (m''\<lparr>release_checks := c\<rparr>) w
      = Some (0, m''\<lparr>release_checks := MAX_RELEASE_CHECK_RATE\<rparr>, w)" for c
    by (simp add: release_nothing)
  show ?thesis
  proof (cases "is_small S")
    case True
    then show ?thesis using assms by (simp add: free_to_bin_def insert_chunk_def)
  next
    case False
    then show ?thesis using assms(1) fc rel by (simp add: free_to_bin_def insert_chunk_def Let_def)
  qed
qed

lemma sys_trim_ok:
  assumes "freed m U m'"
  shows "\<exists>m''. sys_trim os mp 0 m' w = Some (False, m'', w) \<and> freed m U m''"
proof -
  note s = freed_sel [OF assms]
  have rel: "release_unused_segments os m' w = Some (0, m'\<lparr>release_checks := MAX_RELEASE_CHECK_RATE\<rparr>, w)"
    by (rule release_nothing) (rule s(1))
  have "segment_holding m' (m_top m') = Some (main_seg m')"
    using s(4) by (simp add: segment_holding_def segment_holding_loop.simps)
  then have "trim_top os mp TOP_FOOT_SIZE m' w = Some (0, m', w)"
    using s(2,3) by (simp add: trim_top_def Let_def)
  then have "sys_trim os mp 0 m' w = Some (False,
      (if trim_check m' < topsize m' then m'\<lparr>release_checks := MAX_RELEASE_CHECK_RATE, trim_check := MAX_SIZE_T\<rparr>
       else m'\<lparr>release_checks := MAX_RELEASE_CHECK_RATE\<rparr>), w)"
    using s(5) rel by (simp add: sys_trim_def is_initialized_def Let_def)
  moreover have "freed m U (m'\<lparr>release_checks := MAX_RELEASE_CHECK_RATE, trim_check := MAX_SIZE_T\<rparr>)"
    "freed m U (m'\<lparr>release_checks := MAX_RELEASE_CHECK_RATE\<rparr>)"
    by (rule freed_cong [OF assms]; simp add: same_geometry_def)+
  ultimately show ?thesis by auto
qed

section \<open>Merging with the next chunk\<close>

lemma pending_marks:
  assumes pe: "pending m xs old ((n, t, Used) # ys) P S m1"
  shows "after True old \<Longrightarrow> merged P S t m1 (set_free_with_pinuse P S n m1)"
    "\<not> after True old \<Longrightarrow> merged P S t m1 (set_size_and_pinuse_of_free_chunk P S m1)"
proof -
  note f = pending_facts [OF pe] and n = pending_next [OF pe]
  have h: "hp m1 (P + S + 8) = head_word t (after True old) True" "t AND 7 = 0" using f(3) n by simp_all
  have u: "unat (P + 8) = unat P + 8" "unat (P + S + 8) = unat P + unat S + 8"
    using f(6,8) by (simp_all add: unat_add64)
  have ne: "P + 8 \<noteq> P + S" "P + 8 \<noteq> P + S + 8" "P + S \<noteq> P + S + 8" by (rule unat_neq, use u f(5,8) in simp)+
  note ne = ne ne [symmetric]
  show "after True old \<Longrightarrow> merged P S t m1 (set_free_with_pinuse P S n m1)"
    using ne h head_word_clear_pinuse [OF h(2), of True True]
    by (simp add: merged_def same_geometry_def set_free_with_pinuse_def set_size_and_pinuse_of_free_chunk_def set_foot_def
        clear_pinuse_def n head_marked)
  show "\<not> after True old \<Longrightarrow> merged P S t m1 (set_size_and_pinuse_of_free_chunk P S m1)"
    using ne h
    by (simp add: merged_def same_geometry_def set_size_and_pinuse_of_free_chunk_def set_foot_def head_marked)
qed

lemma pending_free_next:
  assumes pe: "pending m xs old ((n, t, Free) # ys) P S m1"
  shows "\<exists>n' t' zs. ys = (n', t', Used) # zs" "t AND 7 = 0" "hp m1 (n + 8) = head_word t True False"
    "after True old \<Longrightarrow> n \<noteq> m_top m1" "unat (S + t) = unat S + unat t" "32 \<le> unat t" "n \<noteq> 0"
proof -
  note f = pending_facts [OF pe] and n = pending_next [OF pe]
  note l = f(3)
  show "\<exists>n' t' zs. ys = (n', t', Used) # zs" using l by (cases ys) auto
  then obtain n' t' zs where ys: "ys = (n', t', Used) # zs" by blast
  show t: "t AND 7 = 0" "32 \<le> unat t" using l by simp_all
  show "hp m1 (n + 8) = head_word t True False" using l by auto
  have sk: "skeleton m1 (xs @ old @ (n, t, Free) # ys)" using pe by (simp add: pending_def)
  have "(n, t, Free) \<in> set (xs @ old @ (n, t, Free) # ys)" by simp
  note g = skeleton_mem [OF sk this] and skeleton_bounds(2) [OF sk]
  then show "n \<noteq> m_top m1" using t(2) by auto
  show "unat (S + t) = unat S + unat t" using g(6) f(8) n by (intro unat_add64) simp
  show "n \<noteq> 0" using f(5) f(8) n by (auto dest: arg_cong [where f = unat])
qed

lemma pending_join:
  assumes pe: "pending m xs old ((n, t, Free) # ys) P S m1"
    and m2: "skeleton m2 (xs @ old @ (n, t, Free) # ys)" "bins_hold m2 (frees (xs @ ys) - dv_set m2)"
      "dv_set m2 \<subseteq> insert (P, dvsize m2) (frees (xs @ ys))" "dvsize m2 = 0 \<longrightarrow> dv m2 = 0"
      "kept (payloads (useds (xs @ ys))) m1 m2" "maddr m2 = maddr m1"
  shows "pending m xs (old @ [(n, t, Free)]) ys P (S + t) m2"
proof -
  note f = pending_facts [OF pe] and g = pending_free_next [OF pe]
  have "(P, S + t, Free) \<notin> set old"
  proof
    assume "(P, S + t, Free) \<in> set old"
    from laid_mem [OF f(1) this] show False using g(5,6) by simp
  qed
  moreover have "P \<noteq> n" using f(10) [of t Free] by auto
  moreover have "kept (payloads (useds (xs @ ys))) m m1" using pe by (simp add: pending_def)
  then have "kept (payloads (useds (xs @ ys))) m m2" using m2(5) by (rule kept_trans)
  ultimately show ?thesis using pe m2 g(5) by (auto simp: pending_def)
qed

lemma next_facts:
  assumes pe: "pending m xs old ((n, t, k) # ys) P S m1" and a: "after True old"
  shows "ok_next P n \<and> ok_pinuse m1 n" "cinuse m1 n = (k = Used)" "chunksize m1 n = t"
proof -
  note f = pending_facts [OF pe] and n = pending_next [OF pe]
  have h: "hp m1 (n + 8) = head_word t True (k = Used)" "t AND 7 = 0" using f(3) a by simp_all
  have "pinuse m1 n" using head_word_pinuse [OF h(2), of True] by (simp add: pinuse_def h(1))
  then show "ok_next P n \<and> ok_pinuse m1 n" using f(5,8) n by (simp add: ok_next_def ok_pinuse_def word_less_nat_alt)
  show "cinuse m1 n = (k = Used)" using head_word_cinuse [OF h(2), of True] by (simp add: cinuse_def h(1))
  show "chunksize m1 n = t" using head_word_size [OF h(2)] by (simp add: chunksize_def h(1))
qed

lemma forward_used:
  assumes pe: "pending m xs old ((n, t, Used) # ys) P S m1" and a: "after True old" and dv: "dv m1 \<noteq> P"
  shows "\<exists>m'. free_forward os mp P S n m1 w = Some (m', w) \<and> freed m (useds (xs @ (n, t, Used) # ys)) m'"
proof -
  let ?m = "set_free_with_pinuse P S n m1"
  have sel: "dv ?m = dv m1" "dvsize ?m = dvsize m1"
    by (simp_all add: set_free_with_pinuse_def set_size_and_pinuse_of_free_chunk_def set_foot_def clear_pinuse_def)
  obtain m'' where "insert_chunk P S ?m = Some m''" "freed m (useds (xs @ (n, t, Used) # ys)) m''"
    using pending_bin [OF pe pending_marks(1) [OF pe a] sel dv] by blast
  from free_to_bin_ok [OF this] show ?thesis using next_facts [OF pe a] by (simp add: free_forward_def)
qed

lemma forward_top:
  assumes pe: "pending m xs old [] P S m1" and a: "after True old"
  shows "\<exists>m'. free_forward os mp P S (P + S) m1 w = Some (m', w) \<and> freed m (useds xs) m'"
proof -
  note f = pending_facts [OF pe]
  have t: "unat (m_top m1) = unat P + unat S" "hp m1 (m_top m1 + 8) = head_word (topsize m1) True False" "topsize m1 AND 7 = 0"
    using f(3) a by simp_all
  then have e: "m_top m1 = P + S" using f(8) by (simp add: word_unat_eq_iff)
  note top = e t(2,3) [unfolded e]
  have ok: "ok_next P (P + S)" "ok_pinuse m1 (P + S)" "\<not> cinuse m1 (P + S)"
    using f(5,8) top(2) head_word_pinuse [OF top(3), of True] head_word_cinuse [OF top(3), of True]
    by (simp_all add: ok_next_def word_less_nat_alt ok_pinuse_def pinuse_def cinuse_def)
  let ?m = "set_head P ((topsize m1 + S) OR PINUSE_BIT) (m1\<lparr>topsize := topsize m1 + S, m_top := P\<rparr>)"
  define m2 where "m2 = (if P = dv ?m then ?m\<lparr>dv := 0, dvsize := 0\<rparr> else ?m)"
  have fr: "freed m (useds xs) m2"
    by (rule pending_top [OF pe]) (auto simp: m2_def same_geometry_def head_marked)
  have "free_forward os mp P S (P + S) m1 w = (if should_trim m2 (topsize m1 + S)
      then Option.bind (sys_trim os mp 0 m2 w) (\<lambda>(released, m, w). Some (m, w)) else Some (m2, w))"
    using ok top(1) by (simp add: free_forward_def Let_def m2_def)
  then show ?thesis using fr sys_trim_ok [OF fr, of os mp w] by auto
qed

lemma forward_dv:
  assumes pe: "pending m xs old ((n, t, Free) # ys) P S m1" and a: "after True old" and n: "n = dv m1"
  shows "\<exists>m'. free_forward os mp P S n m1 w = Some (m', w) \<and> freed m (useds (xs @ ys)) m'"
proof -
  note f = pending_facts [OF pe] and g = pending_free_next [OF pe] and nx = next_facts [OF pe a]
  obtain n' t' zs where ys: "ys = (n', t', Used) # zs" using g(1) by blast
  have dv: "dvsize m1 = 0 \<longrightarrow> dv m1 = 0" "dv_set m1 \<subseteq> insert (P, dvsize m1) (frees (xs @ (n, t, Free) # ys))"
    and sk: "skeleton m1 (xs @ old @ (n, t, Free) # ys)" and h: "bins_hold m1 (frees (xs @ (n, t, Free) # ys) - dv_set m1)"
    using pe by (simp_all add: pending_def)
  have d0: "dvsize m1 \<noteq> 0" using dv(1) n g(7) by auto
  have "P \<noteq> n" using f(10) [of t Free] by auto
  then have "(n, dvsize m1) \<in> frees (xs @ (n, t, Free) # ys)" using dv(2) d0 n by (auto simp: dv_set_def)
  then have "(n, dvsize m1, Free) \<in> set (xs @ old @ (n, t, Free) # ys)" by (auto simp: frees_def)
  then have dt: "dvsize m1 = t" using skeleton_fresh [of m1 "xs @ old" n t Free ys] sk by auto
  have F: "frees (xs @ (n, t, Free) # ys) - dv_set m1 = frees (xs @ ys)"
    using skeleton_fresh [of m1 "xs @ old" n t Free ys] sk d0 n dt by (auto simp: dv_set_def frees_def)
  let ?m2 = "m1\<lparr>dvsize := 0, dv := 0\<rparr>"
  have d2: "dv_set ?m2 = {}" by (simp add: dv_set_def)
  have pe2: "pending m xs (old @ [(n, t, Free)]) ys P (S + t) ?m2"
  proof (rule pending_join [OF pe])
    show "skeleton ?m2 (xs @ old @ (n, t, Free) # ys)" by (rule skeleton_cong [OF sk]) simp_all
    have "bins_hold ?m2 (frees (xs @ ys))"
      by (rule bins_hold_cong [OF sk _ h [unfolded F]]) (auto simp: same_geometry_def)
    then show "bins_hold ?m2 (frees (xs @ ys) - dv_set ?m2)" unfolding d2 by simp
  qed (simp_all add: d2)
  let ?m' = "set_size_and_pinuse_of_free_chunk P (t + S) (m1\<lparr>dvsize := t + S, dv := P\<rparr>)"
  have "merged P (S + t) t' ?m2 ?m'"
    using pending_marks(2) [OF pe2 [unfolded ys]]
    by (simp add: merged_def same_geometry_def set_size_and_pinuse_of_free_chunk_def set_foot_def add.commute [of t])
  then have "freed m (useds (xs @ (n', t', Used) # zs)) ?m'"
    by (rule pending_dv [OF pe2 [unfolded ys]])
      (simp_all add: d2 set_size_and_pinuse_of_free_chunk_def set_foot_def add.commute)
  then show ?thesis
    using nx n g(4) [OF a] dt ys by (simp add: free_forward_def Let_def)
qed

lemma forward_free:
  assumes pe: "pending m xs old ((n, t, Free) # ys) P S m1" and a: "after True old" and n: "n \<noteq> dv m1"
  shows "\<exists>m'. free_forward os mp P S n m1 w = Some (m', w) \<and> freed m (useds (xs @ ys)) m'"
proof -
  note f = pending_facts [OF pe] and g = pending_free_next [OF pe] and nx = next_facts [OF pe a]
  obtain n' t' zs where ys: "ys = (n', t', Used) # zs" using g(1) by blast
  let ?cs = "xs @ old @ (n, t, Free) # ys" and ?C = "frees (xs @ (n, t, Free) # ys) - dv_set m1"
  have dv: "dvsize m1 = 0 \<longrightarrow> dv m1 = 0" "dv_set m1 \<subseteq> insert (P, dvsize m1) (frees (xs @ (n, t, Free) # ys))"
    and sk: "skeleton m1 ?cs" and h: "bins_hold m1 ?C"
    using pe by (simp_all add: pending_def)
  have out: "(n, t) \<notin> frees (xs @ ys)" "(n, t) \<notin> dv_set m1"
    using skeleton_fresh [of m1 "xs @ old" n t Free ys] sk n by (auto simp: frees_def dv_set_def)
  obtain m2 where m2: "unlink_chunk n t m1 = Some m2" "skeleton m2 ?cs" "bins_hold m2 (?C - {(n, t)})"
    "same_scalars m1 m2" "kept (payloads (useds ?cs)) m1 m2"
    using unlink_free [OF sk _ _ h, of n t] out(2) by auto
  note sel = same_scalars_sel [OF m2(4)]
  have d2: "dv_set m2 = dv_set m1" using sel by (simp add: dv_set_def)
  have pe2: "pending m xs (old @ [(n, t, Free)]) ys P (S + t) m2"
  proof (rule pending_join [OF pe m2(2)])
    have "?C - {(n, t)} = frees (xs @ ys) - dv_set m2" using out(1) by (auto simp: d2)
    then show "bins_hold m2 (frees (xs @ ys) - dv_set m2)" using m2(3) by simp
    show "dv_set m2 \<subseteq> insert (P, dvsize m2) (frees (xs @ ys))" using dv(2) out(2) sel by (auto simp: d2)
    show "kept (payloads (useds (xs @ ys))) m1 m2"
      by (rule kept_mono [OF m2(5)]) (auto simp: payloads_def)
  qed (use dv sel in simp_all)
  let ?m' = "set_size_and_pinuse_of_free_chunk P (S + t) m2"
  have me: "merged P (S + t) t' m2 ?m'" using pending_marks(2) [OF pe2 [unfolded ys]] by simp
  have dv': "dv ?m' = dv m2" "dvsize ?m' = dvsize m2"
    by (simp_all add: set_size_and_pinuse_of_free_chunk_def set_foot_def)
  show ?thesis
  proof (cases "dv m2 = P")
    case True
    let ?m3 = "?m'\<lparr>dvsize := S + t\<rparr>"
    have "(P, s) \<notin> frees (xs @ zs)" for s using f(9,10) [of s Free] ys by (auto simp: frees_def)
    then have "dv_set m2 \<inter> frees (xs @ zs) = {}" using True by (auto simp: dv_set_def)
    moreover have "merged P (S + t) t' m2 ?m3" using me by (simp add: merged_def same_geometry_def)
    ultimately have "freed m (useds (xs @ (n', t', Used) # zs)) ?m3"
      using True dv' by (intro pending_dv [OF pe2 [unfolded ys]]) simp_all
    then show ?thesis
      using nx n g(4) [OF a] m2(1) ys True dv' by (simp add: free_forward_def Let_def)
  next
    case False
    obtain m'' where "insert_chunk P (S + t) ?m' = Some m''" "freed m (useds (xs @ (n', t', Used) # zs)) m''"
      using pending_bin [OF pe2 [unfolded ys] me dv' False] by blast
    from free_to_bin_ok [OF this] show ?thesis
      using nx n g(4) [OF a] m2(1) ys False dv' by (simp add: free_forward_def Let_def)
  qed
qed

lemma forward_any:
  assumes pe: "pending m xs old ys P S m1" and a: "after True old"
    and dv: "dv m1 = P \<Longrightarrow> hp m1 (P + S + 8) AND INUSE_BITS \<noteq> INUSE_BITS"
  shows "\<exists>m'. free_forward os mp P S (P + S) m1 w = Some (m', w) \<and> freed m (useds (xs @ ys)) m'"
proof (cases ys)
  case Nil
  then show ?thesis using forward_top [of m xs old P S m1 os mp w] pe a by simp
next
  case (Cons y zs)
  obtain n t k where y: "y = (n, t, k)" by (cases y)
  note pe' = pe [unfolded Cons y] and n = pending_next [OF pe [unfolded Cons y]]
  have "\<forall>(p, s, k)\<in>set (xs @ old @ (n, t, k) # zs). k \<noteq> Top" using pe' unfolding pending_def skeleton_def by blast
  then have k: "k = Used \<or> k = Free" using use.exhaust by auto
  have h: "hp m1 (P + S + 8) = head_word t True (k = Used)" "t AND 7 = 0"
    using pending_facts(3) [OF pe'] a n by simp_all
  show ?thesis
  proof (cases "k = Used")
    case True
    then have "dv m1 \<noteq> P" using dv h head_word_inuse_bits [OF h(2), of True True] by auto
    from forward_used [OF pe' [unfolded True] a this] show ?thesis unfolding Cons y True n .
  next
    case False
    then have F: "k = Free" using k by simp
    have "\<exists>m'. free_forward os mp P S n m1 w = Some (m', w) \<and> freed m (useds (xs @ zs)) m'"
    proof (cases "n = dv m1")
      case True then show ?thesis by (rule forward_dv [OF pe' [unfolded F] a])
    next
      case False then show ?thesis by (rule forward_free [OF pe' [unfolded F] a])
    qed
    then show ?thesis unfolding Cons y F n by simp
  qed
qed

section \<open>\<open>mspace_free\<close>\<close>

lemma used_chunk:
  assumes sk: "skeleton m (xs @ (p, s, Used) # ys)"
  shows "chunk2mem p \<noteq> 0" "mem2chunk (chunk2mem p) = p" "ok_address m p \<and> ok_cinuse m p" "chunksize m p = s"
    "pinuse m p = after True xs" "unat (p + s) = unat p + unat s" "s AND 7 = 0" "32 \<le> unat s" "p \<noteq> 0"
proof -
  have m: "(p, s, Used) \<in> set (xs @ (p, s, Used) # ys)" by simp
  note g = skeleton_mem [OF sk m]
  have l: "laid (hp m) True (space_start m) (xs @ (p, s, Used) # ys @ [(m_top m, topsize m, Top)]) (space_end m)"
    using skeleton_bounds(5) [OF sk] by simp
  have h: "hp m (p + 8) = head_word s (after True xs) True" using laid_head(1) [OF l] by simp
  show "s AND 7 = 0" "32 \<le> unat s" "unat (p + s) = unat p + unat s" by (fact g)+
  have "unat (p + 16) = unat p + 16" using g(4,6) by (simp add: unat_add64)
  then show "chunk2mem p \<noteq> 0" by (auto simp: chunk2mem_def dest: arg_cong [where f = unat])
  show "p \<noteq> 0" using g(1) by (auto simp: space_start_def)
  show "mem2chunk (chunk2mem p) = p" by (simp add: mem2chunk_def chunk2mem_def)
  show "ok_address m p \<and> ok_cinuse m p" using g(7) head_word_cinuse [OF g(3)] by (simp add: ok_cinuse_def cinuse_def h)
  show "chunksize m p = s" using head_word_size [OF g(3)] by (simp add: chunksize_def h)
  show "pinuse m p = after True xs" using head_word_pinuse [OF g(3)] by (simp add: pinuse_def h)
qed

lemma used_not_dv: "space_ok m (xs @ (p, s, Used) # ys) \<Longrightarrow> dv m \<noteq> p"
proof
  assume ok: "space_ok m (xs @ (p, s, Used) # ys)" and p: "dv m = p"
  then have sk: "skeleton m (xs @ (p, s, Used) # ys)" by (simp add: space_ok_def)
  have "dvsize m \<noteq> 0" using ok p used_chunk(9) [OF sk] by (auto simp: space_ok_def)
  then have "(p, dvsize m) \<in> frees (xs @ (p, s, Used) # ys)" using ok p by (auto simp: space_ok_def dv_set_def)
  then show False using skeleton_fresh [OF sk] by (auto simp: frees_def)
qed

lemma same_scalars_refl: "same_scalars m m"
  unfolding same_scalars_def by (intro exI [of _ "smallmap m"] exI [of _ "treemap m"] exI [of _ "hp m"]) simp

lemma pending_single:
  assumes ok: "space_ok m (xs @ (p, s, Used) # ys)" and a: "after True xs"
  shows "pending m xs [(p, s, Used)] ys p s m"
proof -
  have "(p, s) \<notin> dv_set m" using used_not_dv [OF ok] by (auto simp: dv_set_def)
  then show ?thesis using ok a by (auto simp: pending_def space_ok_def)
qed

lemma pending_pair:
  assumes ok: "space_ok m (xs @ (q, t, Free) # (p, s, Used) # ys)"
    and m1: "skeleton m1 (xs @ (q, t, Free) # (p, s, Used) # ys)"
      "bins_hold m1 (frees (xs @ (q, t, Free) # (p, s, Used) # ys) - dv_set m - {(q, t)})"
      "same_scalars m m1" "kept (payloads (useds (xs @ (q, t, Free) # (p, s, Used) # ys))) m m1"
  shows "pending m xs [(q, t, Free), (p, s, Used)] ys q (s + t) m1"
proof -
  let ?cs = "xs @ (q, t, Free) # (p, s, Used) # ys"
  note sel = same_scalars_sel [OF m1(3)]
  have sk: "skeleton m ?cs" using ok by (simp add: space_ok_def)
  then have sk': "skeleton m ((xs @ [(q, t, Free)]) @ (p, s, Used) # ys)" by simp
  note u = used_chunk [OF sk'] and fresh = skeleton_fresh [OF sk]
  have "unat t + unat s < 2 ^ 64"
    using skeleton_mem(2,6) [OF sk, of p s Used] skeleton_mem(2) [OF sk, of q t Free]
      laid_head(4) [of "hp m" True "space_start m" xs q t Free "(p, s, Used) # ys @ [(m_top m, topsize m, Top)]" "space_end m"]
      skeleton_bounds(5) [OF sk] by simp
  then have S: "unat (s + t) = unat s + unat t" by (intro unat_add64) simp
  then have ne: "s + t \<noteq> t" using u(8) by auto
  have d: "dv_set m1 = dv_set m" using sel by (simp add: dv_set_def)
  have F: "frees (xs @ ys) - dv_set m1 = frees ?cs - dv_set m - {(q, t)}"
    using fresh unfolding d by (auto simp: frees_def)
  have "dv_set m \<subseteq> frees ?cs" "dvsize m = 0 \<longrightarrow> dv m = 0" using ok by (simp_all add: space_ok_def)
  then have dv: "dv_set m1 \<subseteq> insert (q, dvsize m1) (frees (xs @ ys))" "dvsize m1 = 0 \<longrightarrow> dv m1 = 0"
    using sel unfolding d by (auto simp: dv_set_def split: if_splits)
  have k: "kept (payloads (useds (xs @ ys))) m m1" by (rule kept_mono [OF m1(4)]) (auto simp: payloads_def)
  have B: "bins_hold m1 (frees (xs @ ys) - dv_set m1)" using m1(2) unfolding F .
  have "after True xs"
    using laid_head(3) [of "hp m" True "space_start m" xs q t Free "(p, s, Used) # ys @ [(m_top m, topsize m, Top)]" "space_end m"]
      skeleton_bounds(5) [OF sk] by simp
  then show ?thesis unfolding pending_def using B k m1(1) dv S ne sel by simp
qed

lemma inuse_next:
  assumes pe: "pending m xs old ys P S m1" and a: "after True old" and i: "hp m1 (P + S + 8) AND INUSE_BITS = INUSE_BITS"
  shows "\<exists>n t zs. ys = (n, t, Used) # zs"
proof -
  note f = pending_facts [OF pe]
  have low: "head_word t True False AND 3 \<noteq> 3" if "t AND 7 = 0" for t
    using head_word_inuse_bits [OF that, of True False] by simp
  obtain n t k zs where y: "ys @ [(m_top m1, topsize m1, Top)] = (n, t, k) # zs" by (cases ys) auto
  have "n = P + S" "t AND 7 = 0" "hp m1 (n + 8) = head_word t True (k = Used)"
    using f(3,8) a unfolding y by (simp_all add: word_unat_eq_iff)
  then have "k = Used" using low [of t] i by (cases "k = Used") auto
  then show ?thesis using y by (cases ys) auto
qed

lemma free_single:
  assumes ok: "space_ok m (xs @ (p, s, Used) # ys)" and a: "after True xs"
  shows "\<exists>m'. mspace_free os mp (chunk2mem p) m w = Some (m', w) \<and> freed m (useds (xs @ ys)) m'"
proof -
  have sk: "skeleton m (xs @ (p, s, Used) # ys)" using ok by (simp add: space_ok_def)
  note u = used_chunk [OF sk]
  have "mspace_free os mp (chunk2mem p) m w = free_forward os mp p s (p + s) m w"
    using u a by (simp add: mspace_free_def Let_def)
  then show ?thesis
    using forward_any [OF pending_single [OF ok a], of os mp w] used_not_dv [OF ok] by simp
qed

lemma free_pair:
  assumes ok: "space_ok m (xs @ (q, t, Free) # (p, s, Used) # ys)"
  shows "\<exists>m'. mspace_free os mp (chunk2mem p) m w = Some (m', w) \<and> freed m (useds (xs @ ys)) m'"
proof -
  let ?cs = "xs @ (q, t, Free) # (p, s, Used) # ys"
  have sk: "skeleton m ?cs" and h: "bins_hold m (frees ?cs - dv_set m)" using ok by (simp_all add: space_ok_def)
  then have sk': "skeleton m ((xs @ [(q, t, Free)]) @ (p, s, Used) # ys)" by simp
  note u = used_chunk [OF sk']
  have np: "\<not> pinuse m p" using u(5) by simp
  have qf: "(q, t) \<in> frees ?cs" by simp
  note f = free_size [OF sk qf] and n = free_next [OF sk]
  have p: "p = q + t" "prev_foot_of m p = t" using n(1,4) by auto
  have "unat (t AND 1) = 0" using f(2) unfolding and_7_eq_0_iff unat_and_1 by presburger
  then have t1: "t AND IS_MMAPPED_BIT = 0" by (simp add: word_unat_eq_iff)
  have e: "p - t = q" "p + s = q + (s + t)" using p(1) by simp_all
  have run: "mspace_free os mp (chunk2mem p) m w =
      (if q \<noteq> dv m then Option.bind (unlink_chunk q t m) (\<lambda>m. free_forward os mp q (s + t) (q + (s + t)) m w)
       else if hp m (q + (s + t) + 8) AND INUSE_BITS = INUSE_BITS
            then Some (set_free_with_pinuse q (s + t) (q + (s + t)) (m\<lparr>dvsize := s + t\<rparr>), w)
       else free_forward os mp q (s + t) (q + (s + t)) m w)"
    using u np p(2) t1 f(7) by (simp add: mspace_free_def Let_def e)
  have a: "after True [(q, t, Free), (p, s, Used)]" by simp
  show ?thesis
  proof (cases "q = dv m")
    case False
    then have out: "(q, t) \<in> frees ?cs - dv_set m" by (simp add: dv_set_def)
    obtain m1 where m1: "unlink_chunk q t m = Some m1" "skeleton m1 ?cs" "bins_hold m1 (frees ?cs - dv_set m - {(q, t)})"
      "same_scalars m m1" "kept (payloads (useds ?cs)) m m1"
      using unlink_free [OF sk out _ h] by blast
    have "dv m1 \<noteq> q" using False m1(4) by (simp add: same_scalars_sel)
    then show ?thesis
      using forward_any [OF pending_pair [OF ok m1(2-5)] a, of os mp w] m1(1) False by (simp add: run)
  next
    case True
    have d: "dvsize m \<noteq> 0" "dv_set m \<subseteq> frees ?cs" using ok f(6) True by (auto simp: space_ok_def)
    then have "(q, dvsize m) \<in> frees ?cs" using True by (simp add: dv_set_def)
    then have "dvsize m = t" using skeleton_fresh [OF sk] by (auto simp: frees_def)
    then have "frees ?cs - dv_set m - {(q, t)} = frees ?cs - dv_set m" using d True by (auto simp: dv_set_def)
    then have pe: "pending m xs [(q, t, Free), (p, s, Used)] ys q (s + t) m"
      using h by (intro pending_pair [OF ok sk]) (simp_all add: same_scalars_refl)
    show ?thesis
    proof (cases "hp m (q + (s + t) + 8) AND INUSE_BITS = INUSE_BITS")
      case False
      then show ?thesis using forward_any [OF pe a, of os mp w] True by (simp add: run)
    next
      case inuse: True
      let ?m' = "set_free_with_pinuse q (s + t) (q + (s + t)) (m\<lparr>dvsize := s + t\<rparr>)"
      obtain n' t' zs where ys: "ys = (n', t', Used) # zs" using inuse_next [OF pe a inuse] by blast
      note pe' = pe [unfolded ys]
      have "merged q (s + t) t' m ?m'"
        using pending_marks(1) [OF pe' a] pending_next [OF pe']
        by (simp add: merged_def same_geometry_def set_free_with_pinuse_def set_size_and_pinuse_of_free_chunk_def
            set_foot_def clear_pinuse_def)
      moreover have "(q, x) \<notin> frees (xs @ zs)" for x
        using pending_facts(9,10) [OF pe', of x Free] by (auto simp: frees_def)
      then have "dv_set m \<inter> frees (xs @ zs) = {}" using True by (auto simp: dv_set_def)
      ultimately have "freed m (useds (xs @ (n', t', Used) # zs)) ?m'"
        using True by (intro pending_dv [OF pe'])
          (simp_all add: set_free_with_pinuse_def set_size_and_pinuse_of_free_chunk_def set_foot_def clear_pinuse_def)
      then show ?thesis using True inuse ys by (simp add: run)
    qed
  qed
qed

lemma mspace_free_ok:
  assumes ok: "space_ok m cs" and p: "(p, s) \<in> useds cs"
  shows "\<exists>m'. mspace_free os mp (chunk2mem p) m w = Some (m', w) \<and> freed m (useds cs - {(p, s)}) m'"
proof -
  have "(p, s, Used) \<in> set cs" using p by (simp add: useds_def)
  then obtain xs ys where cs: "cs = xs @ (p, s, Used) # ys" by (auto dest: split_list)
  note ok' = ok [unfolded cs]
  have sk: "skeleton m (xs @ (p, s, Used) # ys)" using ok' by (simp add: space_ok_def)
  have U: "useds cs - {(p, s)} = useds (xs @ ys)" using skeleton_fresh [OF sk] by (auto simp: cs useds_def)
  show ?thesis
  proof (cases "after True xs")
    case True
    then show ?thesis unfolding U by (rule free_single [OF ok'])
  next
    case False
    then obtain zs q t k where xs: "xs = zs @ [(q, t, k)]" "k \<noteq> Used"
      by (cases xs rule: rev_cases) auto
    moreover have "k \<noteq> Top" using sk unfolding skeleton_def xs(1) by auto
    ultimately have xs: "xs = zs @ [(q, t, Free)]" by (cases k) auto
    have "\<exists>m'. mspace_free os mp (chunk2mem p) m w = Some (m', w) \<and> freed m (useds (zs @ ys)) m'"
      by (rule free_pair [of m zs q t p s ys]) (use ok' xs in simp)
    moreover have "useds (zs @ ys) = useds (xs @ ys)" by (simp add: xs)
    ultimately show ?thesis unfolding U by simp
  qed
qed

end
