(* ===== verification/Pt_Space.thy ===== *)
theory Pt_Space
  imports Pt_Free Pt_Api
begin

text \<open>
  The life of a malloc space in memory that somebody else owns, as the arenas of the memory sources
  use it: \<open>create_mspace_with_base\<close> makes a well-formed one, the users' writes leave it well-formed, and
  any sequence of allocations, releases and writes behaves as one on a set of disjoint blocks.
\<close>

section \<open>The users' writes\<close>

lemma payload_apart:
  assumes sk: "skeleton m cs" and p: "(p, s) \<in> useds cs" and x: "x \<in> payload p s" and c: "(q, t, k) \<in> set cs"
  shows "x \<noteq> q + 8" "k = Free \<Longrightarrow> x \<noteq> q + t"
proof -
  have pu: "(p, s, Used) \<in> set cs" using p by (simp add: useds_def)
  note g = skeleton_mem [OF sk c] and apart = skeleton_apart [OF sk pu c]
  have u: "unat (q + 8) = unat q + 8" using g(6) by (simp add: unat_add64)
  show "x \<noteq> q + 8" using x apart u g(4) by (auto simp: payload_def)
  show "x \<noteq> q + t" if "k = Free" using x apart g(4,8) that by (auto simp: payload_def)
qed

lemma write_payload:
  assumes ok: "space_ok m cs" and p: "(p, s) \<in> useds cs" and x: "x \<in> payload p s"
  shows "space_ok (upd x v m) cs"
proof -
  let ?m = "upd x v m"
  have sk: "skeleton m cs" and h: "bins_hold m (frees cs - dv_set m)" using ok by (simp_all add: space_ok_def)
  have pu: "(p, s, Used) \<in> set cs" using p by (simp add: useds_def)
  note g = skeleton_mem [OF sk pu] and b = skeleton_bounds [OF sk]
  have ends: "space_start ?m = space_start m" "space_end ?m = space_end m" by (simp_all add: space_start_def space_end_def)
  have top: "unat p + unat s \<le> unat (m_top m)" by (rule g(2))
  have "unat (m_top m) + 8 < 2 ^ 64" using b(2) by (simp add: space_end_def)
  then have xt: "x \<noteq> m_top m + 8" using top x by (auto simp: payload_def unat_add64)
  have l: "laid (hp ?m) True (space_start m) (cs @ [(m_top m, topsize m, Top)]) (space_end m)
      = laid (hp m) True (space_start m) (cs @ [(m_top m, topsize m, Top)]) (space_end m)"
  proof (rule laid_cong)
    fix q t k assume c: "(q, t, k) \<in> set (cs @ [(m_top m, topsize m, Top)])"
    then consider "(q, t, k) \<in> set cs" | "q = m_top m" "k = Top" by auto
    then have "x \<noteq> q + 8" "k = Free \<Longrightarrow> x \<noteq> q + t"
      using payload_apart [OF sk p x] xt by (cases, auto)+
    then show "hp ?m (q + 8) = hp m (q + 8) \<and> (k = Free \<longrightarrow> hp ?m (q + t) = hp m (q + t))" by auto
  qed
  have "extern_space ?m"
    by (rule extern_space_cong [OF sk]) (use ends g(1) x in \<open>auto simp: payload_def space_start_def\<close>)
  then have "skeleton ?m cs" using sk l unfolding skeleton_def ends by simp
  moreover have "bins_hold ?m (frees cs - dv_set m)"
  proof (rule bins_hold_frame [OF sk _ h])
    fix y assume y: "y \<in> bin_slots m (frees cs - dv_set m) 8"
    have "(p, s) \<notin> frees cs - dv_set m" using free_not_used [OF sk, of p s s] p by auto
    then have "x \<notin> bin_slots m (frees cs - dv_set m) 8"
      using x by (intro chunk_slots_free [OF sk _ pu]) (auto simp: payload_def)
    then show "hp ?m y = hp m y" using y by auto
  qed auto
  moreover have "dv_set ?m = dv_set m" by (simp add: dv_set_def)
  ultimately show ?thesis using ok by (simp add: space_ok_def)
qed

text \<open>What users write in one block is not seen in another.\<close>

lemma payloads_disjoint:
  assumes sk: "skeleton m cs" and p: "(p, s) \<in> useds cs" "(q, t) \<in> useds cs" "(p, s) \<noteq> (q, t)"
  shows "payload p s \<inter> payload q t = {}"
  using skeleton_apart [OF sk, of p s Used q t Used] p by (auto simp: payload_def useds_def)

section \<open>Everything given back\<close>

text \<open>No two free chunks are neighbours, and the one before the top chunk is in use.\<close>

lemma no_used_no_chunks:
  assumes sk: "skeleton m cs" and U: "useds cs = {}"
  shows "cs = []"
proof (cases cs rule: rev_cases)
  case (snoc xs c)
  obtain p s k where c: "c = (p, s, k)" by (cases c)
  have "after True cs" using skeleton_bounds(5) [OF sk] by (auto simp: laid_append)
  then have "k = Used" by (simp add: snoc c)
  then have "(p, s) \<in> useds cs" by (simp add: snoc c)
  then show ?thesis using U by simp
qed

section \<open>A new space\<close>

lemma fold_init_sel:
  "maddr (fold init_bin is m) = maddr m" "smallmap (fold init_bin is m) = smallmap m" "treemap (fold init_bin is m) = treemap m"
  "least_addr (fold init_bin is m) = least_addr m" "dv (fold init_bin is m) = dv m" "dvsize (fold init_bin is m) = dvsize m"
  by (induction "is" arbitrary: m) (simp_all add: init_bin_def Let_def)

lemma fold_init_out:
  assumes "\<And>i. i \<in> set is \<Longrightarrow> x \<noteq> smallbin_at m i + 16 \<and> x \<noteq> smallbin_at m i + 24"
  shows "hp (fold init_bin is m) x = hp m x"
  using assms
proof (induction "is" arbitrary: m)
  case (Cons i "is")
  have at: "smallbin_at (init_bin i m) j = smallbin_at m j" for j by (rule smallbin_at_cong) (rule init_bin_sel)
  have "hp (fold init_bin is (init_bin i m)) x = hp (init_bin i m) x"
    by (rule Cons.IH) (use Cons.prems at in auto)
  also have "\<dots> = hp m x" using Cons.prems [of i] by (simp add: init_bin_def Let_def)
  finally show ?case by simp
qed simp

definition new_base_ok :: "u64 \<Rightarrow> u64 \<Rightarrow> bool" where
  "new_base_ok base capacity \<longleftrightarrow> base AND 7 = 0 \<and> 48 \<le> unat base \<and> capacity AND 7 = 0 \<and> 1008 < unat capacity
     \<and> unat capacity < 2 ^ 40 \<and> unat base + unat capacity < 2 ^ 64"

lemma init_state_consts: "pad_request SIZEOF_MALLOC_STATE = 936" "936 OR PINUSE_BIT OR CINUSE_BIT = 939"
  by (simp_all add: pad_request_def SIZEOF_MALLOC_STATE_def)

lemma align_offset_0: "x AND 7 = 0 \<Longrightarrow> align_offset x = 0"
  by (simp add: align_offset_def)

lemma new_space:
  assumes ok: "new_base_ok base cap"
  shows "\<exists>m. init_user_mstate mp base cap h = m \<and> maddr m = base + 16 \<and> smallmap m = 0 \<and> treemap m = 0 \<and> dv m = 0
    \<and> dvsize m = 0 \<and> least_addr m = base \<and> m_top m = base + 936 \<and> topsize m = cap - 1008
    \<and> seg_base m (main_seg m) = base \<and> seg_size m (main_seg m) = cap \<and> seg_next m (main_seg m) = 0
    \<and> hp m (m_top m + 8) = (cap - 1008) OR 1 \<and> (\<forall>i<32. hp m (treebin_at m i) = 0)"
proof -
  have b: "base AND 7 = 0" "48 \<le> unat base" "unat base + unat cap < 2 ^ 64" "1008 < unat cap"
    using ok by (simp_all add: new_base_ok_def)
  have u: "unat (base + x) = unat base + unat x" if "unat x \<le> 1008" for x
    using b that by (intro unat_add64) linarith
  define m0 where "m0 = disable_contiguous ((set_seg_size (base + 16 + 880) cap
      ((set_seg_base (base + 16 + 880) base ((set_head base 939
        \<lparr>maddr = base + 16, smallmap = 0, treemap = 0, dvsize = 0, topsize = 0, least_addr = 0,
         dv = 0, m_top = 0, trim_check = 0, release_checks = 0, magic = 0, footprint = 0,
         max_footprint = 0, mflags = 0, extp = 0, exts = 0, hp = clear_region (base + 16) 936 h\<rparr>)\<lparr>least_addr := base\<rparr>))
       \<lparr>footprint := cap, max_footprint := cap\<rparr>))
    \<lparr>magic := mp_magic mp, release_checks := MAX_RELEASE_CHECK_RATE, mflags := mp_default_mflags mp, extp := 0, exts := 0\<rparr>)"
  define m1 where "m1 = fold init_bin [0..<32] m0"
  have at: "smallbin_at m0 i = base + (88 + 16 * of_nat i)" for i
    by (simp add: m0_def disable_contiguous_def smallbin_at_def algebra_simps)
  have out: "hp m1 x = hp m0 x" if "x = base + y" "unat y \<le> 1008" "unat y < 104 \<or> 616 \<le> unat y" for x y
    unfolding m1_def
  proof (rule fold_init_out)
    fix i :: nat assume "i \<in> set [0..<32]"
    then have i: "i < 32" by simp
    have "unat (of_nat i :: u64) = i" using i by (simp add: unat_of_nat)
    then have "unat (104 + 16 * of_nat i :: u64) = 104 + 16 * i" "unat (112 + 16 * of_nat i :: u64) = 112 + 16 * i"
      using i by (simp_all add: unat_word_ariths)
    then have "y \<noteq> 104 + 16 * of_nat i" "y \<noteq> 112 + 16 * of_nat i" using that(3) i by auto
    then show "x \<noteq> smallbin_at m0 i + 16 \<and> x \<noteq> smallbin_at m0 i + 24"
      by (simp add: at that(1) add.assoc)
  qed
  have sel: "maddr m1 = base + 16" "smallmap m1 = 0" "treemap m1 = 0" "least_addr m1 = base" "dv m1 = 0" "dvsize m1 = 0"
    by (simp_all add: m1_def fold_init_sel m0_def disable_contiguous_def)
  have c16: "chunk2mem base AND 7 = 0" "chunk2mem (base + 936) AND 7 = 0"
    using b(1) by (simp_all add: chunk2mem_def add.assoc aligned_add)
  have h8: "hp m1 (base + 8) = 939" by (subst out [of _ 8]) (simp_all add: m0_def disable_contiguous_def)
  have run: "init_user_mstate mp base cap h = init_top mp (base + 936) (cap - 1008) m1"
    using h8 h8 [unfolded add.commute [of base]] sel(1) c16(1)
    by (simp add: init_user_mstate_def Let_def init_state_consts align_as_chunk_def align_offset_0 chunk2mem_def mem2chunk_def
        next_chunk_def init_bins_def m1_def m0_def disable_contiguous_def TOP_FOOT_SIZE_eq)
  let ?m = "init_top mp (base + 936) (cap - 1008) m1"
  have d: "unat (cap - 1008) = unat cap - 1008" using b(4) by (simp add: unat_sub word_le_nat_alt)
  have top: "m_top ?m = base + 936" "topsize ?m = cap - 1008"
    "hp ?m = (hp m1)(base + 944 := (cap - 1008) OR 1, base + 936 + (cap - 1008) + 8 := 72)"
    "maddr ?m = base + 16" "smallmap ?m = 0" "treemap ?m = 0" "least_addr ?m = base" "dv ?m = 0" "dvsize ?m = 0"
    using c16(2) by (simp_all add: init_top_def Let_def align_offset_0 TOP_FOOT_SIZE_eq sel add.commute [of base 944])
  have e: "base + 936 + (cap - 1008) + 8 = base + (cap - 64)" "unat (cap - 64) = unat cap - 64"
    using b(4) by (simp_all add: unat_sub word_le_nat_alt)
  have ue: "unat (base + (cap - 64)) = unat base + unat cap - 64" using e(2) b(3,4) by (subst unat_add64) simp_all
  have low: "hp ?m (base + y) = hp m0 (base + y)" if "unat y < 936" "616 \<le> unat y" for y
  proof -
    have "base + y \<noteq> base + 944" "base + y \<noteq> base + (cap - 64)"
      by (rule unat_neq, use u [of y] u [of 944] ue b(4) that in simp)+
    then show ?thesis using out [of "base + y" y] that unfolding top(3) e(1) by simp
  qed
  have clear: "clear_region (base + 16) 936 h (base + y) = 0" if "unat y < 936" "616 \<le> unat y" for y
  proof -
    have "16 \<le> y" using that by (simp add: word_le_nat_alt)
    then have "unat (y - 16) = unat y - 16" by (simp add: unat_sub)
    then have "base + y - (base + 16) < 936" using that by (simp add: word_less_nat_alt)
    then show ?thesis by (simp add: clear_region_def)
  qed
  have roots: "hp ?m (treebin_at ?m i) = 0" if "i < 32" for i
  proof -
    have "unat (of_nat i :: u64) = i" using that by (simp add: unat_of_nat)
    then have y: "unat (616 + 8 * of_nat i :: u64) = 616 + 8 * i" using that by (simp add: unat_word_ariths)
    have t: "treebin_at ?m i = base + (616 + 8 * of_nat i)" by (simp add: treebin_at_def top(4) add.assoc)
    have "616 + 8 * of_nat i \<noteq> (8 :: u64)" "616 + 8 * of_nat i \<noteq> (896 :: u64)" "616 + 8 * of_nat i \<noteq> (904 :: u64)"
      by (rule unat_neq, use y that in simp)+
    then show ?thesis
      using low [of "616 + 8 * of_nat i"] clear [of "616 + 8 * of_nat i"] y that by (simp add: t m0_def disable_contiguous_def add.assoc)
  qed
  have segs: "seg_base ?m (main_seg ?m) = base" "seg_size ?m (main_seg ?m) = cap" "seg_next ?m (main_seg ?m) = 0"
    using low [of 896] low [of 904] low [of 912] clear [of 912] by (simp_all add: top(4) m0_def disable_contiguous_def add.assoc)
  have "base + 944 \<noteq> base + (cap - 64)" by (rule unat_neq) (use u [of 944] ue b(4) in simp)
  then have "hp ?m (m_top ?m + 8) = (cap - 1008) OR 1" by (simp add: top(1,3) e(1) add.assoc)
  then show ?thesis using run roots segs top by auto
qed

lemma empty_space:
  assumes ok: "new_base_ok base cap"
    and m: "maddr m = base + 16" "smallmap m = 0" "treemap m = 0" "dv m = 0" "dvsize m = 0" "least_addr m = base"
      "m_top m = base + 936" "topsize m = cap - 1008" "hp m (m_top m + 8) = (cap - 1008) OR 1"
      "\<And>i. i < 32 \<Longrightarrow> hp m (treebin_at m i) = 0"
    and seg: "seg_base m (main_seg m) = base" "seg_size m (main_seg m) = cap" "seg_next m (main_seg m) = 0"
      "is_extern_segment m (main_seg m)"
  shows "space_ok m []" "space_start m = unat base + 936" "space_end m = unat base + unat cap - 72"
proof -
  have b: "base AND 7 = 0" "48 \<le> unat base" "cap AND 7 = 0" "unat base + unat cap < 2 ^ 64" "1008 < unat cap" "unat cap < 2 ^ 40"
    using ok by (simp_all add: new_base_ok_def)
  have u: "unat (base + 16) = unat base + 16" "unat (base + 936) = unat base + 936"
    using b(4,5) by (simp_all add: unat_add64)
  have d: "unat (cap - 1008) = unat cap - 1008" using b(5) by (simp add: unat_sub word_le_nat_alt)
  show start: "space_start m = unat base + 936" by (simp add: space_start_def m(1) u)
  show end_: "space_end m = unat base + unat cap - 72" using b(5) by (simp add: space_end_def m(7,8) u d)
  have c: "(cap - 1008) AND 7 = 0" using b(3) by (intro aligned_diff) simp_all
  have "laid (hp m) True (space_start m) [(m_top m, topsize m, Top)] (space_end m)"
    using b(5) c m(9) by (simp add: start end_ m(7,8) u d head_marked)
  moreover have "extern_space m"
    using seg b(4,5) by (simp add: extern_space_def end_ m(1) u TOP_FOOT_SIZE_eq)
  moreover have "least_addr m \<le> maddr m" using u by (simp add: m(1,6) word_le_nat_alt)
  moreover have "(base + 16) AND 7 = 0" using b(1) by (intro aligned_add) simp_all
  ultimately have sk: "skeleton m []" using b u by (simp add: skeleton_def start end_ m(1))
  moreover have "bins_hold m {}"
    by (rule empty_bins_hold [OF m(2,3,10)]) (use b(4,5) u bin_arrays_apart in \<open>simp_all add: m(1)\<close>)
  ultimately show "space_ok m []" by (simp add: space_ok_def dv_set_def m(4,5))
qed

lemma create_ok:
  assumes ok: "new_base_ok base cap" and mp: "init_mparams env mp0 = Some mp" "unat (mp_page_size mp) < 2 ^ 40"
  shows "\<exists>m. create_mspace_with_base env base cap locked mp0 h = Some (Some m, mp) \<and> space_ok m []
    \<and> space_start m = unat base + 936 \<and> space_end m = unat base + unat cap - 72"
proof -
  have b: "unat base + unat cap < 2 ^ 64" "1008 < unat cap" "unat cap < 2 ^ 40" using ok by (simp_all add: new_base_ok_def)
  obtain m where m: "init_user_mstate mp base cap h = m" "maddr m = base + 16" "smallmap m = 0" "treemap m = 0" "dv m = 0"
    "dvsize m = 0" "least_addr m = base" "m_top m = base + 936" "topsize m = cap - 1008"
    "seg_base m (main_seg m) = base" "seg_size m (main_seg m) = cap" "seg_next m (main_seg m) = 0"
    "hp m (m_top m + 8) = (cap - 1008) OR 1" "\<forall>i<32. hp m (treebin_at m i) = 0"
    using new_space [OF ok] by blast
  define m' where "m' = set_lock locked (set_seg_sflags (main_seg m) EXTERN_BIT m)"
  have sel: "maddr m' = base + 16" "smallmap m' = 0" "treemap m' = 0" "dv m' = 0" "dvsize m' = 0" "least_addr m' = base"
    "m_top m' = base + 936" "topsize m' = cap - 1008"
    "hp m' = (hp m)(base + 920 := put_low32 (hp m (base + 920)) 8)"
    by (simp_all add: m'_def set_lock_def set_seg_sflags_def m EXTERN_BIT_def add.assoc)
  have u: "unat (base + x) = unat base + unat x" if "unat x \<le> 1008" for x
    using b that by (intro unat_add64) linarith
  have out: "hp m' (base + y) = hp m (base + y)" if "unat y \<le> 1008" "unat y \<noteq> 920" for y
  proof -
    have "base + y \<noteq> base + 920" by (rule unat_neq) (use u [of y] u [of 920] that in simp)
    then show ?thesis by (simp add: sel)
  qed
  have "hp m' (treebin_at m' i) = 0" if "i < 32" for i
  proof -
    have "unat (of_nat i :: u64) = i" using that by (simp add: unat_of_nat)
    then have y: "unat (616 + 8 * of_nat i :: u64) = 616 + 8 * i" using that by (simp add: unat_word_ariths)
    have t: "treebin_at m' i = base + (616 + 8 * of_nat i)" "treebin_at m i = base + (616 + 8 * of_nat i)"
      by (simp_all add: treebin_at_def sel(1) m(2) add.assoc)
    have "hp m (treebin_at m i) = 0" using m(14) that by blast
    then show ?thesis using out [of "616 + 8 * of_nat i"] y that t by simp
  qed
  moreover have "is_extern_segment m' (main_seg m')"
    by (simp add: is_extern_segment_def sel(1,9) add.assoc EXTERN_BIT_def)
  moreover have "hp m' (m_top m' + 8) = (cap - 1008) OR 1" using out [of 944] m(8,13) by (simp add: sel(7) add.assoc)
  moreover have "seg_base m' (main_seg m') = base" "seg_size m' (main_seg m') = cap" "seg_next m' (main_seg m') = 0"
    using out [of 896] out [of 904] out [of 912] m(2,10-12) by (simp_all add: sel(1) add.assoc)
  ultimately have e: "space_ok m' []" "space_start m' = unat base + 936" "space_end m' = unat base + unat cap - 72"
    using empty_space [OF ok, of m'] sel(1-8) by blast+
  let ?k = "936 + TOP_FOOT_SIZE + mp_page_size mp"
  have k: "unat ?k = 1008 + unat (mp_page_size mp)"
    using mp(2) by (simp add: TOP_FOOT_SIZE_eq unat_add64)
  then have "unat (- ?k) = 2 ^ 64 - unat ?k" using unat_sub_if' [of 0 ?k] by simp
  then have "cap < - ?k" using b(3) k mp(2) by (simp add: word_less_nat_alt)
  moreover have "936 + TOP_FOOT_SIZE < cap" using b(2) by (simp add: word_less_nat_alt TOP_FOOT_SIZE_eq)
  ultimately have "create_mspace_with_base env base cap locked mp0 h = Some (Some m', mp)"
    using mp(1) m(1) by (simp add: m'_def create_mspace_with_base_def init_state_consts Let_def)
  then show ?thesis using e by blast
qed

end
