(* ===== verification/Pt_Client.thy ===== *)
theory Pt_Client
  imports Pt_Space
begin

text \<open>
  What a program sees of an allocator: blocks of memory. The contract (\<open>block_store\<close>) says what one
  call does; from it follows, once, what any sequence of calls and writes does. The malloc spaces of
  \<open>ptmalloc3-malloc.c\<close> fulfil it.
\<close>

section \<open>Programs\<close>

text \<open>
  A program asks for \<open>n\<close> bytes, gives back the \<open>k\<close>-th of its blocks, or writes \<open>v\<close> into the \<open>j\<close>-th slot of
  its \<open>k\<close>-th block, if it has so many. It remembers its blocks, by address and the size it asked for, and
  what it has written into them.
\<close>

datatype request = Get u64 | Give nat | Put nat nat u64

type_synonym blocks = "(u64 \<times> u64) list"
type_synonym written = "u64 \<Rightarrow> u64 option"
type_synonym 'm program = "'m \<times> blocks \<times> written"

definition forget :: "u64 \<times> u64 \<Rightarrow> written \<Rightarrow> written" where
  "forget b kn = (\<lambda>x. if x - fst b < snd b then None else kn x)"

fun serve :: "(u64 \<Rightarrow> 'm \<Rightarrow> (u64 \<times> 'm) option) \<Rightarrow> (u64 \<Rightarrow> 'm \<Rightarrow> 'm option) \<Rightarrow> (u64 \<Rightarrow> u64 \<Rightarrow> 'm \<Rightarrow> 'm)
    \<Rightarrow> request \<Rightarrow> 'm program \<Rightarrow> 'm program option" where
  "serve get give put (Get n) (m, live, kn) = do {
     (mem, m) \<leftarrow> get n m;
     Some (m, if mem = 0 then live else (mem, n) # live, kn) }"
| "serve get give put (Give k) (m, live, kn) =
     (if k < length live then do {
        m \<leftarrow> give (fst (live ! k)) m;
        Some (m, take k live @ drop (Suc k) live, forget (live ! k) kn) }
      else Some (m, live, kn))"
| "serve get give put (Put k j v) (m, live, kn) =
     (if k < length live \<and> 8 * j < unat (snd (live ! k))
      then let x = fst (live ! k) + 8 * of_nat j in Some (put x v m, live, kn(x \<mapsto> v))
      else Some (m, live, kn))"

fun serve_all :: "(u64 \<Rightarrow> 'm \<Rightarrow> (u64 \<times> 'm) option) \<Rightarrow> (u64 \<Rightarrow> 'm \<Rightarrow> 'm option) \<Rightarrow> (u64 \<Rightarrow> u64 \<Rightarrow> 'm \<Rightarrow> 'm)
    \<Rightarrow> request list \<Rightarrow> 'm program \<Rightarrow> 'm program option" where
  "serve_all get give put [] st = Some st"
| "serve_all get give put (r # rs) st = do { st \<leftarrow> serve get give put r st; serve_all get give put rs st }"

text \<open>The blocks do not overlap.\<close>

definition blocks_apart :: "blocks \<Rightarrow> bool" where
  "blocks_apart live \<longleftrightarrow> (\<forall>i < length live. \<forall>j < length live. i \<noteq> j \<longrightarrow>
     (case (live ! i, live ! j) of ((a, n), (b, k)) \<Rightarrow> unat a + unat n \<le> unat b \<or> unat b + unat k \<le> unat a))"

section \<open>The contract\<close>

locale block_store =
  fixes holds :: "'m \<Rightarrow> chunks \<Rightarrow> bool"
    and place :: "'m \<Rightarrow> nat \<times> nat"
    and look :: "'m \<Rightarrow> u64 \<Rightarrow> u64"
    and get :: "u64 \<Rightarrow> 'm \<Rightarrow> (u64 \<times> 'm) option"
    and give :: "u64 \<Rightarrow> 'm \<Rightarrow> 'm option"
    and put :: "u64 \<Rightarrow> u64 \<Rightarrow> 'm \<Rightarrow> 'm"
  assumes get_ok: "holds m U \<Longrightarrow> \<exists>mem m'. get n m = Some (mem, m') \<and> place m' = place m
      \<and> (mem = 0 \<and> m' = m \<or> mem \<noteq> 0 \<and> (\<exists>p s. mem = chunk2mem p \<and> unat n + 8 \<le> unat s \<and> (p, s) \<notin> U
          \<and> holds m' (insert (p, s) U)) \<and> (\<forall>x\<in>payloads U. look m' x = look m x))"
    and give_ok: "holds m U \<Longrightarrow> (p, s) \<in> U \<Longrightarrow> \<exists>m'. give (chunk2mem p) m = Some m' \<and> place m' = place m
      \<and> holds m' (U - {(p, s)}) \<and> (\<forall>x\<in>payloads (U - {(p, s)}). look m' x = look m x)"
    and put_ok: "holds m U \<Longrightarrow> (p, s) \<in> U \<Longrightarrow> x \<in> payload p s \<Longrightarrow>
      holds (put x v m) U \<and> place (put x v m) = place m \<and> look (put x v m) = (look m)(x := v)"
    and inside: "holds m U \<Longrightarrow> (p, s) \<in> U \<Longrightarrow> fst (place m) \<le> unat p \<and> unat p + unat s \<le> snd (place m)
      \<and> unat p + unat s < 2 ^ 64 - 72 \<and> 8 dvd unat p \<and> s AND 7 = 0"
    and apart: "holds m U \<Longrightarrow> (p, s) \<in> U \<Longrightarrow> (q, t) \<in> U \<Longrightarrow>
      (p, s) = (q, t) \<or> unat p + unat s \<le> unat q \<or> unat q + unat t \<le> unat p"
begin

text \<open>
  \<open>cs\<close> are the chunks behind the blocks; what the program has written is still there, and in slots
  of its blocks.
\<close>

definition sound :: "'m program \<Rightarrow> (u64 \<times> u64 \<times> u64) list \<Rightarrow> bool" where
  "sound st cs \<longleftrightarrow> (case st of (m, live, kn) \<Rightarrow>
     live = map (\<lambda>(p, s, n). (chunk2mem p, n)) cs \<and> holds m ((\<lambda>(p, s, n). (p, s)) ` set cs)
     \<and> distinct (map (\<lambda>(p, s, n). (p, s)) cs) \<and> (\<forall>(p, s, n)\<in>set cs. unat n + 8 \<le> unat s)
     \<and> (\<forall>x v. kn x = Some v \<longrightarrow> look m x = v \<and> (\<exists>(p, s, n)\<in>set cs. x - chunk2mem p < n \<and> x \<in> payload p s)))"

lemma slot_in_payload:
  assumes h: "holds m U" "(p, s) \<in> U" and n: "unat n + 8 \<le> unat s" "8 * j < unat n"
  shows "chunk2mem p + 8 * of_nat j \<in> payload p s" "chunk2mem p + 8 * of_nat j - chunk2mem p < n"
proof -
  note i = inside [OF h]
  have j: "8 * j < 2 ^ 64" using n(2) unat_lt64 [of n] by linarith
  have o: "unat (8 * of_nat j :: u64) = 8 * j" using j by (simp add: unat_word_ariths unat_of_nat)
  obtain k where k: "unat s = 8 * k" using i by (auto simp: and_7_eq_0_iff)
  then have le: "8 * j + 16 \<le> unat s" using n by presburger
  have c: "unat (chunk2mem p) = unat p + 16" using i le by (simp add: chunk2mem_def unat_add64)
  have "unat (chunk2mem p + 8 * of_nat j) = unat p + 16 + 8 * j"
    using i le o c by (subst unat_add64) linarith+
  then show "chunk2mem p + 8 * of_nat j \<in> payload p s" using le by (simp add: payload_def)
  show "chunk2mem p + 8 * of_nat j - chunk2mem p < n" using o n(2) by (simp add: word_less_nat_alt)
qed

lemma soundI:
  assumes "holds m U" "U = (\<lambda>(p, s, n). (p, s)) ` set cs" "live = map (\<lambda>(p, s, n). (chunk2mem p, n)) cs"
    "distinct (map (\<lambda>(p, s, n). (p, s)) cs)" "\<And>p s n. (p, s, n) \<in> set cs \<Longrightarrow> unat n + 8 \<le> unat s"
    "\<And>x v. kn x = Some v \<Longrightarrow> look m x = v \<and> (\<exists>(p, s, n)\<in>set cs. x - chunk2mem p < n \<and> x \<in> payload p s)"
  shows "sound (m, live, kn) cs"
  unfolding sound_def prod.case using assms by (intro conjI allI impI ballI) auto

lemma get_sound:
  assumes st: "sound (m, live, kn) cs"
  shows "\<exists>m' live' cs'. serve get give put (Get n) (m, live, kn) = Some (m', live', kn) \<and> sound (m', live', kn) cs'
    \<and> place m' = place m"
proof -
  let ?U = "(\<lambda>(p, s, n). (p, s)) ` set cs"
  have h: "holds m ?U" and d: "distinct (map (\<lambda>(p, s, n). (p, s)) cs)" and live: "live = map (\<lambda>(p, s, n). (chunk2mem p, n)) cs"
    and fit: "\<And>p s n. (p, s, n) \<in> set cs \<Longrightarrow> unat n + 8 \<le> unat s"
    and kn: "\<And>x v. kn x = Some v \<Longrightarrow> look m x = v \<and> (\<exists>(p, s, n)\<in>set cs. x - chunk2mem p < n \<and> x \<in> payload p s)"
    using st by (auto simp: sound_def)
  obtain mem m' where g: "get n m = Some (mem, m')" "place m' = place m"
    "mem = 0 \<and> m' = m \<or> mem \<noteq> 0 \<and> (\<exists>p s. mem = chunk2mem p \<and> unat n + 8 \<le> unat s \<and> (p, s) \<notin> ?U
       \<and> holds m' (insert (p, s) ?U)) \<and> (\<forall>x\<in>payloads ?U. look m' x = look m x)"
    using get_ok [OF h, of n] by blast
  show ?thesis
  proof (cases "mem = 0")
    case True
    then show ?thesis using g st by auto
  next
    case False
    then obtain p s where p: "mem = chunk2mem p" "unat n + 8 \<le> unat s" "(p, s) \<notin> ?U" "holds m' (insert (p, s) ?U)"
      and same: "\<And>x. x \<in> payloads ?U \<Longrightarrow> look m' x = look m x" using g(3) by blast
    have "sound (m', (mem, n) # live, kn) ((p, s, n) # cs)"
    proof (rule soundI [OF p(4)])
      fix x v assume "kn x = Some v"
      from kn [OF this] obtain q t k where q: "look m x = v" "(q, t, k) \<in> set cs" "x - chunk2mem q < k" "x \<in> payload q t" by blast
      have "x \<in> payloads ?U" using q(2,4) by (force simp: payloads_def)
      then show "look m' x = v \<and> (\<exists>(p, s, n)\<in>set ((p, s, n) # cs). x - chunk2mem p < n \<and> x \<in> payload p s)"
        using same q by auto
    qed (use p live d fit in \<open>auto simp: image_iff\<close>)
    then show ?thesis using g(1,2) False by auto
  qed
qed

lemma give_sound:
  assumes st: "sound (m, live, kn) cs" and k: "k < length live"
  shows "\<exists>m' live' kn' cs'. serve get give put (Give k) (m, live, kn) = Some (m', live', kn') \<and> sound (m', live', kn') cs'
    \<and> place m' = place m"
proof -
  let ?U = "(\<lambda>(p, s, n). (p, s)) ` set cs"
  have h: "holds m ?U" and d: "distinct (map (\<lambda>(p, s, n). (p, s)) cs)" and live: "live = map (\<lambda>(p, s, n). (chunk2mem p, n)) cs"
    and fit: "\<And>p s n. (p, s, n) \<in> set cs \<Longrightarrow> unat n + 8 \<le> unat s"
    and kn: "\<And>x v. kn x = Some v \<Longrightarrow> look m x = v \<and> (\<exists>(p, s, n)\<in>set cs. x - chunk2mem p < n \<and> x \<in> payload p s)"
    using st by (auto simp: sound_def)
  have k: "k < length cs" using k live by simp
  obtain p s n where c: "cs ! k = (p, s, n)" by (cases "cs ! k")
  define as bs where "as = take k cs" and "bs = drop (Suc k) cs"
  have cs: "cs = as @ (p, s, n) # bs" using id_take_nth_drop [OF k] c by (simp add: as_def bs_def)
  have lk: "live ! k = (chunk2mem p, n)" "take k live = map (\<lambda>(p, s, n). (chunk2mem p, n)) as"
    "drop (Suc k) live = map (\<lambda>(p, s, n). (chunk2mem p, n)) bs"
    using k c by (simp_all add: live as_def bs_def take_map drop_map)
  obtain m' where g: "give (chunk2mem p) m = Some m'" "place m' = place m" "holds m' (?U - {(p, s)})"
    "\<And>x. x \<in> payloads (?U - {(p, s)}) \<Longrightarrow> look m' x = look m x"
    using give_ok [OF h, of p s] by (auto simp: cs)
  let ?kn = "forget (chunk2mem p, n) kn"
  have U: "?U - {(p, s)} = (\<lambda>(p, s, n). (p, s)) ` set (as @ bs)"
  proof -
    have "(p, s) \<notin> (\<lambda>(p, s, n). (p, s)) ` set (as @ bs)" using d by (simp add: cs image_Un)
    moreover have "?U = insert (p, s) ((\<lambda>(p, s, n). (p, s)) ` set (as @ bs))" by (simp add: cs)
    ultimately show ?thesis by simp
  qed
  have "sound (m', map (\<lambda>(p, s, n). (chunk2mem p, n)) (as @ bs), ?kn) (as @ bs)"
  proof (rule soundI [OF g(3) U refl])
    fix x v assume "?kn x = Some v"
    then have x: "kn x = Some v" "\<not> x - chunk2mem p < n" by (auto simp: forget_def split: if_splits)
    from kn [OF x(1)] obtain q t l where q: "look m x = v" "(q, t, l) \<in> set cs" "x - chunk2mem q < l" "x \<in> payload q t" by blast
    then have q2: "(q, t, l) \<in> set (as @ bs)" using x(2) by (auto simp: cs)
    then have "x \<in> payloads (?U - {(p, s)})" using q(4) unfolding U by (force simp: payloads_def)
    then show "look m' x = v \<and> (\<exists>(p, s, n)\<in>set (as @ bs). x - chunk2mem p < n \<and> x \<in> payload p s)"
      using g(4) q q2 by auto
  qed (use d fit in \<open>auto simp: cs\<close>)
  then show ?thesis using g(1,2) k lk by (auto simp: live)
qed

lemma put_sound:
  assumes st: "sound (m, live, kn) cs" and k: "k < length live" "8 * j < unat (snd (live ! k))"
  shows "\<exists>m' kn'. serve get give put (Put k j v) (m, live, kn) = Some (m', live, kn') \<and> sound (m', live, kn') cs
    \<and> place m' = place m"
proof -
  let ?U = "(\<lambda>(p, s, n). (p, s)) ` set cs"
  have h: "holds m ?U" and d: "distinct (map (\<lambda>(p, s, n). (p, s)) cs)" and live: "live = map (\<lambda>(p, s, n). (chunk2mem p, n)) cs"
    and fit: "\<And>p s n. (p, s, n) \<in> set cs \<Longrightarrow> unat n + 8 \<le> unat s"
    and kn: "\<And>x v. kn x = Some v \<Longrightarrow> look m x = v \<and> (\<exists>(p, s, n)\<in>set cs. x - chunk2mem p < n \<and> x \<in> payload p s)"
    using st by (auto simp: sound_def)
  have l: "k < length cs" using k live by simp
  obtain p s n where c: "cs ! k = (p, s, n)" by (cases "cs ! k")
  then have m: "(p, s, n) \<in> set cs" using l nth_mem by metis
  have lk: "live ! k = (chunk2mem p, n)" using l c by (simp add: live)
  let ?x = "chunk2mem p + 8 * of_nat j"
  have U: "(p, s) \<in> ?U" using m by force
  note x = slot_in_payload [OF h U fit [OF m]]
  have j: "8 * j < unat n" using k(2) lk by simp
  note w = put_ok [OF h U x(1) [OF j], of v]
  have "sound (put ?x v m, live, kn(?x \<mapsto> v)) cs"
  proof (rule soundI [OF conjunct1 [OF w] refl live d fit])
    fix y u assume y: "(kn(?x \<mapsto> v)) y = Some u"
    show "look (put ?x v m) y = u \<and> (\<exists>(p, s, n)\<in>set cs. y - chunk2mem p < n \<and> y \<in> payload p s)"
    proof (cases "y = ?x")
      case True
      then have "look (put ?x v m) y = u" using y w by simp
      moreover have "y - chunk2mem p < n \<and> y \<in> payload p s" using x [OF j] True by simp
      ultimately show ?thesis using m by blast
    next
      case False
      then have "look (put ?x v m) y = look m y" "kn y = Some u" using y w by simp_all
      then show ?thesis using kn [of y u] by simp
    qed
  qed
  then show ?thesis using w k lk by (auto simp: Let_def)
qed

lemma serve_sound:
  assumes "sound (m, live, kn) cs"
  shows "\<exists>m' live' kn' cs'. serve get give put r (m, live, kn) = Some (m', live', kn') \<and> sound (m', live', kn') cs'
    \<and> place m' = place m"
proof (cases r)
  case (Get n)
  then show ?thesis using get_sound [OF assms] by blast
next
  case (Give k)
  then show ?thesis using give_sound [OF assms, of k] assms by (cases "k < length live") auto
next
  case (Put k j v)
  then show ?thesis using put_sound [OF assms, of k j v] assms
    by (cases "k < length live \<and> 8 * j < unat (snd (live ! k))") auto
qed

lemma serve_all_sound:
  assumes "sound (m, live, kn) cs"
  shows "\<exists>m' live' kn' cs'. serve_all get give put rs (m, live, kn) = Some (m', live', kn') \<and> sound (m', live', kn') cs'
    \<and> place m' = place m"
  using assms
proof (induction rs arbitrary: m live kn cs)
  case (Cons r rs)
  obtain m1 l1 kn1 cs1 where s: "serve get give put r (m, live, kn) = Some (m1, l1, kn1)" "sound (m1, l1, kn1) cs1"
    "place m1 = place m" using serve_sound [OF Cons.prems] by blast
  from Cons.IH [OF s(2)] show ?case using s by auto
qed auto

lemma sound_blocks:
  assumes st: "sound (m, live, kn) cs"
  shows "blocks_apart live"
    "(a, n) \<in> set live \<Longrightarrow> a AND 7 = 0 \<and> fst (place m) + 16 \<le> unat a \<and> unat a + unat n \<le> snd (place m) + 8"
proof -
  let ?U = "(\<lambda>(p, s, n). (p, s)) ` set cs"
  have h: "holds m ?U" and d: "distinct (map (\<lambda>(p, s, n). (p, s)) cs)" and live: "live = map (\<lambda>(p, s, n). (chunk2mem p, n)) cs"
    and fit: "\<And>p s n. (p, s, n) \<in> set cs \<Longrightarrow> unat n + 8 \<le> unat s"
    using st by (auto simp: sound_def)
  have block: "chunk2mem p AND 7 = 0 \<and> fst (place m) + 16 \<le> unat (chunk2mem p) \<and> unat (chunk2mem p) + unat n \<le> snd (place m) + 8
      \<and> unat (chunk2mem p) = unat p + 16" if "(p, s, n) \<in> set cs" for p s n
  proof -
    have "(p, s) \<in> ?U" using that by force
    note i = inside [OF h this] and f = fit [OF that]
    have c: "unat (chunk2mem p) = unat p + 16" using i f by (simp add: chunk2mem_def unat_add64)
    moreover have "8 dvd unat p + 16" using i by simp
    ultimately show ?thesis using i f by (simp add: and_7_eq_0_iff)
  qed
  show "a AND 7 = 0 \<and> fst (place m) + 16 \<le> unat a \<and> unat a + unat n \<le> snd (place m) + 8" if "(a, n) \<in> set live"
    using that block by (force simp: live)
  show "blocks_apart live"
    unfolding blocks_apart_def
  proof (intro allI impI)
    fix i j assume ij: "i < length live" "j < length live" "i \<noteq> j"
    then have ij': "i < length cs" "j < length cs" by (simp_all add: live)
    obtain p s n q t k where c: "cs ! i = (p, s, n)" "cs ! j = (q, t, k)" by (cases "cs ! i"; cases "cs ! j")
    have m: "(p, s, n) \<in> set cs" "(q, t, k) \<in> set cs" using c ij' nth_mem by metis+
    have "(p, s) \<noteq> (q, t)" using nth_eq_iff_index_eq [OF d, of i j] ij ij' c by simp
    moreover have "(p, s) \<in> ?U" "(q, t) \<in> ?U" using m by force+
    ultimately have "unat p + unat s \<le> unat q \<or> unat q + unat t \<le> unat p" using apart [OF h] by blast
    then show "case (live ! i, live ! j) of ((a, n), (b, k)) \<Rightarrow> unat a + unat n \<le> unat b \<or> unat b + unat k \<le> unat a"
      using fit [OF m(1)] fit [OF m(2)] block [OF m(1)] block [OF m(2)] c ij' by (auto simp: live)
  qed
qed

end

section \<open>Malloc spaces are such stores\<close>

definition space_holds :: "mstate \<Rightarrow> chunks \<Rightarrow> bool" where
  "space_holds m U \<longleftrightarrow> (\<exists>cs. space_ok m cs \<and> useds cs = U)"

definition space_place :: "mstate \<Rightarrow> nat \<times> nat" where "space_place m = (space_start m, space_end m)"

definition give_back :: "'w osys \<Rightarrow> malloc_params \<Rightarrow> 'w \<Rightarrow> u64 \<Rightarrow> mstate \<Rightarrow> mstate option" where
  "give_back os mp w mem m = map_option fst (mspace_free os mp mem m w)"

lemma laid_aligned: "laid h b a cs e \<Longrightarrow> 8 dvd a \<Longrightarrow> (p, s, k) \<in> set cs \<Longrightarrow> 8 dvd unat p"
  by (induction h b a cs e rule: laid.induct) (auto simp: and_7_eq_0_iff)

lemma space_get:
  assumes h: "space_holds m U"
  shows "\<exists>mem m'. mspace_malloc n m = Some (mem, m') \<and> space_place m' = space_place m
    \<and> (mem = 0 \<and> m' = m \<or> mem \<noteq> 0 \<and> (\<exists>p s. mem = chunk2mem p \<and> unat n + 8 \<le> unat s \<and> (p, s) \<notin> U
         \<and> space_holds m' (insert (p, s) U)) \<and> (\<forall>x\<in>payloads U. hp m' x = hp m x))"
proof -
  obtain cs where cs: "space_ok m cs" "useds cs = U" using h by (auto simp: space_holds_def)
  obtain mem m' where r: "mspace_malloc n m = Some (mem, m')"
    and c: "mem = 0 \<and> m' = m \<or> (\<exists>cs'. serves m cs (chunk_size n) mem m' cs')"
    using mspace_malloc_answers [OF cs(1), of n] by (auto simp: answers_def)
  from c show ?thesis
  proof
    assume "mem = 0 \<and> m' = m"
    then show ?thesis using r by simp
  next
    assume "\<exists>cs'. serves m cs (chunk_size n) mem m' cs'"
    then obtain cs' p s where p: "mem = chunk2mem p" "mem \<noteq> 0" "chunk_size n \<le> s" "space_ok m' cs'"
      "useds cs' = insert (p, s) U" "(p, s) \<notin> U" "kept (payloads U) m m'" unfolding serves_def cs(2) by blast
    have "(p, s, Used) \<in> set cs'" using p(5) by (force simp: useds_def)
    then have "unat s < 2 ^ 40" using skeleton_mem(5) p(4) unfolding space_ok_def by blast
    then have lt: "\<not> MAX_REQUEST \<le> n"
      using p(3) by (auto simp: chunk_size_def word_le_nat_alt unsigned_minus_1_eq_mask mask_eq_exp_minus_1)
    have "unat n + 8 \<le> unat s" using request_size(3) [OF lt] p(3) by (simp add: word_le_nat_alt)
    moreover have "space_holds m' (insert (p, s) U)" using p(4,5) by (auto simp: space_holds_def)
    moreover have "space_place m' = space_place m"
      using p(7) by (simp add: kept_def space_place_def space_start_def)
    ultimately show ?thesis using r p by (auto simp: kept_def)
  qed
qed

lemma space_give:
  assumes h: "space_holds m U" and p: "(p, s) \<in> U"
  shows "\<exists>m'. give_back os mp w (chunk2mem p) m = Some m' \<and> space_place m' = space_place m
    \<and> space_holds m' (U - {(p, s)}) \<and> (\<forall>x\<in>payloads (U - {(p, s)}). hp m' x = hp m x)"
proof -
  obtain cs where cs: "space_ok m cs" "useds cs = U" using h by (auto simp: space_holds_def)
  obtain m' where r: "mspace_free os mp (chunk2mem p) m w = Some (m', w)" "freed m (U - {(p, s)}) m'"
    using mspace_free_ok [OF cs(1), of p s os mp w] p cs(2) by auto
  then show ?thesis
    by (auto simp: give_back_def freed_def space_holds_def kept_def space_place_def space_start_def)
qed

interpretation space: block_store space_holds space_place hp mspace_malloc "give_back os mp w" upd
  for os :: "'w osys" and mp :: malloc_params and w :: 'w
proof
  fix m U p s assume h: "space_holds m U" "(p, s) \<in> U"
  then obtain cs where cs: "space_ok m cs" "useds cs = U" by (auto simp: space_holds_def)
  then have sk: "skeleton m cs" and pu: "(p, s, Used) \<in> set cs" using h(2) by (auto simp: space_ok_def useds_def)
  note g = skeleton_mem [OF sk pu] and b = skeleton_bounds [OF sk]
  have "8 dvd unat (maddr m)" using sk by (simp add: skeleton_def and_7_eq_0_iff)
  moreover have "8 dvd (920 :: nat)" by simp
  ultimately have "8 dvd space_start m" unfolding space_start_def by (rule dvd_add)
  then have "8 dvd unat p" using laid_aligned [OF b(5), of p s Used] pu by simp
  then show "fst (space_place m) \<le> unat p \<and> unat p + unat s \<le> snd (space_place m)
      \<and> unat p + unat s < 2 ^ 64 - 72 \<and> 8 dvd unat p \<and> s AND 7 = 0"
    using g by (simp add: space_place_def space_end_def)
  show "(p, s) = (q, t) \<or> unat p + unat s \<le> unat q \<or> unat q + unat t \<le> unat p" if "(q, t) \<in> U" for q t
    using skeleton_apart [OF sk pu, of q t Used] that cs(2) by (auto simp: useds_def)
  fix x v assume x: "x \<in> payload p s"
  have "space_ok (upd x v m) cs" using write_payload [OF cs(1) _ x] h(2) cs(2) by simp
  then show "space_holds (upd x v m) U \<and> space_place (upd x v m) = space_place m \<and> hp (upd x v m) = (hp m)(x := v)"
    using cs(2) by (auto simp: space_holds_def space_place_def space_start_def space_end_def)
qed (rule space_get space_give; assumption)+

section \<open>Properties\<close>

lemma nothing_used:
  assumes "space_holds m {}"
  shows "unat (m_top m) = fst (space_place m)" "unat (m_top m) + unat (topsize m) = snd (space_place m)"
proof -
  obtain cs where cs: "skeleton m cs" "useds cs = {}" using assms by (auto simp: space_holds_def space_ok_def)
  then have "cs = []" using no_used_no_chunks by blast
  then show "unat (m_top m) = fst (space_place m)" using skeleton_bounds(5) [OF cs(1)] by (simp add: space_place_def)
  show "unat (m_top m) + unat (topsize m) = snd (space_place m)" by (simp add: space_place_def space_end_def)
qed

text \<open>
  C2: A malloc space in an arena behaves as a store of blocks, for any program. Create a space in an
  aligned piece of memory, then allocate, give back and write to what was allocated in any order: no
  call aborts or makes a system call; the blocks are aligned, as large as asked for, inside the arena
  behind the allocator's record, and do not overlap; whatever was written into a block is still there,
  whatever else was allocated, given back or written since; and as soon as all blocks are given back,
  the memory is one chunk again, as in the beginning.
\<close>

theorem space_serves_programs:
  assumes "new_base_ok base cap" "init_mparams env mp0 = Some mp" "unat (mp_page_size mp) < 2 ^ 40"
  shows "\<exists>m0. create_mspace_with_base env base cap locked mp0 h = Some (Some m0, mp)
    \<and> (\<exists>m live kn. serve_all mspace_malloc (give_back os mp w) upd rs (m0, [], \<lambda>_. None) = Some (m, live, kn)
      \<and> blocks_apart live
      \<and> (\<forall>(a, n)\<in>set live. a AND 7 = 0 \<and> unat base + 952 \<le> unat a \<and> unat a + unat n + 64 \<le> unat base + unat cap)
      \<and> (\<forall>x v. kn x = Some v \<longrightarrow> hp m x = v)
      \<and> (live = [] \<longrightarrow> unat (m_top m) = unat base + 936 \<and> unat (topsize m) = unat cap - 1008))"
proof -
  obtain m0 where m0: "create_mspace_with_base env base cap locked mp0 h = Some (Some m0, mp)" "space_ok m0 []"
    "space_place m0 = (unat base + 936, unat base + unat cap - 72)"
    using create_ok [OF assms, of locked h] by (auto simp: space_place_def)
  have "space_holds m0 {}" using m0(2) by (auto simp: space_holds_def)
  then have st: "space.sound (m0, [], \<lambda>_. None) []" by (simp add: space.sound_def)
  from space.serve_all_sound [OF st, of os mp w rs] obtain m live kn cs where
    s: "serve_all mspace_malloc (give_back os mp w) upd rs (m0, [], \<lambda>_. None) = Some (m, live, kn)"
    "space.sound (m, live, kn) cs" "space_place m = space_place m0" by blast
  have cap: "1008 < unat cap" using assms(1) by (simp add: new_base_ok_def)
  have "unat (m_top m) = unat base + 936 \<and> unat (topsize m) = unat cap - 1008" if "live = []"
  proof -
    have "space_holds m {}" using s(2) that by (auto simp: space.sound_def)
    from nothing_used [OF this] show ?thesis using m0(3) s(3) cap by simp
  qed
  moreover have "\<forall>(a, n)\<in>set live. a AND 7 = 0 \<and> unat base + 952 \<le> unat a \<and> unat a + unat n + 64 \<le> unat base + unat cap"
    using space.sound_blocks(2) [OF s(2)] m0(3) s(3) cap by force
  moreover have "\<forall>x v. kn x = Some v \<longrightarrow> hp m x = v" using s(2) by (simp add: space.sound_def)
  ultimately show ?thesis using m0(1) s(1) space.sound_blocks(1) [OF s(2)] by blast
qed

text \<open>A system without memory to give, and the parameters after \<open>init_mparams\<close>, for the witnesses.\<close>

definition no_sys :: "unit osys" where
  "no_sys = \<lparr>os_mmap = (\<lambda>s w. (CMFAIL, w)), os_munmap = (\<lambda>a s w. (False, w)), os_mremap = (\<lambda>a s t b w. (CMFAIL, w))\<rparr>"

definition small_build :: build_env where
  "small_build = \<lparr>pgasus_mmap_threshold = 33554432, getpagesize = 4096\<rparr>"

definition small_params :: malloc_params where
  "small_params = \<lparr>mp_magic = 0x58585858, mp_page_size = 4096, mp_granularity = 65536, mp_mmap_threshold = 33554432,
     mp_trim_threshold = 33554432, mp_default_mflags = 5\<rparr>"

lemma small_params_ok:
  "init_mparams small_build small_params = Some small_params" "unat (mp_page_size small_params) < 2 ^ 40"
  by (simp_all add: init_mparams_def small_params_def)

lemma small_base_ok: "new_base_ok 0x100000 0x10000"
  by (simp add: new_base_ok_def)

theorem space_serves_programs_wit:
  "\<exists>m0. create_mspace_with_base small_build 0x100000 0x10000 False small_params (\<lambda>_. 0) = Some (Some m0, small_params)
    \<and> (\<exists>m live kn. serve_all mspace_malloc (give_back no_sys small_params ()) upd
         [Get 100, Put 0 3 7, Get 1000, Give 1, Get 5000] (m0, [], \<lambda>_. None) = Some (m, live, kn) \<and> blocks_apart live)"
  using space_serves_programs [OF small_base_ok small_params_ok, of False "\<lambda>_. 0" no_sys "()"
      "[Get 100, Put 0 3 7, Get 1000, Give 1, Get 5000]"]
  by blast

end
