(* ===== verification/Pt_Props.thy ===== *)
theory Pt_Props
  imports Pt_Client
begin

text \<open>
  Properties of allocation and release in a well-formed malloc space, and what the heads and feet of its
  chunks say.
\<close>

section \<open>Boundary tags\<close>

text \<open>
  C12: In a well-formed space heads and feet are the layout: from every chunk the macros read its size, its
  use, the next chunk and, in that chunk's head, its use again; from the chunk behind a free one
  \<open>prev_chunk\<close> leads back. So the memory can be walked in both directions.
\<close>

theorem boundary_tags:
  assumes "space_ok m cs" "cs @ [(m_top m, topsize m, Top)] = xs @ (p, s, k) # (q, t, l) # ys"
  shows "chunksize m p = s \<and> cinuse m p = (k = Used) \<and> next_chunk m p = q \<and> pinuse m q = (k = Used)
    \<and> next_pinuse m p = cinuse m p \<and> (k = Free \<longrightarrow> get_foot m p s = s \<and> prev_chunk m q = p \<and> l = Used)"
proof -
  have sk: "skeleton m cs" using assms(1) by (simp add: space_ok_def)
  have w: "laid (hp m) True (space_start m) (xs @ (p, s, k) # (q, t, l) # ys) (space_end m)"
    using skeleton_bounds(5) [OF sk] assms(2) by simp
  have g: "unat p + unat s \<le> space_end m" "s AND 7 = 0" "t AND 7 = 0"
    using laid_mem [OF w, of p s k] laid_mem [OF w, of q t l] by simp_all
  have h: "hp m (p + 8) = head_word s (after True xs) (k = Used)" "hp m (q + 8) = head_word t (k = Used) (l = Used)"
    "unat q = unat p + unat s" "k = Free \<Longrightarrow> hp m (p + s) = s \<and> l = Used"
    using laid_head(1,2,4) [OF w] by auto
  have "unat (p + s) = unat p + unat s" using g(1) skeleton_bounds(2) [OF sk] by (intro unat_add64) simp
  then have q: "q = p + s" using h(3) by (simp add: word_unat_eq_iff)
  have "chunksize m p = s" "next_chunk m p = q"
    using head_word_size [OF g(2)] by (simp_all add: chunksize_def next_chunk_def h(1) q)
  moreover have "cinuse m p = (k = Used)" using head_word_cinuse [OF g(2)] by (simp add: cinuse_def h(1))
  moreover have "pinuse m q = (k = Used)" using head_word_pinuse [OF g(3)] by (simp add: pinuse_def h(2))
  ultimately show ?thesis
    using h(4) q by (simp add: next_pinuse_def pinuse_def get_foot_def prev_chunk_def)
qed

section \<open>Allocation\<close>

lemma used_usable:
  assumes "space_ok m cs" "(p, s) \<in> useds cs"
  shows "mspace_usable_size (chunk2mem p) m = s - 8"
proof -
  have "(p, s, Used) \<in> set cs" using assms(2) by (simp add: useds_def)
  then obtain xs ys where cs: "cs = xs @ (p, s, Used) # ys" by (auto dest: split_list)
  have sk: "skeleton m (xs @ (p, s, Used) # ys)" using assms(1) cs by (simp add: space_ok_def)
  note u = used_chunk [OF sk]
  have "\<not> is_mmapped m p"
  proof (cases "after True xs")
    case True
    then show ?thesis using u(5) by (simp add: is_mmapped_def pinuse_def)
  next
    case False
    then obtain zs q t k where xs: "xs = zs @ [(q, t, k)]" "k \<noteq> Used" by (cases xs rule: rev_cases) auto
    moreover have "k \<noteq> Top" using sk unfolding skeleton_def xs(1) by auto
    ultimately have xs: "xs = zs @ [(q, t, Free)]" by (cases k) auto
    have sk': "skeleton m (zs @ (q, t, Free) # (p, s, Used) # ys)" using sk xs by simp
    note n = free_next [OF sk'] and f = free_size [OF sk', of q t]
    have "hp m p = t" using n(1,4) by auto
    moreover have "unat (t AND 1) = 0" using f(2) unfolding and_7_eq_0_iff unat_and_1 by simp presburger
    then have "t AND IS_MMAPPED_BIT = 0" by (simp add: word_unat_eq_iff)
    ultimately show ?thesis by (simp add: is_mmapped_def)
  qed
  then show ?thesis using u(1-4) by (simp add: mspace_usable_size_def overhead_for_def CHUNK_OVERHEAD_def ok_cinuse_def)
qed

text \<open>
  C3: \<open>mspace_malloc\<close> in a well-formed space always returns, and fails only if it must. It gives out a chunk
  that nobody has, less than 32 bytes larger than the padded request, with at least the requested
  bytes usable, and nobody else's contents change; the space stays well-formed. It returns the null
  pointer, and changes nothing, exactly when no free chunk, designated victim or top chunk is large
  enough.
\<close>

theorem malloc_serves_or_full:
  assumes "space_ok m cs"
  shows "\<exists>mem m'. mspace_malloc bytes m = Some (mem, m')
    \<and> (mem = 0 \<and> m' = m \<and> topsize m \<le> chunk_size bytes \<and> (\<forall>(p, s)\<in>frees cs. s < chunk_size bytes)
       \<or> (\<exists>p s cs'. mem = chunk2mem p \<and> mem \<noteq> 0 \<and> chunk_size bytes \<le> s \<and> unat s < unat (chunk_size bytes) + 32
            \<and> bytes \<le> mspace_usable_size mem m' \<and> (p, s) \<notin> useds cs
            \<and> space_ok m' cs' \<and> useds cs' = insert (p, s) (useds cs) \<and> kept (payloads (useds cs)) m m'))"
proof -
  obtain mem m' where r: "mspace_malloc bytes m = Some (mem, m')"
    "mem = 0 \<and> m' = m \<and> full m cs (chunk_size bytes) \<or> (\<exists>cs'. serves m cs (chunk_size bytes) mem m' cs')"
    using mspace_malloc_answers [OF assms, of bytes] unfolding answers_def by blast
  from r(2) show ?thesis
  proof
    assume "mem = 0 \<and> m' = m \<and> full m cs (chunk_size bytes)"
    then show ?thesis using r(1) by (simp add: full_def)
  next
    assume "\<exists>cs'. serves m cs (chunk_size bytes) mem m' cs'"
    then obtain cs' p s where p: "mem = chunk2mem p" "mem \<noteq> 0" "chunk_size bytes \<le> s" "unat s < unat (chunk_size bytes) + 32"
      "space_ok m' cs'" "useds cs' = insert (p, s) (useds cs)" "(p, s) \<notin> useds cs" "kept (payloads (useds cs)) m m'"
      unfolding serves_def by blast
    have pu: "(p, s) \<in> useds cs'" using p(6) by simp
    then have "(p, s, Used) \<in> set cs'" by (simp add: useds_def)
    then have s: "unat s < 2 ^ 40" "32 \<le> unat s" using skeleton_mem(4,5) p(5) unfolding space_ok_def by blast+
    then have lt: "\<not> MAX_REQUEST \<le> bytes"
      using p(3) by (auto simp: chunk_size_def word_le_nat_alt unsigned_minus_1_eq_mask mask_eq_exp_minus_1)
    have "unat bytes + 8 \<le> unat s" using request_size(3) [OF lt] p(3) by (simp add: word_le_nat_alt)
    moreover have "unat (s - 8) = unat s - 8" using s(2) by (simp add: unat_sub word_le_nat_alt)
    ultimately have "bytes \<le> mspace_usable_size mem m'"
      using used_usable [OF p(5) pu] p(1) by (simp add: word_le_nat_alt)
    then show ?thesis using r(1) p by blast
  qed
qed

section \<open>Release\<close>

text \<open>
  C4: \<open>mspace_free\<close> of any block in use succeeds, without a system call: the block's chunk is merged with the
  free chunks on both sides, the other blocks and their contents stay, and the space stays
  well-formed, so no two free chunks are neighbours. When the last block is given back all memory is
  in the top chunk.
\<close>

theorem free_gives_back:
  assumes "space_ok m cs" "(p, s) \<in> useds cs"
  shows "\<exists>m' cs'. mspace_free os mp (chunk2mem p) m w = Some (m', w) \<and> space_ok m' cs'
    \<and> useds cs' = useds cs - {(p, s)} \<and> kept (payloads (useds cs')) m m' \<and> (useds cs' = {} \<longrightarrow> cs' = [])"
proof -
  obtain m' where m': "mspace_free os mp (chunk2mem p) m w = Some (m', w)" "freed m (useds cs - {(p, s)}) m'"
    using mspace_free_ok [OF assms, of os mp w] by blast
  then obtain cs' where c: "space_ok m' cs'" "useds cs' = useds cs - {(p, s)}" by (auto simp: freed_def)
  have "useds cs' = {} \<longrightarrow> cs' = []" using no_used_no_chunks c(1) by (auto simp: space_ok_def)
  moreover have "kept (payloads (useds cs')) m m'" using m'(2) unfolding c(2) freed_def by blast
  ultimately show ?thesis using m'(1) c by blast
qed

section \<open>Best fit\<close>

text \<open>
  C11: The search of \<open>tmalloc_large\<close> ends and finds a best fit: whatever the shape of the trees, the chunk it
  returns is a smallest one of those that are large enough, in any bin, and it returns none only if
  there is none.
\<close>

theorem tree_search_best_fit:
  assumes "treebins_rep m T" "is_aligned nb" "MIN_LARGE_SIZE \<le> nb"
  shows "\<exists>v r. tmalloc_large_search nb m = Some (v, r)
    \<and> (v = 0 \<and> (\<forall>(c, t)\<in>tree_chunks T. t < nb)
       \<or> v \<noteq> 0 \<and> (\<exists>s. (v, s) \<in> tree_chunks T \<and> nb \<le> s \<and> r = s - nb \<and> (\<forall>(c, t)\<in>tree_chunks T. nb \<le> t \<longrightarrow> s \<le> t)))"
  using tmalloc_large_search_best [OF assms] unfolding best_def by blast

theorem tree_search_best_fit_wit:
  "\<exists>v r. tmalloc_large_search 512 demo_tree = Some (v, r) \<and> v = 0x20000"
proof -
  let ?T = "(\<lambda>_. TLeaf)(compute_tree_index 1024 := TNode 0x20000 1024 [] TLeaf TLeaf)"
  have i: "compute_tree_index 1024 < 32" by (rule tree_index_less)
  have c: "tree_chunks ?T = {(0x20000, 1024)}" using i by (auto simp: tree_chunks_def split: if_splits)
  show ?thesis
    using tree_search_best_fit [OF demo_tree_rep, of 512] unfolding c by (auto simp: is_aligned_def)
qed

section \<open>Witnesses\<close>

definition small_space :: mstate where
  "small_space = the (fst (the (create_mspace_with_base small_build 0x100000 0x10000 False small_params (\<lambda>_. 0))))"

lemma small_space_ok: "space_ok small_space []" "topsize small_space = 64528"
proof -
  obtain m where m: "create_mspace_with_base small_build 0x100000 0x10000 False small_params (\<lambda>_. 0) = Some (Some m, small_params)"
    "space_ok m []" "space_start m = 0x100000 + 936" "space_end m = 0x100000 + 0x10000 - 72"
    using create_ok [OF small_base_ok small_params_ok, of False "\<lambda>_. 0"] by auto
  have e: "small_space = m" by (simp add: small_space_def m(1))
  then show "space_ok small_space []" using m(2) by simp
  then have "laid (hp m) True (space_start m) [(m_top m, topsize m, Top)] (space_end m)"
    using skeleton_bounds(5) [of m "[]"] by (simp add: space_ok_def e)
  then have "unat (topsize m) = 64528" using m(3,4) by simp
  then show "topsize small_space = 64528" by (simp add: e word_unat_eq_iff)
qed

theorem malloc_serves_or_full_wit:
  "\<exists>mem m'. mspace_malloc 100 small_space = Some (mem, m') \<and> mem \<noteq> 0 \<and> 100 \<le> mspace_usable_size mem m'"
proof -
  have "chunk_size 100 = 112" by (simp add: chunk_size_def request2size_def pad_request_def)
  then show ?thesis using malloc_serves_or_full [OF small_space_ok(1), of 100] small_space_ok(2) by auto
qed

text \<open>The space after one allocation.\<close>

definition small_alloc :: "u64 \<times> mstate" where "small_alloc = the (mspace_malloc 100 small_space)"

lemma small_alloc_ok:
  "\<exists>p s cs. fst small_alloc = chunk2mem p \<and> space_ok (snd small_alloc) cs \<and> useds cs = {(p, s)}"
proof -
  have "chunk_size 100 = 112" by (simp add: chunk_size_def request2size_def pad_request_def)
  then have "\<not> full small_space [] (chunk_size 100)" using small_space_ok(2) by (simp add: full_def)
  then show ?thesis using mspace_malloc_answers [OF small_space_ok(1), of 100]
    by (auto simp: answers_def serves_def small_alloc_def) metis
qed

theorem boundary_tags_wit:
  "\<exists>p s q. fst small_alloc = chunk2mem p \<and> chunksize (snd small_alloc) p = s \<and> cinuse (snd small_alloc) p
    \<and> next_chunk (snd small_alloc) p = q \<and> pinuse (snd small_alloc) q"
proof -
  let ?m = "snd small_alloc"
  obtain p s cs where a: "fst small_alloc = chunk2mem p" "space_ok ?m cs" "useds cs = {(p, s)}"
    using small_alloc_ok by blast
  then have "(p, s, Used) \<in> set cs" by (auto simp: useds_def)
  then obtain xs ys where "cs = xs @ (p, s, Used) # ys" by (auto dest: split_list)
  then obtain q t l zs where "cs @ [(m_top ?m, topsize ?m, Top)] = xs @ (p, s, Used) # (q, t, l) # zs"
    by (cases ys) auto
  from boundary_tags [OF a(2) this] show ?thesis using a(1) by blast
qed

theorem free_gives_back_wit:
  "\<exists>m'. mspace_free no_sys small_params (fst small_alloc) (snd small_alloc) () = Some (m', ()) \<and> space_ok m' []"
proof -
  obtain p s cs where a: "fst small_alloc = chunk2mem p" "space_ok (snd small_alloc) cs" "useds cs = {(p, s)}"
    using small_alloc_ok by blast
  show ?thesis using free_gives_back [OF a(2), of p s no_sys small_params "()"] a(1,3) by auto
qed

end
