(* ===== verification/Msource_Align.thy ===== *)
theory Msource_Align
  imports Msource_Props Pt_Props
begin

text \<open>
  An aligned block of a memory source, from allocation to release: \<open>allocAligned\<close> cuts it out of a
  block of the arena in use, writes a fake footer in front of it, and \<open>free\<close> finds the way back.
\<close>

section \<open>Writing into a block of a malloc space\<close>

lemma block_written:
  assumes "space_holds m U" "(p, s) \<in> U" "\<And>x. x \<notin> payload p s \<Longrightarrow> h x = hp m x"
  shows "space_holds (m\<lparr>hp := h\<rparr>) U"
proof -
  have "finite {x. h x \<noteq> hp m x}" by simp
  then show ?thesis using assms(1,3)
  proof (induction "{x. h x \<noteq> hp m x}" arbitrary: m rule: finite_psubset_induct)
    case psubset
    show ?case
    proof (cases "h = hp m")
      case True
      then show ?thesis using psubset.prems(1) by simp
    next
      case False
      then obtain y where y: "h y \<noteq> hp m y" by auto
      then have "y \<in> payload p s" using psubset.prems(2) by auto
      then have "space_holds (upd y (h y) m) U" using space.put_ok [OF psubset.prems(1) assms(2)] by blast
      moreover have "{x. h x \<noteq> hp (upd y (h y) m) x} \<subset> {x. h x \<noteq> hp m x}" using y by auto
      moreover have "h x = hp (upd y (h y) m) x" if "x \<notin> payload p s" for x
        using psubset.prems(2) [OF that] by auto
      ultimately have "space_holds ((upd y (h y) m)\<lparr>hp := h\<rparr>) U" using psubset.hyps(2) by blast
      then show ?thesis by (simp add: upd_def)
    qed
  qed
qed

lemma payload_new:
  assumes "space_holds m V" "(p, s) \<in> V" "x \<in> payload p s"
  shows "x \<notin> payloads (V - {(p, s)})"
proof
  assume "x \<in> payloads (V - {(p, s)})"
  then obtain q t where q: "(q, t) \<in> V" "(q, t) \<noteq> (p, s)" "x \<in> payload q t" by (auto simp: payloads_def)
  then show False using space.apart [OF assms(1,2) q(1)] assms(3) by (auto simp: payload_def)
qed

lemma space_free:
  assumes "space_holds m U" "(p, s) \<in> U"
  shows "\<exists>m'. mspace_free os mp (chunk2mem p) m w = Some (m', w) \<and> space_holds m' (U - {(p, s)})
    \<and> (\<forall>x\<in>payloads (U - {(p, s)}). hp m' x = hp m x)"
proof -
  obtain cs where cs: "space_ok m cs" "useds cs = U" using assms(1) by (auto simp: space_holds_def)
  then show ?thesis using mspace_free_ok [OF cs(1), of p s os mp w] assms(2)
    by (auto simp: freed_def space_holds_def kept_def)
qed

section \<open>Blocks of the arena in use\<close>

text \<open>The malloc space of the arena in use, with the common heap.\<close>

definition active_space :: "u64 \<Rightarrow> 'w numa_state \<Rightarrow> mstate option" where
  "active_space a st = do {
     ms \<leftarrow> the_source a st;
     (case ms_arenas ms of [] \<Rightarrow> None | ar # ars \<Rightarrow> Some ((ar_msp ar)\<lparr>hp := ns_mem st\<rparr>)) }"

text \<open>The words of the \<open>sz\<close> bytes at \<open>q\<close>.\<close>

definition block_words :: "u64 \<Rightarrow> u64 \<Rightarrow> u64 set" where
  "block_words q sz = {x. unat q \<le> unat x \<and> unat x < unat q + unat sz \<and> 8 dvd unat x}"

lemma arena_alloc_block:
  assumes "the_source a st = Some ms" "ms_arenas ms = ar # ars" "ar_msource ar = a"
    and "bytes < ms_mmap_threshold ms"
    and "mspace_malloc (bytes + 16) ((ar_msp ar)\<lparr>hp := ns_mem st\<rparr>) = Some (mem, m)" "mem \<noteq> 0" "mem + 16 \<noteq> 0"
  shows "\<exists>ar1. msource_alloc env os a bytes st = Some (mem + 16,
      put_source a (ms\<lparr>ms_arenas := ar1 # ars, ms_blocks := ms_blocks ms + 1\<rparr>)
        (st\<lparr>ns_mem := (hp m)(mem := a, mem + 8 := ar_addr ar)\<rparr>))
    \<and> ar_msp ar1 = m \<and> ar_addr ar1 = ar_addr ar"
  using assms
  by (auto simp: msource_alloc_def arena_block_def active_alloc_def arena_alloc_def Let_def
      put_source_def the_source_def on_blocks_def bc_addBlock_def footer_data_def not_le)

lemma arena_free_block:
  assumes "the_source a st = Some ms" "ms_arenas ms = ar # ars" "q \<noteq> 0" "ms_blocks ms \<noteq> 1"
    and "get_footer_for_mem (ns_mem st) q = Some ch" "ft_source (ns_mem st) ch = a"
    and "ft_arena (ns_mem st) ch = ar_addr ar" "ar_addr ar \<noteq> 0"
    and "mspace_free (base_sys os) (ns_params st) ch ((ar_msp ar)\<lparr>hp := ns_mem st\<rparr>) (ns_world st) = Some (m, ns_world st)"
  shows "msource_free os q st = Some (put_source a
    (ms\<lparr>ms_arenas := ar\<lparr>ar_msp := m\<rparr> # ars, ms_blocks := ms_blocks ms - 1\<rparr>) (st\<lparr>ns_mem := hp m\<rparr>))"
  using assms
  by (simp add: msource_free_def free_impl_def arena_free_def Let_def bc_removeBlock_def isLastDeref_def)

section \<open>The round trip\<close>

text \<open>Where an aligned block lies in the chunk it was cut from.\<close>

lemma aligned_in_chunk:
  assumes p: "8 dvd unat p" "unat p + unat s < 2 ^ 64 - 72" and n: "unat sz + 2 ^ k + 40 \<le> unat s" "k < 64"
    and q: "q = (if IS_ALIGNED (p + 32) (2 ^ k) then p + 32 else ALIGN_UP (p + 48) (2 ^ k))"
  shows "2 ^ k dvd unat q" "8 dvd unat q" "unat p + 32 \<le> unat q" "unat q + unat sz < unat p + unat s + 8"
    "\<not> IS_ALIGNED (p + 32) (2 ^ k) \<Longrightarrow> unat p + 48 \<le> unat q \<and> unat q < unat p + 48 + 2 ^ k"
proof -
  have pow: "(0::nat) < 2 ^ k" by simp
  have u: "unat (p + 32) = unat p + 32" "unat (p + 48) = unat p + 48"
    using p(2) n(1) by (simp_all add: unat_add64)
  have r: "unat (p + 48) + 2 ^ k \<le> 2 ^ 64" using p(2) n(1) u by linarith
  note up = ALIGN_UP_range [OF n(2) r, unfolded u]
  have al: "IS_ALIGNED (p + 32) (2 ^ k) \<longleftrightarrow> 2 ^ k dvd unat p + 32" unfolding is_aligned_2 [OF n(2)] u ..
  show d: "2 ^ k dvd unat q" using up(3) al u by (simp add: q)
  show in1: "unat p + 32 \<le> unat q" using up(1) u by (simp add: q)
  show "\<not> IS_ALIGNED (p + 32) (2 ^ k) \<Longrightarrow> unat p + 48 \<le> unat q \<and> unat q < unat p + 48 + 2 ^ k"
    using up(1,2) by (simp add: q)
  have "unat q < unat p + 48 + 2 ^ k" using up(2) u pow by (simp add: q)
  then show "unat q + unat sz < unat p + unat s + 8" using n(1) by linarith
  have p32: "8 dvd unat p + 32" using p(1) by presburger
  show "8 dvd unat q"
  proof (cases "IS_ALIGNED (p + 32) (2 ^ k)")
    case True
    then show ?thesis using p32 u by (simp add: q)
  next
    case False
    have "\<not> k \<le> 3"
    proof
      assume "k \<le> 3"
      then have "(2::nat) ^ k dvd 2 ^ 3" by (rule le_imp_power_dvd)
      then have "2 ^ k dvd unat p + 32" using p32 dvd_trans by auto
      then show False using False al by simp
    qed
    then have "(2::nat) ^ 3 dvd 2 ^ k" by (intro le_imp_power_dvd) simp
    then show ?thesis using d dvd_trans by auto
  qed
qed

lemma block_words_inside:
  assumes "8 dvd unat p" "s AND 7 = 0" "unat p + 32 \<le> unat q" "unat q + unat sz < unat p + unat s + 8"
    "x \<in> block_words q sz"
  shows "x \<in> payload p s" "x \<noteq> p + 16" "x \<noteq> p + 24" "x \<noteq> q - 16" "x \<noteq> q - 8"
proof -
  have x: "unat q \<le> unat x" "unat x < unat q + unat sz" "8 dvd unat x" using assms(5) by (auto simp: block_words_def)
  have s: "8 dvd unat s" using assms(2) by (simp add: and_7_eq_0_iff)
  have "unat x < unat p + unat s + 8" using x(2) assms(4) by linarith
  then have "unat x \<le> unat p + unat s" using x(3) s assms(1) by presburger
  then show "x \<in> payload p s" using x(1) assms(3) by (simp add: payload_def)
  have b: "unat p + 32 \<le> unat x" using x(1) assms(3) by linarith
  have lt: "unat p + 32 < 2 ^ 64" using assms(3) unat_lt64 [of q] by linarith
  show "x \<noteq> p + 16" "x \<noteq> p + 24" using b lt by (auto simp: unat_add64)
  have "16 \<le> q" using assms(3) by (simp add: word_le_nat_alt)
  then have "unat (q - 16) = unat q - 16" "unat (q - 8) = unat q - 8" by (simp_all add: unat_sub word_le_nat_alt)
  then show "x \<noteq> q - 16" "x \<noteq> q - 8" using x(1) assms(3) by auto
qed

text \<open>The heap after the block is cut out: its footer, and the fake one if the block moved.\<close>

definition footers :: "heap \<Rightarrow> u64 \<Rightarrow> u64 \<Rightarrow> u64 \<Rightarrow> u64 \<Rightarrow> heap" where
  "footers h mem q a aa =
     (let h = h(mem := a, mem + 8 := aa) in if q = mem + 16 then h else h(q - 16 := 0, q - 8 := mem))"

lemma footers_frame:
  assumes "unat p + unat s < 2 ^ 64 - 72" "24 \<le> unat s"
    and q: "unat p + 32 \<le> unat q" "unat q \<le> unat p + unat s + 8" "x \<notin> payload p s"
  shows "footers h (p + 16) q a aa x = h x"
proof -
  have "16 \<le> q" using q(1) by (simp add: word_le_nat_alt)
  then have "unat (q - 16) = unat q - 16" "unat (q - 8) = unat q - 8" by (simp_all add: unat_sub word_le_nat_alt)
  moreover have "unat (p + 16) = unat p + 16" "unat (p + 24) = unat p + 24" using assms(1) by (simp_all add: unat_add64)
  ultimately have "p + 16 \<in> payload p s" "p + 24 \<in> payload p s" "q - 16 \<in> payload p s" "q - 8 \<in> payload p s"
    using q(1,2) assms(2) unfolding payload_def mem_Collect_eq by linarith+
  then have "x \<noteq> p + 16" "x \<noteq> p + 24" "x \<noteq> q - 16" "x \<noteq> q - 8" using q(3) by blast+
  then show ?thesis by (simp add: footers_def Let_def add.assoc)
qed

text \<open>Whatever is written into the block, the footer is found.\<close>

lemma footers_found:
  fixes p s q sz :: u64
  assumes a: "a \<noteq> 0" and p: "8 dvd unat p" "s AND 7 = 0"
    and q: "unat p + 32 \<le> unat q" "unat q + unat sz < unat p + unat s + 8" "q = p + 32 \<or> unat p + 48 \<le> unat q"
    and h: "\<And>x. x \<notin> block_words q sz \<Longrightarrow> h' x = footers h (p + 16) q a aa x"
  shows "get_footer_for_mem h' q = Some (p + 16)" "h' (p + 16) = a" "h' (p + 24) = aa"
proof -
  note out = block_words_inside [OF p q(1,2)]
  have apart: "q = p + 32 \<or> (q - 16 \<noteq> p + 16 \<and> q - 16 \<noteq> p + 24 \<and> q - 8 \<noteq> p + 16 \<and> q - 8 \<noteq> p + 24)"
  proof (cases "q = p + 32")
    case False
    then have b: "unat p + 48 \<le> unat q" using q(3) by simp
    then have "16 \<le> q" by (simp add: word_le_nat_alt)
    then have "unat (q - 16) = unat q - 16" "unat (q - 8) = unat q - 8" by (simp_all add: unat_sub word_le_nat_alt)
    moreover have "unat (p + 16) = unat p + 16" "unat (p + 24) = unat p + 24"
      using b unat_lt64 [of q] by (simp_all add: unat_add64)
    ultimately have "unat (q - 16) \<noteq> unat (p + 16)" "unat (q - 16) \<noteq> unat (p + 24)"
      "unat (q - 8) \<noteq> unat (p + 16)" "unat (q - 8) \<noteq> unat (p + 24)" using b by linarith+
    then show ?thesis by metis
  qed simp
  have "p + 16 \<notin> block_words q sz" "p + 24 \<notin> block_words q sz" using out(2,3) by blast+
  from h [OF this(1)] h [OF this(2)] show src: "h' (p + 16) = a" "h' (p + 24) = aa"
    using apart by (auto simp: footers_def Let_def)
  show "get_footer_for_mem h' q = Some (p + 16)"
  proof (cases "q = p + 32")
    case True
    then have "footer_of q = p + 16" by (simp add: footer_of_def)
    then show ?thesis using get_footer_direct [of h' q] src(1) a by simp
  next
    case False
    have "q - 16 \<notin> block_words q sz" "q - 8 \<notin> block_words q sz" using out(4,5) by blast+
    note fake = h [OF this(1)] h [OF this(2)]
    have "q - 16 \<noteq> q - 8"
    proof
      assume "q - 16 = q - 8"
      then have "q - 16 + 16 = q - 8 + 16" by (rule arg_cong)
      then show False by simp
    qed
    then have "h' (q - 16) = 0" "h' (q - 8) = p + 16"
      using False fake by (simp_all only: footers_def Let_def add.assoc fun_upd_apply) simp_all
    then show ?thesis using src(1) a by (intro get_footer_link) (simp_all add: footer_of_def)
  qed
qed

lemma put_source_mem: "(put_source a ms st)\<lparr>ns_mem := h\<rparr> = put_source a ms (st\<lparr>ns_mem := h\<rparr>)" "ns_mem (put_source a ms st) = ns_mem st"
  by (simp_all add: put_source_def)

lemma align_alloc_run:
  assumes "the_source a st = Some ms" "ms_arenas ms = ar # ars" "ar_msource ar = a" "k < 64"
    and "sz + 2 ^ k + 16 < ms_mmap_threshold ms"
    and "mspace_malloc (sz + 2 ^ k + 32) ((ar_msp ar)\<lparr>hp := ns_mem st\<rparr>) = Some (p + 16, m)" "p + 16 \<noteq> 0" "p + 32 \<noteq> 0"
    and q: "q = (if IS_ALIGNED (p + 32) (2 ^ k) then p + 32 else ALIGN_UP (p + 48) (2 ^ k))"
    and moved: "\<not> IS_ALIGNED (p + 32) (2 ^ k) \<Longrightarrow> q \<noteq> p + 32"
  shows "\<exists>ar1. msource_alloc_align env os a (2 ^ k) sz st = Some (q,
      put_source a (ms\<lparr>ms_arenas := ar1 # ars, ms_blocks := ms_blocks ms + 1\<rparr>)
        (st\<lparr>ns_mem := footers (hp m) (p + 16) q a (ar_addr ar)\<rparr>))
    \<and> ar_msp ar1 = m \<and> ar_addr ar1 = ar_addr ar"
proof -
  have r: "mspace_malloc (sz + 2 ^ k + 16 + 16) ((ar_msp ar)\<lparr>hp := ns_mem st\<rparr>) = Some (p + 16, m)"
    using assms(6) by (simp add: add.assoc)
  have "p + 16 + 16 \<noteq> 0" using assms(8) by (simp add: add.assoc)
  from arena_alloc_block [OF assms(1-3,5) r assms(7) this, of env os] obtain ar1 where
    ar1: "ar_msp ar1 = m" "ar_addr ar1 = ar_addr ar" and run: "msource_alloc env os a (sz + 2 ^ k + 16) st = Some (p + 32,
      put_source a (ms\<lparr>ms_arenas := ar1 # ars, ms_blocks := ms_blocks ms + 1\<rparr>)
        (st\<lparr>ns_mem := (hp m)(p + 16 := a, p + 24 := ar_addr ar)\<rparr>))" by (auto simp: add.assoc)
  show ?thesis
  proof (cases "IS_ALIGNED (p + 32) (2 ^ k)")
    case True
    then show ?thesis using run ar1 q by (auto simp: msource_alloc_align_def footers_def Let_def add.assoc)
  next
    case False
    have h: "ALIGN_UP (p + 48) (2 ^ k) = q" "q \<noteq> p + 32" using False q moved by (simp_all add: add.assoc)
    have f: "q - 16 + 8 = q - 8" "p + 32 - 16 = p + 16" by simp_all
    have "msource_alloc_align env os a (2 ^ k) sz st = Some (q,
      put_source a (ms\<lparr>ms_arenas := ar1 # ars, ms_blocks := ms_blocks ms + 1\<rparr>)
        (st\<lparr>ns_mem := footers (hp m) (p + 16) q a (ar_addr ar)\<rparr>))"
      using False run h(2)
      by (simp add: msource_alloc_align_def footers_def Let_def footer_of_def footer_data_def h(1) f put_source_mem add.assoc)
    then show ?thesis using ar1 by blast
  qed
qed

text \<open>
  C31: An aligned allocation from an arena and its release, for a padded size below the threshold from which
  blocks are mapped and in a source that is referred to or has other blocks, so that this release
  does not delete it. If the arena in use has room, the call returns a
  multiple of the requested power of two whose \<open>sz\<close> bytes lie inside one new chunk of that arena's
  malloc space, behind that block's own footer; nothing in anybody else's block changes, the space
  stays well-formed, and the source counts one block more. Whatever the caller writes into the bytes
  it asked for, \<open>free\<close> of the aligned pointer then finds the footer of the block through the fake
  one, returns exactly this chunk to the malloc space, leaves all other blocks and their contents as
  they were, and takes the block out of the source's count.
\<close>

theorem aligned_round_trip:
  assumes "the_source a st = Some ms" "ms_arenas ms = ar # ars" "ar_msource ar = a" "a \<noteq> 0" "ar_addr ar \<noteq> 0"
    and "ms_blocks ms \<noteq> 0" "k < 64" "unat sz + 2 ^ k + 32 < 2 ^ 64" "sz + 2 ^ k + footer_offset < ms_mmap_threshold ms"
    and "active_space a st = Some sp" "space_holds sp U"
    and "mspace_malloc (sz + 2 ^ k + footer_offset + footer_offset) sp = Some (mem, m)" "mem \<noteq> 0"
  shows "\<exists>q st1 sp1 p s. msource_alloc_align env os a (2 ^ k) sz st = Some (q, st1)
    \<and> 2 ^ k dvd unat q \<and> unat p + 32 \<le> unat q \<and> unat q + unat sz \<le> unat p + unat s + 8
    \<and> active_space a st1 = Some sp1 \<and> (p, s) \<notin> U \<and> space_holds sp1 (insert (p, s) U)
    \<and> (\<forall>x\<in>payloads U. ns_mem st1 x = ns_mem st x)
    \<and> map_option ms_blocks (the_source a st1) = Some (ms_blocks ms + 1)
    \<and> (\<forall>h. (\<forall>x. x \<notin> block_words q sz \<longrightarrow> h x = ns_mem st1 x) \<longrightarrow>
        get_footer_for_mem h q = Some (chunk2mem p) \<and> ft_source h (chunk2mem p) = a
        \<and> (\<exists>st2 sp2. msource_free os q (st1\<lparr>ns_mem := h\<rparr>) = Some st2
          \<and> active_space a st2 = Some sp2 \<and> space_holds sp2 U
          \<and> (\<forall>x\<in>payloads U. ns_mem st2 x = ns_mem st x)
          \<and> map_option ms_blocks (the_source a st2) = Some (ms_blocks ms)))"
proof -
  have sp: "sp = (ar_msp ar)\<lparr>hp := ns_mem st\<rparr>" using assms(1,2,10) by (simp add: active_space_def)
  have n: "sz + 2 ^ k + footer_offset + footer_offset = sz + 2 ^ k + 32" by (simp add: add.assoc)
  have u: "unat (sz + 2 ^ k + 32) = unat sz + 2 ^ k + 32"
    using assms(8) by (simp add: unat_add64 unat_2_pow_64 [OF assms(7)])
  obtain p s where mem: "mem = p + 16" and s': "unat (sz + 2 ^ k + 32) + 8 \<le> unat s" and fresh: "(p, s) \<notin> U"
    and new: "space_holds m (insert (p, s) U)" and same: "\<forall>x\<in>payloads U. hp m x = hp sp x"
    using space.get_ok [OF assms(11), of "sz + 2 ^ k + 32"] assms(12,13) unfolding n by (auto simp: chunk2mem_def)
  then have s: "unat sz + 2 ^ k + 40 \<le> unat s" using u by linarith
  note i = space.inside [OF new insertI1]
  have p: "8 dvd unat p" "s AND 7 = 0" "unat p + unat s < 2 ^ 64 - 72" using i by simp_all
  define q where "q = (if IS_ALIGNED (p + 32) (2 ^ k) then p + 32 else ALIGN_UP (p + 48) (2 ^ k))"
  note al = aligned_in_chunk [OF p(1,3) s assms(7) q_def]
  have nz: "p + 32 \<noteq> 0" "q \<noteq> 0" "\<not> IS_ALIGNED (p + 32) (2 ^ k) \<Longrightarrow> q \<noteq> p + 32"
    "q = p + 32 \<or> unat p + 48 \<le> unat q"
    using al(3,5) p(3) s by (auto simp: q_def word_unat_eq_iff unat_add64)
  let ?h = "footers (hp m) (p + 16) q a (ar_addr ar)"
  obtain ar1 where run: "msource_alloc_align env os a (2 ^ k) sz st = Some (q, put_source a
      (ms\<lparr>ms_arenas := ar1 # ars, ms_blocks := ms_blocks ms + 1\<rparr>) (st\<lparr>ns_mem := ?h\<rparr>))"
    and ar1: "ar_msp ar1 = m" "ar_addr ar1 = ar_addr ar"
    using align_alloc_run [OF assms(1-3,7) _ _ _ nz(1) q_def nz(3), of sz m env os] assms(9,12,13)
    unfolding n by (auto simp: sp mem)
  let ?ms1 = "ms\<lparr>ms_arenas := ar1 # ars, ms_blocks := ms_blocks ms + 1\<rparr>"
  let ?st1 = "put_source a ?ms1 (st\<lparr>ns_mem := ?h\<rparr>)"
  have frame: "?h x = hp m x" if "x \<notin> payload p s" for x
    using footers_frame [OF p(3) _ al(3) _ that] al(4) s by simp
  have minus: "insert (p, s) U - {(p, s)} = U" using fresh by simp
  have mine: "x \<notin> payload p s" if "x \<in> payloads U" for x
    using payload_new [OF new insertI1] that unfolding minus by blast
  have others: "?h x = ns_mem st x" if "x \<in> payloads U" for x
    using frame [OF mine [OF that]] same that by (simp add: sp)
  have one: "active_space a ?st1 = Some (m\<lparr>hp := ?h\<rparr>)"
    by (simp add: active_space_def the_source_def put_source_def ar1)
  have "\<exists>st2 sp2. msource_free os q (?st1\<lparr>ns_mem := h\<rparr>) = Some st2
      \<and> active_space a st2 = Some sp2 \<and> space_holds sp2 U
      \<and> (\<forall>x\<in>payloads U. ns_mem st2 x = ns_mem st x)
      \<and> map_option ms_blocks (the_source a st2) = Some (ms_blocks ms)"
    and "get_footer_for_mem h q = Some (chunk2mem p)" "ft_source h (chunk2mem p) = a"
    if h: "\<forall>x. x \<notin> block_words q sz \<longrightarrow> h x = ?h x" for h
  proof -
    note found = footers_found [OF assms(4) p(1,2) al(3,4) nz(4), of h "hp m" "ar_addr ar"]
    have f: "get_footer_for_mem h q = Some (p + 16)" "h (p + 16) = a" "h (p + 24) = ar_addr ar"
      using found h by blast+
    then show "get_footer_for_mem h q = Some (chunk2mem p)" "ft_source h (chunk2mem p) = a" by (simp_all add: chunk2mem_def)
    have out: "h x = ?h x" if "x \<notin> payload p s" for x
      using h block_words_inside(1) [OF p(1,2) al(3,4)] that by blast
    then have "space_holds (m\<lparr>hp := h\<rparr>) (insert (p, s) U)"
      using frame by (intro block_written [OF new insertI1]) simp
    from space_free [OF this insertI1, of "base_sys os" "ns_params st" "ns_world st"] obtain m2 where
      m2: "mspace_free (base_sys os) (ns_params st) (p + 16) (m\<lparr>hp := h\<rparr>) (ns_world st) = Some (m2, ns_world st)"
      "space_holds m2 U" "\<forall>x\<in>payloads U. hp m2 x = h x"
      unfolding minus by (auto simp: chunk2mem_def)
    have w: "ns_params (?st1\<lparr>ns_mem := h\<rparr>) = ns_params st" "ns_world (?st1\<lparr>ns_mem := h\<rparr>) = ns_world st"
      "ns_mem (?st1\<lparr>ns_mem := h\<rparr>) = h" "the_source a (?st1\<lparr>ns_mem := h\<rparr>) = Some ?ms1"
      by (simp_all add: put_source_def the_source_def)
    have "msource_free os q (?st1\<lparr>ns_mem := h\<rparr>) = Some (put_source a
        (?ms1\<lparr>ms_arenas := ar1\<lparr>ar_msp := m2\<rparr> # ars, ms_blocks := ms_blocks ?ms1 - 1\<rparr>) (?st1\<lparr>ns_mem := h, ns_mem := hp m2\<rparr>))"
      by (rule arena_free_block [OF w(4)]) (use f m2(1) w nz(2) assms(5,6) in \<open>simp_all add: ar1 add.assoc\<close>)
    moreover have "\<forall>x\<in>payloads U. hp m2 x = ns_mem st x" using m2(3) out mine others by auto
    ultimately show "\<exists>st2 sp2. msource_free os q (?st1\<lparr>ns_mem := h\<rparr>) = Some st2
      \<and> active_space a st2 = Some sp2 \<and> space_holds sp2 U
      \<and> (\<forall>x\<in>payloads U. ns_mem st2 x = ns_mem st x)
      \<and> map_option ms_blocks (the_source a st2) = Some (ms_blocks ms)"
      using m2(2) by (auto simp: active_space_def the_source_def put_source_def)
  qed
  moreover have "space_holds (m\<lparr>hp := ?h\<rparr>) (insert (p, s) U)" using frame by (rule block_written [OF new insertI1])
  moreover have "unat q + unat sz \<le> unat p + unat s + 8" using al(4) by simp
  moreover have "map_option ms_blocks (the_source a ?st1) = Some (ms_blocks ms + 1)"
    by (simp add: the_source_def put_source_def)
  moreover have "\<forall>x\<in>payloads U. ns_mem ?st1 x = ns_mem st x" "ns_mem ?st1 = ?h" using others by (simp_all add: put_source_def)
  ultimately show ?thesis using run al(1,3) one fresh by (intro exI [of _ q] exI [of _ ?st1] exI [of _ "m\<lparr>hp := ?h\<rparr>"] exI [of _ p] exI [of _ s]) simp
qed

text \<open>A source whose first arena is a fresh malloc space, referred to once.\<close>

definition small_arena :: arena_rec where
  "small_arena = \<lparr>ar_addr = 0xF0000, ar_msource = 0xE0000, ar_size = 0x10000, ar_alloc_end = 4096, ar_native = True,
     ar_base = 0x100000, ar_msp = small_space\<rparr>"

definition small_source :: msource_rec where
  "small_source = \<lparr>ms_description = ''small'', ms_node = 0, ms_node_home = - 1, ms_mmap_threshold = 33554432,
     ms_mem_size = 0x30000, ms_arenas = [small_arena], ms_native_arena = 0xF0000, ms_mmapped_head = 0,
     ms_blocks = push_bit 40 1\<rparr>"

definition small_numa :: "nat numa_state" where
  "small_numa = \<lparr>ns_mem = hp small_space, ns_sources = [0xE0000 \<mapsto> small_source], ns_all = [0xE0000],
     ns_params = small_params, ns_world = 0\<rparr>"

lemma small_room: "\<exists>mem m. mspace_malloc 196 small_space = Some (mem, m) \<and> mem \<noteq> 0"
proof -
  have "chunk_size 196 = 208" by (simp add: chunk_size_def request2size_def pad_request_def)
  then have "\<not> full small_space [] (chunk_size 196)" using small_space_ok(2) by (simp add: full_def)
  then show ?thesis using mspace_malloc_answers [OF small_space_ok(1), of 196] by (auto simp: answers_def dest: serves_mem)
qed

theorem aligned_round_trip_wit:
  "\<exists>q st1 st2. msource_alloc_align small_build quiet_sys 0xE0000 (2 ^ 6) 100 small_numa = Some (q, st1)
     \<and> 2 ^ 6 dvd unat q \<and> msource_free quiet_sys q st1 = Some st2
     \<and> map_option ms_blocks (the_source 0xE0000 st2) = Some (push_bit 40 1)"
proof -
  obtain mem m where r: "mspace_malloc 196 small_space = Some (mem, m)" "mem \<noteq> 0" using small_room by blast
  have u: "space_holds small_space {}" using small_space_ok(1) by (auto simp: space_holds_def)
  have src: "the_source 0xE0000 small_numa = Some small_source" "ms_arenas small_source = [small_arena]"
    "active_space 0xE0000 small_numa = Some small_space"
    by (simp_all add: active_space_def the_source_def small_numa_def small_source_def small_arena_def)
  show ?thesis
    using aligned_round_trip [OF src(1,2) _ _ _ _ _ _ _ src(3) u, where k = 6 and sz = 100 and mem = mem and m = m
        and env = small_build and os = quiet_sys] r
    by (simp add: small_source_def small_arena_def) (metis numa_state.surjective numa_state.update_convs(1))
qed

end
