(* ===== verification/Strutil.thy ===== *)
theory Strutil
  imports Main
begin

text \<open>
  The string helpers that the configuration code uses: \<open>split\<close> of \<open>src/src/base/strutil.cpp\<close>, and
  \<open>sscanf(s, "%d", &x)\<close> of the C library on the strings it is given.
\<close>

section \<open>\<open>split\<close>\<close>

text \<open>
  \<open>std::getline\<close> on a string stream: an item ends at the delimiter, which is removed, or at the
  end of the string; at the end of the stream there is no further item.
\<close>

function split :: "string \<Rightarrow> char \<Rightarrow> string list" where
  "split s delim =
     (if s = [] then []
      else takeWhile (\<lambda>c. c \<noteq> delim) s #
           (case dropWhile (\<lambda>c. c \<noteq> delim) s of [] \<Rightarrow> [] | _ # rest \<Rightarrow> split rest delim))"
  by pat_completeness auto
termination
proof (relation "measure (\<lambda>(s, delim). length s)", goal_cases)
  case 1
  then show ?case by simp
next
  case (2 s delim x rest)
  have "length (dropWhile (\<lambda>c. c \<noteq> delim) s) \<le> length s" by (rule length_dropWhile_le)
  then show ?case using 2 by simp
qed

declare split.simps [simp del]

lemma split_Nil [simp]: "split [] d = []"
  by (simp add: split.simps)

fun join :: "char \<Rightarrow> string list \<Rightarrow> string" where
  "join d [] = []"
| "join d [x] = x"
| "join d (x # y # ys) = x @ d # join d (y # ys)"

lemma split_last: "x \<noteq> [] \<Longrightarrow> d \<notin> set x \<Longrightarrow> split x d = [x]"
proof -
  assume h: "x \<noteq> []" "d \<notin> set x"
  then have "takeWhile (\<lambda>c. c \<noteq> d) x = x" "dropWhile (\<lambda>c. c \<noteq> d) x = []"
    by (simp_all add: takeWhile_eq_all_conv dropWhile_eq_Nil_conv) blast+
  then show ?thesis using h(1) by (subst split.simps) (simp only: if_False list.case)
qed

lemma split_delim: "d \<notin> set x \<Longrightarrow> split (x @ d # rest) d = x # split rest d"
proof -
  assume h: "d \<notin> set x"
  have "takeWhile (\<lambda>c. c \<noteq> d) (x @ d # rest) = x" "dropWhile (\<lambda>c. c \<noteq> d) (x @ d # rest) = d # rest"
    using h by (induction x) auto
  then show ?thesis by (subst split.simps) simp
qed

text \<open>
  \<open>split\<close> undoes joining with the delimiter: a non-empty list of items without the delimiter,
  the last of them not empty, comes back unchanged. (A trailing empty item would be lost.)
\<close>

theorem split_join:
  assumes "xs \<noteq> []" "last xs \<noteq> []" "d \<notin> \<Union>(set ` set xs)"
  shows "split (join d xs) d = xs"
  using assms by (induction d xs rule: join.induct) (simp_all add: split_last split_delim)

theorem split_join_wit: "split (join CHR '','' [''0-2'', ''5'']) CHR '','' = [''0-2'', ''5'']"
  by (rule split_join) simp_all

section \<open>Reading an integer\<close>

text \<open>
  \<open>sscanf\<close> with \<open>%d\<close>: the end of the input before any conversion (its result is \<open>EOF\<close>), a character
  that starts no number (result 0), or the number (result 1). Values beyond \<open>int\<close>, which the C
  standard leaves undefined, are not cut.
\<close>

datatype scanned = ScanEof | ScanFail | ScanInt int

definition is_space :: "char \<Rightarrow> bool" where
  "is_space c \<longleftrightarrow> c = CHR '' '' \<or> (9 \<le> (of_char c :: nat) \<and> (of_char c :: nat) \<le> 13)"

definition is_digit :: "char \<Rightarrow> bool" where
  "is_digit c \<longleftrightarrow> 48 \<le> (of_char c :: nat) \<and> (of_char c :: nat) \<le> 57"

definition digits_value :: "string \<Rightarrow> int" where
  "digits_value ds = foldl (\<lambda>n c. 10 * n + (of_char c - 48)) 0 ds"

definition scan_unsigned :: "(int \<Rightarrow> int) \<Rightarrow> string \<Rightarrow> scanned" where
  "scan_unsigned f s =
     (let ds = takeWhile is_digit s in if ds = [] then ScanFail else ScanInt (f (digits_value ds)))"

definition sscanf_d :: "string \<Rightarrow> scanned" where
  "sscanf_d s =
     (case dropWhile is_space s of
        [] \<Rightarrow> ScanEof
      | c # cs \<Rightarrow> if c = CHR ''-'' then scan_unsigned uminus cs
                  else if c = CHR ''+'' then scan_unsigned id cs
                  else scan_unsigned id (c # cs))"

end
