(* ===== verification/Topology.thy ===== *)
theory Topology
  imports Strutil "HOL-Library.Product_Lexorder" "HOL-Library.Word"
begin

text \<open>
  \<open>src/src/base/topology.cpp\<close> and \<open>src/src/base/node.cpp\<close>: the NUMA nodes and CPUs of the machine as
  \<open>hwloc\<close> reports them, the choice of nodes by the environment variable \<open>NUMA_NODES\<close>, and the
  two numberings of nodes (physical ids of the system, consecutive logical ids of the
  application). What \<open>hwloc\<close>, \<open>libnuma\<close>, \<open>/sys\<close> and the environment say is an argument.
  An out-of-bounds access, a failed assertion and an exception are \<open>None\<close>.
\<close>

section \<open>The machine\<close>

record numa_node =
  tn_id :: int
  tn_cpus :: "nat list"
  tn_distances :: "int list"
  tn_neighbors :: "(int \<times> int) list"
  tn_memory :: nat

text \<open>
  A NUMA node object of \<open>hwloc\<close>: \<open>os_index\<close>, the CPUs of its \<open>cpuset\<close>, the result of
  \<open>numa_node_size64\<close>, and the numbers in the node's file of distances (no file: \<open>None\<close>).
\<close>

record hwloc_node =
  hw_index :: int
  hw_cpus :: "nat list"
  hw_size :: int
  hw_distances :: "int list option"

record topology =
  tp_nodes :: "numa_node option list"
  tp_node_ids :: "int list"
  tp_cpu_to_node :: "int option list"
  tp_cpu_count :: nat

definition insert_into_vector :: "'a option list \<Rightarrow> nat \<Rightarrow> 'a \<Rightarrow> 'a option list" where
  "insert_into_vector vec idx v =
     (vec @ replicate (max (idx + 1) (length vec) - length vec) None)[idx := Some v]"

text \<open>The loop of the constructor over the NUMA nodes.\<close>

fun read_nodes :: "hwloc_node list \<Rightarrow> topology \<Rightarrow> topology option" where
  "read_nodes [] t = Some t"
| "read_nodes (nd # nds) t =
     (if hw_index nd < 0 then None
      else
        let node_id = hw_index nd;
            node_obj = \<lparr>tn_id = node_id, tn_cpus = hw_cpus nd, tn_distances = [], tn_neighbors = [],
                        tn_memory = nat (if 0 \<le> hw_size nd then hw_size nd else 0)\<rparr>
        in read_nodes nds
             \<lparr>tp_nodes = insert_into_vector (tp_nodes t) (nat node_id) node_obj,
              tp_node_ids = tp_node_ids t @ [node_id],
              tp_cpu_to_node = fold (\<lambda>c v. insert_into_vector v c node_id) (hw_cpus nd) (tp_cpu_to_node t),
              tp_cpu_count = tp_cpu_count t + length (hw_cpus nd)\<rparr>)"

text \<open>
  The distances of one node: the file gives one number per node id, in ascending order; where it
  ends early the other entries stay \<open>-1\<close>. The neighbours are sorted by distance and id.
\<close>

definition read_distances :: "int list \<Rightarrow> nat \<Rightarrow> int list option \<Rightarrow> numa_node \<Rightarrow> numa_node" where
  "read_distances ids sz file nd =
     (let ds = replicate sz (- 1)
      in case file of
           None \<Rightarrow> nd\<lparr>tn_distances := ds\<rparr>
         | Some values \<Rightarrow>
             let read = zip ids values
             in nd\<lparr>tn_distances := fold (\<lambda>(cousin, d) ds. ds[nat cousin := d]) read ds,
                   tn_neighbors := sort (map (\<lambda>(cousin, d). (d, cousin)) read)\<rparr>)"

definition file_of :: "hwloc_node list \<Rightarrow> int \<Rightarrow> int list option" where
  "file_of hw i = (case List.find (\<lambda>n. hw_index n = i) hw of None \<Rightarrow> None | Some n \<Rightarrow> hw_distances n)"

definition make_topology :: "hwloc_node list \<Rightarrow> topology option" where
  "make_topology hw =
     (case read_nodes hw \<lparr>tp_nodes = [], tp_node_ids = [], tp_cpu_to_node = [], tp_cpu_count = 0\<rparr> of
        None \<Rightarrow> None
      | Some t \<Rightarrow>
          let ids = sort (tp_node_ids t); sz = length (tp_nodes t)
          in Some (t\<lparr>tp_node_ids := ids,
                     tp_nodes := map (map_option (\<lambda>nd. read_distances ids sz (file_of hw (tn_id nd)) nd))
                                   (tp_nodes t)\<rparr>))"

definition get_node :: "topology \<Rightarrow> int \<Rightarrow> numa_node option option" where
  "get_node t n = (if 0 \<le> n \<and> nat n < length (tp_nodes t) then Some (tp_nodes t ! nat n) else None)"

definition node_of_cpuid :: "topology \<Rightarrow> int \<Rightarrow> int option option" where
  "node_of_cpuid t cpu =
     (if 0 \<le> cpu \<and> nat cpu < length (tp_cpu_to_node t) then Some (tp_cpu_to_node t ! nat cpu) else None)"

definition cores_on_node :: "topology \<Rightarrow> int \<Rightarrow> int option" where
  "cores_on_node t n =
     map_option (\<lambda>nd. case nd of None \<Rightarrow> - 1 | Some nd \<Rightarrow> int (length (tn_cpus nd))) (get_node t n)"

definition core_of :: "numa_node \<Rightarrow> nat \<Rightarrow> int" where
  "core_of nd cpuid =
     (let k = length (takeWhile (\<lambda>c. c \<noteq> cpuid) (tn_cpus nd))
      in if k = length (tn_cpus nd) then - 1 else int k)"

section \<open>\<open>NUMA_NODES\<close>\<close>

text \<open>A part of the list, \<open>"3"\<close> or \<open>"1-4"\<close>: its ids, or \<open>None\<close> for a malformed one.\<close>

definition part_ids :: "string \<Rightarrow> int list option" where
  "part_ids part =
     (let nums = split part CHR ''-''
      in if nums = [] then None
         else case sscanf_d (nums ! 0) of
                ScanFail \<Rightarrow> None
              | r \<Rightarrow>
                  let a = (case r of ScanInt n \<Rightarrow> n | _ \<Rightarrow> - 1)
                  in if length nums = 2 then
                       (case sscanf_d (nums ! 1) of
                          ScanFail \<Rightarrow> None
                        | ScanEof \<Rightarrow> Some [a .. - 1]
                        | ScanInt b \<Rightarrow> Some [a .. b])
                     else Some [a .. a])"

fun parts_ids :: "string list \<Rightarrow> int list option" where
  "parts_ids [] = Some []"
| "parts_ids (p # ps) =
     (case part_ids p of
        None \<Rightarrow> None
      | Some xs \<Rightarrow> (case parts_ids ps of None \<Rightarrow> None | Some ys \<Rightarrow> Some (xs @ ys)))"

definition get_sorted_elements_from_string :: "string \<Rightarrow> int list" where
  "get_sorted_elements_from_string s =
     (case parts_ids (split s CHR '','') of None \<Rightarrow> [] | Some xs \<Rightarrow> sort xs)"

section \<open>The mapping of physical to logical ids\<close>

fun use_all_nodes :: "int list \<Rightarrow> int \<Rightarrow> int list \<Rightarrow> int list" where
  "use_all_nodes [] k result = result"
| "use_all_nodes (i # is) k result = use_all_nodes is (k + 1) (result[nat i := k])"

text \<open>
  The loop over the requested ids: \<open>Some (Some r)\<close> is a configuration that is fine, \<open>Some None\<close> one
  that is not, \<open>None\<close> an access outside the vector.
\<close>

fun use_requested :: "int list \<Rightarrow> int \<Rightarrow> int list \<Rightarrow> int list option option" where
  "use_requested [] k result = Some (Some result)"
| "use_requested (n # ns) k result =
     (if n < 0 \<or> length result \<le> nat n then None
      else if result ! nat n = - 2 then Some None
      else if 0 \<le> result ! nat n then use_requested ns k result
      else use_requested ns (k + 1) (result[nat n := k]))"

definition getPhysicalToLogicalMapping :: "int list \<Rightarrow> string option \<Rightarrow> int list option" where
  "getPhysicalToLogicalMapping ids env =
     (if ids = [] then Some []
      else
        let maxPhysId = last ids;
            empty = replicate (nat (maxPhysId + 1)) (- 2);
            all = use_all_nodes ids 0 empty
        in case env of
             None \<Rightarrow> Some all
           | Some s \<Rightarrow>
               let requested = get_sorted_elements_from_string s
               in if requested = [] \<or> maxPhysId < last requested then Some all
                  else (case use_requested requested 0 (fold (\<lambda>i r. r[nat i := - 1]) ids empty) of
                          None \<Rightarrow> None
                        | Some None \<Rightarrow> Some all
                        | Some (Some result) \<Rightarrow> Some result))"

section \<open>Nodes\<close>

text \<open>\<open>Node\<close> holds two \<open>int16_t\<close>.\<close>

definition to_int16 :: "int \<Rightarrow> int" where "to_int16 x = sint (of_int x :: 16 word)"

record node =
  nd_logical :: int
  nd_physical :: int

definition no_node :: node where "no_node = \<lparr>nd_logical = - 1, nd_physical = - 1\<rparr>"

definition node_valid :: "node \<Rightarrow> bool" where
  "node_valid n \<longleftrightarrow> 0 \<le> nd_logical n \<and> 0 \<le> nd_physical n"

definition node_less :: "node \<Rightarrow> node \<Rightarrow> bool" where
  "node_less a b \<longleftrightarrow> nd_physical a < nd_physical b"

definition logicalNodes :: "int list \<Rightarrow> node list option" where
  "logicalNodes mapping =
     (let result = map (\<lambda>i. \<lparr>nd_logical = to_int16 (mapping ! i), nd_physical = to_int16 (int i)\<rparr>)
                     (filter (\<lambda>i. 0 \<le> mapping ! i) [0..<length mapping])
      in if sorted (map nd_logical result) then Some result else None)"

definition physicalToLogicalId :: "int list \<Rightarrow> int \<Rightarrow> int" where
  "physicalToLogicalId mapping i =
     (if i < 0 \<or> length mapping \<le> nat i then - 1 else mapping ! nat i)"

definition node_curr :: "topology \<Rightarrow> int list \<Rightarrow> int \<Rightarrow> node option" where
  "node_curr t mapping cpu =
     (case node_of_cpuid t cpu of
        Some (Some physId) \<Rightarrow>
          if 0 \<le> physId \<and> nat physId < length mapping then
            let r = \<lparr>nd_logical = to_int16 (mapping ! nat physId), nd_physical = to_int16 physId\<rparr>
            in if 0 \<le> nd_logical r then Some r else None
          else None
      | _ \<Rightarrow> None)"

definition node_forCpuid :: "topology \<Rightarrow> int list \<Rightarrow> int \<Rightarrow> node option" where
  "node_forCpuid t mapping cpu =
     (case node_of_cpuid t cpu of
        Some (Some physId) \<Rightarrow>
          if nat physId < length mapping then
            Some \<lparr>nd_logical = to_int16 (mapping ! nat physId), nd_physical = to_int16 physId\<rparr>
          else None
      | _ \<Rightarrow> None)"

definition cpuCount :: "topology \<Rightarrow> node \<Rightarrow> nat option" where
  "cpuCount t n =
     (case get_node t (nd_physical n) of Some (Some nd) \<Rightarrow> Some (length (tn_cpus nd)) | _ \<Rightarrow> None)"

definition indexOfCpuid :: "topology \<Rightarrow> node \<Rightarrow> nat \<Rightarrow> int option" where
  "indexOfCpuid t n cpu =
     (case get_node t (nd_physical n) of Some (Some nd) \<Rightarrow> Some (core_of nd cpu) | _ \<Rightarrow> None)"

text \<open>\<open>NUMA_THREADS\<close>, read with \<open>%zu\<close>, bounds the threads of every node; 0 is no bound.\<close>

fun thread_counts :: "topology \<Rightarrow> nat \<Rightarrow> node list \<Rightarrow> nat list option" where
  "thread_counts t env [] = Some []"
| "thread_counts t env (n # ns) =
     (case cpuCount t n of
        None \<Rightarrow> None
      | Some hwThreads \<Rightarrow>
          map_option ((#) (if env = 0 then hwThreads else min env hwThreads)) (thread_counts t env ns))"

definition threadCount :: "topology \<Rightarrow> nat \<Rightarrow> node list \<Rightarrow> node \<Rightarrow> nat option" where
  "threadCount t env nodes n =
     (if \<not> node_valid n then Some 0
      else case thread_counts t env nodes of
             None \<Rightarrow> None
           | Some tcs \<Rightarrow> if nat (nd_logical n) < length tcs then Some (tcs ! nat (nd_logical n)) else None)"

text \<open>
  \<open>logicalNodesWithCPUs\<close>, and the loop of \<open>nearestNeighbors\<close>: at most \<open>maxCount\<close> neighbours, those
  not configured left out, and those without CPUs on demand.
\<close>

fun nodes_with_cpus :: "topology \<Rightarrow> node list \<Rightarrow> node list option" where
  "nodes_with_cpus t [] = Some []"
| "nodes_with_cpus t (n # ns) =
     (case cpuCount t n of
        None \<Rightarrow> None
      | Some k \<Rightarrow> map_option (\<lambda>r. if 0 < k then n # r else r) (nodes_with_cpus t ns))"

fun neighbor_loop ::
  "topology \<Rightarrow> int list \<Rightarrow> node list \<Rightarrow> nat \<Rightarrow> bool \<Rightarrow> (int \<times> int) list \<Rightarrow> node list \<Rightarrow> node list option" where
  "neighbor_loop t mapping nodes maxCount cpusOnly [] acc = Some acc"
| "neighbor_loop t mapping nodes maxCount cpusOnly ((d, i) # rest) acc =
     (if length acc = maxCount then Some acc
      else if \<not> nat i < length mapping then None
      else
        let l = mapping ! nat i
        in if l < 0 then neighbor_loop t mapping nodes maxCount cpusOnly rest acc
           else if \<not> nat l < length nodes then None
           else
             let nb = nodes ! nat l
             in if cpusOnly then
                  (case cpuCount t nb of
                     None \<Rightarrow> None
                   | Some k \<Rightarrow> neighbor_loop t mapping nodes maxCount cpusOnly rest
                                 (if k = 0 then acc else acc @ [nb]))
                else neighbor_loop t mapping nodes maxCount cpusOnly rest (acc @ [nb]))"

definition nearestNeighbors ::
  "topology \<Rightarrow> int list \<Rightarrow> node list \<Rightarrow> node \<Rightarrow> nat \<Rightarrow> bool \<Rightarrow> node list option" where
  "nearestNeighbors t mapping nodes n maxCount cpusOnly =
     (if \<not> node_valid n then None
      else case get_node t (nd_physical n) of
             Some (Some phys) \<Rightarrow> neighbor_loop t mapping nodes maxCount cpusOnly (tn_neighbors phys) []
           | _ \<Rightarrow> None)"

section \<open>Consecutive logical ids\<close>

text \<open>
  \<open>consecutive m k b\<close>: the non-negative entries of \<open>m\<close> are 0 to \<open>k - 1\<close>, in this order, and there
  is none from index \<open>b\<close> on.
\<close>

definition consecutive :: "int list \<Rightarrow> nat \<Rightarrow> nat \<Rightarrow> bool" where
  "consecutive m k b \<longleftrightarrow> filter (\<lambda>x. 0 \<le> x) m = map int [0..<k]
     \<and> (\<forall>j. b \<le> j \<and> j < length m \<longrightarrow> m ! j < 0)"

lemma consecutive_assign:
  assumes "consecutive m k b" "b \<le> i" "i < length m"
  shows "consecutive (m[i := int k]) (Suc k) (Suc i)"
proof -
  have neg: "m ! j < 0" if "b \<le> j" "j < length m" for j using assms(1) that by (simp add: consecutive_def)
  have split: "m = take i m @ m ! i # drop (Suc i) m" using assms(3) by (rule id_take_nth_drop)
  have "\<forall>x\<in>set (drop (Suc i) m). x < 0"
    using neg assms(2) by (auto simp: in_set_conv_nth)
  then have d: "filter (\<lambda>x. 0 \<le> x) (drop (Suc i) m) = []" by (auto simp: filter_empty_conv)
  have "filter (\<lambda>x. 0 \<le> x) m = filter (\<lambda>x. 0 \<le> x) (take i m)"
    using neg [of i] assms(2,3) d by (subst split) simp
  then have t: "filter (\<lambda>x. 0 \<le> x) (take i m) = map int [0..<k]" using assms(1) by (simp add: consecutive_def)
  have "m[i := int k] = take i m @ int k # drop (Suc i) m" using assms(3) by (rule upd_conv_take_nth_drop)
  then have "filter (\<lambda>x. 0 \<le> x) (m[i := int k]) = map int [0..<Suc k]" using t d by simp
  moreover have "\<forall>j. Suc i \<le> j \<and> j < length (m[i := int k]) \<longrightarrow> m[i := int k] ! j < 0"
    using neg assms(2) by auto
  ultimately show ?thesis by (simp add: consecutive_def)
qed

lemma consecutive_start: "consecutive (replicate n x) 0 0" if "x < 0"
  using that by (simp add: consecutive_def)

lemma use_all_nodes_consecutive:
  assumes "sorted_wrt (<) ids" "consecutive m k b" "\<forall>i\<in>set ids. int b \<le> i \<and> nat i < length m"
  shows "\<exists>b'. consecutive (use_all_nodes ids (int k) m) (k + length ids) b'
    \<and> length (use_all_nodes ids (int k) m) = length m"
  using assms
proof (induction ids arbitrary: m k b)
  case Nil
  then show ?case by auto
next
  case (Cons i ids)
  have i: "b \<le> nat i" "nat i < length m" "0 \<le> i" using Cons.prems(3) by auto
  have "\<exists>b'. consecutive (use_all_nodes ids (int (Suc k)) (m[nat i := int k])) (Suc k + length ids) b'
    \<and> length (use_all_nodes ids (int (Suc k)) (m[nat i := int k])) = length (m[nat i := int k])"
    by (rule Cons.IH [OF _ consecutive_assign [OF Cons.prems(2) i(1,2)]])
      (use Cons.prems(1,3) i(3) in auto)
  then show ?case by (simp add: add.commute)
qed

lemma use_requested_consecutive:
  assumes "sorted ns" "consecutive m k b" "b = 0 \<or> 0 \<le> m ! (b - 1)" "b \<le> length m"
    and "\<forall>n\<in>set ns. int b - 1 \<le> n \<and> 0 \<le> n \<and> nat n < length m"
  shows "use_requested ns (int k) m = Some None
    \<or> (\<exists>r k' b'. use_requested ns (int k) m = Some (Some r) \<and> consecutive r k' b' \<and> length r = length m)"
  using assms
proof (induction ns arbitrary: m k b)
  case Nil
  then show ?case by auto
next
  case (Cons n ns)
  have n: "0 \<le> n" "nat n < length m" "int b - 1 \<le> n" using Cons.prems(5) by auto
  consider "m ! nat n = - 2" | "0 \<le> m ! nat n" | "m ! nat n \<noteq> - 2" "m ! nat n < 0" by linarith
  then show ?case
  proof cases
    case 1
    then show ?thesis using n by simp
  next
    case 2
    have "use_requested ns (int k) m = Some None
      \<or> (\<exists>r k' b'. use_requested ns (int k) m = Some (Some r) \<and> consecutive r k' b' \<and> length r = length m)"
      by (rule Cons.IH [OF _ Cons.prems(2,3,4)]) (use Cons.prems(1,5) in auto)
    then show ?thesis using 2 n by simp
  next
    case 3
    have "b \<le> nat n"
    proof (rule ccontr)
      assume "\<not> b \<le> nat n"
      then have "nat n = b - 1" "b \<noteq> 0" using n by linarith+
      then show False using 3(2) Cons.prems(3) by simp
    qed
    note c = consecutive_assign [OF Cons.prems(2) this n(2)]
    have "use_requested ns (int (Suc k)) (m[nat n := int k]) = Some None
      \<or> (\<exists>r k' b'. use_requested ns (int (Suc k)) (m[nat n := int k]) = Some (Some r) \<and> consecutive r k' b'
          \<and> length r = length (m[nat n := int k]))"
      by (rule Cons.IH [OF _ c]) (use Cons.prems(1,5) n in auto)
    then show ?thesis using 3 n by (simp add: add.commute)
  qed
qed

lemma length_fold_upd: "length (fold (\<lambda>i r. r[nat i := - 1]) ids m) = length (m :: int list)"
  by (induction ids arbitrary: m) simp_all

lemma fold_upd_neg:
  "(\<And>j. j < length m \<Longrightarrow> m ! j < 0) \<Longrightarrow> j < length m \<Longrightarrow> fold (\<lambda>i r. r[nat i := - 1]) ids m ! j < (0::int)"
proof (induction ids arbitrary: m)
  case Nil
  then show ?case by simp
next
  case (Cons i ids)
  have "fold (\<lambda>i r. r[nat i := - 1]) ids (m[nat i := - 1]) ! j < 0"
    by (rule Cons.IH; cases "nat i < length m") (simp_all add: nth_list_update Cons.prems)
  then show ?case by simp
qed

lemma consecutive_all_neg: "(\<And>j. j < length m \<Longrightarrow> m ! j < 0) \<Longrightarrow> consecutive m 0 0"
  by (simp add: consecutive_def filter_empty_conv all_set_conv_all_nth not_le)

definition node_ids_ok :: "int list \<Rightarrow> bool" where
  "node_ids_ok ids \<longleftrightarrow> ids \<noteq> [] \<and> sorted_wrt (<) ids \<and> (\<forall>i\<in>set ids. 0 \<le> i)"

lemma node_ids_last: "node_ids_ok ids \<Longrightarrow> i \<in> set ids \<Longrightarrow> 0 \<le> i \<and> i \<le> last ids"
proof -
  assume h: "node_ids_ok ids" "i \<in> set ids"
  then have "i \<in> set (butlast ids @ [last ids])" by (simp add: node_ids_ok_def)
  moreover have "sorted_wrt (<) (butlast ids @ [last ids])" using h by (simp add: node_ids_ok_def)
  ultimately have "i \<le> last ids" unfolding sorted_wrt_append by auto
  then show ?thesis using h by (simp add: node_ids_ok_def)
qed

lemma mapping_all:
  assumes "node_ids_ok ids"
  shows "\<exists>b'. consecutive (use_all_nodes ids 0 (replicate (nat (last ids + 1)) (- 2))) (length ids) b'
    \<and> length (use_all_nodes ids 0 (replicate (nat (last ids + 1)) (- 2))) = nat (last ids + 1)"
proof -
  have c: "consecutive (replicate (nat (last ids + 1)) (- 2)) 0 0" by (rule consecutive_start) simp
  have "\<forall>i\<in>set ids. int 0 \<le> i \<and> nat i < length (replicate (nat (last ids + 1)) (- 2::int))"
    using node_ids_last [OF assms] by (force simp: nat_less_eq_zless)
  from use_all_nodes_consecutive [OF _ c this] show ?thesis using assms by (simp add: node_ids_ok_def)
qed

definition requested_ids :: "string option \<Rightarrow> int list" where
  "requested_ids env = (case env of None \<Rightarrow> [] | Some s \<Rightarrow> get_sorted_elements_from_string s)"

lemma sorted_requested: "sorted (get_sorted_elements_from_string s)"
  by (simp add: get_sorted_elements_from_string_def split: option.splits)

lemma mapping_consecutive:
  assumes ids: "node_ids_ok ids" and env: "\<forall>n\<in>set (requested_ids env). 0 \<le> n"
  shows "\<exists>m k b. getPhysicalToLogicalMapping ids env = Some m \<and> consecutive m k b \<and> length m = nat (last ids + 1)"
proof -
  let ?empty = "replicate (nat (last ids + 1)) (- 2::int)"
  let ?all = "use_all_nodes ids 0 ?empty"
  let ?neg = "fold (\<lambda>i r. r[nat i := - 1]) ids ?empty"
  have ne: "ids \<noteq> []" using ids by (simp add: node_ids_ok_def)
  obtain b where all: "consecutive ?all (length ids) b" "length ?all = nat (last ids + 1)"
    using mapping_all [OF ids] by blast
  show ?thesis
  proof (cases env)
    case None
    then show ?thesis using all ne by (auto simp: getPhysicalToLogicalMapping_def)
  next
    case (Some s)
    let ?req = "get_sorted_elements_from_string s"
    show ?thesis
    proof (cases "?req = [] \<or> last ids < last ?req")
      case True
      then show ?thesis using all ne Some by (auto simp: getPhysicalToLogicalMapping_def)
    next
      case False
      have "n \<le> last ids" if "n \<in> set ?req" for n
      proof -
        have "n \<in> set (butlast ?req @ [last ?req])" "sorted (butlast ?req @ [last ?req])"
          using that False sorted_requested [of s] by simp_all
        then have "n \<le> last ?req" unfolding sorted_append by auto
        then show ?thesis using False by simp
      qed
      then have rng: "\<forall>n\<in>set ?req. int 0 - 1 \<le> n \<and> 0 \<le> n \<and> nat n < length ?neg"
        using env Some by (force simp: requested_ids_def length_fold_upd nat_less_eq_zless)
      have "consecutive ?neg 0 0"
        by (intro consecutive_all_neg fold_upd_neg) (simp_all add: length_fold_upd)
      from use_requested_consecutive [OF sorted_requested this _ _ rng]
      consider "use_requested ?req 0 ?neg = Some None"
        | r k' b' where "use_requested ?req 0 ?neg = Some (Some r)" "consecutive r k' b'" "length r = length ?neg"
        by auto
      then show ?thesis
      proof cases
        case 1
        then show ?thesis using all ne Some False by (auto simp: getPhysicalToLogicalMapping_def Let_def)
      next
        case 2
        then show ?thesis using ne Some False by (auto simp: getPhysicalToLogicalMapping_def Let_def length_fold_upd)
      qed
    qed
  qed
qed

section \<open>The logical nodes\<close>

definition used_nodes :: "int list \<Rightarrow> nat list" where
  "used_nodes m = filter (\<lambda>i. 0 \<le> m ! i) [0..<length m]"

lemma map_used_nodes: "map ((!) m) (used_nodes m) = filter (\<lambda>x. 0 \<le> x) m"
proof -
  have "filter (\<lambda>x. 0 \<le> x) (map ((!) m) [0..<length m]) = map ((!) m) (filter ((\<lambda>x. 0 \<le> x) \<circ> (!) m) [0..<length m])"
    by (rule filter_map)
  then show ?thesis by (simp add: used_nodes_def map_nth o_def)
qed

lemma to_int16_id: "0 \<le> x \<Longrightarrow> x < 2 ^ 15 \<Longrightarrow> to_int16 x = x"
  by (simp add: to_int16_def sint_sbintrunc' signed_take_bit_int_eq_self)

lemma logicalNodes_consecutive:
  assumes "consecutive m k b" "length m \<le> 2 ^ 15"
  shows "\<exists>ns. logicalNodes m = Some ns \<and> length ns = k
    \<and> (\<forall>j<k. nd_logical (ns ! j) = int j \<and> physicalToLogicalId m (nd_physical (ns ! j)) = int j)"
proof -
  let ?u = "used_nodes m"
  have mu: "map ((!) m) ?u = map int [0..<k]" using assms(1) by (simp add: map_used_nodes consecutive_def)
  then have len: "length ?u = k" by (metis length_map length_upt diff_zero)
  have k: "k \<le> length m"
  proof -
    have "length ?u \<le> length [0..<length m]" unfolding used_nodes_def by (rule length_filter_le)
    then show ?thesis using len by simp
  qed
  have u: "?u ! j < length m" "m ! (?u ! j) = int j" if "j < k" for j
  proof -
    have "?u ! j \<in> set ?u" using that len by simp
    then show "?u ! j < length m" by (simp add: used_nodes_def)
    show "m ! (?u ! j) = int j" using that len arg_cong [OF mu, of "\<lambda>xs. xs ! j"] by simp
  qed
  let ?ns = "map (\<lambda>i. \<lparr>nd_logical = to_int16 (m ! i), nd_physical = to_int16 (int i)\<rparr>) ?u"
  have node: "nd_logical (?ns ! j) = int j" "nd_physical (?ns ! j) = int (?u ! j)" if "j < k" for j
  proof -
    have "int j < 2 ^ 15" "int (?u ! j) < 2 ^ 15" using that k u(1) [OF that] assms(2) by simp_all
    then show "nd_logical (?ns ! j) = int j" "nd_physical (?ns ! j) = int (?u ! j)"
      using that len u(2) [OF that] to_int16_id [of "int j"] to_int16_id [of "int (?u ! j)"] by simp_all
  qed
  have "map nd_logical ?ns = map int [0..<k]"
    by (rule nth_equalityI) (use node len in \<open>simp_all del: map_map\<close>)
  then have "sorted (map nd_logical ?ns)" by (simp only: sorted_map) (simp add: sorted_wrt_upt)
  then have "logicalNodes m = Some ?ns" by (simp only: logicalNodes_def used_nodes_def Let_def if_True)
  moreover have "physicalToLogicalId m (nd_physical (?ns ! j)) = int j" if "j < k" for j
    using node(2) [OF that] u [OF that] by (simp add: physicalToLogicalId_def)
  moreover have "length ?ns = k" using len by simp
  ultimately show ?thesis using node(1) by blast
qed


lemma demo_requested: "requested_ids (Some ''3,0-1'') = [0, 1, 3]"
  by code_simp


text \<open>
  A request that starts with a minus sign is not rejected: \<open>split\<close> makes the part before the
  sign an empty string, \<open>sscanf\<close> reports the end of the input, which is not 0, and the range
  starts at the initial value \<open>-1\<close>. Whatever the nodes of the machine are, \<open>NUMA_NODES=-k\<close>
  makes the mapping code write outside its vector.
\<close>

theorem negative_request_out_of_bounds:
  assumes "node_ids_ok ids" "1 \<le> last ids"
  shows "getPhysicalToLogicalMapping ids (Some ''-1'') = None"
proof -
  have "get_sorted_elements_from_string ''-1'' = [- 1, 0, 1]" by code_simp
  moreover have "ids \<noteq> []" using assms(1) by (simp add: node_ids_ok_def)
  ultimately show ?thesis using assms(2) by (simp add: getPhysicalToLogicalMapping_def Let_def)
qed

theorem negative_request_out_of_bounds_wit: "getPhysicalToLogicalMapping [0, 1] (Some ''-1'') = None"
  by (rule negative_request_out_of_bounds) (simp_all add: node_ids_ok_def)

section \<open>A small machine\<close>

definition demo_hw :: "hwloc_node list" where
  "demo_hw = [\<lparr>hw_index = 0, hw_cpus = [0, 1], hw_size = 100, hw_distances = Some [10, 21, 20]\<rparr>,
              \<lparr>hw_index = 1, hw_cpus = [2], hw_size = 100, hw_distances = Some [21, 10, 30]\<rparr>,
              \<lparr>hw_index = 2, hw_cpus = [], hw_size = 50, hw_distances = Some [20, 30, 10]\<rparr>]"

definition demo_topology :: topology where "demo_topology = the (make_topology demo_hw)"

definition demo_nodes :: "node list" where
  "demo_nodes = [\<lparr>nd_logical = 0, nd_physical = 0\<rparr>, \<lparr>nd_logical = 1, nd_physical = 1\<rparr>, \<lparr>nd_logical = 2, nd_physical = 2\<rparr>]"

lemma demo_topology_nodes: "map (map_option tn_neighbors) (tp_nodes demo_topology)
    = [Some [(10, 0), (20, 2), (21, 1)], Some [(10, 1), (21, 0), (30, 2)], Some [(10, 2), (20, 0), (30, 1)]]"
  by code_simp

lemma demo_cpu_counts: "map (cpuCount demo_topology) demo_nodes = [Some 2, Some 1, Some 0]"
  by code_simp

end
