(* ===== verification/Neighbors.thy ===== *)
theory Neighbors
  imports Topology
begin

text \<open>
  \<open>Node::nearestNeighbors\<close> from the files of distances to the list it returns: the constructor of the
  topology, the mapping of \<open>NUMA_NODES\<close> and the list of logical nodes fit together, and the nodes
  come in the order of the distances that the files give.
\<close>

section \<open>The nodes of the topology\<close>

definition vec_at :: "'a option list \<Rightarrow> nat \<Rightarrow> 'a option" where
  "vec_at v i = (if i < length v then v ! i else None)"

lemma vec_at_insert: "vec_at (insert_into_vector v i x) j = (if j = i then Some x else vec_at v j)"
  by (auto simp: vec_at_def insert_into_vector_def nth_append nth_list_update)

definition fresh_node :: "hwloc_node \<Rightarrow> numa_node" where
  "fresh_node nd = \<lparr>tn_id = hw_index nd, tn_cpus = hw_cpus nd, tn_distances = [], tn_neighbors = [],
     tn_memory = nat (if 0 \<le> hw_size nd then hw_size nd else 0)\<rparr>"

lemma read_nodes_spec:
  assumes "\<And>nd. nd \<in> set nds \<Longrightarrow> 0 \<le> hw_index nd" "distinct (map hw_index nds)"
  shows "\<exists>t'. read_nodes nds t = Some t' \<and> tp_node_ids t' = tp_node_ids t @ map hw_index nds
    \<and> (\<forall>nd\<in>set nds. vec_at (tp_nodes t') (nat (hw_index nd)) = Some (fresh_node nd))
    \<and> (\<forall>i. i \<notin> nat ` hw_index ` set nds \<longrightarrow> vec_at (tp_nodes t') i = vec_at (tp_nodes t) i)"
  using assms
proof (induction nds arbitrary: t)
  case (Cons nd nds)
  define t1 where "t1 = \<lparr>tp_nodes = insert_into_vector (tp_nodes t) (nat (hw_index nd)) (fresh_node nd),
    tp_node_ids = tp_node_ids t @ [hw_index nd],
    tp_cpu_to_node = fold (\<lambda>c v. insert_into_vector v c (hw_index nd)) (hw_cpus nd) (tp_cpu_to_node t),
    tp_cpu_count = tp_cpu_count t + length (hw_cpus nd)\<rparr>"
  have run: "read_nodes (nd # nds) t = read_nodes nds t1"
    using Cons.prems(1) [of nd] by (simp add: t1_def fresh_node_def Let_def)
  obtain t' where t': "read_nodes nds t1 = Some t'" "tp_node_ids t' = tp_node_ids t1 @ map hw_index nds"
    "\<forall>nd\<in>set nds. vec_at (tp_nodes t') (nat (hw_index nd)) = Some (fresh_node nd)"
    "\<forall>i. i \<notin> nat ` hw_index ` set nds \<longrightarrow> vec_at (tp_nodes t') i = vec_at (tp_nodes t1) i"
    using Cons.IH [of t1] Cons.prems by auto
  have new: "nat (hw_index nd) \<notin> nat ` hw_index ` set nds"
  proof
    assume "nat (hw_index nd) \<in> nat ` hw_index ` set nds"
    then obtain e where "e \<in> set nds" "nat (hw_index nd) = nat (hw_index e)" by auto
    moreover from this have "0 \<le> hw_index e" "0 \<le> hw_index nd" using Cons.prems(1) by auto
    ultimately show False using Cons.prems(2) by (auto simp: eq_nat_nat_iff)
  qed
  have "vec_at (tp_nodes t') (nat (hw_index nd)) = Some (fresh_node nd)"
    using t'(4) new by (simp add: t1_def vec_at_insert)
  moreover have "vec_at (tp_nodes t') i = vec_at (tp_nodes t) i" if "i \<notin> nat ` hw_index ` set (nd # nds)" for i
    using t'(4) that by (simp add: t1_def vec_at_insert)
  ultimately show ?case using run t'(1-3) by (simp add: t1_def)
qed simp

definition hw_ok :: "hwloc_node list \<Rightarrow> bool" where
  "hw_ok hw \<longleftrightarrow> hw \<noteq> [] \<and> distinct (map hw_index hw) \<and> (\<forall>nd\<in>set hw. 0 \<le> hw_index nd \<and> hw_index nd < 2 ^ 15)"

definition hw_ids :: "hwloc_node list \<Rightarrow> int list" where
  "hw_ids hw = sort (map hw_index hw)"

lemma hw_ids_ok:
  assumes "hw_ok hw"
  shows "node_ids_ok (hw_ids hw)" "last (hw_ids hw) < 2 ^ 15" "set (hw_ids hw) = hw_index ` set hw" "distinct (hw_ids hw)"
proof -
  show d: "distinct (hw_ids hw)" and s: "set (hw_ids hw) = hw_index ` set hw" using assms by (simp_all add: hw_ids_def hw_ok_def)
  have ne: "hw_ids hw \<noteq> []" using s assms by (auto simp: hw_ok_def)
  have "sorted_wrt (<) (hw_ids hw)" using d by (simp add: strict_sorted_iff hw_ids_def)
  then show "node_ids_ok (hw_ids hw)" using ne s assms by (auto simp: node_ids_ok_def hw_ok_def)
  have "last (hw_ids hw) \<in> set (hw_ids hw)" using ne by simp
  then show "last (hw_ids hw) < 2 ^ 15" using s assms by (auto simp: hw_ok_def)
qed

text \<open>What the file of node \<open>i\<close> gives for the distance to node \<open>j\<close>: one number per id, in ascending order.\<close>

definition file_distance :: "hwloc_node list \<Rightarrow> int \<Rightarrow> int \<Rightarrow> int option" where
  "file_distance hw i j = (case file_of hw i of None \<Rightarrow> None | Some vs \<Rightarrow> map_of (zip (hw_ids hw) vs) j)"

lemma make_topology_spec:
  assumes "hw_ok hw"
  shows "\<exists>t. make_topology hw = Some t \<and> tp_node_ids t = hw_ids hw
    \<and> (\<forall>nd\<in>set hw. get_node t (hw_index nd)
         = Some (Some (read_distances (hw_ids hw) (length (tp_nodes t)) (file_of hw (hw_index nd)) (fresh_node nd))))"
proof -
  let ?t0 = "\<lparr>tp_nodes = [], tp_node_ids = [], tp_cpu_to_node = [], tp_cpu_count = 0\<rparr>"
  obtain t' where t': "read_nodes hw ?t0 = Some t'" "tp_node_ids t' = map hw_index hw"
    "\<forall>nd\<in>set hw. vec_at (tp_nodes t') (nat (hw_index nd)) = Some (fresh_node nd)"
    using read_nodes_spec [of hw ?t0] assms by (auto simp: hw_ok_def)
  define f where "f = (\<lambda>nd. read_distances (hw_ids hw) (length (tp_nodes t')) (file_of hw (tn_id nd)) nd)"
  define t where "t = t'\<lparr>tp_node_ids := hw_ids hw, tp_nodes := map (map_option f) (tp_nodes t')\<rparr>"
  have "make_topology hw = Some t" using t'(1,2) by (simp add: make_topology_def hw_ids_def t_def f_def Let_def)
  moreover have "get_node t (hw_index nd) = Some (Some (f (fresh_node nd)))" if "nd \<in> set hw" for nd
  proof -
    have "nat (hw_index nd) < length (tp_nodes t')" "tp_nodes t' ! nat (hw_index nd) = Some (fresh_node nd)"
      using t'(3) that by (auto simp: vec_at_def split: if_splits)
    then show ?thesis using that assms by (simp add: get_node_def t_def hw_ok_def)
  qed
  moreover have "f (fresh_node nd) = read_distances (hw_ids hw) (length (tp_nodes t)) (file_of hw (hw_index nd)) (fresh_node nd)" for nd
    by (simp add: f_def t_def fresh_node_def)
  ultimately show ?thesis by (auto simp: t_def)
qed

lemma read_distances_fields:
  "tn_cpus (read_distances ids sz file nd) = tn_cpus nd"
  "tn_neighbors (read_distances ids sz file nd)
     = (case file of None \<Rightarrow> tn_neighbors nd | Some vs \<Rightarrow> sort (map (\<lambda>(c, d). (d, c)) (zip ids vs)))"
  by (auto simp: read_distances_def Let_def split: option.splits)

text \<open>The list of neighbours of a node: strictly sorted, and it says what the file says.\<close>

lemma neighbors_spec:
  assumes "hw_ok hw" "make_topology hw = Some t" "nd \<in> set hw"
  shows "\<exists>phys. get_node t (hw_index nd) = Some (Some phys) \<and> tn_cpus phys = hw_cpus nd
    \<and> sorted_wrt (<) (tn_neighbors phys)
    \<and> (\<forall>d j. (d, j) \<in> set (tn_neighbors phys) \<longleftrightarrow> file_distance hw (hw_index nd) j = Some d)"
proof -
  let ?phys = "read_distances (hw_ids hw) (length (tp_nodes t)) (file_of hw (hw_index nd)) (fresh_node nd)"
  have "get_node t (hw_index nd) = Some (Some ?phys)" using make_topology_spec [OF assms(1)] assms(2,3) by auto
  moreover have "tn_cpus ?phys = hw_cpus nd" by (simp add: read_distances_fields fresh_node_def)
  moreover have "sorted_wrt (<) (tn_neighbors ?phys) \<and> (\<forall>d j. (d, j) \<in> set (tn_neighbors ?phys) \<longleftrightarrow> file_distance hw (hw_index nd) j = Some d)"
  proof (cases "file_of hw (hw_index nd)")
    case None
    then show ?thesis by (simp add: read_distances_fields fresh_node_def file_distance_def)
  next
    case (Some vs)
    let ?zip = "zip (hw_ids hw) vs"
    have keys: "distinct (map fst ?zip)" using hw_ids_ok(4) [OF assms(1)] by (simp add: map_fst_zip_take)
    have "inj_on (\<lambda>(c, d). (d, c)) (set ?zip)" by (auto simp: inj_on_def)
    moreover have "distinct ?zip" using hw_ids_ok(4) [OF assms(1)] by (simp add: distinct_zipI1)
    ultimately have "distinct (map (\<lambda>(c, d). (d, c)) ?zip)" by (simp add: distinct_map)
    then have "sorted_wrt (<) (tn_neighbors ?phys)" using Some by (simp add: read_distances_fields strict_sorted_iff)
    moreover have "(d, j) \<in> set (tn_neighbors ?phys) \<longleftrightarrow> (j, d) \<in> set ?zip" for d j using Some
      by (force simp: read_distances_fields)
    moreover have "(j, d) \<in> set ?zip \<longleftrightarrow> file_distance hw (hw_index nd) j = Some d" for d j
      using Some map_of_eq_Some_iff [OF keys] by (simp add: file_distance_def)
    ultimately show ?thesis by simp
  qed
  ultimately show ?thesis by blast
qed

section \<open>The mapping and the logical nodes\<close>

lemma use_all_nodes_other: "i \<notin> nat ` set ids \<Longrightarrow> use_all_nodes ids k m ! i = m ! i"
  by (induction ids arbitrary: k m) (auto simp: nth_list_update)

lemma fold_upd_other: "i \<notin> nat ` set ids \<Longrightarrow> fold (\<lambda>j r. r[nat j := - 1]) ids m ! i = (m :: int list) ! i"
  by (induction ids arbitrary: m) (auto simp: nth_list_update)

lemma use_requested_other: "use_requested ns k m = Some (Some r) \<Longrightarrow> m ! i = - 2 \<Longrightarrow> r ! i = - 2"
proof (induction ns arbitrary: k m)
  case (Cons n ns)
  then show ?case by (auto split: if_splits simp: nth_list_update dest!: Cons.IH)
qed simp

text \<open>Only nodes of the machine are mapped.\<close>

lemma mapped_ids:
  assumes "node_ids_ok ids" "getPhysicalToLogicalMapping ids env = Some m" "i < length m" "length m = nat (last ids + 1)" "0 \<le> m ! i"
  shows "int i \<in> set ids"
proof (rule ccontr)
  assume no: "int i \<notin> set ids"
  let ?empty = "replicate (nat (last ids + 1)) (- 2::int)"
  have out: "i \<notin> nat ` set ids" using no assms(1) by (auto simp: node_ids_ok_def)
  have e: "?empty ! i = - 2" using assms(3,4) by simp
  have all: "use_all_nodes ids 0 ?empty ! i = - 2" using use_all_nodes_other [OF out] e by simp
  have neg: "fold (\<lambda>j r. r[nat j := - 1]) ids ?empty ! i = - 2" using fold_upd_other [OF out] e by simp
  have "m ! i = - 2" using assms(1,2) all use_requested_other [OF _ neg]
    by (auto simp: getPhysicalToLogicalMapping_def node_ids_ok_def Let_def split: option.splits if_splits)
  then show False using assms(5) by simp
qed

text \<open>The node at position \<open>m ! i\<close> of the list of logical nodes is the one with the physical id \<open>i\<close>.\<close>

lemma logicalNodes_at:
  assumes "consecutive m k b" "length m \<le> 2 ^ 15" "logicalNodes m = Some ns"
  shows "i < length m \<Longrightarrow> 0 \<le> m ! i \<Longrightarrow> nat (m ! i) < length ns \<and> nd_physical (ns ! nat (m ! i)) = int i"
    and "nb \<in> set ns \<Longrightarrow> 0 \<le> nd_physical nb \<and> nat (nd_physical nb) < length m \<and> 0 \<le> m ! nat (nd_physical nb)
      \<and> ns ! nat (m ! nat (nd_physical nb)) = nb \<and> nd_logical nb = m ! nat (nd_physical nb)"
proof -
  let ?u = "used_nodes m"
  have mu: "map ((!) m) ?u = map int [0..<k]" using assms(1) by (simp add: map_used_nodes consecutive_def)
  then have len: "length ?u = k" by (metis length_map length_upt diff_zero)
  have ns: "ns = map (\<lambda>i. \<lparr>nd_logical = to_int16 (m ! i), nd_physical = to_int16 (int i)\<rparr>) ?u"
    using assms(3) by (simp add: logicalNodes_def used_nodes_def Let_def split: if_splits)
  have at: "m ! (?u ! j) = int j" if "j < k" for j using that len arg_cong [OF mu, of "\<lambda>xs. xs ! j"] by simp
  have u: "?u ! j < length m" if "j < k" for j using that len nth_mem [of j ?u] by (auto simp: used_nodes_def)
  have "length ?u \<le> length [0..<length m]" unfolding used_nodes_def by (rule length_filter_le)
  then have k: "k \<le> length m" using len by simp
  have node: "nd_logical (ns ! j) = int j" "nd_physical (ns ! j) = int (?u ! j)" if "j < k" for j
    using that len at [OF that] u [OF that] k assms(2) to_int16_id [of "int j"] to_int16_id [of "int (?u ! j)"]
    by (simp_all add: ns)
  have lns: "length ns = k" using len ns by simp
  show "nat (m ! i) < length ns \<and> nd_physical (ns ! nat (m ! i)) = int i" if "i < length m" "0 \<le> m ! i"
  proof -
    have "i \<in> set ?u" using that by (simp add: used_nodes_def)
    then obtain j where "j < k" "?u ! j = i" using len by (auto simp: in_set_conv_nth)
    then show ?thesis using at node(2) lns by auto
  qed
  show "0 \<le> nd_physical nb \<and> nat (nd_physical nb) < length m \<and> 0 \<le> m ! nat (nd_physical nb)
      \<and> ns ! nat (m ! nat (nd_physical nb)) = nb \<and> nd_logical nb = m ! nat (nd_physical nb)" if nb: "nb \<in> set ns"
  proof -
    obtain j where "j < k" "ns ! j = nb" using nb lns by (auto simp: in_set_conv_nth)
    then show ?thesis using node at u by auto
  qed
qed

section \<open>The loop\<close>

definition usable :: "topology \<Rightarrow> int list \<Rightarrow> node list \<Rightarrow> bool \<Rightarrow> int \<times> int \<Rightarrow> bool" where
  "usable t mapping nodes cpusOnly = (\<lambda>(d, i).
     0 \<le> mapping ! nat i \<and> (cpusOnly \<longrightarrow> cpuCount t (nodes ! nat (mapping ! nat i)) \<noteq> Some 0))"

lemma neighbor_loop_eq:
  assumes "\<forall>(d, i)\<in>set nbs. nat i < length mapping \<and> (0 \<le> mapping ! nat i \<longrightarrow>
      nat (mapping ! nat i) < length nodes \<and> cpuCount t (nodes ! nat (mapping ! nat i)) \<noteq> None)"
    and "length acc \<le> maxCount"
  shows "neighbor_loop t mapping nodes maxCount cpusOnly nbs acc
    = Some (take maxCount (acc @ map (\<lambda>(d, i). nodes ! nat (mapping ! nat i))
                                   (filter (usable t mapping nodes cpusOnly) nbs)))"
  using assms
proof (induction nbs arbitrary: acc)
  case (Cons x nbs)
  obtain d i where x: "x = (d, i)" by (cases x)
  have IH: "neighbor_loop t mapping nodes maxCount cpusOnly nbs acc'
    = Some (take maxCount (acc' @ map (\<lambda>(d, i). nodes ! nat (mapping ! nat i))
                                   (filter (usable t mapping nodes cpusOnly) nbs)))"
    if "length acc' \<le> maxCount" for acc' using Cons.IH Cons.prems(1) that by simp
  have i: "nat i < length mapping" "0 \<le> mapping ! nat i \<Longrightarrow> nat (mapping ! nat i) < length nodes"
    "0 \<le> mapping ! nat i \<Longrightarrow> cpuCount t (nodes ! nat (mapping ! nat i)) \<noteq> None" using Cons.prems(1) x by auto
  show ?case
  proof (cases "length acc = maxCount \<or> mapping ! nat i < 0")
    case True
    then show ?thesis using x i(1) IH [OF Cons.prems(2)] by (auto simp: usable_def)
  next
    case False
    then have room: "length acc \<le> maxCount" "length (acc @ [nodes ! nat (mapping ! nat i)]) \<le> maxCount"
      using Cons.prems(2) by simp_all
    obtain c where "cpuCount t (nodes ! nat (mapping ! nat i)) = Some c" using i(3) False by force
    then show ?thesis using x False i(1,2) IH [OF room(1)] IH [OF room(2)] by (auto simp: usable_def Let_def)
  qed
qed simp

section \<open>Nearest first\<close>

text \<open>The nodes asked for: used by the application, with a known distance, and with CPUs on demand.\<close>

definition wanted :: "hwloc_node list \<Rightarrow> topology \<Rightarrow> node list \<Rightarrow> node \<Rightarrow> bool \<Rightarrow> node set" where
  "wanted hw t nodes n cpusOnly = {nb \<in> set nodes. file_distance hw (nd_physical n) (nd_physical nb) \<noteq> None
     \<and> (cpusOnly \<longrightarrow> cpuCount t nb \<noteq> Some 0)}"

definition nearness :: "hwloc_node list \<Rightarrow> node \<Rightarrow> node \<Rightarrow> int \<times> int" where
  "nearness hw n nb = (the (file_distance hw (nd_physical n) (nd_physical nb)), nd_physical nb)"

lemma nearest_list:
  assumes hw: "hw_ok hw" "make_topology hw = Some t" and m: "consecutive m k b" "length m \<le> 2 ^ 15"
    and ids: "\<And>i. i < length m \<Longrightarrow> 0 \<le> m ! i \<Longrightarrow> int i \<in> hw_index ` set hw" "\<And>i. i \<in> hw_index ` set hw \<Longrightarrow> nat i < length m"
    and nodes: "logicalNodes m = Some nodes" "n \<in> set nodes"
  shows "\<exists>L. nearestNeighbors t m nodes n maxCount cpusOnly = Some (take maxCount L)
    \<and> set L = wanted hw t nodes n cpusOnly \<and> sorted_wrt (\<lambda>a b. nearness hw n a < nearness hw n b) L"
proof -
  note at = logicalNodes_at [OF m nodes(1)]
  have n: "0 \<le> nd_physical n" "nat (nd_physical n) < length m" "0 \<le> m ! nat (nd_physical n)"
    "nd_logical n = m ! nat (nd_physical n)" using at(2) [OF nodes(2)] by auto
  have "int (nat (nd_physical n)) \<in> hw_index ` set hw" using ids(1) [OF n(2,3)] .
  then obtain h where h: "h \<in> set hw" "hw_index h = nd_physical n" using n(1) by auto
  obtain phys where phys: "get_node t (nd_physical n) = Some (Some phys)" "sorted_wrt (<) (tn_neighbors phys)"
    "\<And>d j. (d, j) \<in> set (tn_neighbors phys) \<longleftrightarrow> file_distance hw (nd_physical n) j = Some d"
    using neighbors_spec [OF hw h(1)] unfolding h(2) by blast
  have id: "i \<in> hw_index ` set hw" if "file_distance hw j i = Some d" for i j d
    using that hw_ids_ok(3) [OF hw(1)]
    by (auto simp: file_distance_def dest!: map_of_SomeD set_zip_leftD split: option.splits)
  have known: "cpuCount t nb \<noteq> None" if "nb \<in> set nodes" for nb
  proof -
    have nb: "0 \<le> nd_physical nb" "nat (nd_physical nb) < length m" "0 \<le> m ! nat (nd_physical nb)"
      using at(2) [OF that] by auto
    then obtain e where "e \<in> set hw" "hw_index e = nd_physical nb" using ids(1) [OF nb(2,3)] by auto
    then show ?thesis using neighbors_spec [OF hw, of e] by (auto simp: cpuCount_def)
  qed
  define node_at where "node_at = (\<lambda>(d :: int, i). nodes ! nat (m ! nat i))"
  define F where "F = filter (usable t m nodes cpusOnly) (tn_neighbors phys)"
  define L where "L = map node_at F"
  have nb: "nat i < length m \<and> (0 \<le> m ! nat i \<longrightarrow> node_at (d, i) \<in> set nodes \<and> nd_physical (node_at (d, i)) = i
      \<and> nat (m ! nat i) < length nodes \<and> nearness hw n (node_at (d, i)) = (d, i))"
    if "(d, i) \<in> set (tn_neighbors phys)" for d i
  proof -
    have fd: "file_distance hw (nd_physical n) i = Some d" using that phys(3) by simp
    have i: "nat i < length m" "0 \<le> i" using ids(2) [OF id [OF fd]] id [OF fd] hw(1) by (auto simp: hw_ok_def)
    then show ?thesis using at(1) [OF i(1)] fd by (auto simp: node_at_def nearness_def)
  qed
  have run: "nearestNeighbors t m nodes n maxCount cpusOnly = Some (take maxCount L)"
  proof -
    have "\<forall>(d, i)\<in>set (tn_neighbors phys). nat i < length m \<and> (0 \<le> m ! nat i \<longrightarrow>
        nat (m ! nat i) < length nodes \<and> cpuCount t (nodes ! nat (m ! nat i)) \<noteq> None)"
      using nb known by (auto simp: node_at_def)
    from neighbor_loop_eq [OF this, of "[]"] show ?thesis
      using n(1,3,4) phys(1) by (simp add: nearestNeighbors_def node_valid_def L_def F_def node_at_def)
  qed
  have F: "nearness hw n (node_at x) = x" if "x \<in> set F" for x
  proof -
    obtain d i where "x = (d, i)" by fastforce
    then show ?thesis using that nb [of d i] by (simp add: F_def usable_def)
  qed
  have "map (nearness hw n) L = F" using F by (simp add: L_def map_idI)
  moreover have "sorted_wrt (<) F" using phys(2) by (simp add: F_def sorted_wrt_filter)
  ultimately have sorted: "sorted_wrt (\<lambda>a b. nearness hw n a < nearness hw n b) L" by (metis sorted_wrt_map)
  have "set L = wanted hw t nodes n cpusOnly"
  proof (intro set_eqI iffI)
    fix nb' assume "nb' \<in> set L"
    then obtain d i where x: "(d, i) \<in> set (tn_neighbors phys)" "usable t m nodes cpusOnly (d, i)" "nb' = node_at (d, i)"
      by (auto simp: L_def F_def)
    then show "nb' \<in> wanted hw t nodes n cpusOnly" using nb [OF x(1)] phys(3) [of d i]
      by (auto simp: wanted_def usable_def node_at_def)
  next
    fix nb' assume w: "nb' \<in> wanted hw t nodes n cpusOnly"
    then obtain d where d: "(d, nd_physical nb') \<in> set (tn_neighbors phys)" "nb' \<in> set nodes"
      using phys(3) by (auto simp: wanted_def)
    then have "node_at (d, nd_physical nb') = nb'" "usable t m nodes cpusOnly (d, nd_physical nb')"
      using at(2) [OF d(2)] w by (auto simp: node_at_def usable_def wanted_def)
    then show "nb' \<in> set L" using d(1) unfolding L_def F_def by force
  qed
  then show ?thesis using run sorted by blast
qed

text \<open>
  C33: \<open>nearestNeighbors\<close> returns the nearest nodes. On any machine (with distinct node ids below
  \<open>2 ^ 15\<close>, whatever the files of distances say or leave out) and for any \<open>NUMA_NODES\<close> without negative
  ids, it returns for every node of the application the \<open>maxCount\<close> nearest of the wanted nodes (those the
  application uses, with a known distance, and with CPUs if asked for), or all of them if there are
  fewer, each once and in ascending order of the distance in the node's file, then of the id.
\<close>

theorem nearestNeighbors_sorted:
  assumes "hw_ok hw" "\<forall>i\<in>set (requested_ids env). 0 \<le> i"
    and "make_topology hw = Some t" "getPhysicalToLogicalMapping (tp_node_ids t) env = Some m"
    and "logicalNodes m = Some nodes" "n \<in> set nodes"
  shows "\<exists>res. nearestNeighbors t m nodes n maxCount cpusOnly = Some res
    \<and> length res = min maxCount (card (wanted hw t nodes n cpusOnly)) \<and> set res \<subseteq> wanted hw t nodes n cpusOnly
    \<and> sorted_wrt (\<lambda>a b. nearness hw n a < nearness hw n b) res
    \<and> (\<forall>a\<in>set res. \<forall>b\<in>wanted hw t nodes n cpusOnly - set res. nearness hw n a < nearness hw n b)"
proof -
  have ids: "tp_node_ids t = hw_ids hw" using make_topology_spec [OF assms(1)] assms(3) by auto
  note ok = hw_ids_ok [OF assms(1)]
  obtain k b where m: "consecutive m k b" "length m = nat (last (hw_ids hw) + 1)"
    using mapping_consecutive [OF ok(1) assms(2)] assms(4) by (auto simp: ids)
  have in_hw: "int i \<in> hw_index ` set hw" if "i < length m" "0 \<le> m ! i" for i
    using mapped_ids [OF ok(1) assms(4) [unfolded ids] that(1) m(2) that(2)] ok(3) by simp
  have small: "nat i < length m" if "i \<in> hw_index ` set hw" for i
    using node_ids_last [OF ok(1), of i] that ok(3) m(2) by (simp add: nat_less_eq_zless)
  have len: "length m \<le> 2 ^ 15" using m(2) ok(2) by simp
  obtain L where L: "nearestNeighbors t m nodes n maxCount cpusOnly = Some (take maxCount L)"
    "set L = wanted hw t nodes n cpusOnly" "sorted_wrt (\<lambda>a b. nearness hw n a < nearness hw n b) L"
    using nearest_list [OF assms(1,3) m(1) len in_hw small assms(5,6)] by blast
  have "distinct L" using L(3) by (induction L) auto
  then have len: "length (take maxCount L) = min maxCount (card (wanted hw t nodes n cpusOnly))"
    using L(2) distinct_card [of L] by simp
  have "sorted_wrt (\<lambda>a b. nearness hw n a < nearness hw n b) (take maxCount L @ drop maxCount L)" using L(3) by simp
  then have split: "sorted_wrt (\<lambda>a b. nearness hw n a < nearness hw n b) (take maxCount L)"
    "\<forall>a\<in>set (take maxCount L). \<forall>b\<in>set (drop maxCount L). nearness hw n a < nearness hw n b"
    unfolding sorted_wrt_append by blast+
  have "set L = set (take maxCount L) \<union> set (drop maxCount L)" by (metis append_take_drop_id set_append)
  then have "wanted hw t nodes n cpusOnly - set (take maxCount L) \<subseteq> set (drop maxCount L)" "set (take maxCount L) \<subseteq> wanted hw t nodes n cpusOnly"
    using L(2) by auto
  then show ?thesis using L(1) len split by blast
qed


lemma demo_distances: "map (file_distance demo_hw 0) [0, 1, 2] = [Some 10, Some 21, Some 20]"
  by code_simp

lemma demo_neighbors:
  "getPhysicalToLogicalMapping (tp_node_ids demo_topology) None = Some [0, 1, 2]"
  "logicalNodes [0, 1, 2] = Some demo_nodes" "make_topology demo_hw = Some demo_topology"
  by code_simp+

theorem nearestNeighbors_sorted_wit:
  "\<exists>res. nearestNeighbors demo_topology [0, 1, 2] demo_nodes (demo_nodes ! 0) 2 True = Some res
    \<and> length res = 2 \<and> set res \<subseteq> wanted demo_hw demo_topology demo_nodes (demo_nodes ! 0) True"
proof -
  have hw: "hw_ok demo_hw" by (simp add: hw_ok_def demo_hw_def)
  have w: "wanted demo_hw demo_topology demo_nodes (demo_nodes ! 0) True = {demo_nodes ! 0, demo_nodes ! 1}"
    using demo_distances demo_cpu_counts by (auto simp: wanted_def demo_nodes_def)
  have c: "card {demo_nodes ! 0, demo_nodes ! 1} = 2" by (simp add: demo_nodes_def)
  show ?thesis
    using nearestNeighbors_sorted [OF hw _ demo_neighbors(3,1,2), of "demo_nodes ! 0" 2 True]
    unfolding w c by (auto simp: requested_ids_def demo_nodes_def)
qed

end
