(* ===== verification/Stackedmalloc.thy ===== *)
theory Stackedmalloc
  imports Msource_Api Topology
begin

text \<open>
  \<open>src/src/msource/stackedmalloc.cpp\<close> and \<open>src/include/PGASUS/malloc.hpp\<close>: the replacement of the C allocation
  functions. Every thread has a stack of places; \<open>malloc\<close> allocates from the memory source of the
  place on top, and from a source of the thread's own when the stack is empty. Sources for
  remote nodes are made on demand and shared by the threads of a node.

  The storage of the vectors, and the calls of \<open>malloc\<close> that C++ runtime code makes on the way,
  are not modelled. A thread is a number; its CPU and the hash of its id are arguments.
\<close>

section \<open>Places and the state of the process\<close>

record place =
  pl_msource :: u64
  pl_node :: node

definition place_of_node :: "node \<Rightarrow> place option" where
  "place_of_node n = (if node_valid n then Some \<lparr>pl_msource = 0, pl_node = n\<rparr> else None)"

definition place_of_source :: "u64 \<Rightarrow> place option" where
  "place_of_source ms = (if ms \<noteq> 0 then Some \<lparr>pl_msource = ms, pl_node = no_node\<rparr> else None)"

definition place_valid :: "place \<Rightarrow> bool" where
  "place_valid p \<longleftrightarrow> pl_msource p \<noteq> 0 \<or> node_valid (pl_node p)"

text \<open>\<open>NodeLocalStorage\<close> and \<open>ThreadLocalStorage\<close>; \<open>tl_storage\<close> is the node whose storage is used.\<close>

record node_storage =
  nl_node :: nat
  nl_max :: nat
  nl_local :: u64
  nl_msources :: "u64 list"

record thread_storage =
  tl_addr :: u64
  tl_tid :: u64
  tl_node :: nat
  tl_storage :: "nat option"
  tl_initializing :: bool
  tl_done :: bool
  tl_thread_msource :: u64
  tl_stack :: "place list"
  tl_curr :: u64

record 'w process =
  pr_numa :: "'w numa_state"
  pr_statics :: statics
  pr_nodes :: "node_storage option list option"
  pr_threads :: "nat \<Rightarrow> thread_storage option"

record 'w machine =
  mc_env :: build_env
  mc_sys :: "'w nsys"
  mc_topology :: topology
  mc_mapping :: "int list"
  mc_cpu :: "nat \<Rightarrow> int"
  mc_hash :: "nat \<Rightarrow> u64"

text \<open>Lifting of the operations on memory sources to the process.\<close>

definition with_numa ::
  "('w numa_state \<Rightarrow> ('a \<times> 'w numa_state) option) \<Rightarrow> 'w process \<Rightarrow> ('a \<times> 'w process) option" where
  "with_numa f pr = do { (x, st) \<leftarrow> f (pr_numa pr); Some (x, pr\<lparr>pr_numa := st\<rparr>) }"

definition on_numa :: "('w numa_state \<Rightarrow> 'w numa_state option) \<Rightarrow> 'w process \<Rightarrow> 'w process option" where
  "on_numa f pr = do { st \<leftarrow> f (pr_numa pr); Some (pr\<lparr>pr_numa := st\<rparr>) }"

definition pr_global :: "'w machine \<Rightarrow> 'w process \<Rightarrow> (u64 \<times> 'w process) option" where
  "pr_global mc pr = do {
     (g, sx, st) \<leftarrow> ms_global (mc_env mc) (mc_sys mc) (pr_statics pr, pr_numa pr);
     Some (g, pr\<lparr>pr_statics := sx, pr_numa := st\<rparr>) }"

definition pr_for_node :: "'w machine \<Rightarrow> nat \<Rightarrow> 'w process \<Rightarrow> (u64 \<times> 'w process) option" where
  "pr_for_node mc n pr = do {
     (h, sx, st) \<leftarrow> ms_for_node (mc_env mc) (mc_sys mc) (nat (last (tp_node_ids (mc_topology mc)))) n
                      (pr_statics pr, pr_numa pr);
     Some (h, pr\<lparr>pr_statics := sx, pr_numa := st\<rparr>) }"

text \<open>\<open>construct<T>\<close>: a block of \<open>sizeof(T)\<close> bytes, in which the constructor runs.\<close>

definition construct_block :: "'w machine \<Rightarrow> u64 \<Rightarrow> u64 \<Rightarrow> 'w process \<Rightarrow> (u64 \<times> 'w process) option" where
  "construct_block mc ms szT pr = do {
     (p, pr) \<leftarrow> with_numa (msource_alloc (mc_env mc) (mc_sys mc) ms szT) pr;
     if p = 0 then None else Some (p, pr) }"

section \<open>Sources of a node\<close>

text \<open>
  The constructor: the local source is referenced by its member and by the allocator of the
  vector of sources, and once more by the vector's entry for the node itself.
\<close>

definition node_storage_new :: "'w machine \<Rightarrow> nat \<Rightarrow> 'w process \<Rightarrow> (node_storage \<times> 'w process) option" where
  "node_storage_new mc n pr = do {
     let max_node_id = nat (last (tp_node_ids (mc_topology mc)));
     (ms, pr) \<leftarrow> pr_for_node mc n pr;
     (local, pr) \<leftarrow> with_numa (handle_copy ms) pr;
     (alc, pr) \<leftarrow> with_numa (handle_copy local) pr;
     if local = 0 then None
     else do {
       let msources = replicate (max_node_id + 1) 0;
       (h, pr) \<leftarrow> with_numa (handle_assign (mc_sys mc) (msources ! n) local) pr;
       Some (\<lparr>nl_node = n, nl_max = max_node_id, nl_local = local, nl_msources = msources[n := h]\<rparr>, pr) } }"

definition node_local_name :: "nat \<Rightarrow> nat \<Rightarrow> string" where
  "node_local_name src dst = ''nodeLocal(src='' @ decimal src @ '' dst='' @ decimal dst @ '')''"

definition the_node_storage :: "nat \<Rightarrow> 'w process \<Rightarrow> node_storage option" where
  "the_node_storage k pr =
     (case pr_nodes pr of
        None \<Rightarrow> None
      | Some nls \<Rightarrow> if k < length nls then nls ! k else None)"

definition put_node_storage :: "nat \<Rightarrow> node_storage \<Rightarrow> 'w process \<Rightarrow> 'w process" where
  "put_node_storage k nl pr = pr\<lparr>pr_nodes := map_option (\<lambda>nls. nls[k := Some nl]) (pr_nodes pr)\<rparr>"

text \<open>\<open>NodeLocalStorage::get\<close>; a negative id is no id of a node and fails the assertion.\<close>

definition node_storage_get :: "'w machine \<Rightarrow> nat \<Rightarrow> int \<Rightarrow> 'w process \<Rightarrow> (u64 \<times> 'w process) option" where
  "node_storage_get mc k n pr = do {
     nl \<leftarrow> the_node_storage k pr;
     if n < 0 \<or> int (nl_max nl) < n then None
     else if nl_msources nl ! nat n = 0 then do {
       (tmp, pr) \<leftarrow> with_numa (handle_create (mc_env mc) (mc_sys mc) n (push_bit 24 1)
                      (node_local_name (nl_node nl) (nat n)) (int (nl_node nl))) pr;
       (h, pr) \<leftarrow> with_numa (\<lambda>st. do {
                      (h, tmp, st) \<leftarrow> handle_move_assign (mc_sys mc) (nl_msources nl ! nat n) tmp st;
                      st \<leftarrow> handle_delete (mc_sys mc) tmp st;
                      Some (h, st) }) pr;
       Some (h, put_node_storage k (nl\<lparr>nl_msources := (nl_msources nl)[nat n := h]\<rparr>) pr) }
     else Some (nl_msources nl ! nat n, pr) }"

definition SIZEOF_NODE_STORAGE :: u64 where "SIZEOF_NODE_STORAGE = 72"
definition SIZEOF_THREAD_STORAGE :: u64 where "SIZEOF_THREAD_STORAGE = 80"

fun node_storages_loop ::
  "'w machine \<Rightarrow> int list \<Rightarrow> node_storage option list \<Rightarrow> 'w process \<Rightarrow> (node_storage option list \<times> 'w process) option" where
  "node_storages_loop mc [] nls pr = Some (nls, pr)"
| "node_storages_loop mc (i # is) nls pr = do {
     (ms, pr) \<leftarrow> pr_for_node mc (nat i) pr;
     (p, pr) \<leftarrow> construct_block mc ms SIZEOF_NODE_STORAGE pr;
     (nl, pr) \<leftarrow> node_storage_new mc (nat i) pr;
     node_storages_loop mc is (nls[nat i := Some nl]) pr }"

definition getNodeLocalStorages :: "'w machine \<Rightarrow> 'w process \<Rightarrow> (node_storage option list \<times> 'w process) option" where
  "getNodeLocalStorages mc pr =
     (case pr_nodes pr of
        Some nls \<Rightarrow> Some (nls, pr)
      | None \<Rightarrow> do {
          (g, pr) \<leftarrow> pr_global mc pr;
          (alc, pr) \<leftarrow> with_numa (handle_copy g) pr;
          let node_ids = tp_node_ids (mc_topology mc);
          let numReservedIds = (if node_ids = [] then 0 else nat (last node_ids + 1));
          (nls, pr) \<leftarrow> node_storages_loop mc node_ids (replicate numReservedIds None) pr;
          Some (nls, pr\<lparr>pr_nodes := Some nls\<rparr>) })"

section \<open>Thread-local storage\<close>

definition the_thread :: "nat \<Rightarrow> 'w process \<Rightarrow> thread_storage option" where
  "the_thread t pr = pr_threads pr t"

definition put_thread :: "nat \<Rightarrow> thread_storage \<Rightarrow> 'w process \<Rightarrow> 'w process" where
  "put_thread t tls pr = pr\<lparr>pr_threads := (pr_threads pr)(t \<mapsto> tls)\<rparr>"

text \<open>The sources of a node, of a place, and of the top of the stack (its last element).\<close>

definition get_node_msource :: "'w machine \<Rightarrow> thread_storage \<Rightarrow> int \<Rightarrow> 'w process \<Rightarrow> (u64 \<times> 'w process) option" where
  "get_node_msource mc tls n pr =
     (if 0 \<le> n \<and> nat n = tl_node tls then Some (tl_thread_msource tls, pr)
      else do { k \<leftarrow> tl_storage tls; node_storage_get mc k n pr })"

definition get_place_msource :: "'w machine \<Rightarrow> thread_storage \<Rightarrow> place \<Rightarrow> 'w process \<Rightarrow> (u64 \<times> 'w process) option" where
  "get_place_msource mc tls p pr =
     (if pl_msource p \<noteq> 0 then Some (pl_msource p, pr)
      else get_node_msource mc tls (nd_physical (pl_node p)) pr)"

definition get_curr_msource :: "'w machine \<Rightarrow> thread_storage \<Rightarrow> 'w process \<Rightarrow> (u64 \<times> 'w process) option" where
  "get_curr_msource mc tls pr =
     (if tl_stack tls = [] then Some (tl_thread_msource tls, pr)
      else get_place_msource mc tls (last (tl_stack tls)) pr)"

definition thread_storage_new :: "'w machine \<Rightarrow> u64 \<Rightarrow> 'w process \<Rightarrow> (thread_storage \<times> 'w process) option" where
  "thread_storage_new mc this pr = do {
     (g, pr) \<leftarrow> pr_global mc pr;
     (alc, pr) \<leftarrow> with_numa (handle_copy g) pr;
     (curr, pr) \<leftarrow> with_numa (handle_copy g) pr;
     Some (\<lparr>tl_addr = this, tl_tid = - 1, tl_node = 0, tl_storage = None, tl_initializing = False,
            tl_done = False, tl_thread_msource = 0, tl_stack = [], tl_curr = curr\<rparr>, pr) }"

fun hexadecimal :: "nat \<Rightarrow> string" where
  "hexadecimal n =
     (if n < 16 then [] else hexadecimal (n div 16))
       @ [char_of (if n mod 16 < 10 then 48 + n mod 16 else 55 + n mod 16)]"

definition local_name :: "u64 \<Rightarrow> string" where
  "local_name tid = ''local('' @ hexadecimal (unat (tid mod 0xFFFFFFFF)) @ '')''"

definition s_local_source_size :: u64 where "s_local_source_size = push_bit 24 1"

text \<open>
  \<open>init\<close>. The assignment to \<open>_place_stack\<close> empties the vector and keeps its allocator, since
  \<open>MemSourceAllocator\<close> does not ask for the allocator to be replaced with the contents.
\<close>

definition thread_init :: "'w machine \<Rightarrow> nat \<Rightarrow> 'w process \<Rightarrow> (bool \<times> 'w process) option" where
  "thread_init mc t pr = do {
     tls \<leftarrow> the_thread t pr;
     if tl_done tls then Some (True, pr)
     else if tl_initializing tls then Some (False, pr)
     else do {
       let tls = tls\<lparr>tl_initializing := True, tl_tid := mc_hash mc t\<rparr>;
       (nodeLocals, pr) \<leftarrow> getNodeLocalStorages mc (put_thread t tls pr);
       cpu_node \<leftarrow> node_of_cpuid (mc_topology mc) (mc_cpu mc t);
       id \<leftarrow> cpu_node;
       let k = nat id;
       if length nodeLocals \<le> k \<or> nodeLocals ! k = None then None
       else do {
         (tmp, pr) \<leftarrow> with_numa (handle_create (mc_env mc) (mc_sys mc) (int k) s_local_source_size
                        (local_name (tl_tid tls)) (- 1)) pr;
         (h, pr) \<leftarrow> with_numa (\<lambda>st. do {
                        (h, tmp, st) \<leftarrow> handle_move_assign (mc_sys mc) (tl_thread_msource tls) tmp st;
                        st \<leftarrow> handle_delete (mc_sys mc) tmp st;
                        Some (h, st) }) pr;
         (curr, pr) \<leftarrow> with_numa (handle_assign (mc_sys mc) (tl_curr tls) h) pr;
         let tls = tls\<lparr>tl_node := k, tl_storage := Some k, tl_thread_msource := h, tl_stack := [],
                     tl_curr := curr, tl_done := True\<rparr>;
         if h = 0 then None else Some (True, put_thread t tls pr) } } }"

definition getTls :: "'w machine \<Rightarrow> nat \<Rightarrow> 'w process \<Rightarrow> (thread_storage \<times> 'w process) option" where
  "getTls mc t pr =
     (case the_thread t pr of
        Some tls \<Rightarrow> Some (tls, pr)
      | None \<Rightarrow> do {
          (g, pr) \<leftarrow> pr_global mc pr;
          (p, pr) \<leftarrow> construct_block mc g SIZEOF_THREAD_STORAGE pr;
          (tls, pr) \<leftarrow> thread_storage_new mc p pr;
          (ok, pr) \<leftarrow> thread_init mc t (put_thread t tls pr);
          tls \<leftarrow> the_thread t pr;
          Some (tls, pr) })"

text \<open>Copying and destroying the places of a list, which count references.\<close>

fun copy_places :: "place list \<Rightarrow> 'w process \<Rightarrow> 'w process option" where
  "copy_places [] pr = Some pr"
| "copy_places (p # ps) pr = do { (h, pr) \<leftarrow> with_numa (handle_copy (pl_msource p)) pr; copy_places ps pr }"

fun delete_places :: "'w machine \<Rightarrow> place list \<Rightarrow> 'w process \<Rightarrow> 'w process option" where
  "delete_places mc [] pr = Some pr"
| "delete_places mc (p # ps) pr = do {
     pr \<leftarrow> on_numa (handle_delete (mc_sys mc) (pl_msource p)) pr; delete_places mc ps pr }"

text \<open>The thread's storage with a new stack, and \<open>_curr_msource\<close> assigned the source \<open>ms\<close>.\<close>

definition set_curr :: "'w machine \<Rightarrow> nat \<Rightarrow> thread_storage \<Rightarrow> u64 \<Rightarrow> 'w process \<Rightarrow> 'w process option" where
  "set_curr mc t tls ms pr = do {
     (curr, pr) \<leftarrow> with_numa (handle_assign (mc_sys mc) (tl_curr tls) ms) pr;
     Some (put_thread t (tls\<lparr>tl_curr := curr\<rparr>) pr) }"

definition tls_push :: "'w machine \<Rightarrow> nat \<Rightarrow> place \<Rightarrow> thread_storage \<Rightarrow> 'w process \<Rightarrow> 'w process option" where
  "tls_push mc t p tls pr = do {
     pr \<leftarrow> copy_places [p] pr;
     let tls = tls\<lparr>tl_stack := tl_stack tls @ [p]\<rparr>;
     (ms, pr) \<leftarrow> get_place_msource mc tls p pr;
     set_curr mc t tls ms pr }"

definition tls_pop :: "'w machine \<Rightarrow> nat \<Rightarrow> thread_storage \<Rightarrow> 'w process \<Rightarrow> (place \<times> 'w process) option" where
  "tls_pop mc t tls pr =
     (if tl_stack tls = [] then None
      else do {
        let result = last (tl_stack tls);
        pr \<leftarrow> copy_places [result] pr;
        pr \<leftarrow> delete_places mc [last (tl_stack tls)] pr;
        let tls = tls\<lparr>tl_stack := butlast (tl_stack tls)\<rparr>;
        (ms, pr) \<leftarrow> get_curr_msource mc tls pr;
        pr \<leftarrow> set_curr mc t tls ms pr;
        Some (result, pr) })"

definition tls_pop_all :: "'w machine \<Rightarrow> nat \<Rightarrow> thread_storage \<Rightarrow> 'w process \<Rightarrow> (place list \<times> 'w process) option" where
  "tls_pop_all mc t tls pr = do {
     let dst = tl_stack tls;
     pr \<leftarrow> copy_places dst pr;
     pr \<leftarrow> delete_places mc (tl_stack tls) pr;
     let tls = tls\<lparr>tl_stack := []\<rparr>;
     pr \<leftarrow> set_curr mc t tls (tl_thread_msource tls) pr;
     Some (dst, pr) }"

definition tls_push_all :: "'w machine \<Rightarrow> nat \<Rightarrow> place list \<Rightarrow> thread_storage \<Rightarrow> 'w process \<Rightarrow> 'w process option" where
  "tls_push_all mc t dst tls pr = do {
     pr \<leftarrow> copy_places dst pr;
     let tls = tls\<lparr>tl_stack := tl_stack tls @ dst\<rparr>;
     (ms, pr) \<leftarrow> get_curr_msource mc tls pr;
     set_curr mc t tls ms pr }"

text \<open>
  The end of a thread: the members are destroyed in reverse order, then the block is freed.
\<close>

definition tls_delete :: "'w machine \<Rightarrow> nat \<Rightarrow> 'w process \<Rightarrow> 'w process option" where
  "tls_delete mc t pr =
     (case the_thread t pr of
        None \<Rightarrow> Some pr
      | Some tls \<Rightarrow> do {
          (g, pr) \<leftarrow> pr_global mc pr;
          pr \<leftarrow> on_numa (handle_delete (mc_sys mc) (tl_curr tls)) pr;
          pr \<leftarrow> delete_places mc (tl_stack tls) pr;
          pr \<leftarrow> on_numa (handle_delete (mc_sys mc) g) pr;
          pr \<leftarrow> on_numa (handle_delete (mc_sys mc) (tl_thread_msource tls)) pr;
          pr \<leftarrow> on_numa (msource_free (mc_sys mc) (tl_addr tls)) pr;
          Some (pr\<lparr>pr_threads := (pr_threads pr)(t := None)\<rparr>) })"

end
