(* ===== verification/Stackedmalloc_Api.thy ===== *)
theory Stackedmalloc_Api
  imports Stackedmalloc Msource_Props
begin

text \<open>
  The functions of \<open>src/src/msource/stackedmalloc.cpp\<close> and \<open>src/include/PGASUS/malloc.hpp\<close> that programs
  call: \<open>push\<close> and \<open>pop\<close> of places, the guard object that brackets them, and the C allocation
  functions.
\<close>

section \<open>The stack of places\<close>

definition malloc_push :: "'w machine \<Rightarrow> nat \<Rightarrow> place \<Rightarrow> 'w process \<Rightarrow> 'w process option" where
  "malloc_push mc t p pr =
     (if place_valid p then do { (tls, pr) \<leftarrow> getTls mc t pr; tls_push mc t p tls pr } else None)"

definition malloc_push_all :: "'w machine \<Rightarrow> nat \<Rightarrow> place list \<Rightarrow> 'w process \<Rightarrow> 'w process option" where
  "malloc_push_all mc t ps pr =
     (if list_all place_valid ps then do { (tls, pr) \<leftarrow> getTls mc t pr; tls_push_all mc t ps tls pr } else None)"

definition malloc_pop :: "'w machine \<Rightarrow> nat \<Rightarrow> 'w process \<Rightarrow> (place \<times> 'w process) option" where
  "malloc_pop mc t pr = do { (tls, pr) \<leftarrow> getTls mc t pr; tls_pop mc t tls pr }"

definition malloc_pop_all :: "'w machine \<Rightarrow> nat \<Rightarrow> 'w process \<Rightarrow> (place list \<times> 'w process) option" where
  "malloc_pop_all mc t pr = do { (tls, pr) \<leftarrow> getTls mc t pr; tls_pop_all mc t tls pr }"

definition curr_msource :: "'w machine \<Rightarrow> nat \<Rightarrow> 'w process \<Rightarrow> (u64 \<times> 'w process) option" where
  "curr_msource mc t pr = do { (tls, pr) \<leftarrow> getTls mc t pr; with_numa (handle_copy (tl_curr tls)) pr }"

text \<open>
  \<open>PlaceGuard\<close>: the constructor copies the place and pushes it; the destructor pops, drops the
  popped place and then its own copy.
\<close>

definition guard_enter :: "'w machine \<Rightarrow> nat \<Rightarrow> place \<Rightarrow> 'w process \<Rightarrow> 'w process option" where
  "guard_enter mc t p pr = do { pr \<leftarrow> copy_places [p] pr; malloc_push mc t p pr }"

definition guard_leave :: "'w machine \<Rightarrow> nat \<Rightarrow> place \<Rightarrow> 'w process \<Rightarrow> 'w process option" where
  "guard_leave mc t p pr = do {
     (q, pr) \<leftarrow> malloc_pop mc t pr;
     pr \<leftarrow> delete_places mc [q] pr;
     delete_places mc [p] pr }"

section \<open>The allocation functions\<close>

definition stackedmalloc :: "'w machine \<Rightarrow> nat \<Rightarrow> u64 \<Rightarrow> 'w process \<Rightarrow> (u64 \<times> 'w process) option" where
  "stackedmalloc mc t sz pr = do {
     (tls, pr) \<leftarrow> getTls mc t pr;
     with_numa (msource_alloc (mc_env mc) (mc_sys mc) (tl_curr tls) sz) pr }"

definition stackedmalloc_aligned ::
  "'w machine \<Rightarrow> nat \<Rightarrow> u64 \<Rightarrow> u64 \<Rightarrow> 'w process \<Rightarrow> (u64 \<times> 'w process) option" where
  "stackedmalloc_aligned mc t align sz pr =
     (if sz = 0 then Some (0, pr)
      else do {
        (tls, pr) \<leftarrow> getTls mc t pr;
        with_numa (msource_alloc_align (mc_env mc) (mc_sys mc) (tl_curr tls) align sz) pr })"

definition c_free :: "'w machine \<Rightarrow> u64 \<Rightarrow> 'w process \<Rightarrow> 'w process option" where
  "c_free mc p pr = (if p = 0 then Some pr else on_numa (msource_free (mc_sys mc) p) pr)"

definition c_malloc :: "'w machine \<Rightarrow> nat \<Rightarrow> u64 \<Rightarrow> 'w process \<Rightarrow> (u64 \<times> 'w process) option" where
  "c_malloc mc t sz pr = stackedmalloc mc t sz pr"

definition on_heap :: "(heap \<Rightarrow> heap) \<Rightarrow> 'w process \<Rightarrow> 'w process" where
  "on_heap f pr = pr\<lparr>pr_numa := (pr_numa pr)\<lparr>ns_mem := f (ns_mem (pr_numa pr))\<rparr>\<rparr>"

definition fill_zero :: "u64 \<Rightarrow> u64 \<Rightarrow> heap \<Rightarrow> heap" where
  "fill_zero p n h = hp (memset_zero p n (heap_space h))"

definition move_bytes :: "u64 \<Rightarrow> u64 \<Rightarrow> u64 \<Rightarrow> heap \<Rightarrow> heap" where
  "move_bytes dst src n h = hp (memcpy dst src n (heap_space h))"

definition c_calloc :: "'w machine \<Rightarrow> nat \<Rightarrow> u64 \<Rightarrow> u64 \<Rightarrow> 'w process \<Rightarrow> (u64 \<times> 'w process) option" where
  "c_calloc mc t n sz pr = do {
     let tot = n * sz;
     (ptr, pr) \<leftarrow> stackedmalloc mc t tot pr;
     Some (ptr, if ptr \<noteq> 0 then on_heap (fill_zero ptr tot) pr else pr) }"

definition c_realloc :: "'w machine \<Rightarrow> nat \<Rightarrow> u64 \<Rightarrow> u64 \<Rightarrow> 'w process \<Rightarrow> (u64 \<times> 'w process) option" where
  "c_realloc mc t p sz pr = do {
     old_size \<leftarrow> (if p \<noteq> 0 then get_block_size (ns_mem (pr_numa pr)) p else Some 0);
     if sz < old_size then Some (p, pr)
     else do {
       (pnew, pr) \<leftarrow> stackedmalloc mc t sz pr;
       if pnew = 0 then Some (0, pr)
       else if p \<noteq> 0 then do {
         pr \<leftarrow> c_free mc p (on_heap (move_bytes pnew p old_size) pr);
         Some (pnew, pr) }
       else Some (pnew, pr) } }"

definition ENOMEM :: int where "ENOMEM = 12"
definition EINVAL :: int where "EINVAL = 22"

text \<open>The result code, and what is stored in \<open>*ptr\<close> (nothing on failure).\<close>

definition posix_memalign ::
  "'w machine \<Rightarrow> nat \<Rightarrow> u64 \<Rightarrow> u64 \<Rightarrow> 'w process \<Rightarrow> (int \<times> u64 option \<times> 'w process) option" where
  "posix_memalign mc t align sz pr =
     (if sz = 0 then Some (0, Some 0, pr)
      else do {
        (p, pr) \<leftarrow> stackedmalloc_aligned mc t align sz pr;
        if p = 0 then Some (ENOMEM, None, pr) else Some (0, Some p, pr) })"

definition c_memalign :: "'w machine \<Rightarrow> nat \<Rightarrow> u64 \<Rightarrow> u64 \<Rightarrow> 'w process \<Rightarrow> (u64 \<times> 'w process) option" where
  "c_memalign mc t align sz pr = stackedmalloc_aligned mc t align sz pr"

text \<open>The third component is \<open>errno\<close> where it is set. A zero alignment divides by zero.\<close>

definition aligned_alloc ::
  "'w machine \<Rightarrow> nat \<Rightarrow> u64 \<Rightarrow> u64 \<Rightarrow> 'w process \<Rightarrow> (u64 \<times> int option \<times> 'w process) option" where
  "aligned_alloc mc t alignment sz pr =
     (if alignment = 0 then None
      else if sz mod alignment \<noteq> 0 then Some (0, Some EINVAL, pr)
      else do { (p, pr) \<leftarrow> stackedmalloc_aligned mc t alignment sz pr; Some (p, None, pr) })"

definition c_valloc :: "'w machine \<Rightarrow> nat \<Rightarrow> u64 \<Rightarrow> 'w process \<Rightarrow> (u64 \<times> 'w process) option" where
  "c_valloc mc t sz pr = stackedmalloc_aligned mc t MEM_PAGE_SIZE sz pr"

definition pvalloc_request :: "u64 \<Rightarrow> u64" where
  "pvalloc_request sz = (sz + MEM_PAGE_SIZE - 1) mod MEM_PAGE_SIZE"

definition c_pvalloc :: "'w machine \<Rightarrow> nat \<Rightarrow> u64 \<Rightarrow> 'w process \<Rightarrow> (u64 \<times> 'w process) option" where
  "c_pvalloc mc t sz pr = stackedmalloc_aligned mc t MEM_PAGE_SIZE (pvalloc_request sz) pr"

section \<open>Properties\<close>

lemma unat_pvalloc_request: "unat (pvalloc_request sz) = (unat sz + 4095) mod 4096"
proof -
  have "unat (sz + 4095) mod 4096 = (unat sz + 4095) mod 4096"
    by (simp add: unat_word_ariths mod_mod_cancel)
  moreover have "sz + MEM_PAGE_SIZE - 1 = sz + 4095" by (simp add: MEM_PAGE_SIZE_def algebra_simps)
  ultimately show ?thesis unfolding pvalloc_request_def by (simp only: unat_mod) (simp add: MEM_PAGE_SIZE_def)
qed

lemma round_remainder:
  fixes m :: nat
  shows "(m + 4095) mod 4096 = (if m mod 4096 = 0 then 4095 else m mod 4096 - 1)"
proof (cases "m mod 4096")
  case 0
  then show ?thesis by (simp add: mod_add_eq [of m 4096 4095, symmetric])
next
  case (Suc r)
  have "r < 4096" using mod_less_divisor [of 4096 m] Suc by simp
  have "(m + 4095) mod 4096 = (Suc r + 4095) mod 4096" using Suc by (metis mod_add_left_eq)
  also have "Suc r + 4095 = r + 4096" by simp
  finally show ?thesis using Suc \<open>r < 4096\<close> by simp
qed

text \<open>
  \<open>pvalloc\<close> should round the size up to whole pages and takes a remainder instead: the block
  it asks for is always smaller than a page, a request of \<open>k\<close> pages gets one byte less than one
  page, and a request of one byte more than \<open>k\<close> pages gets the null pointer and allocates
  nothing, whatever the state.
\<close>

theorem pvalloc_remainder:
  "unat (pvalloc_request sz) < 4096
    \<and> (4096 dvd unat sz \<longleftrightarrow> unat (pvalloc_request sz) = 4095)
    \<and> {pr. unat sz mod 4096 = 1 \<and> c_pvalloc mc t sz pr \<noteq> Some (0, pr)} = {}"
proof (intro conjI)
  show "unat (pvalloc_request sz) < 4096" by (simp add: unat_pvalloc_request)
  show "4096 dvd unat sz \<longleftrightarrow> unat (pvalloc_request sz) = 4095"
    using mod_less_divisor [of 4096 "unat sz"] by (simp add: unat_pvalloc_request round_remainder dvd_eq_mod_eq_0) linarith
  have "c_pvalloc mc t sz pr = Some (0, pr)" if "unat sz mod 4096 = 1" for pr
  proof -
    have "unat (pvalloc_request sz) = 0" using that by (simp add: unat_pvalloc_request round_remainder)
    then have "pvalloc_request sz = 0" by (simp add: unat_eq_0)
    then show ?thesis by (simp add: c_pvalloc_def stackedmalloc_aligned_def)
  qed
  then show "{pr. unat sz mod 4096 = 1 \<and> c_pvalloc mc t sz pr \<noteq> Some (0, pr)} = {}" by blast
qed

text \<open>
  \<open>calloc\<close> does not detect overflow: when \<open>n * sz\<close> does not fit in 64 bits, the call
  behaves like one for a single element of the size the product wraps to, which is smaller than
  the elements asked for.
\<close>

theorem calloc_wraps:
  assumes "unat n * unat sz = q * 2 ^ 64 + r" "r < 2 ^ 64" "0 < q"
  shows "c_calloc mc t n sz pr = c_calloc mc t 1 (of_nat r) pr \<and> r < unat n * unat sz"
proof
  have "of_nat (unat n * unat sz) = (of_nat r :: u64)"
    unfolding assms(1) word_of_nat_eq_iff by (simp add: take_bit_eq_mod)
  then have "n * sz = 1 * of_nat r" by simp
  then show "c_calloc mc t n sz pr = c_calloc mc t 1 (of_nat r) pr" by (simp add: c_calloc_def)
  show "r < unat n * unat sz" using assms(2,3) unfolding assms(1) by simp
qed

section \<open>Guards\<close>

text \<open>The counter word of a source, and the process with another value of it.\<close>

definition counter :: "'w process \<Rightarrow> u64 \<Rightarrow> u64 option" where
  "counter pr a = map_option ms_blocks (the_source a (pr_numa pr))"

definition set_counter :: "u64 \<Rightarrow> u64 \<Rightarrow> 'w process \<Rightarrow> 'w process" where
  "set_counter a v pr = pr\<lparr>pr_numa := (pr_numa pr)\<lparr>ns_sources := (ns_sources (pr_numa pr))
     (a := map_option (\<lambda>ms. ms\<lparr>ms_blocks := v\<rparr>) (ns_sources (pr_numa pr) a))\<rparr>\<rparr>"

abbreviation one_ref :: u64 where "one_ref \<equiv> 0x10000000000"

lemma counter_set [simp]:
  "counter (set_counter a v pr) b = (if b = a then map_option (\<lambda>_. v) (counter pr a) else counter pr b)"
  by (simp add: counter_def set_counter_def the_source_def option.map_comp o_def)

lemma set_counter_twice [simp]: "set_counter a v (set_counter a w pr) = set_counter a v pr"
  by (simp add: set_counter_def option.map_comp o_def)

lemma set_counter_same: "counter pr a = Some v \<Longrightarrow> set_counter a v pr = pr"
proof -
  assume "counter pr a = Some v"
  then obtain ms where ms: "ns_sources (pr_numa pr) a = Some ms" "ms_blocks ms = v"
    by (auto simp: counter_def the_source_def)
  have "(ns_sources (pr_numa pr))(a := map_option (\<lambda>ms. ms\<lparr>ms_blocks := v\<rparr>) (ns_sources (pr_numa pr) a))
    = ns_sources (pr_numa pr)" using ms by (intro ext) auto
  then show ?thesis by (simp add: set_counter_def)
qed

lemma set_counter_commute: "a \<noteq> b \<Longrightarrow> set_counter a v (set_counter b w pr) = set_counter b w (set_counter a v pr)"
  by (simp add: set_counter_def fun_upd_twist)

lemma the_thread_set [simp]:
  "the_thread t (set_counter a v pr) = the_thread t pr"
  "the_thread t (put_thread t tls pr) = Some tls"
  by (simp_all add: the_thread_def set_counter_def put_thread_def)

lemma put_thread_simps [simp]:
  "put_thread t x (put_thread t y pr) = put_thread t x pr"
  "set_counter a v (put_thread t x pr) = put_thread t x (set_counter a v pr)"
  "counter (put_thread t x pr) b = counter pr b"
  by (simp_all add: put_thread_def set_counter_def counter_def)

lemma put_thread_same: "the_thread t pr = Some tls \<Longrightarrow> put_thread t tls pr = pr"
proof -
  assume "the_thread t pr = Some tls"
  then have "(pr_threads pr)(t \<mapsto> tls) = pr_threads pr" by (auto simp: the_thread_def)
  then show ?thesis by (simp add: put_thread_def)
qed

lemma set_counter_run:
  "the_source a (pr_numa pr) = Some ms
    \<Longrightarrow> pr\<lparr>pr_numa := put_source a (ms\<lparr>ms_blocks := v\<rparr>) (pr_numa pr)\<rparr> = set_counter a v pr"
  by (simp add: set_counter_def put_source_def the_source_def)

lemma copy_run:
  assumes "counter pr a = Some v" "a \<noteq> 0"
  shows "with_numa (handle_copy a) pr = Some (a, set_counter a (v + one_ref) pr)"
proof -
  obtain ms where ms: "the_source a (pr_numa pr) = Some ms" "ms_blocks ms = v"
    using assms(1) by (auto simp: counter_def)
  show ?thesis using assms(2) ms
    by (simp add: with_numa_def handle_copy_def msource_ref_def on_blocks_def bc_ref_def BlockBits_def set_counter_run)
qed

lemma delete_run:
  assumes "counter pr a = Some v" "a \<noteq> 0" "v \<noteq> one_ref"
  shows "on_numa (handle_delete os a) pr = Some (set_counter a (v - one_ref) pr)"
proof -
  obtain ms where ms: "the_source a (pr_numa pr) = Some ms" "ms_blocks ms = v"
    using assms(1) by (auto simp: counter_def)
  show ?thesis using assms(2,3) ms
    by (simp add: on_numa_def handle_delete_def msource_unref_def bc_deref_def isLastDeref_def BlockBits_def
        Let_def set_counter_run)
qed

lemma assign_run:
  assumes "counter pr a = Some v" "a \<noteq> 0" "counter pr c = Some w" "c \<noteq> 0" "w \<noteq> one_ref" "a \<noteq> c"
  shows "with_numa (handle_assign os c a) pr
    = Some (a, set_counter c (w - one_ref) (set_counter a (v + one_ref) pr))"
proof -
  obtain ms where ms: "the_source a (pr_numa pr) = Some ms" "ms_blocks ms = v"
    using assms(1) by (auto simp: counter_def)
  let ?pr = "set_counter a (v + one_ref) pr"
  obtain st where st: "msource_ref a (pr_numa pr) = Some st" "pr\<lparr>pr_numa := st\<rparr> = ?pr"
    using copy_run [OF assms(1,2)] assms(2) by (auto simp: with_numa_def handle_copy_def bind_eq_Some_conv)
  have "pr_numa (pr\<lparr>pr_numa := st\<rparr>) = st" by simp
  then have ref: "msource_ref a (pr_numa pr) = Some (pr_numa ?pr)" using st by simp
  have "counter ?pr c = Some w" using assms(3,6) by simp
  from delete_run [OF this assms(4,5), of os]
  have unref: "msource_unref os c (pr_numa ?pr) = Some (pr_numa (set_counter c (w - one_ref) ?pr))"
  proof -
    obtain st' where st': "msource_unref os c (pr_numa ?pr) = Some st'"
      "?pr\<lparr>pr_numa := st'\<rparr> = set_counter c (w - one_ref) ?pr"
      using \<open>on_numa (handle_delete os c) ?pr = Some (set_counter c (w - one_ref) ?pr)\<close> assms(4)
      by (auto simp: on_numa_def handle_delete_def bind_eq_Some_conv)
    have "pr_numa (?pr\<lparr>pr_numa := st'\<rparr>) = st'" by simp
    then show ?thesis using st' by simp
  qed
  have "pr\<lparr>pr_numa := pr_numa (set_counter c (w - one_ref) ?pr)\<rparr> = set_counter c (w - one_ref) ?pr"
    by (simp add: set_counter_def)
  then show ?thesis using assms(2,4,6) ref unref by (simp add: with_numa_def handle_assign_def)
qed

lemma assign_same: "with_numa (handle_assign os a a) pr = Some (a, pr)"
  by (simp add: with_numa_def handle_assign_def)

text \<open>The source of a place, where it exists already, and of the top of a thread's stack.\<close>

definition place_source :: "thread_storage \<Rightarrow> place \<Rightarrow> 'w process \<Rightarrow> u64 option" where
  "place_source tls p pr =
     (let n = nd_physical (pl_node p)
      in if pl_msource p \<noteq> 0 then Some (pl_msource p)
         else if 0 \<le> n \<and> nat n = tl_node tls then Some (tl_thread_msource tls)
         else (case Option.bind (tl_storage tls) (\<lambda>k. the_node_storage k pr) of
                 None \<Rightarrow> None
               | Some nl \<Rightarrow> if 0 \<le> n \<and> n \<le> int (nl_max nl) \<and> nl_msources nl ! nat n \<noteq> 0
                            then Some (nl_msources nl ! nat n) else None))"

definition top_source :: "thread_storage \<Rightarrow> 'w process \<Rightarrow> u64 option" where
  "top_source tls pr = (if tl_stack tls = [] then Some (tl_thread_msource tls)
     else place_source tls (last (tl_stack tls)) pr)"

lemma place_source_cong [simp]:
  "place_source (tls\<lparr>tl_stack := s, tl_curr := c\<rparr>) p pr = place_source tls p pr"
  "place_source (tls\<lparr>tl_stack := s\<rparr>) p pr = place_source tls p pr"
  "place_source (tls\<lparr>tl_curr := c\<rparr>) p pr = place_source tls p pr"
  "place_source tls p (set_counter a v pr) = place_source tls p pr"
  "place_source tls p (put_thread t x pr) = place_source tls p pr"
  by (simp_all add: place_source_def the_node_storage_def set_counter_def put_thread_def cong: if_cong)

lemma top_source_cong [simp]:
  "top_source tls (set_counter a v pr) = top_source tls pr"
  "top_source tls (put_thread t x pr) = top_source tls pr"
  by (simp_all add: top_source_def)

lemma get_place_run: "place_source tls p pr = Some a \<Longrightarrow> get_place_msource mc tls p pr = Some (a, pr)"
  by (auto simp: place_source_def get_place_msource_def get_node_msource_def node_storage_get_def Let_def
      split: if_splits option.splits bind_splits)

lemma get_curr_run: "top_source tls pr = Some a \<Longrightarrow> get_curr_msource mc tls pr = Some (a, pr)"
  using get_place_run by (fastforce simp: top_source_def get_curr_msource_def split: if_splits)

text \<open>What a guard on a place of source \<open>a\<close> does to the counters, with the current source \<open>c\<close>.\<close>

definition guarded :: "bool \<Rightarrow> u64 \<Rightarrow> u64 \<Rightarrow> u64 \<Rightarrow> u64 \<Rightarrow> 'w process \<Rightarrow> 'w process" where
  "guarded owns a v c w pr =
     (let v = (if owns then v + 2 * one_ref else v)
      in if a = c then set_counter a v pr
         else set_counter c (w - one_ref) (set_counter a (v + one_ref) pr))"

lemma copy_places_run:
  assumes "place_source tls p pr = Some a" "a \<noteq> 0" "counter pr a = Some v"
  shows "copy_places [p] pr = Some (if pl_msource p = 0 then pr else set_counter a (v + one_ref) pr)"
proof (cases "pl_msource p = 0")
  case True
  then show ?thesis by (simp add: with_numa_def handle_copy_def)
next
  case False
  then have "pl_msource p = a" using assms(1) by (simp add: place_source_def Let_def)
  then show ?thesis using copy_run [OF assms(3,2)] assms(2) by simp
qed

lemma delete_places_run:
  assumes "place_source tls p pr = Some a" "a \<noteq> 0" "counter pr a = Some v" "pl_msource p \<noteq> 0 \<Longrightarrow> v \<noteq> one_ref"
  shows "delete_places mc [p] pr = Some (if pl_msource p = 0 then pr else set_counter a (v - one_ref) pr)"
proof (cases "pl_msource p = 0")
  case True
  then show ?thesis by (simp add: on_numa_def handle_delete_def)
next
  case False
  then have "pl_msource p = a" using assms(1) by (simp add: place_source_def Let_def)
  then show ?thesis using delete_run [OF assms(3,2) assms(4) [OF False]] assms(2) by simp
qed

declare copy_places.simps [simp del] delete_places.simps [simp del]

lemma guard_enter_run:
  assumes t: "the_thread t pr = Some tls" and p: "place_valid p" "place_source tls p pr = Some a" "a \<noteq> 0"
    and a: "counter pr a = Some v" and c: "counter pr (tl_curr tls) = Some w" "tl_curr tls \<noteq> 0" "w \<noteq> one_ref"
  shows "guard_enter mc t p pr
    = Some (put_thread t (tls\<lparr>tl_stack := tl_stack tls @ [p], tl_curr := a\<rparr>)
        (guarded (pl_msource p \<noteq> 0) a v (tl_curr tls) w pr))"
proof -
  let ?owns = "pl_msource p \<noteq> 0" and ?c = "tl_curr tls"
  let ?pr1 = "if ?owns then set_counter a (v + one_ref) pr else pr"
  let ?pr2 = "if ?owns then set_counter a (v + 2 * one_ref) pr else pr"
  have 1: "copy_places [p] pr = Some ?pr1" using copy_places_run [OF p(2,3) a] by simp
  have 2: "copy_places [p] ?pr1 = Some ?pr2"
  proof (cases ?owns)
    case True
    have "copy_places [p] (set_counter a (v + one_ref) pr) = Some (set_counter a (v + 2 * one_ref) pr)"
      by (subst copy_places_run [OF _ p(3), where v = "v + one_ref" and tls = tls])
        (use True p(2) a in \<open>simp_all add: add.assoc\<close>)
    then show ?thesis using True by simp
  qed (use 1 in simp)
  have get: "get_place_msource mc (tls\<lparr>tl_stack := tl_stack tls @ [p]\<rparr>) p ?pr2 = Some (a, ?pr2)"
    by (rule get_place_run) (simp add: p(2))
  have set: "set_curr mc t (tls\<lparr>tl_stack := tl_stack tls @ [p]\<rparr>) a ?pr2
    = Some (put_thread t (tls\<lparr>tl_stack := tl_stack tls @ [p], tl_curr := a\<rparr>) (guarded ?owns a v ?c w pr))"
  proof (cases "a = ?c")
    case True
    then show ?thesis using set_counter_same [OF a] by (simp add: set_curr_def assign_same guarded_def)
  next
    case False
    have "with_numa (handle_assign (mc_sys mc) ?c a) ?pr2 = Some (a, guarded ?owns a v ?c w pr)"
      by (subst assign_run [OF _ p(3) _ c(2,3) False, where v = "if ?owns then v + 2 * one_ref else v"])
        (use a c(1) False in \<open>simp_all add: guarded_def\<close>)
    then show ?thesis by (simp add: set_curr_def)
  qed
  have tls: "getTls mc t ?pr1 = Some (tls, ?pr1)" using t by (simp add: getTls_def)
  show ?thesis using p(1) 1 2 get set tls
    by (simp add: guard_enter_def malloc_push_def tls_push_def Let_def)
qed

lemma counter_guarded:
  assumes "counter pr a = Some v" "counter pr c = Some w"
  shows "counter (guarded owns a v c w pr) a
      = Some (if owns then (if a = c then v + 2 * one_ref else v + 3 * one_ref)
              else if a = c then v else v + one_ref)"
    and "a \<noteq> c \<Longrightarrow> counter (guarded owns a v c w pr) c = Some (w - one_ref)"
    and "x \<noteq> a \<Longrightarrow> x \<noteq> c \<Longrightarrow> counter (guarded owns a v c w pr) x = counter pr x"
  using assms by (auto simp: guarded_def Let_def)

lemma place_source_guarded [simp]:
  "place_source tls p (guarded owns a v c w pr) = place_source tls p pr"
  "top_source tls (guarded owns a v c w pr) = top_source tls pr"
  by (simp_all add: guarded_def Let_def)

lemma delete_guarded:
  assumes p: "place_source tls p pr = Some a" "a \<noteq> 0" and a: "counter pr a = Some v"
    and v: "v \<noteq> 0" "v \<noteq> - one_ref"
  shows "Option.bind (delete_places mc [p] (if pl_msource p = 0 then pr else set_counter a (v + 2 * one_ref) pr))
      (delete_places mc [p]) = Some pr"
proof (cases "pl_msource p = 0")
  case True
  then show ?thesis using delete_places_run [OF p a] by simp
next
  case False
  let ?pr2 = "set_counter a (v + 2 * one_ref) pr" and ?pr1 = "set_counter a (v + one_ref) pr"
  have n1: "v + one_ref \<noteq> one_ref" using v(1) by simp
  have n2: "v + 2 * one_ref \<noteq> one_ref"
  proof
    assume "v + 2 * one_ref = one_ref"
    then have "v = one_ref - 2 * one_ref" by (simp only: eq_diff_eq)
    then show False using v(2) by simp
  qed
  have "delete_places mc [p] ?pr2 = Some ?pr1"
    by (subst delete_places_run [OF _ p(2), where v = "v + 2 * one_ref" and tls = tls])
      (use False p(1) a n2 in \<open>simp_all add: algebra_simps\<close>)
  moreover have "delete_places mc [p] ?pr1 = Some pr"
    by (subst delete_places_run [OF _ p(2), where v = "v + one_ref" and tls = tls])
      (use False p(1) a n1 in \<open>simp_all add: set_counter_same\<close>)
  ultimately show ?thesis using False by simp
qed

lemma word_shift_neq: "(v::u64) + k = m \<longleftrightarrow> v = m - k"
  by (auto simp: algebra_simps)

lemma restore_guarded:
  assumes "counter pr a = Some v" "counter pr c = Some w" "a \<noteq> c" "owns \<Longrightarrow> u = v + 2 * one_ref" "\<not> owns \<Longrightarrow> u = v"
  shows "set_counter a u (set_counter c w (guarded owns a v c w pr)) = (if owns then set_counter a u pr else pr)"
  using assms set_counter_same [OF assms(1)] set_counter_same [OF assms(2)]
  by (simp add: guarded_def Let_def set_counter_commute [of c a])

lemma guard_leave_run:
  assumes t: "the_thread t pr = Some tls" and p: "place_source tls p pr = Some a" "a \<noteq> 0"
    and a: "counter pr a = Some v" "v \<notin> {0, - one_ref, - 2 * one_ref, - 3 * one_ref}"
    and c: "counter pr (tl_curr tls) = Some w" "tl_curr tls \<noteq> 0" "top_source tls pr = Some (tl_curr tls)"
  shows "guard_leave mc t p (put_thread t (tls\<lparr>tl_stack := tl_stack tls @ [p], tl_curr := a\<rparr>)
      (guarded (pl_msource p \<noteq> 0) a v (tl_curr tls) w pr)) = Some pr"
proof -
  let ?owns = "pl_msource p \<noteq> 0" and ?c = "tl_curr tls"
  let ?tls' = "tls\<lparr>tl_stack := tl_stack tls @ [p], tl_curr := a\<rparr>"
  let ?X = "put_thread t ?tls' (guarded ?owns a v ?c w pr)"
  let ?Z = "if pl_msource p = 0 then pr else set_counter a (v + 2 * one_ref) pr"
  define va where "va = (if ?owns then (if a = ?c then v + 2 * one_ref else v + 3 * one_ref)
              else if a = ?c then v else v + one_ref)"
  have X: "counter ?X a = Some va" using counter_guarded(1) [OF a(1) c(1)] by (simp add: va_def)
  have va: "?owns \<Longrightarrow> va + one_ref \<noteq> one_ref" "a \<noteq> ?c \<Longrightarrow> va \<noteq> one_ref"
    using a(2) by (auto simp: va_def word_shift_neq)
  have src: "place_source ?tls' p ?X = Some a" using p(1) by simp
  have drop: "Option.bind (copy_places [p] ?X) (delete_places mc [p]) = Some ?X"
  proof (cases ?owns)
    case True
    have "copy_places [p] ?X = Some (set_counter a (va + one_ref) ?X)"
      using copy_places_run [OF src p(2) X] True by simp
    moreover have "delete_places mc [p] (set_counter a (va + one_ref) ?X) = Some ?X"
      by (subst delete_places_run [OF _ p(2), where v = "va + one_ref" and tls = ?tls'])
        (use True va(1) src X in \<open>simp_all add: set_counter_same\<close>)
    ultimately show ?thesis by simp
  next
    case False
    then show ?thesis using copy_places_run [OF src p(2) X] delete_places_run [OF src p(2) X] by simp
  qed
  have get: "get_curr_msource mc (?tls'\<lparr>tl_stack := tl_stack tls\<rparr>) ?X = Some (?c, ?X)"
    by (rule get_curr_run) (use c(3) in \<open>auto simp: top_source_def split: if_splits\<close>)
  have set: "set_curr mc t (?tls'\<lparr>tl_stack := tl_stack tls\<rparr>) ?c ?X = Some ?Z"
  proof (cases "a = ?c")
    case True
    then show ?thesis
      using put_thread_same [OF t] put_thread_same [of t "set_counter ?c (v + 2 * one_ref) pr"] t set_counter_same [OF a(1)]
      by (simp add: set_curr_def assign_same guarded_def Let_def)
  next
    case False
    have "with_numa (handle_assign (mc_sys mc) a ?c) ?X
      = Some (?c, set_counter a (va - one_ref) (set_counter ?c w ?X))"
      by (subst assign_run [OF _ c(2) X p(2) va(2) False [symmetric], where v = "w - one_ref"])
        (use False counter_guarded(2) [OF a(1) c(1) False] in simp_all)
    moreover have "set_counter a (va - one_ref) (set_counter ?c w (guarded ?owns a v ?c w pr)) = ?Z"
      using restore_guarded [OF a(1) c(1) False, of ?owns "va - one_ref"] False
      by (auto simp: va_def algebra_simps)
    ultimately show ?thesis using put_thread_same [of t ?Z tls] t by (simp add: set_curr_def)
  qed
  have "Option.bind (delete_places mc [p] ?Z) (delete_places mc [p]) = Some pr"
    using delete_guarded [OF p a(1)] a(2) by auto
  moreover have "tls_pop mc t ?tls' ?X = Some (p, ?Z)"
    using drop get set by (auto simp: tls_pop_def Let_def bind_eq_Some_conv)
  ultimately show ?thesis by (simp add: guard_leave_def malloc_pop_def getTls_def)
qed

text \<open>Guards nested in each other, the innermost around nothing.\<close>

fun nest_guards :: "'w machine \<Rightarrow> nat \<Rightarrow> place list \<Rightarrow> 'w process \<Rightarrow> 'w process option" where
  "nest_guards mc t [] pr = Some pr"
| "nest_guards mc t (p # ps) pr = do {
     pr \<leftarrow> guard_enter mc t p pr;
     pr \<leftarrow> nest_guards mc t ps pr;
     guard_leave mc t p pr }"

definition refs_of :: "u64 \<Rightarrow> nat" where "refs_of v = unat (bc_refs v)"

lemma refs_of_div: "refs_of v = unat v div 2 ^ 40"
  by (simp only: refs_of_def bc_refs_def BlockBits_def unat_drop_bit)

lemma refs_of_add: "refs_of v + 1 < 2 ^ 24 \<Longrightarrow> refs_of (v + one_ref) = refs_of v + 1"
proof -
  assume "refs_of v + 1 < 2 ^ 24"
  then have "unat v + unat one_ref < 2 ^ 64" unfolding refs_of_div by simp
  then have "unat (v + one_ref) = unat v + 2 ^ 40" by (subst unat_add64) simp_all
  then show ?thesis unfolding refs_of_div by simp
qed

lemma refs_of_sub: "1 \<le> refs_of v \<Longrightarrow> refs_of (v - one_ref) = refs_of v - 1"
proof -
  assume h: "1 \<le> refs_of v"
  then have le: "2 ^ 40 \<le> unat v" unfolding refs_of_div by (simp add: div_greater_zero_iff Suc_le_eq)
  then have "one_ref \<le> v" by (simp add: word_le_nat_alt)
  then have "unat (v - one_ref) = unat v - 2 ^ 40" by (subst unat_sub) simp_all
  then show ?thesis using le unfolding refs_of_div by (simp add: le_div_geq)
qed

lemma refs_of_bounds: "1 \<le> refs_of v \<Longrightarrow> refs_of v + 3 < 2 ^ 24 \<Longrightarrow> v \<notin> {0, - one_ref, - 2 * one_ref, - 3 * one_ref}"
  unfolding refs_of_div by auto

lemma refs_of_one: "2 \<le> refs_of v \<Longrightarrow> v \<noteq> one_ref"
  unfolding refs_of_div by auto

definition place_ready :: "nat \<Rightarrow> thread_storage \<Rightarrow> 'w process \<Rightarrow> place \<Rightarrow> bool" where
  "place_ready n tls pr p \<longleftrightarrow> place_valid p \<and> (\<exists>a v. place_source tls p pr = Some a \<and> a \<noteq> 0
     \<and> counter pr a = Some v \<and> 1 \<le> refs_of v \<and> refs_of v + 3 * n < 2 ^ 24)"

definition thread_ready :: "nat \<Rightarrow> thread_storage \<Rightarrow> 'w process \<Rightarrow> bool" where
  "thread_ready t tls pr \<longleftrightarrow> the_thread t pr = Some tls \<and> top_source tls pr = Some (tl_curr tls)
     \<and> tl_curr tls \<noteq> 0 \<and> (\<exists>w. counter pr (tl_curr tls) = Some w \<and> 2 \<le> refs_of w)"

lemma refs_guarded:
  assumes v: "1 \<le> refs_of v" "refs_of v + 3 < 2 ^ 24" and a: "counter pr a = Some v"
    and c: "counter pr c = Some w" "2 \<le> refs_of w"
  shows "\<exists>u. counter (guarded owns a v c w pr) a = Some u \<and> 2 \<le> refs_of u \<and> refs_of u \<le> refs_of v + 3"
proof -
  have r1: "refs_of (v + one_ref) = refs_of v + 1" using v by (intro refs_of_add) simp
  have r2: "refs_of (v + 2 * one_ref) = refs_of v + 2"
    using refs_of_add [of "v + one_ref"] v r1 by (simp add: algebra_simps)
  have r3: "refs_of (v + 3 * one_ref) = refs_of v + 3"
    using refs_of_add [of "v + 2 * one_ref"] v r2 by (simp add: algebra_simps)
  have "a = c \<Longrightarrow> 2 \<le> refs_of v" using a c by simp
  then show ?thesis using counter_guarded(1) [OF a c(1), of owns] v(1) r1 r2 r3 by auto
qed

lemma place_ready_guarded:
  assumes q: "place_ready (Suc n) tls pr q"
    and v: "1 \<le> refs_of v" "refs_of v + 3 * Suc n < 2 ^ 24" and a: "counter pr a = Some v"
    and c: "counter pr c = Some w" "2 \<le> refs_of w"
  shows "place_ready n (tls\<lparr>tl_stack := s, tl_curr := a\<rparr>) (put_thread t x (guarded owns a v c w pr)) q"
proof -
  obtain b u where b: "place_source tls q pr = Some b" "b \<noteq> 0" "counter pr b = Some u" "1 \<le> refs_of u"
    "refs_of u + 3 * Suc n < 2 ^ 24" and val: "place_valid q" using q by (auto simp: place_ready_def)
  have "\<exists>u'. counter (guarded owns a v c w pr) b = Some u' \<and> 1 \<le> refs_of u' \<and> refs_of u' + 3 * n < 2 ^ 24"
  proof -
    consider "b = a" | "b \<noteq> a" "b = c" | "b \<noteq> a" "b \<noteq> c" by blast
    then show ?thesis
    proof cases
      case 1
      obtain u' where u': "counter (guarded owns a v c w pr) a = Some u'" "2 \<le> refs_of u'" "refs_of u' \<le> refs_of v + 3"
        using refs_guarded [OF v(1) _ a c, of owns] v(2) by auto
      then show ?thesis using 1 v(2) by (intro exI [of _ u']) auto
    next
      case 2
      then have "counter (guarded owns a v c w pr) b = Some (w - one_ref)" "w = u"
        using counter_guarded(2) [OF a c(1)] b(3) c(1) by auto
      then show ?thesis using refs_of_sub [of w] c(2) b(5) by auto
    next
      case 3
      then show ?thesis using counter_guarded(3) [OF a c(1)] b by auto
    qed
  qed
  then show ?thesis using b(1,2) val by (auto simp: place_ready_def)
qed

text \<open>
  C39: Guards are transparent. Entering a guard for each place of a list, one inside the other, and
  leaving them in the reverse order brings back the state of the process exactly: the stack and
  the current source of the thread, and the reference count of every memory source, whether
  the places name a source or a node. It is enough that every source involved is alive, that the
  current one is held by somebody else besides the thread's current pointer, and that the
  24-bit reference counts have room for three references per guard.
\<close>

theorem nested_guards_restore:
  assumes "thread_ready t tls pr" "list_all (place_ready (length ps) tls pr) ps"
  shows "nest_guards mc t ps pr = Some pr"
  using assms
proof (induction ps arbitrary: tls pr)
  case (Cons p ps)
  obtain w where t: "the_thread t pr = Some tls" "top_source tls pr = Some (tl_curr tls)" "tl_curr tls \<noteq> 0"
    and c: "counter pr (tl_curr tls) = Some w" "2 \<le> refs_of w" using Cons.prems(1) by (auto simp: thread_ready_def)
  obtain a v where p: "place_valid p" "place_source tls p pr = Some a" "a \<noteq> 0"
    and a: "counter pr a = Some v" "1 \<le> refs_of v" "refs_of v + 3 * Suc (length ps) < 2 ^ 24"
    using Cons.prems(2) by (auto simp: place_ready_def)
  have v3: "refs_of v + 3 < 2 ^ 24" using a(3) by simp
  let ?tls = "tls\<lparr>tl_stack := tl_stack tls @ [p], tl_curr := a\<rparr>"
  let ?pr = "put_thread t ?tls (guarded (pl_msource p \<noteq> 0) a v (tl_curr tls) w pr)"
  have enter: "guard_enter mc t p pr = Some ?pr"
    by (rule guard_enter_run [OF t(1) p a(1) c(1) t(3) refs_of_one [OF c(2)]])
  have "thread_ready t ?tls ?pr"
    using p(2,3) refs_guarded [OF a(2) v3 a(1) c] by (auto simp: thread_ready_def top_source_def)
  moreover have "list_all (place_ready (length ps) ?tls ?pr) ps"
    using Cons.prems(2) place_ready_guarded [OF _ a(2,3,1) c] by (auto simp: list_all_iff)
  ultimately have "nest_guards mc t ps ?pr = Some ?pr" by (rule Cons.IH)
  moreover have "guard_leave mc t p ?pr = Some pr"
    by (rule guard_leave_run [OF t(1) p(2,3) a(1) refs_of_bounds [OF a(2) v3] c(1) t(3,2)])
  ultimately show ?case using enter by simp
qed simp

text \<open>A thread on node 0 whose source is \<open>0x5000\<close>, a second source, and guards for both.\<close>

definition demo_machine :: "nat machine" where
  "demo_machine = \<lparr>mc_env = demo_env, mc_sys = fixed_sys, mc_topology = demo_topology, mc_mapping = [0, 1],
     mc_cpu = (\<lambda>_. 0), mc_hash = (\<lambda>_. 0)\<rparr>"

definition demo_thread :: thread_storage where
  "demo_thread = \<lparr>tl_addr = 0x7000, tl_tid = 1, tl_node = 0, tl_storage = Some 0, tl_initializing = True,
     tl_done = True, tl_thread_msource = 0x5000, tl_stack = [], tl_curr = 0x5000\<rparr>"

definition demo_process :: "nat process" where
  "demo_process = \<lparr>pr_numa = demo_numa\<lparr>ns_sources := [0x5000 \<mapsto> demo_source\<lparr>ms_blocks := 2 * one_ref\<rparr>,
       0x6000 \<mapsto> demo_source\<lparr>ms_blocks := one_ref + 7\<rparr>]\<rparr>,
     pr_statics = \<lparr>st_global = 0x6000, st_impls = [], st_ptrs = []\<rparr>, pr_nodes = None,
     pr_threads = [0 \<mapsto> demo_thread]\<rparr>"

definition demo_places :: "place list" where
  "demo_places = [\<lparr>pl_msource = 0x6000, pl_node = no_node\<rparr>,
     \<lparr>pl_msource = 0, pl_node = \<lparr>nd_logical = 0, nd_physical = 0\<rparr>\<rparr>]"

lemma demo_counters:
  "counter demo_process 0x5000 = Some (2 * one_ref)" "counter demo_process 0x6000 = Some (one_ref + 7)"
  by (simp_all add: counter_def demo_process_def the_source_def demo_numa_def)

lemma demo_refs: "refs_of (2 * one_ref) = 2" "refs_of (one_ref + 7) = 1"
  by (simp_all add: refs_of_div)

theorem nested_guards_restore_wit: "nest_guards demo_machine 0 demo_places demo_process = Some demo_process"
proof (rule nested_guards_restore [where tls = demo_thread])
  show "thread_ready 0 demo_thread demo_process"
    using demo_counters demo_refs
    by (simp add: thread_ready_def the_thread_def top_source_def demo_thread_def)
      (simp add: demo_process_def demo_thread_def)
  show "list_all (place_ready (length demo_places) demo_thread demo_process) demo_places"
    using demo_counters demo_refs
    by (simp add: demo_places_def place_ready_def place_source_def place_valid_def node_valid_def
        demo_thread_def no_node_def)
qed

theorem calloc_wraps_wit:
  "c_calloc demo_machine 0 0x100000001 0x100000000 demo_process
      = c_calloc demo_machine 0 1 (of_nat 0x100000000) demo_process
    \<and> 0x100000000 < unat (0x100000001 :: u64) * unat (0x100000000 :: u64)"
  by (rule calloc_wraps [where q = 1]) simp_all

end
