(* ===== verification/Backoff.thy ===== *)
theory Backoff
  imports Prelude
begin

text \<open>
  \<open>src/include/PGASUS/base/spinlock.hpp\<close>: the two back-off policies, and the spin lock. The lock is a
  transition system: threads interleave at the granularity of the atomic test-and-set, the
  update of the shared back-off counter, and the clearing of the flag.
\<close>

section \<open>Back-off policies\<close>

text \<open>A policy has the initial value of the counter, and a step: whether to go on, and the new value.\<close>

record backoff =
  bo_initial :: u64
  bo_step :: "u64 \<Rightarrow> bool \<times> u64"

definition exponential_backoff :: "u64 \<Rightarrow> u64 \<Rightarrow> backoff" where
  "exponential_backoff initial mx = \<lparr>bo_initial = initial,
     bo_step = (\<lambda>cnt. if cnt < mx then (True, push_bit 1 cnt) else (False, cnt))\<rparr>"

definition linear_backoff :: "u64 \<Rightarrow> u64 \<Rightarrow> backoff" where
  "linear_backoff step mx = \<lparr>bo_initial = step,
     bo_step = (\<lambda>cnt. if cnt < mx then (True, cnt + step) else (False, cnt))\<rparr>"

text \<open>\<open>SpinLock\<close> and the lock of \<open>MemSourceImpl\<close> with their template arguments.\<close>

definition spinlock_backoff :: backoff where "spinlock_backoff = exponential_backoff 16 (push_bit 10 1)"
definition msource_backoff :: backoff where "msource_backoff = linear_backoff 256 4096"

text \<open>
  \<open>try_lock\<close> of one thread. The argument \<open>taken\<close> gives the results of its calls of \<open>test_and_set\<close>.
  The counter is a member of the lock that other threads use meanwhile: \<open>env i c\<close> is what they make of
  the value \<open>c\<close> before the thread's \<open>i\<close>-th back-off. The result has the number of calls and the final
  counter; \<open>None\<close> is a call that does not return.
\<close>

partial_function (option) try_lock_loop ::
  "backoff \<Rightarrow> (nat \<Rightarrow> bool) \<Rightarrow> (nat \<Rightarrow> u64 \<Rightarrow> u64) \<Rightarrow> nat \<Rightarrow> u64 \<Rightarrow> (bool \<times> nat \<times> u64) option" where
  "try_lock_loop bo taken env i cnt =
     (if taken i then
        (if \<not> fst (bo_step bo (env i cnt)) then Some (False, Suc i, snd (bo_step bo (env i cnt)))
         else try_lock_loop bo taken env (Suc i) (snd (bo_step bo (env i cnt))))
      else Some (True, Suc i, bo_initial bo))"

definition try_lock :: "backoff \<Rightarrow> (nat \<Rightarrow> bool) \<Rightarrow> (nat \<Rightarrow> u64 \<Rightarrow> u64) \<Rightarrow> u64 \<Rightarrow> (bool \<times> nat \<times> u64) option" where
  "try_lock bo taken env cnt = try_lock_loop bo taken env 0 cnt"

text \<open>A call of \<open>test_and_set\<close> that is not the last one has found the lock taken; the last one decides.\<close>

definition loop_result :: "(nat \<Rightarrow> bool) \<Rightarrow> nat \<Rightarrow> nat \<Rightarrow> (bool \<times> nat \<times> u64) option \<Rightarrow> bool" where
  "loop_result taken i d r \<longleftrightarrow> (\<exists>ok m c. r = Some (ok, Suc m, c) \<and> i \<le> m \<and> m \<le> i + d
     \<and> ok = (\<not> taken m) \<and> (\<forall>k\<in>{i..<m}. taken k))"

lemma loop_result_Suc:
  assumes "taken i" "loop_result taken (Suc i) d r"
  shows "loop_result taken i (Suc d) r"
proof -
  obtain ok m c where m: "r = Some (ok, Suc m, c)" "Suc i \<le> m" "m \<le> Suc i + d" "ok = (\<not> taken m)" "\<forall>k\<in>{Suc i..<m}. taken k"
    using assms(2) by (auto simp: loop_result_def)
  have "{i..<m} = insert i {Suc i..<m}" using m(2) by auto
  then have "\<forall>k\<in>{i..<m}. taken k" using m(5) assms(1) by simp
  then show ?thesis using m by (auto simp: loop_result_def)
qed

text \<open>Other threads that only back off do not make the counter smaller, so it doubles until it stops the loop.\<close>

lemma spinlock_step:
  "bo_step spinlock_backoff c = (if c < 1024 then (True, push_bit 1 c) else (False, c))"
  by (simp add: spinlock_backoff_def exponential_backoff_def push_bit_eq_mult)

lemma unat_double: "(c :: u64) < 1024 \<Longrightarrow> 2 * unat c = unat (push_bit 1 c)"
  by (simp add: push_bit_eq_mult unat_word_ariths word_less_nat_alt)

lemma try_lock_loop_bound:
  assumes env: "\<And>i c. c \<le> env i c" and cnt: "2 ^ (10 - d) \<le> unat cnt" "d \<le> 10"
  shows "loop_result taken i d (try_lock_loop spinlock_backoff taken env i cnt)"
  using cnt
proof (induction d arbitrary: i cnt)
  case 0
  have "1024 \<le> unat (env i cnt)" using 0 env [of cnt i] by (simp add: word_le_nat_alt)
  then have "\<not> env i cnt < 1024" by (simp add: word_less_nat_alt)
  then show ?case by (auto simp: loop_result_def try_lock_loop.simps [of _ taken _ i] spinlock_step)
next
  case (Suc d)
  show ?case
  proof (cases "taken i \<and> env i cnt < 1024")
    case False
    then show ?thesis by (auto simp: loop_result_def try_lock_loop.simps [of _ taken _ i] spinlock_step)
  next
    case True
    have "(2::nat) ^ (10 - d) = 2 * 2 ^ (10 - Suc d)" using Suc.prems(2) by (simp add: Suc_diff_le flip: power_Suc)
    also have "\<dots> \<le> 2 * unat (env i cnt)" using Suc.prems(1) env [of cnt i] by (simp add: word_le_nat_alt)
    also have "\<dots> = unat (push_bit 1 (env i cnt))" using True by (intro unat_double) simp
    finally have "loop_result taken (Suc i) d (try_lock_loop spinlock_backoff taken env (Suc i) (push_bit 1 (env i cnt)))"
      using Suc.IH Suc.prems(2) by simp
    then show ?thesis using True loop_result_Suc by (simp add: try_lock_loop.simps [of _ taken _ i] spinlock_step)
  qed
qed

lemma try_lock_loop_never:
  "try_lock_loop spinlock_backoff (\<lambda>_. True) (\<lambda>_ _. 16) i cnt = None"
proof -
  have "try_lock_loop bo tk env i c = Some r \<Longrightarrow> bo = spinlock_backoff \<longrightarrow> tk = (\<lambda>_. True) \<longrightarrow> env \<noteq> (\<lambda>_ _. 16)"
    for bo tk env i c r
    by (erule try_lock_loop.raw_induct [rotated, where P = "\<lambda>bo tk env i c r.
      bo = spinlock_backoff \<longrightarrow> tk = (\<lambda>_. True) \<longrightarrow> env \<noteq> (\<lambda>_ _. 16)"])
      (auto simp: spinlock_step split: if_splits)
  then show ?thesis by (metis not_Some_eq)
qed

text \<open>
  C40: \<open>try_lock\<close> on a \<open>SpinLock\<close> returns after at most seven calls of \<open>test_and_set\<close>, from every value
  of the shared counter (it is never below 16), as long as the other threads only back off, too; it
  succeeds exactly if its last call finds the lock free, and all calls before have found it taken.
  The condition is needed: when threads that get the lock reset the counter each time, \<open>try_lock\<close>
  need not return at all; and when others have driven the counter up, it gives up after one call.
\<close>

theorem try_lock_returns:
  assumes "\<And>i c. c \<le> env i c" "16 \<le> cnt"
  shows "(\<exists>ok n c. try_lock spinlock_backoff taken env cnt = Some (ok, n, c)
      \<and> 0 < n \<and> n \<le> 7 \<and> ok = (\<not> taken (n - 1)) \<and> (\<forall>k<n - 1. taken k))
    \<and> try_lock spinlock_backoff (\<lambda>_. True) (\<lambda>_ _. 16) cnt = None
    \<and> (taken 0 \<longrightarrow> try_lock spinlock_backoff taken (\<lambda>_ _. 1024) cnt = Some (False, 1, 1024))"
proof -
  have "16 \<le> unat cnt" using assms(2) by (simp add: word_le_nat_alt)
  then have "loop_result taken 0 6 (try_lock_loop spinlock_backoff taken env 0 cnt)"
    by (intro try_lock_loop_bound [OF assms(1)]) simp_all
  then obtain ok m c where "try_lock spinlock_backoff taken env cnt = Some (ok, Suc m, c)" "m \<le> 6"
    "ok = (\<not> taken m)" "\<forall>k\<in>{0..<m}. taken k" by (auto simp: loop_result_def try_lock_def)
  moreover have "taken 0 \<longrightarrow> try_lock spinlock_backoff taken (\<lambda>_ _. 1024) cnt = Some (False, 1, 1024)"
    by (simp add: try_lock_def try_lock_loop.simps spinlock_step)
  ultimately show ?thesis using try_lock_loop_never by (auto simp: try_lock_def)
qed

theorem try_lock_returns_wit:
  "\<exists>n c. try_lock spinlock_backoff (\<lambda>_. True) (\<lambda>i c. c) 16 = Some (False, n, c) \<and> n \<le> 7"
  using try_lock_returns [of "\<lambda>i c. c" 16 "\<lambda>_. True"] by auto

section \<open>The spin lock\<close>

text \<open>
  What a thread does: nothing; spinning in \<open>lock\<close> (\<open>False\<close>) or \<open>try_lock\<close> (\<open>True\<close>), before a
  test-and-set or before a back-off; resetting the counter after it got the lock; inside the
  critical section.
\<close>

datatype spin_pc = Idle | Testing bool | Backing bool | Resetting | Critical

record spin_state =
  sp_locked :: bool
  sp_curr :: u64
  sp_pc :: "nat \<Rightarrow> spin_pc"

definition goto :: "nat \<Rightarrow> spin_pc \<Rightarrow> spin_state \<Rightarrow> spin_state" where
  "goto t c s = s\<lparr>sp_pc := (sp_pc s)(t := c)\<rparr>"

inductive spin_step :: "backoff \<Rightarrow> spin_state \<Rightarrow> spin_state \<Rightarrow> bool" for bo where
  call: "sp_pc s t = Idle \<Longrightarrow> spin_step bo s (goto t (Testing tr) s)"
| acquire: "sp_pc s t = Testing tr \<Longrightarrow> \<not> sp_locked s \<Longrightarrow>
    spin_step bo s (goto t Resetting (s\<lparr>sp_locked := True\<rparr>))"
| busy: "sp_pc s t = Testing tr \<Longrightarrow> sp_locked s \<Longrightarrow>
    spin_step bo s (goto t (Backing tr) (s\<lparr>sp_locked := True\<rparr>))"
| backoff: "sp_pc s t = Backing tr \<Longrightarrow> bo_step bo (sp_curr s) = (go, c) \<Longrightarrow>
    spin_step bo s (goto t (if tr \<and> \<not> go then Idle else Testing tr) (s\<lparr>sp_curr := c\<rparr>))"
| reset: "sp_pc s t = Resetting \<Longrightarrow>
    spin_step bo s (goto t Critical (s\<lparr>sp_curr := bo_initial bo\<rparr>))"
| unlock: "sp_pc s t = Critical \<Longrightarrow> spin_step bo s (goto t Idle (s\<lparr>sp_locked := False\<rparr>))"

definition spin_init :: "backoff \<Rightarrow> spin_state" where
  "spin_init bo = \<lparr>sp_locked = False, sp_curr = bo_initial bo, sp_pc = (\<lambda>_. Idle)\<rparr>"

inductive spin_reachable :: "backoff \<Rightarrow> spin_state \<Rightarrow> bool" for bo where
  init: "spin_reachable bo (spin_init bo)"
| step: "spin_reachable bo s \<Longrightarrow> spin_step bo s s' \<Longrightarrow> spin_reachable bo s'"

definition holds_lock :: "spin_state \<Rightarrow> nat \<Rightarrow> bool" where
  "holds_lock s t \<longleftrightarrow> sp_pc s t = Resetting \<or> sp_pc s t = Critical"

definition spin_inv :: "spin_state \<Rightarrow> bool" where
  "spin_inv s \<longleftrightarrow> (if sp_locked s then \<exists>t. {t. holds_lock s t} = {t} else {t. holds_lock s t} = {})"

lemma holders_goto:
  "{u. holds_lock (goto t c s) u} = (if c = Resetting \<or> c = Critical then insert t {u. holds_lock s u} else {u. holds_lock s u} - {t})"
  by (auto simp: holds_lock_def goto_def)

lemma spin_fields [simp]:
  "sp_locked (goto t c s) = sp_locked s" "sp_curr (goto t c s) = sp_curr s"
  "holds_lock (s\<lparr>sp_locked := b\<rparr>) = holds_lock s" "holds_lock (s\<lparr>sp_curr := v\<rparr>) = holds_lock s"
  by (simp_all add: goto_def holds_lock_def fun_eq_iff)

lemma spin_inv_step: "spin_step bo s s' \<Longrightarrow> spin_inv s \<Longrightarrow> spin_inv s'"
proof (induction rule: spin_step.induct)
  case (call s t tr)
  then have "\<not> holds_lock s t" by (simp add: holds_lock_def)
  then show ?case using call.prems by (auto simp: spin_inv_def holders_goto split: if_splits)
next
  case (acquire s t tr)
  then show ?case by (auto simp: spin_inv_def holders_goto split: if_splits)
next
  case (busy s t tr)
  then have "\<not> holds_lock s t" by (simp add: holds_lock_def)
  then have "{u. holds_lock s u} - {t} = {u. holds_lock s u}" by blast
  then show ?case using busy by (simp add: spin_inv_def holders_goto)
next
  case (backoff s t tr go c)
  then have "\<not> holds_lock s t" by (simp add: holds_lock_def)
  then have "{u. holds_lock s u} - {t} = {u. holds_lock s u}" by blast
  then show ?case using backoff.prems by (simp add: spin_inv_def holders_goto)
next
  case (reset s t)
  then have "holds_lock s t" by (simp add: holds_lock_def)
  moreover from this have "sp_locked s" using reset.prems by (auto simp: spin_inv_def split: if_splits)
  moreover have "insert t {u. holds_lock s u} = {u. holds_lock s u}" using calculation(1) by blast
  ultimately show ?case using reset.prems by (simp add: spin_inv_def holders_goto)
next
  case (unlock s t)
  then have "holds_lock s t" by (simp add: holds_lock_def)
  then have t: "t \<in> {u. holds_lock s u}" by simp
  then obtain u where "{u. holds_lock s u} = {u}" using unlock.prems by (auto simp: spin_inv_def split: if_splits)
  then have "{u. holds_lock s u} = {t}" using t by simp
  then show ?case by (simp add: spin_inv_def holders_goto)
qed

lemma spin_reachable_inv: "spin_reachable bo s \<Longrightarrow> spin_inv s"
proof (induction rule: spin_reachable.induct)
  case init
  then show ?case by (simp add: spin_inv_def spin_init_def holds_lock_def)
qed (rule spin_inv_step)

text \<open>
  C35: The spin lock excludes: in every reachable state, whatever the interleaving of any number of
  threads in \<open>lock\<close>, \<open>try_lock\<close> and \<open>unlock\<close>, at most one thread is past its test-and-set and has not
  unlocked, and the flag is set exactly if there is one.
\<close>

theorem spin_lock_excludes:
  assumes "spin_reachable bo s"
  shows "(sp_locked s \<longleftrightarrow> {t. holds_lock s t} \<noteq> {}) \<and> (\<exists>t. {u. holds_lock s u} \<subseteq> {t})"
  using spin_reachable_inv [OF assms] by (auto simp: spin_inv_def split: if_splits)

text \<open>A run in which thread 1 has the lock and thread 2 has backed off once.\<close>

definition demo_spin :: spin_state where
  "demo_spin = \<lparr>sp_locked = True, sp_curr = 32, sp_pc = (\<lambda>_. Idle)(1 := Critical, 2 := Testing False)\<rparr>"

lemma demo_spin_reachable: "spin_reachable spinlock_backoff demo_spin"
proof -
  let ?bo = spinlock_backoff and ?i = "spin_init spinlock_backoff"
  let ?s1 = "goto 1 (Testing False) ?i"
  let ?s2 = "goto 1 Resetting (?s1\<lparr>sp_locked := True\<rparr>)"
  let ?s3 = "goto 1 Critical (?s2\<lparr>sp_curr := bo_initial ?bo\<rparr>)"
  let ?s4 = "goto 2 (Testing False) ?s3"
  let ?s5 = "goto 2 (Backing False) (?s4\<lparr>sp_locked := True\<rparr>)"
  have pcs [simp]: "sp_pc ?i t = Idle" "\<not> sp_locked ?i" "sp_pc (goto u c s) t = (if t = u then c else sp_pc s t)"
    for t u c s by (simp_all add: spin_init_def goto_def)
  have "spin_reachable ?bo ?s1" by (rule spin_reachable.step [OF spin_reachable.init spin_step.call]) simp
  then have "spin_reachable ?bo ?s2" by (rule spin_reachable.step [OF _ spin_step.acquire [where tr = False]]) simp_all
  then have "spin_reachable ?bo ?s3" by (rule spin_reachable.step [OF _ spin_step.reset]) simp
  then have "spin_reachable ?bo ?s4" by (rule spin_reachable.step [OF _ spin_step.call]) simp
  then have r5: "spin_reachable ?bo ?s5" by (rule spin_reachable.step [OF _ spin_step.busy [where tr = False]]) simp_all
  have "bo_step ?bo (sp_curr ?s5) = (True, 32)"
    by (simp add: spinlock_backoff_def exponential_backoff_def push_bit_eq_mult)
  from spin_step.backoff [OF _ this, of 2 False]
  have "spin_step ?bo ?s5 (goto 2 (Testing False) (?s5\<lparr>sp_curr := 32\<rparr>))" by simp
  with r5 have "spin_reachable ?bo (goto 2 (Testing False) (?s5\<lparr>sp_curr := 32\<rparr>))" by (rule spin_reachable.step)
  also have "goto 2 (Testing False) (?s5\<lparr>sp_curr := 32\<rparr>) = demo_spin"
    by (simp add: goto_def demo_spin_def spin_init_def fun_eq_iff)
  finally show ?thesis .
qed

theorem spin_lock_excludes_wit:
  "(sp_locked demo_spin \<longleftrightarrow> {t. holds_lock demo_spin t} \<noteq> {}) \<and> (\<exists>t. {u. holds_lock demo_spin u} \<subseteq> {t})"
  by (rule spin_lock_excludes [OF demo_spin_reachable])

end
