(* ===== verification/Rwlock.thy ===== *)
theory Rwlock
  imports Prelude
begin

unbundle bit_operations_syntax

text \<open>
  \<open>src/include/PGASUS/base/rwlock.hpp\<close>: the readers-writer lock, one 64-bit word that counts readers and
  has a flag for a writer. Every load, compare-and-swap, subtraction and store of the word is
  one step of a thread; a failed check is a step to \<open>Failed\<close>. The weak compare-and-swap may fail
  without reason, and reloads the word when it fails.
\<close>

definition FLAG_WRITE :: u64 where "FLAG_WRITE = 0x40000000"

datatype rw_pc = RW_Idle
  | R_Loaded u64 | R_Got | R_Reading | R_Leaving
  | W_Loaded u64 | W_Waiting | W_Got | W_Writing | W_Leaving
  | RW_Failed

record rw_state =
  rw_value :: u64
  rw_pcs :: "rw_pc list"

definition rw_at :: "rw_state \<Rightarrow> nat \<Rightarrow> rw_pc \<Rightarrow> bool" where
  "rw_at s t c \<longleftrightarrow> t < length (rw_pcs s) \<and> rw_pcs s ! t = c"

definition rw_goto :: "nat \<Rightarrow> rw_pc \<Rightarrow> u64 \<Rightarrow> rw_state \<Rightarrow> rw_state" where
  "rw_goto t c v s = \<lparr>rw_value = v, rw_pcs = (rw_pcs s)[t := c]\<rparr>"

definition reader_check :: "u64 \<Rightarrow> bool" where "reader_check v \<longleftrightarrow> v \<noteq> 0 \<and> v \<noteq> FLAG_WRITE"

inductive rw_step :: "rw_state \<Rightarrow> rw_state \<Rightarrow> bool" where
  read_lock: "rw_at s t RW_Idle \<Longrightarrow> rw_step s (rw_goto t (R_Loaded (rw_value s)) (rw_value s) s)"
| read_busy: "rw_at s t (R_Loaded v) \<Longrightarrow> v AND FLAG_WRITE \<noteq> 0 \<Longrightarrow>
    rw_step s (rw_goto t (R_Loaded (rw_value s)) (rw_value s) s)"
| read_cas: "rw_at s t (R_Loaded v) \<Longrightarrow> v AND FLAG_WRITE = 0 \<Longrightarrow> rw_value s = v \<Longrightarrow>
    rw_step s (rw_goto t R_Got (v + 1) s)"
| read_retry: "rw_at s t (R_Loaded v) \<Longrightarrow> v AND FLAG_WRITE = 0 \<Longrightarrow>
    rw_step s (rw_goto t (R_Loaded (rw_value s)) (rw_value s) s)"
| read_check: "rw_at s t R_Got \<Longrightarrow>
    rw_step s (rw_goto t (if reader_check (rw_value s) then R_Reading else RW_Failed) (rw_value s) s)"
| read_unlock: "rw_at s t R_Reading \<Longrightarrow>
    rw_step s (rw_goto t (if reader_check (rw_value s) then R_Leaving else RW_Failed) (rw_value s) s)"
| read_leave: "rw_at s t R_Leaving \<Longrightarrow> rw_step s (rw_goto t RW_Idle (rw_value s - 1) s)"
| write_lock: "rw_at s t RW_Idle \<Longrightarrow> rw_step s (rw_goto t (W_Loaded (rw_value s)) (rw_value s) s)"
| write_busy: "rw_at s t (W_Loaded v) \<Longrightarrow> v AND FLAG_WRITE \<noteq> 0 \<Longrightarrow>
    rw_step s (rw_goto t (W_Loaded (rw_value s)) (rw_value s) s)"
| write_cas: "rw_at s t (W_Loaded v) \<Longrightarrow> v AND FLAG_WRITE = 0 \<Longrightarrow> rw_value s = v \<Longrightarrow>
    rw_step s (rw_goto t W_Waiting (v OR FLAG_WRITE) s)"
| write_retry: "rw_at s t (W_Loaded v) \<Longrightarrow> v AND FLAG_WRITE = 0 \<Longrightarrow>
    rw_step s (rw_goto t (W_Loaded (rw_value s)) (rw_value s) s)"
| write_wait: "rw_at s t W_Waiting \<Longrightarrow>
    rw_step s (rw_goto t (if rw_value s \<noteq> FLAG_WRITE then W_Waiting else W_Got) (rw_value s) s)"
| write_check: "rw_at s t W_Got \<Longrightarrow>
    rw_step s (rw_goto t (if rw_value s = FLAG_WRITE then W_Writing else RW_Failed) (rw_value s) s)"
| write_unlock: "rw_at s t W_Writing \<Longrightarrow>
    rw_step s (rw_goto t (if rw_value s = FLAG_WRITE then W_Leaving else RW_Failed) (rw_value s) s)"
| write_leave: "rw_at s t W_Leaving \<Longrightarrow> rw_step s (rw_goto t RW_Idle 0 s)"

definition rw_init :: "nat \<Rightarrow> rw_state" where
  "rw_init n = \<lparr>rw_value = 0, rw_pcs = replicate n RW_Idle\<rparr>"

inductive rw_reachable :: "nat \<Rightarrow> rw_state \<Rightarrow> bool" for n where
  init: "rw_reachable n (rw_init n)"
| step: "rw_reachable n s \<Longrightarrow> rw_step s s' \<Longrightarrow> rw_reachable n s'"

section \<open>The invariant\<close>

fun is_reader :: "rw_pc \<Rightarrow> bool" where
  "is_reader c \<longleftrightarrow> c = R_Got \<or> c = R_Reading \<or> c = R_Leaving"

fun is_writer :: "rw_pc \<Rightarrow> bool" where
  "is_writer c \<longleftrightarrow> c = W_Waiting \<or> c = W_Got \<or> c = W_Writing \<or> c = W_Leaving"

fun is_exclusive :: "rw_pc \<Rightarrow> bool" where
  "is_exclusive c \<longleftrightarrow> c = W_Got \<or> c = W_Writing \<or> c = W_Leaving"

definition rw_inv :: "rw_state \<Rightarrow> bool" where
  "rw_inv s \<longleftrightarrow> length (rw_pcs s) < 2 ^ 30
     \<and> unat (rw_value s) = how_many is_reader (rw_pcs s) + 2 ^ 30 * how_many is_writer (rw_pcs s)
     \<and> how_many is_writer (rw_pcs s) \<le> 1
     \<and> (how_many is_exclusive (rw_pcs s) = 0 \<or> how_many is_reader (rw_pcs s) = 0)
     \<and> how_many (\<lambda>c. c = RW_Failed) (rw_pcs s) = 0"

lemma FLAG_bit: "v AND FLAG_WRITE = 0 \<longleftrightarrow> \<not> bit v 30"
proof -
  have "FLAG_WRITE = 2 ^ 30" by (simp add: FLAG_WRITE_def)
  then show ?thesis using and_exp_eq_0_iff_not_bit [of v 30] by simp
qed

lemma bit_30: "unat (v::u64) = r + 2 ^ 30 * w \<Longrightarrow> r < 2 ^ 30 \<Longrightarrow> w \<le> 1 \<Longrightarrow> bit v 30 \<longleftrightarrow> w = 1"
proof -
  assume h: "unat v = r + 2 ^ 30 * w" "r < 2 ^ 30" "w \<le> 1"
  have "bit v 30 \<longleftrightarrow> bit (unat v) 30" by (simp add: bit_unsigned_iff)
  also have "\<dots> \<longleftrightarrow> odd (unat v div 2 ^ 30)" by (rule bit_iff_odd)
  also have "unat v div 2 ^ 30 = w" using h by simp
  finally show ?thesis using h(3) by (cases w) auto
qed

lemma or_FLAG: "v AND FLAG_WRITE = 0 \<Longrightarrow> unat v < 2 ^ 30 \<Longrightarrow> unat (v OR FLAG_WRITE) = unat v + 2 ^ 30"
proof -
  assume h: "v AND FLAG_WRITE = 0" "unat v < 2 ^ 30"
  have "v OR FLAG_WRITE = v + FLAG_WRITE" using h(1) by (simp add: disjunctive_add_eq_or)
  moreover have "unat FLAG_WRITE = 2 ^ 30" by (simp add: FLAG_WRITE_def)
  ultimately show ?thesis using h(2) by (simp add: unat_add64)
qed

lemma value_eq_FLAG: "v = FLAG_WRITE \<longleftrightarrow> unat v = 2 ^ 30"
proof -
  have "unat FLAG_WRITE = 2 ^ 30" by (simp add: FLAG_WRITE_def)
  then show ?thesis using word_unat_eq_iff [of v FLAG_WRITE] by simp
qed

text \<open>
  How a thread's move changes the four numbers of the invariant: readers, writers, writers that
  saw no reader, failed threads.
\<close>

definition rw_counts :: "rw_state \<Rightarrow> nat \<times> nat \<times> nat \<times> nat" where
  "rw_counts s = (how_many is_reader (rw_pcs s), how_many is_writer (rw_pcs s),
     how_many is_exclusive (rw_pcs s), how_many (\<lambda>c. c = RW_Failed) (rw_pcs s))"

definition one_if :: "bool \<Rightarrow> nat" where "one_if b = (if b then 1 else 0)"

lemma one_if_simps [simp]: "one_if True = 1" "one_if False = 0"
  by (simp_all add: one_if_def)

lemma rw_move:
  assumes "rw_at s t c0" "rw_counts s = (r, w, e, f)"
  shows "\<exists>r' w' e' f'. rw_counts (rw_goto t c v s) = (r', w', e', f')
    \<and> r' + one_if (is_reader c0) = r + one_if (is_reader c) \<and> w' + one_if (is_writer c0) = w + one_if (is_writer c)
    \<and> e' + one_if (is_exclusive c0) = e + one_if (is_exclusive c)
    \<and> f' + one_if (c0 = RW_Failed) = f + one_if (c = RW_Failed)"
proof -
  have t: "t < length (rw_pcs s)" "rw_pcs s ! t = c0" using assms(1) by (simp_all add: rw_at_def)
  show ?thesis using assms(2) how_many_update [OF t(1), unfolded t(2), of is_reader c]
    how_many_update [OF t(1), unfolded t(2), of is_writer c]
    how_many_update [OF t(1), unfolded t(2), of is_exclusive c]
    how_many_update [OF t(1), unfolded t(2), of "\<lambda>c. c = RW_Failed" c]
    unfolding rw_counts_def rw_goto_def one_if_def by simp
qed

lemma rw_present:
  assumes "rw_at s t c" "rw_counts s = (r, w, e, f)"
  shows "is_reader c \<Longrightarrow> 0 < r" "is_writer c \<Longrightarrow> 0 < w" "is_exclusive c \<Longrightarrow> 0 < e"
  using assms how_many_pos [of t "rw_pcs s"] unfolding rw_at_def rw_counts_def by (auto simp del: is_reader.simps is_writer.simps is_exclusive.simps)

lemma rw_waiting:
  assumes "rw_at s t W_Waiting" "rw_counts s = (r, w, e, f)"
  shows "e < w"
proof -
  have "how_many is_exclusive xs + how_many (\<lambda>c. c = W_Waiting) xs = how_many is_writer xs" for xs
    unfolding how_many_def by (induction xs) auto
  then have "e + how_many (\<lambda>c. c = W_Waiting) (rw_pcs s) = w" using assms(2) by (auto simp: rw_counts_def)
  moreover have "0 < how_many (\<lambda>c. c = W_Waiting) (rw_pcs s)"
    using assms(1) by (auto simp: rw_at_def intro: how_many_pos)
  ultimately show ?thesis by simp
qed

definition rw_ok :: "nat \<Rightarrow> u64 \<Rightarrow> nat \<times> nat \<times> nat \<times> nat \<Rightarrow> bool" where
  "rw_ok n v = (\<lambda>(r, w, e, f). n < 2 ^ 30 \<and> r \<le> n \<and> unat v = r + 2 ^ 30 * w \<and> w \<le> 1 \<and> e \<le> w \<and> (e = 0 \<or> r = 0) \<and> f = 0)"

lemma rw_inv_ok: "rw_inv s \<longleftrightarrow> rw_ok (length (rw_pcs s)) (rw_value s) (rw_counts s)"
proof -
  have "how_many is_exclusive (rw_pcs s) \<le> how_many is_writer (rw_pcs s)" by (rule how_many_mono) auto
  then show ?thesis using how_many_le [of is_reader "rw_pcs s"] by (auto simp: rw_inv_def rw_ok_def rw_counts_def)
qed

lemma rw_goto_fields [simp]:
  "length (rw_pcs (rw_goto t c v s)) = length (rw_pcs s)" "rw_value (rw_goto t c v s) = v"
  by (simp_all add: rw_goto_def)

text \<open>A step keeps the invariant if the new word agrees with the new numbers.\<close>

lemma rw_inv_goto:
  assumes inv: "rw_inv s" and t: "rw_at s t c0" and cs: "rw_counts s = (r, w, e, f)"
    and ok: "\<And>r' w' e' f'. r' + one_if (is_reader c0) = r + one_if (is_reader c)
      \<Longrightarrow> w' + one_if (is_writer c0) = w + one_if (is_writer c)
      \<Longrightarrow> e' + one_if (is_exclusive c0) = e + one_if (is_exclusive c)
      \<Longrightarrow> f' + one_if (c0 = RW_Failed) = f + one_if (c = RW_Failed) \<Longrightarrow> rw_ok (length (rw_pcs s)) v (r', w', e', f')
        \<or> r' > length (rw_pcs s)"
  shows "rw_inv (rw_goto t c v s)"
proof -
  obtain r' w' e' f' where m: "rw_counts (rw_goto t c v s) = (r', w', e', f')"
    "r' + one_if (is_reader c0) = r + one_if (is_reader c)" "w' + one_if (is_writer c0) = w + one_if (is_writer c)"
    "e' + one_if (is_exclusive c0) = e + one_if (is_exclusive c)"
    "f' + one_if (c0 = RW_Failed) = f + one_if (c = RW_Failed)" using rw_move [OF t cs, of c v] by blast
  have "r' \<le> length (rw_pcs s)"
    using m(1) how_many_le [of is_reader "rw_pcs (rw_goto t c v s)"] by (simp add: rw_counts_def)
  then have "rw_ok (length (rw_pcs s)) v (r', w', e', f')" using ok [OF m(2-5)] by auto
  then show ?thesis using m(1) by (simp add: rw_inv_ok)
qed

lemma rw_inv_step: "rw_step s s' \<Longrightarrow> rw_inv s \<Longrightarrow> rw_inv s'"
proof -
  assume st: "rw_step s s'" and inv: "rw_inv s"
  obtain r w e f where cs: "rw_counts s = (r, w, e, f)" by (metis prod.exhaust)
  note go = rw_inv_goto [OF inv _ cs]
  have ok: "rw_ok (length (rw_pcs s)) (rw_value s) (r, w, e, f)" using inv cs by (simp add: rw_inv_ok)
  note okd = ok [unfolded rw_ok_def split_conv]
  have flag: "rw_value s AND FLAG_WRITE = 0 \<longleftrightarrow> w = 0"
    using FLAG_bit [of "rw_value s"] bit_30 [of "rw_value s" r w] okd by auto
  have eq_flag: "rw_value s = FLAG_WRITE \<longleftrightarrow> r = 0 \<and> w = 1"
  proof -
    have "r < 2 ^ 30" "w = 0 \<or> w = 1" using okd by auto
    then show ?thesis using okd unfolding value_eq_FLAG by auto
  qed
  have eq_0: "rw_value s = 0 \<longleftrightarrow> r = 0 \<and> w = 0" using okd unat_eq_0 [of "rw_value s"] by auto
  note present = rw_present [OF _ cs]
  from st show "rw_inv s'"
  proof cases
    case (read_cas t v)
    have "unat (v + 1) = unat v + 1" using okd flag read_cas by (subst unat_add64) auto
    then show ?thesis unfolding read_cas(1)
      by (intro go [OF read_cas(2)]) (use okd flag read_cas in \<open>auto simp: rw_ok_def Suc_le_eq\<close>)
  next
    case (write_cas t v)
    have "unat (v OR FLAG_WRITE) = unat v + 2 ^ 30" using okd flag write_cas by (intro or_FLAG) auto
    then show ?thesis unfolding write_cas(1)
      by (intro go [OF write_cas(2)]) (use okd flag write_cas in \<open>auto simp: rw_ok_def\<close>)
  next
    case (read_leave t)
    have "0 < r" using present(1) [OF read_leave(2)] by simp
    then have "unat (rw_value s - 1) = unat (rw_value s) - 1" using okd by (intro unat_minus_one) auto
    then show ?thesis unfolding read_leave(1)
      by (intro go [OF read_leave(2)]) (use okd \<open>0 < r\<close> in \<open>auto simp: rw_ok_def\<close>)
  next
    case (read_check t)
    have "0 < r" using present(1) [OF read_check(2)] by simp
    then have "reader_check (rw_value s)" by (simp add: reader_check_def eq_flag eq_0)
    then show ?thesis unfolding read_check(1) by (intro go [OF read_check(2)]) (use okd in \<open>auto simp: rw_ok_def\<close>)
  next
    case (read_unlock t)
    have "0 < r" using present(1) [OF read_unlock(2)] by simp
    then have "reader_check (rw_value s)" by (simp add: reader_check_def eq_flag eq_0)
    then show ?thesis unfolding read_unlock(1) by (intro go [OF read_unlock(2)]) (use okd in \<open>auto simp: rw_ok_def\<close>)
  next
    case (write_wait t)
    show ?thesis unfolding write_wait(1)
      by (intro go [OF write_wait(2)]) (use okd eq_flag rw_waiting [OF write_wait(2) cs] in \<open>auto simp: rw_ok_def split: if_splits\<close>)
  next
    case (write_check t)
    have "0 < e" using present(3) [OF write_check(2)] by simp
    then have "rw_value s = FLAG_WRITE" using okd eq_flag by auto
    then show ?thesis unfolding write_check(1) by (intro go [OF write_check(2)]) (use okd in \<open>auto simp: rw_ok_def\<close>)
  next
    case (write_unlock t)
    have "0 < e" using present(3) [OF write_unlock(2)] by simp
    then have "rw_value s = FLAG_WRITE" using okd eq_flag by auto
    then show ?thesis unfolding write_unlock(1) by (intro go [OF write_unlock(2)]) (use okd in \<open>auto simp: rw_ok_def\<close>)
  next
    case (write_leave t)
    have "0 < e" using present(3) [OF write_leave(2)] by simp
    then show ?thesis unfolding write_leave(1) by (intro go [OF write_leave(2)]) (use okd in \<open>auto simp: rw_ok_def\<close>)
  qed (use okd in \<open>auto intro!: go simp: rw_ok_def\<close>)
qed

lemma rw_reachable_inv: "rw_reachable n s \<Longrightarrow> n < 2 ^ 30 \<Longrightarrow> rw_inv s"
proof (induction rule: rw_reachable.induct)
  case init
  then show ?case by (simp add: rw_inv_def rw_init_def how_many_def)
qed (simp add: rw_inv_step)

lemma how_many_split: "how_many P xs = card {t. t < length xs \<and> P (xs ! t)}"
  by (simp add: how_many_def length_filter_conv_card)

text \<open>
  C18: The readers-writer lock is safe for up to \<open>2 ^ 30 - 1\<close> threads. In every reachable state no
  check of the lock has failed; if a thread is inside \<open>write_lock\<close> ... \<open>write_unlock\<close>, it is the only
  one and there is no reader; and the word is the number of readers, plus the flag if a
  writer holds or claims the lock.
\<close>

theorem rwlock_safe:
  assumes "rw_reachable n s" "n < 2 ^ 30"
  shows "{t. rw_at s t RW_Failed} = {}
    \<and> ({t. rw_at s t W_Writing} = {} \<or> {t. rw_at s t R_Reading} = {} \<and> card {t. rw_at s t W_Writing} = 1)
    \<and> unat (rw_value s) = card {t. t < length (rw_pcs s) \<and> is_reader (rw_pcs s ! t)}
        + 2 ^ 30 * card {t. t < length (rw_pcs s) \<and> is_writer (rw_pcs s ! t)}"
proof -
  have inv: "rw_inv s" by (rule rw_reachable_inv [OF assms])
  have none: "{t. rw_at s t c} = {}" if "how_many P (rw_pcs s) = 0" "P c" for P c
    using that how_many_pos [of _ "rw_pcs s" P] by (fastforce simp: rw_at_def)
  have "{t. rw_at s t RW_Failed} = {}" using inv by (intro none [of "\<lambda>c. c = RW_Failed"]) (auto simp: rw_inv_def)
  moreover have "{t. rw_at s t R_Reading} = {} \<and> card {t. rw_at s t W_Writing} = 1" if busy: "{t. rw_at s t W_Writing} \<noteq> {}"
  proof -
    obtain t where t: "rw_at s t W_Writing" using busy by blast
    have "how_many is_exclusive (rw_pcs s) \<noteq> 0"
      using t how_many_pos [of t "rw_pcs s" is_exclusive] by (auto simp: rw_at_def)
    then have "{t. rw_at s t R_Reading} = {}" using inv by (intro none [of is_reader]) (auto simp: rw_inv_def)
    moreover have "card {t. rw_at s t W_Writing} \<le> how_many is_writer (rw_pcs s)"
      unfolding how_many_split by (rule card_mono) (auto simp: rw_at_def)
    moreover have "finite {t. rw_at s t W_Writing}" by (rule finite_subset [of _ "{..<length (rw_pcs s)}"]) (auto simp: rw_at_def)
    then have "card {t. rw_at s t W_Writing} \<noteq> 0" using busy by simp
    ultimately show ?thesis using inv by (auto simp: rw_inv_def)
  qed
  ultimately show ?thesis using inv unfolding rw_inv_def how_many_split by blast
qed

text \<open>A run of three threads: two read, the third has claimed the lock and waits for them.\<close>

definition demo_rw :: rw_state where
  "demo_rw = \<lparr>rw_value = 0x40000002, rw_pcs = [R_Reading, R_Reading, W_Waiting]\<rparr>"

lemma demo_rw_reachable: "rw_reachable 3 demo_rw"
proof -
  have pcs: "rw_init 3 = \<lparr>rw_value = 0, rw_pcs = [RW_Idle, RW_Idle, RW_Idle]\<rparr>"
    by (simp add: rw_init_def numeral_3_eq_3)
  note defs = rw_at_def rw_goto_def reader_check_def FLAG_WRITE_def
  have 0: "rw_reachable 3 \<lparr>rw_value = 0, rw_pcs = [RW_Idle, RW_Idle, RW_Idle]\<rparr>"
    using rw_reachable.init [of 3] by (simp add: pcs)
  have 1: "rw_reachable 3 \<lparr>rw_value = 0, rw_pcs = [R_Loaded 0, RW_Idle, RW_Idle]\<rparr>"
    using rw_reachable.step [OF 0 rw_step.read_lock [where t = 0]] by (simp add: defs)
  have 2: "rw_reachable 3 \<lparr>rw_value = 1, rw_pcs = [R_Got, RW_Idle, RW_Idle]\<rparr>"
    using rw_reachable.step [OF 1 rw_step.read_cas [where t = 0 and v = 0]] by (simp add: defs)
  have 3: "rw_reachable 3 \<lparr>rw_value = 1, rw_pcs = [R_Reading, RW_Idle, RW_Idle]\<rparr>"
    using rw_reachable.step [OF 2 rw_step.read_check [where t = 0]] by (simp add: defs)
  have 4: "rw_reachable 3 \<lparr>rw_value = 1, rw_pcs = [R_Reading, R_Loaded 1, RW_Idle]\<rparr>"
    using rw_reachable.step [OF 3 rw_step.read_lock [where t = 1]] by (simp add: defs)
  have 5: "rw_reachable 3 \<lparr>rw_value = 2, rw_pcs = [R_Reading, R_Got, RW_Idle]\<rparr>"
    using rw_reachable.step [OF 4 rw_step.read_cas [where t = 1 and v = 1]] by (simp add: defs)
  have 6: "rw_reachable 3 \<lparr>rw_value = 2, rw_pcs = [R_Reading, R_Reading, RW_Idle]\<rparr>"
    using rw_reachable.step [OF 5 rw_step.read_check [where t = 1]] by (simp add: defs)
  have 7: "rw_reachable 3 \<lparr>rw_value = 2, rw_pcs = [R_Reading, R_Reading, W_Loaded 2]\<rparr>"
    using rw_reachable.step [OF 6 rw_step.write_lock [where t = 2]] by (simp add: defs)
  show ?thesis
    using rw_reachable.step [OF 7 rw_step.write_cas [where t = 2 and v = 2]] by (simp add: defs demo_rw_def)
qed

theorem rwlock_safe_wit:
  "{t. rw_at demo_rw t RW_Failed} = {}
    \<and> ({t. rw_at demo_rw t W_Writing} = {} \<or> {t. rw_at demo_rw t R_Reading} = {} \<and> card {t. rw_at demo_rw t W_Writing} = 1)
    \<and> unat (rw_value demo_rw) = card {t. t < length (rw_pcs demo_rw) \<and> is_reader (rw_pcs demo_rw ! t)}
        + 2 ^ 30 * card {t. t < length (rw_pcs demo_rw) \<and> is_writer (rw_pcs demo_rw ! t)}"
  by (rule rwlock_safe [OF demo_rw_reachable]) simp

end
