(* ===== verification/Task_Queue.thy ===== *)
theory Task_Queue
  imports Prelude "HOL-Library.Multiset"
begin

text \<open>
  \<open>src/src/tasking/task_collection.cpp\<close>, the class \<open>SchedulingDomain\<close> of \<open>task_scheduler.cpp\<close> and \<open>Priority\<close> of
  \<open>task.hpp\<close>: the queues tasks wait in. A collection has a queue that any thread serves and
  one for each registered thread; a domain has a collection for every priority, made when the
  first task of the priority arrives.

  A task is its priority and an identity. Each operation is one step: its calls of \<open>push_back\<close>
  and \<open>try_pop_front\<close> are synchronized by the queue, and the counters are atomic. A failed
  assertion, a null dereference and an access outside a vector are \<open>None\<close>.
\<close>

section \<open>Priorities and tasks\<close>

type_synonym i8 = "8 word"

definition Priority_min :: i8 where "Priority_min = - 16"
definition Priority_max :: i8 where "Priority_max = 16"

definition priority_index :: "i8 \<Rightarrow> u64" where
  "priority_index v = of_int (sint v - sint Priority_min)"

definition max_index :: u64 where "max_index = priority_index Priority_max"

definition priority_less :: "i8 \<Rightarrow> i8 \<Rightarrow> bool" where "priority_less a b \<longleftrightarrow> a <s b"

record task =
  tk_priority :: i8
  tk_id :: nat

section \<open>A collection of queues\<close>

record task_collection =
  tc_global :: "task list"
  tc_threads :: "task list option list"

definition tc_new :: "nat \<Rightarrow> task_collection" where
  "tc_new max_threads = \<lparr>tc_global = [], tc_threads = replicate max_threads None\<rparr>"

text \<open>A thread id is an \<open>int\<close>, converted to \<open>size_t\<close> by the calls.\<close>

definition to_size_t :: "int \<Rightarrow> nat" where "to_size_t i = unat (of_int i :: u64)"

definition get_thread_queue :: "task_collection \<Rightarrow> nat \<Rightarrow> task list option" where
  "get_thread_queue tc idx = (if idx < length (tc_threads tc) then tc_threads tc ! idx else None)"

text \<open>\<open>try_pop_front\<close>: the task, if there is one, and the rest.\<close>

fun try_pop_front :: "task list \<Rightarrow> (task \<times> task list) option" where
  "try_pop_front [] = None"
| "try_pop_front (t # ts) = Some (t, ts)"

definition try_get_thread_task :: "task_collection \<Rightarrow> nat \<Rightarrow> (task \<times> task_collection) option" where
  "try_get_thread_task tc idx =
     (case get_thread_queue tc idx of
        None \<Rightarrow> None
      | Some q \<Rightarrow> (case try_pop_front q of
                    None \<Rightarrow> None
                  | Some (t, q) \<Rightarrow> Some (t, tc\<lparr>tc_threads := (tc_threads tc)[idx := Some q]\<rparr>)))"

definition register_thread :: "nat \<Rightarrow> task_collection \<Rightarrow> task_collection option" where
  "register_thread idx tc =
     (if idx < length (tc_threads tc) then
        Some (case tc_threads tc ! idx of
                None \<Rightarrow> tc\<lparr>tc_threads := (tc_threads tc)[idx := Some []]\<rparr>
              | Some q \<Rightarrow> tc)
      else None)"

definition deregister_thread :: "nat \<Rightarrow> task_collection \<Rightarrow> task_collection option" where
  "deregister_thread idx tc =
     (if idx < length (tc_threads tc) then
        (case tc_threads tc ! idx of
           None \<Rightarrow> None
         | Some q \<Rightarrow> Some \<lparr>tc_global = tc_global tc @ q, tc_threads = (tc_threads tc)[idx := None]\<rparr>)
      else None)"

text \<open>
  Stealing: the queues from \<open>start\<close> on, around the end of the vector. \<open>start\<close> is what the random
  device gave, modulo the number of threads.
\<close>

fun steal :: "nat \<Rightarrow> nat \<Rightarrow> nat \<Rightarrow> task_collection \<Rightarrow> (task \<times> task_collection) option" where
  "steal cnt i 0 tc = None"
| "steal cnt i (Suc n) tc =
     (let idx = (if cnt \<le> i then i - cnt else i)
      in case try_get_thread_task tc idx of
           Some r \<Rightarrow> Some r
         | None \<Rightarrow> steal cnt (Suc i) n tc)"

definition tc_try_get :: "nat \<Rightarrow> nat \<Rightarrow> task_collection \<Rightarrow> (task \<times> task_collection) option" where
  "tc_try_get random th_idx tc =
     (case try_get_thread_task tc th_idx of
        Some r \<Rightarrow> Some r
      | None \<Rightarrow>
          (case try_pop_front (tc_global tc) of
             Some (t, q) \<Rightarrow> Some (t, tc\<lparr>tc_global := q\<rparr>)
           | None \<Rightarrow>
               let cnt = length (tc_threads tc)
               in if 0 < cnt then steal cnt (random mod cnt) cnt tc else None))"

definition tc_put :: "task \<Rightarrow> nat \<Rightarrow> task_collection \<Rightarrow> task_collection" where
  "tc_put t th_idx tc =
     (case get_thread_queue tc th_idx of
        None \<Rightarrow> tc\<lparr>tc_global := tc_global tc @ [t]\<rparr>
      | Some q \<Rightarrow> tc\<lparr>tc_threads := (tc_threads tc)[th_idx := Some (q @ [t])]\<rparr>)"

section \<open>A scheduling domain\<close>

record priority_tasks =
  pt_tasks :: "task_collection option"
  pt_count :: u64

record domain =
  sd_active :: "nat list"
  sd_top :: nat
  sd_prios :: "priority_tasks list"

definition domain_new :: domain where
  "domain_new = \<lparr>sd_active = [], sd_top = 0,
     sd_prios = replicate (unat (max_index + 1)) \<lparr>pt_tasks = None, pt_count = 0\<rparr>\<rparr>"

text \<open>
  The loop over the priorities from the highest in use down to 0; a count without a collection
  would be a null dereference. The result has the task, if one was found.
\<close>

fun domain_search :: "nat \<Rightarrow> nat \<Rightarrow> nat \<Rightarrow> domain \<Rightarrow> (task option \<times> domain) option" where
  "domain_search random thid 0 d = Some (None, d)"
| "domain_search random thid (Suc idx) d =
     (if length (sd_prios d) \<le> idx then None
      else
        let p = sd_prios d ! idx
        in if 0 < pt_count p then
             (case pt_tasks p of
                None \<Rightarrow> None
              | Some tc \<Rightarrow>
                  (case tc_try_get random thid tc of
                     Some (t, tc) \<Rightarrow>
                       Some (Some t, d\<lparr>sd_prios := (sd_prios d)[idx := \<lparr>pt_tasks = Some tc, pt_count = pt_count p - 1\<rparr>]\<rparr>)
                   | None \<Rightarrow> domain_search random thid idx d))
           else domain_search random thid idx d)"

definition domain_try_get :: "nat \<Rightarrow> int \<Rightarrow> domain \<Rightarrow> (task option \<times> domain) option" where
  "domain_try_get random thid d = domain_search random (to_size_t thid) (Suc (sd_top d)) d"

fun register_threads :: "nat list \<Rightarrow> task_collection \<Rightarrow> task_collection option" where
  "register_threads [] tc = Some tc"
| "register_threads (i # is) tc = Option.bind (register_thread i tc) (register_threads is)"

text \<open>\<open>cpuCount\<close> is the number of CPUs of the node, or of the machine for the global domain.\<close>

definition make_collection :: "nat \<Rightarrow> domain \<Rightarrow> priority_tasks \<Rightarrow> priority_tasks option" where
  "make_collection cpuCount d p =
     (case pt_tasks p of
        Some tc \<Rightarrow> Some p
      | None \<Rightarrow> map_option (\<lambda>tc. \<lparr>pt_tasks = Some tc, pt_count = 0\<rparr>)
                  (register_threads (sd_active d) (tc_new cpuCount)))"

definition domain_put :: "nat \<Rightarrow> task \<Rightarrow> int \<Rightarrow> domain \<Rightarrow> domain option" where
  "domain_put cpuCount t thid d =
     (let idx = unat (priority_index (tk_priority t))
      in if length (sd_prios d) \<le> idx then None
         else
           (case make_collection cpuCount d (sd_prios d ! idx) of
              None \<Rightarrow> None
            | Some p \<Rightarrow>
                map_option (\<lambda>tc.
                  d\<lparr>sd_prios := (sd_prios d)[idx := \<lparr>pt_tasks = Some (tc_put t (to_size_t thid) tc), pt_count = pt_count p + 1\<rparr>],
                    sd_top := (if sd_top d < idx then idx else sd_top d)\<rparr>) (pt_tasks p)))"

fun on_collections :: "(task_collection \<Rightarrow> task_collection option) \<Rightarrow> priority_tasks list \<Rightarrow> priority_tasks list option" where
  "on_collections f [] = Some []"
| "on_collections f (p # ps) =
     (case pt_tasks p of
        None \<Rightarrow> map_option (\<lambda>ps. p # ps) (on_collections f ps)
      | Some tc \<Rightarrow> Option.bind (f tc) (\<lambda>tc. map_option (\<lambda>ps. p\<lparr>pt_tasks := Some tc\<rparr> # ps) (on_collections f ps)))"

definition domain_add_thread :: "nat \<Rightarrow> domain \<Rightarrow> domain option" where
  "domain_add_thread idx d =
     map_option (\<lambda>ps. d\<lparr>sd_prios := ps, sd_active := sd_active d @ [idx]\<rparr>)
       (on_collections (register_thread idx) (sd_prios d))"

text \<open>The second assertion of \<open>remove_thread\<close>: the id is not in the list twice.\<close>

definition domain_remove_thread :: "nat \<Rightarrow> domain \<Rightarrow> domain option" where
  "domain_remove_thread idx d =
     Option.bind (on_collections (deregister_thread idx) (sd_prios d)) (\<lambda>ps.
       let active = remove1 idx (sd_active d)
       in if idx \<in> set (sd_active d) \<and> idx \<notin> set active then Some (d\<lparr>sd_prios := ps, sd_active := active\<rparr>)
          else None)"

end
