(* ===== verification/Task_Pool.thy ===== *)
theory Task_Pool
  imports Task_Queue
begin

text \<open>
  The interface of a pool of prioritized tasks, and what follows from it for any pool: emptying
  it yields every task once, in descending order of priority. Collections and domains provide
  it.
\<close>

text \<open>\<open>get\<close> and \<open>put\<close> have an argument that may steer where a task comes from or goes to.\<close>

fun drain_pool :: "('a \<Rightarrow> 'd \<Rightarrow> (task option \<times> 'd) option) \<Rightarrow> 'a list \<Rightarrow> 'd \<Rightarrow> (task list \<times> 'd) option" where
  "drain_pool get [] d = Some ([], d)"
| "drain_pool get (a # args) d = do {
     (r, d) \<leftarrow> get a d;
     (ts, d) \<leftarrow> drain_pool get args d;
     Some (case r of None \<Rightarrow> (ts, d) | Some t \<Rightarrow> (t # ts, d)) }"

fun fill_pool :: "('b \<Rightarrow> task \<Rightarrow> 'd \<Rightarrow> 'd option) \<Rightarrow> ('b \<times> task) list \<Rightarrow> 'd \<Rightarrow> 'd option" where
  "fill_pool put [] d = Some d"
| "fill_pool put (bt # bts) d = Option.bind (put (fst bt) (snd bt) d) (fill_pool put bts)"

definition not_below :: "task \<Rightarrow> task \<Rightarrow> bool" where
  "not_below t u \<longleftrightarrow> \<not> priority_less (tk_priority t) (tk_priority u)"

locale task_pool =
  fixes holds :: "'d \<Rightarrow> bool" and tasks :: "'d \<Rightarrow> task multiset"
    and fits :: "task \<Rightarrow> bool" and room :: "'d \<Rightarrow> nat"
    and put :: "'b \<Rightarrow> task \<Rightarrow> 'd \<Rightarrow> 'd option" and get :: "'a \<Rightarrow> 'd \<Rightarrow> (task option \<times> 'd) option"
  assumes put: "holds d \<Longrightarrow> fits t \<Longrightarrow> 0 < room d \<Longrightarrow>
      \<exists>d'. put b t d = Some d' \<and> holds d' \<and> tasks d' = add_mset t (tasks d) \<and> room d \<le> Suc (room d')"
    and take_none: "holds d \<Longrightarrow> tasks d = {#} \<Longrightarrow> get a d = Some (None, d)"
    and take_some: "holds d \<Longrightarrow> tasks d \<noteq> {#} \<Longrightarrow> \<exists>t d'. get a d = Some (Some t, d') \<and> holds d'
      \<and> tasks d = add_mset t (tasks d') \<and> (\<forall>u\<in>#tasks d. not_below t u)"
begin

lemma fill:
  assumes "holds d" "length bts \<le> room d" "\<And>t. t \<in> snd ` set bts \<Longrightarrow> fits t"
  shows "\<exists>d'. fill_pool put bts d = Some d' \<and> holds d' \<and> tasks d' = tasks d + mset (map snd bts)"
  using assms
proof (induction bts arbitrary: d)
  case (Cons bt bts)
  obtain d1 where d1: "put (fst bt) (snd bt) d = Some d1" "holds d1" "tasks d1 = add_mset (snd bt) (tasks d)"
    "room d \<le> Suc (room d1)" using put [OF Cons.prems(1), of "snd bt" "fst bt"] Cons.prems(2,3) by auto
  then obtain d' where "fill_pool put bts d1 = Some d'" "holds d'" "tasks d' = tasks d1 + mset (map snd bts)"
    using Cons.IH [of d1] Cons.prems by auto
  then show ?case using d1 by auto
qed auto

lemma drain:
  assumes "holds d" "size (tasks d) \<le> length args"
  shows "\<exists>ts d'. drain_pool get args d = Some (ts, d') \<and> mset ts = tasks d \<and> tasks d' = {#}
    \<and> sorted_wrt not_below ts"
  using assms
proof (induction args arbitrary: d)
  case (Cons a args)
  show ?case
  proof (cases "tasks d = {#}")
    case True
    then show ?thesis using Cons.IH [of d] Cons.prems take_none by auto
  next
    case False
    obtain t d1 where d1: "get a d = Some (Some t, d1)" "holds d1" "tasks d = add_mset t (tasks d1)"
      "\<forall>u\<in>#tasks d. not_below t u" using take_some [OF Cons.prems(1) False] by blast
    then obtain ts d' where "drain_pool get args d1 = Some (ts, d')" "mset ts = tasks d1" "tasks d' = {#}"
      "sorted_wrt not_below ts" using Cons.IH [of d1] Cons.prems(2) by auto
    moreover from this have "\<forall>u\<in>set ts. not_below t u" using d1(3,4) by (metis set_mset_mset union_iff add_mset_add_single)
    ultimately show ?thesis using d1 by auto
  qed
qed auto

end

section \<open>Collections\<close>

definition queue_list :: "task list option \<Rightarrow> task list" where
  "queue_list q = (case q of None \<Rightarrow> [] | Some q \<Rightarrow> q)"

lemma queue_list_simps [simp]: "queue_list None = []" "queue_list (Some q) = q"
  by (simp_all add: queue_list_def)

definition tc_tasks :: "task_collection \<Rightarrow> task multiset" where
  "tc_tasks tc = mset (tc_global tc) + mset (concat (map queue_list (tc_threads tc)))"

lemma tc_tasks_update:
  assumes "i < length (tc_threads tc)"
  shows "tc_tasks (tc\<lparr>tc_threads := (tc_threads tc)[i := q]\<rparr>) + mset (queue_list (tc_threads tc ! i))
    = tc_tasks tc + mset (queue_list q)"
  using mset_concat_update [of i "map queue_list (tc_threads tc)" "queue_list q"] assms
  by (simp add: tc_tasks_def map_update ac_simps)

text \<open>Which threads have a queue.\<close>

definition tc_shape :: "task_collection \<Rightarrow> bool list" where
  "tc_shape tc = map (\<lambda>q. q = None) (tc_threads tc)"

lemma tc_shape_update:
  assumes "i < length (tc_threads tc)" "tc_threads tc ! i = Some q"
  shows "tc_shape (tc\<lparr>tc_threads := (tc_threads tc)[i := Some q']\<rparr>) = tc_shape tc"
  unfolding tc_shape_def by (rule nth_equalityI) (use assms in \<open>auto simp: nth_list_update\<close>)

lemma tc_shape_global [simp]: "tc_shape (tc\<lparr>tc_global := g\<rparr>) = tc_shape tc"
  by (simp add: tc_shape_def)

lemma get_thread_queue_Some: "get_thread_queue tc i = Some q \<Longrightarrow> i < length (tc_threads tc) \<and> tc_threads tc ! i = Some q"
  by (simp add: get_thread_queue_def split: if_splits)

lemma try_pop_front_Some: "try_pop_front q = Some (t, q') \<longleftrightarrow> q = t # q'"
  by (cases q) auto

lemma try_pop_front_None: "try_pop_front q = None \<longleftrightarrow> q = []"
  by (cases q) auto

lemma try_get_thread_Some:
  assumes "try_get_thread_task tc i = Some (t, tc')"
  shows "tc_tasks tc = add_mset t (tc_tasks tc')"
    and "tc_shape tc' = tc_shape tc"
proof -
  obtain q where q: "get_thread_queue tc i = Some (t # q)" "tc' = tc\<lparr>tc_threads := (tc_threads tc)[i := Some q]\<rparr>"
    using assms by (auto simp: try_get_thread_task_def try_pop_front_Some split: option.splits)
  note i = get_thread_queue_Some [OF q(1)]
  show "tc_tasks tc = add_mset t (tc_tasks tc')"
    using tc_tasks_update [of i tc "Some q"] i q(2) by simp
  show "tc_shape tc' = tc_shape tc"
    unfolding q(2) using i by (intro tc_shape_update) simp_all
qed

lemma try_get_thread_None:
  "try_get_thread_task tc i = None \<Longrightarrow> i < length (tc_threads tc) \<Longrightarrow> queue_list (tc_threads tc ! i) = []"
  by (auto simp: try_get_thread_task_def get_thread_queue_def try_pop_front_None split: option.splits)

lemma steal_Some: "steal cnt i n tc = Some (t, tc') \<Longrightarrow> \<exists>j. try_get_thread_task tc j = Some (t, tc')"
  by (induction n arbitrary: i) (auto simp: Let_def split: option.splits)

lemma steal_None:
  "steal cnt i n tc = None \<Longrightarrow> i \<le> k \<Longrightarrow> k < i + n \<Longrightarrow> try_get_thread_task tc (if cnt \<le> k then k - cnt else k) = None"
proof (induction n arbitrary: i)
  case (Suc n)
  from Suc.prems(1) have "try_get_thread_task tc (if cnt \<le> i then i - cnt else i) = None" "steal cnt (Suc i) n tc = None"
    by (auto simp: Let_def split: option.splits)
  then show ?case using Suc.IH [of "Suc i"] Suc.prems(2,3) by (cases "k = i") auto
qed simp

lemma tc_try_get_Some:
  assumes "tc_try_get random i tc = Some (t, tc')"
  shows "tc_tasks tc = add_mset t (tc_tasks tc')"
    and "tc_shape tc' = tc_shape tc"
proof -
  consider j where "try_get_thread_task tc j = Some (t, tc')"
    | q where "tc_global tc = t # q" "tc' = tc\<lparr>tc_global := q\<rparr>"
  proof (cases "try_get_thread_task tc i")
    case (Some r)
    then show thesis using that(1) [of i] assms by (simp add: tc_try_get_def)
  next
    case none: None
    show thesis
    proof (cases "tc_global tc")
      case (Cons u q)
      then show thesis using that(2) [of q] assms none by (simp add: tc_try_get_def)
    next
      case Nil
      then have "steal (length (tc_threads tc)) (random mod length (tc_threads tc)) (length (tc_threads tc)) tc = Some (t, tc')"
        using assms none by (simp add: tc_try_get_def Let_def split: if_splits)
      then show thesis using that(1) steal_Some by blast
    qed
  qed
  then have "tc_tasks tc = add_mset t (tc_tasks tc') \<and> tc_shape tc' = tc_shape tc"
  proof cases
    case (1 j)
    then show ?thesis using try_get_thread_Some by blast
  next
    case (2 q)
    then show ?thesis by (simp add: tc_tasks_def)
  qed
  then show "tc_tasks tc = add_mset t (tc_tasks tc')" "tc_shape tc' = tc_shape tc" by simp_all
qed

lemma tc_try_get_None:
  assumes "tc_try_get random i tc = None"
  shows "tc_tasks tc = {#}"
proof -
  let ?cnt = "length (tc_threads tc)"
  have g: "tc_global tc = []"
    using assms by (auto simp: tc_try_get_def try_pop_front_None split: option.splits)
  have "queue_list (tc_threads tc ! k) = []" if k: "k < ?cnt" for k
  proof -
    have st: "steal ?cnt (random mod ?cnt) ?cnt tc = None"
      using assms k by (auto simp: tc_try_get_def Let_def split: option.splits if_splits)
    let ?r = "random mod ?cnt"
    have r: "?r < ?cnt" using k by (intro mod_less_divisor) linarith
    have "try_get_thread_task tc k = None"
    proof (cases "?r \<le> k")
      case True
      then show ?thesis using steal_None [OF st True] k by simp
    next
      case False
      then show ?thesis using steal_None [OF st, of "k + ?cnt"] k r by simp
    qed
    then show ?thesis using k by (rule try_get_thread_None)
  qed
  then have "\<forall>q\<in>set (tc_threads tc). queue_list q = []" by (auto simp: in_set_conv_nth)
  then show ?thesis using g by (simp add: tc_tasks_def)
qed

lemma tc_put_tasks: "tc_tasks (tc_put t i tc) = add_mset t (tc_tasks tc)"
proof (cases "get_thread_queue tc i")
  case None
  then show ?thesis by (simp add: tc_put_def tc_tasks_def)
next
  case (Some q)
  note i = get_thread_queue_Some [OF Some]
  show ?thesis using tc_tasks_update [of i tc "Some (q @ [t])"] i Some by (simp add: tc_put_def)
qed

lemma tc_put_shape: "tc_shape (tc_put t i tc) = tc_shape tc"
  using get_thread_queue_Some [of tc i] by (auto simp: tc_put_def tc_shape_update split: option.splits)

end
