(* ===== verification/Task_Domain.thy ===== *)
theory Task_Domain
  imports Task_Pool
begin

text \<open>
  Scheduling domains provide the interface of a pool: no task is lost or duplicated by putting,
  taking, and by threads that come and go, and the task taken has the highest priority.
\<close>

definition prio_tasks :: "priority_tasks \<Rightarrow> task multiset" where
  "prio_tasks p = (case pt_tasks p of None \<Rightarrow> {#} | Some tc \<Rightarrow> tc_tasks tc)"

definition domain_tasks :: "domain \<Rightarrow> task multiset" where
  "domain_tasks d = sum_list (map prio_tasks (sd_prios d))"

definition task_index :: "task \<Rightarrow> nat" where
  "task_index t = unat (priority_index (tk_priority t))"

definition tc_ok :: "nat \<Rightarrow> nat list \<Rightarrow> task_collection \<Rightarrow> bool" where
  "tc_ok cpus active tc \<longleftrightarrow> tc_shape tc = map (\<lambda>i. i \<notin> set active) [0..<cpus]"

definition prio_ok :: "nat \<Rightarrow> nat list \<Rightarrow> nat \<Rightarrow> nat \<Rightarrow> priority_tasks \<Rightarrow> bool" where
  "prio_ok cpus active mx idx p \<longleftrightarrow>
     unat (pt_count p) = size (prio_tasks p) \<and> (\<forall>t\<in>#prio_tasks p. task_index t = idx)
     \<and> (prio_tasks p \<noteq> {#} \<longrightarrow> idx \<le> mx)
     \<and> (case pt_tasks p of None \<Rightarrow> True | Some tc \<Rightarrow> tc_ok cpus active tc)"

definition domain_ok :: "nat \<Rightarrow> domain \<Rightarrow> bool" where
  "domain_ok cpus d \<longleftrightarrow> length (sd_prios d) = 33 \<and> sd_top d < 33
     \<and> distinct (sd_active d) \<and> set (sd_active d) \<subseteq> {..<cpus}
     \<and> (\<forall>idx<33. prio_ok cpus (sd_active d) (sd_top d) idx (sd_prios d ! idx))"

definition domain_room :: "domain \<Rightarrow> nat" where
  "domain_room d = 2 ^ 64 - 1 - size (domain_tasks d)"

definition valid_priority :: "task \<Rightarrow> bool" where
  "valid_priority t \<longleftrightarrow> - 16 \<le> sint (tk_priority t) \<and> sint (tk_priority t) \<le> 16"

lemma sint_Priority [simp]: "sint Priority_min = - 16" "sint Priority_max = 16"
  by (simp_all add: Priority_min_def Priority_max_def)

lemma unat_priority_index:
  assumes "- 16 \<le> sint v" "sint v \<le> 16"
  shows "unat (priority_index v) = nat (sint v + 16)"
proof -
  have "0 \<le> sint v + 16" "sint v + 16 < 2 ^ 64" using assms by simp_all
  then have "uint (of_int (sint v + 16) :: u64) = sint v + 16"
    unfolding uint_word_of_int by (intro mod_pos_pos_trivial) simp_all
  moreover have "priority_index v = of_int (sint v + 16)"
    unfolding priority_index_def sint_Priority by (simp only: diff_minus_eq_add)
  ultimately show ?thesis by (simp only: unat_eq_nat_uint)
qed

lemma task_index: "valid_priority t \<Longrightarrow> task_index t = nat (sint (tk_priority t) + 16) \<and> task_index t < 33"
  using unat_priority_index [of "tk_priority t"] unfolding valid_priority_def task_index_def by linarith

lemma priority_count: "unat (max_index + 1) = 33"
proof -
  have "max_index = 32" by (simp add: max_index_def priority_index_def)
  then have "max_index + 1 = 33" by simp
  then show ?thesis by (simp only:) simp
qed

text \<open>Tasks of a list of priorities, with one entry replaced.\<close>

lemma sum_list_update_mset:
  fixes xs :: "'a multiset list"
  assumes "i < length xs"
  shows "sum_list (xs[i := x]) + xs ! i = sum_list xs + x"
proof -
  have "sum_list xs = sum_list (List.take i xs @ xs ! i # drop (Suc i) xs)" using assms by (simp only: id_take_nth_drop [symmetric])
  moreover have "xs[i := x] = List.take i xs @ x # drop (Suc i) xs" using assms by (rule upd_conv_take_nth_drop)
  ultimately show ?thesis by (simp add: ac_simps)
qed

lemma domain_tasks_update:
  assumes "i < length (sd_prios d)"
  shows "domain_tasks (d\<lparr>sd_prios := (sd_prios d)[i := p]\<rparr>) + prio_tasks (sd_prios d ! i)
    = domain_tasks d + prio_tasks p"
  using sum_list_update_mset [of i "map prio_tasks (sd_prios d)"] assms
  by (simp add: domain_tasks_def map_update)

lemma domain_tasks_top [simp]: "domain_tasks (d\<lparr>sd_top := x\<rparr>) = domain_tasks d"
  by (simp add: domain_tasks_def)

lemma in_domain_tasks:
  "t \<in># domain_tasks d \<longleftrightarrow> (\<exists>i<length (sd_prios d). t \<in># prio_tasks (sd_prios d ! i))"
proof -
  have "t \<in># sum_list (map prio_tasks ps) \<longleftrightarrow> (\<exists>p\<in>set ps. t \<in># prio_tasks p)" for ps
    by (induction ps) auto
  then have "t \<in># domain_tasks d \<longleftrightarrow> (\<exists>p\<in>set (sd_prios d). t \<in># prio_tasks p)" by (simp only: domain_tasks_def)
  also have "\<dots> \<longleftrightarrow> (\<exists>i<length (sd_prios d). t \<in># prio_tasks (sd_prios d ! i))" by (metis in_set_conv_nth)
  finally show ?thesis .
qed

lemma prio_le_domain: "i < length (sd_prios d) \<Longrightarrow> size (prio_tasks (sd_prios d ! i)) \<le> size (domain_tasks d)"
  using domain_tasks_update [of i d "\<lparr>pt_tasks = None, pt_count = 0\<rparr>"]
  by (simp add: prio_tasks_def) (metis le_add2 size_union)

section \<open>Taking a task\<close>

lemma domain_search_spec:
  assumes ok: "domain_ok cpus d" and n: "n \<le> 33" and hi: "\<And>i. n \<le> i \<Longrightarrow> i < 33 \<Longrightarrow> prio_tasks (sd_prios d ! i) = {#}"
  shows "if domain_tasks d = {#} then domain_search random thid n d = Some (None, d)
    else \<exists>t d'. domain_search random thid n d = Some (Some t, d') \<and> domain_ok cpus d'
      \<and> domain_tasks d = add_mset t (domain_tasks d') \<and> (\<forall>u\<in>#domain_tasks d. task_index u \<le> task_index t)"
  using n hi
proof (induction n)
  case 0
  have "t \<notin># domain_tasks d" for t
    using in_domain_tasks [of t d] ok 0(2) unfolding domain_ok_def by simp
  then have "set_mset (domain_tasks d) = {}" by blast
  then have "domain_tasks d = {#}" by simp
  then show ?case by simp
next
  case (Suc idx)
  let ?p = "sd_prios d ! idx"
  have len: "length (sd_prios d) = 33" and idx: "idx < 33" using ok Suc.prems(1) by (auto simp: domain_ok_def)
  have p: "prio_ok cpus (sd_active d) (sd_top d) idx ?p" using ok idx by (simp add: domain_ok_def)
  show ?case
  proof (cases "prio_tasks ?p = {#}")
    case True
    then have "pt_count ?p = 0" using p by (simp add: prio_ok_def unat_eq_0)
    then have "domain_search random thid (Suc idx) d = domain_search random thid idx d"
      using len idx by simp
    moreover have "prio_tasks (sd_prios d ! i) = {#}" if "idx \<le> i" "i < 33" for i
      using that True Suc.prems(2) [of i] by (cases "i = idx") auto
    ultimately show ?thesis using Suc.IH idx by simp
  next
    case False
    then obtain tc where tc: "pt_tasks ?p = Some tc" "tc_tasks tc \<noteq> {#}"
      by (auto simp: prio_tasks_def split: option.splits)
    have cnt: "unat (pt_count ?p) = size (tc_tasks tc)" using p tc(1) by (simp add: prio_ok_def prio_tasks_def)
    then have pos: "0 < pt_count ?p" using tc(2) by (simp add: word_less_nat_alt nonempty_has_size)
    obtain t tc' where get: "tc_try_get random thid tc = Some (t, tc')"
      using tc_try_get_None tc(2) by (cases "tc_try_get random thid tc") auto
    note tc' = tc_try_get_Some [OF get]
    let ?p' = "\<lparr>pt_tasks = Some tc', pt_count = pt_count ?p - 1\<rparr>"
    let ?d' = "d\<lparr>sd_prios := (sd_prios d)[idx := ?p']\<rparr>"
    have run: "domain_search random thid (Suc idx) d = Some (Some t, ?d')" using len idx tc(1) pos get by (simp add: Let_def)
    have tasks: "domain_tasks d = add_mset t (domain_tasks ?d')"
      using domain_tasks_update [of idx d ?p'] len idx tc(1) tc'(1) by (simp add: prio_tasks_def)
    have "unat (pt_count ?p - 1) = size (tc_tasks tc')"
      using cnt tc'(1) pos by (subst unat_minus_one) (auto simp: word_less_nat_alt unat_eq_0)
    then have "prio_ok cpus (sd_active d) (sd_top d) idx ?p'"
      using p tc(1) tc' by (auto simp: prio_ok_def prio_tasks_def tc_ok_def)
    then have ok': "domain_ok cpus ?d'" using ok len idx by (auto simp: domain_ok_def nth_list_update)
    have "task_index u \<le> task_index t" if u: "u \<in># domain_tasks d" for u
    proof -
      obtain i where i: "i < 33" "u \<in># prio_tasks (sd_prios d ! i)" using u len in_domain_tasks by auto
      then have "i \<le> idx" using Suc.prems(2) [of i] by (cases "Suc idx \<le> i") auto
      moreover have "task_index u = i" using ok i by (auto simp: domain_ok_def prio_ok_def)
      moreover have "task_index t = idx" using p tc(1) tc'(1) by (auto simp: prio_ok_def prio_tasks_def)
      ultimately show ?thesis by simp
    qed
    moreover have "domain_tasks d \<noteq> {#}" using tasks by simp
    ultimately show ?thesis using run tasks ok' by auto
  qed
qed

lemma domain_try_get_spec:
  assumes ok: "domain_ok cpus d"
  shows "if domain_tasks d = {#} then domain_try_get random thid d = Some (None, d)
    else \<exists>t d'. domain_try_get random thid d = Some (Some t, d') \<and> domain_ok cpus d'
      \<and> domain_tasks d = add_mset t (domain_tasks d') \<and> (\<forall>u\<in>#domain_tasks d. task_index u \<le> task_index t)"
  unfolding domain_try_get_def
proof (rule domain_search_spec [OF ok])
  show "Suc (sd_top d) \<le> 33" using ok by (simp add: domain_ok_def)
  show "prio_tasks (sd_prios d ! i) = {#}" if "Suc (sd_top d) \<le> i" "i < 33" for i
    using ok that by (auto simp: domain_ok_def prio_ok_def)
qed

lemma domain_new_ok: "domain_ok cpus domain_new \<and> domain_tasks domain_new = {#}"
proof -
  have len: "length (sd_prios domain_new) = 33" by (simp add: domain_new_def priority_count)
  have nth: "sd_prios domain_new ! i = \<lparr>pt_tasks = None, pt_count = 0\<rparr>" if "i < 33" for i
    using that by (simp add: domain_new_def priority_count)
  have "t \<notin># domain_tasks domain_new" for t
    using in_domain_tasks [of t domain_new] nth len by (auto simp: prio_tasks_def)
  then have "set_mset (domain_tasks domain_new) = {}" by blast
  moreover have "sd_top domain_new = 0" "sd_active domain_new = []" by (simp_all add: domain_new_def)
  ultimately show ?thesis using len nth by (simp add: domain_ok_def prio_ok_def prio_tasks_def)
qed

section \<open>Putting a task\<close>

lemma register_threads_shape:
  assumes "distinct is" "set is \<subseteq> {..<length (tc_threads tc)}" "tc_tasks tc = {#}"
  shows "\<exists>tc'. register_threads is tc = Some tc' \<and> tc_tasks tc' = {#}
    \<and> tc_shape tc' = map (\<lambda>k. tc_shape tc ! k \<and> k \<notin> set is) [0..<length (tc_threads tc)]"
  using assms
proof (induction "is" arbitrary: tc)
  case Nil
  have "tc_shape tc = map (\<lambda>k. tc_shape tc ! k) [0..<length (tc_threads tc)]"
    by (rule nth_equalityI) (simp_all add: tc_shape_def)
  then show ?case using Nil by simp
next
  case (Cons i js)
  then have i: "i < length (tc_threads tc)" by simp
  define tc1 where "tc1 = (case tc_threads tc ! i of None \<Rightarrow> tc\<lparr>tc_threads := (tc_threads tc)[i := Some []]\<rparr> | Some q \<Rightarrow> tc)"
  have reg: "register_thread i tc = Some tc1" using i by (simp add: register_thread_def tc1_def)
  have len: "length (tc_threads tc1) = length (tc_threads tc)" by (simp add: tc1_def split: option.splits)
  have tasks: "tc_tasks tc1 = {#}"
    using Cons.prems(3) tc_tasks_update [OF i, of "Some []"] by (auto simp: tc1_def split: option.splits)
  have shape: "tc_shape tc1 ! k \<longleftrightarrow> tc_shape tc ! k \<and> k \<noteq> i" if "k < length (tc_threads tc)" for k
    using that i by (auto simp: tc1_def tc_shape_def nth_list_update split: option.splits)
  obtain tc' where tc': "register_threads js tc1 = Some tc'" "tc_tasks tc' = {#}"
    "tc_shape tc' = map (\<lambda>k. tc_shape tc1 ! k \<and> k \<notin> set js) [0..<length (tc_threads tc1)]"
    using Cons.IH [OF _ _ tasks] Cons.prems len by auto
  moreover have "tc_shape tc' = map (\<lambda>k. tc_shape tc ! k \<and> k \<notin> set (i # js)) [0..<length (tc_threads tc)]"
    unfolding tc'(3) len by (intro map_cong) (use shape in auto)
  ultimately show ?case using reg by simp
qed

lemma make_collection_spec:
  assumes "prio_ok cpus (sd_active d) mx idx p" "distinct (sd_active d)" "set (sd_active d) \<subseteq> {..<cpus}"
  shows "\<exists>p' tc. make_collection cpus d p = Some p' \<and> pt_tasks p' = Some tc \<and> tc_tasks tc = prio_tasks p
    \<and> pt_count p' = pt_count p \<and> tc_ok cpus (sd_active d) tc"
proof (cases "pt_tasks p")
  case (Some tc)
  then show ?thesis using assms(1) by (auto simp: make_collection_def prio_tasks_def prio_ok_def)
next
  case None
  have new: "length (tc_threads (tc_new cpus)) = cpus" "tc_tasks (tc_new cpus) = {#}"
    "tc_shape (tc_new cpus) = replicate cpus True"
    by (simp_all add: tc_new_def tc_tasks_def tc_shape_def in_set_replicate)
  then obtain tc where tc: "register_threads (sd_active d) (tc_new cpus) = Some tc" "tc_tasks tc = {#}"
    "tc_shape tc = map (\<lambda>k. replicate cpus True ! k \<and> k \<notin> set (sd_active d)) [0..<cpus]"
    using register_threads_shape [of "sd_active d" "tc_new cpus"] assms(2,3) by auto
  have "tc_shape tc = map (\<lambda>k. k \<notin> set (sd_active d)) [0..<cpus]"
    unfolding tc(3) by (intro map_cong) auto
  moreover have "pt_count p = 0" using assms(1) None by (simp add: prio_ok_def prio_tasks_def unat_eq_0)
  ultimately show ?thesis using None tc(1,2) by (simp add: make_collection_def prio_tasks_def tc_ok_def)
qed

lemma domain_put_spec:
  assumes ok: "domain_ok cpus d" and t: "valid_priority t" and room: "0 < domain_room d"
  shows "\<exists>d'. domain_put cpus t thid d = Some d' \<and> domain_ok cpus d'
    \<and> domain_tasks d' = add_mset t (domain_tasks d)"
proof -
  let ?idx = "task_index t"
  let ?p = "sd_prios d ! ?idx"
  have idx: "?idx < 33" using task_index [OF t] by simp
  have len: "length (sd_prios d) = 33" using ok by (simp add: domain_ok_def)
  have p: "prio_ok cpus (sd_active d) (sd_top d) ?idx ?p" using ok idx by (simp add: domain_ok_def)
  obtain p' tc where mk: "make_collection cpus d ?p = Some p'" "pt_tasks p' = Some tc" "tc_tasks tc = prio_tasks ?p"
    "pt_count p' = pt_count ?p" "tc_ok cpus (sd_active d) tc"
    using make_collection_spec [OF p] ok by (auto simp: domain_ok_def)
  let ?new = "\<lparr>pt_tasks = Some (tc_put t (to_size_t thid) tc), pt_count = pt_count ?p + 1\<rparr>"
  let ?d1 = "d\<lparr>sd_prios := (sd_prios d)[?idx := ?new]\<rparr>"
  let ?d' = "?d1\<lparr>sd_top := (if sd_top d < ?idx then ?idx else sd_top d)\<rparr>"
  have run: "domain_put cpus t thid d = Some ?d'"
    using mk idx len by (simp add: domain_put_def task_index_def Let_def)
  have new: "prio_tasks ?new = add_mset t (prio_tasks ?p)" by (simp add: prio_tasks_def tc_put_tasks mk(3))
  have tasks: "domain_tasks ?d' = add_mset t (domain_tasks d)"
    using domain_tasks_update [of ?idx d ?new] len idx new by simp
  have "size (prio_tasks ?p) + 1 < 2 ^ 64"
    using prio_le_domain [of ?idx d] len idx room by (simp add: domain_room_def)
  then have "unat (pt_count ?p + 1) = unat (pt_count ?p) + 1" using p by (subst unat_add64) (simp_all add: prio_ok_def)
  moreover have "tc_ok cpus (sd_active d) (tc_put t (to_size_t thid) tc)" using mk(5) by (simp add: tc_ok_def tc_put_shape)
  ultimately have "prio_ok cpus (sd_active d) (sd_top ?d') ?idx ?new"
    using p new by (auto simp: prio_ok_def)
  moreover have "prio_ok cpus (sd_active d) (sd_top ?d') i (sd_prios d ! i)" if "i < 33" for i
    using ok that by (fastforce simp: domain_ok_def prio_ok_def)
  ultimately have "domain_ok cpus ?d'" using ok len idx by (auto simp: domain_ok_def nth_list_update)
  then show ?thesis using run tasks by blast
qed

lemma domain_put_active: "domain_put cpus t thid d = Some d' \<Longrightarrow> sd_active d' = sd_active d"
  by (auto simp: domain_put_def Let_def split: if_splits option.splits)

section \<open>Threads that come and go\<close>

definition on_tasks :: "(task_collection \<Rightarrow> task_collection option) \<Rightarrow> priority_tasks \<Rightarrow> priority_tasks" where
  "on_tasks f p = (case pt_tasks p of None \<Rightarrow> p | Some tc \<Rightarrow> p\<lparr>pt_tasks := Some (the (f tc))\<rparr>)"

lemma on_collections_map:
  assumes "\<And>p tc. p \<in> set ps \<Longrightarrow> pt_tasks p = Some tc \<Longrightarrow> f tc \<noteq> None"
  shows "on_collections f ps = Some (map (on_tasks f) ps)"
  using assms
proof (induction ps)
  case (Cons p ps)
  have "on_collections f ps = Some (map (on_tasks f) ps)" using Cons.IH Cons.prems by (meson list.set_intros(2))
  moreover have "\<exists>c. f tc = Some c" if "pt_tasks p = Some tc" for tc
    using Cons.prems [of p tc] that by auto
  ultimately show ?case by (cases "pt_tasks p") (auto simp: on_tasks_def)
qed simp

lemma tc_ok_threads:
  assumes "tc_ok cpus active tc"
  shows "length (tc_threads tc) = cpus" "i < cpus \<Longrightarrow> tc_threads tc ! i = None \<longleftrightarrow> i \<notin> set active"
proof -
  have "length (tc_shape tc) = cpus" using assms by (simp add: tc_ok_def)
  then show len: "length (tc_threads tc) = cpus" by (simp add: tc_shape_def)
  show "tc_threads tc ! i = None \<longleftrightarrow> i \<notin> set active" if "i < cpus"
  proof -
    have "tc_shape tc ! i = (i \<notin> set active)" using assms that by (simp add: tc_ok_def)
    then show ?thesis using that len by (simp add: tc_shape_def)
  qed
qed

lemma tc_okI:
  assumes "length (tc_threads tc) = cpus" "\<And>i. i < cpus \<Longrightarrow> tc_threads tc ! i = None \<longleftrightarrow> i \<notin> set active"
  shows "tc_ok cpus active tc"
  unfolding tc_ok_def tc_shape_def by (rule nth_equalityI) (use assms in auto)

lemma register_thread_spec:
  assumes ok: "tc_ok cpus active tc" and i: "i < cpus" "i \<notin> set active"
  shows "\<exists>tc'. register_thread i tc = Some tc' \<and> tc_tasks tc' = tc_tasks tc \<and> tc_ok cpus (active @ [i]) tc'"
proof -
  let ?tc' = "tc\<lparr>tc_threads := (tc_threads tc)[i := Some []]\<rparr>"
  note th = tc_ok_threads [OF ok]
  have none: "tc_threads tc ! i = None" using th(2) i by simp
  have "register_thread i tc = Some ?tc'" using none th(1) i(1) by (simp add: register_thread_def)
  moreover have "tc_tasks ?tc' = tc_tasks tc" using tc_tasks_update [of i tc "Some []"] none th(1) i(1) by simp
  moreover have "tc_ok cpus (active @ [i]) ?tc'"
    by (rule tc_okI) (use th i(1) in \<open>auto simp: nth_list_update\<close>)
  ultimately show ?thesis by blast
qed

text \<open>The queue of a thread that goes is appended to the one for all threads.\<close>

definition moved_to_global :: "nat \<Rightarrow> task_collection \<Rightarrow> task_collection \<Rightarrow> bool" where
  "moved_to_global i tc tc' \<longleftrightarrow> tc_global tc' = tc_global tc @ queue_list (tc_threads tc ! i)
     \<and> tc_threads tc' = (tc_threads tc)[i := None]"

lemma deregister_thread_moves: "deregister_thread i tc = Some tc' \<Longrightarrow> moved_to_global i tc tc'"
  by (auto simp: deregister_thread_def moved_to_global_def split: if_splits option.splits)

lemma on_collections_nth:
  assumes "on_collections f ps = Some ps'" "k < length ps" "pt_tasks (ps ! k) = Some tc"
  shows "\<exists>tc'. f tc = Some tc' \<and> pt_tasks (ps' ! k) = Some tc'"
  using assms
proof (induction f ps arbitrary: ps' k rule: on_collections.induct)
  case (2 f p ps)
  then show ?case by (cases k) (auto split: option.splits bind_splits)
qed simp

lemma domain_remove_thread_moves:
  assumes "domain_remove_thread i d = Some d'" "k < length (sd_prios d)" "pt_tasks (sd_prios d ! k) = Some tc"
  shows "\<exists>tc'. pt_tasks (sd_prios d' ! k) = Some tc' \<and> moved_to_global i tc tc'"
proof -
  obtain ps where "on_collections (deregister_thread i) (sd_prios d) = Some ps" "sd_prios d' = ps"
    using assms(1) by (auto simp: domain_remove_thread_def Let_def split: bind_splits if_splits)
  then show ?thesis using on_collections_nth [OF _ assms(2,3)] deregister_thread_moves by metis
qed

lemma deregister_thread_spec:
  assumes ok: "tc_ok cpus active tc" and i: "i < cpus" "i \<in> set active" "distinct active"
  shows "\<exists>tc'. deregister_thread i tc = Some tc' \<and> tc_tasks tc' = tc_tasks tc \<and> tc_ok cpus (remove1 i active) tc'"
proof -
  note th = tc_ok_threads [OF ok]
  obtain q where q: "tc_threads tc ! i = Some q" using th(2) i by (cases "tc_threads tc ! i") auto
  let ?tc' = "\<lparr>tc_global = tc_global tc @ q, tc_threads = (tc_threads tc)[i := None]\<rparr>"
  have "deregister_thread i tc = Some ?tc'" using q th(1) i(1) by (simp add: deregister_thread_def)
  moreover have "tc_tasks ?tc' = tc_tasks tc"
    using tc_tasks_update [of i tc None] q th(1) i(1) by (simp add: tc_tasks_def ac_simps)
  moreover have "tc_ok cpus (remove1 i active) ?tc'"
    by (rule tc_okI) (use th i in \<open>auto simp: nth_list_update\<close>)
  ultimately show ?thesis by blast
qed

text \<open>An operation on the collections that keeps their tasks, and makes them fit a new list of threads.\<close>

lemma on_collections_spec:
  assumes ok: "domain_ok cpus d" and act: "distinct active" "set active \<subseteq> {..<cpus}"
    and f: "\<And>tc. tc_ok cpus (sd_active d) tc
      \<Longrightarrow> \<exists>tc'. f tc = Some tc' \<and> tc_tasks tc' = tc_tasks tc \<and> tc_ok cpus active tc'"
  shows "\<exists>ps. on_collections f (sd_prios d) = Some ps \<and> domain_ok cpus (d\<lparr>sd_prios := ps, sd_active := active\<rparr>)
    \<and> domain_tasks (d\<lparr>sd_prios := ps, sd_active := active\<rparr>) = domain_tasks d"
proof -
  let ?ps = "map (on_tasks f) (sd_prios d)"
  have len: "length (sd_prios d) = 33" using ok by (simp add: domain_ok_def)
  have tc: "tc_ok cpus (sd_active d) tc" if "i < 33" "pt_tasks (sd_prios d ! i) = Some tc" for i tc
    using ok that by (fastforce simp: domain_ok_def prio_ok_def)
  have run: "on_collections f (sd_prios d) = Some ?ps"
  proof (rule on_collections_map)
    fix p tc' assume "p \<in> set (sd_prios d)" "pt_tasks p = Some tc'"
    then obtain i where "i < 33" "p = sd_prios d ! i" using len by (metis in_set_conv_nth)
    then show "f tc' \<noteq> None" using tc f \<open>pt_tasks p = Some tc'\<close> by fastforce
  qed
  have each: "prio_tasks (on_tasks f (sd_prios d ! i)) = prio_tasks (sd_prios d ! i)
    \<and> prio_ok cpus active (sd_top d) i (on_tasks f (sd_prios d ! i))" if i: "i < 33" for i
  proof (cases "pt_tasks (sd_prios d ! i)")
    case None
    then show ?thesis using ok i by (auto simp: on_tasks_def domain_ok_def prio_ok_def)
  next
    case (Some c)
    obtain c' where "f c = Some c'" "tc_tasks c' = tc_tasks c" "tc_ok cpus active c'" using f [OF tc [OF i Some]] by blast
    moreover have "prio_ok cpus (sd_active d) (sd_top d) i (sd_prios d ! i)" using ok i by (simp add: domain_ok_def)
    ultimately show ?thesis using Some by (simp add: on_tasks_def prio_ok_def prio_tasks_def)
  qed
  have "map prio_tasks ?ps = map prio_tasks (sd_prios d)"
    by (rule nth_equalityI) (use len each in simp_all)
  then have "sum_list (map prio_tasks ?ps) = sum_list (map prio_tasks (sd_prios d))" by (rule arg_cong)
  then have "domain_tasks (d\<lparr>sd_prios := ?ps, sd_active := active\<rparr>) = domain_tasks d"
    by (simp add: domain_tasks_def del: map_map)
  moreover have "domain_ok cpus (d\<lparr>sd_prios := ?ps, sd_active := active\<rparr>)"
    using ok act len each by (simp add: domain_ok_def)
  ultimately show ?thesis using run by blast
qed

lemma domain_add_thread_spec:
  assumes ok: "domain_ok cpus d" and i: "i < cpus" "i \<notin> set (sd_active d)"
  shows "\<exists>d'. domain_add_thread i d = Some d' \<and> domain_ok cpus d' \<and> domain_tasks d' = domain_tasks d
    \<and> sd_active d' = sd_active d @ [i]"
proof -
  have "distinct (sd_active d @ [i])" "set (sd_active d @ [i]) \<subseteq> {..<cpus}" using ok i by (auto simp: domain_ok_def)
  from on_collections_spec [OF ok this register_thread_spec [OF _ i]] show ?thesis
    by (auto simp: domain_add_thread_def)
qed

lemma domain_remove_thread_spec:
  assumes ok: "domain_ok cpus d" and i: "i \<in> set (sd_active d)"
  shows "\<exists>d'. domain_remove_thread i d = Some d' \<and> domain_ok cpus d' \<and> domain_tasks d' = domain_tasks d
    \<and> sd_active d' = remove1 i (sd_active d)"
proof -
  have dist: "distinct (sd_active d)" and cpu: "i < cpus" using ok i by (auto simp: domain_ok_def)
  have "distinct (remove1 i (sd_active d))" "set (remove1 i (sd_active d)) \<subseteq> {..<cpus}"
    using ok set_remove1_subset [of i "sd_active d"] by (auto simp: domain_ok_def)
  from on_collections_spec [OF ok this deregister_thread_spec [OF _ cpu i dist]] show ?thesis
    using i dist by (auto simp: domain_remove_thread_def Let_def)
qed

section \<open>The pool\<close>

definition domain_take :: "nat \<times> int \<Rightarrow> domain \<Rightarrow> (task option \<times> domain) option" where
  "domain_take a d = domain_try_get (fst a) (snd a) d"

definition domain_place :: "nat \<Rightarrow> int \<Rightarrow> task \<Rightarrow> domain \<Rightarrow> domain option" where
  "domain_place cpus thid t d = domain_put cpus t thid d"

definition domain_holds :: "nat \<Rightarrow> domain \<Rightarrow> bool" where
  "domain_holds cpus d \<longleftrightarrow> domain_ok cpus d \<and> (\<forall>t\<in>#domain_tasks d. valid_priority t)"

lemma task_index_not_below:
  assumes "valid_priority t" "valid_priority u" "task_index u \<le> task_index t"
  shows "not_below t u"
  using assms task_index [of t] task_index [of u]
  by (auto simp: not_below_def priority_less_def word_sless_alt valid_priority_def)

interpretation sched: task_pool "domain_holds cpus" domain_tasks valid_priority domain_room "domain_place cpus" domain_take
  for cpus
proof
  fix d t b assume h: "domain_holds cpus d" "valid_priority t" "0 < domain_room d"
  obtain d' where d': "domain_put cpus t b d = Some d'" "domain_ok cpus d'" "domain_tasks d' = add_mset t (domain_tasks d)"
    using domain_put_spec [OF _ h(2,3), of cpus b] h(1) unfolding domain_holds_def by blast
  then show "\<exists>d'. domain_place cpus b t d = Some d' \<and> domain_holds cpus d' \<and> domain_tasks d' = add_mset t (domain_tasks d)
    \<and> domain_room d \<le> Suc (domain_room d')"
    using h by (auto simp: domain_place_def domain_holds_def domain_room_def)
next
  show "domain_take a d = Some (None, d)" if "domain_holds cpus d" "domain_tasks d = {#}" for d a
    using domain_try_get_spec [of cpus d] that by (auto simp: domain_take_def domain_holds_def)
next
  fix d a assume h: "domain_holds cpus d" "domain_tasks d \<noteq> {#}"
  obtain t d' where d': "domain_try_get (fst a) (snd a) d = Some (Some t, d')" "domain_ok cpus d'"
    "domain_tasks d = add_mset t (domain_tasks d')" "\<forall>u\<in>#domain_tasks d. task_index u \<le> task_index t"
    using domain_try_get_spec [of cpus d "fst a" "snd a"] h by (auto simp: domain_holds_def)
  moreover have "valid_priority t" "\<forall>u\<in>#domain_tasks d. valid_priority u" using h(1) d'(3) by (auto simp: domain_holds_def)
  ultimately show "\<exists>t d'. domain_take a d = Some (Some t, d') \<and> domain_holds cpus d'
    \<and> domain_tasks d = add_mset t (domain_tasks d') \<and> (\<forall>u\<in>#domain_tasks d. not_below t u)"
    using task_index_not_below by (fastforce simp: domain_take_def domain_holds_def)
qed

text \<open>
  C17: A scheduling domain is a priority queue that loses nothing. Put any tasks with priorities
  from -16 to 16 into a new domain, from any threads, and take until as often as there are
  tasks, for any threads and with any random numbers for stealing: every task comes out exactly
  once, and in descending order of priority.
\<close>

theorem domain_priority_queue:
  assumes "\<And>t. t \<in> snd ` set bts \<Longrightarrow> valid_priority t" "length bts < 2 ^ 64" "length bts \<le> length args"
  shows "\<exists>d ts d'. fill_pool (domain_place cpus) bts domain_new = Some d
    \<and> drain_pool domain_take args d = Some (ts, d')
    \<and> mset ts = mset (map snd bts) \<and> sorted_wrt not_below ts \<and> domain_tasks d' = {#}"
proof -
  have new: "domain_holds cpus domain_new" using domain_new_ok by (simp add: domain_holds_def)
  have "length bts \<le> domain_room domain_new" using assms(2) domain_new_ok by (simp add: domain_room_def)
  from sched.fill [OF new this assms(1)] obtain d where d: "fill_pool (domain_place cpus) bts domain_new = Some d"
    "domain_holds cpus d" "domain_tasks d = mset (map snd bts)" using domain_new_ok by auto
  show ?thesis using d sched.drain [OF d(2), of args] assms(3) by auto
qed

theorem domain_priority_queue_wit:
  "\<exists>d ts d'. fill_pool (domain_place 2) [(0, \<lparr>tk_priority = 3, tk_id = 1\<rparr>), (- 1, \<lparr>tk_priority = 16, tk_id = 2\<rparr>)] domain_new = Some d
    \<and> drain_pool domain_take [(5, 1), (7, - 1)] d = Some (ts, d')
    \<and> mset ts = {#\<lparr>tk_priority = 3, tk_id = 1\<rparr>, \<lparr>tk_priority = 16, tk_id = 2\<rparr>#} \<and> sorted_wrt not_below ts
    \<and> domain_tasks d' = {#}"
proof -
  have "valid_priority t" if "t \<in> snd ` set [(0::int, \<lparr>tk_priority = 3, tk_id = 1\<rparr>), (- 1, \<lparr>tk_priority = 16, tk_id = 2\<rparr>)]" for t
    using that by (auto simp: valid_priority_def)
  from domain_priority_queue [where bts = "[(0::int, \<lparr>tk_priority = 3, tk_id = 1\<rparr>), (- 1, \<lparr>tk_priority = 16, tk_id = 2\<rparr>)]"
      and args = "[(5, 1), (7, - 1)]" and cpus = 2, OF this]
  show ?thesis by (simp del: fill_pool.simps drain_pool.simps)
qed

text \<open>
  C34: A thread that goes loses no task. Deregistering any active thread (between other operations
  on the domain) succeeds; at every priority the tasks of the thread's own queue are appended, in
  their order, to the queue for all threads; so the tasks of the domain stay, and all of them can be
  taken in order of priority, whichever threads ask. Registering it again keeps them, too.
\<close>

theorem threads_keep_tasks:
  assumes "domain_holds cpus d" "i \<in> set (sd_active d)" "size (domain_tasks d) \<le> length args"
  shows "\<exists>d1 d2 ts d'. domain_remove_thread i d = Some d1 \<and> domain_tasks d1 = domain_tasks d
    \<and> sd_active d1 = remove1 i (sd_active d)
    \<and> (\<forall>k<length (sd_prios d). \<forall>tc. pt_tasks (sd_prios d ! k) = Some tc \<longrightarrow>
         (\<exists>tc1. pt_tasks (sd_prios d1 ! k) = Some tc1 \<and> tc_threads tc1 = (tc_threads tc)[i := None]
            \<and> tc_global tc1 = tc_global tc @ queue_list (tc_threads tc ! i)))
    \<and> drain_pool domain_take args d1 = Some (ts, d') \<and> mset ts = domain_tasks d \<and> sorted_wrt not_below ts
    \<and> domain_add_thread i d1 = Some d2 \<and> domain_tasks d2 = domain_tasks d \<and> i \<in> set (sd_active d2)"
proof -
  have ok: "domain_ok cpus d" using assms(1) by (simp add: domain_holds_def)
  obtain d1 where d1: "domain_remove_thread i d = Some d1" "domain_ok cpus d1" "domain_tasks d1 = domain_tasks d"
    "sd_active d1 = remove1 i (sd_active d)" using domain_remove_thread_spec [OF ok assms(2)] by blast
  have "i < cpus" "i \<notin> set (sd_active d1)" using ok assms(2) d1(4) by (auto simp: domain_ok_def)
  from domain_add_thread_spec [OF d1(2) this] obtain d2 where d2: "domain_add_thread i d1 = Some d2"
    "domain_tasks d2 = domain_tasks d1" "sd_active d2 = sd_active d1 @ [i]" by blast
  have holds: "domain_holds cpus d1" using d1(2,3) assms(1) by (simp add: domain_holds_def)
  obtain ts d' where "drain_pool domain_take args d1 = Some (ts, d')" "mset ts = domain_tasks d1" "sorted_wrt not_below ts"
    using sched.drain [OF holds, of args] assms(3) d1(3) by auto
  moreover have "\<exists>tc1. pt_tasks (sd_prios d1 ! k) = Some tc1 \<and> tc_threads tc1 = (tc_threads tc)[i := None]
      \<and> tc_global tc1 = tc_global tc @ queue_list (tc_threads tc ! i)"
    if "k < length (sd_prios d)" "pt_tasks (sd_prios d ! k) = Some tc" for k tc
    using domain_remove_thread_moves [OF d1(1) that] by (auto simp: moved_to_global_def)
  ultimately show ?thesis using d1 d2 by auto
qed

text \<open>A thread whose queue has a task.\<close>

theorem threads_keep_tasks_wit:
  "\<exists>d0 d d1 ts d'. domain_add_thread 1 domain_new = Some d0
    \<and> domain_put 2 \<lparr>tk_priority = 3, tk_id = 7\<rparr> 1 d0 = Some d \<and> domain_remove_thread 1 d = Some d1
    \<and> drain_pool domain_take [(0, 0)] d1 = Some (ts, d') \<and> ts = [\<lparr>tk_priority = 3, tk_id = 7\<rparr>]"
proof -
  let ?t = "\<lparr>tk_priority = 3, tk_id = 7\<rparr>"
  obtain d0 where d0: "domain_add_thread 1 domain_new = Some d0" "domain_ok 2 d0" "domain_tasks d0 = {#}"
    "sd_active d0 = sd_active domain_new @ [1]"
    using domain_add_thread_spec [of 2 domain_new 1] domain_new_ok [of 2] by (auto simp: domain_new_def)
  have t: "valid_priority ?t" by (simp add: valid_priority_def)
  obtain d where d: "domain_put 2 ?t 1 d0 = Some d" "domain_ok 2 d" "domain_tasks d = {#?t#}"
    using domain_put_spec [OF d0(2) t, of 1] d0(3) by (auto simp: domain_room_def)
  have "domain_holds 2 d" "1 \<in> set (sd_active d)"
    using d d0(4) t domain_put_active [OF d(1)] by (simp_all add: domain_holds_def)
  from threads_keep_tasks [OF this, of "[(0, 0)]"] obtain d1 ts d' where r: "domain_remove_thread 1 d = Some d1"
    "drain_pool domain_take [(0, 0)] d1 = Some (ts, d')" "mset ts = {#?t#}" using d(3) by auto
  then have "ts = [?t]" by simp
  then show ?thesis using d0(1) d(1) r(1,2) by blast
qed

end
