(* ===== verification/Scheduler.thy ===== *)
theory Scheduler
  imports Task_Domain
begin

text \<open>
  \<open>src/src/tasking/thread_manager.cpp\<close> and the class \<open>Scheduler\<close> of \<open>task_scheduler.cpp\<close>: the worker threads
  of a node. The thread manager keeps the threads of every core and drives each through its
  states; the scheduler creates and stops workers and tells the domain which thread ids have a
  queue. Thread objects are numbers, in the place of addresses. A failed assertion and a call that
  does not return are \<open>None\<close>.
\<close>

section \<open>Threads and the thread manager\<close>

datatype thread_state = CREATED | ASSOCIATED | RUNNING | TERMINATED | FLOATING

text \<open>\<open>tb_done\<close> and \<open>tb_sleep\<close> are \<open>_done\<close> and the semaphore \<open>_sleep\<close> of a \<open>WorkerThread\<close>.\<close>

record thread_base =
  tb_state :: thread_state
  tb_cpuid :: int
  tb_managed :: bool
  tb_done :: bool
  tb_sleep :: nat

record thread_manager =
  tm_cpu_set :: "int list"
  tm_threads :: "nat list list"

type_synonym threads = "nat \<Rightarrow> thread_base option"

definition thread_new :: thread_base where
  "thread_new = \<lparr>tb_state = CREATED, tb_cpuid = - 1, tb_managed = False, tb_done = False, tb_sleep = 0\<rparr>"

definition associate :: "int \<Rightarrow> thread_base \<Rightarrow> thread_base option" where
  "associate cpuid th =
     (if tb_state th = CREATED then Some (th\<lparr>tb_state := ASSOCIATED, tb_cpuid := cpuid, tb_managed := True\<rparr>) else None)"

definition start :: "thread_base \<Rightarrow> thread_base option" where
  "start th = (if tb_state th = ASSOCIATED then Some (th\<lparr>tb_state := RUNNING\<rparr>) else None)"

definition shutdown :: "thread_base \<Rightarrow> thread_base option" where
  "shutdown th = Some (th\<lparr>tb_done := True\<rparr>)"

definition notify_worker :: "thread_base \<Rightarrow> thread_base option" where
  "notify_worker th = Some (th\<lparr>tb_sleep := tb_sleep th + 1\<rparr>)"

text \<open>
  The end of the thread function, and \<open>join\<close>, which waits for it; joining twice is an error. The loop
  of a worker goes on until it has been told to stop, so \<open>join\<close> does not return before that.
\<close>

definition thread_end :: "thread_base \<Rightarrow> thread_base option" where
  "thread_end th = (if tb_state th = RUNNING \<and> tb_done th then Some (th\<lparr>tb_state := TERMINATED\<rparr>) else None)"

definition join :: "thread_base \<Rightarrow> thread_base option" where
  "join th = (case tb_state th of
     RUNNING \<Rightarrow> thread_end th
   | TERMINATED \<Rightarrow> Some th
   | _ \<Rightarrow> None)"

definition release :: "thread_base \<Rightarrow> thread_base option" where
  "release th = (if tb_state th = TERMINATED then Some (th\<lparr>tb_state := FLOATING, tb_managed := False\<rparr>) else None)"

definition on_thread :: "(thread_base \<Rightarrow> thread_base option) \<Rightarrow> nat \<Rightarrow> threads \<Rightarrow> threads option" where
  "on_thread f w ths = do { th \<leftarrow> ths w; th \<leftarrow> f th; Some (ths(w \<mapsto> th)) }"

definition manager_new :: "int list \<Rightarrow> thread_manager option" where
  "manager_new cpuset =
     (if 0 < length cpuset then Some \<lparr>tm_cpu_set = cpuset, tm_threads = replicate (length cpuset) []\<rparr> else None)"

definition manages_thread :: "thread_manager \<Rightarrow> nat \<Rightarrow> bool" where
  "manages_thread tm w \<longleftrightarrow> list_ex (\<lambda>l. w \<in> set l) (tm_threads tm)"

text \<open>The core with the fewest threads, the first of them; the search starts at core 0.\<close>

fun best_core :: "nat list list \<Rightarrow> nat \<Rightarrow> nat list \<Rightarrow> nat" where
  "best_core ls core [] = core"
| "best_core ls core (i # is) = best_core ls (if length (ls ! i) < length (ls ! core) then i else core) is"

definition tm_register_thread :: "nat \<Rightarrow> int \<Rightarrow> thread_manager \<Rightarrow> threads \<Rightarrow> (nat \<times> thread_manager \<times> threads) option" where
  "tm_register_thread w core tm ths =
     (let core = (if core < 0 then int (best_core (tm_threads tm) 0 [1..<length (tm_threads tm)]) else core)
      in if \<not> nat core < length (tm_threads tm) then None
         else do {
           let k = nat core;
           let tm' = tm\<lparr>tm_threads := (tm_threads tm)[k := tm_threads tm ! k @ [w]]\<rparr>;
           ths \<leftarrow> on_thread (associate (tm_cpu_set tm ! k)) w ths;
           ths \<leftarrow> on_thread start w ths;
           Some (k, tm', ths) })"

text \<open>\<open>_cpu_to_idx\<close> maps a CPU to the last index that has it.\<close>

definition cpu_to_idx :: "int list \<Rightarrow> int \<Rightarrow> nat option" where
  "cpu_to_idx cpus c = map_of (rev (zip cpus [0..<length cpus])) c"

definition tm_deregister_thread :: "nat \<Rightarrow> thread_manager \<Rightarrow> threads \<Rightarrow> (thread_manager \<times> threads) option" where
  "tm_deregister_thread w tm ths =
     (if \<not> manages_thread tm w then None
      else do {
        th \<leftarrow> ths w;
        core \<leftarrow> cpu_to_idx (tm_cpu_set tm) (tb_cpuid th);
        ths \<leftarrow> on_thread join w ths;
        ths \<leftarrow> on_thread release w ths;
        Some (tm\<lparr>tm_threads := (tm_threads tm)[core := removeAll w (tm_threads tm ! core)]\<rparr>, ths) })"

fun release_all :: "nat list \<Rightarrow> threads \<Rightarrow> threads option" where
  "release_all [] ths = Some ths"
| "release_all (w # ws) ths = do {
     ths \<leftarrow> on_thread join w ths;
     ths \<leftarrow> on_thread release w ths;
     release_all ws ths }"

definition tm_deregister_all :: "thread_manager \<Rightarrow> threads \<Rightarrow> (thread_manager \<times> threads) option" where
  "tm_deregister_all tm ths = do {
     ths \<leftarrow> release_all (concat (tm_threads tm)) ths;
     Some (tm\<lparr>tm_threads := map (\<lambda>l. []) (tm_threads tm)\<rparr>, ths) }"

fun wait_for_all :: "nat list \<Rightarrow> threads \<Rightarrow> threads option" where
  "wait_for_all [] ths = Some ths"
| "wait_for_all (w # ws) ths = do { ths \<leftarrow> on_thread join w ths; wait_for_all ws ths }"

section \<open>The scheduler of a node\<close>

text \<open>
  \<open>sc_next\<close> is the next number of a thread object. A destroyed object must be floating.
  \<open>sc_waiting\<close> counts the workers that registered to sleep, \<open>sc_semaphore\<close> is the semaphore's value.
\<close>

record scheduler =
  sc_cores :: nat
  sc_domain :: domain
  sc_workers :: "nat option list"
  sc_manager :: thread_manager
  sc_threads :: threads
  sc_next :: nat
  sc_waiting :: nat
  sc_semaphore :: nat

definition create_thread :: "int \<Rightarrow> scheduler \<Rightarrow> scheduler option" where
  "create_thread core s =
     (if \<not> (0 \<le> core \<and> core < int (sc_cores s)) \<or> sc_workers s ! nat core \<noteq> None then None
      else do {
        let th = sc_next s;
        let ths = (sc_threads s)(th \<mapsto> thread_new);
        d \<leftarrow> domain_add_thread (nat core) (sc_domain s);
        (k, tm, ths) \<leftarrow> tm_register_thread th core (sc_manager s) ths;
        Some (s\<lparr>sc_domain := d, sc_workers := (sc_workers s)[nat core := Some th], sc_manager := tm,
                sc_threads := ths, sc_next := sc_next s + 1\<rparr>) })"

definition destroy_thread :: "nat \<Rightarrow> threads \<Rightarrow> threads option" where
  "destroy_thread w ths = do {
     th \<leftarrow> ths w;
     if tb_state th = FLOATING then Some (ths(w := None)) else None }"

definition stop_wait_thread :: "int \<Rightarrow> scheduler \<Rightarrow> scheduler option" where
  "stop_wait_thread core s =
     (if \<not> (0 \<le> core \<and> core < int (sc_cores s)) then None
      else do {
        th \<leftarrow> sc_workers s ! nat core;
        d \<leftarrow> domain_remove_thread (nat core) (sc_domain s);
        ths \<leftarrow> on_thread shutdown th (sc_threads s);
        ths \<leftarrow> on_thread notify_worker th ths;
        (tm, ths) \<leftarrow> tm_deregister_thread th (sc_manager s) ths;
        ths \<leftarrow> destroy_thread th ths;
        Some (s\<lparr>sc_domain := d, sc_workers := (sc_workers s)[nat core := None], sc_manager := tm,
                sc_threads := ths\<rparr>) })"

text \<open>The loop of \<open>set_threads\<close>: the argument has an entry for every core, and is read as a mask.\<close>

fun set_threads_loop :: "int list \<Rightarrow> nat list \<Rightarrow> scheduler \<Rightarrow> scheduler option" where
  "set_threads_loop core_ids [] s = Some s"
| "set_threads_loop core_ids (c # cs) s =
     (if \<not> c < length core_ids then None
      else Option.bind
        (if core_ids ! c \<noteq> 0 \<and> sc_workers s ! c = None then create_thread (int c) s
         else if core_ids ! c = 0 \<and> sc_workers s ! c \<noteq> None then stop_wait_thread (int c) s
         else Some s) (set_threads_loop core_ids cs))"

definition set_threads :: "int list \<Rightarrow> scheduler \<Rightarrow> scheduler option" where
  "set_threads core_ids s = set_threads_loop core_ids [0..<sc_cores s] s"

text \<open>The two loops of \<open>set_thread_count\<close>, up from core 0 and down from the last core.\<close>

fun add_workers :: "int \<Rightarrow> nat list \<Rightarrow> int \<Rightarrow> scheduler \<Rightarrow> (int \<times> scheduler) option" where
  "add_workers cnt [] have_now s = Some (have_now, s)"
| "add_workers cnt (c # cs) have_now s =
     (if \<not> have_now < cnt then Some (have_now, s)
      else if sc_workers s ! c = None then
        Option.bind (create_thread (int c) s) (add_workers cnt cs (have_now + 1))
      else add_workers cnt cs have_now s)"

fun remove_workers :: "int \<Rightarrow> nat list \<Rightarrow> int \<Rightarrow> scheduler \<Rightarrow> (int \<times> scheduler) option" where
  "remove_workers cnt [] have_now s = Some (have_now, s)"
| "remove_workers cnt (c # cs) have_now s =
     (if \<not> cnt < have_now then Some (have_now, s)
      else if sc_workers s ! c \<noteq> None then
        Option.bind (stop_wait_thread (int c) s) (remove_workers cnt cs (have_now - 1))
      else remove_workers cnt cs have_now s)"

definition set_thread_count :: "int \<Rightarrow> scheduler \<Rightarrow> scheduler option" where
  "set_thread_count cnt s =
     (if \<not> (0 \<le> cnt \<and> cnt \<le> int (sc_cores s)) then None
      else do {
        let have_now = int (length (filter (\<lambda>w. w \<noteq> None) (sc_workers s)));
        (have_now, s) \<leftarrow> add_workers cnt [0..<sc_cores s] have_now s;
        (have_now, s) \<leftarrow> remove_workers cnt (rev [0..<sc_cores s]) have_now s;
        Some s })"

text \<open>The constructor, for the CPUs and the thread count of the node.\<close>

definition scheduler_new :: "int list \<Rightarrow> int \<Rightarrow> scheduler option" where
  "scheduler_new cpus threads = do {
     tm \<leftarrow> manager_new cpus;
     set_thread_count threads
       \<lparr>sc_cores = length cpus, sc_domain = domain_new, sc_workers = replicate (length cpus) None,
        sc_manager = tm, sc_threads = Map.empty, sc_next = 0,
        sc_waiting = 0, sc_semaphore = 0\<rparr> }"

text \<open>The id of a worker is its core.\<close>

definition worker_ids :: "scheduler \<Rightarrow> nat list" where
  "worker_ids s = filter (\<lambda>c. sc_workers s ! c \<noteq> None) [0..<length (sc_workers s)]"

text \<open>
  A task from the own domain or else from the global one, for which the thread id is -1. The
  result has the task and both domains.
\<close>

definition sched_try_get_task ::
  "nat \<Rightarrow> int \<Rightarrow> domain \<Rightarrow> domain \<Rightarrow> (task option \<times> domain \<times> domain) option" where
  "sched_try_get_task random thid local global = do {
     (t, local) \<leftarrow> domain_try_get random thid local;
     case t of
       Some t \<Rightarrow> Some (Some t, local, global)
     | None \<Rightarrow> do {
         (t, global) \<leftarrow> domain_try_get random (- 1) global;
         Some (t, local, global) } }"

section \<open>Sleeping workers\<close>

text \<open>\<open>waitForTask\<close> computes the end of its wait from the current time in seconds and microseconds.\<close>

definition wait_time :: "int \<Rightarrow> int \<Rightarrow> int \<Rightarrow> int \<times> int" where
  "wait_time sec usec delay =
     (let nsec = 1000 * (usec + delay)
      in if nsec > 1000000000 then (sec + 1, nsec - 1000000000) else (sec, nsec))"

text \<open>What POSIX requires of a \<open>timespec\<close>; \<open>sem_timedwait\<close> fails with \<open>EINVAL\<close> otherwise.\<close>

definition timespec_ok :: "int \<times> int \<Rightarrow> bool" where
  "timespec_ok ts \<longleftrightarrow> 0 \<le> snd ts \<and> snd ts < 1000000000"

text \<open>
  A worker that finds no task registers and sleeps on the semaphore; \<open>taskAvailable\<close> posts it once
  for every registered worker.
\<close>

definition wait_for_task :: "int \<Rightarrow> int \<Rightarrow> int \<Rightarrow> scheduler \<Rightarrow> (int \<times> int) \<times> scheduler" where
  "wait_for_task sec usec delay s = (wait_time sec usec delay, s\<lparr>sc_waiting := sc_waiting s + 1\<rparr>)"

definition task_available :: "scheduler \<Rightarrow> scheduler" where
  "task_available s =
     (if 0 < sc_waiting s then s\<lparr>sc_waiting := 0, sc_semaphore := sc_semaphore s + sc_waiting s\<rparr> else s)"

text \<open>\<open>put_task\<close> wakes the workers, then inserts the task. \<open>cpus\<close> is the number of CPUs of the domain.\<close>

definition sched_put_task :: "nat \<Rightarrow> task \<Rightarrow> int \<Rightarrow> scheduler \<Rightarrow> scheduler option" where
  "sched_put_task cpus t thid s = do {
     let s = task_available s;
     d \<leftarrow> domain_put cpus t thid (sc_domain s);
     Some (s\<lparr>sc_domain := d\<rparr>) }"

text \<open>
  \<open>spawn_task\<close>: without a scheduler the task goes to the global domain and the workers of all nodes
  with CPUs are woken; otherwise the calling worker's id is passed if it works on that node.
\<close>

definition spawn_global :: "nat \<Rightarrow> task \<Rightarrow> domain \<Rightarrow> scheduler list \<Rightarrow> (domain \<times> scheduler list) option" where
  "spawn_global cpus t global scheds = do {
     global \<leftarrow> domain_put cpus t (- 1) global;
     Some (global, map task_available scheds) }"

definition spawn_thread_id :: "(int \<times> nat) option \<Rightarrow> int \<Rightarrow> int" where
  "spawn_thread_id worker node =
     (case worker of None \<Rightarrow> - 1 | Some (home, i) \<Rightarrow> if home = node then int i else - 1)"

definition spawn_local :: "nat \<Rightarrow> task \<Rightarrow> (int \<times> nat) option \<Rightarrow> int \<Rightarrow> scheduler \<Rightarrow> scheduler option" where
  "spawn_local cpus t worker node s = sched_put_task cpus t (spawn_thread_id worker node) s"

section \<open>The end of a scheduler\<close>

text \<open>
  The destructor: take each worker out of the domain, tell it to stop, wake the sleeping ones, wait for
  their threads, and delete the manager (which must have no threads), the thread objects and the domain.
\<close>

fun retire_workers :: "nat list \<Rightarrow> scheduler \<Rightarrow> scheduler option" where
  "retire_workers [] s = Some s"
| "retire_workers (c # cs) s =
     (case sc_workers s ! c of
        None \<Rightarrow> retire_workers cs s
      | Some w \<Rightarrow> do {
          d \<leftarrow> domain_remove_thread c (sc_domain s);
          ths \<leftarrow> on_thread shutdown w (sc_threads s);
          ths \<leftarrow> on_thread notify_worker w ths;
          retire_workers cs (s\<lparr>sc_workers := (sc_workers s)[c := None], sc_domain := d, sc_threads := ths\<rparr>) })"

definition manager_delete :: "thread_manager \<Rightarrow> unit option" where
  "manager_delete tm = (if list_all (\<lambda>l. l = []) (tm_threads tm) then Some () else None)"

fun destroy_threads :: "nat option list \<Rightarrow> threads \<Rightarrow> threads option" where
  "destroy_threads [] ths = Some ths"
| "destroy_threads (None # ws) ths = destroy_threads ws ths"
| "destroy_threads (Some w # ws) ths = do { ths \<leftarrow> destroy_thread w ths; destroy_threads ws ths }"

text \<open>
  The destructor of a domain deletes the collections with their queues. The queues hold plain pointers,
  so it does nothing to the tasks that are still in them; the result is the list of these tasks.
\<close>

definition collection_delete :: "task_collection \<Rightarrow> task list" where
  "collection_delete tc = tc_global tc @ concat (map (\<lambda>q. case q of None \<Rightarrow> [] | Some q \<Rightarrow> q) (tc_threads tc))"

definition domain_delete :: "domain \<Rightarrow> task list" where
  "domain_delete d = concat (map (\<lambda>p. case pt_tasks p of None \<Rightarrow> [] | Some tc \<Rightarrow> collection_delete tc) (sd_prios d))"

text \<open>What is left of a scheduler: the thread objects, the final value of its semaphore, the tasks nobody has taken.\<close>

record sched_remains =
  sr_threads :: threads
  sr_semaphore :: nat
  sr_lost :: "task list"

definition scheduler_delete :: "scheduler \<Rightarrow> sched_remains option" where
  "scheduler_delete s = do {
     let tmpworkers = sc_workers s;
     s \<leftarrow> retire_workers [0..<sc_cores s] s;
     let s = (task_available ^^ length (sc_workers s)) s;
     (tm, ths) \<leftarrow> tm_deregister_all (sc_manager s) (sc_threads s);
     manager_delete tm;
     ths \<leftarrow> destroy_threads tmpworkers ths;
     Some \<lparr>sr_threads = ths, sr_semaphore = sc_semaphore s, sr_lost = domain_delete (sc_domain s)\<rparr> }"

end
