(* ===== verification/Scheduler_Props.thy ===== *)
theory Scheduler_Props
  imports Scheduler
begin

text \<open>
  What the scheduler of a node keeps: the vector of workers, the queues of the domain, the lists
  of the thread manager and the states of the threads agree, and no task is lost.
\<close>

definition running_on :: "int \<Rightarrow> thread_base" where
  "running_on cpu = \<lparr>tb_state = RUNNING, tb_cpuid = cpu, tb_managed = True, tb_done = False, tb_sleep = 0\<rparr>"

text \<open>A worker that has been told to stop and posted, and the same after it has ended.\<close>

definition stopped_on :: "int \<Rightarrow> thread_base" where
  "stopped_on cpu = (running_on cpu)\<lparr>tb_done := True, tb_sleep := 1\<rparr>"

definition floating_from :: "int \<Rightarrow> thread_base" where
  "floating_from cpu = (stopped_on cpu)\<lparr>tb_state := FLOATING, tb_managed := False\<rparr>"

lemma stop_thread:
  assumes "ths w = Some (running_on cpu)"
  shows "\<exists>ths1. on_thread shutdown w ths = Some ths1 \<and> on_thread notify_worker w ths1 = Some (ths(w \<mapsto> stopped_on cpu))"
  using assms by (simp add: on_thread_def shutdown_def notify_worker_def stopped_on_def running_on_def)

lemma end_thread:
  assumes "ths w = Some (stopped_on cpu)"
  shows "\<exists>ths1. on_thread join w ths = Some ths1 \<and> on_thread release w ths1 = Some (ths(w \<mapsto> floating_from cpu))"
  using assms
  by (simp add: on_thread_def join_def thread_end_def release_def floating_from_def stopped_on_def running_on_def)

text \<open>A worker that has not been told to stop is waited for in vain.\<close>

lemma join_needs_shutdown: "ths w = Some (running_on cpu) \<Longrightarrow> on_thread join w ths = None"
  by (simp add: on_thread_def join_def thread_end_def running_on_def)

definition core_ok :: "scheduler \<Rightarrow> nat \<Rightarrow> bool" where
  "core_ok s c \<longleftrightarrow> (case sc_workers s ! c of
     None \<Rightarrow> tm_threads (sc_manager s) ! c = [] \<and> c \<notin> set (sd_active (sc_domain s))
   | Some w \<Rightarrow> tm_threads (sc_manager s) ! c = [w] \<and> c \<in> set (sd_active (sc_domain s))
       \<and> w < sc_next s \<and> sc_threads s w = Some (running_on (tm_cpu_set (sc_manager s) ! c)))"

definition sched_ok :: "scheduler \<Rightarrow> bool" where
  "sched_ok s \<longleftrightarrow> length (sc_workers s) = sc_cores s \<and> length (tm_cpu_set (sc_manager s)) = sc_cores s
     \<and> length (tm_threads (sc_manager s)) = sc_cores s \<and> distinct (tm_cpu_set (sc_manager s))
     \<and> domain_holds (sc_cores s) (sc_domain s) \<and> (\<forall>c < sc_cores s. core_ok s c)"

definition same_tasks :: "scheduler \<Rightarrow> scheduler \<Rightarrow> bool" where
  "same_tasks s s' \<longleftrightarrow> domain_tasks (sc_domain s') = domain_tasks (sc_domain s) \<and> sc_cores s' = sc_cores s"

lemma same_tasks_refl [simp]: "same_tasks s s"
  by (simp add: same_tasks_def)

lemma same_tasks_trans: "same_tasks s s' \<Longrightarrow> same_tasks s' s'' \<Longrightarrow> same_tasks s s''"
  by (simp add: same_tasks_def)

lemma on_thread_Some: "ths w = Some th \<Longrightarrow> f th = Some th' \<Longrightarrow> on_thread f w ths = Some (ths(w \<mapsto> th'))"
  by (simp add: on_thread_def)

text \<open>Distinct workers have distinct cores.\<close>

lemma worker_core:
  assumes "sched_ok s" "c < sc_cores s" "c' < sc_cores s" "sc_workers s ! c = Some w" "sc_workers s ! c' = Some w"
  shows "c = c'"
proof -
  have "core_ok s c" "core_ok s c'" using assms(1-3) by (simp_all add: sched_ok_def)
  then have "tm_cpu_set (sc_manager s) ! c = tm_cpu_set (sc_manager s) ! c'"
    using assms(4,5) by (simp add: core_ok_def running_on_def)
  then show ?thesis using assms(1-3) by (simp add: sched_ok_def nth_eq_iff_index_eq)
qed

lemma create_thread_spec:
  assumes ok: "sched_ok s" and c: "c < sc_cores s" "sc_workers s ! c = None"
  shows "\<exists>s'. create_thread (int c) s = Some s' \<and> sched_ok s' \<and> same_tasks s s'
    \<and> sc_workers s' = (sc_workers s)[c := Some (sc_next s)]"
proof -
  let ?tm = "sc_manager s" and ?w = "sc_next s"
  have cok: "core_ok s c" using ok c(1) by (simp add: sched_ok_def)
  then have free: "tm_threads ?tm ! c = []" "c \<notin> set (sd_active (sc_domain s))" using c(2) by (simp_all add: core_ok_def)
  have dom: "domain_ok (sc_cores s) (sc_domain s)" using ok by (simp add: sched_ok_def domain_holds_def)
  obtain d where d: "domain_add_thread c (sc_domain s) = Some d" "domain_ok (sc_cores s) d"
    "domain_tasks d = domain_tasks (sc_domain s)" "sd_active d = sd_active (sc_domain s) @ [c]"
    using domain_add_thread_spec [OF dom c(1) free(2)] by blast
  let ?tm' = "?tm\<lparr>tm_threads := (tm_threads ?tm)[c := [?w]]\<rparr>"
  let ?ths = "(sc_threads s)(?w \<mapsto> running_on (tm_cpu_set ?tm ! c))"
  have reg: "tm_register_thread ?w (int c) ?tm ((sc_threads s)(?w \<mapsto> thread_new)) = Some (c, ?tm', ?ths)"
    using ok c(1) free(1)
    by (simp add: tm_register_thread_def sched_ok_def on_thread_def associate_def start_def thread_new_def running_on_def)
  let ?s' = "s\<lparr>sc_domain := d, sc_workers := (sc_workers s)[c := Some ?w], sc_manager := ?tm',
    sc_threads := ?ths, sc_next := ?w + 1\<rparr>"
  have run: "create_thread (int c) s = Some ?s'" using c d(1) reg by (simp add: create_thread_def Let_def)
  have len: "length (sc_workers s) = sc_cores s" "length (tm_threads ?tm) = sc_cores s" using ok by (simp_all add: sched_ok_def)
  have "core_ok ?s' i" if i: "i < sc_cores s" for i
  proof (cases "i = c")
    case True
    then show ?thesis using c(1) d(4) len by (simp add: core_ok_def)
  next
    case False
    have "core_ok s i" using ok i by (simp add: sched_ok_def)
    then show ?thesis using False d(4) by (auto simp: core_ok_def nth_list_update split: option.splits)
  qed
  moreover have "domain_holds (sc_cores s) d" using ok d by (simp add: sched_ok_def domain_holds_def)
  ultimately have "sched_ok ?s'" using ok by (simp add: sched_ok_def)
  moreover have "same_tasks s ?s'" using d(3) by (simp add: same_tasks_def)
  ultimately show ?thesis using run by auto
qed

lemma cpu_to_idx_nth:
  assumes "distinct cpus" "c < length cpus"
  shows "cpu_to_idx cpus (cpus ! c) = Some c"
proof -
  have "distinct (map fst (rev (zip cpus [0..<length cpus])))" using assms(1) by (simp add: rev_map [symmetric])
  moreover have "(cpus ! c, c) \<in> set (rev (zip cpus [0..<length cpus]))" using assms(2) by (auto simp: set_zip)
  ultimately show ?thesis by (simp add: cpu_to_idx_def)
qed

lemma stop_wait_thread_spec:
  assumes ok: "sched_ok s" and c: "c < sc_cores s" "sc_workers s ! c = Some w"
  shows "\<exists>s'. stop_wait_thread (int c) s = Some s' \<and> sched_ok s' \<and> same_tasks s s'
    \<and> sc_workers s' = (sc_workers s)[c := None]"
proof -
  let ?tm = "sc_manager s"
  have cok: "core_ok s c" using ok c(1) by (simp add: sched_ok_def)
  then have th: "tm_threads ?tm ! c = [w]" "c \<in> set (sd_active (sc_domain s))"
    "sc_threads s w = Some (running_on (tm_cpu_set ?tm ! c))" using c(2) by (simp_all add: core_ok_def)
  have dom: "domain_ok (sc_cores s) (sc_domain s)" using ok by (simp add: sched_ok_def domain_holds_def)
  obtain d where d: "domain_remove_thread c (sc_domain s) = Some d" "domain_ok (sc_cores s) d"
    "domain_tasks d = domain_tasks (sc_domain s)" "sd_active d = remove1 c (sd_active (sc_domain s))"
    using domain_remove_thread_spec [OF dom th(2)] by blast
  have len: "length (sc_workers s) = sc_cores s" "length (tm_threads ?tm) = sc_cores s"
    "length (tm_cpu_set ?tm) = sc_cores s" "distinct (tm_cpu_set ?tm)" using ok by (simp_all add: sched_ok_def)
  let ?cpu = "tm_cpu_set ?tm ! c"
  let ?stop = "(sc_threads s)(w \<mapsto> stopped_on ?cpu)"
  let ?tm' = "?tm\<lparr>tm_threads := (tm_threads ?tm)[c := []]\<rparr>"
  have "tm_threads ?tm ! c \<in> set (tm_threads ?tm)" using c(1) len(2) by simp
  then have man: "manages_thread ?tm w" using th(1) by (force simp: manages_thread_def list_ex_iff)
  have idx: "cpu_to_idx (tm_cpu_set ?tm) (tm_cpu_set ?tm ! c) = Some c" using cpu_to_idx_nth len c(1) by simp
  obtain ths1 where stop: "on_thread shutdown w (sc_threads s) = Some ths1" "on_thread notify_worker w ths1 = Some ?stop"
    using stop_thread [of "sc_threads s" w ?cpu] th(3) by auto
  obtain ths2 where fl: "on_thread join w ?stop = Some ths2"
    "on_thread release w ths2 = Some ((sc_threads s)(w \<mapsto> floating_from ?cpu))"
    using end_thread [of ?stop w ?cpu] by auto
  have "tb_cpuid (stopped_on ?cpu) = ?cpu" by (simp add: stopped_on_def running_on_def)
  then have dereg: "tm_deregister_thread w ?tm ?stop = Some (?tm', (sc_threads s)(w \<mapsto> floating_from ?cpu))"
    using man idx th(1) fl by (simp add: tm_deregister_thread_def)
  let ?s' = "s\<lparr>sc_domain := d, sc_workers := (sc_workers s)[c := None], sc_manager := ?tm',
    sc_threads := (sc_threads s)(w := None)\<rparr>"
  have run: "stop_wait_thread (int c) s = Some ?s'"
    using c d(1) stop dereg by (simp add: stop_wait_thread_def destroy_thread_def floating_from_def)
  have dist: "distinct (sd_active (sc_domain s))" using dom by (simp add: domain_ok_def)
  have "core_ok ?s' i" if i: "i < sc_cores s" for i
  proof (cases "i = c")
    case True
    then show ?thesis using c(1) d(4) len dist by (simp add: core_ok_def)
  next
    case False
    have "core_ok s i" using ok i by (simp add: sched_ok_def)
    moreover have "sc_workers s ! i \<noteq> Some w" using worker_core [OF ok i c(1) _ c(2)] False by blast
    ultimately show ?thesis using False d(4) dist by (auto simp: core_ok_def nth_list_update split: option.splits)
  qed
  moreover have "domain_holds (sc_cores s) d" using ok d by (simp add: sched_ok_def domain_holds_def)
  ultimately have "sched_ok ?s'" using ok by (simp add: sched_ok_def)
  moreover have "same_tasks s ?s'" using d(3) by (simp add: same_tasks_def)
  ultimately show ?thesis using run by auto
qed

section \<open>Setting the number of workers\<close>

definition workers :: "scheduler \<Rightarrow> int" where
  "workers s = int (how_many (\<lambda>w. w \<noteq> None) (sc_workers s))"

definition idle_in :: "scheduler \<Rightarrow> nat list \<Rightarrow> int" where
  "idle_in s cs = int (length (filter (\<lambda>c. sc_workers s ! c = None) cs))"

definition busy_in :: "scheduler \<Rightarrow> nat list \<Rightarrow> int" where
  "busy_in s cs = int (length (filter (\<lambda>c. sc_workers s ! c \<noteq> None) cs))"

lemma in_Cons:
  "idle_in s (c # cs) = idle_in s cs + (if sc_workers s ! c = None then 1 else 0)"
  "busy_in s (c # cs) = busy_in s cs + (if sc_workers s ! c = None then 0 else 1)"
  by (simp_all add: idle_in_def busy_in_def)

lemma in_nonneg: "0 \<le> idle_in s cs" "0 \<le> busy_in s cs"
  by (simp_all add: idle_in_def busy_in_def)

lemma in_update:
  assumes "sc_workers s' = (sc_workers s)[c := x]" "c \<notin> set cs"
  shows "idle_in s' cs = idle_in s cs" "busy_in s' cs = busy_in s cs"
proof -
  have "sc_workers s' ! i = sc_workers s ! i" if "i \<in> set cs" for i using assms that by (metis nth_list_update_neq)
  then have "filter (\<lambda>c. sc_workers s' ! c \<noteq> None) cs = filter (\<lambda>c. sc_workers s ! c \<noteq> None) cs"
    "filter (\<lambda>c. sc_workers s' ! c = None) cs = filter (\<lambda>c. sc_workers s ! c = None) cs"
    by (auto intro!: filter_cong)
  then show "idle_in s' cs = idle_in s cs" "busy_in s' cs = busy_in s cs"
    by (simp_all add: busy_in_def idle_in_def)
qed

lemma workers_update:
  assumes "sc_workers s' = (sc_workers s)[c := x]" "c < length (sc_workers s)"
  shows "workers s' = workers s + (if x = None then 0 else 1) - (if sc_workers s ! c = None then 0 else 1)"
  using how_many_update [OF assms(2), of "\<lambda>w. w \<noteq> None" x] unfolding workers_def assms(1) by (auto split: if_splits)

lemma add_workers_spec:
  assumes "sched_ok s" "set cs \<subseteq> {..<sc_cores s}" "distinct cs" "h = workers s" "h \<le> n"
  shows "\<exists>s'. add_workers n cs h s = Some (workers s', s') \<and> sched_ok s' \<and> same_tasks s s'
    \<and> workers s' = min n (h + idle_in s cs)"
  using assms
proof (induction cs arbitrary: s h)
  case Nil
  then show ?case by (simp add: idle_in_def)
next
  case (Cons c cs)
  have c: "c < sc_cores s" "c \<notin> set cs" and len: "length (sc_workers s) = sc_cores s"
    using Cons.prems by (auto simp: sched_ok_def)
  show ?case
  proof (cases "h < n")
    case False
    then show ?thesis using Cons.prems in_nonneg(1) [of s "c # cs"] by simp
  next
    case lt: True
    show ?thesis
    proof (cases "sc_workers s ! c")
      case (Some w)
      then show ?thesis using Cons.IH [of s h] Cons.prems lt by (simp add: in_Cons)
    next
      case None
      obtain s1 where s1: "create_thread (int c) s = Some s1" "sched_ok s1" "same_tasks s s1"
        "sc_workers s1 = (sc_workers s)[c := Some (sc_next s)]" using create_thread_spec [OF Cons.prems(1) c(1) None] by blast
      have w1: "h + 1 = workers s1" using workers_update [OF s1(4)] c(1) len None Cons.prems(4) by simp
      have "set cs \<subseteq> {..<sc_cores s1}" using Cons.prems(2) s1(3) by (simp add: same_tasks_def)
      then obtain s' where s': "add_workers n cs (h + 1) s1 = Some (workers s', s')" "sched_ok s'"
        "same_tasks s1 s'" "workers s' = min n (h + 1 + idle_in s1 cs)"
        using Cons.IH [OF s1(2) _ _ w1] Cons.prems(3) lt by auto
      then show ?thesis using s1 None lt in_update(1) [OF s1(4) c(2)] same_tasks_trans [OF s1(3)]
        by (simp add: in_Cons)
    qed
  qed
qed

lemma remove_workers_spec:
  assumes "sched_ok s" "set cs \<subseteq> {..<sc_cores s}" "distinct cs" "h = workers s" "n \<le> h"
  shows "\<exists>s'. remove_workers n cs h s = Some (workers s', s') \<and> sched_ok s' \<and> same_tasks s s'
    \<and> workers s' = max n (h - busy_in s cs)"
  using assms
proof (induction cs arbitrary: s h)
  case Nil
  then show ?case by (simp add: busy_in_def)
next
  case (Cons c cs)
  have c: "c < sc_cores s" "c \<notin> set cs" and len: "length (sc_workers s) = sc_cores s"
    using Cons.prems by (auto simp: sched_ok_def)
  show ?case
  proof (cases "n < h")
    case False
    then show ?thesis using Cons.prems in_nonneg(2) [of s "c # cs"] by simp
  next
    case lt: True
    show ?thesis
    proof (cases "sc_workers s ! c")
      case None
      then show ?thesis using Cons.IH [of s h] Cons.prems lt by (simp add: in_Cons)
    next
      case (Some w)
      obtain s1 where s1: "stop_wait_thread (int c) s = Some s1" "sched_ok s1" "same_tasks s s1"
        "sc_workers s1 = (sc_workers s)[c := None]" using stop_wait_thread_spec [OF Cons.prems(1) c(1) Some] by blast
      have w1: "h - 1 = workers s1" using workers_update [OF s1(4)] c(1) len Some Cons.prems(4) by simp
      have "set cs \<subseteq> {..<sc_cores s1}" using Cons.prems(2) s1(3) by (simp add: same_tasks_def)
      then obtain s' where s': "remove_workers n cs (h - 1) s1 = Some (workers s', s')" "sched_ok s'"
        "same_tasks s1 s'" "workers s' = max n (h - 1 - busy_in s1 cs)"
        using Cons.IH [OF s1(2) _ _ w1] Cons.prems(3) lt by auto
      then show ?thesis using s1 Some lt in_update(2) [OF s1(4) c(2)] same_tasks_trans [OF s1(3)]
        by (simp add: in_Cons algebra_simps)
    qed
  qed
qed

lemma in_all_cores:
  assumes "sched_ok s"
  shows "busy_in s [0..<sc_cores s] = workers s" "busy_in s (rev [0..<sc_cores s]) = workers s"
    "workers s + idle_in s [0..<sc_cores s] = int (sc_cores s)"
proof -
  let ?cs = "[0..<sc_cores s]"
  have m: "map ((!) (sc_workers s)) ?cs = sc_workers s" using assms map_nth [of "sc_workers s"] by (simp add: sched_ok_def)
  have f: "filter P (sc_workers s) = map ((!) (sc_workers s)) (filter (\<lambda>c. P (sc_workers s ! c)) ?cs)" for P
    by (subst m [symmetric]) (simp add: filter_map o_def)
  show b: "busy_in s ?cs = workers s" using f [of "\<lambda>w. w \<noteq> None"] by (simp add: busy_in_def workers_def how_many_def)
  then show "busy_in s (rev ?cs) = workers s" by (simp add: busy_in_def rev_filter [symmetric])
  have "busy_in s cs + idle_in s cs = int (length cs)" for cs unfolding busy_in_def idle_in_def by (induction cs) auto
  from this [of ?cs] show "workers s + idle_in s ?cs = int (sc_cores s)" using b by simp
qed

lemma length_worker_ids: "sched_ok s \<Longrightarrow> int (length (worker_ids s)) = workers s"
  using in_all_cores(1) [of s] by (simp add: worker_ids_def busy_in_def sched_ok_def)

lemma set_thread_count_spec:
  assumes ok: "sched_ok s" and n: "0 \<le> n" "n \<le> int (sc_cores s)"
  shows "\<exists>s'. set_thread_count n s = Some s' \<and> sched_ok s' \<and> same_tasks s s' \<and> workers s' = n"
proof -
  let ?cs = "[0..<sc_cores s]"
  have h: "int (length (filter (\<lambda>w. w \<noteq> None) (sc_workers s))) = workers s" by (simp add: workers_def how_many_def)
  obtain s1 where s1: "add_workers n ?cs (workers s) s = Some (workers s1, s1)" "sched_ok s1" "same_tasks s s1"
    "n \<le> workers s1" "workers s \<le> n \<longrightarrow> workers s1 = n"
  proof (cases "workers s \<le> n")
    case True
    obtain s1 where "add_workers n ?cs (workers s) s = Some (workers s1, s1)" "sched_ok s1" "same_tasks s s1"
      "workers s1 = min n (workers s + idle_in s ?cs)"
      using add_workers_spec [OF ok _ _ refl True, of ?cs] by (auto simp: lessThan_atLeast0)
    then show thesis using that n(2) in_all_cores(3) [OF ok] by simp
  next
    case False
    then have "add_workers n ?cs (workers s) s = Some (workers s, s)" by (cases ?cs) simp_all
    then show thesis using that ok False by simp
  qed
  have cores: "sc_cores s1 = sc_cores s" using s1(3) by (simp add: same_tasks_def)
  obtain s2 where s2: "remove_workers n (rev ?cs) (workers s1) s1 = Some (workers s2, s2)" "sched_ok s2"
    "same_tasks s1 s2" "workers s2 = max n (workers s1 - busy_in s1 (rev ?cs))"
    using remove_workers_spec [OF s1(2) _ _ refl s1(4), of "rev ?cs"] cores by (auto simp: lessThan_atLeast0)
  have "workers s2 = n" using s2(4) in_all_cores(2) [OF s1(2)] cores n(1) by simp
  then show ?thesis using n h s1 s2 cores same_tasks_trans by (auto simp: set_thread_count_def Let_def)
qed

lemma scheduler_new_ok:
  assumes "distinct cpus" "cpus \<noteq> []" "0 \<le> n" "n \<le> int (length cpus)"
  shows "\<exists>s. scheduler_new cpus n = Some s \<and> sched_ok s \<and> workers s = n \<and> domain_tasks (sc_domain s) = {#}
    \<and> sc_cores s = length cpus"
proof -
  let ?s = "\<lparr>sc_cores = length cpus, sc_domain = domain_new, sc_workers = replicate (length cpus) None,
        sc_manager = \<lparr>tm_cpu_set = cpus, tm_threads = replicate (length cpus) []\<rparr>,
        sc_threads = Map.empty, sc_next = 0, sc_waiting = 0, sc_semaphore = 0\<rparr>"
  have "sched_ok ?s" using assms(1) domain_new_ok
    by (simp add: sched_ok_def core_ok_def domain_holds_def) (simp add: domain_new_def)
  from set_thread_count_spec [OF this] assms(3,4) obtain s where "set_thread_count n ?s = Some s" "sched_ok s"
    "same_tasks ?s s" "workers s = n" by auto
  then show ?thesis using assms(2) domain_new_ok by (auto simp: scheduler_new_def manager_new_def same_tasks_def)
qed

text \<open>
  C36: \<open>set_thread_count\<close> does what it says and loses nothing: from any consistent state of a node's
  scheduler, and any count from 0 to the number of cores, all assertions hold on the way
  (each thread goes through its states in order, each deregistered thread was managed), the
  result is consistent, it has exactly that many workers, and the domain holds the same tasks.
\<close>

theorem set_thread_count_exact:
  assumes "sched_ok s" "0 \<le> n" "n \<le> int (sc_cores s)"
  shows "\<exists>s'. set_thread_count n s = Some s' \<and> sched_ok s' \<and> int (length (worker_ids s')) = n
    \<and> domain_tasks (sc_domain s') = domain_tasks (sc_domain s)"
  using set_thread_count_spec [OF assms] length_worker_ids by (fastforce simp: same_tasks_def)

theorem set_thread_count_exact_wit:
  "\<exists>s s'. scheduler_new [4, 5, 6] 2 = Some s \<and> set_thread_count 1 s = Some s' \<and> sched_ok s'
    \<and> int (length (worker_ids s')) = 1 \<and> domain_tasks (sc_domain s') = domain_tasks (sc_domain s)"
proof -
  obtain s where s: "scheduler_new [4, 5, 6] 2 = Some s" "sched_ok s" "sc_cores s = 3"
    using scheduler_new_ok [of "[4, 5, 6]" 2] by auto
  show ?thesis using set_thread_count_exact [OF s(2), of 1] s(1,3) by auto
qed

text \<open>
  The end of the wait that \<open>waitForTask\<close> computes is a valid \<open>timespec\<close> unless the microseconds
  add up to exactly one second: the carry is tested with \<open>>\<close> in the place of \<open>>=\<close>, so in that case
  the nanosecond field is a full second and \<open>sem_timedwait\<close> fails instead of waiting.
\<close>

theorem wait_time_valid:
  assumes "0 \<le> usec" "usec < 1000000" "0 \<le> delay" "delay < 1000000"
  shows "timespec_ok (wait_time sec usec delay) \<longleftrightarrow> usec + delay \<noteq> 1000000"
  using assms by (auto simp: wait_time_def timespec_ok_def Let_def)

theorem wait_time_valid_wit: "\<not> timespec_ok (wait_time 5 990000 10000)"
  using wait_time_valid [of 990000 10000 5] by simp

end
