(* ===== verification/Scheduler_End.thy ===== *)
theory Scheduler_End
  imports Scheduler_Props
begin

text \<open>
  The scheduler as a whole: where its tasks come from, whom it wakes, and that its destructor takes
  the threads through their last states without a failed assertion.
\<close>

section \<open>The workers as a list\<close>

definition worker_list :: "nat option list \<Rightarrow> nat list" where
  "worker_list ws = map the (filter (\<lambda>w. w \<noteq> None) ws)"

lemma worker_list_simps [simp]: "worker_list [] = []" "worker_list (None # ws) = worker_list ws"
  "worker_list (Some w # ws) = w # worker_list ws"
  by (simp_all add: worker_list_def)

lemma set_worker_list: "w \<in> set (worker_list ws) \<longleftrightarrow> Some w \<in> set ws"
  by (induction ws) (auto simp: worker_list_def)

lemma distinct_worker_list:
  assumes "\<And>i j w. i < length ws \<Longrightarrow> j < length ws \<Longrightarrow> ws ! i = Some w \<Longrightarrow> ws ! j = Some w \<Longrightarrow> i = j"
  shows "distinct (worker_list ws)"
proof -
  let ?cs = "filter (\<lambda>c. ws ! c \<noteq> None) [0..<length ws]"
  have "worker_list ws = map (\<lambda>c. the (ws ! c)) ?cs"
    unfolding worker_list_def by (subst map_nth [of ws, symmetric]) (simp only: filter_map o_def map_map)
  moreover have "inj_on (\<lambda>c. the (ws ! c)) (set ?cs)" using assms by (auto simp: inj_on_def)
  ultimately show ?thesis by (simp add: distinct_map)
qed

lemma manager_lists:
  assumes "sched_ok s"
  shows "concat (tm_threads (sc_manager s)) = worker_list (sc_workers s)" "distinct (worker_list (sc_workers s))"
proof -
  let ?one = "\<lambda>x. case x of None \<Rightarrow> [] | Some w \<Rightarrow> [w :: nat]"
  have "tm_threads (sc_manager s) = map ?one (sc_workers s)"
    using assms by (intro nth_equalityI) (auto simp: sched_ok_def core_ok_def split: option.splits)
  moreover have "concat (map ?one ws) = worker_list ws" for ws by (induction ws) (auto split: option.splits)
  ultimately show "concat (tm_threads (sc_manager s)) = worker_list (sc_workers s)" by simp
  show "distinct (worker_list (sc_workers s))"
    using worker_core [OF assms] assms by (intro distinct_worker_list) (simp add: sched_ok_def)
qed

section \<open>The destructor\<close>

text \<open>Every worker object of a consistent scheduler runs; the ones passed by the first loop have been told to stop.\<close>

definition told :: "nat set \<Rightarrow> threads \<Rightarrow> threads" where
  "told W ths = (\<lambda>w. if w \<in> W then map_option (\<lambda>th. stopped_on (tb_cpuid th)) (ths w) else ths w)"

lemma tb_cpuid_on [simp]: "tb_cpuid (running_on cpu) = cpu" "tb_cpuid (stopped_on cpu) = cpu" "tb_cpuid (floating_from cpu) = cpu"
  by (simp_all add: running_on_def stopped_on_def floating_from_def)

lemma told_one: "ths w = Some (running_on cpu) \<Longrightarrow> ths(w \<mapsto> stopped_on cpu) = told {w} ths"
  by (auto simp: told_def)

lemma told_more: "w \<notin> W \<Longrightarrow> told W (told {w} ths) = told (insert w W) ths"
  by (auto simp: told_def fun_eq_iff)

definition workers_of :: "nat list \<Rightarrow> scheduler \<Rightarrow> nat list" where
  "workers_of cs s = worker_list (map (\<lambda>c. sc_workers s ! c) cs)"

lemma workers_of_simps [simp]: "workers_of [] s = []"
  "workers_of (c # cs) s = (case sc_workers s ! c of None \<Rightarrow> workers_of cs s | Some w \<Rightarrow> w # workers_of cs s)"
  by (auto simp: workers_of_def split: option.splits)

lemma workers_of_cong:
  "(\<And>c. c \<in> set cs \<Longrightarrow> sc_workers s' ! c = sc_workers s ! c) \<Longrightarrow> workers_of cs s' = workers_of cs s"
  by (simp add: workers_of_def cong: map_cong)

lemma retire_workers_spec:
  assumes "domain_ok cpus (sc_domain s)" "distinct cs" "\<And>c. c \<in> set cs \<Longrightarrow> c < length (sc_workers s)"
    and "\<And>c. c \<in> set cs \<Longrightarrow> sc_workers s ! c \<noteq> None \<Longrightarrow> c \<in> set (sd_active (sc_domain s))"
    and "distinct (workers_of cs s)" "\<And>w. w \<in> set (workers_of cs s) \<Longrightarrow> \<exists>cpu. sc_threads s w = Some (running_on cpu)"
  shows "\<exists>d ws. retire_workers cs s
      = Some (s\<lparr>sc_workers := ws, sc_domain := d, sc_threads := told (set (workers_of cs s)) (sc_threads s)\<rparr>)
    \<and> domain_ok cpus d \<and> domain_tasks d = domain_tasks (sc_domain s) \<and> length ws = length (sc_workers s)"
  using assms
proof (induction cs arbitrary: s)
  case Nil
  have "told {} (sc_threads s) = sc_threads s" by (simp add: told_def)
  then show ?case using Nil by (auto intro!: exI [of _ "sc_workers s"] exI [of _ "sc_domain s"])
next
  case (Cons c cs)
  show ?case
  proof (cases "sc_workers s ! c")
    case None
    then show ?thesis using Cons.IH [of s] Cons.prems by simp
  next
    case (Some w)
    obtain d where d: "domain_remove_thread c (sc_domain s) = Some d" "domain_ok cpus d"
      "domain_tasks d = domain_tasks (sc_domain s)" "sd_active d = remove1 c (sd_active (sc_domain s))"
      using domain_remove_thread_spec [OF Cons.prems(1), of c] Cons.prems(4) Some by auto
    obtain cpu where cpu: "sc_threads s w = Some (running_on cpu)" using Cons.prems(6) Some by auto
    let ?ths = "told {w} (sc_threads s)"
    obtain ths1 where stop: "on_thread shutdown w (sc_threads s) = Some ths1" "on_thread notify_worker w ths1 = Some ?ths"
      using stop_thread [of "sc_threads s" w cpu] told_one [of "sc_threads s" w cpu] cpu by auto
    let ?s = "s\<lparr>sc_workers := (sc_workers s)[c := None], sc_domain := d, sc_threads := ?ths\<rparr>"
    have c: "c \<notin> set cs" using Cons.prems(2) by simp
    have "sc_workers ?s ! i = sc_workers s ! i" if "i \<in> set cs" for i using that c by (cases "i = c") simp_all
    then have same: "workers_of cs ?s = workers_of cs s" by (rule workers_of_cong)
    have w: "w \<notin> set (workers_of cs s)" "distinct (workers_of cs s)" using Cons.prems(5) Some by simp_all
    have act: "i \<in> set (sd_active (sc_domain ?s))" if "i \<in> set cs" "sc_workers ?s ! i \<noteq> None" for i
    proof -
      have "i \<noteq> c" using that(1) c by auto
      then show ?thesis using that Cons.prems(4) [of i] d(4) by auto
    qed
    have run: "\<exists>cpu. sc_threads ?s v = Some (running_on cpu)" if "v \<in> set (workers_of cs ?s)" for v
    proof -
      have "v \<in> set (workers_of cs s)" using that by (simp only: same)
      then show ?thesis using w(1) Cons.prems(6) [of v] Some by (auto simp: told_def)
    qed
    have "\<exists>d' ws. retire_workers cs ?s
        = Some (?s\<lparr>sc_workers := ws, sc_domain := d', sc_threads := told (set (workers_of cs ?s)) (sc_threads ?s)\<rparr>)
      \<and> domain_ok cpus d' \<and> domain_tasks d' = domain_tasks (sc_domain ?s) \<and> length ws = length (sc_workers ?s)"
      by (rule Cons.IH [OF _ _ _ act _ run]) (use d(2) Cons.prems(2,3) w(2) same in \<open>auto simp: nth_list_update\<close>)
    then show ?thesis using Some d(1,3) stop told_more [OF w(1)] by (auto simp: same)
  qed
qed

lemma task_available_sets [simp]:
  "sc_workers (task_available s) = sc_workers s" "sc_domain (task_available s) = sc_domain s"
  "sc_manager (task_available s) = sc_manager s" "sc_threads (task_available s) = sc_threads s"
  "sc_cores (task_available s) = sc_cores s" "sc_waiting (task_available s) = 0"
  "sc_semaphore (task_available s) = sc_semaphore s + sc_waiting s"
  by (simp_all add: task_available_def)

lemma task_available_more:
  "sc_domain ((task_available ^^ n) s) = sc_domain s" "sc_manager ((task_available ^^ n) s) = sc_manager s"
  "sc_threads ((task_available ^^ n) s) = sc_threads s"
  "0 < n \<Longrightarrow> sc_waiting ((task_available ^^ n) s) = 0"
  "0 < n \<Longrightarrow> sc_semaphore ((task_available ^^ n) s) = sc_semaphore s + sc_waiting s"
proof (induction n)
  case (Suc n)
  { case 1 then show ?case using Suc by simp }
  { case 2 then show ?case using Suc by simp }
  { case 3 then show ?case using Suc by simp }
  { case 4 then show ?case by simp }
  { case 5 then show ?case using Suc by (cases n) simp_all }
qed simp_all

lemma release_all_spec:
  assumes "distinct ws" "\<And>w. w \<in> set ws \<Longrightarrow> \<exists>cpu. ths w = Some (stopped_on cpu)"
  shows "\<exists>ths'. release_all ws ths = Some ths' \<and> (\<forall>w. w \<notin> set ws \<longrightarrow> ths' w = ths w)
    \<and> (\<forall>w\<in>set ws. \<exists>th. ths' w = Some th \<and> tb_state th = FLOATING)"
  using assms
proof (induction ws arbitrary: ths)
  case (Cons w ws)
  obtain cpu where cpu: "ths w = Some (stopped_on cpu)" using Cons.prems(2) [of w] by auto
  let ?th = "floating_from cpu"
  have step: "release_all (w # ws) ths = release_all ws (ths(w \<mapsto> ?th))"
    using end_thread [of ths w cpu] cpu by auto
  have "\<exists>cpu. (ths(w \<mapsto> ?th)) v = Some (stopped_on cpu)" if "v \<in> set ws" for v using that Cons.prems by auto
  from Cons.IH [of "ths(w \<mapsto> ?th)", OF _ this] obtain ths' where ths': "release_all ws (ths(w \<mapsto> ?th)) = Some ths'"
    "\<forall>v. v \<notin> set ws \<longrightarrow> ths' v = (ths(w \<mapsto> ?th)) v" "\<forall>v\<in>set ws. \<exists>th. ths' v = Some th \<and> tb_state th = FLOATING"
    using Cons.prems(1) by fastforce
  have "ths' w = Some ?th" using ths'(2) Cons.prems(1) by simp
  then show ?case using ths' step by (auto simp: floating_from_def)
qed simp

lemma destroy_threads_spec:
  assumes "distinct (worker_list ws)" "\<And>w. Some w \<in> set ws \<Longrightarrow> \<exists>th. ths w = Some th \<and> tb_state th = FLOATING"
  shows "\<exists>ths'. destroy_threads ws ths = Some ths' \<and> (\<forall>w. ths' w = (if Some w \<in> set ws then None else ths w))"
  using assms
proof (induction ws ths rule: destroy_threads.induct)
  case (3 w ws ths)
  obtain th where "ths w = Some th" "tb_state th = FLOATING" using 3(3) [of w] by auto
  then have gone: "destroy_thread w ths = Some (ths(w := None))" by (simp add: destroy_thread_def)
  moreover have "\<exists>th. (ths(w := None)) v = Some th \<and> tb_state th = FLOATING" if "Some v \<in> set ws" for v
    using that 3(2) 3(3) [of v] by (auto simp: set_worker_list)
  ultimately obtain ths' where "destroy_threads ws (ths(w := None)) = Some ths'"
    "\<forall>v. ths' v = (if Some v \<in> set ws then None else (ths(w := None)) v)"
    using 3(1) [of "ths(w := None)", OF gone] 3(2) by fastforce
  then show ?case using gone by auto
qed auto

lemma collection_delete_tasks: "mset (collection_delete tc) = tc_tasks tc"
proof -
  have "queue_list = (\<lambda>q. case q of None \<Rightarrow> [] | Some q \<Rightarrow> q)" by (simp add: queue_list_def fun_eq_iff)
  then show ?thesis by (simp add: collection_delete_def tc_tasks_def)
qed

lemma domain_delete_tasks: "mset (domain_delete d) = domain_tasks d"
proof -
  have "mset (concat (map (\<lambda>p. case pt_tasks p of None \<Rightarrow> [] | Some tc \<Rightarrow> collection_delete tc) ps)) = sum_list (map prio_tasks ps)" for ps
    by (induction ps) (auto simp: prio_tasks_def collection_delete_tasks split: option.splits)
  then show ?thesis by (simp add: domain_delete_def domain_tasks_def)
qed

lemma workers_of_all: "length (sc_workers s) = sc_cores s \<Longrightarrow> workers_of [0..<sc_cores s] s = worker_list (sc_workers s)"
  using map_nth [of "sc_workers s"] by (simp add: workers_of_def)

text \<open>
  C37: The destructor of a consistent scheduler gets to its end and fails no assertion: every worker
  is taken out of the domain and told to stop before its thread is waited for (the wait for one
  that has not been told would not return), is joined, released and only then destroyed, the manager
  has no threads when it is deleted, and the semaphore is posted for every sleeping worker. But the
  tasks that are still queued, for any worker or for all, are lost with the domain: exactly those.
\<close>

theorem scheduler_delete_clean:
  assumes "sched_ok s" "0 < sc_cores s"
  shows "\<exists>e. scheduler_delete s = Some e
    \<and> (\<forall>w. sr_threads e w = (if Some w \<in> set (sc_workers s) then None else sc_threads s w))
    \<and> mset (sr_lost e) = domain_tasks (sc_domain s) \<and> sr_semaphore e = sc_semaphore s + sc_waiting s"
proof -
  let ?W = "worker_list (sc_workers s)"
  have core: "core_ok s c" if "c < sc_cores s" for c using assms(1) that by (simp add: sched_ok_def)
  have len: "length (sc_workers s) = sc_cores s" "domain_ok (sc_cores s) (sc_domain s)"
    using assms(1) by (simp_all add: sched_ok_def domain_holds_def)
  have act: "c \<in> set (sd_active (sc_domain s))" if "c \<in> set [0..<sc_cores s]" "sc_workers s ! c \<noteq> None" for c
    using core [of c] that by (auto simp: core_ok_def)
  have run: "\<exists>cpu. sc_threads s w = Some (running_on cpu)" if w: "w \<in> set ?W" for w
  proof -
    obtain c where "c < sc_cores s" "sc_workers s ! c = Some w"
      using w len(1) unfolding set_worker_list by (auto simp: in_set_conv_nth)
    then show ?thesis using core [of c] by (auto simp: core_ok_def)
  qed
  note dist = manager_lists(2) [OF assms(1)] and all = workers_of_all [OF len(1)]
  let ?told = "told (set ?W) (sc_threads s)"
  obtain d ws where r: "retire_workers [0..<sc_cores s] s = Some (s\<lparr>sc_workers := ws, sc_domain := d, sc_threads := ?told\<rparr>)"
    "domain_tasks d = domain_tasks (sc_domain s)" "length ws = sc_cores s"
    using retire_workers_spec [OF len(2), of "[0..<sc_cores s]"] act len(1) dist run unfolding all by auto
  have "\<exists>cpu. ?told w = Some (stopped_on cpu)" if "w \<in> set ?W" for w using run [OF that] that by (auto simp: told_def)
  from release_all_spec [of ?W ?told, OF dist this] obtain ths where ths: "release_all ?W ?told = Some ths"
    "\<forall>w. w \<notin> set ?W \<longrightarrow> ths w = ?told w" "\<forall>w\<in>set ?W. \<exists>th. ths w = Some th \<and> tb_state th = FLOATING" by blast
  obtain ths' where ths': "destroy_threads (sc_workers s) ths = Some ths'"
    "\<forall>w. ths' w = (if Some w \<in> set (sc_workers s) then None else ths w)"
    using destroy_threads_spec [OF dist, of ths] ths(3) by (auto simp: set_worker_list)
  have gone: "\<forall>w. ths' w = (if Some w \<in> set (sc_workers s) then None else sc_threads s w)"
    using ths'(2) ths(2) by (simp add: set_worker_list told_def)
  show ?thesis using r ths(1) ths'(1) gone manager_lists(1) [OF assms(1)] assms(2) domain_delete_tasks [of d]
    by (simp add: scheduler_delete_def tm_deregister_all_def manager_delete_def list_all_iff task_available_more)
qed

theorem scheduler_delete_clean_wit:
  "\<exists>s s1 e. scheduler_new [4, 5] 2 = Some s \<and> sched_put_task 2 \<lparr>tk_priority = 3, tk_id = 7\<rparr> 1 s = Some s1
    \<and> scheduler_delete s1 = Some e \<and> sr_lost e = [\<lparr>tk_priority = 3, tk_id = 7\<rparr>]"
proof -
  let ?t = "\<lparr>tk_priority = 3, tk_id = 7\<rparr>"
  obtain s where s: "scheduler_new [4, 5] 2 = Some s" "sched_ok s" "sc_cores s = 2" "domain_tasks (sc_domain s) = {#}"
    using scheduler_new_ok [of "[4, 5]" 2] by auto
  have "valid_priority ?t" by (simp add: valid_priority_def)
  moreover have "domain_holds 2 (sc_domain s)" using s(2,3) by (simp add: sched_ok_def)
  ultimately obtain d where d: "domain_put 2 ?t 1 (sc_domain s) = Some d" "domain_holds 2 d" "domain_tasks d = {#?t#}"
    "sd_active d = sd_active (sc_domain s)"
    using sched.put [of 2 "sc_domain s" ?t 1] s(4) domain_put_active by (fastforce simp: domain_place_def domain_room_def)
  let ?s = "(task_available s)\<lparr>sc_domain := d\<rparr>"
  have put: "sched_put_task 2 ?t 1 s = Some ?s" using d(1) by (simp add: sched_put_task_def Let_def)
  have "sched_ok ?s" using s(2,3) d(2,4)
    by (auto simp: sched_ok_def core_ok_def task_available_def split: option.splits)
  from scheduler_delete_clean [OF this] obtain e where e: "scheduler_delete ?s = Some e" "mset (sr_lost e) = {#?t#}"
    using s(3) d(3) by auto
  then show ?thesis using s(1) put by (metis mset_single_iff)
qed

section \<open>Putting and getting tasks\<close>

text \<open>
  C38: A worker takes from its node's domain while that has tasks, whatever the priorities of the
  tasks in the global domain, and gets nothing only if both are empty; within the domain it takes
  a task of the highest priority, and the tasks left are those that were there without that one.
\<close>

theorem own_tasks_first:
  assumes "domain_holds cpus d" "domain_holds all g"
  shows "\<exists>t d' g'. sched_try_get_task random thid d g = Some (t, d', g')
    \<and> domain_holds cpus d' \<and> domain_holds all g'
    \<and> (case t of
         None \<Rightarrow> domain_tasks d = {#} \<and> domain_tasks g = {#} \<and> d' = d \<and> g' = g
       | Some u \<Rightarrow>
           if domain_tasks d \<noteq> {#}
           then domain_tasks d = add_mset u (domain_tasks d') \<and> g' = g \<and> (\<forall>v\<in>#domain_tasks d. not_below u v)
           else domain_tasks g = add_mset u (domain_tasks g') \<and> d' = d \<and> (\<forall>v\<in>#domain_tasks g. not_below u v))"
proof (cases "domain_tasks d = {#}")
  case True
  note empty = sched.take_none [OF assms(1) True, of "(random, thid)"]
  show ?thesis
  proof (cases "domain_tasks g = {#}")
    case True
    then show ?thesis using empty sched.take_none [OF assms(2) True, of "(random, - 1)"] \<open>domain_tasks d = {#}\<close> assms
      by (simp add: sched_try_get_task_def domain_take_def)
  next
    case False
    then show ?thesis using empty sched.take_some [OF assms(2) False, of "(random, - 1)"] True assms(1)
      by (auto simp: sched_try_get_task_def domain_take_def)
  qed
next
  case False
  then show ?thesis using sched.take_some [OF assms(1) False, of "(random, thid)"] assms(2)
    by (auto simp: sched_try_get_task_def domain_take_def)
qed

theorem own_tasks_first_wit:
  "\<exists>g d' g'. domain_put 2 \<lparr>tk_priority = 3, tk_id = 1\<rparr> (- 1) domain_new = Some g
    \<and> sched_try_get_task 0 1 domain_new g = Some (Some \<lparr>tk_priority = 3, tk_id = 1\<rparr>, d', g') \<and> domain_tasks g' = {#}"
proof -
  let ?t = "\<lparr>tk_priority = 3, tk_id = 1\<rparr>"
  have new: "domain_holds cpus domain_new" for cpus using domain_new_ok by (simp add: domain_holds_def)
  have "valid_priority ?t" by (simp add: valid_priority_def)
  then obtain g where g: "domain_put 2 ?t (- 1) domain_new = Some g" "domain_holds 2 g" "domain_tasks g = {#?t#}"
    using sched.put [OF new, of ?t 2 "- 1"] domain_new_ok by (auto simp: domain_place_def domain_room_def)
  obtain t d' g' where r: "sched_try_get_task 0 1 domain_new g = Some (t, d', g')"
    and c: "case t of
         None \<Rightarrow> domain_tasks domain_new = {#} \<and> domain_tasks g = {#} \<and> d' = domain_new \<and> g' = g
       | Some u \<Rightarrow>
           if domain_tasks domain_new \<noteq> {#}
           then domain_tasks domain_new = add_mset u (domain_tasks d') \<and> g' = g
             \<and> (\<forall>v\<in>#domain_tasks domain_new. not_below u v)
           else domain_tasks g = add_mset u (domain_tasks g') \<and> d' = domain_new \<and> (\<forall>v\<in>#domain_tasks g. not_below u v)"
    using own_tasks_first [OF new [of 2] g(2), of 0 1] by blast
  from c have "t = Some ?t" "domain_tasks g' = {#}"
    using domain_new_ok [of 2] g(3) by (cases t; simp add: add_eq_conv_ex)+
  then show ?thesis using r g(1) by blast
qed

end
