(* ===== verification/Task_Sync.thy ===== *)
theory Task_Sync
  imports Prelude "HOL-Library.Multiset"
begin

unbundle bit_operations_syntax

text \<open>
  \<open>src/include/PGASUS/tasking/synchronizable.hpp\<close> and \<open>src/src/tasking/task_base.cpp\<close>: the states of a task, and
  how a task waits for triggerables (other tasks) and is woken.
\<close>

section \<open>State and flags of a task\<close>

type_synonym u16 = "16 word"

definition READY :: u16 where "READY = 1"
definition RUNNING :: u16 where "RUNNING = 2"
definition WAITING :: u16 where "WAITING = 3"
definition SUSPENDED :: u16 where "SUSPENDED = 4"
definition COMPLETED :: u16 where "COMPLETED = 5"
definition KEEP_THREAD :: u16 where "KEEP_THREAD = 0x8000"
definition KEEP_SCHEDULER :: u16 where "KEEP_SCHEDULER = 0x4000"
definition HAS_STARTED :: u16 where "HAS_STARTED = 0x2000"
definition FLAG_MASK :: u16 where "FLAG_MASK = 0xE000"

definition set_state :: "u16 \<Rightarrow> u16 \<Rightarrow> u16" where "set_state st fl = st OR (fl AND FLAG_MASK)"
definition task_state :: "u16 \<Rightarrow> u16" where "task_state fl = fl AND NOT FLAG_MASK"
definition has_started :: "u16 \<Rightarrow> bool" where "has_started fl \<longleftrightarrow> fl AND HAS_STARTED \<noteq> 0"
definition get_keep_thread :: "u16 \<Rightarrow> bool" where "get_keep_thread fl \<longleftrightarrow> fl AND KEEP_THREAD \<noteq> 0"
definition get_keep_scheduler :: "u16 \<Rightarrow> bool" where "get_keep_scheduler fl \<longleftrightarrow> fl AND KEEP_SCHEDULER \<noteq> 0"

definition set_keep_thread :: "bool \<Rightarrow> u16 \<Rightarrow> u16" where
  "set_keep_thread b fl = (if b then fl OR KEEP_THREAD else fl AND NOT KEEP_THREAD)"

definition set_keep_scheduler :: "bool \<Rightarrow> u16 \<Rightarrow> u16" where
  "set_keep_scheduler b fl = (if b then fl OR KEEP_SCHEDULER else fl AND NOT KEEP_SCHEDULER)"

text \<open>
  A task: flags, home thread (a worker), and its saved stack of places while it does not run. The
  operations return what they hand to the thread (the places to push) or to the scheduler (the
  thread id to queue the task for); a failed assertion is \<open>None\<close>.
\<close>

record 'p task_obj =
  to_flags :: u16
  to_home :: "nat option"
  to_places :: "'p list"

definition task_new :: "'p task_obj" where
  "task_new = \<lparr>to_flags = READY OR KEEP_SCHEDULER, to_home = None, to_places = []\<rparr>"

definition home_thread_id :: "'p task_obj \<Rightarrow> u64" where
  "home_thread_id o' = (case to_home o' of None \<Rightarrow> - 1 | Some th \<Rightarrow> of_nat th)"

definition task_run :: "'p task_obj \<Rightarrow> 'p task_obj option" where
  "task_run o' =
     (if has_started (to_flags o') then None else Some (o'\<lparr>to_flags := to_flags o' OR HAS_STARTED\<rparr>))"

definition task_notify :: "'p task_obj \<Rightarrow> (u64 \<times> 'p task_obj) option" where
  "task_notify o' =
     (if task_state (to_flags o') = WAITING then
        Some (home_thread_id o', o'\<lparr>to_flags := set_state SUSPENDED (to_flags o')\<rparr>)
      else None)"

definition task_schedule :: "nat \<Rightarrow> 'p task_obj \<Rightarrow> ('p list \<times> 'p task_obj) option" where
  "task_schedule th o' =
     (if Some th \<noteq> to_home o' \<or> \<not> get_keep_thread (to_flags o') then
        Some (to_places o', o'\<lparr>to_home := Some th, to_flags := set_state RUNNING (to_flags o'), to_places := []\<rparr>)
      else None)"

text \<open>\<open>wait\<close>: \<open>waiting\<close> is the result of \<open>synchronize\<close>, \<open>places\<close> what \<open>pop_all\<close> gives.\<close>

definition task_wait :: "bool \<Rightarrow> 'p list \<Rightarrow> 'p task_obj \<Rightarrow> (bool \<times> 'p task_obj) option" where
  "task_wait waiting places o' =
     (if waiting then
        if task_state (to_flags o') = RUNNING then
          let o' = o'\<lparr>to_flags := set_state WAITING (to_flags o'), to_places := places\<rparr>
          in Some (task_state (to_flags o') = WAITING, o')
        else None
      else Some (task_state (to_flags o') = WAITING, o'))"

definition task_yield :: "'p list \<Rightarrow> 'p task_obj \<Rightarrow> 'p task_obj option" where
  "task_yield places o' =
     (if task_state (to_flags o') = RUNNING then
        Some (o'\<lparr>to_flags := set_state SUSPENDED (to_flags o'), to_places := places\<rparr>)
      else None)"

definition task_done :: "'p task_obj \<Rightarrow> 'p task_obj option" where
  "task_done o' =
     (if task_state (to_flags o') = RUNNING then Some (o'\<lparr>to_flags := set_state COMPLETED (to_flags o')\<rparr>) else None)"

section \<open>Waiting and waking\<close>

text \<open>
  What one waiting task sees: it waits for a list of triggerables while each of them becomes signaled. The steps are
  those between lock operations. Three kinds of lock are involved: the mutex of the task
  (\<open>Task::_mutex\<close>), the mutex of its \<open>Synchronizer\<close>, and one of each \<open>Triggerable\<close>.

  The waiter, in \<open>Task::wait\<close>: before taking the task's mutex; holding it; holding both mutexes
  with some triggerables left to register with (each registration takes and releases the
  triggerable's mutex); having left \<open>synchronize\<close> with its result; done, with the result of \<open>wait\<close>.

  The signaler of a triggerable, in \<open>set_signaled\<close>: before it; holding the triggerable's mutex,
  with some clients left to signal; in \<open>signal\<close>, holding also the synchronizer's mutex; the same,
  about to call \<open>notify\<close>, which takes the task's mutex; done.
\<close>

datatype waiter_pc = W_Start | W_Task | W_Register "nat list" | W_Decide bool | W_Done bool

datatype signal_pc = G_Start | G_Clients nat | G_Signal nat | G_Notify nat | G_Done

record sync_state =
  ss_waiter :: waiter_pc
  ss_signaler :: "nat \<Rightarrow> signal_pc"
  ss_signaled :: "nat \<Rightarrow> bool"
  ss_clients :: "nat \<Rightarrow> nat"
  ss_deps :: "nat list"
  ss_task :: u16
  ss_put :: nat
  ss_failed :: bool

text \<open>\<open>ss_clients\<close> counts the waiter's entries in the list of clients of each triggerable.\<close>

definition task_mutex_free :: "sync_state \<Rightarrow> bool" where
  "task_mutex_free s \<longleftrightarrow> (case ss_waiter s of W_Start \<Rightarrow> True | W_Done b \<Rightarrow> True | _ \<Rightarrow> False)"

definition in_signal :: "signal_pc \<Rightarrow> bool" where
  "in_signal g \<longleftrightarrow> (case g of G_Signal n \<Rightarrow> True | G_Notify n \<Rightarrow> True | _ \<Rightarrow> False)"

definition sync_mutex_free :: "sync_state \<Rightarrow> bool" where
  "sync_mutex_free s \<longleftrightarrow> (case ss_waiter s of W_Register ts \<Rightarrow> False | _ \<Rightarrow> True)
     \<and> (\<forall>t. \<not> in_signal (ss_signaler s t))"

definition trigger_mutex_free :: "sync_state \<Rightarrow> nat \<Rightarrow> bool" where
  "trigger_mutex_free s t \<longleftrightarrow> ss_signaler s t = G_Start \<or> ss_signaler s t = G_Done"

definition sig_goto :: "nat \<Rightarrow> signal_pc \<Rightarrow> sync_state \<Rightarrow> sync_state" where
  "sig_goto t g s = s\<lparr>ss_signaler := (ss_signaler s)(t := g)\<rparr>"

definition register_wait :: "nat \<Rightarrow> sync_state \<Rightarrow> sync_state" where
  "register_wait t s =
     (if \<not> ss_signaled s t then
        s\<lparr>ss_clients := (ss_clients s)(t := ss_clients s t + 1), ss_deps := ss_deps s @ [t]\<rparr>
      else s)"

inductive sync_step :: "nat list \<Rightarrow> sync_state \<Rightarrow> sync_state \<Rightarrow> bool" for ts where
  wait_lock: "ss_waiter s = W_Start \<Longrightarrow> task_mutex_free s \<Longrightarrow> sync_step ts s (s\<lparr>ss_waiter := W_Task\<rparr>)"
| sync_lock: "ss_waiter s = W_Task \<Longrightarrow> sync_mutex_free s \<Longrightarrow> sync_step ts s (s\<lparr>ss_waiter := W_Register ts\<rparr>)"
| register: "ss_waiter s = W_Register (t # us) \<Longrightarrow> trigger_mutex_free s t \<Longrightarrow>
    sync_step ts s ((register_wait t s)\<lparr>ss_waiter := W_Register us\<rparr>)"
| sync_unlock: "ss_waiter s = W_Register [] \<Longrightarrow> sync_step ts s (s\<lparr>ss_waiter := W_Decide (ss_deps s \<noteq> [])\<rparr>)"
| wait_yes: "ss_waiter s = W_Decide True \<Longrightarrow> ss_task s = RUNNING \<Longrightarrow>
    sync_step ts s (s\<lparr>ss_task := WAITING, ss_waiter := W_Done True\<rparr>)"
| wait_fail: "ss_waiter s = W_Decide True \<Longrightarrow> ss_task s \<noteq> RUNNING \<Longrightarrow> sync_step ts s (s\<lparr>ss_failed := True\<rparr>)"
| wait_no: "ss_waiter s = W_Decide False \<Longrightarrow> sync_step ts s (s\<lparr>ss_waiter := W_Done (ss_task s = WAITING)\<rparr>)"
| signal_begin: "t \<in> set ts \<Longrightarrow> ss_signaler s t = G_Start \<Longrightarrow> \<not> ss_signaled s t \<Longrightarrow>
    sync_step ts s (sig_goto t (G_Clients (ss_clients s t)) (s\<lparr>ss_signaled := (ss_signaled s)(t := True)\<rparr>))"
| signal_again: "t \<in> set ts \<Longrightarrow> ss_signaler s t = G_Start \<Longrightarrow> ss_signaled s t \<Longrightarrow> sync_step ts s (s\<lparr>ss_failed := True\<rparr>)"
| signal_lock: "ss_signaler s t = G_Clients (Suc n) \<Longrightarrow> sync_mutex_free s \<Longrightarrow> sync_step ts s (sig_goto t (G_Signal n) s)"
| signal_remove: "ss_signaler s t = G_Signal n \<Longrightarrow> ss_deps s \<noteq> [] \<Longrightarrow>
    sync_step ts s (sig_goto t (if removeAll t (ss_deps s) = [] then G_Notify n else G_Clients n)
      (s\<lparr>ss_deps := removeAll t (ss_deps s)\<rparr>))"
| signal_empty: "ss_signaler s t = G_Signal n \<Longrightarrow> ss_deps s = [] \<Longrightarrow> sync_step ts s (s\<lparr>ss_failed := True\<rparr>)"
| notify: "ss_signaler s t = G_Notify n \<Longrightarrow> task_mutex_free s \<Longrightarrow> ss_task s = WAITING \<Longrightarrow>
    sync_step ts s (sig_goto t (G_Clients n) (s\<lparr>ss_task := SUSPENDED, ss_put := ss_put s + 1\<rparr>))"
| notify_fail: "ss_signaler s t = G_Notify n \<Longrightarrow> task_mutex_free s \<Longrightarrow> ss_task s \<noteq> WAITING \<Longrightarrow>
    sync_step ts s (s\<lparr>ss_failed := True\<rparr>)"
| signal_end: "ss_signaler s t = G_Clients 0 \<Longrightarrow>
    sync_step ts s (sig_goto t G_Done (s\<lparr>ss_clients := (ss_clients s)(t := 0)\<rparr>))"

definition sync_init :: sync_state where
  "sync_init = \<lparr>ss_waiter = W_Start, ss_signaler = (\<lambda>_. G_Start), ss_signaled = (\<lambda>_. False),
     ss_clients = (\<lambda>_. 0), ss_deps = [], ss_task = RUNNING, ss_put = 0, ss_failed = False\<rparr>"

inductive sync_reachable :: "nat list \<Rightarrow> sync_state \<Rightarrow> bool" for ts where
  init: "sync_reachable ts sync_init"
| step: "sync_reachable ts s \<Longrightarrow> sync_step ts s s' \<Longrightarrow> sync_reachable ts s'"

end
