(* ===== verification/Task_Sync_Props.thy ===== *)
theory Task_Sync_Props
  imports Task_Sync
begin

text \<open>
  The protocol by which a task waits and is woken, as one waiting task sees it: no assertion fails and
  the task goes on only when everything it waits for is signaled, provided the list waited for has no
  duplicates; with duplicates an assertion fails. Progress needs all the waiters and is shown in
  \<open>Sync_Net\<close>.
\<close>

definition dep_count :: "sync_state \<Rightarrow> nat \<Rightarrow> nat" where
  "dep_count s t = count_list (ss_deps s) t"

definition signal_ok :: "sync_state \<Rightarrow> nat \<Rightarrow> bool" where
  "signal_ok s t \<longleftrightarrow> (case ss_signaler s t of
     G_Start \<Rightarrow> \<not> ss_signaled s t \<and> ss_clients s t = dep_count s t \<and> ss_clients s t \<le> 1
   | G_Clients n \<Rightarrow> ss_signaled s t \<and> n \<le> 1 \<and> dep_count s t = n
   | G_Signal n \<Rightarrow> ss_signaled s t \<and> n = 0 \<and> dep_count s t = 1
   | G_Notify n \<Rightarrow> ss_signaled s t \<and> n = 0 \<and> ss_deps s = []
   | G_Done \<Rightarrow> ss_signaled s t \<and> dep_count s t = 0)"

definition exclusive :: "sync_state \<Rightarrow> bool" where
  "exclusive s \<longleftrightarrow> (\<forall>t u. in_signal (ss_signaler s t) \<and> in_signal (ss_signaler s u) \<longrightarrow> t = u)"

text \<open>Somebody will still wake the task, or is about to.\<close>

definition pending :: "sync_state \<Rightarrow> bool" where
  "pending s \<longleftrightarrow> ss_deps s \<noteq> [] \<or> (\<exists>t n. ss_signaler s t = G_Notify n)"

definition waiter_ok :: "sync_state \<Rightarrow> bool" where
  "waiter_ok s \<longleftrightarrow> (case ss_waiter s of
     W_Start \<Rightarrow> \<not> pending s \<and> ss_task s = RUNNING \<and> ss_put s = 0 \<and> (\<forall>t. ss_clients s t = 0)
   | W_Task \<Rightarrow> \<not> pending s \<and> ss_task s = RUNNING \<and> ss_put s = 0 \<and> (\<forall>t. ss_clients s t = 0)
   | W_Register us \<Rightarrow> distinct us \<and> (\<forall>t\<in>set us. t \<notin> set (ss_deps s))
       \<and> (\<forall>t. \<not> in_signal (ss_signaler s t)) \<and> ss_task s = RUNNING \<and> ss_put s = 0
   | W_Decide b \<Rightarrow> b = pending s \<and> ss_task s = RUNNING \<and> ss_put s = 0
   | W_Done b \<Rightarrow> (if b then pending s \<and> ss_task s = WAITING \<and> ss_put s = 0
                       \<or> \<not> pending s \<and> ss_task s = SUSPENDED \<and> ss_put s = 1
                  else \<not> pending s \<and> ss_task s = RUNNING \<and> ss_put s = 0))"

definition sync_ok :: "sync_state \<Rightarrow> bool" where
  "sync_ok s \<longleftrightarrow> \<not> ss_failed s \<and> exclusive s \<and> (\<forall>t. signal_ok s t) \<and> waiter_ok s"

lemma state_neq [simp]: "RUNNING \<noteq> WAITING" "SUSPENDED \<noteq> WAITING" "RUNNING \<noteq> SUSPENDED"
  "WAITING \<noteq> RUNNING" "WAITING \<noteq> SUSPENDED" "SUSPENDED \<noteq> RUNNING"
  by (simp_all add: RUNNING_def WAITING_def SUSPENDED_def)

lemma in_signal_simps [simp]:
  "in_signal (G_Signal n)" "in_signal (G_Notify n)" "\<not> in_signal G_Start" "\<not> in_signal (G_Clients n)" "\<not> in_signal G_Done"
  by (simp_all add: in_signal_def)

lemma sync_okD:
  assumes "sync_ok s"
  shows "\<not> ss_failed s" "exclusive s" "\<And>t. signal_ok s t" "waiter_ok s"
  using assms by (auto simp: sync_ok_def)

lemma sig_goto_fields [simp]:
  "ss_waiter (sig_goto t g s) = ss_waiter s" "ss_signaler (sig_goto t g s) = (ss_signaler s)(t := g)"
  "ss_signaled (sig_goto t g s) = ss_signaled s" "ss_clients (sig_goto t g s) = ss_clients s"
  "ss_deps (sig_goto t g s) = ss_deps s" "ss_task (sig_goto t g s) = ss_task s"
  "ss_put (sig_goto t g s) = ss_put s" "ss_failed (sig_goto t g s) = ss_failed s"
  by (simp_all add: sig_goto_def)

lemma count_removeAll: "count_list (removeAll t xs) u = (if u = t then 0 else count_list xs u)"
  by (induction xs) auto

lemma count_list_pos: "count_list xs t \<noteq> 0 \<longleftrightarrow> t \<in> set xs"
  by (simp add: count_list_0_iff)

lemma waiter_only:
  assumes "sync_ok s" "waiter_ok (s\<lparr>ss_waiter := w\<rparr>)"
  shows "sync_ok (s\<lparr>ss_waiter := w\<rparr>)"
proof -
  have "signal_ok (s\<lparr>ss_waiter := w\<rparr>) t" for t
    using sync_okD(3) [OF assms(1), of t] by (simp add: signal_ok_def dep_count_def split: signal_pc.splits)
  then show ?thesis using assms by (simp add: sync_ok_def exclusive_def)
qed

lemma pending_waiter [simp]: "pending (s\<lparr>ss_waiter := w\<rparr>) = pending s" "pending (s\<lparr>ss_task := x, ss_waiter := w\<rparr>) = pending s"
  "pending (s\<lparr>ss_task := x\<rparr>) = pending s"
  by (simp_all add: pending_def)

lemma signal_ok_task [simp]: "signal_ok (s\<lparr>ss_task := x, ss_waiter := w\<rparr>) t = signal_ok s t"
  by (simp add: signal_ok_def dep_count_def split: signal_pc.splits)

lemma register_ok:
  assumes ok: "sync_ok s" and w: "ss_waiter s = W_Register (t # us)" and free: "trigger_mutex_free s t"
  shows "sync_ok ((register_wait t s)\<lparr>ss_waiter := W_Register us\<rparr>)"
proof (cases "ss_signaled s t")
  case True
  then have "register_wait t s = s" by (simp add: register_wait_def)
  moreover have "waiter_ok (s\<lparr>ss_waiter := W_Register us\<rparr>)"
    using sync_okD(4) [OF ok] w by (auto simp: waiter_ok_def)
  ultimately show ?thesis using waiter_only [OF ok] by simp
next
  case False
  let ?s = "(register_wait t s)\<lparr>ss_waiter := W_Register us\<rparr>"
  have s: "?s = s\<lparr>ss_clients := (ss_clients s)(t := ss_clients s t + 1), ss_deps := ss_deps s @ [t], ss_waiter := W_Register us\<rparr>"
    using False by (simp add: register_wait_def)
  note wok = sync_okD(4) [OF ok, unfolded waiter_ok_def w, simplified]
  have start: "ss_signaler s t = G_Start"
    using free False sync_okD(3) [OF ok, of t] by (auto simp: trigger_mutex_free_def signal_ok_def)
  then have zero: "ss_clients s t = 0" "dep_count s t = 0"
    using sync_okD(3) [OF ok, of t] wok by (auto simp: signal_ok_def dep_count_def count_list_0_iff)
  have "signal_ok ?s u" for u
  proof (cases "u = t")
    case True
    then show ?thesis using start zero False by (simp add: s signal_ok_def dep_count_def)
  next
    case False
    then show ?thesis using sync_okD(3) [OF ok, of u] wok
      by (simp add: s signal_ok_def dep_count_def in_signal_def split: signal_pc.splits)
  qed
  moreover have "waiter_ok ?s" using wok by (auto simp: s waiter_ok_def)
  ultimately show ?thesis using sync_okD(1,2) [OF ok] by (simp add: sync_ok_def s exclusive_def)
qed

lemma pending_move:
  assumes "\<And>n. ss_signaler s t \<noteq> G_Notify n" "\<And>n. ss_signaler s' t \<noteq> G_Notify n"
    and "\<And>u. u \<noteq> t \<Longrightarrow> ss_signaler s' u = ss_signaler s u" "ss_deps s' = ss_deps s"
  shows "pending s' = pending s"
proof -
  have "(ss_signaler s' u = G_Notify n) = (ss_signaler s u = G_Notify n)" for u n
    using assms(1,2) [of n] assms(3) [of u] by (cases "u = t") auto
  then show ?thesis using assms(4) by (simp add: pending_def)
qed

lemma signaler_only:
  assumes ok: "sync_ok s" and fl: "\<not> ss_failed s'" and ex: "exclusive s'" and wk: "waiter_ok s'" and mine: "signal_ok s' t"
    and others: "\<And>u. u \<noteq> t \<Longrightarrow> ss_signaler s' u = ss_signaler s u \<and> ss_signaled s' u = ss_signaled s u
      \<and> ss_clients s' u = ss_clients s u" and
    deps: "\<And>u. u \<noteq> t \<Longrightarrow> dep_count s' u = dep_count s u" and
    nil: "\<And>u n. u \<noteq> t \<Longrightarrow> ss_signaler s u = G_Notify n \<Longrightarrow> ss_deps s' = ss_deps s"
  shows "sync_ok s'"
proof -
  have "signal_ok s' u" for u
  proof (cases "u = t")
    case False
    then show ?thesis using sync_okD(3) [OF ok, of u] others [OF False] deps [OF False] nil [OF False]
      by (auto simp: signal_ok_def split: signal_pc.splits)
  qed (use mine in simp)
  then show ?thesis using fl ex wk by (simp add: sync_ok_def)
qed

lemma begin_ok:
  assumes ok: "sync_ok s" and g: "ss_signaler s t = G_Start"
  shows "sync_ok (sig_goto t (G_Clients (ss_clients s t)) (s\<lparr>ss_signaled := (ss_signaled s)(t := True)\<rparr>))" (is "sync_ok ?s")
proof (rule signaler_only [OF ok, where t = t])
  have "pending ?s = pending s" using g by (intro pending_move [where t = t]) auto
  then show "waiter_ok ?s" using sync_okD(4) [OF ok] by (auto simp: waiter_ok_def split: waiter_pc.splits)
  show "exclusive ?s" using sync_okD(2) [OF ok] by (auto simp: exclusive_def)
  show "signal_ok ?s t" using sync_okD(3) [OF ok, of t] g by (simp add: signal_ok_def dep_count_def)
qed (use ok in \<open>auto simp: sync_ok_def dep_count_def\<close>)

lemma lock_ok:
  assumes ok: "sync_ok s" and g: "ss_signaler s t = G_Clients (Suc n)" and free: "sync_mutex_free s"
  shows "sync_ok (sig_goto t (G_Signal n) s)" (is "sync_ok ?s")
proof (rule signaler_only [OF ok, where t = t])
  have none: "\<not> in_signal (ss_signaler s u)" for u using free by (simp add: sync_mutex_free_def)
  have "pending ?s = pending s" using g by (intro pending_move [where t = t]) auto
  moreover have "\<not> (\<exists>us. ss_waiter s = W_Register us)" using free by (auto simp: sync_mutex_free_def)
  ultimately show "waiter_ok ?s" using sync_okD(4) [OF ok] by (auto simp: waiter_ok_def split: waiter_pc.splits)
  show "exclusive ?s" using none by (auto simp: exclusive_def)
  show "signal_ok ?s t" using sync_okD(3) [OF ok, of t] g by (auto simp: signal_ok_def dep_count_def)
qed (use ok in \<open>auto simp: sync_ok_def dep_count_def\<close>)

lemma remove_ok:
  assumes ok: "sync_ok s" and g: "ss_signaler s t = G_Signal n"
  shows "sync_ok (sig_goto t (if removeAll t (ss_deps s) = [] then G_Notify n else G_Clients n)
      (s\<lparr>ss_deps := removeAll t (ss_deps s)\<rparr>))" (is "sync_ok ?s")
proof (rule signaler_only [OF ok, where t = t])
  have mine: "n = 0" "dep_count s t = 1" "ss_signaled s t"
    using sync_okD(3) [OF ok, of t] g by (auto simp: signal_ok_def)
  then have some: "ss_deps s \<noteq> []" by (auto simp: dep_count_def)
  have only: "u \<noteq> t \<Longrightarrow> \<not> in_signal (ss_signaler s u)" for u
    using sync_okD(2) [OF ok] g by (auto simp: exclusive_def)
  have "pending s" using some by (simp add: pending_def)
  moreover have "pending ?s" by (auto simp: pending_def)
  moreover have "\<not> (\<exists>us. ss_waiter s = W_Register us)"
    using sync_okD(4) [OF ok] g by (auto simp: waiter_ok_def split: waiter_pc.splits) (metis in_signal_simps(1))+
  ultimately show "waiter_ok ?s" using sync_okD(4) [OF ok] by (auto simp: waiter_ok_def split: waiter_pc.splits)
  show "exclusive ?s" using only by (auto simp: exclusive_def)
  show "signal_ok ?s t" using mine by (simp add: signal_ok_def dep_count_def count_removeAll)
  show "ss_deps ?s = ss_deps s" if "u \<noteq> t" "ss_signaler s u = G_Notify m" for u m
    using only [OF that(1)] that(2) by simp
qed (use ok in \<open>auto simp: sync_ok_def dep_count_def count_removeAll\<close>)

lemma notify_ok:
  assumes ok: "sync_ok s" and g: "ss_signaler s t = G_Notify n" and free: "task_mutex_free s"
  shows "ss_task s = WAITING"
    "sync_ok (sig_goto t (G_Clients n) (s\<lparr>ss_task := SUSPENDED, ss_put := ss_put s + 1\<rparr>))" (is "sync_ok ?s")
proof -
  have mine: "n = 0" "ss_deps s = []" "ss_signaled s t"
    using sync_okD(3) [OF ok, of t] g by (auto simp: signal_ok_def)
  have pend: "pending s" using g by (auto simp: pending_def)
  then obtain b where fin: "ss_waiter s = W_Done b" "b" "ss_task s = WAITING" "ss_put s = 0"
    using sync_okD(4) [OF ok] free by (auto simp: waiter_ok_def task_mutex_free_def split: waiter_pc.splits if_splits)
  show "ss_task s = WAITING" by (rule fin)
  have only: "u \<noteq> t \<Longrightarrow> \<not> in_signal (ss_signaler s u)" for u
    using sync_okD(2) [OF ok] g by (auto simp: exclusive_def)
  show "sync_ok ?s"
  proof (rule signaler_only [OF ok, where t = t])
    have "\<not> pending ?s" using mine only by (auto simp: pending_def) (metis in_signal_simps(2))
    then show "waiter_ok ?s" using fin by (simp add: waiter_ok_def)
    show "exclusive ?s" using only by (auto simp: exclusive_def)
    show "signal_ok ?s t" using mine by (simp add: signal_ok_def dep_count_def)
  qed (use ok in \<open>auto simp: sync_ok_def dep_count_def\<close>)
qed

lemma end_ok:
  assumes ok: "sync_ok s" and g: "ss_signaler s t = G_Clients 0"
  shows "sync_ok (sig_goto t G_Done (s\<lparr>ss_clients := (ss_clients s)(t := 0)\<rparr>))" (is "sync_ok ?s")
proof (rule signaler_only [OF ok, where t = t])
  have "pending ?s = pending s" using g by (intro pending_move [where t = t]) auto
  then show "waiter_ok ?s" using sync_okD(4) [OF ok] by (auto simp: waiter_ok_def split: waiter_pc.splits)
  show "exclusive ?s" using sync_okD(2) [OF ok] by (auto simp: exclusive_def)
  show "signal_ok ?s t" using sync_okD(3) [OF ok, of t] g by (simp add: signal_ok_def dep_count_def)
qed (use ok in \<open>auto simp: sync_ok_def dep_count_def\<close>)

lemma waiter_lock_ok:
  assumes ok: "sync_ok s" and w: "ss_waiter s = W_Task" and free: "sync_mutex_free s" and d: "distinct ts"
  shows "sync_ok (s\<lparr>ss_waiter := W_Register ts\<rparr>)"
  using sync_okD(4) [OF ok] w free d
  by (intro waiter_only [OF ok]) (auto simp: waiter_ok_def sync_mutex_free_def pending_def)

lemma wait_yes_ok:
  assumes ok: "sync_ok s" and w: "ss_waiter s = W_Decide True"
  shows "sync_ok (s\<lparr>ss_task := WAITING, ss_waiter := W_Done True\<rparr>)"
  using ok w by (auto simp: sync_ok_def exclusive_def waiter_ok_def)

lemma sync_step_ok: "sync_step ts s s' \<Longrightarrow> distinct ts \<Longrightarrow> sync_ok s \<Longrightarrow> sync_ok s'"
proof (induction rule: sync_step.induct)
  case (wait_lock s)
  then show ?case using sync_okD(4) [OF wait_lock(4)] by (intro waiter_only) (auto simp: waiter_ok_def)
next
  case (sync_unlock s)
  then show ?case using sync_okD(4) [OF sync_unlock(3)]
    by (intro waiter_only) (auto simp: waiter_ok_def pending_def, metis in_signal_simps(2))
next
  case (wait_fail s)
  then show ?case using sync_okD(4) [OF wait_fail(4)] by (auto simp: waiter_ok_def)
next
  case (wait_no s)
  then show ?case using sync_okD(4) [OF wait_no(3)] by (intro waiter_only) (auto simp: waiter_ok_def)
next
  case (signal_again t s)
  then show ?case using sync_okD(3) [OF signal_again(5), of t] by (simp add: signal_ok_def)
next
  case (signal_empty s t n)
  then show ?case using sync_okD(3) [OF signal_empty(4), of t] by (simp add: signal_ok_def dep_count_def)
qed (simp_all add: waiter_lock_ok register_ok wait_yes_ok begin_ok lock_ok remove_ok notify_ok [simplified] end_ok)

lemma sync_init_ok: "sync_ok sync_init"
  by (simp add: sync_ok_def sync_init_def exclusive_def signal_ok_def dep_count_def waiter_ok_def pending_def)

lemma sync_reachable_ok: "sync_reachable ts s \<Longrightarrow> distinct ts \<Longrightarrow> sync_ok s"
  by (induction rule: sync_reachable.induct) (auto intro: sync_init_ok sync_step_ok)

subsection \<open>What has been registered\<close>

text \<open>Every triggerable the waiter has passed is signaled or still in its list of dependencies.\<close>

definition covered :: "sync_state \<Rightarrow> nat list \<Rightarrow> bool" where
  "covered s xs \<longleftrightarrow> (\<forall>t\<in>set xs. ss_signaled s t \<or> t \<in> set (ss_deps s))"

definition registered :: "nat list \<Rightarrow> sync_state \<Rightarrow> bool" where
  "registered ts s \<longleftrightarrow> (\<forall>t. ss_signaler s t \<noteq> G_Start \<longrightarrow> t \<in> set ts) \<and> set (ss_deps s) \<subseteq> set ts \<and>
     (case ss_waiter s of W_Register us \<Rightarrow> \<exists>ps. ts = ps @ us \<and> covered s ps
      | W_Decide b \<Rightarrow> covered s ts | W_Done b \<Rightarrow> covered s ts | _ \<Rightarrow> True)"

lemma coveredI:
  "covered s xs \<Longrightarrow> (\<And>t. ss_signaled s t \<or> t \<in> set (ss_deps s) \<Longrightarrow> ss_signaled s' t \<or> t \<in> set (ss_deps s')) \<Longrightarrow> covered s' xs"
  by (auto simp: covered_def)

lemma registered_mono:
  assumes "registered ts s" "ss_waiter s' = ss_waiter s" "\<And>t. ss_signaler s' t \<noteq> G_Start \<Longrightarrow> t \<in> set ts" "set (ss_deps s') \<subseteq> set ts"
    and more: "\<And>t. ss_signaled s t \<or> t \<in> set (ss_deps s) \<Longrightarrow> ss_signaled s' t \<or> t \<in> set (ss_deps s')"
  shows "registered ts s'"
  using assms(1-4) by (auto simp: registered_def split: waiter_pc.splits intro: coveredI [OF _ more])

lemma covered_waiter [simp]: "covered (s\<lparr>ss_waiter := w\<rparr>) xs = covered s xs"
  "covered (s\<lparr>ss_task := x, ss_waiter := w\<rparr>) xs = covered s xs"
  by (simp_all add: covered_def)

lemma registered_step:
  "sync_step ts s s' \<Longrightarrow> sync_ok s \<Longrightarrow> registered ts s \<Longrightarrow> registered ts s'"
proof (induction rule: sync_step.induct)
  case (register s t us)
  let ?s = "(register_wait t s)\<lparr>ss_waiter := W_Register us\<rparr>"
  obtain ps where ps: "ts = ps @ t # us" "covered s ps" using register by (auto simp: registered_def)
  have "covered ?s (ps @ [t])" using ps(2) by (auto simp: covered_def register_wait_def)
  then have "\<exists>ps. ts = ps @ us \<and> covered ?s ps" using ps(1) by (intro exI [of _ "ps @ [t]"]) simp
  moreover have "set (ss_deps ?s) \<subseteq> set ts" using register(4) ps(1) by (auto simp: registered_def register_wait_def)
  moreover have "ss_signaler ?s = ss_signaler s" by (simp add: register_wait_def)
  ultimately show ?case using register(4) unfolding registered_def by simp
next
  case (signal_remove s t n)
  have "ss_signaled s t" using sync_okD(3) [OF signal_remove(3), of t] signal_remove(1) by (simp add: signal_ok_def)
  moreover have "t \<in> set ts" using signal_remove by (auto simp: registered_def)
  ultimately show ?case using signal_remove
    by (intro registered_mono [OF signal_remove(4)]) (auto simp: registered_def split: if_splits)
qed (auto simp: registered_def covered_def split: waiter_pc.splits if_splits)

lemma sync_reachable_registered: "sync_reachable ts s \<Longrightarrow> distinct ts \<Longrightarrow> registered ts s"
proof (induction rule: sync_reachable.induct)
  case init
  then show ?case by (simp add: registered_def sync_init_def)
next
  case (step s s')
  then show ?case using registered_step sync_reachable_ok by blast
qed

subsection \<open>Progress\<close>

definition sync_final :: "nat list \<Rightarrow> sync_state \<Rightarrow> bool" where
  "sync_final ts s \<longleftrightarrow> (\<forall>t\<in>set ts. ss_signaler s t = G_Done)
     \<and> (ss_waiter s = W_Done True \<and> ss_task s = SUSPENDED \<and> ss_put s = 1
      \<or> ss_waiter s = W_Done False \<and> ss_task s = RUNNING \<and> ss_put s = 0)"

lemma in_signal_can:
  assumes "in_signal (ss_signaler s t)" "task_mutex_free s"
  shows "Ex (sync_step ts s)"
proof (cases "ss_signaler s t")
  case (G_Signal n)
  then show ?thesis by (cases "ss_deps s = []") (blast intro: signal_remove signal_empty)+
next
  case (G_Notify n)
  then show ?thesis using assms(2) by (cases "ss_task s = WAITING") (blast intro: notify notify_fail)+
qed (use assms(1) in auto)

lemma done_or_step:
  assumes ok: "sync_ok s" and reg: "registered ts s" and w: "ss_waiter s = W_Done b"
  shows "Ex (sync_step ts s) \<or> sync_final ts s"
proof (cases "\<exists>t u. in_signal (ss_signaler s t)")
  case True
  then obtain t where t: "in_signal (ss_signaler s t)" by blast
  have "task_mutex_free s" using w by (simp add: task_mutex_free_def)
  then show ?thesis using in_signal_can [OF t] by blast
next
  case False
  then have free: "sync_mutex_free s" using w by (simp add: sync_mutex_free_def)
  show ?thesis
  proof (cases "\<forall>t\<in>set ts. ss_signaler s t = G_Done")
    case True
    have "dep_count s t = 0" for t
    proof (cases "t \<in> set ts")
      case True
      then show ?thesis using \<open>\<forall>t\<in>set ts. ss_signaler s t = G_Done\<close> sync_okD(3) [OF ok, of t] by (simp add: signal_ok_def)
    next
      case False
      then show ?thesis using reg by (auto simp: registered_def dep_count_def count_list_0_iff)
    qed
    then have "ss_deps s = []" by (metis count_list_0_iff dep_count_def list.set_intros(1) neq_Nil_conv)
    then have "\<not> pending s" using False unfolding pending_def by (metis in_signal_simps(2))
    then show ?thesis using True sync_okD(4) [OF ok] w by (cases b) (auto simp: sync_final_def waiter_ok_def)
  next
    case undone: False
    then obtain t where t: "t \<in> set ts" "ss_signaler s t \<noteq> G_Done" by blast
    show ?thesis
    proof (cases "ss_signaler s t")
      case G_Start
      then show ?thesis using t by (cases "ss_signaled s t") (blast intro: signal_begin signal_again)+
    next
      case (G_Clients n)
      then show ?thesis using free by (cases n) (auto intro: sync_step.intros)
    next
      case G_Done
      then show ?thesis using t by simp
    qed (use False in \<open>metis in_signal_simps\<close>)+
  qed
qed

section \<open>A concrete run\<close>

lemma sample_run: "\<exists>s. sync_reachable [0] s \<and> ss_waiter s = W_Done True \<and> ss_signaled s 0 \<and> ss_put s = 1"
proof -
  note go = sync_reachable.step [where ts = "[0]"]
  note r0 = sync_reachable.init [of "[0]"]
  note r1 = go [OF r0 wait_lock [of sync_init]]
  note r2 = go [OF r1 sync_lock]
  note r3 = go [OF r2 register [where t = 0 and us = "[]"]]
  note r4 = go [OF r3 sync_unlock]
  note r5 = go [OF r4 wait_yes]
  note r6 = go [OF r5 signal_begin [where t = 0]]
  note r7 = go [OF r6 signal_lock [where t = 0 and n = 0]]
  note r8 = go [OF r7 signal_remove [where t = 0 and n = 0]]
  note r9 = go [OF r8 notify [where t = 0 and n = 0]]
  note eval = sync_init_def task_mutex_free_def sync_mutex_free_def trigger_mutex_free_def register_wait_def
  show ?thesis by (rule exI, rule conjI, rule r9) (simp_all add: eval)
qed

section \<open>Properties\<close>

text \<open>
  C14: A task that waits for a list of triggerables without duplicates never runs into a failed
  assertion, is put into its scheduler's queue at most once, and goes on (because it need not wait,
  or because it is woken) only when every triggerable of the list is signaled, whatever the
  interleaving of the lock operations of the waiter and of the signalers.
\<close>

theorem wake_up_safe:
  assumes "distinct ts" "sync_reachable ts s"
  shows "\<not> ss_failed s \<and> ss_put s \<le> 1
    \<and> (ss_waiter s = W_Done False \<or> ss_put s = 1 \<longrightarrow> (\<forall>t\<in>set ts. ss_signaled s t))"
proof -
  note ok = sync_reachable_ok [OF assms(2,1)] and reg = sync_reachable_registered [OF assms(2,1)]
  have "ss_put s \<le> 1 \<and> (ss_waiter s = W_Done False \<or> ss_put s = 1 \<longrightarrow> \<not> pending s \<and> (\<exists>b. ss_waiter s = W_Done b))"
    using sync_okD(4) [OF ok] by (auto simp: waiter_ok_def split: waiter_pc.splits if_splits)
  then show ?thesis using reg sync_okD(1) [OF ok] by (auto simp: registered_def covered_def pending_def)
qed

theorem wake_up_safe_wit:
  "\<exists>s. sync_reachable [0] s \<and> ss_put s = 1 \<and> ss_signaled s 0 \<and> \<not> ss_failed s"
proof -
  obtain s where s: "sync_reachable [0] s" "ss_waiter s = W_Done True" "ss_put s = 1" using sample_run by blast
  show ?thesis using wake_up_safe [of "[0]" s] s by auto
qed

text \<open>
  Waiting for a list that names one triggerable twice is not safe: removing it from the
  dependencies removes both entries, so the second signal finds the list empty and its assertion
  fails; and if the triggerable is signaled between the two registrations, the waiter (holding its
  synchronizer's mutex) and the signaler (holding the triggerable's) wait for each other for ever.
\<close>

theorem duplicate_wait_fails:
  "(\<exists>s. sync_reachable [t, t] s \<and> ss_failed s) \<and>
   (\<exists>s. sync_reachable [t, t] s \<and> (\<nexists>s'. sync_step [t, t] s s') \<and> ss_waiter s = W_Register [t])"
proof
  note eval = sync_init_def task_mutex_free_def sync_mutex_free_def trigger_mutex_free_def register_wait_def
  note go = sync_reachable.step [where ts = "[t, t]"]
  note r0 = sync_reachable.init [of "[t, t]"]
  note r1 = go [OF r0 wait_lock [of sync_init]]
  note r2 = go [OF r1 sync_lock]
  note r3 = go [OF r2 register [where t = t and us = "[t]"]]
  note r4 = go [OF r3 register [where t = t and us = "[]"]]
  note r5 = go [OF r4 sync_unlock]
  note r6 = go [OF r5 wait_yes]
  note r7 = go [OF r6 signal_begin [where t = t]]
  note r8 = go [OF r7 signal_lock [where t = t and n = 1]]
  note r9 = go [OF r8 signal_remove [where t = t and n = 1]]
  note r10 = go [OF r9 notify [where t = t and n = 1]]
  note r11 = go [OF r10 signal_lock [where t = t and n = 0]]
  note r12 = go [OF r11 signal_empty [where t = t and n = 0]]
  show "\<exists>s. sync_reachable [t, t] s \<and> ss_failed s" by (rule exI, rule conjI, rule r12) (simp_all add: eval)
  note q4 = go [OF r3 signal_begin [where t = t]]
  show "\<exists>s. sync_reachable [t, t] s \<and> (\<nexists>s'. sync_step [t, t] s s') \<and> ss_waiter s = W_Register [t]"
    by (rule exI, rule conjI, rule q4) (auto simp: eval elim!: sync_step.cases split: if_splits)
qed

end
