(* ===== verification/Sync_Net.thy ===== *)
theory Sync_Net
  imports Task_Sync_Props
begin

text \<open>
  The protocol of \<open>Task_Sync\<close> with any number of waiting tasks and signalers: every triggerable has a
  list of the synchronizers registered with it, and every waiter its own task mutex and synchronizer
  mutex. A signaler holds its triggerable's mutex while it takes the mutex of one client after the
  other (\<open>set_signaled\<close>, \<open>trigger_all\<close>, \<open>signal\<close>), a waiter holds its synchronizer's mutex while it takes
  the mutex of one triggerable after the other (\<open>synchronize\<close>, \<open>register_wait\<close>): whether this can
  deadlock depends on the order in which the waiters list the triggerables.
\<close>

section \<open>Many waiters and many signalers\<close>

text \<open>
  The signaler of a triggerable: not begun; holding the triggerable's mutex with a list of clients
  left; in \<open>signal\<close> of the client \<open>w\<close>, holding also the mutex of \<open>w\<close>'s synchronizer; about to call
  \<open>notify\<close> of \<open>w\<close>; finished.
\<close>

datatype trigger_pc = T_Start | T_Clients "nat list" | T_Signal nat "nat list" | T_Notify nat "nat list" | T_Done

record net =
  nt_waiter :: "nat \<Rightarrow> waiter_pc"
  nt_signaler :: "nat \<Rightarrow> trigger_pc"
  nt_signaled :: "nat \<Rightarrow> bool"
  nt_clients :: "nat \<Rightarrow> nat list"
  nt_deps :: "nat \<Rightarrow> nat list"
  nt_task :: "nat \<Rightarrow> u16"
  nt_put :: "nat \<Rightarrow> nat"
  nt_failed :: bool

definition nt_task_free :: "net \<Rightarrow> nat \<Rightarrow> bool" where
  "nt_task_free s w \<longleftrightarrow> (case nt_waiter s w of W_Start \<Rightarrow> True | W_Done b \<Rightarrow> True | _ \<Rightarrow> False)"

definition signals_to :: "trigger_pc \<Rightarrow> nat \<Rightarrow> bool" where
  "signals_to g w \<longleftrightarrow> (case g of T_Signal v ws \<Rightarrow> v = w | T_Notify v ws \<Rightarrow> v = w | _ \<Rightarrow> False)"

definition nt_sync_free :: "nat \<Rightarrow> net \<Rightarrow> nat \<Rightarrow> bool" where
  "nt_sync_free M s w \<longleftrightarrow> (case nt_waiter s w of W_Register us \<Rightarrow> False | _ \<Rightarrow> True)
     \<and> (\<forall>t<M. \<not> signals_to (nt_signaler s t) w)"

definition nt_trigger_free :: "net \<Rightarrow> nat \<Rightarrow> bool" where
  "nt_trigger_free s t \<longleftrightarrow> nt_signaler s t = T_Start \<or> nt_signaler s t = T_Done"

definition wait_goto :: "nat \<Rightarrow> waiter_pc \<Rightarrow> net \<Rightarrow> net" where
  "wait_goto w p s = s\<lparr>nt_waiter := (nt_waiter s)(w := p)\<rparr>"

definition trigger_goto :: "nat \<Rightarrow> trigger_pc \<Rightarrow> net \<Rightarrow> net" where
  "trigger_goto t g s = s\<lparr>nt_signaler := (nt_signaler s)(t := g)\<rparr>"

definition nt_register :: "nat \<Rightarrow> nat \<Rightarrow> net \<Rightarrow> net" where
  "nt_register w t s =
     (if \<not> nt_signaled s t then
        s\<lparr>nt_clients := (nt_clients s)(t := nt_clients s t @ [w]), nt_deps := (nt_deps s)(w := nt_deps s w @ [t])\<rparr>
      else s)"

definition nt_remove :: "nat \<Rightarrow> nat \<Rightarrow> net \<Rightarrow> net" where
  "nt_remove w t s = s\<lparr>nt_deps := (nt_deps s)(w := removeAll t (nt_deps s w))\<rparr>"

definition nt_wake :: "nat \<Rightarrow> net \<Rightarrow> net" where
  "nt_wake w s = s\<lparr>nt_task := (nt_task s)(w := SUSPENDED), nt_put := (nt_put s)(w := nt_put s w + 1)\<rparr>"

text \<open>The steps of the waiters \<open>w < W\<close>, which wait for the lists \<open>ls w\<close>, and of the signalers \<open>t < M\<close>.\<close>

inductive net_step :: "nat \<Rightarrow> nat \<Rightarrow> (nat \<Rightarrow> nat list) \<Rightarrow> net \<Rightarrow> net \<Rightarrow> bool" for W M ls where
  n_wait_lock: "w < W \<Longrightarrow> nt_waiter s w = W_Start \<Longrightarrow> nt_task_free s w \<Longrightarrow> net_step W M ls s (wait_goto w W_Task s)"
| n_sync_lock: "w < W \<Longrightarrow> nt_waiter s w = W_Task \<Longrightarrow> nt_sync_free M s w \<Longrightarrow>
    net_step W M ls s (wait_goto w (W_Register (ls w)) s)"
| n_register: "w < W \<Longrightarrow> nt_waiter s w = W_Register (t # us) \<Longrightarrow> nt_trigger_free s t \<Longrightarrow>
    net_step W M ls s (wait_goto w (W_Register us) (nt_register w t s))"
| n_sync_unlock: "w < W \<Longrightarrow> nt_waiter s w = W_Register [] \<Longrightarrow>
    net_step W M ls s (wait_goto w (W_Decide (nt_deps s w \<noteq> [])) s)"
| n_wait_yes: "w < W \<Longrightarrow> nt_waiter s w = W_Decide True \<Longrightarrow> nt_task s w = RUNNING \<Longrightarrow>
    net_step W M ls s (wait_goto w (W_Done True) (s\<lparr>nt_task := (nt_task s)(w := WAITING)\<rparr>))"
| n_wait_fail: "w < W \<Longrightarrow> nt_waiter s w = W_Decide True \<Longrightarrow> nt_task s w \<noteq> RUNNING \<Longrightarrow>
    net_step W M ls s (s\<lparr>nt_failed := True\<rparr>)"
| n_wait_no: "w < W \<Longrightarrow> nt_waiter s w = W_Decide False \<Longrightarrow>
    net_step W M ls s (wait_goto w (W_Done (nt_task s w = WAITING)) s)"
| n_begin: "t < M \<Longrightarrow> nt_signaler s t = T_Start \<Longrightarrow> \<not> nt_signaled s t \<Longrightarrow>
    net_step W M ls s (trigger_goto t (T_Clients (nt_clients s t)) (s\<lparr>nt_signaled := (nt_signaled s)(t := True)\<rparr>))"
| n_again: "t < M \<Longrightarrow> nt_signaler s t = T_Start \<Longrightarrow> nt_signaled s t \<Longrightarrow> net_step W M ls s (s\<lparr>nt_failed := True\<rparr>)"
| n_signal_lock: "t < M \<Longrightarrow> nt_signaler s t = T_Clients (w # ws) \<Longrightarrow> nt_sync_free M s w \<Longrightarrow>
    net_step W M ls s (trigger_goto t (T_Signal w ws) s)"
| n_remove: "t < M \<Longrightarrow> nt_signaler s t = T_Signal w ws \<Longrightarrow> nt_deps s w \<noteq> [] \<Longrightarrow>
    net_step W M ls s (trigger_goto t (if removeAll t (nt_deps s w) = [] then T_Notify w ws else T_Clients ws)
      (nt_remove w t s))"
| n_empty: "t < M \<Longrightarrow> nt_signaler s t = T_Signal w ws \<Longrightarrow> nt_deps s w = [] \<Longrightarrow> net_step W M ls s (s\<lparr>nt_failed := True\<rparr>)"
| n_notify: "t < M \<Longrightarrow> nt_signaler s t = T_Notify w ws \<Longrightarrow> nt_task_free s w \<Longrightarrow> nt_task s w = WAITING \<Longrightarrow>
    net_step W M ls s (trigger_goto t (T_Clients ws) (nt_wake w s))"
| n_notify_fail: "t < M \<Longrightarrow> nt_signaler s t = T_Notify w ws \<Longrightarrow> nt_task_free s w \<Longrightarrow> nt_task s w \<noteq> WAITING \<Longrightarrow>
    net_step W M ls s (s\<lparr>nt_failed := True\<rparr>)"
| n_end: "t < M \<Longrightarrow> nt_signaler s t = T_Clients [] \<Longrightarrow>
    net_step W M ls s (trigger_goto t T_Done (s\<lparr>nt_clients := (nt_clients s)(t := [])\<rparr>))"

definition net_init :: net where
  "net_init = \<lparr>nt_waiter = (\<lambda>_. W_Start), nt_signaler = (\<lambda>_. T_Start), nt_signaled = (\<lambda>_. False),
     nt_clients = (\<lambda>_. []), nt_deps = (\<lambda>_. []), nt_task = (\<lambda>_. RUNNING), nt_put = (\<lambda>_. 0), nt_failed = False\<rparr>"

inductive net_reachable :: "nat \<Rightarrow> nat \<Rightarrow> (nat \<Rightarrow> nat list) \<Rightarrow> net \<Rightarrow> bool" for W M ls where
  n_init: "net_reachable W M ls net_init"
| n_step: "net_reachable W M ls s \<Longrightarrow> net_step W M ls s s' \<Longrightarrow> net_reachable W M ls s'"

text \<open>Every triggerable has been signaled and every waiter goes on: it need not wait, or it has been woken once.\<close>

definition net_final :: "nat \<Rightarrow> nat \<Rightarrow> net \<Rightarrow> bool" where
  "net_final W M s \<longleftrightarrow> (\<forall>t<M. nt_signaler s t = T_Done \<and> nt_signaled s t)
     \<and> (\<forall>w<W. nt_waiter s w = W_Done True \<and> nt_task s w = SUSPENDED \<and> nt_put s w = 1
        \<or> nt_waiter s w = W_Done False \<and> nt_task s w = RUNNING \<and> nt_put s w = 0)"

section \<open>What one waiter sees\<close>

text \<open>
  The view of the waiter \<open>w\<close> is a state of \<open>Task_Sync\<close>: of each list of clients it sees the number of
  its own entries, and a signaler busy with another client looks as if it had not come to it yet.
\<close>

definition seen_pc :: "nat \<Rightarrow> trigger_pc \<Rightarrow> signal_pc" where
  "seen_pc w g = (case g of T_Start \<Rightarrow> G_Start | T_Done \<Rightarrow> G_Done | T_Clients ws \<Rightarrow> G_Clients (count_list ws w)
     | T_Signal v ws \<Rightarrow> if v = w then G_Signal (count_list ws w) else G_Clients (count_list ws w)
     | T_Notify v ws \<Rightarrow> if v = w then G_Notify (count_list ws w) else G_Clients (count_list ws w))"

definition seen :: "nat list \<Rightarrow> nat \<Rightarrow> net \<Rightarrow> sync_state" where
  "seen ts w s = \<lparr>ss_waiter = nt_waiter s w, ss_signaler = (\<lambda>t. if t \<in> set ts then seen_pc w (nt_signaler s t) else G_Start),
     ss_signaled = (\<lambda>t. t \<in> set ts \<and> nt_signaled s t),
     ss_clients = (\<lambda>t. if t \<in> set ts then count_list (nt_clients s t) w else 0),
     ss_deps = nt_deps s w, ss_task = nt_task s w, ss_put = nt_put s w, ss_failed = nt_failed s\<rparr>"

definition left_clients :: "trigger_pc \<Rightarrow> nat set" where
  "left_clients g = (case g of T_Clients ws \<Rightarrow> set ws | T_Signal v ws \<Rightarrow> insert v (set ws)
     | T_Notify v ws \<Rightarrow> insert v (set ws) | _ \<Rightarrow> {})"

text \<open>Beside what each waiter sees: clients are waiters that list the triggerable, registered in the order of their list.\<close>

definition clients_ok :: "nat \<Rightarrow> (nat \<Rightarrow> nat list) \<Rightarrow> net \<Rightarrow> bool" where
  "clients_ok W ls s \<longleftrightarrow> (\<forall>t. (nt_signaler s t = T_Start) = (\<not> nt_signaled s t) \<and>
     (\<forall>v\<in>set (nt_clients s t) \<union> left_clients (nt_signaler s t). v < W \<and> t \<in> set (ls v)))"

definition order_ok :: "nat \<Rightarrow> (nat \<Rightarrow> nat list) \<Rightarrow> net \<Rightarrow> bool" where
  "order_ok W ls s \<longleftrightarrow> (\<forall>w<W. \<forall>us. nt_waiter s w = W_Register us \<longrightarrow> (\<exists>ds. ls w = ds @ us \<and> set (nt_deps s w) \<subseteq> set ds))"

definition net_ok :: "nat \<Rightarrow> (nat \<Rightarrow> nat list) \<Rightarrow> net \<Rightarrow> bool" where
  "net_ok W ls s \<longleftrightarrow> \<not> nt_failed s \<and> clients_ok W ls s \<and> order_ok W ls s
     \<and> (\<forall>w<W. sync_ok (seen (ls w) w s) \<and> registered (ls w) (seen (ls w) w s))"

definition lists_ok :: "nat \<Rightarrow> nat \<Rightarrow> (nat \<Rightarrow> nat list) \<Rightarrow> bool" where
  "lists_ok W M ls \<longleftrightarrow> (\<forall>w<W. distinct (ls w) \<and> set (ls w) \<subseteq> {..<M})"

lemmas net_goto = wait_goto_def trigger_goto_def nt_register_def nt_remove_def nt_wake_def

lemma seen_fields [simp]:
  "ss_waiter (seen ts w s) = nt_waiter s w" "ss_deps (seen ts w s) = nt_deps s w"
  "ss_task (seen ts w s) = nt_task s w" "ss_put (seen ts w s) = nt_put s w" "ss_failed (seen ts w s) = nt_failed s"
  "t \<in> set ts \<Longrightarrow> ss_signaler (seen ts w s) t = seen_pc w (nt_signaler s t)"
  "t \<in> set ts \<Longrightarrow> ss_signaled (seen ts w s) t = nt_signaled s t"
  "t \<in> set ts \<Longrightarrow> ss_clients (seen ts w s) t = count_list (nt_clients s t) w"
  by (simp_all add: seen_def)

lemma seen_pc_simps [simp]:
  "seen_pc w T_Start = G_Start" "seen_pc w T_Done = G_Done" "seen_pc w (T_Clients ws) = G_Clients (count_list ws w)"
  "seen_pc w (T_Signal w ws) = G_Signal (count_list ws w)" "seen_pc w (T_Notify w ws) = G_Notify (count_list ws w)"
  "v \<noteq> w \<Longrightarrow> seen_pc w (T_Signal v ws) = G_Clients (count_list ws w)"
  "v \<noteq> w \<Longrightarrow> seen_pc w (T_Notify v ws) = G_Clients (count_list ws w)"
  by (simp_all add: seen_pc_def)

lemma seen_free:
  assumes "set ts \<subseteq> {..<M}"
  shows "task_mutex_free (seen ts w s) = nt_task_free s w"
    "nt_sync_free M s w \<Longrightarrow> sync_mutex_free (seen ts w s)"
    "t \<in> set ts \<Longrightarrow> trigger_mutex_free (seen ts w s) t = nt_trigger_free s t"
proof -
  show "task_mutex_free (seen ts w s) = nt_task_free s w" by (simp add: task_mutex_free_def nt_task_free_def)
  show "sync_mutex_free (seen ts w s)" if free: "nt_sync_free M s w"
  proof -
    have "\<not> in_signal (ss_signaler (seen ts w s) t)" for t
    proof (cases "t \<in> set ts")
      case True
      then have "\<not> signals_to (nt_signaler s t) w" using free assms by (auto simp: nt_sync_free_def)
      then show ?thesis using True by (auto simp: signals_to_def seen_pc_def split: trigger_pc.splits)
    qed (simp add: seen_def)
    then show ?thesis using free by (simp add: sync_mutex_free_def nt_sync_free_def)
  qed
  show "trigger_mutex_free (seen ts w s) t = nt_trigger_free s t" if "t \<in> set ts"
    using that by (auto simp: trigger_mutex_free_def nt_trigger_free_def seen_pc_def split: trigger_pc.splits)
qed

lemma seen_eqI:
  assumes "nt_waiter s' w = nt_waiter s w" "nt_deps s' w = nt_deps s w" "nt_task s' w = nt_task s w"
    "nt_put s' w = nt_put s w" "nt_failed s' = nt_failed s"
    "\<And>t. t \<in> set ts \<Longrightarrow> seen_pc w (nt_signaler s' t) = seen_pc w (nt_signaler s t)"
    "\<And>t. t \<in> set ts \<Longrightarrow> nt_signaled s' t = nt_signaled s t"
    "\<And>t. t \<in> set ts \<Longrightarrow> count_list (nt_clients s' t) w = count_list (nt_clients s t) w"
  shows "seen ts w s' = seen ts w s"
  unfolding seen_def using assms by (auto simp: fun_eq_iff)

lemma seen_goto:
  assumes "t \<in> set ts"
  shows "seen ts w (trigger_goto t g s) = sig_goto t (seen_pc w g) (seen ts w s)"
  using assms by (auto simp: seen_def sig_goto_def trigger_goto_def fun_eq_iff)

lemma seen_wait:
  "seen ts w (wait_goto w p s) = (seen ts w s)\<lparr>ss_waiter := p\<rparr>"
  "v \<noteq> w \<Longrightarrow> seen ts v (wait_goto w p s) = seen ts v s"
  by (auto simp: seen_def wait_goto_def)

lemma seen_register:
  "t \<in> set ts \<Longrightarrow> seen ts w (nt_register w t s) = register_wait t (seen ts w s)"
  "v \<noteq> w \<Longrightarrow> seen ts v (nt_register w t s) = seen ts v s"
  by (auto simp: seen_def nt_register_def register_wait_def fun_eq_iff)

lemma seen_signaled:
  "t \<in> set ts \<Longrightarrow> seen ts w (s\<lparr>nt_signaled := (nt_signaled s)(t := True)\<rparr>)
     = (seen ts w s)\<lparr>ss_signaled := (ss_signaled (seen ts w s))(t := True)\<rparr>"
  "seen ts w (s\<lparr>nt_task := (nt_task s)(w := x)\<rparr>) = (seen ts w s)\<lparr>ss_task := x\<rparr>"
  "v \<noteq> w \<Longrightarrow> seen ts v (s\<lparr>nt_task := (nt_task s)(w := x)\<rparr>) = seen ts v s"
  "t \<in> set ts \<Longrightarrow> seen ts w (s\<lparr>nt_clients := (nt_clients s)(t := [])\<rparr>)
     = (seen ts w s)\<lparr>ss_clients := (ss_clients (seen ts w s))(t := 0)\<rparr>"
  by (auto simp: seen_def fun_eq_iff)

lemma seen_remove:
  "seen ts w (nt_remove w t s) = (seen ts w s)\<lparr>ss_deps := removeAll t (ss_deps (seen ts w s))\<rparr>"
  "v \<noteq> w \<Longrightarrow> seen ts v (nt_remove w t s) = seen ts v s"
  "seen ts w (nt_wake w s) = (seen ts w s)\<lparr>ss_task := SUSPENDED, ss_put := ss_put (seen ts w s) + 1\<rparr>"
  "v \<noteq> w \<Longrightarrow> seen ts v (nt_wake w s) = seen ts v s"
  by (auto simp: seen_def nt_remove_def nt_wake_def)

lemma seen_other_trigger:
  "t \<notin> set ts \<Longrightarrow> seen ts w (trigger_goto t g s) = seen ts w s"
  "t \<notin> set ts \<Longrightarrow> seen ts w (s\<lparr>nt_signaled := (nt_signaled s)(t := b)\<rparr>) = seen ts w s"
  "t \<notin> set ts \<Longrightarrow> seen ts w (s\<lparr>nt_clients := (nt_clients s)(t := cs)\<rparr>) = seen ts w s"
  by (auto simp: seen_def trigger_goto_def fun_eq_iff)

lemma seen_same_pc:
  assumes "seen_pc w g = seen_pc w (nt_signaler s t)"
  shows "seen ts w (trigger_goto t g s) = seen ts w s"
  using assms by (auto simp: seen_def trigger_goto_def fun_eq_iff)

text \<open>A step of the net is a step of a waiter's view, or none.\<close>

abbreviation stutters :: "nat list \<Rightarrow> nat \<Rightarrow> net \<Rightarrow> net \<Rightarrow> bool" where
  "stutters ts v s s' \<equiv> seen ts v s' = seen ts v s \<or> sync_step ts (seen ts v s) (seen ts v s')"

lemma stutters_waiter:
  assumes "v \<noteq> w \<Longrightarrow> seen ts v s' = seen ts v s" "v = w \<Longrightarrow> sync_step ts (seen ts v s) (seen ts v s')"
  shows "stutters ts v s s'"
  using assms by blast

lemma lists_okD: "lists_ok W M ls \<Longrightarrow> w < W \<Longrightarrow> distinct (ls w)" "lists_ok W M ls \<Longrightarrow> w < W \<Longrightarrow> set (ls w) \<subseteq> {..<M}"
  by (auto simp: lists_ok_def)

lemma clients_okD:
  assumes "clients_ok W ls s"
  shows "nt_signaler s t = T_Start \<longleftrightarrow> \<not> nt_signaled s t"
    "v \<in> set (nt_clients s t) \<Longrightarrow> v < W" "v \<in> set (nt_clients s t) \<Longrightarrow> t \<in> set (ls v)"
    "v \<in> left_clients (nt_signaler s t) \<Longrightarrow> v < W" "v \<in> left_clients (nt_signaler s t) \<Longrightarrow> t \<in> set (ls v)"
  using assms by (auto simp: clients_ok_def)

lemma left_clients_simps [simp]:
  "left_clients T_Start = {}" "left_clients T_Done = {}" "left_clients (T_Clients ws) = set ws"
  "left_clients (T_Signal v ws) = insert v (set ws)" "left_clients (T_Notify v ws) = insert v (set ws)"
  by (simp_all add: left_clients_def)

lemma order_okE:
  assumes "order_ok W ls s" "w < W" "nt_waiter s w = W_Register us"
  obtains ds where "ls w = ds @ us" "set (nt_deps s w) \<subseteq> set ds"
  using assms unfolding order_ok_def by blast

lemma net_simulates:
  assumes "net_step W M ls s s'" "clients_ok W ls s" "order_ok W ls s" "lists_ok W M ls" "v < W" "\<not> nt_failed s'"
  shows "stutters (ls v) v s s'"
  using assms
proof (induction rule: net_step.induct)
  case (n_wait_lock w s)
  then show ?case by (intro stutters_waiter [where w = w]) (auto simp: seen_wait lists_ok_def seen_free intro!: wait_lock)
next
  case (n_sync_lock w s)
  then have "set (ls w) \<subseteq> {..<M}" by (simp add: lists_ok_def)
  with n_sync_lock show ?case by (intro stutters_waiter [where w = w]) (auto simp: seen_wait seen_free intro!: sync_lock)
next
  case (n_register w s t us)
  obtain ds where "ls w = ds @ t # us" using order_okE [OF n_register(5,1,2)] .
  then have "t \<in> set (ls w)" by simp
  moreover have "set (ls w) \<subseteq> {..<M}" using n_register(1,6) lists_okD by blast
  ultimately show ?case
    using n_register
    by (intro stutters_waiter [where w = w]) (auto simp: seen_wait seen_register seen_free intro!: register)
next
  case (n_sync_unlock w s)
  then show ?case using sync_unlock [of "seen (ls w) w s"]
    by (intro stutters_waiter [where w = w]) (simp_all add: seen_wait)
next
  case (n_wait_yes w s)
  then show ?case using wait_yes [of "seen (ls w) w s"]
    by (intro stutters_waiter [where w = w]) (simp_all add: seen_wait seen_signaled)
next
  case (n_wait_no w s)
  then show ?case using wait_no [of "seen (ls w) w s"]
    by (intro stutters_waiter [where w = w]) (simp_all add: seen_wait)
next
  case (n_begin t s)
  show ?case
  proof (cases "t \<in> set (ls v)")
    case True
    then show ?thesis using n_begin signal_begin [of t "ls v" "seen (ls v) v s"]
      by (simp add: seen_goto seen_signaled)
  qed (simp add: seen_other_trigger)
next
  case (n_signal_lock t s w ws)
  then have "t \<in> set (ls w)" "w < W" using clients_okD(4,5) [OF n_signal_lock(4), of w t] by simp_all
  moreover have "set (ls w) \<subseteq> {..<M}" using n_signal_lock calculation lists_okD by blast
  ultimately show ?case using n_signal_lock
    by (intro stutters_waiter [where w = w]) (auto simp: seen_goto seen_same_pc seen_free intro!: signal_lock)
next
  case (n_remove t s w ws)
  then have t: "t \<in> set (ls w)" using clients_okD(5) [where t = t and v = w] by simp
  have same: "nt_signaler (nt_remove w t s) t = T_Signal w ws" using n_remove by (simp add: nt_remove_def)
  show ?case
  proof (rule stutters_waiter [where w = w])
    assume "v \<noteq> w"
    then show "seen (ls v) v (trigger_goto t (if removeAll t (nt_deps s w) = [] then T_Notify w ws else T_Clients ws)
      (nt_remove w t s)) = seen (ls v) v s" by (subst seen_same_pc) (simp_all add: same seen_remove)
  next
    assume "v = w"
    then show "sync_step (ls v) (seen (ls v) v s) (seen (ls v) v (trigger_goto t
      (if removeAll t (nt_deps s w) = [] then T_Notify w ws else T_Clients ws) (nt_remove w t s)))"
      using n_remove(2,3) t signal_remove [of "seen (ls w) w s" t "count_list ws w" "ls w"]
      by (cases "removeAll t (nt_deps s w) = []") (simp_all add: seen_goto seen_remove)
  qed
next
  case (n_notify t s w ws)
  then have t: "t \<in> set (ls w)" "w < W" using clients_okD(4,5) [OF n_notify(5), of w t] by simp_all
  have sub: "set (ls w) \<subseteq> {..<M}" using n_notify t(2) lists_okD by blast
  have same: "nt_signaler (nt_wake w s) t = T_Notify w ws" using n_notify by (simp add: nt_wake_def)
  show ?case
  proof (rule stutters_waiter [where w = w])
    assume "v \<noteq> w"
    then show "seen (ls v) v (trigger_goto t (T_Clients ws) (nt_wake w s)) = seen (ls v) v s"
      by (subst seen_same_pc) (simp_all add: same seen_remove)
  next
    assume "v = w"
    then show "sync_step (ls v) (seen (ls v) v s) (seen (ls v) v (trigger_goto t (T_Clients ws) (nt_wake w s)))"
      using n_notify(2-4) t sub notify [of "seen (ls w) w s" t "count_list ws w" "ls w"]
      by (simp add: seen_goto seen_remove seen_free)
  qed
next
  case (n_end t s)
  show ?case
  proof (cases "t \<in> set (ls v)")
    case True
    then show ?thesis using n_end signal_end [of "seen (ls v) v s" t "ls v"] by (simp add: seen_goto seen_signaled)
  qed (simp add: seen_other_trigger)
qed simp_all

section \<open>The invariant\<close>

lemma net_fields [simp]:
  "nt_waiter (wait_goto w p s) = (nt_waiter s)(w := p)" "nt_signaler (wait_goto w p s) = nt_signaler s"
  "nt_signaled (wait_goto w p s) = nt_signaled s" "nt_clients (wait_goto w p s) = nt_clients s"
  "nt_deps (wait_goto w p s) = nt_deps s" "nt_failed (wait_goto w p s) = nt_failed s"
  "nt_waiter (trigger_goto t g s) = nt_waiter s" "nt_signaler (trigger_goto t g s) = (nt_signaler s)(t := g)"
  "nt_signaled (trigger_goto t g s) = nt_signaled s" "nt_clients (trigger_goto t g s) = nt_clients s"
  "nt_deps (trigger_goto t g s) = nt_deps s" "nt_failed (trigger_goto t g s) = nt_failed s"
  "nt_waiter (nt_register w t s) = nt_waiter s" "nt_signaler (nt_register w t s) = nt_signaler s"
  "nt_signaled (nt_register w t s) = nt_signaled s" "nt_failed (nt_register w t s) = nt_failed s"
  "nt_waiter (nt_remove w t s) = nt_waiter s" "nt_signaler (nt_remove w t s) = nt_signaler s"
  "nt_signaled (nt_remove w t s) = nt_signaled s" "nt_clients (nt_remove w t s) = nt_clients s"
  "nt_deps (nt_remove w t s) = (nt_deps s)(w := removeAll t (nt_deps s w))" "nt_failed (nt_remove w t s) = nt_failed s"
  "nt_waiter (nt_wake w s) = nt_waiter s" "nt_signaler (nt_wake w s) = nt_signaler s"
  "nt_signaled (nt_wake w s) = nt_signaled s" "nt_clients (nt_wake w s) = nt_clients s"
  "nt_deps (nt_wake w s) = nt_deps s" "nt_failed (nt_wake w s) = nt_failed s"
  by (simp_all add: net_goto)

lemma clients_okI:
  assumes ok: "clients_ok W ls s"
    and here: "(nt_signaler s' t = T_Start) = (\<not> nt_signaled s' t)"
      "\<And>v. v \<in> set (nt_clients s' t) \<union> left_clients (nt_signaler s' t) \<Longrightarrow> v < W \<and> t \<in> set (ls v)"
    and others: "\<And>u. u \<noteq> t \<Longrightarrow> nt_signaler s' u = nt_signaler s u \<and> nt_signaled s' u = nt_signaled s u \<and> nt_clients s' u = nt_clients s u"
  shows "clients_ok W ls s'"
  unfolding clients_ok_def
proof (rule allI)
  fix u
  show "(nt_signaler s' u = T_Start) = (\<not> nt_signaled s' u) \<and>
    (\<forall>v\<in>set (nt_clients s' u) \<union> left_clients (nt_signaler s' u). v < W \<and> u \<in> set (ls v))"
  proof (cases "u = t")
    case True
    then show ?thesis using here by blast
  next
    case False
    then show ?thesis using others [OF False] ok by (simp add: clients_ok_def)
  qed
qed

lemma clients_ok_same:
  "clients_ok W ls s \<Longrightarrow> nt_signaler s' = nt_signaler s \<Longrightarrow> nt_signaled s' = nt_signaled s \<Longrightarrow>
    nt_clients s' = nt_clients s \<Longrightarrow> clients_ok W ls s'"
  by (simp add: clients_ok_def)

lemma clients_ok_step:
  assumes "net_step W M ls s s'" "clients_ok W ls s" "order_ok W ls s"
  shows "clients_ok W ls s'"
  using assms
proof (induction rule: net_step.induct)
  case (n_register w s t us)
  obtain ds where "ls w = ds @ t # us" using order_okE [OF n_register(5,1,2)] .
  then show ?case using n_register clients_okD [OF n_register(4), where t = t]
    by (intro clients_okI [where t = t, OF n_register(4)]) (auto simp: nt_register_def wait_goto_def)
next
  case (n_begin t s)
  then show ?case using clients_okD [OF n_begin(4), where t = t]
    by (intro clients_okI [where t = t, OF n_begin(4)]) auto
next
  case (n_signal_lock t s w ws)
  then show ?case using clients_okD [OF n_signal_lock(4), where t = t]
    by (intro clients_okI [where t = t, OF n_signal_lock(4)]) auto
next
  case (n_remove t s w ws)
  then show ?case using clients_okD [OF n_remove(4), where t = t]
    by (intro clients_okI [where t = t, OF n_remove(4)]) (auto split: if_splits)
next
  case (n_notify t s w ws)
  then show ?case using clients_okD [OF n_notify(5), where t = t]
    by (intro clients_okI [where t = t, OF n_notify(5)]) auto
next
  case (n_end t s)
  then show ?case using clients_okD [OF n_end(3), where t = t]
    by (intro clients_okI [where t = t, OF n_end(3)]) auto
qed (auto elim!: clients_ok_same)

lemma order_okI:
  assumes ok: "order_ok W ls s" and wait: "\<And>v. v \<noteq> w \<Longrightarrow> nt_waiter s' v = nt_waiter s v"
    and deps: "\<And>v. v \<noteq> w \<Longrightarrow> set (nt_deps s' v) \<subseteq> set (nt_deps s v)"
    and here: "\<And>us. w < W \<Longrightarrow> nt_waiter s' w = W_Register us \<Longrightarrow> \<exists>ds. ls w = ds @ us \<and> set (nt_deps s' w) \<subseteq> set ds"
  shows "order_ok W ls s'"
  unfolding order_ok_def
proof (intro allI impI)
  fix v us
  assume v: "v < W" "nt_waiter s' v = W_Register us"
  show "\<exists>ds. ls v = ds @ us \<and> set (nt_deps s' v) \<subseteq> set ds"
  proof (cases "v = w")
    case True
    then show ?thesis using here v by blast
  next
    case False
    then obtain ds where "ls v = ds @ us" "set (nt_deps s v) \<subseteq> set ds"
      using order_okE [OF ok v(1)] v(2) wait [OF False] by metis
    then show ?thesis using deps [OF False] by blast
  qed
qed

lemma net_okD:
  assumes "net_ok W ls s"
  shows "\<not> nt_failed s" "clients_ok W ls s" "order_ok W ls s" "w < W \<Longrightarrow> sync_ok (seen (ls w) w s)"
    "w < W \<Longrightarrow> registered (ls w) (seen (ls w) w s)"
  using assms by (auto simp: net_ok_def)

lemma order_ok_mono:
  assumes "order_ok W ls s" "nt_waiter s' = nt_waiter s" "\<And>v. set (nt_deps s' v) \<subseteq> set (nt_deps s v)"
  shows "order_ok W ls s'"
  using assms unfolding order_ok_def by (metis order_trans)

lemma order_ok_step:
  assumes "net_step W M ls s s'" "net_ok W ls s"
  shows "order_ok W ls s'"
  using assms
proof (induction rule: net_step.induct)
  case (n_wait_lock w s)
  then show ?case by (intro order_okI [OF net_okD(3) [OF n_wait_lock(4)], where w = w]) auto
next
  case (n_sync_lock w s)
  have "nt_deps s w = []"
    using sync_okD(4) [OF net_okD(4) [OF n_sync_lock(4,1)]] n_sync_lock(2) by (simp add: waiter_ok_def pending_def)
  then show ?case by (intro order_okI [OF net_okD(3) [OF n_sync_lock(4)], where w = w]) auto
next
  case (n_register w s t us)
  obtain ds where ds: "ls w = ds @ t # us" "set (nt_deps s w) \<subseteq> set ds"
    using order_okE [OF net_okD(3) [OF n_register(4)] n_register(1,2)] .
  then have "\<exists>ds. ls w = ds @ us \<and> set (nt_deps (nt_register w t s) w) \<subseteq> set ds"
    by (intro exI [of _ "ds @ [t]"]) (auto simp: nt_register_def)
  then show ?case by (intro order_okI [OF net_okD(3) [OF n_register(4)], where w = w]) (auto simp: nt_register_def)
next
  case (n_sync_unlock w s)
  then show ?case by (intro order_okI [OF net_okD(3) [OF n_sync_unlock(3)], where w = w]) auto
next
  case (n_wait_yes w s)
  then show ?case by (intro order_okI [OF net_okD(3) [OF n_wait_yes(4)], where w = w]) auto
next
  case (n_wait_no w s)
  then show ?case by (intro order_okI [OF net_okD(3) [OF n_wait_no(3)], where w = w]) auto
qed (auto dest!: net_okD(3) elim!: order_ok_mono split: if_splits)

text \<open>The steps to a failed assertion are steps of the view of one waiter, too, so they are impossible.\<close>

lemma no_failing_view:
  assumes "sync_ok s" "distinct ts" shows "\<not> sync_step ts s (s\<lparr>ss_failed := True\<rparr>)"
proof
  assume "sync_step ts s (s\<lparr>ss_failed := True\<rparr>)"
  then have "sync_ok (s\<lparr>ss_failed := True\<rparr>)" using sync_step_ok assms by blast
  then show False by (simp add: sync_ok_def)
qed

lemma net_step_safe:
  assumes "net_step W M ls s s'" "net_ok W ls s" "lists_ok W M ls"
  shows "\<not> nt_failed s'"
  using assms
proof (induction rule: net_step.induct)
  case (n_wait_fail w s)
  note bad = no_failing_view [OF net_okD(4) [OF n_wait_fail(4,1)] lists_okD(1) [OF n_wait_fail(5,1)]]
  show ?case using bad wait_fail [of "seen (ls w) w s" "ls w"] n_wait_fail(2,3) by simp
next
  case (n_again t s)
  then show ?case using clients_okD(1) [OF net_okD(2) [OF n_again(4)], of t] by simp
next
  case (n_empty t s w ws)
  have w: "w < W" and t: "t \<in> set (ls w)"
    using clients_okD(4,5) [OF net_okD(2) [OF n_empty(4)], of w t] n_empty(2) by simp_all
  note bad = no_failing_view [OF net_okD(4) [OF n_empty(4) w] lists_okD(1) [OF n_empty(5) w]]
  show ?case using bad signal_empty [of "seen (ls w) w s" t "count_list ws w" "ls w"] t n_empty(2,3) by simp
next
  case (n_notify_fail t s w ws)
  have w: "w < W" and t: "t \<in> set (ls w)"
    using clients_okD(4,5) [OF net_okD(2) [OF n_notify_fail(5)], of w t] n_notify_fail(2) by simp_all
  note bad = no_failing_view [OF net_okD(4) [OF n_notify_fail(5) w] lists_okD(1) [OF n_notify_fail(6) w]]
  have "task_mutex_free (seen (ls w) w s)" using n_notify_fail(3) seen_free(1) [OF lists_okD(2) [OF n_notify_fail(6) w]] by simp
  then show ?case using bad notify_fail [of "seen (ls w) w s" t "count_list ws w" "ls w"] t n_notify_fail(2,4) by simp
qed (auto dest: net_okD(1))

lemma net_step_ok:
  assumes "net_step W M ls s s'" "net_ok W ls s" "lists_ok W M ls"
  shows "net_ok W ls s'"
proof -
  note safe = net_step_safe [OF assms]
  have "sync_ok (seen (ls w) w s') \<and> registered (ls w) (seen (ls w) w s')" if w: "w < W" for w
    using net_simulates [OF assms(1) net_okD(2,3) [OF assms(2)] assms(3) w safe]
      net_okD(4,5) [OF assms(2) w] sync_step_ok [OF _ lists_okD(1) [OF assms(3) w]] registered_step by metis
  then show ?thesis using safe clients_ok_step [OF assms(1) net_okD(2,3) [OF assms(2)]] order_ok_step [OF assms(1,2)]
    by (simp add: net_ok_def)
qed

lemma seen_init: "seen ts w net_init = sync_init"
  by (simp add: seen_def net_init_def sync_init_def fun_eq_iff)

lemma net_init_ok: "net_ok W ls net_init"
proof -
  have "clients_ok W ls net_init" "order_ok W ls net_init" "\<not> nt_failed net_init"
    by (simp_all add: clients_ok_def order_ok_def net_init_def)
  moreover have "registered ts sync_init" for ts by (simp add: registered_def sync_init_def)
  ultimately show ?thesis by (simp add: net_ok_def seen_init sync_init_ok)
qed

lemma net_reachable_ok: "net_reachable W M ls s \<Longrightarrow> lists_ok W M ls \<Longrightarrow> net_ok W ls s"
  by (induction rule: net_reachable.induct) (auto intro: net_init_ok net_step_ok)

section \<open>Progress\<close>

text \<open>
  The steps left. A registration takes four from its waiter and gives three to the signaler of the
  triggerable, which has one client more to serve.
\<close>

definition wait_left :: "nat list \<Rightarrow> waiter_pc \<Rightarrow> nat" where
  "wait_left ts p = (case p of W_Start \<Rightarrow> 4 * length ts + 4 | W_Task \<Rightarrow> 4 * length ts + 3
     | W_Register us \<Rightarrow> 4 * length us + 2 | W_Decide b \<Rightarrow> 1 | W_Done b \<Rightarrow> 0)"

definition trigger_left :: "nat list \<Rightarrow> trigger_pc \<Rightarrow> nat" where
  "trigger_left cs g = (case g of T_Start \<Rightarrow> 3 * length cs + 2 | T_Clients ws \<Rightarrow> 3 * length ws + 1
     | T_Signal w ws \<Rightarrow> 3 * length ws + 3 | T_Notify w ws \<Rightarrow> 3 * length ws + 2 | T_Done \<Rightarrow> 0)"

definition waits_left :: "nat \<Rightarrow> (nat \<Rightarrow> nat list) \<Rightarrow> net \<Rightarrow> nat" where
  "waits_left W ls s = (\<Sum>w<W. wait_left (ls w) (nt_waiter s w))"

definition triggers_left :: "nat \<Rightarrow> net \<Rightarrow> nat" where
  "triggers_left M s = (\<Sum>t<M. trigger_left (nt_clients s t) (nt_signaler s t))"

definition net_left :: "nat \<Rightarrow> nat \<Rightarrow> (nat \<Rightarrow> nat list) \<Rightarrow> net \<Rightarrow> nat" where
  "net_left W M ls s = waits_left W ls s + triggers_left M s"

lemma sum_one:
  fixes f g :: "nat \<Rightarrow> nat"
  assumes "i < n" "\<And>j. j \<noteq> i \<Longrightarrow> f j = g j"
  shows "(\<Sum>j<n. f j) + g i = (\<Sum>j<n. g j) + f i"
proof -
  have "(\<Sum>j<n. f j) = f i + (\<Sum>j\<in>{..<n} - {i}. f j)" using assms(1) by (intro sum.remove) auto
  moreover have "(\<Sum>j<n. g j) = g i + (\<Sum>j\<in>{..<n} - {i}. g j)" using assms(1) by (intro sum.remove) auto
  moreover have "(\<Sum>j\<in>{..<n} - {i}. f j) = (\<Sum>j\<in>{..<n} - {i}. g j)" using assms(2) by (intro sum.cong) auto
  ultimately show ?thesis by simp
qed

lemma waits_left_one:
  assumes "w < W" "\<And>v. v \<noteq> w \<Longrightarrow> nt_waiter s' v = nt_waiter s v"
  shows "waits_left W ls s' + wait_left (ls w) (nt_waiter s w) = waits_left W ls s + wait_left (ls w) (nt_waiter s' w)"
  unfolding waits_left_def using assms by (intro sum_one) auto

lemma triggers_left_one:
  assumes "t < M" "\<And>u. u \<noteq> t \<Longrightarrow> nt_signaler s' u = nt_signaler s u \<and> nt_clients s' u = nt_clients s u"
  shows "triggers_left M s' + trigger_left (nt_clients s t) (nt_signaler s t)
    = triggers_left M s + trigger_left (nt_clients s' t) (nt_signaler s' t)"
  unfolding triggers_left_def using assms by (intro sum_one) auto

lemma left_same:
  "nt_waiter s' = nt_waiter s \<Longrightarrow> waits_left W ls s' = waits_left W ls s"
  "nt_signaler s' = nt_signaler s \<Longrightarrow> nt_clients s' = nt_clients s \<Longrightarrow> triggers_left M s' = triggers_left M s"
  by (simp_all add: waits_left_def triggers_left_def)

lemma waiter_less:
  assumes "w < W" "nt_waiter s' = (nt_waiter s)(w := p)" "nt_signaler s' = nt_signaler s" "nt_clients s' = nt_clients s"
    "wait_left (ls w) p < wait_left (ls w) (nt_waiter s w)"
  shows "net_left W M ls s' < net_left W M ls s"
  using waits_left_one [OF assms(1), of s' s ls] left_same(2) [OF assms(3,4), of M] assms(2,5) by (simp add: net_left_def)

lemma trigger_less:
  assumes "t < M" "nt_waiter s' = nt_waiter s" "nt_signaler s' = (nt_signaler s)(t := g)"
    "\<And>u. u \<noteq> t \<Longrightarrow> nt_clients s' u = nt_clients s u"
    "trigger_left (nt_clients s' t) g < trigger_left (nt_clients s t) (nt_signaler s t)"
  shows "net_left W M ls s' < net_left W M ls s"
  using triggers_left_one [OF assms(1), of s' s] left_same(1) [OF assms(2), of W ls] assms(3-5) by (simp add: net_left_def)

lemma register_less:
  assumes w: "w < W" "nt_waiter s w = W_Register (t # us)" and t: "t < M" and ok: "clients_ok W ls s"
  shows "net_left W M ls (wait_goto w (W_Register us) (nt_register w t s)) < net_left W M ls s" (is "net_left W M ls ?s < _")
proof -
  have "waits_left W ls ?s + (4 * length us + 6) = waits_left W ls s + (4 * length us + 2)"
    using waits_left_one [OF w(1), of ?s s ls] w(2) by (simp add: wait_left_def)
  moreover have "triggers_left M ?s \<le> triggers_left M s + 3"
  proof (cases "nt_signaled s t")
    case True
    then show ?thesis using left_same(2) [of ?s s M] by (simp add: nt_register_def)
  next
    case False
    then have g: "nt_signaler s t = T_Start" using clients_okD(1) [OF ok, of t] by simp
    show ?thesis using triggers_left_one [OF t, of ?s s] False g by (simp add: nt_register_def trigger_left_def)
  qed
  ultimately show ?thesis by (simp add: net_left_def)
qed

lemma net_step_less:
  assumes "net_step W M ls s s'" "net_ok W ls s" "lists_ok W M ls" "\<not> nt_failed s'"
  shows "net_left W M ls s' < net_left W M ls s"
  using assms
proof (induction rule: net_step.induct)
  case (n_wait_lock w s)
  then show ?case by (intro waiter_less [where w = w]) (auto simp: wait_left_def)
next
  case (n_sync_lock w s)
  then show ?case by (intro waiter_less [where w = w]) (auto simp: wait_left_def)
next
  case (n_register w s t us)
  obtain ds where "ls w = ds @ t # us" using order_okE [OF net_okD(3) [OF n_register(4)] n_register(1,2)] .
  then have "t < M" using lists_okD(2) [OF n_register(5,1)] by auto
  then show ?case using register_less [OF n_register(1,2) _ net_okD(2) [OF n_register(4)]] by simp
next
  case (n_sync_unlock w s)
  then show ?case by (intro waiter_less [where w = w]) (auto simp: wait_left_def)
next
  case (n_wait_yes w s)
  then show ?case by (intro waiter_less [where w = w]) (auto simp: wait_left_def)
next
  case (n_wait_no w s)
  then show ?case by (intro waiter_less [where w = w]) (auto simp: wait_left_def)
next
  case (n_begin t s)
  then show ?case by (intro trigger_less [where t = t]) (auto simp: trigger_left_def)
next
  case (n_signal_lock t s w ws)
  then show ?case by (intro trigger_less [where t = t]) (auto simp: trigger_left_def)
next
  case (n_remove t s w ws)
  then show ?case
    by (intro trigger_less [where t = t and g = "if removeAll t (nt_deps s w) = [] then T_Notify w ws else T_Clients ws"])
      (auto simp: trigger_left_def)
next
  case (n_notify t s w ws)
  then show ?case by (intro trigger_less [where t = t]) (auto simp: trigger_left_def)
next
  case (n_end t s)
  then show ?case by (intro trigger_less [where t = t]) (auto simp: trigger_left_def)
qed (auto dest: net_okD(1))

text \<open>In \<open>signal\<close> of a client, a signaler goes on, or the client does.\<close>

lemma signal_can:
  assumes ok: "net_ok W ls s" and t: "t < M" and g: "signals_to (nt_signaler s t) w"
  shows "Ex (net_step W M ls s)"
proof -
  have "w \<in> left_clients (nt_signaler s t)" using g by (auto simp: signals_to_def split: trigger_pc.splits)
  then have w: "w < W" and tw: "t \<in> set (ls w)" using clients_okD(4,5) [OF net_okD(2) [OF ok]] by blast+
  note view = sync_okD [OF net_okD(4) [OF ok w]]
  show ?thesis
  proof (cases "nt_signaler s t")
    case (T_Signal v ws)
    then show ?thesis using t by (cases "nt_deps s v = []") (blast intro: n_remove n_empty)+
  next
    case (T_Notify v ws)
    then have v: "v = w" "ss_signaler (seen (ls w) w s) t = G_Notify (count_list ws w)"
      using g tw by (simp_all add: signals_to_def)
    then have pend: "pending (seen (ls w) w s)" by (auto simp: pending_def)
    show ?thesis
    proof (cases "nt_waiter s w")
      case (W_Register us)
      then show ?thesis using view(4) v(2) by (auto simp: waiter_ok_def dest: spec [of _ t])
    next
      case (W_Decide b)
      then have "b" using view(4) pend by (simp add: waiter_ok_def)
      then show ?thesis using W_Decide w by (cases "nt_task s w = RUNNING") (auto intro: n_wait_yes n_wait_fail)
    next
      case (W_Done b)
      then have "nt_task_free s w" by (simp add: nt_task_free_def)
      then show ?thesis using T_Notify t v(1) by (cases "nt_task s w = WAITING") (blast intro: n_notify n_notify_fail)+
    qed (use view(4) pend in \<open>simp_all add: waiter_ok_def\<close>)
  qed (use g in \<open>simp_all add: signals_to_def\<close>)
qed

text \<open>A waiter that has not returned goes on, or it is blocked at a triggerable whose mutex is held.\<close>

lemma waiter_can:
  assumes ok: "net_ok W ls s" and w: "w < W" and busy: "\<And>b. nt_waiter s w \<noteq> W_Done b"
    and stuck: "\<not> Ex (net_step W M ls s)"
  shows "\<exists>t us. nt_waiter s w = W_Register (t # us) \<and> \<not> nt_trigger_free s t"
proof (cases "nt_waiter s w")
  case W_Start
  then have "nt_task_free s w" by (simp add: nt_task_free_def)
  then show ?thesis using W_Start w stuck by (blast intro: n_wait_lock)
next
  case W_Task
  then have "nt_sync_free M s w" using signal_can [OF ok] stuck by (auto simp: nt_sync_free_def)
  then show ?thesis using W_Task w stuck by (blast intro: n_sync_lock)
next
  case (W_Register us)
  then show ?thesis using w stuck by (cases us) (blast intro: n_register n_sync_unlock)+
next
  case (W_Decide b)
  then show ?thesis using w stuck
    by (cases b; cases "nt_task s w = RUNNING") (auto intro: n_wait_yes n_wait_fail n_wait_no)
qed (use busy in simp)

text \<open>A signaler that has not finished goes on, or it is blocked at a client that is registering.\<close>

definition blocked_at :: "nat \<Rightarrow> nat \<Rightarrow> net \<Rightarrow> nat \<Rightarrow> nat \<Rightarrow> bool" where
  "blocked_at W M s t v \<longleftrightarrow> t < M \<and> v < W \<and> (\<exists>vs. nt_signaler s t = T_Clients (v # vs)) \<and> (\<exists>us. nt_waiter s v = W_Register us)"

lemma signaler_can:
  assumes ok: "net_ok W ls s" and t: "t < M" "nt_signaler s t \<noteq> T_Done" and stuck: "\<not> Ex (net_step W M ls s)"
  shows "\<exists>v. blocked_at W M s t v"
proof (cases "nt_signaler s t")
  case T_Start
  then show ?thesis using t stuck by (cases "nt_signaled s t") (blast intro: n_begin n_again)+
next
  case (T_Clients ws)
  show ?thesis
  proof (cases ws)
    case Nil
    then show ?thesis using T_Clients t stuck by (blast intro: n_end)
  next
    case (Cons v vs)
    then have "v < W" using clients_okD(4) [OF net_okD(2) [OF ok], of v t] T_Clients by simp
    moreover have "\<not> nt_sync_free M s v" using T_Clients Cons t stuck by (blast intro: n_signal_lock)
    ultimately show ?thesis using signal_can [OF ok] stuck T_Clients Cons t
      by (auto simp: nt_sync_free_def blocked_at_def split: waiter_pc.splits)
  qed
next
  case (T_Signal v ws)
  then show ?thesis using signal_can [OF ok t(1), of v] stuck by (simp add: signals_to_def)
next
  case (T_Notify v ws)
  then show ?thesis using signal_can [OF ok t(1), of v] stuck by (simp add: signals_to_def)
qed (use t in simp)

text \<open>
  In a state without steps, every blocked signaler is followed by another one: its client registers
  with a triggerable that comes later in the client's list, and the mutex of that one is held by
  its own blocked signaler.
\<close>

definition ranked :: "nat \<Rightarrow> nat \<Rightarrow> (nat \<Rightarrow> nat) \<Rightarrow> (nat \<Rightarrow> nat list) \<Rightarrow> bool" where
  "ranked W M rank ls \<longleftrightarrow> (\<forall>w<W. set (ls w) \<subseteq> {..<M} \<and> sorted_wrt (\<lambda>x y. rank x < rank y) (ls w))"

lemma sorted_distinct: "sorted_wrt (\<lambda>x y. rank x < (rank y :: nat)) xs \<Longrightarrow> distinct xs"
  by (induction xs) auto

lemma ranked_lists: "ranked W M rank ls \<Longrightarrow> lists_ok W M ls"
  by (auto simp: ranked_def lists_ok_def intro: sorted_distinct)

lemma blocked_chain:
  assumes ok: "net_ok W ls s" and rk: "ranked W M rank ls" and stuck: "\<not> Ex (net_step W M ls s)"
    and blk: "blocked_at W M s t v"
  shows "\<exists>u w. blocked_at W M s u w \<and> rank t < rank u"
proof -
  obtain vs where t: "t < M" "v < W" "nt_signaler s t = T_Clients (v # vs)" and "\<exists>us. nt_waiter s v = W_Register us"
    using blk by (auto simp: blocked_at_def)
  then obtain u us where u: "nt_waiter s v = W_Register (u # us)" "\<not> nt_trigger_free s u"
    using waiter_can [OF ok t(2) _ stuck] by auto
  obtain ds where ds: "ls v = ds @ u # us" "set (nt_deps s v) \<subseteq> set ds"
    using order_okE [OF net_okD(3) [OF ok] t(2) u(1)] .
  have "t \<in> set (ls v)" using clients_okD(5) [OF net_okD(2) [OF ok], of v t] t(3) by simp
  then have "dep_count (seen (ls v) v s) t \<noteq> 0"
    using sync_okD(3) [OF net_okD(4) [OF ok t(2)], of t] t(3) by (simp add: signal_ok_def)
  then have "t \<in> set ds" using ds(2) by (auto simp: dep_count_def count_list_0_iff)
  moreover have "sorted_wrt (\<lambda>x y. rank x < rank y) (ls v)" using rk t(2) by (simp add: ranked_def)
  ultimately have "rank t < rank u" using ds(1) by (simp add: sorted_wrt_append)
  moreover have "u < M" using lists_okD(2) [OF ranked_lists [OF rk] t(2)] ds(1) by auto
  ultimately show ?thesis using signaler_can [OF ok _ _ stuck, of u] u(2) by (auto simp: nt_trigger_free_def)
qed

lemma none_blocked:
  assumes ok: "net_ok W ls s" and rk: "ranked W M rank ls" and stuck: "\<not> Ex (net_step W M ls s)"
  shows "\<not> blocked_at W M s t v"
proof
  assume start: "blocked_at W M s t v"
  define B where "B = {t. \<exists>v. blocked_at W M s t v}"
  have "B \<subseteq> {..<M}" by (auto simp: B_def blocked_at_def)
  then have fin: "finite (rank ` B)" by (intro finite_imageI) (rule finite_subset, auto)
  have "B \<noteq> {}" using start by (auto simp: B_def)
  then have "Max (rank ` B) \<in> rank ` B" using fin by (intro Max_in) auto
  then obtain u where u: "u \<in> B" "rank u = Max (rank ` B)" by (metis imageE)
  then obtain u' where "u' \<in> B" "rank u < rank u'" using blocked_chain [OF ok rk stuck] unfolding B_def by blast
  then show False using u(2) Max_ge [OF fin, of "rank u'"] by simp
qed

lemma view_final:
  assumes ok: "sync_ok s" and reg: "registered ts s" and w: "ss_waiter s = W_Done b"
    and g: "\<And>t. t \<in> set ts \<Longrightarrow> ss_signaler s t = G_Done"
  shows "sync_final ts s"
proof -
  have "ss_signaler s t = G_Done \<or> ss_signaler s t = G_Start" for t
    using g reg unfolding registered_def by blast
  then have none: "ss_signaler s t \<noteq> G_Clients n" "ss_signaler s t \<noteq> G_Signal n" "ss_signaler s t \<noteq> G_Notify n" for t n
    by (metis signal_pc.distinct)+
  have "\<not> sync_step ts s s'" for s'
    by (rule notI, erule sync_step.cases) (use w g none in auto)
  then show ?thesis using done_or_step [OF ok reg w] by blast
qed

lemma net_final_or_step:
  assumes ok: "net_ok W ls s" and rk: "ranked W M rank ls"
  shows "Ex (net_step W M ls s) \<or> net_final W M s"
proof (cases "Ex (net_step W M ls s)")
  case stuck: False
  have sig: "nt_signaler s t = T_Done" if "t < M" for t
    using signaler_can [OF ok that _ stuck] none_blocked [OF ok rk stuck] by blast
  have "\<exists>b. nt_waiter s w = W_Done b" if w: "w < W" for w
  proof (rule ccontr)
    assume "\<nexists>b. nt_waiter s w = W_Done b"
    then obtain t us where t: "nt_waiter s w = W_Register (t # us)" "\<not> nt_trigger_free s t"
      using waiter_can [OF ok w _ stuck] by blast
    obtain ds where "ls w = ds @ t # us" using order_okE [OF net_okD(3) [OF ok] w t(1)] .
    then have "t < M" using lists_okD(2) [OF ranked_lists [OF rk] w] by auto
    then show False using sig t(2) by (simp add: nt_trigger_free_def)
  qed
  then have "sync_final (ls w) (seen (ls w) w s)" if w: "w < W" for w
    using view_final [OF net_okD(4,5) [OF ok w]] sig lists_okD(2) [OF ranked_lists [OF rk] w] w by fastforce
  then have "nt_waiter s w = W_Done True \<and> nt_task s w = SUSPENDED \<and> nt_put s w = 1
        \<or> nt_waiter s w = W_Done False \<and> nt_task s w = RUNNING \<and> nt_put s w = 0" if "w < W" for w
    using that by (simp add: sync_final_def)
  moreover have "nt_signaled s t" if "t < M" for t
    using sig [OF that] clients_okD(1) [OF net_okD(2) [OF ok], of t] by simp
  ultimately show ?thesis using sig by (simp add: net_final_def)
qed blast

lemma net_reachable_final:
  assumes "net_reachable W M ls s" "ranked W M rank ls"
  shows "\<exists>s'. (net_step W M ls)\<^sup>*\<^sup>* s s' \<and> net_final W M s'"
  using assms(1)
proof (induction "net_left W M ls s" arbitrary: s rule: less_induct)
  case less
  note ok = net_reachable_ok [OF less(2) ranked_lists [OF assms(2)]]
  show ?case
  proof (cases "net_final W M s")
    case False
    then obtain s' where s': "net_step W M ls s s'" using net_final_or_step [OF ok assms(2)] by blast
    then have "net_left W M ls s' < net_left W M ls s"
      using net_step_less ok ranked_lists [OF assms(2)] net_step_safe by blast
    moreover have "net_reachable W M ls s'" using s' less(2) by (blast intro: net_reachable.n_step)
    ultimately show ?thesis using less(1) [of s'] s' by (meson converse_rtranclp_into_rtranclp)
  qed blast
qed

section \<open>Properties\<close>

text \<open>
  C13: Waking up does not get stuck for any number of waiting tasks and triggerables, provided all
  tasks list the triggerables they wait for in the order of one common rank: from every reachable
  state all triggerables can finish and every task goes on (it need not wait, or it is woken exactly
  once); a state without steps is such a final one, no assertion fails, and every step takes one
  from a finite number of steps left, so every run that is not cut short ends like this.
\<close>

theorem ranked_waits_live:
  assumes "net_reachable W M ls s" "ranked W M rank ls"
  shows "\<not> nt_failed s \<and> (Ex (net_step W M ls s) \<or> net_final W M s)
    \<and> (\<exists>s'. (net_step W M ls)\<^sup>*\<^sup>* s s' \<and> net_final W M s')
    \<and> (\<forall>s'. net_step W M ls s s' \<longrightarrow> net_left W M ls s' < net_left W M ls s)"
proof -
  note lists = ranked_lists [OF assms(2)]
  note ok = net_reachable_ok [OF assms(1) lists]
  show ?thesis
    using net_okD(1) [OF ok] net_final_or_step [OF ok assms(2)] net_reachable_final [OF assms]
      net_step_less [OF _ ok lists] net_step_safe [OF _ ok lists] by blast
qed

theorem ranked_waits_live_wit:
  "\<exists>s'. (net_step 3 2 (\<lambda>w. if w = 2 then [1] else [0, 1]))\<^sup>*\<^sup>* net_init s' \<and> net_final 3 2 s'"
  using ranked_waits_live [of 3 2 "\<lambda>w. if w = 2 then [1] else [0, 1]" net_init id]
  by (simp add: net_reachable.n_init ranked_def)

text \<open>The state in which two waiters and two signalers hold what the next one needs.\<close>

definition crossed :: "nat \<Rightarrow> nat \<Rightarrow> net \<Rightarrow> bool" where
  "crossed a b s \<longleftrightarrow> nt_waiter s 0 = W_Register [b] \<and> nt_waiter s 1 = W_Register [a]
     \<and> nt_signaler s a = T_Clients [0] \<and> nt_signaler s b = T_Clients [1]"

lemma crossed_stays:
  assumes "net_step W M ls s s'" "crossed a b s"
  shows "crossed a b s'"
  using assms
  by (induction rule: net_step.induct) (auto simp: crossed_def nt_trigger_free_def nt_sync_free_def intro!: gr0I)

lemma crossed_forever: "(net_step W M ls)\<^sup>*\<^sup>* s s' \<Longrightarrow> crossed a b s \<Longrightarrow> crossed a b s'"
  by (induction rule: rtranclp_induct) (auto intro: crossed_stays)

lemma reach_crossed:
  assumes ls: "ls 0 = [a, b]" "ls 1 = [b, a]" "a \<noteq> b" "a < M" "b < M" and W: "2 \<le> W"
  shows "\<exists>s. net_reachable W M ls s \<and> crossed a b s \<and> nt_put s = (\<lambda>_. 0)"
proof -
  note go = net_reachable.n_step [where W = W and M = M and ls = ls]
  note r0 = net_reachable.n_init [of W M ls]
  note r1 = go [OF r0 n_wait_lock [where w = 0]]
  note r2 = go [OF r1 n_sync_lock [where w = 0]]
  note r3 = go [OF r2 n_register [where w = 0 and t = a and us = "[b]"]]
  note r4 = go [OF r3 n_wait_lock [where w = 1]]
  note r5 = go [OF r4 n_sync_lock [where w = 1]]
  note r6 = go [OF r5 n_register [where w = 1 and t = b and us = "[a]"]]
  note r7 = go [OF r6 n_begin [where t = a]]
  note r8 = go [OF r7 n_begin [where t = b]]
  have "0 < W" "1 < W" using W by simp_all
  note eval = net_init_def nt_task_free_def nt_sync_free_def nt_trigger_free_def net_goto signals_to_def
  show ?thesis
    by (rule exI, rule conjI, rule r8) (use ls \<open>0 < W\<close> \<open>1 < W\<close> in \<open>simp_all add: eval crossed_def\<close>)
qed

text \<open>
  C23: Without a common order there is a deadlock. Whatever the other tasks do, when one task waits
  for \<open>a\<close> and \<open>b\<close> and another one for \<open>b\<close> and \<open>a\<close>, a state can be reached from which no run leads on
  for these four: the first task holds its synchronizer and needs \<open>b\<close>'s mutex, the signaler of \<open>b\<close>
  holds that and needs the second task's synchronizer, which needs \<open>a\<close>'s mutex, whose signaler needs
  the first task's synchronizer. Neither task is ever woken.
\<close>

theorem crossed_waits_deadlock:
  assumes "ls 0 = [a, b]" "ls 1 = [b, a]" "a \<noteq> b" "a < M" "b < M" "2 \<le> W"
  shows "\<exists>s. net_reachable W M ls s \<and> (\<forall>s'. (net_step W M ls)\<^sup>*\<^sup>* s s' \<longrightarrow>
    nt_waiter s' 0 = W_Register [b] \<and> nt_signaler s' b = T_Clients [1]
    \<and> nt_waiter s' 1 = W_Register [a] \<and> nt_signaler s' a = T_Clients [0] \<and> \<not> net_final W M s')"
proof -
  obtain s where s: "net_reachable W M ls s" "crossed a b s" using reach_crossed [of ls a b M W] assms by blast
  have "\<not> net_final W M s'" if "crossed a b s'" for s' using that assms(4) by (auto simp: crossed_def net_final_def)
  then show ?thesis using s crossed_forever [of W M ls s _ a b] unfolding crossed_def by blast
qed

theorem crossed_waits_deadlock_wit:
  "\<exists>s. net_reachable 2 2 (\<lambda>w. if w = 0 then [0, 1] else [1, 0]) s \<and> \<not> net_final 2 2 s"
  using crossed_waits_deadlock [of "\<lambda>w. if w = 0 then [0, 1] else [1, 0]" 0 1 2 2] by auto

end
