(* ===== verification/Worker.thy ===== *)
theory Worker
  imports Task_Sync
begin

text \<open>
  \<open>src/src/tasking/worker_thread.cpp\<close> and \<open>src/src/tasking/context.hpp\<close>: the threads that run tasks, and the
  contexts (stacks) they run them on. A task runs on the context its worker was on; when it waits
  or yields, the worker jumps to another context and goes on there, and whichever worker gets the
  task later jumps back. Contexts and tasks are objects named by numbers, workers by their ids.
\<close>

section \<open>State\<close>

text \<open>
  What is saved in a context: nothing but the start of \<open>start_new_context\<close>; a point in the loop of
  that function, where it jumps to the context of a task; a point in \<open>drop_task\<close>, on the stack of
  a task that waits. Or a worker runs on it, or its loop has ended.
\<close>

datatype ctx_state = Ctx_Fresh | Ctx_Loop | Ctx_Dropped | Ctx_Active | Ctx_Exited

text \<open>
  Where a worker is: not started; at the test of the loop; about to get a task; with a task to start
  or go on with; in a task; back in its native context.
\<close>

datatype worker_pc = P_Native | P_Top | P_Get | P_Dispatch | P_Running | P_Exit

text \<open>\<open>wk_places\<close> is the stack of places in the thread storage of the worker (\<open>stackedmalloc.cpp\<close>).\<close>

record 'p worker =
  wk_task :: "nat option"
  wk_waits :: "nat list"
  wk_ctx :: "nat option"
  wk_ready :: "nat list"
  wk_done :: bool
  wk_places :: "'p list"
  wk_pc :: worker_pc

record 'p world =
  wd_workers :: "nat \<Rightarrow> 'p worker"
  wd_tasks :: "nat \<Rightarrow> 'p task_obj"
  wd_task_ctx :: "nat \<Rightarrow> nat option"
  wd_ntasks :: nat
  wd_queue :: "nat list"
  wd_ctxs :: "nat \<Rightarrow> ctx_state"
  wd_nctxs :: nat
  wd_cache :: "nat list"

definition worker_new :: "'p worker" where
  "worker_new = \<lparr>wk_task = None, wk_waits = [], wk_ctx = None, wk_ready = [], wk_done = False, wk_places = [], wk_pc = P_Native\<rparr>"

definition world_init :: "'p world" where
  "world_init = \<lparr>wd_workers = (\<lambda>_. worker_new), wd_tasks = (\<lambda>_. task_new), wd_task_ctx = (\<lambda>_. None), wd_ntasks = 0,
     wd_queue = [], wd_ctxs = (\<lambda>_. Ctx_Fresh), wd_nctxs = 0, wd_cache = []\<rparr>"

abbreviation set_worker :: "nat \<Rightarrow> 'p worker \<Rightarrow> 'p world \<Rightarrow> 'p world" where
  "set_worker w wk s \<equiv> s\<lparr>wd_workers := (wd_workers s)(w := wk)\<rparr>"

abbreviation set_task :: "nat \<Rightarrow> 'p task_obj \<Rightarrow> 'p world \<Rightarrow> 'p world" where
  "set_task t ob s \<equiv> s\<lparr>wd_tasks := (wd_tasks s)(t := ob)\<rparr>"

abbreviation set_ctx :: "nat \<Rightarrow> ctx_state \<Rightarrow> 'p world \<Rightarrow> 'p world" where
  "set_ctx c cs s \<equiv> s\<lparr>wd_ctxs := (wd_ctxs s)(c := cs)\<rparr>"

section \<open>Contexts\<close>

text \<open>\<open>ContextCache\<close>\<close>

definition cache_get :: "'p world \<Rightarrow> nat \<times> 'p world" where
  "cache_get s =
     (if 0 < length (wd_cache s) then (last (wd_cache s), s\<lparr>wd_cache := butlast (wd_cache s)\<rparr>)
      else (wd_nctxs s, s\<lparr>wd_ctxs := (wd_ctxs s)(wd_nctxs s := Ctx_Fresh), wd_nctxs := wd_nctxs s + 1\<rparr>))"

definition cache_store :: "nat \<Rightarrow> 'p world \<Rightarrow> 'p world" where
  "cache_store c s = s\<lparr>wd_cache := wd_cache s @ [c]\<rparr>"

definition get_neutral_context :: "nat \<Rightarrow> 'p world \<Rightarrow> nat \<times> 'p world" where
  "get_neutral_context w s =
     (let wk = wd_workers s w
      in if wk_ready wk \<noteq> [] then (last (wk_ready wk), set_worker w (wk\<lparr>wk_ready := butlast (wk_ready wk)\<rparr>) s)
         else cache_get s)"

definition put_neutral_context :: "nat \<Rightarrow> 'p worker \<Rightarrow> 'p worker" where
  "put_neutral_context c wk = wk\<lparr>wk_ready := wk_ready wk @ [c]\<rparr>"

text \<open>
  A jump to a context in which the loop starts or goes on, and a jump to the context of a waiting task.
  Jumping to any other context would continue at a wrong place: \<open>None\<close>.
\<close>

definition enter_loop :: "nat \<Rightarrow> 'p world \<Rightarrow> 'p world option" where
  "enter_loop c s = (if wd_ctxs s c = Ctx_Fresh \<or> wd_ctxs s c = Ctx_Loop then Some (set_ctx c Ctx_Active s) else None)"

definition enter_task :: "nat \<Rightarrow> 'p world \<Rightarrow> 'p world option" where
  "enter_task c s = (if wd_ctxs s c = Ctx_Dropped then Some (set_ctx c Ctx_Active s) else None)"

section \<open>The worker\<close>

text \<open>
  The operations return \<open>None\<close> where an assertion fails or a jump goes wrong. \<open>run\<close> goes to the first
  context; \<open>exit_loop\<close> is the jump back at the end of \<open>start_new_context\<close>.
\<close>

definition worker_run :: "nat \<Rightarrow> 'p world \<Rightarrow> 'p world option" where
  "worker_run w s =
     (let (c, s) = get_neutral_context w s
      in do {
        s \<leftarrow> enter_loop c s;
        Some (set_worker w ((wd_workers s w)\<lparr>wk_ctx := Some c, wk_pc := P_Top\<rparr>) s) })"

definition exit_loop :: "nat \<Rightarrow> 'p world \<Rightarrow> 'p world option" where
  "exit_loop w s = do {
     c \<leftarrow> wk_ctx (wd_workers s w);
     Some (set_worker w ((wd_workers s w)\<lparr>wk_pc := P_Exit\<rparr>) (set_ctx c Ctx_Exited s)) }"

text \<open>
  The loop up to the choice of a task: the current task, if there is one, has been interrupted. It
  yields if it waits for nothing; \<open>waiting\<close> is the result of its \<open>synchronize\<close> otherwise.
\<close>

definition loop_top :: "nat \<Rightarrow> bool \<Rightarrow> 'p world \<Rightarrow> 'p world option" where
  "loop_top w waiting s =
     (let wk = wd_workers s w
      in if wk_done wk then exit_loop w s
         else case wk_task wk of
           None \<Rightarrow> Some (set_worker w (wk\<lparr>wk_pc := P_Get\<rparr>) s)
         | Some t \<Rightarrow>
             if wk_waits wk = [] then do {
               ob \<leftarrow> task_yield (wk_places wk) (wd_tasks s t);
               Some ((set_task t ob (set_worker w (wk\<lparr>wk_task := None, wk_places := [], wk_pc := P_Get\<rparr>) s))
                 \<lparr>wd_queue := wd_queue s @ [t]\<rparr>) }
             else do {
               (left, ob) \<leftarrow> task_wait waiting (wk_places wk) (wd_tasks s t);
               let wk = wk\<lparr>wk_waits := [], wk_places := if waiting then [] else wk_places wk\<rparr>;
               Some (set_task t ob (set_worker w
                 (if left then wk\<lparr>wk_task := None, wk_pc := P_Get\<rparr> else wk\<lparr>wk_pc := P_Dispatch\<rparr>) s)) })"

text \<open>\<open>get_new_task\<close>: one of the queued tasks, or none while there is none, or the end.\<close>

definition get_new_task :: "nat \<Rightarrow> nat \<Rightarrow> 'p world \<Rightarrow> 'p world option" where
  "get_new_task w i s =
     (let wk = wd_workers s w
      in if wk_done wk then exit_loop w s
         else if i < length (wd_queue s) then
           Some ((set_worker w (wk\<lparr>wk_task := Some (wd_queue s ! i), wk_pc := P_Dispatch\<rparr>) s)
             \<lparr>wd_queue := take i (wd_queue s) @ drop (Suc i) (wd_queue s)\<rparr>)
         else Some s)"

text \<open>
  The last part of the loop: a new task is run on the current context; for another the worker jumps
  to its context, and there, at the end of \<open>drop_task\<close>, keeps the context it came from.
\<close>

definition dispatch :: "nat \<Rightarrow> 'p world \<Rightarrow> 'p world option" where
  "dispatch w s =
     (let wk = wd_workers s w
      in do {
        t \<leftarrow> wk_task wk;
        c \<leftarrow> wk_ctx wk;
        let started = has_started (to_flags (wd_tasks s t));
        (places, ob) \<leftarrow> task_schedule w (wd_tasks s t);
        let wk = wk\<lparr>wk_places := wk_places wk @ places\<rparr>;
        if \<not> started then do {
          ob \<leftarrow> task_run ob;
          Some ((set_task t ob (set_worker w (wk\<lparr>wk_pc := P_Running\<rparr>) s))
            \<lparr>wd_task_ctx := (wd_task_ctx s)(t := Some c)\<rparr>) }
        else do {
          new \<leftarrow> wd_task_ctx s t;
          s \<leftarrow> enter_task new (set_ctx c Ctx_Loop s);
          if c = new then None
          else Some (set_task t ob (set_worker w ((put_neutral_context c wk)\<lparr>wk_ctx := Some new, wk_pc := P_Running\<rparr>) s)) } })"

text \<open>
  The task ends: \<open>run\<close> returns the home thread of the task, as which the loop goes on.
\<close>

definition task_returns :: "nat \<Rightarrow> 'p world \<Rightarrow> 'p world option" where
  "task_returns w s =
     (let wk = wd_workers s w
      in do {
        t \<leftarrow> wk_task wk;
        ob \<leftarrow> task_done (wd_tasks s t);
        if to_home ob \<noteq> Some w \<or> wd_task_ctx s t \<noteq> wk_ctx wk then None
        else Some (set_task t ob (set_worker w (wk\<lparr>wk_task := None, wk_places := [], wk_pc := P_Top\<rparr>) s)) })"

text \<open>
  \<open>curr_task_wait\<close> and the first half of \<open>drop_task\<close>: the current point is saved in the context of the
  task, which must be the one the worker is on.
\<close>

definition curr_task_wait :: "nat \<Rightarrow> nat list \<Rightarrow> 'p world \<Rightarrow> 'p world option" where
  "curr_task_wait w refs s =
     (let wk = wd_workers s w
      in do {
        t \<leftarrow> wk_task wk;
        own \<leftarrow> wd_task_ctx s t;
        if \<not> has_started (to_flags (wd_tasks s t)) \<or> wk_ctx wk \<noteq> Some own then None
        else
          let (c, s) = get_neutral_context w (set_worker w (wk\<lparr>wk_waits := refs\<rparr>) s)
          in do {
            s \<leftarrow> enter_loop c (set_ctx own Ctx_Dropped s);
            Some (set_worker w ((wd_workers s w)\<lparr>wk_ctx := Some c, wk_pc := P_Top\<rparr>) s) } })"

text \<open>\<open>~WorkerThread\<close>\<close>

definition worker_delete :: "nat \<Rightarrow> 'p world \<Rightarrow> 'p world" where
  "worker_delete w s =
     set_worker w ((wd_workers s w)\<lparr>wk_ready := []\<rparr>) (fold cache_store (wk_ready (wd_workers s w)) s)"

section \<open>Runs\<close>

text \<open>
  What happens, in the order in which it happens: a worker runs on, its task ends, waits or
  changes its places; a worker is stopped or deleted; a task is created, or woken by what it
  waits for. What cannot happen in a state does not change it.
\<close>

datatype 'p event = Run nat | Loop nat bool | Get nat nat | Dispatch nat | Return nat | Wait nat "nat list"
  | Places nat "'p list" | Shutdown nat | Delete nat | Spawn | Wake nat

fun worker_event :: "'p event \<Rightarrow> 'p world \<Rightarrow> 'p world option" where
  "worker_event (Run w) s = (if wk_pc (wd_workers s w) = P_Native then worker_run w s else Some s)"
| "worker_event (Loop w waiting) s = (if wk_pc (wd_workers s w) = P_Top then loop_top w waiting s else Some s)"
| "worker_event (Get w i) s = (if wk_pc (wd_workers s w) = P_Get then get_new_task w i s else Some s)"
| "worker_event (Dispatch w) s = (if wk_pc (wd_workers s w) = P_Dispatch then dispatch w s else Some s)"
| "worker_event (Return w) s = (if wk_pc (wd_workers s w) = P_Running then task_returns w s else Some s)"
| "worker_event (Wait w refs) s = (if wk_pc (wd_workers s w) = P_Running then curr_task_wait w refs s else Some s)"
| "worker_event (Places w ps) s =
     (if wk_pc (wd_workers s w) = P_Running then Some (set_worker w ((wd_workers s w)\<lparr>wk_places := ps\<rparr>) s) else Some s)"
| "worker_event (Shutdown w) s = Some (set_worker w ((wd_workers s w)\<lparr>wk_done := True\<rparr>) s)"
| "worker_event (Delete w) s = (if wk_pc (wd_workers s w) = P_Exit then Some (worker_delete w s) else Some s)"
| "worker_event Spawn s =
     Some (s\<lparr>wd_tasks := (wd_tasks s)(wd_ntasks s := task_new), wd_task_ctx := (wd_task_ctx s)(wd_ntasks s := None),
       wd_ntasks := wd_ntasks s + 1, wd_queue := wd_queue s @ [wd_ntasks s]\<rparr>)"
| "worker_event (Wake t) s =
     (if t < wd_ntasks s \<and> task_state (to_flags (wd_tasks s t)) = WAITING
      then do { (th, ob) \<leftarrow> task_notify (wd_tasks s t); Some ((set_task t ob s)\<lparr>wd_queue := wd_queue s @ [t]\<rparr>) }
      else Some s)"

fun run_events :: "'p event list \<Rightarrow> 'p world \<Rightarrow> 'p world option" where
  "run_events [] s = Some s"
| "run_events (e # es) s = do { s \<leftarrow> worker_event e s; run_events es s }"

end
