(* ===== verification/Worker_Props.thy ===== *)
theory Worker_Props
  imports Worker
begin

text \<open>
  No assertion of the tasking core fails and no worker ever jumps to a context that another one runs
  on or that is not where the jump expects it, whatever the order of events; and a task that waits
  or yields on a worker that has been told to stop is lost.
\<close>

section \<open>Flags\<close>

lemmas state_defs = READY_def RUNNING_def WAITING_def SUSPENDED_def COMPLETED_def

lemma or_and_mask:
  "(st OR (fl AND m)) AND k = (st AND k) OR (fl AND (m AND k))"
  "(fl OR k) AND NOT m = (fl AND NOT m) OR (k AND NOT m)" for st fl m k :: u16
  by (rule bit_word_eqI, auto simp: bit_simps)+

lemma task_state_set [simp]:
  "task_state (set_state READY fl) = READY" "task_state (set_state RUNNING fl) = RUNNING"
  "task_state (set_state WAITING fl) = WAITING" "task_state (set_state SUSPENDED fl) = SUSPENDED"
  "task_state (set_state COMPLETED fl) = COMPLETED"
  by (simp_all add: task_state_def set_state_def or_and_mask state_defs FLAG_MASK_def)

lemma flags_set [simp]:
  "has_started (set_state RUNNING fl) = has_started fl" "get_keep_thread (set_state RUNNING fl) = get_keep_thread fl"
  "has_started (set_state WAITING fl) = has_started fl" "get_keep_thread (set_state WAITING fl) = get_keep_thread fl"
  "has_started (set_state SUSPENDED fl) = has_started fl" "get_keep_thread (set_state SUSPENDED fl) = get_keep_thread fl"
  "has_started (set_state COMPLETED fl) = has_started fl" "get_keep_thread (set_state COMPLETED fl) = get_keep_thread fl"
  by (simp_all add: has_started_def get_keep_thread_def set_state_def or_and_mask state_defs FLAG_MASK_def HAS_STARTED_def KEEP_THREAD_def)

lemma flags_started [simp]:
  "has_started (fl OR HAS_STARTED)" "task_state (fl OR HAS_STARTED) = task_state fl"
  "get_keep_thread (fl OR HAS_STARTED) = get_keep_thread fl"
proof -
  have "(fl OR HAS_STARTED) AND HAS_STARTED = HAS_STARTED" by (rule bit_word_eqI) (auto simp: bit_simps)
  then show "has_started (fl OR HAS_STARTED)" by (simp add: has_started_def HAS_STARTED_def)
  show "task_state (fl OR HAS_STARTED) = task_state fl" 
    unfolding task_state_def or_and_mask by (simp add: FLAG_MASK_def HAS_STARTED_def)
  have "(fl OR HAS_STARTED) AND KEEP_THREAD = fl AND KEEP_THREAD"
    using or_and_mask(1) [of HAS_STARTED fl "- 1" KEEP_THREAD] by (simp add: or.commute HAS_STARTED_def KEEP_THREAD_def)
  then show "get_keep_thread (fl OR HAS_STARTED) = get_keep_thread fl" by (simp add: get_keep_thread_def)
qed

lemma task_new_flags [simp]:
  "to_flags task_new = READY OR KEEP_SCHEDULER" "task_state (READY OR KEEP_SCHEDULER) = READY"
  "\<not> has_started (READY OR KEEP_SCHEDULER)" "\<not> get_keep_thread (READY OR KEEP_SCHEDULER)"
  by (simp_all add: task_new_def task_state_def has_started_def get_keep_thread_def READY_def KEEP_SCHEDULER_def FLAG_MASK_def
      HAS_STARTED_def KEEP_THREAD_def)

lemma states_distinct [simp]:
  "READY \<noteq> RUNNING" "READY \<noteq> WAITING" "READY \<noteq> SUSPENDED" "READY \<noteq> COMPLETED"
  "RUNNING \<noteq> READY" "RUNNING \<noteq> WAITING" "RUNNING \<noteq> SUSPENDED" "RUNNING \<noteq> COMPLETED"
  "WAITING \<noteq> READY" "WAITING \<noteq> RUNNING" "WAITING \<noteq> SUSPENDED" "WAITING \<noteq> COMPLETED"
  "SUSPENDED \<noteq> READY" "SUSPENDED \<noteq> RUNNING" "SUSPENDED \<noteq> WAITING" "SUSPENDED \<noteq> COMPLETED"
  "COMPLETED \<noteq> READY" "COMPLETED \<noteq> RUNNING" "COMPLETED \<noteq> WAITING" "COMPLETED \<noteq> SUSPENDED"
  by (simp_all add: state_defs)

section \<open>The invariant\<close>

definition active :: "'p worker \<Rightarrow> bool" where
  "active wk \<longleftrightarrow> wk_pc wk \<noteq> P_Native \<and> wk_pc wk \<noteq> P_Exit"

abbreviation state_of :: "'p world \<Rightarrow> nat \<Rightarrow> u16" where "state_of s t \<equiv> task_state (to_flags (wd_tasks s t))"
abbreviation started :: "'p world \<Rightarrow> nat \<Rightarrow> bool" where "started s t \<equiv> has_started (to_flags (wd_tasks s t))"

definition queued_ok :: "'p world \<Rightarrow> bool" where
  "queued_ok s \<longleftrightarrow> distinct (wd_queue s)
     \<and> (\<forall>t\<in>set (wd_queue s). t < wd_ntasks s \<and> (state_of s t = READY \<or> state_of s t = SUSPENDED) \<and> (\<forall>w. wk_task (wd_workers s w) \<noteq> Some t))"

definition pc_ok :: "'p world \<Rightarrow> nat \<Rightarrow> bool" where
  "pc_ok s w \<longleftrightarrow> (let wk = wd_workers s w in
     case wk_pc wk of
       P_Native \<Rightarrow> wk_task wk = None
     | P_Top \<Rightarrow> (\<forall>t. wk_task wk = Some t \<longrightarrow> state_of s t = RUNNING \<and> started s t)
     | P_Get \<Rightarrow> wk_task wk = None
     | P_Dispatch \<Rightarrow> (\<exists>t. wk_task wk = Some t \<and> state_of s t \<in> {READY, SUSPENDED, RUNNING})
     | P_Running \<Rightarrow> (\<exists>t. wk_task wk = Some t \<and> state_of s t = RUNNING \<and> started s t \<and> to_home (wd_tasks s t) = Some w
                       \<and> wd_task_ctx s t = wk_ctx wk)
     | P_Exit \<Rightarrow> (\<forall>t. wk_task wk = Some t \<longrightarrow> state_of s t = RUNNING \<and> started s t))"

definition tasks_ok :: "'p world \<Rightarrow> bool" where
  "tasks_ok s \<longleftrightarrow> (\<forall>t. \<not> get_keep_thread (to_flags (wd_tasks s t)))
     \<and> (\<forall>w t. wk_task (wd_workers s w) = Some t \<longrightarrow> t < wd_ntasks s)
     \<and> (\<forall>v w t. wk_task (wd_workers s v) = Some t \<and> wk_task (wd_workers s w) = Some t \<longrightarrow> v = w)"

definition running :: "'p world \<Rightarrow> nat \<Rightarrow> bool" where
  "running s t \<longleftrightarrow> (\<exists>w. wk_pc (wd_workers s w) = P_Running \<and> wk_task (wd_workers s w) = Some t)"

definition live :: "'p world \<Rightarrow> nat \<Rightarrow> bool" where
  "live s t \<longleftrightarrow> t < wd_ntasks s \<and> started s t \<and> state_of s t \<noteq> COMPLETED"

definition idle_ctx :: "'p world \<Rightarrow> nat \<Rightarrow> bool" where
  "idle_ctx s c \<longleftrightarrow> c < wd_nctxs s \<and> (wd_ctxs s c = Ctx_Fresh \<or> wd_ctxs s c = Ctx_Loop)"

definition idle_ok :: "'p world \<Rightarrow> bool" where
  "idle_ok s \<longleftrightarrow> distinct (wd_cache s) \<and> (\<forall>c\<in>set (wd_cache s). idle_ctx s c)
     \<and> (\<forall>w. distinct (wk_ready (wd_workers s w)) \<and> (\<forall>c\<in>set (wk_ready (wd_workers s w)). idle_ctx s c \<and> c \<notin> set (wd_cache s)))
     \<and> (\<forall>v w c. c \<in> set (wk_ready (wd_workers s v)) \<and> c \<in> set (wk_ready (wd_workers s w)) \<longrightarrow> v = w)"

definition ctxs_ok :: "'p world \<Rightarrow> bool" where
  "ctxs_ok s \<longleftrightarrow> (\<forall>w. active (wd_workers s w) \<longrightarrow> (\<exists>c < wd_nctxs s. wk_ctx (wd_workers s w) = Some c \<and> wd_ctxs s c = Ctx_Active))
     \<and> (\<forall>v w. active (wd_workers s v) \<and> active (wd_workers s w) \<and> wk_ctx (wd_workers s v) = wk_ctx (wd_workers s w) \<longrightarrow> v = w)
     \<and> (\<forall>t. live s t \<and> \<not> running s t \<longrightarrow> (\<exists>c < wd_nctxs s. wd_task_ctx s t = Some c \<and> wd_ctxs s c = Ctx_Dropped))
     \<and> (\<forall>t u. live s t \<and> live s u \<and> \<not> running s t \<and> \<not> running s u \<and> wd_task_ctx s t = wd_task_ctx s u \<longrightarrow> t = u)"

definition world_ok :: "'p world \<Rightarrow> bool" where
  "world_ok s \<longleftrightarrow> queued_ok s \<and> tasks_ok s \<and> (\<forall>w. pc_ok s w) \<and> idle_ok s \<and> ctxs_ok s"

lemma world_init_ok: "world_ok world_init"
  by (simp add: world_ok_def world_init_def queued_ok_def tasks_ok_def pc_ok_def idle_ok_def ctxs_ok_def worker_new_def active_def
      live_def running_def)

section \<open>Neutral contexts\<close>

definition same_tasks :: "'p world \<Rightarrow> 'p world \<Rightarrow> bool" where
  "same_tasks s s' \<longleftrightarrow> wd_tasks s' = wd_tasks s \<and> wd_task_ctx s' = wd_task_ctx s \<and> wd_ntasks s' = wd_ntasks s \<and> wd_queue s' = wd_queue s
     \<and> (\<forall>w. (wd_workers s' w)\<lparr>wk_ready := []\<rparr> = (wd_workers s w)\<lparr>wk_ready := []\<rparr>)
     \<and> wd_nctxs s \<le> wd_nctxs s' \<and> (\<forall>c < wd_nctxs s. wd_ctxs s' c = wd_ctxs s c)"

definition spare :: "'p world \<Rightarrow> nat \<Rightarrow> bool" where
  "spare s c \<longleftrightarrow> c \<notin> set (wd_cache s) \<and> (\<forall>w. c \<notin> set (wk_ready (wd_workers s w)))"

lemma idle_okD:
  assumes "idle_ok s"
  shows "distinct (wd_cache s)" "c \<in> set (wd_cache s) \<Longrightarrow> idle_ctx s c" "distinct (wk_ready (wd_workers s w))"
    "c \<in> set (wk_ready (wd_workers s w)) \<Longrightarrow> idle_ctx s c" "c \<in> set (wk_ready (wd_workers s w)) \<Longrightarrow> c \<notin> set (wd_cache s)"
    "c \<in> set (wk_ready (wd_workers s v)) \<Longrightarrow> c \<in> set (wk_ready (wd_workers s w)) \<Longrightarrow> v = w"
  using assms unfolding idle_ok_def by blast+

lemma idle_okI:
  assumes "distinct (wd_cache s)" "\<And>c. c \<in> set (wd_cache s) \<Longrightarrow> idle_ctx s c" "\<And>w. distinct (wk_ready (wd_workers s w))"
    "\<And>c w. c \<in> set (wk_ready (wd_workers s w)) \<Longrightarrow> idle_ctx s c \<and> c \<notin> set (wd_cache s)"
    "\<And>c v w. c \<in> set (wk_ready (wd_workers s v)) \<Longrightarrow> c \<in> set (wk_ready (wd_workers s w)) \<Longrightarrow> v = w"
  shows "idle_ok s"
  unfolding idle_ok_def using assms by blast

text \<open>A context is taken from a list of a state whose other contexts stay where they are.\<close>

lemma idle_ok_shrink:
  assumes "idle_ok s" "distinct (wd_cache s')" "set (wd_cache s') \<subseteq> set (wd_cache s)"
    and "\<And>w. distinct (wk_ready (wd_workers s' w)) \<and> set (wk_ready (wd_workers s' w)) \<subseteq> set (wk_ready (wd_workers s w))"
    and "\<And>c. idle_ctx s c \<Longrightarrow> idle_ctx s' c"
  shows "idle_ok s'"
proof (rule idle_okI)
  show "v = w" if "c \<in> set (wk_ready (wd_workers s' v))" "c \<in> set (wk_ready (wd_workers s' w))" for c v w
    using that assms(4) [of v] assms(4) [of w] idle_okD(6) [OF assms(1), of c v w] by blast
  show "idle_ctx s' c \<and> c \<notin> set (wd_cache s')" if "c \<in> set (wk_ready (wd_workers s' w))" for c w
    using that assms(3) assms(4) [of w] assms(5) idle_okD(4,5) [OF assms(1), of c w] by blast
  show "idle_ctx s' c" if "c \<in> set (wd_cache s')" for c
    using that assms(3,5) idle_okD(2) [OF assms(1), of c] by blast
qed (use assms(2,4) in blast)+

lemma get_neutral_context_spec:
  assumes "idle_ok s" "get_neutral_context w s = (c, s')"
  shows "idle_ok s'" "idle_ctx s' c" "spare s' c" "same_tasks s s'"
proof -
  let ?wk = "wd_workers s w"
  consider (ready) cs c' where "wk_ready ?wk = cs @ [c']" | (cache) cs c' where "wk_ready ?wk = []" "wd_cache s = cs @ [c']"
    | (new) "wk_ready ?wk = []" "wd_cache s = []"
    by (metis rev_exhaust)
  then have "idle_ok s' \<and> idle_ctx s' c \<and> spare s' c \<and> same_tasks s s'"
  proof cases
    case ready
    have s': "c = c'" "s' = set_worker w (?wk\<lparr>wk_ready := cs\<rparr>) s"
      using assms(2) ready by (simp_all add: get_neutral_context_def Let_def)
    have d: "distinct (cs @ [c'])" using idle_okD(3) [OF assms(1), of w] ready by simp
    have c: "c' \<in> set (wk_ready ?wk)" using ready by simp
    have "idle_ok s'" by (rule idle_ok_shrink [OF assms(1)])
      (use idle_okD(1,3) [OF assms(1)] d ready in \<open>auto simp: s'(2) idle_ctx_def\<close>)
    moreover have "idle_ctx s' c" using idle_okD(4) [OF assms(1) c] by (simp add: s' idle_ctx_def)
    moreover have "spare s' c"
      using idle_okD(5) [OF assms(1) c] idle_okD(6) [OF assms(1) c] d by (auto simp: s' spare_def)
    moreover have "same_tasks s s'" using s'(2) by (simp add: same_tasks_def)
    ultimately show ?thesis by simp
  next
    case cache
    have s': "c = c'" "s' = s\<lparr>wd_cache := cs\<rparr>"
      using assms(2) cache by (simp_all add: get_neutral_context_def cache_get_def Let_def)
    have d: "distinct (cs @ [c'])" using idle_okD(1) [OF assms(1)] cache by simp
    have c: "c' \<in> set (wd_cache s)" using cache by simp
    have "idle_ok s'" by (rule idle_ok_shrink [OF assms(1)])
      (use idle_okD(3) [OF assms(1)] d cache in \<open>auto simp: s'(2) idle_ctx_def\<close>)
    moreover have "idle_ctx s' c" using idle_okD(2) [OF assms(1) c] by (simp add: s' idle_ctx_def)
    moreover have "spare s' c" using idle_okD(5) [OF assms(1)] c d by (auto simp: s' spare_def)
    moreover have "same_tasks s s'" using s'(2) by (simp add: same_tasks_def)
    ultimately show ?thesis by simp
  next
    case new
    have s': "c = wd_nctxs s" "s' = s\<lparr>wd_ctxs := (wd_ctxs s)(wd_nctxs s := Ctx_Fresh), wd_nctxs := wd_nctxs s + 1\<rparr>"
      using assms(2) new by (auto simp: get_neutral_context_def cache_get_def Let_def)
    have "idle_ok s'" by (rule idle_ok_shrink [OF assms(1)])
      (use idle_okD(1,3) [OF assms(1)] in \<open>auto simp: s'(2) idle_ctx_def\<close>)
    moreover have "idle_ctx s' c" by (simp add: s' idle_ctx_def)
    moreover have "spare s' c" using idle_okD(2,4) [OF assms(1)] by (fastforce simp: s' spare_def idle_ctx_def)
    moreover have "same_tasks s s'" using s'(2) by (simp add: same_tasks_def)
    ultimately show ?thesis by simp
  qed
  then show "idle_ok s'" "idle_ctx s' c" "spare s' c" "same_tasks s s'" by simp_all
qed

lemma same_tasks_fields:
  assumes "same_tasks s s'"
  shows "wd_tasks s' = wd_tasks s" "wd_task_ctx s' = wd_task_ctx s" "wd_ntasks s' = wd_ntasks s" "wd_queue s' = wd_queue s"
    "wk_task (wd_workers s' w) = wk_task (wd_workers s w)" "wk_ctx (wd_workers s' w) = wk_ctx (wd_workers s w)"
    "wk_pc (wd_workers s' w) = wk_pc (wd_workers s w)" "wk_waits (wd_workers s' w) = wk_waits (wd_workers s w)"
    "wd_nctxs s \<le> wd_nctxs s'" "c < wd_nctxs s \<Longrightarrow> wd_ctxs s' c = wd_ctxs s c"
    "wk_done (wd_workers s' w) = wk_done (wd_workers s w)"
proof -
  have eq: "(wd_workers s' w)\<lparr>wk_ready := []\<rparr> = (wd_workers s w)\<lparr>wk_ready := []\<rparr>" using assms by (simp add: same_tasks_def)
  show "wk_task (wd_workers s' w) = wk_task (wd_workers s w)" using arg_cong [OF eq, of wk_task] by simp
  show "wk_ctx (wd_workers s' w) = wk_ctx (wd_workers s w)" using arg_cong [OF eq, of wk_ctx] by simp
  show "wk_pc (wd_workers s' w) = wk_pc (wd_workers s w)" using arg_cong [OF eq, of wk_pc] by simp
  show "wk_done (wd_workers s' w) = wk_done (wd_workers s w)" using arg_cong [OF eq, of wk_done] by simp
  show "wk_waits (wd_workers s' w) = wk_waits (wd_workers s w)" using arg_cong [OF eq, of wk_waits] by simp
qed (use assms in \<open>simp_all add: same_tasks_def\<close>)

section \<open>Each step keeps the invariant\<close>

lemma world_okD:
  assumes "world_ok s"
  shows "queued_ok s" "tasks_ok s" "pc_ok s w" "idle_ok s" "ctxs_ok s"
  using assms by (simp_all add: world_ok_def)

lemma ctxs_okD:
  assumes "ctxs_ok s"
  shows "active (wd_workers s w) \<Longrightarrow> \<exists>c < wd_nctxs s. wk_ctx (wd_workers s w) = Some c \<and> wd_ctxs s c = Ctx_Active"
    "active (wd_workers s v) \<Longrightarrow> active (wd_workers s w) \<Longrightarrow> wk_ctx (wd_workers s v) = wk_ctx (wd_workers s w) \<Longrightarrow> v = w"
    "live s t \<Longrightarrow> \<not> running s t \<Longrightarrow> \<exists>c < wd_nctxs s. wd_task_ctx s t = Some c \<and> wd_ctxs s c = Ctx_Dropped"
    "live s t \<Longrightarrow> live s u \<Longrightarrow> \<not> running s t \<Longrightarrow> \<not> running s u \<Longrightarrow> wd_task_ctx s t = wd_task_ctx s u \<Longrightarrow> t = u"
  using assms unfolding ctxs_ok_def by blast+

lemma tasks_okD:
  assumes "tasks_ok s"
  shows "\<not> get_keep_thread (to_flags (wd_tasks s t))" "wk_task (wd_workers s w) = Some t \<Longrightarrow> t < wd_ntasks s"
    "wk_task (wd_workers s v) = Some t \<Longrightarrow> wk_task (wd_workers s w) = Some t \<Longrightarrow> v = w"
  using assms unfolding tasks_ok_def by blast+

lemma queued_okD:
  assumes "queued_ok s"
  shows "distinct (wd_queue s)" "t \<in> set (wd_queue s) \<Longrightarrow> t < wd_ntasks s"
    "t \<in> set (wd_queue s) \<Longrightarrow> state_of s t = READY \<or> state_of s t = SUSPENDED"
    "t \<in> set (wd_queue s) \<Longrightarrow> wk_task (wd_workers s w) \<noteq> Some t"
  using assms unfolding queued_ok_def by blast+

text \<open>A worker goes on in a spare context, and nothing else changes but what it has left.\<close>

lemma enter_loop_spec:
  assumes "idle_ok s" "idle_ctx s c" "spare s c"
  shows "enter_loop c s = Some (set_ctx c Ctx_Active s)" "idle_ok (set_ctx c Ctx_Active s)"
proof -
  show "enter_loop c s = Some (set_ctx c Ctx_Active s)" using assms(2) by (auto simp: enter_loop_def idle_ctx_def)
  show "idle_ok (set_ctx c Ctx_Active s)"
  proof (rule idle_okI)
    show "idle_ctx (set_ctx c Ctx_Active s) d" if "d \<in> set (wd_cache (set_ctx c Ctx_Active s))" for d
      using that assms(3) idle_okD(2) [OF assms(1), of d] by (auto simp: spare_def idle_ctx_def)
    show "idle_ctx (set_ctx c Ctx_Active s) d \<and> d \<notin> set (wd_cache (set_ctx c Ctx_Active s))"
      if "d \<in> set (wk_ready (wd_workers (set_ctx c Ctx_Active s) w))" for d w
      using that assms(3) idle_okD(4,5) [OF assms(1), of d w] by (auto simp: spare_def idle_ctx_def)
  qed (use idle_okD(1,3,6) [OF assms(1)] in auto)
qed

lemma idle_ok_cong:
  assumes "idle_ok s" "wd_cache s' = wd_cache s" "\<And>w. wk_ready (wd_workers s' w) = wk_ready (wd_workers s w)"
    and "\<And>c. idle_ctx s c \<Longrightarrow> idle_ctx s' c"
  shows "idle_ok s'"
  by (rule idle_ok_shrink [OF assms(1)]) (use assms idle_okD(1,3) [OF assms(1)] in simp_all)

lemma ctxs_okI:
  assumes "\<And>w. active (wd_workers s w) \<Longrightarrow> \<exists>c < wd_nctxs s. wk_ctx (wd_workers s w) = Some c \<and> wd_ctxs s c = Ctx_Active"
    and "\<And>v w. active (wd_workers s v) \<Longrightarrow> active (wd_workers s w) \<Longrightarrow> wk_ctx (wd_workers s v) = wk_ctx (wd_workers s w) \<Longrightarrow> v = w"
    and "\<And>t. live s t \<Longrightarrow> \<not> running s t \<Longrightarrow> \<exists>c < wd_nctxs s. wd_task_ctx s t = Some c \<and> wd_ctxs s c = Ctx_Dropped"
    and "\<And>t u. live s t \<Longrightarrow> live s u \<Longrightarrow> \<not> running s t \<Longrightarrow> \<not> running s u \<Longrightarrow> wd_task_ctx s t = wd_task_ctx s u \<Longrightarrow> t = u"
  shows "ctxs_ok s"
  unfolding ctxs_ok_def using assms by blast

text \<open>Changes that do not matter for the contexts in use.\<close>

lemma ctxs_ok_cong:
  assumes "ctxs_ok s" "wd_nctxs s \<le> wd_nctxs s'"
    and "\<And>c. c < wd_nctxs s \<Longrightarrow> wd_ctxs s c = Ctx_Active \<or> wd_ctxs s c = Ctx_Dropped \<Longrightarrow> wd_ctxs s' c = wd_ctxs s c"
    and "\<And>w. active (wd_workers s' w) \<Longrightarrow> active (wd_workers s w) \<and> wk_ctx (wd_workers s' w) = wk_ctx (wd_workers s w)"
    and "\<And>t. live s' t \<Longrightarrow> \<not> running s' t \<Longrightarrow> live s t \<and> \<not> running s t \<and> wd_task_ctx s' t = wd_task_ctx s t"
  shows "ctxs_ok s'"
proof (rule ctxs_okI)
  note ok = ctxs_okD [OF assms(1)]
  show "\<exists>c < wd_nctxs s'. wk_ctx (wd_workers s' w) = Some c \<and> wd_ctxs s' c = Ctx_Active" if "active (wd_workers s' w)" for w
  proof -
    note act = that
    obtain c where "c < wd_nctxs s" "wk_ctx (wd_workers s w) = Some c" "wd_ctxs s c = Ctx_Active"
      using ok(1) [of w] assms(4) [OF act] by blast
    then show ?thesis using assms(2) assms(3) [of c] assms(4) [OF act] by (intro exI [of _ c]) simp
  qed
  show "v = w" if "active (wd_workers s' v)" "active (wd_workers s' w)" "wk_ctx (wd_workers s' v) = wk_ctx (wd_workers s' w)" for v w
    using ok(2) [of v w] assms(4) [OF that(1)] assms(4) [OF that(2)] that(3) by simp
  show "\<exists>c < wd_nctxs s'. wd_task_ctx s' t = Some c \<and> wd_ctxs s' c = Ctx_Dropped" if "live s' t" "\<not> running s' t" for t
  proof -
    note lv = that
    obtain c where "c < wd_nctxs s" "wd_task_ctx s t = Some c" "wd_ctxs s c = Ctx_Dropped"
      using ok(3) [of t] assms(5) [OF lv] by blast
    then show ?thesis using assms(2) assms(3) [of c] assms(5) [OF lv] by (intro exI [of _ c]) simp
  qed
  show "t = u" if "live s' t" "live s' u" "\<not> running s' t" "\<not> running s' u" "wd_task_ctx s' t = wd_task_ctx s' u" for t u
    using ok(4) [of t u] assms(5) [of t] assms(5) [of u] that by simp
qed

lemma same_ctxs_ok:
  assumes "same_tasks s s'" "ctxs_ok s"
  shows "ctxs_ok s'"
  by (rule ctxs_ok_cong [OF assms(2)])
    (use same_tasks_fields [OF assms(1)] in \<open>auto simp: active_def live_def running_def\<close>)

text \<open>
  The worker as a visitor of contexts: it leaves the one it is on, as one from which the loop can go
  on or that has come to its end, or as that of a task that waits; it enters a spare one, or that of
  a task.
\<close>

abbreviation away :: "nat \<Rightarrow> 'p world \<Rightarrow> 'p world" where "away w s \<equiv> set_worker w worker_new s"

lemma away_simps [simp]: "\<not> active worker_new" "wk_pc worker_new = P_Native" "wk_task worker_new = None"
  by (simp_all add: active_def worker_new_def)

lemma away_live [simp]: "live (away w s) t = live s t"
  by (simp add: live_def)

lemma ctxs_leave:
  assumes ok: "ctxs_ok s" and w: "active (wd_workers s w)" "wk_ctx (wd_workers s w) = Some c" "wk_pc (wd_workers s w) \<noteq> P_Running"
  shows "ctxs_ok (away w (set_ctx c cs s))"
proof (rule ctxs_okI)
  let ?s = "away w (set_ctx c cs s)"
  have c: "wd_ctxs s c = Ctx_Active" using ctxs_okD(1) [OF ok w(1)] w(2) by simp
  have run: "running ?s t = running s t" for t using w(3) by (auto simp: running_def)
  have live: "live ?s t = live s t" for t by (simp add: live_def)
  show "\<exists>d < wd_nctxs ?s. wk_ctx (wd_workers ?s v) = Some d \<and> wd_ctxs ?s d = Ctx_Active" if "active (wd_workers ?s v)" for v
  proof -
    have v: "v \<noteq> w" "active (wd_workers s v)" using that by (auto split: if_splits)
    obtain d where "d < wd_nctxs s" "wk_ctx (wd_workers s v) = Some d" "wd_ctxs s d = Ctx_Active"
      using ctxs_okD(1) [OF ok v(2)] by blast
    then show ?thesis using ctxs_okD(2) [OF ok v(2) w(1)] w(2) v(1) by (intro exI [of _ d]) auto
  qed
  show "v = v'" if "active (wd_workers ?s v)" "active (wd_workers ?s v')" "wk_ctx (wd_workers ?s v) = wk_ctx (wd_workers ?s v')" for v v'
    using that ctxs_okD(2) [OF ok, of v v'] by (cases "v = w"; cases "v' = w") simp_all
  show "\<exists>d < wd_nctxs ?s. wd_task_ctx ?s t = Some d \<and> wd_ctxs ?s d = Ctx_Dropped" if "live ?s t" "\<not> running ?s t" for t
    using that ctxs_okD(3) [OF ok, of t] c unfolding run live by auto
  show "t = u" if "live ?s t" "live ?s u" "\<not> running ?s t" "\<not> running ?s u" "wd_task_ctx ?s t = wd_task_ctx ?s u" for t u
    using that ctxs_okD(4) [OF ok, of t u] unfolding run live by simp
qed

lemma ctxs_leave_task:
  assumes ok: "ctxs_ok s" "tasks_ok s" and w: "wk_pc (wd_workers s w) = P_Running" "wk_task (wd_workers s w) = Some t"
    "wk_ctx (wd_workers s w) = Some c" "wd_task_ctx s t = Some c"
  shows "ctxs_ok (away w (set_ctx c Ctx_Dropped s))"
proof (rule ctxs_okI)
  let ?s = "away w (set_ctx c Ctx_Dropped s)"
  have act: "active (wd_workers s w)" using w(1) by (simp add: active_def)
  obtain n: "c < wd_nctxs s" and c: "wd_ctxs s c = Ctx_Active" using ctxs_okD(1) [OF ok(1) act] w(3) by auto
  have run: "running s u \<longleftrightarrow> running ?s u \<or> u = t" for u
    using w(1,2) unfolding running_def by (auto, metis option.inject)
  have live: "live ?s u = live s u" for u by (simp add: live_def)
  have other: "wd_task_ctx s u \<noteq> Some c" if "live s u" "\<not> running s u" for u
    using ctxs_okD(3) [OF ok(1) that] c by auto
  show "\<exists>d < wd_nctxs ?s. wk_ctx (wd_workers ?s v) = Some d \<and> wd_ctxs ?s d = Ctx_Active" if "active (wd_workers ?s v)" for v
  proof -
    have v: "v \<noteq> w" "active (wd_workers s v)" using that by (auto split: if_splits)
    obtain d where "d < wd_nctxs s" "wk_ctx (wd_workers s v) = Some d" "wd_ctxs s d = Ctx_Active"
      using ctxs_okD(1) [OF ok(1) v(2)] by blast
    then show ?thesis using ctxs_okD(2) [OF ok(1) v(2) act] w(3) v(1) by (intro exI [of _ d]) auto
  qed
  show "v = v'" if "active (wd_workers ?s v)" "active (wd_workers ?s v')" "wk_ctx (wd_workers ?s v) = wk_ctx (wd_workers ?s v')" for v v'
    using that ctxs_okD(2) [OF ok(1), of v v'] by (cases "v = w"; cases "v' = w") simp_all
  show "\<exists>d < wd_nctxs ?s. wd_task_ctx ?s u = Some d \<and> wd_ctxs ?s d = Ctx_Dropped" if "live ?s u" "\<not> running ?s u" for u
    using that ctxs_okD(3) [OF ok(1), of u] run [of u] n w(4) unfolding live by (cases "u = t") auto
  show "u = v" if "live ?s u" "live ?s v" "\<not> running ?s u" "\<not> running ?s v" "wd_task_ctx ?s u = wd_task_ctx ?s v" for u v
    using that ctxs_okD(4) [OF ok(1), of u v] run [of u] run [of v] other w(4) unfolding live by (cases "u = t"; cases "v = t") auto
qed

lemma ctxs_enter:
  assumes ok: "ctxs_ok (away w s)" and c: "idle_ctx s c" and wk: "wk_ctx wk = Some c" "wk_pc wk \<noteq> P_Running"
  shows "ctxs_ok (set_worker w wk (set_ctx c Ctx_Active s))"
proof (rule ctxs_okI)
  let ?s = "set_worker w wk (set_ctx c Ctx_Active s)"
  have cs: "c < wd_nctxs s" "wd_ctxs s c \<noteq> Ctx_Active" "wd_ctxs s c \<noteq> Ctx_Dropped" using c by (auto simp: idle_ctx_def)
  have run: "running ?s t = running (away w s) t" for t using wk(2) by (auto simp: running_def)
  have live: "live ?s t = live (away w s) t" for t by (simp add: live_def)
  have act: "\<exists>d < wd_nctxs s. wk_ctx (wd_workers s v) = Some d \<and> wd_ctxs s d = Ctx_Active" if "active (wd_workers s v)" "v \<noteq> w" for v
    using ctxs_okD(1) [OF ok, of v] that by simp
  show "\<exists>d < wd_nctxs ?s. wk_ctx (wd_workers ?s v) = Some d \<and> wd_ctxs ?s d = Ctx_Active" if "active (wd_workers ?s v)" for v
    using that act [of v] cs wk(1) by (cases "v = w") auto
  show "v = v'" if "active (wd_workers ?s v)" "active (wd_workers ?s v')" "wk_ctx (wd_workers ?s v) = wk_ctx (wd_workers ?s v')" for v v'
    using that act [of v] act [of v'] ctxs_okD(2) [OF ok, of v v'] cs wk(1) by (cases "v = w"; cases "v' = w") auto
  show "\<exists>d < wd_nctxs ?s. wd_task_ctx ?s t = Some d \<and> wd_ctxs ?s d = Ctx_Dropped" if "live ?s t" "\<not> running ?s t" for t
    using that ctxs_okD(3) [OF ok, of t] cs unfolding run live by auto
  show "t = u" if "live ?s t" "live ?s u" "\<not> running ?s t" "\<not> running ?s u" "wd_task_ctx ?s t = wd_task_ctx ?s u" for t u
    using that ctxs_okD(4) [OF ok, of t u] unfolding run live by simp
qed

lemma ctxs_enter_task:
  assumes ok: "ctxs_ok (away w s)" and t: "live s t" "\<not> running (away w s) t" "wd_task_ctx s t = Some c"
    and wk: "wk_ctx wk = Some c" "wk_pc wk = P_Running" "wk_task wk = Some t"
  shows "wd_ctxs s c = Ctx_Dropped" "ctxs_ok (set_worker w wk (set_ctx c Ctx_Active s))"
proof -
  let ?s = "set_worker w wk (set_ctx c Ctx_Active s)"
  obtain n: "c < wd_nctxs s" and drop: "wd_ctxs s c = Ctx_Dropped" using ctxs_okD(3) [OF ok, of t] t by auto
  then show "wd_ctxs s c = Ctx_Dropped" by simp
  have run: "running ?s u \<longleftrightarrow> running (away w s) u \<or> u = t" for u
    using wk(2,3) by (auto simp: running_def)
  have live: "live ?s u = live (away w s) u" for u by (simp add: live_def)
  have act: "\<exists>d < wd_nctxs s. wk_ctx (wd_workers s v) = Some d \<and> wd_ctxs s d = Ctx_Active" if "active (wd_workers s v)" "v \<noteq> w" for v
    using ctxs_okD(1) [OF ok, of v] that by simp
  show "ctxs_ok ?s"
  proof (rule ctxs_okI)
    show "\<exists>d < wd_nctxs ?s. wk_ctx (wd_workers ?s v) = Some d \<and> wd_ctxs ?s d = Ctx_Active" if "active (wd_workers ?s v)" for v
      using that act [of v] n drop wk(1) by (cases "v = w") auto
    show "v = v'" if "active (wd_workers ?s v)" "active (wd_workers ?s v')" "wk_ctx (wd_workers ?s v) = wk_ctx (wd_workers ?s v')" for v v'
      using that act [of v] act [of v'] ctxs_okD(2) [OF ok, of v v'] drop wk(1) by (cases "v = w"; cases "v' = w") auto
    show "\<exists>d < wd_nctxs ?s. wd_task_ctx ?s u = Some d \<and> wd_ctxs ?s d = Ctx_Dropped" if "live ?s u" "\<not> running ?s u" for u
    proof -
      have u: "live (away w s) u" "\<not> running (away w s) u" "u \<noteq> t" using that run live by blast+
      obtain d where d: "d < wd_nctxs s" "wd_task_ctx s u = Some d" "wd_ctxs s d = Ctx_Dropped"
        using ctxs_okD(3) [OF ok u(1,2)] by auto
      have "d \<noteq> c" using ctxs_okD(4) [OF ok, of u t] u t d(2) by auto
      then show ?thesis using d by auto
    qed
    show "u = v" if "live ?s u" "live ?s v" "\<not> running ?s u" "\<not> running ?s v" "wd_task_ctx ?s u = wd_task_ctx ?s v" for u v
      using that ctxs_okD(4) [OF ok, of u v] run live by simp
  qed
qed

text \<open>A step of one worker, on its own task or one that no other worker has.\<close>

lemma own_step:
  assumes ok: "world_ok s"
    and workers: "\<And>v. v \<noteq> w \<Longrightarrow> wk_task (wd_workers s' v) = wk_task (wd_workers s v)
        \<and> wk_pc (wd_workers s' v) = wk_pc (wd_workers s v) \<and> wk_ctx (wd_workers s' v) = wk_ctx (wd_workers s v)"
    and tasks: "\<And>u. u \<noteq> t \<Longrightarrow> wd_tasks s' u = wd_tasks s u \<and> wd_task_ctx s' u = wd_task_ctx s u" "wd_ntasks s' = wd_ntasks s"
    and own: "\<And>v. v \<noteq> w \<Longrightarrow> wk_task (wd_workers s v) \<noteq> Some t" "\<not> get_keep_thread (to_flags (wd_tasks s' t))"
      "wk_task (wd_workers s' w) = None \<or> wk_task (wd_workers s' w) = Some t \<and> t < wd_ntasks s"
    and rest: "queued_ok s'" "pc_ok s' w" "idle_ok s'" "ctxs_ok s'"
  shows "world_ok s'"
proof -
  note tok = tasks_okD [OF world_okD(2) [OF ok]]
  have "tasks_ok s'"
    unfolding tasks_ok_def
  proof (intro conjI allI impI)
    show "\<not> get_keep_thread (to_flags (wd_tasks s' u))" for u using own(2) tasks(1) tok(1) by (cases "u = t") simp_all
    show "u < wd_ntasks s'" if "wk_task (wd_workers s' v) = Some u" for v u
      using that own(3) workers [of v] tok(2) [of v u] tasks(2) by (cases "v = w") auto
    show "v = v'" if "wk_task (wd_workers s' v) = Some u \<and> wk_task (wd_workers s' v') = Some u" for v v' u
    proof (cases "u = t")
      case True
      have "x = w" if "wk_task (wd_workers s' x) = Some t" for x using that own(1) [of x] workers [of x] by (cases "x = w") simp_all
      then show ?thesis using that True by blast
    next
      case False
      have "wk_task (wd_workers s x) = Some u" if "wk_task (wd_workers s' x) = Some u" for x
        using that own(3) workers [of x] False by (cases "x = w") auto
      then show ?thesis using that tok(3) by blast
    qed
  qed
  moreover have "pc_ok s' v" for v
  proof (cases "v = w")
    case False
    have "wd_tasks s' u = wd_tasks s u \<and> wd_task_ctx s' u = wd_task_ctx s u" if "wk_task (wd_workers s v) = Some u" for u
      using that tasks(1) own(1) [OF False] by auto
    then show ?thesis using workers [OF False] world_okD(3) [OF ok, of v]
      by (auto simp: pc_ok_def Let_def split: worker_pc.splits)
  qed (use rest in simp)
  ultimately show ?thesis using rest by (simp add: world_ok_def)
qed

lemma queued_ok_same:
  assumes "queued_ok s" "wd_queue s' = wd_queue s" "wd_ntasks s' = wd_ntasks s"
    and "\<And>t. t \<in> set (wd_queue s) \<Longrightarrow> wd_tasks s' t = wd_tasks s t \<and> (\<forall>w. wk_task (wd_workers s' w) \<noteq> Some t)"
  shows "queued_ok s'"
  using assms by (auto simp: queued_ok_def)

lemma no_task_new: "world_ok s \<Longrightarrow> wk_task (wd_workers s w) \<noteq> Some (wd_ntasks s)"
  using tasks_okD(2) [OF world_okD(2)] by blast

definition own_task :: "'p world \<Rightarrow> nat \<Rightarrow> nat" where
  "own_task s w = (case wk_task (wd_workers s w) of None \<Rightarrow> wd_ntasks s | Some t \<Rightarrow> t)"

lemma own_task_alone:
  assumes "world_ok s" "v \<noteq> w"
  shows "wk_task (wd_workers s v) \<noteq> Some (own_task s w)"
  using no_task_new [OF assms(1), of v] tasks_okD(3) [OF world_okD(2) [OF assms(1)], of v _ w] assms(2)
  by (auto simp: own_task_def split: option.splits)

lemma own_step_keep:
  assumes ok: "world_ok s"
    and workers: "\<And>v. v \<noteq> w \<Longrightarrow> wk_task (wd_workers s' v) = wk_task (wd_workers s v)
        \<and> wk_pc (wd_workers s' v) = wk_pc (wd_workers s v) \<and> wk_ctx (wd_workers s' v) = wk_ctx (wd_workers s v)"
    and tasks: "\<And>u. u \<noteq> own_task s w \<Longrightarrow> wd_tasks s' u = wd_tasks s u \<and> wd_task_ctx s' u = wd_task_ctx s u" "wd_ntasks s' = wd_ntasks s"
    and own: "\<not> get_keep_thread (to_flags (wd_tasks s' (own_task s w)))"
      "wk_task (wd_workers s' w) = None \<or> wk_task (wd_workers s' w) = wk_task (wd_workers s w)"
    and rest: "queued_ok s'" "pc_ok s' w" "idle_ok s'" "ctxs_ok s'"
  shows "world_ok s'"
proof -
  have "wk_task (wd_workers s' w) = None \<or> wk_task (wd_workers s' w) = Some (own_task s w) \<and> own_task s w < wd_ntasks s"
    using own(2) tasks_okD(2) [OF world_okD(2) [OF ok], of w] by (auto simp: own_task_def split: option.splits)
  then show ?thesis by (intro own_step [OF ok workers tasks own_task_alone [OF ok] own(1) _ rest]) simp_all
qed

lemma run_ok:
  assumes ok: "world_ok s" and pc: "wk_pc (wd_workers s w) = P_Native"
  shows "\<exists>s'. worker_run w s = Some s' \<and> world_ok s'"
proof -
  obtain c s1 where g: "get_neutral_context w s = (c, s1)" by fastforce
  note n = get_neutral_context_spec [OF world_okD(4) [OF ok] g] and same = same_tasks_fields [OF get_neutral_context_spec(4) [OF world_okD(4) [OF ok] g]]
  let ?wk = "(wd_workers s1 w)\<lparr>wk_ctx := Some c, wk_pc := P_Top\<rparr>" let ?s = "set_worker w ?wk (set_ctx c Ctx_Active s1)"
  have run: "worker_run w s = Some ?s" using g enter_loop_spec(1) [OF n(1-3)] by (simp add: worker_run_def)
  have notask: "wk_task (wd_workers s w) = None" using world_okD(3) [OF ok, of w] pc by (simp add: pc_ok_def)
  have "ctxs_ok (away w s1)"
    by (rule ctxs_ok_cong [OF same_ctxs_ok [OF n(4) world_okD(5) [OF ok]]]) (use pc same in \<open>auto simp: running_def split: if_splits\<close>)
  then have "ctxs_ok ?s" using n(2) by (rule ctxs_enter) simp_all
  moreover have "idle_ok ?s" by (rule idle_ok_cong [OF enter_loop_spec(2) [OF n(1-3)]]) (simp_all add: idle_ctx_def)
  moreover have "queued_ok ?s"
    by (rule queued_ok_same [OF world_okD(1) [OF ok]]) (use same queued_okD(4) [OF world_okD(1) [OF ok]] in auto)
  ultimately have "world_ok ?s"
    by (intro own_step [OF ok, of w ?s "wd_ntasks s"]) (use same notask no_task_new [OF ok] tasks_okD(1) [OF world_okD(2) [OF ok]] in \<open>auto simp: pc_ok_def\<close>)
  then show ?thesis using run by blast
qed

lemma exit_ok:
  assumes ok: "world_ok s" and pc: "wk_pc (wd_workers s w) = P_Top \<or> wk_pc (wd_workers s w) = P_Get"
  shows "\<exists>s'. exit_loop w s = Some s' \<and> world_ok s'"
proof -
  have act: "active (wd_workers s w)" "wk_pc (wd_workers s w) \<noteq> P_Running" using pc by (auto simp: active_def)
  obtain c where c: "wk_ctx (wd_workers s w) = Some c" "wd_ctxs s c = Ctx_Active" using ctxs_okD(1) [OF world_okD(5) [OF ok] act(1)] by blast
  let ?s = "set_worker w ((wd_workers s w)\<lparr>wk_pc := P_Exit\<rparr>) (set_ctx c Ctx_Exited s)"
  have "ctxs_ok ?s"
    by (rule ctxs_ok_cong [OF ctxs_leave [OF world_okD(5) [OF ok] act(1) c(1) act(2)]]) (auto simp: active_def live_def running_def split: if_splits)
  moreover have "idle_ok ?s" by (rule idle_ok_cong [OF world_okD(4) [OF ok]]) (use c in \<open>auto simp: idle_ctx_def\<close>)
  moreover have "queued_ok ?s"
    by (rule queued_ok_same [OF world_okD(1) [OF ok]]) (use queued_okD(4) [OF world_okD(1) [OF ok]] in auto)
  moreover have "pc_ok ?s w" using world_okD(3) [OF ok, of w] pc by (auto simp: pc_ok_def)
  ultimately have "world_ok ?s"
    by (intro own_step_keep [OF ok, of w ?s]) (use tasks_okD(1) [OF world_okD(2) [OF ok]] in simp_all)
  then show ?thesis using c by (auto simp: exit_loop_def)
qed

lemma running_other:
  assumes "wk_pc (wd_workers s w) \<noteq> P_Running" "wd_workers s' = (wd_workers s)(w := wk)" "running s t"
  shows "running s' t"
proof -
  obtain v where "wk_pc (wd_workers s v) = P_Running" "wk_task (wd_workers s v) = Some t" using assms(3) by (auto simp: running_def)
  then show ?thesis using assms(1,2) by (cases "v = w") (auto simp: running_def intro: exI [of _ v])
qed

text \<open>Steps that leave the contexts alone and in which no worker takes up or gives up a running task.\<close>

lemma ctxs_ok_step:
  assumes "ctxs_ok s" "wd_nctxs s' = wd_nctxs s" "wd_ctxs s' = wd_ctxs s" "wd_task_ctx s' = wd_task_ctx s"
    and "\<And>v. active (wd_workers s' v) \<Longrightarrow> active (wd_workers s v) \<and> wk_ctx (wd_workers s' v) = wk_ctx (wd_workers s v)"
    and "\<And>t. running s t \<Longrightarrow> live s' t \<Longrightarrow> running s' t" "\<And>t. live s' t \<Longrightarrow> live s t"
  shows "ctxs_ok s'"
  by (rule ctxs_ok_cong [OF assms(1)]) (use assms in auto)

lemma loop_top_ok:
  assumes ok: "world_ok s" and pc: "wk_pc (wd_workers s w) = P_Top"
  shows "\<exists>s'. loop_top w waiting s = Some s' \<and> world_ok s'"
proof (cases "wk_done (wd_workers s w)")
  case True
  then show ?thesis using exit_ok [OF ok, of w] pc by (simp add: loop_top_def)
next
  case False
  let ?wk = "wd_workers s w"
  note keep = tasks_okD(1) [OF world_okD(2) [OF ok]] and q = queued_okD [OF world_okD(1) [OF ok]]
  have pcw: "\<And>t. wk_task ?wk = Some t \<Longrightarrow> state_of s t = RUNNING \<and> started s t" using world_okD(3) [OF ok, of w] pc by (simp add: pc_ok_def)
  show ?thesis
  proof (cases "wk_task ?wk")
    case None
    let ?s = "set_worker w (?wk\<lparr>wk_pc := P_Get\<rparr>) s"
    have "ctxs_ok ?s" by (rule ctxs_ok_step [OF world_okD(5) [OF ok]]) (use pc in \<open>auto simp: active_def live_def intro: running_other [of s w]\<close>)
    moreover have "idle_ok ?s" by (rule idle_ok_cong [OF world_okD(4) [OF ok]]) (auto simp: idle_ctx_def)
    moreover have "queued_ok ?s" by (rule queued_ok_same [OF world_okD(1) [OF ok]]) (use q(4) in auto)
    ultimately have "world_ok ?s" using None keep by (intro own_step_keep [OF ok, of w ?s]) (simp_all add: pc_ok_def)
    then show ?thesis using False None by (simp add: loop_top_def)
  next
    case (Some t)
    note run = pcw [OF Some]
    have own: "own_task s w = t" using Some by (simp add: own_task_def)
    have tn: "t < wd_ntasks s" using tasks_okD(2) [OF world_okD(2) [OF ok] Some] .
    have notq: "t \<notin> set (wd_queue s)" using q(4) Some by blast
    have others: "v \<noteq> w \<Longrightarrow> wk_task (wd_workers s v) \<noteq> Some t" for v using own_task_alone [OF ok, of v w] own by simp
    show ?thesis
    proof (cases "wk_waits ?wk = []")
      case True
      let ?ob = "(wd_tasks s t)\<lparr>to_flags := set_state SUSPENDED (to_flags (wd_tasks s t)), to_places := wk_places ?wk\<rparr>"
      let ?s = "(set_task t ?ob (set_worker w (?wk\<lparr>wk_task := None, wk_places := [], wk_pc := P_Get\<rparr>) s))\<lparr>wd_queue := wd_queue s @ [t]\<rparr>"
      have "ctxs_ok ?s" by (rule ctxs_ok_step [OF world_okD(5) [OF ok]])
        (use pc run in \<open>auto simp: active_def live_def intro: running_other [of s w] split: if_splits\<close>)
      moreover have "idle_ok ?s" by (rule idle_ok_cong [OF world_okD(4) [OF ok]]) (auto simp: idle_ctx_def)
      moreover have "queued_ok ?s" using q notq tn others by (auto simp: queued_ok_def)
      ultimately have "world_ok ?s" using keep own by (intro own_step_keep [OF ok, of w ?s]) (simp_all add: pc_ok_def)
      then show ?thesis using False Some True run by (simp add: loop_top_def task_yield_def Let_def)
    next
      case w: False
      show ?thesis
      proof (cases waiting)
        case True
        let ?ob = "(wd_tasks s t)\<lparr>to_flags := set_state WAITING (to_flags (wd_tasks s t)), to_places := wk_places ?wk\<rparr>"
        let ?s = "set_task t ?ob (set_worker w (?wk\<lparr>wk_waits := [], wk_places := [], wk_task := None, wk_pc := P_Get\<rparr>) s)"
        have "ctxs_ok ?s" by (rule ctxs_ok_step [OF world_okD(5) [OF ok]])
          (use pc run in \<open>auto simp: active_def live_def intro: running_other [of s w] split: if_splits\<close>)
        moreover have "idle_ok ?s" by (rule idle_ok_cong [OF world_okD(4) [OF ok]]) (auto simp: idle_ctx_def)
        moreover have "queued_ok ?s" by (rule queued_ok_same [OF world_okD(1) [OF ok]]) (use q(4) notq in auto)
        ultimately have "world_ok ?s" using keep own by (intro own_step_keep [OF ok, of w ?s]) (simp_all add: pc_ok_def)
        then show ?thesis using False Some True w run by (simp add: loop_top_def task_wait_def Let_def)
      next
        case nw: False
        let ?s = "set_task t (wd_tasks s t) (set_worker w (?wk\<lparr>wk_waits := [], wk_pc := P_Dispatch\<rparr>) s)"
        have "ctxs_ok ?s" by (rule ctxs_ok_step [OF world_okD(5) [OF ok]])
          (use pc run in \<open>auto simp: active_def live_def intro: running_other [of s w] split: if_splits\<close>)
        moreover have "idle_ok ?s" by (rule idle_ok_cong [OF world_okD(4) [OF ok]]) (auto simp: idle_ctx_def)
        moreover have "queued_ok ?s" by (rule queued_ok_same [OF world_okD(1) [OF ok]]) (use q(4) notq in auto)
        ultimately have "world_ok ?s" using keep own Some run by (intro own_step_keep [OF ok, of w ?s]) (simp_all add: pc_ok_def)
        then show ?thesis using False Some nw w run by (simp add: loop_top_def task_wait_def Let_def)
      qed
    qed
  qed
qed

lemma get_ok:
  assumes ok: "world_ok s" and pc: "wk_pc (wd_workers s w) = P_Get"
  shows "\<exists>s'. get_new_task w i s = Some s' \<and> world_ok s'"
proof (cases "wk_done (wd_workers s w) \<or> \<not> i < length (wd_queue s)")
  case True
  then show ?thesis using exit_ok [OF ok, of w] pc ok by (auto simp: get_new_task_def Let_def)
next
  case False
  let ?wk = "wd_workers s w" let ?t = "wd_queue s ! i"
  let ?s = "(set_worker w (?wk\<lparr>wk_task := Some ?t, wk_pc := P_Dispatch\<rparr>) s)\<lparr>wd_queue := take i (wd_queue s) @ drop (Suc i) (wd_queue s)\<rparr>"
  note keep = tasks_okD(1) [OF world_okD(2) [OF ok]] and q = queued_okD [OF world_okD(1) [OF ok]]
  have i: "i < length (wd_queue s)" using False by simp
  then have t: "?t \<in> set (wd_queue s)" by simp
  have split: "wd_queue s = take i (wd_queue s) @ ?t # drop (Suc i) (wd_queue s)" using i by (rule id_take_nth_drop)
  then have dist: "distinct (take i (wd_queue s) @ ?t # drop (Suc i) (wd_queue s))" using q(1) by metis
  have sub: "set (take i (wd_queue s) @ drop (Suc i) (wd_queue s)) \<subseteq> set (wd_queue s)"
    by (auto dest: in_set_takeD in_set_dropD)
  have "ctxs_ok ?s" by (rule ctxs_ok_step [OF world_okD(5) [OF ok]]) (use pc in \<open>auto simp: active_def live_def intro: running_other [of s w]\<close>)
  moreover have "idle_ok ?s" by (rule idle_ok_cong [OF world_okD(4) [OF ok]]) (auto simp: idle_ctx_def)
  moreover have "queued_ok ?s"
    unfolding queued_ok_def
  proof (intro conjI ballI allI)
    show "distinct (wd_queue ?s)" using dist by simp
    fix u assume "u \<in> set (wd_queue ?s)"
    then have u: "u \<in> set (wd_queue s)" "u \<noteq> ?t" using sub dist by auto
    show "u < wd_ntasks ?s" "state_of ?s u = READY \<or> state_of ?s u = SUSPENDED" using q(2,3) u(1) by simp_all
    show "wk_task (wd_workers ?s v) \<noteq> Some u" for v using q(4) u by simp
  qed
  moreover have "pc_ok ?s w" using q(3) [OF t] by (auto simp: pc_ok_def)
  ultimately have "world_ok ?s"
    using keep q(2,4) [OF t] by (intro own_step [OF ok, of w ?s ?t]) simp_all
  then show ?thesis using False by (simp add: get_new_task_def)
qed

lemma dispatch_ok:
  assumes ok: "world_ok s" and pc: "wk_pc (wd_workers s w) = P_Dispatch"
  shows "\<exists>s'. dispatch w s = Some s' \<and> world_ok s'"
proof -
  let ?wk = "wd_workers s w"
  note keep = tasks_okD(1) [OF world_okD(2) [OF ok]] and q = queued_okD [OF world_okD(1) [OF ok]]
  obtain t where t: "wk_task ?wk = Some t" "state_of s t \<in> {READY, SUSPENDED, RUNNING}"
    using world_okD(3) [OF ok, of w] pc by (auto simp: pc_ok_def Let_def)
  have own: "own_task s w = t" using t(1) by (simp add: own_task_def)
  have tn: "t < wd_ntasks s" using tasks_okD(2) [OF world_okD(2) [OF ok] t(1)] .
  have notq: "t \<notin> set (wd_queue s)" using q(4) t(1) by blast
  have act: "active ?wk" using pc by (simp add: active_def)
  obtain c where c: "wk_ctx ?wk = Some c" "c < wd_nctxs s" "wd_ctxs s c = Ctx_Active" using ctxs_okD(1) [OF world_okD(5) [OF ok] act] by blast
  have alone: "v \<noteq> w \<Longrightarrow> wk_task (wd_workers s v) \<noteq> Some t" for v using own_task_alone [OF ok, of v w] own by simp
  have notrun: "\<not> running s t"
  proof
    assume "running s t"
    then obtain v where v: "wk_pc (wd_workers s v) = P_Running" "wk_task (wd_workers s v) = Some t" by (auto simp: running_def)
    then show False using alone [of v] pc by (cases "v = w") simp_all
  qed
  let ?ob = "(wd_tasks s t)\<lparr>to_home := Some w, to_flags := set_state RUNNING (to_flags (wd_tasks s t)), to_places := []\<rparr>"
  let ?wk1 = "?wk\<lparr>wk_places := wk_places ?wk @ to_places (wd_tasks s t)\<rparr>"
  have sched: "task_schedule w (wd_tasks s t) = Some (to_places (wd_tasks s t), ?ob)" using keep by (simp add: task_schedule_def)
  show ?thesis
  proof (cases "started s t")
    case False
    let ?ob1 = "?ob\<lparr>to_flags := set_state RUNNING (to_flags (wd_tasks s t)) OR HAS_STARTED\<rparr>"
    let ?s = "(set_task t ?ob1 (set_worker w (?wk1\<lparr>wk_pc := P_Running\<rparr>) s))\<lparr>wd_task_ctx := (wd_task_ctx s)(t := Some c)\<rparr>"
    have run: "dispatch w s = Some ?s" using t(1) c(1) sched False by (simp add: dispatch_def task_run_def Let_def)
    have tr: "running ?s t" using t(1) by (auto simp: running_def)
    have "ctxs_ok ?s"
    proof (rule ctxs_ok_cong [OF world_okD(5) [OF ok]])
      fix u assume u: "live ?s u" "\<not> running ?s u"
      then have "u \<noteq> t" using tr by blast
      then show "live s u \<and> \<not> running s u \<and> wd_task_ctx ?s u = wd_task_ctx s u"
        using u running_other [of s w ?s "?wk1\<lparr>wk_pc := P_Running\<rparr>" u] pc by (auto simp: live_def)
    qed (use pc in \<open>auto simp: active_def\<close>)
    moreover have "idle_ok ?s" by (rule idle_ok_cong [OF world_okD(4) [OF ok]]) (auto simp: idle_ctx_def)
    moreover have "queued_ok ?s" by (rule queued_ok_same [OF world_okD(1) [OF ok]]) (use q(4) notq in auto)
    moreover have "pc_ok ?s w" using t(1) c(1) by (simp add: pc_ok_def)
    ultimately have "world_ok ?s" using keep own by (intro own_step_keep [OF ok, of w ?s]) simp_all
    then show ?thesis using run by blast
  next
    case True
    have live: "live s t" using tn True t(2) by (auto simp: live_def)
    obtain new where new: "new < wd_nctxs s" "wd_task_ctx s t = Some new" "wd_ctxs s new = Ctx_Dropped"
      using ctxs_okD(3) [OF world_okD(5) [OF ok] live notrun] by blast
    have ne: "c \<noteq> new" using c(3) new(3) by auto
    let ?wk2 = "?wk1\<lparr>wk_ready := wk_ready ?wk @ [c], wk_ctx := Some new, wk_pc := P_Running\<rparr>"
    let ?m = "set_ctx c Ctx_Loop s"
    let ?entered = "set_worker w ?wk2 (set_ctx new Ctx_Active ?m)"
    let ?s = "set_task t ?ob ?entered"
    have run: "dispatch w s = Some ?s"
      using t(1) c(1) sched True new ne by (simp add: dispatch_def enter_task_def put_neutral_context_def Let_def)
    have "ctxs_ok ?entered"
    proof (rule ctxs_enter_task(2) [where t = t])
      show "ctxs_ok (away w ?m)" using pc by (intro ctxs_leave [OF world_okD(5) [OF ok] act c(1)]) simp
      show "live ?m t" using live by (simp add: live_def)
      show "\<not> running (away w ?m) t" using alone by (auto simp: running_def split: if_splits)
    qed (use t(1) new in simp_all)
    then have "ctxs_ok ?s" by (rule ctxs_ok_cong) (use True t(2) in \<open>auto simp: live_def running_def split: if_splits\<close>)
    moreover have "idle_ok ?s"
    proof (rule idle_okI)
      note idle = idle_okD [OF world_okD(4) [OF ok]]
      have nc: "c \<notin> set (wk_ready (wd_workers s v))" "c \<notin> set (wd_cache s)" for v
        using idle(2) [of c] idle(4) [of c v] c(3) by (auto simp: idle_ctx_def)
      have to_idle: "idle_ctx s d \<Longrightarrow> idle_ctx ?s d" for d using c new by (auto simp: idle_ctx_def)
      have ci: "idle_ctx ?s c" using c ne by (simp add: idle_ctx_def)
      show "distinct (wd_cache ?s)" using idle(1) by simp
      show "idle_ctx ?s d" if "d \<in> set (wd_cache ?s)" for d using that idle(2) to_idle by simp
      show "distinct (wk_ready (wd_workers ?s v))" for v using idle(3) [of v] nc by (cases "v = w") simp_all
      show "idle_ctx ?s d \<and> d \<notin> set (wd_cache ?s)" if "d \<in> set (wk_ready (wd_workers ?s v))" for d v
        using that idle(4,5) to_idle nc(2) ci by (cases "v = w") auto
      show "v = v'" if "d \<in> set (wk_ready (wd_workers ?s v))" "d \<in> set (wk_ready (wd_workers ?s v'))" for d v v'
        using that idle(6) nc(1) by (cases "v = w"; cases "v' = w") auto
    qed
    moreover have "queued_ok ?s" by (rule queued_ok_same [OF world_okD(1) [OF ok]]) (use q(4) notq in auto)
    moreover have "pc_ok ?s w" using t(1) new True by (simp add: pc_ok_def)
    ultimately have "world_ok ?s" using keep own by (intro own_step_keep [OF ok, of w ?s]) simp_all
    then show ?thesis using run by blast
  qed
qed

lemma returns_ok:
  assumes ok: "world_ok s" and pc: "wk_pc (wd_workers s w) = P_Running"
  shows "\<exists>s'. task_returns w s = Some s' \<and> world_ok s'"
proof -
  let ?wk = "wd_workers s w"
  note keep = tasks_okD(1) [OF world_okD(2) [OF ok]] and q = queued_okD [OF world_okD(1) [OF ok]]
  obtain t where t: "wk_task ?wk = Some t" "state_of s t = RUNNING" "to_home (wd_tasks s t) = Some w" "wd_task_ctx s t = wk_ctx ?wk"
    using world_okD(3) [OF ok, of w] pc by (auto simp: pc_ok_def Let_def)
  have own: "own_task s w = t" using t(1) by (simp add: own_task_def)
  let ?ob = "(wd_tasks s t)\<lparr>to_flags := set_state COMPLETED (to_flags (wd_tasks s t))\<rparr>"
  let ?s = "set_task t ?ob (set_worker w (?wk\<lparr>wk_task := None, wk_places := [], wk_pc := P_Top\<rparr>) s)"
  have run: "task_returns w s = Some ?s" using t by (simp add: task_returns_def task_done_def Let_def)
  have notq: "t \<notin> set (wd_queue s)" using q(4) t(1) by blast
  have "ctxs_ok ?s"
  proof (rule ctxs_ok_step [OF world_okD(5) [OF ok]])
    fix u assume u: "running s u" "live ?s u"
    then have "u \<noteq> t" by (auto simp: live_def)
    moreover obtain v where "wk_pc (wd_workers s v) = P_Running" "wk_task (wd_workers s v) = Some u" using u(1) by (auto simp: running_def)
    ultimately show "running ?s u" using t(1) by (cases "v = w") (auto simp: running_def intro: exI [of _ v])
  qed (use pc in \<open>auto simp: active_def live_def split: if_splits\<close>)
  moreover have "idle_ok ?s" by (rule idle_ok_cong [OF world_okD(4) [OF ok]]) (auto simp: idle_ctx_def)
  moreover have "queued_ok ?s" by (rule queued_ok_same [OF world_okD(1) [OF ok]]) (use q(4) notq in auto)
  moreover have "pc_ok ?s w" by (simp add: pc_ok_def)
  ultimately have "world_ok ?s" using keep own by (intro own_step_keep [OF ok, of w ?s]) simp_all
  then show ?thesis using run by blast
qed

lemma wait_ok:
  assumes ok: "world_ok s" and pc: "wk_pc (wd_workers s w) = P_Running"
  shows "\<exists>s'. curr_task_wait w refs s = Some s' \<and> world_ok s'"
proof -
  let ?wk = "wd_workers s w"
  note keep = tasks_okD(1) [OF world_okD(2) [OF ok]] and q = queued_okD [OF world_okD(1) [OF ok]]
  obtain t where t: "wk_task ?wk = Some t" "state_of s t = RUNNING" "started s t" "wd_task_ctx s t = wk_ctx ?wk"
    using world_okD(3) [OF ok, of w] pc by (auto simp: pc_ok_def Let_def)
  have own: "own_task s w = t" using t(1) by (simp add: own_task_def)
  have act: "active ?wk" using pc by (simp add: active_def)
  obtain c where c: "wk_ctx ?wk = Some c" "c < wd_nctxs s" "wd_ctxs s c = Ctx_Active" using ctxs_okD(1) [OF world_okD(5) [OF ok] act] by blast
  let ?a = "set_worker w (?wk\<lparr>wk_waits := refs\<rparr>) s"
  have idle: "idle_ok ?a" by (rule idle_ok_cong [OF world_okD(4) [OF ok]]) (auto simp: idle_ctx_def)
  obtain d s1 where g: "get_neutral_context w ?a = (d, s1)" by fastforce
  note n = get_neutral_context_spec [OF idle g]
  note same = same_tasks_fields [OF n(4)]
  have cd: "c < wd_nctxs s1" "wd_ctxs s1 c = Ctx_Active" using same(9) same(10) [of c] c by simp_all
  then have ne: "c \<noteq> d" using n(2) by (auto simp: idle_ctx_def)
  let ?b = "set_ctx c Ctx_Dropped s1"
  have b: "idle_ok ?b" "idle_ctx ?b d" "spare ?b d"
  proof -
    show "idle_ok ?b" by (rule idle_ok_cong [OF n(1)]) (use cd in \<open>auto simp: idle_ctx_def\<close>)
    show "idle_ctx ?b d" using n(2) ne by (simp add: idle_ctx_def)
    show "spare ?b d" using n(3) by (simp add: spare_def)
  qed
  let ?wk2 = "(wd_workers s1 w)\<lparr>wk_ctx := Some d, wk_pc := P_Top\<rparr>" let ?r = "set_worker w ?wk2 (set_ctx d Ctx_Active ?b)"
  have run: "curr_task_wait w refs s = Some ?r"
    using t c(1) g enter_loop_spec(1) [OF b] by (simp add: curr_task_wait_def Let_def)
  have aok: "ctxs_ok ?a" by (rule ctxs_ok_cong [OF world_okD(5) [OF ok]]) (auto simp: active_def live_def running_def split: if_splits)
  have atok: "tasks_ok s1" using world_okD(2) [OF ok] same(1,3,5) by (auto simp: tasks_ok_def split: if_splits)
  have "ctxs_ok (away w ?b)"
    by (rule ctxs_leave_task [OF same_ctxs_ok [OF n(4) aok] atok]) (use pc t c same in simp_all)
  then have "ctxs_ok ?r" using b(2) by (rule ctxs_enter) simp_all
  moreover have "idle_ok ?r" by (rule idle_ok_cong [OF enter_loop_spec(2) [OF b]]) (simp_all add: idle_ctx_def)
  moreover have "queued_ok ?r"
    by (rule queued_ok_same [OF world_okD(1) [OF ok]]) (use same q(4) in auto)
  moreover have "pc_ok ?r w" using t same by (simp add: pc_ok_def)
  ultimately have "world_ok ?r" using keep own same by (intro own_step_keep [OF ok, of w ?r]) simp_all
  then show ?thesis using run by blast
qed

lemma fold_cache_store: "fold cache_store cs s = s\<lparr>wd_cache := wd_cache s @ cs\<rparr>"
  by (induction cs arbitrary: s) (simp_all add: cache_store_def)

lemma delete_ok:
  assumes ok: "world_ok s" and pc: "wk_pc (wd_workers s w) = P_Exit"
  shows "world_ok (worker_delete w s)"
proof -
  let ?wk = "wd_workers s w" let ?s = "worker_delete w s"
  have s': "?s = set_worker w (?wk\<lparr>wk_ready := []\<rparr>) (s\<lparr>wd_cache := wd_cache s @ wk_ready ?wk\<rparr>)"
    by (simp add: worker_delete_def fold_cache_store)
  note idle = idle_okD [OF world_okD(4) [OF ok]]
  have "idle_ok ?s"
  proof (rule idle_okI)
    have same: "idle_ctx ?s d = idle_ctx s d" for d by (simp add: s' idle_ctx_def)
    have disj: "set (wk_ready (wd_workers s v)) \<inter> set (wd_cache s) = {}" for v using idle(5) by blast
    show "distinct (wd_cache ?s)" using idle(1,3) disj [of w] by (auto simp: s')
    show "idle_ctx ?s d" if "d \<in> set (wd_cache ?s)" for d using that idle(2,4) same by (auto simp: s')
    show "distinct (wk_ready (wd_workers ?s v))" for v using idle(3) by (simp add: s')
    show "idle_ctx ?s d \<and> d \<notin> set (wd_cache ?s)" if "d \<in> set (wk_ready (wd_workers ?s v))" for d v
    proof -
      have v: "v \<noteq> w" "d \<in> set (wk_ready (wd_workers s v))" using that by (auto simp: s' split: if_splits)
      then have "d \<notin> set (wk_ready ?wk)" using idle(6) by blast
      then show ?thesis using idle(4,5) v(2) same by (auto simp: s')
    qed
    show "v = v'" if "d \<in> set (wk_ready (wd_workers ?s v))" "d \<in> set (wk_ready (wd_workers ?s v'))" for d v v'
      using that idle(6) by (auto simp: s' split: if_splits)
  qed
  moreover have "ctxs_ok ?s" by (rule ctxs_ok_cong [OF world_okD(5) [OF ok]])
    (auto simp: s' active_def live_def running_def split: if_splits)
  moreover have "queued_ok ?s" using world_okD(1) [OF ok] by (auto simp: s' queued_ok_def)
  moreover have "pc_ok ?s w" using world_okD(3) [OF ok, of w] pc by (auto simp: s' pc_ok_def)
  ultimately show ?thesis using tasks_okD(1) [OF world_okD(2) [OF ok]] by (intro own_step_keep [OF ok, of w ?s]) (simp_all add: s')
qed

lemma set_places_ok: "world_ok s \<Longrightarrow> world_ok (set_worker w ((wd_workers s w)\<lparr>wk_places := ps\<rparr>) s)" (is "_ \<Longrightarrow> world_ok ?s")
  and shutdown_ok: "world_ok s \<Longrightarrow> world_ok (set_worker w ((wd_workers s w)\<lparr>wk_done := True\<rparr>) s)" (is "_ \<Longrightarrow> world_ok ?t")
proof -
  assume ok: "world_ok s"
  note pc = world_okD(3) [OF ok, of w] and keep = tasks_okD(1) [OF world_okD(2) [OF ok]]
  show "world_ok ?s"
  proof (rule own_step_keep [OF ok, of w])
    show "ctxs_ok ?s" by (rule ctxs_ok_cong [OF world_okD(5) [OF ok]]) (auto simp: active_def live_def running_def split: if_splits)
    show "idle_ok ?s" by (rule idle_ok_cong [OF world_okD(4) [OF ok]]) (auto simp: idle_ctx_def)
    show "queued_ok ?s" using world_okD(1) [OF ok] by (auto simp: queued_ok_def)
    show "pc_ok ?s w" using pc by (cases "wk_pc (wd_workers s w)") (auto simp: pc_ok_def Let_def)
  qed (use keep in simp_all)
  show "world_ok ?t"
  proof (rule own_step_keep [OF ok, of w])
    show "ctxs_ok ?t" by (rule ctxs_ok_cong [OF world_okD(5) [OF ok]]) (auto simp: active_def live_def running_def split: if_splits)
    show "idle_ok ?t" by (rule idle_ok_cong [OF world_okD(4) [OF ok]]) (auto simp: idle_ctx_def)
    show "queued_ok ?t" using world_okD(1) [OF ok] by (auto simp: queued_ok_def)
    show "pc_ok ?t w" using pc by (cases "wk_pc (wd_workers s w)") (auto simp: pc_ok_def Let_def)
  qed (use keep in simp_all)
qed

text \<open>A task that no worker has is created or woken.\<close>

lemma free_task_step:
  assumes ok: "world_ok s" and free: "\<And>w. wk_task (wd_workers s w) \<noteq> Some t" "t \<notin> set (wd_queue s)"
    and ob: "\<not> get_keep_thread (to_flags ob)" "task_state (to_flags ob) = READY \<or> task_state (to_flags ob) = SUSPENDED"
    and was: "t = wd_ntasks s \<and> n = wd_ntasks s + 1 \<and> \<not> has_started (to_flags ob)
      \<or> t < wd_ntasks s \<and> n = wd_ntasks s \<and> x = wd_task_ctx s t \<and> (has_started (to_flags ob) \<longrightarrow> live s t)"
  shows "world_ok (s\<lparr>wd_tasks := (wd_tasks s)(t := ob), wd_task_ctx := (wd_task_ctx s)(t := x), wd_ntasks := n, wd_queue := wd_queue s @ [t]\<rparr>)"
    (is "world_ok ?s")
proof -
  note tok = tasks_okD [OF world_okD(2) [OF ok]] and q = queued_okD [OF world_okD(1) [OF ok]]
  have "tasks_ok ?s" using tok ob(1) was unfolding tasks_ok_def by (auto intro: less_SucI)
  moreover have "queued_ok ?s" using q free ob(2) was by (auto simp: queued_ok_def intro: less_SucI)
  moreover have "pc_ok ?s v" for v using world_okD(3) [OF ok, of v] free(1) [of v]
    by (auto simp: pc_ok_def Let_def split: worker_pc.splits)
  moreover have "idle_ok ?s" by (rule idle_ok_cong [OF world_okD(4) [OF ok]]) (auto simp: idle_ctx_def)
  moreover have "ctxs_ok ?s"
  proof (rule ctxs_ok_cong [OF world_okD(5) [OF ok]])
    have run: "running ?s u = running s u" for u by (simp add: running_def)
    show "live s u \<and> \<not> running s u \<and> wd_task_ctx ?s u = wd_task_ctx s u" if "live ?s u" "\<not> running ?s u" for u
      using that was unfolding run by (cases "u = t") (auto simp: live_def)
  qed auto
  ultimately show ?thesis by (simp add: world_ok_def)
qed

lemma spawn_ok: "world_ok s \<Longrightarrow> \<exists>s'. worker_event Spawn s = Some s' \<and> world_ok s'"
proof -
  assume ok: "world_ok s"
  have "wd_ntasks s \<notin> set (wd_queue s)" using queued_okD(2) [OF world_okD(1) [OF ok]] by blast
  then show ?thesis using free_task_step [OF ok no_task_new [OF ok], of task_new "wd_ntasks s + 1" None] by simp
qed

lemma wake_ok: "world_ok s \<Longrightarrow> \<exists>s'. worker_event (Wake t) s = Some s' \<and> world_ok s'"
proof -
  assume ok: "world_ok s"
  show ?thesis
  proof (cases "t < wd_ntasks s \<and> state_of s t = WAITING")
    case True
    have free: "wk_task (wd_workers s w) \<noteq> Some t" for w
      using world_okD(3) [OF ok, of w] True by (auto simp: pc_ok_def Let_def split: worker_pc.splits)
    have notq: "t \<notin> set (wd_queue s)" using queued_okD(3) [OF world_okD(1) [OF ok], of t] True by auto
    let ?ob = "(wd_tasks s t)\<lparr>to_flags := set_state SUSPENDED (to_flags (wd_tasks s t))\<rparr>"
    have "world_ok (s\<lparr>wd_tasks := (wd_tasks s)(t := ?ob), wd_task_ctx := (wd_task_ctx s)(t := wd_task_ctx s t),
        wd_ntasks := wd_ntasks s, wd_queue := wd_queue s @ [t]\<rparr>)"
      by (rule free_task_step [OF ok free notq]) (use True tasks_okD(1) [OF world_okD(2) [OF ok]] in \<open>auto simp: live_def\<close>)
    moreover have "s\<lparr>wd_tasks := (wd_tasks s)(t := ?ob), wd_task_ctx := (wd_task_ctx s)(t := wd_task_ctx s t),
        wd_ntasks := wd_ntasks s, wd_queue := wd_queue s @ [t]\<rparr> = (set_task t ?ob s)\<lparr>wd_queue := wd_queue s @ [t]\<rparr>" by simp
    ultimately show ?thesis using True by (simp add: task_notify_def)
  qed (use ok in auto)
qed

section \<open>Properties\<close>

lemma event_ok:
  assumes "world_ok s"
  shows "\<exists>s'. worker_event e s = Some s' \<and> world_ok s'"
proof (cases e)
  case Spawn
  then show ?thesis using spawn_ok [OF assms] by simp
next
  case (Wake t)
  then show ?thesis using wake_ok [OF assms, of t] by (simp only:)
next
  case (Run w)
  then show ?thesis using assms run_ok [OF assms, of w] by simp
next
  case (Loop w waiting)
  then show ?thesis using assms loop_top_ok [OF assms, of w] by simp
next
  case (Get w i)
  then show ?thesis using assms get_ok [OF assms, of w] by simp
next
  case (Dispatch w)
  then show ?thesis using assms dispatch_ok [OF assms, of w] by simp
next
  case (Return w)
  then show ?thesis using assms returns_ok [OF assms, of w] by simp
next
  case (Wait w refs)
  then show ?thesis using assms wait_ok [OF assms, of w] by simp
next
  case (Places w ps)
  then show ?thesis using assms set_places_ok [OF assms, of w] by simp
next
  case (Shutdown w)
  then show ?thesis using shutdown_ok [OF assms, of w] by simp
next
  case (Delete w)
  then show ?thesis using assms delete_ok [OF assms, of w] by simp
qed

lemma events_ok:
  assumes "world_ok s"
  shows "\<exists>s'. run_events es s = Some s' \<and> world_ok s'"
  using assms
proof (induction es arbitrary: s)
  case (Cons e es)
  obtain s1 where "worker_event e s = Some s1" "world_ok s1" using event_ok [OF Cons.prems] by blast
  then show ?case using Cons.IH by simp
qed simp

lemma reachable_ok: "run_events es world_init = Some s \<Longrightarrow> world_ok s"
  using events_ok [OF world_init_ok, of es] by auto

text \<open>
  C5: The switching of tasks and contexts is safe. Whatever happens in whatever order (workers start,
  get tasks, are stopped and deleted, tasks are created, wait, yield, are woken and end), no
  assertion of the tasks and workers fails, every jump goes to a context whose saved point is the
  one the jump relies on, a task ends on the worker it returns to, and no two workers are on the
  same context. This is for tasks that are not bound to a thread.
\<close>

theorem workers_never_fail:
  "\<exists>s. run_events es world_init = Some s
    \<and> (\<nexists>v w. v \<noteq> w \<and> active (wd_workers s v) \<and> active (wd_workers s w) \<and> wk_ctx (wd_workers s v) = wk_ctx (wd_workers s w))
    \<and> (\<nexists>v w t. v \<noteq> w \<and> wk_task (wd_workers s v) = Some t \<and> wk_task (wd_workers s w) = Some t)"
proof -
  obtain s where s: "run_events es world_init = Some s" "world_ok s" using events_ok [OF world_init_ok] by blast
  then show ?thesis using ctxs_okD(2) [OF world_okD(5) [OF s(2)]] tasks_okD(3) [OF world_okD(2) [OF s(2)]] by blast
qed

text \<open>A worker that has ended with a task keeps it for ever.\<close>

definition lost :: "nat \<Rightarrow> nat \<Rightarrow> 'p world \<Rightarrow> bool" where
  "lost w t s \<longleftrightarrow> wk_pc (wd_workers s w) = P_Exit \<and> wk_task (wd_workers s w) = Some t \<and> state_of s t = RUNNING"

definition keeps :: "nat \<Rightarrow> nat \<Rightarrow> 'p world \<Rightarrow> 'p world \<Rightarrow> bool" where
  "keeps w t s s' \<longleftrightarrow> wd_tasks s' t = wd_tasks s t \<and> wk_pc (wd_workers s' w) = wk_pc (wd_workers s w)
     \<and> wk_task (wd_workers s' w) = wk_task (wd_workers s w)"

lemma neutral_keeps:
  assumes "world_ok s" "get_neutral_context v s = (c, s')"
  shows "keeps w t s s'"
  using same_tasks_fields [OF get_neutral_context_spec(4) [OF world_okD(4) [OF assms(1)] assms(2)]] by (simp add: keeps_def)

lemma event_keeps:
  assumes ok: "world_ok s" and lost: "lost w t s" and step: "worker_event e s = Some s'"
  shows "keeps w t s s'"
proof -
  have w: "wk_pc (wd_workers s w) = P_Exit" "wk_task (wd_workers s w) = Some t" "state_of s t = RUNNING" using lost by (simp_all add: lost_def)
  have alone: "v \<noteq> w \<Longrightarrow> wk_task (wd_workers s v) \<noteq> Some t" for v using tasks_okD(3) [OF world_okD(2) [OF ok] _ w(2)] by blast
  have notq: "t \<notin> set (wd_queue s)" using queued_okD(4) [OF world_okD(1) [OF ok]] w(2) by blast
  have exit: "exit_loop v s = Some s' \<Longrightarrow> v \<noteq> w \<Longrightarrow> keeps w t s s'" for v
    by (auto simp: exit_loop_def keeps_def bind_eq_Some_conv)
  show ?thesis
  proof (cases e)
    case (Run v)
    then show ?thesis
    proof (cases "wk_pc (wd_workers s v) = P_Native")
      case True
      obtain c s1 where g: "get_neutral_context v s = (c, s1)" by fastforce
      show ?thesis using neutral_keeps [OF ok g, of w t] step Run True g w(1)
        by (auto simp: worker_run_def keeps_def enter_loop_def split: if_splits)
    qed (use step in \<open>simp add: keeps_def\<close>)
  next
    case (Loop v b)
    then show ?thesis using step w alone [of v] exit [of v]
      by (cases "v = w") (auto simp: keeps_def loop_top_def Let_def bind_eq_Some_conv split: if_splits option.splits)
  next
    case (Get v i)
    then show ?thesis using step w alone [of v] exit [of v]
      by (cases "v = w") (auto simp: keeps_def get_new_task_def Let_def split: if_splits)
  next
    case (Dispatch v)
    then show ?thesis using step w alone [of v]
      by (cases "v = w") (auto simp: keeps_def dispatch_def enter_task_def Let_def bind_eq_Some_conv put_neutral_context_def split: if_splits)
  next
    case (Return v)
    then show ?thesis using step w alone [of v]
      by (cases "v = w") (auto simp: keeps_def task_returns_def Let_def bind_eq_Some_conv split: if_splits)
  next
    case (Wait v refs)
    show ?thesis
    proof (cases "wk_pc (wd_workers s v) = P_Running")
      case True
      let ?a = "set_worker v ((wd_workers s v)\<lparr>wk_waits := refs\<rparr>) s"
      obtain c s1 where g: "get_neutral_context v ?a = (c, s1)" by fastforce
      have "idle_ok ?a" by (rule idle_ok_cong [OF world_okD(4) [OF ok]]) (auto simp: idle_ctx_def)
      note same = same_tasks_fields [OF get_neutral_context_spec(4) [OF this g]]
      show ?thesis using step Wait True g w(1) same
        by (auto simp: curr_task_wait_def keeps_def enter_loop_def Let_def bind_eq_Some_conv split: if_splits)
    qed (use step Wait in \<open>simp add: keeps_def\<close>)
  next
    case (Delete v)
    then show ?thesis using step by (auto simp: keeps_def worker_delete_def fold_cache_store split: if_splits)
  next
    case Spawn
    then show ?thesis using step tasks_okD(2) [OF world_okD(2) [OF ok] w(2)] by (auto simp: keeps_def)
  next
    case (Wake u)
    then show ?thesis using step w(3) by (auto simp: keeps_def bind_eq_Some_conv split: if_splits)
  qed (use step w in \<open>auto simp: keeps_def split: if_splits\<close>)
qed

lemma events_lost:
  assumes "world_ok s" "lost w t s" "run_events es s = Some s'"
  shows "lost w t s'"
  using assms
proof (induction es arbitrary: s)
  case (Cons e es)
  obtain s1 where s1: "worker_event e s = Some s1" "run_events es s1 = Some s'" using Cons.prems(3) by (auto simp: bind_eq_Some_conv)
  have "lost w t s1" using event_keeps [OF Cons.prems(1,2) s1(1)] Cons.prems(2) by (simp add: lost_def keeps_def)
  moreover have "world_ok s1" using event_ok [OF Cons.prems(1), of e] s1(1) by auto
  ultimately show ?case using Cons.IH s1(2) by blast
qed simp

text \<open>
  C21: A worker that is told to stop while it runs a task loses the task if the task then waits or
  yields: the context the worker goes on in finds the loop at its end before it has looked
  after the task. Whatever happens afterwards, the task stays in the state of a running task, in
  no queue, and never completes.
\<close>

theorem stopped_worker_loses_task:
  assumes "run_events es world_init = Some s" "wk_pc (wd_workers s w) = P_Running" "wk_task (wd_workers s w) = Some t"
  shows "\<exists>s'. run_events (Shutdown w # Wait w refs # Loop w waiting # later) s = Some s'
    \<and> task_state (to_flags (wd_tasks s' t)) = RUNNING \<and> t \<notin> set (wd_queue s') \<and> wk_pc (wd_workers s' w) = P_Exit"
proof -
  have ok: "world_ok s" using reachable_ok [OF assms(1)] .
  let ?a = "set_worker w ((wd_workers s w)\<lparr>wk_done := True\<rparr>) s"
  have aok: "world_ok ?a" using shutdown_ok [OF ok] .
  obtain b where b: "worker_event (Wait w refs) ?a = Some b" "world_ok b" using event_ok [OF aok] by blast
  obtain c where c: "worker_event (Loop w waiting) b = Some c" "world_ok c" using event_ok [OF b(2)] by blast
  obtain s' where s': "run_events later c = Some s'" "world_ok s'" using events_ok [OF c(2)] by blast
  have "state_of s t = RUNNING" using world_okD(3) [OF ok, of w] assms(2,3) by (auto simp: pc_ok_def)
  then have b': "wk_pc (wd_workers b w) = P_Top \<and> wk_task (wd_workers b w) = Some t \<and> wk_done (wd_workers b w) \<and> state_of b t = RUNNING"
  proof -
    let ?x = "set_worker w ((wd_workers ?a w)\<lparr>wk_waits := refs\<rparr>) ?a"
    obtain d s1 where g: "get_neutral_context w ?x = (d, s1)" by fastforce
    have "idle_ok ?x" by (rule idle_ok_cong [OF world_okD(4) [OF ok]]) (auto simp: idle_ctx_def)
    note same = same_tasks_fields [OF get_neutral_context_spec(4) [OF this g]]
    show ?thesis using b(1) assms(2,3) g same \<open>state_of s t = RUNNING\<close>
      by (auto simp: curr_task_wait_def enter_loop_def Let_def bind_eq_Some_conv split: if_splits)
  qed
  have "lost w t c" using c(1) b' by (auto simp: loop_top_def exit_loop_def lost_def Let_def bind_eq_Some_conv)
  then have "lost w t s'" using events_lost [OF c(2) _ s'(1)] by blast
  moreover from this have "t \<notin> set (wd_queue s')" using queued_okD(4) [OF world_okD(1) [OF s'(2)]] by (auto simp: lost_def)
  moreover have "run_events (Shutdown w # Wait w refs # Loop w waiting # later) s = Some s'"
    using b(1) c(1) s'(1) by simp
  ultimately show ?thesis by (auto simp: lost_def)
qed

lemma demo_worker_running:
  "\<exists>s. run_events [Spawn, Run 0, Loop 0 False, Get 0 0, Dispatch 0] world_init = Some s
    \<and> wk_pc (wd_workers s 0) = P_Running \<and> wk_task (wd_workers s 0) = Some 0"
  by (simp add: world_init_def worker_new_def worker_run_def get_neutral_context_def cache_get_def enter_loop_def loop_top_def
      get_new_task_def dispatch_def task_schedule_def task_run_def Let_def)

theorem stopped_worker_loses_task_wit:
  "\<exists>s s' :: nat world. run_events [Spawn, Run 0, Loop 0 False, Get 0 0, Dispatch 0] world_init = Some s
    \<and> run_events [Shutdown 0, Wait 0 [], Loop 0 False, Run 1, Loop 1 False, Get 1 0, Wake 0] s = Some s'
    \<and> task_state (to_flags (wd_tasks s' 0)) = RUNNING \<and> 0 \<notin> set (wd_queue s') \<and> wk_pc (wd_workers s' 0) = P_Exit"
proof -
  obtain s :: "nat world" where s: "run_events [Spawn, Run 0, Loop 0 False, Get 0 0, Dispatch 0] world_init = Some s"
    "wk_pc (wd_workers s 0) = P_Running" "wk_task (wd_workers s 0) = Some 0" using demo_worker_running by blast
  show ?thesis using s(1) stopped_worker_loses_task [OF s, of "[]" False "[Run 1, Loop 1 False, Get 1 0, Wake 0]"] by blast
qed

end
