(* ===== verification/Hash_Table.thy ===== *)
theory Hash_Table
  imports Prelude Topology
begin

unbundle bit_operations_syntax

text \<open>
  \<open>src/include/PGASUS/hashtable/hashtable.hpp\<close>: a table of bins, each on one NUMA node, each a
  space of buckets that doubles when it is too full. Buckets and nodes are objects on the heap,
  named by numbers; the table and its iterators hold their names. The number of bin bits, the hash
  function and the default value of the mapped type, which are template arguments, are arguments.
  A failed assertion is \<open>None\<close>.
\<close>

section \<open>Objects\<close>

record ('k, 'v) hnode =
  hn_hash :: u64
  hn_key :: 'k
  hn_value :: 'v

record bucket =
  bk_index :: nat
  bk_generation :: u64
  bk_nodes :: "nat list"

record ('k, 'v) hmem =
  hm_nodes :: "nat \<Rightarrow> ('k, 'v) hnode option"
  hm_buckets :: "nat \<Rightarrow> bucket option"
  hm_next :: nat

definition the_node :: "('k, 'v) hmem \<Rightarrow> nat \<Rightarrow> ('k, 'v) hnode" where
  "the_node mem a = the (hm_nodes mem a)"

definition the_bucket :: "('k, 'v) hmem \<Rightarrow> nat \<Rightarrow> bucket" where
  "the_bucket mem b = the (hm_buckets mem b)"

definition bucket_nodes :: "('k, 'v) hmem \<Rightarrow> nat \<Rightarrow> nat list" where
  "bucket_nodes mem b = bk_nodes (the_bucket mem b)"

definition key_at :: "('k, 'v) hmem \<Rightarrow> nat \<Rightarrow> 'k" where
  "key_at mem a = hn_key (the_node mem a)"

definition on_bucket :: "(bucket \<Rightarrow> bucket) \<Rightarrow> nat \<Rightarrow> ('k, 'v) hmem \<Rightarrow> ('k, 'v) hmem" where
  "on_bucket f b mem = mem\<lparr>hm_buckets := (hm_buckets mem)(b \<mapsto> f (the_bucket mem b))\<rparr>"

definition bucket_new :: "nat \<Rightarrow> u64 \<Rightarrow> bucket" where
  "bucket_new idx gen = \<lparr>bk_index = idx, bk_generation = push_bit 32 gen, bk_nodes = []\<rparr>"

text \<open>The object is built at the next free name.\<close>

definition construct_bucket :: "nat \<Rightarrow> u64 \<Rightarrow> ('k, 'v) hmem \<Rightarrow> nat \<times> ('k, 'v) hmem" where
  "construct_bucket idx gen mem =
     (hm_next mem, mem\<lparr>hm_buckets := (hm_buckets mem)(hm_next mem \<mapsto> bucket_new idx gen), hm_next := hm_next mem + 1\<rparr>)"

definition construct_node :: "u64 \<Rightarrow> 'k \<Rightarrow> 'v \<Rightarrow> ('k, 'v) hmem \<Rightarrow> nat \<times> ('k, 'v) hmem" where
  "construct_node h key v mem =
     (hm_next mem, mem\<lparr>hm_nodes := (hm_nodes mem)(hm_next mem \<mapsto> \<lparr>hn_hash = h, hn_key = key, hn_value = v\<rparr>),
                      hm_next := hm_next mem + 1\<rparr>)"

section \<open>Bucket spaces\<close>

text \<open>A space is the list of its buckets; its mask is its size less one. The size must be a power of two.\<close>

fun construct_buckets :: "nat list \<Rightarrow> u64 \<Rightarrow> ('k, 'v) hmem \<Rightarrow> nat list \<times> ('k, 'v) hmem" where
  "construct_buckets [] gen mem = ([], mem)"
| "construct_buckets (i # is) gen mem =
     (let (b, mem) = construct_bucket i gen mem;
          (bs, mem) = construct_buckets is gen mem
      in (b # bs, mem))"

definition bucket_space_new :: "nat \<Rightarrow> u64 \<Rightarrow> ('k, 'v) hmem \<Rightarrow> (nat list \<times> ('k, 'v) hmem) option" where
  "bucket_space_new sz gen mem =
     (if (of_nat sz :: u64) AND (of_nat sz - 1) = 0 then Some (construct_buckets [0..<sz] gen mem) else None)"

definition bucket_index :: "nat \<Rightarrow> nat \<Rightarrow> u64 \<Rightarrow> nat" where
  "bucket_index bits n h = unat (drop_bit bits h AND (of_nat n - 1))"

definition from_hash :: "nat \<Rightarrow> nat list \<Rightarrow> u64 \<Rightarrow> nat" where
  "from_hash bits bs h = bs ! bucket_index bits (length bs) h"

definition itemCount :: "('k, 'v) hmem \<Rightarrow> nat list \<Rightarrow> nat" where
  "itemCount mem bs = sum_list (map (\<lambda>b. length (bucket_nodes mem b)) bs)"

section \<open>Bins\<close>

text \<open>\<open>bd_buckets\<close> is \<open>[]\<close> where the pointer is null. The load factor is 3; its products are exact.\<close>

record bin =
  bd_index :: nat
  bd_max_count :: nat
  bd_generation :: u64
  bd_buckets :: "nat list"
  bd_count :: nat

fun rehash :: "nat \<Rightarrow> ('k \<Rightarrow> u64) \<Rightarrow> nat list \<Rightarrow> nat list \<Rightarrow> ('k, 'v) hmem \<Rightarrow> ('k, 'v) hmem" where
  "rehash bits hash bs [] mem = mem"
| "rehash bits hash bs (a # as) mem =
     rehash bits hash bs as
       (on_bucket (\<lambda>bk. bk\<lparr>bk_nodes := bk_nodes bk @ [a]\<rparr>) (from_hash bits bs (hash (key_at mem a))) mem)"

definition resize :: "nat \<Rightarrow> ('k \<Rightarrow> u64) \<Rightarrow> nat \<Rightarrow> bin \<Rightarrow> ('k, 'v) hmem \<Rightarrow> (bin \<times> ('k, 'v) hmem) option" where
  "resize bits hash sz bd mem = do {
     let gen = bd_generation bd + 1;
     let old = concat (map (bucket_nodes mem) (bd_buckets bd));
     (bs, mem) \<leftarrow> bucket_space_new sz gen mem;
     Some (bd\<lparr>bd_max_count := 3 * sz, bd_generation := gen, bd_buckets := bs\<rparr>, rehash bits hash bs old mem) }"

definition resize_if_necessary :: "nat \<Rightarrow> ('k \<Rightarrow> u64) \<Rightarrow> bin \<Rightarrow> ('k, 'v) hmem \<Rightarrow> (bin \<times> ('k, 'v) hmem) option" where
  "resize_if_necessary bits hash bd mem =
     (if bd_max_count bd \<le> bd_count bd then resize bits hash (2 * length (bd_buckets bd)) bd mem else Some (bd, mem))"

definition bin_create :: "nat \<Rightarrow> ('k \<Rightarrow> u64) \<Rightarrow> nat \<Rightarrow> ('k, 'v) hmem \<Rightarrow> (bin \<times> ('k, 'v) hmem) option" where
  "bin_create bits hash idx mem =
     resize bits hash 64 \<lparr>bd_index = idx, bd_max_count = 0, bd_generation = 0, bd_buckets = [], bd_count = 0\<rparr> mem"

definition add_to_bucket :: "nat \<Rightarrow> 'k \<Rightarrow> u64 \<Rightarrow> 'v \<Rightarrow> bin \<Rightarrow> ('k, 'v) hmem \<Rightarrow> nat \<times> bin \<times> ('k, 'v) hmem" where
  "add_to_bucket b key h v bd mem =
     (let (a, mem) = construct_node h key v mem
      in (a, bd\<lparr>bd_count := bd_count bd + 1\<rparr>,
          on_bucket (\<lambda>bk. bk\<lparr>bk_nodes := bk_nodes bk @ [a], bk_generation := bk_generation bk + 1\<rparr>) b mem))"

text \<open>The search of a bucket: the position of the node with that hash and key.\<close>

fun search_bucket :: "('k, 'v) hmem \<Rightarrow> u64 \<Rightarrow> 'k \<Rightarrow> nat list \<Rightarrow> nat \<Rightarrow> nat option" where
  "search_bucket mem h key [] i = None"
| "search_bucket mem h key (a # as) i =
     (if hn_hash (the_node mem a) = h \<and> key_at mem a = key then Some i else search_bucket mem h key as (Suc i))"

text \<open>
  \<open>operate_on_bin\<close>. The class \<open>Detail\<close> is given by whether it modifies the bin, and its functions
  \<open>found\<close>, of the position and the bucket, and \<open>notfound\<close>. The model is of one operation at a time:
  the read lock of the bin and the guard of the bucket, which is released between the search and
  \<open>notfound\<close>, are left out.
\<close>

definition operate_on_bin :: "nat \<Rightarrow> ('k \<Rightarrow> u64) \<Rightarrow> bool \<Rightarrow> (nat \<Rightarrow> nat \<Rightarrow> bin \<Rightarrow> ('k, 'v) hmem \<Rightarrow> 'r) \<Rightarrow>
    (nat \<Rightarrow> bin \<Rightarrow> ('k, 'v) hmem \<Rightarrow> 'r) \<Rightarrow> 'k \<Rightarrow> u64 \<Rightarrow> bin \<Rightarrow> ('k, 'v) hmem \<Rightarrow> 'r option" where
  "operate_on_bin bits hash modifies found notfound key h bd mem = do {
     (bd, mem) \<leftarrow> (if modifies \<and> bd_max_count bd \<le> bd_count bd then resize_if_necessary bits hash bd mem
                  else Some (bd, mem));
     let b = from_hash bits (bd_buckets bd) h;
     Some (case search_bucket mem h key (bucket_nodes mem b) 0 of
             Some i \<Rightarrow> found i b bd mem
           | None \<Rightarrow> notfound b bd mem) }"

text \<open>\<open>GetOrCreate\<close> gives a reference to the value, which is named by its node.\<close>

definition get_or_create :: "nat \<Rightarrow> ('k \<Rightarrow> u64) \<Rightarrow> 'v \<Rightarrow> 'k \<Rightarrow> u64 \<Rightarrow> bin \<Rightarrow> ('k, 'v) hmem \<Rightarrow>
    (nat \<times> bin \<times> ('k, 'v) hmem) option" where
  "get_or_create bits hash dflt key h =
     operate_on_bin bits hash True
       (\<lambda>i b bd mem. (bucket_nodes mem b ! i, bd, mem))
       (\<lambda>b bd mem. add_to_bucket b key h dflt bd mem) key h"

definition erase_nth :: "nat \<Rightarrow> 'a list \<Rightarrow> 'a list" where
  "erase_nth i xs = take i xs @ drop (Suc i) xs"

definition bin_remove :: "nat \<Rightarrow> ('k \<Rightarrow> u64) \<Rightarrow> 'k \<Rightarrow> u64 \<Rightarrow> bin \<Rightarrow> ('k, 'v) hmem \<Rightarrow> (bool \<times> bin \<times> ('k, 'v) hmem) option" where
  "bin_remove bits hash key h =
     operate_on_bin bits hash False
       (\<lambda>i b bd mem. (True, bd\<lparr>bd_count := bd_count bd - 1\<rparr>,
          on_bucket (\<lambda>bk. bk\<lparr>bk_nodes := erase_nth i (bk_nodes bk), bk_generation := bk_generation bk + 1\<rparr>) b mem))
       (\<lambda>b bd mem. (False, bd, mem)) key h"

section \<open>The table\<close>

record ('k, 'v) hash_table =
  ht_bins :: "bin list"
  ht_nodes :: "node list"
  ht_mem :: "('k, 'v) hmem"

definition bin_count :: "nat \<Rightarrow> nat" where "bin_count bits = 2 ^ bits"

definition get_bin_index :: "nat \<Rightarrow> u64 \<Rightarrow> nat" where
  "get_bin_index bits h = unat (h AND (of_nat (bin_count bits) - 1))"

text \<open>The constructor: bin \<open>idx\<close> is on node \<open>idx * nodes / bins\<close> of the list, which must not be empty.\<close>

definition bin_place :: "nat \<Rightarrow> 'n list \<Rightarrow> nat \<Rightarrow> 'n option" where
  "bin_place bits nodes idx =
     (let i = idx * length nodes div bin_count bits in if i < length nodes then Some (nodes ! i) else None)"

fun create_bins :: "nat \<Rightarrow> ('k \<Rightarrow> u64) \<Rightarrow> node list \<Rightarrow> nat list \<Rightarrow> ('k, 'v) hmem \<Rightarrow>
    (bin list \<times> node list \<times> ('k, 'v) hmem) option" where
  "create_bins bits hash nodes [] mem = Some ([], [], mem)"
| "create_bins bits hash nodes (idx # is) mem = do {
     n \<leftarrow> bin_place bits nodes idx;
     (bd, mem) \<leftarrow> bin_create bits hash idx mem;
     (bds, ns, mem) \<leftarrow> create_bins bits hash nodes is mem;
     Some (bd # bds, n # ns, mem) }"

definition table_new :: "nat \<Rightarrow> ('k \<Rightarrow> u64) \<Rightarrow> node list \<Rightarrow> ('k, 'v) hash_table option" where
  "table_new bits hash nodes = do {
     (bds, ns, mem) \<leftarrow> create_bins bits hash nodes [0..<bin_count bits]
       \<lparr>hm_nodes = Map.empty, hm_buckets = Map.empty, hm_next = 0\<rparr>;
     Some \<lparr>ht_bins = bds, ht_nodes = ns, ht_mem = mem\<rparr> }"

definition table_size :: "('k, 'v) hash_table \<Rightarrow> nat" where
  "table_size t = sum_list (map bd_count (ht_bins t))"

definition table_nodes :: "('k, 'v) hash_table \<Rightarrow> node list" where
  "table_nodes t = remdups_adj (ht_nodes t)"

text \<open>An operation on the bin of a key.\<close>

definition on_bin :: "nat \<Rightarrow> ('k \<Rightarrow> u64) \<Rightarrow> 'k \<Rightarrow> (u64 \<Rightarrow> bin \<Rightarrow> ('k, 'v) hmem \<Rightarrow> ('r \<times> bin \<times> ('k, 'v) hmem) option) \<Rightarrow>
    ('k, 'v) hash_table \<Rightarrow> ('r \<times> ('k, 'v) hash_table) option" where
  "on_bin bits hash key f t = do {
     let h = hash key;
     let i = get_bin_index bits h;
     (r, bd, mem) \<leftarrow> f h (ht_bins t ! i) (ht_mem t);
     Some (r, t\<lparr>ht_bins := (ht_bins t)[i := bd], ht_mem := mem\<rparr>) }"

text \<open>\<open>operator[]\<close>, \<open>remove\<close>, and reading and writing through the reference.\<close>

definition table_index :: "nat \<Rightarrow> ('k \<Rightarrow> u64) \<Rightarrow> 'v \<Rightarrow> 'k \<Rightarrow> ('k, 'v) hash_table \<Rightarrow> (nat \<times> ('k, 'v) hash_table) option" where
  "table_index bits hash dflt key = on_bin bits hash key (get_or_create bits hash dflt key)"

definition table_remove :: "nat \<Rightarrow> ('k \<Rightarrow> u64) \<Rightarrow> 'k \<Rightarrow> ('k, 'v) hash_table \<Rightarrow> (bool \<times> ('k, 'v) hash_table) option" where
  "table_remove bits hash key = on_bin bits hash key (bin_remove bits hash key)"

definition read_ref :: "nat \<Rightarrow> ('k, 'v) hash_table \<Rightarrow> 'v" where
  "read_ref a t = hn_value (the_node (ht_mem t) a)"

definition write_ref :: "nat \<Rightarrow> 'v \<Rightarrow> ('k, 'v) hash_table \<Rightarrow> ('k, 'v) hash_table" where
  "write_ref a v t = t\<lparr>ht_mem := (ht_mem t)\<lparr>hm_nodes := (hm_nodes (ht_mem t))
     (a \<mapsto> (the_node (ht_mem t) a)\<lparr>hn_value := v\<rparr>)\<rparr>\<rparr>"

text \<open>The body of the task of \<open>insertAsync\<close>, and the node it is sent to.\<close>

definition insert_async :: "nat \<Rightarrow> ('k \<Rightarrow> u64) \<Rightarrow> 'v \<Rightarrow> 'k \<Rightarrow> 'v \<Rightarrow> ('k, 'v) hash_table \<Rightarrow>
    (node \<times> nat \<times> ('k, 'v) hash_table) option" where
  "insert_async bits hash dflt key v t = do {
     (a, t) \<leftarrow> table_index bits hash dflt key t;
     Some (ht_nodes t ! get_bin_index bits (hash key), a, write_ref a v t) }"

end
