(* ===== verification/Iteration.thy ===== *)
theory Iteration
  imports Hash_Table
begin

text \<open>
  \<open>src/include/PGASUS/hashtable/containers.hpp\<close> and the iterators of \<open>hashtable.hpp\<close>: the iterator over
  a bucket, the recursive iterator that makes of it the iterators over a bucket space and over
  the table, the units of parallel iteration, and the chunks of a standard container.
\<close>

section \<open>Recursive iterators\<close>

text \<open>
  \<open>RecursiveIterator\<close>, a class template over \<open>get_sub_iter\<close> and the class of the iterators it makes.
  \<open>ri_sub\<close> of a default-constructed iterator is an argument.
\<close>

record 'i rec_iter =
  ri_curr :: nat
  ri_end :: nat
  ri_sub :: 'i

definition ri_is_end :: "'i rec_iter \<Rightarrow> bool" where
  "ri_is_end it \<longleftrightarrow> ri_end it \<le> ri_curr it"

function find_next :: "('i \<Rightarrow> bool) \<Rightarrow> (nat \<Rightarrow> 'i) \<Rightarrow> 'i rec_iter \<Rightarrow> bool \<times> 'i rec_iter" where
  "find_next sub_end sub_iter it =
     (if ri_curr it < ri_end it then
        let it = it\<lparr>ri_sub := sub_iter (ri_curr it)\<rparr>
        in if \<not> sub_end (ri_sub it) then (True, it)
           else find_next sub_end sub_iter (it\<lparr>ri_curr := ri_curr it + 1\<rparr>)
      else (False, it))"
  by pat_completeness auto
termination by (relation "measure (\<lambda>(_, _, it). ri_end it - ri_curr it)") auto

declare find_next.simps [simp del]

definition ri_init :: "('i \<Rightarrow> bool) \<Rightarrow> (nat \<Rightarrow> 'i) \<Rightarrow> 'i \<Rightarrow> nat \<Rightarrow> nat \<Rightarrow> 'i rec_iter" where
  "ri_init sub_end sub_iter fresh s e = snd (find_next sub_end sub_iter \<lparr>ri_curr = s, ri_end = e, ri_sub = fresh\<rparr>)"

definition ri_init_with_iter :: "nat \<Rightarrow> nat \<Rightarrow> 'i \<Rightarrow> 'i rec_iter" where
  "ri_init_with_iter s e sub = \<lparr>ri_curr = s, ri_end = e, ri_sub = sub\<rparr>"

definition ri_next :: "('i \<Rightarrow> bool) \<Rightarrow> (nat \<Rightarrow> 'i) \<Rightarrow> ('i \<Rightarrow> bool \<times> 'i) \<Rightarrow> 'i rec_iter \<Rightarrow> bool \<times> 'i rec_iter" where
  "ri_next sub_end sub_iter sub_next it =
     (if ri_is_end it then (False, it)
      else let (more, sub) = sub_next (ri_sub it);
               it = it\<lparr>ri_sub := sub\<rparr>
           in if more then (True, it) else find_next sub_end sub_iter (it\<lparr>ri_curr := ri_curr it + 1\<rparr>))"

section \<open>The iterators of the hash table\<close>

record bucket_iter =
  bi_bucket :: nat
  bi_generation :: u64
  bi_index :: nat
  bi_node :: "nat option"

definition bi_is_end :: "bucket_iter \<Rightarrow> bool" where "bi_is_end it \<longleftrightarrow> bi_node it = None"

definition update_curr_node :: "('k, 'v) hmem \<Rightarrow> bucket_iter \<Rightarrow> bucket_iter" where
  "update_curr_node mem it =
     (let ns = bucket_nodes mem (bi_bucket it)
      in it\<lparr>bi_node := if bi_index it \<noteq> length ns then Some (ns ! bi_index it) else None\<rparr>)"

definition bucket_iter_new :: "('k, 'v) hmem \<Rightarrow> nat \<Rightarrow> nat \<Rightarrow> bucket_iter" where
  "bucket_iter_new mem b pos =
     update_curr_node mem \<lparr>bi_bucket = b, bi_generation = bk_generation (the_bucket mem b), bi_index = pos, bi_node = None\<rparr>"

text \<open>The position of the first node whose hash is not below the given one, or the end.\<close>

fun first_from_hash :: "('k, 'v) hmem \<Rightarrow> u64 \<Rightarrow> nat list \<Rightarrow> nat" where
  "first_from_hash mem h [] = 0"
| "first_from_hash mem h (a # as) = (if hn_hash (the_node mem a) < h then Suc (first_from_hash mem h as) else 0)"

definition bi_next :: "('k, 'v) hmem \<Rightarrow> bucket_iter \<Rightarrow> bool \<times> bucket_iter" where
  "bi_next mem it =
     (case bi_node it of
        None \<Rightarrow> (False, it)
      | Some c \<Rightarrow>
          let bk = the_bucket mem (bi_bucket it);
              index = (if bi_generation it = bk_generation bk then bi_index it + 1
                       else first_from_hash mem (hn_hash (the_node mem c)) (bk_nodes bk));
              it = update_curr_node mem (it\<lparr>bi_index := index\<rparr>)
          in (\<not> bi_is_end it, it))"

definition bi_deref :: "bucket_iter \<Rightarrow> nat" where "bi_deref it = the (bi_node it)"

text \<open>A default-constructed iterator over a bucket.\<close>

definition bi_none :: bucket_iter where
  "bi_none = \<lparr>bi_bucket = 0, bi_generation = 0, bi_index = 0, bi_node = None\<rparr>"

text \<open>The iterator over a bucket space, from one bucket to another; it holds the space.\<close>

record space_iter =
  si_buckets :: "nat list"
  si_iter :: "bucket_iter rec_iter"

definition space_sub :: "('k, 'v) hmem \<Rightarrow> nat list \<Rightarrow> nat \<Rightarrow> bucket_iter" where
  "space_sub mem bs i = bucket_iter_new mem (bs ! i) 0"

definition space_iter_new :: "('k, 'v) hmem \<Rightarrow> nat list \<Rightarrow> nat \<Rightarrow> nat \<Rightarrow> space_iter" where
  "space_iter_new mem bs s e =
     \<lparr>si_buckets = bs, si_iter = ri_init bi_is_end (space_sub mem bs) bi_none s (if e < length bs then e else length bs)\<rparr>"

definition si_is_end :: "space_iter \<Rightarrow> bool" where "si_is_end it \<longleftrightarrow> ri_is_end (si_iter it)"

definition si_next :: "('k, 'v) hmem \<Rightarrow> space_iter \<Rightarrow> bool \<times> space_iter" where
  "si_next mem it =
     (let (more, ri) = ri_next bi_is_end (space_sub mem (si_buckets it)) (bi_next mem) (si_iter it)
      in (more, it\<lparr>si_iter := ri\<rparr>))"

definition si_deref :: "space_iter \<Rightarrow> nat" where "si_deref it = bi_deref (ri_sub (si_iter it))"

definition si_none :: space_iter where
  "si_none = \<lparr>si_buckets = [], si_iter = \<lparr>ri_curr = 0, ri_end = 0, ri_sub = bi_none\<rparr>\<rparr>"

text \<open>The iterator over a table.\<close>

definition table_sub :: "('k, 'v) hash_table \<Rightarrow> nat \<Rightarrow> space_iter" where
  "table_sub t i = (let bs = bd_buckets (ht_bins t ! i) in space_iter_new (ht_mem t) bs 0 (length bs))"

definition table_iter :: "nat \<Rightarrow> ('k, 'v) hash_table \<Rightarrow> nat \<Rightarrow> space_iter rec_iter" where
  "table_iter bits t idx = ri_init si_is_end (table_sub t) si_none idx (bin_count bits)"

definition table_begin :: "nat \<Rightarrow> ('k, 'v) hash_table \<Rightarrow> space_iter rec_iter" where
  "table_begin bits t = table_iter bits t 0"

definition table_next :: "('k, 'v) hash_table \<Rightarrow> space_iter rec_iter \<Rightarrow> bool \<times> space_iter rec_iter" where
  "table_next t = ri_next si_is_end (table_sub t) (si_next (ht_mem t))"

definition table_deref :: "space_iter rec_iter \<Rightarrow> nat" where "table_deref it = si_deref (ri_sub it)"

section \<open>Parallel iteration over the table\<close>

text \<open>The units of one bucket space: ranges of its buckets.\<close>

definition unit_ranges :: "nat \<Rightarrow> nat \<Rightarrow> (nat \<times> nat) list" where
  "unit_ranges n units = map (\<lambda>i. (i * n div units, (i + 1) * n div units)) [0..<units]"

definition bin_units :: "('k, 'v) hmem \<Rightarrow> nat \<Rightarrow> bin \<Rightarrow> space_iter list" where
  "bin_units mem min_bin_units bd =
     (let bs = bd_buckets bd; units = min min_bin_units (length bs)
      in map (\<lambda>(s, e). space_iter_new mem bs s e) (unit_ranges (length bs) units))"

text \<open>The constructor divides by the number of bins on the node. It keeps a counter of the units given out.\<close>

record parallel_iteration =
  pi_counter :: nat
  pi_iters :: "space_iter list"

definition bins_of_node :: "('k, 'v) hash_table \<Rightarrow> node \<Rightarrow> bin list" where
  "bins_of_node t n = map fst (filter (\<lambda>(bd, n'). n' = n) (zip (ht_bins t) (ht_nodes t)))"

definition parallel_new :: "('k, 'v) hash_table \<Rightarrow> node \<Rightarrow> nat \<Rightarrow> parallel_iteration option" where
  "parallel_new t n min_units =
     (let bins = bins_of_node t n
      in if length bins = 0 then None
         else let min_bin_units = (length bins + min_units - 1) div length bins
              in Some \<lparr>pi_counter = 0, pi_iters = concat (map (bin_units (ht_mem t) min_bin_units) bins)\<rparr>)"

definition parallel_get :: "parallel_iteration \<Rightarrow> space_iter option \<times> parallel_iteration" where
  "parallel_get p =
     (let i = pi_counter p; p = p\<lparr>pi_counter := i + 1\<rparr>
      in if i < length (pi_iters p) then (Some (pi_iters p ! i), p) else (None, p))"

text \<open>\<open>iterate\<close> gives a null pointer for an invalid node.\<close>

definition table_iterate :: "('k, 'v) hash_table \<Rightarrow> node \<Rightarrow> nat \<Rightarrow> parallel_iteration option option" where
  "table_iterate t n min_units =
     (if node_valid n then map_option Some (parallel_new t n min_units) else Some None)"

section \<open>Chunks of a standard container\<close>

text \<open>
  \<open>StdContainerWrapper::iterate\<close>. Positions are numbers up to \<open>n\<close>. The placement policy is asked at
  every position and at the end iterator too, position \<open>n\<close>; \<open>None\<close> is a policy that cannot be
  asked there, as \<open>MemSourceCreationPlacement\<close>, which dereferences the iterator. The chunks
  are given in the order they are added, each with its node.
\<close>

fun chunk_loop :: "(nat \<Rightarrow> 'n option) \<Rightarrow> nat \<Rightarrow> nat \<Rightarrow> nat \<Rightarrow> nat \<Rightarrow> nat \<Rightarrow> 'n \<Rightarrow> nat \<Rightarrow>
    ('n \<times> nat \<times> nat) list option" where
  "chunk_loop policy mx n 0 from0 it curr_node curr_chunk = Some []"
| "chunk_loop policy mx n (Suc left) from0 it curr_node curr_chunk = do {
     let it = it + 1;
     let curr_chunk = curr_chunk + 1;
     n' \<leftarrow> policy it;
     if n' \<noteq> curr_node \<or> it = n \<or> mx \<le> curr_chunk
     then do { cs \<leftarrow> chunk_loop policy mx n left it it n' 0; Some ((curr_node, from0, it) # cs) }
     else chunk_loop policy mx n left from0 it curr_node curr_chunk }"

definition container_chunks :: "(nat \<Rightarrow> 'n option) \<Rightarrow> nat \<Rightarrow> nat \<Rightarrow> ('n \<times> nat \<times> nat) list option" where
  "container_chunks policy mx n = do { n0 \<leftarrow> policy 0; chunk_loop policy mx n n 0 0 n0 0 }"

text \<open>
  Each chunk goes to the iteration of its node; the map of iterations has those of the nodes
  with CPUs and of the invalid node, and any other gives a null pointer.
\<close>

fun add_chunks :: "('n \<times> nat \<times> nat) list \<Rightarrow> ('n \<Rightarrow> (nat \<times> nat) list option) \<Rightarrow> ('n \<Rightarrow> (nat \<times> nat) list option) option" where
  "add_chunks [] iters = Some iters"
| "add_chunks ((n, s, e) # cs) iters = do { its \<leftarrow> iters n; add_chunks cs (iters(n \<mapsto> its @ [(s, e)])) }"

definition container_iterate :: "('n \<Rightarrow> bool) \<Rightarrow> (nat \<Rightarrow> 'n option) \<Rightarrow> nat \<Rightarrow> nat \<Rightarrow> ('n \<Rightarrow> (nat \<times> nat) list option) option" where
  "container_iterate known policy mx n = do {
     cs \<leftarrow> container_chunks policy mx n;
     add_chunks cs (\<lambda>x. if known x then Some [] else None) }"

end
