(* ===== verification/Distribution.thy ===== *)
theory Distribution
  imports Iteration
begin

text \<open>
  Distributed iteration: the \<open>DistributedIteration\<close> of \<open>src/include/PGASUS/hashtable/containers.hpp\<close>
  over anything with a parallel iteration, the adapters that make a standard container such a
  thing, and the tasks that \<open>src/src/tasking/task_interface.cpp\<close> makes for it. The threads interleave:
  a run is a sequence of thread numbers, each taking its next step. \<open>None\<close> is undefined behaviour
  or an exception.
\<close>

section \<open>Standard containers\<close>

text \<open>\<open>StdIteratorAdapter\<close>: a position and an end. \<open>next\<close> is true also where it reaches the end.\<close>

definition sia_is_end :: "nat \<times> nat \<Rightarrow> bool" where "sia_is_end it \<longleftrightarrow> fst it = snd it"

definition sia_deref :: "nat \<times> nat \<Rightarrow> nat" where "sia_deref it = fst it"

definition sia_next :: "nat \<times> nat \<Rightarrow> bool \<times> nat \<times> nat" where
  "sia_next it = (if sia_is_end it then (False, it) else (True, fst it + 1, snd it))"

text \<open>\<open>StdParallelIteration\<close>\<close>

record std_parallel =
  sp_index :: nat
  sp_iters :: "(nat \<times> nat) list"

definition sp_get :: "std_parallel \<Rightarrow> (nat \<times> nat) option \<times> std_parallel" where
  "sp_get p =
     (let idx = sp_index p; p = p\<lparr>sp_index := idx + 1\<rparr>
      in if idx < length (sp_iters p) then (Some (sp_iters p ! idx), p) else (None, p))"

text \<open>
  \<open>StdContainerWrapper::iterate\<close>: the distribution is made at the first call and does not change;
  the iteration of a node that has none is a null pointer, which \<open>finalize\<close> is called on.
\<close>

definition wrapper_iterate :: "(nat \<Rightarrow> node option) \<Rightarrow> nat \<Rightarrow> nat \<Rightarrow> node list \<Rightarrow> node \<Rightarrow> nat \<Rightarrow> std_parallel option option" where
  "wrapper_iterate policy maxChunk n cpus nd min_units = do {
     iters \<leftarrow> container_iterate (\<lambda>x. x = no_node \<or> x \<in> set cpus) policy maxChunk n;
     its \<leftarrow> iters nd;
     Some (Some \<lparr>sp_index = 0, sp_iters = its\<rparr>) }"

section \<open>The tasks\<close>

text \<open>
  \<open>forEachThread\<close> and \<open>onceForEachNode\<close>: the node and the thread of each task put. \<open>workers\<close> are the
  worker ids of a node's scheduler.
\<close>

fun for_each_thread :: "(node \<Rightarrow> nat) \<Rightarrow> (node \<Rightarrow> 't list) \<Rightarrow> node list \<Rightarrow> (node \<times> 't) list" where
  "for_each_thread cpu_count workers [] = []"
| "for_each_thread cpu_count workers (n # ns) =
     (if cpu_count n = 0 then [] else map (Pair n) (workers n)) @ for_each_thread cpu_count workers ns"

fun once_for_each_node :: "(node \<Rightarrow> nat) \<Rightarrow> (node \<Rightarrow> 't list) \<Rightarrow> node list \<Rightarrow> (node \<times> 't) list option" where
  "once_for_each_node cpu_count workers [] = Some []"
| "once_for_each_node cpu_count workers (n # ns) =
     (if cpu_count n = 0 then once_for_each_node cpu_count workers ns
      else if workers n = [] then None
      else map_option (Cons (n, hd (workers n))) (once_for_each_node cpu_count workers ns))"

section \<open>The distributed iteration\<close>

text \<open>The vector of the iterations by logical id, and the iteration of the invalid node.\<close>

record 'p dist =
  di_iterations :: "'p option list"
  di_global :: "'p option"

fun fill_iterations :: "(node \<Rightarrow> nat \<Rightarrow> 'p option option) \<Rightarrow> nat \<Rightarrow> node list \<Rightarrow> 'p option list \<Rightarrow> 'p option list option" where
  "fill_iterations iterate mu [] its = Some its"
| "fill_iterations iterate mu (n # ns) its = do {
     p \<leftarrow> iterate n mu;
     if 0 \<le> nd_logical n \<and> nat (nd_logical n) < length its
     then fill_iterations iterate mu ns (its[nat (nd_logical n) := p]) else None }"

definition dist_new :: "(node \<Rightarrow> nat \<Rightarrow> 'p option option) \<Rightarrow> node list \<Rightarrow> node list \<Rightarrow> nat \<Rightarrow> 'p dist option" where
  "dist_new iterate nds cpus min_units =
     (if length nds = 0 then None
      else do {
        let mu = (length nds + min_units) div length nds;
        let num = (if cpus = [] then 0 else nat (nd_logical (last cpus) + 1));
        its \<leftarrow> fill_iterations iterate mu cpus (replicate num None);
        g \<leftarrow> iterate no_node mu;
        Some \<lparr>di_iterations = its, di_global = g\<rparr> })"

text \<open>
  What a thread still goes through: iterations, by logical id or the global one, and the
  iterator it has. \<open>th_seen\<close> is what it has called the function on.
\<close>

datatype slot = Local int | Global

record ('i, 'e) iter_thread =
  th_slots :: "slot list"
  th_iter :: "'i option"
  th_seen :: "'e list"

record ('p, 'i, 'e) dist_run =
  dr_dist :: "'p dist"
  dr_threads :: "('i, 'e) iter_thread list"

definition thread_slots :: "(node \<Rightarrow> node list) \<Rightarrow> node \<Rightarrow> slot list" where
  "thread_slots neighbors n = Local (nd_logical n) # map (\<lambda>m. Local (nd_logical m)) (neighbors n) @ [Global]"

definition dist_start :: "(node \<Rightarrow> node list) \<Rightarrow> node list \<Rightarrow> 'p dist \<Rightarrow> ('p, 'i, 'e) dist_run" where
  "dist_start neighbors ths d =
     \<lparr>dr_dist = d, dr_threads = map (\<lambda>n. \<lparr>th_slots = thread_slots neighbors n, th_iter = None, th_seen = []\<rparr>) ths\<rparr>"

definition slot_at :: "'p dist \<Rightarrow> slot \<Rightarrow> 'p option option" where
  "slot_at d sl =
     (case sl of
        Local i \<Rightarrow> if 0 \<le> i \<and> nat i < length (di_iterations d) then Some (di_iterations d ! nat i) else None
      | Global \<Rightarrow> Some (di_global d))"

definition put_slot :: "slot \<Rightarrow> 'p \<Rightarrow> 'p dist \<Rightarrow> 'p dist" where
  "put_slot sl p d =
     (case sl of
        Local i \<Rightarrow> d\<lparr>di_iterations := (di_iterations d)[nat i := Some p]\<rparr>
      | Global \<Rightarrow> d\<lparr>di_global := Some p\<rparr>)"

text \<open>One step of a thread: a turn of the inner loop or its end, or a call of \<open>get\<close>.\<close>

definition thread_step :: "('p \<Rightarrow> 'i option \<times> 'p) \<Rightarrow> ('i \<Rightarrow> bool) \<Rightarrow> ('i \<Rightarrow> 'e) \<Rightarrow> ('i \<Rightarrow> bool \<times> 'i) \<Rightarrow>
    ('i, 'e) iter_thread \<Rightarrow> 'p dist \<Rightarrow> (('i, 'e) iter_thread \<times> 'p dist) option" where
  "thread_step get is_end deref nxt th d =
     (case th_iter th of
        Some it \<Rightarrow>
          Some (if is_end it then th\<lparr>th_iter := None\<rparr>
                else th\<lparr>th_iter := Some (snd (nxt it)), th_seen := th_seen th @ [deref it]\<rparr>, d)
      | None \<Rightarrow>
          case th_slots th of
            [] \<Rightarrow> Some (th, d)
          | sl # sls \<Rightarrow>
              (case slot_at d sl of
                 None \<Rightarrow> None
               | Some None \<Rightarrow> Some (th\<lparr>th_slots := sls\<rparr>, d)
               | Some (Some p) \<Rightarrow>
                   let (got, p) = get p; d = put_slot sl p d
                   in case got of
                        Some it \<Rightarrow> Some (th\<lparr>th_iter := Some it\<rparr>, d)
                      | None \<Rightarrow> Some (th\<lparr>th_slots := sls\<rparr>, d)))"

definition dist_step :: "('p \<Rightarrow> 'i option \<times> 'p) \<Rightarrow> ('i \<Rightarrow> bool) \<Rightarrow> ('i \<Rightarrow> 'e) \<Rightarrow> ('i \<Rightarrow> bool \<times> 'i) \<Rightarrow>
    nat \<Rightarrow> ('p, 'i, 'e) dist_run \<Rightarrow> ('p, 'i, 'e) dist_run option" where
  "dist_step get is_end deref nxt k s =
     (if k < length (dr_threads s)
      then do {
        (th, d) \<leftarrow> thread_step get is_end deref nxt (dr_threads s ! k) (dr_dist s);
        Some \<lparr>dr_dist = d, dr_threads = (dr_threads s)[k := th]\<rparr> }
      else Some s)"

fun run_threads :: "('p \<Rightarrow> 'i option \<times> 'p) \<Rightarrow> ('i \<Rightarrow> bool) \<Rightarrow> ('i \<Rightarrow> 'e) \<Rightarrow> ('i \<Rightarrow> bool \<times> 'i) \<Rightarrow>
    nat list \<Rightarrow> ('p, 'i, 'e) dist_run \<Rightarrow> ('p, 'i, 'e) dist_run option" where
  "run_threads get is_end deref nxt [] s = Some s"
| "run_threads get is_end deref nxt (k # ks) s = do {
     s \<leftarrow> dist_step get is_end deref nxt k s;
     run_threads get is_end deref nxt ks s }"

text \<open>All threads are through; what they have called the function on.\<close>

definition run_done :: "('p, 'i, 'e) dist_run \<Rightarrow> bool" where
  "run_done s \<longleftrightarrow> list_all (\<lambda>th. th_slots th = [] \<and> th_iter th = None) (dr_threads s)"

definition run_seen :: "('p, 'i, 'e) dist_run \<Rightarrow> 'e list" where
  "run_seen s = concat (map th_seen (dr_threads s))"

section \<open>\<open>for_each_distr\<close>\<close>

text \<open>Over a hash table: the state in which the tasks start.\<close>

definition table_for_each :: "(node \<Rightarrow> nat) \<Rightarrow> (node \<Rightarrow> 't list) \<Rightarrow> (node \<Rightarrow> node list) \<Rightarrow> node list \<Rightarrow> nat \<Rightarrow>
    ('k, 'v) hash_table \<Rightarrow> (parallel_iteration, space_iter, nat) dist_run option" where
  "table_for_each cpu_count workers neighbors cpus min_units t = do {
     d \<leftarrow> dist_new (table_iterate t) (table_nodes t) cpus min_units;
     Some (dist_start neighbors (map fst (for_each_thread cpu_count workers (table_nodes t))) d) }"

text \<open>\<open>std_for_each_distr\<close>, over a container of \<open>n\<close> elements; its nodes are those with CPUs.\<close>

definition std_for_each_distr :: "(node \<Rightarrow> nat) \<Rightarrow> (node \<Rightarrow> 't list) \<Rightarrow> (node \<Rightarrow> node list) \<Rightarrow> node list \<Rightarrow> nat \<Rightarrow>
    (nat \<Rightarrow> node option) \<Rightarrow> nat \<Rightarrow> (std_parallel, nat \<times> nat, nat) dist_run option" where
  "std_for_each_distr cpu_count workers neighbors cpus min_units policy n =
     (if min_units = 0 then None
      else do {
        d \<leftarrow> dist_new (wrapper_iterate policy (n div min_units) n cpus) cpus cpus min_units;
        Some (dist_start neighbors (map fst (for_each_thread cpu_count workers cpus)) d) })"

end
