(* ===== verification/Iterator.thy ===== *)
theory Iterator
  imports Iteration
begin

text \<open>
  The interface of an iterator, as the loops over it use it, and the proof that a recursive iterator
  over iterators is one: it yields what its parts yield, in order.
\<close>

text \<open>\<open>for (; !it.is_end(); it.next())\<close>, collecting the elements.\<close>

partial_function (option) visit_all :: "('i \<Rightarrow> bool) \<Rightarrow> ('i \<Rightarrow> 'e) \<Rightarrow> ('i \<Rightarrow> bool \<times> 'i) \<Rightarrow> 'i \<Rightarrow> 'e list option" where
  "visit_all is_end deref nxt it =
     (if is_end it then Some []
      else Option.bind (visit_all is_end deref nxt (snd (nxt it))) (\<lambda>xs. Some (deref it # xs)))"

text \<open>Only a \<open>next\<close> that says whether there are elements left makes an iterator a part of another.\<close>

locale cursor =
  fixes ok :: "'i \<Rightarrow> bool" and todo :: "'i \<Rightarrow> 'e list"
    and is_end :: "'i \<Rightarrow> bool" and deref :: "'i \<Rightarrow> 'e" and nxt :: "'i \<Rightarrow> bool \<times> 'i"
  assumes is_end: "ok it \<Longrightarrow> is_end it \<longleftrightarrow> todo it = []"
    and deref: "ok it \<Longrightarrow> todo it \<noteq> [] \<Longrightarrow> deref it = hd (todo it)"
    and advance: "ok it \<Longrightarrow> ok (snd (nxt it)) \<and> todo (snd (nxt it)) = tl (todo it)"
begin

lemma visit:
  assumes "ok it"
  shows "visit_all is_end deref nxt it = Some (todo it)"
  using assms
proof (induction "todo it" arbitrary: it)
  case Nil
  then show ?case by (subst visit_all.simps) (simp add: is_end)
next
  case (Cons x xs)
  have "xs = todo (snd (nxt it))" using Cons.hyps(2) advance [OF Cons.prems] by (metis list.sel(3))
  then have "visit_all is_end deref nxt (snd (nxt it)) = Some xs" using Cons.hyps(1) advance [OF Cons.prems] by simp
  moreover have "deref it = x" "\<not> is_end it"
    using deref [OF Cons.prems] is_end [OF Cons.prems] Cons.hyps(2) by (metis list.sel(1) list.distinct(1))+
  ultimately show ?case using Cons.hyps(2) by (subst visit_all.simps) simp
qed

end

locale iterator = cursor ok todo is_end deref nxt
  for ok :: "'i \<Rightarrow> bool" and todo :: "'i \<Rightarrow> 'e list" and is_end :: "'i \<Rightarrow> bool" and deref :: "'i \<Rightarrow> 'e"
    and nxt :: "'i \<Rightarrow> bool \<times> 'i" +
  assumes more: "ok it \<Longrightarrow> fst (nxt it) = (tl (todo it) \<noteq> [])"
begin

lemma nxt: "ok it \<Longrightarrow> ok (snd (nxt it)) \<and> todo (snd (nxt it)) = tl (todo it) \<and> fst (nxt it) = (tl (todo it) \<noteq> [])"
  using advance more by simp

end

lemma iteratorI:
  assumes "\<And>it. ok it \<Longrightarrow> is_end it \<longleftrightarrow> todo it = []"
    and "\<And>it. ok it \<Longrightarrow> todo it \<noteq> [] \<Longrightarrow> deref it = hd (todo it)"
    and "\<And>it. ok it \<Longrightarrow> ok (snd (nxt it)) \<and> todo (snd (nxt it)) = tl (todo it) \<and> fst (nxt it) = (tl (todo it) \<noteq> [])"
  shows "iterator ok todo is_end deref nxt"
  by unfold_locales (use assms in auto)

section \<open>Recursive iterators\<close>

text \<open>\<open>subs i\<close> is what the part with index \<open>i\<close> yields.\<close>

definition ri_todo :: "(nat \<Rightarrow> 'e list) \<Rightarrow> ('i \<Rightarrow> 'e list) \<Rightarrow> 'i rec_iter \<Rightarrow> 'e list" where
  "ri_todo subs todo it = (if ri_is_end it then [] else todo (ri_sub it) @ concat (map subs [Suc (ri_curr it)..<ri_end it]))"

definition ri_ok :: "nat \<Rightarrow> ('i \<Rightarrow> bool) \<Rightarrow> ('i \<Rightarrow> 'e list) \<Rightarrow> 'i rec_iter \<Rightarrow> bool" where
  "ri_ok n ok todo it \<longleftrightarrow> ri_end it \<le> n \<and> (\<not> ri_is_end it \<longrightarrow> ok (ri_sub it) \<and> todo (ri_sub it) \<noteq> [])"

locale rec_iterator = iterator ok todo is_end deref nxt
  for ok :: "'i \<Rightarrow> bool" and todo :: "'i \<Rightarrow> 'e list" and is_end :: "'i \<Rightarrow> bool" and deref :: "'i \<Rightarrow> 'e"
    and nxt :: "'i \<Rightarrow> bool \<times> 'i" +
  fixes n :: nat and sub_iter :: "nat \<Rightarrow> 'i" and subs :: "nat \<Rightarrow> 'e list"
  assumes sub_iter: "i < n \<Longrightarrow> ok (sub_iter i) \<and> todo (sub_iter i) = subs i"
begin

lemma find:
  "ri_end it \<le> n \<Longrightarrow> find_next is_end sub_iter it = (go_on, it') \<Longrightarrow>
    ri_ok n ok todo it' \<and> ri_todo subs todo it' = concat (map subs [ri_curr it..<ri_end it])
    \<and> go_on = (concat (map subs [ri_curr it..<ri_end it]) \<noteq> [])"
proof (induction "ri_end it - ri_curr it" arbitrary: it go_on it' rule: less_induct)
  case less
  note 1 = less
  show ?case
  proof (cases "ri_curr it < ri_end it")
    case False
    then show ?thesis using 1(2,3) by (auto simp: find_next.simps [of _ _ it] ri_ok_def ri_todo_def ri_is_end_def)
  next
    case True
    let ?it = "it\<lparr>ri_sub := sub_iter (ri_curr it)\<rparr>"
    have sub: "ok (sub_iter (ri_curr it))" "todo (sub_iter (ri_curr it)) = subs (ri_curr it)"
      using sub_iter [of "ri_curr it"] True 1(2) by simp_all
    have split: "[ri_curr it..<ri_end it] = ri_curr it # [Suc (ri_curr it)..<ri_end it]" using True by (rule upt_conv_Cons)
    show ?thesis
    proof (cases "subs (ri_curr it) = []")
      case True
      then have "find_next is_end sub_iter (?it\<lparr>ri_curr := ri_curr it + 1\<rparr>) = (go_on, it')"
        using 1(3) \<open>ri_curr it < ri_end it\<close> is_end [OF sub(1)] sub(2) by (simp add: find_next.simps [of _ _ it])
      then show ?thesis
        using 1(1) [of "?it\<lparr>ri_curr := ri_curr it + 1\<rparr>" go_on it'] 1(2) \<open>ri_curr it < ri_end it\<close> True split by simp
    next
      case False
      then have "go_on" "it' = ?it"
        using 1(3) \<open>ri_curr it < ri_end it\<close> is_end [OF sub(1)] sub(2) by (simp_all add: find_next.simps [of _ _ it])
      then show ?thesis using False sub 1(2) split True by (simp add: ri_ok_def ri_todo_def ri_is_end_def)
    qed
  qed
qed

lemma init:
  assumes "e \<le> n"
  shows "ri_ok n ok todo (ri_init is_end sub_iter fresh s e)"
    "ri_todo subs todo (ri_init is_end sub_iter fresh s e) = concat (map subs [s..<e])"
  using find [of "\<lparr>ri_curr = s, ri_end = e, ri_sub = fresh\<rparr>"] assms
  by (auto simp: ri_init_def split: prod.splits intro: surjective_pairing)

sublocale rec: iterator "ri_ok n ok todo" "ri_todo subs todo" ri_is_end "\<lambda>it. deref (ri_sub it)"
  "ri_next is_end sub_iter nxt"
proof (rule iteratorI)
  fix it :: "'i rec_iter" assume okk: "ri_ok n ok todo it"
  show "ri_is_end it \<longleftrightarrow> ri_todo subs todo it = []" using okk by (auto simp: ri_ok_def ri_todo_def)
  show "deref (ri_sub it) = hd (ri_todo subs todo it)" if "ri_todo subs todo it \<noteq> []"
    using okk that deref [of "ri_sub it"] by (auto simp: ri_ok_def ri_todo_def split: if_splits)
  show "ri_ok n ok todo (snd (ri_next is_end sub_iter nxt it))
    \<and> ri_todo subs todo (snd (ri_next is_end sub_iter nxt it)) = tl (ri_todo subs todo it)
    \<and> fst (ri_next is_end sub_iter nxt it) = (tl (ri_todo subs todo it) \<noteq> [])"
  proof (cases "ri_is_end it")
    case True
    then show ?thesis using okk by (simp add: ri_next_def ri_todo_def)
  next
    case False
    obtain go_on sub where s: "nxt (ri_sub it) = (go_on, sub)" by fastforce
    have sub: "ok (ri_sub it)" "todo (ri_sub it) \<noteq> []" "ri_end it \<le> n" using okk False by (simp_all add: ri_ok_def)
    have step: "ok sub" "todo sub = tl (todo (ri_sub it))" "go_on \<longleftrightarrow> todo sub \<noteq> []" using nxt [OF sub(1)] s by simp_all
    have tl: "tl (ri_todo subs todo it) = todo sub @ concat (map subs [Suc (ri_curr it)..<ri_end it])"
      using False sub(2) step(2) by (simp add: ri_todo_def)
    show ?thesis
    proof (cases go_on)
      case True
      then show ?thesis using False s sub step tl by (simp add: ri_next_def ri_ok_def ri_todo_def ri_is_end_def)
    next
      case nomore: False
      let ?it = "it\<lparr>ri_sub := sub, ri_curr := ri_curr it + 1\<rparr>"
      obtain m it' where f: "find_next is_end sub_iter ?it = (m, it')" by fastforce
      have "ri_next is_end sub_iter nxt it = (m, it')" using False s nomore f by (simp add: ri_next_def)
      then show ?thesis using find [OF _ f] sub(3) step(3) nomore tl by simp
    qed
  qed
qed

end

end
