(* ===== verification/Hash_Table_Inv.thy ===== *)
theory Hash_Table_Inv
  imports Hash_Table "HOL-Library.Multiset"
begin

text \<open>
  The invariant of a bin of the hash table, and that each operation on a bin keeps it, touches only
  its own buckets and does what it should to the set of nodes.
\<close>

section \<open>Indices\<close>

lemma of_nat_power_0: "64 \<le> e \<Longrightarrow> (of_nat (2 ^ e) :: u64) = 0"
  by (simp add: exp_eq_zero_iff)

lemma unat_below: "64 \<le> e \<Longrightarrow> unat (x :: u64) < 2 ^ e"
  by (rule less_le_trans [OF _ power_increasing [of 64]]) (use unsigned_less [of x, where ?'a = nat] in simp_all)

lemma and_of_nat_power: "unat ((x :: u64) AND (of_nat (2 ^ e) - 1)) = (if e < 64 then unat x mod 2 ^ e else unat x)"
proof (cases "e < 64")
  case True
  have "(of_nat (2 ^ e) - 1 :: u64) = mask e" by (simp add: mask_eq_exp_minus_1)
  then have "x AND (of_nat (2 ^ e) - 1) = take_bit e x" by (simp only: take_bit_eq_mask)
  then show ?thesis using True by (simp only: unsigned_take_bit_eq) (simp add: take_bit_eq_mod)
next
  case False
  then show ?thesis using of_nat_power_0 [of e] by (simp del: of_nat_power)
qed

lemma bucket_index_less: "bucket_index bits (2 ^ e) h < 2 ^ e"
  using unat_below [of e "drop_bit bits h"] unfolding bucket_index_def and_of_nat_power by simp

lemma get_bin_index_less: "get_bin_index bits h < 2 ^ bits"
  using unat_below [of bits h] unfolding get_bin_index_def bin_count_def and_of_nat_power by simp

lemma power_of_two_check: "(of_nat (2 ^ e) :: u64) AND (of_nat (2 ^ e) - 1) = 0"
proof (cases "e < 64")
  case True
  then have "unat ((of_nat (2 ^ e) :: u64) AND (of_nat (2 ^ e) - 1)) = 0"
    unfolding and_of_nat_power by (simp add: unat_2_pow)
  then show ?thesis by (simp only: unat_eq_0)
next
  case False
  then show ?thesis using of_nat_power_0 [of e] by (simp del: of_nat_power)
qed

section \<open>Lists of buckets\<close>

definition nodes_in :: "('k, 'v) hmem \<Rightarrow> nat list \<Rightarrow> nat list" where
  "nodes_in mem bs = concat (map (bucket_nodes mem) bs)"

lemma set_nodes_in: "set (nodes_in mem bs) = (\<Union>b\<in>set bs. set (bucket_nodes mem b))"
  by (simp add: nodes_in_def)

lemma bucket_nodes_on [simp]:
  "bucket_nodes (on_bucket f b mem) c = (if c = b then bk_nodes (f (the_bucket mem b)) else bucket_nodes mem c)"
  by (simp add: bucket_nodes_def the_bucket_def on_bucket_def)

lemma on_bucket_fields [simp]: "hm_nodes (on_bucket f b mem) = hm_nodes mem" "hm_next (on_bucket f b mem) = hm_next mem"
  "c \<noteq> b \<Longrightarrow> hm_buckets (on_bucket f b mem) c = hm_buckets mem c"
  by (simp_all add: on_bucket_def)

lemma key_at_cong: "hm_nodes mem' a = hm_nodes mem a \<Longrightarrow> key_at mem' a = key_at mem a"
  by (simp add: key_at_def the_node_def)

lemma key_at_on [simp]: "key_at (on_bucket f b mem) a = key_at mem a" "the_node (on_bucket f b mem) a = the_node mem a"
  by (simp_all add: key_at_def the_node_def)

lemma mset_nodes_on:
  assumes "distinct bs" "i < length bs"
  shows "mset (nodes_in (on_bucket f (bs ! i) mem) bs) + mset (bucket_nodes mem (bs ! i))
    = mset (nodes_in mem bs) + mset (bk_nodes (f (the_bucket mem (bs ! i))))"
proof -
  have "map (bucket_nodes (on_bucket f (bs ! i) mem)) bs
      = (map (bucket_nodes mem) bs)[i := bk_nodes (f (the_bucket mem (bs ! i)))]"
    using assms by (intro nth_equalityI) (auto simp: nth_list_update nth_eq_iff_index_eq)
  then show ?thesis using mset_concat_update [of i "map (bucket_nodes mem) bs"] assms(2) by (simp add: nodes_in_def)
qed

text \<open>Every node is in the bucket of its key.\<close>

definition placed :: "nat \<Rightarrow> ('k \<Rightarrow> u64) \<Rightarrow> ('k, 'v) hmem \<Rightarrow> nat list \<Rightarrow> bool" where
  "placed bits hash mem bs \<longleftrightarrow> (\<forall>i < length bs. \<forall>a \<in> set (bucket_nodes mem (bs ! i)).
     bucket_index bits (length bs) (hash (key_at mem a)) = i)"

lemma placed_on:
  assumes "placed bits hash mem bs" "distinct bs" "i < length bs"
    and "\<And>a. a \<in> set (bk_nodes (f (the_bucket mem (bs ! i)))) \<Longrightarrow>
      a \<in> set (bucket_nodes mem (bs ! i)) \<or> bucket_index bits (length bs) (hash (key_at mem a)) = i"
  shows "placed bits hash (on_bucket f (bs ! i) mem) bs"
  using assms by (auto simp: placed_def nth_eq_iff_index_eq split: if_splits)

section \<open>Building and filling a space\<close>

lemma construct_buckets_spec:
  "construct_buckets is gen mem = (bs, mem') \<Longrightarrow>
    bs = [hm_next mem..<hm_next mem + length is] \<and> hm_next mem' = hm_next mem + length is
    \<and> hm_nodes mem' = hm_nodes mem \<and> (\<forall>b < hm_next mem. hm_buckets mem' b = hm_buckets mem b)
    \<and> (\<forall>b \<in> set bs. bucket_nodes mem' b = [])"
proof (induction "is" gen mem arbitrary: bs mem' rule: construct_buckets.induct)
  case (2 i "is" gen mem)
  let ?m = "snd (construct_bucket i gen mem)"
  obtain bs1 m1 where r: "construct_buckets is gen ?m = (bs1, m1)" by fastforce
  have one: "construct_bucket i gen mem = (hm_next mem, ?m)" "hm_next ?m = hm_next mem + 1" "hm_nodes ?m = hm_nodes mem"
    "\<forall>b. b \<noteq> hm_next mem \<longrightarrow> hm_buckets ?m b = hm_buckets mem b" "bucket_nodes ?m (hm_next mem) = []"
    by (simp_all add: construct_bucket_def bucket_nodes_def the_bucket_def bucket_new_def)
  have res: "bs = hm_next mem # bs1" "mem' = m1" using 2(2) r one(1) by (auto simp: Let_def split: prod.splits)
  note ih = 2(1) [OF one(1) [symmetric] refl r]
  have "bucket_nodes m1 (hm_next mem) = []"
    using ih one(2,5) by (simp add: bucket_nodes_def the_bucket_def)
  moreover have "bs = [hm_next mem..<hm_next mem + length (i # is)]"
    using ih one(2) res(1) by (simp add: upt_conv_Cons del: upt_Suc)
  moreover have "\<forall>b \<in> set bs. bucket_nodes mem' b = []" using ih calculation(1) res by auto
  ultimately show ?case using ih one res(2) by auto
qed simp

lemma rehash_spec:
  assumes "distinct bs" "length bs = 2 ^ e" "placed bits hash mem bs"
  shows "hm_nodes (rehash bits hash bs as mem) = hm_nodes mem \<and> hm_next (rehash bits hash bs as mem) = hm_next mem
    \<and> (\<forall>b. b \<notin> set bs \<longrightarrow> hm_buckets (rehash bits hash bs as mem) b = hm_buckets mem b)
    \<and> mset (nodes_in (rehash bits hash bs as mem) bs) = mset (nodes_in mem bs) + mset as
    \<and> placed bits hash (rehash bits hash bs as mem) bs"
  using assms
proof (induction as arbitrary: mem)
  case (Cons a as)
  let ?i = "bucket_index bits (length bs) (hash (key_at mem a))"
  let ?f = "\<lambda>bk. bk\<lparr>bk_nodes := bk_nodes bk @ [a]\<rparr>"
  let ?m = "on_bucket ?f (bs ! ?i) mem"
  have i: "?i < length bs" using bucket_index_less Cons.prems(2) by simp
  have "placed bits hash ?m bs" by (rule placed_on [OF Cons.prems(3,1) i]) (auto simp: bucket_nodes_def)
  note ih = Cons.IH [OF Cons.prems(1,2) this]
  have one: "mset (nodes_in ?m bs) = add_mset a (mset (nodes_in mem bs))"
    using mset_nodes_on [OF Cons.prems(1) i, of ?f mem] by (simp add: bucket_nodes_def)
  have eq: "rehash bits hash bs (a # as) mem = rehash bits hash bs as ?m" by (simp add: from_hash_def)
  have rest: "hm_buckets ?m b = hm_buckets mem b" if "b \<notin> set bs" for b
  proof (rule on_bucket_fields(3))
    show "b \<noteq> bs ! ?i" using that nth_mem [OF i] by blast
  qed
  show ?case unfolding eq
  proof (intro conjI allI impI)
    show "hm_buckets (rehash bits hash bs as ?m) b = hm_buckets mem b" if "b \<notin> set bs" for b
      using ih rest [OF that] that by (simp only: not_False_eq_True)
    show "mset (nodes_in (rehash bits hash bs as ?m) bs) = mset (nodes_in mem bs) + mset (a # as)"
      using ih one by (simp only: mset.simps union_mset_add_mset_left union_mset_add_mset_right)
  qed (use ih in simp_all)
qed simp

section \<open>The invariant of a bin\<close>

definition bin_nodes :: "('k, 'v) hmem \<Rightarrow> bin \<Rightarrow> nat list" where
  "bin_nodes mem bd = nodes_in mem (bd_buckets bd)"

lemma bin_nodes_count [simp]: "bin_nodes mem (bd\<lparr>bd_count := n\<rparr>) = bin_nodes mem bd"
  by (simp add: bin_nodes_def)

definition nodes_ok :: "('k \<Rightarrow> u64) \<Rightarrow> ('k, 'v) hmem \<Rightarrow> nat list \<Rightarrow> bool" where
  "nodes_ok hash mem as \<longleftrightarrow> distinct (map (key_at mem) as)
     \<and> (\<forall>a\<in>set as. a < hm_next mem \<and> hn_hash (the_node mem a) = hash (key_at mem a))"

definition bin_ok :: "nat \<Rightarrow> ('k \<Rightarrow> u64) \<Rightarrow> ('k, 'v) hmem \<Rightarrow> bin \<Rightarrow> bool" where
  "bin_ok bits hash mem bd \<longleftrightarrow> distinct (bd_buckets bd) \<and> (\<exists>e. length (bd_buckets bd) = 2 ^ e)
     \<and> (\<forall>b\<in>set (bd_buckets bd). b < hm_next mem) \<and> placed bits hash mem (bd_buckets bd)
     \<and> nodes_ok hash mem (bin_nodes mem bd) \<and> bd_count bd = length (bin_nodes mem bd)"

text \<open>What an operation on a bin leaves alone.\<close>

definition bin_frame :: "bin \<Rightarrow> ('k, 'v) hmem \<Rightarrow> bin \<Rightarrow> ('k, 'v) hmem \<Rightarrow> bool" where
  "bin_frame bd mem bd' mem' \<longleftrightarrow> hm_next mem \<le> hm_next mem' \<and> bd_index bd' = bd_index bd
     \<and> (\<forall>a < hm_next mem. hm_nodes mem' a = hm_nodes mem a)
     \<and> (\<forall>b < hm_next mem. b \<notin> set (bd_buckets bd) \<longrightarrow> hm_buckets mem' b = hm_buckets mem b)
     \<and> (\<forall>b \<in> set (bd_buckets bd'). b \<in> set (bd_buckets bd) \<or> hm_next mem \<le> b \<and> b < hm_next mem')"

lemma bin_frame_refl [simp]: "bin_frame bd mem bd mem"
  by (simp add: bin_frame_def)

lemma bin_frame_trans:
  assumes "bin_frame bd mem bd' mem'" "bin_frame bd' mem' bd'' mem''"
  shows "bin_frame bd mem bd'' mem''"
proof -
  have "hm_buckets mem'' b = hm_buckets mem b" if "b < hm_next mem" "b \<notin> set (bd_buckets bd)" for b
  proof -
    have "b \<notin> set (bd_buckets bd')" using that assms(1) by (auto simp: bin_frame_def)
    then show ?thesis using that assms by (simp add: bin_frame_def)
  qed
  then show ?thesis using assms by (auto simp: bin_frame_def)
qed

lemma nodes_ok_mset: "nodes_ok hash mem as \<Longrightarrow> mset bs = mset as \<Longrightarrow> nodes_ok hash mem bs"
  unfolding nodes_ok_def by (metis mset_eq_imp_distinct_iff mset_map set_mset_mset)

lemma nodes_ok_frame:
  assumes "nodes_ok hash mem as" "bin_frame bd mem bd' mem'"
  shows "nodes_ok hash mem' as" "\<And>a. a \<in> set as \<Longrightarrow> key_at mem' a = key_at mem a"
proof -
  have same: "the_node mem' a = the_node mem a" if "a \<in> set as" for a
    using that assms by (simp add: nodes_ok_def bin_frame_def the_node_def)
  then show "\<And>a. a \<in> set as \<Longrightarrow> key_at mem' a = key_at mem a" by (simp add: key_at_def)
  then show "nodes_ok hash mem' as"
    using same assms by (auto simp: nodes_ok_def bin_frame_def cong: map_cong)
qed

lemma bin_okD:
  assumes "bin_ok bits hash mem bd"
  shows "distinct (bd_buckets bd)" "\<And>b. b \<in> set (bd_buckets bd) \<Longrightarrow> b < hm_next mem" "placed bits hash mem (bd_buckets bd)"
    "nodes_ok hash mem (bin_nodes mem bd)" "bd_count bd = length (bin_nodes mem bd)"
    "bucket_index bits (length (bd_buckets bd)) h < length (bd_buckets bd)"
  using assms bucket_index_less by (auto simp: bin_ok_def)

text \<open>Another bin, with other buckets, is not affected.\<close>

lemma bin_ok_frame:
  assumes ok: "bin_ok bits hash mem bd2" and fr: "bin_frame bd mem bd' mem'"
    and dis: "set (bd_buckets bd) \<inter> set (bd_buckets bd2) = {}"
  shows "bin_nodes mem' bd2 = bin_nodes mem bd2" "bin_ok bits hash mem' bd2"
    "set (bd_buckets bd') \<inter> set (bd_buckets bd2) = {}"
proof -
  have same: "bucket_nodes mem' b = bucket_nodes mem b" if "b \<in> set (bd_buckets bd2)" for b
    using that bin_okD(2) [OF ok that] dis fr by (auto simp: bin_frame_def bucket_nodes_def the_bucket_def)
  then show nodes: "bin_nodes mem' bd2 = bin_nodes mem bd2" by (simp add: bin_nodes_def nodes_in_def cong: map_cong)
  note keys = nodes_ok_frame [OF bin_okD(4) [OF ok] fr]
  have "placed bits hash mem' (bd_buckets bd2)"
    unfolding placed_def
  proof (intro allI impI ballI)
    fix i a assume i: "i < length (bd_buckets bd2)" and a: "a \<in> set (bucket_nodes mem' (bd_buckets bd2 ! i))"
    have a2: "a \<in> set (bucket_nodes mem (bd_buckets bd2 ! i))" using a same nth_mem [OF i] by simp
    then have "a \<in> set (bin_nodes mem bd2)" using nth_mem [OF i] by (auto simp: bin_nodes_def set_nodes_in)
    then show "bucket_index bits (length (bd_buckets bd2)) (hash (key_at mem' a)) = i"
      using keys(2) i a2 bin_okD(3) [OF ok] by (simp add: placed_def)
  qed
  moreover have "hm_next mem \<le> hm_next mem'" using fr by (simp add: bin_frame_def)
  ultimately show "bin_ok bits hash mem' bd2"
    using ok keys(1) nodes by (auto simp: bin_ok_def)
  show "set (bd_buckets bd') \<inter> set (bd_buckets bd2) = {}"
    using fr dis bin_okD(2) [OF ok] by (fastforce simp: bin_frame_def)
qed

section \<open>Resizing\<close>

lemma resize_spec:
  assumes nodes: "nodes_ok hash mem (bin_nodes mem bd)" and cnt: "bd_count bd = length (bin_nodes mem bd)"
  shows "\<exists>bd' mem'. resize bits hash (2 ^ e) bd mem = Some (bd', mem') \<and> bin_ok bits hash mem' bd'
    \<and> bin_frame bd mem bd' mem' \<and> mset (bin_nodes mem' bd') = mset (bin_nodes mem bd)
    \<and> bd_count bd' = bd_count bd \<and> bd_max_count bd' = 3 * 2 ^ e \<and> length (bd_buckets bd') = 2 ^ e"
proof -
  let ?gen = "bd_generation bd + 1"
  obtain bs m1 where c: "construct_buckets [0..<2 ^ e] ?gen mem = (bs, m1)" by fastforce
  note cs = construct_buckets_spec [OF c, simplified]
  have bs: "distinct bs" "length bs = 2 ^ e" using cs by simp_all
  have empty: "nodes_in m1 bs = []" using cs by (simp add: nodes_in_def)
  have "placed bits hash m1 bs" using cs bs(2) by (auto simp: placed_def)
  note rs = rehash_spec [OF bs this]
  let ?old = "concat (map (bucket_nodes mem) (bd_buckets bd))"
  let ?m = "rehash bits hash bs ?old m1"
  let ?bd = "bd\<lparr>bd_max_count := 3 * 2 ^ e, bd_generation := ?gen, bd_buckets := bs\<rparr>"
  have run: "resize bits hash (2 ^ e) bd mem = Some (?bd, ?m)"
    unfolding resize_def bucket_space_new_def using power_of_two_check [of e] c by (simp add: Let_def del: of_nat_power)
  have same: "hm_nodes ?m = hm_nodes mem" "hm_next ?m = hm_next mem + 2 ^ e" using rs cs by simp_all
  have ms: "mset (bin_nodes ?m ?bd) = mset (bin_nodes mem bd)"
    using rs empty by (simp add: bin_nodes_def nodes_in_def)
  have new: "b \<in> set bs \<longleftrightarrow> hm_next mem \<le> b \<and> b < hm_next mem + 2 ^ e" for b using cs by auto
  have fr: "bin_frame bd mem ?bd ?m"
    unfolding bin_frame_def using same new rs cs by simp
  have "nodes_ok hash ?m (bin_nodes mem bd)" by (rule nodes_ok_frame(1) [OF nodes fr])
  then have "nodes_ok hash ?m (bin_nodes ?m ?bd)" using nodes_ok_mset ms by blast
  moreover have "bd_count bd = length (bin_nodes ?m ?bd)" using cnt ms by (metis size_mset)
  ultimately have "bin_ok bits hash ?m ?bd" using bs rs same new by (auto simp: bin_ok_def)
  then show ?thesis using run fr ms bs(2) by auto
qed

lemma bin_create_spec:
  "\<exists>bd mem'. bin_create bits hash idx mem = Some (bd, mem') \<and> bin_ok bits hash mem' bd
    \<and> bin_frame \<lparr>bd_index = idx, bd_max_count = 0, bd_generation = 0, bd_buckets = [], bd_count = 0\<rparr> mem bd mem'
    \<and> bin_nodes mem' bd = []"
proof -
  let ?bd = "\<lparr>bd_index = idx, bd_max_count = 0, bd_generation = 0, bd_buckets = [], bd_count = 0\<rparr>"
  have "nodes_ok hash mem (bin_nodes mem ?bd)" by (simp add: bin_nodes_def nodes_in_def nodes_ok_def)
  moreover have "bin_nodes mem ?bd = []" by (simp add: bin_nodes_def nodes_in_def)
  moreover have "(2 :: nat) ^ 6 = 64" by simp
  ultimately show ?thesis using resize_spec [of hash mem ?bd bits 6] unfolding bin_create_def by auto
qed

section \<open>Searching, adding and removing\<close>

lemma search_bucket_Some:
  "search_bucket mem h key as i = Some j \<Longrightarrow>
    i \<le> j \<and> j < i + length as \<and> hn_hash (the_node mem (as ! (j - i))) = h \<and> key_at mem (as ! (j - i)) = key"
proof (induction as arbitrary: i)
  case (Cons a as)
  show ?case
  proof (cases "hn_hash (the_node mem a) = h \<and> key_at mem a = key")
    case False
    then have "search_bucket mem h key as (Suc i) = Some j" using Cons.prems by auto
    note ih = Cons.IH [OF this]
    then have "j - i = Suc (j - Suc i)" by linarith
    then show ?thesis using ih by simp
  qed (use Cons.prems in auto)
qed simp

lemma search_bucket_None:
  "search_bucket mem h key as i = None \<Longrightarrow> a \<in> set as \<Longrightarrow> \<not> (hn_hash (the_node mem a) = h \<and> key_at mem a = key)"
  by (induction as arbitrary: i) (auto split: if_splits)

text \<open>The search of the right bucket finds a key exactly if some node of the bin has it.\<close>

lemma search_bin:
  fixes key
  assumes ok: "bin_ok bits hash mem bd"
  defines "b \<equiv> from_hash bits (bd_buckets bd) (hash key)"
  shows "b \<in> set (bd_buckets bd)"
    "search_bucket mem (hash key) key (bucket_nodes mem b) 0 = Some i \<Longrightarrow>
      i < length (bucket_nodes mem b) \<and> bucket_nodes mem b ! i \<in> set (bin_nodes mem bd)
      \<and> key_at mem (bucket_nodes mem b ! i) = key"
    "search_bucket mem (hash key) key (bucket_nodes mem b) 0 = None \<Longrightarrow> key \<notin> key_at mem ` set (bin_nodes mem bd)"
proof -
  let ?j = "bucket_index bits (length (bd_buckets bd)) (hash key)"
  have j: "?j < length (bd_buckets bd)" by (rule bin_okD(6) [OF ok])
  show b: "b \<in> set (bd_buckets bd)" using j by (simp add: b_def from_hash_def)
  show "i < length (bucket_nodes mem b) \<and> bucket_nodes mem b ! i \<in> set (bin_nodes mem bd)
      \<and> key_at mem (bucket_nodes mem b ! i) = key"
    if "search_bucket mem (hash key) key (bucket_nodes mem b) 0 = Some i"
    using search_bucket_Some [OF that] b by (auto simp: bin_nodes_def set_nodes_in intro!: bexI [of _ b])
  show "key \<notin> key_at mem ` set (bin_nodes mem bd)"
    if none: "search_bucket mem (hash key) key (bucket_nodes mem b) 0 = None"
  proof
    assume "key \<in> key_at mem ` set (bin_nodes mem bd)"
    then obtain a c where "c \<in> set (bd_buckets bd)" "a \<in> set (bucket_nodes mem c)" "key_at mem a = key"
      by (auto simp: bin_nodes_def set_nodes_in)
    then obtain i where a: "i < length (bd_buckets bd)" "a \<in> set (bucket_nodes mem (bd_buckets bd ! i))" "key_at mem a = key"
      by (metis in_set_conv_nth)
    then have "i = ?j" using bin_okD(3) [OF ok] by (auto simp: placed_def)
    then have "a \<in> set (bucket_nodes mem b)" using a(2) by (simp add: b_def from_hash_def)
    moreover have "a \<in> set (bin_nodes mem bd)" using a(1,2) nth_mem [OF a(1)] by (auto simp: bin_nodes_def set_nodes_in)
    then have "hn_hash (the_node mem a) = hash key" using bin_okD(4) [OF ok] a(3) by (auto simp: nodes_ok_def)
    ultimately show False using search_bucket_None [OF none] a(3) by blast
  qed
qed

text \<open>Changing the list of nodes of one bucket of a bin.\<close>

lemma bin_ok_on_bucket:
  assumes ok: "bin_ok bits hash mem bd" and b: "b \<in> set (bd_buckets bd)" and f: "\<And>bk. bk_index (f bk) = bk_index bk"
    and mem1: "hm_next mem \<le> hm_next mem1" "\<And>a. a < hm_next mem \<Longrightarrow> hm_nodes mem1 a = hm_nodes mem a"
      "hm_buckets mem1 = hm_buckets mem"
    and place: "\<And>a. a \<in> set (bk_nodes (f (the_bucket mem b))) \<Longrightarrow>
      a \<in> set (bucket_nodes mem b) \<or> b = from_hash bits (bd_buckets bd) (hash (key_at mem1 a))"
    and nodes: "nodes_ok hash mem1 (bin_nodes (on_bucket f b mem1) bd)"
    and n: "n = length (bin_nodes (on_bucket f b mem1) bd)"
  shows "bin_ok bits hash (on_bucket f b mem1) (bd\<lparr>bd_count := n\<rparr>)"
    "bin_frame bd mem (bd\<lparr>bd_count := n\<rparr>) (on_bucket f b mem1)"
proof -
  let ?bs = "bd_buckets bd" and ?m = "on_bucket f b mem1"
  obtain i where i: "i < length ?bs" "b = ?bs ! i" using b by (auto simp: in_set_conv_nth)
  have buckets: "bucket_nodes mem1 c = bucket_nodes mem c" "the_bucket mem1 c = the_bucket mem c" for c
    using mem1(3) by (simp_all add: bucket_nodes_def the_bucket_def)
  have old: "a \<in> set (bin_nodes mem bd)" if "a \<in> set (bucket_nodes mem c)" "c \<in> set ?bs" for a c
    using that by (auto simp: bin_nodes_def set_nodes_in)
  have keys: "key_at mem1 a = key_at mem a" if "a \<in> set (bin_nodes mem bd)" for a
    using that bin_okD(4) [OF ok] mem1(2) by (auto intro!: key_at_cong simp: nodes_ok_def)
  have p1: "placed bits hash mem1 ?bs"
    unfolding placed_def
  proof (intro allI impI ballI)
    fix j a assume j: "j < length ?bs" and a: "a \<in> set (bucket_nodes mem1 (?bs ! j))"
    then have "key_at mem1 a = key_at mem a" using keys old nth_mem [OF j] buckets(1) by simp
    then show "bucket_index bits (length ?bs) (hash (key_at mem1 a)) = j"
      using bin_okD(3) [OF ok] j a buckets(1) by (simp add: placed_def)
  qed
  have "placed bits hash (on_bucket f (?bs ! i) mem1) ?bs"
  proof (rule placed_on [OF p1 bin_okD(1) [OF ok] i(1)])
    fix a assume "a \<in> set (bk_nodes (f (the_bucket mem1 (?bs ! i))))"
    then consider "a \<in> set (bucket_nodes mem b)" | "?bs ! i = from_hash bits ?bs (hash (key_at mem1 a))"
      using place [of a] buckets(2) i(2) by auto
    then show "a \<in> set (bucket_nodes mem1 (?bs ! i)) \<or> bucket_index bits (length ?bs) (hash (key_at mem1 a)) = i"
    proof cases
      case 2
      then have "i = bucket_index bits (length ?bs) (hash (key_at mem1 a))"
        using nth_eq_iff_index_eq [OF bin_okD(1) [OF ok] i(1) bin_okD(6) [OF ok]] by (simp add: from_hash_def)
      then show ?thesis by simp
    qed (use buckets(1) i(2) in simp)
  qed
  moreover have "nodes_ok hash ?m (bin_nodes ?m bd)" using nodes by (simp add: nodes_ok_def cong: map_cong)
  moreover have "c < hm_next mem1" if "c \<in> set ?bs" for c using bin_okD(2) [OF ok that] mem1(1) by simp
  moreover have "distinct ?bs" "\<exists>e. length ?bs = 2 ^ e" using ok by (simp_all add: bin_ok_def)
  ultimately show "bin_ok bits hash ?m (bd\<lparr>bd_count := n\<rparr>)" using i(2) n by (simp add: bin_ok_def bin_nodes_def)
  show "bin_frame bd mem (bd\<lparr>bd_count := n\<rparr>) ?m"
    using mem1 b by (auto simp: bin_frame_def on_bucket_def)
qed

text \<open>The two operations: what they return, and what they do to the nodes of the bin.\<close>

lemma bin_nodes_add:
  assumes ok: "bin_ok bits hash mem bd" and new: "key \<notin> key_at mem ` set (bin_nodes mem bd)"
    and b: "b = from_hash bits (bd_buckets bd) (hash key)"
  shows "\<exists>a bd' mem'. add_to_bucket b key (hash key) v bd mem = (a, bd', mem') \<and> bin_ok bits hash mem' bd'
    \<and> bin_frame bd mem bd' mem' \<and> a = hm_next mem \<and> mset (bin_nodes mem' bd') = add_mset a (mset (bin_nodes mem bd))
    \<and> key_at mem' a = key \<and> hn_value (the_node mem' a) = v"
proof -
  let ?a = "hm_next mem"
  let ?f = "\<lambda>bk. bk\<lparr>bk_nodes := bk_nodes bk @ [?a], bk_generation := bk_generation bk + 1\<rparr>"
  let ?m1 = "snd (construct_node (hash key) key v mem)"
  let ?m = "on_bucket ?f b ?m1"
  have bin: "b \<in> set (bd_buckets bd)" using bin_okD(6) [OF ok, of "hash key"] by (simp add: b from_hash_def)
  then obtain i where i: "i < length (bd_buckets bd)" "b = bd_buckets bd ! i" by (auto simp: in_set_conv_nth)
  have m1: "hm_next ?m1 = ?a + 1" "hm_buckets ?m1 = hm_buckets mem" "\<And>x. x < ?a \<Longrightarrow> hm_nodes ?m1 x = hm_nodes mem x"
    "key_at ?m1 ?a = key" "hn_value (the_node ?m1 ?a) = v" "hn_hash (the_node ?m1 ?a) = hash key"
    by (simp_all add: construct_node_def key_at_def the_node_def)
  have same: "bucket_nodes ?m1 c = bucket_nodes mem c" "the_bucket ?m1 c = the_bucket mem c" for c
    using m1(2) by (simp_all add: bucket_nodes_def the_bucket_def)
  have "bucket_nodes ?m1 = bucket_nodes mem" using same(1) by blast
  then have "nodes_in ?m1 (bd_buckets bd) = bin_nodes mem bd" by (simp only: bin_nodes_def nodes_in_def)
  then have ms: "mset (bin_nodes ?m bd) = add_mset ?a (mset (bin_nodes mem bd))"
    using mset_nodes_on [OF bin_okD(1) [OF ok] i(1), of ?f ?m1] same i(2) by (simp add: bin_nodes_def bucket_nodes_def)
  have fr1: "bin_frame bd mem bd ?m1" using m1 by (simp add: bin_frame_def)
  note old = nodes_ok_frame [OF bin_okD(4) [OF ok] fr1]
  have "distinct (map (key_at ?m1) (bin_nodes mem bd))" using old(1) by (simp add: nodes_ok_def)
  moreover have "key \<notin> key_at ?m1 ` set (bin_nodes mem bd)" using new old(2) by auto
  ultimately have "nodes_ok hash ?m1 (?a # bin_nodes mem bd)" using old(1) m1 by (simp add: nodes_ok_def)
  then have nodes: "nodes_ok hash ?m1 (bin_nodes ?m bd)" by (rule nodes_ok_mset) (simp only: ms mset.simps)
  have cnt: "bd_count bd + 1 = length (bin_nodes ?m bd)"
    using bin_okD(5) [OF ok] arg_cong [OF ms, of size] by simp
  have f: "bk_index (?f bk) = bk_index bk" for bk by simp
  have place: "x \<in> set (bucket_nodes mem b) \<or> b = from_hash bits (bd_buckets bd) (hash (key_at ?m1 x))"
    if "x \<in> set (bk_nodes (?f (the_bucket mem b)))" for x
    using that m1(4) by (auto simp: bucket_nodes_def b)
  have le: "hm_next mem \<le> hm_next ?m1" using m1(1) by simp
  note both = bin_ok_on_bucket [OF ok bin f le m1(3) m1(2) place nodes cnt]
  show ?thesis using ms m1 both
    by (simp add: add_to_bucket_def construct_node_def bin_nodes_def Let_def)
qed

lemma mset_erase_nth: "i < length xs \<Longrightarrow> add_mset (xs ! i) (mset (erase_nth i xs)) = mset xs"
  by (subst (3) id_take_nth_drop [of i xs]) (simp_all add: erase_nth_def)

lemma set_erase_nth: "set (erase_nth i xs) \<subseteq> set xs"
  by (auto simp: erase_nth_def dest: in_set_takeD in_set_dropD)

lemma bin_nodes_erase:
  assumes ok: "bin_ok bits hash mem bd" and b: "b \<in> set (bd_buckets bd)" and i: "i < length (bucket_nodes mem b)"
  defines "m \<equiv> on_bucket (\<lambda>bk. bk\<lparr>bk_nodes := erase_nth i (bk_nodes bk), bk_generation := bk_generation bk + 1\<rparr>) b mem"
  shows "bin_ok bits hash m (bd\<lparr>bd_count := bd_count bd - 1\<rparr>)" "bin_frame bd mem (bd\<lparr>bd_count := bd_count bd - 1\<rparr>) m"
    "mset (bin_nodes mem bd) = add_mset (bucket_nodes mem b ! i) (mset (bin_nodes m bd))"
proof -
  let ?f = "\<lambda>bk. bk\<lparr>bk_nodes := erase_nth i (bk_nodes bk), bk_generation := bk_generation bk + 1\<rparr>"
  obtain j where j: "j < length (bd_buckets bd)" "b = bd_buckets bd ! j" using b by (auto simp: in_set_conv_nth)
  have "mset (bin_nodes m bd) + mset (bucket_nodes mem b)
      = mset (bin_nodes mem bd) + mset (erase_nth i (bucket_nodes mem b))"
    using mset_nodes_on [OF bin_okD(1) [OF ok] j(1), of ?f mem] j(2) by (simp add: m_def bin_nodes_def bucket_nodes_def)
  then show ms: "mset (bin_nodes mem bd) = add_mset (bucket_nodes mem b ! i) (mset (bin_nodes m bd))"
    unfolding mset_erase_nth [OF i, symmetric] by simp
  have "distinct (map (key_at mem) (bin_nodes mem bd))" using bin_okD(4) [OF ok] by (simp add: nodes_ok_def)
  then have "distinct (map (key_at mem) (bucket_nodes mem b ! i # bin_nodes m bd))"
    using ms by (metis mset.simps(2) mset_eq_imp_distinct_iff mset_map)
  moreover have "set (bin_nodes m bd) \<subseteq> set (bin_nodes mem bd)"
    using ms by (metis set_mset_add_mset_insert set_mset_mset subset_insertI)
  ultimately have nodes: "nodes_ok hash mem (bin_nodes m bd)" using bin_okD(4) [OF ok] by (auto simp: nodes_ok_def)
  have cnt: "bd_count bd - 1 = length (bin_nodes m bd)"
    using bin_okD(5) [OF ok] arg_cong [OF ms, of size] by simp
  have f: "bk_index (?f bk) = bk_index bk" for bk by simp
  have place: "x \<in> set (bucket_nodes mem b) \<or> b = from_hash bits (bd_buckets bd) (hash (key_at mem x))"
    if "x \<in> set (bk_nodes (?f (the_bucket mem b)))" for x
    using that set_erase_nth [of i "bucket_nodes mem b"] by (auto simp: bucket_nodes_def)
  note both = bin_ok_on_bucket [OF ok b f order_refl refl refl place, folded m_def, OF _ _ cnt]
  show "bin_ok bits hash m (bd\<lparr>bd_count := bd_count bd - 1\<rparr>)" "bin_frame bd mem (bd\<lparr>bd_count := bd_count bd - 1\<rparr>) m"
    using both nodes by (simp_all add: m_def)
qed

lemma resize_if_necessary_spec:
  assumes ok: "bin_ok bits hash mem bd"
  shows "\<exists>bd' mem'. resize_if_necessary bits hash bd mem = Some (bd', mem') \<and> bin_ok bits hash mem' bd'
    \<and> bin_frame bd mem bd' mem' \<and> mset (bin_nodes mem' bd') = mset (bin_nodes mem bd)"
proof (cases "bd_max_count bd \<le> bd_count bd")
  case True
  obtain e where "length (bd_buckets bd) = 2 ^ e" using ok by (auto simp: bin_ok_def)
  then have "2 * length (bd_buckets bd) = 2 ^ Suc e" by simp
  then show ?thesis using True resize_spec [OF bin_okD(4,5) [OF ok], of bits "Suc e"]
    by (auto simp: resize_if_necessary_def)
qed (use ok in \<open>simp add: resize_if_necessary_def\<close>)

lemma get_or_create_spec:
  assumes ok: "bin_ok bits hash mem bd"
  shows "\<exists>a bd' mem'. get_or_create bits hash dflt key (hash key) bd mem = Some (a, bd', mem')
    \<and> bin_ok bits hash mem' bd' \<and> bin_frame bd mem bd' mem' \<and> key_at mem' a = key
    \<and> (if key \<in> key_at mem ` set (bin_nodes mem bd)
       then a \<in> set (bin_nodes mem bd) \<and> mset (bin_nodes mem' bd') = mset (bin_nodes mem bd)
       else a = hm_next mem' - 1 \<and> hm_next mem \<le> a \<and> mset (bin_nodes mem' bd') = add_mset a (mset (bin_nodes mem bd))
         \<and> hn_value (the_node mem' a) = dflt)"
proof -
  obtain bd1 m1 where grow: "(if bd_max_count bd \<le> bd_count bd then resize_if_necessary bits hash bd mem
      else Some (bd, mem)) = Some (bd1, m1)" and ok1: "bin_ok bits hash m1 bd1" and fr: "bin_frame bd mem bd1 m1"
    and ms: "mset (bin_nodes m1 bd1) = mset (bin_nodes mem bd)"
    using resize_if_necessary_spec [OF ok] ok by (cases "bd_max_count bd \<le> bd_count bd") auto
  note keys = nodes_ok_frame(2) [OF bin_okD(4) [OF ok] fr]
  have set1: "set (bin_nodes m1 bd1) = set (bin_nodes mem bd)" using ms by (metis set_mset_mset)
  then have img: "key_at m1 ` set (bin_nodes m1 bd1) = key_at mem ` set (bin_nodes mem bd)" using keys by auto
  let ?b = "from_hash bits (bd_buckets bd1) (hash key)"
  show ?thesis
  proof (cases "search_bucket m1 (hash key) key (bucket_nodes m1 ?b) 0")
    case None
    have new: "key \<notin> key_at m1 ` set (bin_nodes m1 bd1)" by (rule search_bin(3) [OF ok1 None])
    obtain a bd2 m2 where add: "add_to_bucket ?b key (hash key) dflt bd1 m1 = (a, bd2, m2)" "bin_ok bits hash m2 bd2"
      "bin_frame bd1 m1 bd2 m2" "a = hm_next m1" "mset (bin_nodes m2 bd2) = add_mset a (mset (bin_nodes m1 bd1))"
      "key_at m2 a = key" "hn_value (the_node m2 a) = dflt"
      using bin_nodes_add [OF ok1 new refl, of dflt] by blast
    have "hm_next m2 = hm_next m1 + 1" using add(1) by (auto simp: add_to_bucket_def construct_node_def Let_def)
    moreover have "get_or_create bits hash dflt key (hash key) bd mem = Some (a, bd2, m2)"
      using grow None add(1) by (simp add: get_or_create_def operate_on_bin_def Let_def)
    moreover have "hm_next mem \<le> hm_next m1" using fr by (simp add: bin_frame_def)
    ultimately show ?thesis using add ms new img bin_frame_trans [OF fr add(3)] by simp
  next
    case (Some i)
    note found = search_bin(2) [OF ok1 Some]
    have "get_or_create bits hash dflt key (hash key) bd mem = Some (bucket_nodes m1 ?b ! i, bd1, m1)"
      using grow Some by (simp add: get_or_create_def operate_on_bin_def Let_def)
    moreover have "key \<in> key_at mem ` set (bin_nodes mem bd)" using found img by (metis imageI)
    ultimately show ?thesis using found ok1 fr ms set1 by simp
  qed
qed

lemma bin_remove_spec:
  assumes ok: "bin_ok bits hash mem bd"
  shows "\<exists>bd' mem'. bin_remove bits hash key (hash key) bd mem = Some (key \<in> key_at mem ` set (bin_nodes mem bd), bd', mem')
    \<and> bin_ok bits hash mem' bd' \<and> bin_frame bd mem bd' mem'
    \<and> (if key \<in> key_at mem ` set (bin_nodes mem bd)
       then \<exists>a. key_at mem a = key \<and> mset (bin_nodes mem bd) = add_mset a (mset (bin_nodes mem' bd'))
       else mset (bin_nodes mem' bd') = mset (bin_nodes mem bd))"
proof (cases "search_bucket mem (hash key) key (bucket_nodes mem (from_hash bits (bd_buckets bd) (hash key))) 0")
  case None
  then show ?thesis using search_bin(3) [OF ok None] ok by (simp add: bin_remove_def operate_on_bin_def Let_def)
next
  case (Some i)
  note found = search_bin(2) [OF ok Some]
  note erase = bin_nodes_erase [OF ok search_bin(1) [OF ok, of key], of i]
  have key: "key \<in> key_at mem ` set (bin_nodes mem bd)" using found by (metis imageI)
  have "\<exists>a. key_at mem a = key \<and> mset (bin_nodes mem bd) = add_mset a (mset (bin_nodes
      (on_bucket (\<lambda>bk. bk\<lparr>bk_nodes := erase_nth i (bk_nodes bk), bk_generation := bk_generation bk + 1\<rparr>)
        (from_hash bits (bd_buckets bd) (hash key)) mem) bd))"
    using found erase(3) by blast
  then show ?thesis using Some found erase(1,2) key by (simp add: bin_remove_def operate_on_bin_def Let_def)
qed

end
