(* ===== verification/Dictionary.thy ===== *)
theory Dictionary
  imports Main "HOL-Library.Monad_Syntax"
begin

text \<open>
  The interface of a map whose elements are accessed by reference, and what a sequence of
  operations on it does, compared with the same operations on a partial function.
\<close>

datatype ('k, 'v) dict_op = Read 'k | Assign 'k 'v | Erase 'k | Size

datatype 'v dict_result = Value 'v | Done | Erased bool | Count nat

fun run_dict :: "('k \<Rightarrow> 't \<Rightarrow> ('r \<times> 't) option) \<Rightarrow> ('k \<Rightarrow> 't \<Rightarrow> (bool \<times> 't) option) \<Rightarrow> ('r \<Rightarrow> 't \<Rightarrow> 'v) \<Rightarrow>
    ('r \<Rightarrow> 'v \<Rightarrow> 't \<Rightarrow> 't) \<Rightarrow> ('t \<Rightarrow> nat) \<Rightarrow> ('k, 'v) dict_op list \<Rightarrow> 't \<Rightarrow> ('v dict_result list \<times> 't) option" where
  "run_dict index remove read assign cnt [] t = Some ([], t)"
| "run_dict index remove read assign cnt (x # xs) t = do {
     (y, t) \<leftarrow> (case x of
        Read k \<Rightarrow> do { (r, t) \<leftarrow> index k t; Some (Value (read r t), t) }
      | Assign k v \<Rightarrow> do { (r, t) \<leftarrow> index k t; Some (Done, assign r v t) }
      | Erase k \<Rightarrow> do { (b, t) \<leftarrow> remove k t; Some (Erased b, t) }
      | Size \<Rightarrow> Some (Count (cnt t), t));
     (ys, t) \<leftarrow> run_dict index remove read assign cnt xs t;
     Some (y # ys, t) }"

text \<open>Reading an absent key inserts the default value.\<close>

definition value_or :: "'v \<Rightarrow> 'v option \<Rightarrow> 'v" where
  "value_or d x = (case x of None \<Rightarrow> d | Some v \<Rightarrow> v)"

fun spec_dict :: "'v \<Rightarrow> ('k, 'v) dict_op list \<Rightarrow> ('k \<Rightarrow> 'v option) \<Rightarrow> 'v dict_result list \<times> ('k \<Rightarrow> 'v option)" where
  "spec_dict d [] m = ([], m)"
| "spec_dict d (x # xs) m =
     (let (y, m) = (case x of
        Read k \<Rightarrow> (Value (value_or d (m k)), m(k \<mapsto> value_or d (m k)))
      | Assign k v \<Rightarrow> (Done, m(k \<mapsto> v))
      | Erase k \<Rightarrow> (Erased (m k \<noteq> None), m(k := None))
      | Size \<Rightarrow> (Count (card (dom m)), m));
          (ys, m) = spec_dict d xs m
      in (y # ys, m))"

locale dictionary =
  fixes holds :: "'t \<Rightarrow> bool" and vals :: "'t \<Rightarrow> 'k \<Rightarrow> 'v option" and d :: 'v
    and index :: "'k \<Rightarrow> 't \<Rightarrow> ('r \<times> 't) option" and remove :: "'k \<Rightarrow> 't \<Rightarrow> (bool \<times> 't) option"
    and read :: "'r \<Rightarrow> 't \<Rightarrow> 'v" and assign :: "'r \<Rightarrow> 'v \<Rightarrow> 't \<Rightarrow> 't" and cnt :: "'t \<Rightarrow> nat"
  assumes index: "holds t \<Longrightarrow> \<exists>r t'. index k t = Some (r, t') \<and> holds t' \<and> read r t' = value_or d (vals t k)
      \<and> vals t' = (vals t)(k \<mapsto> value_or d (vals t k))
      \<and> (\<forall>v. holds (assign r v t') \<and> vals (assign r v t') = (vals t)(k \<mapsto> v))"
    and remove: "holds t \<Longrightarrow> \<exists>t'. remove k t = Some (vals t k \<noteq> None, t') \<and> holds t' \<and> vals t' = (vals t)(k := None)"
    and cnt: "holds t \<Longrightarrow> cnt t = card (dom (vals t))"
begin

lemma run:
  "holds t \<Longrightarrow> spec_dict d xs (vals t) = (ys, m) \<Longrightarrow>
    \<exists>t'. run_dict index remove read assign cnt xs t = Some (ys, t') \<and> holds t' \<and> vals t' = m"
proof (induction xs arbitrary: t ys)
  case (Cons x xs)
  show ?case
  proof (cases x)
    case (Read k)
    obtain r t1 where t1: "index k t = Some (r, t1)" "holds t1" "read r t1 = value_or d (vals t k)"
      "vals t1 = (vals t)(k \<mapsto> value_or d (vals t k))" using index [OF Cons.prems(1)] by blast
    obtain zs where zs: "spec_dict d xs (vals t1) = (zs, m)" "ys = Value (value_or d (vals t k)) # zs"
      using Cons.prems(2) Read t1(4) by (auto split: prod.splits)
    then show ?thesis using Cons.IH [OF t1(2) zs(1)] t1 Read by auto
  next
    case (Assign k v)
    obtain r t1 where t1: "index k t = Some (r, t1)" "holds (assign r v t1)" "vals (assign r v t1) = (vals t)(k \<mapsto> v)"
      using index [OF Cons.prems(1)] by blast
    obtain zs where zs: "spec_dict d xs (vals (assign r v t1)) = (zs, m)" "ys = Done # zs"
      using Cons.prems(2) Assign t1(3) by (auto split: prod.splits)
    then show ?thesis using Cons.IH [OF t1(2) zs(1)] t1 Assign by auto
  next
    case (Erase k)
    obtain t1 where t1: "remove k t = Some (vals t k \<noteq> None, t1)" "holds t1" "vals t1 = (vals t)(k := None)"
      using remove [OF Cons.prems(1)] by blast
    obtain zs where zs: "spec_dict d xs (vals t1) = (zs, m)" "ys = Erased (vals t k \<noteq> None) # zs"
      using Cons.prems(2) Erase t1(3) by (auto split: prod.splits)
    then show ?thesis using Cons.IH [OF t1(2) zs(1)] t1(1) Erase by auto
  next
    case Size
    obtain zs where zs: "spec_dict d xs (vals t) = (zs, m)" "ys = Count (card (dom (vals t))) # zs"
      using Cons.prems(2) Size by (auto split: prod.splits)
    then show ?thesis using Cons.IH [OF Cons.prems(1) zs(1)] cnt [OF Cons.prems(1)] Size by auto
  qed
qed simp

end

end
