(* ===== verification/Hash_Table_Props.thy ===== *)
theory Hash_Table_Props
  imports Hash_Table_Inv Dictionary
begin

text \<open>
  The hash table as a map: the operations refine those of a partial function, references stay
  valid, and the size counts the keys.
\<close>

section \<open>The map of a bin and of a table\<close>

definition bin_map :: "('k, 'v) hmem \<Rightarrow> bin \<Rightarrow> 'k \<Rightarrow> nat option" where
  "bin_map mem bd = map_of (map (\<lambda>a. (key_at mem a, a)) (bin_nodes mem bd))"

lemma bin_map_iff:
  assumes "nodes_ok hash mem (bin_nodes mem bd)"
  shows "bin_map mem bd k = Some a \<longleftrightarrow> a \<in> set (bin_nodes mem bd) \<and> key_at mem a = k"
  using assms unfolding bin_map_def nodes_ok_def by (subst map_of_eq_Some_iff) (auto simp: o_def)

lemma bin_map_None: "bin_map mem bd k = None \<longleftrightarrow> k \<notin> key_at mem ` set (bin_nodes mem bd)"
  by (simp add: bin_map_def map_of_eq_None_iff image_image)

definition table_map :: "nat \<Rightarrow> ('k \<Rightarrow> u64) \<Rightarrow> ('k, 'v) hash_table \<Rightarrow> 'k \<Rightarrow> nat option" where
  "table_map bits hash t k = bin_map (ht_mem t) (ht_bins t ! get_bin_index bits (hash k)) k"

definition table_vals :: "nat \<Rightarrow> ('k \<Rightarrow> u64) \<Rightarrow> ('k, 'v) hash_table \<Rightarrow> 'k \<Rightarrow> 'v option" where
  "table_vals bits hash t k = map_option (\<lambda>a. read_ref a t) (table_map bits hash t k)"

definition bin_keys_ok :: "nat \<Rightarrow> ('k \<Rightarrow> u64) \<Rightarrow> ('k, 'v) hmem \<Rightarrow> bin \<Rightarrow> nat \<Rightarrow> bool" where
  "bin_keys_ok bits hash mem bd i \<longleftrightarrow> (\<forall>a\<in>set (bin_nodes mem bd). get_bin_index bits (hash (key_at mem a)) = i)"

definition table_ok :: "nat \<Rightarrow> ('k \<Rightarrow> u64) \<Rightarrow> ('k, 'v) hash_table \<Rightarrow> bool" where
  "table_ok bits hash t \<longleftrightarrow> length (ht_bins t) = 2 ^ bits
     \<and> (\<forall>i < 2 ^ bits. bin_ok bits hash (ht_mem t) (ht_bins t ! i) \<and> bin_keys_ok bits hash (ht_mem t) (ht_bins t ! i) i)
     \<and> (\<forall>i < 2 ^ bits. \<forall>j < 2 ^ bits. i \<noteq> j \<longrightarrow>
          set (bd_buckets (ht_bins t ! i)) \<inter> set (bd_buckets (ht_bins t ! j)) = {})"

lemma table_okD:
  assumes "table_ok bits hash t" "i < 2 ^ bits"
  shows "bin_ok bits hash (ht_mem t) (ht_bins t ! i)" "bin_keys_ok bits hash (ht_mem t) (ht_bins t ! i) i"
    "j < 2 ^ bits \<Longrightarrow> i \<noteq> j \<Longrightarrow> set (bd_buckets (ht_bins t ! i)) \<inter> set (bd_buckets (ht_bins t ! j)) = {}"
    "length (ht_bins t) = 2 ^ bits"
  using assms by (auto simp: table_ok_def)

lemma table_map_iff:
  assumes "table_ok bits hash t"
  shows "table_map bits hash t k = Some a \<longleftrightarrow>
    a \<in> set (bin_nodes (ht_mem t) (ht_bins t ! get_bin_index bits (hash k))) \<and> key_at (ht_mem t) a = k"
  unfolding table_map_def
  by (rule bin_map_iff) (use bin_okD(4) [OF table_okD(1) [OF assms get_bin_index_less]] in blast)

text \<open>Replacing one bin.\<close>

lemma replace_bin:
  assumes ok: "table_ok bits hash t" and i: "i < 2 ^ bits" and bin: "bin_ok bits hash mem' bd'"
    and fr: "bin_frame (ht_bins t ! i) (ht_mem t) bd' mem'" and keys: "bin_keys_ok bits hash mem' bd' i"
  defines "t' \<equiv> t\<lparr>ht_bins := (ht_bins t)[i := bd'], ht_mem := mem'\<rparr>"
  shows "table_ok bits hash t'"
    "table_map bits hash t' k = (if get_bin_index bits (hash k) = i then bin_map mem' bd' k else table_map bits hash t k)"
    "table_map bits hash t k = Some a \<Longrightarrow> hm_nodes mem' a = hm_nodes (ht_mem t) a"
proof -
  have len: "length (ht_bins t) = 2 ^ bits" by (rule table_okD(4) [OF ok i])
  note dis = table_okD(3) [OF ok i]
  have other: "bin_nodes mem' (ht_bins t ! j) = bin_nodes (ht_mem t) (ht_bins t ! j)" "bin_ok bits hash mem' (ht_bins t ! j)"
    "set (bd_buckets bd') \<inter> set (bd_buckets (ht_bins t ! j)) = {}" if "j < 2 ^ bits" "j \<noteq> i" for j
    using bin_ok_frame [OF table_okD(1) [OF ok that(1)] fr] dis [OF that(1)] that(2) by auto
  have same: "key_at mem' a = key_at (ht_mem t) a" if "a \<in> set (bin_nodes (ht_mem t) (ht_bins t ! j))" "j < 2 ^ bits" for a j
    using nodes_ok_frame(2) [OF bin_okD(4) [OF table_okD(1) [OF ok that(2)]] fr that(1)] .
  have "bin_keys_ok bits hash mem' (ht_bins t ! j) j" if "j < 2 ^ bits" "j \<noteq> i" for j
    using table_okD(2) [OF ok that(1)] other(1) [OF that] same that(1) by (simp add: bin_keys_ok_def)
  then have each: "bin_ok bits hash mem' (ht_bins t' ! j) \<and> bin_keys_ok bits hash mem' (ht_bins t' ! j) j" if "j < 2 ^ bits" for j
    using that bin keys other(2) len by (cases "j = i") (simp_all add: t'_def)
  have "set (bd_buckets (ht_bins t' ! j)) \<inter> set (bd_buckets (ht_bins t' ! k)) = {}" if "j < 2 ^ bits" "k < 2 ^ bits" "j \<noteq> k" for j k
    using that other(3) len table_okD(3) [OF ok that(1,2,3)] by (cases "j = i"; cases "k = i") (auto simp: t'_def)
  then show "table_ok bits hash t'" using each len by (simp add: table_ok_def) (simp add: t'_def)
  have "bin_map mem' (ht_bins t ! j) = bin_map (ht_mem t) (ht_bins t ! j)" if "j < 2 ^ bits" "j \<noteq> i" for j
    using other(1) [OF that] same that(1) by (simp add: bin_map_def cong: map_cong)
  then show "table_map bits hash t' k = (if get_bin_index bits (hash k) = i then bin_map mem' bd' k else table_map bits hash t k)"
    using len i get_bin_index_less [of bits "hash k"] by (simp add: table_map_def t'_def nth_list_update)
  show "hm_nodes mem' a = hm_nodes (ht_mem t) a" if "table_map bits hash t k = Some a"
  proof -
    have "a \<in> set (bin_nodes (ht_mem t) (ht_bins t ! get_bin_index bits (hash k)))"
      using that table_map_iff [OF ok] by blast
    then have "a < hm_next (ht_mem t)"
      using bin_okD(4) [OF table_okD(1) [OF ok get_bin_index_less]] by (auto simp: nodes_ok_def)
    then show ?thesis using fr by (simp add: bin_frame_def)
  qed
qed

section \<open>The operations\<close>

lemma map_eqI: "(\<And>a. f k = Some a \<longleftrightarrow> g k = Some a) \<Longrightarrow> f k = g k"
  by (metis not_Some_eq)

lemma table_index_spec:
  assumes ok: "table_ok bits hash t"
  shows "\<exists>a t'. table_index bits hash dflt key t = Some (a, t') \<and> table_ok bits hash t'
    \<and> table_map bits hash t' = (table_map bits hash t)(key \<mapsto> a)
    \<and> (table_map bits hash t key = None \<longrightarrow> read_ref a t' = dflt \<and> (\<forall>k. table_map bits hash t k \<noteq> Some a))
    \<and> (table_map bits hash t key \<noteq> None \<longrightarrow> table_map bits hash t key = Some a)
    \<and> (\<forall>k x. table_map bits hash t k = Some x \<longrightarrow> read_ref x t' = read_ref x t)"
proof -
  let ?i = "get_bin_index bits (hash key)"
  let ?bd = "ht_bins t ! ?i"
  have i: "?i < 2 ^ bits" by (rule get_bin_index_less)
  note bok = table_okD(1) [OF ok i]
  obtain a bd' mem' where g: "get_or_create bits hash dflt key (hash key) ?bd (ht_mem t) = Some (a, bd', mem')"
    "bin_ok bits hash mem' bd'" "bin_frame ?bd (ht_mem t) bd' mem'" "key_at mem' a = key"
    and c: "if key \<in> key_at (ht_mem t) ` set (bin_nodes (ht_mem t) ?bd)
       then a \<in> set (bin_nodes (ht_mem t) ?bd) \<and> mset (bin_nodes mem' bd') = mset (bin_nodes (ht_mem t) ?bd)
       else a = hm_next mem' - 1 \<and> hm_next (ht_mem t) \<le> a
         \<and> mset (bin_nodes mem' bd') = add_mset a (mset (bin_nodes (ht_mem t) ?bd)) \<and> hn_value (the_node mem' a) = dflt"
    using get_or_create_spec [OF bok, of dflt key] by blast
  have set': "set (bin_nodes mem' bd') = insert a (set (bin_nodes (ht_mem t) ?bd))"
  proof (cases "key \<in> key_at (ht_mem t) ` set (bin_nodes (ht_mem t) ?bd)")
    case True
    then show ?thesis using c by (metis insert_absorb set_mset_mset)
  next
    case False
    then show ?thesis using c by (metis set_mset_add_mset_insert set_mset_mset)
  qed
  note same = nodes_ok_frame(2) [OF bin_okD(4) [OF bok] g(3)]
  have keys: "bin_keys_ok bits hash mem' bd' ?i"
    using table_okD(2) [OF ok i] set' same g(4) by (simp add: bin_keys_ok_def)
  let ?t = "t\<lparr>ht_bins := (ht_bins t)[?i := bd'], ht_mem := mem'\<rparr>"
  note rb = replace_bin [OF ok i g(2,3) keys]
  have bm: "bin_map mem' bd' k = ((bin_map (ht_mem t) ?bd)(key \<mapsto> a)) k" for k
  proof (rule map_eqI)
    fix x
    have new: "bin_map mem' bd' k = Some x \<longleftrightarrow> x \<in> set (bin_nodes mem' bd') \<and> key_at mem' x = k"
      by (rule bin_map_iff [OF bin_okD(4) [OF g(2)]])
    have old: "bin_map (ht_mem t) ?bd k = Some x \<longleftrightarrow> x \<in> set (bin_nodes (ht_mem t) ?bd) \<and> key_at (ht_mem t) x = k"
      by (rule bin_map_iff [OF bin_okD(4) [OF bok]])
    show "bin_map mem' bd' k = Some x \<longleftrightarrow> ((bin_map (ht_mem t) ?bd)(key \<mapsto> a)) k = Some x"
    proof (cases "k = key")
      case True
      have inj: "inj_on (key_at mem') (set (bin_nodes mem' bd'))"
        using bin_okD(4) [OF g(2)] by (simp add: nodes_ok_def distinct_map)
      have mem_a: "a \<in> set (bin_nodes mem' bd')" unfolding set' by simp
      have "x \<in> set (bin_nodes mem' bd') \<and> key_at mem' x = key \<longleftrightarrow> x = a"
      proof
        assume "x \<in> set (bin_nodes mem' bd') \<and> key_at mem' x = key"
        then show "x = a" using inj_onD [OF inj _ _ mem_a, of x] g(4) by simp
      next
        assume "x = a"
        then show "x \<in> set (bin_nodes mem' bd') \<and> key_at mem' x = key" using mem_a g(4) by simp
      qed
      then show ?thesis using True new by auto
    next
      case False
      then have "x \<in> set (bin_nodes mem' bd') \<and> key_at mem' x = k \<longleftrightarrow>
          x \<in> set (bin_nodes (ht_mem t) ?bd) \<and> key_at (ht_mem t) x = k"
        using set' same [of x] g(4) by auto
      then show ?thesis using False new old by simp
    qed
  qed
  have tm: "table_map bits hash ?t = (table_map bits hash t)(key \<mapsto> a)"
    using rb(2) bm by (auto simp: fun_eq_iff table_map_def)
  have old: "x < hm_next (ht_mem t)" if "table_map bits hash t k = Some x" for k x
    using that table_map_iff [OF ok] bin_okD(4) [OF table_okD(1) [OF ok get_bin_index_less]] by (auto simp: nodes_ok_def)
  have none: "table_map bits hash t key = None \<longleftrightarrow> key \<notin> key_at (ht_mem t) ` set (bin_nodes (ht_mem t) ?bd)"
    by (simp add: table_map_def bin_map_None)
  have "table_index bits hash dflt key t = Some (a, ?t)" using g(1) by (simp add: table_index_def on_bin_def Let_def)
  moreover have "read_ref a ?t = dflt \<and> (\<forall>k. table_map bits hash t k \<noteq> Some a)" if "table_map bits hash t key = None"
    using c that none old by (auto simp: read_ref_def) (metis not_le)
  moreover have "table_map bits hash t key = Some a" if "table_map bits hash t key \<noteq> None"
    using c that none same g(4) table_map_iff [OF ok, of key a] by auto
  moreover have "read_ref x ?t = read_ref x t" if "table_map bits hash t k = Some x" for k x
    using rb(3) [OF that] by (simp add: read_ref_def the_node_def)
  ultimately show ?thesis using rb(1) tm by (intro exI [of _ a] exI [of _ ?t] conjI impI allI) simp_all
qed

lemma table_remove_spec:
  assumes ok: "table_ok bits hash t"
  shows "\<exists>t'. table_remove bits hash key t = Some (table_map bits hash t key \<noteq> None, t') \<and> table_ok bits hash t'
    \<and> table_map bits hash t' = (table_map bits hash t)(key := None)
    \<and> (\<forall>k x. table_map bits hash t k = Some x \<longrightarrow> read_ref x t' = read_ref x t)"
proof -
  let ?i = "get_bin_index bits (hash key)"
  let ?bd = "ht_bins t ! ?i"
  let ?has = "key \<in> key_at (ht_mem t) ` set (bin_nodes (ht_mem t) ?bd)"
  have i: "?i < 2 ^ bits" by (rule get_bin_index_less)
  note bok = table_okD(1) [OF ok i]
  obtain bd' mem' where g: "bin_remove bits hash key (hash key) ?bd (ht_mem t) = Some (?has, bd', mem')"
    "bin_ok bits hash mem' bd'" "bin_frame ?bd (ht_mem t) bd' mem'"
    and c: "if ?has then \<exists>a. key_at (ht_mem t) a = key \<and> mset (bin_nodes (ht_mem t) ?bd) = add_mset a (mset (bin_nodes mem' bd'))
       else mset (bin_nodes mem' bd') = mset (bin_nodes (ht_mem t) ?bd)"
    using bin_remove_spec [OF bok, of key] by blast
  note same = nodes_ok_frame(2) [OF bin_okD(4) [OF bok] g(3)]
  have set': "x \<in> set (bin_nodes mem' bd') \<longleftrightarrow> x \<in> set (bin_nodes (ht_mem t) ?bd) \<and> key_at (ht_mem t) x \<noteq> key" for x
  proof (cases ?has)
    case True
    then obtain a where a: "key_at (ht_mem t) a = key" "mset (bin_nodes (ht_mem t) ?bd) = add_mset a (mset (bin_nodes mem' bd'))"
      using c by auto
    have "mset (map (key_at (ht_mem t)) (bin_nodes (ht_mem t) ?bd)) = mset (map (key_at (ht_mem t)) (a # bin_nodes mem' bd'))"
      using a(2) by simp
    then have "distinct (map (key_at (ht_mem t)) (a # bin_nodes mem' bd'))"
      using bin_okD(4) [OF bok] mset_eq_imp_distinct_iff unfolding nodes_ok_def by blast
    moreover have "set (bin_nodes (ht_mem t) ?bd) = insert a (set (bin_nodes mem' bd'))"
      using a(2) by (metis set_mset_add_mset_insert set_mset_mset)
    ultimately show ?thesis using a(1) by (auto simp: image_iff)
  next
    case False
    then have "set (bin_nodes mem' bd') = set (bin_nodes (ht_mem t) ?bd)" using c by (metis set_mset_mset)
    then show ?thesis using False by auto
  qed
  have keys: "bin_keys_ok bits hash mem' bd' ?i"
    using table_okD(2) [OF ok i] set' same by (simp add: bin_keys_ok_def)
  let ?t = "t\<lparr>ht_bins := (ht_bins t)[?i := bd'], ht_mem := mem'\<rparr>"
  note rb = replace_bin [OF ok i g(2,3) keys]
  have bm: "bin_map mem' bd' k = ((bin_map (ht_mem t) ?bd)(key := None)) k" for k
  proof (rule map_eqI)
    fix x
    show "bin_map mem' bd' k = Some x \<longleftrightarrow> ((bin_map (ht_mem t) ?bd)(key := None)) k = Some x"
      unfolding fun_upd_apply bin_map_iff [OF bin_okD(4) [OF g(2)]] using bin_map_iff [OF bin_okD(4) [OF bok]] set' same
      by auto
  qed
  have tm: "table_map bits hash ?t = (table_map bits hash t)(key := None)"
    using rb(2) bm by (auto simp: fun_eq_iff table_map_def)
  have "?has \<longleftrightarrow> table_map bits hash t key \<noteq> None" by (simp add: table_map_def bin_map_None)
  then have "table_remove bits hash key t = Some (table_map bits hash t key \<noteq> None, ?t)"
    using g(1) by (simp add: table_remove_def on_bin_def Let_def)
  moreover have "read_ref x ?t = read_ref x t" if "table_map bits hash t k = Some x" for k x
    using rb(3) [OF that] by (simp add: read_ref_def the_node_def)
  ultimately show ?thesis using rb(1) tm by (intro exI [of _ ?t] conjI impI allI) simp_all
qed

section \<open>Size, writing and the new table\<close>

lemma dom_table_map: "dom (table_map bits hash t)
    = {k. k \<in> key_at (ht_mem t) ` set (bin_nodes (ht_mem t) (ht_bins t ! get_bin_index bits (hash k)))}"
  by (simp only: dom_def table_map_def bin_map_None not_not)

lemma dom_table_vals: "dom (table_vals bits hash t) = dom (table_map bits hash t)"
  by (simp add: table_vals_def dom_def)

lemma table_size_spec:
  assumes ok: "table_ok bits hash t"
  shows "table_size t = card (dom (table_map bits hash t))"
proof -
  let ?K = "\<lambda>i. key_at (ht_mem t) ` set (bin_nodes (ht_mem t) (ht_bins t ! i))"
  have idx: "get_bin_index bits (hash k) = i" if "k \<in> ?K i" "i < 2 ^ bits" for k i
    using table_okD(2) [OF ok that(2)] that(1) by (auto simp: bin_keys_ok_def)
  have "dom (table_map bits hash t) = (\<Union>i<2 ^ bits. ?K i)"
    unfolding dom_table_map using get_bin_index_less idx by blast
  also have "card (\<Union>i<2 ^ bits. ?K i) = (\<Sum>i<2 ^ bits. card (?K i))"
    using idx by (intro card_UN_disjoint) (simp, simp, blast)
  also have "\<dots> = (\<Sum>i<2 ^ bits. bd_count (ht_bins t ! i))"
  proof (rule sum.cong)
    fix i :: nat assume "i \<in> {..<2 ^ bits}"
    then have bok: "bin_ok bits hash (ht_mem t) (ht_bins t ! i)" using table_okD(1) [OF ok] by simp
    then have "distinct (map (key_at (ht_mem t)) (bin_nodes (ht_mem t) (ht_bins t ! i)))"
      using bin_okD(4) by (auto simp: nodes_ok_def)
    from distinct_card [OF this] show "card (?K i) = bd_count (ht_bins t ! i)" using bin_okD(5) [OF bok] by simp
  qed simp
  also have "\<dots> = table_size t"
    using table_okD(4) [OF ok, of 0] by (simp add: table_size_def sum_list_sum_nth atLeast0LessThan)
  finally show ?thesis by simp
qed

lemma table_write_spec:
  assumes ok: "table_ok bits hash t" and k: "table_map bits hash t k = Some a"
  shows "table_ok bits hash (write_ref a v t)" "table_map bits hash (write_ref a v t) = table_map bits hash t"
    "read_ref x (write_ref a v t) = (if x = a then v else read_ref x t)"
proof -
  let ?t = "write_ref a v t"
  have same: "bucket_nodes (ht_mem ?t) = bucket_nodes (ht_mem t)" "ht_bins ?t = ht_bins t" "hm_next (ht_mem ?t) = hm_next (ht_mem t)"
    "key_at (ht_mem ?t) = key_at (ht_mem t)" "\<And>x. hn_hash (the_node (ht_mem ?t) x) = hn_hash (the_node (ht_mem t) x)"
    by (auto simp: write_ref_def fun_eq_iff bucket_nodes_def the_bucket_def key_at_def the_node_def)
  have nodes: "bin_nodes (ht_mem ?t) bd = bin_nodes (ht_mem t) bd" for bd
    using same(1) by (simp add: bin_nodes_def nodes_in_def)
  have "bin_ok bits hash (ht_mem ?t) bd = bin_ok bits hash (ht_mem t) bd" for bd
    unfolding bin_ok_def nodes nodes_ok_def placed_def same(1,3,4,5) ..
  then show "table_ok bits hash ?t" using ok unfolding table_ok_def bin_keys_ok_def nodes same(2,4) by simp
  show "table_map bits hash ?t = table_map bits hash t"
    by (rule ext) (simp add: table_map_def bin_map_def nodes same(2,4))
  show "read_ref x ?t = (if x = a then v else read_ref x t)"
    by (simp add: write_ref_def read_ref_def the_node_def)
qed

lemma table_map_inj:
  assumes "table_ok bits hash t" "table_map bits hash t k = Some a" "table_map bits hash t k' = Some a"
  shows "k = k'"
proof -
  have "key_at (ht_mem t) a = k" using assms(2) unfolding table_map_iff [OF assms(1)] by (rule conjunct2)
  moreover have "key_at (ht_mem t) a = k'" using assms(3) unfolding table_map_iff [OF assms(1)] by (rule conjunct2)
  ultimately show ?thesis by simp
qed

text \<open>The interface, on the table.\<close>

definition table_holds :: "nat \<Rightarrow> ('k \<Rightarrow> u64) \<Rightarrow> ('k, 'v) hash_table \<Rightarrow> bool" where
  "table_holds bits hash t \<longleftrightarrow> table_ok bits hash t"

lemma write_vals:
  assumes ok: "table_ok bits hash t" and k: "table_map bits hash t k = Some a"
  shows "table_vals bits hash (write_ref a v t) = (table_vals bits hash t)(k \<mapsto> v)"
proof (rule ext)
  fix k'
  show "table_vals bits hash (write_ref a v t) k' = ((table_vals bits hash t)(k \<mapsto> v)) k'"
  proof (cases "k' = k")
    case True
    then show ?thesis using k by (simp add: table_vals_def table_write_spec(2) [OF ok k] table_write_spec(3) [OF ok k])
  next
    case False
    then have "table_map bits hash t k' \<noteq> Some a" using table_map_inj [OF ok k, of k'] by auto
    then show ?thesis using False
      by (cases "table_map bits hash t k'")
        (simp_all add: table_vals_def table_write_spec(2) [OF ok k] table_write_spec(3) [OF ok k])
  qed
qed

interpretation table: dictionary "table_holds bits hash" "table_vals bits hash" d
    "table_index bits hash d" "table_remove bits hash" read_ref write_ref table_size
  for bits and hash :: "'k \<Rightarrow> u64" and d :: 'v
proof
  fix t :: "('k, 'v) hash_table" and k assume "table_holds bits hash t"
  then have ok: "table_ok bits hash t" by (simp add: table_holds_def)
  obtain a t' where i: "table_index bits hash d k t = Some (a, t')" "table_ok bits hash t'"
    "table_map bits hash t' = (table_map bits hash t)(k \<mapsto> a)"
    "table_map bits hash t k = None \<longrightarrow> read_ref a t' = d \<and> (\<forall>k. table_map bits hash t k \<noteq> Some a)"
    "table_map bits hash t k \<noteq> None \<longrightarrow> table_map bits hash t k = Some a"
    "\<forall>k x. table_map bits hash t k = Some x \<longrightarrow> read_ref x t' = read_ref x t"
    using table_index_spec [OF ok, of d k] by (elim exE conjE) (rule that; assumption)
  have r: "read_ref a t' = value_or d (table_vals bits hash t k)"
    using i(4-6) by (cases "table_map bits hash t k") (auto simp: table_vals_def value_or_def)
  have v: "table_vals bits hash t' = (table_vals bits hash t)(k \<mapsto> value_or d (table_vals bits hash t k))"
  proof (rule ext)
    fix k'
    show "table_vals bits hash t' k' = ((table_vals bits hash t)(k \<mapsto> value_or d (table_vals bits hash t k))) k'"
      using i(3,6) r by (cases "table_map bits hash t k'") (auto simp: table_vals_def)
  qed
  have "table_map bits hash t' k = Some a" using i(3) by simp
  note w = table_write_spec(1) [OF i(2) this] write_vals [OF i(2) this]
  show "\<exists>r t'. table_index bits hash d k t = Some (r, t') \<and> table_holds bits hash t'
      \<and> read_ref r t' = value_or d (table_vals bits hash t k)
      \<and> table_vals bits hash t' = (table_vals bits hash t)(k \<mapsto> value_or d (table_vals bits hash t k))
      \<and> (\<forall>v. table_holds bits hash (write_ref r v t')
            \<and> table_vals bits hash (write_ref r v t') = (table_vals bits hash t)(k \<mapsto> v))"
    using i(1,2) r v w by (intro exI [of _ a] exI [of _ t']) (simp add: table_holds_def)
next
  fix t :: "('k, 'v) hash_table" and k assume "table_holds bits hash t"
  then have ok: "table_ok bits hash t" by (simp add: table_holds_def)
  obtain t' where t': "table_remove bits hash k t = Some (table_map bits hash t k \<noteq> None, t')" "table_ok bits hash t'"
    "table_map bits hash t' = (table_map bits hash t)(k := None)"
    "\<forall>k x. table_map bits hash t k = Some x \<longrightarrow> read_ref x t' = read_ref x t"
    using table_remove_spec [OF ok, of k] by (elim exE conjE) (rule that; assumption)
  have "table_vals bits hash t' = (table_vals bits hash t)(k := None)"
  proof (rule ext)
    fix k'
    show "table_vals bits hash t' k' = ((table_vals bits hash t)(k := None)) k'"
      using t'(3,4) by (cases "table_map bits hash t k'") (auto simp: table_vals_def)
  qed
  then show "\<exists>t'. table_remove bits hash k t = Some (table_vals bits hash t k \<noteq> None, t') \<and> table_holds bits hash t'
      \<and> table_vals bits hash t' = (table_vals bits hash t)(k := None)"
    using t'(1,2) by (simp add: table_holds_def table_vals_def)
next
  fix t :: "('k, 'v) hash_table" assume "table_holds bits hash t"
  then show "table_size t = card (dom (table_vals bits hash t))"
    by (simp add: table_size_spec table_holds_def dom_table_vals)
qed

section \<open>The constructor\<close>

definition mem_grows :: "('k, 'v) hmem \<Rightarrow> ('k, 'v) hmem \<Rightarrow> bool" where
  "mem_grows mem mem' \<longleftrightarrow> hm_next mem \<le> hm_next mem' \<and> (\<forall>a < hm_next mem. hm_nodes mem' a = hm_nodes mem a)
     \<and> (\<forall>b < hm_next mem. hm_buckets mem' b = hm_buckets mem b)"

lemma mem_grows_frame:
  assumes ok: "bin_ok bits hash mem bd" and gr: "mem_grows mem mem'"
  shows "bin_nodes mem' bd = bin_nodes mem bd" "bin_ok bits hash mem' bd"
proof -
  have "bin_frame (bd\<lparr>bd_buckets := []\<rparr>) mem (bd\<lparr>bd_buckets := []\<rparr>) mem'"
    using gr by (simp add: bin_frame_def mem_grows_def)
  from bin_ok_frame [OF ok this] show "bin_nodes mem' bd = bin_nodes mem bd" "bin_ok bits hash mem' bd" by simp_all
qed

lemma bin_place_Some: "idx < 2 ^ bits \<Longrightarrow> nodes \<noteq> [] \<Longrightarrow> \<exists>n. bin_place bits nodes idx = Some n \<and> n \<in> set nodes"
  by (simp add: bin_place_def bin_count_def Let_def less_mult_imp_div_less mult.commute)

lemma create_bins_spec:
  assumes "nodes \<noteq> []" "\<And>i. i \<in> set is \<Longrightarrow> i < 2 ^ bits"
  shows "\<exists>bds ns mem'. create_bins bits hash nodes is mem = Some (bds, ns, mem') \<and> length bds = length is
    \<and> length ns = length is \<and> mem_grows mem mem'
    \<and> (\<forall>bd\<in>set bds. bin_ok bits hash mem' bd \<and> bin_nodes mem' bd = [] \<and> set (bd_buckets bd) \<subseteq> {hm_next mem..<hm_next mem'})
    \<and> (\<forall>i < length is. \<forall>j < length is. i \<noteq> j \<longrightarrow> set (bd_buckets (bds ! i)) \<inter> set (bd_buckets (bds ! j)) = {})"
  using assms
proof (induction "is" arbitrary: mem)
  case (Cons idx "is")
  obtain n where n: "bin_place bits nodes idx = Some n" using bin_place_Some Cons.prems by fastforce
  obtain bd m1 where b: "bin_create bits hash idx mem = Some (bd, m1)" "bin_ok bits hash m1 bd" "bin_nodes m1 bd = []"
    and fr: "bin_frame \<lparr>bd_index = idx, bd_max_count = 0, bd_generation = 0, bd_buckets = [], bd_count = 0\<rparr> mem bd m1"
    using bin_create_spec [of bits hash idx mem] by blast
  have b': "mem_grows mem m1" "set (bd_buckets bd) \<subseteq> {hm_next mem..<hm_next m1}"
    using fr by (auto simp: bin_frame_def mem_grows_def)
  have "\<And>i. i \<in> set is \<Longrightarrow> i < 2 ^ bits" using Cons.prems(2) by simp
  from Cons.IH [OF Cons.prems(1) this, of m1] obtain bds ns m2 where r: "create_bins bits hash nodes is m1 = Some (bds, ns, m2)"
    "length bds = length is" "length ns = length is" "mem_grows m1 m2"
    "\<forall>bd\<in>set bds. bin_ok bits hash m2 bd \<and> bin_nodes m2 bd = [] \<and> set (bd_buckets bd) \<subseteq> {hm_next m1..<hm_next m2}"
    "\<forall>i < length is. \<forall>j < length is. i \<noteq> j \<longrightarrow> set (bd_buckets (bds ! i)) \<inter> set (bd_buckets (bds ! j)) = {}" by auto
  have grow: "mem_grows mem m2" using b'(1) r(4) by (auto simp: mem_grows_def)
  note first = mem_grows_frame [OF b(2) r(4)]
  have le: "hm_next mem \<le> hm_next m1" "hm_next m1 \<le> hm_next m2" using b'(1) r(4) by (simp_all add: mem_grows_def)
  have "bin_ok bits hash m2 bd' \<and> bin_nodes m2 bd' = [] \<and> set (bd_buckets bd') \<subseteq> {hm_next mem..<hm_next m2}"
    if "bd' \<in> set (bd # bds)" for bd'
  proof (cases "bd' = bd")
    case True
    then show ?thesis using first b(3) b'(2) le by (auto simp: subset_iff)
  next
    case False
    then have "bd' \<in> set bds" using that by simp
    then have "bin_ok bits hash m2 bd' \<and> bin_nodes m2 bd' = []" "set (bd_buckets bd') \<subseteq> {hm_next m1..<hm_next m2}"
      using r(5) by simp_all
    moreover have "{hm_next m1..<hm_next m2} \<subseteq> {hm_next mem..<hm_next m2}" using le by simp
    ultimately show ?thesis by blast
  qed
  moreover have apart: "set (bd_buckets bd) \<inter> set (bd_buckets (bds ! j)) = {}" if "j < length is" for j
    using r(2,5) that b'(2) nth_mem [of j bds] by (fastforce simp: subset_iff disjoint_iff)
  have "set (bd_buckets ((bd # bds) ! i)) \<inter> set (bd_buckets ((bd # bds) ! j)) = {}"
    if "i < length (idx # is)" "j < length (idx # is)" "i \<noteq> j" for i j
    using that apart r(6) by (cases i; cases j) auto
  ultimately show ?case using n b(1) r(1-3) grow by auto
qed (simp add: mem_grows_def)

lemma table_new_spec:
  fixes hash :: "'k \<Rightarrow> u64"
  assumes "nodes \<noteq> []"
  shows "\<exists>t :: ('k, 'v) hash_table. table_new bits hash nodes = Some t \<and> table_ok bits hash t \<and> table_map bits hash t = Map.empty"
proof -
  let ?mem = "\<lparr>hm_nodes = Map.empty, hm_buckets = Map.empty, hm_next = 0\<rparr> :: ('k, 'v) hmem"
  obtain bds ns mem where c: "create_bins bits hash nodes [0..<bin_count bits] ?mem = Some (bds, ns, mem)"
    "length bds = 2 ^ bits" "\<forall>bd\<in>set bds. bin_ok bits hash mem bd \<and> bin_nodes mem bd = []"
    "\<forall>i < 2 ^ bits. \<forall>j < 2 ^ bits. i \<noteq> j \<longrightarrow> set (bd_buckets (bds ! i)) \<inter> set (bd_buckets (bds ! j)) = {}"
    using create_bins_spec [OF assms, of "[0..<bin_count bits]" bits hash ?mem] by (auto simp: bin_count_def)
  let ?t = "\<lparr>ht_bins = bds, ht_nodes = ns, ht_mem = mem\<rparr>"
  have each: "bin_ok bits hash mem (bds ! i)" "bin_nodes mem (bds ! i) = []" if "i < 2 ^ bits" for i
    using c(2,3) that nth_mem [of i bds] by simp_all
  have "table_ok bits hash ?t" using each c(2,4) by (simp add: table_ok_def bin_keys_ok_def)
  moreover have "table_map bits hash ?t = Map.empty"
    using each(2) get_bin_index_less by (auto simp: table_map_def bin_map_def fun_eq_iff)
  ultimately show ?thesis using c(1) by (simp add: table_new_def)
qed

section \<open>Properties\<close>

text \<open>
  C1: The hash table is a map. Whatever the hash function, the number of bins and the nodes they
  are spread over, any sequence of reads and writes through \<open>operator[]\<close>, of \<open>remove\<close> and of \<open>size\<close>
  on a new table gives the results of the same operations on a partial function, where reading
  an absent key inserts the default value; in particular no resize loses, duplicates or mixes
  up an entry.
\<close>

theorem hash_table_refines_map:
  fixes hash :: "'k \<Rightarrow> u64" and d :: 'v
  assumes "nodes \<noteq> []" "spec_dict d ops Map.empty = (results, m)"
  shows "\<exists>t t'. table_new bits hash nodes = Some t
    \<and> run_dict (table_index bits hash d) (table_remove bits hash) read_ref write_ref table_size ops t = Some (results, t')
    \<and> table_vals bits hash t' = m \<and> table_size t' = card (dom m)"
proof -
  obtain t :: "('k, 'v) hash_table" where t: "table_new bits hash nodes = Some t" "table_ok bits hash t" "table_map bits hash t = Map.empty"
    using table_new_spec [OF assms(1), of bits hash] by (elim exE conjE) (rule that; assumption)
  have "table_vals bits hash t = Map.empty" using t(3) by (simp add: table_vals_def fun_eq_iff)
  then show ?thesis using table.run [where bits = bits and hash = hash and t = t and d = d and xs = ops and ys = results and m = m] table.cnt assms(2) t by (auto simp: table_holds_def)
qed

definition demo_ops :: "(nat, nat) dict_op list" where
  "demo_ops = [Assign 7 70, Read 8, Assign 7 71, Read 7, Size, Erase 8, Erase 9, Size]"

theorem hash_table_refines_map_wit:
  "\<exists>t t'. table_new 2 of_nat [\<lparr>nd_logical = 0, nd_physical = 0\<rparr>] = Some t
    \<and> run_dict (table_index 2 of_nat 5) (table_remove 2 of_nat) read_ref write_ref table_size demo_ops t
      = Some ([Done, Value 5, Done, Value 71, Count 2, Erased True, Erased False, Count 1], t')
    \<and> table_vals 2 of_nat t' = Map.empty(7 \<mapsto> 71) \<and> table_size t' = card (dom ([7 \<mapsto> (71::nat)] :: nat \<Rightarrow> nat option))"
  by (rule hash_table_refines_map) (simp_all add: demo_ops_def value_or_def fun_eq_iff card_insert_if)

lemma index_keeps:
  assumes "table_ok bits hash t" "table_index bits hash d k t = Some (a, t')"
  shows "table_ok bits hash t'" "table_map bits hash t' k = Some a"
    "table_map bits hash t k' = Some x \<Longrightarrow> table_map bits hash t' k' = Some x"
proof -
  obtain b t1 where s: "table_index bits hash d k t = Some (b, t1)" "table_ok bits hash t1"
    "table_map bits hash t1 = (table_map bits hash t)(k \<mapsto> b)"
    "table_map bits hash t k \<noteq> None \<longrightarrow> table_map bits hash t k = Some b"
    using table_index_spec [OF assms(1), of d k] by (elim exE conjE) (rule that; assumption)
  then have "b = a" "t1 = t'" using assms(2) by simp_all
  then show "table_ok bits hash t'" "table_map bits hash t' k = Some a"
    "table_map bits hash t k' = Some x \<Longrightarrow> table_map bits hash t' k' = Some x"
    using s(2-4) by auto
qed

lemma remove_keeps:
  assumes "table_ok bits hash t" "table_remove bits hash k t = Some (r, t')"
  shows "table_ok bits hash t'" "table_map bits hash t' = (table_map bits hash t)(k := None)"
proof -
  obtain t1 where s: "table_remove bits hash k t = Some (table_map bits hash t k \<noteq> None, t1)" "table_ok bits hash t1"
    "table_map bits hash t1 = (table_map bits hash t)(k := None)"
    using table_remove_spec [OF assms(1), of k] by (elim exE conjE) (rule that; assumption)
  then show "table_ok bits hash t'" "table_map bits hash t' = (table_map bits hash t)(k := None)" using assms(2) by simp_all
qed

lemma run_keeps:
  assumes "table_ok bits hash t" "table_map bits hash t k = Some a" "Erase k \<notin> set ops"
    and "run_dict (table_index bits hash d) (table_remove bits hash) read_ref write_ref table_size ops t = Some (rs, t')"
  shows "table_ok bits hash t' \<and> table_map bits hash t' k = Some a"
  using assms
proof (induction ops arbitrary: t rs)
  case (Cons x xs)
  note ok = Cons.prems(1) and run = Cons.prems(4)
  show ?case
  proof (cases x)
    case (Read k')
    then obtain r t1 ys where r: "table_index bits hash d k' t = Some (r, t1)"
      "run_dict (table_index bits hash d) (table_remove bits hash) read_ref write_ref table_size xs t1 = Some (ys, t')"
      using run by (auto simp: bind_eq_Some_conv)
    show ?thesis using Cons.IH [OF _ _ _ r(2)] index_keeps [OF ok r(1)] Cons.prems(2,3) by simp
  next
    case (Assign k' v)
    then obtain r t1 ys where r: "table_index bits hash d k' t = Some (r, t1)"
      "run_dict (table_index bits hash d) (table_remove bits hash) read_ref write_ref table_size xs (write_ref r v t1) = Some (ys, t')"
      using run by (auto simp: bind_eq_Some_conv)
    note t1 = index_keeps [OF ok r(1)]
    show ?thesis using Cons.IH [OF _ _ _ r(2)] table_write_spec(1,2) [OF t1(1,2), of v] t1(3) Cons.prems(2,3) by simp
  next
    case (Erase k')
    then obtain r t1 ys where r: "table_remove bits hash k' t = Some (r, t1)"
      "run_dict (table_index bits hash d) (table_remove bits hash) read_ref write_ref table_size xs t1 = Some (ys, t')"
      using run by (auto simp: bind_eq_Some_conv)
    show ?thesis using Cons.IH [OF _ _ _ r(2)] remove_keeps [OF ok r(1)] Cons.prems(2,3) Erase by auto
  next
    case Size
    then obtain ys where r:
      "run_dict (table_index bits hash d) (table_remove bits hash) read_ref write_ref table_size xs t = Some (ys, t')"
      using run by (auto simp: bind_eq_Some_conv)
    show ?thesis using Cons.IH [OF ok Cons.prems(2) _ r] Cons.prems(3) by simp
  qed
qed simp

text \<open>
  C22: References into the table stay valid: the reference \<open>operator[]\<close> gives for a key is given
  again, whatever other keys are read, written, inserted or removed in between, however often
  the bin is resized, as long as the key itself is not removed.
\<close>

theorem references_stay_valid:
  assumes "table_holds bits hash t" "table_index bits hash d k t = Some (a, t1)" "Erase k \<notin> set ops"
    and "run_dict (table_index bits hash d) (table_remove bits hash) read_ref write_ref table_size ops t1 = Some (rs, t2)"
  shows "\<exists>t3. table_index bits hash d k t2 = Some (a, t3)"
proof -
  note ok = assms(1) [unfolded table_holds_def]
  have "table_ok bits hash t1 \<and> table_map bits hash t1 k = Some a"
    using index_keeps [OF ok assms(2)] by simp
  then have last: "table_ok bits hash t2 \<and> table_map bits hash t2 k = Some a"
    using run_keeps [OF _ _ assms(3,4)] by blast
  then obtain b t3 where "table_index bits hash d k t2 = Some (b, t3)" using table_index_spec [of bits hash t2 d k] by blast
  then show ?thesis using last index_keeps [of bits hash t2 d k b t3] by auto
qed

end
