(* ===== verification/Iteration_Props.thy ===== *)
theory Iteration_Props
  imports Iterator Hash_Table_Props
begin

text \<open>
  The iterators of the hash table are iterators: over a bucket, a bucket space and the table; the
  units of a parallel iteration cut every bin into parts, and the chunks of a container cut it
  by node. And two failures: a changed bucket, and a node without bins.
\<close>

section \<open>Iterators over an unchanged table\<close>

definition bi_todo :: "('k, 'v) hmem \<Rightarrow> bucket_iter \<Rightarrow> nat list" where
  "bi_todo mem it = drop (bi_index it) (bucket_nodes mem (bi_bucket it))"

definition bi_ok :: "('k, 'v) hmem \<Rightarrow> bucket_iter \<Rightarrow> bool" where
  "bi_ok mem it \<longleftrightarrow> bi_generation it = bk_generation (the_bucket mem (bi_bucket it))
     \<and> bi_index it \<le> length (bucket_nodes mem (bi_bucket it)) \<and> update_curr_node mem it = it"

lemma update_curr_node_idem [simp]: "update_curr_node mem (update_curr_node mem it) = update_curr_node mem it"
  by (simp add: update_curr_node_def Let_def)

lemma update_curr_node_fields [simp]:
  "bi_bucket (update_curr_node mem it) = bi_bucket it" "bi_generation (update_curr_node mem it) = bi_generation it"
  "bi_index (update_curr_node mem it) = bi_index it"
  "bi_node (update_curr_node mem it) = (if bi_index it \<noteq> length (bucket_nodes mem (bi_bucket it))
     then Some (bucket_nodes mem (bi_bucket it) ! bi_index it) else None)"
  by (simp_all add: update_curr_node_def Let_def)

lemma bi_ok_node:
  assumes "bi_ok mem it"
  shows "bi_node it = (if bi_todo mem it = [] then None else Some (hd (bi_todo mem it)))"
proof -
  let ?ns = "bucket_nodes mem (bi_bucket it)"
  have "bi_node it = (if bi_index it \<noteq> length ?ns then Some (?ns ! bi_index it) else None)"
    using assms update_curr_node_fields(4) [of mem it] by (simp add: bi_ok_def)
  then show ?thesis using assms by (auto simp: bi_ok_def bi_todo_def hd_drop_conv_nth)
qed

interpretation bucket: iterator "bi_ok mem" "bi_todo mem" bi_is_end bi_deref "bi_next mem" for mem :: "('k, 'v) hmem"
proof (rule iteratorI)
  fix it assume ok: "bi_ok mem it"
  show "bi_is_end it \<longleftrightarrow> bi_todo mem it = []" using bi_ok_node [OF ok] by (simp add: bi_is_end_def)
  show "bi_deref it = hd (bi_todo mem it)" if "bi_todo mem it \<noteq> []" using bi_ok_node [OF ok] that by (simp add: bi_deref_def)
  show "bi_ok mem (snd (bi_next mem it)) \<and> bi_todo mem (snd (bi_next mem it)) = tl (bi_todo mem it)
    \<and> fst (bi_next mem it) = (tl (bi_todo mem it) \<noteq> [])"
  proof (cases "bi_todo mem it = []")
    case True
    then show ?thesis using bi_ok_node [OF ok] ok by (simp add: bi_next_def)
  next
    case False
    let ?it = "update_curr_node mem (it\<lparr>bi_index := bi_index it + 1\<rparr>)"
    have next_it: "bi_next mem it = (\<not> bi_is_end ?it, ?it)"
      using ok bi_ok_node [OF ok] False by (simp add: bi_next_def bi_ok_def Let_def)
    have ok': "bi_ok mem ?it" using ok False by (simp add: bi_ok_def bi_todo_def)
    have "bi_todo mem ?it = tl (bi_todo mem it)" by (simp add: bi_todo_def drop_Suc tl_drop)
    then show ?thesis using next_it ok' bi_ok_node [OF ok'] by (simp add: bi_is_end_def)
  qed
qed

lemma bucket_iter_new_ok:
  "bi_ok mem (bucket_iter_new mem b 0) \<and> bi_todo mem (bucket_iter_new mem b 0) = bucket_nodes mem b"
  by (simp add: bucket_iter_new_def bi_ok_def bi_todo_def)

interpretation buckets: rec_iterator "bi_ok mem" "bi_todo mem" bi_is_end bi_deref "bi_next mem"
    "length bs" "space_sub mem bs" "\<lambda>i. bucket_nodes mem (bs ! i)"
  for mem :: "('k, 'v) hmem" and bs
  by unfold_locales (simp add: space_sub_def bucket_iter_new_ok)

definition si_todo :: "('k, 'v) hmem \<Rightarrow> space_iter \<Rightarrow> nat list" where
  "si_todo mem it = ri_todo (\<lambda>i. bucket_nodes mem (si_buckets it ! i)) (bi_todo mem) (si_iter it)"

definition si_ok :: "('k, 'v) hmem \<Rightarrow> space_iter \<Rightarrow> bool" where
  "si_ok mem it \<longleftrightarrow> ri_ok (length (si_buckets it)) (bi_ok mem) (bi_todo mem) (si_iter it)"

interpretation space: iterator "si_ok mem" "si_todo mem" si_is_end si_deref "si_next mem" for mem :: "('k, 'v) hmem"
proof (rule iteratorI)
  fix it assume "si_ok mem it"
  then have ok: "ri_ok (length (si_buckets it)) (bi_ok mem) (bi_todo mem) (si_iter it)" by (simp add: si_ok_def)
  show "si_is_end it \<longleftrightarrow> si_todo mem it = []"
    unfolding si_is_end_def si_todo_def by (rule buckets.rec.is_end [OF ok])
  show "si_deref it = hd (si_todo mem it)" if "si_todo mem it \<noteq> []"
    unfolding si_deref_def si_todo_def by (rule buckets.rec.deref [OF ok that [unfolded si_todo_def]])
  show "si_ok mem (snd (si_next mem it)) \<and> si_todo mem (snd (si_next mem it)) = tl (si_todo mem it)
    \<and> fst (si_next mem it) = (tl (si_todo mem it) \<noteq> [])"
    using buckets.rec.nxt [OF ok]
    by (simp add: si_next_def si_ok_def si_todo_def split_beta Let_def)
qed

lemma space_iter_new_ok:
  assumes "e \<le> length bs"
  shows "si_ok mem (space_iter_new mem bs s e)"
    "si_todo mem (space_iter_new mem bs s e) = nodes_in mem (map ((!) bs) [s..<e])"
proof -
  have e: "(if e < length bs then e else length bs) = e" using assms by simp
  show "si_ok mem (space_iter_new mem bs s e)"
    using buckets.init(1) [OF assms, of mem bi_none s] unfolding si_ok_def space_iter_new_def e by simp
  show "si_todo mem (space_iter_new mem bs s e) = nodes_in mem (map ((!) bs) [s..<e])"
    using buckets.init(2) [OF assms, of mem bi_none s] unfolding si_todo_def space_iter_new_def e
    by (simp add: nodes_in_def o_def)
qed

interpretation spaces: rec_iterator "si_ok (ht_mem t)" "si_todo (ht_mem t)" si_is_end si_deref "si_next (ht_mem t)"
    "length (ht_bins t)" "table_sub t" "\<lambda>i. bin_nodes (ht_mem t) (ht_bins t ! i)"
  for t :: "('k, 'v) hash_table"
  by unfold_locales (simp add: table_sub_def space_iter_new_ok bin_nodes_def map_nth Let_def)

lemma table_entries:
  assumes ok: "table_ok bits hash t"
  defines "as \<equiv> concat (map (bin_nodes (ht_mem t)) (ht_bins t))"
  shows "length as = table_size t" "set (map (key_at (ht_mem t)) as) = dom (table_map bits hash t)"
    "distinct (map (key_at (ht_mem t)) as)" "table_map bits hash t k = Some a \<Longrightarrow> a \<in> set as \<and> key_at (ht_mem t) a = k"
proof -
  let ?n = "\<lambda>i. bin_nodes (ht_mem t) (ht_bins t ! i)" and ?key = "key_at (ht_mem t)"
  have len: "length (ht_bins t) = 2 ^ bits" using table_okD(4) [OF ok, of 0] by simp
  then have as: "as = concat (map ?n [0..<2 ^ bits])" unfolding as_def by (metis (no_types, lifting) map_map map_nth o_def map_cong)
  show size: "length as = table_size t"
  proof -
    have "length (?n i) = bd_count (ht_bins t ! i)" if "i < 2 ^ bits" for i
      using bin_okD(5) [OF table_okD(1) [OF ok that]] by simp
    then have "map (length \<circ> ?n) [0..<2 ^ bits] = map bd_count (ht_bins t)"
      using len by (intro nth_equalityI) simp_all
    then show ?thesis by (simp add: as length_concat table_size_def)
  qed
  have in_as: "a \<in> set as" if "a \<in> set (?n (get_bin_index bits (hash k)))" for a k
  proof -
    have "get_bin_index bits (hash k) \<in> {0..<2 ^ bits}" using get_bin_index_less [of bits "hash k"] by simp
    with that show ?thesis by (simp only: as set_concat set_map set_upt) blast
  qed
  show keys: "set (map ?key as) = dom (table_map bits hash t)"
  proof -
    have "k \<in> ?key ` set as \<longleftrightarrow> k \<in> ?key ` set (?n (get_bin_index bits (hash k)))" for k
    proof
      assume "k \<in> ?key ` set as"
      then obtain i a where i: "i < 2 ^ bits" "a \<in> set (?n i)" "?key a = k" unfolding as by auto
      then have "get_bin_index bits (hash k) = i" using table_okD(2) [OF ok i(1)] by (auto simp: bin_keys_ok_def)
      then show "k \<in> ?key ` set (?n (get_bin_index bits (hash k)))" using i by blast
    next
      assume "k \<in> ?key ` set (?n (get_bin_index bits (hash k)))"
      then obtain a where "a \<in> set (?n (get_bin_index bits (hash k)))" "k = ?key a" by blast
      then show "k \<in> ?key ` set as" using in_as by blast
    qed
    then show ?thesis by (auto simp: dom_table_map)
  qed
  have "card (set (map ?key as)) = length (map ?key as)" using keys size table_size_spec [OF ok] by simp
  then show "distinct (map ?key as)" by (rule card_distinct)
  show "a \<in> set as \<and> ?key a = k" if "table_map bits hash t k = Some a"
    using that table_map_iff [OF ok] in_as by blast
qed

text \<open>
  C16: Iterating over an unchanged table from begin to end visits every entry exactly once: the keys
  visited are distinct, there are as many as \<open>size\<close> says, and with their values they make up the
  map.
\<close>

theorem table_iteration_complete:
  assumes "table_holds bits hash t"
  shows "\<exists>as. visit_all ri_is_end table_deref (table_next t) (table_begin bits t) = Some as
    \<and> distinct (map (key_at (ht_mem t)) as) \<and> length as = table_size t
    \<and> map_of (map (\<lambda>a. (key_at (ht_mem t) a, read_ref a t)) as) = table_vals bits hash t"
proof -
  note ok = assms [unfolded table_holds_def]
  let ?key = "key_at (ht_mem t)" and ?as = "concat (map (bin_nodes (ht_mem t)) (ht_bins t))"
  note entries = table_entries [OF ok]
  have len: "length (ht_bins t) = 2 ^ bits" using table_okD(4) [OF ok, of 0] by simp
  then have map_bins: "map (\<lambda>i. bin_nodes (ht_mem t) (ht_bins t ! i)) [0..<2 ^ bits] = map (bin_nodes (ht_mem t)) (ht_bins t)"
    by (intro nth_equalityI) simp_all
  have "bin_count bits \<le> length (ht_bins t)" using len by (simp add: bin_count_def)
  note init = spaces.init [OF this, of si_none 0, folded table_iter_def, folded table_begin_def]
  have v: "visit_all ri_is_end table_deref (table_next t) (table_begin bits t) = Some ?as"
    using spaces.rec.visit [OF init(1)] init(2) map_bins by (simp add: table_next_def table_deref_def [abs_def] bin_count_def)
  have "map_of (map (\<lambda>a. (?key a, read_ref a t)) ?as) k = table_vals bits hash t k" for k
  proof (cases "table_map bits hash t k")
    case None
    then have "k \<notin> set (map ?key ?as)" using entries(2) by auto
    then show ?thesis using None by (simp add: table_vals_def map_of_eq_None_iff image_image)
  next
    case (Some a)
    then have "(k, read_ref a t) \<in> set (map (\<lambda>a. (?key a, read_ref a t)) ?as)" using entries(4) by force
    moreover have "distinct (map fst (map (\<lambda>a. (?key a, read_ref a t)) ?as))" using entries(3) by (simp add: o_def)
    ultimately have "map_of (map (\<lambda>a. (?key a, read_ref a t)) ?as) k = Some (read_ref a t)" by (intro map_of_is_SomeI)
    then show ?thesis using Some by (simp only: table_vals_def option.map)
  qed
  then have "map_of (map (\<lambda>a. (?key a, read_ref a t)) ?as) = table_vals bits hash t" by (rule ext)
  then show ?thesis using v entries(1,3) by (intro exI [of _ ?as] conjI)
qed

section \<open>Parallel iteration\<close>

lemma unit_ranges_from:
  "concat (map (\<lambda>i. [i * n div units..<(i + 1) * n div units]) [0..<k]) = [0..<k * n div units]"
proof (induction k)
  case (Suc k)
  have "k * n div units \<le> Suc k * n div units" by (intro div_le_mono) simp
  then show ?case using Suc upt_add_eq_append [of 0 "k * n div units" "Suc k * n div units - k * n div units"] by simp
qed simp

lemma unit_ranges_cover:
  assumes "units \<noteq> 0 \<or> n = 0"
  shows "concat (map (\<lambda>(s, e). [s..<e]) (unit_ranges n units)) = [0..<n]"
proof (cases "units = 0")
  case False
  have "concat (map (\<lambda>(s, e). [s..<e]) (unit_ranges n units)) = [0..<units * n div units]"
    using unit_ranges_from [of n units units] by (simp add: unit_ranges_def o_def)
  then show ?thesis using False by simp
qed (use assms in \<open>simp add: unit_ranges_def\<close>)

lemma unit_ranges_le: "(s, e) \<in> set (unit_ranges n units) \<Longrightarrow> e \<le> n"
proof (clarsimp simp: unit_ranges_def)
  fix i assume i: "i < units"
  then have "Suc i * n div units \<le> units * n div units" by (intro div_le_mono mult_le_mono1) simp
  then show "(n + i * n) div units \<le> n" using i by simp
qed

lemma concat_nodes_in:
  "concat (map (\<lambda>(s, e). nodes_in mem (map ((!) bs) [s..<e])) rs)
    = nodes_in mem (map ((!) bs) (concat (map (\<lambda>(s, e). [s..<e]) rs)))"
  by (induction rs) (auto simp: nodes_in_def)

lemma bin_units_visit:
  assumes "0 < m"
  shows "map (visit_all si_is_end si_deref (si_next mem)) (bin_units mem m bd)
      = map Some (map (si_todo mem) (bin_units mem m bd))"
    "concat (map (si_todo mem) (bin_units mem m bd)) = bin_nodes mem bd"
proof -
  let ?bs = "bd_buckets bd" let ?rs = "unit_ranges (length ?bs) (min m (length ?bs))"
  have ok: "si_ok mem (space_iter_new mem ?bs s e)"
    "si_todo mem (space_iter_new mem ?bs s e) = nodes_in mem (map ((!) ?bs) [s..<e])" if "(s, e) \<in> set ?rs" for s e
    using space_iter_new_ok [OF unit_ranges_le [OF that], of mem s] by simp_all
  show "map (visit_all si_is_end si_deref (si_next mem)) (bin_units mem m bd) = map Some (map (si_todo mem) (bin_units mem m bd))"
    using ok(1) by (auto simp: bin_units_def Let_def space.visit)
  have "map (si_todo mem) (bin_units mem m bd) = map (\<lambda>(s, e). nodes_in mem (map ((!) ?bs) [s..<e])) ?rs"
    using ok(2) by (auto simp: bin_units_def Let_def)
  then have "concat (map (si_todo mem) (bin_units mem m bd)) = nodes_in mem (map ((!) ?bs) (concat (map (\<lambda>(s, e). [s..<e]) ?rs)))"
    by (simp only: concat_nodes_in)
  then show "concat (map (si_todo mem) (bin_units mem m bd)) = bin_nodes mem bd"
    using assms by (subst (asm) unit_ranges_cover) (auto simp: map_nth bin_nodes_def)
qed

lemma parallel_iters:
  assumes "0 < m"
  shows "map (visit_all si_is_end si_deref (si_next mem)) (concat (map (bin_units mem m) bds))
      = map Some (map (si_todo mem) (concat (map (bin_units mem m) bds)))"
    "concat (map (si_todo mem) (concat (map (bin_units mem m) bds))) = concat (map (bin_nodes mem) bds)"
  by (induction bds) (simp_all add: bin_units_visit [OF assms])


section \<open>A changed bucket\<close>

lemma first_from_hash_bound: "c \<in> set as \<Longrightarrow> first_from_hash mem (hn_hash (the_node mem c)) as < length as"
  by (induction as) auto

lemma stale_next:
  assumes "bi_generation it \<noteq> bk_generation (the_bucket mem (bi_bucket it))"
    and "bi_node it = Some c" "c \<in> set (bucket_nodes mem (bi_bucket it))"
  obtains it' c' where "bi_next mem it = (True, it')" "bi_bucket it' = bi_bucket it" "bi_generation it' = bi_generation it"
    "bi_node it' = Some c'" "c' \<in> set (bucket_nodes mem (bi_bucket it))"
proof -
  let ?ns = "bucket_nodes mem (bi_bucket it)"
  let ?i = "first_from_hash mem (hn_hash (the_node mem c)) ?ns"
  have i: "?i < length ?ns" using assms(3) by (rule first_from_hash_bound)
  have "bi_next mem it = (True, update_curr_node mem (it\<lparr>bi_index := ?i\<rparr>))"
    using assms i by (simp add: bi_next_def Let_def bi_is_end_def bucket_nodes_def)
  then show thesis using i by (intro that [of "update_curr_node mem (it\<lparr>bi_index := ?i\<rparr>)" "?ns ! ?i"]) simp_all
qed

lemma stale_diverges:
  assumes "bi_generation it \<noteq> bk_generation (the_bucket mem (bi_bucket it))"
    and "bi_node it = Some c" "c \<in> set (bucket_nodes mem (bi_bucket it))"
  shows "visit_all bi_is_end bi_deref (bi_next mem) it \<noteq> Some xs"
  using assms
proof (induction xs arbitrary: it c)
  case Nil
  then show ?case by (subst visit_all.simps) (simp add: bi_is_end_def bind_eq_Some_conv)
next
  case (Cons x xs)
  obtain it' c' where n: "bi_next mem it = (True, it')" "bi_bucket it' = bi_bucket it" "bi_generation it' = bi_generation it"
    "bi_node it' = Some c'" "c' \<in> set (bucket_nodes mem (bi_bucket it))"
    using stale_next [OF Cons.prems] by metis
  have "visit_all bi_is_end bi_deref (bi_next mem) it' \<noteq> Some xs" using Cons.IH [of it' c'] Cons.prems(1) n by simp
  then show ?case using n(1) Cons.prems(2) by (subst visit_all.simps) (auto simp: bi_is_end_def bind_eq_Some_conv)
qed

text \<open>
  C24: An entry added to a bucket makes every iterator inside it endless: \<open>next\<close> then searches for
  the first entry whose hash is not below the current one's and finds at the latest the current
  entry again, and as it never takes over the new generation it does so each time. The loop
  over the bucket does not end.
\<close>

theorem insert_makes_iterators_endless:
  assumes "bi_ok mem it" "\<not> bi_is_end it" "add_to_bucket (bi_bucket it) key h v bd mem = (a, bd', mem')"
  shows "visit_all bi_is_end bi_deref (bi_next mem') it = None"
proof -
  obtain c where c: "bi_node it = Some c" using assms(2) by (auto simp: bi_is_end_def)
  then have "bi_todo mem it \<noteq> []" "c = hd (bi_todo mem it)" using bi_ok_node [OF assms(1)] by (auto split: if_splits)
  then have "c \<in> set (bi_todo mem it)" by simp
  then have cin: "c \<in> set (bucket_nodes mem (bi_bucket it))" unfolding bi_todo_def by (rule in_set_dropD)
  have b: "the_bucket mem' (bi_bucket it) = (the_bucket mem (bi_bucket it))\<lparr>bk_nodes := bucket_nodes mem (bi_bucket it) @ [a],
      bk_generation := bk_generation (the_bucket mem (bi_bucket it)) + 1\<rparr>"
    using assms(3) by (auto simp: add_to_bucket_def construct_node_def on_bucket_def the_bucket_def bucket_nodes_def)
  have "bi_generation it \<noteq> bk_generation (the_bucket mem' (bi_bucket it))" using assms(1) b by (simp add: bi_ok_def)
  moreover have "c \<in> set (bucket_nodes mem' (bi_bucket it))" using cin b by (simp add: bucket_nodes_def)
  ultimately show ?thesis using stale_diverges [OF _ c] by (cases "visit_all bi_is_end bi_deref (bi_next mem') it") auto
qed

definition demo_hmem :: "(nat, nat) hmem" where
  "demo_hmem = \<lparr>hm_nodes = [1 \<mapsto> \<lparr>hn_hash = 4, hn_key = 4, hn_value = 40\<rparr>],
     hm_buckets = [0 \<mapsto> \<lparr>bk_index = 0, bk_generation = 7, bk_nodes = [1]\<rparr>], hm_next = 2\<rparr>"

theorem insert_makes_iterators_endless_wit:
  "visit_all bi_is_end bi_deref
     (bi_next (snd (snd (add_to_bucket 0 5 5 50 \<lparr>bd_index = 0, bd_max_count = 3, bd_generation = 7, bd_buckets = [0], bd_count = 1\<rparr> demo_hmem))))
     (bucket_iter_new demo_hmem 0 0) = None"
  by (rule insert_makes_iterators_endless [of demo_hmem _ 5 5 50 "\<lparr>bd_index = 0, bd_max_count = 3, bd_generation = 7, bd_buckets = [0], bd_count = 1\<rparr>"])
     (simp add: bucket_iter_new_ok, simp_all add: bi_is_end_def bucket_iter_new_def update_curr_node_def bucket_nodes_def
        the_bucket_def demo_hmem_def add_to_bucket_def construct_node_def)

section \<open>Chunks of a standard container\<close>

text \<open>The chunks for a policy that answers at every position.\<close>

fun chunk_list :: "(nat \<Rightarrow> 'n) \<Rightarrow> nat \<Rightarrow> nat \<Rightarrow> nat \<Rightarrow> nat \<Rightarrow> nat \<Rightarrow> 'n \<Rightarrow> nat \<Rightarrow> ('n \<times> nat \<times> nat) list" where
  "chunk_list policy mx n 0 from0 it c k = []"
| "chunk_list policy mx n (Suc left) from0 it c k =
     (if policy (it + 1) \<noteq> c \<or> it + 1 = n \<or> mx \<le> k + 1
      then (c, from0, it + 1) # chunk_list policy mx n left (it + 1) (it + 1) (policy (it + 1)) 0
      else chunk_list policy mx n left from0 (it + 1) c (k + 1))"

definition chunks_of :: "(nat \<Rightarrow> 'n) \<Rightarrow> nat \<Rightarrow> nat \<Rightarrow> ('n \<times> nat \<times> nat) list" where
  "chunks_of policy mx n = chunk_list policy mx n n 0 0 (policy 0) 0"

lemma chunk_loop_total:
  "\<forall>i. it < i \<and> i \<le> it + left \<longrightarrow> policy i = Some (f i)
    \<Longrightarrow> chunk_loop policy mx n left from0 it c k = Some (chunk_list f mx n left from0 it c k)"
proof (induction left arbitrary: from0 it c k)
  case (Suc left)
  have "policy (it + 1) = Some (f (it + 1))" using Suc.prems by simp
  moreover have "\<forall>i. it + 1 < i \<and> i \<le> it + 1 + left \<longrightarrow> policy i = Some (f i)" using Suc.prems by simp
  ultimately show ?case using Suc.IH [of "it + 1"] by (simp add: Let_def)
qed simp

lemma container_chunks_total:
  "\<forall>i\<le>n. policy i = Some (f i) \<Longrightarrow> container_chunks policy mx n = Some (chunks_of f mx n)"
  using chunk_loop_total [of 0 n policy f mx n 0 "f 0" 0] by (simp add: container_chunks_def chunks_of_def)

text \<open>A policy that does not answer somewhere, the end included, is the end of the distribution.\<close>

lemma chunk_loop_undefined:
  "it < i \<Longrightarrow> i \<le> it + left \<Longrightarrow> policy i = None \<Longrightarrow> chunk_loop policy mx n left from0 it c k = None"
proof (induction left arbitrary: from0 it c k)
  case (Suc left)
  show ?case
  proof (cases "i = it + 1")
    case True
    then show ?thesis using Suc.prems(3) by (simp add: Let_def)
  next
    case False
    then have "it + 1 < i" "i \<le> it + 1 + left" using Suc.prems by simp_all
    then have "chunk_loop policy mx n left from0 (it + 1) c k = None" for from0 c k using Suc.IH Suc.prems(3) by blast
    then show ?thesis by (simp add: Let_def split: bind_splits)
  qed
qed simp

lemma container_chunks_undefined: "i \<le> n \<Longrightarrow> policy i = None \<Longrightarrow> container_chunks policy mx n = None"
  using chunk_loop_undefined [of 0 i n policy mx n 0 _ 0]
  by (cases "i = 0") (simp_all add: container_chunks_def split: bind_splits)

lemma chunk_list_spec:
  assumes "from0 \<le> it" "it + left = n" "\<forall>j\<in>{from0..it}. policy j = c" "curr_chunk = it - from0" "curr_chunk = 0 \<or> curr_chunk < mx"
    and "left = 0 \<longrightarrow> from0 = it"
  shows "concat (map (\<lambda>(_, s, e). [s..<e]) (chunk_list policy mx n left from0 it c curr_chunk)) = [from0..<n]
    \<and> (\<forall>(x, s, e)\<in>set (chunk_list policy mx n left from0 it c curr_chunk).
          s < e \<and> e \<le> n \<and> e - s \<le> max 1 mx \<and> (\<forall>j\<in>{s..<e}. policy j = x))"
  using assms
proof (induction left arbitrary: from0 it c curr_chunk)
  case (Suc left)
  show ?case
  proof (cases "policy (it + 1) \<noteq> c \<or> it + 1 = n \<or> mx \<le> curr_chunk + 1")
    case True
    let ?rest = "chunk_list policy mx n left (it + 1) (it + 1) (policy (it + 1)) 0"
    have rest: "concat (map (\<lambda>(_, s, e). [s..<e]) ?rest) = [it + 1..<n]
      \<and> (\<forall>(x, s, e)\<in>set ?rest. s < e \<and> e \<le> n \<and> e - s \<le> max 1 mx \<and> (\<forall>j\<in>{s..<e}. policy j = x))"
      using Suc.prems(2) by (intro Suc.IH) auto
    have first: "from0 < it + 1" "it + 1 \<le> n" "it + 1 - from0 \<le> max 1 mx" "\<forall>j\<in>{from0..<it + 1}. policy j = c"
      using Suc.prems by auto
    have "[from0..<n] = [from0..<it + 1] @ [it + 1..<n]" using first by (metis le_add_diff_inverse less_imp_le upt_add_eq_append)
    then show ?thesis using True rest first by simp
  next
    case False
    have "\<forall>j\<in>{from0..it + 1}. policy j = c" using Suc.prems(3) False by (auto simp: le_Suc_eq)
    then show ?thesis using False Suc.prems Suc.IH [of from0 "it + 1" c "curr_chunk + 1"] by (simp add: Suc_diff_le)
  qed
qed simp

lemma chunks_of_spec:
  "concat (map (\<lambda>(_, s, e). [s..<e]) (chunks_of policy mx n)) = [0..<n]"
  "\<forall>(x, s, e)\<in>set (chunks_of policy mx n). s < e \<and> e \<le> n \<and> e - s \<le> max 1 mx \<and> (\<forall>j\<in>{s..<e}. policy j = x)"
  using chunk_list_spec [of 0 0 n n policy "policy 0" 0 mx] by (simp_all add: chunks_of_def)

lemma add_chunks_spec:
  "add_chunks cs iters = (if fst ` set cs \<subseteq> dom iters
     then Some (\<lambda>x. map_option (\<lambda>its. its @ map snd (filter (\<lambda>c. fst c = x) cs)) (iters x)) else None)"
proof (induction cs arbitrary: iters)
  case Nil
  then show ?case by (simp add: fun_eq_iff option.map_ident)
next
  case (Cons c cs)
  obtain x s e where c: "c = (x, s, e)" by (cases c)
  show ?case
  proof (cases "iters x")
    case None
    then show ?thesis using c by auto
  next
    case (Some its)
    let ?iters = "iters(x \<mapsto> its @ [(s, e)])"
    have d: "dom ?iters = dom iters" "x \<in> dom iters" using Some by auto
    have "add_chunks (c # cs) iters = add_chunks cs ?iters" using Some c by simp
    also have "\<dots> = (if fst ` set (c # cs) \<subseteq> dom iters
        then Some (\<lambda>y. map_option (\<lambda>its. its @ map snd (filter (\<lambda>c. fst c = y) cs)) (?iters y)) else None)"
      unfolding Cons.IH d(1) using d(2) c by simp
    also have "(\<lambda>y. map_option (\<lambda>its. its @ map snd (filter (\<lambda>c. fst c = y) cs)) (?iters y))
        = (\<lambda>y. map_option (\<lambda>its. its @ map snd (filter (\<lambda>d. fst d = y) (c # cs))) (iters y))"
      using Some c by (auto simp: fun_eq_iff)
    finally show ?thesis .
  qed
qed

lemma filter_chunks:
  assumes "\<forall>(x, s, e)\<in>set cs. \<forall>j\<in>{s..<e}. policy j = x"
  shows "concat (map (\<lambda>(s, e). [s..<e]) (map snd (filter (\<lambda>c. fst c = x) cs)))
    = filter (\<lambda>i. policy i = x) (concat (map (\<lambda>(_, s, e). [s..<e]) cs))"
  using assms
proof (induction cs)
  case (Cons c cs)
  obtain y s e where c: "c = (y, s, e)" by (cases c)
  have "filter (\<lambda>i. policy i = x) [s..<e] = (if y = x then [s..<e] else [])"
    using Cons.prems c by (auto simp: filter_True filter_False)
  then show ?case using Cons c by simp
qed simp

lemma container_iterate_spec:
  fixes policy :: "nat \<Rightarrow> 'n" and mx n :: nat
  defines "its x \<equiv> map snd (filter (\<lambda>c. fst c = x) (chunks_of policy mx n))"
  shows "\<forall>i\<le>n. pol i = Some (policy i) \<Longrightarrow> container_iterate known pol mx n
      = (if \<forall>i<n. known (policy i) then Some (\<lambda>x. if known x then Some (its x) else None) else None)"
    "concat (map (\<lambda>(s, e). [s..<e]) (its x)) = filter (\<lambda>i. policy i = x) [0..<n]"
    "(s, e) \<in> set (its x) \<Longrightarrow> s < e \<and> e - s \<le> max 1 mx"
proof -
  let ?cs = "chunks_of policy mx n"
  note cs = chunks_of_spec [where policy = policy and mx = mx and n = n]
  have know: "(\<forall>(x, s, e)\<in>set ?cs. known x) \<longleftrightarrow> (\<forall>i<n. known (policy i))"
  proof
    assume k: "\<forall>(x, s, e)\<in>set ?cs. known x"
    show "\<forall>i<n. known (policy i)"
    proof (intro allI impI)
      fix i assume "i < n"
      then have "i \<in> set (concat (map (\<lambda>(_, s, e). [s..<e]) ?cs))" using cs(1) by simp
      then obtain x s e where x: "(x, s, e) \<in> set ?cs" "i \<in> {s..<e}" by auto
      then have "policy i = x" using cs(2) by fastforce
      then show "known (policy i)" using k x(1) by auto
    qed
  next
    assume k: "\<forall>i<n. known (policy i)"
    show "\<forall>(x, s, e)\<in>set ?cs. known x"
    proof clarify
      fix x s e assume "(x, s, e) \<in> set ?cs"
      then have "s < e" "e \<le> n" "policy s = x" using cs(2) by fastforce+
      then show "known x" using k by auto
    qed
  qed
  show "container_iterate known pol mx n
      = (if \<forall>i<n. known (policy i) then Some (\<lambda>x. if known x then Some (its x) else None) else None)"
    if "\<forall>i\<le>n. pol i = Some (policy i)"
  proof -
    have "container_iterate known pol mx n = add_chunks ?cs (\<lambda>x. if known x then Some [] else None)"
      using container_chunks_total [OF that] by (simp add: container_iterate_def)
    moreover
    have "fst ` set ?cs \<subseteq> dom (\<lambda>x. if known x then Some [] else None) \<longleftrightarrow> (\<forall>(x, s, e)\<in>set ?cs. known x)"
      by (auto split: if_splits)
    ultimately show ?thesis unfolding know [symmetric] add_chunks_spec
      by (auto simp: fun_eq_iff its_def simp del: split_paired_All)
  qed
  show "concat (map (\<lambda>(s, e). [s..<e]) (its x)) = filter (\<lambda>i. policy i = x) [0..<n]"
    unfolding its_def using cs(2) by (subst filter_chunks) (auto simp: cs(1))
  show "s < e \<and> e - s \<le> max 1 mx" if "(s, e) \<in> set (its x)"
    using that cs(2) unfolding its_def by fastforce
qed

text \<open>
  The distribution of a container gives each node exactly the positions its policy puts there,
  in order, cut into non-empty chunks no longer than the maximum (or one, if the maximum is
  zero). It fails exactly if the policy cannot be asked at some position or at the end, or puts
  some position on a node that has no iteration (a null pointer).
\<close>

theorem container_partition:
  "case container_iterate known policy mx n of
     None \<Rightarrow> (\<exists>i\<le>n. policy i = None) \<or> (\<exists>i<n. \<not> known (the (policy i)))
   | Some iters \<Rightarrow> (\<nexists>i. i < n \<and> \<not> known (the (policy i)))
       \<and> dom iters = Collect known
       \<and> (\<nexists>x its. iters x = Some its \<and> concat (map (\<lambda>(s, e). [s..<e]) its) \<noteq> filter (\<lambda>i. policy i = Some x) [0..<n])
       \<and> (\<nexists>x its s e. iters x = Some its \<and> (s, e) \<in> set its \<and> \<not> (s < e \<and> e - s \<le> max 1 mx))"
proof (cases "\<exists>i\<le>n. policy i = None")
  case True
  then have "container_chunks policy mx n = None" using container_chunks_undefined by metis
  then have "container_iterate known policy mx n = None" by (simp add: container_iterate_def)
  then show ?thesis using True by simp
next
  case False
  define f where "f = the \<circ> policy"
  have f: "\<forall>i\<le>n. policy i = Some (f i)" using False by (auto simp: f_def)
  note spec = container_iterate_spec [where policy = f and mx = mx and n = n]
  show ?thesis
  proof (cases "\<forall>i<n. known (f i)")
    case True
    have "dom (\<lambda>x. if known x then Some (map snd (filter (\<lambda>c. fst c = x) (chunks_of f mx n))) else None) = Collect known"
      by (auto split: if_splits)
    moreover have "filter (\<lambda>i. policy i = Some x) [0..<n] = filter (\<lambda>i. f i = x) [0..<n]" for x
      using f by (intro filter_cong) auto
    ultimately show ?thesis using True spec(2,3) unfolding spec(1) [OF f] by (simp add: f_def split: if_splits)
  next
    case bad: False
    then show ?thesis unfolding spec(1) [OF f] using f by auto
  qed
qed

section \<open>A concrete table\<close>

lemma demo_table:
  "\<exists>t. table_holds 2 of_nat t \<and> table_vals 2 of_nat t = ([7 \<mapsto> 71] :: nat \<Rightarrow> nat option)"
proof -
  obtain t :: "(nat, nat) hash_table" where t: "table_ok 2 of_nat t" "table_map 2 of_nat t = Map.empty"
    using table_new_spec [of "[\<lparr>nd_logical = 0, nd_physical = 0\<rparr>]" 2 of_nat] by auto
  then have h: "table_holds 2 of_nat t" "table_vals 2 of_nat t = Map.empty" by (simp_all add: table_holds_def table_vals_def fun_eq_iff)
  have "spec_dict 5 demo_ops Map.empty = ([Done, Value 5, Done, Value 71, Count 2, Erased True, Erased False, Count 1], [7 \<mapsto> (71::nat)])"
    by (simp add: demo_ops_def value_or_def fun_eq_iff card_insert_if)
  then show ?thesis using table.run [OF h(1), of 5 demo_ops] h(2) by fastforce
qed

theorem table_iteration_complete_wit:
  "\<exists>t as. visit_all ri_is_end table_deref (table_next t) (table_begin 2 t) = Some as
    \<and> distinct (map (key_at (ht_mem t)) as) \<and> length as = table_size t
    \<and> map_of (map (\<lambda>a. (key_at (ht_mem t) a, read_ref a t)) as) = ([7 \<mapsto> 71] :: nat \<Rightarrow> nat option)"
proof -
  obtain t :: "(nat, nat) hash_table" where t: "table_holds 2 of_nat t" "table_vals 2 of_nat t = [7 \<mapsto> 71]" using demo_table by blast
  show ?thesis using table_iteration_complete [OF t(1)] unfolding t(2) by blast
qed

theorem references_stay_valid_wit:
  "\<exists>(t :: (nat, nat) hash_table) a t1 rs t2 t3. table_holds 2 of_nat t \<and> table_index 2 of_nat 5 7 t = Some (a, t1)
    \<and> run_dict (table_index 2 of_nat 5) (table_remove 2 of_nat) read_ref write_ref table_size [Assign 8 80, Read 9, Erase 8, Size] t1 = Some (rs, t2)
    \<and> table_index 2 of_nat 5 7 t2 = Some (a, t3)"
proof -
  obtain t :: "(nat, nat) hash_table" where t: "table_holds 2 of_nat t" using demo_table by blast
  then obtain a t1 where t1: "table_index 2 of_nat 5 7 t = Some (a, t1)" "table_ok 2 of_nat t1"
    using table_index_spec [of 2 of_nat t 5 7] by (auto simp: table_holds_def)
  obtain ys m where "spec_dict 5 [Assign 8 80, Read 9, Erase 8, Size] (table_vals 2 of_nat t1) = (ys, m)" by fastforce
  from table.run [OF _ this] t1(2) obtain t2 where t2:
    "run_dict (table_index 2 of_nat 5) (table_remove 2 of_nat) read_ref write_ref table_size [Assign 8 80, Read 9, Erase 8, Size] t1 = Some (ys, t2)"
    by (auto simp: table_holds_def simp del: run_dict.simps)
  show ?thesis using references_stay_valid [OF t t1(1) _ t2] t t1(1) t2 by fastforce
qed

end
