(* ===== verification/Distribution_Props.thy ===== *)
theory Distribution_Props
  imports Distribution Iteration_Props
begin

text \<open>
  Distributed iteration calls the function on every element exactly once, however the threads
  interleave, and ends. The interface is that of a parallel iteration, whose \<open>get\<close> gives out iterators;
  hash tables and standard containers provide it.
\<close>

section \<open>Slots\<close>

lemma sum_list_map_update:
  fixes f :: "'a \<Rightarrow> 'b :: comm_monoid_add"
  shows "i < length xs \<Longrightarrow> sum_list (map f (xs[i := y])) + f (xs ! i) = sum_list (map f xs) + f y"
proof (induction xs arbitrary: i)
  case (Cons x xs)
  show ?case
  proof (cases i)
    case (Suc j)
    then have "sum_list (map f (xs[j := y])) + f (xs ! j) = sum_list (map f xs) + f y" using Cons by simp
    then show ?thesis using Suc by (simp add: add.assoc)
  qed (simp add: ac_simps)
qed simp

lemma sum_list_map_0:
  fixes f :: "'a \<Rightarrow> 'b :: comm_monoid_add"
  shows "(\<And>x. x \<in> set xs \<Longrightarrow> f x = 0) \<Longrightarrow> sum_list (map f xs) = 0"
  by (induction xs) auto

lemma sum_list_map_one:
  fixes x :: "'b :: comm_monoid_add"
  shows "distinct ns \<Longrightarrow> m \<in> set ns \<Longrightarrow> sum_list (map (\<lambda>n. if m = n then x else 0) ns) = x"
proof (induction ns)
  case (Cons n ns)
  have "m \<notin> set ns \<Longrightarrow> sum_list (map (\<lambda>n. if m = n then x else 0) ns) = 0" by (intro sum_list_map_0) auto
  then show ?case using Cons by auto
qed simp

lemma swap_sums:
  fixes a :: "'a :: cancel_comm_monoid_add"
  assumes "a' + x = a + y" "b' + y = b + x"
  shows "a' + b' = a + b"
proof -
  have "(a' + b') + (x + y) = (a' + x) + (b' + y)" by (simp add: ac_simps)
  also have "\<dots> = (a + b) + (x + y)" unfolding assms by (simp add: ac_simps)
  finally show ?thesis by simp
qed

definition all_slots :: "'p dist \<Rightarrow> 'p option list" where "all_slots d = di_iterations d @ [di_global d]"

definition slot_index :: "'p dist \<Rightarrow> slot \<Rightarrow> nat" where
  "slot_index d sl = (case sl of Local i \<Rightarrow> nat i | Global \<Rightarrow> length (di_iterations d))"

lemma slot_at_index:
  "slot_at d sl = Some x \<Longrightarrow> slot_index d sl < length (all_slots d) \<and> all_slots d ! slot_index d sl = x"
  by (auto simp: slot_at_def slot_index_def all_slots_def nth_append split: slot.splits if_splits)

lemma index_slot_at: "i < length (all_slots d) \<Longrightarrow> \<exists>sl. slot_at d sl = Some (all_slots d ! i)"
  by (intro exI [of _ "if i < length (di_iterations d) then Local (int i) else Global"])
    (auto simp: slot_at_def all_slots_def nth_append less_Suc_eq)

lemma all_slots_put:
  "slot_at d sl = Some x \<Longrightarrow> all_slots (put_slot sl p d) = (all_slots d)[slot_index d sl := Some p]"
  by (auto simp: slot_at_def slot_index_def put_slot_def all_slots_def list_update_append split: slot.splits if_splits)

lemma slot_at_put:
  "slot_at d sl = Some x \<Longrightarrow> slot_at (put_slot sl p d) sl' = (if sl' = sl then Some (Some p) else slot_at d sl')"
  by (cases sl; cases sl') (auto simp: slot_at_def put_slot_def nth_list_update split: if_splits)

lemma sum_put:
  fixes f :: "'p option \<Rightarrow> 'b :: comm_monoid_add"
  assumes "slot_at d sl = Some x"
  shows "sum_list (map f (all_slots (put_slot sl p d))) + f x = sum_list (map f (all_slots d)) + f (Some p)"
  using sum_list_map_update [of "slot_index d sl" "all_slots d" f "Some p"] slot_at_index [OF assms] all_slots_put [OF assms] by simp

definition th_busy :: "('i, 'e) iter_thread \<Rightarrow> bool" where
  "th_busy th \<longleftrightarrow> th_slots th \<noteq> [] \<or> th_iter th \<noteq> None"

text \<open>The elements still to come from an iteration, where \<open>rest\<close> are its iterators and \<open>todo\<close> what each yields.\<close>

definition slot_content :: "('p \<Rightarrow> 'i list) \<Rightarrow> ('i \<Rightarrow> 'e list) \<Rightarrow> 'p option \<Rightarrow> 'e list" where
  "slot_content rest todo x = (case x of None \<Rightarrow> [] | Some p \<Rightarrow> concat (map todo (rest p)))"

section \<open>Parallel iterations\<close>

locale parallel = cursor ok todo is_end deref nxt
  for ok :: "'i \<Rightarrow> bool" and todo :: "'i \<Rightarrow> 'e list" and is_end :: "'i \<Rightarrow> bool" and deref :: "'i \<Rightarrow> 'e"
    and nxt :: "'i \<Rightarrow> bool \<times> 'i" +
  fixes get :: "'p \<Rightarrow> 'i option \<times> 'p" and rest :: "'p \<Rightarrow> 'i list"
  assumes get: "rest p = [] \<Longrightarrow> fst (get p) = None" "rest p \<noteq> [] \<Longrightarrow> fst (get p) = Some (hd (rest p))"
    "rest (snd (get p)) = tl (rest p)"
begin

definition cost :: "'p option \<Rightarrow> nat" where
  "cost x = (case x of None \<Rightarrow> 0 | Some p \<Rightarrow> sum_list (map (\<lambda>u. length (todo u) + 2) (rest p)))"

definition th_left :: "('i, 'e) iter_thread \<Rightarrow> 'e list" where
  "th_left th = (case th_iter th of None \<Rightarrow> [] | Some it \<Rightarrow> todo it) @ th_seen th"

definition th_cost :: "('i, 'e) iter_thread \<Rightarrow> nat" where
  "th_cost th = length (th_slots th) + (case th_iter th of None \<Rightarrow> 0 | Some it \<Rightarrow> length (todo it) + 1)"

definition drained :: "'p dist \<Rightarrow> slot \<Rightarrow> bool" where
  "drained d sl \<longleftrightarrow> (case slot_at d sl of Some (Some p) \<Rightarrow> rest p = [] | _ \<Rightarrow> True)"

definition dist_ok :: "'p dist \<Rightarrow> bool" where
  "dist_ok d \<longleftrightarrow> (\<forall>sl p. slot_at d sl = Some (Some p) \<longrightarrow> list_all ok (rest p))"

definition thread_ok :: "'p dist \<Rightarrow> ('i, 'e) iter_thread \<Rightarrow> bool" where
  "thread_ok d th \<longleftrightarrow> (\<forall>it. th_iter th = Some it \<longrightarrow> ok it) \<and> (\<forall>sl\<in>set (th_slots th). slot_at d sl \<noteq> None)"

definition stepped :: "'p dist \<Rightarrow> ('i, 'e) iter_thread \<Rightarrow> 'p dist \<Rightarrow> ('i, 'e) iter_thread \<Rightarrow> bool" where
  "stepped d th d' th' \<longleftrightarrow> dist_ok d' \<and> thread_ok d' th' \<and> (th_busy th' \<longrightarrow> th_busy th)
     \<and> (\<forall>sl. slot_at d' sl = None \<longleftrightarrow> slot_at d sl = None) \<and> (\<forall>sl. drained d sl \<longrightarrow> drained d' sl)
     \<and> (\<forall>sl\<in>set (th_slots th). sl \<in> set (th_slots th') \<or> drained d' sl)
     \<and> sum_list (map (mset \<circ> slot_content rest todo) (all_slots d')) + mset (th_left th') = sum_list (map (mset \<circ> slot_content rest todo) (all_slots d)) + mset (th_left th)
     \<and> sum_list (map cost (all_slots d')) + th_cost th' + of_bool (th_busy th) = sum_list (map cost (all_slots d)) + th_cost th"

lemma thread_step_iter:
  assumes "dist_ok d" "thread_ok d th" "th_iter th = Some it"
  shows "\<exists>th' d'. thread_step get is_end deref nxt th d = Some (th', d') \<and> stepped d th d' th'"
proof (cases "is_end it")
  case True
  then have "todo it = []" using assms is_end by (simp add: thread_ok_def)
  then show ?thesis using assms True
    by (simp add: thread_step_def stepped_def thread_ok_def th_left_def th_cost_def th_busy_def)
next
  case False
  have okit: "ok it" using assms by (simp add: thread_ok_def)
  then have "todo it \<noteq> []" using False is_end by simp
  then obtain e es where e: "todo it = e # es" by (cases "todo it") auto
  then have "deref it = e" "todo (snd (nxt it)) = es" "ok (snd (nxt it))" using deref [OF okit] advance [OF okit] by simp_all
  then show ?thesis using assms False e
    by (simp add: thread_step_def stepped_def thread_ok_def th_left_def th_cost_def th_busy_def)
qed

lemma thread_step_get:
  assumes "dist_ok d" "thread_ok d th" "th_iter th = None" "th_slots th = sl # sls" "slot_at d sl = Some (Some p)"
  shows "\<exists>th' d'. thread_step get is_end deref nxt th d = Some (th', d') \<and> stepped d th d' th'"
proof -
  let ?p = "snd (get p)" let ?d = "put_slot sl ?p d"
  note at = slot_at_put [OF assms(5), of ?p]
  have okp: "list_all ok (rest p)" using assms(1,5) by (auto simp: dist_ok_def)
  then have "list_all ok (rest ?p)" using get(3) by (cases "rest p") simp_all
  then have dist: "dist_ok ?d" using assms(1) at by (simp add: dist_ok_def)
  have none: "slot_at ?d sl' = None \<longleftrightarrow> slot_at d sl' = None" for sl' using at assms(5) by simp
  have dr: "drained d sl' \<longrightarrow> drained ?d sl'" for sl' using at assms(5) get(3) by (simp add: drained_def)
  note sums = sum_put [OF assms(5), of "mset \<circ> slot_content rest todo" ?p] sum_put [OF assms(5), of cost ?p]
  show ?thesis
  proof (cases "rest p")
    case Nil
    then have g: "fst (get p) = None" "rest ?p = []" using get by auto
    have "slot_content rest todo (Some ?p) = slot_content rest todo (Some p)" "cost (Some ?p) = cost (Some p)" using g(2) Nil by (simp_all add: slot_content_def cost_def)
    then have sums': "sum_list (map (mset \<circ> slot_content rest todo) (all_slots ?d)) = sum_list (map (mset \<circ> slot_content rest todo) (all_slots d))"
      "sum_list (map cost (all_slots ?d)) = sum_list (map cost (all_slots d))" using sums by simp_all
    have "drained ?d sl" using at g(2) by (simp add: drained_def)
    moreover have "thread_step get is_end deref nxt th d = Some (th\<lparr>th_slots := sls\<rparr>, ?d)"
      using assms(3-5) g(1) by (simp add: thread_step_def split_beta)
    ultimately show ?thesis using assms(2-4) dist none dr sums'
      by (intro exI conjI) (assumption, simp add: stepped_def thread_ok_def th_left_def th_cost_def th_busy_def)
  next
    case (Cons u us)
    then have g: "fst (get p) = Some u" "rest ?p = us" using get by auto
    have "slot_content rest todo (Some p) = todo u @ slot_content rest todo (Some ?p)" "cost (Some p) = length (todo u) + 2 + cost (Some ?p)"
      using g(2) Cons by (simp_all add: slot_content_def cost_def)
    then have sums': "sum_list (map (mset \<circ> slot_content rest todo) (all_slots ?d)) + mset (todo u) = sum_list (map (mset \<circ> slot_content rest todo) (all_slots d))"
      "sum_list (map cost (all_slots ?d)) + length (todo u) + 2 = sum_list (map cost (all_slots d))" using sums by (simp_all add: ac_simps)
    have "ok u" using okp Cons by simp
    moreover have "thread_step get is_end deref nxt th d = Some (th\<lparr>th_iter := Some u\<rparr>, ?d)"
      using assms(3-5) g(1) by (simp add: thread_step_def split_beta)
    ultimately show ?thesis using assms(2-4) dist none dr sums'
      by (intro exI conjI) (assumption, simp add: stepped_def thread_ok_def th_left_def th_cost_def th_busy_def ac_simps)
  qed
qed

lemma thread_step_spec:
  assumes "dist_ok d" "thread_ok d th"
  shows "\<exists>th' d'. thread_step get is_end deref nxt th d = Some (th', d') \<and> stepped d th d' th'"
proof (cases "th_iter th")
  case None
  show ?thesis
  proof (cases "th_slots th")
    case Nil
    then show ?thesis using None assms by (simp add: thread_step_def stepped_def th_busy_def)
  next
    case (Cons sl sls)
    then obtain x where x: "slot_at d sl = Some x" using assms(2) by (auto simp: thread_ok_def)
    show ?thesis
    proof (cases x)
      case None
      then show ?thesis using \<open>th_iter th = None\<close> Cons assms x
        by (simp add: thread_step_def stepped_def thread_ok_def th_left_def th_cost_def th_busy_def drained_def)
    qed (use thread_step_get \<open>th_iter th = None\<close> Cons assms x in auto)
  qed
qed (use thread_step_iter assms in auto)

end

context parallel begin

definition run_ok :: "('p, 'i, 'e) dist_run \<Rightarrow> bool" where
  "run_ok s \<longleftrightarrow> dist_ok (dr_dist s) \<and> (\<forall>th\<in>set (dr_threads s). thread_ok (dr_dist s) th)"

definition total :: "('p, 'i, 'e) dist_run \<Rightarrow> 'e multiset" where
  "total s = sum_list (map (mset \<circ> slot_content rest todo) (all_slots (dr_dist s))) + sum_list (map (mset \<circ> th_left) (dr_threads s))"

definition work :: "('p, 'i, 'e) dist_run \<Rightarrow> nat" where
  "work s = sum_list (map cost (all_slots (dr_dist s))) + sum_list (map th_cost (dr_threads s))"

definition advanced :: "('p, 'i, 'e) dist_run \<Rightarrow> ('p, 'i, 'e) dist_run \<Rightarrow> bool" where
  "advanced s s' \<longleftrightarrow> run_ok s' \<and> total s' = total s \<and> length (dr_threads s') = length (dr_threads s)
     \<and> (\<forall>j. th_busy (dr_threads s' ! j) \<longrightarrow> th_busy (dr_threads s ! j))
     \<and> (\<forall>sl. slot_at (dr_dist s') sl = None \<longleftrightarrow> slot_at (dr_dist s) sl = None)
     \<and> (\<forall>sl. drained (dr_dist s) sl \<longrightarrow> drained (dr_dist s') sl)
     \<and> (\<forall>j < length (dr_threads s). \<forall>sl\<in>set (th_slots (dr_threads s ! j)).
          sl \<in> set (th_slots (dr_threads s' ! j)) \<or> drained (dr_dist s') sl)"

lemma dist_step_spec:
  assumes "run_ok s"
  shows "\<exists>s'. dist_step get is_end deref nxt k s = Some s' \<and> advanced s s'
    \<and> work s' + of_bool (k < length (dr_threads s) \<and> th_busy (dr_threads s ! k)) = work s"
proof (cases "k < length (dr_threads s)")
  case False
  then show ?thesis using assms by (simp add: dist_step_def advanced_def)
next
  case True
  let ?ths = "dr_threads s" and ?d = "dr_dist s"
  have "dist_ok ?d" "thread_ok ?d (?ths ! k)" using assms True by (simp_all add: run_ok_def)
  then obtain th d where st: "thread_step get is_end deref nxt (?ths ! k) ?d = Some (th, d)" "stepped ?d (?ths ! k) d th"
    using thread_step_spec by blast
  note st2 = st(2) [unfolded stepped_def]
  let ?s = "\<lparr>dr_dist = d, dr_threads = ?ths[k := th]\<rparr>"
  have step: "dist_step get is_end deref nxt k s = Some ?s" using st(1) True by (simp add: dist_step_def)
  have "thread_ok d x" if "x \<in> set ?ths" for x
    using that assms st2 by (auto simp: run_ok_def thread_ok_def)
  then have "\<forall>x\<in>set (?ths[k := th]). thread_ok d x" using st2 set_update_subset_insert [of ?ths k th] by auto
  then have ok: "run_ok ?s" using st2 by (simp add: run_ok_def)
  have tot: "total ?s = total s"
    unfolding total_def dist_run.simps
    by (rule swap_sums [where x = "mset (th_left th)" and y = "mset (th_left (?ths ! k))"])
      (use sum_list_map_update [OF True, of "mset \<circ> th_left" th] st2 in simp_all)
  have wk: "work ?s + of_bool (th_busy (?ths ! k)) = work s"
    using sum_list_map_update [OF True, of th_cost th] st2 by (simp add: work_def)
  have idle: "th_busy (?ths[k := th] ! j) \<longrightarrow> th_busy (?ths ! j)" for j
    using st2 True by (cases "j = k") simp_all
  have slots: "\<forall>sl\<in>set (th_slots (?ths ! j)). sl \<in> set (th_slots (?ths[k := th] ! j)) \<or> drained d sl" if "j < length ?ths" for j
    using st2 that by (cases "j = k") simp_all
  show ?thesis using step ok tot wk st2 slots idle True by (intro exI [of _ ?s]) (simp add: advanced_def)
qed

lemma advanced_trans:
  assumes "advanced s s1" "advanced s1 s2"
  shows "advanced s s2"
proof -
  have "sl \<in> set (th_slots (dr_threads s2 ! j)) \<or> drained (dr_dist s2) sl"
    if "j < length (dr_threads s)" "sl \<in> set (th_slots (dr_threads s ! j))" for j sl
  proof -
    have "sl \<in> set (th_slots (dr_threads s1 ! j)) \<or> drained (dr_dist s1) sl" using assms(1) that by (simp add: advanced_def)
    then show ?thesis using assms that(1) by (auto simp: advanced_def)
  qed
  then show ?thesis using assms by (simp add: advanced_def)
qed

lemma run_threads_spec:
  assumes "run_ok s"
  shows "\<exists>s'. run_threads get is_end deref nxt ks s = Some s' \<and> advanced s s' \<and> work s' \<le> work s
    \<and> (\<forall>j < length (dr_threads s). th_busy (dr_threads s' ! j) \<longrightarrow> work s' + count_list ks j \<le> work s)"
  using assms
proof (induction ks arbitrary: s)
  case Nil
  then show ?case by (simp add: advanced_def)
next
  case (Cons k ks)
  obtain s1 where s1: "dist_step get is_end deref nxt k s = Some s1" "advanced s s1"
    "work s1 + of_bool (k < length (dr_threads s) \<and> th_busy (dr_threads s ! k)) = work s"
    using dist_step_spec [OF Cons.prems] by blast
  have "run_ok s1" using s1(2) by (simp add: advanced_def)
  from Cons.IH [OF this] obtain s2 where s2: "run_threads get is_end deref nxt ks s1 = Some s2" "advanced s1 s2" "work s2 \<le> work s1"
    "\<forall>j < length (dr_threads s1). th_busy (dr_threads s2 ! j) \<longrightarrow> work s2 + count_list ks j \<le> work s1" by blast
  have len: "length (dr_threads s1) = length (dr_threads s)" using s1(2) by (simp add: advanced_def)
  have "work s2 + count_list (k # ks) j \<le> work s" if j: "j < length (dr_threads s)" "th_busy (dr_threads s2 ! j)" for j
  proof -
    have "th_busy (dr_threads s ! j)" using s1(2) s2(2) j(2) by (simp add: advanced_def)
    then show ?thesis using j s2(4) s1(3) len by (cases "j = k") auto
  qed
  then show ?case using s1(1) s2(1,3) s1(3) advanced_trans [OF s1(2) s2(2)] by auto
qed

end

lemma length_dist_start [simp]: "length (dr_threads (dist_start nb ths d)) = length ths"
  by (simp add: dist_start_def)

text \<open>A schedule that gives each thread enough turns.\<close>

definition enough_turns :: "nat \<Rightarrow> nat \<Rightarrow> nat list \<Rightarrow> bool" where
  "enough_turns n turns ks \<longleftrightarrow> list_all (\<lambda>j. turns \<le> count_list ks j) [0..<n]"

lemma fill_iterations_spec:
  fixes f :: "'p option \<Rightarrow> 'b :: comm_monoid_add"
  assumes "\<forall>n\<in>set ns. iterate n mu = Some (Some (P n)) \<and> 0 \<le> nd_logical n \<and> nat (nd_logical n) < length its
      \<and> its ! nat (nd_logical n) = None"
    and "distinct (map nd_logical ns)" "f None = 0"
  shows "\<exists>its'. fill_iterations iterate mu ns its = Some its' \<and> length its' = length its
    \<and> (\<forall>i < length its. its' ! i \<noteq> its ! i \<longrightarrow> (\<exists>n\<in>set ns. nd_logical n = int i \<and> its' ! i = Some (P n)))
    \<and> sum_list (map f its') = sum_list (map f its) + sum_list (map (\<lambda>n. f (Some (P n))) ns)"
  using assms(1,2)
proof (induction ns arbitrary: its)
  case (Cons n ns)
  let ?i = "nat (nd_logical n)" let ?its = "its[?i := Some (P n)]"
  have n: "0 \<le> nd_logical n" "?i < length its" "its ! ?i = None" using Cons.prems(1) by simp_all
  have "\<forall>m\<in>set ns. iterate m mu = Some (Some (P m)) \<and> 0 \<le> nd_logical m \<and> nat (nd_logical m) < length ?its
      \<and> ?its ! nat (nd_logical m) = None"
  proof
    fix m assume m: "m \<in> set ns"
    then have "nd_logical m \<noteq> nd_logical n" "0 \<le> nd_logical m" using Cons.prems by (auto simp: image_iff)
    then have "nat (nd_logical m) \<noteq> ?i" using n(1) by simp
    then show "iterate m mu = Some (Some (P m)) \<and> 0 \<le> nd_logical m \<and> nat (nd_logical m) < length ?its
      \<and> ?its ! nat (nd_logical m) = None" using Cons.prems(1) m by simp
  qed
  from Cons.IH [OF this] Cons.prems(2) obtain its' where its': "fill_iterations iterate mu ns ?its = Some its'" "length its' = length its"
    "\<forall>i < length its. its' ! i \<noteq> ?its ! i \<longrightarrow> (\<exists>n\<in>set ns. nd_logical n = int i \<and> its' ! i = Some (P n))"
    "sum_list (map f its') = sum_list (map f ?its) + sum_list (map (\<lambda>n. f (Some (P n))) ns)" by auto
  have sum: "sum_list (map f ?its) = sum_list (map f its) + f (Some (P n))"
    using sum_list_map_update [OF n(2), of f "Some (P n)"] n(3) assms(3) by simp
  have each: "\<exists>m\<in>set (n # ns). nd_logical m = int i \<and> its' ! i = Some (P m)" if "i < length its" "its' ! i \<noteq> its ! i" for i
  proof (cases "its' ! i = ?its ! i")
    case True
    then have "i = ?i" using that by (cases "i = ?i") simp_all
    then show ?thesis using True n that(1) by simp
  next
    case False
    then show ?thesis using its'(3) that(1) by auto
  qed
  have "fill_iterations iterate mu (n # ns) its = Some its'" using Cons.prems(1) its'(1) by simp
  then show ?case using its'(2,4) sum each by (intro exI [of _ its']) (simp add: add.assoc)
qed simp

context parallel begin

lemma run_exactly_once:
  assumes "run_ok s" "\<forall>th\<in>set (dr_threads s). th_iter th = None \<and> th_seen th = []"
    and "\<forall>sl p. slot_at (dr_dist s) sl = Some (Some p) \<longrightarrow> (\<exists>j < length (dr_threads s). sl \<in> set (th_slots (dr_threads s ! j)))"
    and "enough_turns (length (dr_threads s)) (work s) ks"
  shows "\<exists>s'. run_threads get is_end deref nxt ks s = Some s' \<and> run_done s'
    \<and> mset (run_seen s') = sum_list (map (mset \<circ> slot_content rest todo) (all_slots (dr_dist s)))"
proof -
  obtain s' where s': "run_threads get is_end deref nxt ks s = Some s'" "advanced s s'"
    "\<forall>j < length (dr_threads s). th_busy (dr_threads s' ! j) \<longrightarrow> work s' + count_list ks j \<le> work s"
    using run_threads_spec [OF assms(1)] by blast
  have len: "length (dr_threads s') = length (dr_threads s)" using s'(2) by (simp add: advanced_def)
  have idle: "\<not> th_busy (dr_threads s' ! j)" if j: "j < length (dr_threads s)" for j
  proof
    assume busy: "th_busy (dr_threads s' ! j)"
    then have "work s' + count_list ks j \<le> work s" using s'(3) j by simp
    moreover have "work s \<le> count_list ks j" using assms(4) j by (simp add: enough_turns_def list_all_iff)
    moreover have "0 < th_cost (dr_threads s' ! j)" using busy by (auto simp: th_busy_def th_cost_def split: option.splits)
    moreover have "th_cost (dr_threads s' ! j) \<le> sum_list (map th_cost (dr_threads s'))"
      using j len by (intro member_le_sum_list) auto
    ultimately show False by (simp add: work_def)
  qed
  then have idle': "th_slots th = [] \<and> th_iter th = None" if "th \<in> set (dr_threads s')" for th
    using that len by (auto simp: in_set_conv_nth th_busy_def)
  then have fin: "run_done s'" by (simp add: run_done_def list_all_iff)
  have empty: "slot_content rest todo x = []" if x: "x \<in> set (all_slots (dr_dist s'))" for x
  proof (cases x)
    case (Some p)
    obtain sl where sl: "slot_at (dr_dist s') sl = Some (Some p)"
      using x Some index_slot_at [of _ "dr_dist s'"] by (metis in_set_conv_nth)
    have "drained (dr_dist s') sl"
    proof (cases "drained (dr_dist s) sl")
      case True
      then show ?thesis using s'(2) by (simp add: advanced_def)
    next
      case False
      then obtain q where "slot_at (dr_dist s) sl = Some (Some q)" by (auto simp: drained_def split: option.splits)
      then obtain j where j: "j < length (dr_threads s)" "sl \<in> set (th_slots (dr_threads s ! j))" using assms(3) by blast
      then have "th_slots (dr_threads s' ! j) = []" using idle len by (simp add: th_busy_def)
      then show ?thesis using s'(2) j by (auto simp: advanced_def)
    qed
    then show ?thesis using sl Some by (simp add: drained_def slot_content_def)
  qed (simp add: slot_content_def)
  have "sum_list (map (mset \<circ> slot_content rest todo) (all_slots (dr_dist s'))) = {#}" using empty by (intro sum_list_map_0) simp
  moreover have "map (mset \<circ> th_left) (dr_threads s') = map (mset \<circ> th_seen) (dr_threads s')"
    using idle' by (simp add: th_left_def)
  moreover have "sum_list (map (mset \<circ> th_seen) (dr_threads s')) = mset (run_seen s')"
    by (simp add: run_seen_def mset_concat comp_assoc)
  ultimately have "total s' = mset (run_seen s')" unfolding total_def by (simp only: add_0)
  moreover have "sum_list (map (mset \<circ> th_left) (dr_threads s)) = {#}"
    using assms(2) by (intro sum_list_map_0) (simp add: th_left_def)
  then have "total s = sum_list (map (mset \<circ> slot_content rest todo) (all_slots (dr_dist s)))" by (simp add: total_def)
  ultimately show ?thesis using s'(1,2) fin by (simp add: advanced_def)
qed

lemma for_each:
  assumes cpus: "sorted_wrt (\<lambda>a b. nd_logical a < nd_logical b) cpus" "\<forall>n\<in>set cpus. 0 \<le> nd_logical n"
    and its: "\<forall>n\<in>set cpus. iterate n ((length nds + units) div length nds) = Some (Some (P n)) \<and> list_all ok (rest (P n))"
    and glob: "iterate no_node ((length nds + units) div length nds) = Some g" "\<forall>p. g = Some p \<longrightarrow> list_all ok (rest p)"
    and ths: "nds \<noteq> []" "ths \<noteq> []" "\<forall>n\<in>set ths. n \<in> set cpus \<and> insert n (set (nb n)) = set cpus"
  shows "\<exists>d turns. dist_new iterate nds cpus units = Some d
    \<and> (\<forall>ks. enough_turns (length ths) turns ks \<longrightarrow> (\<exists>s'. run_threads get is_end deref nxt ks (dist_start nb ths d) = Some s'
          \<and> run_done s' \<and> mset (run_seen s') = sum_list (map (\<lambda>n. mset (slot_content rest todo (Some (P n)))) cpus) + mset (slot_content rest todo g)))"
proof -
  let ?mu = "(length nds + units) div length nds"
  define num where "num = (if cpus = [] then 0 else nat (nd_logical (last cpus) + 1))"
  have less: "nat (nd_logical n) < num" if "n \<in> set cpus" for n
  proof -
    have "nd_logical n \<le> nd_logical (last cpus)"
      using that cpus(1) by (induction cpus) (auto split: if_splits intro: less_imp_le)
    then show ?thesis using that cpus(2) by (auto simp: num_def)
  qed
  have "distinct (map nd_logical cpus)" using cpus(1) by (induction cpus) auto
  then obtain v where v: "fill_iterations iterate ?mu cpus (replicate num None) = Some v" "length v = num"
    "\<forall>i < num. v ! i \<noteq> None \<longrightarrow> (\<exists>n\<in>set cpus. nd_logical n = int i \<and> v ! i = Some (P n))"
    "sum_list (map (mset \<circ> slot_content rest todo) v) = sum_list (map (\<lambda>n. mset (slot_content rest todo (Some (P n)))) cpus)"
    using fill_iterations_spec [of cpus iterate ?mu P "replicate num None" "mset \<circ> slot_content rest todo"] its cpus(2) less
      sum_list_map_0 [of "replicate num None" "mset \<circ> slot_content rest todo"]
    by (auto simp: slot_content_def)
  let ?d = "\<lparr>di_iterations = v, di_global = g\<rparr>"
  have new: "dist_new iterate nds cpus units = Some ?d"
    using ths(1) v(1) glob(1) by (simp add: dist_new_def num_def [symmetric])
  have slot: "slot_at ?d (Local i) = Some (Some p) \<Longrightarrow> \<exists>n\<in>set cpus. nd_logical n = i \<and> p = P n" for i p
    using v(2,3) by (fastforce simp: slot_at_def split: if_splits)
  have dok: "dist_ok ?d"
    unfolding dist_ok_def
  proof (intro allI impI)
    fix sl p assume at: "slot_at ?d sl = Some (Some p)"
    show "list_all ok (rest p)"
    proof (cases sl)
      case (Local i)
      then show ?thesis using slot at its by blast
    next
      case Global
      then show ?thesis using at glob(2) by (simp add: slot_at_def)
    qed
  qed
  have reach: "slot_at ?d sl \<noteq> None" if "n \<in> set ths" "sl \<in> set (thread_slots nb n)" for n sl
  proof -
    have "sl = Global \<or> (\<exists>m\<in>set cpus. sl = Local (nd_logical m))" using that ths(3) by (auto simp: thread_slots_def)
    then show ?thesis using less cpus(2) v(2) by (auto simp: slot_at_def)
  qed
  let ?s = "dist_start nb ths ?d :: ('p, 'i, 'e) dist_run"
  have ok: "run_ok ?s" using dok reach by (auto simp: run_ok_def dist_start_def thread_ok_def)
  have fresh: "\<forall>th\<in>set (dr_threads ?s). th_iter th = None \<and> th_seen th = []" by (auto simp: dist_start_def)
  have len: "length (dr_threads ?s) = length ths" by (simp add: dist_start_def)
  have first: "hd ths \<in> set ths" using ths(2) by simp
  have "sl \<in> set (th_slots (dr_threads ?s ! 0))" if "slot_at ?d sl = Some (Some p)" for sl p
  proof -
    have "sl \<in> set (thread_slots nb (hd ths))"
    proof (cases sl)
      case (Local i)
      then obtain n where "n \<in> set cpus" "nd_logical n = i" using slot \<open>slot_at ?d sl = Some (Some p)\<close> by blast
      moreover have "n \<in> insert (hd ths) (set (nb (hd ths)))" using calculation(1) ths(3) first by blast
      ultimately show ?thesis using Local by (auto simp: thread_slots_def)
    qed (simp add: thread_slots_def)
    then show ?thesis using ths(2) by (simp add: dist_start_def hd_conv_nth)
  qed
  then have cover: "\<forall>sl p. slot_at (dr_dist ?s) sl = Some (Some p) \<longrightarrow> (\<exists>j < length (dr_threads ?s). sl \<in> set (th_slots (dr_threads ?s ! j)))"
    using ths(2) len by (auto simp: dist_start_def intro!: exI [of _ 0])
  have "sum_list (map (mset \<circ> slot_content rest todo) (all_slots ?d)) = sum_list (map (\<lambda>n. mset (slot_content rest todo (Some (P n)))) cpus) + mset (slot_content rest todo g)"
    using v(4) by (simp add: all_slots_def)
  then show ?thesis using new run_exactly_once [OF ok fresh cover] len
    by (intro exI [of _ ?d] exI [of _ "work ?s"]) (simp add: dist_start_def)
qed

end

section \<open>Hash tables and standard containers\<close>

interpretation table_units: parallel "si_ok mem" "si_todo mem" si_is_end si_deref "si_next mem"
    parallel_get "\<lambda>p. drop (pi_counter p) (pi_iters p)"
  for mem :: "('k, 'v) hmem"
  by unfold_locales (auto simp: parallel_get_def Let_def drop_Suc tl_drop hd_drop_conv_nth not_less)

interpretation chunks: parallel "\<lambda>(s, e). s \<le> e" "\<lambda>(s, e). [s..<e]" sia_is_end sia_deref sia_next
    sp_get "\<lambda>p. drop (sp_index p) (sp_iters p)"
  by unfold_locales (auto simp: sia_is_end_def sia_deref_def sia_next_def sp_get_def Let_def drop_Suc tl_drop hd_drop_conv_nth
    not_less hd_upt tl_upt)

lemma for_each_thread_nodes:
  "set (map fst (for_each_thread cpu_count workers ns)) = {n \<in> set ns. cpu_count n \<noteq> 0 \<and> workers n \<noteq> []}"
  by (induction ns) (auto simp: image_iff)

lemma for_each_thread_reach:
  assumes "set ns = set cpus" "\<forall>n\<in>set cpus. node_valid n \<and> cpu_count n \<noteq> 0 \<and> insert n (set (neighbors n)) = set cpus"
    and "\<exists>n\<in>set cpus. workers n \<noteq> []"
  shows "map fst (for_each_thread cpu_count workers ns) \<noteq> []"
    "\<forall>n\<in>set (map fst (for_each_thread cpu_count workers ns)). n \<in> set cpus \<and> insert n (set (neighbors n)) = set cpus"
proof -
  note ths = for_each_thread_nodes [of cpu_count workers ns, unfolded assms(1)]
  obtain n where "n \<in> set cpus" "workers n \<noteq> []" using assms(3) by blast
  then have "n \<in> set (map fst (for_each_thread cpu_count workers ns))" using assms(2) unfolding ths by blast
  then show "map fst (for_each_thread cpu_count workers ns) \<noteq> []" by (metis empty_iff empty_set)
  show "\<forall>n\<in>set (map fst (for_each_thread cpu_count workers ns)). n \<in> set cpus \<and> insert n (set (neighbors n)) = set cpus"
    unfolding ths using assms(2) by blast
qed

lemma bins_of_nodes:
  assumes "set (ht_nodes t) \<subseteq> set ns" "distinct ns" "length (ht_bins t) = length (ht_nodes t)"
  shows "sum_list (map (\<lambda>n. mset (concat (map f (bins_of_node t n)))) ns) = mset (concat (map f (ht_bins t)))"
proof -
  have "sum_list (map (\<lambda>n. mset (concat (map f (map fst (filter (\<lambda>(bd, n'). n' = n) zs))))) ns) = mset (concat (map f (map fst zs)))"
    if "snd ` set zs \<subseteq> set ns" for zs :: "(bin \<times> node) list"
    using that
  proof (induction zs)
    case Nil
    show ?case by (simp add: sum_list_map_0)
  next
    case (Cons z zs)
    obtain bd m where z: "z = (bd, m)" by fastforce
    let ?g = "\<lambda>n. mset (concat (map f (map fst (filter (\<lambda>(bd, n'). n' = n) zs))))"
    have "sum_list (map (\<lambda>n. mset (concat (map f (map fst (filter (\<lambda>(bd, n'). n' = n) (z # zs)))))) ns)
        = sum_list (map (\<lambda>n. (if m = n then mset (f bd) else {#}) + ?g n) ns)"
      by (intro arg_cong [of _ _ sum_list] map_cong) (auto simp: z)
    also have "\<dots> = sum_list (map (\<lambda>n. if m = n then mset (f bd) else {#}) ns) + sum_list (map ?g ns)" by (rule sum_list_addf)
    also have "sum_list (map (\<lambda>n. if m = n then mset (f bd) else {#}) ns) = mset (f bd)"
      using assms(2) Cons.prems z by (intro sum_list_map_one) simp_all
    finally show ?case using Cons z by simp
  qed
  moreover have "snd ` set (zip (ht_bins t) (ht_nodes t)) \<subseteq> set ns" using assms(1) by (auto dest: set_zip_rightD)
  moreover have "map fst (zip (ht_bins t) (ht_nodes t)) = ht_bins t" using assms(3) by simp
  ultimately show ?thesis unfolding bins_of_node_def by metis
qed

lemma sorted_logical_distinct: "sorted_wrt (\<lambda>a b. nd_logical a < nd_logical b) ns \<Longrightarrow> distinct ns"
  by (induction ns) auto


lemma sum_filter_classes:
  "distinct ns \<Longrightarrow> \<forall>i\<in>set xs. g i \<in> set ns \<Longrightarrow> sum_list (map (\<lambda>n. mset (filter (\<lambda>i. g i = n) xs)) ns) = mset xs"
proof (induction xs)
  case Nil
  show ?case by (simp add: sum_list_map_0)
next
  case (Cons x xs)
  have "sum_list (map (\<lambda>n. mset (filter (\<lambda>i. g i = n) (x # xs))) ns)
      = sum_list (map (\<lambda>n. (if g x = n then {#x#} else {#}) + mset (filter (\<lambda>i. g i = n) xs)) ns)"
    by (intro arg_cong [of _ _ sum_list] map_cong) auto
  also have "\<dots> = sum_list (map (\<lambda>n. if g x = n then {#x#} else {#}) ns) + sum_list (map (\<lambda>n. mset (filter (\<lambda>i. g i = n) xs)) ns)"
    by (rule sum_list_addf)
  also have "sum_list (map (\<lambda>n. if g x = n then {#x#} else {#}) ns) = {#x#}" using Cons.prems by (intro sum_list_map_one) simp_all
  finally show ?case using Cons by simp
qed

text \<open>
  C15: \<open>std_for_each_distr\<close> calls the function exactly once on each element of the container, and ends,
  however the worker threads interleave. This holds for at least one unit (the number of units
  divides the size), nodes with CPUs that are listed by logical id and each have all others as
  neighbours, a worker on at least one of them, and a placement policy that puts every element on
  one of them or on none and that can also be asked for the end iterator.
\<close>

theorem std_for_each_exactly_once:
  assumes "sorted_wrt (\<lambda>a b. nd_logical a < nd_logical b) cpus"
    and "\<forall>n\<in>set cpus. node_valid n \<and> cpu_count n \<noteq> 0 \<and> insert n (set (neighbors n)) = set cpus"
    and "\<exists>n\<in>set cpus. workers n \<noteq> []" "units \<noteq> 0"
    and "policy n \<noteq> None" "\<forall>i<n. policy i = Some no_node \<or> policy i \<in> Some ` set cpus"
  shows "\<exists>s turns. std_for_each_distr cpu_count workers neighbors cpus units policy n = Some s
    \<and> (\<forall>ks. enough_turns (length (dr_threads s)) turns ks \<longrightarrow>
        (\<exists>s'. run_threads sp_get sia_is_end sia_deref sia_next ks s = Some s' \<and> run_done s'
          \<and> mset (run_seen s') = mset [0..<n]))"
proof -
  define f where "f i = the (policy i)" for i
  have f: "\<forall>i\<le>n. policy i = Some (f i)" using assms(5,6) by (auto simp: f_def le_less)
  have on: "\<forall>i<n. f i = no_node \<or> f i \<in> set cpus" using assms(6) by (auto simp: f_def)
  let ?mx = "n div units" let ?it = "wrapper_iterate policy ?mx n cpus" let ?mu = "(length cpus + units) div length cpus"
  let ?ths = "map fst (for_each_thread cpu_count workers cpus)"
  let ?rest = "\<lambda>p :: std_parallel. drop (sp_index p) (sp_iters p)" and ?todo = "\<lambda>(s, e). [s..<e]"
  define its where "its x = map snd (filter (\<lambda>c. fst c = x) (chunks_of f ?mx n))" for x
  note spec = container_iterate_spec [where policy = f and mx = ?mx and n = n, folded its_def]
  define P where "P x = \<lparr>sp_index = 0, sp_iters = its x\<rparr>" for x
  have it: "?it x m = Some (Some (P x))" if "x = no_node \<or> x \<in> set cpus" for x m
    using on that by (simp add: wrapper_iterate_def spec(1) [OF f] P_def)
  have cont: "slot_content ?rest ?todo (Some (P x)) = filter (\<lambda>i. f i = x) [0..<n]" for x
    by (simp add: slot_content_def P_def spec(2))
  have okP: "list_all (\<lambda>(s, e). s \<le> e) (?rest (P x))" for x
    using spec(3) by (force simp: P_def list_all_iff)
  have ne: "cpus \<noteq> []" using assms(3) by auto
  note ths = for_each_thread_reach [OF refl assms(2,3)]
  have "\<exists>d turns. dist_new ?it cpus cpus units = Some d
    \<and> (\<forall>ks. enough_turns (length ?ths) turns ks \<longrightarrow>
      (\<exists>s'. run_threads sp_get sia_is_end sia_deref sia_next ks (dist_start neighbors ?ths d) = Some s' \<and> run_done s'
        \<and> mset (run_seen s') = sum_list (map (\<lambda>n. mset (slot_content ?rest ?todo (Some (P n)))) cpus)
            + mset (slot_content ?rest ?todo (Some (P no_node)))))"
  proof (rule chunks.for_each [where iterate = ?it and nds = cpus and units = units and g = "Some (P no_node)" and ths = ?ths and nb = neighbors
      and P = P, OF assms(1) _ _ _ _ ne ths])
    show "\<forall>n\<in>set cpus. 0 \<le> nd_logical n" using assms(2) by (simp add: node_valid_def)
  qed (use it okP in auto)
  then obtain d turns where d: "dist_new ?it cpus cpus units = Some d"
    "\<And>ks. enough_turns (length ?ths) turns ks \<Longrightarrow>
      \<exists>s'. run_threads sp_get sia_is_end sia_deref sia_next ks (dist_start neighbors ?ths d) = Some s' \<and> run_done s'
        \<and> mset (run_seen s') = sum_list (map (\<lambda>x. mset (filter (\<lambda>i. f i = x) [0..<n])) cpus)
            + mset (filter (\<lambda>i. f i = no_node) [0..<n])"
    unfolding cont by blast
  have "no_node \<notin> set cpus" using assms(2) by (auto simp: node_valid_def no_node_def)
  then have dist: "distinct (no_node # cpus)" using sorted_logical_distinct [OF assms(1)] by simp
  have "sum_list (map (\<lambda>x. mset (filter (\<lambda>i. f i = x) [0..<n])) (no_node # cpus)) = mset [0..<n]"
    using on by (intro sum_filter_classes dist) auto
  then have all: "sum_list (map (\<lambda>x. mset (filter (\<lambda>i. f i = x) [0..<n])) cpus)
            + mset (filter (\<lambda>i. f i = no_node) [0..<n]) = mset [0..<n]" by (simp only: list.map sum_list.Cons add.commute)
  have "std_for_each_distr cpu_count workers neighbors cpus units policy n = Some (dist_start neighbors ?ths d)"
    using d(1) assms(4) by (simp add: std_for_each_distr_def)
  moreover have "\<exists>s'. run_threads sp_get sia_is_end sia_deref sia_next ks (dist_start neighbors ?ths d) = Some s'
      \<and> run_done s' \<and> mset (run_seen s') = mset [0..<n]" if "enough_turns (length ?ths) turns ks" for ks
    using d(2) [OF that] unfolding all .
  ultimately show ?thesis by (intro exI [of _ "dist_start neighbors ?ths d"] exI [of _ turns]) simp
qed

definition node0 :: node where "node0 = \<lparr>nd_logical = 0, nd_physical = 0\<rparr>"
definition node2 :: node where "node2 = \<lparr>nd_logical = 1, nd_physical = 2\<rparr>"

definition other_node :: "node \<Rightarrow> node list" where "other_node n = (if n = node0 then [node2] else [node0])"

lemma round_robin: "enough_turns n turns (concat (replicate turns [0..<n]))"
proof -
  have "count_list (concat (replicate turns [0..<n])) j = turns" if "j < n" for j
  proof (induction turns)
    case (Suc turns)
    have "count_list [0..<n] j = 1" using that by (induction n) (auto simp: less_Suc_eq count_list_0_iff)
    then show ?case using Suc by simp
  qed simp
  then show ?thesis by (simp add: enough_turns_def list_all_iff)
qed

theorem std_for_each_exactly_once_wit:
  "\<exists>s ks s'. std_for_each_distr (\<lambda>_. 2) (\<lambda>_. [1, 2 :: nat]) other_node [node0, node2] 2
      (\<lambda>i. if i < 8 then Some (if i < 3 then node2 else if i = 4 then no_node else node0) else None) 7 = Some s
    \<and> run_threads sp_get sia_is_end sia_deref sia_next ks s = Some s' \<and> run_done s' \<and> mset (run_seen s') = mset [0..<7]"
proof -
  have "\<exists>s turns. std_for_each_distr (\<lambda>_. 2) (\<lambda>_. [1, 2 :: nat]) other_node [node0, node2] 2
      (\<lambda>i. if i < 8 then Some (if i < 3 then node2 else if i = 4 then no_node else node0) else None) 7 = Some s
    \<and> (\<forall>ks. enough_turns (length (dr_threads s)) turns ks \<longrightarrow>
        (\<exists>s'. run_threads sp_get sia_is_end sia_deref sia_next ks s = Some s' \<and> run_done s'
          \<and> mset (run_seen s') = mset [0..<7]))"
    by (rule std_for_each_exactly_once) (auto simp: node0_def node2_def other_node_def node_valid_def)
  then show ?thesis using round_robin by blast
qed

lemma create_bins_nodes:
  "create_bins bits hash nds is mem = Some (bds, ns, mem') \<Longrightarrow> map Some ns = map (bin_place bits nds) is \<and> length bds = length is"
  by (induction "is" arbitrary: mem bds ns) (auto simp: bind_eq_Some_conv)

lemma table_index_nodes:
  "table_index bits hash d k t = Some (a, t') \<Longrightarrow> ht_nodes t' = ht_nodes t \<and> length (ht_bins t') = length (ht_bins t)"
  by (auto simp: table_index_def on_bin_def Let_def bind_eq_Some_conv)


end
