(* ===== verification/Shared_Objects.thy ===== *)
theory Shared_Objects
  imports Prelude Topology "HOL-Library.Multiset"
begin

text \<open>
  Objects that threads and nodes share: reference-counted objects and their pointers
  (\<open>src/include/PGASUS/base/ref_ptr.hpp\<close>), the mutex of tasks (\<open>src/include/PGASUS/mutex.hpp\<close>, with
  \<open>Triggerable\<close> of \<open>src/include/PGASUS/tasking/synchronizable.hpp\<close>), and objects replicated on every
  node or made once (\<open>src/include/PGASUS/msource/node_replicated.hpp\<close>, \<open>singleton.hpp\<close>).
\<close>

section \<open>Reference counts\<close>

text \<open>
  Objects and pointer variables have numbers. A deleted object has no entry; touching it is \<open>None\<close>.
  A pointer variable that does not exist has no entry, a null pointer has the entry \<open>None\<close>.
  A count is a 32-bit word (\<open>std::atomic_int_least32_t\<close>, whose arithmetic wraps).
\<close>

record ref_store =
  rs_count :: "nat \<Rightarrow> u32 option"
  rs_ptr :: "nat \<Rightarrow> nat option option"
  rs_next :: nat

definition ref :: "nat option \<Rightarrow> ref_store \<Rightarrow> ref_store option" where
  "ref p s =
     (case p of
        None \<Rightarrow> Some s
      | Some a \<Rightarrow> do { n \<leftarrow> rs_count s a; Some (s\<lparr>rs_count := (rs_count s)(a \<mapsto> n + 1)\<rparr>) })"

text \<open>The last reference deletes the object; its count is then zero, as the destructor requires.\<close>

definition unref :: "nat option \<Rightarrow> ref_store \<Rightarrow> ref_store option" where
  "unref p s =
     (case p of
        None \<Rightarrow> Some s
      | Some a \<Rightarrow> do {
          n \<leftarrow> rs_count s a;
          if n = 1 then Some (s\<lparr>rs_count := (rs_count s)(a := None)\<rparr>)
          else Some (s\<lparr>rs_count := (rs_count s)(a \<mapsto> n - 1)\<rparr>) })"

definition put_ptr :: "nat \<Rightarrow> nat option \<Rightarrow> ref_store \<Rightarrow> ref_store" where
  "put_ptr x p s = s\<lparr>rs_ptr := (rs_ptr s)(x \<mapsto> p)\<rparr>"

text \<open>
  What is done with pointers: made null or from a new object, copied or moved into a new one,
  assigned from another by copying or moving, destroyed. \<open>RefPtr(T*)\<close> is applied to a new object.
\<close>

datatype ref_op = New_Null nat | New_Object nat | Copy nat nat | Move nat nat | Assign_Copy nat nat | Assign_Move nat nat | Destroy nat

fun ref_vars :: "ref_op \<Rightarrow> nat set" where
  "ref_vars (New_Null x) = {x}" | "ref_vars (New_Object x) = {x}" | "ref_vars (Copy x y) = {x, y}"
| "ref_vars (Move x y) = {x, y}" | "ref_vars (Assign_Copy x y) = {x, y}" | "ref_vars (Assign_Move x y) = {x, y}"
| "ref_vars (Destroy x) = {x}"

definition fresh_ptr :: "nat \<Rightarrow> ref_store \<Rightarrow> bool" where "fresh_ptr x s \<longleftrightarrow> rs_ptr s x = None"

fun ref_step :: "ref_op \<Rightarrow> ref_store \<Rightarrow> ref_store option" where
  "ref_step (New_Null x) s = (if fresh_ptr x s then Some (put_ptr x None s) else Some s)"
| "ref_step (New_Object x) s =
     (if fresh_ptr x s then
        let a = rs_next s; s = s\<lparr>rs_count := (rs_count s)(a \<mapsto> 0), rs_next := a + 1\<rparr>
        in ref (Some a) (put_ptr x (Some a) s)
      else Some s)"
| "ref_step (Copy x y) s =
     (case rs_ptr s y of
        Some p \<Rightarrow> if fresh_ptr x s then ref p (put_ptr x p s) else Some s
      | None \<Rightarrow> Some s)"
| "ref_step (Move x y) s =
     (case rs_ptr s y of
        Some p \<Rightarrow> if fresh_ptr x s then Some (put_ptr y None (put_ptr x p s)) else Some s
      | None \<Rightarrow> Some s)"
| "ref_step (Assign_Copy x y) s =
     (case (rs_ptr s x, rs_ptr s y) of
        (Some old, Some p) \<Rightarrow>
          if p \<noteq> old then do { s \<leftarrow> ref p (put_ptr x p s); unref old s } else Some s
      | _ \<Rightarrow> Some s)"
| "ref_step (Assign_Move x y) s =
     (case (rs_ptr s x, rs_ptr s y) of
        (Some old, Some p) \<Rightarrow> do {
          s \<leftarrow> unref old s;
          Some (put_ptr y None (put_ptr x p s)) }
      | _ \<Rightarrow> Some s)"
| "ref_step (Destroy x) s =
     (case rs_ptr s x of
        Some p \<Rightarrow> do { s \<leftarrow> unref p s; Some (s\<lparr>rs_ptr := (rs_ptr s)(x := None)\<rparr>) }
      | None \<Rightarrow> Some s)"

fun ref_run :: "ref_op list \<Rightarrow> ref_store \<Rightarrow> ref_store option" where
  "ref_run [] s = Some s"
| "ref_run (r # rs) s = do { s \<leftarrow> ref_step r s; ref_run rs s }"

definition ref_init :: ref_store where
  "ref_init = \<lparr>rs_count = Map.empty, rs_ptr = Map.empty, rs_next = 0\<rparr>"

definition pointers_to :: "ref_store \<Rightarrow> nat \<Rightarrow> nat set" where
  "pointers_to s a = {x. rs_ptr s x = Some (Some a)}"

section \<open>The mutex\<close>

text \<open>The wait object of a mutex; its clients are the waiting threads.\<close>

record mutex =
  mx_locked :: bool
  mx_clients :: "nat list"

definition must_wait :: "mutex \<Rightarrow> bool \<times> mutex" where "must_wait m = (mx_locked m, m\<lparr>mx_locked := True\<rparr>)"

definition mutex_register_wait :: "nat \<Rightarrow> mutex \<Rightarrow> bool \<times> mutex" where
  "mutex_register_wait t m =
     (let (w, m) = must_wait m in if w then (True, m\<lparr>mx_clients := mx_clients m @ [t]\<rparr>) else (False, m))"

definition trigger_one :: "mutex \<Rightarrow> nat option \<times> mutex" where
  "trigger_one m = (case mx_clients m of [] \<Rightarrow> (None, m) | c # cs \<Rightarrow> (Some c, m\<lparr>mx_clients := cs\<rparr>))"

definition mutex_release :: "mutex \<Rightarrow> nat option \<times> mutex" where
  "mutex_release m = (let (c, m) = trigger_one m in if c = None then (c, m\<lparr>mx_locked := False\<rparr>) else (c, m))"

text \<open>
  Threads that use a mutex. \<open>lock\<close> and \<open>unlock\<close> do not look at who calls them. The holders are the threads
  that have returned from \<open>lock\<close> (at once, or woken by the one that unlocks) and have not called \<open>unlock\<close>.
\<close>

datatype mutex_op = Lock nat | Unlock nat

record mutex_state =
  ms_mutex :: mutex
  ms_holders :: "nat list"

fun mutex_step :: "mutex_op \<Rightarrow> mutex_state \<Rightarrow> mutex_state" where
  "mutex_step (Lock t) s =
     (let (w, m) = mutex_register_wait t (ms_mutex s)
      in if w then s\<lparr>ms_mutex := m\<rparr> else s\<lparr>ms_mutex := m, ms_holders := t # ms_holders s\<rparr>)"
| "mutex_step (Unlock t) s =
     (let (c, m) = mutex_release (ms_mutex s); hs = remove1 t (ms_holders s)
      in s\<lparr>ms_mutex := m, ms_holders := (case c of None \<Rightarrow> hs | Some c' \<Rightarrow> c' # hs)\<rparr>)"

definition mutex_init :: mutex_state where
  "mutex_init = \<lparr>ms_mutex = \<lparr>mx_locked = False, mx_clients = []\<rparr>, ms_holders = []\<rparr>"

section \<open>Objects on every node, and objects made once\<close>

text \<open>
  \<open>NodeReplicated\<close>: the vector by logical id, and the objects made so far, each with the node it was made
  for; their names are their positions.
\<close>

record replicated =
  nr_data :: "nat option list"
  nr_made :: "node list"

definition replicated_new :: "nat \<Rightarrow> replicated" where
  "replicated_new logical_node_count = \<lparr>nr_data = replicate logical_node_count None, nr_made = []\<rparr>"

definition replicated_get :: "node \<Rightarrow> replicated \<Rightarrow> (nat \<times> replicated) option" where
  "replicated_get nd r =
     (if \<not> node_valid nd then None
      else let n = nat (nd_logical nd)
           in if \<not> n < length (nr_data r) then None
              else case nr_data r ! n of
                     Some a \<Rightarrow> Some (a, r)
                   | None \<Rightarrow> Some (length (nr_made r),
                       r\<lparr>nr_data := (nr_data r)[n := Some (length (nr_made r))], nr_made := nr_made r @ [nd]\<rparr>))"

definition get_all_registered :: "replicated \<Rightarrow> nat list" where
  "get_all_registered r = List.map_filter (\<lambda>x. x) (nr_data r)"

text \<open>\<open>Singleton\<close>: a failed assertion is \<open>None\<close>. The move constructor leaves \<open>_initialized\<close> at its default.\<close>

record 'a singleton =
  sg_data :: "'a option"
  sg_args :: "nat list"
  sg_initialized :: int

definition singleton_new :: "nat list \<Rightarrow> 'a singleton" where
  "singleton_new args = \<lparr>sg_data = None, sg_args = args, sg_initialized = 1\<rparr>"

definition singleton_move :: "'a singleton \<Rightarrow> 'a singleton \<times> 'a singleton" where
  "singleton_move other = (\<lparr>sg_data = sg_data other, sg_args = sg_args other, sg_initialized = 0\<rparr>, other\<lparr>sg_data := None\<rparr>)"

definition singleton_get :: "(nat list \<Rightarrow> 'a) \<Rightarrow> 'a singleton \<Rightarrow> ('a \<times> 'a singleton) option" where
  "singleton_get create s =
     (if sg_initialized s = 0 then None
      else case sg_data s of
             Some x \<Rightarrow> Some (x, s)
           | None \<Rightarrow> Some (create (sg_args s), s\<lparr>sg_data := Some (create (sg_args s))\<rparr>))"

section \<open>Counts are exact\<close>

definition count_of :: "nat set \<Rightarrow> u32 option" where
  "count_of xs = (if xs = {} then None else Some (of_nat (card xs)))"

definition refs_ok :: "ref_store \<Rightarrow> bool" where
  "refs_ok s \<longleftrightarrow> finite (dom (rs_ptr s)) \<and> (\<forall>a. rs_count s a = count_of (pointers_to s a)) \<and> (\<forall>a \<ge> rs_next s. pointers_to s a = {})"

lemma pointers_to_put: "pointers_to (put_ptr x p s) a = (if p = Some a then insert x (pointers_to s a) else pointers_to s a - {x})"
  by (auto simp: pointers_to_def put_ptr_def)

lemma finite_pointers: "finite (dom (rs_ptr s)) \<Longrightarrow> finite (pointers_to s a)"
  by (rule finite_subset [of _ "dom (rs_ptr s)"]) (auto simp: pointers_to_def)

lemma in_pointers_to: "x \<in> pointers_to s a \<longleftrightarrow> rs_ptr s x = Some (Some a)"
  by (simp add: pointers_to_def)

text \<open>
  A state in between: the counts are those of other sets of pointers than the present ones. \<open>ref\<close> and
  \<open>unref\<close> bring them in line.
\<close>

definition counts_as :: "(nat \<Rightarrow> nat set) \<Rightarrow> ref_store \<Rightarrow> bool" where
  "counts_as xs s \<longleftrightarrow> (\<forall>a. finite (xs a) \<and> rs_count s a = count_of (xs a))"

text \<open>
  Taking a reference is right even when the count wraps; giving one up is right below \<open>2 ^ 32\<close>
  pointers, where a count of one means one pointer.
\<close>

lemma ref_spec:
  assumes "counts_as xs s" "xs a \<noteq> {}" "x \<notin> xs a"
  shows "\<exists>s'. ref (Some a) s = Some s' \<and> counts_as (xs(a := insert x (xs a))) s' \<and> rs_ptr s' = rs_ptr s \<and> rs_next s' = rs_next s"
  using assms by (auto simp: ref_def counts_as_def count_of_def)

lemma of_nat_u32_eq_1: "n < 2 ^ 32 \<Longrightarrow> (of_nat n :: u32) = 1 \<longleftrightarrow> n = 1"
proof -
  assume "n < 2 ^ 32"
  then have "unat (of_nat n :: u32) = n" by (simp add: unsigned_of_nat take_bit_nat_eq_self)
  then show ?thesis by (metis of_nat_1 unat_1)
qed

lemma unref_spec:
  assumes "counts_as xs s" "x \<in> xs a" "card (xs a) < 2 ^ 32"
  shows "\<exists>s'. unref (Some a) s = Some s' \<and> counts_as (xs(a := xs a - {x})) s' \<and> rs_ptr s' = rs_ptr s \<and> rs_next s' = rs_next s"
proof -
  have f: "finite (xs a)" and n: "rs_count s a = Some (of_nat (card (xs a)))" using assms by (auto simp: counts_as_def count_of_def)
  have c: "card (xs a - {x}) = card (xs a) - 1" "0 < card (xs a)" using f assms(2) by (auto simp: card_gt_0_iff)
  show ?thesis
  proof (cases "card (xs a) = 1")
    case True
    then have "xs a - {x} = {}" using c(1) f by simp
    then show ?thesis using assms(1) n True by (auto simp: unref_def counts_as_def count_of_def)
  next
    case False
    then have "card (xs a - {x}) \<noteq> 0" using c by simp
    then have "xs a - {x} \<noteq> {}" by (metis card.empty)
    moreover have "(of_nat (card (xs a)) :: u32) \<noteq> 1" using of_nat_u32_eq_1 [OF assms(3)] False by simp
    ultimately show ?thesis using assms(1) n c by (auto simp: unref_def counts_as_def count_of_def of_nat_diff)
  qed
qed

lemma counts_as_put [simp]: "counts_as xs (put_ptr x p s) = counts_as xs s"
  by (simp add: counts_as_def put_ptr_def)

lemma refs_okD:
  assumes "refs_ok s"
  shows "counts_as (pointers_to s) s" "finite (dom (rs_ptr s))" "rs_next s \<le> a \<Longrightarrow> pointers_to s a = {}"
    "rs_ptr s x = Some (Some a) \<Longrightarrow> a < rs_next s"
proof -
  show n: "rs_next s \<le> a \<Longrightarrow> pointers_to s a = {}" for a using assms by (simp add: refs_ok_def)
  show "rs_ptr s x = Some (Some a) \<Longrightarrow> a < rs_next s" using n [of a] in_pointers_to [of x s a] by (cases "a < rs_next s") auto
qed (use assms finite_pointers in \<open>auto simp: refs_ok_def counts_as_def\<close>)

lemma refs_okI:
  assumes "counts_as xs s" "\<And>a. count_of (pointers_to s a) = count_of (xs a)" "finite (dom (rs_ptr s))"
    and "\<And>x a. rs_ptr s x = Some (Some a) \<Longrightarrow> a < rs_next s"
  shows "refs_ok s"
  using assms by (force simp: refs_ok_def counts_as_def pointers_to_def)

lemma put_ptr_fields [simp]: "rs_ptr (put_ptr x p s) = (rs_ptr s)(x \<mapsto> p)" "rs_next (put_ptr x p s) = rs_next s"
  "rs_count (put_ptr x p s) = rs_count s"
  by (simp_all add: put_ptr_def)

text \<open>The same for pointers that may be null.\<close>

lemma ref_any:
  assumes "counts_as xs s" "\<And>a. p = Some a \<Longrightarrow> xs a \<noteq> {} \<and> x \<notin> xs a"
  shows "\<exists>s'. ref p s = Some s' \<and> counts_as (\<lambda>a. if p = Some a then insert x (xs a) else xs a) s' \<and> rs_ptr s' = rs_ptr s \<and> rs_next s' = rs_next s"
proof (cases p)
  case (Some a)
  moreover have "(\<lambda>b. if p = Some b then insert x (xs b) else xs b) = xs(a := insert x (xs a))" using Some by (auto simp: fun_eq_iff)
  ultimately show ?thesis using ref_spec [OF assms(1), of a x] assms(2) by simp
qed (use assms in \<open>simp add: ref_def\<close>)

lemma unref_any:
  assumes "counts_as xs s" "\<And>a. p = Some a \<Longrightarrow> x \<in> xs a \<and> card (xs a) < 2 ^ 32"
  shows "\<exists>s'. unref p s = Some s' \<and> counts_as (\<lambda>a. if p = Some a then xs a - {x} else xs a) s' \<and> rs_ptr s' = rs_ptr s \<and> rs_next s' = rs_next s"
proof (cases p)
  case (Some a)
  moreover have "(\<lambda>b. if p = Some b then xs b - {x} else xs b) = xs(a := xs a - {x})" using Some by (auto simp: fun_eq_iff)
  ultimately show ?thesis using unref_spec [OF assms(1), of x a] assms(2) by simp
qed (use assms in \<open>simp add: unref_def\<close>)

lemma count_of_swap:
  assumes "finite xs" "y \<in> xs" "x \<notin> xs - {y}"
  shows "count_of (insert x (xs - {y})) = count_of xs"
proof -
  have "card (insert x (xs - {y})) = Suc (card (xs - {y}))" using assms by simp
  also have "\<dots> = card xs" using assms(1,2) by (rule card_Suc_Diff1)
  finally have "card (insert x (xs - {y})) = card xs" .
  then show ?thesis using assms(2) by (auto simp: count_of_def)
qed

text \<open>The pointer variables that exist are among those of a set smaller than the range of a count.\<close>

lemma small_card:
  fixes V :: "nat set"
  assumes "xs \<subseteq> V" "finite V" "card V < 2 ^ 31"
  shows "card xs < 2 ^ 32"
  using card_mono [OF assms(2,1)] assms(3) by simp

lemma pointers_in_vars: "dom (rs_ptr s) \<subseteq> V \<Longrightarrow> pointers_to s a \<subseteq> V"
  by (auto simp: pointers_to_def)

lemma ref_unref_ptr:
  "ref p s = Some s' \<Longrightarrow> rs_ptr s' = rs_ptr s" "unref p s = Some s' \<Longrightarrow> rs_ptr s' = rs_ptr s"
  by (auto simp: ref_def unref_def split: option.splits bind_splits if_splits)

lemma ref_step_frame:
  "ref_step r s = Some s' \<Longrightarrow> z \<notin> ref_vars r \<Longrightarrow> rs_ptr s' z = rs_ptr s z"
  by (cases r) (auto simp: Let_def split: option.splits bind_splits if_splits dest!: ref_unref_ptr)

lemma ref_step_vars:
  assumes "ref_step r s = Some s'" "dom (rs_ptr s) \<subseteq> V" "ref_vars r \<subseteq> V"
  shows "dom (rs_ptr s') \<subseteq> V"
  using ref_step_frame [OF assms(1)] assms(2,3) by (metis domIff subset_iff)

lemma ref_step_ok:
  assumes ok: "refs_ok s" and vars: "dom (rs_ptr s) \<subseteq> V" "ref_vars r \<subseteq> V" "finite V" "card V < 2 ^ 31"
  shows "\<exists>s'. ref_step r s = Some s' \<and> refs_ok s'"
proof (cases r)
  case (New_Null x)
  have "refs_ok (put_ptr x None s)" if "fresh_ptr x s"
    using refs_okD [OF ok] that by (intro refs_okI [of "pointers_to s"]) (auto simp: pointers_to_put in_pointers_to fresh_ptr_def split: if_splits)
  then show ?thesis using New_Null ok by simp
next
  case (New_Object x)
  let ?a = "rs_next s"
  let ?s = "s\<lparr>rs_next := Suc ?a, rs_ptr := (rs_ptr s)(x \<mapsto> Some ?a), rs_count := (rs_count s)(?a \<mapsto> 1)\<rparr>"
  have "refs_ok ?s" if "fresh_ptr x s"
  proof -
    have "pointers_to ?s b = (if b = ?a then {x} else pointers_to s b)" for b
      using refs_okD(3) [OF ok, of ?a] that by (auto simp: pointers_to_def fresh_ptr_def)
    then show ?thesis using refs_okD [OF ok] ok by (auto simp: refs_ok_def count_of_def)
  qed
  then show ?thesis using New_Object ok by (simp add: ref_def put_ptr_def Let_def)
next
  case (Copy x y)
  show ?thesis
  proof (cases "rs_ptr s y")
    case (Some p)
    have "\<exists>s'. ref p (put_ptr x p s) = Some s' \<and> refs_ok s'" if "fresh_ptr x s"
    proof -
      have "pointers_to s a \<noteq> {} \<and> x \<notin> pointers_to s a" if "p = Some a" for a
        using \<open>fresh_ptr x s\<close> Some that in_pointers_to [of y s a] by (auto simp: in_pointers_to fresh_ptr_def)
      then obtain s' where s': "ref p (put_ptr x p s) = Some s'"
        "counts_as (\<lambda>a. if p = Some a then insert x (pointers_to s a) else pointers_to s a) s'"
        "rs_ptr s' = (rs_ptr s)(x \<mapsto> p)" "rs_next s' = rs_next s"
        using ref_any [of "pointers_to s" "put_ptr x p s" p x] refs_okD(1) [OF ok] by auto
      have "pointers_to s' a = pointers_to (put_ptr x p s) a" for a using s'(3) by (simp add: pointers_to_def)
      then have "refs_ok s'" using s' refs_okD(2,4) [OF ok] that Some
        by (intro refs_okI [OF s'(2)]) (auto simp: pointers_to_put in_pointers_to fresh_ptr_def split: if_splits)
      then show ?thesis using s'(1) by blast
    qed
    then show ?thesis using Copy Some ok by simp
  qed (use Copy ok in simp)
next
  case (Move x y)
  show ?thesis
  proof (cases "rs_ptr s y")
    case (Some p)
    let ?s = "put_ptr y None (put_ptr x p s)"
    have "refs_ok ?s" if fr: "fresh_ptr x s"
    proof (rule refs_okI [of "pointers_to s"])
      have "x \<noteq> y" using fr Some by (auto simp: fresh_ptr_def)
      then have "pointers_to ?s a = (if p = Some a then insert x (pointers_to s a - {y}) else pointers_to s a)" for a
        using fr Some by (auto simp: pointers_to_put in_pointers_to fresh_ptr_def)
      moreover have "count_of (insert x (pointers_to s a - {y})) = count_of (pointers_to s a)" if "p = Some a" for a
        using fr Some that finite_pointers [OF refs_okD(2) [OF ok]] by (intro count_of_swap) (auto simp: in_pointers_to fresh_ptr_def)
      ultimately show "count_of (pointers_to ?s a) = count_of (pointers_to s a)" for a by simp
    qed (use refs_okD [OF ok] Some in \<open>auto split: if_splits\<close>)
    then show ?thesis using Move Some ok by simp
  qed (use Move ok in simp)
next
  case (Assign_Copy x y)
  show ?thesis
  proof (cases "rs_ptr s x = None \<or> rs_ptr s y = None \<or> rs_ptr s x = rs_ptr s y")
    case True
    then show ?thesis using Assign_Copy ok by (auto split: option.splits)
  next
    case False
    then obtain old p where p: "rs_ptr s x = Some old" "rs_ptr s y = Some p" "p \<noteq> old" by auto
    have "pointers_to s a \<noteq> {} \<and> x \<notin> pointers_to s a" if "p = Some a" for a
      using p that in_pointers_to [of y s a] by (auto simp: in_pointers_to)
    then obtain s1 where s1: "ref p (put_ptr x p s) = Some s1"
      "counts_as (\<lambda>a. if p = Some a then insert x (pointers_to s a) else pointers_to s a) s1"
      "rs_ptr s1 = (rs_ptr s)(x \<mapsto> p)" "rs_next s1 = rs_next s"
      using ref_any [of "pointers_to s" "put_ptr x p s" p x] refs_okD(1) [OF ok] by auto
    let ?xs = "\<lambda>a. if p = Some a then insert x (pointers_to s a) else pointers_to s a"
    have "card (?xs a) < 2 ^ 32" for a using small_card [OF _ vars(3,4), of "?xs a"] pointers_in_vars [OF vars(1), of a] vars(2) Assign_Copy by auto
    then have "x \<in> ?xs a \<and> card (?xs a) < 2 ^ 32" if "old = Some a" for a
      using p(1) that by (simp add: in_pointers_to)
    then obtain s2 where s2: "unref old s1 = Some s2" "rs_ptr s2 = rs_ptr s1" "rs_next s2 = rs_next s1"
      "counts_as (\<lambda>a. if old = Some a then ?xs a - {x} else ?xs a) s2"
      using unref_any [OF s1(2), of old x] by blast
    have "pointers_to s2 a = pointers_to (put_ptr x p s) a" for a using s1(3) s2(2) by (simp add: pointers_to_def)
    then have "refs_ok s2" using s1(3,4) s2(2,3) refs_okD(2,4) [OF ok] p
      by (intro refs_okI [OF s2(4)]) (auto simp: pointers_to_put in_pointers_to intro!: arg_cong [of _ _ count_of] split: if_splits)
    then show ?thesis using Assign_Copy p s1(1) s2(1) by simp
  qed
next
  case (Assign_Move x y)
  show ?thesis
  proof (cases "rs_ptr s x = None \<or> rs_ptr s y = None")
    case True
    then show ?thesis using Assign_Move ok by (auto split: option.splits)
  next
    case False
    then obtain old p where p: "rs_ptr s x = Some old" "rs_ptr s y = Some p" by auto
    obtain s1 where s1: "unref old s = Some s1" "rs_ptr s1 = rs_ptr s" "rs_next s1 = rs_next s"
      "counts_as (\<lambda>a. if old = Some a then pointers_to s a - {x} else pointers_to s a) s1"
      using unref_any [OF refs_okD(1) [OF ok], of old x] p small_card [OF pointers_in_vars [OF vars(1)] vars(3,4)]
      by (auto simp: in_pointers_to)
    let ?s = "put_ptr y None (put_ptr x p s1)"
    have "refs_ok ?s"
    proof (rule refs_okI [of "\<lambda>a. if old = Some a then pointers_to s a - {x} else pointers_to s a"])
      fix a
      have eq: "pointers_to ?s a = (if p = Some a then insert x (pointers_to s a) else pointers_to s a - {x}) - {y}"
        using s1(2) by (auto simp: pointers_to_def)
      have x: "x \<in> pointers_to s a \<longleftrightarrow> old = Some a" and y: "y \<in> pointers_to s a \<longleftrightarrow> p = Some a" using p by (auto simp: in_pointers_to)
      have fin: "finite (pointers_to s a)" using finite_pointers [OF refs_okD(2) [OF ok]] .
      show "count_of (pointers_to ?s a) = count_of (if old = Some a then pointers_to s a - {x} else pointers_to s a)"
      proof (cases "p = Some a \<and> x \<noteq> y")
        case True
        have "pointers_to ?s a = insert x (pointers_to s a - {x} - {y})" using True unfolding eq by auto
        moreover have "(if old = Some a then pointers_to s a - {x} else pointers_to s a) = pointers_to s a - {x}" using x by auto
        ultimately show ?thesis using True y fin by (simp, intro count_of_swap) auto
      next
        case False
        then have "pointers_to ?s a = pointers_to s a - {x}" using x y p unfolding eq by auto
        moreover have "(if old = Some a then pointers_to s a - {x} else pointers_to s a) = pointers_to s a - {x}" using x by auto
        ultimately show ?thesis by simp
      qed
    qed (use s1 refs_okD [OF ok] p in \<open>auto split: if_splits\<close>)
    then show ?thesis using Assign_Move p s1(1) by simp
  qed
next
  case (Destroy x)
  show ?thesis
  proof (cases "rs_ptr s x")
    case (Some p)
    obtain s1 where s1: "unref p s = Some s1" "rs_ptr s1 = rs_ptr s" "rs_next s1 = rs_next s"
      "counts_as (\<lambda>a. if p = Some a then pointers_to s a - {x} else pointers_to s a) s1"
      using unref_any [OF refs_okD(1) [OF ok], of p x] Some small_card [OF pointers_in_vars [OF vars(1)] vars(3,4)]
      by (auto simp: in_pointers_to)
    let ?s = "s1\<lparr>rs_ptr := (rs_ptr s1)(x := None)\<rparr>"
    have "counts_as (\<lambda>a. if p = Some a then pointers_to s a - {x} else pointers_to s a) ?s" using s1(4) by (simp add: counts_as_def)
    moreover have "pointers_to ?s a = (if p = Some a then pointers_to s a - {x} else pointers_to s a)" for a
      using s1(2) Some by (auto simp: pointers_to_def)
    ultimately have "refs_ok ?s" using s1 refs_okD(2,4) [OF ok] by (intro refs_okI) (auto split: if_splits)
    then show ?thesis using Destroy Some s1(1) by simp
  qed (use Destroy ok in simp)
qed

lemma ref_run_ok:
  "refs_ok s \<Longrightarrow> dom (rs_ptr s) \<subseteq> V \<Longrightarrow> \<Union> (ref_vars ` set rs) \<subseteq> V \<Longrightarrow> finite V \<Longrightarrow> card V < 2 ^ 31 \<Longrightarrow>
    \<exists>s'. ref_run rs s = Some s' \<and> refs_ok s' \<and> dom (rs_ptr s') \<subseteq> V"
proof (induction rs arbitrary: s)
  case (Cons r rs)
  have r: "ref_vars r \<subseteq> V" using Cons.prems(3) by auto
  obtain s1 where s1: "ref_step r s = Some s1" "refs_ok s1" using ref_step_ok [OF Cons.prems(1,2) r Cons.prems(4,5)] by blast
  then show ?case using Cons.IH [of s1] ref_step_vars [OF s1(1) Cons.prems(2) r] Cons.prems(3-5) by simp
qed simp

lemma sint_count: "n < 2 ^ 31 \<Longrightarrow> sint (of_nat n :: u32) = int n"
  by (simp add: signed_of_nat signed_take_bit_int_eq_self)

text \<open>
  C19: Reference counting is exact below the range of the 32-bit counter: after any sequence of
  creating, copying, moving, assigning (from itself, too) and destroying fewer than \<open>2 ^ 31\<close> pointer
  variables, an object exists exactly if a pointer points to it, its count is (as a signed number)
  the number of those pointers, and no operation has touched a deleted object.
\<close>

theorem reference_counts_exact:
  assumes "card (\<Union> (ref_vars ` set rs)) < 2 ^ 31"
  shows "\<exists>s. ref_run rs ref_init = Some s
    \<and> (\<forall>a. case rs_count s a of None \<Rightarrow> pointers_to s a = {}
         | Some n \<Rightarrow> pointers_to s a \<noteq> {} \<and> sint n = int (card (pointers_to s a)))"
proof -
  define V where "V = \<Union> (ref_vars ` set rs)"
  have "finite (ref_vars r)" for r by (cases r) auto
  then have fin: "finite V" by (simp add: V_def)
  have "refs_ok ref_init" "dom (rs_ptr ref_init) \<subseteq> V" by (simp_all add: ref_init_def refs_ok_def pointers_to_def count_of_def)
  then obtain s where s: "ref_run rs ref_init = Some s" "refs_ok s" "dom (rs_ptr s) \<subseteq> V"
    using ref_run_ok [of ref_init V rs] fin assms by (auto simp: V_def)
  have "card (pointers_to s a) < 2 ^ 31" for a
    using card_mono [OF fin pointers_in_vars [OF s(3)], of a] assms by (simp add: V_def)
  then show ?thesis using s(1,2) by (auto simp: refs_ok_def count_of_def sint_count)
qed

theorem reference_counts_exact_wit:
  "(\<exists>s. ref_run [New_Object 0, Copy 1 0, Assign_Copy 0 1, Move 2 0, Destroy 1] ref_init = Some s
     \<and> rs_count s 0 = Some 1 \<and> pointers_to s 0 = {2}) \<and> card {0, 1, 2 :: nat} < 2 ^ 31"
proof -
  let ?rs = "[New_Object 0, Copy 1 0, Assign_Copy 0 1, Move 2 0, Destroy 1]"
  have "card {0, 1, 2 :: nat} < 2 ^ 31" by simp
  moreover have "\<Union> (ref_vars ` set ?rs) = {0, 1, 2}" by auto
  ultimately obtain s where s: "ref_run ?rs ref_init = Some s"
    "case rs_count s 0 of None \<Rightarrow> pointers_to s 0 = {} | Some n \<Rightarrow> pointers_to s 0 \<noteq> {} \<and> sint n = int (card (pointers_to s 0))"
    using reference_counts_exact [of ?rs] by metis
  then have "rs_count s 0 = Some 1 \<and> pointers_to s 0 = {2}"
    by (auto simp: ref_init_def fresh_ptr_def ref_def unref_def put_ptr_def pointers_to_def split: if_splits)
  then show ?thesis using s(1) by auto
qed

section \<open>The mutex is fair\<close>

text \<open>The holders, then the waiting threads in the order in which they came.\<close>

definition mutex_queue :: "mutex_state \<Rightarrow> nat list" where
  "mutex_queue s = ms_holders s @ mx_clients (ms_mutex s)"

fun queue_step :: "mutex_op \<Rightarrow> nat list \<Rightarrow> nat list" where
  "queue_step (Lock t) q = q @ [t]"
| "queue_step (Unlock t) q = tl q"

text \<open>
  The discipline the mutex relies on and does not check: \<open>lock\<close> is called by a thread that neither has
  the mutex nor waits for it, \<open>unlock\<close> by the thread that has it.
\<close>

fun calls_ok :: "mutex_op list \<Rightarrow> nat list \<Rightarrow> bool" where
  "calls_ok [] q = True"
| "calls_ok (Lock t # ops) q = (t \<notin> set q \<and> calls_ok ops (q @ [t]))"
| "calls_ok (Unlock t # ops) q = (q \<noteq> [] \<and> hd q = t \<and> calls_ok ops (tl q))"

definition mutex_ok :: "mutex_state \<Rightarrow> bool" where
  "mutex_ok s \<longleftrightarrow> mx_locked (ms_mutex s) = (ms_holders s \<noteq> []) \<and> (ms_holders s = [] \<longrightarrow> mx_clients (ms_mutex s) = [])
     \<and> length (ms_holders s) \<le> 1 \<and> distinct (mutex_queue s)"

lemma mutex_step_refines:
  assumes "mutex_ok s" "calls_ok (x # ops) (mutex_queue s)"
  shows "mutex_ok (mutex_step x s) \<and> mutex_queue (mutex_step x s) = queue_step x (mutex_queue s)
    \<and> calls_ok ops (queue_step x (mutex_queue s))"
proof (cases x)
  case (Lock t)
  then show ?thesis using assms
    by (cases "ms_holders s") (auto simp: mutex_ok_def mutex_queue_def mutex_register_wait_def must_wait_def Let_def)
next
  case (Unlock t)
  moreover obtain h where "ms_holders s = [h]" using assms Unlock
    by (cases "ms_holders s") (auto simp: mutex_ok_def mutex_queue_def)
  ultimately show ?thesis using assms
    by (cases "mx_clients (ms_mutex s)") (auto simp: mutex_ok_def mutex_queue_def mutex_release_def trigger_one_def Let_def)
qed

lemma mutex_run_refines:
  "mutex_ok s \<Longrightarrow> calls_ok ops (mutex_queue s) \<Longrightarrow>
    mutex_ok (fold mutex_step ops s) \<and> mutex_queue (fold mutex_step ops s) = fold queue_step ops (mutex_queue s)"
proof (induction ops arbitrary: s)
  case (Cons x xs)
  then show ?case using mutex_step_refines [OF Cons.prems] by simp
qed simp

text \<open>
  C20: The mutex of tasks is a first-come, first-served queue for threads that keep to the discipline
  (\<open>unlock\<close> only by the thread that has the mutex, no second \<open>lock\<close> by a thread that has it or waits):
  the thread that has it and the waiting threads are those of a queue to which \<open>lock\<close> appends and
  from whose head \<open>unlock\<close> removes. So no two threads hold it, and it is never free while a thread waits.
\<close>

theorem mutex_refines_queue:
  assumes "calls_ok ops []"
  shows "mutex_queue (fold mutex_step ops mutex_init) = fold queue_step ops []
    \<and> ms_holders (fold mutex_step ops mutex_init) = take 1 (fold queue_step ops [])
    \<and> mx_locked (ms_mutex (fold mutex_step ops mutex_init)) = (fold queue_step ops [] \<noteq> [])
    \<and> distinct (fold queue_step ops [])"
proof -
  define s where "s = fold mutex_step ops mutex_init"
  have "mutex_ok mutex_init" "mutex_queue mutex_init = []" by (simp_all add: mutex_ok_def mutex_queue_def mutex_init_def)
  then have q: "mutex_ok s" "mutex_queue s = fold queue_step ops []"
    using mutex_run_refines [of mutex_init ops] assms by (simp_all add: s_def)
  have "ms_holders s = take 1 (mutex_queue s)" "mx_locked (ms_mutex s) = (mutex_queue s \<noteq> [])" "distinct (mutex_queue s)"
    using q(1) by (cases "ms_holders s"; auto simp: mutex_ok_def mutex_queue_def)+
  then show ?thesis using q(2) by (simp add: s_def)
qed

theorem mutex_refines_queue_wit:
  "ms_holders (fold mutex_step [Lock 1, Lock 2, Lock 3, Unlock 1] mutex_init) = [2]
    \<and> mutex_queue (fold mutex_step [Lock 1, Lock 2, Lock 3, Unlock 1] mutex_init) = [2, 3]"
proof -
  have ok: "calls_ok [Lock 1, Lock 2, Lock 3, Unlock 1] []" by simp
  have q: "fold queue_step [Lock 1, Lock 2, Lock 3, Unlock 1] [] = [2, 3]" by simp
  show ?thesis using mutex_refines_queue [OF ok] unfolding q by simp
qed

text \<open>Without the discipline it does not exclude: an \<open>unlock\<close> by a third thread wakes the second beside the first.\<close>

lemma unlock_by_other: "ms_holders (fold mutex_step [Lock 1, Lock 2, Unlock 3] mutex_init) = [2, 1]"
  by (simp add: mutex_init_def mutex_register_wait_def must_wait_def mutex_release_def trigger_one_def)

section \<open>Objects on every node, and objects made once\<close>

text \<open>An object made for a node is made once, and is the one every later call gives.\<close>

lemma replicated_get_again:
  assumes "replicated_get nd r = Some (a, r')"
  shows "replicated_get nd r' = Some (a, r')" "length (nr_data r') = length (nr_data r)"
    "i < length (nr_data r) \<Longrightarrow> nr_data r ! i = Some b \<Longrightarrow> nr_data r' ! i = Some b"
  using assms by (auto simp: replicated_get_def node_valid_def Let_def nth_list_update split: option.splits if_splits)

text \<open>A singleton that has been moved from one place to another cannot be used any more.\<close>

lemma moved_singleton_fails: "singleton_get create (fst (singleton_move s)) = None"
  by (simp add: singleton_get_def singleton_move_def)

end
