(* ===== verification/Spec2Isabelle.thy ===== *)
theory Spec2Isabelle
  imports Msource_Align Neighbors Strutil Stackedmalloc_Api Backoff Rwlock Scheduler_End Sync_Net
    Worker_Props Distribution_Props Shared_Objects Pt_Props
begin

text \<open>
  A verification development for PGASUS, a C++ library for NUMA machines: memory that is bound to
  nodes, tasks that run on the threads of nodes, and containers spread over nodes.

  \<^bold>\<open>The parts of the program.\<close> The C allocation functions (\<open>src/src/msource/stackedmalloc.cpp\<close>) take memory
  from the memory source of the place on top of the calling thread's stack. A memory source
  (\<open>src/src/msource/msource.cpp\<close>) owns arenas, pieces of memory bound to one node
  (\<open>src/src/msource/mmaphelper.cpp\<close>), and runs a malloc space of \<open>src/src/msource/ptmalloc3-malloc.c\<close>
  in each. Which nodes there are, the topology says (\<open>src/src/base/topology.cpp\<close>, \<open>node.cpp\<close>). Every
  node has a scheduler with worker threads (\<open>src/src/tasking\<close>); they take tasks from scheduling
  domains by priority and run them on contexts, which a waiting task leaves. Containers
  (\<open>src/include/PGASUS/hashtable\<close>) place their parts on nodes and iterate over them with tasks on
  every node. Locks, reference counts, mutexes, replicated objects and singletons
  (\<open>src/include/PGASUS\<close>) are used throughout.

  \<^bold>\<open>How the code is modelled.\<close> A struct or class is a record, under the names of its members; a
  pointer is a 64-bit address where the code computes with addresses (the allocator, the memory
  sources), and otherwise a number that names the object. Sequential code is a function from state
  to state; \<open>None\<close> is an abort, a failed assertion, an access out of bounds, an uncaught exception or
  a loop that does not end. Concurrent code is a transition system or a sequence of events
  whose steps are the atomic operations or critical sections of the code. System calls and what
  the machine reports are arguments. Integers whose overflow the code can meet are words.

  \<^bold>\<open>Theories.\<close>

  \<^item> \<open>Prelude\<close>: words, head words, distances, counting in lists.

  \<^item> Malloc spaces (\<open>ptmalloc3-malloc.c\<close> with \<open>ptmalloc3-malloc-numa.h\<close>). \<open>Pt_Sizes\<close>: sizes, alignment,
  bin indices and maps (the macros of the first third of the file). \<open>Pt_State\<close>: \<open>struct
  malloc_state\<close>, chunk heads and feet, runtime checks; chunk fields are slots of one heap.
  \<open>Pt_Smallbins\<close>, \<open>Pt_Tree_Ops\<close>, \<open>Pt_Tree_Unlink\<close>, \<open>Pt_Treebins\<close>, \<open>Pt_Bins\<close>: the linking and unlinking
  macros, as operations on rings (\<open>Pt_Rings\<close>) and tries (\<open>Pt_Tries\<close>), and both families of bins as
  instances of the interface \<open>chunk_store\<close> (\<open>Pt_Store\<close>). \<open>Pt_System\<close>: parameters, segments,
  \<open>sys_alloc\<close>, \<open>sys_trim\<close>. \<open>Pt_Malloc\<close>: \<open>mspace_malloc\<close>, \<open>mspace_free\<close>. \<open>Pt_Api\<close>: the rest of the
  \<open>mspace\<close> interface.
  What a space promises as a whole: \<open>Pt_Layout\<close>: the chunks lie one behind the other, what heads and feet
  say of them, which memory is whose. \<open>Pt_Search\<close>: the tree searches find a best fit. \<open>Pt_Carve\<close>: the
  well-formed space (\<open>space_ok\<close>) and the steps that cut a free chunk or the top chunk. \<open>Pt_Alloc\<close>,
  \<open>Pt_Free\<close>: \<open>mspace_malloc\<close> and \<open>mspace_free\<close> on a well-formed space, on every path. \<open>Pt_Space\<close>:
  \<open>create_mspace_with_base\<close> makes one, users' writes keep it. \<open>Pt_Client\<close>: the interface
  \<open>block_store\<close> of an allocator, any program on it, and malloc spaces as its instance. \<open>Pt_Props\<close>: the
  properties of the calls one by one.

  \<^item> Memory sources. \<open>Numa_Mmap\<close>: \<open>mmaphelper.cpp\<close>. \<open>Msource\<close>, \<open>Msource_Api\<close>: \<open>msource.cpp\<close>;
  \<open>Msource_Props\<close>: the counter of blocks and references, the list of mapped blocks; \<open>Msource_Align\<close>:
  aligned blocks of an arena from allocation to release, over the malloc space's contract.
  \<open>Stackedmalloc\<close>, \<open>Stackedmalloc_Api\<close>: \<open>stackedmalloc.cpp\<close> and \<open>malloc.hpp\<close>, and that nested guards
  restore the places.

  \<^item> The machine. \<open>Topology\<close>, \<open>Strutil\<close>: \<open>topology.cpp\<close>, \<open>node.cpp\<close>, \<open>strutil.cpp\<close>, and that the two
  numberings of nodes agree; \<open>Neighbors\<close>: what \<open>nearestNeighbors\<close> returns, from the machine's files of
  distances on.

  \<^item> Locks. \<open>Backoff\<close>: \<open>spinlock.hpp\<close>; \<open>Rwlock\<close>: \<open>rwlock.hpp\<close>; both exclude. The back-off
  counter of a spin lock is shared, so \<open>try_lock\<close> runs against what others do to it. \<open>Shared_Objects\<close>:
  \<open>ref_ptr.hpp\<close>, \<open>mutex.hpp\<close>, \<open>node_replicated.hpp\<close>, \<open>singleton.hpp\<close>; counts, which are 32-bit words, are
  exact below \<open>2 ^ 31\<close> pointers, and the mutex is a queue for threads that only unlock what they hold
  (the code does not check it; \<open>unlock_by_other\<close> shows two holders otherwise).

  \<^item> Tasks. \<open>Task_Queue\<close>: \<open>task_collection.cpp\<close> and the class \<open>SchedulingDomain\<close>; \<open>Task_Pool\<close>: the
  interface of a pool of tasks, which \<open>Task_Domain\<close> shows domains to have. \<open>Scheduler\<close>,
  \<open>Scheduler_Props\<close>, \<open>Scheduler_End\<close>: \<open>thread_manager.cpp\<close> and \<open>task_scheduler.cpp\<close>. \<open>Task_Sync\<close>,
  \<open>Task_Sync_Props\<close>: \<open>synchronizable.hpp\<close> and \<open>task_base.cpp\<close>, what one waiting task sees: no wake-up is
  lost. \<open>Sync_Net\<close>: any number of waiting tasks and triggerables, with all their locks; each task's
  view of it is a run of \<open>Task_Sync\<close>; it ends well if all tasks list what they wait for in one common order,
  and can deadlock if not. \<open>Worker\<close>,
  \<open>Worker_Props\<close>: \<open>worker_thread.cpp\<close> and \<open>context.hpp\<close>, no assertion fails.

  \<^item> Containers. \<open>Hash_Table\<close>: \<open>hashtable.hpp\<close>; \<open>Hash_Table_Inv\<close>: the invariant of a bin;
  \<open>Dictionary\<close>: the interface of a map, which \<open>Hash_Table_Props\<close> shows the table to have.
  \<open>Iteration\<close>: the iterators of \<open>hashtable.hpp\<close> and \<open>containers.hpp\<close>; \<open>Iterator\<close>: their interface;
  \<open>Iteration_Props\<close>: they yield every element. \<open>Distribution\<close>: distributed iteration in
  \<open>containers.hpp\<close> and \<open>forEachThread\<close>, \<open>onceForEachNode\<close> of \<open>task_interface.cpp\<close>;
  \<open>Distribution_Props\<close>: every element exactly once.

  \<^bold>\<open>Bounds and loops.\<close> Loops over linked structures are \<open>partial_function\<close>s; the theorems about them
  show that they return. The spin lock's \<open>try_lock\<close> is one of them; a theorem bounds
  its tests by the back-off policy, if no other thread lowers the counter meanwhile.
  Distributed iteration is run by a list of thread numbers, the schedule; \<open>enough_turns\<close> states
  how many turns of every thread it must contain. Tree-bin sizes, and with them the spaces that
  \<open>space_ok\<close> speaks of, are bounded by \<open>2 ^ 40\<close>, where the bin index of the x86 code is cut;
  \<open>compute_tree_index_truncation\<close> shows it. The searches over trees are shown to end for every
  well-formed space, with no bound on its chunks. \<open>space_ok\<close> is about spaces of one segment that the
  space does not own, as \<open>create_mspace_with_base\<close> makes them and arenas use them; spaces that
  \<open>sys_alloc\<close> extends are modelled, but only the bins' properties cover them.

  \<^bold>\<open>Atomicity.\<close> The spin locks, the reader-writer lock, the waiting protocol, the worker threads and
  distributed iteration are interleavings. Elsewhere an operation is one step: those of memory
  sources, schedulers and reference counts, of the queues of tasks (\<open>deregister_thread\<close> too, which in the
  code drains a queue that others may still put into) and of the hash table, whose \<open>operator[]\<close> in
  the code releases the bucket between search and insertion.

  \<^bold>\<open>Not modelled.\<close> \<open>dlmalloc-malloc.c\<close>, a second allocator, compiled in place of \<open>ptmalloc3-malloc.c\<close> if
  the build is configured for it; formatting and
  logging; timers; allocator classes that pass calls on; \<open>SyncVector\<close> and its kin, which put a
  lock around a standard container; \<open>hashtable_lockfree.hpp\<close> and \<open>hashtable/rwlock.hpp\<close>, which nothing
  includes; start-up of the process and of thread storage through \<open>pthread\<close> keys.
\<close>

end
